(* ===== verification/Prelude.thy ===== *)
theory Prelude
  imports Main "HOL-Library.Word"
begin

text \<open>
  Shared vocabulary of the development: the collections of automation hints, the Go string
  operations the components call (\<^verbatim>\<open>strings.Index\<close>, \<^verbatim>\<open>strings.HasPrefix\<close>,
  \<^verbatim>\<open>strings.TrimSpace\<close>) on byte strings, the error-as-value combinator, and the two
  interfaces for stream parsers (\<open>chunk_machine\<close>, \<open>chunk_transducer\<close>), whose laws say
  that chunk boundaries carry no meaning.

  A Go \<^verbatim>\<open>string\<close> is a sequence of bytes, so it is an Isabelle \<open>string\<close> (a list of
  8-bit \<open>char\<close>s); \<open>length\<close> is Go's \<^verbatim>\<open>len\<close>. A Go \<^verbatim>\<open>[]byte\<close> is a list of
  \<open>8 word\<close>. A \<^verbatim>\<open>uint64\<close> identifier is a \<open>64 word\<close>.
\<close>

named_theorems wf_intros \<open>facts that an operation keeps its component's invariant\<close>
named_theorems op_simps \<open>conditional rewrite rules for the operations' results\<close>

type_synonym byte = "8 word"
type_synonym uint64 = "64 word"
type_synonym tenant_id = uint64

lemma unat_zero_iff [simp]: "unat x = 0 \<longleftrightarrow> x = 0"
  by (rule unsigned_eq_0_iff)

section \<open>Errors as values\<close>

text \<open>A Go function that returns \<^verbatim>\<open>(T, error)\<close> is a sum: \<open>Inl\<close> the error, \<open>Inr\<close> the value.\<close>

definition require_ok :: "bool \<Rightarrow> 'e \<Rightarrow> 'e + unit" where
  "require_ok b e = (if b then Inr () else Inl e)"

fun bind_sum :: "'e + 'a \<Rightarrow> ('a \<Rightarrow> 'e + 'b) \<Rightarrow> 'e + 'b" where
  "bind_sum (Inl e) f = Inl e"
| "bind_sum (Inr a) f = f a"

lemma require_ok_Inr [simp]: "require_ok b e = Inr u \<longleftrightarrow> b"
  by (simp add: require_ok_def)

lemma require_ok_Inl [simp]: "require_ok b e = Inl x \<longleftrightarrow> \<not> b \<and> x = e"
  by (auto simp: require_ok_def)

lemma require_ok_cases: "require_ok True e = Inr ()" "require_ok False e = Inl e"
  by (simp_all add: require_ok_def)

lemma bind_sum_Inr: "bind_sum m f = Inr b \<longleftrightarrow> (\<exists>a. m = Inr a \<and> f a = Inr b)"
  by (cases m) auto

lemma bind_sum_Inl: "bind_sum m f = Inl e \<longleftrightarrow> m = Inl e \<or> (\<exists>a. m = Inr a \<and> f a = Inl e)"
  by (cases m) auto

section \<open>Lists without duplicates, in order\<close>

text \<open>
  The loop that several normalisers share: map each item, skip those that map to nothing, keep
  the first occurrence of each (Go's \<^verbatim>\<open>seen\<close> map).
\<close>

primrec collect_new :: "('a \<Rightarrow> 'b option) \<Rightarrow> 'b set \<Rightarrow> 'a list \<Rightarrow> 'b list" where
  "collect_new f seen [] = []"
| "collect_new f seen (x # xs) =
     (case f x of
        None \<Rightarrow> collect_new f seen xs
      | Some y \<Rightarrow> if y \<in> seen then collect_new f seen xs
                  else y # collect_new f (insert y seen) xs)"

lemma collect_new_set: "set (collect_new f seen xs) = {y. \<exists>x \<in> set xs. f x = Some y} - seen"
  by (induction xs arbitrary: seen) (auto split: option.splits)

lemma collect_new_distinct: "distinct (collect_new f seen xs)"
  by (induction xs arbitrary: seen) (auto simp: collect_new_set split: option.splits)

lemma collect_new_fixed:
  assumes "\<forall>y \<in> set ys. f y = Some y" "distinct ys" "set ys \<inter> seen = {}"
  shows "collect_new f seen ys = ys"
  using assms by (induction ys arbitrary: seen) auto

lemma collect_new_idem:
  assumes "\<And>x y. f x = Some y \<Longrightarrow> f y = Some y"
  shows "collect_new f {} (collect_new f {} xs) = collect_new f {} xs"
  using assms by (intro collect_new_fixed) (auto simp: collect_new_set collect_new_distinct)

lemma collect_new_Nil_iff: "collect_new f {} xs = [] \<longleftrightarrow> (\<forall>x \<in> set xs. f x = None)"
proof -
  have "collect_new f {} xs = [] \<longleftrightarrow> {y. \<exists>x \<in> set xs. f x = Some y} = {}"
    using collect_new_set [of f "{}" xs] by (metis Diff_empty set_empty)
  also have "\<dots> \<longleftrightarrow> (\<forall>x \<in> set xs. f x = None)"
    by (simp add: set_eq_iff) (metis not_None_eq)
  finally show ?thesis .
qed

section \<open>Go strings\<close>

definition has_prefix :: "'a list \<Rightarrow> 'a list \<Rightarrow> bool" where
  "has_prefix s p \<longleftrightarrow> take (length p) s = p"

definition has_suffix :: "'a list \<Rightarrow> 'a list \<Rightarrow> bool" where
  "has_suffix s p \<longleftrightarrow> length p \<le> length s \<and> drop (length s - length p) s = p"

text \<open>\<open>index_of s sub\<close> is \<^verbatim>\<open>strings.Index(s, sub)\<close>, with \<open>None\<close> for \<^verbatim>\<open>-1\<close>.\<close>

fun index_of :: "'a list \<Rightarrow> 'a list \<Rightarrow> nat option" where
  "index_of s sub =
     (if has_prefix s sub then Some 0
      else case s of [] \<Rightarrow> None | _ # t \<Rightarrow> map_option Suc (index_of t sub))"

declare index_of.simps [simp del]

definition contains_sub :: "'a list \<Rightarrow> 'a list \<Rightarrow> bool" where
  "contains_sub s sub \<longleftrightarrow> index_of s sub \<noteq> None"

lemma has_prefix_append [simp]: "has_prefix (p @ t) p"
  by (simp add: has_prefix_def)

lemma has_prefix_iff: "has_prefix s p \<longleftrightarrow> (\<exists>t. s = p @ t)"
  by (metis append_eq_conv_conj append_take_drop_id has_prefix_def)

lemma has_suffix_append [simp]: "has_suffix (t @ p) p"
  by (simp add: has_suffix_def)

lemma has_suffix_iff: "has_suffix s p \<longleftrightarrow> (\<exists>t. s = t @ p)"
  by (metis append_take_drop_id has_suffix_append has_suffix_def)

lemma index_of_SomeD:
  "index_of s sub = Some i \<Longrightarrow>
     has_prefix (drop i s) sub \<and> i + length sub \<le> length s \<and> (\<forall>j < i. \<not> has_prefix (drop j s) sub)"
proof (induction s sub arbitrary: i rule: index_of.induct)
  case (1 s sub)
  show ?case
  proof (cases "has_prefix s sub")
    case True
    with "1.prems" have "i = 0" by (simp add: index_of.simps [of s sub])
    moreover from True obtain t where "s = sub @ t" by (auto simp: has_prefix_iff)
    ultimately show ?thesis by simp
  next
    case False
    with "1.prems" obtain c t k where s: "s = c # t" and k: "index_of t sub = Some k" "i = Suc k"
      by (auto simp: index_of.simps [of s sub] split: list.splits)
    from "1.IH" [OF False s k(1)]
    have IH: "has_prefix (drop k t) sub" "k + length sub \<le> length t"
      "\<forall>j < k. \<not> has_prefix (drop j t) sub" by auto
    have "\<not> has_prefix (drop j s) sub" if "j < i" for j
      using that IH(3) False s k(2) by (cases j) auto
    with IH(1,2) s k(2) show ?thesis by simp
  qed
qed

lemma index_of_NoneD: "index_of s sub = None \<Longrightarrow> \<not> has_prefix (drop j s) sub"
proof (induction s sub arbitrary: j rule: index_of.induct)
  case (1 s sub)
  then have np: "\<not> has_prefix s sub"
    by (auto simp: index_of.simps [of s sub] split: if_splits)
  show ?case
  proof (cases s)
    case Nil
    with np show ?thesis by simp
  next
    case (Cons c t)
    with np "1.prems" have "index_of t sub = None" by (simp add: index_of.simps [of "c # t" sub])
    with "1.IH" [OF np Cons] np Cons show ?thesis by (cases j) auto
  qed
qed

lemma index_of_SomeI:
  assumes "has_prefix (drop i s) sub" "i \<le> length s" "\<forall>j < i. \<not> has_prefix (drop j s) sub"
  shows "index_of s sub = Some i"
proof (cases "index_of s sub")
  case None
  with assms(1) show ?thesis using index_of_NoneD by blast
next
  case (Some k)
  from index_of_SomeD [OF this] assms have "k = i"
    by (metis linorder_neqE_nat)
  with Some show ?thesis by simp
qed

lemma index_of_NoneI: "(\<And>j. \<not> has_prefix (drop j s) sub) \<Longrightarrow> index_of s sub = None"
  using index_of_SomeD by (cases "index_of s sub") blast+

lemma index_of_append: "index_of s sub = Some i \<Longrightarrow> index_of (s @ t) sub = Some i"
proof (rule index_of_SomeI)
  assume i: "index_of s sub = Some i"
  from index_of_SomeD [OF this] have p: "has_prefix (drop i s) sub" and b: "i + length sub \<le> length s"
    and least: "\<forall>j < i. \<not> has_prefix (drop j s) sub" by auto
  from p b show "has_prefix (drop i (s @ t)) sub" "i \<le> length (s @ t)"
    by (auto simp: has_prefix_iff)
  show "\<forall>j < i. \<not> has_prefix (drop j (s @ t)) sub"
  proof (intro allI impI notI)
    fix j assume "j < i" and q: "has_prefix (drop j (s @ t)) sub"
    with b have "length sub \<le> length (drop j s)" and "drop j (s @ t) = drop j s @ t" by auto
    with q have "has_prefix (drop j s) sub" by (simp add: has_prefix_def)
    with least \<open>j < i\<close> show False by blast
  qed
qed

lemma index_of_split:
  "index_of s sub = Some i \<Longrightarrow> s = take i s @ sub @ drop (i + length sub) s"
  using index_of_SomeD [of s sub i]
  by (metis add.commute append_take_drop_id drop_drop has_prefix_def)

lemma contains_sub_iff: "contains_sub s sub \<longleftrightarrow> (\<exists>u v. s = u @ sub @ v)"
proof
  assume "contains_sub s sub"
  then show "\<exists>u v. s = u @ sub @ v"
    unfolding contains_sub_def using index_of_split by blast
next
  assume "\<exists>u v. s = u @ sub @ v"
  then obtain u v where "s = u @ sub @ v" by blast
  then have "has_prefix (drop (length u) s) sub" by simp
  then show "contains_sub s sub"
    unfolding contains_sub_def using index_of_NoneD by blast
qed

subsection \<open>strings.TrimSpace\<close>

text \<open>
  The UTF-8 encodings of the runes for which Go's \<^verbatim>\<open>unicode.IsSpace\<close> holds:
  tab, line feed, vertical tab, form feed, carriage return, space, U+0085, U+00A0, U+1680,
  U+2000..U+200A, U+2028, U+2029, U+202F, U+205F, U+3000.
\<close>

definition utf8_spaces :: "string list" where
  "utf8_spaces =
     map (\<lambda>c. [c]) [CHR 0x09, CHR 0x0A, CHR 0x0B, CHR 0x0C, CHR 0x0D, CHR 0x20] @
     [[CHR 0xC2, CHR 0x85], [CHR 0xC2, CHR 0xA0], [CHR 0xE1, CHR 0x9A, CHR 0x80]] @
     map (\<lambda>c. [CHR 0xE2, CHR 0x80, c])
       [CHR 0x80, CHR 0x81, CHR 0x82, CHR 0x83, CHR 0x84, CHR 0x85, CHR 0x86, CHR 0x87,
        CHR 0x88, CHR 0x89, CHR 0x8A, CHR 0xA8, CHR 0xA9, CHR 0xAF] @
     [[CHR 0xE2, CHR 0x81, CHR 0x9F], [CHR 0xE3, CHR 0x80, CHR 0x80]]"

lemma utf8_spaces_nonempty: "w \<in> set utf8_spaces \<Longrightarrow> w \<noteq> []"
  by (auto simp: utf8_spaces_def)

lemma find_spaceD:
  "find P utf8_spaces = Some w \<Longrightarrow> w \<noteq> [] \<and> P w"
  using utf8_spaces_nonempty by (auto simp: find_Some_iff)

lemma has_prefix_shorter: "has_prefix s w \<Longrightarrow> w \<noteq> [] \<Longrightarrow> length s - length w < length s"
  by (auto simp: has_prefix_iff)

lemma has_suffix_shorter: "has_suffix s w \<Longrightarrow> w \<noteq> [] \<Longrightarrow> length s - length w < length s"
  by (auto simp: has_suffix_iff)

function trim_left :: "string \<Rightarrow> string" where
  "trim_left s =
     (case find (has_prefix s) utf8_spaces of
        None \<Rightarrow> s
      | Some w \<Rightarrow> trim_left (drop (length w) s))"
  by pat_completeness auto
termination
  by (relation "measure length") (auto dest!: find_spaceD has_prefix_shorter)

function trim_right :: "string \<Rightarrow> string" where
  "trim_right s =
     (case find (has_suffix s) utf8_spaces of
        None \<Rightarrow> s
      | Some w \<Rightarrow> trim_right (take (length s - length w) s))"
  by pat_completeness auto
termination
  by (relation "measure length") (auto dest!: find_spaceD has_suffix_shorter)

declare trim_left.simps [simp del] trim_right.simps [simp del]

definition trim_space :: "string \<Rightarrow> string" where
  "trim_space s = trim_right (trim_left s)"

definition starts_blank :: "string \<Rightarrow> bool" where
  "starts_blank s \<longleftrightarrow> find (has_prefix s) utf8_spaces \<noteq> None"

definition ends_blank :: "string \<Rightarrow> bool" where
  "ends_blank s \<longleftrightarrow> find (has_suffix s) utf8_spaces \<noteq> None"

lemma trim_left_blank: "\<not> starts_blank (trim_left s)"
proof (induction s rule: trim_left.induct)
  case (1 s)
  then show ?case
    by (cases "find (has_prefix s) utf8_spaces")
      (simp_all add: trim_left.simps [of s] starts_blank_def)
qed

lemma trim_right_blank: "\<not> ends_blank (trim_right s)"
proof (induction s rule: trim_right.induct)
  case (1 s)
  then show ?case
    by (cases "find (has_suffix s) utf8_spaces")
      (simp_all add: trim_right.simps [of s] ends_blank_def)
qed

lemma trim_left_id: "\<not> starts_blank s \<Longrightarrow> trim_left s = s"
  by (subst trim_left.simps) (simp add: starts_blank_def)

lemma trim_right_id: "\<not> ends_blank s \<Longrightarrow> trim_right s = s"
  by (subst trim_right.simps) (simp add: ends_blank_def)

lemma trim_right_prefix: "\<exists>t. s = trim_right s @ t"
proof (induction s rule: trim_right.induct)
  case (1 s)
  show ?case
  proof (cases "find (has_suffix s) utf8_spaces")
    case None
    then show ?thesis by (subst trim_right.simps) simp
  next
    case (Some w)
    from "1.IH" [OF Some] obtain t where "take (length s - length w) s = trim_right s @ t"
      using Some by (auto simp: trim_right.simps [of s])
    then have "s = trim_right s @ (t @ drop (length s - length w) s)"
      by (metis append.assoc append_take_drop_id)
    then show ?thesis by blast
  qed
qed

lemma starts_blank_append: "starts_blank s \<Longrightarrow> starts_blank (s @ t)"
  unfolding starts_blank_def
  by (auto simp: find_None_iff has_prefix_iff)

lemma trim_space_not_starts: "\<not> starts_blank (trim_space s)"
proof
  assume "starts_blank (trim_space s)"
  moreover obtain t where "trim_left s = trim_right (trim_left s) @ t"
    using trim_right_prefix by blast
  ultimately have "starts_blank (trim_left s)"
    using starts_blank_append unfolding trim_space_def by metis
  then show False using trim_left_blank by blast
qed

lemma trim_space_idem [simp]: "trim_space (trim_space s) = trim_space s"
  using trim_space_not_starts [of s] trim_right_blank [of "trim_left s"]
  by (simp add: trim_space_def trim_left_id trim_right_id)

lemma trim_space_Nil [simp]: "trim_space [] = []"
  by (simp add: trim_space_def trim_left.simps trim_right.simps utf8_spaces_def
      has_prefix_def has_suffix_def)

subsection \<open>strings.ToLower\<close>

text \<open>
  Exact on the ASCII letters, and on the two runes outside ASCII whose lower case is an ASCII
  letter (U+0130 to \<^verbatim>\<open>i\<close>, U+212A to \<^verbatim>\<open>k\<close>). Every other rune keeps non-ASCII
  bytes; they are left as they are, which is exact for the comparisons with ASCII constants the
  code makes with the result.
\<close>

definition ascii_lower :: "char \<Rightarrow> char" where
  "ascii_lower c =
     (if 65 \<le> (of_char c :: nat) \<and> (of_char c :: nat) \<le> 90
      then char_of ((of_char c :: nat) + 32) else c)"

function to_lower :: "string \<Rightarrow> string" where
  "to_lower s =
     (case s of
        [] \<Rightarrow> []
      | c # t \<Rightarrow>
          if take 2 s = [CHR 0xC4, CHR 0xB0] then CHR ''i'' # to_lower (drop 2 s)
          else if take 3 s = [CHR 0xE2, CHR 0x84, CHR 0xAA] then CHR ''k'' # to_lower (drop 3 s)
          else ascii_lower c # to_lower t)"
  by pat_completeness auto
termination
  by (relation "measure length") auto

declare to_lower.simps [simp del]

text \<open>Lower-case ASCII words without blanks are left alone by both functions.\<close>

definition plain_char :: "char \<Rightarrow> bool" where
  "plain_char c \<longleftrightarrow>
     33 \<le> (of_char c :: nat) \<and> (of_char c :: nat) < 127 \<and> \<not> (65 \<le> (of_char c :: nat) \<and> (of_char c :: nat) \<le> 90)"

definition plain_word :: "string \<Rightarrow> bool" where
  "plain_word s \<longleftrightarrow> list_all plain_char s"

lemma utf8_spaces_not_plain: "w \<in> set utf8_spaces \<Longrightarrow> w \<noteq> [] \<and> \<not> plain_char (hd w) \<and> \<not> plain_char (last w)"
  by (auto simp: utf8_spaces_def plain_char_def)

lemma plain_word_trim: "plain_word s \<Longrightarrow> trim_space s = s"
proof -
  assume p: "plain_word s"
  have "\<not> has_prefix s w \<and> \<not> has_suffix s w" if "w \<in> set utf8_spaces" for w
    using utf8_spaces_not_plain [OF that] p
    by (cases w rule: rev_cases; cases w) (auto simp: has_prefix_iff has_suffix_iff plain_word_def)
  then have "\<not> starts_blank s" "\<not> ends_blank s"
    by (auto simp: starts_blank_def ends_blank_def find_None_iff)
  then show ?thesis by (simp add: trim_space_def trim_left_id trim_right_id)
qed

lemma to_lower_Nil [simp]: "to_lower [] = []"
  by (simp add: to_lower.simps)

lemma plain_word_lower: "plain_word s \<Longrightarrow> to_lower s = s"
proof (induction s)
  case Nil
  then show ?case by (simp add: to_lower.simps)
next
  case (Cons c s)
  then have "plain_char c" "plain_word s" by (simp_all add: plain_word_def)
  moreover from this have "c \<noteq> CHR 0xC4" "c \<noteq> CHR 0xE2" by (auto simp: plain_char_def)
  ultimately show ?case
    using Cons.IH by (subst to_lower.simps) (auto simp: ascii_lower_def plain_char_def)
qed

section \<open>Decimal numerals\<close>

text \<open>The verb \<^verbatim>\<open>%d\<close> for a number that is not negative, and its zero-padded form \<^verbatim>\<open>%0*d\<close>.\<close>

fun dec :: "nat \<Rightarrow> string" where
  "dec n = (if n < 10 then [char_of (48 + n)] else dec (n div 10) @ [char_of (48 + n mod 10)])"

declare dec.simps [simp del]

definition pad_zero :: "nat \<Rightarrow> string \<Rightarrow> string" where
  "pad_zero w s = replicate (w - length s) (CHR ''0'') @ s"

definition digit_value :: "char \<Rightarrow> nat" where
  "digit_value c = of_char c - 48"

definition undec :: "string \<Rightarrow> nat" where
  "undec s = foldl (\<lambda>n c. 10 * n + digit_value c) 0 s"

lemma digit_value_char: "d < 10 \<Longrightarrow> digit_value (char_of (48 + d)) = d"
  by (simp add: digit_value_def)

lemma undec_dec: "undec (dec n) = n"
proof (induction n rule: dec.induct)
  case (1 n)
  show ?case
  proof (cases "n < 10")
    case True
    then show ?thesis by (simp add: dec.simps [of n] undec_def digit_value_char)
  next
    case False
    from "1" [OF False] show ?thesis
      by (simp add: dec.simps [of n] False undec_def digit_value_char)
  qed
qed

lemma undec_pad: "undec (pad_zero w s) = undec s"
proof -
  have "foldl (\<lambda>n c. 10 * n + digit_value c) 0 (replicate k (CHR ''0'')) = 0" for k
    by (induction k) (simp_all add: digit_value_def)
  then show ?thesis by (simp add: undec_def pad_zero_def)
qed

lemma dec_inj [simp]: "dec m = dec n \<longleftrightarrow> m = n"
  by (metis undec_dec)

lemma dec_nonempty [simp]: "dec n \<noteq> []"
  by (subst dec.simps) simp

definition is_digit :: "char \<Rightarrow> bool" where
  "is_digit c \<longleftrightarrow> 48 \<le> (of_char c :: nat) \<and> (of_char c :: nat) \<le> 57"

lemma dec_digits: "c \<in> set (dec n) \<Longrightarrow> is_digit c"
proof (induction n rule: dec.induct)
  case (1 n)
  show ?case
  proof (cases "n < 10")
    case True
    with "1.prems" show ?thesis by (simp add: dec.simps [of n] is_digit_def)
  next
    case False
    with "1" show ?thesis by (auto simp: dec.simps [of n] is_digit_def)
  qed
qed

section \<open>Stream parsers: chunk boundaries carry no meaning\<close>

primrec feed_all :: "('s \<Rightarrow> 'c list \<Rightarrow> 'o \<times> 's) \<Rightarrow> ('o \<Rightarrow> 'o \<Rightarrow> 'o) \<Rightarrow> 'o \<Rightarrow> 's \<Rightarrow> 'c list list \<Rightarrow> 'o \<times> 's" where
  "feed_all feed comb unit s [] = (unit, s)"
| "feed_all feed comb unit s (c # cs) =
     (case feed s c of (o1, s1) \<Rightarrow>
        (case feed_all feed comb unit s1 cs of (o2, s2) \<Rightarrow> (comb o1 o2, s2)))"

locale chunk_machine =
  fixes step :: "'s \<Rightarrow> 'c list \<Rightarrow> 's" and inv :: "'s \<Rightarrow> bool"
  assumes step_inv: "inv s \<Longrightarrow> inv (step s xs)"
    and step_nil: "inv s \<Longrightarrow> step s [] = s"
    and step_append: "inv s \<Longrightarrow> step s (xs @ ys) = step (step s xs) ys"
begin

lemma steps_concat: "inv s \<Longrightarrow> foldl step s css = step s (concat css)"
  by (induction css arbitrary: s) (auto simp: step_nil step_append step_inv)

lemma steps_inv: "inv s \<Longrightarrow> inv (foldl step s css)"
  by (induction css arbitrary: s) (auto intro: step_inv)

lemma rechunk_state: "inv s \<Longrightarrow> concat css = concat dss \<Longrightarrow> foldl step s css = foldl step s dss"
  by (simp add: steps_concat)

end

locale chunk_transducer =
  fixes feed :: "'s \<Rightarrow> 'c list \<Rightarrow> 'o \<times> 's" and comb :: "'o \<Rightarrow> 'o \<Rightarrow> 'o" and unit :: "'o"
    and inv :: "'s \<Rightarrow> bool"
  assumes comb_assoc: "comb (comb a b) c = comb a (comb b c)"
    and comb_unit_left: "comb unit a = a"
    and comb_unit_right: "comb a unit = a"
    and feed_inv: "inv s \<Longrightarrow> inv (snd (feed s xs))"
    and feed_nil: "inv s \<Longrightarrow> feed s [] = (unit, s)"
    and feed_append: "inv s \<Longrightarrow> feed s (xs @ ys) =
          (case feed s xs of (o1, s1) \<Rightarrow> (case feed s1 ys of (o2, s2) \<Rightarrow> (comb o1 o2, s2)))"
begin

lemma feed_all_concat: "inv s \<Longrightarrow> feed_all feed comb unit s css = feed s (concat css)"
proof (induction css arbitrary: s)
  case Nil
  then show ?case by (simp add: feed_nil)
next
  case (Cons c cs)
  obtain o1 s1 where fc: "feed s c = (o1, s1)" by force
  with feed_inv [OF Cons.prems, of c] have "inv s1" by simp
  with Cons.IH Cons.prems fc show ?case by (simp add: feed_append)
qed

lemma rechunk:
  "inv s \<Longrightarrow> concat css = concat dss \<Longrightarrow>
     feed_all feed comb unit s css = feed_all feed comb unit s dss"
  by (simp add: feed_all_concat)

end

sublocale chunk_transducer \<subseteq> state: chunk_machine "\<lambda>s xs. snd (feed s xs)" inv
  by unfold_locales (auto simp: feed_inv feed_nil feed_append split: prod.splits)

section \<open>Ranked permissions\<close>

text \<open>
  Roles and knowledge-base permissions are strings ordered by a numeric level, and a value
  satisfies a requirement when its level is at least the required one. An unknown value has
  level 0 and is not valid. The laws below are what the access checks rely on: an invalid
  value satisfies no valid requirement, and a check against a valid requirement is monotone.
\<close>

locale ranked =
  fixes level :: "'p \<Rightarrow> nat" and valid :: "'p \<Rightarrow> bool" and permits :: "'p \<Rightarrow> 'p \<Rightarrow> bool"
  assumes permits_iff: "permits p q \<longleftrightarrow> level q \<le> level p"
    and valid_iff: "valid p \<longleftrightarrow> 0 < level p"
begin

lemma permits_refl: "permits p p"
  by (simp add: permits_iff)

lemma permits_trans: "permits p q \<Longrightarrow> permits q r \<Longrightarrow> permits p r"
  by (simp add: permits_iff)

lemma permits_total: "permits p q \<or> permits q p"
  by (auto simp: permits_iff)

lemma permits_valid: "permits p q \<Longrightarrow> valid q \<Longrightarrow> valid p"
  by (simp add: permits_iff valid_iff)

lemma invalid_permits_nothing_valid: "\<not> valid p \<Longrightarrow> valid q \<Longrightarrow> \<not> permits p q"
  using permits_valid by blast

end

end
