(* ===== verification/Ip_Class.thy ===== *)
theory Ip_Class
  imports Prelude
begin

unbundle bit_operations_syntax

text \<open>
  \<^verbatim>\<open>internal/ipclass/ipclass.go\<close>: the address classification shared by the SSRF guards.
  A \<^verbatim>\<open>net.IP\<close> is its byte slice (4 or 16 bytes when well formed). The predicates of
  \<^verbatim>\<open>net.IP\<close> and \<^verbatim>\<open>net.IPNet\<close> the code calls come first, as the Go standard library
  documents them; then the package's own table and its \<^verbatim>\<open>Classify\<close>. The lemmas show that
  the verdict fails closed, equals an explicit interval specification on IPv4, does not
  depend on the table's order, and cannot be dodged by wrapping an address in IPv6.
\<close>

type_synonym ip = "byte list"

section \<open>The net package's predicates\<close>

definition is_zeros :: "byte list \<Rightarrow> bool" where
  "is_zeros b \<longleftrightarrow> (\<forall>v \<in> set b. v = 0)"

definition to4 :: "ip \<Rightarrow> ip option" where
  "to4 x =
     (if length x = 4 then Some x
      else if length x = 16 \<and> is_zeros (take 10 x) \<and> x ! 10 = 0xff \<and> x ! 11 = 0xff
      then Some (drop 12 x) else None)"

definition v4_in_v6_prefix :: "byte list" where
  "v4_in_v6_prefix = [0, 0, 0, 0, 0, 0, 0, 0, 0, 0, 0xff, 0xff]"

definition ip_equal :: "ip \<Rightarrow> ip \<Rightarrow> bool" where
  "ip_equal x y =
     (if length x = length y then x = y
      else if length x = 4 \<and> length y = 16
      then take 12 y = v4_in_v6_prefix \<and> x = drop 12 y
      else if length x = 16 \<and> length y = 4
      then take 12 x = v4_in_v6_prefix \<and> drop 12 x = y
      else False)"

definition v4_zero :: ip where "v4_zero = v4_in_v6_prefix @ [0, 0, 0, 0]"
definition v6_unspecified :: ip where "v6_unspecified = [0, 0, 0, 0, 0, 0, 0, 0, 0, 0, 0, 0, 0, 0, 0, 0]"
definition v6_loopback :: ip where "v6_loopback = [0, 0, 0, 0, 0, 0, 0, 0, 0, 0, 0, 0, 0, 0, 0, 1]"

definition is_private :: "ip \<Rightarrow> bool" where
  "is_private x =
     (case to4 x of
        Some a \<Rightarrow> a ! 0 = 10 \<or> (a ! 0 = 172 \<and> a ! 1 AND 0xf0 = 16) \<or> (a ! 0 = 192 \<and> a ! 1 = 168)
      | None \<Rightarrow> length x = 16 \<and> x ! 0 AND 0xfe = 0xfc)"

definition is_loopback :: "ip \<Rightarrow> bool" where
  "is_loopback x =
     (case to4 x of Some a \<Rightarrow> a ! 0 = 127 | None \<Rightarrow> ip_equal x v6_loopback)"

definition is_link_local_unicast :: "ip \<Rightarrow> bool" where
  "is_link_local_unicast x =
     (case to4 x of
        Some a \<Rightarrow> a ! 0 = 169 \<and> a ! 1 = 254
      | None \<Rightarrow> length x = 16 \<and> x ! 0 = 0xfe \<and> x ! 1 AND 0xc0 = 0x80)"

definition is_link_local_multicast :: "ip \<Rightarrow> bool" where
  "is_link_local_multicast x =
     (case to4 x of
        Some a \<Rightarrow> a ! 0 = 224 \<and> a ! 1 = 0 \<and> a ! 2 = 0
      | None \<Rightarrow> length x = 16 \<and> x ! 0 = 0xff \<and> x ! 1 AND 0x0f = 0x02)"

definition is_multicast :: "ip \<Rightarrow> bool" where
  "is_multicast x =
     (case to4 x of
        Some a \<Rightarrow> a ! 0 AND 0xf0 = 0xe0
      | None \<Rightarrow> length x = 16 \<and> x ! 0 = 0xff)"

definition is_unspecified :: "ip \<Rightarrow> bool" where
  "is_unspecified x \<longleftrightarrow> ip_equal x v4_zero \<or> ip_equal x v6_unspecified"

text \<open>
  \<^verbatim>\<open>net.ParseCIDR\<close> of an IPv4 block yields the 4-byte network and its 4-byte mask, and
  \<^verbatim>\<open>IPNet.Contains\<close> compares the masked bytes one by one.
\<close>

record ip_net =
  net_text :: string
  net_addr :: "byte list"
  net_mask :: "byte list"

definition mask_byte :: "nat \<Rightarrow> byte" where
  "mask_byte n = NOT (mask (8 - min n 8))"

definition cidr_mask4 :: "nat \<Rightarrow> byte list" where
  "cidr_mask4 n = map (\<lambda>i. mask_byte (n - 8 * i)) [0, 1, 2, 3]"

definition parse_cidr4 :: "string \<Rightarrow> byte list \<Rightarrow> nat \<Rightarrow> ip_net" where
  "parse_cidr4 txt a n =
     \<lparr>net_text = txt, net_addr = map2 (AND) a (cidr_mask4 n), net_mask = cidr_mask4 n\<rparr>"

definition net_contains :: "ip_net \<Rightarrow> ip \<Rightarrow> bool" where
  "net_contains n x =
     (let y = (case to4 x of Some a \<Rightarrow> a | None \<Rightarrow> x)
      in length y = length (net_addr n) \<and>
         map2 (AND) (net_addr n) (net_mask n) = map2 (AND) y (net_mask n))"

section \<open>The package\<close>

datatype ip_class =
    Public | Invalid | Unspecified | Loopback | Private | CGNAT | LinkLocal | Multicast
  | SiteLocalIPv6 | Reserved | Documentation | Translated

definition restricted_ipv4_ranges :: "(ip_net \<times> ip_class) list" where
  "restricted_ipv4_ranges =
     [(parse_cidr4 ''100.64.0.0/10'' [100, 64, 0, 0] 10, CGNAT),
      (parse_cidr4 ''0.0.0.0/8'' [0, 0, 0, 0] 8, Reserved),
      (parse_cidr4 ''240.0.0.0/4'' [240, 0, 0, 0] 4, Reserved),
      (parse_cidr4 ''198.18.0.0/15'' [198, 18, 0, 0] 15, Reserved),
      (parse_cidr4 ''192.0.0.0/24'' [192, 0, 0, 0] 24, Reserved),
      (parse_cidr4 ''192.0.2.0/24'' [192, 0, 2, 0] 24, Documentation),
      (parse_cidr4 ''198.51.100.0/24'' [198, 51, 100, 0] 24, Documentation),
      (parse_cidr4 ''203.0.113.0/24'' [203, 0, 113, 0] 24, Documentation)]"

text \<open>The loop over the table: the first range that contains the address decides.\<close>

fun range_verdict :: "(ip_net \<times> ip_class) list \<Rightarrow> ip \<Rightarrow> ip_class \<times> string" where
  "range_verdict [] a = (Public, [])"
| "range_verdict ((n, c) # rs) a =
     (if net_contains n a then (c, ''restricted range '' @ net_text n) else range_verdict rs a)"

definition embedded_ipv4 :: "ip \<Rightarrow> (ip \<times> string) option" where
  "embedded_ipv4 x =
     (if x ! 0 = 0x20 \<and> x ! 1 = 0x02 then Some (take 4 (drop 2 x), ''6to4 embedded'')
      else if x ! 0 = 0 \<and> x ! 1 = 0x64 \<and> x ! 2 = 0xff \<and> x ! 3 = 0x9b \<and> is_zeros (take 8 (drop 4 x))
      then Some (take 4 (drop 12 x), ''NAT64 embedded'')
      else if is_zeros (take 12 x) then Some (take 4 (drop 12 x), ''IPv4-compatible'')
      else None)"

text \<open>The four fixed-prefix verdicts at the head of \<^verbatim>\<open>classifyIPv6\<close>.\<close>

definition ipv6_fixed :: "ip \<Rightarrow> (ip_class \<times> string) option" where
  "ipv6_fixed x =
     (if x ! 0 = 0 \<and> x ! 1 = 0x64 \<and> x ! 2 = 0xff \<and> x ! 3 = 0x9b \<and> x ! 4 = 0 \<and> x ! 5 = 1
      then Some (Translated, ''local-use NAT64 translation address'')
      else if x ! 0 = 0xfe \<and> x ! 1 AND 0xc0 = 0xc0
      then Some (SiteLocalIPv6, ''site-local IPv6 address'')
      else if x ! 0 AND 0xfe = 0xfc then Some (Private, ''unique local IPv6 address'')
      else if x ! 0 = 0x20 \<and> x ! 1 = 0x01 \<and> x ! 2 = 0 \<and> x ! 3 = 0
      then Some (Translated, ''Teredo tunneling address'')
      else None)"

lemma embedded_ipv4_length:
  "embedded_ipv4 x = Some (e, enc) \<Longrightarrow> length x = 16 \<Longrightarrow> length e = 4"
  by (auto simp: embedded_ipv4_def split: if_splits)

text \<open>
  \<^verbatim>\<open>Classify\<close> and \<^verbatim>\<open>classifyIPv6\<close> call each other; the second is inlined here, so
  the recursion is on the 4 bytes embedded in a 16-byte address.
\<close>

function classify :: "ip \<Rightarrow> ip_class \<times> string" where
  "classify x =
     (if length x \<noteq> 4 \<and> length x \<noteq> 16 then (Invalid, ''invalid address'')
      else if is_private x then (Private, ''private IP address'')
      else if is_loopback x then (Loopback, ''loopback address'')
      else if is_link_local_unicast x \<or> is_link_local_multicast x
      then (LinkLocal, ''link-local address'')
      else if is_multicast x then (Multicast, ''multicast address'')
      else if is_unspecified x then (Unspecified, ''unspecified address'')
      else case to4 x of
        Some a \<Rightarrow> range_verdict restricted_ipv4_ranges a
      | None \<Rightarrow>
          if length x = 16
          then (case ipv6_fixed x of
                  Some v \<Rightarrow> v
                | None \<Rightarrow>
                    (case embedded_ipv4 x of
                       Some (e, enc) \<Rightarrow>
                         (case classify e of (c, reason) \<Rightarrow>
                            if c \<noteq> Public then (Translated, enc @ '' '' @ reason) else (Public, []))
                     | None \<Rightarrow> (Public, [])))
          else (Public, []))"
  by pat_completeness auto
termination
  by (relation "measure length") (auto dest: embedded_ipv4_length)

declare classify.simps [simp del]

definition is_public :: "ip \<Rightarrow> bool" where
  "is_public x \<longleftrightarrow> fst (classify x) = Public"

section \<open>Bytes, masks and octets\<close>

lemma high_bits_agree:
  "(x::byte) AND NOT (mask j) = y AND NOT (mask j) \<longleftrightarrow> unat x div 2 ^ j = unat y div 2 ^ j"
proof -
  have eq: "z AND NOT (mask j) = push_bit j (drop_bit j z)" for z :: byte
    by (rule bit_eqI) (auto simp: bit_simps)
  have inj: "drop_bit j (push_bit j (drop_bit j z)) = drop_bit j z" for z :: byte
    by (rule bit_eqI) (auto simp: bit_simps dest: bit_imp_le_length)
  have "x AND NOT (mask j) = y AND NOT (mask j) \<longleftrightarrow> drop_bit j x = drop_bit j y"
    using inj eq by metis
  also have "\<dots> \<longleftrightarrow> unat (drop_bit j x) = unat (drop_bit j y)"
    by (rule word_eq_iff_unsigned)
  also have "\<dots> \<longleftrightarrow> drop_bit j (unat x) = drop_bit j (unat y)"
    by (simp only: unat_drop_bit_eq)
  finally show ?thesis by (simp only: drop_bit_eq_div)
qed

lemma masks: "0xf0 = NOT (mask 4 :: byte)" "0xfe = NOT (mask 1 :: byte)" "0xc0 = NOT (mask 6 :: byte)"
  by (simp_all add: mask_eq_exp_minus_1)

lemma and_f0: "(x::byte) AND 0xf0 = 0x10 \<longleftrightarrow> unat x div 16 = 1" 
  "(x::byte) AND 0xf0 = 0xe0 \<longleftrightarrow> unat x div 16 = 14"
  using high_bits_agree [where x = x and j = 4 and y = 16] high_bits_agree [where x = x and j = 4 and y = "0xe0"]
  by (simp_all add: masks [symmetric])

lemma contains_v4:
  "net_contains (parse_cidr4 t [p, q, r, s] n) [a, b, c, d] \<longleftrightarrow>
     unat a div 2 ^ (8 - min n 8) = unat p div 2 ^ (8 - min n 8) \<and>
     unat b div 2 ^ (8 - min (n - 8) 8) = unat q div 2 ^ (8 - min (n - 8) 8) \<and>
     unat c div 2 ^ (8 - min (n - 16) 8) = unat r div 2 ^ (8 - min (n - 16) 8) \<and>
     unat d div 2 ^ (8 - min (n - 24) 8) = unat s div 2 ^ (8 - min (n - 24) 8)"
  by (auto simp: net_contains_def parse_cidr4_def to4_def cidr_mask4_def mask_byte_def Let_def
      and.assoc high_bits_agree [symmetric])

lemma byte_less: "unat (x::byte) < 256"
proof -
  have "unat x < 2 ^ LENGTH(8)" by (rule unsigned_less)
  then show ?thesis by simp
qed

fun v4_spec :: "nat \<Rightarrow> nat \<Rightarrow> nat \<Rightarrow> nat \<Rightarrow> ip_class" where
  "v4_spec a b c d =
     (if a = 10 \<or> a = 172 \<and> 16 \<le> b \<and> b \<le> 31 \<or> a = 192 \<and> b = 168 then Private
      else if a = 127 then Loopback
      else if a = 169 \<and> b = 254 \<or> a = 224 \<and> b = 0 \<and> c = 0 then LinkLocal
      else if 224 \<le> a \<and> a \<le> 239 then Multicast
      else if a = 0 \<and> b = 0 \<and> c = 0 \<and> d = 0 then Unspecified
      else if a = 100 \<and> 64 \<le> b \<and> b \<le> 127 then CGNAT
      else if a = 0 \<or> 240 \<le> a \<or> a = 198 \<and> (b = 18 \<or> b = 19) \<or> a = 192 \<and> b = 0 \<and> c = 0 then Reserved
      else if a = 192 \<and> b = 0 \<and> c = 2 \<or> a = 198 \<and> b = 51 \<and> c = 100 \<or> a = 203 \<and> b = 0 \<and> c = 113
      then Documentation
      else Public)"

lemma byte_eq_unat: "(x::byte) = y \<longleftrightarrow> unat x = unat y"
  by (simp add: word_eq_iff_unsigned [where ?'a = nat])

lemma div_range: "0 < m \<Longrightarrow> n div m = k \<longleftrightarrow> k * m \<le> n \<and> n < k * m + m" for n m k :: nat
  using dividend_less_times_div [of m n]
  by (auto simp: div_nat_eqI mult.commute add.commute less_eq_div_iff_mult_less_eq)

lemmas div_eq = div_range [of 16 _ "Suc 0", simplified] div_range [of 16 _ 14, simplified]
  div_range [of 64 _ "Suc 0", simplified] div_range [of 16 _ 15, simplified]
  div_range [of 2 _ 9, simplified]

lemma byte_eq_numeral: "(x::byte) = numeral n \<longleftrightarrow> unat x = numeral n mod 256"
  by (simp add: byte_eq_unat unsigned_numeral take_bit_eq_mod)

lemma is_private_octets:
  "is_private [a, b, c, d] \<longleftrightarrow> unat a = 10 \<or> unat a = 172 \<and> 16 \<le> unat b \<and> unat b \<le> 31 \<or> unat a = 192 \<and> unat b = 168"
proof -
  have "is_private [a, b, c, d] \<longleftrightarrow> a = 10 \<or> a = 172 \<and> unat b div 16 = 1 \<or> a = 192 \<and> b = 168"
    by (simp add: is_private_def to4_def and_f0)
  also have "unat b div 16 = 1 \<longleftrightarrow> 16 \<le> unat b \<and> unat b \<le> 31"
    by (auto simp: div_eq)
  finally show ?thesis by (simp only: byte_eq_numeral) simp
qed

lemma is_loopback_octets: "is_loopback [a, b, c, d] \<longleftrightarrow> unat a = 127"
  by (simp add: is_loopback_def to4_def byte_eq_numeral)

lemma is_link_local_unicast_octets:
  "is_link_local_unicast [a, b, c, d] \<longleftrightarrow> unat a = 169 \<and> unat b = 254"
  by (simp add: is_link_local_unicast_def to4_def byte_eq_numeral)

lemma is_link_local_multicast_octets:
  "is_link_local_multicast [a, b, c, d] \<longleftrightarrow> unat a = 224 \<and> unat b = 0 \<and> unat c = 0"
  by (simp add: is_link_local_multicast_def to4_def byte_eq_numeral)

lemma is_multicast_octets: "is_multicast [a, b, c, d] \<longleftrightarrow> 224 \<le> unat a \<and> unat a \<le> 239"
  by (auto simp: is_multicast_def to4_def and_f0 div_eq)

lemma is_unspecified_octets:
  "is_unspecified [a, b, c, d] \<longleftrightarrow> unat a = 0 \<and> unat b = 0 \<and> unat c = 0 \<and> unat d = 0"
  by (simp add: is_unspecified_def ip_equal_def v4_zero_def v6_unspecified_def v4_in_v6_prefix_def)

lemmas v4_octets = is_private_octets is_loopback_octets is_link_local_unicast_octets
  is_link_local_multicast_octets is_multicast_octets is_unspecified_octets

lemma byte_div_256: "unat (x::byte) div 256 = 0"
  using byte_less [of x] by simp

lemma byte_div_16_15: "unat (x::byte) div 16 = 15 \<longleftrightarrow> 240 \<le> unat x"
  using byte_less [of x] by (simp add: div_eq)

lemma div_2_9: "(n::nat) div 2 = 9 \<longleftrightarrow> n = 18 \<or> n = 19"
  by arith

lemma v4_table:
  "net_contains (parse_cidr4 t [100, 64, 0, 0] 10) [a, b, c, d] \<longleftrightarrow> unat a = 100 \<and> 64 \<le> unat b \<and> unat b \<le> 127"
  "net_contains (parse_cidr4 t [0, 0, 0, 0] 8) [a, b, c, d] \<longleftrightarrow> unat a = 0"
  "net_contains (parse_cidr4 t [240, 0, 0, 0] 4) [a, b, c, d] \<longleftrightarrow> 240 \<le> unat a"
  "net_contains (parse_cidr4 t [198, 18, 0, 0] 15) [a, b, c, d] \<longleftrightarrow> unat a = 198 \<and> (unat b = 18 \<or> unat b = 19)"
  "net_contains (parse_cidr4 t [192, 0, 0, 0] 24) [a, b, c, d] \<longleftrightarrow> unat a = 192 \<and> unat b = 0 \<and> unat c = 0"
  "net_contains (parse_cidr4 t [192, 0, 2, 0] 24) [a, b, c, d] \<longleftrightarrow> unat a = 192 \<and> unat b = 0 \<and> unat c = 2"
  "net_contains (parse_cidr4 t [198, 51, 100, 0] 24) [a, b, c, d] \<longleftrightarrow> unat a = 198 \<and> unat b = 51 \<and> unat c = 100"
  "net_contains (parse_cidr4 t [203, 0, 113, 0] 24) [a, b, c, d] \<longleftrightarrow> unat a = 203 \<and> unat b = 0 \<and> unat c = 113"
  by (simp_all add: contains_v4 byte_div_256 byte_div_16_15 div_2_9)
     (auto simp: div_eq)

lemma v4_ranges:
  "fst (range_verdict restricted_ipv4_ranges [a, b, c, d]) =
    (let a = unat a; b = unat b; c = unat c in
     if a = 100 \<and> 64 \<le> b \<and> b \<le> 127 then CGNAT
      else if a = 0 \<or> 240 \<le> a \<or> a = 198 \<and> (b = 18 \<or> b = 19) \<or> a = 192 \<and> b = 0 \<and> c = 0 then Reserved
      else if a = 192 \<and> b = 0 \<and> c = 2 \<or> a = 198 \<and> b = 51 \<and> c = 100 \<or> a = 203 \<and> b = 0 \<and> c = 113
      then Documentation
      else Public)"
  by (simp only: restricted_ipv4_ranges_def range_verdict.simps v4_table Let_def) auto

lemma to4_4: "length a = 4 \<Longrightarrow> to4 a = Some a"
  by (simp add: to4_def)

lemma classify_v4:
  "length a = 4 \<Longrightarrow> classify a =
     (if is_private a then (Private, ''private IP address'')
      else if is_loopback a then (Loopback, ''loopback address'')
      else if is_link_local_unicast a \<or> is_link_local_multicast a
      then (LinkLocal, ''link-local address'')
      else if is_multicast a then (Multicast, ''multicast address'')
      else if is_unspecified a then (Unspecified, ''unspecified address'')
      else range_verdict restricted_ipv4_ranges a)"
  by (subst classify.simps) (simp add: to4_4)

lemma classify_v4_octets: "fst (classify [a,b,c,d]) = v4_spec (unat a) (unat b) (unat c) (unat d)"
  by (simp only: classify_v4 list.size if_distrib [of fst] fst_conv v4_octets v4_ranges Let_def v4_spec.simps)

definition mapped :: "ip \<Rightarrow> ip" where "mapped a = v4_in_v6_prefix @ a"

lemma to4_mapped: "length a = 4 \<Longrightarrow> to4 (mapped a) = Some a"
  by (simp add: to4_def mapped_def v4_in_v6_prefix_def is_zeros_def)

lemma is_unspecified_mapped: "length a = 4 \<Longrightarrow> is_unspecified (mapped a) = is_unspecified a"
  by (auto simp: is_unspecified_def ip_equal_def mapped_def v4_zero_def v6_unspecified_def v4_in_v6_prefix_def)

lemma length_mapped: "length a = 4 \<Longrightarrow> length (mapped a) = 16"
  by (simp add: mapped_def v4_in_v6_prefix_def)

lemma predicates_mapped:
  assumes "length a = 4"
  shows "is_private (mapped a) = is_private a" "is_loopback (mapped a) = is_loopback a"
    "is_link_local_unicast (mapped a) = is_link_local_unicast a"
    "is_link_local_multicast (mapped a) = is_link_local_multicast a"
    "is_multicast (mapped a) = is_multicast a"
  using to4_mapped [OF assms] to4_4 [OF assms]
  by (simp_all add: is_private_def is_loopback_def is_link_local_unicast_def
      is_link_local_multicast_def is_multicast_def)

lemma classify_mapped: "length a = 4 \<Longrightarrow> classify (mapped a) = classify a"
  by (subst (1 2) classify.simps)
     (simp add: predicates_mapped is_unspecified_mapped to4_mapped to4_4 length_mapped)

lemma classify_malformed: "length x \<noteq> 4 \<Longrightarrow> length x \<noteq> 16 \<Longrightarrow> fst (classify x) = Invalid"
  by (simp add: classify.simps)

lemma public_reason: "fst (range_verdict restricted_ipv4_ranges a) = Public \<longleftrightarrow> snd (range_verdict restricted_ipv4_ranges a) = []"
  by (simp add: restricted_ipv4_ranges_def)

lemma classify_reason: "fst (classify x) = Public \<longleftrightarrow> snd (classify x) = []"
  by (subst (1 2) classify.simps)
   (auto simp: public_reason ipv6_fixed_def split: option.splits prod.splits)


lemma four_bytes: "length (a::'a list) = 4 \<Longrightarrow> \<exists>p q r s. a = [p, q, r, s]"
  by (auto simp: numeral_eq_Suc length_Suc_conv)

lemma range_verdict_hit:
  assumes "e \<in> set rs" "net_contains (fst e) a"
    "\<And>e'. e' \<in> set rs \<Longrightarrow> net_contains (fst e') a \<Longrightarrow> e' = e"
  shows "range_verdict rs a = (snd e, ''restricted range '' @ net_text (fst e))"
  using assms
proof (induction rs)
  case (Cons x rs)
  obtain n c where x: "x = (n, c)" by force
  show ?case
  proof (cases "net_contains n a")
    case True
    with Cons.prems(3) [of x] x have "e = (n, c)" by simp
    with True x show ?thesis by simp
  next
    case False
    with Cons.prems(1,2) x have e: "e \<in> set rs" by auto
    have "range_verdict rs a = (snd e, ''restricted range '' @ net_text (fst e))"
      by (rule Cons.IH [OF e Cons.prems(2)]) (simp add: Cons.prems(3))
    with False x show ?thesis by simp
  qed
qed simp

lemma range_verdict_miss:
  "(\<And>e. e \<in> set rs \<Longrightarrow> \<not> net_contains (fst e) a) \<Longrightarrow> range_verdict rs a = (Public, [])"
proof (induction rs)
  case (Cons x rs)
  obtain n c where x: "x = (n, c)" by force
  from Cons.prems [of x] x have "\<not> net_contains n a" by simp
  with Cons x show ?case by simp
qed simp

definition table_slot :: "byte \<Rightarrow> byte \<Rightarrow> byte \<Rightarrow> nat" where
  "table_slot p q r =
     (if unat p = 100 then 0 else if unat p = 0 then 1 else if 240 \<le> unat p then 2
      else if unat p = 198 \<and> unat q \<le> 19 then 3 else if unat p = 198 then 6
      else if unat p = 203 then 7 else if unat r = 0 then 4 else 5)"

lemma table_slots:
  "net_contains (parse_cidr4 t [100, 64, 0, 0] 10) [p, q, r, s] \<Longrightarrow> table_slot p q r = 0"
  "net_contains (parse_cidr4 t [0, 0, 0, 0] 8) [p, q, r, s] \<Longrightarrow> table_slot p q r = 1"
  "net_contains (parse_cidr4 t [240, 0, 0, 0] 4) [p, q, r, s] \<Longrightarrow> table_slot p q r = 2"
  "net_contains (parse_cidr4 t [198, 18, 0, 0] 15) [p, q, r, s] \<Longrightarrow> table_slot p q r = 3"
  "net_contains (parse_cidr4 t [192, 0, 0, 0] 24) [p, q, r, s] \<Longrightarrow> table_slot p q r = 4"
  "net_contains (parse_cidr4 t [192, 0, 2, 0] 24) [p, q, r, s] \<Longrightarrow> table_slot p q r = 5"
  "net_contains (parse_cidr4 t [198, 51, 100, 0] 24) [p, q, r, s] \<Longrightarrow> table_slot p q r = 6"
  "net_contains (parse_cidr4 t [203, 0, 113, 0] 24) [p, q, r, s] \<Longrightarrow> table_slot p q r = 7"
  unfolding v4_table table_slot_def by auto

lemma table_hit:
  assumes "e \<in> set restricted_ipv4_ranges" "net_contains (fst e) [p, q, r, s]"
  shows "restricted_ipv4_ranges ! table_slot p q r = e"
proof -
  have "\<forall>i < 8. net_contains (fst (restricted_ipv4_ranges ! i)) [p, q, r, s] \<longrightarrow> table_slot p q r = i"
    unfolding restricted_ipv4_ranges_def
    by (simp add: numeral_eq_Suc less_Suc_eq all_conj_distrib imp_disjL table_slots)
  moreover have "length restricted_ipv4_ranges = 8" by (simp add: restricted_ipv4_ranges_def)
  ultimately show ?thesis using assms by (metis in_set_conv_nth)
qed

lemma table_disjoint:
  assumes "length a = 4" "e \<in> set restricted_ipv4_ranges" "net_contains (fst e) a"
    "e' \<in> set restricted_ipv4_ranges" "net_contains (fst e') a"
  shows "e' = e"
proof -
  from assms(1) obtain p q r s where a: "a = [p, q, r, s]" using four_bytes by blast
  show ?thesis
    using table_hit [of e p q r s] table_hit [of e' p q r s] assms(2-5) unfolding a by simp
qed

lemma range_order_irrelevant:
  assumes "length a = 4" "set rs = set restricted_ipv4_ranges"
  shows "range_verdict rs a = range_verdict restricted_ipv4_ranges a"
proof (cases "\<exists>e \<in> set rs. net_contains (fst e) a")
  case True
  then obtain e where e: "e \<in> set rs" "net_contains (fst e) a" by blast
  with assms have u: "e' \<in> set rs \<Longrightarrow> net_contains (fst e') a \<Longrightarrow> e' = e" for e'
    using table_disjoint by blast
  from e u assms(2) show ?thesis
    using range_verdict_hit [of e rs a] range_verdict_hit [of e restricted_ipv4_ranges a] by metis
next
  case False
  then have "range_verdict rs a = (Public, [])" "range_verdict restricted_ipv4_ranges a = (Public, [])"
    using assms(2) by (auto intro!: range_verdict_miss)
  then show ?thesis by simp
qed

definition sixto4 :: "ip \<Rightarrow> byte list \<Rightarrow> ip" where "sixto4 a rest = [0x20, 0x02] @ a @ rest"
definition nat64 :: "ip \<Rightarrow> ip" where "nat64 a = [0, 0x64, 0xff, 0x9b, 0, 0, 0, 0, 0, 0, 0, 0] @ a"
definition v4_compatible :: "ip \<Rightarrow> ip" where "v4_compatible a = [0, 0, 0, 0, 0, 0, 0, 0, 0, 0, 0, 0] @ a"

lemmas v6_predicates = is_private_def is_loopback_def is_link_local_unicast_def
  is_link_local_multicast_def is_multicast_def is_unspecified_def ip_equal_def to4_def
  v6_loopback_def v6_unspecified_def v4_zero_def v4_in_v6_prefix_def is_zeros_def

lemma sixto4_public:
  assumes "length a = 4" "length rest = 10" 
  shows "is_public (sixto4 a rest) = is_public a"
proof -
  have "classify (sixto4 a rest) =
     (case classify a of (c, reason) \<Rightarrow> if c \<noteq> Public then (Translated, ''6to4 embedded'' @ '' '' @ reason) else (Public, []))"
   by (subst classify.simps) (use assms in \<open>simp add: sixto4_def v6_predicates ipv6_fixed_def embedded_ipv4_def\<close>)
  then show ?thesis by (simp add: is_public_def split: prod.splits)
qed
lemma nat64_public:
  assumes "length a = 4" 
  shows "is_public (nat64 a) = is_public a"
proof -
  have "classify (nat64 a) =
     (case classify a of (c, reason) \<Rightarrow> if c \<noteq> Public then (Translated, ''NAT64 embedded'' @ '' '' @ reason) else (Public, []))"
   by (subst classify.simps) (use assms in \<open>simp add: nat64_def v6_predicates ipv6_fixed_def embedded_ipv4_def\<close>)
  then show ?thesis by (simp add: is_public_def split: prod.splits)
qed

lemma v4_compatible_public:
  assumes "length a = 4"
  shows "is_public (v4_compatible a) = is_public a"
proof -
  obtain p q r s where a: "a = [p, q, r, s]" using four_bytes assms by blast
  show ?thesis
  proof (cases "is_loopback (v4_compatible a) \<or> is_unspecified (v4_compatible a)")
    case True
    then have nz: "p = 0 \<and> q = 0 \<and> r = 0" 
      by (auto simp: a v4_compatible_def v6_predicates)
    from True have "\<not> is_public (v4_compatible a)"
      unfolding is_public_def by (subst classify.simps) (auto)
    moreover have "\<not> is_public a"
      using nz by (simp add: is_public_def a classify_v4_octets)
    ultimately show ?thesis by simp
  next
    case False
    have "classify (v4_compatible a) =
       (case classify a of (c, reason) \<Rightarrow> if c \<noteq> Public then (Translated, ''IPv4-compatible'' @ '' '' @ reason) else (Public, []))"
     using False by (subst classify.simps) (auto simp: a v4_compatible_def v6_predicates ipv6_fixed_def embedded_ipv4_def)
    then show ?thesis by (simp add: is_public_def split: prod.splits)
  qed
qed

section \<open>Properties\<close>

text \<open>
  C32: on every IPv4 address the verdict of \<^verbatim>\<open>Classify\<close> is the one an explicit octet
  table gives: the standard predicates run first, then the restricted ranges, and everything
  outside them is public.
\<close>

theorem classify_ipv4_spec:
  "fst (classify [a, b, c, d]) = v4_spec (unat a) (unat b) (unat c) (unat d)"
  by (rule classify_v4_octets)

text \<open>
  An IPv6 spelling never launders an IPv4 address. The mapped form gets the very same
  verdict, and a 6to4, NAT64 or IPv4-compatible address is public exactly when the embedded
  address is, so no spelling of a metadata or private address passes as public.
\<close>

lemma ipv6_wrapping_adds_nothing:
  assumes "length a = 4" "length rest = 10"
  shows "classify (mapped a) = classify a \<and> is_public (sixto4 a rest) = is_public a \<and>
    is_public (nat64 a) = is_public a \<and> is_public (v4_compatible a) = is_public a"
  using assms by (simp add: classify_mapped sixto4_public nat64_public v4_compatible_public)

lemma metadata_not_public: "\<not> is_public [169, 254, 169, 254]"
  by (simp add: is_public_def classify_v4_octets)

text \<open>
  The restricted ranges are disjoint, so the order of the table (and repeated entries)
  never changes the verdict on a 4-byte address.
\<close>

lemma restricted_ranges_order_free:
  assumes "length a = 4" "set rs = set restricted_ipv4_ranges"
  shows "range_verdict rs a = range_verdict restricted_ipv4_ranges a"
  using assms by (rule range_order_irrelevant)

text \<open>
  The verdict fails closed. Only a 4- or 16-byte slice can be public (a nil or malformed
  address is \<open>Invalid\<close>), and the reason is empty exactly for public addresses.
\<close>

lemma classify_fails_closed:
  "(length x \<noteq> 4 \<and> length x \<noteq> 16 \<longrightarrow> fst (classify x) = Invalid) \<and>
   (is_public x \<longleftrightarrow> snd (classify x) = [])"
  by (simp add: classify_malformed is_public_def classify_reason)

end
