(* ===== verification/Rfb_Stream.thy ===== *)
theory Rfb_Stream
  imports Prelude
begin

text \<open>
  \<^verbatim>\<open>internal/handler/session/sandbox_desktop_rfb.go\<close>: the RFB (VNC) parsing of the
  sandbox desktop relay. The client direction skips the 14-byte handshake and splits the
  message stream by RFC 6143 layouts to detect user activity (\<open>consume\<close>); the server
  direction checks the security-type offer once (\<open>observe\<close>), and two bounded readers check
  the opening bytes before the browser socket is upgraded. The lemmas show that chunk
  boundaries carry no meaning, that the buffered tail is bounded, and that activity means a
  complete key, pointer or clipboard message.
\<close>

definition rfb_client_handshake_bytes :: nat where "rfb_client_handshake_bytes = 14"
definition rfb_max_client_message_bytes :: int where "rfb_max_client_message_bytes = 2 ^ 20"
definition rfb_protocol_version_bytes :: nat where "rfb_protocol_version_bytes = 12"
definition rfb_security_type_none :: byte where "rfb_security_type_none = 1"

definition rfb_protocol_version38 :: "byte list" where
  "rfb_protocol_version38 = [0x52, 0x46, 0x42, 0x20, 0x30, 0x30, 0x33, 0x2e, 0x30, 0x30, 0x38, 0x0a]"

datatype rfb_error =
    ServerVersion "byte list"
  | SecurityTypes "byte list"
  | NoSecurityTypes
  | HandshakeIncomplete
  | ReadError

section \<open>Server handshake\<close>

definition rfb_validate_server_version :: "byte list \<Rightarrow> rfb_error option" where
  "rfb_validate_server_version version =
     (if version \<noteq> rfb_protocol_version38 then Some (ServerVersion version) else None)"

definition rfb_validate_security_types :: "byte list \<Rightarrow> rfb_error option" where
  "rfb_validate_security_types types =
     (if length types \<noteq> 1 \<or> types ! 0 \<noteq> rfb_security_type_none
      then Some (SecurityTypes types) else None)"

definition rfb_validate_server_handshake :: "byte list \<Rightarrow> byte list \<Rightarrow> rfb_error option" where
  "rfb_validate_server_handshake version types =
     (case rfb_validate_server_version version of
        Some e \<Rightarrow> Some e
      | None \<Rightarrow> rfb_validate_security_types types)"

record rfb_server_stream =
  srv_buf :: "byte list"
  srv_done :: bool

definition rfb_server_init :: rfb_server_stream where
  "rfb_server_init = \<lparr>srv_buf = [], srv_done = False\<rparr>"

definition observe :: "rfb_server_stream \<Rightarrow> byte list \<Rightarrow> rfb_error option \<times> rfb_server_stream" where
  "observe s chunk =
     (if srv_done s \<or> chunk = [] then (None, s)
      else
        let b = srv_buf s @ chunk; count = unat (b ! 0)
        in if count = 0
           then (Some NoSecurityTypes, s\<lparr>srv_done := True, srv_buf := []\<rparr>)
           else if length b < 1 + count then (None, s\<lparr>srv_buf := b\<rparr>)
           else (rfb_validate_security_types (take count (drop 1 b)),
                 s\<lparr>srv_done := True, srv_buf := []\<rparr>))"

text \<open>
  The two readers pull at most 64 frames. \<open>frames i\<close> is what the \<^verbatim>\<open>i\<close>-th call of
  \<^verbatim>\<open>next\<close> returns; \<open>fuel\<close> counts the attempts left.
\<close>

primrec read_server_version_loop ::
  "nat \<Rightarrow> nat \<Rightarrow> (nat \<Rightarrow> rfb_error + byte list) \<Rightarrow> byte list \<Rightarrow> rfb_error + byte list" where
  "read_server_version_loop 0 i frames b = Inl HandshakeIncomplete"
| "read_server_version_loop (Suc fuel) i frames b =
     (if rfb_protocol_version_bytes \<le> length b
      then (case rfb_validate_server_version (take rfb_protocol_version_bytes b) of
              Some e \<Rightarrow> Inl e
            | None \<Rightarrow> Inr b)
      else (case frames i of
              Inl e \<Rightarrow> Inl e
            | Inr chunk \<Rightarrow> read_server_version_loop fuel (Suc i) frames (b @ chunk)))"

definition rfb_read_server_version :: "(nat \<Rightarrow> rfb_error + byte list) \<Rightarrow> rfb_error + byte list" where
  "rfb_read_server_version frames = read_server_version_loop 64 0 frames []"

primrec read_server_handshake_loop ::
  "nat \<Rightarrow> nat \<Rightarrow> (nat \<Rightarrow> rfb_error + byte list) \<Rightarrow> byte list \<Rightarrow> rfb_error + byte list" where
  "read_server_handshake_loop 0 i frames b = Inl HandshakeIncomplete"
| "read_server_handshake_loop (Suc fuel) i frames b =
     (if 13 \<le> length b \<and> 13 + unat (b ! 12) \<le> length b
      then (case rfb_validate_server_handshake (take 12 b) (take (unat (b ! 12)) (drop 13 b)) of
              Some e \<Rightarrow> Inl e
            | None \<Rightarrow> Inr b)
      else (case frames i of
              Inl e \<Rightarrow> Inl e
            | Inr chunk \<Rightarrow> read_server_handshake_loop fuel (Suc i) frames (b @ chunk)))"

definition rfb_read_server_handshake :: "(nat \<Rightarrow> rfb_error + byte list) \<Rightarrow> rfb_error + byte list" where
  "rfb_read_server_handshake frames = read_server_handshake_loop 64 0 frames []"

section \<open>Client messages\<close>

definition be16 :: "byte list \<Rightarrow> int" where
  "be16 b = uint (b ! 0) * 256 + uint (b ! 1)"

text \<open>\<^verbatim>\<open>int32(binary.BigEndian.Uint32(b))\<close>: the four bytes read as two's complement.\<close>

definition be32_signed :: "byte list \<Rightarrow> int" where
  "be32_signed b =
     sint (word_of_int (uint (b ! 0) * 2 ^ 24 + uint (b ! 1) * 2 ^ 16 + uint (b ! 2) * 2 ^ 8 +
       uint (b ! 3)) :: 32 word)"

definition rfb_client_cut_text_payload :: "byte list \<Rightarrow> int" where
  "rfb_client_cut_text_payload b =
     (let n = be32_signed b
      in if 0 \<le> n then n
         else if n = - (2 ^ 31) then rfb_max_client_message_bytes
         else - n)"

text \<open>The result triple is \<^verbatim>\<open>(size, complete, known)\<close>.\<close>

definition fixed_size :: "byte list \<Rightarrow> int \<Rightarrow> int \<times> bool \<times> bool" where
  "fixed_size b want =
     (if want < 0 \<or> rfb_max_client_message_bytes < want then (0, False, False)
      else if int (length b) < want then (want, False, True)
      else (want, True, True))"

definition rfb_client_message_size :: "byte list \<Rightarrow> int \<times> bool \<times> bool" where
  "rfb_client_message_size b =
     (if b = [] then (0, False, True)
      else
        let opcode = b ! 0
        in if opcode = 0 then fixed_size b 20
           else if opcode = 2
           then (if length b < 4 then (0, False, True)
                 else fixed_size b (4 + 4 * be16 (take 2 (drop 2 b))))
           else if opcode = 3 then fixed_size b 10
           else if opcode = 4 then fixed_size b 8
           else if opcode = 5 then fixed_size b 6
           else if opcode = 6
           then (if length b < 8 then (0, False, True)
                 else fixed_size b (8 + rfb_client_cut_text_payload (take 4 (drop 4 b))))
           else if opcode = 150 then fixed_size b 10
           else if opcode = 248
           then (if length b < 9 then (0, False, True) else fixed_size b (9 + uint (b ! 8)))
           else if opcode = 251
           then (if length b < 8 then (0, False, True) else fixed_size b (8 + 16 * uint (b ! 6)))
           else (0, False, False))"

definition rfb_opcode_counts_as_activity :: "byte \<Rightarrow> bool" where
  "rfb_opcode_counts_as_activity opcode \<longleftrightarrow> opcode = 4 \<or> opcode = 5 \<or> opcode = 6"

record rfb_client_stream =
  handshake_seen :: nat
  cli_buf :: "byte list"
  cli_disabled :: bool

definition rfb_client_init :: rfb_client_stream where
  "rfb_client_init = \<lparr>handshake_seen = 0, cli_buf = [], cli_disabled = False\<rparr>"

definition parsing_enabled :: "rfb_client_stream \<Rightarrow> bool" where
  "parsing_enabled s \<longleftrightarrow> \<not> cli_disabled s"

definition disable :: "rfb_client_stream \<Rightarrow> rfb_client_stream" where
  "disable s = s\<lparr>cli_disabled := True, cli_buf := []\<rparr>"

text \<open>
  A message that is known and complete has a positive size, so the splitting loop ends.
\<close>

lemma be32_signed_range: "- (2 ^ 31) \<le> be32_signed b \<and> be32_signed b < 2 ^ 31"
proof -
  have "- (2 ^ (LENGTH(32) - 1)) \<le> be32_signed b \<and> be32_signed b < 2 ^ (LENGTH(32) - 1)"
    unfolding be32_signed_def by (intro conjI sint_ge sint_lt)
  then show ?thesis by simp
qed

lemma cut_text_payload_nonneg: "0 \<le> rfb_client_cut_text_payload b"
  by (auto simp: rfb_client_cut_text_payload_def rfb_max_client_message_bytes_def Let_def)

lemma be16_nonneg: "0 \<le> be16 b"
  by (simp add: be16_def)

lemma fixed_size_complete:
  "fixed_size b want = (sz, True, True) \<longleftrightarrow>
     sz = want \<and> 0 \<le> want \<and> want \<le> rfb_max_client_message_bytes \<and> want \<le> int (length b)"
  by (auto simp: fixed_size_def)

lemma fixed_size_eq_complete:
  "fixed_size b want = (sz, complete, known) \<Longrightarrow> complete \<Longrightarrow>
     known \<and> sz = want \<and> 0 \<le> want \<and> want \<le> rfb_max_client_message_bytes \<and> want \<le> int (length b)"
  by (auto simp: fixed_size_def split: if_splits)

lemma message_size_positive:
  assumes "rfb_client_message_size b = (sz, complete, known)" "complete"
  shows "known \<and> 0 < sz \<and> sz \<le> rfb_max_client_message_bytes \<and> sz \<le> int (length b) \<and> b \<noteq> []"
  using assms cut_text_payload_nonneg [of "take 4 (drop 4 b)"] be16_nonneg [of "take 2 (drop 2 b)"]
  by (auto simp: rfb_client_message_size_def Let_def add_pos_nonneg
      dest!: fixed_size_eq_complete split: if_splits)

lemma message_progress:
  "(sz, True, True) = rfb_client_message_size b \<Longrightarrow> length b - nat sz < length b"
  using message_size_positive [of b sz True True] by auto

text \<open>
  The loop of \<^verbatim>\<open>Consume\<close> over the buffer: \<open>None\<close> when it meets an unknown message (the
  caller disables parsing), otherwise the tail and whether an activity message was seen.
\<close>

function consume_loop :: "byte list \<Rightarrow> bool \<Rightarrow> (byte list \<times> bool) option" where
  "consume_loop b activity =
     (if b = [] then Some (b, activity)
      else case rfb_client_message_size b of (sz, complete, known) \<Rightarrow>
        if \<not> known then None
        else if \<not> complete then Some (b, activity)
        else consume_loop (drop (nat sz) b)
               (activity \<or> rfb_opcode_counts_as_activity (b ! 0)))"
  by pat_completeness auto
termination
  by (relation "measure (\<lambda>(b, _). length b)") (auto intro: message_progress)

declare consume_loop.simps [simp del]

definition consume :: "rfb_client_stream \<Rightarrow> byte list \<Rightarrow> bool \<times> rfb_client_stream" where
  "consume s chunk =
     (if cli_disabled s \<or> chunk = [] then (False, s)
      else
        let need = rfb_client_handshake_bytes - handshake_seen s
        in if handshake_seen s < rfb_client_handshake_bytes \<and> length chunk \<le> need
           then (False, s\<lparr>handshake_seen := handshake_seen s + length chunk\<rparr>)
           else
             let s1 = (if handshake_seen s < rfb_client_handshake_bytes
                       then s\<lparr>handshake_seen := rfb_client_handshake_bytes\<rparr> else s);
                 chunk1 = (if handshake_seen s < rfb_client_handshake_bytes
                           then drop need chunk else chunk)
             in case consume_loop (cli_buf s1 @ chunk1) False of
                  None \<Rightarrow> (False, disable s1)
                | Some (rest, activity) \<Rightarrow>
                    if rfb_max_client_message_bytes < int (length rest)
                    then (False, disable s1)
                    else (activity, s1\<lparr>cli_buf := rest\<rparr>))"

section \<open>Framing lemmas\<close>

lemma fixed_size_append:
  "fixed_size b want = (sz, True, True) \<Longrightarrow> fixed_size (b @ c) want = (sz, True, True)"
  "fixed_size b want = (sz, q, False) \<Longrightarrow> fixed_size (b @ c) want = (sz, q, False)"
  by (auto simp: fixed_size_def split: if_splits)

lemma message_size_shape:
  assumes "b \<noteq> []"
  shows "rfb_client_message_size b = (0, False, True) \<or>
    (\<exists>want. \<forall>c. rfb_client_message_size (b @ c) = fixed_size (b @ c) want) \<or>
    (\<forall>c. rfb_client_message_size (b @ c) = (0, False, False))"
proof -
  have hd: "(b @ c) ! 0 = b ! 0" for c
    using assms by (simp add: nth_append)
  consider "b ! 0 = 0" | "b ! 0 = 2" | "b ! 0 = 3" | "b ! 0 = 4" | "b ! 0 = 5" | "b ! 0 = 6"
    | "b ! 0 = 150" | "b ! 0 = 248" | "b ! 0 = 251"
    | "b ! 0 \<notin> {0, 2, 3, 4, 5, 6, 150, 248, 251}"
    by auto
  then show ?thesis
  proof cases
    case 2
    with assms hd show ?thesis
      by (cases "length b < 4") (auto simp: rfb_client_message_size_def Let_def)
  next
    case 6
    with assms hd show ?thesis
      by (cases "length b < 8") (auto simp: rfb_client_message_size_def Let_def)
  next
    case 8
    with assms hd show ?thesis
      by (cases "length b < 9") (auto simp: rfb_client_message_size_def Let_def nth_append)
  next
    case 9
    with assms hd show ?thesis
      by (cases "length b < 8") (auto simp: rfb_client_message_size_def Let_def nth_append)
  qed (use assms hd in \<open>auto simp: rfb_client_message_size_def Let_def\<close>)
qed

lemma message_size_append:
  "rfb_client_message_size b = (sz, True, True) \<Longrightarrow> rfb_client_message_size (b @ c) = (sz, True, True)"
  "rfb_client_message_size b = (sz, q, False) \<Longrightarrow> rfb_client_message_size (b @ c) = (sz, q, False)"
proof -
  have ne: "b \<noteq> []" if "rfb_client_message_size b = (sz, q, k)" "q \<or> \<not> k" for q k
    using that by (auto simp: rfb_client_message_size_def)
  show "rfb_client_message_size (b @ c) = (sz, True, True)" if "rfb_client_message_size b = (sz, True, True)"
    using message_size_shape [OF ne [OF that]] that fixed_size_append(1)
    by (metis append_Nil2 prod.inject)
  show "rfb_client_message_size (b @ c) = (sz, q, False)" if "rfb_client_message_size b = (sz, q, False)"
    using message_size_shape [OF ne [OF that]] that fixed_size_append(2)
    by (metis append_Nil2 prod.inject)
qed

lemma incomplete_bounded:
  "rfb_client_message_size b = (sz, False, True) \<Longrightarrow> int (length b) < rfb_max_client_message_bytes"
  by (auto simp: rfb_client_message_size_def Let_def fixed_size_def rfb_max_client_message_bytes_def
      split: if_splits)

lemma consume_loop_append:
  "consume_loop (b @ c) act =
     (case consume_loop b act of None \<Rightarrow> None | Some (r, a) \<Rightarrow> consume_loop (r @ c) a)"
proof (induction b act rule: consume_loop.induct)
  case (1 b act)
  show ?case
  proof (cases "b = []")
    case True
    then show ?thesis by (simp add: consume_loop.simps [of "[]"])
  next
    case False
    obtain sz cmp kn where m: "rfb_client_message_size b = (sz, cmp, kn)" by (metis prod_cases3)
    consider "\<not> kn" | "kn" "\<not> cmp" | "kn" "cmp" by blast
    then show ?thesis
    proof cases
      case 1
      with m False message_size_append(2) [of b sz cmp c] show ?thesis
        by (simp add: consume_loop.simps [of b] consume_loop.simps [of "b @ c"])
    next
      case 2
      with m False show ?thesis by (simp add: consume_loop.simps [of b])
    next
      case 3
      with m have m': "rfb_client_message_size b = (sz, True, True)" by simp
      from message_size_positive [OF m] 3 have "nat sz \<le> length b" by linarith
      with "1.IH" [OF False m [symmetric] refl] 3 m' False message_size_append(1) [OF m', of c]
      show ?thesis
        by (simp add: consume_loop.simps [of b] consume_loop.simps [of "b @ c"] nth_append)
    qed
  qed
qed

text \<open>
  The reference reading of a buffer: the list of its complete messages and the unfinished tail,
  or \<open>None\<close> when an unknown message is met. The loop computes just this, keeping one bit.
\<close>

function rfb_messages :: "byte list \<Rightarrow> (byte list list \<times> byte list) option" where
  "rfb_messages b =
     (if b = [] then Some ([], [])
      else case rfb_client_message_size b of (sz, complete, known) \<Rightarrow>
        if \<not> known then None
        else if \<not> complete then Some ([], b)
        else map_option (\<lambda>(ms, r). (take (nat sz) b # ms, r)) (rfb_messages (drop (nat sz) b)))"
  by pat_completeness auto
termination
  by (relation "measure length") (auto intro: message_progress)

declare rfb_messages.simps [simp del]

definition has_activity :: "byte list list \<Rightarrow> bool" where
  "has_activity ms \<longleftrightarrow> (\<exists>m \<in> set ms. rfb_opcode_counts_as_activity (m ! 0))"

lemma has_activity_simps [simp]:
  "has_activity [] = False"
  "has_activity (m # ms) \<longleftrightarrow> rfb_opcode_counts_as_activity (m ! 0) \<or> has_activity ms"
  by (simp_all add: has_activity_def)

lemma rfb_messages_step:
  "b \<noteq> [] \<Longrightarrow> rfb_client_message_size b = (sz, True, True) \<Longrightarrow>
     rfb_messages b = map_option (\<lambda>(ms, r). (take (nat sz) b # ms, r)) (rfb_messages (drop (nat sz) b))"
  by (simp add: rfb_messages.simps [of b])

lemma consume_loop_step:
  "b \<noteq> [] \<Longrightarrow> rfb_client_message_size b = (sz, True, True) \<Longrightarrow>
     consume_loop b act = consume_loop (drop (nat sz) b) (act \<or> rfb_opcode_counts_as_activity (b ! 0))"
  by (simp add: consume_loop.simps [of b])

lemma consume_loop_messages:
  "consume_loop b act = map_option (\<lambda>(ms, r). (r, act \<or> has_activity ms)) (rfb_messages b)"
proof (induction b arbitrary: act rule: rfb_messages.induct)
  case (1 b)
  obtain sz cmp kn where m: "rfb_client_message_size b = (sz, cmp, kn)" by (metis prod_cases3)
  show ?case
  proof (cases "b \<noteq> [] \<and> kn \<and> cmp")
    case True
    with m have m': "rfb_client_message_size b = (sz, True, True)" by simp
    have "0 < nat sz" using message_size_positive [OF m'] by simp
    then have hd: "take (nat sz) b ! 0 = b ! 0" by simp
    from True "1.IH" [OF _ m [symmetric] refl]
    have IH: "consume_loop (drop (nat sz) b) a =
        map_option (\<lambda>(ms, r). (r, a \<or> has_activity ms)) (rfb_messages (drop (nat sz) b))" for a
      by simp
    from True show ?thesis
      by (cases "rfb_messages (drop (nat sz) b)")
        (auto simp: consume_loop_step [OF _ m'] rfb_messages_step [OF _ m'] IH hd)
  next
    case False
    with m show ?thesis by (auto simp: consume_loop.simps [of b] rfb_messages.simps [of b])
  qed
qed

lemma consume_loop_bit:
  "consume_loop b act = map_option (\<lambda>(r, a). (r, act \<or> a)) (consume_loop b False)"
  by (cases "rfb_messages b") (auto simp: consume_loop_messages)

lemma rfb_messages_concat: "rfb_messages b = Some (ms, r) \<Longrightarrow> concat ms @ r = b"
proof (induction b arbitrary: ms rule: rfb_messages.induct)
  case (1 b)
  obtain sz cmp kn where m: "rfb_client_message_size b = (sz, cmp, kn)" by (metis prod_cases3)
  show ?case
  proof (cases "b \<noteq> [] \<and> kn \<and> cmp")
    case True
    with m have m': "rfb_client_message_size b = (sz, True, True)" by simp
    from "1.prems" True obtain ms' where ms: "ms = take (nat sz) b # ms'"
      and r: "rfb_messages (drop (nat sz) b) = Some (ms', r)"
      by (auto simp: rfb_messages_step [OF _ m'])
    from True "1.IH" [OF _ m [symmetric] refl _ _ r] ms show ?thesis by simp
  next
    case False
    with m "1.prems" show ?thesis by (auto simp: rfb_messages.simps [of b] split: if_splits)
  qed
qed

lemma consume_loop_stuck:
  "rfb_client_message_size r = (sz, False, True) \<Longrightarrow> consume_loop r x = Some (r, x)"
  by (simp add: consume_loop.simps [of r])

lemma consume_loop_tail:
  "consume_loop b act = Some (r, a) \<Longrightarrow>
     consume_loop r x = Some (r, x) \<and> int (length r) < rfb_max_client_message_bytes"
proof (induction b act rule: consume_loop.induct)
  case (1 b act)
  obtain sz cmp kn where m: "rfb_client_message_size b = (sz, cmp, kn)" by (metis prod_cases3)
  consider "b = []" | "b \<noteq> []" "\<not> kn" | "b \<noteq> []" "kn" "\<not> cmp" | "b \<noteq> []" "kn" "cmp" by blast
  then show ?case
  proof cases
    case 1
    with "1.prems" show ?thesis
      by (auto simp: consume_loop.simps [of "[]"] rfb_max_client_message_bytes_def)
  next
    case 2
    with "1.prems" m show ?thesis by (simp add: consume_loop.simps [of b])
  next
    case 3
    with "1.prems" m have "r = b" by (simp add: consume_loop.simps [of b])
    with 3 m incomplete_bounded [of b sz] show ?thesis by (simp add: consume_loop_stuck)
  next
    case 4
    with m have m': "rfb_client_message_size b = (sz, True, True)" by simp
    from "1.prems" 4 have "consume_loop (drop (nat sz) b) (act \<or> rfb_opcode_counts_as_activity (b ! 0)) = Some (r, a)"
      by (simp add: consume_loop_step [OF _ m'])
    with "1.IH" [OF _ m [symmetric] refl] 4 show ?thesis by simp
  qed
qed

section \<open>The client stream as a chunk machine\<close>

definition client_inv :: "rfb_client_stream \<Rightarrow> bool" where
  "client_inv s \<longleftrightarrow>
     handshake_seen s \<le> rfb_client_handshake_bytes \<and>
     (handshake_seen s < rfb_client_handshake_bytes \<longrightarrow> cli_buf s = []) \<and>
     (cli_disabled s \<longrightarrow> cli_buf s = []) \<and>
     consume_loop (cli_buf s) False = Some (cli_buf s, False) \<and>
     int (length (cli_buf s)) < rfb_max_client_message_bytes"

lemma client_inv_init [wf_intros]: "client_inv rfb_client_init"
  by (simp add: client_inv_def rfb_client_init_def consume_loop.simps [of "[]"]
      rfb_max_client_message_bytes_def)

lemma client_init_enabled: "\<not> cli_disabled rfb_client_init"
  by (simp add: rfb_client_init_def)

lemma client_inv_disable [wf_intros]: "client_inv s \<Longrightarrow> client_inv (disable s)"
  by (simp add: client_inv_def disable_def consume_loop.simps [of "[]"]
      rfb_max_client_message_bytes_def)

text \<open>
  Under the invariant the handshake skip and the size check of the tail disappear: the payload
  is what follows the missing handshake bytes, and the tail is always below the limit.
\<close>

definition skip_handshake :: "nat \<Rightarrow> byte list \<Rightarrow> byte list" where
  "skip_handshake seen chunk = drop (rfb_client_handshake_bytes - seen) chunk"

lemma consume_normal:
  assumes "client_inv s" "\<not> cli_disabled s"
  shows "consume s chunk =
    (let s1 = s\<lparr>handshake_seen := min rfb_client_handshake_bytes (handshake_seen s + length chunk)\<rparr>
     in case consume_loop (cli_buf s @ skip_handshake (handshake_seen s) chunk) False of
          None \<Rightarrow> (False, disable s1)
        | Some (r, a) \<Rightarrow> (a, s1\<lparr>cli_buf := r\<rparr>))"
proof -
  have small: "int (length r) \<le> rfb_max_client_message_bytes"
    if "consume_loop b False = Some (r, a)" for b r a
    using consume_loop_tail [OF that, THEN conjunct2] by simp
  let ?n = "rfb_client_handshake_bytes" and ?h = "handshake_seen s"
  from assms have seen: "?h \<le> ?n" and empty: "?h < ?n \<Longrightarrow> cli_buf s = []"
    and loop: "consume_loop (cli_buf s) False = Some (cli_buf s, False)"
    by (simp_all add: client_inv_def)
  consider "chunk = []" | "chunk \<noteq> []" "?h < ?n" "length chunk \<le> ?n - ?h"
    | "chunk \<noteq> []" "?h < ?n" "?n - ?h < length chunk" | "chunk \<noteq> []" "?h = ?n"
    using seen by linarith
  then show ?thesis
  proof cases
    case 1
    with seen loop show ?thesis
      by (cases s) (simp add: consume_def skip_handshake_def)
  next
    case 2
    with assms(2) empty loop show ?thesis
      by (cases s) (simp add: consume_def skip_handshake_def)
  next
    case 3
    then have "min ?n (?h + length chunk) = ?n" by simp
    with 3 assms(2) show ?thesis
      by (auto simp: consume_def skip_handshake_def Let_def dest: small split: option.splits)
  next
    case 4
    then have "min ?n (?h + length chunk) = ?n" by simp
    with 4 assms(2) show ?thesis
      by (cases s) (auto simp: consume_def skip_handshake_def Let_def dest: small split: option.splits)
  qed
qed

lemma consume_disabled: "cli_disabled s \<Longrightarrow> consume s chunk = (False, s)"
  by (simp add: consume_def)

lemma consume_nil: "consume s [] = (False, s)"
  by (simp add: consume_def)

lemma client_inv_consume [wf_intros]: "client_inv s \<Longrightarrow> client_inv (snd (consume s chunk))"
proof (cases "cli_disabled s")
  case False
  assume inv: "client_inv s"
  let ?b = "cli_buf s @ skip_handshake (handshake_seen s) chunk"
  show ?thesis
  proof (cases "consume_loop ?b False")
    case None
    with inv False show ?thesis
      by (simp add: consume_normal Let_def client_inv_def disable_def consume_loop.simps [of "[]"]
          rfb_max_client_message_bytes_def)
  next
    case (Some ra)
    obtain r a where ra: "ra = (r, a)" by force
    have nil: "r = []" if "handshake_seen s + length chunk < rfb_client_handshake_bytes"
      using inv that Some ra
      by (simp add: client_inv_def skip_handshake_def consume_loop.simps [of "[]"])
    from Some ra consume_loop_tail [of ?b False r a False] inv False nil show ?thesis
      by (auto simp: consume_normal Let_def client_inv_def min_def)
  qed
qed (simp add: consume_disabled)

lemma skip_handshake_append:
  "seen \<le> rfb_client_handshake_bytes \<Longrightarrow> skip_handshake seen (xs @ ys) =
     skip_handshake seen xs @
     skip_handshake (min rfb_client_handshake_bytes (seen + length xs)) ys"
  by (auto simp: skip_handshake_def min_def)

lemma consume_append:
  assumes "client_inv s"
  shows "snd (consume s (xs @ ys)) = snd (consume (snd (consume s xs)) ys)"
proof (cases "cli_disabled s")
  case False
  let ?b = "cli_buf s @ skip_handshake (handshake_seen s) xs"
  let ?seen = "min rfb_client_handshake_bytes (handshake_seen s + length xs)"
  from assms have seen: "handshake_seen s \<le> rfb_client_handshake_bytes" by (simp add: client_inv_def)
  have split: "consume_loop (cli_buf s @ skip_handshake (handshake_seen s) (xs @ ys)) False =
      (case consume_loop ?b False of None \<Rightarrow> None
       | Some (r, a) \<Rightarrow> consume_loop (r @ skip_handshake ?seen ys) a)"
    using consume_loop_append [of ?b] by (simp add: skip_handshake_append [OF seen])
  show ?thesis
  proof (cases "consume_loop ?b False")
    case None
    have "rfb_client_handshake_bytes < handshake_seen s + length xs"
    proof (rule ccontr)
      assume "\<not> ?thesis"
      with None assms show False by (simp add: skip_handshake_def client_inv_def)
    qed
    with None split assms False show ?thesis
      by (simp add: consume_normal Let_def consume_disabled disable_def min_def)
  next
    case (Some ra)
    obtain r a where ra: "ra = (r, a)" by force
    let ?s1 = "s\<lparr>handshake_seen := ?seen, cli_buf := r\<rparr>"
    have s1: "snd (consume s xs) = ?s1"
      using Some ra assms False by (simp add: consume_normal Let_def)
    then have inv1: "client_inv ?s1" "\<not> cli_disabled ?s1"
      using client_inv_consume [OF assms, of xs] False by simp_all
    have min: "min rfb_client_handshake_bytes (?seen + length ys) =
        min rfb_client_handshake_bytes (handshake_seen s + length (xs @ ys))"
      by simp
    let ?c = "r @ skip_handshake ?seen ys"
    have "consume_loop ?c a = map_option (\<lambda>(q, e). (q, a \<or> e)) (consume_loop ?c False)"
      by (rule consume_loop_bit)
    with Some ra split s1 consume_normal [OF inv1, of ys] min assms False show ?thesis
      by (cases "consume_loop ?c False") (auto simp: consume_normal Let_def disable_def)
  qed
qed (simp add: consume_disabled)

interpretation rfb_client: chunk_machine "\<lambda>s xs. snd (consume s xs)" client_inv
  by unfold_locales (auto simp: consume_nil consume_append intro: wf_intros)

section \<open>The server stream as a chunk transducer\<close>

definition first_error :: "rfb_error option \<Rightarrow> rfb_error option \<Rightarrow> rfb_error option" where
  "first_error a b = (case a of None \<Rightarrow> b | Some e \<Rightarrow> Some e)"

lemma observe_append:
  "observe s (xs @ ys) =
     (case observe s xs of (o1, s1) \<Rightarrow>
        (case observe s1 ys of (o2, s2) \<Rightarrow> (first_error o1 o2, s2)))"
  by (auto simp: observe_def first_error_def Let_def nth_append split: option.splits)

interpretation rfb_server: chunk_transducer observe first_error None "\<lambda>_. True"
  by unfold_locales (auto simp: observe_append first_error_def split: option.splits, simp add: observe_def)

section \<open>Properties\<close>

lemma single_take: "take n l = [x] \<longleftrightarrow> length (take n l) = Suc 0 \<and> take n l ! 0 = x"
  by (cases "take n l") auto

lemma observe_offer:
  "fst (observe rfb_server_init w) =
     (case w of
        [] \<Rightarrow> None
      | n # types \<Rightarrow>
          if n = 0 then Some NoSecurityTypes
          else if length types < unat n then None
          else if take (unat n) types = [1] then None
          else Some (SecurityTypes (take (unat n) types)))"
  by (cases w) (auto simp: observe_def rfb_server_init_def Let_def rfb_validate_security_types_def
      rfb_security_type_none_def single_take simp del: length_take)

definition client_run :: "byte list list \<Rightarrow> rfb_client_stream" where
  "client_run css = foldl (\<lambda>s c. snd (consume s c)) rfb_client_init css"

primrec activity_reports :: "rfb_client_stream \<Rightarrow> byte list list \<Rightarrow> bool list" where
  "activity_reports s [] = []"
| "activity_reports s (c # cs) = fst (consume s c) # activity_reports (snd (consume s c)) cs"

lemma client_run_inv: "client_inv (client_run css)"
  unfolding client_run_def by (rule rfb_client.steps_inv [OF client_inv_init])

lemma activity_reports_some:
  assumes "client_inv s" "\<not> cli_disabled s"
    "consume_loop (cli_buf s @ skip_handshake (handshake_seen s) (concat css)) False = Some (r, a)"
  shows "(\<exists>b \<in> set (activity_reports s css). b) = a"
  using assms
proof (induction css arbitrary: s a)
  case Nil
  then show ?case by (simp add: client_inv_def skip_handshake_def)
next
  case (Cons c css)
  let ?seen = "min rfb_client_handshake_bytes (handshake_seen s + length c)"
  let ?b = "cli_buf s @ skip_handshake (handshake_seen s) c"
  from Cons.prems(1) have seen: "handshake_seen s \<le> rfb_client_handshake_bytes"
    by (simp add: client_inv_def)
  from Cons.prems(3) obtain r1 a1 where one: "consume_loop ?b False = Some (r1, a1)"
    and two: "consume_loop (r1 @ skip_handshake ?seen (concat css)) a1 = Some (r, a)"
    using consume_loop_append [of ?b "skip_handshake ?seen (concat css)" False]
    by (auto simp: skip_handshake_append [OF seen] split: option.splits)
  let ?s1 = "s\<lparr>handshake_seen := ?seen, cli_buf := r1\<rparr>"
  have step: "consume s c = (a1, ?s1)"
    using one Cons.prems(1,2) by (simp add: consume_normal Let_def)
  then have s1: "client_inv ?s1" "\<not> cli_disabled ?s1"
    using client_inv_consume [OF Cons.prems(1), of c] Cons.prems(2) by simp_all
  from two obtain a2 where a2: "consume_loop (r1 @ skip_handshake ?seen (concat css)) False = Some (r, a2)"
    and a: "a = (a1 \<or> a2)"
    using consume_loop_bit [of "r1 @ skip_handshake ?seen (concat css)" a1] by auto
  from Cons.IH [OF s1, of a2] a2 a step show ?case by simp
qed

text \<open>
  C33: chunk boundaries carry no meaning. However the client's bytes are cut into chunks, the
  stream ends in the state the reference reading of the whole byte string gives: parsing is
  disabled exactly when the bytes after the 14-byte handshake reach an unknown message, and
  otherwise the buffer is the unfinished last message.
\<close>

theorem client_framing:
  "client_run css =
     (case rfb_messages (drop 14 (concat css)) of
        None \<Rightarrow> \<lparr>handshake_seen = 14, cli_buf = [], cli_disabled = True\<rparr>
      | Some (ms, r) \<Rightarrow>
          \<lparr>handshake_seen = min 14 (length (concat css)), cli_buf = r, cli_disabled = False\<rparr>)"
proof -
  let ?w = "concat css"
  have run: "client_run css = snd (consume rfb_client_init ?w)"
    unfolding client_run_def by (rule rfb_client.steps_concat [OF client_inv_init])
  have long: "14 \<le> length ?w" if "rfb_messages (drop 14 ?w) = None"
  proof (rule ccontr)
    assume "\<not> 14 \<le> length ?w"
    with that show False by (simp add: rfb_messages.simps [of "[]"])
  qed
  show ?thesis
    using long unfolding run consume_normal [OF client_inv_init client_init_enabled]
    by (auto simp: rfb_client_init_def Let_def skip_handshake_def
        consume_loop_messages disable_def rfb_client_handshake_bytes_def split: option.splits)
qed

text \<open>
  As long as every message is known, some chunk reports activity exactly when the bytes
  hold a complete key, pointer or clipboard message; update requests and the handshake never
  count, and no chunking hides or invents activity.
\<close>

lemma client_activity:
  assumes "rfb_messages (drop 14 (concat css)) = Some (ms, r)"
  shows "(\<exists>b \<in> set (activity_reports rfb_client_init css). b) \<longleftrightarrow> has_activity ms"
  using assms
  by (intro activity_reports_some [where r = r] client_inv_init)
    (simp_all add: rfb_client_init_def skip_handshake_def consume_loop_messages
      rfb_client_handshake_bytes_def)

text \<open>
  The buffered tail stays below 1 MiB after every chunk, so the final size check of
  \<^verbatim>\<open>Consume\<close> never fires, and a disabled stream stays disabled and silent.
\<close>

lemma client_buffer_bounded:
  "int (length (cli_buf (client_run css))) < rfb_max_client_message_bytes \<and>
   (cli_disabled (client_run css) \<longrightarrow>
      consume (client_run css) chunk = (False, client_run css) \<and> cli_buf (client_run css) = [])"
  using client_run_inv [of css] by (auto simp: client_inv_def consume_disabled)

text \<open>
  The security-type assertion on the server direction depends only on the bytes, not on the
  frames: it reports an empty offer or an offer other than exactly "None" once the whole list
  has arrived, and nothing before or after.
\<close>

lemma server_offer_checked:
  "fst (feed_all observe first_error None rfb_server_init css) =
     (case concat css of
        [] \<Rightarrow> None
      | n # types \<Rightarrow>
          if n = 0 then Some NoSecurityTypes
          else if length types < unat n then None
          else if take (unat n) types = [1] then None
          else Some (SecurityTypes (take (unat n) types)))"
  using rfb_server.feed_all_concat [of rfb_server_init css] by (simp add: observe_offer)

lemma read_server_version_loop_ok:
  "read_server_version_loop fuel i frames b = Inr res \<Longrightarrow>
     take 12 res = rfb_protocol_version38 \<and>
     (\<exists>cs. length cs < fuel \<and> (\<forall>k < length cs. frames (i + k) = Inr (cs ! k)) \<and> res = b @ concat cs)"
proof (induction fuel arbitrary: i b)
  case (Suc fuel)
  show ?case
  proof (cases "rfb_protocol_version_bytes \<le> length b")
    case True
    with Suc.prems show ?thesis
      by (auto simp: rfb_validate_server_version_def rfb_protocol_version_bytes_def
          intro!: exI [of _ "[]"] split: if_splits)
  next
    case False
    with Suc.prems obtain chunk where ch: "frames i = Inr chunk"
      and rest: "read_server_version_loop fuel (Suc i) frames (b @ chunk) = Inr res"
      by (auto split: sum.splits)
    from Suc.IH [OF rest] obtain cs where "take 12 res = rfb_protocol_version38" "length cs < fuel"
      "\<forall>k < length cs. frames (Suc i + k) = Inr (cs ! k)" "res = b @ chunk @ concat cs" by auto
    moreover from this(3) ch have "\<forall>k < length (chunk # cs). frames (i + k) = Inr ((chunk # cs) ! k)"
      by (auto simp: nth_Cons split: nat.splits)
    ultimately show ?thesis by (intro conjI exI [of _ "chunk # cs"]) auto
  qed
qed simp

text \<open>
  When the pre-upgrade reader succeeds, the server's opening bytes are RFB 3.8 and the
  returned bytes are exactly the frames read so far, at most 63 of them, ready to replay.
\<close>

lemma read_server_version_ok:
  assumes "rfb_read_server_version frames = Inr res"
  shows "take 12 res = rfb_protocol_version38 \<and>
    (\<exists>cs. length cs < 64 \<and> (\<forall>k < length cs. frames k = Inr (cs ! k)) \<and> res = concat cs)"
  using read_server_version_loop_ok [of 64 0 frames "[]" res] assms
  by (simp add: rfb_read_server_version_def)

end
