(* ===== verification/Think_Stream.thy ===== *)
theory Think_Stream
  imports Prelude
begin

text \<open>
  \<^verbatim>\<open>internal/agent/tools/think_stream.go\<close> and \<^verbatim>\<open>strip_think.go\<close>: the splitter that routes
  inline \<^verbatim>\<open><think>...</think>\<close> reasoning and answer text while the model streams, and the
  function that removes the blocks from the finished text. \<open>feed\<close>, \<open>flush\<close> and
  \<open>hold_back_partial_tag\<close> are the splitter's three functions on its record. The lemmas
  show that it is a chunk transducer whose output is the batch reading \<open>split_text\<close>, and
  relate that reading to \<^verbatim>\<open>StripThinkBlocks\<close>.
\<close>

definition think_open_tag :: string where "think_open_tag = ''<think>''"
definition think_close_tag :: string where "think_close_tag = ''</think>''"

record think_splitter =
  in_think :: bool
  pending :: string

definition new_think_stream_splitter :: think_splitter where
  "new_think_stream_splitter = \<lparr>in_think = False, pending = []\<rparr>"

text \<open>
  The scan of \<^verbatim>\<open>holdBackPartialTag\<close> for \<^verbatim>\<open>k = maxK, ..., 1\<close>; the result is the length of the
  suffix to hold.
\<close>

primrec hold_len :: "string \<Rightarrow> string \<Rightarrow> nat \<Rightarrow> nat" where
  "hold_len s tag 0 = 0"
| "hold_len s tag (Suc k) =
     (if has_suffix s (take (Suc k) tag) then Suc k else hold_len s tag k)"

definition hold_back_partial_tag :: "string \<Rightarrow> string \<Rightarrow> string \<times> string" where
  "hold_back_partial_tag s tag =
     (let k = hold_len s tag (min (length tag - 1) (length s))
      in (take (length s - k) s, drop (length s - k) s))"

definition current_tag :: "bool \<Rightarrow> string" where
  "current_tag inside = (if inside then think_close_tag else think_open_tag)"

text \<open>Text written while inside a block goes to the first builder, other text to the second.\<close>

definition emit :: "bool \<Rightarrow> string \<Rightarrow> string \<times> string" where
  "emit inside t = (if inside then (t, []) else ([], t))"

definition join :: "string \<times> string \<Rightarrow> string \<times> string \<Rightarrow> string \<times> string" where
  "join a b = (fst a @ fst b, snd a @ snd b)"

lemma current_tag_length [simp]: "0 < length (current_tag i)" "current_tag i \<noteq> []"
  by (simp_all add: current_tag_def think_open_tag_def think_close_tag_def)

lemma tag_progress: "index_of p (current_tag i) = Some k \<Longrightarrow>
    length p - (k + length (current_tag i)) < length p"
  using index_of_SomeD [of p "current_tag i" k] current_tag_length(1) [of i] by linarith

function feed_loop :: "bool \<Rightarrow> string \<Rightarrow> (string \<times> string) \<times> think_splitter" where
  "feed_loop inside p =
     (case index_of p (current_tag inside) of
        Some k \<Rightarrow>
          (case feed_loop (\<not> inside) (drop (k + length (current_tag inside)) p) of
             (out, sp) \<Rightarrow> (join (emit inside (take k p)) out, sp))
      | None \<Rightarrow>
          (case hold_back_partial_tag p (current_tag inside) of
             (safe, hold) \<Rightarrow> (emit inside safe, \<lparr>in_think = inside, pending = hold\<rparr>)))"
  by pat_completeness auto
termination
  by (relation "measure (\<lambda>(_, p). length p)") (auto intro: tag_progress)

declare feed_loop.simps [simp del]

definition feed :: "think_splitter \<Rightarrow> string \<Rightarrow> (string \<times> string) \<times> think_splitter" where
  "feed sp s = (if s = [] then (([], []), sp) else feed_loop (in_think sp) (pending sp @ s))"

definition flush :: "think_splitter \<Rightarrow> (string \<times> string) \<times> think_splitter" where
  "flush sp =
     (let rest = pending sp; sp1 = sp\<lparr>pending := []\<rparr>
      in if rest = [] then (([], []), sp1)
         else if in_think sp then ((rest, []), sp1)
         else (([], rest), sp1))"

section \<open>StripThinkBlocks\<close>

text \<open>
  \<^verbatim>\<open>ReplaceAllString\<close> with \<^verbatim>\<open>(?s)<think>.*?</think>\<close>: the leftmost opening tag that is
  followed by a closing tag, up to the first such closing tag, again and again. When the first
  opening tag has no closing tag after it, no later one has.
\<close>

function remove_blocks :: "string \<Rightarrow> string" where
  "remove_blocks s =
     (case index_of s think_open_tag of
        None \<Rightarrow> s
      | Some i \<Rightarrow>
          let after = drop (i + length think_open_tag) s
          in (case index_of after think_close_tag of
                None \<Rightarrow> s
              | Some j \<Rightarrow> take i s @ remove_blocks (drop (j + length think_close_tag) after)))"
  by pat_completeness auto
termination
  by (relation "measure length")
    (auto simp: think_close_tag_def think_open_tag_def dest!: index_of_SomeD)

declare remove_blocks.simps [simp del]

definition ascii_blank :: "char \<Rightarrow> bool" where
  "ascii_blank c \<longleftrightarrow> c = CHR '' '' \<or> c = CHR 0x0A \<or> c = CHR 0x0D \<or> c = CHR 0x09"

definition trim_whitespace :: "string \<Rightarrow> string" where
  "trim_whitespace s = rev (dropWhile ascii_blank (rev (dropWhile ascii_blank s)))"

definition strip_think_blocks :: "string \<Rightarrow> string" where
  "strip_think_blocks content =
     (if content = [] then [] else trim_whitespace (remove_blocks content))"

section \<open>Where a tag can start\<close>

text \<open>
  Position \<open>j\<close> is a possible tag start when the text from there and the tag agree on their
  common length: either the whole tag is there or the text ends inside it. The first possible
  start is stable under appending text.
\<close>

definition may_start :: "string \<Rightarrow> string \<Rightarrow> nat \<Rightarrow> bool" where
  "may_start tag s j \<longleftrightarrow> has_prefix (drop j s) tag \<or> has_prefix tag (drop j s)"

lemma may_start_append: "j \<le> length s \<Longrightarrow> may_start tag (s @ t) j \<Longrightarrow> may_start tag s j"
  by (auto simp: may_start_def has_prefix_iff append_eq_append_conv2)

lemma hold_len_bound: "hold_len s tag m \<le> m"
  by (induction m) auto

lemma hold_len_suffix: "has_suffix s (take (hold_len s tag m) tag)"
  by (induction m) (auto simp: has_suffix_def)

lemma hold_len_greatest: "hold_len s tag m < k \<Longrightarrow> k \<le> m \<Longrightarrow> \<not> has_suffix s (take k tag)"
proof (induction m)
  case (Suc m)
  then show ?case by (cases "k = Suc m") (auto split: if_splits)
qed simp

lemma hold_back:
  assumes "hold_back_partial_tag s tag = (safe, hold)" "tag \<noteq> []"
  shows "s = safe @ hold" "hold = take (length hold) tag" "length hold < length tag"
    "index_of s tag = None \<Longrightarrow> \<forall>j < length safe. \<not> may_start tag s j"
proof -
  let ?m = "min (length tag - 1) (length s)"
  let ?k = "hold_len s tag ?m"
  have k: "?k \<le> ?m" by (rule hold_len_bound)
  from assms(1) have parts: "safe = take (length s - ?k) s" "hold = drop (length s - ?k) s"
    by (auto simp: hold_back_partial_tag_def Let_def)
  then show split: "s = safe @ hold" by simp
  have len: "length hold = ?k" "length safe = length s - ?k" using parts k by auto
  from assms(2) have "0 < length tag" by simp
  with len(1) k show "length hold < length tag" by linarith
  have "hold = take ?k tag"
  proof -
    from k have "?k \<le> length tag" by linarith
    then have "length (take ?k tag) = ?k" by simp
    with hold_len_suffix [of s tag ?m] parts(2) show ?thesis by (simp only: has_suffix_def)
  qed
  with len(1) show "hold = take (length hold) tag" by simp
  show "\<forall>j < length safe. \<not> may_start tag s j" if none: "index_of s tag = None"
  proof (intro allI impI notI)
    fix j assume j: "j < length safe" and m: "may_start tag s j"
    with index_of_NoneD [OF none] have p: "has_prefix tag (drop j s)"
      by (auto simp: may_start_def)
    let ?n = "length s - j"
    from p have tk: "take ?n tag = drop j s" by (simp add: has_prefix_def)
    have "?n < length tag"
    proof (rule ccontr)
      assume "\<not> ?n < length tag"
      then have "take ?n tag = tag" by simp
      with tk have "tag = take (length tag) (drop j s)" by simp
      with index_of_NoneD [OF none, of j] show False by (simp add: has_prefix_def)
    qed
    moreover have "?k < ?n" using j len by linarith
    ultimately have "\<not> has_suffix s (take ?n tag)" by (intro hold_len_greatest) auto
    moreover have "has_suffix s (drop j s)" by (metis append_take_drop_id has_suffix_append)
    ultimately show False using tk by simp
  qed
qed

text \<open>A tag found after more text is appended starts at or after the held suffix.\<close>

lemma index_of_shift:
  assumes "\<forall>j < length a. \<not> may_start sub (a @ b) j"
  shows "index_of (a @ b @ t) sub = map_option (\<lambda>i. length a + i) (index_of (b @ t) sub)"
proof -
  have early: "\<not> has_prefix (drop j (a @ b @ t)) sub" if "j < length a" for j
    using assms that may_start_append [of j "a @ b" sub t] by (auto simp: may_start_def)
  have late: "drop j (a @ b @ t) = drop (j - length a) (b @ t)" if "\<not> j < length a" for j
    using that by simp
  show ?thesis
  proof (cases "index_of (b @ t) sub")
    case None
    have "\<not> has_prefix (drop j (a @ b @ t)) sub" for j
      using early late index_of_NoneD [OF None] by (cases "j < length a") metis+
    with None show ?thesis by (simp add: index_of_NoneI)
  next
    case (Some i)
    from index_of_SomeD [OF this] have i: "has_prefix (drop i (b @ t)) sub" "i + length sub \<le> length (b @ t)"
      "\<forall>j < i. \<not> has_prefix (drop j (b @ t)) sub" by auto
    have "index_of (a @ b @ t) sub = Some (length a + i)"
    proof (rule index_of_SomeI)
      show "\<forall>j < length a + i. \<not> has_prefix (drop j (a @ b @ t)) sub"
      proof (intro allI impI)
        fix j assume "j < length a + i"
        with early late i(3) show "\<not> has_prefix (drop j (a @ b @ t)) sub"
          by (cases "j < length a") (metis, metis add_diff_inverse_nat nat_add_left_cancel_less)
      qed
    qed (use i in auto)
    with Some show ?thesis by simp
  qed
qed

lemma hold_back_unique:
  assumes "s = safe @ hold" "hold = take (length hold) tag" "length hold < length tag"
    "\<forall>j < length safe. \<not> may_start tag s j"
  shows "hold_back_partial_tag s tag = (safe, hold)"
proof -
  obtain safe1 hold1 where h: "hold_back_partial_tag s tag = (safe1, hold1)" by force
  from assms(3) have "tag \<noteq> []" by auto
  note hb = hold_back [OF h this]
  have "\<not> length safe1 < length safe"
  proof
    assume less: "length safe1 < length safe"
    from hb(1) have "drop (length safe1) s = hold1" by simp
    with hb(2) have "may_start tag s (length safe1)"
      by (metis append_take_drop_id has_prefix_append may_start_def)
    with assms(4) less show False by blast
  qed
  moreover have "\<not> length safe < length safe1"
  proof
    let ?m = "min (length tag - 1) (length s)"
    assume "length safe < length safe1"
    with hb(1) assms(1) have "length hold1 < length hold" by (metis length_append nat_add_left_cancel_less add.commute not_less_eq linorder_neqE_nat add_less_mono less_irrefl)
    moreover have "length hold1 = hold_len s tag ?m"
      using h hold_len_bound [of s tag ?m] by (auto simp: hold_back_partial_tag_def Let_def)
    moreover have "length hold \<le> ?m" using assms(1,3) by auto
    ultimately have "\<not> has_suffix s (take (length hold) tag)"
      by (intro hold_len_greatest) auto
    with assms(1,2) show False by (metis has_suffix_append)
  qed
  ultimately have "length safe = length safe1" by linarith
  with hb(1) assms(1) h show ?thesis by simp
qed


section \<open>Chunking\<close>

lemma feed_loop_append:
  "feed_loop inside (p @ t) =
     (case feed_loop inside p of (o1, sp) \<Rightarrow>
        (case feed_loop (in_think sp) (pending sp @ t) of (o2, sp2) \<Rightarrow> (join o1 o2, sp2)))"
proof (induction inside p rule: feed_loop.induct)
  case (1 inside p)
  let ?tag = "current_tag inside"
  show ?case
  proof (cases "index_of p ?tag")
    case (Some k)
    from index_of_SomeD [OF Some] have "k + length ?tag \<le> length p" by simp
    with Some "1.IH" [OF Some] show ?thesis
      by (simp add: feed_loop.simps [of inside "p @ t"] feed_loop.simps [of inside p]
          index_of_append [OF Some] join_def split: prod.splits)
  next
    case None
    obtain safe hold where h: "hold_back_partial_tag p ?tag = (safe, hold)" by force
    note hb = hold_back [OF h current_tag_length(2)]
    note first = hb(4) [OF None]
    from first hb(1) have shift: "index_of (safe @ hold @ t) ?tag =
        map_option (\<lambda>i. length safe + i) (index_of (hold @ t) ?tag)"
      by (intro index_of_shift) simp
    have left: "feed_loop inside p = (emit inside safe, \<lparr>in_think = inside, pending = hold\<rparr>)"
      using None h by (simp add: feed_loop.simps [of inside p])
    show ?thesis
    proof (cases "index_of (hold @ t) ?tag")
      case (Some i)
      then show ?thesis using shift left hb(1)
        by (simp add: feed_loop.simps [of inside "safe @ hold @ t"]
            feed_loop.simps [of inside "hold @ t"] join_def emit_def split: prod.splits)
    next
      case none2: None
      obtain safe2 hold2 where h2: "hold_back_partial_tag (hold @ t) ?tag = (safe2, hold2)" by force
      note hb2 = hold_back [OF h2 current_tag_length(2)]
      have "\<not> may_start ?tag (safe @ hold @ t) j" if "j < length (safe @ safe2)" for j
      proof (cases "j < length safe")
        case True
        with first hb(1) may_start_append [of j p ?tag t] show ?thesis by auto
      next
        case False
        with that hb2(4) [OF none2] have "\<not> may_start ?tag (hold @ t) (j - length safe)" by auto
        with False show ?thesis by (simp add: may_start_def)
      qed
      with hb2(1-3) have "hold_back_partial_tag (safe @ hold @ t) ?tag = (safe @ safe2, hold2)"
        by (intro hold_back_unique) auto
      with shift none2 h2 left hb(1) show ?thesis
        by (simp add: feed_loop.simps [of inside "safe @ hold @ t"]
            feed_loop.simps [of inside "hold @ t"] join_def emit_def)
    qed
  qed
qed

text \<open>Between two calls the pending text is a proper prefix of the awaited tag.\<close>

definition splitter_inv :: "think_splitter \<Rightarrow> bool" where
  "splitter_inv sp \<longleftrightarrow>
     length (pending sp) < length (current_tag (in_think sp)) \<and>
     pending sp = take (length (pending sp)) (current_tag (in_think sp))"

lemma feed_loop_inv: "splitter_inv (snd (feed_loop inside p))"
proof (induction inside p rule: feed_loop.induct)
  case (1 inside p)
  then show ?case
    using hold_back [of p "current_tag inside"]
    by (cases "index_of p (current_tag inside)")
      (auto simp: feed_loop.simps [of inside p] splitter_inv_def split: prod.splits)
qed

lemma short_no_index: "length p < length tag \<Longrightarrow> index_of p tag = None"
  using index_of_SomeD [of p tag] by (cases "index_of p tag") auto

lemma feed_loop_pending:
  assumes "splitter_inv sp"
  shows "feed_loop (in_think sp) (pending sp) = (([], []), sp)"
proof -
  from assms have inv: "length (pending sp) < length (current_tag (in_think sp))"
    "pending sp = take (length (pending sp)) (current_tag (in_think sp))"
    by (simp_all add: splitter_inv_def)
  have "hold_back_partial_tag (pending sp) (current_tag (in_think sp)) = ([], pending sp)"
    using inv by (intro hold_back_unique) auto
  with inv(1) show ?thesis
    by (simp add: feed_loop.simps [of "in_think sp"] short_no_index emit_def)
qed

lemma feed_normal: "splitter_inv sp \<Longrightarrow> feed sp s = feed_loop (in_think sp) (pending sp @ s)"
  by (simp add: feed_def feed_loop_pending)

lemma feed_keeps_inv [wf_intros]: "splitter_inv sp \<Longrightarrow> splitter_inv (snd (feed sp s))"
  by (simp add: feed_normal feed_loop_inv)

lemma splitter_inv_new: "splitter_inv new_think_stream_splitter"
  by (simp add: splitter_inv_def new_think_stream_splitter_def)

interpretation splitter: chunk_transducer feed join "([], [])" splitter_inv
proof unfold_locales
  show "feed s (xs @ ys) = (case feed s xs of (o1, s1) \<Rightarrow> case feed s1 ys of (o2, s2) \<Rightarrow> (join o1 o2, s2))"
    if "splitter_inv s" for s xs ys
    using feed_loop_append [of "in_think s" "pending s @ xs" ys] feed_keeps_inv [OF that, of xs]
    by (auto simp: feed_normal [OF that] feed_normal split: prod.splits)
  show "feed s [] = (([], []), s)" for s by (simp add: feed_def)
qed (auto simp: join_def intro: feed_keeps_inv)

section \<open>The batch reading\<close>

text \<open>The whole text read at once: up to the next awaited tag, alternately inside and outside.\<close>

function split_text :: "bool \<Rightarrow> string \<Rightarrow> string \<times> string" where
  "split_text inside p =
     (case index_of p (current_tag inside) of
        Some k \<Rightarrow> join (emit inside (take k p))
                   (split_text (\<not> inside) (drop (k + length (current_tag inside)) p))
      | None \<Rightarrow> emit inside p)"
  by pat_completeness auto
termination
  by (relation "measure (\<lambda>(_, p). length p)") (auto intro: tag_progress)

declare split_text.simps [simp del]

lemma join_emit: "join (emit i a) (emit i b) = emit i (a @ b)"
  by (simp add: join_def emit_def)

lemma join_assoc: "join (join a b) c = join a (join b c)"
  by (simp add: join_def)

lemma flush_emit: "fst (flush sp) = emit (in_think sp) (pending sp)"
  by (simp add: flush_def emit_def Let_def)

lemma feed_loop_flush:
  "(case feed_loop inside p of (out, sp) \<Rightarrow> join out (fst (flush sp))) = split_text inside p"
proof (induction inside p rule: feed_loop.induct)
  case (1 inside p)
  show ?case
  proof (cases "index_of p (current_tag inside)")
    case (Some k)
    with "1.IH" [OF Some, symmetric] show ?thesis
      by (simp add: feed_loop.simps [of inside p] split_text.simps [of inside p] join_assoc
          case_prod_unfold)
  next
    case None
    obtain safe hold where h: "hold_back_partial_tag p (current_tag inside) = (safe, hold)" by force
    have "split_text inside p = emit inside p"
      using None by (simp add: split_text.simps [of inside p])
    then have "split_text inside p = emit inside (safe @ hold)"
      using hold_back(1) [OF h] by (metis current_tag_length(2))
    with None h show ?thesis
      by (simp add: feed_loop.simps [of inside p] flush_emit join_emit)
  qed
qed

definition stream_split :: "string list \<Rightarrow> string \<times> string" where
  "stream_split chunks =
     (case feed_all feed join ([], []) new_think_stream_splitter chunks of
        (out, sp) \<Rightarrow> join out (fst (flush sp)))"

lemma stream_split_text: "stream_split chunks = split_text False (concat chunks)"
  using splitter.feed_all_concat [OF splitter_inv_new, of chunks]
    feed_loop_flush [of False "concat chunks"]
  by (simp add: stream_split_def feed_normal [OF splitter_inv_new])
    (simp add: new_think_stream_splitter_def)

text \<open>The reasoning left open at the end of the text, if its last block is never closed.\<close>

function open_tail :: "string \<Rightarrow> string option" where
  "open_tail s =
     (case index_of s think_open_tag of
        None \<Rightarrow> None
      | Some i \<Rightarrow>
          let after = drop (i + length think_open_tag) s
          in (case index_of after think_close_tag of
                None \<Rightarrow> Some after
              | Some j \<Rightarrow> open_tail (drop (j + length think_close_tag) after)))"
  by pat_completeness auto
termination
  by (relation "measure length")
    (auto simp: think_close_tag_def think_open_tag_def dest!: index_of_SomeD)

declare open_tail.simps [simp del]

lemma remove_blocks_split:
  "remove_blocks s = snd (split_text False s) @
     (case open_tail s of None \<Rightarrow> [] | Some t \<Rightarrow> think_open_tag @ t)"
proof (induction s rule: remove_blocks.induct)
  case (1 s)
  show ?case
  proof (cases "index_of s think_open_tag")
    case None
    then show ?thesis
      by (simp add: remove_blocks.simps [of s] open_tail.simps [of s] split_text.simps [of False s]
          current_tag_def emit_def)
  next
    case (Some i)
    let ?after = "drop (i + length think_open_tag) s"
    show ?thesis
    proof (cases "index_of ?after think_close_tag")
      case None
      with Some index_of_split [OF Some] show ?thesis
        by (simp add: remove_blocks.simps [of s] open_tail.simps [of s] split_text.simps [of False s]
            split_text.simps [of True ?after] current_tag_def emit_def join_def Let_def)
    next
      case some2: (Some j)
      let ?rest = "drop (j + length think_close_tag) ?after"
      have "split_text False s = join ([], take i s) (split_text True ?after)"
        using Some by (simp add: split_text.simps [of False s] current_tag_def emit_def)
      moreover have "split_text True ?after = join (take j ?after, []) (split_text False ?rest)"
        using some2 by (subst split_text.simps) (simp add: current_tag_def emit_def)
      ultimately have "snd (split_text False s) = take i s @ snd (split_text False ?rest)"
        by (simp add: join_def)
      moreover have "remove_blocks s = take i s @ remove_blocks ?rest" "open_tail s = open_tail ?rest"
        using Some some2 by (simp_all add: remove_blocks.simps [of s] open_tail.simps [of s] Let_def)
      ultimately show ?thesis using "1.IH" [OF Some refl some2] by simp
    qed
  qed
qed

section \<open>Properties\<close>

text \<open>
  C34: however the model's content is cut into chunks, what the splitter has emitted after
  \<^verbatim>\<open>Flush\<close> is the batch reading of the whole text: reasoning between the tags, answer text
  outside them, tags removed, nothing lost and nothing reordered.
\<close>

theorem think_stream_batch:
  "stream_split chunks = split_text False (concat chunks)"
  by (rule stream_split_text)

text \<open>
  The splitter holds back at most seven bytes, always a proper prefix of the tag it is
  waiting for, so output is never delayed by more than that.
\<close>

lemma think_stream_holds_little:
  assumes "feed_all feed join ([], []) new_think_stream_splitter chunks = (out, sp)"
  shows "length (pending sp) \<le> 7 \<and> (\<exists>rest. rest \<noteq> [] \<and> pending sp @ rest = current_tag (in_think sp))"
proof -
  have "splitter_inv sp"
    using splitter.feed_all_concat [OF splitter_inv_new, of chunks] assms
      feed_keeps_inv [OF splitter_inv_new, of "concat chunks"] by (metis snd_conv)
  then have "length (pending sp) < length (current_tag (in_think sp))"
    "pending sp @ drop (length (pending sp)) (current_tag (in_think sp)) = current_tag (in_think sp)"
    by (simp_all add: splitter_inv_def) (metis append_take_drop_id)
  then show ?thesis
    by (intro conjI exI [of _ "drop (length (pending sp)) (current_tag (in_think sp))"])
      (auto simp: current_tag_def think_open_tag_def think_close_tag_def split: if_splits)
qed

text \<open>
  The splitter and \<^verbatim>\<open>StripThinkBlocks\<close> agree on text whose blocks are all closed; when the
  last block is never closed they differ, the batch function keeping the opening tag and the
  reasoning in the text that is shown, where the splitter sends that reasoning to the thought
  area.
\<close>

lemma strip_think_blocks_stream:
  "strip_think_blocks (concat chunks) =
     trim_whitespace (snd (stream_split chunks) @
       (case open_tail (concat chunks) of None \<Rightarrow> [] | Some t \<Rightarrow> think_open_tag @ t))"
proof (cases "concat chunks = []")
  case True
  have "split_text False [] = ([], [])" "open_tail [] = None" "trim_whitespace [] = []"
    by code_simp+
  then show ?thesis by (simp only: strip_think_blocks_def stream_split_text True) simp
next
  case False
  then show ?thesis
    by (simp only: strip_think_blocks_def stream_split_text remove_blocks_split if_False)
qed

end
