(* ===== verification/Api_Key_Scope.thy ===== *)
theory Api_Key_Scope
  imports Prelude
begin

text \<open>
  \<^verbatim>\<open>internal/types/tenant_api_key.go\<close>: the scope an API key carries in a request (its
  knowledge-base allow-list and its capabilities), how it is normalised, and the checks made
  against it. The lemmas say that normalising is idempotent and give the checks as set
  membership over trimmed identifiers and known capabilities.
\<close>

definition api_key_scope_tenant :: string where "api_key_scope_tenant = ''tenant''"
definition api_key_scope_platform :: string where "api_key_scope_platform = ''platform''"

definition normalize_api_key_scope_type :: "string \<Rightarrow> string" where
  "normalize_api_key_scope_type scope =
     (if to_lower (trim_space scope) = api_key_scope_platform then api_key_scope_platform
      else api_key_scope_tenant)"

record tenant_api_key =
  tk_id :: uint64
  tk_tenant_id :: "tenant_id option"
  tk_scope_type :: string
  tk_name :: string
  tk_full_access :: bool
  tk_kb_ids :: "string list"
  tk_capabilities :: "string list"

definition tenant_api_key_is_platform :: "tenant_api_key option \<Rightarrow> bool" where
  "tenant_api_key_is_platform k =
     (case k of None \<Rightarrow> False
      | Some k \<Rightarrow> normalize_api_key_scope_type (tk_scope_type k) = api_key_scope_platform)"

definition tenant_id_value :: "tenant_api_key option \<Rightarrow> tenant_id" where
  "tenant_id_value k =
     (case k of None \<Rightarrow> 0 | Some k \<Rightarrow> (case tk_tenant_id k of None \<Rightarrow> 0 | Some t \<Rightarrow> t))"

section \<open>Capabilities\<close>

definition capability_ingest :: string where "capability_ingest = ''ingest''"
definition capability_manage_kbs :: string where "capability_manage_kbs = ''manage_kbs''"

definition known_capabilities :: "string list" where
  "known_capabilities =
     [''retrieve'', ''chat'', ''read_agents'', capability_ingest, capability_manage_kbs,
      ''manage_agents'', ''message_history'', ''manage_models'', ''manage_mcp_services'',
      ''manage_channels'', ''manage_vector_stores'', ''manage_storage_backends'',
      ''manage_web_search'', ''run_evaluations'', ''manage_members'', ''manage_tenant_settings'',
      ''system_tenants_read'', ''system_tenants_manage'', ''system_settings_read'',
      ''system_settings_manage'', ''system_runtime_read'', ''system_runtime_manage'',
      ''system_audit_read'', ''system_models_manage'']"

definition normalize_api_key_capability :: "string \<Rightarrow> string" where
  "normalize_api_key_capability c =
     (let v = to_lower (trim_space c) in if v \<in> set known_capabilities then v else [])"

definition normalize_api_key_capabilities :: "string list \<Rightarrow> string list" where
  "normalize_api_key_capabilities items =
     collect_new (\<lambda>item. let norm = normalize_api_key_capability item
                         in if norm = [] then None else Some norm) {} items"

definition normalize_id_array :: "string list \<Rightarrow> string list" where
  "normalize_id_array items =
     collect_new (\<lambda>item. let v = trim_space item in if v = [] then None else Some v) {} items"

section \<open>The scope\<close>

record api_key_scope =
  key_id :: uint64
  key_name :: string
  scope_type :: string
  full_access :: bool
  knowledge_base_ids :: "string list"
  capabilities :: "string list"

definition scope_normalize :: "api_key_scope \<Rightarrow> api_key_scope" where
  "scope_normalize s =
     \<lparr>key_id = key_id s, key_name = key_name s,
      scope_type = normalize_api_key_scope_type (scope_type s),
      full_access = full_access s,
      knowledge_base_ids = normalize_id_array (knowledge_base_ids s),
      capabilities = normalize_api_key_capabilities (capabilities s)\<rparr>"

definition scope_is_platform :: "api_key_scope \<Rightarrow> bool" where
  "scope_is_platform s \<longleftrightarrow> normalize_api_key_scope_type (scope_type s) = api_key_scope_platform"

definition has_capability :: "api_key_scope \<Rightarrow> string \<Rightarrow> bool" where
  "has_capability s c =
     (let c = normalize_api_key_capability c
      in if c = [] then False
         else list_ex (\<lambda>item. item = c) (normalize_api_key_capabilities (capabilities s)))"

definition allows_knowledge_base :: "api_key_scope \<Rightarrow> string \<Rightarrow> bool" where
  "allows_knowledge_base s kb =
     (let kb = trim_space kb; s = scope_normalize s
      in if kb = [] then False
         else if knowledge_base_ids s = [] then True
         else list_ex (\<lambda>allowed. allowed = kb) (knowledge_base_ids s))"

definition is_knowledge_base_restricted :: "api_key_scope \<Rightarrow> bool" where
  "is_knowledge_base_restricted s \<longleftrightarrow> 0 < length (knowledge_base_ids (scope_normalize s))"

definition allows_knowledge_bases :: "api_key_scope \<Rightarrow> string list \<Rightarrow> bool" where
  "allows_knowledge_bases s kbs =
     (let s = scope_normalize s
      in if knowledge_base_ids s = [] then True
         else if kbs = [] then False
         else list_all (allows_knowledge_base s) kbs)"

section \<open>Lemmas\<close>

lemma known_capability_fixed:
  "c \<in> set known_capabilities \<Longrightarrow> to_lower (trim_space c) = c"
proof -
  assume "c \<in> set known_capabilities"
  moreover have "list_all plain_word known_capabilities"
    by code_simp
  ultimately have "plain_word c" by (simp add: list_all_iff)
  then show ?thesis by (simp add: plain_word_trim plain_word_lower)
qed

lemma normalize_capability_idem [simp]:
  "normalize_api_key_capability (normalize_api_key_capability c) = normalize_api_key_capability c"
proof -
  have "normalize_api_key_capability [] = []"
    by (simp add: normalize_api_key_capability_def to_lower.simps)
  moreover have "normalize_api_key_capability c = [] \<or> normalize_api_key_capability c \<in> set known_capabilities"
    by (simp add: normalize_api_key_capability_def Let_def)
  ultimately show ?thesis
    by (auto simp: normalize_api_key_capability_def [of "normalize_api_key_capability c"] Let_def
        known_capability_fixed)
qed

lemma normalize_scope_type_idem [simp]:
  "normalize_api_key_scope_type (normalize_api_key_scope_type s) = normalize_api_key_scope_type s"
proof -
  have "normalize_api_key_scope_type ''platform'' = ''platform''"
    "normalize_api_key_scope_type ''tenant'' = ''tenant''"
    by (simp_all add: normalize_api_key_scope_type_def plain_word_trim plain_word_lower plain_word_def
        plain_char_def api_key_scope_platform_def api_key_scope_tenant_def)
  then show ?thesis
    by (metis normalize_api_key_scope_type_def api_key_scope_platform_def api_key_scope_tenant_def)
qed

lemma normalize_capabilities_set:
  "set (normalize_api_key_capabilities xs) = normalize_api_key_capability ` set xs - {[]}"
  by (auto simp: normalize_api_key_capabilities_def collect_new_set Let_def split: if_splits)

lemma normalize_capabilities_member:
  "c \<in> set (normalize_api_key_capabilities xs) \<longleftrightarrow>
     c \<noteq> [] \<and> (\<exists>x \<in> set xs. normalize_api_key_capability x = c)"
  by (auto simp: normalize_capabilities_set)

lemma normalize_capabilities_idem [simp]:
  "normalize_api_key_capabilities (normalize_api_key_capabilities xs) = normalize_api_key_capabilities xs"
  unfolding normalize_api_key_capabilities_def
  by (rule collect_new_idem) (auto simp: Let_def split: if_splits)

lemma normalize_ids_set: "set (normalize_id_array xs) = trim_space ` set xs - {[]}"
  by (auto simp: normalize_id_array_def collect_new_set Let_def split: if_splits)

lemma normalize_ids_idem [simp]: "normalize_id_array (normalize_id_array xs) = normalize_id_array xs"
  unfolding normalize_id_array_def
  by (rule collect_new_idem) (auto simp: Let_def split: if_splits)

lemma scope_normalize_idem [simp]: "scope_normalize (scope_normalize s) = scope_normalize s"
  by (simp add: scope_normalize_def)

lemma scope_normalize_fields [simp]:
  "key_id (scope_normalize s) = key_id s" "key_name (scope_normalize s) = key_name s"
  "full_access (scope_normalize s) = full_access s"
  by (simp_all add: scope_normalize_def)

lemma scope_checks_normalize [simp]:
  "has_capability (scope_normalize s) = has_capability s"
  "allows_knowledge_base (scope_normalize s) kb = allows_knowledge_base s kb"
  "allows_knowledge_bases (scope_normalize s) kbs = allows_knowledge_bases s kbs"
  "is_knowledge_base_restricted (scope_normalize s) = is_knowledge_base_restricted s"
  "scope_is_platform (scope_normalize s) = scope_is_platform s"
proof -
  show "has_capability (scope_normalize s) = has_capability s"
    by (rule ext) (simp add: has_capability_def scope_normalize_def)
  show "scope_is_platform (scope_normalize s) = scope_is_platform s"
    by (simp add: scope_is_platform_def scope_normalize_def)
qed (simp_all add: allows_knowledge_base_def allows_knowledge_bases_def is_knowledge_base_restricted_def)

text \<open>The identifiers a scope names, trimmed; empty when the key is not restricted.\<close>

definition allow_list :: "api_key_scope \<Rightarrow> string set" where
  "allow_list s = trim_space ` set (knowledge_base_ids s) - {[]}"

lemma knowledge_base_ids_normalize: "set (knowledge_base_ids (scope_normalize s)) = allow_list s"
  by (simp add: scope_normalize_def normalize_ids_set allow_list_def)

lemma allow_list_normalize [simp]: "allow_list (scope_normalize s) = allow_list s"
  by (metis knowledge_base_ids_normalize scope_normalize_idem)

lemma restricted_iff [op_simps]: "is_knowledge_base_restricted s \<longleftrightarrow> allow_list s \<noteq> {}"
  by (simp add: is_knowledge_base_restricted_def knowledge_base_ids_normalize [symmetric])

lemma allows_knowledge_base_iff [op_simps]:
  "allows_knowledge_base s kb \<longleftrightarrow>
     trim_space kb \<noteq> [] \<and> (allow_list s = {} \<or> trim_space kb \<in> allow_list s)"
  by (auto simp: allows_knowledge_base_def Let_def list_ex_iff knowledge_base_ids_normalize [symmetric])

lemma allows_knowledge_bases_iff [op_simps]:
  "allows_knowledge_bases s kbs \<longleftrightarrow>
     allow_list s = {} \<or> kbs \<noteq> [] \<and> (\<forall>kb \<in> set kbs. trim_space kb \<in> allow_list s)"
proof -
  have nil: "[] \<notin> allow_list s" by (simp add: allow_list_def)
  have "knowledge_base_ids (scope_normalize s) = [] \<longleftrightarrow> allow_list s = {}"
    by (simp add: knowledge_base_ids_normalize [symmetric])
  then show ?thesis using nil
    by (auto simp: allows_knowledge_bases_def Let_def list_all_iff allows_knowledge_base_iff)
qed

lemma has_capability_iff [op_simps]:
  "has_capability s c \<longleftrightarrow> normalize_api_key_capability c \<noteq> [] \<and>
     (\<exists>x \<in> set (capabilities s). normalize_api_key_capability x = normalize_api_key_capability c)"
  by (auto simp: has_capability_def Let_def list_ex_iff normalize_capabilities_member)

section \<open>Properties\<close>

text \<open>
  A key bound to knowledge bases allows exactly the listed ones, up to surrounding blanks;
  the empty identifier is never allowed, and a list of several passes only if every member
  does. Capabilities compare the same way, case and blanks ignored, and an unknown capability
  is never held. Storing the scope normalised changes no answer.
\<close>

lemma api_key_scope_checks:
  "(allows_knowledge_base s kb \<longleftrightarrow>
      trim_space kb \<noteq> [] \<and> (allow_list s = {} \<or> trim_space kb \<in> allow_list s)) \<and>
   (kbs \<noteq> [] \<longrightarrow> allow_list s \<noteq> {} \<longrightarrow>
      (allows_knowledge_bases s kbs \<longleftrightarrow> (\<forall>kb \<in> set kbs. allows_knowledge_base s kb))) \<and>
   (has_capability s c \<longrightarrow> normalize_api_key_capability c \<in> set known_capabilities) \<and>
   scope_normalize (scope_normalize s) = scope_normalize s \<and>
   has_capability (scope_normalize s) c = has_capability s c"
proof -
  have "[] \<notin> allow_list s" by (simp add: allow_list_def)
  moreover have "normalize_api_key_capability c \<noteq> [] \<Longrightarrow>
      normalize_api_key_capability c \<in> set known_capabilities"
    by (auto simp: normalize_api_key_capability_def Let_def split: if_splits)
  ultimately show ?thesis
    by (intro conjI impI)
      (auto simp only: restricted_iff allows_knowledge_base_iff allows_knowledge_bases_iff
        has_capability_iff scope_normalize_idem scope_checks_normalize)
qed

end
