(* ===== verification/Caller_Ctx.thy ===== *)
theory Caller_Ctx
  imports Api_Key_Scope
begin

text \<open>
  The identity values a request context carries and the helpers that read and derive them:
  \<^verbatim>\<open>internal/types/caller.go\<close>, \<^verbatim>\<open>context_helpers.go\<close>, \<^verbatim>\<open>principal.go\<close>,
  \<^verbatim>\<open>tenant_member.go\<close> and the context part of \<^verbatim>\<open>tenant_api_key.go\<close>. A Go context is the
  record \<open>ctx\<close>, one optional field per typed key (\<open>None\<close> when the key is absent); deriving a
  context is a record update. The lemmas show that changing the execution tenant never changes
  the caller, that a missing or unknown role satisfies no requirement, and that a captured task
  initiator is restored exactly.
\<close>

section \<open>Tenant roles and knowledge-base permissions\<close>

definition role_owner :: string where "role_owner = ''owner''"
definition role_admin :: string where "role_admin = ''admin''"
definition role_member :: string where "role_member = ''member''"

definition role_level :: "string \<Rightarrow> nat" where
  "role_level r =
     (if r = role_owner then 40 else if r = role_admin then 30 else if r = role_member then 20 else 0)"

definition role_is_valid :: "string \<Rightarrow> bool" where
  "role_is_valid r \<longleftrightarrow> r = role_owner \<or> r = role_admin \<or> r = role_member"

definition role_has_permission :: "string \<Rightarrow> string \<Rightarrow> bool" where
  "role_has_permission r required \<longleftrightarrow> role_level required \<le> role_level r"

definition is_tenant_admin :: "string \<Rightarrow> bool" where
  "is_tenant_admin r \<longleftrightarrow> role_has_permission r role_admin"

definition is_human_tenant_role :: "string \<Rightarrow> bool" where
  "is_human_tenant_role r \<longleftrightarrow> r = role_admin \<or> r = role_member"

definition normalize_tenant_role :: "string \<Rightarrow> string" where
  "normalize_tenant_role r =
     (if r = role_admin \<or> r = role_owner then role_admin
      else if r = role_member then role_member else role_member)"

definition perm_admin :: string where "perm_admin = ''admin''"
definition perm_editor :: string where "perm_editor = ''editor''"
definition perm_viewer :: string where "perm_viewer = ''viewer''"

definition perm_is_valid :: "string \<Rightarrow> bool" where
  "perm_is_valid p \<longleftrightarrow> p = perm_admin \<or> p = perm_editor \<or> p = perm_viewer"

definition perm_level :: "string \<Rightarrow> nat" where
  "perm_level p =
     (if p = perm_admin then 3 else if p = perm_editor then 2 else if p = perm_viewer then 1 else 0)"

definition perm_has_permission :: "string \<Rightarrow> string \<Rightarrow> bool" where
  "perm_has_permission p required \<longleftrightarrow> perm_level required \<le> perm_level p"

definition min_kb_permission :: "string \<Rightarrow> string \<Rightarrow> string" where
  "min_kb_permission a b =
     (if a = [] then b else if b = [] then a
      else if perm_has_permission a b then b else a)"

lemmas role_names = role_owner_def role_admin_def role_member_def
lemmas perm_names = perm_admin_def perm_editor_def perm_viewer_def

interpretation tenant_role: ranked role_level role_is_valid role_has_permission
  by unfold_locales (auto simp: role_has_permission_def role_is_valid_def role_level_def)

interpretation kb_perm: ranked perm_level perm_is_valid perm_has_permission
  by unfold_locales (auto simp: perm_has_permission_def perm_is_valid_def perm_level_def)

lemma role_empty [simp]: "\<not> role_is_valid []" "role_is_valid role_admin" "role_is_valid role_member"
  by (simp_all add: role_is_valid_def role_names)

lemma perm_valid_names [simp]:
  "perm_is_valid perm_admin" "perm_is_valid perm_editor" "perm_is_valid perm_viewer"
  "\<not> perm_is_valid []"
  by (simp_all add: perm_is_valid_def perm_names)

lemma perm_order [simp]:
  "perm_has_permission p p" "perm_has_permission perm_admin q"
  "perm_has_permission perm_editor perm_viewer" "\<not> perm_has_permission perm_editor perm_admin"
  "\<not> perm_has_permission perm_viewer perm_editor" "\<not> perm_has_permission perm_viewer perm_admin"
  by (simp_all add: perm_has_permission_def perm_level_def perm_names)

lemma perm_distinct [simp]:
  "perm_admin \<noteq> perm_editor" "perm_editor \<noteq> perm_admin" "perm_admin \<noteq> perm_viewer"
  "perm_viewer \<noteq> perm_admin" "perm_editor \<noteq> perm_viewer" "perm_viewer \<noteq> perm_editor"
  by (simp_all add: perm_names)

lemma valid_permits_viewer [simp]: "perm_has_permission p perm_viewer = perm_is_valid p"
  by (simp add: perm_has_permission_def perm_is_valid_def perm_level_def perm_names)

lemma tenant_admin_is_member [wf_intros]: "is_tenant_admin r \<Longrightarrow> role_is_valid r"
  using tenant_role.permits_valid [of r role_admin] by (simp add: is_tenant_admin_def)

section \<open>Membership state\<close>

record api_principal_config =
  pc_mode :: string
  pc_require_direct :: bool
  pc_secret :: string

record tenant =
  t_id :: tenant_id
  t_name :: string
  t_kind :: string
  t_profile :: "tenant_id option"
  t_principal_cfg :: "api_principal_config option"

definition is_config_profile :: "tenant option \<Rightarrow> bool" where
  "is_config_profile t = (case t of None \<Rightarrow> False | Some t \<Rightarrow> t_kind t = ''config_profile'')"

definition is_public_portal :: "tenant option \<Rightarrow> bool" where
  "is_public_portal t = (case t of None \<Rightarrow> False | Some t \<Rightarrow> t_kind t = ''public_portal'')"

definition is_hidden_tenant :: "tenant option \<Rightarrow> bool" where
  "is_hidden_tenant t \<longleftrightarrow> is_config_profile t \<or> is_public_portal t"

record tenant_member =
  m_tenant_id :: tenant_id
  m_status :: string
  m_role :: string

definition counts_as_membership :: "tenant_member option \<Rightarrow> tenant option \<Rightarrow> bool" where
  "counts_as_membership m t =
     (case m of None \<Rightarrow> False
      | Some m \<Rightarrow> m_tenant_id m \<noteq> 0 \<and> m_status m = ''active'' \<and>
          (case t of None \<Rightarrow> False | Some t \<Rightarrow> trim_space (t_name t) \<noteq> []))"

text \<open>\<open>memberships\<close> lists the tenant ids of the memberships passed to the function.\<close>

definition resolve_membership_state :: "bool \<Rightarrow> tenant_id list \<Rightarrow> string" where
  "resolve_membership_state is_system_admin memberships =
     (if is_system_admin then ''superadmin''
      else if list_ex (\<lambda>t. t \<noteq> 0) memberships then ''member''
      else ''guest'')"

section \<open>The context\<close>

record caller =
  c_tenant_id :: tenant_id
  c_user_id :: string
  c_role :: string

record principal =
  p_type :: string
  p_id :: string

record kb_grant =
  g_caller :: caller
  g_kb_id :: string
  g_tenant_id :: tenant_id
  g_permission :: string
  g_task :: bool

record kb_transfer_grant =
  x_caller :: caller
  x_tenant :: tenant_id
  x_source :: string
  x_target :: string
  x_task_id :: string
  x_creator_id :: string
  x_operation :: string
  x_create :: bool

record audit_api_key =
  a_id :: uint64
  a_name :: string

record ctx =
  v_caller :: "caller option"
  v_tenant_id :: "tenant_id option"
  v_user_id :: "string option"
  v_role :: "string option"
  v_system_admin :: "bool option"
  v_api_key :: "api_key_scope option"
  v_audit_key :: "audit_api_key option"
  v_principal :: "principal option"
  v_tenant_info :: "tenant option"
  v_session_tenant :: "tenant_id option"
  v_sandbox_tenant :: "tenant_id option"
  v_session_id :: "string option"
  v_grants :: "kb_grant list"
  v_transfer :: "kb_transfer_grant option"

definition empty_ctx :: ctx where
  "empty_ctx = \<lparr>v_caller = None, v_tenant_id = None, v_user_id = None, v_role = None,
     v_system_admin = None, v_api_key = None, v_audit_key = None, v_principal = None,
     v_tenant_info = None, v_session_tenant = None, v_sandbox_tenant = None, v_session_id = None,
     v_grants = [], v_transfer = None\<rparr>"

definition tenant_id_from_context :: "ctx \<Rightarrow> tenant_id \<times> bool" where
  "tenant_id_from_context ctx = (case v_tenant_id ctx of Some t \<Rightarrow> (t, True) | None \<Rightarrow> (0, False))"

definition user_id_from_context :: "ctx \<Rightarrow> string \<times> bool" where
  "user_id_from_context ctx = (case v_user_id ctx of Some u \<Rightarrow> (u, u \<noteq> []) | None \<Rightarrow> ([], False))"

definition tenant_role_from_context :: "ctx \<Rightarrow> string" where
  "tenant_role_from_context ctx =
     (case v_role ctx of None \<Rightarrow> [] | Some r \<Rightarrow> if role_is_valid r then r else [])"

definition is_system_admin_from_context :: "ctx \<Rightarrow> bool" where
  "is_system_admin_from_context ctx = (case v_system_admin ctx of None \<Rightarrow> False | Some b \<Rightarrow> b)"

definition tenant_info_from_context :: "ctx \<Rightarrow> tenant option" where
  "tenant_info_from_context ctx = v_tenant_info ctx"

definition is_digit :: "char \<Rightarrow> bool" where
  "is_digit c \<longleftrightarrow> 48 \<le> (of_char c :: nat) \<and> (of_char c :: nat) \<le> 57"

definition synthetic_prefix :: string where "synthetic_prefix = ''system-''"

definition is_synthetic_user_id :: "string \<Rightarrow> bool" where
  "is_synthetic_user_id u =
     (if length u \<le> length synthetic_prefix then False
      else if take (length synthetic_prefix) u \<noteq> synthetic_prefix then False
      else list_all is_digit (drop (length synthetic_prefix) u))"

definition session_tenant_id_from_context :: "ctx \<Rightarrow> tenant_id \<times> bool" where
  "session_tenant_id_from_context ctx =
     (case v_session_tenant ctx of
        Some v \<Rightarrow> if v \<noteq> 0 then (v, True) else tenant_id_from_context ctx
      | None \<Rightarrow> tenant_id_from_context ctx)"

definition with_sandbox_tenant_id :: "ctx \<Rightarrow> tenant_id \<Rightarrow> ctx" where
  "with_sandbox_tenant_id ctx t = (if t = 0 then ctx else ctx\<lparr>v_sandbox_tenant := Some t\<rparr>)"

definition sandbox_tenant_id_from_context :: "ctx \<Rightarrow> tenant_id \<times> bool" where
  "sandbox_tenant_id_from_context ctx =
     (case v_sandbox_tenant ctx of
        Some v \<Rightarrow> if v \<noteq> 0 then (v, True) else tenant_id_from_context ctx
      | None \<Rightarrow> tenant_id_from_context ctx)"

definition with_session_id :: "ctx \<Rightarrow> string \<Rightarrow> ctx" where
  "with_session_id ctx s = (if s = [] then ctx else ctx\<lparr>v_session_id := Some s\<rparr>)"

definition session_id_from_context :: "ctx \<Rightarrow> string \<times> bool" where
  "session_id_from_context ctx =
     (case v_session_id ctx of Some s \<Rightarrow> (s, s \<noteq> []) | None \<Rightarrow> ([], False))"

section \<open>Caller\<close>

definition caller_normalize :: "caller \<Rightarrow> caller" where
  "caller_normalize c = (if \<not> role_is_valid (c_role c) then c\<lparr>c_role := []\<rparr> else c)"

definition has_tenant_role :: "caller \<Rightarrow> bool" where
  "has_tenant_role c \<longleftrightarrow> role_is_valid (c_role c)"

definition with_caller :: "ctx \<Rightarrow> caller \<Rightarrow> ctx" where
  "with_caller ctx c = ctx\<lparr>v_caller := Some (caller_normalize c)\<rparr>"

definition caller_from_context :: "ctx \<Rightarrow> caller" where
  "caller_from_context ctx =
     (case v_caller ctx of
        Some c \<Rightarrow> c
      | None \<Rightarrow> \<lparr>c_tenant_id = fst (tenant_id_from_context ctx),
                  c_user_id = fst (user_id_from_context ctx),
                  c_role = tenant_role_from_context ctx\<rparr>)"

definition with_execution_tenant :: "ctx \<Rightarrow> tenant_id \<Rightarrow> ctx" where
  "with_execution_tenant ctx t =
     (let ctx = with_caller ctx (caller_from_context ctx) in ctx\<lparr>v_tenant_id := Some t\<rparr>)"

section \<open>Principal\<close>

definition principal_web_user :: string where "principal_web_user = ''web_user''"

definition principal_normalize :: "principal \<Rightarrow> principal" where
  "principal_normalize p = \<lparr>p_type = trim_space (p_type p), p_id = trim_space (p_id p)\<rparr>"

definition principal_valid :: "principal \<Rightarrow> bool" where
  "principal_valid p =
     (let p = principal_normalize p in p_type p \<noteq> [] \<and> p_id p \<noteq> [])"

definition principal_storage_id :: "principal \<Rightarrow> string" where
  "principal_storage_id p =
     (let p = principal_normalize p
      in if \<not> principal_valid p then [] else p_type p @ '':'' @ p_id p)"

definition with_principal :: "ctx \<Rightarrow> principal \<Rightarrow> ctx" where
  "with_principal ctx p =
     (let p = principal_normalize p
      in if \<not> principal_valid p then ctx else ctx\<lparr>v_principal := Some p\<rparr>)"

definition principal_from_context :: "ctx \<Rightarrow> principal option" where
  "principal_from_context ctx =
     (let fallback =
        (case user_id_from_context ctx of (uid, ok) \<Rightarrow>
           if ok \<and> trim_space uid \<noteq> []
           then Some \<lparr>p_type = principal_web_user, p_id = uid\<rparr> else None)
      in case v_principal ctx of
           Some p \<Rightarrow> if principal_valid p then Some (principal_normalize p) else fallback
         | None \<Rightarrow> fallback)"

definition is_api_session_owner_id :: "string \<Rightarrow> bool" where
  "is_api_session_owner_id u =
     (let u = trim_space u
      in has_prefix u ''api_tenant_key:'' \<or> has_prefix u ''api_external_user:'')"

section \<open>API-key checks on the context\<close>

datatype access_error =
    ErrUnauthorized
  | ErrNotFound
  | ErrForbidden
  | AppForbidden string
  | TransferRejected string

definition with_tenant_api_key_scope :: "ctx \<Rightarrow> api_key_scope \<Rightarrow> ctx" where
  "with_tenant_api_key_scope ctx s = ctx\<lparr>v_api_key := Some (scope_normalize s)\<rparr>"

definition api_key_scope_from_context :: "ctx \<Rightarrow> api_key_scope option" where
  "api_key_scope_from_context ctx = map_option scope_normalize (v_api_key ctx)"

definition authorize_api_key_kbs :: "ctx \<Rightarrow> string list \<Rightarrow> access_error + unit" where
  "authorize_api_key_kbs ctx kbs =
     (case api_key_scope_from_context ctx of
        None \<Rightarrow> Inr ()
      | Some scope \<Rightarrow>
          if \<not> is_knowledge_base_restricted scope then Inr ()
          else if 0 < length kbs \<and> \<not> allows_knowledge_bases scope kbs
          then Inl (AppForbidden ''API key scope does not allow one or more knowledge bases'')
          else Inr ())"

definition authorize_api_key_targets :: "ctx \<Rightarrow> string list \<Rightarrow> string list \<Rightarrow> access_error + unit" where
  "authorize_api_key_targets ctx kbs knowledge_ids =
     (case api_key_scope_from_context ctx of
        None \<Rightarrow> Inr ()
      | Some scope \<Rightarrow>
          if \<not> is_knowledge_base_restricted scope then Inr ()
          else if 0 < length knowledge_ids
          then Inl (AppForbidden ''API key scope does not allow knowledge_ids without a verified knowledge base'')
          else if 0 < length kbs \<and> \<not> allows_knowledge_bases scope kbs
          then Inl (AppForbidden ''API key scope does not allow one or more knowledge bases'')
          else Inr ())"

definition authorize_api_key_tag_ids :: "ctx \<Rightarrow> string list \<Rightarrow> access_error + unit" where
  "authorize_api_key_tag_ids ctx tags =
     (case api_key_scope_from_context ctx of
        None \<Rightarrow> Inr ()
      | Some scope \<Rightarrow>
          if \<not> is_knowledge_base_restricted scope then Inr ()
          else if 0 < length tags
          then Inl (AppForbidden ''API key scope does not allow tag_ids without a verified knowledge base'')
          else Inr ())"

definition filter_kbs_for_api_key_scope ::
  "ctx \<Rightarrow> string list \<Rightarrow> string list \<Rightarrow> access_error + string list" where
  "filter_kbs_for_api_key_scope ctx requested resolved =
     (case api_key_scope_from_context ctx of
        None \<Rightarrow> Inr resolved
      | Some scope \<Rightarrow>
          if \<not> is_knowledge_base_restricted scope then Inr resolved
          else if 0 < length requested
          then (if \<not> allows_knowledge_bases scope requested
                then Inl (AppForbidden ''API key scope does not allow one or more knowledge bases'')
                else Inr resolved)
          else Inr (filter (\<lambda>i. i \<in> set (knowledge_base_ids scope)) resolved))"

definition can_manage_model_config :: "ctx \<Rightarrow> bool" where
  "can_manage_model_config ctx =
     (case api_key_scope_from_context ctx of
        Some scope \<Rightarrow> scope_is_platform scope
      | None \<Rightarrow> is_system_admin_from_context ctx)"

section \<open>Task initiators\<close>

definition with_audit_api_key :: "ctx \<Rightarrow> audit_api_key \<Rightarrow> ctx" where
  "with_audit_api_key ctx k =
     (if a_id k = 0 \<and> a_name k = [] then ctx else ctx\<lparr>v_audit_key := Some k\<rparr>)"

definition audit_api_key_from_context :: "ctx \<Rightarrow> audit_api_key option" where
  "audit_api_key_from_context ctx =
     (case v_audit_key ctx of
        None \<Rightarrow> None
      | Some k \<Rightarrow> if a_id k = 0 \<and> a_name k = [] then None else Some k)"

record task_initiator =
  ti_user_id :: string
  ti_role :: string
  ti_key_id :: uint64
  ti_key_name :: string

definition task_initiator_from_context :: "ctx \<Rightarrow> task_initiator" where
  "task_initiator_from_context ctx =
     (let i0 = \<lparr>ti_user_id = [], ti_role = [], ti_key_id = 0, ti_key_name = []\<rparr>;
          i1 = (case audit_api_key_from_context ctx of
                  Some k \<Rightarrow> i0\<lparr>ti_key_id := a_id k, ti_key_name := a_name k\<rparr>
                | None \<Rightarrow>
                    (case api_key_scope_from_context ctx of
                       Some s \<Rightarrow> if 0 < key_id s \<or> key_name s \<noteq> []
                                 then i0\<lparr>ti_key_id := key_id s, ti_key_name := key_name s\<rparr> else i0
                     | None \<Rightarrow> i0))
      in case user_id_from_context ctx of (uid, ok) \<Rightarrow>
           if \<not> ok \<or> is_synthetic_user_id uid then i1
           else i1\<lparr>ti_user_id := uid, ti_role := tenant_role_from_context ctx\<rparr>)"

definition task_initiator_apply :: "task_initiator \<Rightarrow> ctx \<Rightarrow> ctx" where
  "task_initiator_apply i ctx =
     (let ctx1 = (if ti_user_id i \<noteq> []
                  then (let c = ctx\<lparr>v_user_id := Some (ti_user_id i)\<rparr>
                        in if role_is_valid (ti_role i) then c\<lparr>v_role := Some (ti_role i)\<rparr> else c)
                  else ctx)
      in if 0 < ti_key_id i \<or> ti_key_name i \<noteq> []
         then with_audit_api_key ctx1 \<lparr>a_id = ti_key_id i, a_name = ti_key_name i\<rparr>
         else ctx1)"

section \<open>Lemmas\<close>

lemma caller_normalize_idem [simp]: "caller_normalize (caller_normalize c) = caller_normalize c"
  by (simp add: caller_normalize_def)

lemma caller_normalize_fields [simp]:
  "c_tenant_id (caller_normalize c) = c_tenant_id c" "c_user_id (caller_normalize c) = c_user_id c"
  "role_is_valid (c_role (caller_normalize c)) = role_is_valid (c_role c)"
  "has_tenant_role (caller_normalize c) = has_tenant_role c"
  by (simp_all add: caller_normalize_def has_tenant_role_def)

lemma role_level_empty [simp]: "role_level [] = 0"
  by (simp add: role_level_def role_names)

lemma normalize_tenant_admin [simp]:
  "is_tenant_admin (c_role (caller_normalize c)) = is_tenant_admin (c_role c)"
  using tenant_role.valid_iff [of "c_role c"]
  by (auto simp: caller_normalize_def is_tenant_admin_def role_has_permission_def)

lemma caller_from_with_caller [simp]: "caller_from_context (with_caller ctx c) = caller_normalize c"
  by (simp add: caller_from_context_def with_caller_def)

lemma with_caller_fields [simp]:
  "v_api_key (with_caller ctx c) = v_api_key ctx" "v_grants (with_caller ctx c) = v_grants ctx"
  "v_tenant_id (with_caller ctx c) = v_tenant_id ctx" "v_caller (with_caller ctx c) = Some (caller_normalize c)"
  "v_system_admin (with_caller ctx c) = v_system_admin ctx" "v_user_id (with_caller ctx c) = v_user_id ctx"
  "v_principal (with_caller ctx c) = v_principal ctx" "v_transfer (with_caller ctx c) = v_transfer ctx"
  by (simp_all add: with_caller_def)

lemma with_execution_tenant_fields [simp]:
  "v_api_key (with_execution_tenant ctx t) = v_api_key ctx"
  "v_grants (with_execution_tenant ctx t) = v_grants ctx"
  "v_tenant_id (with_execution_tenant ctx t) = Some t"
  "v_caller (with_execution_tenant ctx t) = Some (caller_normalize (caller_from_context ctx))"
  "v_system_admin (with_execution_tenant ctx t) = v_system_admin ctx"
  "v_user_id (with_execution_tenant ctx t) = v_user_id ctx"
  "v_principal (with_execution_tenant ctx t) = v_principal ctx"
  "v_transfer (with_execution_tenant ctx t) = v_transfer ctx"
  by (simp_all add: with_execution_tenant_def Let_def)

lemma caller_from_with_execution_tenant [simp]:
  "caller_from_context (with_execution_tenant ctx t) = caller_normalize (caller_from_context ctx)"
  by (simp add: caller_from_context_def [of "with_execution_tenant ctx t"])

lemma caller_of_context_role:
  "v_caller ctx = None \<Longrightarrow> caller_normalize (caller_from_context ctx) = caller_from_context ctx"
  by (auto simp: caller_from_context_def caller_normalize_def tenant_role_from_context_def
      split: option.splits)

lemma task_initiator_person:
  "ti_user_id (task_initiator_from_context ctx) =
     (if is_synthetic_user_id (fst (user_id_from_context ctx)) then [] else fst (user_id_from_context ctx))"
  "ti_role (task_initiator_from_context ctx) =
     (if fst (user_id_from_context ctx) = [] \<or> is_synthetic_user_id (fst (user_id_from_context ctx))
      then [] else tenant_role_from_context ctx)"
proof -
  have ok: "snd (user_id_from_context ctx) \<longleftrightarrow> fst (user_id_from_context ctx) \<noteq> []"
    by (simp add: user_id_from_context_def split: option.splits)
  obtain uid b where "user_id_from_context ctx = (uid, b)" by force
  with ok show
    "ti_user_id (task_initiator_from_context ctx) =
     (if is_synthetic_user_id (fst (user_id_from_context ctx)) then [] else fst (user_id_from_context ctx))"
    "ti_role (task_initiator_from_context ctx) =
     (if fst (user_id_from_context ctx) = [] \<or> is_synthetic_user_id (fst (user_id_from_context ctx))
      then [] else tenant_role_from_context ctx)"
    by (auto simp: task_initiator_from_context_def Let_def split: option.splits)
qed

lemma authorize_single [op_simps]:
  "authorize_api_key_kbs ctx [kb] = Inr () \<longleftrightarrow>
     (\<forall>s. v_api_key ctx = Some s \<longrightarrow> allow_list s \<noteq> {} \<longrightarrow> trim_space kb \<in> allow_list s)"
  by (auto simp: authorize_api_key_kbs_def api_key_scope_from_context_def restricted_iff
      allows_knowledge_bases_iff split: option.splits)

lemma authorize_cases:
  "authorize_api_key_kbs ctx kbs = Inr () \<or>
   authorize_api_key_kbs ctx kbs =
     Inl (AppForbidden ''API key scope does not allow one or more knowledge bases'')"
  by (auto simp: authorize_api_key_kbs_def split: option.splits)

section \<open>Properties\<close>

text \<open>
  Whatever sequence of tenants a request is moved through, the caller used for
  authorization stays the one it started with (its role reduced to "no role" when it is not a
  known one), and only the data-scope tenant follows the last move.
\<close>

lemma execution_tenant_keeps_caller:
  "caller_from_context (foldl with_execution_tenant ctx (ts @ [t])) =
     caller_normalize (caller_from_context ctx) \<and>
   tenant_id_from_context (foldl with_execution_tenant ctx (ts @ [t])) = (t, True) \<and>
   v_api_key (foldl with_execution_tenant ctx (ts @ [t])) = v_api_key ctx \<and>
   v_grants (foldl with_execution_tenant ctx (ts @ [t])) = v_grants ctx"
proof -
  have "caller_normalize (caller_from_context (foldl with_execution_tenant ctx ts)) =
      caller_normalize (caller_from_context ctx) \<and>
    v_api_key (foldl with_execution_tenant ctx ts) = v_api_key ctx \<and>
    v_grants (foldl with_execution_tenant ctx ts) = v_grants ctx" for ts
    by (induction ts rule: rev_induct) simp_all
  then show ?thesis by (simp add: tenant_id_from_context_def)
qed

text \<open>
  Capturing the initiator of a task and restoring it on a worker context that carries no
  identity gives back the same person, role and key: what the activity feed will show. It never
  turns into an API-key authorization scope.
\<close>

lemma task_initiator_roundtrip:
  "task_initiator_from_context (task_initiator_apply (task_initiator_from_context ctx) empty_ctx) =
     task_initiator_from_context ctx \<and>
   api_key_scope_from_context (task_initiator_apply (task_initiator_from_context ctx) empty_ctx) = None"
proof -
  define i where "i = task_initiator_from_context ctx"
  have nil: "\<not> is_synthetic_user_id []" by (simp add: is_synthetic_user_id_def)
  then have role: "ti_role i = [] \<or> role_is_valid (ti_role i)" "ti_user_id i = [] \<Longrightarrow> ti_role i = []"
    and user: "\<not> is_synthetic_user_id (ti_user_id i)"
    by (auto simp: i_def task_initiator_person tenant_role_from_context_def split: option.splits if_splits)
  have "task_initiator_from_context (task_initiator_apply i empty_ctx) = i"
    using role user
    by (cases i)
      (auto simp: task_initiator_from_context_def task_initiator_apply_def Let_def empty_ctx_def
        audit_api_key_from_context_def with_audit_api_key_def user_id_from_context_def
        tenant_role_from_context_def api_key_scope_from_context_def word_neq_0_conv)
  moreover have "v_api_key (task_initiator_apply i empty_ctx) = None"
    by (simp add: task_initiator_apply_def Let_def with_audit_api_key_def empty_ctx_def)
  ultimately show ?thesis by (simp add: i_def api_key_scope_from_context_def)
qed

end
