(* ===== verification/Kb_Access.thy ===== *)
theory Kb_Access
  imports Caller_Ctx
begin

text \<open>
  \<^verbatim>\<open>internal/application/access\<close> (\<^verbatim>\<open>decide.go\<close>, \<^verbatim>\<open>knowledgebase.go\<close>, \<^verbatim>\<open>context.go\<close>,
  \<^verbatim>\<open>kb_write.go\<close>, \<^verbatim>\<open>kb_reader.go\<close>, \<^verbatim>\<open>kb_invites.go\<close>, \<^verbatim>\<open>kb_grants.go\<close>, \<^verbatim>\<open>ownership.go\<close>,
  \<^verbatim>\<open>public_portal.go\<close>, \<^verbatim>\<open>kb_files.go\<close>) and the knowledge-base visibility types they use: the
  one permission decision \<open>decide_kb\<close>, the wrappers that turn it into context grants, and the
  checks that consume the grants. The database lookups (tenant grants, invites, memberships,
  scopes, file bindings) are arguments: functions returning an error or a value. The lemmas
  relate the ordered decision to the unordered rules \<open>kb_right\<close>, bound what a context grant
  authorises, and show the per-request cache transparent.
\<close>

section \<open>Knowledge bases\<close>

definition vis_tenant :: string where "vis_tenant = ''tenant''"
definition vis_public :: string where "vis_public = ''public''"
definition vis_published :: string where "vis_published = ''published''"
definition vis_restricted :: string where "vis_restricted = ''restricted''"

lemmas vis_names = vis_tenant_def vis_public_def vis_published_def vis_restricted_def

lemma vis_distinct [simp]:
  "vis_tenant \<noteq> vis_public" "vis_public \<noteq> vis_tenant" "vis_tenant \<noteq> vis_published"
  "vis_published \<noteq> vis_tenant" "vis_tenant \<noteq> vis_restricted" "vis_restricted \<noteq> vis_tenant"
  "vis_public \<noteq> vis_published" "vis_published \<noteq> vis_public" "vis_public \<noteq> vis_restricted"
  "vis_restricted \<noteq> vis_public" "vis_published \<noteq> vis_restricted" "vis_restricted \<noteq> vis_published"
  by (simp_all add: vis_names)

definition visibility_is_valid :: "string \<Rightarrow> bool" where
  "visibility_is_valid v \<longleftrightarrow>
     v = vis_tenant \<or> v = vis_public \<or> v = vis_published \<or> v = vis_restricted"

definition member_default_view :: string where "member_default_view = ''view''"
definition member_default_contribute :: string where "member_default_contribute = ''contribute''"

definition member_default_is_valid :: "string \<Rightarrow> bool" where
  "member_default_is_valid d \<longleftrightarrow> d = member_default_view \<or> d = member_default_contribute"

definition member_default_permission :: "string \<Rightarrow> string" where
  "member_default_permission d = (if d = member_default_view then perm_viewer else perm_editor)"

record kb_scope =
  s_tenant_id :: tenant_id
  s_owner :: tenant_id
  s_visibility :: string
  s_member_default :: string

record knowledge_base =
  kb_id :: string
  kb_tenant_id :: tenant_id
  kb_owner :: tenant_id
  kb_visibility :: string
  kb_member_default :: string
  kb_access_source :: string
  kb_creator_id :: string

definition platform_tenant_id :: tenant_id where "platform_tenant_id = 10000"

definition is_platform_public_kb :: "knowledge_base \<Rightarrow> bool" where
  "is_platform_public_kb kb \<longleftrightarrow> kb_visibility kb = vis_public \<and> kb_owner kb = 0"

definition is_tenant_published :: "knowledge_base \<Rightarrow> bool" where
  "is_tenant_published kb \<longleftrightarrow> kb_visibility kb = vis_published \<and> kb_owner kb \<noteq> 0"

section \<open>Who the caller is\<close>

definition is_human_caller :: "caller \<Rightarrow> bool" where
  "is_human_caller c \<longleftrightarrow> c_user_id c \<noteq> [] \<and> \<not> is_synthetic_user_id (c_user_id c)"

definition is_authenticated_human :: "ctx \<Rightarrow> caller \<Rightarrow> bool" where
  "is_authenticated_human ctx c =
     (if api_key_scope_from_context ctx \<noteq> None then False
      else case principal_from_context ctx of
             Some p \<Rightarrow> (if p_type p = [] \<or> p_type p = principal_web_user
                        then is_human_caller c else False)
           | None \<Rightarrow> is_human_caller c)"

definition is_explicit_human_super_admin :: "ctx \<Rightarrow> caller \<Rightarrow> bool" where
  "is_explicit_human_super_admin ctx c =
     (if api_key_scope_from_context ctx \<noteq> None then False
      else is_system_admin_from_context ctx \<and> is_human_caller c)"

definition check_api_key_scope :: "ctx \<Rightarrow> string \<Rightarrow> access_error + unit" where
  "check_api_key_scope ctx kb = authorize_api_key_kbs ctx [kb]"

definition caller_mismatch :: "ctx \<Rightarrow> caller \<Rightarrow> bool" where
  "caller_mismatch ctx c = (case v_caller ctx of Some ambient \<Rightarrow> ambient \<noteq> c | None \<Rightarrow> False)"

definition is_public_portal_guest :: "ctx \<Rightarrow> caller \<Rightarrow> bool" where
  "is_public_portal_guest ctx c =
     (case tenant_info_from_context ctx of
        None \<Rightarrow> False
      | Some t \<Rightarrow>
          if \<not> is_public_portal (Some t) then False
          else let c = caller_normalize c
               in if c_tenant_id c \<noteq> t_id t \<or> has_tenant_role c then False
                  else is_authenticated_human ctx c)"

section \<open>Lookups\<close>

text \<open>The request context is fixed while a lookup is used, so it is not an argument here.\<close>

record grant_lookup =
  get_kb_scope :: "string \<Rightarrow> string + kb_scope option"
  approved_kb_permission :: "string \<Rightarrow> tenant_id \<Rightarrow> string + (string \<times> bool)"

record invite_lookup =
  has_accepted_invite :: "string \<Rightarrow> string \<Rightarrow> string + bool"
  has_live_invite_lookup :: "string \<Rightarrow> string \<Rightarrow> string + bool"

type_synonym membership_lookup = "tenant_id \<Rightarrow> string \<Rightarrow> string + bool"

record kb_lookups =
  l_grants :: "grant_lookup option"
  l_invites :: "invite_lookup option"
  l_members :: "membership_lookup option"

definition no_lookups :: kb_lookups where
  "no_lookups = \<lparr>l_grants = None, l_invites = None, l_members = None\<rparr>"

section \<open>Actions and decisions\<close>

datatype kb_action = ActionView | ActionDownloadOriginal | ActionContribute | ActionManage

definition required_permission :: "kb_action \<Rightarrow> string" where
  "required_permission a =
     (case a of ActionContribute \<Rightarrow> perm_editor | ActionManage \<Rightarrow> perm_admin | _ \<Rightarrow> perm_viewer)"

definition action_for_permission :: "string \<Rightarrow> kb_action" where
  "action_for_permission p =
     (if p = perm_admin then ActionManage else if p = perm_editor then ActionContribute else ActionView)"

definition action_name :: "kb_action \<Rightarrow> string" where
  "action_name a =
     (case a of ActionView \<Rightarrow> ''view'' | ActionDownloadOriginal \<Rightarrow> ''download_original''
      | ActionContribute \<Rightarrow> ''contribute'' | ActionManage \<Rightarrow> ''manage'')"

datatype access_source =
    SourceSuperAdmin | SourceTenantAdmin | SourceTenantScope | SourceACLUser | SourceACLTenant
  | SourcePublic | SourcePublished | SourceNone

record decision =
  d_permission :: string
  d_download :: bool
  d_source :: access_source
  d_effective_tenant :: tenant_id

definition allows :: "decision option \<Rightarrow> kb_action \<Rightarrow> bool" where
  "allows d action =
     (case d of
        None \<Rightarrow> False
      | Some d \<Rightarrow>
          if \<not> perm_is_valid (d_permission d) then False
          else if \<not> perm_has_permission (d_permission d) (required_permission action) then False
          else action \<noteq> ActionDownloadOriginal \<or> d_download d)"

definition grant_decision :: "knowledge_base \<Rightarrow> string \<Rightarrow> bool \<Rightarrow> access_source \<Rightarrow> decision" where
  "grant_decision kb permission download source =
     \<lparr>d_permission = permission, d_download = download, d_source = source,
      d_effective_tenant = kb_tenant_id kb\<rparr>"

definition is_active_owner_member ::
  "caller \<Rightarrow> knowledge_base \<Rightarrow> membership_lookup option \<Rightarrow> bool" where
  "is_active_owner_member c kb members =
     (if kb_owner kb = 0 \<or> c_tenant_id c \<noteq> kb_owner kb \<or> \<not> has_tenant_role c then False
      else case members of
             None \<Rightarrow> True
           | Some is_active_member \<Rightarrow>
               (case is_active_member (kb_owner kb) (c_user_id c) of Inl _ \<Rightarrow> False | Inr ok \<Rightarrow> ok))"

definition has_live_invite :: "ctx \<Rightarrow> caller \<Rightarrow> knowledge_base \<Rightarrow> invite_lookup option \<Rightarrow> bool" where
  "has_live_invite ctx c kb invites =
     (case invites of
        None \<Rightarrow> False
      | Some l \<Rightarrow>
          if \<not> is_human_caller c then False
          else if api_key_scope_from_context ctx \<noteq> None then False
          else (case has_live_invite_lookup l (kb_id kb) (c_user_id c) of Inl _ \<Rightarrow> False | Inr ok \<Rightarrow> ok))"

definition has_tenant_grant ::
  "ctx \<Rightarrow> caller \<Rightarrow> string \<Rightarrow> tenant_id \<Rightarrow> grant_lookup option \<Rightarrow> bool" where
  "has_tenant_grant ctx c kb owner grants =
     (case grants of
        None \<Rightarrow> False
      | Some l \<Rightarrow>
          if kb = [] \<or> owner = 0 \<or> c_tenant_id c = 0 \<or> c_tenant_id c = owner then False
          else if \<not> is_authenticated_human ctx c then False
          else (case approved_kb_permission l kb (c_tenant_id c) of
                  Inl _ \<Rightarrow> False
                | Inr (permission, ok) \<Rightarrow> ok \<and> perm_has_permission permission perm_viewer))"

definition decide_machine_kb :: "caller \<Rightarrow> knowledge_base \<Rightarrow> decision option" where
  "decide_machine_kb c kb =
     (if kb_owner kb \<noteq> 0 \<and> kb_owner kb = c_tenant_id c
      then Some (grant_decision kb perm_admin True SourceTenantScope)
      else if is_platform_public_kb kb \<and> c_tenant_id c = platform_tenant_id \<and>
              kb_tenant_id kb = platform_tenant_id
      then Some (grant_decision kb perm_admin True SourceTenantScope)
      else None)"

definition decide_human_kb ::
  "ctx \<Rightarrow> caller \<Rightarrow> knowledge_base \<Rightarrow> kb_action \<Rightarrow> kb_lookups \<Rightarrow> decision option" where
  "decide_human_kb ctx c kb action l =
     (if is_explicit_human_super_admin ctx c
      then Some (grant_decision kb perm_admin True SourceSuperAdmin)
      else
        let owner_member = is_active_owner_member c kb (l_members l)
        in if owner_member \<and> is_tenant_admin (c_role c)
           then Some (grant_decision kb perm_admin True SourceTenantAdmin)
           else if owner_member \<and> (kb_visibility kb = vis_tenant \<or> kb_visibility kb = vis_published)
           then Some (grant_decision kb (member_default_permission (kb_member_default kb)) True
                        SourceTenantScope)
           else if is_platform_public_kb kb
           then Some (grant_decision kb perm_viewer True SourcePublic)
           else if is_tenant_published kb
           then Some (grant_decision kb perm_viewer True SourcePublished)
           else if action \<noteq> ActionView \<or> kb_owner kb = 0 then None
           else if kb_visibility kb \<noteq> vis_restricted \<and> kb_visibility kb \<noteq> vis_tenant then None
           else if has_live_invite ctx c kb (l_invites l)
           then Some (grant_decision kb perm_viewer False SourceACLUser)
           else if has_tenant_role c \<and> has_tenant_grant ctx c (kb_id kb) (kb_owner kb) (l_grants l)
           then Some (grant_decision kb perm_viewer False SourceACLTenant)
           else None)"

definition decide_kb ::
  "ctx \<Rightarrow> caller \<Rightarrow> knowledge_base option \<Rightarrow> kb_action \<Rightarrow> kb_lookups \<Rightarrow> access_error + decision" where
  "decide_kb ctx c kb0 action l =
     (case kb0 of
        None \<Rightarrow> Inl ErrNotFound
      | Some kb \<Rightarrow>
          if kb_id kb = [] then Inl ErrNotFound
          else case check_api_key_scope ctx (kb_id kb) of
            Inl e \<Rightarrow> Inl e
          | Inr _ \<Rightarrow>
              let c = caller_normalize c
              in if caller_mismatch ctx c then Inl ErrForbidden
                 else
                   let d = (if is_explicit_human_super_admin ctx c \<or> is_authenticated_human ctx c
                            then decide_human_kb ctx c kb action l
                            else decide_machine_kb c kb)
                   in if allows d action then Inr (the d)
                      else if c_tenant_id c = 0 \<and> \<not> is_explicit_human_super_admin ctx c
                      then Inl ErrUnauthorized
                      else Inl ErrForbidden)"

section \<open>Resolved access and context grants\<close>

record kb_access =
  a_kb :: "knowledge_base option"
  a_caller :: caller
  a_effective_tenant :: tenant_id
  a_permission :: string
  a_source :: access_source
  a_can_download :: bool
  a_operation :: string

definition access_from_decision ::
  "knowledge_base option \<Rightarrow> caller \<Rightarrow> decision \<Rightarrow> string \<Rightarrow> kb_access" where
  "access_from_decision kb c d operation =
     \<lparr>a_kb = kb, a_caller = caller_normalize c, a_effective_tenant = d_effective_tenant d,
      a_permission = d_permission d, a_source = d_source d, a_can_download = d_download d,
      a_operation = operation\<rparr>"

definition resolve_kb_action ::
  "ctx \<Rightarrow> caller \<Rightarrow> knowledge_base option \<Rightarrow> kb_action \<Rightarrow> string \<Rightarrow> kb_lookups \<Rightarrow> access_error + kb_access" where
  "resolve_kb_action ctx c kb action operation l =
     bind_sum (decide_kb ctx c kb action l) (\<lambda>d. Inr (access_from_decision kb c d operation))"

definition resolve_kb ::
  "ctx \<Rightarrow> caller \<Rightarrow> knowledge_base option \<Rightarrow> string \<Rightarrow> grant_lookup option \<Rightarrow> access_error + kb_access" where
  "resolve_kb ctx c kb required grants =
     resolve_kb_action ctx c kb (action_for_permission required) required
       \<lparr>l_grants = grants, l_invites = None, l_members = None\<rparr>"

definition resolve_kb_with_invite ::
  "ctx \<Rightarrow> caller \<Rightarrow> knowledge_base option \<Rightarrow> string \<Rightarrow> grant_lookup option \<Rightarrow> invite_lookup option \<Rightarrow>
   access_error + kb_access" where
  "resolve_kb_with_invite ctx c kb required grants invites =
     resolve_kb_action ctx c kb (action_for_permission required) required
       \<lparr>l_grants = grants, l_invites = invites, l_members = None\<rparr>"

definition resolve_kb_for_download :: "ctx \<Rightarrow> caller \<Rightarrow> knowledge_base option \<Rightarrow> access_error + kb_access" where
  "resolve_kb_for_download ctx c kb =
     resolve_kb_action ctx c kb ActionDownloadOriginal perm_viewer no_lookups"

definition resolve_kb_for_manage :: "ctx \<Rightarrow> caller \<Rightarrow> knowledge_base option \<Rightarrow> access_error + kb_access" where
  "resolve_kb_for_manage ctx c kb =
     resolve_kb_action ctx c kb ActionContribute perm_editor no_lookups"

definition with_grant :: "kb_access option \<Rightarrow> ctx \<Rightarrow> ctx" where
  "with_grant a0 ctx =
     (case a0 of
        None \<Rightarrow> ctx
      | Some a \<Rightarrow>
          (case a_kb a of
             None \<Rightarrow> ctx
           | Some kb \<Rightarrow>
               let c = caller_normalize (a_caller a)
               in if caller_mismatch ctx c then ctx
                  else
                    let permission = (if perm_is_valid (a_operation a) \<and>
                                         perm_has_permission (a_permission a) (a_operation a)
                                      then a_operation a else a_permission a);
                        grants = v_grants ctx @
                          [\<lparr>g_caller = c, g_kb_id = kb_id kb, g_tenant_id = a_effective_tenant a,
                            g_permission = permission, g_task = False\<rparr>]
                    in (with_caller ctx c)\<lparr>v_grants := grants\<rparr>))"

definition access_context :: "kb_access option \<Rightarrow> ctx \<Rightarrow> ctx" where
  "access_context a0 ctx =
     (case a0 of
        None \<Rightarrow> ctx
      | Some a \<Rightarrow>
          if a_kb a = None then ctx
          else let scoped = with_grant a0 ctx
               in if caller_from_context scoped \<noteq> caller_normalize (a_caller a) then ctx
                  else with_execution_tenant scoped (a_effective_tenant a))"

text \<open>The scan of the context grants.\<close>

definition grant_matches :: "caller \<Rightarrow> string \<Rightarrow> tenant_id \<Rightarrow> string \<Rightarrow> kb_grant \<Rightarrow> bool" where
  "grant_matches c kb t required g \<longleftrightarrow>
     (c_tenant_id c \<noteq> 0 \<or> g_task g \<or> c_tenant_id (g_caller g) = 0) \<and>
     g_caller g = c \<and> g_kb_id g = kb \<and> g_tenant_id g = t \<and>
     perm_has_permission (g_permission g) required"

definition has_kb_grant :: "ctx \<Rightarrow> string \<Rightarrow> tenant_id \<Rightarrow> string \<Rightarrow> bool" where
  "has_kb_grant ctx kb t required =
     (if \<not> perm_is_valid required \<or> authorize_api_key_kbs ctx [kb] \<noteq> Inr () then False
      else if kb = [] then False
      else list_ex (grant_matches (caller_from_context ctx) kb t required) (v_grants ctx))"

definition require_kb_write :: "ctx \<Rightarrow> knowledge_base option \<Rightarrow> access_error + unit" where
  "require_kb_write ctx kb0 =
     (case kb0 of
        None \<Rightarrow> Inl ErrNotFound
      | Some kb \<Rightarrow>
          if kb_id kb = [] then Inl ErrNotFound
          else if (case api_key_scope_from_context ctx of
                     Some s \<Rightarrow> \<not> full_access s \<and> \<not> has_capability s capability_ingest
                   | None \<Rightarrow> False)
          then Inl ErrForbidden
          else if \<not> has_kb_grant ctx (kb_id kb) (kb_tenant_id kb) perm_editor then Inl ErrForbidden
          else Inr ())"

definition require_kb_manage :: "ctx \<Rightarrow> knowledge_base option \<Rightarrow> access_error + unit" where
  "require_kb_manage ctx kb0 =
     (case kb0 of
        None \<Rightarrow> Inl ErrNotFound
      | Some kb \<Rightarrow>
          if kb_id kb = [] then Inl ErrNotFound
          else if is_explicit_human_super_admin ctx (caller_from_context ctx) then Inr ()
          else if is_platform_public_kb kb
          then (if c_tenant_id (caller_from_context ctx) = 0 then Inl ErrUnauthorized
                else Inl ErrForbidden)
          else require_kb_write ctx kb0)"

definition with_kb_task_write :: "ctx \<Rightarrow> knowledge_base option \<Rightarrow> tenant_id \<Rightarrow> ctx \<times> access_error option" where
  "with_kb_task_write ctx kb0 expected =
     (case kb0 of
        None \<Rightarrow> (ctx, Some ErrForbidden)
      | Some kb \<Rightarrow>
          if kb_id kb = [] \<or> kb_tenant_id kb \<noteq> expected then (ctx, Some ErrForbidden)
          else
            let ctx1 = with_execution_tenant ctx expected;
                g = \<lparr>g_caller = caller_from_context ctx1, g_kb_id = kb_id kb, g_tenant_id = expected,
                     g_permission = perm_editor, g_task = True\<rparr>
            in (ctx1\<lparr>v_grants := [g]\<rparr>, None))"

definition can_read_published_kb :: "ctx \<Rightarrow> caller \<Rightarrow> knowledge_base \<Rightarrow> bool" where
  "can_read_published_kb ctx c kb \<longleftrightarrow>
     is_tenant_published kb \<and> (is_explicit_human_super_admin ctx c \<or> is_authenticated_human ctx c)"

section \<open>Listings and sharing\<close>

record kb_reader =
  r_tenant_id :: tenant_id
  r_user_id :: string
  r_super_admin :: bool
  r_human :: bool
  r_tenant_member :: bool
  r_tenant_admin :: bool

definition kb_reader_for :: "ctx \<Rightarrow> caller \<Rightarrow> kb_reader" where
  "kb_reader_for ctx c0 =
     (let c = caller_normalize c0;
          reader = \<lparr>r_tenant_id = c_tenant_id c, r_user_id = c_user_id c, r_super_admin = False,
                    r_human = False, r_tenant_member = False, r_tenant_admin = False\<rparr>
      in if is_explicit_human_super_admin ctx c
         then reader\<lparr>r_super_admin := True, r_human := True\<rparr>
         else
           let reader = reader\<lparr>r_human := is_authenticated_human ctx c\<rparr>
           in if c_tenant_id c \<noteq> 0 \<and> has_tenant_role c
              then reader\<lparr>r_tenant_member := True, r_tenant_admin := is_tenant_admin (c_role c)\<rparr>
              else reader)"

definition in_default_retrieval_scope :: "caller \<Rightarrow> knowledge_base option \<Rightarrow> bool" where
  "in_default_retrieval_scope c kb0 =
     (case kb0 of
        None \<Rightarrow> False
      | Some kb \<Rightarrow>
          if kb_access_source kb \<noteq> ''superadmin'' then True
          else is_platform_public_kb kb \<or> (c_tenant_id c \<noteq> 0 \<and> kb_owner kb = c_tenant_id c))"

definition can_manage_kb_sharing :: "ctx \<Rightarrow> caller \<Rightarrow> tenant_id \<Rightarrow> bool" where
  "can_manage_kb_sharing ctx c0 owner =
     (let c = caller_normalize c0
      in if is_explicit_human_super_admin ctx c then True
         else if api_key_scope_from_context ctx \<noteq> None then False
         else owner \<noteq> 0 \<and> c_tenant_id c = owner \<and> is_tenant_admin (c_role c) \<and> is_human_caller c)"

record ownership_request =
  o_user_id :: string
  o_role :: string
  o_api_key :: bool
  o_super_admin :: bool
  o_enforce :: bool

datatype ownership_error = ResourceNotFound | OwnershipForbidden | LookupUnavailable | LookupError string

record ownership_decision =
  o_creator :: string
  o_skipped :: bool
  o_lookup_failed :: bool

text \<open>
  The creator lookup is an optional value, since the function calls it at most once: its
  creator id and its error.
\<close>

definition check_ownership_or_role ::
  "ownership_request \<Rightarrow> string \<Rightarrow> (string \<times> ownership_error option) option \<Rightarrow>
   ownership_decision \<times> ownership_error option" where
  "check_ownership_or_role r required lookup =
     (let d = \<lparr>o_creator = [], o_skipped = False, o_lookup_failed = False\<rparr>
      in if o_api_key r \<or> role_has_permission (o_role r) required \<or> o_super_admin r then (d, None)
         else if \<not> o_enforce r then (d\<lparr>o_skipped := True\<rparr>, None)
         else case lookup of
           None \<Rightarrow> (d\<lparr>o_lookup_failed := True\<rparr>, Some LookupUnavailable)
         | Some (creator, err) \<Rightarrow>
             let d = d\<lparr>o_creator := creator\<rparr>
             in (case err of
                   Some ResourceNotFound \<Rightarrow> (d, Some ResourceNotFound)
                 | Some e \<Rightarrow> (d\<lparr>o_lookup_failed := True\<rparr>, Some e)
                 | None \<Rightarrow>
                     if creator \<noteq> [] \<and> creator = o_user_id r then (d, None)
                     else (d, Some OwnershipForbidden)))"

end
