(* ===== verification/Kb_Rules.thy ===== *)
theory Kb_Rules
  imports Kb_Access
begin

text \<open>
  The per-request permission cache (\<^verbatim>\<open>KBPermissions\<close> of \<^verbatim>\<open>context.go\<close>), the file gate
  (\<^verbatim>\<open>kb_files.go\<close>), and the theorems about \<^verbatim>\<open>internal/application/access\<close>: the ordered
  decision of \<open>decide_kb\<close> against the unordered rules \<open>kb_right\<close>, what an API key and an
  outsider can never get, what a resolved access authorises, and that the cache answers like a
  fresh decision.
\<close>

section \<open>The per-request cache\<close>

record kb_permissions =
  kp_ctx :: ctx
  kp_caller :: caller
  kp_lookup :: "grant_lookup option"
  kp_invites :: "invite_lookup option"
  kp_scopes :: "string \<Rightarrow> kb_scope option option"
  kp_decisions :: "string \<Rightarrow> bool option"

text \<open>
  \<open>as_invites\<close> is the lookup seen as an invite lookup, when its Go type implements that
  interface as well.
\<close>

definition new_kb_permissions ::
  "ctx \<Rightarrow> grant_lookup option \<Rightarrow> invite_lookup option \<Rightarrow> kb_permissions" where
  "new_kb_permissions ctx lookup as_invites =
     \<lparr>kp_ctx = ctx, kp_caller = caller_from_context ctx, kp_lookup = lookup, kp_invites = as_invites,
      kp_scopes = Map.empty, kp_decisions = Map.empty\<rparr>"

definition with_invites :: "kb_permissions \<Rightarrow> invite_lookup option \<Rightarrow> kb_permissions" where
  "with_invites p l =
     (if l \<noteq> None then p\<lparr>kp_invites := l, kp_decisions := Map.empty\<rparr> else p)"

definition scope_of :: "kb_permissions \<Rightarrow> string \<Rightarrow> (kb_scope option \<times> bool) \<times> kb_permissions" where
  "scope_of p kb =
     (case kp_lookup p of
        None \<Rightarrow> ((None, True), p)
      | Some l \<Rightarrow>
          (case kp_scopes p kb of
             Some s \<Rightarrow> ((s, s \<noteq> None), p)
           | None \<Rightarrow>
               let s = (case get_kb_scope l kb of Inl _ \<Rightarrow> None | Inr s \<Rightarrow> s)
               in ((s, s \<noteq> None), p\<lparr>kp_scopes := (kp_scopes p)(kb \<mapsto> s)\<rparr>)))"

definition decide_view :: "kb_permissions \<Rightarrow> knowledge_base \<Rightarrow> bool \<times> kb_permissions" where
  "decide_view p kb =
     (case kp_decisions p (kb_id kb) of
        Some allowed \<Rightarrow> (allowed, p)
      | None \<Rightarrow>
          let ok = (case decide_kb (kp_ctx p) (kp_caller p) (Some kb) ActionView
                           \<lparr>l_grants = kp_lookup p, l_invites = kp_invites p, l_members = None\<rparr> of
                      Inl _ \<Rightarrow> False | Inr _ \<Rightarrow> True)
          in (ok, p\<lparr>kp_decisions := (kp_decisions p)(kb_id kb \<mapsto> ok)\<rparr>))"

definition checked_kb :: "string \<Rightarrow> tenant_id \<Rightarrow> kb_scope option \<Rightarrow> bool \<Rightarrow> knowledge_base" where
  "checked_kb kb owner scope ok =
     (let k0 = \<lparr>kb_id = kb, kb_tenant_id = owner, kb_owner = owner, kb_visibility = vis_tenant,
                kb_member_default = member_default_contribute, kb_access_source = [],
                kb_creator_id = []\<rparr>
      in case scope of
           Some s \<Rightarrow>
             k0\<lparr>kb_tenant_id := s_tenant_id s, kb_owner := s_owner s,
                kb_visibility := (if \<not> visibility_is_valid (s_visibility s) then vis_tenant
                                  else s_visibility s),
                kb_member_default := (if \<not> member_default_is_valid (s_member_default s)
                                      then member_default_contribute else s_member_default s)\<rparr>
         | None \<Rightarrow> if \<not> ok then k0\<lparr>kb_visibility := vis_restricted\<rparr> else k0)"

definition kb_check ::
  "kb_permissions \<Rightarrow> string \<Rightarrow> tenant_id \<Rightarrow> string \<Rightarrow> (access_error + bool) \<times> kb_permissions" where
  "kb_check p kb owner required =
     (if kb = [] \<or> \<not> perm_is_valid required then (Inr False, p)
      else case authorize_api_key_kbs (kp_ctx p) [kb] of
             Inl e \<Rightarrow> (Inl e, p)
           | Inr _ \<Rightarrow>
               (case scope_of p kb of
                  ((scope, ok), p1) \<Rightarrow>
                    let k = checked_kb kb owner scope ok;
                        held = has_kb_grant (kp_ctx p) kb (kb_tenant_id k) required
                    in if required = perm_viewer
                       then (case decide_view p1 k of
                               (allowed, p2) \<Rightarrow> (Inr (if allowed then True else held), p2))
                       else (Inr held, p1)))"

section \<open>The file gate\<close>

record file_bindings =
  fb_knowledge_base_ids :: "string list"
  fb_source_file_kb_ids :: "string list"

record kb_file_gate =
  fg_bindings :: "(tenant_id \<Rightarrow> string \<Rightarrow> string + file_bindings option) option"
  fg_kbs :: "(string list \<Rightarrow> string + knowledge_base option list) option"
  fg_lookups :: kb_lookups

definition gate_active :: "kb_file_gate \<Rightarrow> bool" where
  "gate_active g \<longleftrightarrow> fg_bindings g \<noteq> None \<and> fg_kbs g \<noteq> None"

primrec gate_scan ::
  "ctx \<Rightarrow> kb_lookups \<Rightarrow> tenant_id \<Rightarrow> string list \<Rightarrow> knowledge_base option list \<Rightarrow> bool" where
  "gate_scan ctx l t original [] = False"
| "gate_scan ctx l t original (k # ks) =
     (case k of
        None \<Rightarrow> gate_scan ctx l t original ks
      | Some kb \<Rightarrow>
          if kb_tenant_id kb \<noteq> t then gate_scan ctx l t original ks
          else
            let action = (if kb_id kb \<in> set original then ActionDownloadOriginal else ActionView)
            in case decide_kb ctx (caller_from_context ctx) (Some kb) action l of
                 Inr _ \<Rightarrow> True
               | Inl _ \<Rightarrow> gate_scan ctx l t original ks)"

definition gate_authorize ::
  "kb_file_gate \<Rightarrow> ctx \<Rightarrow> tenant_id \<Rightarrow> string \<Rightarrow> bool \<times> access_error option" where
  "gate_authorize g ctx t ref =
     (case (fg_bindings g, fg_kbs g) of
        (Some get_bindings, Some get_kbs) \<Rightarrow>
          if t = 0 \<or> ref = [] then (False, None)
          else (case get_bindings t ref of
                  Inl _ \<Rightarrow> (True, Some ErrForbidden)
                | Inr None \<Rightarrow> (False, None)
                | Inr (Some b) \<Rightarrow>
                    if fb_knowledge_base_ids b = [] then (False, None)
                    else (case get_kbs (fb_knowledge_base_ids b) of
                            Inl _ \<Rightarrow> (True, Some ErrForbidden)
                          | Inr kbs \<Rightarrow>
                              if gate_scan ctx (fg_lookups g) t (fb_source_file_kb_ids b) kbs
                              then (True, None)
                              else (True, Some ErrForbidden)))
      | _ \<Rightarrow> (False, None))"

section \<open>The rules, without an order\<close>

text \<open>
  What each rule of the permission model gives a caller on a knowledge base: a permission and
  whether original files may be downloaded. There is no order and no rule takes anything away.
\<close>

inductive kb_right :: "ctx \<Rightarrow> caller \<Rightarrow> knowledge_base \<Rightarrow> kb_lookups \<Rightarrow> string \<Rightarrow> bool \<Rightarrow> bool"
  for ctx c kb l where
  super_admin: "is_explicit_human_super_admin ctx c \<Longrightarrow> kb_right ctx c kb l perm_admin True"
| owner_admin: "is_authenticated_human ctx c \<Longrightarrow> is_active_owner_member c kb (l_members l) \<Longrightarrow>
    is_tenant_admin (c_role c) \<Longrightarrow> kb_right ctx c kb l perm_admin True"
| owner_member: "is_authenticated_human ctx c \<Longrightarrow> is_active_owner_member c kb (l_members l) \<Longrightarrow>
    kb_visibility kb \<in> {vis_tenant, vis_published} \<Longrightarrow>
    kb_right ctx c kb l (member_default_permission (kb_member_default kb)) True"
| public_kb: "is_authenticated_human ctx c \<Longrightarrow> is_platform_public_kb kb \<Longrightarrow>
    kb_right ctx c kb l perm_viewer True"
| published_kb: "is_authenticated_human ctx c \<Longrightarrow> is_tenant_published kb \<Longrightarrow>
    kb_right ctx c kb l perm_viewer True"
| invited: "is_authenticated_human ctx c \<Longrightarrow> kb_owner kb \<noteq> 0 \<Longrightarrow>
    kb_visibility kb \<in> {vis_restricted, vis_tenant} \<Longrightarrow> has_live_invite ctx c kb (l_invites l) \<Longrightarrow>
    kb_right ctx c kb l perm_viewer False"
| granted: "is_authenticated_human ctx c \<Longrightarrow> kb_owner kb \<noteq> 0 \<Longrightarrow>
    kb_visibility kb \<in> {vis_restricted, vis_tenant} \<Longrightarrow> has_tenant_role c \<Longrightarrow>
    has_tenant_grant ctx c (kb_id kb) (kb_owner kb) (l_grants l) \<Longrightarrow>
    kb_right ctx c kb l perm_viewer False"
| machine_owner: "\<not> is_explicit_human_super_admin ctx c \<Longrightarrow> \<not> is_authenticated_human ctx c \<Longrightarrow>
    kb_owner kb \<noteq> 0 \<Longrightarrow> kb_owner kb = c_tenant_id c \<Longrightarrow> kb_right ctx c kb l perm_admin True"
| machine_platform: "\<not> is_explicit_human_super_admin ctx c \<Longrightarrow> \<not> is_authenticated_human ctx c \<Longrightarrow>
    is_platform_public_kb kb \<Longrightarrow> c_tenant_id c = platform_tenant_id \<Longrightarrow>
    kb_tenant_id kb = platform_tenant_id \<Longrightarrow> kb_right ctx c kb l perm_admin True"

inductive_cases kb_rightE: "kb_right ctx c kb l p dl"

definition right_allows :: "kb_action \<Rightarrow> string \<Rightarrow> bool \<Rightarrow> bool" where
  "right_allows action p dl \<longleftrightarrow>
     perm_has_permission p (required_permission action) \<and> (action = ActionDownloadOriginal \<longrightarrow> dl)"

lemma member_default_valid [simp]: "perm_is_valid (member_default_permission d)"
  by (simp add: member_default_permission_def)

lemma kb_right_valid: "kb_right ctx c kb l p dl \<Longrightarrow> perm_is_valid p"
  by (induction rule: kb_right.induct) simp_all

lemma allows_grant [simp]:
  "allows (Some (grant_decision kb p dl src)) action \<longleftrightarrow> perm_is_valid p \<and> right_allows action p dl"
  by (auto simp: allows_def grant_decision_def right_allows_def)

lemma allows_Some:
  "allows (Some d) action \<longleftrightarrow>
     perm_is_valid (d_permission d) \<and> right_allows action (d_permission d) (d_download d)"
  by (auto simp: allows_def right_allows_def)

lemma allows_none [simp]: "\<not> allows None action"
  by (simp add: allows_def)

lemma right_allows_simps [simp]:
  "right_allows action perm_admin True"
  "right_allows action perm_viewer True \<longleftrightarrow> action = ActionView \<or> action = ActionDownloadOriginal"
  "right_allows action perm_viewer False \<longleftrightarrow> action = ActionView"
  "perm_is_valid p \<Longrightarrow> right_allows ActionView p dl"
  by (auto simp: right_allows_def required_permission_def split: kb_action.splits)

text \<open>What the decision picked before it is checked against the action.\<close>

definition picked :: "ctx \<Rightarrow> caller \<Rightarrow> knowledge_base \<Rightarrow> kb_action \<Rightarrow> kb_lookups \<Rightarrow> decision option" where
  "picked ctx c kb action l =
     (if is_explicit_human_super_admin ctx c \<or> is_authenticated_human ctx c
      then decide_human_kb ctx c kb action l else decide_machine_kb c kb)"

lemma decide_kb_Inr_iff:
  "decide_kb ctx c (Some kb) action l = Inr d \<longleftrightarrow>
     kb_id kb \<noteq> [] \<and> check_api_key_scope ctx (kb_id kb) = Inr () \<and>
     \<not> caller_mismatch ctx (caller_normalize c) \<and>
     picked ctx (caller_normalize c) kb action l = Some d \<and> allows (Some d) action"
proof -
  have "decide_kb ctx c (Some kb) action l =
     (if kb_id kb = [] then Inl ErrNotFound
      else case check_api_key_scope ctx (kb_id kb) of
        Inl e \<Rightarrow> Inl e
      | Inr _ \<Rightarrow>
          if caller_mismatch ctx (caller_normalize c) then Inl ErrForbidden
          else if allows (picked ctx (caller_normalize c) kb action l) action
          then Inr (the (picked ctx (caller_normalize c) kb action l))
          else if c_tenant_id c = 0 \<and> \<not> is_explicit_human_super_admin ctx (caller_normalize c)
          then Inl ErrUnauthorized else Inl ErrForbidden)"
    by (simp only: decide_kb_def picked_def Let_def option.case caller_normalize_fields)
  then show ?thesis
    by (cases "picked ctx (caller_normalize c) kb action l") (auto split: sum.splits)
qed

lemma machine_owner_alt:
  "\<not> is_explicit_human_super_admin ctx c \<Longrightarrow> \<not> is_authenticated_human ctx c \<Longrightarrow>
    c_tenant_id c \<noteq> 0 \<Longrightarrow> kb_owner kb = c_tenant_id c \<Longrightarrow> kb_right ctx c kb l perm_admin True"
  by (rule kb_right.machine_owner) simp_all

lemma picked_right:
  "picked ctx c kb action l = Some d \<Longrightarrow>
     kb_right ctx c kb l (d_permission d) (d_download d) \<and> d_effective_tenant d = kb_tenant_id kb"
  by (auto simp: picked_def decide_human_kb_def decide_machine_kb_def Let_def grant_decision_def
      split: if_splits intro: kb_right.intros machine_owner_alt)

lemma picked_decides:
  assumes "kb_right ctx c kb l p dl" "right_allows action p dl"
  shows "\<exists>d. picked ctx c kb action l = Some d \<and> allows (Some d) action \<and>
    perm_has_permission (d_permission d) p"
proof (cases "is_explicit_human_super_admin ctx c")
  case True
  then show ?thesis
    by (simp add: picked_def decide_human_kb_def) (simp add: grant_decision_def)
next
  case not_super: False
  show ?thesis
  proof (cases "is_authenticated_human ctx c")
    case False
    with not_super assms show ?thesis
      by (auto elim!: kb_rightE simp: picked_def decide_machine_kb_def grant_decision_def allows_def
          right_allows_def)
  next
    case True
    have member: "perm_has_permission (member_default_permission x) perm_viewer" for x by simp
    have download: "right_allows action (member_default_permission x) True"
      if "action = ActionView \<or> action = ActionDownloadOriginal" for x
      using that member by (auto simp: right_allows_def required_permission_def)
    from assms True not_super show ?thesis
      using member download
      by (cases rule: kb_right.cases)
        (auto simp: picked_def decide_human_kb_def Let_def is_tenant_published_def
          is_platform_public_kb_def grant_decision_def [where permission = perm_admin]
          grant_decision_def [where permission = perm_viewer]
          grant_decision_def [where permission = "member_default_permission _"]
          allows_def right_allows_def required_permission_def split: if_splits kb_action.splits)
  qed
qed


lemma decide_kb_iff:
  "(\<exists>d. decide_kb ctx c (Some kb) action l = Inr d) \<longleftrightarrow>
     kb_id kb \<noteq> [] \<and> check_api_key_scope ctx (kb_id kb) = Inr () \<and>
     \<not> caller_mismatch ctx (caller_normalize c) \<and>
     (\<exists>p dl. kb_right ctx (caller_normalize c) kb l p dl \<and> right_allows action p dl)"
proof -
  have "(\<exists>d. picked ctx (caller_normalize c) kb action l = Some d \<and> allows (Some d) action) \<longleftrightarrow>
      (\<exists>p dl. kb_right ctx (caller_normalize c) kb l p dl \<and> right_allows action p dl)"
    using picked_decides picked_right allows_Some by metis
  then show ?thesis by (auto simp: decide_kb_Inr_iff)
qed

lemma decide_kb_right:
  "decide_kb ctx c (Some kb) action l = Inr d \<Longrightarrow>
     kb_right ctx (caller_normalize c) kb l (d_permission d) (d_download d) \<and>
     right_allows action (d_permission d) (d_download d) \<and>
     d_effective_tenant d = kb_tenant_id kb"
  using picked_right [of ctx "caller_normalize c" kb action l d]
  by (auto simp: decide_kb_Inr_iff allows_def right_allows_def split: if_splits)

lemma decide_kb_Some: "decide_kb ctx c k0 action l = Inr d \<Longrightarrow> \<exists>kb. k0 = Some kb \<and> kb_id kb \<noteq> []"
  by (cases k0) (auto simp: decide_kb_def decide_kb_Inr_iff)

lemma kb_right_no_download: "kb_right ctx c kb l p dl \<Longrightarrow> \<not> dl \<Longrightarrow> p = perm_viewer"
  by (auto elim: kb_rightE)

lemma decide_kb_highest:
  assumes "decide_kb ctx c (Some kb) action l = Inr d" "kb_right ctx (caller_normalize c) kb l p dl"
  shows "perm_has_permission (d_permission d) p"
proof (cases "right_allows action p dl")
  case True
  from picked_decides [OF assms(2) True] assms(1) show ?thesis
    by (auto simp: decide_kb_Inr_iff)
next
  case False
  from kb_right_valid [OF assms(2)] have "p = perm_admin \<or> p = perm_editor \<or> p = perm_viewer"
    by (simp add: perm_is_valid_def)
  moreover from decide_kb_right [OF assms(1)]
  have d: "perm_is_valid (d_permission d)" "right_allows action (d_permission d) (d_download d)"
    using kb_right_valid by blast+
  moreover have "perm_has_permission (d_permission d) p" if "p = perm_editor" "dl"
  proof -
    from False that have "action = ActionManage"
      by (auto simp: right_allows_def required_permission_def split: kb_action.splits)
    with d(2) that show ?thesis
      using kb_perm.permits_trans [of "d_permission d" perm_admin p]
      by (simp add: right_allows_def required_permission_def)
  qed
  ultimately show ?thesis
    using False kb_right_no_download [OF assms(2)] by (cases dl) auto
qed

lemma key_is_machine:
  "v_api_key ctx = Some s \<Longrightarrow> \<not> is_explicit_human_super_admin ctx c \<and> \<not> is_authenticated_human ctx c"
  by (simp add: is_explicit_human_super_admin_def is_authenticated_human_def api_key_scope_from_context_def)

lemma key_has_no_human_acl:
  "v_api_key ctx = Some s \<Longrightarrow> kb_right ctx c kb l p dl \<Longrightarrow>
     kb_owner kb \<noteq> 0 \<and> kb_owner kb = c_tenant_id c \<or>
     is_platform_public_kb kb \<and> c_tenant_id c = platform_tenant_id \<and> kb_tenant_id kb = platform_tenant_id"
  using key_is_machine [of ctx s c] by (auto elim: kb_rightE)

section \<open>Context grants\<close>

text \<open>
  The tenant condition of \<^verbatim>\<open>HasKBGrant\<close> excludes nothing: a grant that matches the caller
  carries the caller's own tenant, so one of its disjuncts always holds.
\<close>

lemma grant_matches_iff [op_simps]:
  "grant_matches c kb t q g \<longleftrightarrow>
     g_caller g = c \<and> g_kb_id g = kb \<and> g_tenant_id g = t \<and> perm_has_permission (g_permission g) q"
  by (auto simp: grant_matches_def)

lemma authorize_with_caller [simp]:
  "authorize_api_key_kbs (with_caller ctx c) kbs = authorize_api_key_kbs ctx kbs"
  "authorize_api_key_kbs (ctx\<lparr>v_grants := gs\<rparr>) kbs = authorize_api_key_kbs ctx kbs"
  by (simp_all add: authorize_api_key_kbs_def api_key_scope_from_context_def)

lemma caller_with_grants [simp]: "caller_from_context (ctx\<lparr>v_grants := gs\<rparr>) = caller_from_context ctx"
  by (simp add: caller_from_context_def tenant_id_from_context_def user_id_from_context_def
      tenant_role_from_context_def split: option.splits)

lemma resolve_kb_grant:
  assumes "resolve_kb_action ctx c (Some kb) action required l = Inr a" "perm_is_valid required"
    "\<And>p dl. right_allows action p dl \<Longrightarrow> perm_has_permission p required"
  shows "with_grant (Some a) ctx =
    (with_caller ctx (caller_normalize c))\<lparr>v_grants := v_grants ctx @
       [\<lparr>g_caller = caller_normalize c, g_kb_id = kb_id kb, g_tenant_id = kb_tenant_id kb,
         g_permission = required, g_task = False\<rparr>]\<rparr>"
    and "kb_id kb \<noteq> []" "authorize_api_key_kbs ctx [kb_id kb] = Inr ()"
proof -
  from assms(1) obtain d where d: "decide_kb ctx c (Some kb) action l = Inr d"
    and a: "a = access_from_decision (Some kb) c d required"
    by (auto simp: resolve_kb_action_def bind_sum_Inr)
  from decide_kb_right [OF d] have perm: "perm_has_permission (d_permission d) required"
    and t: "d_effective_tenant d = kb_tenant_id kb"
    using assms(3) by auto
  from d have "\<not> caller_mismatch ctx (caller_normalize c)" by (simp add: decide_kb_Inr_iff)
  with a perm t assms(2) show "with_grant (Some a) ctx =
    (with_caller ctx (caller_normalize c))\<lparr>v_grants := v_grants ctx @
       [\<lparr>g_caller = caller_normalize c, g_kb_id = kb_id kb, g_tenant_id = kb_tenant_id kb,
         g_permission = required, g_task = False\<rparr>]\<rparr>"
    by (simp add: with_grant_def access_from_decision_def Let_def)
  from d show "kb_id kb \<noteq> []" "authorize_api_key_kbs ctx [kb_id kb] = Inr ()"
    by (simp_all add: decide_kb_Inr_iff check_api_key_scope_def)
qed

lemma action_for_permission_needs:
  "perm_is_valid required \<Longrightarrow> right_allows (action_for_permission required) p dl \<Longrightarrow>
     perm_has_permission p required"
  by (auto simp: perm_is_valid_def right_allows_def action_for_permission_def required_permission_def
      split: if_splits)

section \<open>The cache answers like a fresh decision\<close>

lemma checked_kb_id [simp]: "kb_id (checked_kb kb owner s ok) = kb"
  by (simp add: checked_kb_def Let_def split: option.splits)

definition fresh :: "kb_permissions \<Rightarrow> kb_permissions" where
  "fresh p = p\<lparr>kp_scopes := Map.empty, kp_decisions := Map.empty\<rparr>"

definition looked_up :: "kb_permissions \<Rightarrow> string \<Rightarrow> kb_scope option \<times> bool" where
  "looked_up p kb =
     (case kp_lookup p of
        None \<Rightarrow> (None, True)
      | Some l \<Rightarrow>
          let s = (case get_kb_scope l kb of Inl _ \<Rightarrow> None | Inr s \<Rightarrow> s) in (s, s \<noteq> None))"

definition live_view :: "kb_permissions \<Rightarrow> string \<Rightarrow> tenant_id \<Rightarrow> bool" where
  "live_view p kb owner =
     (case decide_kb (kp_ctx p) (kp_caller p)
             (Some (checked_kb kb owner (fst (looked_up p kb)) (snd (looked_up p kb)))) ActionView
             \<lparr>l_grants = kp_lookup p, l_invites = kp_invites p, l_members = None\<rparr> of
        Inl _ \<Rightarrow> False | Inr _ \<Rightarrow> True)"

definition cache_ok :: "(string \<Rightarrow> tenant_id) \<Rightarrow> kb_permissions \<Rightarrow> bool" where
  "cache_ok owner p \<longleftrightarrow>
     (\<forall>kb s. kp_scopes p kb = Some s \<longrightarrow> s = fst (looked_up p kb)) \<and>
     (\<forall>kb b. kp_decisions p kb = Some b \<longrightarrow> b = live_view p kb (owner kb))"

definition same_source :: "kb_permissions \<Rightarrow> kb_permissions \<Rightarrow> bool" where
  "same_source p q \<longleftrightarrow> kp_ctx q = kp_ctx p \<and> kp_caller q = kp_caller p \<and>
     kp_lookup q = kp_lookup p \<and> kp_invites q = kp_invites p"

lemma same_source_views:
  "same_source p q \<Longrightarrow> looked_up q = looked_up p \<and> live_view q = live_view p"
  by (auto simp: same_source_def looked_up_def live_view_def fun_eq_iff split: option.splits)

lemma scope_of_cached:
  assumes "cache_ok owner p" "scope_of p kb = ((s, ok), q)"
  shows "(s, ok) = looked_up p kb \<and> cache_ok owner q \<and> same_source p q"
proof (cases "kp_lookup p")
  case None
  with assms show ?thesis by (simp add: scope_of_def looked_up_def same_source_def)
next
  case (Some l)
  show ?thesis
  proof (cases "kp_scopes p kb")
    case cached: (Some s')
    with assms(1) have "s' = fst (looked_up p kb)" by (simp add: cache_ok_def)
    with assms Some cached show ?thesis
      by (auto simp: scope_of_def looked_up_def same_source_def Let_def)
  next
    case None
    with assms(2) Some have q: "q = p\<lparr>kp_scopes := (kp_scopes p)(kb \<mapsto> s)\<rparr>"
      and s: "(s, ok) = looked_up p kb"
      by (auto simp: scope_of_def looked_up_def Let_def)
    from q have same: "same_source p q" by (simp add: same_source_def)
    from s have "s = fst (looked_up p kb)" by (metis fst_conv)
    moreover from q have "kp_scopes q = (kp_scopes p)(kb \<mapsto> s)" "kp_decisions q = kp_decisions p"
      by simp_all
    ultimately have "cache_ok owner q"
      using assms(1) by (simp add: cache_ok_def same_source_views [OF same])
    with s same show ?thesis by blast
  qed
qed

lemma decide_view_cached:
  assumes "cache_ok owner p" "decide_view p k = (b, q)" "kb_id k = kb"
    "k = checked_kb kb (owner kb) (fst (looked_up p kb)) (snd (looked_up p kb))"
  shows "b = live_view p kb (owner kb) \<and> cache_ok owner q \<and> same_source p q"
proof (cases "kp_decisions p kb")
  case (Some b')
  with assms show ?thesis by (auto simp: decide_view_def cache_ok_def same_source_def)
next
  case None
  with assms(2-4) have b: "b = live_view p kb (owner kb)"
    and q: "q = p\<lparr>kp_decisions := (kp_decisions p)(kb \<mapsto> b)\<rparr>"
    by (auto simp: decide_view_def live_view_def Let_def)
  from q have same: "same_source p q" by (simp add: same_source_def)
  from q have "kp_scopes q = kp_scopes p" "kp_decisions q = (kp_decisions p)(kb \<mapsto> b)" by simp_all
  with assms(1) b have "cache_ok owner q" by (simp add: cache_ok_def same_source_views [OF same])
  with b same show ?thesis by blast
qed

definition live_answer :: "kb_permissions \<Rightarrow> string \<Rightarrow> tenant_id \<Rightarrow> string \<Rightarrow> access_error + bool" where
  "live_answer p kb owner required =
     (if kb = [] \<or> \<not> perm_is_valid required then Inr False
      else case authorize_api_key_kbs (kp_ctx p) [kb] of
             Inl e \<Rightarrow> Inl e
           | Inr _ \<Rightarrow> Inr
               (required = perm_viewer \<and> live_view p kb owner \<or>
                has_kb_grant (kp_ctx p) kb
                  (kb_tenant_id (checked_kb kb owner (fst (looked_up p kb)) (snd (looked_up p kb))))
                  required))"

lemma kb_check_cached:
  assumes "cache_ok owner p" "kb_check p kb (owner kb) required = (ans, q)"
  shows "ans = live_answer p kb (owner kb) required \<and> cache_ok owner q \<and> same_source p q"
proof (cases "kb = [] \<or> \<not> perm_is_valid required \<or> (\<exists>e. authorize_api_key_kbs (kp_ctx p) [kb] = Inl e)")
  case True
  with assms show ?thesis by (auto simp: kb_check_def live_answer_def same_source_def)
next
  case False
  obtain s ok p1 where sc: "scope_of p kb = ((s, ok), p1)" by (metis surj_pair)
  from scope_of_cached [OF assms(1) sc] have so: "looked_up p kb = (s, ok)"
    and p1: "cache_ok owner p1" "same_source p p1" by auto
  note views = same_source_views [OF p1(2)]
  let ?k = "checked_kb kb (owner kb) s ok"
  from False obtain u where au: "authorize_api_key_kbs (kp_ctx p) [kb] = Inr u"
    by (cases "authorize_api_key_kbs (kp_ctx p) [kb]") auto
  from False have ok: "kb \<noteq> []" "perm_is_valid required" by auto
  show ?thesis
  proof (cases "required = perm_viewer")
    case True
    obtain b p2 where dv: "decide_view p1 ?k = (b, p2)" by force
    have "?k = checked_kb kb (owner kb) (fst (looked_up p1 kb)) (snd (looked_up p1 kb))"
      by (simp add: views so)
    from decide_view_cached [OF p1(1) dv checked_kb_id this]
    have b: "b = live_view p kb (owner kb)" "cache_ok owner p2" "same_source p1 p2"
      by (simp_all only: views)
    with p1(2) have same: "same_source p p2" by (simp add: same_source_def)
    have "kb_check p kb (owner kb) required =
        (Inr (if b then True else has_kb_grant (kp_ctx p) kb (kb_tenant_id ?k) required), p2)"
      using True ok by (simp add: kb_check_def sc dv au Let_def)
    moreover have "live_answer p kb (owner kb) required =
        Inr (b \<or> has_kb_grant (kp_ctx p) kb (kb_tenant_id ?k) required)"
      using True ok by (simp add: live_answer_def au so b(1))
    ultimately show ?thesis using b(2) same assms(2) by simp
  next
    case not_viewer: False
    have "kb_check p kb (owner kb) required =
        (Inr (has_kb_grant (kp_ctx p) kb (kb_tenant_id ?k) required), p1)"
      using not_viewer ok by (simp add: kb_check_def sc au Let_def)
    moreover have "live_answer p kb (owner kb) required =
        Inr (has_kb_grant (kp_ctx p) kb (kb_tenant_id ?k) required)"
      using not_viewer ok by (simp add: live_answer_def au so)
    ultimately show ?thesis using p1 assms(2) by simp
  qed
qed

primrec run_checks ::
  "kb_permissions \<Rightarrow> (string \<Rightarrow> tenant_id) \<Rightarrow> (string \<times> string) list \<Rightarrow> (access_error + bool) list" where
  "run_checks p owner [] = []"
| "run_checks p owner (r # rs) =
     (case kb_check p (fst r) (owner (fst r)) (snd r) of
        (ans, q) \<Rightarrow> ans # run_checks q owner rs)"

lemma cache_ok_fresh: "cache_ok owner (fresh p)"
  by (simp add: cache_ok_def fresh_def)

lemma cache_ok_new: "cache_ok owner (new_kb_permissions ctx lookup as_invites)"
  by (simp add: cache_ok_def new_kb_permissions_def)

lemma same_source_fresh: "same_source p (fresh p)"
  by (simp add: same_source_def fresh_def)

lemma run_checks_live:
  "cache_ok owner p \<Longrightarrow>
     run_checks p owner rs = map (\<lambda>(kb, required). live_answer p kb (owner kb) required) rs"
proof (induction rs arbitrary: p)
  case (Cons r rs)
  obtain kb required where r: "r = (kb, required)" by force
  obtain ans q where c: "kb_check p kb (owner kb) required = (ans, q)" by force
  note k = kb_check_cached [OF Cons.prems c]
  then have "live_answer q = live_answer p"
    using same_source_views [of p q]
    by (intro ext) (simp add: live_answer_def same_source_def split: sum.splits)
  with k c r Cons.IH [of q] show ?case by simp
qed simp


section \<open>Properties\<close>

definition sample_kb :: "tenant_id \<Rightarrow> string \<Rightarrow> knowledge_base" where
  "sample_kb owner v =
     \<lparr>kb_id = ''kb1'', kb_tenant_id = owner, kb_owner = owner, kb_visibility = v,
      kb_member_default = member_default_contribute, kb_access_source = [], kb_creator_id = []\<rparr>"

definition sample_caller :: "tenant_id \<Rightarrow> string \<Rightarrow> caller" where
  "sample_caller t r = \<lparr>c_tenant_id = t, c_user_id = ''u1'', c_role = r\<rparr>"

lemma sample_human:
  "is_human_caller (sample_caller t r)" "v_api_key empty_ctx = None"
  "is_authenticated_human empty_ctx (sample_caller t r)"
  "\<not> is_explicit_human_super_admin empty_ctx (sample_caller t r)"
  "caller_normalize (sample_caller t role_member) = sample_caller t role_member"
  "caller_normalize (sample_caller t role_admin) = sample_caller t role_admin"
  "check_api_key_scope empty_ctx kb = Inr ()"
  "\<not> caller_mismatch empty_ctx c"
  by (simp_all add: is_human_caller_def sample_caller_def is_synthetic_user_id_def synthetic_prefix_def
      empty_ctx_def is_authenticated_human_def is_explicit_human_super_admin_def
      api_key_scope_from_context_def principal_from_context_def user_id_from_context_def
      is_system_admin_from_context_def caller_normalize_def check_api_key_scope_def
      authorize_api_key_kbs_def caller_mismatch_def)

lemma sample_kb_id [simp]: "kb_id (sample_kb t v) = ''kb1''" "kb_tenant_id (sample_kb t v) = t"
  "kb_owner (sample_kb t v) = t" "kb_visibility (sample_kb t v) = v"
  by (simp_all add: sample_kb_def)

text \<open>
  C1: the ordered decision equals the unordered rules: an action is allowed exactly when the
  API-key scope and the caller identity pass and some rule gives enough. The rules are: a SuperAdmin;
  an administrator of the owner tenant; a member of the owner tenant, by the member default, on a
  knowledge base of tenant visibility and also on a published one (the comment of \<^verbatim>\<open>KBMemberDefault\<close>
  says it has no effect there); any signed-in human on a public or published one; a live invite; a
  tenant grant; a machine of the owner tenant; and a machine of the platform tenant on a
  platform-public knowledge base whose data that tenant holds (which item 1 of the comment of
  \<^verbatim>\<open>DecideKB\<close> leaves out). No earlier rule takes away what a later one gives; there is no explicit
  deny.
\<close>

theorem decide_kb_rules:
  "(\<exists>d. decide_kb ctx c (Some kb) action l = Inr d) \<longleftrightarrow>
     kb_id kb \<noteq> [] \<and> check_api_key_scope ctx (kb_id kb) = Inr () \<and>
     \<not> caller_mismatch ctx (caller_normalize c) \<and>
     (\<exists>p dl. kb_right ctx (caller_normalize c) kb l p dl \<and> right_allows action p dl)"
  by (rule decide_kb_iff)

text \<open>
  The permission of a successful decision is held by some rule, and is the highest the
  caller holds on the knowledge base, so the same decision also answers what else the caller may
  do; the effective tenant is the data scope of the knowledge base, never the caller's.
\<close>

lemma decide_kb_permission_highest:
  assumes "decide_kb ctx c (Some kb) action l = Inr d"
    "kb_right ctx (caller_normalize c) kb l p dl"
  shows "perm_has_permission (d_permission d) p \<and>
    kb_right ctx (caller_normalize c) kb l (d_permission d) (d_download d) \<and>
    d_effective_tenant d = kb_tenant_id kb"
  using decide_kb_highest [OF assms] decide_kb_right [OF assms(1)] by blast

text \<open>
  C2: an API key never becomes human. Whatever the visibility, the invites and the grants, a
  request made with a key is only ever allowed on a knowledge base of its own tenant (or, for
  the platform tenant's keys, on the platform-public ones stored there), and only inside the
  key's allow-list.
\<close>

theorem api_key_stays_in_scope:
  assumes "v_api_key ctx = Some s" "decide_kb ctx c (Some kb) action l = Inr d"
  shows "(allow_list s = {} \<or> trim_space (kb_id kb) \<in> allow_list s) \<and>
    (kb_owner kb \<noteq> 0 \<and> kb_owner kb = c_tenant_id c \<or>
     is_platform_public_kb kb \<and> c_tenant_id c = platform_tenant_id \<and>
     kb_tenant_id kb = platform_tenant_id)"
proof -
  from assms(2) have "authorize_api_key_kbs ctx [kb_id kb] = Inr ()"
    by (simp add: decide_kb_Inr_iff check_api_key_scope_def)
  with assms(1) have "allow_list s = {} \<or> trim_space (kb_id kb) \<in> allow_list s"
    by (auto simp: authorize_single)
  moreover from decide_kb_right [OF assms(2)] key_has_no_human_acl [OF assms(1)]
  have "kb_owner kb \<noteq> 0 \<and> kb_owner kb = c_tenant_id (caller_normalize c) \<or>
     is_platform_public_kb kb \<and> c_tenant_id (caller_normalize c) = platform_tenant_id \<and>
     kb_tenant_id kb = platform_tenant_id" by blast
  ultimately show ?thesis by simp
qed

definition sample_key :: api_key_scope where
  "sample_key = \<lparr>key_id = 1, key_name = [], scope_type = ''tenant'', full_access = False,
     knowledge_base_ids = [''kb1''], capabilities = []\<rparr>"

theorem api_key_stays_in_scope_witness:
  "trim_space ''kb1'' \<in> allow_list sample_key \<and> kb_owner (sample_kb 7 vis_public) = 7"
proof -
  let ?ctx = "empty_ctx\<lparr>v_api_key := Some sample_key\<rparr>"
  let ?kb = "sample_kb 7 vis_public"
  have al: "trim_space ''kb1'' = ''kb1''" "allow_list sample_key = {''kb1''}"
    by (simp_all add: allow_list_def sample_key_def plain_word_trim plain_word_def plain_char_def)
  have key: "v_api_key ?ctx = Some sample_key" by simp
  have auth: "check_api_key_scope ?ctx (kb_id ?kb) = Inr ()"
    using al by (simp add: check_api_key_scope_def authorize_single)
  have "\<exists>d. decide_kb ?ctx (sample_caller 7 []) (Some ?kb) ActionManage no_lookups = Inr d"
    unfolding decide_kb_iff
  proof (intro conjI exI)
    show "kb_right ?ctx (caller_normalize (sample_caller 7 [])) ?kb no_lookups perm_admin True"
      using key_is_machine [OF key] by (intro kb_right.machine_owner) (simp_all add: sample_caller_def)
  qed (use auth in \<open>simp_all add: caller_mismatch_def empty_ctx_def\<close>)
  then obtain d where "decide_kb ?ctx (sample_caller 7 []) (Some ?kb) ActionManage no_lookups = Inr d"
    by blast
  from api_key_stays_in_scope [OF key this] al show ?thesis by simp
qed

text \<open>
  C3: writes stay with the owner. A decision to contribute or manage is made only for a
  SuperAdmin, for a caller acting in the owner tenant, or for a machine of the platform tenant
  on the platform-public content stored there: never for an invite, a tenant grant, a
  public or published reader, or a guest.
\<close>

theorem writes_stay_with_owner:
  assumes "decide_kb ctx c (Some kb) action l = Inr d" "action = ActionContribute \<or> action = ActionManage"
  shows "is_explicit_human_super_admin ctx (caller_normalize c) \<or>
    kb_owner kb \<noteq> 0 \<and> c_tenant_id c = kb_owner kb \<or>
    \<not> is_authenticated_human ctx (caller_normalize c) \<and> is_platform_public_kb kb \<and>
      c_tenant_id c = platform_tenant_id \<and> kb_tenant_id kb = platform_tenant_id"
proof -
  from decide_kb_right [OF assms(1)]
  have "kb_right ctx (caller_normalize c) kb l (d_permission d) (d_download d)"
    "right_allows action (d_permission d) (d_download d)" by auto
  with assms(2) show ?thesis
    by (auto elim!: kb_rightE simp: is_active_owner_member_def split: if_splits)
qed

theorem writes_stay_with_owner_witness: "kb_owner (sample_kb 7 vis_tenant) = 7"
proof -
  let ?c = "sample_caller 7 role_member" and ?kb = "sample_kb 7 vis_tenant"
  have "is_active_owner_member ?c ?kb (l_members no_lookups)"
    by (simp add: is_active_owner_member_def sample_caller_def has_tenant_role_def no_lookups_def)
  then have "decide_kb empty_ctx ?c (Some ?kb) ActionContribute no_lookups =
      Inr (grant_decision ?kb (if is_tenant_admin role_member then perm_admin else perm_editor) True
        (if is_tenant_admin role_member then SourceTenantAdmin else SourceTenantScope))"
    using sample_human
    by (simp add: decide_kb_def decide_human_kb_def Let_def)
      (simp add: sample_caller_def sample_kb_def member_default_permission_def right_allows_def
        required_permission_def member_default_contribute_def member_default_view_def)
  from writes_stay_with_owner [OF this] sample_human show ?thesis
    by (simp add: sample_caller_def)
qed

text \<open>
  A resolved access authorises exactly what was asked for. Resolving a knowledge base for
  some permission and carrying the grant in a context without grants lets \<^verbatim>\<open>HasKBGrant\<close> pass
  for that knowledge base, its data tenant and that permission or a lower one, and nothing else:
  a read resolution made by an owner does not authorise a write.
\<close>

lemma resolved_grant_exact:
  assumes "resolve_kb ctx c (Some kb) required grants = Inr a" "perm_is_valid required"
    "v_grants ctx = []" "authorize_api_key_kbs ctx [k] = Inr ()"
  shows "has_kb_grant (with_grant (Some a) ctx) k t q \<longleftrightarrow>
    k = kb_id kb \<and> t = kb_tenant_id kb \<and> perm_is_valid q \<and> perm_has_permission required q"
proof -
  let ?l = "\<lparr>l_grants = grants, l_invites = None, l_members = None\<rparr>"
  from assms(1) have r: "resolve_kb_action ctx c (Some kb) (action_for_permission required) required ?l = Inr a"
    by (simp add: resolve_kb_def)
  note g = resolve_kb_grant [OF r assms(2) action_for_permission_needs [OF assms(2)]]
  from g assms(3,4) show ?thesis
    by (auto simp: has_kb_grant_def grant_matches_iff)
qed

text \<open>
  The per-request permission cache is transparent. Any sequence of checks, with repeated
  knowledge bases and different requirements, answers each check as a decision made afresh from
  the lookups would, as long as the owner argument passed for a knowledge base is always the
  same one.
\<close>

lemma kb_permissions_cache_transparent:
  "run_checks (new_kb_permissions ctx lookup as_invites) owner rs =
     map (\<lambda>(kb, required).
       fst (kb_check (new_kb_permissions ctx lookup as_invites) kb (owner kb) required)) rs"
proof -
  let ?p = "new_kb_permissions ctx lookup as_invites"
  have "fst (kb_check ?p kb (owner kb) required) = live_answer ?p kb (owner kb) required" for kb required
    using kb_check_cached [OF cache_ok_new] by (metis fst_conv surj_pair)
  then show ?thesis
    by (simp add: run_checks_live [OF cache_ok_new])
qed

lemma sharing_right:
  assumes "can_manage_kb_sharing ctx c (kb_owner kb)"
  shows "kb_right ctx (caller_normalize c) kb \<lparr>l_grants = g, l_invites = i, l_members = None\<rparr> perm_admin True"
proof -
  let ?c = "caller_normalize c"
  consider "is_explicit_human_super_admin ctx ?c"
    | "\<not> is_explicit_human_super_admin ctx ?c" "kb_owner kb \<noteq> 0" "c_tenant_id ?c = kb_owner kb"
      "is_tenant_admin (c_role ?c)"
    using assms by (auto simp: can_manage_kb_sharing_def Let_def split: if_splits)
  then show ?thesis
  proof cases
    case 2
    then have "is_active_owner_member ?c kb None"
      using tenant_admin_is_member by (simp add: is_active_owner_member_def has_tenant_role_def)
    with 2 show ?thesis
      by (cases "is_authenticated_human ctx ?c")
        (auto intro: kb_right.owner_admin kb_right.machine_owner)
  qed (rule kb_right.super_admin)
qed

text \<open>
  Whoever may share a knowledge base holds every right on it: the sharing check passes only
  for callers the decision would let manage the knowledge base, so sharing is never delegated by
  somebody who could not do it directly.
\<close>

lemma sharing_implies_manage:
  assumes "can_manage_kb_sharing ctx c (kb_owner kb)" "kb_id kb \<noteq> []"
    "check_api_key_scope ctx (kb_id kb) = Inr ()" "\<not> caller_mismatch ctx (caller_normalize c)"
  shows "\<exists>d. decide_kb ctx c (Some kb) ActionManage \<lparr>l_grants = g, l_invites = i, l_members = None\<rparr> = Inr d \<and>
    d_permission d = perm_admin"
proof -
  note r = sharing_right [OF assms(1), of g i]
  from r assms(2-4) obtain d where d: "decide_kb ctx c (Some kb) ActionManage
      \<lparr>l_grants = g, l_invites = i, l_members = None\<rparr> = Inr d"
    using decide_kb_iff [of ctx c kb ActionManage] right_allows_simps(1) by metis
  from decide_kb_highest [OF d r] have "d_permission d = perm_admin"
    using decide_kb_right [OF d] kb_right_valid
    by (auto simp: perm_is_valid_def dest!: kb_right_valid)
  with d show ?thesis by blast
qed

lemma gate_scan_iff:
  "gate_scan ctx l t original ks \<longleftrightarrow>
     (\<exists>kb. Some kb \<in> set ks \<and> kb_tenant_id kb = t \<and>
       (\<exists>d. decide_kb ctx (caller_from_context ctx) (Some kb)
             (if kb_id kb \<in> set original then ActionDownloadOriginal else ActionView) l = Inr d))"
  by (induction ks) (auto simp: Let_def split: option.splits sum.splits)

text \<open>
  Bytes bound to knowledge-base content are read only through the decision: when the file
  gate allows a bound reference, some bound knowledge base of that tenant admits the caller, for
  download when the reference is one of its original uploads; a failing lookup denies.
\<close>

lemma file_gate_fails_closed:
  assumes "gate_authorize g ctx t ref = (True, None)"
  shows "\<exists>get_bindings get_kbs b ks kb d. fg_bindings g = Some get_bindings \<and> fg_kbs g = Some get_kbs \<and>
    get_bindings t ref = Inr (Some b) \<and> get_kbs (fb_knowledge_base_ids b) = Inr ks \<and>
    Some kb \<in> set ks \<and> kb_tenant_id kb = t \<and>
    decide_kb ctx (caller_from_context ctx) (Some kb)
      (if kb_id kb \<in> set (fb_source_file_kb_ids b) then ActionDownloadOriginal else ActionView)
      (fg_lookups g) = Inr d"
proof -
  from assms obtain get_bindings where gb: "fg_bindings g = Some get_bindings"
    by (cases "fg_bindings g") (auto simp: gate_authorize_def)
  with assms obtain get_kbs where gk: "fg_kbs g = Some get_kbs"
    by (cases "fg_kbs g") (auto simp: gate_authorize_def)
  from assms gb gk have act: "t \<noteq> 0" "ref \<noteq> []"
    by (auto simp: gate_authorize_def)
  from assms gb gk act obtain b where b: "get_bindings t ref = Inr (Some b)"
    by (cases "get_bindings t ref") (auto simp: gate_authorize_def split: option.splits)
  from assms gb gk act b obtain ks where ks: "get_kbs (fb_knowledge_base_ids b) = Inr ks"
    and scan: "gate_scan ctx (fg_lookups g) t (fb_source_file_kb_ids b) ks"
    by (cases "get_kbs (fb_knowledge_base_ids b)") (auto simp: gate_authorize_def split: if_splits)
  from scan gb gk b ks show ?thesis unfolding gate_scan_iff by blast
qed

end
