(* ===== verification/Kb_Transfer.thy ===== *)
theory Kb_Transfer
  imports Kb_Rules
begin

text \<open>
  \<^verbatim>\<open>internal/application/access/kb_transfer.go\<close>: the two-resource grant of a clone or a move.
  Admission (\<open>with_kb_transfer\<close>, \<open>with_kb_transfer_task\<close>) checks the pair, the API-key scope
  and the two grants, and leaves one transfer grant in the context; the operation itself
  consumes it with \<open>require_kb_transfer\<close>. The lemmas show that an admitted transfer is usable for
  exactly the admitted pair, operation and caller. \<^verbatim>\<open>ValidateKBTransferCompatibility\<close>, which
  compares model and storage settings, is not modelled.
\<close>

definition transfer_clone :: string where "transfer_clone = ''clone''"
definition transfer_move :: string where "transfer_move = ''move''"

definition validate_transfer_pair ::
  "knowledge_base option \<Rightarrow> knowledge_base option \<Rightarrow> tenant_id \<Rightarrow> string \<Rightarrow> bool \<Rightarrow> access_error + unit" where
  "validate_transfer_pair source target tenant operation create =
     (case (source, target) of
        (Some s, Some t) \<Rightarrow>
          if tenant = 0 \<or> kb_id s = [] \<or> kb_id t = [] \<or> kb_tenant_id s \<noteq> tenant \<or> kb_tenant_id t \<noteq> tenant
          then Inl ErrForbidden
          else if kb_id s = kb_id t
          then Inl (TransferRejected ''source and target knowledge bases must differ'')
          else if operation \<noteq> transfer_clone \<and> operation \<noteq> transfer_move \<or>
                  create \<and> operation \<noteq> transfer_clone
          then Inl ErrForbidden
          else Inr ()
      | _ \<Rightarrow> Inl ErrForbidden)"

definition transfer_api_scope :: "ctx \<Rightarrow> string \<Rightarrow> string \<Rightarrow> string \<Rightarrow> bool \<Rightarrow> access_error + unit" where
  "transfer_api_scope ctx source_id target_id operation create =
     (let ids = (if \<not> create then [source_id] @ [target_id] else [source_id])
      in case authorize_api_key_kbs ctx ids of
           Inl e \<Rightarrow> Inl e
         | Inr _ \<Rightarrow>
             let capability = (if operation = transfer_move then capability_ingest
                               else capability_manage_kbs)
             in (case api_key_scope_from_context ctx of
                   Some s \<Rightarrow> if \<not> full_access s \<and> \<not> has_capability s capability
                             then Inl ErrForbidden else Inr ()
                 | None \<Rightarrow> Inr ()))"

definition transfer_source_permission :: "string \<Rightarrow> string" where
  "transfer_source_permission operation =
     (if operation = transfer_move then perm_editor else perm_viewer)"

definition with_transfer_grant ::
  "ctx \<Rightarrow> knowledge_base \<Rightarrow> knowledge_base \<Rightarrow> string \<Rightarrow> string \<Rightarrow> bool \<Rightarrow> bool \<Rightarrow> ctx" where
  "with_transfer_grant ctx source target operation task_id create task =
     (let c = caller_from_context ctx;
          g = \<lparr>x_caller = c, x_tenant = kb_tenant_id source, x_source = kb_id source,
               x_target = kb_id target, x_task_id = task_id, x_creator_id = kb_creator_id target,
               x_operation = operation, x_create = create\<rparr>;
          required = transfer_source_permission operation
      in ctx\<lparr>v_grants :=
           [\<lparr>g_caller = c, g_kb_id = kb_id source, g_tenant_id = kb_tenant_id source,
             g_permission = required, g_task = task\<rparr>,
            \<lparr>g_caller = c, g_kb_id = kb_id target, g_tenant_id = kb_tenant_id target,
             g_permission = perm_editor, g_task = task\<rparr>],
           v_transfer := Some g\<rparr>)"

definition with_kb_transfer ::
  "ctx \<Rightarrow> knowledge_base option \<Rightarrow> knowledge_base option \<Rightarrow> string \<Rightarrow> string \<Rightarrow> bool \<Rightarrow>
   ctx \<times> access_error option" where
  "with_kb_transfer ctx source0 target0 operation task_id create =
     (let c = caller_from_context ctx
      in if task_id = [] then (ctx, Some ErrForbidden)
         else case validate_transfer_pair source0 target0 (c_tenant_id c) operation create of
           Inl e \<Rightarrow> (ctx, Some e)
         | Inr _ \<Rightarrow>
             let source = the source0; target = the target0
             in case transfer_api_scope ctx (kb_id source) (kb_id target) operation create of
               Inl e \<Rightarrow> (ctx, Some e)
             | Inr _ \<Rightarrow>
                 if \<not> has_kb_grant ctx (kb_id source) (kb_tenant_id source)
                        (transfer_source_permission operation) \<or>
                    (\<not> create \<and> \<not> has_kb_grant ctx (kb_id target) (kb_tenant_id target) perm_editor)
                 then (ctx, Some ErrForbidden)
                 else (with_transfer_grant ctx source target operation task_id create False, None))"

definition with_kb_transfer_task ::
  "ctx \<Rightarrow> knowledge_base option \<Rightarrow> knowledge_base option \<Rightarrow> tenant_id \<Rightarrow> string \<Rightarrow> string \<Rightarrow> bool \<Rightarrow>
   ctx \<times> access_error option" where
  "with_kb_transfer_task ctx source0 target0 expected operation task_id create =
     (if task_id = [] then (ctx, Some ErrForbidden)
      else case validate_transfer_pair source0 target0 expected operation create of
        Inl e \<Rightarrow> (ctx, Some e)
      | Inr _ \<Rightarrow>
          (with_transfer_grant (with_execution_tenant ctx expected) (the source0) (the target0)
             operation task_id create True, None))"

definition require_kb_transfer ::
  "ctx \<Rightarrow> knowledge_base option \<Rightarrow> knowledge_base option \<Rightarrow> string \<Rightarrow> access_error + unit" where
  "require_kb_transfer ctx source0 target0 operation =
     (case v_transfer ctx of
        None \<Rightarrow> Inl ErrForbidden
      | Some g \<Rightarrow>
          if x_caller g \<noteq> caller_from_context ctx \<or> x_operation g \<noteq> operation then Inl ErrForbidden
          else case validate_transfer_pair source0 target0 (x_tenant g) operation (x_create g) of
            Inl e \<Rightarrow> Inl e
          | Inr _ \<Rightarrow>
              if x_source g \<noteq> kb_id (the source0) \<or> x_target g \<noteq> kb_id (the target0)
              then Inl ErrForbidden
              else transfer_api_scope ctx (kb_id (the source0)) (kb_id (the target0)) operation
                     (x_create g))"

definition clone_destination :: "ctx \<Rightarrow> string \<Rightarrow> access_error + (string \<times> bool \<times> string)" where
  "clone_destination ctx source_id =
     (case v_transfer ctx of
        None \<Rightarrow> Inl ErrForbidden
      | Some g \<Rightarrow>
          if x_caller g \<noteq> caller_from_context ctx \<or> x_operation g \<noteq> transfer_clone \<or>
             x_source g \<noteq> source_id
          then Inl ErrForbidden
          else Inr (x_target g, x_create g, x_creator_id g))"

definition transfer_task_id :: "ctx \<Rightarrow> string" where
  "transfer_task_id ctx =
     (case v_transfer ctx of
        None \<Rightarrow> []
      | Some g \<Rightarrow> if x_caller g \<noteq> caller_from_context ctx then [] else x_task_id g)"

section \<open>Lemmas\<close>

lemma transfer_names [simp]: "transfer_clone \<noteq> transfer_move" "transfer_move \<noteq> transfer_clone"
  by (simp_all add: transfer_clone_def transfer_move_def)

lemma validate_pair_iff [op_simps]:
  "validate_transfer_pair s0 t0 tenant operation create = Inr u \<longleftrightarrow>
     (\<exists>s t. s0 = Some s \<and> t0 = Some t \<and> tenant \<noteq> 0 \<and> kb_id s \<noteq> [] \<and> kb_id t \<noteq> [] \<and>
        kb_tenant_id s = tenant \<and> kb_tenant_id t = tenant \<and> kb_id s \<noteq> kb_id t \<and>
        (operation = transfer_clone \<or> operation = transfer_move \<and> \<not> create))"
  by (cases s0; cases t0) (auto simp: validate_transfer_pair_def)

lemma transfer_grant_fields [simp]:
  "v_api_key (with_transfer_grant ctx s t operation task_id create task) = v_api_key ctx"
  "caller_from_context (with_transfer_grant ctx s t operation task_id create task) = caller_from_context ctx"
  "v_transfer (with_transfer_grant ctx s t operation task_id create task) =
     Some \<lparr>x_caller = caller_from_context ctx, x_tenant = kb_tenant_id s, x_source = kb_id s,
       x_target = kb_id t, x_task_id = task_id, x_creator_id = kb_creator_id t,
       x_operation = operation, x_create = create\<rparr>"
  by (simp_all add: with_transfer_grant_def Let_def caller_from_context_def tenant_id_from_context_def
      user_id_from_context_def tenant_role_from_context_def split: option.splits)

lemma transfer_scope_key: "v_api_key ctx = v_api_key ctx' \<Longrightarrow> transfer_api_scope ctx = transfer_api_scope ctx'"
proof -
  assume "v_api_key ctx = v_api_key ctx'"
  then have "api_key_scope_from_context ctx = api_key_scope_from_context ctx'"
    by (simp add: api_key_scope_from_context_def)
  moreover from this have "authorize_api_key_kbs ctx = authorize_api_key_kbs ctx'"
    by (intro ext) (simp only: authorize_api_key_kbs_def)
  ultimately show ?thesis by (intro ext) (simp only: transfer_api_scope_def)
qed

lemma with_kb_transfer_ok:
  "with_kb_transfer ctx s0 t0 operation task_id create = (ctx', None) \<longleftrightarrow>
     task_id \<noteq> [] \<and> (\<exists>s t. s0 = Some s \<and> t0 = Some t \<and>
       validate_transfer_pair s0 t0 (c_tenant_id (caller_from_context ctx)) operation create = Inr () \<and>
       transfer_api_scope ctx (kb_id s) (kb_id t) operation create = Inr () \<and>
       has_kb_grant ctx (kb_id s) (kb_tenant_id s) (transfer_source_permission operation) \<and>
       (create \<or> has_kb_grant ctx (kb_id t) (kb_tenant_id t) perm_editor) \<and>
       ctx' = with_transfer_grant ctx s t operation task_id create False)"
proof (cases "validate_transfer_pair s0 t0 (c_tenant_id (caller_from_context ctx)) operation create")
  case (Inl e)
  then show ?thesis by (auto simp: with_kb_transfer_def Let_def)
next
  case (Inr u)
  then obtain s t where "s0 = Some s" "t0 = Some t" by (auto simp: validate_pair_iff)
  with Inr show ?thesis by (auto simp: with_kb_transfer_def Let_def split: sum.splits if_splits)
qed

section \<open>Properties\<close>

text \<open>
  An admitted transfer is consumable for exactly the pair and the operation it was admitted
  for: in the context admission returns, the operation check passes for that pair, and whenever
  it passes for some pair and operation these are the admitted ones, in the caller's own tenant,
  with the source grant (and the target grant unless the target is new) held before.
\<close>

lemma admitted_transfer_exact:
  assumes "with_kb_transfer ctx (Some s) (Some t) operation task_id create = (ctx', None)"
  shows "require_kb_transfer ctx' (Some s) (Some t) operation = Inr () \<and>
    (require_kb_transfer ctx' (Some s2) (Some t2) operation2 = Inr () \<longrightarrow>
       kb_id s2 = kb_id s \<and> kb_id t2 = kb_id t \<and> operation2 = operation \<and>
       kb_tenant_id s2 = c_tenant_id (caller_from_context ctx) \<and>
       kb_tenant_id t2 = c_tenant_id (caller_from_context ctx) \<and>
       has_kb_grant ctx (kb_id s2) (kb_tenant_id s) (transfer_source_permission operation) \<and>
       (create \<or> has_kb_grant ctx (kb_id t2) (kb_tenant_id t) perm_editor))"
proof -
  from assms have pair: "validate_transfer_pair (Some s) (Some t) (c_tenant_id (caller_from_context ctx))
      operation create = Inr ()"
    and scope: "transfer_api_scope ctx (kb_id s) (kb_id t) operation create = Inr ()"
    and held: "has_kb_grant ctx (kb_id s) (kb_tenant_id s) (transfer_source_permission operation)"
      "create \<or> has_kb_grant ctx (kb_id t) (kb_tenant_id t) perm_editor"
    and ctx': "ctx' = with_transfer_grant ctx s t operation task_id create False"
    by (auto simp: with_kb_transfer_ok)
  have sc: "transfer_api_scope ctx' = transfer_api_scope ctx"
    by (rule transfer_scope_key) (simp add: ctx')
  from pair have tenant: "kb_tenant_id s = c_tenant_id (caller_from_context ctx)"
    by (auto simp: validate_pair_iff)
  have "x_caller (the (v_transfer ctx')) = caller_from_context ctx'" by (simp add: ctx')
  then have "require_kb_transfer ctx' (Some s) (Some t) operation = Inr ()"
    using pair scope tenant sc by (simp add: require_kb_transfer_def) (simp add: ctx' tenant)
  moreover have "kb_id s2 = kb_id s \<and> kb_id t2 = kb_id t \<and> operation2 = operation \<and>
      kb_tenant_id s2 = kb_tenant_id s \<and> kb_tenant_id t2 = kb_tenant_id s"
    if "require_kb_transfer ctx' (Some s2) (Some t2) operation2 = Inr ()"
    using that by (auto simp: require_kb_transfer_def ctx' validate_pair_iff split: if_splits sum.splits)
  ultimately show ?thesis using held tenant by auto
qed

end
