(* ===== verification/Json_Field.thy ===== *)
theory Json_Field
  imports Prelude
begin

text \<open>
  \<^verbatim>\<open>internal/models/chat/json_field_extractor.go\<close>: the extractor that streams one string
  field out of the JSON arguments of a tool call while they arrive. \<open>feed\<close> is \<^verbatim>\<open>Feed\<close> on the
  extractor's record; \<open>find_field_value_start\<close>, \<open>find_safe_end\<close> and \<open>unescape_json_string\<close> are
  its helpers, with Go's UTF-8 decoding (\<open>rune_size\<close>) and encoding (\<open>write_rune\<close>) written out.
  The lemmas show that chunk boundaries carry no meaning (an escape or a rune may straddle
  them), and that the value a JSON string spells comes out of any of its spellings unchanged, escaped
  surrogate pairs excepted.
\<close>

abbreviation code_of :: "char \<Rightarrow> nat" where "code_of c \<equiv> of_char c"

section \<open>UTF-8\<close>

definition continuation :: "char \<Rightarrow> bool" where
  "continuation c \<longleftrightarrow> 0x80 \<le> code_of c \<and> code_of c \<le> 0xBF"

text \<open>The size \<^verbatim>\<open>utf8.DecodeRuneInString\<close> reports: 1 for an invalid or cut-off encoding.\<close>

definition rune_size :: "string \<Rightarrow> nat" where
  "rune_size s =
     (case s of
        [] \<Rightarrow> 0
      | c # t \<Rightarrow>
          let b = code_of c
          in if 0xC2 \<le> b \<and> b \<le> 0xDF
             then (case t of c1 # _ \<Rightarrow> if continuation c1 then 2 else 1 | _ \<Rightarrow> 1)
             else if 0xE0 \<le> b \<and> b \<le> 0xEF
             then (case t of
                     c1 # c2 # _ \<Rightarrow>
                       if (if b = 0xE0 then 0xA0 else 0x80) \<le> code_of c1 \<and>
                          code_of c1 \<le> (if b = 0xED then 0x9F else 0xBF) \<and> continuation c2
                       then 3 else 1
                   | _ \<Rightarrow> 1)
             else if 0xF0 \<le> b \<and> b \<le> 0xF4
             then (case t of
                     c1 # c2 # c3 # _ \<Rightarrow>
                       if (if b = 0xF0 then 0x90 else 0x80) \<le> code_of c1 \<and>
                          code_of c1 \<le> (if b = 0xF4 then 0x8F else 0xBF) \<and>
                          continuation c2 \<and> continuation c3
                       then 4 else 1
                   | _ \<Rightarrow> 1)
             else 1)"

text \<open>\<^verbatim>\<open>strings.Builder.WriteRune\<close> for the code points a four-digit escape can name.\<close>

definition write_rune :: "nat \<Rightarrow> string" where
  "write_rune cp =
     (if cp < 0x80 then [char_of cp]
      else if cp < 0x800 then [char_of (0xC0 + cp div 64), char_of (0x80 + cp mod 64)]
      else if 0xD800 \<le> cp \<and> cp \<le> 0xDFFF then [CHR 0xEF, CHR 0xBF, CHR 0xBD]
      else [char_of (0xE0 + cp div 4096), char_of (0x80 + cp div 64 mod 64),
            char_of (0x80 + cp mod 64)])"

section \<open>Finding the value\<close>

definition json_blank :: "char \<Rightarrow> bool" where
  "json_blank c \<longleftrightarrow> c = CHR '' '' \<or> c = CHR 0x09 \<or> c = CHR 0x0A \<or> c = CHR 0x0D"

text \<open>The loop after the key: the offset just behind the opening quote, if it is there.\<close>

primrec skip_to_quote :: "string \<Rightarrow> nat option" where
  "skip_to_quote [] = None"
| "skip_to_quote (ch # t) =
     (if ch = CHR '':'' then map_option Suc (skip_to_quote t)
      else if json_blank ch then map_option Suc (skip_to_quote t)
      else if ch = CHR 0x22 then Some 1
      else None)"

definition find_field_value_start :: "string \<Rightarrow> string \<Rightarrow> nat option" where
  "find_field_value_start buf field =
     (let key = [CHR 0x22] @ field @ [CHR 0x22]
      in case index_of buf key of
           None \<Rightarrow> None
         | Some idx \<Rightarrow>
             let pos = idx + length key
             in map_option (\<lambda>k. pos + k) (skip_to_quote (drop pos buf)))"

text \<open>
  The scan of \<^verbatim>\<open>findSafeEnd\<close> on the rest of the value: how many bytes can be emitted, and
  whether the closing quote follows them.
\<close>

definition skip_ahead :: "nat \<Rightarrow> nat \<times> bool \<Rightarrow> nat \<times> bool" where
  "skip_ahead n r = (n + fst r, snd r)"

function safe_scan :: "string \<Rightarrow> nat \<times> bool" where
  "safe_scan s =
     (case s of
        [] \<Rightarrow> (0, False)
      | ch # t \<Rightarrow>
          if ch = CHR 0x5C
          then (case t of
                  [] \<Rightarrow> (0, False)
                | nx # _ \<Rightarrow>
                    if nx = CHR ''u''
                    then (if length s \<le> 5 then (0, False) else skip_ahead 6 (safe_scan (drop 6 s)))
                    else skip_ahead 2 (safe_scan (drop 2 s)))
          else if ch = CHR 0x22 then (0, True)
          else let sz = (if rune_size s = 0 then 1 else rune_size s)
               in skip_ahead sz (safe_scan (drop sz s)))"
  by pat_completeness auto
termination
  by (relation "measure length") auto

declare safe_scan.simps [simp del]

definition find_safe_end :: "string \<Rightarrow> nat \<Rightarrow> nat \<times> bool" where
  "find_safe_end value from = skip_ahead from (safe_scan (drop from value))"

section \<open>Unescaping\<close>

definition hex_digit :: "char \<Rightarrow> nat" where
  "hex_digit h =
     (if 48 \<le> code_of h \<and> code_of h \<le> 57 then code_of h - 48
      else if 97 \<le> code_of h \<and> code_of h \<le> 102 then code_of h - 97 + 10
      else if 65 \<le> code_of h \<and> code_of h \<le> 70 then code_of h - 65 + 10
      else 0)"

text \<open>The range loop over the four bytes goes rune by rune; a rune that is no hex digit adds 0.\<close>

function parse_hex :: "string \<Rightarrow> nat \<Rightarrow> nat" where
  "parse_hex s cp =
     (case s of
        [] \<Rightarrow> cp
      | h # t \<Rightarrow> parse_hex (drop (rune_size s) s) (cp * 16 + (if rune_size s = 1 then hex_digit h else 0)))"
  by pat_completeness auto
termination
proof (relation "measure (\<lambda>(s, _). length s)")
  fix s :: string and cp h t
  assume "s = h # t"
  then have "0 < rune_size s" by (auto simp: rune_size_def Let_def split: list.splits)
  with \<open>s = h # t\<close> show "((drop (rune_size s) s, cp * 16 + (if rune_size s = 1 then hex_digit h else 0)), s, cp)
      \<in> measure (\<lambda>(s, _). length s)" by simp
qed simp

declare parse_hex.simps [simp del]

definition simple_escape :: "char \<Rightarrow> char option" where
  "simple_escape c =
     (if c = CHR 0x22 then Some (CHR 0x22)
      else if c = CHR 0x5C then Some (CHR 0x5C)
      else if c = CHR ''/'' then Some (CHR ''/'')
      else if c = CHR ''n'' then Some (CHR 0x0A)
      else if c = CHR ''r'' then Some (CHR 0x0D)
      else if c = CHR ''t'' then Some (CHR 0x09)
      else if c = CHR ''b'' then Some (CHR 0x08)
      else if c = CHR ''f'' then Some (CHR 0x0C)
      else None)"

function unescape_loop :: "string \<Rightarrow> string" where
  "unescape_loop s =
     (case s of
        [] \<Rightarrow> []
      | ch # t \<Rightarrow>
          if ch = CHR 0x5C \<and> t \<noteq> []
          then (case simple_escape (hd t) of
                  Some b \<Rightarrow> b # unescape_loop (drop 2 s)
                | None \<Rightarrow>
                    if hd t = CHR ''u''
                    then (if 5 < length s
                          then write_rune (parse_hex (take 4 (drop 2 s)) 0) @ unescape_loop (drop 6 s)
                          else ch # unescape_loop t)
                    else ch # unescape_loop t)
          else ch # unescape_loop t)"
  by pat_completeness auto
termination
  by (relation "measure length") auto

declare unescape_loop.simps [simp del]

definition unescape_json_string :: "string \<Rightarrow> string" where
  "unescape_json_string s = (if CHR 0x5C \<notin> set s then s else unescape_loop s)"

section \<open>The extractor\<close>

record extractor =
  field_name :: string
  jbuffer :: string
  value_start :: "nat option"
  last_emit :: nat
  jdone :: bool

definition new_json_field_extractor :: "string \<Rightarrow> extractor" where
  "new_json_field_extractor field =
     \<lparr>field_name = field, jbuffer = [], value_start = None, last_emit = 0, jdone = False\<rparr>"

definition feed :: "extractor \<Rightarrow> string \<Rightarrow> string \<times> extractor" where
  "feed e delta =
     (if jdone e then ([], e)
      else
        let e1 = e\<lparr>jbuffer := jbuffer e @ delta\<rparr>;
            found = (case value_start e1 of
                       Some _ \<Rightarrow> Some e1
                     | None \<Rightarrow>
                         (case find_field_value_start (jbuffer e1) (field_name e1) of
                            None \<Rightarrow> None
                          | Some idx \<Rightarrow> Some (e1\<lparr>value_start := Some idx, last_emit := 0\<rparr>)))
        in case found of
             None \<Rightarrow> ([], e1)
           | Some e2 \<Rightarrow>
               let value_content = drop (the (value_start e2)) (jbuffer e2)
               in (case find_safe_end value_content (last_emit e2) of
                     (safe_end, finished) \<Rightarrow>
                       if safe_end \<le> last_emit e2
                       then ([], if finished then e2\<lparr>jdone := True\<rparr> else e2)
                       else
                         let raw_chunk = drop (last_emit e2) (take safe_end value_content);
                             e3 = e2\<lparr>last_emit := safe_end\<rparr>
                         in (unescape_json_string raw_chunk,
                             if finished then e3\<lparr>jdone := True\<rparr> else e3)))"

definition is_done :: "extractor \<Rightarrow> bool" where
  "is_done e = jdone e"

section \<open>The scans byte by byte\<close>

lemma skip_ahead_simps [simp]:
  "skip_ahead 0 r = r" "skip_ahead a (skip_ahead b r) = skip_ahead (a + b) r"
  "skip_ahead a (n, f) = (a + n, f)" "fst (skip_ahead a r) = a + fst r" "snd (skip_ahead a r) = snd r"
  by (simp_all add: skip_ahead_def)

lemma rune_size_bounds: "s \<noteq> [] \<Longrightarrow> 0 < rune_size s \<and> rune_size s \<le> length s"
  by (auto simp: rune_size_def Let_def split: list.splits)

lemma rune_size_ascii: "continuation c \<or> code_of c < 0x80 \<Longrightarrow> rune_size (c # t) = 1"
  by (auto simp: rune_size_def Let_def continuation_def)

lemma rune_size_shape:
  "rune_size (c # t) = 1 \<or>
   (\<exists>c1 r. t = c1 # r \<and> continuation c1 \<and> rune_size (c # t) = 2) \<or>
   (\<exists>c1 c2 r. t = c1 # c2 # r \<and> continuation c1 \<and> continuation c2 \<and> rune_size (c # t) = 3) \<or>
   (\<exists>c1 c2 c3 r. t = c1 # c2 # c3 # r \<and> continuation c1 \<and> continuation c2 \<and> continuation c3 \<and>
      rune_size (c # t) = 4)"
proof -
  consider "0xC2 \<le> code_of c \<and> code_of c \<le> 0xDF" | "0xE0 \<le> code_of c \<and> code_of c \<le> 0xEF"
    | "0xF0 \<le> code_of c \<and> code_of c \<le> 0xF4"
    | "\<not> (0xC2 \<le> code_of c \<and> code_of c \<le> 0xDF)" "\<not> (0xE0 \<le> code_of c \<and> code_of c \<le> 0xEF)"
      "\<not> (0xF0 \<le> code_of c \<and> code_of c \<le> 0xF4)" by blast
  then show ?thesis
  proof cases
    case 1
    then show ?thesis by (cases t) (simp_all add: rune_size_def)
  next
    case 2
    then have "\<not> code_of c \<le> 0xDF" by simp
    with 2 show ?thesis
      by (cases t; cases "tl t") (simp_all add: rune_size_def Let_def, auto simp: continuation_def)
  next
    case 3
    then have "\<not> code_of c \<le> 0xDF" "\<not> code_of c \<le> 0xEF" by simp_all
    with 3 show ?thesis
      by (cases t; cases "tl t"; cases "tl (tl t)")
        (simp_all add: rune_size_def Let_def, auto simp: continuation_def)
  next
    case 4
    then have "rune_size (c # t) = 1" by (simp only: rune_size_def list.case Let_def if_False)
    then show ?thesis by simp
  qed
qed

lemma rune_size_tail:
  "\<exists>w r. t = w @ r \<and> Suc (length w) = rune_size (c # t) \<and> list_all continuation w"
  using rune_size_shape [of c t]
proof (elim disjE exE conjE)
  show ?thesis if "rune_size (c # t) = 1"
    using that by (intro exI [of _ "[]"] exI [of _ t]) simp
  show ?thesis if "t = c1 # r" "continuation c1" "rune_size (c # t) = 2" for c1 r
    using that by (intro exI [of _ "[c1]"] exI [of _ r]) simp
  show ?thesis if "t = c1 # c2 # r" "continuation c1" "continuation c2" "rune_size (c # t) = 3" for c1 c2 r
    using that by (intro exI [of _ "[c1, c2]"] exI [of _ r]) simp
  show ?thesis if "t = c1 # c2 # c3 # r" "continuation c1" "continuation c2" "continuation c3"
      "rune_size (c # t) = 4" for c1 c2 c3 r
    using that by (intro exI [of _ "[c1, c2, c3]"] exI [of _ r]) simp
qed

lemma continuation_plain: "continuation c \<Longrightarrow> c \<noteq> CHR 0x5C \<and> c \<noteq> CHR 0x22"
  by (auto simp: continuation_def)

lemma safe_scan_continuation: "list_all continuation w \<Longrightarrow> safe_scan (w @ t) = skip_ahead (length w) (safe_scan t)"
proof (induction w)
  case (Cons c w)
  then have "rune_size (c # w @ t) = 1" "c \<noteq> CHR 0x5C" "c \<noteq> CHR 0x22"
    using rune_size_ascii [of c] continuation_plain [of c] by auto
  with Cons show ?case by (simp add: safe_scan.simps [of "c # w @ t"] Let_def)
qed simp

lemma safe_scan_simps:
  "safe_scan [] = (0, False)"
  "safe_scan (CHR 0x22 # t) = (0, True)"
  "c \<noteq> CHR 0x5C \<Longrightarrow> c \<noteq> CHR 0x22 \<Longrightarrow> safe_scan (c # t) = skip_ahead 1 (safe_scan t)"
  "safe_scan [CHR 0x5C] = (0, False)"
  "nx \<noteq> CHR ''u'' \<Longrightarrow> safe_scan (CHR 0x5C # nx # t) = skip_ahead 2 (safe_scan t)"
  "safe_scan (CHR 0x5C # CHR ''u'' # t) =
     (if length t \<le> 3 then (0, False) else skip_ahead 6 (safe_scan (drop 4 t)))"
proof -
  show "safe_scan (c # t) = skip_ahead 1 (safe_scan t)" if c: "c \<noteq> CHR 0x5C" "c \<noteq> CHR 0x22"
  proof -
    obtain w r where w: "t = w @ r" "Suc (length w) = rune_size (c # t)" "list_all continuation w"
      using rune_size_tail by blast
    from w(2) have rs: "rune_size (c # t) = Suc (length w)" by simp
    from c have "safe_scan (c # t) = skip_ahead (Suc (length w)) (safe_scan r)"
      by (simp add: safe_scan.simps [of "c # t"] Let_def rs) (simp add: w(1))
    also have "\<dots> = skip_ahead 1 (safe_scan t)"
      using w(3) by (simp add: w(1) safe_scan_continuation)
    finally show ?thesis .
  qed
qed (auto simp: safe_scan.simps [of "CHR 0x22 # t"] safe_scan.simps [of "[]"]
    safe_scan.simps [of "[CHR 0x5C]"] safe_scan.simps [of "CHR 0x5C # nx # t"]
    safe_scan.simps [of "CHR 0x5C # CHR ''u'' # t"])

lemma scan_cases [case_names nil quote plain cut escape unicode cut_unicode]:
  assumes "s = [] \<Longrightarrow> P" "\<And>t. s = CHR 0x22 # t \<Longrightarrow> P"
    "\<And>c t. s = c # t \<Longrightarrow> c \<noteq> CHR 0x5C \<Longrightarrow> c \<noteq> CHR 0x22 \<Longrightarrow> P"
    "s = [CHR 0x5C] \<Longrightarrow> P"
    "\<And>nx t. s = CHR 0x5C # nx # t \<Longrightarrow> nx \<noteq> CHR ''u'' \<Longrightarrow> P"
    "\<And>h t. s = CHR 0x5C # CHR ''u'' # h @ t \<Longrightarrow> length h = 4 \<Longrightarrow> P"
    "\<And>h. s = CHR 0x5C # CHR ''u'' # h \<Longrightarrow> length h \<le> 3 \<Longrightarrow> P"
  shows P
proof (cases s)
  case Nil
  then show ?thesis by (rule assms(1))
next
  case (Cons c t)
  show ?thesis
  proof (cases "c = CHR 0x5C")
    case False
    with Cons assms(2,3) show ?thesis by (cases "c = CHR 0x22") blast+
  next
    case True
    show ?thesis
    proof (cases t)
      case Nil
      with Cons True assms(4) show ?thesis by simp
    next
      case t: (Cons nx r)
      show ?thesis
      proof (cases "nx = CHR ''u''")
        case False
        with Cons True t assms(5) show ?thesis by simp
      next
        case u: True
        show ?thesis
        proof (cases "length r \<le> 3")
          case True
          with Cons \<open>c = CHR 0x5C\<close> t u assms(7) show ?thesis by simp
        next
          case False
          then have "r = take 4 r @ drop 4 r" "length (take 4 r) = 4" by simp_all
          with Cons True t u assms(6) show ?thesis by metis
        qed
      qed
    qed
  qed
qed

lemma scan_induct [case_names nil quote plain cut escape unicode cut_unicode]:
  assumes "P []" "\<And>t. P (CHR 0x22 # t)"
    "\<And>c t. c \<noteq> CHR 0x5C \<Longrightarrow> c \<noteq> CHR 0x22 \<Longrightarrow> P t \<Longrightarrow> P (c # t)"
    "P [CHR 0x5C]" "\<And>nx t. nx \<noteq> CHR ''u'' \<Longrightarrow> P t \<Longrightarrow> P (CHR 0x5C # nx # t)"
    "\<And>h t. length h = 4 \<Longrightarrow> P t \<Longrightarrow> P (CHR 0x5C # CHR ''u'' # h @ t)"
    "\<And>h. length h \<le> 3 \<Longrightarrow> P (CHR 0x5C # CHR ''u'' # h)"
  shows "P s"
proof (induction s rule: length_induct)
  case (1 s)
  then have IH: "length t < length s \<Longrightarrow> P t" for t by blast
  show ?case by (cases s rule: scan_cases) (simp_all add: assms IH)
qed

lemma drop_unicode:
  "length h = 4 \<Longrightarrow> drop (6 + n) (x # y # h @ s) = drop n s"
  "length h = 4 \<Longrightarrow> take (6 + n) (x # y # h @ s) = x # y # h @ take n s"
  by (auto simp: numeral_eq_Suc length_Suc_conv)

lemma safe_scan_bound: "fst (safe_scan s) \<le> length s"
  by (induction s rule: scan_induct) (auto simp: safe_scan_simps)

lemma safe_scan_append:
  "safe_scan (s @ t) =
     (if snd (safe_scan s) then safe_scan s
      else skip_ahead (fst (safe_scan s)) (safe_scan (drop (fst (safe_scan s)) s @ t)))"
proof (induction s rule: scan_induct)
  case (escape nx s)
  then show ?case by (auto simp: safe_scan_simps)
next
  case (unicode h s)
  then show ?case by (auto simp: safe_scan_simps drop_unicode)
next
  case (plain c s)
  then show ?case by (auto simp: safe_scan_simps)
qed (auto simp: safe_scan_simps)

lemma unescape_simps:
  "unescape_loop [] = []"
  "c \<noteq> CHR 0x5C \<Longrightarrow> unescape_loop (c # t) = c # unescape_loop t"
  "unescape_loop (CHR 0x5C # nx # t) =
     (case simple_escape nx of
        Some b \<Rightarrow> b # unescape_loop t
      | None \<Rightarrow>
          if nx = CHR ''u'' \<and> 3 < length t
          then write_rune (parse_hex (take 4 t) 0) @ unescape_loop (drop 4 t)
          else CHR 0x5C # unescape_loop (nx # t))"
  by (simp_all add: unescape_loop.simps [of "[]"] unescape_loop.simps [of "c # t"]
      unescape_loop.simps [of "CHR 0x5C # nx # t"] split: option.splits)

lemma unescape_json_loop: "unescape_json_string s = unescape_loop s"
proof -
  have "CHR 0x5C \<notin> set s \<Longrightarrow> unescape_loop s = s"
    by (induction s) (auto simp: unescape_simps)
  then show ?thesis by (simp add: unescape_json_string_def)
qed

lemma unescape_escape_append:
  assumes "nx \<noteq> CHR ''u''" "unescape_loop (w @ r) = unescape_loop w @ unescape_loop r"
  shows "unescape_loop (CHR 0x5C # nx # w @ r) = unescape_loop (CHR 0x5C # nx # w) @ unescape_loop r"
proof (cases "simple_escape nx")
  case None
  then have "nx \<noteq> CHR 0x5C" by (auto simp: simple_escape_def)
  with None assms show ?thesis by (simp add: unescape_simps)
qed (use assms in \<open>simp add: unescape_simps\<close>)

lemma unescape_append:
  "unescape_loop (take (fst (safe_scan s)) s @ r) =
     unescape_loop (take (fst (safe_scan s)) s) @ unescape_loop r"
proof (induction s rule: scan_induct)
  case (escape nx t)
  then show ?case using unescape_escape_append [of nx] by (simp add: safe_scan_simps)
next
  case (unicode h t)
  have "simple_escape CHR ''u'' = None" by (simp add: simple_escape_def)
  with unicode show ?case by (simp add: safe_scan_simps unescape_simps drop_unicode)
qed (auto simp: safe_scan_simps unescape_simps)


section \<open>The extractor in normal form\<close>

definition field_key :: "string \<Rightarrow> string" where
  "field_key field = [CHR 0x22] @ field @ [CHR 0x22]"

lemma skip_to_quote_append: "skip_to_quote s = Some k \<Longrightarrow> skip_to_quote (s @ t) = Some k \<and> k \<le> length s"
  by (induction s arbitrary: k) (auto split: if_splits)

lemma find_start_append:
  "find_field_value_start b field = Some v \<Longrightarrow>
     find_field_value_start (b @ d) field = Some v \<and> v \<le> length b"
proof -
  assume f: "find_field_value_start b field = Some v"
  then obtain i k where i: "index_of b (field_key field) = Some i"
    and k: "skip_to_quote (drop (i + length (field_key field)) b) = Some k"
      "v = i + length (field_key field) + k"
    by (auto simp: find_field_value_start_def field_key_def Let_def split: option.splits)
  from index_of_SomeD [OF i] have le: "i + length (field_key field) \<le> length b" by simp
  then have "drop (i + length (field_key field)) (b @ d) = drop (i + length (field_key field)) b @ d"
    by simp
  with i k le index_of_append [OF i, of d] skip_to_quote_append [OF k(1), of d] show ?thesis
    by (auto simp: find_field_value_start_def field_key_def Let_def)
qed

definition extractor_inv :: "extractor \<Rightarrow> bool" where
  "extractor_inv e \<longleftrightarrow>
     (if jdone e then jbuffer e = []
      else case value_start e of
             None \<Rightarrow> find_field_value_start (jbuffer e) (field_name e) = None \<and> last_emit e = 0
           | Some v \<Rightarrow> find_field_value_start (jbuffer e) (field_name e) = Some v \<and>
               safe_scan (drop v (jbuffer e)) = (last_emit e, False))"

lemma extractor_inv_new [simp]: "extractor_inv (new_json_field_extractor field)"
proof -
  have "\<not> has_prefix [] (field_key field)" by (simp add: has_prefix_def field_key_def)
  then have "index_of [] (field_key field) = None" by (simp add: index_of.simps)
  then show ?thesis
    by (simp add: extractor_inv_def new_json_field_extractor_def find_field_value_start_def
        field_key_def Let_def)
qed

text \<open>The emitted position is a boundary: scanning from it or from the start is the same.\<close>

lemma scan_boundary:
  assumes "extractor_inv e" "\<not> jdone e" "find_field_value_start (jbuffer e @ d) (field_name e) = Some v"
  shows "safe_scan (drop v (jbuffer e @ d)) =
      skip_ahead (last_emit e) (safe_scan (drop (last_emit e) (drop v (jbuffer e @ d))))"
    "last_emit e \<le> length (drop v (jbuffer e @ d))"
proof -
  have "safe_scan (drop v (jbuffer e @ d)) =
      skip_ahead (last_emit e) (safe_scan (drop (last_emit e) (drop v (jbuffer e @ d)))) \<and>
    last_emit e \<le> length (drop v (jbuffer e @ d))"
  proof (cases "value_start e")
    case None
    with assms(1,2) have "last_emit e = 0" by (simp add: extractor_inv_def)
    then show ?thesis by simp
  next
    case (Some v')
    with assms(1,2) have f: "find_field_value_start (jbuffer e) (field_name e) = Some v'"
      and s: "safe_scan (drop v' (jbuffer e)) = (last_emit e, False)"
      by (simp_all add: extractor_inv_def)
    from find_start_append [OF f, of d] assms(3) have v: "v' = v" "v \<le> length (jbuffer e)" by auto
    from safe_scan_bound [of "drop v (jbuffer e)"] s v(1)
    have le: "last_emit e \<le> length (drop v (jbuffer e))" by simp
    from v have d: "drop v (jbuffer e @ d) = drop v (jbuffer e) @ d" by simp
    from safe_scan_append [of "drop v (jbuffer e)" d] s v(1) le show ?thesis
      unfolding d by simp
  qed
  then show "safe_scan (drop v (jbuffer e @ d)) =
      skip_ahead (last_emit e) (safe_scan (drop (last_emit e) (drop v (jbuffer e @ d))))"
    "last_emit e \<le> length (drop v (jbuffer e @ d))" by auto
qed

lemma extract_normal:
  assumes "extractor_inv e" "\<not> jdone e"
  shows "feed e d =
    (case find_field_value_start (jbuffer e @ d) (field_name e) of
       None \<Rightarrow> ([], e\<lparr>jbuffer := jbuffer e @ d\<rparr>)
     | Some v \<Rightarrow>
         (case safe_scan (drop v (jbuffer e @ d)) of
            (n, fin) \<Rightarrow>
              (unescape_loop (drop (last_emit e) (take n (drop v (jbuffer e @ d)))),
               e\<lparr>jbuffer := jbuffer e @ d, value_start := Some v, last_emit := n, jdone := fin\<rparr>)))"
proof -
  let ?b = "jbuffer e @ d"
  have start: "case value_start e of None \<Rightarrow> last_emit e = 0
     | Some v \<Rightarrow> find_field_value_start ?b (field_name e) = Some v"
    using assms find_start_append by (auto simp: extractor_inv_def split: option.splits)
  show ?thesis
  proof (cases "find_field_value_start ?b (field_name e)")
    case None
    with start have "value_start e = None" by (auto split: option.splits)
    with None assms(2) show ?thesis by (simp add: feed_def Let_def)
  next
    case (Some v)
    obtain n fin where sc: "safe_scan (drop v ?b) = (n, fin)" by force
    note bd = scan_boundary [OF assms Some]
    have fse: "find_safe_end (drop v ?b) (last_emit e) = (n, fin)"
      using bd(1) sc by (simp add: find_safe_end_def)
    have ge: "last_emit e \<le> n" using bd(1) sc by (metis fst_conv le_add1 skip_ahead_simps(4))
    let ?e2 = "e\<lparr>jbuffer := ?b, value_start := Some v\<rparr>"
    have "feed e d =
       (if n \<le> last_emit e then ([], if fin then ?e2\<lparr>jdone := True\<rparr> else ?e2)
        else (unescape_json_string (drop (last_emit e) (take n (drop v ?b))),
              (if fin then ?e2\<lparr>last_emit := n, jdone := True\<rparr> else ?e2\<lparr>last_emit := n\<rparr>)))"
    proof (cases "value_start e")
      case None
      with start have "last_emit e = 0" by simp
      with None Some assms(2) fse show ?thesis
        by (cases e) (simp add: feed_def Let_def)
    next
      case v': (Some v')
      with start Some have "v' = v" by simp
      with v' assms(2) fse show ?thesis by (cases e) (simp add: feed_def Let_def)
    qed
    with Some sc ge assms(2) show ?thesis
      by (cases e) (auto simp: unescape_json_loop unescape_simps)
  qed
qed

definition forget :: "extractor \<Rightarrow> extractor" where
  "forget e = (if jdone e then e\<lparr>jbuffer := []\<rparr> else e)"

text \<open>
  Once the closing quote is seen the buffer is never read again. \<open>feed_observed\<close> drops it, so
  that two extractors that will answer alike are equal.
\<close>

definition feed_observed :: "extractor \<Rightarrow> string \<Rightarrow> string \<times> extractor" where
  "feed_observed e d = (fst (feed e d), forget (snd (feed e d)))"

lemma feed_done [simp]: "jdone e \<Longrightarrow> feed e d = ([], e)"
  by (simp add: feed_def)

lemma forget_simps [simp]:
  "jdone (forget e) = jdone e" "forget (forget e) = forget e"
  "\<not> jdone e \<Longrightarrow> forget e = e"
  by (simp_all add: forget_def)

lemma feed_observed_inv [wf_intros]:
  assumes "extractor_inv e"
  shows "extractor_inv (snd (feed_observed e d))"
proof (cases "jdone e")
  case True
  with assms show ?thesis by (simp add: feed_observed_def forget_def extractor_inv_def)
next
  case False
  show ?thesis
  proof (cases "find_field_value_start (jbuffer e @ d) (field_name e)")
    case None
    with assms False have "value_start e = None"
      using find_start_append by (fastforce simp: extractor_inv_def split: option.splits)
    with None assms False show ?thesis
      by (simp add: feed_observed_def extract_normal extractor_inv_def)
  next
    case (Some v)
    with assms False show ?thesis
      by (cases "safe_scan (drop v (jbuffer e @ d))")
        (simp add: feed_observed_def extract_normal extractor_inv_def forget_def)
  qed
qed

lemma take_take_bound: "n \<le> length w \<Longrightarrow> take n (take (n + m) (w @ ys)) = take n w"
  by simp

lemma drop_append_bound: "k \<le> length w \<Longrightarrow> drop k (w @ u) = drop k w @ u"
  by simp

lemma split_at_boundary:
  assumes "n \<le> length w" "k \<le> n"
    "\<And>r. unescape_loop (take (n - k) (drop k w) @ r) =
       unescape_loop (take (n - k) (drop k w)) @ unescape_loop r"
  shows "unescape_loop (drop k (take (n + m) (w @ ys))) =
    unescape_loop (drop k (take n w)) @ unescape_loop (drop n (take (n + m) (w @ ys)))"
proof -
  let ?z = "take (n + m) (w @ ys)"
  have "?z = take n w @ drop n ?z"
    using take_take_bound [OF assms(1), of m ys] by (metis append_take_drop_id)
  then have "drop k ?z = drop k (take n w @ drop n ?z)" by (rule arg_cong)
  also have "\<dots> = drop k (take n w) @ drop n ?z"
    by (rule drop_append_bound) (use assms(1,2) in simp)
  finally show ?thesis using assms(3) by (simp only: drop_take)
qed

lemma feed_observed_append:
  assumes "extractor_inv e"
  shows "feed_observed e (xs @ ys) =
    (case feed_observed e xs of (o1, e1) \<Rightarrow>
       (case feed_observed e1 ys of (o2, e2) \<Rightarrow> (o1 @ o2, e2)))"
proof (cases "jdone e")
  case True
  then show ?thesis by (simp add: feed_observed_def)
next
  case False
  let ?b = "jbuffer e @ xs"
  note inv1 = feed_observed_inv [OF assms, of xs]
  show ?thesis
  proof (cases "find_field_value_start ?b (field_name e)")
    case None
    with assms False have e1: "feed_observed e xs = ([], e\<lparr>jbuffer := ?b\<rparr>)"
      by (simp add: feed_observed_def extract_normal)
    with inv1 have inv: "extractor_inv (e\<lparr>jbuffer := ?b\<rparr>)" by simp
    have nd: "\<not> jdone (e\<lparr>jbuffer := ?b\<rparr>)" using False by simp
    have "feed e (xs @ ys) = feed (e\<lparr>jbuffer := ?b\<rparr>) ys"
      unfolding extract_normal [OF assms False] extract_normal [OF inv nd]
      by (simp cong: option.case_cong prod.case_cong)
    with e1 show ?thesis by (simp add: feed_observed_def)
  next
    case (Some v)
    let ?w = "drop v ?b"
    obtain n fin where sc: "safe_scan ?w = (n, fin)" by force
    let ?e1 = "e\<lparr>jbuffer := ?b, value_start := Some v, last_emit := n, jdone := fin\<rparr>"
    have f1: "feed e xs = (unescape_loop (drop (last_emit e) (take n ?w)), ?e1)"
      using Some sc assms False by (simp add: extract_normal)
    from find_start_append [OF Some, of ys] have v: "v \<le> length ?b"
      "find_field_value_start (jbuffer e @ xs @ ys) (field_name e) = Some v" by auto
    from v(1) have w: "drop v (jbuffer e @ xs @ ys) = ?w @ ys" by simp
    have bound: "n \<le> length ?w" using safe_scan_bound [of ?w] sc by simp
    show ?thesis
    proof (cases fin)
      case True
      with sc have scw: "safe_scan (?w @ ys) = (n, True)"
        using safe_scan_append [of ?w ys] by simp
      have "feed e (xs @ ys) = (unescape_loop (drop (last_emit e) (take n (?w @ ys))),
          e\<lparr>jbuffer := ?b @ ys, value_start := Some v, last_emit := n, jdone := True\<rparr>)"
        using extract_normal [OF assms False, of "xs @ ys"] v(2) w scw by simp
      moreover have "take n (?w @ ys) = take n ?w" using bound by simp
      ultimately have "feed e (xs @ ys) = (unescape_loop (drop (last_emit e) (take n ?w)),
          e\<lparr>jbuffer := ?b @ ys, value_start := Some v, last_emit := n, jdone := True\<rparr>)"
        by (simp only:)
      with f1 True show ?thesis by (simp add: feed_observed_def forget_def)
    next
      case not_fin: False
      obtain m fin2 where sc2: "safe_scan (drop n ?w @ ys) = (m, fin2)" by force
      with sc not_fin have scw: "safe_scan (?w @ ys) = (n + m, fin2)"
        using safe_scan_append [of ?w ys] by simp
      from not_fin f1 have o1: "feed_observed e xs = (unescape_loop (drop (last_emit e) (take n ?w)), ?e1)"
        by (simp add: feed_observed_def)
      with inv1 have inv: "extractor_inv ?e1" by simp
      have f2: "feed ?e1 ys = (unescape_loop (drop n (take (n + m) (?w @ ys))),
          ?e1\<lparr>jbuffer := ?b @ ys, value_start := Some v, last_emit := n + m, jdone := fin2\<rparr>)"
        using extract_normal [OF inv, of ys] not_fin v(2) w scw by simp
      have f12: "feed e (xs @ ys) = (unescape_loop (drop (last_emit e) (take (n + m) (?w @ ys))),
          e\<lparr>jbuffer := ?b @ ys, value_start := Some v, last_emit := n + m, jdone := fin2\<rparr>)"
        using extract_normal [OF assms False, of "xs @ ys"] v(2) w scw by simp
      note bd = scan_boundary [OF assms False Some]
      have le: "last_emit e \<le> n" using bd(1) sc by (metis fst_conv le_add1 skip_ahead_simps(4))
      have "fst (safe_scan (drop (last_emit e) ?w)) = n - last_emit e"
        using bd(1) sc by (metis add_diff_cancel_left' fst_conv skip_ahead_simps(4))
      then have "unescape_loop (take (n - last_emit e) (drop (last_emit e) ?w) @ r) =
          unescape_loop (take (n - last_emit e) (drop (last_emit e) ?w)) @ unescape_loop r" for r
        using unescape_append [of "drop (last_emit e) ?w" r] by simp
      then have "unescape_loop (drop (last_emit e) (take (n + m) (?w @ ys))) =
          unescape_loop (drop (last_emit e) (take n ?w)) @
          unescape_loop (drop n (take (n + m) (?w @ ys)))"
        by (intro split_at_boundary [OF bound le])
      with f12 f2 o1 show ?thesis by (simp add: feed_observed_def)
    qed
  qed
qed

interpretation extractor: chunk_transducer feed_observed "(@)" "[]" extractor_inv
proof unfold_locales
  show "feed_observed s [] = ([], s)" if "extractor_inv s" for s
  proof (cases "jdone s")
    case True
    with that show ?thesis by (simp add: feed_observed_def forget_def extractor_inv_def)
  next
    case False
    show ?thesis
    proof (cases "value_start s")
      case None
      with that False show ?thesis by (simp add: feed_observed_def extract_normal extractor_inv_def)
    next
      case (Some v)
      with that False have "find_field_value_start (jbuffer s) (field_name s) = Some v"
        "safe_scan (drop v (jbuffer s)) = (last_emit s, False)"
        by (simp_all add: extractor_inv_def)
      with Some False have "feed s [] = ([], s)"
        using extract_normal [OF that False, of "[]"] by (cases s) (simp add: unescape_simps)
      with False show ?thesis by (simp add: feed_observed_def)
    qed
  qed
  show "feed_observed s (xs @ ys) =
      (case feed_observed s xs of (o1, s1) \<Rightarrow> case feed_observed s1 ys of (o2, s2) \<Rightarrow> (o1 @ o2, s2))"
    if "extractor_inv s" for s xs ys
    using that by (rule feed_observed_append)
qed (auto intro: wf_intros)


section \<open>The value of the whole text\<close>

text \<open>What a reader of the finished text extracts: the unescaped value and whether it is closed.\<close>

definition value_text :: "string \<Rightarrow> string \<Rightarrow> string \<times> bool" where
  "value_text field b =
     (case find_field_value_start b field of
        None \<Rightarrow> ([], False)
      | Some v \<Rightarrow>
          (case safe_scan (drop v b) of (n, fin) \<Rightarrow> (unescape_loop (take n (drop v b)), fin)))"

definition stream_field :: "string \<Rightarrow> string list \<Rightarrow> string \<times> bool" where
  "stream_field field chunks =
     (case feed_all feed (@) [] (new_json_field_extractor field) chunks of (out, e) \<Rightarrow> (out, is_done e))"

lemma feed_observed_forget:
  "feed_observed (forget e) d = (fst (feed e d), forget (snd (feed e d)))"
  by (cases "jdone e") (simp_all add: feed_observed_def)

lemma feed_all_observed:
  "feed_all feed_observed (@) [] (forget e) cs =
     (fst (feed_all feed (@) [] e cs), forget (snd (feed_all feed (@) [] e cs)))"
proof (induction cs arbitrary: e)
  case (Cons c cs)
  obtain o1 e1 where f: "feed e c = (o1, e1)" by force
  with Cons [of e1] show ?case
    by (simp add: feed_observed_forget split: prod.splits)
qed simp

lemma stream_field_value: "stream_field field chunks = value_text field (concat chunks)"
proof -
  let ?e = "new_json_field_extractor field"
  have nd: "\<not> jdone ?e" by (simp add: new_json_field_extractor_def)
  have f: "jbuffer ?e = []" "last_emit ?e = 0" "field_name ?e = field"
    by (simp_all add: new_json_field_extractor_def)
  have "feed_all feed_observed (@) [] ?e chunks = feed_observed ?e (concat chunks)"
    by (rule extractor.feed_all_concat) simp
  moreover have "feed_all feed_observed (@) [] ?e chunks =
      (fst (feed_all feed (@) [] ?e chunks), forget (snd (feed_all feed (@) [] ?e chunks)))"
    using feed_all_observed [of ?e chunks] nd by simp
  ultimately have "fst (feed_all feed (@) [] ?e chunks) = fst (feed ?e (concat chunks))"
    "jdone (snd (feed_all feed (@) [] ?e chunks)) = jdone (snd (feed ?e (concat chunks)))"
    by (simp_all add: feed_observed_def) (metis forget_simps(1))
  then have "stream_field field chunks = (fst (feed ?e (concat chunks)), jdone (snd (feed ?e (concat chunks))))"
    by (simp add: stream_field_def is_done_def case_prod_unfold)
  also have "\<dots> = value_text field (concat chunks)"
    using extract_normal [OF extractor_inv_new nd, of "concat chunks"] nd f
    by (auto simp: value_text_def split: option.splits prod.splits)
  finally show ?thesis .
qed

section \<open>Reading back what an encoder writes\<close>

text \<open>
  What JSON and UTF-8 say, independently of the code above: the digits of a \<^verbatim>\<open>\uXXXX\<close> escape, the
  byte sequences that encode a code point of the basic plane (no overlong ones, no surrogates),
  and the short escapes.
\<close>

definition hex_digits :: "(char \<times> nat) list" where
  "hex_digits =
     zip ''0123456789'' [0..<10] @ zip ''abcdef'' [10..<16] @ zip ''ABCDEF'' [10..<16]"

fun hex_value :: "nat \<Rightarrow> string \<Rightarrow> nat option" where
  "hex_value n [] = Some n"
| "hex_value n (h # t) =
     (case map_of hex_digits h of None \<Rightarrow> None | Some d \<Rightarrow> hex_value (n * 16 + d) t)"

definition hex_number :: "string \<Rightarrow> nat option" where
  "hex_number h = (if length h = 4 then hex_value 0 h else None)"

definition utf8_point :: "string \<Rightarrow> nat option" where
  "utf8_point bs =
     (case map code_of bs of
        [a] \<Rightarrow> if a < 0x80 then Some a else None
      | [a, b] \<Rightarrow>
          if 0xC2 \<le> a \<and> a < 0xE0 \<and> 0x80 \<le> b \<and> b < 0xC0 then Some ((a - 0xC0) * 64 + (b - 0x80)) else None
      | [a, b, c] \<Rightarrow>
          let p = ((a - 0xE0) * 64 + (b - 0x80)) * 64 + (c - 0x80)
          in if 0xE0 \<le> a \<and> a < 0xF0 \<and> 0x80 \<le> b \<and> b < 0xC0 \<and> 0x80 \<le> c \<and> c < 0xC0 \<and>
                0x800 \<le> p \<and> \<not> (0xD800 \<le> p \<and> p < 0xE000)
             then Some p else None
      | _ \<Rightarrow> None)"

definition short_escapes :: "(char \<times> char) list" where
  "short_escapes =
     [(CHR 0x22, CHR 0x22), (CHR 0x5C, CHR 0x5C), (CHR ''/'', CHR ''/''), (CHR ''b'', CHR 0x08),
      (CHR ''f'', CHR 0x0C), (CHR ''n'', CHR 0x0A), (CHR ''r'', CHR 0x0D), (CHR ''t'', CHR 0x09)]"

text \<open>
  \<open>spells s value\<close>: an encoder may write \<open>value\<close> as the body \<open>s\<close> of a JSON string. Every character
  has several spellings and an encoder may choose a different one each time: raw (any byte that is no quote and
  no backslash, so any UTF-8), a short escape, or \<^verbatim>\<open>\uXXXX\<close> with digits of either case for any character of
  the basic plane. The one spelling left out is the pair of escapes for a character beyond it.
\<close>

inductive spells :: "string \<Rightarrow> string \<Rightarrow> bool" where
  spell_nil: "spells [] []"
| spell_raw: "c \<noteq> CHR 0x22 \<Longrightarrow> c \<noteq> CHR 0x5C \<Longrightarrow> spells s v \<Longrightarrow> spells (c # s) (c # v)"
| spell_short: "(l, c) \<in> set short_escapes \<Longrightarrow> spells s v \<Longrightarrow> spells (CHR 0x5C # l # s) (c # v)"
| spell_point: "hex_number h = Some p \<Longrightarrow> utf8_point bs = Some p \<Longrightarrow> spells s v \<Longrightarrow>
    spells (CHR 0x5C # CHR ''u'' # h @ s) (bs @ v)"

lemma short_escape_simple: "(l, c) \<in> set short_escapes \<Longrightarrow> l \<noteq> CHR ''u'' \<and> simple_escape l = Some c"
  by (auto simp: short_escapes_def simple_escape_def)

lemma hex_digits_read: "list_all (\<lambda>(c, n). code_of c < 0x80 \<and> hex_digit c = n) hex_digits"
  by code_simp

lemma map_of_hex_digits:
  "map_of hex_digits c = Some n \<Longrightarrow> code_of c < 0x80 \<and> hex_digit c = n"
  using hex_digits_read map_of_SomeD [of hex_digits c n] by (fastforce simp: list_all_iff)

lemma parse_hex_ascii:
  "code_of h < 0x80 \<Longrightarrow> parse_hex (h # t) cp = parse_hex t (cp * 16 + hex_digit h)"
  by (simp add: parse_hex.simps [of "h # t"] rune_size_ascii)

lemma parse_hex_value: "hex_value n h = Some p \<Longrightarrow> parse_hex h n = p"
  using map_of_hex_digits
  by (induction n h rule: hex_value.induct)
    (auto simp: parse_hex.simps [of "[]"] parse_hex_ascii split: option.splits)

lemma parse_hex_number: "hex_number h = Some p \<Longrightarrow> length h = 4 \<and> parse_hex h 0 = p"
  by (simp add: hex_number_def parse_hex_value split: if_splits)

text \<open>\<^verbatim>\<open>WriteRune\<close> produces the one byte sequence that encodes the code point.\<close>

lemma two_bytes:
  fixes x y p :: nat
  assumes "0xC2 \<le> x" "x < 0xE0" "0x80 \<le> y" "y < 0xC0" "p = (x - 0xC0) * 64 + (y - 0x80)"
  shows "\<not> p < 0x80" "p < 0x800" "0xC0 + p div 64 = x" "0x80 + p mod 64 = y"
proof -
  obtain i where i: "x = 0xC0 + i" "2 \<le> i" "i < 32" using assms(1,2) that [of "x - 0xC0"] by simp
  obtain j where j: "y = 0x80 + j" "j < 64" using assms(3,4) that [of "y - 0x80"] by simp
  have p: "p = i * 64 + j" by (simp add: assms(5) i j)
  show "\<not> p < 0x80" "p < 0x800" using i(2,3) j(2) by (simp_all add: p)
  show "0xC0 + p div 64 = x" "0x80 + p mod 64 = y" using j(2) by (simp_all add: p i(1) j(1))
qed

lemma three_bytes:
  fixes x y z p :: nat
  assumes "0xE0 \<le> x" "x < 0xF0" "0x80 \<le> y" "y < 0xC0" "0x80 \<le> z" "z < 0xC0"
    and "p = ((x - 0xE0) * 64 + (y - 0x80)) * 64 + (z - 0x80)"
  shows "0xE0 + p div 4096 = x" "0x80 + p div 64 mod 64 = y" "0x80 + p mod 64 = z"
proof -
  obtain i where i: "x = 0xE0 + i" using assms(1) that [of "x - 0xE0"] by simp
  obtain j where j: "y = 0x80 + j" "j < 64" using assms(3,4) that [of "y - 0x80"] by simp
  obtain k where k: "z = 0x80 + k" "k < 64" using assms(5,6) that [of "z - 0x80"] by simp
  have p: "p = (i * 64 + j) * 64 + k" by (simp add: assms(7) i j k)
  have "p div 64 = i * 64 + j" "p mod 64 = k" using k(2) by (simp_all only: p div_mult_self3 mod_mult_self3) simp_all
  moreover have "p div 4096 = p div 64 div 64" by (simp add: div_mult2_eq [symmetric])
  ultimately show "0xE0 + p div 4096 = x" "0x80 + p div 64 mod 64 = y" "0x80 + p mod 64 = z"
    using j(2) by (simp_all add: i j k)
qed

lemma char_of_code: "n = code_of c \<Longrightarrow> char_of n = c"
  by simp

lemma utf8_point_cases:
  assumes "utf8_point bs = Some p"
  obtains a where "bs = [a]" "code_of a < 0x80" "p = code_of a"
  | a b where "bs = [a, b]" "0xC2 \<le> code_of a" "code_of a < 0xE0" "0x80 \<le> code_of b" "code_of b < 0xC0"
      "p = (code_of a - 0xC0) * 64 + (code_of b - 0x80)"
  | a b c where "bs = [a, b, c]" "0xE0 \<le> code_of a" "code_of a < 0xF0" "0x80 \<le> code_of b" "code_of b < 0xC0"
      "0x80 \<le> code_of c" "code_of c < 0xC0"
      "p = ((code_of a - 0xE0) * 64 + (code_of b - 0x80)) * 64 + (code_of c - 0x80)"
      "0x800 \<le> p" "\<not> (0xD800 \<le> p \<and> p < 0xE000)"
proof -
  consider "bs = []" | a where "bs = [a]" | a b where "bs = [a, b]" | a b c where "bs = [a, b, c]"
    | a b c d t where "bs = a # b # c # d # t"
    by (metis list.exhaust)
  then show thesis
  proof cases
    case (2 a)
    with assms show ?thesis
      by (simp only: utf8_point_def list.map list.case option.inject option.distinct split: if_split_asm)
        (rule that(1) [of a]; simp only:)
  next
    case (3 a b)
    with assms show ?thesis
      by (simp only: utf8_point_def list.map list.case option.inject option.distinct split: if_split_asm)
        (rule that(2) [of a b]; simp only:)
  next
    case (4 a b c)
    with assms show ?thesis
      by (simp only: utf8_point_def list.map list.case Let_def option.inject option.distinct split: if_split_asm)
        (rule that(3) [of a b c]; simp only: not_False_eq_True)
  qed (use assms in \<open>simp_all only: utf8_point_def list.map list.case option.distinct\<close>)
qed

lemma write_rune_point:
  assumes "utf8_point bs = Some p"
  shows "write_rune p = bs"
  using assms
proof (cases rule: utf8_point_cases)
  case (1 a)
  then show ?thesis by (simp add: write_rune_def)
next
  case (2 a b)
  note t = two_bytes [OF 2(2-6)]
  then have "char_of (0xC0 + p div 64) = a" "char_of (0x80 + p mod 64) = b"
    by (blast intro: char_of_code)+
  with t(1,2) show ?thesis by (simp only: write_rune_def 2(1) if_True if_False)
next
  case (3 a b c)
  note t = three_bytes [OF 3(2-8)]
  then have "char_of (0xE0 + p div 4096) = a" "char_of (0x80 + p div 64 mod 64) = b"
      "char_of (0x80 + p mod 64) = c"
    by (blast intro: char_of_code)+
  moreover have "\<not> p < 0x80" "\<not> p < 0x800" "\<not> (0xD800 \<le> p \<and> p \<le> 0xDFFF)" using 3(9,10) by auto
  ultimately show ?thesis by (simp only: write_rune_def 3(1) if_True if_False)
qed

lemma spells_scan:
  "spells s v \<Longrightarrow> safe_scan (s @ t) = skip_ahead (length s) (safe_scan t)"
proof (induction rule: spells.induct)
  case (spell_short l c s v)
  with short_escape_simple [of l c] show ?case by (simp add: safe_scan_simps)
next
  case (spell_point h p bs s v)
  then have "length h = 4" using parse_hex_number by blast
  with spell_point show ?case by (simp add: safe_scan_simps)
qed (simp_all add: safe_scan_simps)

lemma spells_unescape: "spells s v \<Longrightarrow> unescape_loop s = v"
proof (induction rule: spells.induct)
  case (spell_short l c s v)
  with short_escape_simple [of l c] show ?case by (simp add: unescape_simps)
next
  case (spell_point h p bs s v)
  have "simple_escape CHR ''u'' = None" by (simp add: simple_escape_def)
  with spell_point parse_hex_number [of h p] write_rune_point [of bs p] show ?case
    by (simp add: unescape_simps)
qed (simp_all add: unescape_simps)

text \<open>
  A text in which the field's key stands for the first time behind \<open>pre\<close>, followed by a colon
  between blanks and the string \<open>s\<close>.
\<close>

definition key_first :: "string \<Rightarrow> string \<Rightarrow> bool" where
  "key_first pre field \<longleftrightarrow> index_of (pre @ field_key field) (field_key field) = Some (length pre)"

definition field_text :: "string \<Rightarrow> string \<Rightarrow> string \<Rightarrow> string \<Rightarrow> string \<Rightarrow> string \<Rightarrow> string" where
  "field_text pre field w1 w2 s rest =
     pre @ field_key field @ w1 @ CHR '':'' # w2 @ CHR 0x22 # s @ CHR 0x22 # rest"

lemma find_start_key:
  "find_field_value_start buf field =
     (case index_of buf (field_key field) of
        None \<Rightarrow> None
      | Some idx \<Rightarrow> map_option (\<lambda>k. idx + length (field_key field) + k)
                      (skip_to_quote (drop (idx + length (field_key field)) buf)))"
  by (simp only: find_field_value_start_def field_key_def Let_def)

lemma skip_blanks:
  "list_all json_blank w \<Longrightarrow> skip_to_quote t = Some k \<Longrightarrow> skip_to_quote (w @ t) = Some (length w + k)"
  by (induction w) auto

lemma index_of_extend:
  assumes "index_of (pre @ k) k = Some (length pre)"
  shows "index_of (pre @ k @ t) k = Some (length pre)"
proof (rule index_of_SomeI)
  show "\<forall>j < length pre. \<not> has_prefix (drop j (pre @ k @ t)) k"
  proof (intro allI impI notI)
    fix j assume j: "j < length pre" and "has_prefix (drop j (pre @ k @ t)) k"
    then have "has_prefix (drop j (pre @ k)) k" by (simp add: has_prefix_def)
    with j index_of_SomeD [OF assms] show False by blast
  qed
qed simp_all

lemma find_field_text:
  assumes "key_first pre field" "list_all json_blank w1" "list_all json_blank w2"
  shows "\<exists>v. find_field_value_start (field_text pre field w1 w2 s rest) field = Some v \<and>
    drop v (field_text pre field w1 w2 s rest) = s @ CHR 0x22 # rest"
proof -
  let ?tail = "w1 @ CHR '':'' # w2 @ CHR 0x22 # s @ CHR 0x22 # rest"
  let ?n = "length pre + length (field_key field)"
  have "index_of (field_text pre field w1 w2 s rest) (field_key field) = Some (length pre)"
    using index_of_extend [of pre "field_key field" ?tail] assms(1)
    by (simp add: key_first_def field_text_def)
  moreover have "drop ?n (field_text pre field w1 w2 s rest) = ?tail" by (simp add: field_text_def)
  moreover have "skip_to_quote ?tail = Some (length w1 + Suc (length w2 + 1))"
    by (intro skip_blanks [OF assms(2)]) (simp add: skip_blanks [OF assms(3)] json_blank_def)
  ultimately have "find_field_value_start (field_text pre field w1 w2 s rest) field =
      Some (?n + (length w1 + Suc (length w2 + 1)))" by (simp add: find_start_key)
  moreover have "drop (?n + (length w1 + Suc (length w2 + 1))) (field_text pre field w1 w2 s rest) = s @ CHR 0x22 # rest"
    by (simp add: field_text_def)
  ultimately show ?thesis by blast
qed

section \<open>Properties\<close>

text \<open>
  Chunk boundaries carry no meaning: however the arguments are fragmented, in the middle of
  an escape, of a \<^verbatim>\<open>\uXXXX\<close> sequence or of a rune, the emitted pieces concatenate to the
  unescaped value of the whole text so far, and the extractor is done exactly when the closing
  quote has arrived.
\<close>

lemma json_field_rechunk:
  "stream_field field chunks = value_text field (concat chunks)"
  by (rule stream_field_value)

text \<open>
  C35: let the arguments hold the field's key for the first time behind any text, a colon between any
  blanks, and a JSON string in any of its spellings (raw UTF-8, short escapes, \<^verbatim>\<open>\uXXXX\<close> of either case for
  characters of the basic plane, mixed freely), and let them arrive in any fragments. The extractor
  streams exactly the value spelled and then stops, whatever follows. Escaped surrogate pairs
  are outside the statement: they are lost (\<open>surrogate_escape_lost\<close>).
\<close>

theorem json_field_roundtrip:
  assumes "spells s value" "key_first pre field" "list_all json_blank w1" "list_all json_blank w2"
    "concat chunks = field_text pre field w1 w2 s rest"
  shows "stream_field field chunks = (value, True)"
proof -
  obtain v where v: "find_field_value_start (concat chunks) field = Some v"
      "drop v (concat chunks) = s @ CHR 0x22 # rest"
    using find_field_text [OF assms(2-4), of s rest] by (auto simp: assms(5))
  have "safe_scan (s @ CHR 0x22 # rest) = (length s, True)"
    using spells_scan [OF assms(1), of "CHR 0x22 # rest"] by (simp add: safe_scan_simps)
  with v show ?thesis
    by (simp add: stream_field_value value_text_def spells_unescape [OF assms(1)])
qed

theorem json_field_roundtrip_witness:
  "stream_field ''answer''
     [''{'', [CHR 0x22] @ ''n'' @ [CHR 0x22] @ '':1, '' @ [CHR 0x22] @ ''ans'', ''wer'' @ [CHR 0x22] @ '' '',
      '': '' @ [CHR 0x22] @ ''d'' @ [CHR 0x5C] @ ''u00'', ''E0'' @ [CHR 0x5C], ''n'' @ [CHR 0x5C] @ ''u1eA1'',
      [CHR 0xE1, CHR 0xBA], [CHR 0xA1, CHR 0x22] @ ''}''] =
   (''d'' @ [CHR 0xC3, CHR 0xA0, CHR 0x0A, CHR 0xE1, CHR 0xBA, CHR 0xA1, CHR 0xE1, CHR 0xBA, CHR 0xA1], True)"
  (is "stream_field _ ?chunks = (?value, True)")
proof -
  let ?pre = "''{'' @ [CHR 0x22] @ ''n'' @ [CHR 0x22] @ '':1, ''"
  let ?s = "''d'' @ [CHR 0x5C] @ ''u00E0'' @ [CHR 0x5C] @ ''n'' @ [CHR 0x5C] @ ''u1eA1'' @ [CHR 0xE1, CHR 0xBA, CHR 0xA1]"
  have raw: "spells [CHR 0xE1, CHR 0xBA, CHR 0xA1] [CHR 0xE1, CHR 0xBA, CHR 0xA1]"
    by (intro spells.intros) simp_all
  have "hex_number ''1eA1'' = Some 0x1EA1" "utf8_point [CHR 0xE1, CHR 0xBA, CHR 0xA1] = Some 0x1EA1"
      "hex_number ''00E0'' = Some 0xE0" "utf8_point [CHR 0xC3, CHR 0xA0] = Some 0xE0"
      "(CHR ''n'', CHR 0x0A) \<in> set short_escapes"
    by code_simp+
  note facts = this
  have "spells ?s ?value"
    using spell_raw [OF _ _ spell_point [OF facts(3,4) spell_short [OF facts(5) spell_point [OF facts(1,2) raw]]],
      of "CHR ''d''"] by simp
  moreover have "key_first ?pre ''answer''" by code_simp
  moreover have "list_all json_blank '' ''" by code_simp
  moreover have "concat ?chunks = field_text ?pre ''answer'' '' '' '' '' ?s ''}''" by code_simp
  ultimately show ?thesis by (intro json_field_roundtrip)
qed

text \<open>
  An escape that names a surrogate is written as a rune of its own and becomes U+FFFD,
  whatever follows: the second half of a pair is never combined with the first, so a character
  outside the basic plane that an encoder escaped is lost.
\<close>

lemma surrogate_escape_lost:
  assumes "length h = 4" "0xD800 \<le> parse_hex h 0" "parse_hex h 0 \<le> 0xDFFF"
  shows "unescape_json_string ([CHR 0x5C, CHR ''u''] @ h @ t) =
    [CHR 0xEF, CHR 0xBF, CHR 0xBD] @ unescape_json_string t"
  using assms
  by (simp add: unescape_json_loop unescape_simps simple_escape_def write_rune_def)

end
