(* ===== verification/Approval_Gate.thy ===== *)
theory Approval_Gate
  imports Prelude
begin

text \<open>
  The human-in-the-loop gate for dangerous tool calls
  (\<^verbatim>\<open>src/internal/agent/approval/gate.go\<close>).

  A goroutine that wants to run a gated tool registers a \<open>waiter\<close> under a fresh pending id,
  emits an event for the UI and blocks on a one-slot channel until a resolver, its timer or its
  context puts a decision into it. Resolvers run concurrently, on this instance or on behalf of
  another replica. The channel, the \<^verbatim>\<open>sync.Once\<close>, the \<^verbatim>\<open>resolved\<close> flag and the mutex-protected map
  are kept as the code has them; each atomic action is one rule of the step relation
  \<open>gate_step\<close>, so the theorems hold for every interleaving.
\<close>

section \<open>Data\<close>

record decision =
  approved :: bool
  modified_args :: string
  reason :: string
  timed_out :: bool
  ctx_canceled :: bool

definition zero_decision :: decision where
  "zero_decision = \<lparr>approved = False, modified_args = [], reason = [], timed_out = False,
     ctx_canceled = False\<rparr>"

record waiter =
  w_ch :: "decision option"
  w_tenant :: tenant_id
  w_user :: string
  w_once :: bool
  w_resolved :: bool

text \<open>The errors of \<^verbatim>\<open>Resolve\<close>; \<open>GateErr\<close> carries the ones built with \<^verbatim>\<open>fmt.Errorf\<close>.\<close>

datatype gate_error =
    ErrPendingNotFound
  | ErrTenantMismatch
  | ErrUserMismatch
  | ErrAlreadyResolved
  | GateErr string

text \<open>
  A checker answers per-tool policy questions; it lives behind an interface, so it is a value of
  the gate. \<open>gate_rdb\<close> says whether a redis client was supplied.
\<close>

record checker =
  is_required :: "tenant_id \<Rightarrow> string \<Rightarrow> string \<Rightarrow> string + bool"
  is_enabled :: "tenant_id \<Rightarrow> string \<Rightarrow> string \<Rightarrow> string + bool"

record gate =
  gate_checker :: "checker option"
  gate_timeout :: "64 word"
  gate_rdb :: bool
  gate_fail_close :: bool

subsection \<open>Construction\<close>

definition second :: "64 word" where
  "second = 1000000000"

text \<open>
  \<open>cfg\<close> is \<^verbatim>\<open>cfg.Agent.ToolApprovalTimeoutSeconds\<close> when \<^verbatim>\<open>cfg\<close> and \<^verbatim>\<open>cfg.Agent\<close> are not nil, and
  \<open>env\<close> the value of the fail-open environment variable. Durations are signed 64-bit
  nanoseconds, so the product wraps. \<^verbatim>\<open>strings.EqualFold\<close> with an ASCII constant that holds none of
  the letters k and s is equality of the lower cases.
\<close>

definition new_gate :: "64 word option \<Rightarrow> checker option \<Rightarrow> bool \<Rightarrow> string \<Rightarrow> gate" where
  "new_gate cfg chk rdb env =
     \<lparr>gate_checker = chk,
      gate_timeout =
        (case cfg of
           Some secs \<Rightarrow> if 0 < sint secs then secs * second else 10 * 60 * second
         | None \<Rightarrow> 10 * 60 * second),
      gate_rdb = rdb,
      gate_fail_close = (to_lower (trim_space env) \<noteq> ''true'')\<rparr>"

definition timeout_seconds :: "64 word \<Rightarrow> int" where
  "timeout_seconds t = max 1 (sint t div 1000000000)"

subsection \<open>Policy questions\<close>

definition needs_approval :: "gate option \<Rightarrow> tenant_id \<Rightarrow> string \<Rightarrow> string \<Rightarrow> bool" where
  "needs_approval g tid service tool =
     (case g of
        None \<Rightarrow> False
      | Some g \<Rightarrow>
          (case gate_checker g of
             None \<Rightarrow> False
           | Some c \<Rightarrow>
               if tid = 0 \<or> service = [] \<or> tool = [] then False
               else (case is_required c tid service tool of
                       Inl _ \<Rightarrow> gate_fail_close g
                     | Inr ok \<Rightarrow> ok)))"

definition tool_enabled :: "gate option \<Rightarrow> tenant_id \<Rightarrow> string \<Rightarrow> string \<Rightarrow> string + bool" where
  "tool_enabled g tid service tool =
     (case g of
        None \<Rightarrow> Inr True
      | Some g \<Rightarrow>
          (case gate_checker g of
             None \<Rightarrow> Inr True
           | Some c \<Rightarrow>
               if tid = 0 \<or> service = [] \<or> tool = [] then Inr False
               else is_enabled c tid service tool))"

text \<open>\<^verbatim>\<open>Adapter\<close> turns an optional service into a checker: nothing is required and all is enabled.\<close>

definition adapter_is_required :: "checker option \<Rightarrow> tenant_id \<Rightarrow> string \<Rightarrow> string \<Rightarrow> string + bool" where
  "adapter_is_required svc tid service tool =
     (case svc of None \<Rightarrow> Inr False | Some c \<Rightarrow> is_required c tid service tool)"

definition adapter_is_enabled :: "checker option \<Rightarrow> tenant_id \<Rightarrow> string \<Rightarrow> string \<Rightarrow> string + bool" where
  "adapter_is_enabled svc tid service tool =
     (case svc of None \<Rightarrow> Inr True | Some c \<Rightarrow> is_enabled c tid service tool)"

definition adapter :: "checker option \<Rightarrow> checker" where
  "adapter svc = \<lparr>is_required = adapter_is_required svc, is_enabled = adapter_is_enabled svc\<rparr>"

text \<open>
  A checker that fails requires approval unless the operator opted out; a request without a
  tenant or tool identity is never gated, and never enabled either.
\<close>

lemma needs_approval_on_error [op_simps]:
  "is_required c tid service tool = Inl e \<Longrightarrow> tid \<noteq> 0 \<Longrightarrow> service \<noteq> [] \<Longrightarrow> tool \<noteq> [] \<Longrightarrow>
     needs_approval (Some (new_gate cfg (Some c) rdb env)) tid service tool \<longleftrightarrow>
       to_lower (trim_space env) \<noteq> ''true''"
  by (simp add: needs_approval_def new_gate_def)

lemma unidentified_tool [op_simps]:
  "tid = 0 \<or> service = [] \<or> tool = [] \<Longrightarrow> gate_checker g = Some c \<Longrightarrow>
     \<not> needs_approval (Some g) tid service tool \<and> tool_enabled (Some g) tid service tool = Inr False"
  by (auto simp: needs_approval_def tool_enabled_def)

lemma timeout_seconds_pos: "1 \<le> timeout_seconds t"
  by (simp add: timeout_seconds_def)

section \<open>Delivery\<close>

text \<open>
  \<^verbatim>\<open>waiter.deliver\<close>: the first caller sends into the one-slot channel; the send has a
  \<^verbatim>\<open>default\<close> branch for a full channel. The result says whether this call delivered.
\<close>

definition deliver :: "waiter \<Rightarrow> decision \<Rightarrow> bool \<times> waiter" where
  "deliver w d =
     (if w_once w then (False, w)
      else (case w_ch w of
              None \<Rightarrow> (True, w\<lparr>w_once := True, w_ch := Some d, w_resolved := True\<rparr>)
            | Some _ \<Rightarrow> (False, w\<lparr>w_once := True\<rparr>)))"

type_synonym waiter_ref = nat

text \<open>
  Who put a decision into a channel: the resolver call with its tenant and user, or the waiting
  goroutine itself. It is history, not part of the program's state.
\<close>

datatype source = FromUser nat tenant_id string | FromClock

datatype flow = ToolFlow | OAuthFlow

text \<open>
  A request of either flow: \<^verbatim>\<open>PendingRequest\<close> and \<^verbatim>\<open>OAuthPendingRequest\<close> (whose \<^verbatim>\<open>WaitTimeout\<close> is
  \<open>rq_timeout\<close>). \<open>rq_bus\<close> says whether it has an event bus.
\<close>

record wait_request =
  rq_flow :: flow
  rq_tenant :: tenant_id
  rq_user :: string
  rq_session :: string
  rq_message :: string
  rq_request :: string
  rq_bus :: bool
  rq_service :: string
  rq_service_name :: string
  rq_tool :: string
  rq_registered :: string
  rq_description :: string
  rq_args :: string
  rq_call :: string
  rq_timeout :: "64 word"

text \<open>
  The calls of \<^verbatim>\<open>EventBus.Emit\<close>. The \<^verbatim>\<open>Args\<close> field, which decodes the JSON text of \<open>rd_args\<close>
  once more for the UI, is left out.
\<close>

record required_data =
  rd_pending :: string
  rd_tenant :: tenant_id
  rd_session :: string
  rd_message :: string
  rd_service :: string
  rd_service_name :: string
  rd_tool :: string
  rd_registered :: string
  rd_description :: string
  rd_args :: string
  rd_timeout :: int
  rd_requested_at :: int
  rd_call :: string
  rd_request :: string

record resolved_data =
  sd_pending :: string
  sd_service :: string
  sd_approved :: bool
  sd_reason :: string
  sd_timed_out :: bool
  sd_canceled :: bool

datatype ui_data =
    ToolApprovalRequired required_data
  | ToolApprovalResolved resolved_data
  | MCPOAuthRequired required_data
  | MCPOAuthResolved resolved_data

record ui_event =
  ev_id :: string
  ev_session :: string
  ev_data :: ui_data
  ev_message :: string
  ev_request :: string

text \<open>
  The points of \<^verbatim>\<open>RequestAndWait\<close> and \<^verbatim>\<open>RequestOAuthAndWait\<close> between atomic actions, after
  the waiter is registered: about to emit the event, blocked in \<^verbatim>\<open>select\<close>, about to call
  \<^verbatim>\<open>deliver\<close> after the timer or the context fired, blocked in the receive that follows, about to
  emit the resolved event, and returned.
\<close>

datatype wait_pc =
    Emitting
  | Selecting
  | Delivering decision
  | Receiving
  | Got decision
  | Returned "string + decision"

record wait_thread =
  t_flow :: flow
  t_id :: string
  t_ref :: waiter_ref
  t_timeout :: "64 word"
  t_req :: wait_request
  t_pc :: wait_pc

text \<open>
  The points of \<^verbatim>\<open>deliverLocal\<close>: called; past the checks under the mutex; past the load of
  \<^verbatim>\<open>resolved\<close>; returned (with the waiter found, if any).
\<close>

datatype res_pc =
    Called
  | Checked waiter_ref
  | Loaded waiter_ref
  | Resolved "waiter_ref option" "gate_error + unit"

record res_thread =
  r_tenant :: tenant_id
  r_user :: string
  r_id :: string
  r_decision :: decision
  r_pc :: res_pc

record gstate =
  pending :: "string \<rightharpoonup> waiter_ref"
  heap :: "waiter_ref \<rightharpoonup> waiter"
  waits :: "nat \<rightharpoonup> wait_thread"
  ress :: "nat \<rightharpoonup> res_thread"
  events :: "ui_event list"
  delivered :: "(waiter_ref \<times> decision \<times> source) list"

definition init_gstate :: gstate where
  "init_gstate = \<lparr>pending = Map.empty, heap = Map.empty, waits = Map.empty, ress = Map.empty,
     events = [], delivered = []\<rparr>"

subsection \<open>deliverLocal\<close>

text \<open>The part under the mutex: look the waiter up and authorise the caller.\<close>

definition check_waiter ::
    "gstate \<Rightarrow> tenant_id \<Rightarrow> string \<Rightarrow> string \<Rightarrow> gate_error + waiter_ref" where
  "check_waiter s tid user pid =
     (case pending s pid of
        None \<Rightarrow> Inl ErrPendingNotFound
      | Some r \<Rightarrow>
          (case heap s r of
             None \<Rightarrow> Inl ErrPendingNotFound
           | Some w \<Rightarrow>
               if w_tenant w \<noteq> tid then Inl ErrTenantMismatch
               else if w_user w \<noteq> [] \<and> w_user w \<noteq> user then Inl ErrUserMismatch
               else Inr r))"

definition is_resolved :: "gstate \<Rightarrow> waiter_ref \<Rightarrow> bool" where
  "is_resolved s r = (case heap s r of None \<Rightarrow> False | Some w \<Rightarrow> w_resolved w)"

definition deliver_at ::
    "gstate \<Rightarrow> waiter_ref \<Rightarrow> decision \<Rightarrow> source \<Rightarrow> bool \<times> gstate" where
  "deliver_at s r d src =
     (case heap s r of
        None \<Rightarrow> (False, s)
      | Some w \<Rightarrow>
          (case deliver w d of
             (ok, w') \<Rightarrow>
               (ok, s\<lparr>heap := (heap s)(r \<mapsto> w'),
                      delivered := delivered s @ (if ok then [(r, d, src)] else [])\<rparr>)))"

text \<open>\<^verbatim>\<open>deliverLocal\<close> run without interference; \<open>u\<close> names the call.\<close>

definition deliver_local ::
    "nat \<Rightarrow> gstate \<Rightarrow> tenant_id \<Rightarrow> string \<Rightarrow> string \<Rightarrow> decision \<Rightarrow> (gate_error + unit) \<times> gstate" where
  "deliver_local u s tid user pid d =
     (case check_waiter s tid user pid of
        Inl e \<Rightarrow> (Inl e, s)
      | Inr r \<Rightarrow>
          if is_resolved s r then (Inl ErrAlreadyResolved, s)
          else (case deliver_at s r d (FromUser u tid user) of
                  (True, s') \<Rightarrow> (Inr (), s')
                | (False, s') \<Rightarrow> (Inl ErrAlreadyResolved, s')))"

section \<open>Waiting\<close>

text \<open>
  The early returns before a waiter is registered (\<open>None\<close>: go on). \<open>bus\<close> says whether the
  request has an event bus.
\<close>

definition tool_entry :: "gate option \<Rightarrow> bool \<Rightarrow> (string + decision) option" where
  "tool_entry g bus =
     (case g of
        None \<Rightarrow> Some (Inr (zero_decision\<lparr>approved := True\<rparr>))
      | Some g \<Rightarrow>
          if gate_checker g = None then Some (Inr (zero_decision\<lparr>approved := True\<rparr>))
          else if \<not> bus then Some (Inl ''tool approval: EventBus is nil'')
          else None)"

definition oauth_entry :: "gate option \<Rightarrow> bool \<Rightarrow> (string + decision) option" where
  "oauth_entry g bus =
     (case g of
        None \<Rightarrow> Some (Inl ''oauth gate: nil gate'')
      | Some _ \<Rightarrow> if \<not> bus then Some (Inl ''oauth gate: EventBus is nil'') else None)"

definition oauth_timeout :: "gate \<Rightarrow> 64 word \<Rightarrow> 64 word" where
  "oauth_timeout g wait = (if 0 < sint wait then wait else gate_timeout g)"

definition entry :: "gate option \<Rightarrow> wait_request \<Rightarrow> (string + decision) option" where
  "entry g rq = (case rq_flow rq of ToolFlow \<Rightarrow> tool_entry g (rq_bus rq) | OAuthFlow \<Rightarrow> oauth_entry g (rq_bus rq))"

definition wait_timeout :: "gate \<Rightarrow> wait_request \<Rightarrow> 64 word" where
  "wait_timeout g rq = (case rq_flow rq of ToolFlow \<Rightarrow> gate_timeout g | OAuthFlow \<Rightarrow> oauth_timeout g (rq_timeout rq))"

definition set_pc :: "gstate \<Rightarrow> nat \<Rightarrow> wait_thread \<Rightarrow> wait_pc \<Rightarrow> gstate" where
  "set_pc s t th pc = s\<lparr>waits := (waits s)(t \<mapsto> th\<lparr>t_pc := pc\<rparr>)\<rparr>"

definition register_wait ::
    "gate \<Rightarrow> gstate \<Rightarrow> nat \<Rightarrow> waiter_ref \<Rightarrow> string \<Rightarrow> wait_request \<Rightarrow> gstate" where
  "register_wait g s t r pid rq =
     s\<lparr>heap := (heap s)(r \<mapsto> \<lparr>w_ch = None, w_tenant = rq_tenant rq, w_user = rq_user rq,
                            w_once = False, w_resolved = False\<rparr>),
       pending := (pending s)(pid \<mapsto> r),
       waits := (waits s)(t \<mapsto> \<lparr>t_flow = rq_flow rq, t_id = pid, t_ref = r,
                               t_timeout = wait_timeout g rq, t_req = rq, t_pc = Emitting\<rparr>)\<rparr>"

definition tool_required_event :: "wait_thread \<Rightarrow> int \<Rightarrow> ui_event" where
  "tool_required_event th now =
     (let rq = t_req th in
      \<lparr>ev_id = t_id th @ ''-approval-required'', ev_session = rq_session rq,
       ev_data = ToolApprovalRequired
         \<lparr>rd_pending = t_id th, rd_tenant = rq_tenant rq, rd_session = rq_session rq,
          rd_message = rq_message rq, rd_service = rq_service rq, rd_service_name = rq_service_name rq,
          rd_tool = rq_tool rq, rd_registered = rq_registered rq, rd_description = rq_description rq,
          rd_args = rq_args rq, rd_timeout = timeout_seconds (t_timeout th), rd_requested_at = now,
          rd_call = rq_call rq, rd_request = rq_request rq\<rparr>,
       ev_message = rq_message rq, ev_request = rq_request rq\<rparr>)"

definition oauth_required_event :: "wait_thread \<Rightarrow> int \<Rightarrow> ui_event" where
  "oauth_required_event th now =
     (let rq = t_req th in
      \<lparr>ev_id = t_id th @ ''-mcp-oauth-required'', ev_session = rq_session rq,
       ev_data = MCPOAuthRequired
         \<lparr>rd_pending = t_id th, rd_tenant = rq_tenant rq, rd_session = rq_session rq,
          rd_message = rq_message rq, rd_service = rq_service rq, rd_service_name = rq_service_name rq,
          rd_tool = rq_tool rq, rd_registered = [], rd_description = [], rd_args = [],
          rd_timeout = timeout_seconds (t_timeout th), rd_requested_at = now,
          rd_call = rq_call rq, rd_request = rq_request rq\<rparr>,
       ev_message = rq_message rq, ev_request = rq_request rq\<rparr>)"

definition required_event :: "wait_thread \<Rightarrow> int \<Rightarrow> ui_event" where
  "required_event th now =
     (case t_flow th of ToolFlow \<Rightarrow> tool_required_event th now | OAuthFlow \<Rightarrow> oauth_required_event th now)"

definition tool_resolved_event :: "wait_thread \<Rightarrow> decision \<Rightarrow> ui_event" where
  "tool_resolved_event th d =
     \<lparr>ev_id = t_id th @ ''-approval-resolved'', ev_session = rq_session (t_req th),
      ev_data = ToolApprovalResolved
        \<lparr>sd_pending = t_id th, sd_service = [], sd_approved = approved d, sd_reason = reason d,
         sd_timed_out = timed_out d, sd_canceled = ctx_canceled d\<rparr>,
      ev_message = rq_message (t_req th), ev_request = rq_request (t_req th)\<rparr>"

definition oauth_resolved_event :: "wait_thread \<Rightarrow> decision \<Rightarrow> ui_event" where
  "oauth_resolved_event th d =
     \<lparr>ev_id = t_id th @ ''-mcp-oauth-resolved'', ev_session = rq_session (t_req th),
      ev_data = MCPOAuthResolved
        \<lparr>sd_pending = t_id th, sd_service = rq_service (t_req th), sd_approved = approved d,
         sd_reason = reason d, sd_timed_out = timed_out d, sd_canceled = ctx_canceled d\<rparr>,
      ev_message = rq_message (t_req th), ev_request = rq_request (t_req th)\<rparr>"

definition resolved_event :: "wait_thread \<Rightarrow> decision \<Rightarrow> ui_event" where
  "resolved_event th d =
     (case t_flow th of ToolFlow \<Rightarrow> tool_resolved_event th d | OAuthFlow \<Rightarrow> oauth_resolved_event th d)"

definition emit_error :: "flow \<Rightarrow> string \<Rightarrow> string" where
  "emit_error f e =
     (case f of ToolFlow \<Rightarrow> ''emit tool approval required: '' @ e
      | OAuthFlow \<Rightarrow> ''emit mcp oauth required: '' @ e)"

text \<open>
  The return runs the deferred \<^verbatim>\<open>delete(g.pending, pendingID)\<close>. The waiter itself lives on
  while a resolver still holds it.
\<close>

definition return_wait :: "gstate \<Rightarrow> nat \<Rightarrow> wait_thread \<Rightarrow> string + decision \<Rightarrow> gstate" where
  "return_wait s t th res =
     (set_pc s t th (Returned res))\<lparr>pending := (pending s)(t_id th := None)\<rparr>"

definition emit_required :: "gstate \<Rightarrow> nat \<Rightarrow> wait_thread \<Rightarrow> int \<Rightarrow> string option \<Rightarrow> gstate" where
  "emit_required s t th now err =
     (let s1 = s\<lparr>events := events s @ [required_event th now]\<rparr> in
      case err of
        Some e \<Rightarrow> return_wait s1 t th (Inl (emit_error (t_flow th) e))
      | None \<Rightarrow> set_pc s1 t th Selecting)"

text \<open>The branches of the \<^verbatim>\<open>select\<close> statements.\<close>

datatype select_case = ChanReady decision | TimerFired | CtxDone

definition tool_select :: "select_case \<Rightarrow> wait_pc" where
  "tool_select c =
     (case c of
        ChanReady d \<Rightarrow> Got d
      | TimerFired \<Rightarrow> Delivering (zero_decision\<lparr>reason := ''approval timeout'', timed_out := True\<rparr>)
      | CtxDone \<Rightarrow> Delivering (zero_decision\<lparr>reason := ''request canceled'', ctx_canceled := True\<rparr>))"

definition oauth_select :: "select_case \<Rightarrow> wait_pc" where
  "oauth_select c =
     (case c of
        ChanReady d \<Rightarrow> Got d
      | TimerFired \<Rightarrow> Delivering (zero_decision\<lparr>reason := ''authorization timeout'', timed_out := True\<rparr>)
      | CtxDone \<Rightarrow> Delivering (zero_decision\<lparr>reason := ''request canceled'', ctx_canceled := True\<rparr>))"

definition select_pc :: "flow \<Rightarrow> select_case \<Rightarrow> wait_pc" where
  "select_pc f c = (case f of ToolFlow \<Rightarrow> tool_select c | OAuthFlow \<Rightarrow> oauth_select c)"

text \<open>A receive that is not blocked empties the slot.\<close>

definition receive :: "gstate \<Rightarrow> waiter_ref \<Rightarrow> (decision \<times> gstate) option" where
  "receive s r =
     (case heap s r of
        None \<Rightarrow> None
      | Some w \<Rightarrow>
          (case w_ch w of
             None \<Rightarrow> None
           | Some d \<Rightarrow> Some (d, s\<lparr>heap := (heap s)(r \<mapsto> w\<lparr>w_ch := None\<rparr>)\<rparr>)))"

definition finish_wait :: "gstate \<Rightarrow> nat \<Rightarrow> wait_thread \<Rightarrow> decision \<Rightarrow> gstate" where
  "finish_wait s t th d =
     return_wait (s\<lparr>events := events s @ [resolved_event th d]\<rparr>) t th (Inr d)"

section \<open>The step relation\<close>

definition set_res :: "gstate \<Rightarrow> nat \<Rightarrow> res_thread \<Rightarrow> res_pc \<Rightarrow> gstate" where
  "set_res s u th pc = s\<lparr>ress := (ress s)(u \<mapsto> th\<lparr>r_pc := pc\<rparr>)\<rparr>"

text \<open>The steps of the waiting goroutine \<open>t\<close>.\<close>

inductive wait_step :: "nat \<Rightarrow> gstate \<Rightarrow> gstate \<Rightarrow> bool" where
  wait_emit: "waits s t = Some th \<Longrightarrow> t_pc th = Emitting \<Longrightarrow> wait_step t s (emit_required s t th now err)"
| wait_chan: "waits s t = Some th \<Longrightarrow> t_pc th = Selecting \<Longrightarrow> receive s (t_ref th) = Some (d, s') \<Longrightarrow>
     wait_step t s (set_pc s' t th (select_pc (t_flow th) (ChanReady d)))"
| wait_expire: "waits s t = Some th \<Longrightarrow> t_pc th = Selecting \<Longrightarrow> c = TimerFired \<or> c = CtxDone \<Longrightarrow>
     wait_step t s (set_pc s t th (select_pc (t_flow th) c))"
| wait_deliver: "waits s t = Some th \<Longrightarrow> t_pc th = Delivering d \<Longrightarrow>
     deliver_at s (t_ref th) d FromClock = (ok, s') \<Longrightarrow> wait_step t s (set_pc s' t th Receiving)"
| wait_receive: "waits s t = Some th \<Longrightarrow> t_pc th = Receiving \<Longrightarrow> receive s (t_ref th) = Some (d, s') \<Longrightarrow>
     wait_step t s (set_pc s' t th (Got d))"
| wait_finish: "waits s t = Some th \<Longrightarrow> t_pc th = Got d \<Longrightarrow> wait_step t s (finish_wait s t th d)"

text \<open>The steps of the resolver \<open>u\<close> (\<^verbatim>\<open>deliverLocal\<close>).\<close>

inductive res_step :: "nat \<Rightarrow> gstate \<Rightarrow> gstate \<Rightarrow> bool" where
  res_refused: "ress s u = Some th \<Longrightarrow> r_pc th = Called \<Longrightarrow>
     check_waiter s (r_tenant th) (r_user th) (r_id th) = Inl e \<Longrightarrow>
     res_step u s (set_res s u th (Resolved None (Inl e)))"
| res_checked: "ress s u = Some th \<Longrightarrow> r_pc th = Called \<Longrightarrow>
     check_waiter s (r_tenant th) (r_user th) (r_id th) = Inr r \<Longrightarrow>
     res_step u s (set_res s u th (Checked r))"
| res_already: "ress s u = Some th \<Longrightarrow> r_pc th = Checked r \<Longrightarrow> is_resolved s r \<Longrightarrow>
     res_step u s (set_res s u th (Resolved (Some r) (Inl ErrAlreadyResolved)))"
| res_loaded: "ress s u = Some th \<Longrightarrow> r_pc th = Checked r \<Longrightarrow> \<not> is_resolved s r \<Longrightarrow>
     res_step u s (set_res s u th (Loaded r))"
| res_deliver: "ress s u = Some th \<Longrightarrow> r_pc th = Loaded r \<Longrightarrow>
     deliver_at s r (r_decision th) (FromUser u (r_tenant th) (r_user th)) = (ok, s') \<Longrightarrow>
     res_step u s (set_res s' u th (Resolved (Some r) (if ok then Inr () else Inl ErrAlreadyResolved)))"

text \<open>
  The gate: a goroutine asks for a decision (its waiter is a fresh object, its id a fresh UUID), a
  resolver is called, or one of them moves.
\<close>

inductive gate_step :: "gate \<Rightarrow> gstate \<Rightarrow> gstate \<Rightarrow> bool" for g where
  gate_request: "entry (Some g) rq = None \<Longrightarrow> waits s t = None \<Longrightarrow> heap s r = None \<Longrightarrow> pending s pid = None \<Longrightarrow>
     gate_step g s (register_wait g s t r pid rq)"
| gate_resolve: "ress s u = None \<Longrightarrow>
     gate_step g s (s\<lparr>ress := (ress s)(u \<mapsto> \<lparr>r_tenant = tid, r_user = user, r_id = pid,
                                          r_decision = d, r_pc = Called\<rparr>)\<rparr>)"
| gate_wait: "wait_step t s s' \<Longrightarrow> gate_step g s s'"
| gate_res: "res_step u s s' \<Longrightarrow> gate_step g s s'"

inductive gate_reach :: "gate \<Rightarrow> gstate \<Rightarrow> bool" for g where
  reach_init: "gate_reach g init_gstate"
| reach_step: "gate_reach g s \<Longrightarrow> gate_step g s s' \<Longrightarrow> gate_reach g s'"

inductive_cases wait_stepE: "wait_step t s s'"
inductive_cases res_stepE: "res_step u s s'"
inductive_cases gate_stepE: "gate_step g s s'"

section \<open>The invariant\<close>

text \<open>
  A waiter's \<^verbatim>\<open>sync.Once\<close> has fired exactly when a decision was put into its channel, and that
  happened at most once; until its goroutine receives it, the decision stays in the slot. The
  pending map holds exactly the waits that have not returned.
\<close>

definition taken :: "gstate \<Rightarrow> waiter_ref \<Rightarrow> decision \<Rightarrow> bool" where
  "taken s r d \<longleftrightarrow> (\<exists>src. (r, d, src) \<in> set (delivered s))"

definition slot_kept :: "waiter \<Rightarrow> bool" where
  "slot_kept w \<longleftrightarrow> (w_once w \<longrightarrow> w_ch w \<noteq> None)"

definition authorised :: "waiter \<Rightarrow> tenant_id \<Rightarrow> string \<Rightarrow> bool" where
  "authorised w tid user \<longleftrightarrow> w_tenant w = tid \<and> (w_user w = [] \<or> w_user w = user)"

definition waiter_ok :: "gstate \<Rightarrow> waiter_ref \<Rightarrow> waiter \<Rightarrow> bool" where
  "waiter_ok s r w \<longleftrightarrow>
     (w_once w \<longleftrightarrow> (\<exists>d. taken s r d)) \<and> (w_resolved w \<longleftrightarrow> w_once w) \<and>
     (\<forall>d. w_ch w = Some d \<longrightarrow> taken s r d)"

definition waiters_ok :: "gstate \<Rightarrow> bool" where
  "waiters_ok s \<longleftrightarrow> (\<forall>r w. heap s r = Some w \<longrightarrow> waiter_ok s r w)"

definition log_ok :: "gstate \<Rightarrow> bool" where
  "log_ok s \<longleftrightarrow> distinct (map fst (delivered s)) \<and>
     (\<forall>r d src. (r, d, src) \<in> set (delivered s) \<longrightarrow>
        (\<exists>w. heap s r = Some w \<and>
           (case src of FromClock \<Rightarrow> \<not> approved d | FromUser u tid user \<Rightarrow> authorised w tid user)))"

definition wait_ok :: "gstate \<Rightarrow> wait_thread \<Rightarrow> bool" where
  "wait_ok s th \<longleftrightarrow>
     (\<exists>w. heap s (t_ref th) = Some w \<and>
        (case t_pc th of
           Emitting \<Rightarrow> slot_kept w
         | Selecting \<Rightarrow> slot_kept w
         | Delivering d \<Rightarrow> slot_kept w \<and> \<not> approved d
         | Receiving \<Rightarrow> w_ch w \<noteq> None
         | Got d \<Rightarrow> taken s (t_ref th) d
         | Returned (Inl e) \<Rightarrow> True
         | Returned (Inr d) \<Rightarrow> taken s (t_ref th) d \<and> resolved_event th d \<in> set (events s)))"

definition waits_ok :: "gstate \<Rightarrow> bool" where
  "waits_ok s \<longleftrightarrow> (\<forall>t th. waits s t = Some th \<longrightarrow> wait_ok s th)"

definition refs_ok :: "gstate \<Rightarrow> bool" where
  "refs_ok s \<longleftrightarrow> inj_on (\<lambda>t. map_option t_ref (waits s t)) (dom (waits s))"

lemma refs_okD: "refs_ok s \<Longrightarrow> waits s t = Some th \<Longrightarrow> waits s t' = Some th' \<Longrightarrow> t_ref th = t_ref th' \<Longrightarrow> t = t'"
  by (auto simp: refs_ok_def dom_def inj_on_def)

lemma refs_okI:
  "(\<And>t th t' th'. waits s t = Some th \<Longrightarrow> waits s t' = Some th' \<Longrightarrow> t_ref th = t_ref th' \<Longrightarrow> t = t') \<Longrightarrow> refs_ok s"
  by (auto simp: refs_ok_def dom_def inj_on_def)

fun returned :: "wait_pc \<Rightarrow> bool" where
  "returned (Returned _) = True"
| "returned _ = False"

definition waiting :: "gstate \<Rightarrow> string \<Rightarrow> waiter_ref \<Rightarrow> nat \<Rightarrow> bool" where
  "waiting s pid r t \<longleftrightarrow>
     (\<exists>th. waits s t = Some th \<and> t_id th = pid \<and> t_ref th = r \<and> \<not> returned (t_pc th))"

definition pending_ok :: "gstate \<Rightarrow> bool" where
  "pending_ok s \<longleftrightarrow> (\<forall>pid r. pending s pid = Some r \<longleftrightarrow> (\<exists>t. waiting s pid r t))"

definition serves :: "gstate \<Rightarrow> res_thread \<Rightarrow> waiter_ref \<Rightarrow> bool" where
  "serves s th r \<longleftrightarrow>
     (\<exists>w. heap s r = Some w \<and> authorised w (r_tenant th) (r_user th)) \<and>
     (\<exists>t wt. waits s t = Some wt \<and> t_ref wt = r \<and> t_id wt = r_id th)"

definition res_ok :: "gstate \<Rightarrow> nat \<Rightarrow> res_thread \<Rightarrow> bool" where
  "res_ok s u th \<longleftrightarrow>
     (case r_pc th of
        Called \<Rightarrow> True
      | Checked r \<Rightarrow> serves s th r
      | Loaded r \<Rightarrow> serves s th r
      | Resolved None res \<Rightarrow> res \<noteq> Inr ()
      | Resolved (Some r) res \<Rightarrow> serves s th r \<and>
          (res = Inr () \<longrightarrow> (r, r_decision th, FromUser u (r_tenant th) (r_user th)) \<in> set (delivered s)) \<and>
          (res \<noteq> Inr () \<longrightarrow> res = Inl ErrAlreadyResolved \<and> (\<exists>d. taken s r d)))"

definition ress_ok :: "gstate \<Rightarrow> bool" where
  "ress_ok s \<longleftrightarrow> (\<forall>u th. ress s u = Some th \<longrightarrow> res_ok s u th)"

definition gate_inv :: "gstate \<Rightarrow> bool" where
  "gate_inv s \<longleftrightarrow> waiters_ok s \<and> log_ok s \<and> waits_ok s \<and> refs_ok s \<and> pending_ok s \<and> ress_ok s"

lemmas gate_inv_defs = waiters_ok_def log_ok_def waits_ok_def refs_ok_def pending_ok_def ress_ok_def

lemma gate_inv_init: "gate_inv init_gstate"
  by (simp add: gate_inv_def gate_inv_defs waiting_def init_gstate_def)

text \<open>What an action may do to the shared state as the other threads see it.\<close>

definition grows :: "gstate \<Rightarrow> gstate \<Rightarrow> bool" where
  "grows s s' \<longleftrightarrow>
     (\<forall>r w. heap s r = Some w \<longrightarrow> (\<exists>w'. heap s' r = Some w' \<and> w_tenant w' = w_tenant w \<and> w_user w' = w_user w)) \<and>
     set (delivered s) \<subseteq> set (delivered s') \<and> set (events s) \<subseteq> set (events s') \<and>
     (\<forall>t th. waits s t = Some th \<longrightarrow>
        (\<exists>th'. waits s' t = Some th' \<and> t_ref th' = t_ref th \<and> t_id th' = t_id th \<and> t_flow th' = t_flow th))"

lemma grows_taken: "grows s s' \<Longrightarrow> taken s r d \<Longrightarrow> taken s' r d"
  by (auto simp: grows_def taken_def)

lemma grows_serves: "grows s s' \<Longrightarrow> serves s th r \<Longrightarrow> serves s' th r"
  unfolding grows_def serves_def authorised_def by metis

lemma grows_res_ok: "grows s s' \<Longrightarrow> res_ok s u th \<Longrightarrow> res_ok s' u th"
proof -
  assume g: "grows s s'" and r: "res_ok s u th"
  then have "set (delivered s) \<subseteq> set (delivered s')" by (simp add: grows_def)
  with r show ?thesis
    using grows_serves [OF g] grows_taken [OF g]
    by (auto simp: res_ok_def split: res_pc.splits option.splits) blast+
qed

definition slot_grows :: "waiter \<Rightarrow> waiter \<Rightarrow> bool" where
  "slot_grows w w' \<longleftrightarrow> (slot_kept w \<longrightarrow> slot_kept w') \<and> (w_ch w \<noteq> None \<longrightarrow> w_ch w' \<noteq> None)"

lemma grows_wait_ok:
  assumes "grows s s'" "wait_ok s th"
    and "\<And>w. heap s (t_ref th) = Some w \<Longrightarrow> \<exists>w'. heap s' (t_ref th) = Some w' \<and> slot_grows w w'"
  shows "wait_ok s' th"
proof -
  from assms(2) obtain w where w: "heap s (t_ref th) = Some w" by (auto simp: wait_ok_def)
  from assms(3) [OF w] obtain w' where w': "heap s' (t_ref th) = Some w'" "slot_grows w w'" by blast
  from assms(1) have "set (events s) \<subseteq> set (events s')" by (simp add: grows_def)
  with assms(2) w w' grows_taken [OF assms(1)] show ?thesis
    by (auto simp: wait_ok_def slot_grows_def split: wait_pc.splits sum.splits)
qed

lemma deliver_cases:
  assumes "deliver_at s r d src = (ok, s')" "heap s r = Some w"
  obtains "w_once w" "\<not> ok" "s' = s\<lparr>heap := (heap s)(r \<mapsto> w)\<rparr>"
  | "\<not> w_once w" "w_ch w = None" ok
    "s' = s\<lparr>heap := (heap s)(r \<mapsto> w\<lparr>w_once := True, w_ch := Some d, w_resolved := True\<rparr>),
           delivered := delivered s @ [(r, d, src)]\<rparr>"
  | d' where "\<not> w_once w" "w_ch w = Some d'" "\<not> ok" "s' = s\<lparr>heap := (heap s)(r \<mapsto> w\<lparr>w_once := True\<rparr>)\<rparr>"
  using assms by (auto simp: deliver_at_def deliver_def split: if_splits option.splits)

lemma receive_cases:
  "receive s r = Some (d, s') \<longleftrightarrow>
     (\<exists>w. heap s r = Some w \<and> w_ch w = Some d \<and> s' = s\<lparr>heap := (heap s)(r \<mapsto> w\<lparr>w_ch := None\<rparr>)\<rparr>)"
  by (auto simp: receive_def split: option.splits)


lemma waiters_okD: "waiters_ok s \<Longrightarrow> heap s r = Some w \<Longrightarrow> waiter_ok s r w"
  by (simp add: waiters_ok_def)

lemma waiters_ok_update:
  assumes "waiters_ok s" "waiter_ok s' r w" "heap s' = (heap s)(r \<mapsto> w)"
    and "\<And>q d. q \<noteq> r \<Longrightarrow> taken s' q d = taken s q d"
  shows "waiters_ok s'"
  unfolding waiters_ok_def
proof (intro allI impI)
  fix q v assume "heap s' q = Some v"
  then show "waiter_ok s' q v"
    using assms waiters_okD [OF assms(1), of q v] by (cases "q = r") (simp_all add: waiter_ok_def)
qed

lemma taken_eq: "delivered s' = delivered s \<Longrightarrow> taken s' = taken s"
  by (simp add: taken_def fun_eq_iff)

lemma store_ok_cong:
  assumes "heap s' = heap s" "delivered s' = delivered s"
  shows "waiters_ok s' = waiters_ok s" "log_ok s' = log_ok s"
  unfolding waiters_ok_def waiter_ok_def log_ok_def taken_eq [OF assms(2)] assms by (rule refl)+

lemma deliver_effect:
  assumes ok: "waiters_ok s" "log_ok s" and w: "heap s r = Some w"
    and auth: "case src of FromClock \<Rightarrow> \<not> approved d | FromUser u tid user \<Rightarrow> authorised w tid user"
    and dl: "deliver_at s r d src = (b, s')"
  shows "waiters_ok s'" "log_ok s'" "grows s s'"
    "\<And>q v. heap s q = Some v \<Longrightarrow> \<exists>v'. heap s' q = Some v' \<and> slot_grows v v'"
    "\<And>q. q \<noteq> r \<Longrightarrow> heap s' q = heap s q"
    "waits s' = waits s" "ress s' = ress s" "pending s' = pending s"
    "b \<Longrightarrow> (r, d, src) \<in> set (delivered s')" "\<exists>d'. taken s' r d'"
    "\<exists>v. heap s' r = Some v \<and> (slot_kept w \<longrightarrow> w_ch v \<noteq> None)"
proof -
  note wok = waiters_okD [OF ok(1) w]
  have full: "w_ch w = None" if "\<not> w_once w"
    using wok that by (cases "w_ch w") (auto simp: waiter_ok_def)
  have cs: "(w_once w \<and> \<not> b \<and> s' = s\<lparr>heap := (heap s)(r \<mapsto> w)\<rparr>) \<or>
      (\<not> w_once w \<and> w_ch w = None \<and> b \<and>
       s' = s\<lparr>heap := (heap s)(r \<mapsto> w\<lparr>w_once := True, w_ch := Some d, w_resolved := True\<rparr>),
             delivered := delivered s @ [(r, d, src)]\<rparr>)"
    using dl w full by (elim deliver_cases) auto
  then consider (once) "w_once w" "\<not> b" "s' = s\<lparr>heap := (heap s)(r \<mapsto> w)\<rparr>"
    | (new) "\<not> w_once w" "w_ch w = None" b
      "s' = s\<lparr>heap := (heap s)(r \<mapsto> w\<lparr>w_once := True, w_ch := Some d, w_resolved := True\<rparr>),
             delivered := delivered s @ [(r, d, src)]\<rparr>"
    by (elim disjE conjE) assumption+
  note cases = this
  from cases show "waiters_ok s'"
  proof cases
    case once
    then have "taken s' = taken s" by (intro taken_eq) simp
    with once wok show ?thesis
      by (intro waiters_ok_update [OF ok(1), of _ r w]) (simp_all add: waiter_ok_def)
  next
    case new
    then show ?thesis
      by (intro waiters_ok_update [OF ok(1), of _ r "w\<lparr>w_once := True, w_ch := Some d, w_resolved := True\<rparr>"])
        (auto simp: waiter_ok_def taken_def)
  qed
  from cases show "log_ok s'"
  proof cases
    case once
    have "heap s' = heap s" "delivered s' = delivered s" using once w by auto
    with ok(2) show ?thesis by (simp add: log_ok_def)
  next
    case new
    from new(1) wok have "r \<notin> fst ` set (delivered s)" by (force simp: waiter_ok_def taken_def)
    with new(4) ok(2) w auth show ?thesis
      by (fastforce simp: log_ok_def authorised_def split: source.splits)
  qed
  from cases show "grows s s'" by cases (use w in \<open>simp_all add: grows_def subset_insertI\<close>)
  from cases show "\<exists>v'. heap s' q = Some v' \<and> slot_grows v v'" if "heap s q = Some v" for q v
    by cases (use w that in \<open>auto simp: slot_grows_def slot_kept_def\<close>)
  from cases show "heap s' q = heap s q" if "q \<noteq> r" for q by cases (use that in simp_all)
  from cases show "waits s' = waits s" by cases simp_all
  from cases show "ress s' = ress s" by cases simp_all
  from cases show "pending s' = pending s" by cases simp_all
  from cases show "(r, d, src) \<in> set (delivered s')" if b by cases (use that in simp_all)
  from cases show "\<exists>d'. taken s' r d'"
  proof cases
    case once
    then have "taken s' = taken s" by (intro taken_eq) simp
    with once wok show ?thesis by (simp add: waiter_ok_def)
  next
    case new
    then show ?thesis by (auto simp: taken_def)
  qed
  from cases show "\<exists>v. heap s' r = Some v \<and> (slot_kept w \<longrightarrow> w_ch v \<noteq> None)"
    by cases (use w in \<open>simp_all add: slot_kept_def\<close>)
qed

lemma receive_effect:
  assumes ok: "waiters_ok s" "log_ok s" and rc: "receive s r = Some (d, s')"
  shows "waiters_ok s'" "log_ok s'" "grows s s'" "taken s' r d"
    "\<And>q. q \<noteq> r \<Longrightarrow> heap s' q = heap s q"
    "waits s' = waits s" "ress s' = ress s" "pending s' = pending s" "\<exists>v. heap s' r = Some v"
proof -
  from rc obtain w where w: "heap s r = Some w" "w_ch w = Some d"
    and s': "s' = s\<lparr>heap := (heap s)(r \<mapsto> w\<lparr>w_ch := None\<rparr>)\<rparr>"
    using receive_cases [of s r d s'] by blast
  have tk: "taken s' = taken s" by (intro taken_eq) (simp add: s')
  have hp: "heap s' = (heap s)(r \<mapsto> w\<lparr>w_ch := None\<rparr>)" by (simp add: s')
  note wok = waiters_okD [OF ok(1) w(1)]
  from wok w show "waiters_ok s'"
    by (intro waiters_ok_update [OF ok(1), of _ r "w\<lparr>w_ch := None\<rparr>"]) (auto simp: waiter_ok_def tk hp)
  from ok(2) w(1) show "log_ok s'"
    by (fastforce simp: log_ok_def s' authorised_def split: source.splits)
  from w(1) show "grows s s'" by (simp add: grows_def s')
  from wok w show "taken s' r d" by (simp add: waiter_ok_def tk)
  show "\<And>q. q \<noteq> r \<Longrightarrow> heap s' q = heap s q" "waits s' = waits s" "ress s' = ress s"
    "pending s' = pending s" "\<exists>v. heap s' r = Some v"
    by (simp_all add: s')
qed

text \<open>A waiting goroutine that moves keeps the invariant if it keeps its own part of it.\<close>

lemma wait_moves:
  assumes inv: "gate_inv s" and th: "waits s t = Some th" and nr: "\<not> returned (t_pc th)"
    and g: "grows s s1" "waiters_ok s1" "log_ok s1"
    and eq: "waits s1 = waits s" "ress s1 = ress s" "pending s1 = pending s"
    and others: "\<And>q v. q \<noteq> t_ref th \<Longrightarrow> heap s1 q = heap s q"
    and s': "s' = (set_pc s1 t th pc)\<lparr>pending := p\<rparr>"
    and p: "p = (if returned pc then (pending s)(t_id th := None) else pending s)"
    and own: "wait_ok s' (th\<lparr>t_pc := pc\<rparr>)"
  shows "gate_inv s'"
proof -
  have flds: "heap s' = heap s1" "delivered s' = delivered s1" "events s' = events s1"
    "waits s' = (waits s)(t \<mapsto> th\<lparr>t_pc := pc\<rparr>)" "ress s' = ress s" "pending s' = p"
    by (simp_all add: s' set_pc_def eq)
  have gr: "grows s s'"
    using g(1) th by (simp add: grows_def flds eq)
  from g(2,3) have W: "waiters_ok s'" "log_ok s'"
    using store_ok_cong [OF flds(1,2)] by blast+
  have "(\<lambda>t'. map_option t_ref (waits s' t')) = (\<lambda>t'. map_option t_ref (waits s t'))"
    "dom (waits s') = dom (waits s)"
    using th by (auto simp: flds fun_eq_iff)
  then have R: "refs_ok s'" using inv unfolding gate_inv_def refs_ok_def by simp
  have X: "ress_ok s'" using inv grows_res_ok [OF gr] by (auto simp: gate_inv_def ress_ok_def flds)
  have "wait_ok s' th'" if "waits s t' = Some th'" "t' \<noteq> t" for t' th'
  proof (rule grows_wait_ok [OF gr])
    show "wait_ok s th'" using inv that by (auto simp: gate_inv_def waits_ok_def)
    have "t_ref th' \<noteq> t_ref th" using refs_okD [OF _ that(1) th] inv that(2) by (auto simp: gate_inv_def)
    then show "\<exists>w'. heap s' (t_ref th') = Some w' \<and> slot_grows w w'" if "heap s (t_ref th') = Some w" for w
      using others that by (auto simp: flds slot_grows_def)
  qed
  then have T: "waits_ok s'" using own by (auto simp: waits_ok_def flds)
  have pok: "pending s q = Some r \<longleftrightarrow> (\<exists>t. waiting s q r t)" for q r
    using inv by (simp add: gate_inv_def pending_ok_def)
  have own: "waiting s (t_id th) (t_ref th) t" using th nr by (simp add: waiting_def)
  have uniq: "t' = t" if w: "waiting s (t_id th) r t'" for r t'
  proof -
    from w own have "pending s (t_id th) = Some r" "pending s (t_id th) = Some (t_ref th)"
      using pok by blast+
    then have "r = t_ref th" by simp
    with w th refs_okD [of s t' _ t th] inv show ?thesis by (auto simp: waiting_def gate_inv_def)
  qed
  have wt: "waiting s' q r t' \<longleftrightarrow> waiting s q r t' \<and> (returned pc \<longrightarrow> q \<noteq> t_id th)" for q r t'
  proof (cases "t' = t")
    case True
    then show ?thesis using th nr by (auto simp: waiting_def flds)
  next
    case False
    then have "waiting s' q r t' \<longleftrightarrow> waiting s q r t'" by (simp add: waiting_def flds)
    with False uniq show ?thesis by blast
  qed
  have P: "pending_ok s'"
    unfolding pending_ok_def wt flds p using pok by auto
  from W R X T P show ?thesis by (simp add: gate_inv_def)
qed


lemma grows_refl: "grows s s"
  by (simp add: grows_def)

lemma waits_okD: "gate_inv s \<Longrightarrow> waits s t = Some th \<Longrightarrow> wait_ok s th"
  by (simp add: gate_inv_def waits_ok_def)

lemma gate_invD: "gate_inv s \<Longrightarrow> waiters_ok s" "gate_inv s \<Longrightarrow> log_ok s"
  by (simp_all add: gate_inv_def)

lemma taken_flds [simp]:
  "taken (set_pc s t th pc) = taken s" "taken (s\<lparr>pending := p\<rparr>) = taken s"
  "taken (s\<lparr>events := ev\<rparr>) = taken s" "taken (s\<lparr>waits := wm\<rparr>) = taken s"
  "taken (set_res s u rt rpc) = taken s" "taken (s\<lparr>ress := rm\<rparr>) = taken s"
  by (simp_all add: taken_def fun_eq_iff set_pc_def set_res_def)

lemma set_pc_flds [simp]:
  "heap (set_pc s t th pc) = heap s" "events (set_pc s t th pc) = events s"
  "delivered (set_pc s t th pc) = delivered s" "pending (set_pc s t th pc) = pending s"
  by (simp_all add: set_pc_def)

lemma resolved_event_pc [simp]: "resolved_event (th\<lparr>t_pc := pc\<rparr>) d = resolved_event th d"
  by (cases "t_flow th") (simp_all add: resolved_event_def tool_resolved_event_def oauth_resolved_event_def)

lemma events_grow:
  assumes "gate_inv s"
  shows "grows s (s\<lparr>events := events s @ es\<rparr>)" "waiters_ok (s\<lparr>events := events s @ es\<rparr>)"
    "log_ok (s\<lparr>events := events s @ es\<rparr>)"
proof -
  show "grows s (s\<lparr>events := events s @ es\<rparr>)" by (simp add: grows_def)
  from gate_invD [OF assms] show "waiters_ok (s\<lparr>events := events s @ es\<rparr>)" "log_ok (s\<lparr>events := events s @ es\<rparr>)"
    using store_ok_cong [of "s\<lparr>events := events s @ es\<rparr>" s] by simp_all
qed

lemma select_pc_ok:
  "c = TimerFired \<or> c = CtxDone \<Longrightarrow> \<exists>d. select_pc f c = Delivering d \<and> \<not> approved d"
  "select_pc f (ChanReady d) = Got d"
  by (auto simp: select_pc_def tool_select_def oauth_select_def zero_decision_def split: flow.split)

lemma wait_step_inv: "wait_step t s s' \<Longrightarrow> gate_inv s \<Longrightarrow> gate_inv s'"
proof (induction t s s' rule: wait_step.induct)
  case (wait_emit s t th now err)
  note ok = waits_okD [OF wait_emit.prems wait_emit.hyps(1)]
  show ?case
  proof (cases err)
    case None
    show ?thesis
    proof (rule wait_moves [OF wait_emit.prems wait_emit.hyps(1) _ events_grow [OF wait_emit.prems, of "[required_event th now]"],
          where pc = Selecting and p = "pending s"])
      show "wait_ok (emit_required s t th now err) (th\<lparr>t_pc := Selecting\<rparr>)"
        using ok wait_emit.hyps(2) by (simp add: emit_required_def None wait_ok_def)
    qed (use wait_emit.hyps in \<open>simp_all add: emit_required_def None\<close>)
  next
    case (Some e)
    show ?thesis
    proof (rule wait_moves [OF wait_emit.prems wait_emit.hyps(1) _ events_grow [OF wait_emit.prems, of "[required_event th now]"],
          where pc = "Returned (Inl (emit_error (t_flow th) e))" and p = "(pending s)(t_id th := None)"])
      show "wait_ok (emit_required s t th now err) (th\<lparr>t_pc := Returned (Inl (emit_error (t_flow th) e))\<rparr>)"
        using ok by (auto simp: emit_required_def Some wait_ok_def return_wait_def)
    qed (use wait_emit.hyps in \<open>simp_all add: emit_required_def Some return_wait_def\<close>)
  qed
next
  case (wait_chan s t th d s1)
  note ok = waits_okD [OF wait_chan.prems wait_chan.hyps(1)]
    and eff = receive_effect [OF gate_invD [OF wait_chan.prems] wait_chan.hyps(3)]
  show ?case
    by (rule wait_moves [OF wait_chan.prems wait_chan.hyps(1) _ eff(3,1,2,6,7,8,5), where pc = "Got d" and p = "pending s"])
      (use wait_chan.hyps(2) eff(4,8,9) in \<open>auto simp: select_pc_ok wait_ok_def\<close>)
next
  case (wait_expire s t th c)
  note ok = waits_okD [OF wait_expire.prems wait_expire.hyps(1)]
  from select_pc_ok(1) [OF wait_expire.hyps(3)] obtain d
    where d: "select_pc (t_flow th) c = Delivering d" "\<not> approved d" by blast
  show ?case
    by (rule wait_moves [OF wait_expire.prems wait_expire.hyps(1) _ grows_refl gate_invD [OF wait_expire.prems],
          where pc = "Delivering d" and p = "pending s"])
      (use wait_expire.hyps(2) ok d in \<open>auto simp: wait_ok_def\<close>)
next
  case (wait_deliver s t th d ok' s1)
  from waits_okD [OF wait_deliver.prems wait_deliver.hyps(1)] wait_deliver.hyps(2)
  obtain w where w: "heap s (t_ref th) = Some w" "slot_kept w" "\<not> approved d" by (auto simp: wait_ok_def)
  note eff = deliver_effect [OF gate_invD [OF wait_deliver.prems] w(1) _ wait_deliver.hyps(3)]
  from w(3) have src: "case FromClock of FromClock \<Rightarrow> \<not> approved d | FromUser u tid user \<Rightarrow> authorised w tid user" by simp
  show ?case
    by (rule wait_moves [OF wait_deliver.prems wait_deliver.hyps(1) _ eff(3,1,2) [OF src] eff(6,7,8,5) [OF src],
          where pc = Receiving and p = "pending s"])
      (use wait_deliver.hyps(2) eff(8,11) [OF src] w(2) in \<open>auto simp: wait_ok_def\<close>)
next
  case (wait_receive s t th d s1)
  note eff = receive_effect [OF gate_invD [OF wait_receive.prems] wait_receive.hyps(3)]
  show ?case
    by (rule wait_moves [OF wait_receive.prems wait_receive.hyps(1) _ eff(3,1,2,6,7,8,5), where pc = "Got d" and p = "pending s"])
      (use wait_receive.hyps(2) eff(4,8,9) in \<open>auto simp: wait_ok_def\<close>)
next
  case (wait_finish s t th d)
  note ok = waits_okD [OF wait_finish.prems wait_finish.hyps(1)]
  show ?case
  proof (rule wait_moves [OF wait_finish.prems wait_finish.hyps(1) _ events_grow [OF wait_finish.prems, of "[resolved_event th d]"],
        where pc = "Returned (Inr d)" and p = "(pending s)(t_id th := None)"])
    show "wait_ok (finish_wait s t th d) (th\<lparr>t_pc := Returned (Inr d)\<rparr>)"
      using ok wait_finish.hyps(2) by (auto simp: finish_wait_def wait_ok_def return_wait_def)
  qed (use wait_finish.hyps in \<open>simp_all add: finish_wait_def return_wait_def\<close>)
qed


text \<open>A resolver that moves only grows what the others see.\<close>

lemma res_moves:
  assumes inv: "gate_inv s" and th: "ress s u = Some th"
    and g: "grows s s1" "waiters_ok s1" "log_ok s1"
    and eq: "waits s1 = waits s" "ress s1 = ress s" "pending s1 = pending s"
    and slots: "\<And>q v. heap s q = Some v \<Longrightarrow> \<exists>v'. heap s1 q = Some v' \<and> slot_grows v v'"
    and own: "res_ok s1 u (th\<lparr>r_pc := pc\<rparr>)"
  shows "gate_inv (set_res s1 u th pc)"
proof -
  let ?s' = "set_res s1 u th pc"
  have flds: "heap ?s' = heap s1" "delivered ?s' = delivered s1" "events ?s' = events s1"
    "waits ?s' = waits s" "ress ?s' = (ress s)(u \<mapsto> th\<lparr>r_pc := pc\<rparr>)" "pending ?s' = pending s"
    by (simp_all add: set_res_def eq)
  have gr: "grows s ?s'" "grows s1 ?s'"
    using g(1) by (simp_all add: grows_def flds eq)
  have wt: "waiting ?s' = waiting s" by (simp add: waiting_def fun_eq_iff flds)
  have "waits_ok ?s'"
    unfolding waits_ok_def flds
  proof (intro allI impI)
    fix t wth assume t: "waits s t = Some wth"
    show "wait_ok ?s' wth"
      by (rule grows_wait_ok [OF gr(1) waits_okD [OF inv t]]) (simp add: flds slots)
  qed
  moreover have "ress_ok ?s'"
    unfolding ress_ok_def flds
  proof (intro allI impI)
    fix v rth assume v: "((ress s)(u \<mapsto> th\<lparr>r_pc := pc\<rparr>)) v = Some rth"
    show "res_ok ?s' v rth"
    proof (cases "v = u")
      case True
      with v own grows_res_ok [OF gr(2)] show ?thesis by simp
    next
      case False
      with v inv have "res_ok s v rth" by (simp add: gate_inv_def ress_ok_def)
      then show ?thesis by (rule grows_res_ok [OF gr(1)])
    qed
  qed
  moreover have "refs_ok ?s'" "pending_ok ?s'"
    using inv by (simp_all add: gate_inv_def refs_ok_def pending_ok_def flds wt)
  moreover from g(2,3) have "waiters_ok ?s'" "log_ok ?s'"
    using store_ok_cong [OF flds(1,2)] by blast+
  ultimately show ?thesis by (simp add: gate_inv_def)
qed

lemma slot_grows_refl: "heap s q = Some v \<Longrightarrow> \<exists>v'. heap s q = Some v' \<and> slot_grows v v'"
  by (simp add: slot_grows_def)

lemma serves_pc [simp]: "serves s (th\<lparr>r_pc := pc\<rparr>) r = serves s th r"
  by (simp add: serves_def)

lemma check_waiter_serves:
  assumes inv: "gate_inv s" and ck: "check_waiter s (r_tenant th) (r_user th) (r_id th) = Inr r"
  shows "serves s th r"
proof -
  from ck obtain w where w: "pending s (r_id th) = Some r" "heap s r = Some w"
    "authorised w (r_tenant th) (r_user th)"
    by (auto simp: check_waiter_def authorised_def split: option.splits if_splits)
  moreover from inv w(1) obtain t where "waiting s (r_id th) r t"
    by (auto simp: gate_inv_def pending_ok_def)
  ultimately show ?thesis by (auto simp: serves_def waiting_def)
qed

lemma res_okD: "gate_inv s \<Longrightarrow> ress s u = Some th \<Longrightarrow> res_ok s u th"
  by (simp add: gate_inv_def ress_ok_def)

lemma res_step_inv: "res_step u s s' \<Longrightarrow> gate_inv s \<Longrightarrow> gate_inv s'"
proof (induction u s s' rule: res_step.induct)
  case (res_refused s u th e)
  show ?case
    by (rule res_moves [OF res_refused.prems res_refused.hyps(1) grows_refl gate_invD [OF res_refused.prems] refl refl refl slot_grows_refl])
      (simp_all add: res_ok_def)
next
  case (res_checked s u th r)
  show ?case
    by (rule res_moves [OF res_checked.prems res_checked.hyps(1) grows_refl gate_invD [OF res_checked.prems] refl refl refl slot_grows_refl])
      (simp_all add: res_ok_def check_waiter_serves [OF res_checked.prems res_checked.hyps(3)])
next
  case (res_already s u th r)
  from res_okD [OF res_already.prems res_already.hyps(1)] res_already.hyps(2)
  have sv: "serves s th r" by (simp add: res_ok_def)
  then obtain w where w: "heap s r = Some w" by (auto simp: serves_def)
  with res_already.hyps(3) have "w_resolved w" by (simp add: is_resolved_def)
  with waiters_okD [OF gate_invD(1) [OF res_already.prems] w] have "\<exists>d. taken s r d"
    unfolding waiter_ok_def by blast
  with sv show ?case
    by (intro res_moves [OF res_already.prems res_already.hyps(1) grows_refl gate_invD [OF res_already.prems] refl refl refl slot_grows_refl])
      (simp_all add: res_ok_def)
next
  case (res_loaded s u th r)
  from res_okD [OF res_loaded.prems res_loaded.hyps(1)] res_loaded.hyps(2)
  show ?case
    by (intro res_moves [OF res_loaded.prems res_loaded.hyps(1) grows_refl gate_invD [OF res_loaded.prems] refl refl refl slot_grows_refl])
      (simp_all add: res_ok_def)
next
  case (res_deliver s u th r ok s1)
  from res_okD [OF res_deliver.prems res_deliver.hyps(1)] res_deliver.hyps(2)
  have sv: "serves s th r" by (simp add: res_ok_def)
  then obtain w where w: "heap s r = Some w" and au: "authorised w (r_tenant th) (r_user th)"
    by (auto simp: serves_def)
  have src: "case FromUser u (r_tenant th) (r_user th) of FromClock \<Rightarrow> \<not> approved (r_decision th)
      | FromUser u tid user \<Rightarrow> authorised w tid user"
    using au by simp
  note eff = deliver_effect [OF gate_invD [OF res_deliver.prems] w src res_deliver.hyps(3)]
  from grows_serves [OF eff(3) sv] eff(9,10) show ?case
    by (intro res_moves [OF res_deliver.prems res_deliver.hyps(1) eff(3,1,2,6,7,8,4)])
      (auto simp: res_ok_def)
qed

lemma register_inv:
  assumes inv: "gate_inv s" and fresh: "waits s t = None" "heap s r = None" "pending s pid = None"
  shows "gate_inv (register_wait g s t r pid rq)"
proof -
  let ?s' = "register_wait g s t r pid rq"
  let ?w = "\<lparr>w_ch = None, w_tenant = rq_tenant rq, w_user = rq_user rq, w_once = False, w_resolved = False\<rparr>"
  let ?th = "\<lparr>t_flow = rq_flow rq, t_id = pid, t_ref = r, t_timeout = wait_timeout g rq, t_req = rq, t_pc = Emitting\<rparr>"
  have flds: "heap ?s' = (heap s)(r \<mapsto> ?w)" "delivered ?s' = delivered s" "events ?s' = events s"
    "waits ?s' = (waits s)(t \<mapsto> ?th)" "ress ?s' = ress s" "pending ?s' = (pending s)(pid \<mapsto> r)"
    by (simp_all add: register_wait_def)
  have tk: "taken ?s' = taken s" by (intro taken_eq) (simp add: flds)
  have gr: "grows s ?s'" using fresh by (auto simp: grows_def flds)
  have unseen: "\<not> taken s r d" for d
    using gate_invD(2) [OF inv] fresh(2) unfolding log_ok_def taken_def by (metis option.distinct(1))
  have "waiters_ok ?s'"
    by (rule waiters_ok_update [OF gate_invD(1) [OF inv] _ flds(1)]) (simp_all add: waiter_ok_def tk unseen)
  moreover have "log_ok ?s'"
    unfolding log_ok_def flds
  proof (intro conjI allI impI)
    show "distinct (map fst (delivered s))" using gate_invD(2) [OF inv] by (simp add: log_ok_def)
    fix q d src assume "(q, d, src) \<in> set (delivered s)"
    with gate_invD(2) [OF inv] obtain w where "heap s q = Some w"
      "case src of FromClock \<Rightarrow> \<not> approved d | FromUser u tid user \<Rightarrow> authorised w tid user"
      unfolding log_ok_def by blast
    with fresh(2) show "\<exists>w. ((heap s)(r \<mapsto> ?w)) q = Some w \<and>
        (case src of FromClock \<Rightarrow> \<not> approved d | FromUser u tid user \<Rightarrow> authorised w tid user)"
      by (cases "q = r") auto
  qed
  moreover have "waits_ok ?s'"
    unfolding waits_ok_def flds
  proof (intro allI impI)
    fix t' th' assume t': "((waits s)(t \<mapsto> ?th)) t' = Some th'"
    show "wait_ok ?s' th'"
    proof (cases "t' = t")
      case True
      with t' show ?thesis by (auto simp: wait_ok_def flds slot_kept_def)
    next
      case False
      with t' have th': "waits s t' = Some th'" by simp
      show ?thesis
        by (rule grows_wait_ok [OF gr waits_okD [OF inv th']]) (use fresh in \<open>auto simp: flds slot_grows_def\<close>)
    qed
  qed
  moreover have "refs_ok ?s'"
  proof (rule refs_okI)
    have new: "t_ref th' \<noteq> r" if "waits s t' = Some th'" for t' th'
      using waits_okD [OF inv that] fresh(2) by (auto simp: wait_ok_def)
    have old: "refs_ok s" using inv by (simp add: gate_inv_def)
    have ref: "t_ref th' = r \<longleftrightarrow> t' = t" if "waits ?s' t' = Some th'" for t' th'
      using that new [of t' th'] by (cases "t' = t") (auto simp: flds)
    fix t1 th1 t2 th2
    assume t12: "waits ?s' t1 = Some th1" "waits ?s' t2 = Some th2" "t_ref th1 = t_ref th2"
    show "t1 = t2"
    proof (cases "t1 = t")
      case True
      with ref t12 show ?thesis by metis
    next
      case False
      with ref [OF t12(1)] ref [OF t12(2)] t12(3) have "t2 \<noteq> t" by simp
      with False t12 show ?thesis using refs_okD [OF old, of t1 th1 t2 th2] by (simp add: flds)
    qed
  qed
  moreover have "pending_ok ?s'"
  proof -
    have "waiting ?s' q r' t' \<longleftrightarrow> waiting s q r' t' \<or> (t' = t \<and> q = pid \<and> r' = r)" for q r' t'
      using fresh(1) by (auto simp: waiting_def flds)
    moreover have old: "pending s q = Some r' \<longleftrightarrow> (\<exists>t. waiting s q r' t)" for q r'
      using inv by (simp add: gate_inv_def pending_ok_def)
    moreover have "\<not> waiting s pid r' t'" for r' t'
      using old fresh(3) by (metis option.distinct(1))
    ultimately show ?thesis
      unfolding pending_ok_def flds using fresh(3) by auto
  qed
  moreover have "ress_ok ?s'"
    unfolding ress_ok_def flds using grows_res_ok [OF gr] res_okD [OF inv] by blast
  ultimately show ?thesis by (simp add: gate_inv_def)
qed

lemma gate_step_inv: "gate_step g s s' \<Longrightarrow> gate_inv s \<Longrightarrow> gate_inv s'"
proof (induction rule: gate_step.induct)
  case (gate_request rq s t r pid)
  then show ?case by (intro register_inv)
next
  case (gate_resolve s u tid user pid d)
  let ?th = "\<lparr>r_tenant = tid, r_user = user, r_id = pid, r_decision = d, r_pc = Called\<rparr>"
  let ?s' = "s\<lparr>ress := (ress s)(u \<mapsto> ?th)\<rparr>"
  have gr: "grows s ?s'" by (simp add: grows_def)
  have "waits_ok ?s'"
    unfolding waits_ok_def
    using grows_wait_ok [OF gr waits_okD [OF gate_resolve.prems]] by (simp add: slot_grows_def)
  moreover have "ress_ok ?s'"
    using grows_res_ok [OF gr] res_okD [OF gate_resolve.prems]
    by (auto simp: ress_ok_def res_ok_def)
  moreover have "waiters_ok ?s'" "log_ok ?s'"
    using store_ok_cong [of ?s' s] gate_invD [OF gate_resolve.prems] by simp_all
  moreover have "waiting ?s' = waiting s" by (simp add: waiting_def fun_eq_iff)
  ultimately show ?case
    using gate_resolve.prems by (simp add: gate_inv_def refs_ok_def pending_ok_def)
qed (auto intro: wait_step_inv res_step_inv)

lemma gate_reach_inv: "gate_reach g s \<Longrightarrow> gate_inv s"
  by (induction rule: gate_reach.induct) (auto intro: gate_inv_init gate_step_inv)


text \<open>
  A waiter carries the tenant and the user of the request it was registered for, from its
  registration on: no later step writes them.
\<close>

definition of_request :: "waiter \<Rightarrow> wait_request \<Rightarrow> bool" where
  "of_request w rq \<longleftrightarrow> w_tenant w = rq_tenant rq \<and> w_user w = rq_user rq"

definition requests_ok :: "gstate \<Rightarrow> bool" where
  "requests_ok s \<longleftrightarrow>
     (\<forall>t th. waits s t = Some th \<longrightarrow> (\<exists>w. heap s (t_ref th) = Some w \<and> of_request w (t_req th)))"

lemma requests_ok_kept:
  assumes "requests_ok s"
    and "\<And>r w. heap s r = Some w \<Longrightarrow> \<exists>w'. heap s' r = Some w' \<and> w_tenant w' = w_tenant w \<and> w_user w' = w_user w"
    and "\<And>t th'. waits s' t = Some th' \<Longrightarrow> \<exists>th. waits s t = Some th \<and> t_ref th' = t_ref th \<and> t_req th' = t_req th"
  shows "requests_ok s'"
  unfolding requests_ok_def of_request_def
proof (intro allI impI)
  fix t th' assume "waits s' t = Some th'"
  from assms(3) [OF this] obtain th where th: "waits s t = Some th" "t_ref th' = t_ref th" "t_req th' = t_req th"
    by blast
  with assms(1) obtain w where "heap s (t_ref th) = Some w" "of_request w (t_req th)"
    unfolding requests_ok_def by blast
  with assms(2) [of "t_ref th" w] th
  show "\<exists>w. heap s' (t_ref th') = Some w \<and> w_tenant w = rq_tenant (t_req th') \<and> w_user w = rq_user (t_req th')"
    by (auto simp: of_request_def)
qed

lemma deliver_at_keeps:
  assumes "deliver_at s r d src = (ok, s')"
  shows "waits s' = waits s"
    "heap s q = Some w \<Longrightarrow> \<exists>w'. heap s' q = Some w' \<and> w_tenant w' = w_tenant w \<and> w_user w' = w_user w"
  using assms by (auto simp: deliver_at_def deliver_def split: option.splits if_splits)

lemma receive_keeps:
  assumes "receive s r = Some (d, s')"
  shows "waits s' = waits s"
    "heap s q = Some w \<Longrightarrow> \<exists>w'. heap s' q = Some w' \<and> w_tenant w' = w_tenant w \<and> w_user w' = w_user w"
  using assms by (auto simp: receive_cases)

lemma wait_step_requests: "wait_step t s s' \<Longrightarrow> requests_ok s \<Longrightarrow> requests_ok s'"
proof (induction t s s' rule: wait_step.induct)
  case (wait_emit s t th now err)
  then show ?case
    by (elim requests_ok_kept)
      (auto simp: emit_required_def Let_def return_wait_def set_pc_def split: option.splits if_splits)
next
  case (wait_chan s t th d s1)
  with receive_keeps [OF wait_chan.hyps(3)] show ?case
    by (intro requests_ok_kept [OF wait_chan.prems]) (auto simp: set_pc_def split: if_splits)
next
  case (wait_expire s t th c)
  then show ?case by (elim requests_ok_kept) (auto simp: set_pc_def split: if_splits)
next
  case (wait_deliver s t th d ok' s1)
  with deliver_at_keeps [OF wait_deliver.hyps(3)] show ?case
    by (intro requests_ok_kept [OF wait_deliver.prems]) (auto simp: set_pc_def split: if_splits)
next
  case (wait_receive s t th d s1)
  with receive_keeps [OF wait_receive.hyps(3)] show ?case
    by (intro requests_ok_kept [OF wait_receive.prems]) (auto simp: set_pc_def split: if_splits)
next
  case (wait_finish s t th d)
  then show ?case
    by (elim requests_ok_kept) (auto simp: finish_wait_def return_wait_def set_pc_def split: if_splits)
qed

lemma res_step_requests: "res_step u s s' \<Longrightarrow> requests_ok s \<Longrightarrow> requests_ok s'"
proof (induction u s s' rule: res_step.induct)
  case (res_deliver s u th r ok s1)
  with deliver_at_keeps [OF res_deliver.hyps(3)] show ?case
    by (intro requests_ok_kept [OF res_deliver.prems]) (auto simp: set_res_def)
qed (auto elim!: requests_ok_kept simp: set_res_def)

lemma register_requests:
  assumes "requests_ok s" "heap s r = None"
  shows "requests_ok (register_wait g s t r pid rq)"
  unfolding requests_ok_def
proof (intro allI impI)
  fix t' th assume th: "waits (register_wait g s t r pid rq) t' = Some th"
  show "\<exists>w. heap (register_wait g s t r pid rq) (t_ref th) = Some w \<and> of_request w (t_req th)"
  proof (cases "t' = t")
    case True
    with th show ?thesis by (auto simp: register_wait_def of_request_def)
  next
    case False
    with th have "waits s t' = Some th" by (simp add: register_wait_def)
    with assms obtain w where "heap s (t_ref th) = Some w" "of_request w (t_req th)"
      unfolding requests_ok_def by blast
    moreover from this assms(2) have "t_ref th \<noteq> r" by auto
    ultimately show ?thesis by (simp add: register_wait_def)
  qed
qed

lemma gate_step_requests: "gate_step g s s' \<Longrightarrow> requests_ok s \<Longrightarrow> requests_ok s'"
proof (induction rule: gate_step.induct)
  case (gate_resolve s u tid user pid d)
  then show ?case by (simp add: requests_ok_def)
qed (auto intro: register_requests wait_step_requests res_step_requests)

lemma gate_reach_requests: "gate_reach g s \<Longrightarrow> requests_ok s"
proof (induction rule: gate_reach.induct)
  case reach_init
  then show ?case by (simp add: requests_ok_def init_gstate_def)
qed (auto intro: gate_step_requests)


section \<open>What a reachable state guarantees\<close>

lemma returned_decision:
  assumes "gate_reach g s" "waits s t = Some th" "t_pc th = Returned (Inr d)"
  shows "taken s (t_ref th) d"
  using waits_okD [OF gate_reach_inv [OF assms(1)] assms(2)] assms(3) by (auto simp: wait_ok_def)

lemma taken_unique:
  assumes "gate_reach g s" "(r, d, src) \<in> set (delivered s)" "(r, d', src') \<in> set (delivered s)"
  shows "d = d' \<and> src = src'"
proof -
  from gate_invD(2) [OF gate_reach_inv [OF assms(1)]] have "distinct (map fst (delivered s))"
    by (simp add: log_ok_def)
  with assms(2,3) show ?thesis by (metis Pair_inject eq_key_imp_eq_value)
qed

lemma resolver_success:
  assumes "gate_reach g s" "ress s u = Some th" "r_pc th = Resolved (Some r) (Inr ())"
  shows "(r, r_decision th, FromUser u (r_tenant th) (r_user th)) \<in> set (delivered s) \<and> serves s th r"
  using res_okD [OF gate_reach_inv [OF assms(1)] assms(2)] assms(3) by (simp add: res_ok_def)

lemma user_delivery:
  assumes "gate_reach g s" "(r, d, src) \<in> set (delivered s)" "approved d"
  obtains u tid user w where "src = FromUser u tid user" "heap s r = Some w" "authorised w tid user"
proof -
  from gate_invD(2) [OF gate_reach_inv [OF assms(1)]] assms(2) obtain w where w: "heap s r = Some w"
    "case src of FromClock \<Rightarrow> \<not> approved d | FromUser u tid user \<Rightarrow> authorised w tid user"
    unfolding log_ok_def by blast
  with assms(3) show thesis by (cases src) (auto intro: that)
qed

fun wait_rank :: "wait_pc \<Rightarrow> nat" where
  "wait_rank Emitting = 5"
| "wait_rank Selecting = 4"
| "wait_rank (Delivering _) = 3"
| "wait_rank Receiving = 2"
| "wait_rank (Got _) = 1"
| "wait_rank (Returned _) = 0"

definition thread_rank :: "gstate \<Rightarrow> nat \<Rightarrow> nat" where
  "thread_rank s t = (case waits s t of None \<Rightarrow> 0 | Some th \<Rightarrow> wait_rank (t_pc th))"

lemma set_pc_rank [simp]: "thread_rank (set_pc s t th pc) t = wait_rank pc"
  by (simp add: thread_rank_def set_pc_def)

lemma return_rank [simp]: "thread_rank (return_wait s t th res) t = 0"
  by (simp add: thread_rank_def return_wait_def set_pc_def)

lemma wait_step_rank: "wait_step t s s' \<Longrightarrow> thread_rank s' t < thread_rank s t"
proof (induction t s s' rule: wait_step.induct)
  case (wait_emit s t th now err)
  then show ?case
    by (cases err) (simp_all add: emit_required_def thread_rank_def return_wait_def set_pc_def)
next
  case (wait_chan s t th d s')
  then show ?case by (simp add: select_pc_ok) (simp add: thread_rank_def)
next
  case (wait_expire s t th c)
  from select_pc_ok(1) [OF wait_expire(3)] obtain d where "select_pc (t_flow th) c = Delivering d" by blast
  with wait_expire show ?case by simp (simp add: thread_rank_def)
next
  case (wait_deliver s t th d ok s')
  then show ?case by simp (simp add: thread_rank_def)
next
  case (wait_receive s t th d s')
  then show ?case by simp (simp add: thread_rank_def)
next
  case (wait_finish s t th d)
  then show ?case by (simp add: finish_wait_def) (simp add: thread_rank_def)
qed

lemma wait_step_enabled:
  assumes inv: "gate_inv s" and th: "waits s t = Some th" and nr: "\<not> returned (t_pc th)"
  shows "\<exists>s'. wait_step t s s'"
proof (cases "t_pc th")
  case Emitting
  then show ?thesis using wait_emit [OF th] by blast
next
  case Selecting
  then show ?thesis using wait_expire [OF th] by blast
next
  case (Delivering d)
  then show ?thesis using wait_deliver [OF th] by (metis surj_pair)
next
  case Receiving
  with waits_okD [OF inv th] obtain w d where "heap s (t_ref th) = Some w" "w_ch w = Some d"
    by (auto simp: wait_ok_def)
  then have "\<exists>s'. receive s (t_ref th) = Some (d, s')" by (simp add: receive_def)
  then show ?thesis using wait_receive [OF th Receiving] by blast
next
  case (Got d)
  then show ?thesis using wait_finish [OF th] by blast
next
  case (Returned res)
  with nr show ?thesis by simp
qed

lemma wait_step_thread: "wait_step t s s' \<Longrightarrow> \<exists>th. waits s' t = Some th"
proof (induction t s s' rule: wait_step.induct)
  case (wait_emit s t th now err)
  then show ?case by (cases err) (simp_all add: emit_required_def return_wait_def set_pc_def)
qed (simp_all add: set_pc_def finish_wait_def return_wait_def)

lemma rank_zero: "wait_rank pc = 0 \<longleftrightarrow> returned pc"
  by (cases pc) simp_all

text \<open>Left alone, a wait returns after as many of its own steps as its rank says at most.\<close>

lemma wait_returns:
  "gate_inv s \<Longrightarrow> waits s t = Some th \<Longrightarrow>
     \<exists>n s' th'. n \<le> wait_rank (t_pc th) \<and> (wait_step t ^^ n) s s' \<and> waits s' t = Some th' \<and> returned (t_pc th')"
proof (induction "wait_rank (t_pc th)" arbitrary: s th rule: less_induct)
  case less
  show ?case
  proof (cases "returned (t_pc th)")
    case True
    have "(wait_step t ^^ 0) s s" by simp
    with True less.prems show ?thesis by blast
  next
    case False
    from wait_step_enabled [OF less.prems False] obtain s1 where s1: "wait_step t s s1" by blast
    from wait_step_thread [OF s1] obtain th1 where th1: "waits s1 t = Some th1" by blast
    from wait_step_rank [OF s1] have lt: "wait_rank (t_pc th1) < wait_rank (t_pc th)"
      using th1 less.prems(2) by (simp add: thread_rank_def)
    from less.hyps [OF lt wait_step_inv [OF s1 less.prems(1)] th1] obtain n s' th' where
      n: "n \<le> wait_rank (t_pc th1)" "(wait_step t ^^ n) s1 s'" "waits s' t = Some th'" "returned (t_pc th')"
      by blast
    from relpowp_Suc_I2 [OF s1 n(2)] have "(wait_step t ^^ Suc n) s s'" .
    moreover from n(1) lt have "Suc n \<le> wait_rank (t_pc th)" by simp
    ultimately show ?thesis using n(3,4) by blast
  qed
qed


section \<open>Resolving, on this replica or another\<close>

text \<open>The messages replicas exchange over redis: the request and its acknowledgement.\<close>

record resolve_message =
  m_tenant :: tenant_id
  m_user :: string
  m_pending :: string
  m_decision :: decision
  m_reply :: string
  m_origin :: string
  m_nonce :: string

record resolve_ack =
  a_pending :: string
  a_status :: string
  a_origin :: string
  a_nonce :: string

definition pubsub_base :: string where
  "pubsub_base = ''weknora:mcp_approval:resolve''"

definition pubsub_channel :: "string \<Rightarrow> string" where
  "pubsub_channel env =
     (let ns = trim_space env in if ns \<noteq> [] then pubsub_base @ '':'' @ ns else pubsub_base)"

definition reply_channel :: "string \<Rightarrow> string \<Rightarrow> string" where
  "reply_channel env pid = pubsub_channel env @ '':reply:'' @ pid"

definition ack_status :: "gate_error + unit \<Rightarrow> string option" where
  "ack_status res =
     (case res of
        Inr _ \<Rightarrow> Some ''ok''
      | Inl ErrTenantMismatch \<Rightarrow> Some ''tenant_mismatch''
      | Inl ErrUserMismatch \<Rightarrow> Some ''user_mismatch''
      | Inl ErrAlreadyResolved \<Rightarrow> Some ''already_resolved''
      | Inl _ \<Rightarrow> None)"

text \<open>The body of the subscriber's loop, for a payload that parses: the acknowledgement published, if any.\<close>

definition handle_message ::
    "string \<Rightarrow> nat \<Rightarrow> gstate \<Rightarrow> resolve_message \<Rightarrow> resolve_ack option \<times> gstate" where
  "handle_message me u s m =
     (if m_origin m = me then (None, s)
      else (case deliver_local u s (m_tenant m) (m_user m) (m_pending m) (m_decision m) of
              (res, s') \<Rightarrow>
                (if m_reply m = [] then None
                 else map_option (\<lambda>st. \<lparr>a_pending = m_pending m, a_status = st, a_origin = me,
                                        a_nonce = m_nonce m\<rparr>) (ack_status res), s')))"

text \<open>
  Waiting for the acknowledgement: the messages received before the three-second deadline, in
  order, \<open>None\<close> for one that does not parse; the end of the list is the deadline.
\<close>

definition ack_result :: "string \<Rightarrow> gate_error + unit" where
  "ack_result st =
     (if st = ''ok'' then Inr ()
      else if st = ''tenant_mismatch'' then Inl ErrTenantMismatch
      else if st = ''user_mismatch'' then Inl ErrUserMismatch
      else if st = ''already_resolved'' then Inl ErrAlreadyResolved
      else if st = ''not_found'' then Inl ErrPendingNotFound
      else Inl (GateErr (''approval reply: unexpected status '' @ st)))"

fun await_ack :: "string \<Rightarrow> resolve_ack option list \<Rightarrow> gate_error + unit" where
  "await_ack nonce [] = Inl ErrPendingNotFound"
| "await_ack nonce (None # ms) = await_ack nonce ms"
| "await_ack nonce (Some ack # ms) =
     (if a_nonce ack \<noteq> [] \<and> a_nonce ack \<noteq> nonce then await_ack nonce ms
      else ack_result (a_status ack))"

text \<open>What redis and the JSON encoder answer during one call, and the acknowledgements that arrive.\<close>

record cross_env =
  sub_err :: "string option"
  enc_err :: "string option"
  pub_err :: "string option"
  acks :: "resolve_ack option list"

definition cross_message ::
    "string \<Rightarrow> string \<Rightarrow> string \<Rightarrow> tenant_id \<Rightarrow> string \<Rightarrow> string \<Rightarrow> decision \<Rightarrow> resolve_message" where
  "cross_message me env nonce tid user pid d =
     \<lparr>m_tenant = tid, m_user = user, m_pending = pid, m_decision = d,
      m_reply = reply_channel env pid, m_origin = me, m_nonce = nonce\<rparr>"

definition resolve_cross_instance :: "string \<Rightarrow> cross_env \<Rightarrow> gate_error + unit" where
  "resolve_cross_instance nonce ce =
     (case sub_err ce of
        Some e \<Rightarrow> Inl (GateErr (''subscribe approval reply: '' @ e))
      | None \<Rightarrow>
          (case enc_err ce of
             Some e \<Rightarrow> Inl (GateErr (''encode pubsub payload: '' @ e))
           | None \<Rightarrow>
               (case pub_err ce of
                  Some e \<Rightarrow> Inl (GateErr (''publish approval resolve: '' @ e))
                | None \<Rightarrow> await_ack nonce (acks ce))))"

definition resolve ::
    "gate option \<Rightarrow> nat \<Rightarrow> gstate \<Rightarrow> tenant_id \<Rightarrow> string \<Rightarrow> string \<Rightarrow> decision \<Rightarrow> string \<Rightarrow> cross_env
       \<Rightarrow> (gate_error + unit) \<times> gstate" where
  "resolve g u s tid user pid d nonce ce =
     (case g of
        None \<Rightarrow> (Inl (GateErr ''gate is nil''), s)
      | Some g \<Rightarrow>
          (case deliver_local u s tid user pid d of
             (Inl ErrPendingNotFound, s') \<Rightarrow>
               (if gate_rdb g then resolve_cross_instance nonce ce else Inl ErrPendingNotFound, s')
           | (res, s') \<Rightarrow> (res, s')))"

lemma deliver_local_result:
  "fst (deliver_local u s tid user pid d) \<in>
     {Inr (), Inl ErrPendingNotFound, Inl ErrTenantMismatch, Inl ErrUserMismatch, Inl ErrAlreadyResolved}"
proof (cases "check_waiter s tid user pid")
  case (Inl e)
  then have "e \<in> {ErrPendingNotFound, ErrTenantMismatch, ErrUserMismatch}"
    by (auto simp: check_waiter_def split: option.splits if_splits)
  with Inl show ?thesis by (auto simp: deliver_local_def)
next
  case (Inr r)
  obtain b s' where da: "deliver_at s r d (FromUser u tid user) = (b, s')" by force
  show ?thesis by (cases "is_resolved s r"; cases b) (simp_all add: deliver_local_def Inr da)
qed

lemma ack_result_table:
  "ack_result ''ok'' = Inr ()" "ack_result ''tenant_mismatch'' = Inl ErrTenantMismatch"
  "ack_result ''user_mismatch'' = Inl ErrUserMismatch" "ack_result ''already_resolved'' = Inl ErrAlreadyResolved"
  by (simp_all add: ack_result_def)

lemma ack_status_result:
  assumes "res \<in> {Inr (), Inl ErrPendingNotFound, Inl ErrTenantMismatch, Inl ErrUserMismatch, Inl ErrAlreadyResolved}"
  shows "ack_status res = Some st \<Longrightarrow> ack_result st = res"
    and "ack_status res = None \<Longrightarrow> res = Inl ErrPendingNotFound"
proof -
  consider "res = Inr ()" | "res = Inl ErrPendingNotFound" | "res = Inl ErrTenantMismatch"
    | "res = Inl ErrUserMismatch" | "res = Inl ErrAlreadyResolved"
    using assms by (elim insertE emptyE)
  then show "ack_status res = Some st \<Longrightarrow> ack_result st = res"
    and "ack_status res = None \<Longrightarrow> res = Inl ErrPendingNotFound"
    by (cases; simp only: ack_status_def sum.case gate_error.case option.inject option.distinct ack_result_table;
        metis ack_result_table)+
qed

definition foreign_ack :: "string \<Rightarrow> resolve_ack option \<Rightarrow> bool" where
  "foreign_ack nonce m \<longleftrightarrow> (case m of None \<Rightarrow> True | Some ack \<Rightarrow> a_nonce ack \<noteq> [] \<and> a_nonce ack \<noteq> nonce)"

lemma await_skips: "list_all (foreign_ack nonce) ms \<Longrightarrow> await_ack nonce (ms @ ms') = await_ack nonce ms'"
  by (induction nonce ms rule: await_ack.induct) (auto simp: foreign_ack_def)

section \<open>A sample run\<close>

definition sample_yes :: decision where
  "sample_yes = zero_decision\<lparr>approved := True\<rparr>"

definition sample_gate :: gate where
  "sample_gate = new_gate None (Some \<lparr>is_required = \<lambda>_ _ _. Inr True, is_enabled = \<lambda>_ _ _. Inr True\<rparr>) False []"

definition sample_request :: wait_request where
  "sample_request = \<lparr>rq_flow = ToolFlow, rq_tenant = 1, rq_user = ''u'', rq_session = ''s'', rq_message = ''m'',
     rq_request = ''r'', rq_bus = True, rq_service = ''svc'', rq_service_name = ''Svc'', rq_tool = ''drop'',
     rq_registered = ''mcp_svc_drop'', rq_description = [], rq_args = [], rq_call = ''c'', rq_timeout = 0\<rparr>"

definition sample_waiter :: "decision option \<Rightarrow> bool \<Rightarrow> waiter" where
  "sample_waiter ch once = \<lparr>w_ch = ch, w_tenant = 1, w_user = ''u'', w_once = once, w_resolved = once\<rparr>"

definition sample_thread :: "wait_pc \<Rightarrow> wait_thread" where
  "sample_thread pc = \<lparr>t_flow = ToolFlow, t_id = ''p'', t_ref = 0, t_timeout = gate_timeout sample_gate, t_req = sample_request, t_pc = pc\<rparr>"

definition sample_res :: "res_pc \<Rightarrow> res_thread" where
  "sample_res pc = \<lparr>r_tenant = 1, r_user = ''u'', r_id = ''p'', r_decision = sample_yes, r_pc = pc\<rparr>"

definition sample_state ::
    "waiter \<Rightarrow> wait_pc \<Rightarrow> (nat \<rightharpoonup> res_thread) \<Rightarrow> ui_event list \<Rightarrow> (waiter_ref \<times> decision \<times> source) list \<Rightarrow> gstate" where
  "sample_state w pc rs evs dl =
     \<lparr>pending = (if returned pc then Map.empty else [''p'' \<mapsto> 0]), heap = [0 \<mapsto> w],
      waits = [0 \<mapsto> sample_thread pc], ress = rs, events = evs, delivered = dl\<rparr>"

definition sample_log :: "(waiter_ref \<times> decision \<times> source) list" where
  "sample_log = [(0, sample_yes, FromUser 0 1 ''u'')]"

abbreviation sample_asked :: "ui_event list" where
  "sample_asked \<equiv> [required_event (sample_thread Emitting) 0]"

definition sample_end :: gstate where
  "sample_end = sample_state (sample_waiter None True) (Returned (Inr sample_yes))
     [0 \<mapsto> sample_res (Resolved (Some 0) (Inr ()))]
     (sample_asked @ [resolved_event (sample_thread Emitting) sample_yes]) sample_log"

lemma sample_thread_pc [simp]: "t_pc (sample_thread pc) = pc" "(sample_thread pc)\<lparr>t_pc := pc'\<rparr> = sample_thread pc'"
  "t_ref (sample_thread pc) = 0" "t_id (sample_thread pc) = ''p''" "t_flow (sample_thread pc) = ToolFlow"
  by (simp_all add: sample_thread_def)

lemma sample_res_pc [simp]: "r_pc (sample_res pc) = pc" "(sample_res pc)\<lparr>r_pc := pc'\<rparr> = sample_res pc'"
  "r_tenant (sample_res pc) = 1" "r_user (sample_res pc) = ''u''" "r_id (sample_res pc) = ''p''"
  "r_decision (sample_res pc) = sample_yes"
  by (simp_all add: sample_res_def)

lemma sample_state_flds [simp]:
  "waits (sample_state w pc rs evs dl) = [0 \<mapsto> sample_thread pc]" "heap (sample_state w pc rs evs dl) = [0 \<mapsto> w]"
  "ress (sample_state w pc rs evs dl) = rs" "events (sample_state w pc rs evs dl) = evs"
  "delivered (sample_state w pc rs evs dl) = dl"
  by (simp_all add: sample_state_def)

lemma sample_register:
  "register_wait sample_gate init_gstate 0 0 ''p'' sample_request =
     sample_state (sample_waiter None False) Emitting Map.empty [] []"
  by (simp add: register_wait_def init_gstate_def sample_request_def sample_state_def sample_waiter_def
      sample_thread_def wait_timeout_def)

lemma sample_asking: "gate_reach sample_gate (sample_state (sample_waiter None False) Selecting Map.empty sample_asked [])"
proof -
  let ?s1 = "sample_state (sample_waiter None False) Emitting Map.empty [] []"
  have "entry (Some sample_gate) sample_request = None"
    by (simp add: entry_def tool_entry_def sample_request_def sample_gate_def new_gate_def)
  then have "gate_step sample_gate init_gstate (register_wait sample_gate init_gstate 0 0 ''p'' sample_request)"
    by (rule gate_request) (simp_all add: init_gstate_def)
  then have r1: "gate_reach sample_gate ?s1"
    by (simp add: sample_register reach_step [OF reach_init])
  have "wait_step 0 ?s1 (emit_required ?s1 0 (sample_thread Emitting) 0 None)"
    by (rule wait_emit) simp_all
  moreover have "emit_required ?s1 0 (sample_thread Emitting) 0 None =
      sample_state (sample_waiter None False) Selecting Map.empty sample_asked []"
    by (simp add: emit_required_def set_pc_def sample_state_def)
  ultimately show ?thesis using reach_step [OF r1 gate_wait] by simp
qed

lemma sample_resolving:
  "gate_reach sample_gate (sample_state (sample_waiter None False) Selecting [0 \<mapsto> sample_res (Loaded 0)] sample_asked [])"
proof -
  let ?s = "\<lambda>pc. sample_state (sample_waiter None False) Selecting [0 \<mapsto> sample_res pc] sample_asked []"
  have st: "set_res (?s pc) 0 (sample_res pc) pc' = ?s pc'" for pc pc'
    by (simp add: set_res_def sample_state_def)
  have "gate_step sample_gate (sample_state (sample_waiter None False) Selecting Map.empty sample_asked []) (?s Called)"
    using gate_resolve [of "sample_state (sample_waiter None False) Selecting Map.empty sample_asked []" 0
        sample_gate 1 "''u''" "''p''" sample_yes]
    by (simp add: sample_state_def sample_res_def)
  from reach_step [OF sample_asking this] have r1: "gate_reach sample_gate (?s Called)" .
  have "check_waiter (?s Called) 1 ''u'' ''p'' = Inr 0"
    by (simp add: check_waiter_def sample_state_def sample_waiter_def)
  then have "res_step 0 (?s Called) (set_res (?s Called) 0 (sample_res Called) (Checked 0))"
    by (intro res_checked) simp_all
  from reach_step [OF r1 gate_res [OF this]] have r2: "gate_reach sample_gate (?s (Checked 0))" by (simp add: st)
  have "res_step 0 (?s (Checked 0)) (set_res (?s (Checked 0)) 0 (sample_res (Checked 0)) (Loaded 0))"
    by (rule res_loaded) (simp_all add: is_resolved_def sample_waiter_def)
  from reach_step [OF r2 gate_res [OF this]] show ?thesis by (simp add: st)
qed

lemma sample_end_reach: "gate_reach sample_gate sample_end"
proof -
  let ?s0 = "sample_state (sample_waiter None False) Selecting [0 \<mapsto> sample_res (Loaded 0)] sample_asked []"
  let ?rs = "[0 \<mapsto> sample_res (Resolved (Some 0) (Inr ()))]"
  let ?d0 = "sample_state (sample_waiter (Some sample_yes) True) Selecting [0 \<mapsto> sample_res (Loaded 0)] sample_asked sample_log"
  let ?s1 = "sample_state (sample_waiter (Some sample_yes) True) Selecting ?rs sample_asked sample_log"
  let ?s2 = "sample_state (sample_waiter None True) Selecting ?rs sample_asked sample_log"
  let ?s3 = "sample_state (sample_waiter None True) (Got sample_yes) ?rs sample_asked sample_log"
  have "deliver_at ?s0 0 (r_decision (sample_res (Loaded 0)))
      (FromUser 0 (r_tenant (sample_res (Loaded 0))) (r_user (sample_res (Loaded 0)))) = (True, ?d0)"
    by (simp add: deliver_at_def deliver_def sample_waiter_def sample_log_def sample_state_def)
  from res_deliver [where u = 0, OF _ _ this] have "res_step 0 ?s0 (set_res ?d0 0 (sample_res (Loaded 0)) (Resolved (Some 0) (Inr ())))"
    by simp
  moreover have "set_res ?d0 0 (sample_res (Loaded 0)) (Resolved (Some 0) (Inr ())) = ?s1"
    by (simp add: set_res_def sample_state_def)
  ultimately have r1: "gate_reach sample_gate ?s1" using reach_step [OF sample_resolving gate_res] by simp
  have "receive ?s1 (t_ref (sample_thread Selecting)) = Some (sample_yes, ?s2)"
    by (simp add: receive_def sample_waiter_def sample_state_def)
  from wait_chan [where t = 0, OF _ _ this]
  have "wait_step 0 ?s1 (set_pc ?s2 0 (sample_thread Selecting) (Got sample_yes))"
    by (simp add: select_pc_ok)
  moreover have "set_pc ?s2 0 (sample_thread Selecting) (Got sample_yes) = ?s3"
    by (simp add: set_pc_def sample_state_def)
  ultimately have r3: "gate_reach sample_gate ?s3" using reach_step [OF r1 gate_wait] by simp
  have "wait_step 0 ?s3 (finish_wait ?s3 0 (sample_thread (Got sample_yes)) sample_yes)"
    by (rule wait_finish) simp_all
  moreover have "finish_wait ?s3 0 (sample_thread (Got sample_yes)) sample_yes = sample_end"
    using resolved_event_pc [where th = "sample_thread Emitting" and pc = "Got sample_yes" and d = sample_yes]
    by (simp add: finish_wait_def return_wait_def set_pc_def sample_end_def sample_state_def)
  ultimately show ?thesis using reach_step [OF r3 gate_wait] by simp
qed

section \<open>Properties\<close>

text \<open>
  C12: No approval without an authorised caller. In every reachable state of the gate, under every
  interleaving of waiting goroutines, resolvers, timers and cancellations, a wait that returned
  an approved decision received it from a resolver call that presented the tenant of the wait's request
  and, when the request names a user, that user; a request that names no user may be
  resolved by any caller of its tenant. A timeout or a cancellation never approves, and the
  decision reported to the UI is the one returned.
\<close>

theorem approval_needs_authorised_user:
  assumes "gate_reach g s" "waits s t = Some th" "t_pc th = Returned (Inr d)" "approved d"
  shows "\<exists>u tid user. (t_ref th, d, FromUser u tid user) \<in> set (delivered s) \<and>
           tid = rq_tenant (t_req th) \<and> (rq_user (t_req th) = [] \<or> user = rq_user (t_req th)) \<and>
           resolved_event th d \<in> set (events s)"
proof -
  from returned_decision [OF assms(1-3)] obtain src where src: "(t_ref th, d, src) \<in> set (delivered s)"
    by (auto simp: taken_def)
  from user_delivery [OF assms(1) src assms(4)] obtain u tid user w where
    w: "src = FromUser u tid user" "heap s (t_ref th) = Some w" "authorised w tid user" .
  moreover from gate_reach_requests [OF assms(1)] assms(2) w(2) have "of_request w (t_req th)"
    unfolding requests_ok_def by fastforce
  moreover from waits_okD [OF gate_reach_inv [OF assms(1)] assms(2)] assms(3)
  have "resolved_event th d \<in> set (events s)" by (simp add: wait_ok_def)
  ultimately show ?thesis using src unfolding authorised_def of_request_def by metis
qed

theorem approval_needs_authorised_user_witness:
  "\<exists>u tid user. (0, sample_yes, FromUser u tid user) \<in> set (delivered sample_end) \<and>
     tid = 1 \<and> user = ''u'' \<and>
     resolved_event (sample_thread (Returned (Inr sample_yes))) sample_yes \<in> set (events sample_end)"
  using approval_needs_authorised_user [OF sample_end_reach, of 0 "sample_thread (Returned (Inr sample_yes))" sample_yes]
  by (simp add: sample_end_def sample_yes_def sample_thread_def sample_request_def)

text \<open>
  C13: Exactly one decision per request. In every reachable state, at most one resolver call has
  succeeded for a waiter, and if the wait returned a decision after a resolver call succeeded for
  it, it returned that resolver's decision and no other; the resolver's pending id, tenant and
  user are those of the request.
\<close>

theorem one_decision_per_request:
  assumes "gate_reach g s" "ress s u = Some th" "r_pc th = Resolved ro (Inr ())"
  shows "\<exists>r t wt w. ro = Some r \<and> waits s t = Some wt \<and> t_ref wt = r \<and> t_id wt = r_id th \<and>
           heap s r = Some w \<and> w_tenant w = r_tenant th \<and> (w_user w = [] \<or> w_user w = r_user th) \<and>
           (\<forall>u' th'. ress s u' = Some th' \<longrightarrow> r_pc th' = Resolved (Some r) (Inr ()) \<longrightarrow> u' = u) \<and>
           (\<forall>d. t_pc wt = Returned (Inr d) \<longrightarrow> d = r_decision th)"
proof -
  from res_okD [OF gate_reach_inv [OF assms(1)] assms(2)] assms(3) obtain r where r: "ro = Some r"
    by (cases ro) (auto simp: res_ok_def)
  note ok = resolver_success [OF assms(1,2) assms(3) [unfolded r]]
  then obtain t wt w where tw: "waits s t = Some wt" "t_ref wt = r" "t_id wt = r_id th"
    "heap s r = Some w" "w_tenant w = r_tenant th" "w_user w = [] \<or> w_user w = r_user th"
    by (auto simp: serves_def authorised_def)
  have "u' = u" if "ress s u' = Some th'" "r_pc th' = Resolved (Some r) (Inr ())" for u' th'
    using resolver_success [OF assms(1) that] ok taken_unique [OF assms(1)] by blast
  moreover have "d = r_decision th" if "t_pc wt = Returned (Inr d)" for d
    using returned_decision [OF assms(1) tw(1) that] ok taken_unique [OF assms(1)] tw(2)
    unfolding taken_def by blast
  ultimately show ?thesis using r tw by blast
qed

theorem one_decision_per_request_witness:
  "\<exists>r t wt w. Some 0 = Some r \<and> waits sample_end t = Some wt \<and> t_ref wt = r \<and> t_id wt = ''p'' \<and>
     heap sample_end r = Some w \<and> w_tenant w = 1 \<and> (w_user w = [] \<or> w_user w = ''u'') \<and>
     (\<forall>u' th'. ress sample_end u' = Some th' \<longrightarrow> r_pc th' = Resolved (Some r) (Inr ()) \<longrightarrow> u' = 0) \<and>
     (\<forall>d. t_pc wt = Returned (Inr d) \<longrightarrow> d = sample_yes)"
  using one_decision_per_request [OF sample_end_reach, of 0 "sample_res (Resolved (Some 0) (Inr ()))" "Some 0"]
  by (simp only: sample_res_pc) (simp add: sample_end_def)

lemma wait_returns_parts:
  assumes "gate_reach g s" "waits s t = Some th"
  shows "\<exists>n s' th'. n \<le> 5 \<and> (wait_step t ^^ n) s s' \<and> waits s' t = Some th' \<and> returned (t_pc th')"
    and "wait_step t s s1 \<Longrightarrow> thread_rank s1 t < thread_rank s t"
    and "\<not> returned (t_pc th) \<Longrightarrow> \<exists>s1. wait_step t s s1"
    and "pending s pid = Some (t_ref th) \<longleftrightarrow> t_id th = pid \<and> \<not> returned (t_pc th)"
proof -
  note inv = gate_reach_inv [OF assms(1)]
  have "wait_rank (t_pc th) \<le> 5" by (cases "t_pc th") simp_all
  with wait_returns [OF inv assms(2)]
  show "\<exists>n s' th'. n \<le> 5 \<and> (wait_step t ^^ n) s s' \<and> waits s' t = Some th' \<and> returned (t_pc th')"
    by (meson order_trans)
  show "wait_step t s s1 \<Longrightarrow> thread_rank s1 t < thread_rank s t" by (rule wait_step_rank)
  show "\<not> returned (t_pc th) \<Longrightarrow> \<exists>s1. wait_step t s s1" by (rule wait_step_enabled [OF inv assms(2)])
  from inv have "pending s pid = Some (t_ref th) \<longleftrightarrow> (\<exists>t'. waiting s pid (t_ref th) t')" and "refs_ok s"
    by (simp_all add: gate_inv_def pending_ok_def)
  then show "pending s pid = Some (t_ref th) \<longleftrightarrow> t_id th = pid \<and> \<not> returned (t_pc th)"
    using assms(2) refs_okD [of s _ _ t th] unfolding waiting_def by fastforce
qed

text \<open>
  C14: A wait always ends. From every reachable state a waiting goroutine that has not returned
  can take a step of its own, it returns after at most five of them whatever decisions, timeouts
  or cancellations they see (the receive after its own delivery never blocks, even when another
  goroutine won the race), and once it has returned its pending id is out of the map.
\<close>

theorem wait_always_returns:
  assumes "gate_reach g s" "waits s t = Some th"
  shows "(\<exists>n s' th'. n \<le> 5 \<and> (wait_step t ^^ n) s s' \<and> waits s' t = Some th' \<and> returned (t_pc th')) \<and>
    (\<forall>s1. wait_step t s s1 \<longrightarrow> thread_rank s1 t < thread_rank s t) \<and>
    (\<not> returned (t_pc th) \<longrightarrow> (\<exists>s1. wait_step t s s1)) \<and>
    (\<forall>pid. pending s pid = Some (t_ref th) \<longleftrightarrow> t_id th = pid \<and> \<not> returned (t_pc th))"
  using wait_returns_parts [OF assms] by blast

theorem wait_always_returns_witness:
  "(let s = sample_state (sample_waiter None False) Selecting Map.empty sample_asked [] in
    (\<exists>n s' th'. n \<le> 5 \<and> (wait_step 0 ^^ n) s s' \<and> waits s' 0 = Some th' \<and> returned (t_pc th')) \<and>
    (\<exists>s1. wait_step 0 s s1) \<and> pending s ''p'' = Some 0)"
  using wait_always_returns [OF sample_asking, of 0 "sample_thread Selecting"]
  by (simp add: Let_def)

lemma cross_instance_parts:
  assumes "me \<noteq> owner" "list_all (foreign_ack nonce) junk" "sub_err ce = None" "enc_err ce = None" "pub_err ce = None"
    and "acks ce = junk @ (case fst (handle_message owner u s (cross_message me env nonce tid user pid d)) of
                             None \<Rightarrow> [] | Some ack \<Rightarrow> [Some ack])"
  shows "resolve_cross_instance nonce ce = fst (deliver_local u s tid user pid d)"
    and "snd (handle_message owner u s (cross_message me env nonce tid user pid d)) =
           snd (deliver_local u s tid user pid d)"
proof -
  obtain res s' where dl: "deliver_local u s tid user pid d = (res, s')" by force
  with deliver_local_result [of u s tid user pid d] have res:
    "res \<in> {Inr (), Inl ErrPendingNotFound, Inl ErrTenantMismatch, Inl ErrUserMismatch, Inl ErrAlreadyResolved}"
    by simp
  have reply: "reply_channel env pid \<noteq> []" by (simp add: reply_channel_def)
  have hm: "handle_message owner u s (cross_message me env nonce tid user pid d) =
      (map_option (\<lambda>st. \<lparr>a_pending = pid, a_status = st, a_origin = owner, a_nonce = nonce\<rparr>) (ack_status res), s')"
    using assms(1) reply by (simp add: handle_message_def cross_message_def dl)
  have "resolve_cross_instance nonce ce = await_ack nonce (case ack_status res of None \<Rightarrow> []
      | Some st \<Rightarrow> [Some \<lparr>a_pending = pid, a_status = st, a_origin = owner, a_nonce = nonce\<rparr>])"
    using assms(3-6) await_skips [OF assms(2)] await_skips [OF assms(2), of "[]"]
    by (cases "ack_status res") (simp_all add: resolve_cross_instance_def hm)
  then show "resolve_cross_instance nonce ce = fst (deliver_local u s tid user pid d)"
    using ack_status_result [OF res] dl by (cases "ack_status res") simp_all
  show "snd (handle_message owner u s (cross_message me env nonce tid user pid d)) =
      snd (deliver_local u s tid user pid d)"
    by (simp add: hm dl)
qed

text \<open>
  Resolving through another replica reports what the owner did. When the request reaches a
  replica that does not hold the waiter and the owning replica handles its message, the caller
  gets exactly the result the owner's local delivery had, whatever unparsable messages and
  acknowledgements of concurrent calls arrive before; and a replica that does not know the
  pending id stays silent, which the caller reports as not found.
\<close>

lemma cross_instance_reports_owner:
  assumes "me \<noteq> owner" "list_all (foreign_ack nonce) junk" "sub_err ce = None" "enc_err ce = None" "pub_err ce = None"
    and "acks ce = junk @ (case fst (handle_message owner u s (cross_message me env nonce tid user pid d)) of
                             None \<Rightarrow> [] | Some ack \<Rightarrow> [Some ack])"
  shows "resolve_cross_instance nonce ce = fst (deliver_local u s tid user pid d) \<and>
    snd (handle_message owner u s (cross_message me env nonce tid user pid d)) =
      snd (deliver_local u s tid user pid d)"
  using cross_instance_parts [OF assms] by blast

end
