(* ===== verification/Stream_Manager.thy ===== *)
theory Stream_Manager
  imports Prelude
begin

text \<open>
  The in-memory stream store (\<^verbatim>\<open>src/internal/stream/memory_manager.go\<close>): per session and message
  an append-only list of events that clients poll with an offset, a second list of control
  ("steer") events for the running turn, and the marker of the run that is live in a session.

  The interface \<open>offset_log\<close> states what a polling reader relies on. Times are integers, the zero
  time is 0. The value of an event's \<^verbatim>\<open>Data\<close> entry is either a boolean or something else
  (\<open>'v\<close>), which is all the code looks at.
\<close>

section \<open>State\<close>

datatype 'v any = AnyBool bool | AnyVal 'v

record 'v stream_event =
  ev_id :: string
  ev_type :: string
  ev_content :: string
  ev_done :: bool
  ev_timestamp :: int
  ev_data :: "string \<rightharpoonup> 'v any"

record 'v stream_data =
  sd_events :: "'v stream_event list"
  sd_steer :: "'v stream_event list"
  sd_updated :: int

record live_run_marker =
  lr_message :: string
  lr_request :: string

record 'v stream_manager =
  sm_streams :: "string \<rightharpoonup> (string \<rightharpoonup> 'v stream_data)"
  sm_live :: "string \<rightharpoonup> live_run_marker"

definition new_memory_stream_manager :: "'v stream_manager" where
  "new_memory_stream_manager = \<lparr>sm_streams = Map.empty, sm_live = Map.empty\<rparr>"

definition get_stream :: "'v stream_manager \<Rightarrow> string \<Rightarrow> string \<Rightarrow> 'v stream_data option" where
  "get_stream m sid mid = (case sm_streams m sid of None \<Rightarrow> None | Some msgs \<Rightarrow> msgs mid)"

definition put_stream :: "'v stream_manager \<Rightarrow> string \<Rightarrow> string \<Rightarrow> 'v stream_data \<Rightarrow> 'v stream_manager" where
  "put_stream m sid mid d =
     m\<lparr>sm_streams := (sm_streams m)(sid \<mapsto>
         (case sm_streams m sid of None \<Rightarrow> [mid \<mapsto> d] | Some msgs \<Rightarrow> msgs(mid \<mapsto> d)))\<rparr>"

text \<open>The stream an append works on; the caller writes it back with \<open>put_stream\<close>.\<close>

definition get_or_create_stream :: "'v stream_manager \<Rightarrow> string \<Rightarrow> string \<Rightarrow> int \<Rightarrow> 'v stream_data" where
  "get_or_create_stream m sid mid now =
     (case get_stream m sid mid of
        Some d \<Rightarrow> d
      | None \<Rightarrow> \<lparr>sd_events = [], sd_steer = [], sd_updated = now\<rparr>)"

definition stamp :: "int \<Rightarrow> 'v stream_event \<Rightarrow> 'v stream_event" where
  "stamp now e = (if ev_timestamp e = 0 then e\<lparr>ev_timestamp := now\<rparr> else e)"

section \<open>Operations\<close>

definition append_event ::
    "'v stream_manager \<Rightarrow> string \<Rightarrow> string \<Rightarrow> 'v stream_event \<Rightarrow> int \<Rightarrow> 'v stream_manager" where
  "append_event m sid mid e now =
     (let d = get_or_create_stream m sid mid now in
      put_stream m sid mid (d\<lparr>sd_events := sd_events d @ [stamp now e], sd_updated := now\<rparr>))"

text \<open>
  Reading from an offset. \<open>None\<close> is the run-time panic of slicing with a negative offset; an
  absent stream and an offset past the end return the offset unchanged.
\<close>

definition read_from :: "'e list \<Rightarrow> int \<Rightarrow> ('e list \<times> int) option" where
  "read_from es off =
     (if int (length es) \<le> off then Some ([], off)
      else if off < 0 then None
      else Some (drop (nat off) es, int (length es)))"

definition get_events ::
    "'v stream_manager \<Rightarrow> string \<Rightarrow> string \<Rightarrow> int \<Rightarrow> ('v stream_event list \<times> int) option" where
  "get_events m sid mid off =
     (case get_stream m sid mid of None \<Rightarrow> Some ([], off) | Some d \<Rightarrow> read_from (sd_events d) off)"

definition get_steer_events ::
    "'v stream_manager \<Rightarrow> string \<Rightarrow> string \<Rightarrow> int \<Rightarrow> ('v stream_event list \<times> int) option" where
  "get_steer_events m sid mid off =
     (case get_stream m sid mid of None \<Rightarrow> Some ([], off) | Some d \<Rightarrow> read_from (sd_steer d) off)"

text \<open>The loop of \<^verbatim>\<open>AppendSteerEvents\<close>: skip an id already queued (an empty id is never a duplicate).\<close>

primrec steer_loop :: "int \<Rightarrow> string set \<Rightarrow> 'v stream_event list \<Rightarrow> 'v stream_event list" where
  "steer_loop now seen [] = []"
| "steer_loop now seen (e # es) =
     (if ev_id e \<noteq> [] \<and> ev_id e \<in> seen then steer_loop now seen es
      else stamp now e # steer_loop now (insert (ev_id e) seen) es)"

definition append_steer_events ::
    "'v stream_manager \<Rightarrow> string \<Rightarrow> string \<Rightarrow> 'v stream_event list \<Rightarrow> int \<Rightarrow> 'v stream_manager" where
  "append_steer_events m sid mid es now =
     (let d = get_or_create_stream m sid mid now in
      put_stream m sid mid
        (d\<lparr>sd_steer := sd_steer d @ steer_loop now (ev_id ` set (sd_steer d)) es, sd_updated := now\<rparr>))"

text \<open>\<open>first_with\<close> is the loop that looks for the first queued event of an id.\<close>

primrec first_with :: "string \<Rightarrow> 'v stream_event list \<Rightarrow> nat option" where
  "first_with eid [] = None"
| "first_with eid (e # es) = (if ev_id e = eid then Some 0 else map_option Suc (first_with eid es))"

definition update_steer_event_data ::
    "'v stream_manager \<Rightarrow> string \<Rightarrow> string \<Rightarrow> string \<Rightarrow> (string \<rightharpoonup> 'v any) \<Rightarrow> int \<Rightarrow> bool \<times> 'v stream_manager" where
  "update_steer_event_data m sid mid eid data now =
     (case get_stream m sid mid of
        None \<Rightarrow> (False, m)
      | Some d \<Rightarrow>
          (case first_with eid (sd_steer d) of
             None \<Rightarrow> (False, m)
           | Some i \<Rightarrow>
               let e = sd_steer d ! i in
               (True, put_stream m sid mid
                  (d\<lparr>sd_steer := (sd_steer d)[i := e\<lparr>ev_data := ev_data e ++ data\<rparr>], sd_updated := now\<rparr>))))"

definition consumed :: "'v stream_event \<Rightarrow> bool" where
  "consumed e = (case ev_data e ''consumed'' of Some (AnyBool b) \<Rightarrow> b | _ \<Rightarrow> False)"

definition delete_steer_event ::
    "'v stream_manager \<Rightarrow> string \<Rightarrow> string \<Rightarrow> string \<Rightarrow> int \<Rightarrow> bool \<times> 'v stream_manager" where
  "delete_steer_event m sid mid eid now =
     (case get_stream m sid mid of
        None \<Rightarrow> (False, m)
      | Some d \<Rightarrow>
          (case first_with eid (sd_steer d) of
             None \<Rightarrow> (False, m)
           | Some i \<Rightarrow>
               if consumed (sd_steer d ! i) then (False, m)
               else (True, put_stream m sid mid
                      (d\<lparr>sd_steer := take i (sd_steer d) @ drop (Suc i) (sd_steer d), sd_updated := now\<rparr>))))"

subsection \<open>The live run of a session\<close>

datatype stream_error = ErrLiveRunExists

definition claim_live_run :: "'v stream_manager \<Rightarrow> string \<Rightarrow> string \<Rightarrow> string \<Rightarrow> 'v stream_manager" where
  "claim_live_run m sid mid rid = m\<lparr>sm_live := (sm_live m)(sid \<mapsto> \<lparr>lr_message = mid, lr_request = rid\<rparr>)\<rparr>"

definition set_live_run ::
    "'v stream_manager \<Rightarrow> string \<Rightarrow> string \<Rightarrow> string \<Rightarrow> (stream_error + unit) \<times> 'v stream_manager" where
  "set_live_run m sid mid rid =
     (case sm_live m sid of
        Some l \<Rightarrow> if lr_message l \<noteq> mid then (Inl ErrLiveRunExists, m) else (Inr (), claim_live_run m sid mid rid)
      | None \<Rightarrow> (Inr (), claim_live_run m sid mid rid))"

definition get_live_run :: "'v stream_manager \<Rightarrow> string \<Rightarrow> string \<times> string" where
  "get_live_run m sid = (case sm_live m sid of None \<Rightarrow> ([], []) | Some l \<Rightarrow> (lr_message l, lr_request l))"

definition clear_live_run :: "'v stream_manager \<Rightarrow> string \<Rightarrow> string \<Rightarrow> 'v stream_manager" where
  "clear_live_run m sid mid =
     (case sm_live m sid of
        Some l \<Rightarrow> if lr_message l = mid then m\<lparr>sm_live := (sm_live m)(sid := None)\<rparr> else m
      | None \<Rightarrow> m)"

section \<open>Runs of operations\<close>

text \<open>Every operation that changes the state, with the time it reads from the clock.\<close>

datatype 'v stream_op =
    OpAppend string string "'v stream_event" int
  | OpAppendSteer string string "'v stream_event list" int
  | OpUpdateSteer string string string "string \<rightharpoonup> 'v any" int
  | OpDeleteSteer string string string int
  | OpSetLive string string string
  | OpClaimLive string string string
  | OpClearLive string string

primrec exec :: "'v stream_op \<Rightarrow> 'v stream_manager \<Rightarrow> 'v stream_manager" where
  "exec (OpAppend sid mid e now) m = append_event m sid mid e now"
| "exec (OpAppendSteer sid mid es now) m = append_steer_events m sid mid es now"
| "exec (OpUpdateSteer sid mid eid data now) m = snd (update_steer_event_data m sid mid eid data now)"
| "exec (OpDeleteSteer sid mid eid now) m = snd (delete_steer_event m sid mid eid now)"
| "exec (OpSetLive sid mid rid) m = snd (set_live_run m sid mid rid)"
| "exec (OpClaimLive sid mid rid) m = claim_live_run m sid mid rid"
| "exec (OpClearLive sid mid) m = clear_live_run m sid mid"

text \<open>What a run appends to the event list of one stream.\<close>

definition added :: "string \<Rightarrow> string \<Rightarrow> 'v stream_op \<Rightarrow> 'v stream_event list" where
  "added sid mid p =
     (case p of OpAppend s m e now \<Rightarrow> if s = sid \<and> m = mid then [stamp now e] else [] | _ \<Rightarrow> [])"

definition appended :: "string \<Rightarrow> string \<Rightarrow> 'v stream_op list \<Rightarrow> 'v stream_event list" where
  "appended sid mid ops = concat (map (added sid mid) ops)"

definition stream_events :: "'v stream_manager \<Rightarrow> string \<Rightarrow> string \<Rightarrow> 'v stream_event list" where
  "stream_events m sid mid = (case get_stream m sid mid of None \<Rightarrow> [] | Some d \<Rightarrow> sd_events d)"

text \<open>A reader that polls after each batch of operations, with the offset the last poll returned.\<close>

primrec poll_all ::
    "('s \<Rightarrow> int \<Rightarrow> ('e list \<times> int) option) \<Rightarrow> ('a \<Rightarrow> 's \<Rightarrow> 's) \<Rightarrow> 's \<Rightarrow> int \<Rightarrow> 'a list list \<Rightarrow> ('e list \<times> int \<times> 's) option" where
  "poll_all rd ex s off [] = Some ([], off, s)"
| "poll_all rd ex s off (ops # rest) =
     (let s1 = fold ex ops s in
      case rd s1 off of
        None \<Rightarrow> None
      | Some (es, off1) \<Rightarrow>
          map_option (\<lambda>(es', off2, s2). (es @ es', off2, s2)) (poll_all rd ex s1 off1 rest))"

section \<open>The reader's interface\<close>

text \<open>
  What a poller relies on: a read at an offset inside the log returns everything from there with
  the log's length as the next offset, and an operation only appends to the log.
\<close>

locale offset_log =
  fixes log :: "'s \<Rightarrow> 'e list" and rd :: "'s \<Rightarrow> int \<Rightarrow> ('e list \<times> int) option"
    and ex :: "'a \<Rightarrow> 's \<Rightarrow> 's" and adds :: "'a \<Rightarrow> 'e list"
  assumes rd_log: "n \<le> length (log s) \<Longrightarrow> rd s (int n) = Some (drop n (log s), int (length (log s)))"
    and ex_log: "log (ex p s) = log s @ adds p"
begin

lemma run_log: "log (fold ex ops s) = log s @ concat (map adds ops)"
  by (induction ops arbitrary: s) (simp_all add: ex_log)

lemma poll_complete:
  "n \<le> length (log s) \<Longrightarrow>
     \<exists>s'. poll_all rd ex s (int n) (batches @ [ops]) =
            Some (drop n (log s) @ concat (map adds (concat batches @ ops)),
                  int (length (log s) + length (concat (map adds (concat batches @ ops)))), s') \<and>
          s' = fold ex (concat batches @ ops) s"
proof (induction batches arbitrary: s n)
  case Nil
  then have "n \<le> length (log (fold ex ops s))" by (simp add: run_log)
  from rd_log [OF this] Nil show ?case by (simp add: run_log Let_def)
next
  case (Cons b batches)
  let ?s1 = "fold ex b s"
  from Cons.prems have "n \<le> length (log ?s1)" by (simp add: run_log)
  note rd1 = rd_log [OF this]
  from Cons.IH [of "length (log ?s1)" ?s1] rd1 Cons.prems show ?case
    by (simp add: Let_def run_log)
qed

end

lemma put_get [simp]:
  "get_stream (put_stream m sid mid d) s t = (if s = sid \<and> t = mid then Some d else get_stream m s t)"
  by (auto simp: get_stream_def put_stream_def split: option.splits)

lemma put_events:
  "stream_events (put_stream m sid mid d) s t = (if s = sid \<and> t = mid then sd_events d else stream_events m s t)"
  by (simp add: stream_events_def)

lemma create_events: "sd_events (get_or_create_stream m sid mid now) = stream_events m sid mid"
  by (simp add: get_or_create_stream_def stream_events_def split: option.split)

lemma exec_log:
  "stream_events (exec p m) sid mid = stream_events m sid mid @ added sid mid p"
proof (cases p)
  case (OpAppend s t e now)
  then show ?thesis by (simp add: append_event_def Let_def put_events create_events added_def)
next
  case (OpAppendSteer s t es now)
  then show ?thesis by (simp add: append_steer_events_def Let_def put_events create_events added_def)
next
  case (OpUpdateSteer s t eid data now)
  then show ?thesis
    by (cases "get_stream m s t"; cases "first_with eid (sd_steer (the (get_stream m s t)))")
      (simp_all add: update_steer_event_data_def put_events Let_def stream_events_def added_def)
next
  case (OpDeleteSteer s t eid now)
  then show ?thesis
    by (cases "get_stream m s t"; cases "first_with eid (sd_steer (the (get_stream m s t)))")
      (simp_all add: delete_steer_event_def put_events stream_events_def added_def)
next
  case (OpSetLive s t r)
  then show ?thesis
    by (simp add: set_live_run_def claim_live_run_def stream_events_def get_stream_def added_def split: option.split)
next
  case (OpClaimLive s t r)
  then show ?thesis by (simp add: claim_live_run_def stream_events_def get_stream_def added_def)
next
  case (OpClearLive s t)
  then show ?thesis
    by (simp add: clear_live_run_def stream_events_def get_stream_def added_def split: option.split)
qed

lemma get_events_log:
  "n \<le> length (stream_events m sid mid) \<Longrightarrow>
     get_events m sid mid (int n) = Some (drop n (stream_events m sid mid), int (length (stream_events m sid mid)))"
  by (auto simp: get_events_def stream_events_def read_from_def split: option.split)

interpretation events_log: offset_log
  "\<lambda>m. stream_events m sid mid" "\<lambda>m. get_events m sid mid" exec "added sid mid"
  by unfold_locales (rule get_events_log, assumption, rule exec_log)

section \<open>Steer events\<close>

lemma first_with_SomeD: "first_with eid es = Some i \<Longrightarrow> i < length es \<and> ev_id (es ! i) = eid"
  by (induction es arbitrary: i) (auto split: if_splits simp: nth_Cons')

text \<open>Queued ids, the empty ones apart, stay distinct.\<close>

definition steer_ids :: "'v stream_event list \<Rightarrow> string list" where
  "steer_ids es = filter (\<lambda>i. i \<noteq> []) (map ev_id es)"

lemma stamp_id [simp]: "ev_id (stamp now e) = ev_id e"
  by (simp add: stamp_def)

lemma steer_ids_simps [simp]:
  "steer_ids [] = []"
  "steer_ids (e # es) = (if ev_id e \<noteq> [] then [ev_id e] else []) @ steer_ids es"
  "steer_ids (es @ fs) = steer_ids es @ steer_ids fs"
  by (simp_all add: steer_ids_def)

lemma steer_loop_distinct:
  "distinct (steer_ids (steer_loop now seen es)) \<and> set (steer_ids (steer_loop now seen es)) \<inter> seen = {}"
  by (induction es arbitrary: seen) auto

lemma steer_ids_set: "set (steer_ids es) \<subseteq> ev_id ` set es"
  by (auto simp: steer_ids_def)

lemma append_steer_distinct [wf_intros]:
  "distinct (steer_ids es) \<Longrightarrow> distinct (steer_ids (es @ steer_loop now (ev_id ` set es) fs))"
  using steer_loop_distinct [of now "ev_id ` set es" fs] steer_ids_set [of es] by auto

lemma delete_steer_distinct [wf_intros]:
  "distinct (steer_ids es) \<Longrightarrow> distinct (steer_ids (take i es @ drop (Suc i) es))"
proof -
  assume d: "distinct (steer_ids es)"
  have "distinct (steer_ids es) \<longrightarrow> distinct (steer_ids (take i es @ drop (Suc i) es))"
  proof (cases "i < length es")
    case True
    then have "steer_ids es = steer_ids (take i es) @ steer_ids [es ! i] @ steer_ids (drop (Suc i) es)"
      by (metis append_Cons append_Nil id_take_nth_drop steer_ids_simps(3))
    then show ?thesis by auto
  next
    case False
    then show ?thesis by simp
  qed
  with d show ?thesis by blast
qed

section \<open>Properties\<close>

text \<open>
  C36: A polling client sees every event exactly once. Start from an empty store and let
  operations run in batches, on any streams, control events and live-run markers included; a
  reader of one stream that polls after each batch with the offset its last poll returned never
  panics, and the pieces it read are, in order, exactly the events appended to that stream, with
  their times filled in; its next offset is their number.
\<close>

theorem polling_reader_sees_every_event:
  "poll_all (\<lambda>m. get_events m sid mid) exec new_memory_stream_manager 0 (batches @ [ops]) =
     Some (appended sid mid (concat batches @ ops), int (length (appended sid mid (concat batches @ ops))),
           fold exec (concat batches @ ops) new_memory_stream_manager)"
proof -
  have empty: "stream_events new_memory_stream_manager sid mid = []"
    by (simp add: stream_events_def get_stream_def new_memory_stream_manager_def)
  show ?thesis
    using events_log.poll_complete [of 0 new_memory_stream_manager sid mid batches ops]
    by (simp add: empty appended_def)
qed

end
