(* ===== verification/Session_Binding.thy ===== *)
theory Session_Binding
  imports Prelude
begin

text \<open>
  Bindings of chat sessions to remote sandboxes and the process-local store for them
  (\<^verbatim>\<open>src/internal/sandbox/session_binding.go\<close>): validation, create-if-absent and compare-delete,
  the credential patch, marking a config's bindings stale, and the turn leases that let only the
  first resolve of a turn rebuild a stale sandbox.

  Every store method runs under one mutex, so it is a function from state to state;
  \<open>ctx :: string option\<close> is \<^verbatim>\<open>ctx.Err()\<close> at the moment the method checks it. The per-session
  lifecycle lock is in \<open>Lifecycle_Lock\<close>.
\<close>

section \<open>Keys and bindings\<close>

record sandbox_key =
  k_tenant :: tenant_id
  k_session :: string

datatype binding_error =
    KeyRequired
  | KeyBraces
  | KeyControl
  | BadVersion int
  | BadProvider string
  | IdentityMismatch
  | NoSandboxID
  | NoTemplateID
  | NoCreationTime
  | MatchNoSandboxID
  | CtxErr string
  | LockErr string
  | TenantRequired
  | MarkFailed string binding_error

text \<open>
  Some rune of the string is a control character (U+0000..U+001F, U+007F..U+009F). The latter
  half is encoded as the byte C2 followed by 80..9F, and C2 never continues another rune.
\<close>

fun has_control :: "string \<Rightarrow> bool" where
  "has_control [] = False"
| "has_control (c # s) =
     ((of_char c :: nat) < 32 \<or> (of_char c :: nat) = 127 \<or>
      ((of_char c :: nat) = 194 \<and>
       (case s of [] \<Rightarrow> False | d # _ \<Rightarrow> 128 \<le> (of_char d :: nat) \<and> (of_char d :: nat) < 160)) \<or>
      has_control s)"

definition key_validate :: "sandbox_key \<Rightarrow> binding_error option" where
  "key_validate k =
     (if k_tenant k = 0 \<or> trim_space (k_session k) = [] then Some KeyRequired
      else if list_ex (\<lambda>c. c = CHR 0x7B \<or> c = CHR 0x7D) (k_session k) then Some KeyBraces
      else if has_control (k_session k) then Some KeyControl
      else None)"

record binding =
  b_version :: int
  b_provider :: string
  b_tenant :: tenant_id
  b_session :: string
  b_sandbox :: string
  b_template :: string
  b_created :: int
  b_config :: string
  b_stale :: "int option"
  b_token :: string

definition binding_version :: int where
  "binding_version = 1"

definition is_remote_provider :: "string \<Rightarrow> bool" where
  "is_remote_provider p \<longleftrightarrow> p \<in> {''cube'', ''e2b'', ''docker''}"

definition binding_validate :: "binding \<Rightarrow> sandbox_key \<Rightarrow> binding_error option" where
  "binding_validate b k =
     (case key_validate k of
        Some e \<Rightarrow> Some e
      | None \<Rightarrow>
          if b_version b \<noteq> binding_version then Some (BadVersion (b_version b))
          else if \<not> is_remote_provider (b_provider b) then Some (BadProvider (b_provider b))
          else if b_tenant b \<noteq> k_tenant k \<or> b_session b \<noteq> k_session k then Some IdentityMismatch
          else if trim_space (b_sandbox b) = [] then Some NoSandboxID
          else if trim_space (b_template b) = [] then Some NoTemplateID
          else if b_created b = 0 then Some NoCreationTime
          else None)"

definition validate_binding_match :: "sandbox_key \<Rightarrow> string \<Rightarrow> string \<Rightarrow> binding_error option" where
  "validate_binding_match k provider sandbox =
     (case key_validate k of
        Some e \<Rightarrow> Some e
      | None \<Rightarrow>
          if \<not> is_remote_provider provider then Some (BadProvider provider)
          else if trim_space sandbox = [] then Some MatchNoSandboxID
          else None)"

definition normalize_config_id :: "string \<Rightarrow> string" where
  "normalize_config_id c = (if trim_space c = [] then ''-'' else c)"

section \<open>The store\<close>

record turn_lease =
  tl_refs :: int
  tl_rebuild :: bool

record memory_store =
  ms_bindings :: "sandbox_key \<rightharpoonup> binding"
  ms_turns :: "sandbox_key \<rightharpoonup> turn_lease"

definition new_memory_store :: memory_store where
  "new_memory_store = \<lparr>ms_bindings = Map.empty, ms_turns = Map.empty\<rparr>"

text \<open>The guards every method starts with: the validation, then the context.\<close>

definition guard :: "binding_error option \<Rightarrow> string option \<Rightarrow> binding_error + unit" where
  "guard v ctx =
     (case v of Some e \<Rightarrow> Inl e | None \<Rightarrow> (case ctx of Some e \<Rightarrow> Inl (CtxErr e) | None \<Rightarrow> Inr ()))"

definition ms_get :: "memory_store \<Rightarrow> string option \<Rightarrow> sandbox_key \<Rightarrow> binding_error + binding option" where
  "ms_get s ctx k = bind_sum (guard (key_validate k) ctx) (\<lambda>_. Inr (ms_bindings s k))"

definition ms_create ::
    "memory_store \<Rightarrow> string option \<Rightarrow> sandbox_key \<Rightarrow> binding \<Rightarrow> (binding_error + bool) \<times> memory_store" where
  "ms_create s ctx k b =
     (case guard (binding_validate b k) ctx of
        Inl e \<Rightarrow> (Inl e, s)
      | Inr _ \<Rightarrow>
          if ms_bindings s k \<noteq> None then (Inr False, s)
          else (Inr True, s\<lparr>ms_bindings := (ms_bindings s)(k \<mapsto> b)\<rparr>))"

definition names :: "binding option \<Rightarrow> string \<Rightarrow> string \<Rightarrow> bool" where
  "names b provider sandbox =
     (case b of None \<Rightarrow> False | Some b \<Rightarrow> b_provider b = provider \<and> b_sandbox b = sandbox)"

definition ms_delete_if_match ::
    "memory_store \<Rightarrow> string option \<Rightarrow> sandbox_key \<Rightarrow> string \<Rightarrow> string \<Rightarrow> (binding_error + bool) \<times> memory_store" where
  "ms_delete_if_match s ctx k provider sandbox =
     (case guard (validate_binding_match k provider sandbox) ctx of
        Inl e \<Rightarrow> (Inl e, s)
      | Inr _ \<Rightarrow>
          if \<not> names (ms_bindings s k) provider sandbox then (Inr False, s)
          else (Inr True, s\<lparr>ms_bindings := (ms_bindings s)(k := None)\<rparr>))"

text \<open>An empty token is a no-op that does not look at the context.\<close>

definition ms_replace_token ::
    "memory_store \<Rightarrow> string option \<Rightarrow> sandbox_key \<Rightarrow> binding \<Rightarrow> string \<Rightarrow> (binding_error + bool) \<times> memory_store" where
  "ms_replace_token s ctx k expected token =
     (case validate_binding_match k (b_provider expected) (b_sandbox expected) of
        Some e \<Rightarrow> (Inl e, s)
      | None \<Rightarrow>
          if token = [] then (Inr False, s)
          else (case ctx of
                  Some e \<Rightarrow> (Inl (CtxErr e), s)
                | None \<Rightarrow>
                    (case ms_bindings s k of
                       None \<Rightarrow> (Inr False, s)
                     | Some b \<Rightarrow>
                         if b_provider b \<noteq> b_provider expected \<or> b_sandbox b \<noteq> b_sandbox expected
                         then (Inr False, s)
                         else if b_token b = token then (Inr False, s)
                         else (Inr True, s\<lparr>ms_bindings := (ms_bindings s)(k \<mapsto> b\<lparr>b_token := token\<rparr>)\<rparr>))))"

definition ms_mark_stale ::
    "memory_store \<Rightarrow> string option \<Rightarrow> sandbox_key \<Rightarrow> binding \<Rightarrow> int \<Rightarrow> (binding_error + bool) \<times> memory_store" where
  "ms_mark_stale s ctx k expected at =
     (case ctx of
        Some e \<Rightarrow> (Inl (CtxErr e), s)
      | None \<Rightarrow>
          (case ms_bindings s k of
             None \<Rightarrow> (Inr False, s)
           | Some b \<Rightarrow>
               if b_provider b \<noteq> b_provider expected \<or> b_sandbox b \<noteq> b_sandbox expected
               then (Inr False, s)
               else (Inr True, s\<lparr>ms_bindings := (ms_bindings s)(k \<mapsto> b\<lparr>b_stale := Some at\<rparr>)\<rparr>)))"

subsection \<open>Turn leases\<close>

definition begin_turn :: "memory_store \<Rightarrow> string option \<Rightarrow> sandbox_key \<Rightarrow> (binding_error + unit) \<times> memory_store" where
  "begin_turn s ctx k =
     (case guard (key_validate k) ctx of
        Inl e \<Rightarrow> (Inl e, s)
      | Inr _ \<Rightarrow>
          let l = (case ms_turns s k of None \<Rightarrow> \<lparr>tl_refs = 0, tl_rebuild = False\<rparr> | Some l \<Rightarrow> l);
              l1 = (if tl_refs l = 0 then l\<lparr>tl_rebuild := True\<rparr> else l)
          in (Inr (), s\<lparr>ms_turns := (ms_turns s)(k \<mapsto> l1\<lparr>tl_refs := tl_refs l1 + 1\<rparr>)\<rparr>))"

definition end_turn :: "memory_store \<Rightarrow> sandbox_key \<Rightarrow> (binding_error + unit) \<times> memory_store" where
  "end_turn s k =
     (case key_validate k of
        Some e \<Rightarrow> (Inl e, s)
      | None \<Rightarrow>
          (case ms_turns s k of
             None \<Rightarrow> (Inr (), s)
           | Some l \<Rightarrow>
               if tl_refs l - 1 \<le> 0 then (Inr (), s\<lparr>ms_turns := (ms_turns s)(k := None)\<rparr>)
               else (Inr (), s\<lparr>ms_turns := (ms_turns s)(k \<mapsto> l\<lparr>tl_refs := tl_refs l - 1\<rparr>)\<rparr>)))"

definition turn_state :: "memory_store \<Rightarrow> string option \<Rightarrow> sandbox_key \<Rightarrow> binding_error + bool \<times> bool" where
  "turn_state s ctx k =
     bind_sum (guard (key_validate k) ctx)
       (\<lambda>_. case ms_turns s k of
              None \<Rightarrow> Inr (False, False)
            | Some l \<Rightarrow> if tl_refs l \<le> 0 then Inr (False, False) else Inr (True, tl_rebuild l))"

definition consume_turn_rebuild ::
    "memory_store \<Rightarrow> string option \<Rightarrow> sandbox_key \<Rightarrow> (binding_error + unit) \<times> memory_store" where
  "consume_turn_rebuild s ctx k =
     (case guard (key_validate k) ctx of
        Inl e \<Rightarrow> (Inl e, s)
      | Inr _ \<Rightarrow>
          (case ms_turns s k of
             None \<Rightarrow> (Inr (), s)
           | Some l \<Rightarrow> (Inr (), s\<lparr>ms_turns := (ms_turns s)(k \<mapsto> l\<lparr>tl_rebuild := False\<rparr>)\<rparr>)))"

section \<open>Invalidation\<close>

text \<open>
  What the contexts and the lifecycle lock answer for one session: \<^verbatim>\<open>ctx.Err()\<close> at the top of the
  loop, the failure to acquire the lock (its two-second cap included), and the error of the mark
  context at the read and at the write.
\<close>

record session_env =
  se_loop :: "string option"
  se_lock :: "binding_error option"
  se_get :: "string option"
  se_mark :: "string option"

text \<open>The body run under the lock: read, decide, mark. The flag says whether it wrote.\<close>

definition mark_one ::
    "('s \<Rightarrow> string option \<Rightarrow> sandbox_key \<Rightarrow> binding_error + binding option) \<Rightarrow>
     ('s \<Rightarrow> string option \<Rightarrow> sandbox_key \<Rightarrow> binding \<Rightarrow> int \<Rightarrow> (binding_error + bool) \<times> 's) \<Rightarrow>
     string \<Rightarrow> int \<Rightarrow> session_env \<Rightarrow> 's \<Rightarrow> sandbox_key \<Rightarrow> (binding_error + bool) \<times> 's" where
  "mark_one get mark wanted now env s k =
     (case get s (se_get env) k of
        Inl e \<Rightarrow> (Inl e, s)
      | Inr None \<Rightarrow> (Inr False, s)
      | Inr (Some b) \<Rightarrow>
          if b_config b \<noteq> wanted \<or> b_stale b \<noteq> None then (Inr False, s)
          else mark s (se_mark env) k b now)"

primrec invalidate_loop ::
    "('s \<Rightarrow> string option \<Rightarrow> sandbox_key \<Rightarrow> binding_error + binding option) \<Rightarrow>
     ('s \<Rightarrow> string option \<Rightarrow> sandbox_key \<Rightarrow> binding \<Rightarrow> int \<Rightarrow> (binding_error + bool) \<times> 's) \<Rightarrow>
     string \<Rightarrow> int \<Rightarrow> (sandbox_key \<Rightarrow> session_env) \<Rightarrow> 's \<Rightarrow> sandbox_key list \<Rightarrow> (nat \<times> binding_error list) \<times> 's" where
  "invalidate_loop get mark wanted now env s [] = ((0, []), s)"
| "invalidate_loop get mark wanted now env s (k # ks) =
     (case se_loop (env k) of
        Some e \<Rightarrow> ((0, [CtxErr e]), s)
      | None \<Rightarrow>
          let (res, s1) =
            (case se_lock (env k) of
               Some e \<Rightarrow> (Inl e, s)
             | None \<Rightarrow> mark_one get mark wanted now (env k) s k);
            ((n, errs), s2) = invalidate_loop get mark wanted now env s1 ks
          in (case res of
                Inl e \<Rightarrow> ((n, MarkFailed (k_session k) e # errs), s2)
              | Inr wrote \<Rightarrow> ((if wrote then Suc n else n, errs), s2)))"

text \<open>
  \<^verbatim>\<open>invalidateBindingsByConfig\<close>, for a store that lists the keys \<open>keys\<close> for the tenant. The
  errors of the single sessions are returned beside the count.
\<close>

definition invalidate_bindings ::
    "('s \<Rightarrow> string option \<Rightarrow> sandbox_key \<Rightarrow> binding_error + binding option) \<Rightarrow>
     ('s \<Rightarrow> string option \<Rightarrow> sandbox_key \<Rightarrow> binding \<Rightarrow> int \<Rightarrow> (binding_error + bool) \<times> 's) \<Rightarrow>
     ('s \<Rightarrow> tenant_id \<Rightarrow> binding_error + sandbox_key list) \<Rightarrow>
     int \<Rightarrow> (sandbox_key \<Rightarrow> session_env) \<Rightarrow> 's \<Rightarrow> tenant_id \<Rightarrow> string \<Rightarrow> (nat \<times> binding_error list) \<times> 's" where
  "invalidate_bindings get mark list_keys now env s tid config =
     (if tid = 0 then ((0, [TenantRequired]), s)
      else (case list_keys s tid of
              Inl e \<Rightarrow> ((0, [e]), s)
            | Inr keys \<Rightarrow> invalidate_loop get mark (normalize_config_id config) now env s keys))"

text \<open>
  The memory store's listing ranges over a map, in an unspecified order: \<open>order\<close> enumerates the
  bound keys, and those of the tenant are kept.
\<close>

definition ms_list_keys ::
    "sandbox_key list \<Rightarrow> string option \<Rightarrow> memory_store \<Rightarrow> tenant_id \<Rightarrow> binding_error + sandbox_key list" where
  "ms_list_keys order ctx s tid =
     (case ctx of Some e \<Rightarrow> Inl (CtxErr e) | None \<Rightarrow> Inr (filter (\<lambda>k. k_tenant k = tid) order))"

definition ms_invalidate ::
    "sandbox_key list \<Rightarrow> string option \<Rightarrow> int \<Rightarrow> (sandbox_key \<Rightarrow> session_env) \<Rightarrow> memory_store \<Rightarrow> tenant_id \<Rightarrow> string
       \<Rightarrow> (nat \<times> binding_error list) \<times> memory_store" where
  "ms_invalidate order ctx now env s tid config =
     invalidate_bindings ms_get ms_mark_stale (ms_list_keys order ctx) now env s tid config"

section \<open>The scanner's interface\<close>

text \<open>
  What \<^verbatim>\<open>invalidateBindingsByConfig\<close> relies on, for a store seen as the map \<open>view\<close>: a read
  returns the binding, a mark of a binding just read sets its mark and nothing else, and either
  fails with the context's error and changes nothing when its context is cancelled.
\<close>

locale binding_scanner =
  fixes get :: "'s \<Rightarrow> string option \<Rightarrow> sandbox_key \<Rightarrow> binding_error + binding option"
    and mark :: "'s \<Rightarrow> string option \<Rightarrow> sandbox_key \<Rightarrow> binding \<Rightarrow> int \<Rightarrow> (binding_error + bool) \<times> 's"
    and view :: "'s \<Rightarrow> sandbox_key \<Rightarrow> binding option"
  assumes get_ok: "key_validate k = None \<Longrightarrow> get s None k = Inr (view s k)"
    and get_cancelled: "key_validate k = None \<Longrightarrow> get s (Some e) k = Inl (CtxErr e)"
    and mark_ok: "view s k = Some b \<Longrightarrow> fst (mark s None k b at) = Inr True \<and>
          view (snd (mark s None k b at)) = (view s)(k \<mapsto> b\<lparr>b_stale := Some at\<rparr>)"
    and mark_cancelled: "mark s (Some e) k b at = (Inl (CtxErr e), s)"
begin

text \<open>The sessions of a listing that an invalidation should mark, and those it can.\<close>

definition matching :: "string \<Rightarrow> 's \<Rightarrow> sandbox_key \<Rightarrow> bool" where
  "matching wanted s k \<longleftrightarrow> (\<exists>b. view s k = Some b \<and> b_config b = wanted \<and> b_stale b = None)"

definition reachable :: "session_env \<Rightarrow> bool" where
  "reachable env \<longleftrightarrow> se_lock env = None \<and> se_get env = None \<and> se_mark env = None"

definition marks :: "string \<Rightarrow> (sandbox_key \<Rightarrow> session_env) \<Rightarrow> 's \<Rightarrow> sandbox_key set \<Rightarrow> sandbox_key set" where
  "marks wanted env s ks = {k \<in> ks. reachable (env k) \<and> matching wanted s k}"

definition marked_view :: "sandbox_key set \<Rightarrow> int \<Rightarrow> 's \<Rightarrow> sandbox_key \<Rightarrow> binding option" where
  "marked_view ks now s k = (if k \<in> ks then map_option (\<lambda>b. b\<lparr>b_stale := Some now\<rparr>) (view s k) else view s k)"

lemma mark_one_cases:
  assumes "key_validate k = None" "se_lock env = None"
  obtains (marked) s1 where "mark_one get mark wanted now env s k = (Inr True, s1)" "reachable env"
      "matching wanted s k" "view s1 = marked_view {k} now s"
  | (skipped) "mark_one get mark wanted now env s k = (Inr False, s)" "\<not> matching wanted s k"
  | (failed) e where "mark_one get mark wanted now env s k = (Inl e, s)" "\<not> reachable env"
proof (cases "se_get env")
  case (Some e)
  with failed [of "CtxErr e"] show thesis
    by (simp add: mark_one_def get_cancelled [OF assms(1)] reachable_def)
next
  case None
  note g = get_ok [OF assms(1), of s]
  show thesis
  proof (cases "view s k")
    case none: None
    with skipped show thesis by (simp add: mark_one_def None g matching_def)
  next
    case (Some b)
    show thesis
    proof (cases "b_config b \<noteq> wanted \<or> b_stale b \<noteq> None")
      case True
      with skipped Some show thesis by (auto simp add: mark_one_def None g matching_def)
    next
      case False
      show thesis
      proof (cases "se_mark env")
        case (Some e)
        with failed [of "CtxErr e"] False \<open>view s k = Some b\<close> show thesis
          by (simp add: mark_one_def None g mark_cancelled reachable_def)
      next
        case mn: None
        obtain res s1 where ms: "mark s None k b now = (res, s1)" by force
        from mark_ok [OF Some, of now] ms have "res = Inr True" "view s1 = (view s)(k \<mapsto> b\<lparr>b_stale := Some now\<rparr>)"
          by simp_all
        moreover have "(view s)(k \<mapsto> b\<lparr>b_stale := Some now\<rparr>) = marked_view {k} now s"
          using Some by (auto simp: marked_view_def fun_eq_iff)
        ultimately show thesis
          using marked [of s1] False Some None mn ms assms(2) g
          by (simp add: mark_one_def reachable_def matching_def)
      qed
    qed
  qed
qed

lemma invalidate_loop_exact:
  assumes "\<forall>k \<in> set ks. se_loop (env k) = None \<and> key_validate k = None" "distinct ks"
    and "invalidate_loop get mark wanted now env s ks = ((n, errs), s')"
  shows "view s' = marked_view (marks wanted env s (set ks)) now s \<and> n = card (marks wanted env s (set ks)) \<and>
    (errs = [] \<longrightarrow> (\<forall>k \<in> set ks. matching wanted s k \<longrightarrow> reachable (env k)))"
  using assms
proof (induction ks arbitrary: s n errs s')
  case Nil
  then show ?case by (auto simp: marks_def marked_view_def)
next
  case (Cons k ks)
  obtain res s1 where one: "(case se_lock (env k) of Some e \<Rightarrow> (Inl e, s)
      | None \<Rightarrow> mark_one get mark wanted now (env k) s k) = (res, s1)" by force
  obtain n2 errs2 s2 where rest: "invalidate_loop get mark wanted now env s1 ks = ((n2, errs2), s2)"
    by (metis surj_pair)
  from Cons.prems(1) have kv: "key_validate k = None" "se_loop (env k) = None"
    "\<forall>k \<in> set ks. se_loop (env k) = None \<and> key_validate k = None" by simp_all
  from Cons.prems(2) have d: "k \<notin> set ks" "distinct ks" by simp_all
  have out: "s' = s2" "n = (if res = Inr True then Suc n2 else n2)"
    "errs = (case res of Inl e \<Rightarrow> MarkFailed (k_session k) e # errs2 | Inr _ \<Rightarrow> errs2)"
    using Cons.prems(3) by (simp_all add: kv(2) one rest Let_def split: sum.splits if_splits prod.splits)
  note IH = Cons.IH [OF kv(3) d(2) rest]
  consider (marked) "res = Inr True" "reachable (env k)" "matching wanted s k" "view s1 = marked_view {k} now s"
    | (skipped) "res = Inr False" "s1 = s" "\<not> matching wanted s k"
    | (failed) e where "res = Inl e" "s1 = s" "\<not> reachable (env k)"
  proof (cases "se_lock (env k)")
    case (Some e)
    with one failed [of e] show thesis by (simp add: reachable_def)
  next
    case None
    with one have m: "mark_one get mark wanted now (env k) s k = (res, s1)" by simp
    from kv(1) None show thesis
      by (cases rule: mark_one_cases [of k "env k" wanted now s])
        (use m marked skipped failed in \<open>auto\<close>)
  qed
  then show ?case
  proof cases
    case marked
    have same: "view s1 q = view s q" if "q \<noteq> k" for q
      using that by (simp add: marked(4) marked_view_def)
    then have "marks wanted env s1 (set ks) = marks wanted env s (set ks)"
      using d(1) unfolding marks_def matching_def by (intro Collect_cong conj_cong refl) metis
    moreover have "marks wanted env s (set (k # ks)) = insert k (marks wanted env s (set ks))"
      using marked(2,3) by (auto simp: marks_def)
    moreover have "k \<notin> marks wanted env s (set ks)" "finite (marks wanted env s (set ks))"
      using d(1) by (auto simp: marks_def)
    moreover have "marked_view (marks wanted env s (set ks)) now s1 =
        marked_view (insert k (marks wanted env s (set ks))) now s"
      using calculation(3) by (auto simp: marked_view_def [abs_def] marked(4) fun_eq_iff)
    moreover have "matching wanted s q = matching wanted s1 q" if "q \<in> set ks" for q
      using same [of q] that d(1) unfolding matching_def by metis
    ultimately show ?thesis using IH out marked(1,2) by simp
  next
    case skipped
    then have "marks wanted env s (set (k # ks)) = marks wanted env s (set ks)"
      by (auto simp: marks_def)
    with IH out skipped show ?thesis by simp
  next
    case failed
    then have "marks wanted env s (set (k # ks)) = marks wanted env s (set ks)"
      by (auto simp: marks_def)
    with IH out failed show ?thesis by simp
  qed
qed

end

lemma guard_simps [simp]:
  "guard None None = Inr ()" "guard None (Some e) = Inl (CtxErr e)" "guard (Some v) ctx = Inl v"
  by (simp_all add: guard_def)

interpretation ms: binding_scanner ms_get ms_mark_stale ms_bindings
  by unfold_locales (simp_all add: ms_get_def ms_mark_stale_def)

section \<open>Runs of the store\<close>

datatype store_op =
    OpCreate "string option" sandbox_key binding
  | OpDelete "string option" sandbox_key string string
  | OpReplaceToken "string option" sandbox_key binding string
  | OpInvalidate "sandbox_key list" "string option" int "sandbox_key \<Rightarrow> session_env" tenant_id string
  | OpBeginTurn "string option" sandbox_key
  | OpEndTurn sandbox_key
  | OpConsume "string option" sandbox_key

primrec exec_store :: "store_op \<Rightarrow> memory_store \<Rightarrow> memory_store" where
  "exec_store (OpCreate ctx k b) s = snd (ms_create s ctx k b)"
| "exec_store (OpDelete ctx k p sb) s = snd (ms_delete_if_match s ctx k p sb)"
| "exec_store (OpReplaceToken ctx k b tok) s = snd (ms_replace_token s ctx k b tok)"
| "exec_store (OpInvalidate order ctx now env tid c) s = snd (ms_invalidate order ctx now env s tid c)"
| "exec_store (OpBeginTurn ctx k) s = snd (begin_turn s ctx k)"
| "exec_store (OpEndTurn k) s = snd (end_turn s k)"
| "exec_store (OpConsume ctx k) s = snd (consume_turn_rebuild s ctx k)"

definition store_typed :: "memory_store \<Rightarrow> bool" where
  "store_typed s \<longleftrightarrow>
     (\<forall>k b. ms_bindings s k = Some b \<longrightarrow> binding_validate b k = None) \<and>
     (\<forall>k l. ms_turns s k = Some l \<longrightarrow> key_validate k = None \<and> 1 \<le> tl_refs l)"

lemma store_typed_put:
  "store_typed s \<Longrightarrow> binding_validate b k = None \<Longrightarrow> store_typed (s\<lparr>ms_bindings := (ms_bindings s)(k \<mapsto> b)\<rparr>)"
  by (auto simp: store_typed_def)

lemma store_typed_del: "store_typed s \<Longrightarrow> store_typed (s\<lparr>ms_bindings := (ms_bindings s)(k := None)\<rparr>)"
  by (auto simp: store_typed_def)

lemma store_typed_turn:
  "store_typed s \<Longrightarrow> key_validate k = None \<Longrightarrow> 1 \<le> tl_refs l \<Longrightarrow> store_typed (s\<lparr>ms_turns := (ms_turns s)(k \<mapsto> l)\<rparr>)"
  by (auto simp: store_typed_def)

lemma store_typed_turn_del: "store_typed s \<Longrightarrow> store_typed (s\<lparr>ms_turns := (ms_turns s)(k := None)\<rparr>)"
  by (auto simp: store_typed_def)

lemma binding_validate_frame [simp]:
  "binding_validate (b\<lparr>b_stale := st\<rparr>) k = binding_validate b k"
  "binding_validate (b\<lparr>b_token := tok\<rparr>) k = binding_validate b k"
  by (cases "key_validate k"; simp add: binding_validate_def)+

lemma store_typedD:
  "store_typed s \<Longrightarrow> ms_bindings s k = Some b \<Longrightarrow> binding_validate b k = None"
  "store_typed s \<Longrightarrow> ms_turns s k = Some l \<Longrightarrow> key_validate k = None \<and> 1 \<le> tl_refs l"
  by (auto simp: store_typed_def)

lemma mark_stale_typed: "store_typed s \<Longrightarrow> store_typed (snd (ms_mark_stale s ctx k b at))"
  by (auto simp: ms_mark_stale_def intro!: store_typed_put dest: store_typedD split: option.splits)

lemma mark_one_typed: "store_typed s \<Longrightarrow> store_typed (snd (mark_one ms_get ms_mark_stale wanted now env s k))"
  by (auto simp: mark_one_def mark_stale_typed split: sum.splits option.splits)

lemma invalidate_loop_typed:
  "store_typed s \<Longrightarrow> store_typed (snd (invalidate_loop ms_get ms_mark_stale wanted now env s ks))"
proof (induction ks arbitrary: s)
  case (Cons k ks)
  obtain res s1 where one: "(case se_lock (env k) of Some e \<Rightarrow> (Inl e, s)
      | None \<Rightarrow> mark_one ms_get ms_mark_stale wanted now (env k) s k) = (res, s1)" by force
  have "store_typed s1"
    using one mark_one_typed [OF Cons.prems, of wanted now "env k" k] Cons.prems
    by (cases "se_lock (env k)") auto
  from Cons.IH [OF this] obtain n errs s2 where
    rest: "invalidate_loop ms_get ms_mark_stale wanted now env s1 ks = ((n, errs), s2)" "store_typed s2"
    by (metis surj_pair snd_conv)
  with Cons.prems show ?case
    by (cases "se_loop (env k)"; cases res) (simp_all add: one Let_def)
qed simp

lemma exec_store_typed: "store_typed s \<Longrightarrow> store_typed (exec_store p s)"
proof (cases p)
  case (OpCreate ctx k b)
  assume "store_typed s"
  with OpCreate show ?thesis
    by (auto simp: ms_create_def guard_def intro: store_typed_put split: option.splits)
next
  case (OpDelete ctx k p' sb)
  assume "store_typed s"
  with OpDelete show ?thesis
    by (auto simp: ms_delete_if_match_def intro: store_typed_del split: sum.splits)
next
  case (OpReplaceToken ctx k b tok)
  assume "store_typed s"
  with OpReplaceToken show ?thesis
    by (auto simp: ms_replace_token_def intro!: store_typed_put dest: store_typedD split: option.splits)
next
  case (OpInvalidate order ctx now env tid c)
  assume "store_typed s"
  with OpInvalidate show ?thesis
    by (auto simp: ms_invalidate_def invalidate_bindings_def invalidate_loop_typed split: sum.splits)
next
  case (OpBeginTurn ctx k)
  assume t: "store_typed s"
  show ?thesis
  proof (cases "guard (key_validate k) ctx")
    case (Inl e)
    with OpBeginTurn t show ?thesis by (simp add: begin_turn_def)
  next
    case (Inr u)
    then have k: "key_validate k = None" by (simp add: guard_def split: option.splits)
    show ?thesis
    proof (cases "ms_turns s k")
      case None
      with OpBeginTurn t Inr k show ?thesis by (simp add: begin_turn_def Let_def store_typed_turn)
    next
      case (Some l)
      with store_typedD(2) [OF t Some] OpBeginTurn t Inr k show ?thesis
        by (simp add: begin_turn_def Let_def store_typed_turn)
    qed
  qed
next
  case (OpEndTurn k)
  assume t: "store_typed s"
  with OpEndTurn show ?thesis
    by (auto simp: end_turn_def intro!: store_typed_turn store_typed_turn_del split: option.splits)
next
  case (OpConsume ctx k)
  assume t: "store_typed s"
  with OpConsume show ?thesis
    by (auto simp: consume_turn_rebuild_def intro!: store_typed_turn dest: store_typedD(2) [OF t] split: sum.splits option.splits)
qed

section \<open>Properties\<close>

text \<open>
  C37: The store is well typed. Whatever operations run on an empty store (creations,
  compare-deletes, credential patches, invalidations with any failures, turn leases), every
  binding it holds passes the validation for its key (schema version, provider, identity, ids,
  creation time), every key is one that validation accepts, and every lease it keeps is held at
  least once.
\<close>

theorem binding_store_typed:
  "store_typed (fold exec_store ops new_memory_store)"
proof -
  have "store_typed s \<Longrightarrow> store_typed (fold exec_store ops s)" for s
    by (induction ops arbitrary: s) (simp_all add: exec_store_typed)
  moreover have "store_typed new_memory_store" by (simp add: store_typed_def new_memory_store_def)
  ultimately show ?thesis by blast
qed

lemma invalidation_parts:
  assumes "store_typed s" "tid \<noteq> 0" "distinct order" "set order = dom (ms_bindings s)"
    and "\<forall>k \<in> set order. se_loop (env k) = None"
    and "ms_invalidate order None now env s tid config = ((n, errs), s')"
  defines "M \<equiv> {k. k_tenant k = tid \<and> se_lock (env k) = None \<and> se_get (env k) = None \<and> se_mark (env k) = None \<and>
      (\<exists>b. ms_bindings s k = Some b \<and> b_config b = normalize_config_id config \<and> b_stale b = None)}"
  shows "ms_bindings s' = (\<lambda>k. if k \<in> M then map_option (\<lambda>b. b\<lparr>b_stale := Some now\<rparr>) (ms_bindings s k) else ms_bindings s k)"
    and "n = card M"
    and "errs = [] \<Longrightarrow> M = {k. k_tenant k = tid \<and>
      (\<exists>b. ms_bindings s k = Some b \<and> b_config b = normalize_config_id config \<and> b_stale b = None)}"
proof -
  let ?ks = "filter (\<lambda>k. k_tenant k = tid) order"
  let ?w = "normalize_config_id config"
  have loop: "invalidate_loop ms_get ms_mark_stale ?w now env s ?ks = ((n, errs), s')"
    using assms(2,6) by (simp add: ms_invalidate_def invalidate_bindings_def ms_list_keys_def)
  have kv: "key_validate k = None" if "k \<in> set order" for k
    using that assms(1,4) store_typedD(1) [OF assms(1), of k]
    by (auto simp: binding_validate_def split: option.splits)
  have valid: "\<forall>k \<in> set ?ks. se_loop (env k) = None \<and> key_validate k = None" "distinct ?ks"
    using assms(3,5) kv by simp_all
  note ex = ms.invalidate_loop_exact [OF valid loop]
  have M: "ms.marks ?w env s (set ?ks) = M"
    using assms(4) by (auto simp: M_def ms.marks_def ms.matching_def ms.reachable_def dom_def)
  from ex show "ms_bindings s' = (\<lambda>k. if k \<in> M then map_option (\<lambda>b. b\<lparr>b_stale := Some now\<rparr>) (ms_bindings s k) else ms_bindings s k)"
    unfolding M ms.marked_view_def [abs_def] by blast
  from ex show "n = card M" unfolding M by blast
  assume "errs = []"
  with ex have "\<forall>k \<in> set ?ks. ms.matching ?w s k \<longrightarrow> ms.reachable (env k)" by simp
  then show "M = {k. k_tenant k = tid \<and> (\<exists>b. ms_bindings s k = Some b \<and> b_config b = ?w \<and> b_stale b = None)}"
    using assms(4) by (auto simp: M_def ms.matching_def ms.reachable_def dom_def)
qed

definition sample_key :: sandbox_key where
  "sample_key = \<lparr>k_tenant = 1, k_session = ''s''\<rparr>"

definition sample_binding :: binding where
  "sample_binding = \<lparr>b_version = 1, b_provider = ''e2b'', b_tenant = 1, b_session = ''s'', b_sandbox = ''x'',
     b_template = ''t'', b_created = 7, b_config = ''c'', b_stale = None, b_token = []\<rparr>"

definition sample_store :: memory_store where
  "sample_store = \<lparr>ms_bindings = [sample_key \<mapsto> sample_binding], ms_turns = Map.empty\<rparr>"

definition sample_env :: "sandbox_key \<Rightarrow> session_env" where
  "sample_env k = \<lparr>se_loop = None, se_lock = None, se_get = None, se_mark = None\<rparr>"

lemma sample_words: "trim_space ''s'' = ''s''" "trim_space ''x'' = ''x''" "trim_space ''t'' = ''t''"
  by (simp_all add: plain_word_trim plain_word_def plain_char_def)

lemma sample_store_typed: "store_typed sample_store"
  by (auto simp: store_typed_def sample_store_def sample_binding_def sample_key_def binding_validate_def
      key_validate_def sample_words binding_version_def is_remote_provider_def)

text \<open>
  Invalidation marks exactly the config's fresh bindings. On a well-typed store whose keys
  are listed once each, as long as the caller's context lives, invalidating a config marks stale
  exactly the bindings of that tenant and config that were not stale and whose session could be
  locked, read and written in time; every other binding is untouched, none is removed, the count
  returned is their number, and when no failure is reported no matching session was missed.
\<close>

lemma invalidation_exact:
  assumes "store_typed s" "tid \<noteq> 0" "distinct order" "set order = dom (ms_bindings s)"
    and "\<forall>k \<in> set order. se_loop (env k) = None"
    and "ms_invalidate order None now env s tid config = ((n, errs), s')"
  defines "M \<equiv> {k. k_tenant k = tid \<and> se_lock (env k) = None \<and> se_get (env k) = None \<and> se_mark (env k) = None \<and>
      (\<exists>b. ms_bindings s k = Some b \<and> b_config b = normalize_config_id config \<and> b_stale b = None)}"
  shows "ms_bindings s' =
      (\<lambda>k. if k \<in> M then map_option (\<lambda>b. b\<lparr>b_stale := Some now\<rparr>) (ms_bindings s k) else ms_bindings s k) \<and>
    n = card M \<and>
    (errs = [] \<longrightarrow> M = {k. k_tenant k = tid \<and>
      (\<exists>b. ms_bindings s k = Some b \<and> b_config b = normalize_config_id config \<and> b_stale b = None)})"
  unfolding M_def by (intro conjI impI invalidation_parts [OF assms(1-6)])

end
