(* ===== verification/Lifecycle_Lock.thy ===== *)
theory Lifecycle_Lock
  imports Session_Binding
begin

text \<open>
  The process-local lifecycle lock of a session
  (\<^verbatim>\<open>MemorySessionSandboxBindingStore.WithLifecycleLock\<close> in
  \<^verbatim>\<open>src/internal/sandbox/session_binding.go\<close>): a map from keys to reference-counted lock objects
  with a one-slot semaphore; the last user of an object removes its entry. Each action under the
  store's mutex, and each operation on a semaphore, is one step; waiters may give up when their
  context is cancelled.
\<close>

section \<open>State and steps\<close>

record lifecycle_lock =
  ll_taken :: bool
  ll_users :: nat

type_synonym lock_ref = nat

text \<open>
  The points of one call: waiting in the \<^verbatim>\<open>select\<close>; inside, with the semaphore held; the
  semaphore given back (or never taken) and the use count still to drop; returned.
\<close>

datatype lock_pc = LWaiting | LInside | LDropping | LReturned

record lock_thread =
  lt_key :: sandbox_key
  lt_ref :: lock_ref
  lt_pc :: lock_pc

record lock_state =
  ls_locks :: "sandbox_key \<rightharpoonup> lock_ref"
  ls_heap :: "lock_ref \<rightharpoonup> lifecycle_lock"
  ls_threads :: "nat \<rightharpoonup> lock_thread"

definition init_locks :: lock_state where
  "init_locks = \<lparr>ls_locks = Map.empty, ls_heap = Map.empty, ls_threads = Map.empty\<rparr>"

definition set_thread :: "lock_state \<Rightarrow> nat \<Rightarrow> lock_thread \<Rightarrow> lock_pc \<Rightarrow> lock_state" where
  "set_thread s t th pc = s\<lparr>ls_threads := (ls_threads s)(t \<mapsto> th\<lparr>lt_pc := pc\<rparr>)\<rparr>"

definition set_lock :: "lock_state \<Rightarrow> lock_ref \<Rightarrow> lifecycle_lock \<Rightarrow> lock_state" where
  "set_lock s r l = s\<lparr>ls_heap := (ls_heap s)(r \<mapsto> l)\<rparr>"

text \<open>Look the lock up or create it (at the fresh reference \<open>fr\<close>), and count the new user.\<close>

definition enter_lock :: "lock_state \<Rightarrow> nat \<Rightarrow> sandbox_key \<Rightarrow> lock_ref \<Rightarrow> lock_state" where
  "enter_lock s t k fr =
     (case ls_locks s k of
        Some r \<Rightarrow>
          (case ls_heap s r of
             Some l \<Rightarrow> (set_lock s r (l\<lparr>ll_users := ll_users l + 1\<rparr>))
                         \<lparr>ls_threads := (ls_threads s)(t \<mapsto> \<lparr>lt_key = k, lt_ref = r, lt_pc = LWaiting\<rparr>)\<rparr>
           | None \<Rightarrow> s)
      | None \<Rightarrow> (set_lock s fr \<lparr>ll_taken = False, ll_users = 1\<rparr>)
                  \<lparr>ls_locks := (ls_locks s)(k \<mapsto> fr),
                   ls_threads := (ls_threads s)(t \<mapsto> \<lparr>lt_key = k, lt_ref = fr, lt_pc = LWaiting\<rparr>)\<rparr>)"

definition drop_user :: "lock_state \<Rightarrow> nat \<Rightarrow> lock_thread \<Rightarrow> lifecycle_lock \<Rightarrow> lock_state" where
  "drop_user s t th l =
     (let s1 = set_thread (set_lock s (lt_ref th) (l\<lparr>ll_users := ll_users l - 1\<rparr>)) t th LReturned in
      if ll_users l - 1 = 0 then s1\<lparr>ls_locks := (ls_locks s)(lt_key th := None)\<rparr> else s1)"

inductive lock_step :: "lock_state \<Rightarrow> lock_state \<Rightarrow> bool" where
  lock_enter: "key_validate k = None \<Longrightarrow> ls_threads s t = None \<Longrightarrow> ls_heap s fr = None \<Longrightarrow>
     lock_step s (enter_lock s t k fr)"
| lock_acquire: "ls_threads s t = Some th \<Longrightarrow> lt_pc th = LWaiting \<Longrightarrow> ls_heap s (lt_ref th) = Some l \<Longrightarrow>
     \<not> ll_taken l \<Longrightarrow> lock_step s (set_thread (set_lock s (lt_ref th) (l\<lparr>ll_taken := True\<rparr>)) t th LInside)"
| lock_cancel: "ls_threads s t = Some th \<Longrightarrow> lt_pc th = LWaiting \<Longrightarrow> lock_step s (set_thread s t th LDropping)"
| lock_release: "ls_threads s t = Some th \<Longrightarrow> lt_pc th = LInside \<Longrightarrow> ls_heap s (lt_ref th) = Some l \<Longrightarrow>
     ll_taken l \<Longrightarrow> lock_step s (set_thread (set_lock s (lt_ref th) (l\<lparr>ll_taken := False\<rparr>)) t th LDropping)"
| lock_drop: "ls_threads s t = Some th \<Longrightarrow> lt_pc th = LDropping \<Longrightarrow> ls_heap s (lt_ref th) = Some l \<Longrightarrow>
     lock_step s (drop_user s t th l)"

inductive lock_reach :: "lock_state \<Rightarrow> bool" where
  lreach_init: "lock_reach init_locks"
| lreach_step: "lock_reach s \<Longrightarrow> lock_step s s' \<Longrightarrow> lock_reach s'"

section \<open>The invariant\<close>

definition users :: "lock_state \<Rightarrow> lock_ref \<Rightarrow> nat set" where
  "users s r = {t. \<exists>th. ls_threads s t = Some th \<and> lt_ref th = r \<and> lt_pc th \<noteq> LReturned}"

definition insiders :: "lock_state \<Rightarrow> lock_ref \<Rightarrow> nat set" where
  "insiders s r = {t. \<exists>th. ls_threads s t = Some th \<and> lt_ref th = r \<and> lt_pc th = LInside}"

text \<open>
  A lock object counts exactly the calls that use it, its semaphore is taken exactly while one of
  them is inside, and every call that uses an object finds that object in the map under its key.
\<close>

definition lock_ok :: "lock_state \<Rightarrow> lock_ref \<Rightarrow> lifecycle_lock \<Rightarrow> bool" where
  "lock_ok s r l \<longleftrightarrow> finite (users s r) \<and> ll_users l = card (users s r) \<and>
     (if ll_taken l then \<exists>t. insiders s r = {t} else insiders s r = {})"

definition locks_inv :: "lock_state \<Rightarrow> bool" where
  "locks_inv s \<longleftrightarrow>
     (\<forall>r l. ls_heap s r = Some l \<longrightarrow> lock_ok s r l) \<and>
     (\<forall>r. ls_heap s r = None \<longrightarrow> users s r = {}) \<and>
     (\<forall>t th. ls_threads s t = Some th \<longrightarrow> lt_pc th \<noteq> LReturned \<longrightarrow> ls_locks s (lt_key th) = Some (lt_ref th)) \<and>
     (\<forall>k r. ls_locks s k = Some r \<longrightarrow> (\<exists>l. ls_heap s r = Some l \<and> 0 < ll_users l)) \<and>
     (\<forall>k k' r. ls_locks s k = Some r \<longrightarrow> ls_locks s k' = Some r \<longrightarrow> k = k')"


lemma locks_invD:
  assumes "locks_inv s"
  shows "ls_heap s r = Some l \<Longrightarrow> lock_ok s r l"
    and "ls_heap s r = None \<Longrightarrow> users s r = {}"
    and "ls_threads s t = Some th \<Longrightarrow> lt_pc th \<noteq> LReturned \<Longrightarrow> ls_locks s (lt_key th) = Some (lt_ref th)"
    and "ls_locks s k = Some r \<Longrightarrow> \<exists>l. ls_heap s r = Some l \<and> 0 < ll_users l"
    and "ls_locks s k = Some r \<Longrightarrow> ls_locks s k' = Some r \<Longrightarrow> k = k'"
  using assms unfolding locks_inv_def by blast+

lemma users_update:
  "ls_threads s' = (ls_threads s)(t \<mapsto> th) \<Longrightarrow>
     users s' r = (if lt_ref th = r \<and> lt_pc th \<noteq> LReturned then insert t (users s r) else users s r - {t})"
  by (auto simp: users_def split: if_splits)

lemma insiders_update:
  "ls_threads s' = (ls_threads s)(t \<mapsto> th) \<Longrightarrow>
     insiders s' r = (if lt_ref th = r \<and> lt_pc th = LInside then insert t (insiders s r) else insiders s r - {t})"
  by (auto simp: insiders_def split: if_splits)

lemma insiders_users: "insiders s r \<subseteq> users s r"
  by (auto simp: insiders_def users_def)

text \<open>A call that moves without starting or ending changes only its own lock's semaphore.\<close>

lemma locks_inv_move:
  assumes inv: "locks_inv s" and th: "ls_threads s t = Some th" and live: "lt_pc th \<noteq> LReturned" "pc \<noteq> LReturned"
    and hp: "ls_heap s (lt_ref th) = Some l"
    and s': "ls_threads s' = (ls_threads s)(t \<mapsto> th\<lparr>lt_pc := pc\<rparr>)"
      "ls_heap s' = (ls_heap s)(lt_ref th \<mapsto> l\<lparr>ll_taken := b\<rparr>)" "ls_locks s' = ls_locks s"
    and ins: "if b then \<exists>u. insiders s' (lt_ref th) = {u} else insiders s' (lt_ref th) = {}"
  shows "locks_inv s'"
proof -
  have t_in: "t \<in> users s (lt_ref th)" using th live(1) by (auto simp: users_def)
  have us: "users s' r = users s r" for r
    using users_update [OF s'(1)] t_in th live by (auto simp: users_def)
  have other: "insiders s' r = insiders s r" if "r \<noteq> lt_ref th" for r
    using insiders_update [OF s'(1)] that th by (auto simp: insiders_def)
  have "lock_ok s' r m" if "ls_heap s' r = Some m" for r m
  proof (cases "r = lt_ref th")
    case True
    with that locks_invD(1) [OF inv hp] ins show ?thesis by (auto simp: lock_ok_def s'(2) us)
  next
    case False
    with that have "lock_ok s r m" using locks_invD(1) [OF inv] by (simp add: s'(2))
    then show ?thesis by (simp add: lock_ok_def us other [OF False])
  qed
  moreover have "users s' r = {}" if "ls_heap s' r = None" for r
    using that locks_invD(2) [OF inv, of r] by (auto simp: us s'(2) split: if_splits)
  moreover have "ls_locks s' (lt_key th') = Some (lt_ref th')"
    if "ls_threads s' t' = Some th'" "lt_pc th' \<noteq> LReturned" for t' th'
    using that locks_invD(3) [OF inv, of t' th'] locks_invD(3) [OF inv th live(1)]
    by (auto simp: s' split: if_splits)
  moreover have "\<exists>m. ls_heap s' r = Some m \<and> 0 < ll_users m" if "ls_locks s' k = Some r" for k r
    using that locks_invD(4) [OF inv, of k r] hp by (auto simp: s')
  moreover have "k = k'" if "ls_locks s' k = Some r" "ls_locks s' k' = Some r" for k k' r
    using that locks_invD(5) [OF inv] by (simp add: s'(3))
  ultimately show ?thesis unfolding locks_inv_def by blast
qed

lemma enter_inv:
  assumes inv: "locks_inv s" and fresh: "ls_threads s t = None" "ls_heap s fr = None"
  shows "locks_inv (enter_lock s t k fr)"
proof -
  have not_user: "t \<notin> users s r" "t \<notin> insiders s r" for r
    using fresh(1) by (simp_all add: users_def insiders_def)
  obtain r l where s': "ls_threads (enter_lock s t k fr) = (ls_threads s)(t \<mapsto> \<lparr>lt_key = k, lt_ref = r, lt_pc = LWaiting\<rparr>)"
      "ls_heap (enter_lock s t k fr) = (ls_heap s)(r \<mapsto> l)" "ls_locks (enter_lock s t k fr) = (ls_locks s)(k \<mapsto> r)"
    and l: "ll_users l = Suc (card (users s r))" "finite (users s r)"
      "if ll_taken l then \<exists>u. insiders s r = {u} else insiders s r = {}"
    and only: "\<And>k'. ls_locks s k' = Some r \<Longrightarrow> k' = k"
  proof (cases "ls_locks s k")
    case None
    have e: "users s fr = {}" "insiders s fr = {}"
      using locks_invD(2) [OF inv fresh(2)] insiders_users [of s fr] by auto
    have "ls_locks s k' \<noteq> Some fr" for k'
      using locks_invD(4) [OF inv, of k' fr] fresh(2) by auto
    with None e show thesis
      by (intro that [of fr "\<lparr>ll_taken = False, ll_users = 1\<rparr>"]) (simp_all add: enter_lock_def set_lock_def)
  next
    case (Some r)
    with locks_invD(4) [OF inv] obtain l where l: "ls_heap s r = Some l" by blast
    from locks_invD(1) [OF inv l] have ok: "finite (users s r)" "ll_users l = card (users s r)"
      "if ll_taken l then \<exists>u. insiders s r = {u} else insiders s r = {}"
      by (simp_all add: lock_ok_def)
    show thesis
    proof (rule that [of r "l\<lparr>ll_users := ll_users l + 1\<rparr>"])
      show "if ll_taken (l\<lparr>ll_users := ll_users l + 1\<rparr>) then \<exists>u. insiders s r = {u} else insiders s r = {}"
        using ok(3) by simp
      show "k' = k" if "ls_locks s k' = Some r" for k'
        using locks_invD(5) [OF inv that Some] .
      show "ll_users (l\<lparr>ll_users := ll_users l + 1\<rparr>) = Suc (card (users s r))" using ok(2) by simp
      show "finite (users s r)" by (rule ok(1))
      show "ls_locks (enter_lock s t k fr) = (ls_locks s)(k \<mapsto> r)"
        using Some by (simp add: enter_lock_def set_lock_def l fun_upd_idem)
    qed (simp_all add: enter_lock_def set_lock_def l Some)
  qed
  let ?s' = "enter_lock s t k fr"
  have us: "users ?s' q = (if q = r then insert t (users s q) else users s q)" for q
    using users_update [OF s'(1)] not_user by auto
  have ins: "insiders ?s' q = insiders s q" for q
    using insiders_update [OF s'(1)] not_user by auto
  have "lock_ok ?s' q m" if "ls_heap ?s' q = Some m" for q m
  proof (cases "q = r")
    case True
    with that l not_user show ?thesis by (auto simp: lock_ok_def s'(2) us ins)
  next
    case False
    with that have "lock_ok s q m" using locks_invD(1) [OF inv] by (simp add: s'(2))
    with False show ?thesis by (simp add: lock_ok_def us ins)
  qed
  moreover have "users ?s' q = {}" if "ls_heap ?s' q = None" for q
    using that locks_invD(2) [OF inv, of q] by (auto simp: us s'(2) split: if_splits)
  moreover have "ls_locks ?s' (lt_key th') = Some (lt_ref th')"
    if h: "ls_threads ?s' t' = Some th'" "lt_pc th' \<noteq> LReturned" for t' th'
  proof (cases "t' = t")
    case True
    with h show ?thesis by (auto simp: s')
  next
    case False
    with h have old: "ls_threads s t' = Some th'" by (simp add: s'(1))
    note lk = locks_invD(3) [OF inv old h(2)]
    show ?thesis
    proof (cases "lt_key th' = k")
      case True
      have "lt_ref th' = r"
      proof (cases "ls_locks s k")
        case None
        with lk True show ?thesis by simp
      next
        case (Some r0)
        then obtain l0 where "ls_heap s r0 = Some l0" using locks_invD(4) [OF inv] by blast
        with Some have "ls_threads (enter_lock s t k fr) t = Some \<lparr>lt_key = k, lt_ref = r0, lt_pc = LWaiting\<rparr>"
          by (simp add: enter_lock_def)
        with s'(1) have "r0 = r" by simp
        with lk True Some show ?thesis by simp
      qed
      with True show ?thesis by (simp add: s'(3))
    next
      case False
      with lk show ?thesis by (simp add: s'(3))
    qed
  qed
  moreover have "\<exists>m. ls_heap ?s' q = Some m \<and> 0 < ll_users m" if "ls_locks ?s' k' = Some q" for k' q
    using that locks_invD(4) [OF inv, of k' q] l(1) by (auto simp: s' split: if_splits)
  moreover have "k1 = k2" if "ls_locks ?s' k1 = Some q" "ls_locks ?s' k2 = Some q" for k1 k2 q
    using that only locks_invD(5) [OF inv, of k1 q k2] by (auto simp: s'(3) split: if_splits)
  ultimately show ?thesis unfolding locks_inv_def by blast
qed

lemma drop_inv:
  assumes inv: "locks_inv s" and th: "ls_threads s t = Some th" "lt_pc th = LDropping"
    and hp: "ls_heap s (lt_ref th) = Some l"
  shows "locks_inv (drop_user s t th l)"
proof -
  let ?s' = "drop_user s t th l" and ?r = "lt_ref th"
  have s': "ls_threads ?s' = (ls_threads s)(t \<mapsto> th\<lparr>lt_pc := LReturned\<rparr>)"
    "ls_heap ?s' = (ls_heap s)(?r \<mapsto> l\<lparr>ll_users := ll_users l - 1\<rparr>)"
    "ls_locks ?s' = (if ll_users l - 1 = 0 then (ls_locks s)(lt_key th := None) else ls_locks s)"
    by (simp_all add: drop_user_def set_thread_def set_lock_def Let_def)
  from locks_invD(1) [OF inv hp] have ok: "finite (users s ?r)" "ll_users l = card (users s ?r)"
    "if ll_taken l then \<exists>u. insiders s ?r = {u} else insiders s ?r = {}"
    by (simp_all add: lock_ok_def)
  have t_in: "t \<in> users s ?r" using th by (auto simp: users_def)
  have us: "users ?s' q = (if q = ?r then users s q - {t} else users s q)" for q
    using users_update [OF s'(1)] th by (auto simp: users_def)
  have ins: "insiders ?s' q = insiders s q" for q
    using insiders_update [OF s'(1)] th by (auto simp: insiders_def)
  have lk: "ls_locks s (lt_key th) = Some ?r" using locks_invD(3) [OF inv th(1)] th(2) by simp
  have "lock_ok ?s' q m" if "ls_heap ?s' q = Some m" for q m
  proof (cases "q = ?r")
    case True
    with that have "m = l\<lparr>ll_users := ll_users l - 1\<rparr>" by (simp add: s'(2))
    with True ok t_in show ?thesis by (simp add: lock_ok_def us ins)
  next
    case False
    with that have "lock_ok s q m" using locks_invD(1) [OF inv] by (simp add: s'(2))
    with False show ?thesis by (simp add: lock_ok_def us ins)
  qed
  moreover have "users ?s' q = {}" if "ls_heap ?s' q = None" for q
    using that locks_invD(2) [OF inv, of q] by (auto simp: us s'(2) split: if_splits)
  moreover have "ls_locks ?s' (lt_key th') = Some (lt_ref th')"
    if h: "ls_threads ?s' t' = Some th'" "lt_pc th' \<noteq> LReturned" for t' th'
  proof -
    from h have old: "t' \<noteq> t" "ls_threads s t' = Some th'" by (auto simp: s'(1) split: if_splits)
    note lk' = locks_invD(3) [OF inv old(2) h(2)]
    have "lt_key th' \<noteq> lt_key th" if "ll_users l - 1 = 0"
    proof
      assume "lt_key th' = lt_key th"
      with lk lk' have "lt_ref th' = ?r" by simp
      with old h(2) have "t' \<in> users s ?r" by (auto simp: users_def)
      with t_in old(1) ok(1) have "card {t, t'} \<le> card (users s ?r)" by (intro card_mono) auto
      with old(1) that ok(2) show False by simp
    qed
    with lk' show ?thesis by (simp add: s'(3))
  qed
  moreover have "\<exists>m. ls_heap ?s' q = Some m \<and> 0 < ll_users m" if k': "ls_locks ?s' k' = Some q" for k' q
  proof (cases "q = ?r")
    case True
    from k' have old: "ls_locks s k' = Some q" by (auto simp: s'(3) split: if_splits)
    with True lk locks_invD(5) [OF inv] have "k' = lt_key th" by blast
    with k' have "ll_users l - 1 \<noteq> 0" by (auto simp: s'(3) split: if_splits)
    with True show ?thesis by (simp add: s'(2))
  next
    case False
    from k' have "ls_locks s k' = Some q" by (auto simp: s'(3) split: if_splits)
    with False locks_invD(4) [OF inv] show ?thesis by (simp add: s'(2))
  qed
  moreover have "k1 = k2" if "ls_locks ?s' k1 = Some q" "ls_locks ?s' k2 = Some q" for k1 k2 q
    using that locks_invD(5) [OF inv, of k1 q k2] by (auto simp: s'(3) split: if_splits)
  ultimately show ?thesis unfolding locks_inv_def by blast
qed

lemma live_heap:
  assumes "locks_inv s" "ls_threads s t = Some th" "lt_pc th \<noteq> LReturned"
  obtains l where "ls_heap s (lt_ref th) = Some l"
  using locks_invD(4) [OF assms(1) locks_invD(3) [OF assms]] by blast

lemma lock_step_inv: "lock_step s s' \<Longrightarrow> locks_inv s \<Longrightarrow> locks_inv s'"
proof (induction rule: lock_step.induct)
  case (lock_enter k s t fr)
  then show ?case by (intro enter_inv)
next
  case (lock_acquire s t th l)
  from locks_invD(1) [OF lock_acquire.prems lock_acquire(3)] lock_acquire(4) have "insiders s (lt_ref th) = {}"
    by (simp add: lock_ok_def)
  then have "insiders (set_thread (set_lock s (lt_ref th) (l\<lparr>ll_taken := True\<rparr>)) t th LInside) (lt_ref th) = {t}"
    by (subst insiders_update [where t = t and th = "th\<lparr>lt_pc := LInside\<rparr>" and s = s])
      (simp_all add: set_thread_def set_lock_def)
  then show ?case
    by (intro locks_inv_move [OF lock_acquire.prems lock_acquire(1) _ _ lock_acquire(3), where pc = LInside and b = True])
      (simp_all add: lock_acquire(2) set_thread_def set_lock_def)
next
  case (lock_cancel s t th)
  from live_heap [OF lock_cancel.prems lock_cancel(1)] lock_cancel(2) obtain l where l: "ls_heap s (lt_ref th) = Some l"
    by auto
  have same: "insiders (set_thread s t th LDropping) (lt_ref th) = insiders s (lt_ref th)"
    by (subst insiders_update [where t = t and th = "th\<lparr>lt_pc := LDropping\<rparr>" and s = s])
      (use lock_cancel(1,2) in \<open>auto simp: set_thread_def insiders_def\<close>)
  with locks_invD(1) [OF lock_cancel.prems l]
  have "if ll_taken l then \<exists>u. insiders (set_thread s t th LDropping) (lt_ref th) = {u}
      else insiders (set_thread s t th LDropping) (lt_ref th) = {}"
    by (simp add: lock_ok_def)
  then show ?case
    by (intro locks_inv_move [OF lock_cancel.prems lock_cancel(1) _ _ l, where pc = LDropping and b = "ll_taken l"])
      (simp_all add: lock_cancel(2) set_thread_def fun_upd_idem l)
next
  case (lock_release s t th l)
  from locks_invD(1) [OF lock_release.prems lock_release(3)] lock_release(4)
  obtain u where "insiders s (lt_ref th) = {u}" by (auto simp: lock_ok_def)
  moreover have "t \<in> insiders s (lt_ref th)" using lock_release(1,2) by (auto simp: insiders_def)
  ultimately have "insiders (set_thread (set_lock s (lt_ref th) (l\<lparr>ll_taken := False\<rparr>)) t th LDropping) (lt_ref th) = {}"
    by (subst insiders_update [where t = t and th = "th\<lparr>lt_pc := LDropping\<rparr>" and s = s])
      (auto simp: set_thread_def set_lock_def)
  then show ?case
    by (intro locks_inv_move [OF lock_release.prems lock_release(1) _ _ lock_release(3), where pc = LDropping and b = False])
      (simp_all add: lock_release(2) set_thread_def set_lock_def)
next
  case (lock_drop s t th l)
  then show ?case by (intro drop_inv)
qed

lemma lock_reach_inv: "lock_reach s \<Longrightarrow> locks_inv s"
proof (induction rule: lock_reach.induct)
  case lreach_init
  then show ?case by (simp add: locks_inv_def init_locks_def users_def)
next
  case (lreach_step s s')
  then show ?case by (blast intro: lock_step_inv)
qed

section \<open>Properties\<close>

lemma lock_excludes_parts:
  assumes "lock_reach s" "ls_threads s t1 = Some th1" "lt_pc th1 = LInside"
    and "ls_threads s t2 = Some th2" "lt_pc th2 = LInside" "lt_key th1 = lt_key th2"
  shows "t1 = t2"
proof -
  note inv = lock_reach_inv [OF assms(1)]
  have "ls_locks s (lt_key th1) = Some (lt_ref th1)" "ls_locks s (lt_key th2) = Some (lt_ref th2)"
    using locks_invD(3) [OF inv] assms(2-5) by simp_all
  with assms(6) have r: "lt_ref th1 = lt_ref th2" by simp
  obtain l where l: "ls_heap s (lt_ref th1) = Some l" using live_heap [OF inv assms(2)] assms(3) by auto
  have "t1 \<in> insiders s (lt_ref th1)" "t2 \<in> insiders s (lt_ref th1)"
    using assms(2-5) r by (auto simp: insiders_def)
  with locks_invD(1) [OF inv l] show "t1 = t2" by (auto simp: lock_ok_def split: if_splits)
qed

lemma lock_map_exact:
  assumes "lock_reach s"
  shows "ls_locks s k \<noteq> None \<longleftrightarrow> (\<exists>t th. ls_threads s t = Some th \<and> lt_key th = k \<and> lt_pc th \<noteq> LReturned)"
proof -
  note inv = lock_reach_inv [OF assms(1)]
  show "ls_locks s k \<noteq> None \<longleftrightarrow> (\<exists>t th. ls_threads s t = Some th \<and> lt_key th = k \<and> lt_pc th \<noteq> LReturned)"
  proof
    assume "ls_locks s k \<noteq> None"
    then obtain r where r: "ls_locks s k = Some r" by blast
    from locks_invD(4) [OF inv r] obtain m where m: "ls_heap s r = Some m" "0 < ll_users m" by blast
    with locks_invD(1) [OF inv m(1)] have "users s r \<noteq> {}" by (auto simp: lock_ok_def)
    then obtain t th where th: "ls_threads s t = Some th" "lt_ref th = r" "lt_pc th \<noteq> LReturned"
      by (auto simp: users_def)
    with locks_invD(3) [OF inv th(1,3)] locks_invD(5) [OF inv r] have "lt_key th = k" by simp
    with th show "\<exists>t th. ls_threads s t = Some th \<and> lt_key th = k \<and> lt_pc th \<noteq> LReturned" by blast
  next
    assume "\<exists>t th. ls_threads s t = Some th \<and> lt_key th = k \<and> lt_pc th \<noteq> LReturned"
    with locks_invD(3) [OF inv] show "ls_locks s k \<noteq> None" by fastforce
  qed
qed

definition sample_inside :: lock_state where
  "sample_inside = \<lparr>ls_locks = [sample_key \<mapsto> 0], ls_heap = [0 \<mapsto> \<lparr>ll_taken = True, ll_users = 1\<rparr>],
     ls_threads = [0 \<mapsto> \<lparr>lt_key = sample_key, lt_ref = 0, lt_pc = LInside\<rparr>]\<rparr>"

lemma sample_inside_reach: "lock_reach sample_inside"
proof -
  let ?th = "\<lparr>lt_key = sample_key, lt_ref = 0, lt_pc = LWaiting\<rparr>" and ?l = "\<lparr>ll_taken = False, ll_users = 1\<rparr>"
  let ?s1 = "\<lparr>ls_locks = [sample_key \<mapsto> 0], ls_heap = [0 \<mapsto> ?l], ls_threads = [0 \<mapsto> ?th]\<rparr>"
  have "key_validate sample_key = None"
    by (simp add: key_validate_def sample_key_def sample_words)
  then have "lock_step init_locks (enter_lock init_locks 0 sample_key 0)"
    by (rule lock_enter) (simp_all add: init_locks_def)
  moreover have "enter_lock init_locks 0 sample_key 0 = ?s1"
    by (simp add: enter_lock_def init_locks_def set_lock_def)
  ultimately have r1: "lock_reach ?s1" using lreach_step [OF lreach_init] by simp
  have "lock_step ?s1 (set_thread (set_lock ?s1 (lt_ref ?th) (?l\<lparr>ll_taken := True\<rparr>)) 0 ?th LInside)"
    by (rule lock_acquire) simp_all
  moreover have "set_thread (set_lock ?s1 (lt_ref ?th) (?l\<lparr>ll_taken := True\<rparr>)) 0 ?th LInside = sample_inside"
    by (simp add: sample_inside_def set_thread_def set_lock_def)
  ultimately show ?thesis using lreach_step [OF r1] by simp
qed

text \<open>
  C38: The lifecycle lock excludes and does not leak. In every reachable state, under every
  interleaving of calls, releases and cancelled waits (and although the last user of a lock object
  removes it while others may be asking for the same key), at most one call per key is inside, and
  the map holds an entry for a key exactly while some call of that key has not returned.
\<close>

theorem lifecycle_lock_excludes:
  assumes "lock_reach s"
  shows "(\<forall>t1 th1 t2 th2. ls_threads s t1 = Some th1 \<longrightarrow> lt_pc th1 = LInside \<longrightarrow> ls_threads s t2 = Some th2 \<longrightarrow>
        lt_pc th2 = LInside \<longrightarrow> lt_key th1 = lt_key th2 \<longrightarrow> t1 = t2) \<and>
    (\<forall>k. ls_locks s k \<noteq> None \<longleftrightarrow> (\<exists>t th. ls_threads s t = Some th \<and> lt_key th = k \<and> lt_pc th \<noteq> LReturned))"
  using lock_excludes_parts [OF assms] lock_map_exact [OF assms] by blast

theorem lifecycle_lock_excludes_witness:
  "ls_locks sample_inside sample_key \<noteq> None \<longleftrightarrow>
     (\<exists>t th. ls_threads sample_inside t = Some th \<and> lt_key th = sample_key \<and> lt_pc th \<noteq> LReturned)"
  by (rule lifecycle_lock_excludes [OF sample_inside_reach, THEN conjunct2, rule_format])

end
