(* ===== verification/Compaction_Plan.thy ===== *)
theory Compaction_Plan
  imports Prelude "HOL-Library.Signed_Division"
begin

text \<open>
  Planning a context compaction (\<^verbatim>\<open>src/internal/agent/compaction/\<close>): the token estimator
  (\<^verbatim>\<open>src/internal/agent/token/estimator.go\<close>), the budgets of \<^verbatim>\<open>settings.go\<close> and the cut point of
  \<^verbatim>\<open>cutpoint.go\<close>.

  The tokenizer is a third-party library: it is the field \<open>es_encode\<close> of the estimator, with
  \<open>None\<close> for an encoding error. The calibration factor is a floating-point number; what the code
  computes with it, the rounded product with a count, is the function \<open>es_scale\<close>, \<open>None\<close> when
  the factor is 1. Token budgets are Go \<^verbatim>\<open>int\<close>s that stay far below the machine range; they are
  integers here.
\<close>

section \<open>Messages\<close>

record tool_call =
  tc_name :: string
  tc_args :: string

record content_part =
  cp_type :: string
  cp_text :: string
  cp_image :: bool

record message =
  m_role :: string
  m_content :: string
  m_parts :: "content_part list"
  m_name :: string
  m_call_id :: string
  m_calls :: "tool_call list"
  m_images :: "string list"
  m_reasoning :: string
  m_kind :: string
  m_turn :: string

section \<open>The token estimator\<close>

record estimator =
  es_encode :: "string \<Rightarrow> nat option"
  es_scale :: "(nat \<Rightarrow> nat) option"

definition per_message_overhead :: nat where "per_message_overhead = 3"
definition per_conversation_tail :: nat where "per_conversation_tail = 3"
definition per_tool_call_overhead :: nat where "per_tool_call_overhead = 4"
definition per_tool_def_overhead :: nat where "per_tool_def_overhead = 8"
definition estimated_image_tokens :: nat where "estimated_image_tokens = 1200"

definition estimate_string :: "estimator \<Rightarrow> string \<Rightarrow> nat" where
  "estimate_string e s =
     (if s = [] then 0
      else let count = (case es_encode e s of Some n \<Rightarrow> n | None \<Rightarrow> (length s + 3) div 4)
           in (case es_scale e of None \<Rightarrow> count | Some f \<Rightarrow> f count))"

definition estimate_part :: "estimator \<Rightarrow> content_part \<Rightarrow> nat" where
  "estimate_part e p =
     (if cp_image p \<or> cp_type p = ''image_url'' then estimated_image_tokens
      else estimate_string e (cp_text p))"

definition estimate_image_parts :: "estimator \<Rightarrow> message \<Rightarrow> nat" where
  "estimate_image_parts e m =
     (if m_parts m = [] then length (m_images m) * estimated_image_tokens
      else sum_list (map (estimate_part e) (m_parts m)))"

definition estimate_call :: "estimator \<Rightarrow> tool_call \<Rightarrow> nat" where
  "estimate_call e c = estimate_string e (tc_name c) + estimate_string e (tc_args c) + per_tool_call_overhead"

definition estimate_message :: "estimator \<Rightarrow> message \<Rightarrow> nat" where
  "estimate_message e m =
     per_message_overhead + estimate_string e (m_role m) + estimate_string e (m_content m) +
     estimate_string e (m_name m) + estimate_string e (m_call_id m) + estimate_string e (m_reasoning m) +
     estimate_image_parts e m + sum_list (map (estimate_call e) (m_calls m))"

definition estimate_messages :: "estimator \<Rightarrow> message list \<Rightarrow> nat" where
  "estimate_messages e ms = sum_list (map (estimate_message e) ms) + per_conversation_tail"

record tool_def =
  td_name :: string
  td_description :: string
  td_parameters :: string

definition estimate_tools :: "estimator \<Rightarrow> tool_def list \<Rightarrow> nat" where
  "estimate_tools e ts =
     sum_list (map (\<lambda>t. estimate_string e (td_name t) + estimate_string e (td_description t) +
                        estimate_string e (td_parameters t) + per_tool_def_overhead) ts)"

definition unscaled :: "estimator \<Rightarrow> estimator" where
  "unscaled e = \<lparr>es_encode = es_encode e, es_scale = None\<rparr>"

section \<open>Settings\<close>

record settings =
  s_enabled :: bool
  s_max_context :: int
  s_reserve :: int
  s_keep_recent :: int
  s_max_summary :: int
  s_stall :: int
  s_summarizer :: string
  s_summarizer_window :: int

definition default_reserve_tokens :: int where "default_reserve_tokens = 16384"
definition default_keep_recent_tokens :: int where "default_keep_recent_tokens = 20000"
definition default_stall_timeout :: int where "default_stall_timeout = 120 * 1000000000"

definition normalize :: "settings \<Rightarrow> settings" where
  "normalize s =
     (let s1 = (if s_reserve s \<le> 0 then s\<lparr>s_reserve := default_reserve_tokens\<rparr> else s);
          s2 = (if s_keep_recent s1 \<le> 0 then s1\<lparr>s_keep_recent := default_keep_recent_tokens\<rparr> else s1)
      in if 0 < s_max_context s2
         then let usable = s_max_context s2 - s_reserve s2; quarter = usable sdiv 4
              in if 0 < quarter \<and> quarter < s_keep_recent s2 then s2\<lparr>s_keep_recent := quarter\<rparr> else s2
         else s2)"

definition summarizer_window :: "settings \<Rightarrow> int" where
  "summarizer_window s = (if 0 < s_summarizer_window s then s_summarizer_window s else s_max_context s)"

definition stall_timeout :: "settings \<Rightarrow> int" where
  "stall_timeout s = (if 0 < s_stall s then s_stall s else default_stall_timeout)"

definition threshold :: "settings \<Rightarrow> int" where
  "threshold s = (if s_max_context s \<le> 0 then 0 else max (s_max_context s - s_reserve s) 1)"

definition should_compact :: "settings \<Rightarrow> int \<Rightarrow> bool" where
  "should_compact s context \<longleftrightarrow> s_enabled s \<and> 0 < threshold s \<and> threshold s < context"

definition summary_budget :: "settings \<Rightarrow> int" where
  "summary_budget s =
     (let b0 = (s_reserve s * 4) sdiv 5;
          b1 = (if 0 < s_max_summary s \<and> s_max_summary s < b0 then s_max_summary s else b0);
          b2 = (if 0 < s_keep_recent s \<and> s_keep_recent s < b1 then s_keep_recent s else b1)
      in max b2 1024)"

definition turn_prefix_budget :: "settings \<Rightarrow> int" where
  "turn_prefix_budget s = max (summary_budget s sdiv 2) 512"

text \<open>The prompt texts of \<^verbatim>\<open>prompts.go\<close>; their wording plays no role in the code.\<close>

record prompts =
  pr_system :: string
  pr_initial :: string
  pr_update :: string
  pr_turn_prefix :: string

definition summarizer_prompt_slack :: int where "summarizer_prompt_slack = 256"

definition summarizer_prompt_tokens :: "prompts \<Rightarrow> estimator \<Rightarrow> int" where
  "summarizer_prompt_tokens p e =
     int (estimate_string e (pr_system p)) +
     int (max (estimate_string e (pr_initial p)) (max (estimate_string e (pr_update p)) (estimate_string e (pr_turn_prefix p)))) +
     summarizer_prompt_slack"

definition summarizer_input_budget :: "prompts \<Rightarrow> settings \<Rightarrow> estimator \<Rightarrow> string \<Rightarrow> int \<Rightarrow> int" where
  "summarizer_input_budget p s e previous max_tokens =
     (let window = summarizer_window s in
      if window \<le> 0 then 0
      else let fixed = max_tokens + summarizer_prompt_tokens p e + int (estimate_string e previous)
           in max (((window - fixed) * 9) sdiv 10) 1)"

lemma normalize_budgets:
  "0 < s_reserve (normalize s)" "0 < s_keep_recent (normalize s)"
  "s_max_context (normalize s) = s_max_context s"
  by (simp_all add: normalize_def Let_def default_reserve_tokens_def default_keep_recent_tokens_def)

lemma normalize_quarter:
  assumes "0 < (s_max_context s - s_reserve (normalize s)) sdiv 4"
  shows "s_keep_recent (normalize s) \<le> (s_max_context s - s_reserve (normalize s)) sdiv 4"
proof -
  have "0 < s_max_context s"
  proof (rule ccontr)
    assume "\<not> 0 < s_max_context s"
    then have "s_max_context s - s_reserve (normalize s) < 0" using normalize_budgets(1) [of s] by simp
    then show False using assms by (simp add: signed_divide_int_def sgn_if split: if_splits)
  qed
  then show ?thesis using assms by (auto simp: normalize_def Let_def)
qed

section \<open>The cut point\<close>

record cut_point =
  first_kept :: nat
  turn_start :: "nat option"
  split_turn :: bool

definition is_cut_point_message :: "message \<Rightarrow> bool" where
  "is_cut_point_message m \<longleftrightarrow> m_role m \<noteq> ''tool''"

definition is_turn_start_message :: "message \<Rightarrow> bool" where
  "is_turn_start_message m \<longleftrightarrow> m_role m = ''user''"

definition history_start :: "message list \<Rightarrow> nat" where
  "history_start ms = (case ms of [] \<Rightarrow> 0 | m # _ \<Rightarrow> if m_role m = ''system'' then 1 else 0)"

text \<open>
  The loop from the newest message down: \<open>Suc i\<close> is about to add message \<open>i\<close>, \<open>acc\<close> is the
  size accumulated, \<open>best\<close> the best index so far.
\<close>

fun cut_loop :: "estimator \<Rightarrow> int \<Rightarrow> message list \<Rightarrow> nat \<Rightarrow> nat \<Rightarrow> nat \<Rightarrow> nat \<Rightarrow> nat" where
  "cut_loop e keep ms start 0 acc best = best"
| "cut_loop e keep ms start (Suc i) acc best =
     (if i < start then best
      else let acc' = acc + estimate_message e (ms ! i) in
           if keep < int acc' then best
           else cut_loop e keep ms start i acc' (if is_cut_point_message (ms ! i) then i else best))"

text \<open>The loop of \<^verbatim>\<open>findTurnStartIdx\<close>; \<open>Suc i\<close> is about to look at message \<open>i\<close>.\<close>

fun turn_start_loop :: "message list \<Rightarrow> nat \<Rightarrow> nat \<Rightarrow> nat option" where
  "turn_start_loop ms start 0 = None"
| "turn_start_loop ms start (Suc i) =
     (if i < start then None
      else if is_turn_start_message (ms ! i) then Some i
      else turn_start_loop ms start i)"

definition find_turn_start_idx :: "message list \<Rightarrow> nat \<Rightarrow> nat \<Rightarrow> nat option" where
  "find_turn_start_idx ms i start = turn_start_loop ms start (Suc i)"

definition find_cut_point :: "message list \<Rightarrow> int \<Rightarrow> int \<Rightarrow> estimator \<Rightarrow> cut_point" where
  "find_cut_point ms start0 keep e =
     (let start = nat start0;
          cuts = filter (\<lambda>i. is_cut_point_message (ms ! i)) [start..<length ms]
      in if cuts = [] then \<lparr>first_kept = start, turn_start = None, split_turn = False\<rparr>
         else let c = cut_loop e keep ms start (length ms) 0 (last cuts) in
              if is_turn_start_message (ms ! c)
              then \<lparr>first_kept = c, turn_start = None, split_turn = False\<rparr>
              else let ts = find_turn_start_idx ms c start
                   in \<lparr>first_kept = c, turn_start = ts, split_turn = (ts \<noteq> None)\<rparr>)"

text \<open>The cut, stated without the loops: legal places, and the estimated size of a suffix.\<close>

definition legal_cut :: "message list \<Rightarrow> nat \<Rightarrow> nat \<Rightarrow> bool" where
  "legal_cut ms start i \<longleftrightarrow> start \<le> i \<and> i < length ms \<and> is_cut_point_message (ms ! i)"

definition suffix_size :: "estimator \<Rightarrow> message list \<Rightarrow> nat \<Rightarrow> nat" where
  "suffix_size e ms i = sum_list (map (estimate_message e) (drop i ms))"

lemma suffix_size_step: "i < length ms \<Longrightarrow> suffix_size e ms i = estimate_message e (ms ! i) + suffix_size e ms (Suc i)"
  by (simp add: suffix_size_def Cons_nth_drop_Suc [symmetric])

lemma suffix_size_mono: "i \<le> j \<Longrightarrow> suffix_size e ms j \<le> suffix_size e ms i"
proof -
  assume "i \<le> j"
  then have "drop i ms = take (j - i) (drop i ms) @ drop j ms"
    by (metis append_take_drop_id drop_drop le_add_diff_inverse2)
  then show ?thesis
    unfolding suffix_size_def by (metis le_add2 map_append sum_list_append)
qed

definition fits :: "estimator \<Rightarrow> int \<Rightarrow> message list \<Rightarrow> nat \<Rightarrow> bool" where
  "fits e keep ms i \<longleftrightarrow> int (suffix_size e ms i) \<le> keep"

lemma fits_mono: "i \<le> j \<Longrightarrow> fits e keep ms i \<Longrightarrow> fits e keep ms j"
  using suffix_size_mono [of i j e ms] by (simp add: fits_def)

text \<open>The best index once the messages from \<open>n\<close> on have been looked at.\<close>

definition best_from :: "estimator \<Rightarrow> int \<Rightarrow> message list \<Rightarrow> nat \<Rightarrow> nat \<Rightarrow> nat \<Rightarrow> bool" where
  "best_from e keep ms start n b \<longleftrightarrow>
     legal_cut ms start b \<and>
     (\<forall>i \<ge> n. legal_cut ms start i \<longrightarrow> fits e keep ms i \<longrightarrow> b \<le> i) \<and>
     (n \<le> b \<and> fits e keep ms b \<or>
      (\<forall>i \<ge> n. legal_cut ms start i \<longrightarrow> \<not> fits e keep ms i) \<and> (\<forall>i. legal_cut ms start i \<longrightarrow> i \<le> b))"

lemma best_from_all:
  assumes "best_from e keep ms start n b" "\<And>i. i < n \<Longrightarrow> legal_cut ms start i \<Longrightarrow> \<not> fits e keep ms i"
  shows "best_from e keep ms start 0 b"
  using assms unfolding best_from_def by (metis le0 linorder_not_less)

lemma best_from_extend:
  assumes "best_from e keep ms start (Suc i) b" "fits e keep ms i" "i < length ms" "start \<le> i"
  shows "best_from e keep ms start i (if is_cut_point_message (ms ! i) then i else b)"
proof (cases "is_cut_point_message (ms ! i)")
  case True
  with assms(2-4) show ?thesis by (simp add: best_from_def legal_cut_def)
next
  case False
  then have "\<not> legal_cut ms start i" by (simp add: legal_cut_def)
  then have "i \<le> j \<and> legal_cut ms start j \<longleftrightarrow> Suc i \<le> j \<and> legal_cut ms start j" for j
    by (metis Suc_leD Suc_leI le_eq_less_or_eq)
  with assms(1) False show ?thesis unfolding best_from_def by (auto dest: Suc_leD)
qed

lemma cut_loop_best:
  "n \<le> length ms \<Longrightarrow> acc = suffix_size e ms n \<Longrightarrow> best_from e keep ms start n b \<Longrightarrow>
     best_from e keep ms start 0 (cut_loop e keep ms start n acc b)"
proof (induction e keep ms start n acc b rule: cut_loop.induct)
  case (1 e keep ms start acc b)
  then show ?case by simp
next
  case (2 e keep ms start i acc b)
  show ?case
  proof (cases "i < start")
    case True
    then have "best_from e keep ms start 0 b"
      by (intro best_from_all [OF "2.prems"(3)]) (auto simp: legal_cut_def)
    with True show ?thesis by simp
  next
    case False
    have acc: "acc + estimate_message e (ms ! i) = suffix_size e ms i"
      using "2.prems"(1,2) by (simp add: suffix_size_step)
    show ?thesis
    proof (cases "fits e keep ms i")
      case True
      then have le: "\<not> keep < int (acc + estimate_message e (ms ! i))" by (simp add: acc fits_def)
      have b: "best_from e keep ms start i (if is_cut_point_message (ms ! i) then i else b)"
        using "2.prems"(1,3) False True by (intro best_from_extend) simp_all
      have "i \<le> length ms" using "2.prems"(1) by simp
      from "2.IH" [OF False refl le this acc b] False le show ?thesis by (simp add: Let_def)
    next
      case nf: False
      then have gt: "keep < int (acc + estimate_message e (ms ! i))" by (simp add: acc fits_def)
      have "best_from e keep ms start 0 b"
      proof (rule best_from_all [OF "2.prems"(3)])
        show "\<not> fits e keep ms j" if "j < Suc i" for j
          using that nf fits_mono [of j i] by auto
      qed
      with False gt show ?thesis by (simp add: Let_def)
    qed
  qed
qed

lemma turn_start_loop_spec:
  "turn_start_loop ms start n = Some i \<Longrightarrow> start \<le> i \<and> i < n \<and> is_turn_start_message (ms ! i) \<and>
     (\<forall>j. i < j \<longrightarrow> j < n \<longrightarrow> \<not> is_turn_start_message (ms ! j))"
proof (induction ms start n rule: turn_start_loop.induct)
  case (2 ms start k)
  then show ?case by (auto split: if_splits simp: less_Suc_eq)
qed simp

lemma turn_start_loop_none:
  "turn_start_loop ms start n = None \<Longrightarrow> \<forall>j. start \<le> j \<longrightarrow> j < n \<longrightarrow> \<not> is_turn_start_message (ms ! j)"
  by (induction ms start n rule: turn_start_loop.induct) (auto split: if_splits simp: less_Suc_eq)

lemma sorted_le_last: "sorted xs \<Longrightarrow> x \<in> set xs \<Longrightarrow> x \<le> last xs" for xs :: "nat list"
  by (induction xs rule: rev_induct) (auto simp: sorted_append)

lemma last_cut_best:
  assumes "filter (\<lambda>i. is_cut_point_message (ms ! i)) [start..<length ms] \<noteq> []" (is "?cs \<noteq> []")
  shows "best_from e keep ms start (length ms) (last ?cs)"
proof -
  have mem: "i \<in> set ?cs \<longleftrightarrow> legal_cut ms start i" for i by (auto simp: legal_cut_def)
  have srt: "sorted ?cs" by (rule sorted_wrt_filter) simp
  have top: "i \<le> last ?cs" if "i \<in> set ?cs" for i
    using sorted_le_last [OF srt that] .
  have "legal_cut ms start (last ?cs)" using mem last_in_set [OF assms] by blast
  with top mem show ?thesis
    unfolding best_from_def by (auto simp: legal_cut_def)
qed

lemma find_cut_point_best:
  assumes "legal_cut ms (nat start) i"
  shows "best_from e keep ms (nat start) 0 (first_kept (find_cut_point ms start keep e))"
proof -
  let ?cs = "filter (\<lambda>i. is_cut_point_message (ms ! i)) [nat start..<length ms]"
  have "?cs \<noteq> []" using assms by (auto simp: legal_cut_def filter_empty_conv)
  from cut_loop_best [OF _ _ last_cut_best [OF this], of 0 e keep]
  have "best_from e keep ms (nat start) 0 (cut_loop e keep ms (nat start) (length ms) 0 (last ?cs))"
    by (simp add: suffix_size_def)
  with \<open>?cs \<noteq> []\<close> show ?thesis by (simp add: find_cut_point_def Let_def)
qed

lemma find_cut_point_turn:
  fixes ms :: "message list" and e :: estimator and keep start :: int
  defines "c \<equiv> find_cut_point ms start keep e"
  assumes "legal_cut ms (nat start) i0"
  shows "turn_start c = Some t \<longleftrightarrow> nat start \<le> t \<and> t < first_kept c \<and>
      is_turn_start_message (ms ! t) \<and> (\<forall>j. t < j \<and> j \<le> first_kept c \<longrightarrow> \<not> is_turn_start_message (ms ! j))"
    (is "_ \<longleftrightarrow> ?opens")
    and "split_turn c \<longleftrightarrow> turn_start c \<noteq> None"
proof -
  let ?loop = "turn_start_loop ms (nat start) (Suc (first_kept c))"
  have cuts: "filter (\<lambda>i. is_cut_point_message (ms ! i)) [nat start..<length ms] \<noteq> []"
    using assms(2) by (auto simp: legal_cut_def filter_empty_conv)
  then have turn: "turn_start c = (if is_turn_start_message (ms ! first_kept c) then None else ?loop)"
    by (simp add: c_def find_cut_point_def Let_def find_turn_start_idx_def)
  from cuts show "split_turn c \<longleftrightarrow> turn_start c \<noteq> None"
    by (simp add: c_def find_cut_point_def Let_def)
  show "turn_start c = Some t \<longleftrightarrow> ?opens"
  proof (cases ?loop)
    case None
    with turn turn_start_loop_none [OF None] show ?thesis by (auto simp: less_Suc_eq)
  next
    case (Some s)
    from turn_start_loop_spec [OF Some] have s: "nat start \<le> s" "s \<le> first_kept c"
      "is_turn_start_message (ms ! s)" "\<forall>j. s < j \<and> j \<le> first_kept c \<longrightarrow> \<not> is_turn_start_message (ms ! j)"
      by (auto simp: less_Suc_eq_le)
    show ?thesis
    proof
      assume "turn_start c = Some t"
      with turn Some s show ?opens by (auto simp: le_less split: if_splits)
    next
      assume t: ?opens
      then have "s = t" using s by (metis less_or_eq_imp_le linorder_neqE_nat)
      with t turn Some show "turn_start c = Some t" by simp
    qed
  qed
qed

lemma find_cut_point_split:
  fixes ms :: "message list" and e :: estimator and keep start :: int
  defines "c \<equiv> find_cut_point ms start keep e"
  assumes "split_turn c" "legal_cut ms (nat start) i0"
  shows "\<exists>t. turn_start c = Some t \<and> nat start \<le> t \<and> t < first_kept c"
  using assms(2) find_cut_point_turn [OF assms(3), of keep e] unfolding c_def by blast

lemma find_cut_point_none:
  assumes "\<nexists>i. legal_cut ms (nat start) i"
  shows "find_cut_point ms start keep e = \<lparr>first_kept = nat start, turn_start = None, split_turn = False\<rparr>"
proof -
  have "filter (\<lambda>i. is_cut_point_message (ms ! i)) [nat start..<length ms] = []"
    using assms by (auto simp: legal_cut_def filter_empty_conv)
  then show ?thesis by (simp add: find_cut_point_def)
qed

section \<open>Properties\<close>

lemma cut_point_parts:
  fixes e :: estimator and keep start :: int
  assumes "legal_cut ms (nat start) i0"
  defines "c \<equiv> find_cut_point ms start keep e"
  shows "legal_cut ms (nat start) (first_kept c)"
    and "\<forall>i. legal_cut ms (nat start) i \<longrightarrow> int (suffix_size e ms i) \<le> keep \<longrightarrow> first_kept c \<le> i"
    and "int (suffix_size e ms (first_kept c)) \<le> keep \<or>
      (\<forall>i. legal_cut ms (nat start) i \<longrightarrow> keep < int (suffix_size e ms i) \<and> i \<le> first_kept c)"
    and "turn_start c = Some t \<longleftrightarrow> nat start \<le> t \<and> t < first_kept c \<and>
      is_turn_start_message (ms ! t) \<and> (\<forall>j. t < j \<and> j \<le> first_kept c \<longrightarrow> \<not> is_turn_start_message (ms ! j))"
    and "split_turn c \<longleftrightarrow> turn_start c \<noteq> None"
proof -
  note best = find_cut_point_best [OF assms(1), of e keep, folded c_def]
  from best show "legal_cut ms (nat start) (first_kept c)"
    and "\<forall>i. legal_cut ms (nat start) i \<longrightarrow> int (suffix_size e ms i) \<le> keep \<longrightarrow> first_kept c \<le> i"
    and "int (suffix_size e ms (first_kept c)) \<le> keep \<or>
      (\<forall>i. legal_cut ms (nat start) i \<longrightarrow> keep < int (suffix_size e ms i) \<and> i \<le> first_kept c)"
    by (auto simp: best_from_def fits_def)
qed (unfold c_def, (rule find_cut_point_turn [OF assms(1)])+)

definition sample_message :: "string \<Rightarrow> string \<Rightarrow> message" where
  "sample_message role text = \<lparr>m_role = role, m_content = text, m_parts = [], m_name = [], m_call_id = [],
     m_calls = [], m_images = [], m_reasoning = [], m_kind = [], m_turn = []\<rparr>"

definition sample_history :: "message list" where
  "sample_history = [sample_message ''system'' ''s'', sample_message ''user'' ''q'',
     sample_message ''assistant'' ''call'', sample_message ''tool'' ''out'']"

definition sample_estimator :: estimator where
  "sample_estimator = \<lparr>es_encode = \<lambda>s. Some 1, es_scale = None\<rparr>"

text \<open>
  C40: The cut keeps as much recent history as fits. Whenever the history holds a message that is
  not a tool result, the cut falls in range and never on a tool result (so no tool result is
  separated from the call before it); if some legal cut leaves a suffix within the budget, the
  cut is the earliest such one, and otherwise it is the last legal one. The cut names a turn start
  exactly when it falls inside a turn that opened in range: the message named is then the nearest
  user message before it, and none is named when the cut falls on a user message or when no user
  message comes before it; the cut is marked as splitting a turn exactly when one is named.
\<close>

theorem cut_point_optimal:
  fixes e :: estimator and keep start :: int
  assumes "legal_cut ms (nat start) i0"
  defines "c \<equiv> find_cut_point ms start keep e"
  shows "legal_cut ms (nat start) (first_kept c) \<and>
    (\<forall>i. legal_cut ms (nat start) i \<longrightarrow> int (suffix_size e ms i) \<le> keep \<longrightarrow> first_kept c \<le> i) \<and>
    (int (suffix_size e ms (first_kept c)) \<le> keep \<or>
      (\<forall>i. legal_cut ms (nat start) i \<longrightarrow> keep < int (suffix_size e ms i) \<and> i \<le> first_kept c)) \<and>
    (\<forall>t. turn_start c = Some t \<longleftrightarrow> nat start \<le> t \<and> t < first_kept c \<and>
      is_turn_start_message (ms ! t) \<and>
      (\<forall>j. t < j \<and> j \<le> first_kept c \<longrightarrow> \<not> is_turn_start_message (ms ! j))) \<and>
    (split_turn c \<longleftrightarrow> turn_start c \<noteq> None)"
  unfolding c_def by (intro conjI allI cut_point_parts [OF assms(1)])

theorem cut_point_optimal_witness:
  "(let c = find_cut_point sample_history 1 11 sample_estimator in
    legal_cut sample_history 1 (first_kept c) \<and> first_kept c = 2 \<and> turn_start c = Some 1 \<and>
    (\<forall>i. legal_cut sample_history 1 i \<longrightarrow> int (suffix_size sample_estimator sample_history i) \<le> 11 \<longrightarrow> first_kept c \<le> i))"
proof -
  have l: "legal_cut sample_history (nat 1) 1"
    by (simp add: legal_cut_def sample_history_def sample_message_def is_cut_point_message_def)
  have "find_cut_point sample_history 1 11 sample_estimator = \<lparr>first_kept = 2, turn_start = Some 1, split_turn = True\<rparr>"
    by code_simp
  with cut_point_optimal [OF l, where keep = 11 and e = sample_estimator] show ?thesis by (simp add: Let_def)
qed

end
