(* ===== verification/File_Ops.thy ===== *)
theory File_Ops
  imports Compaction_Plan
begin

text \<open>
  The file paths a compacted history touched (\<^verbatim>\<open>src/internal/agent/compaction/fileops.go\<close>): they
  are extracted from tool calls, rendered into a block after the summary, and read back by the
  next compaction.

  The \<^verbatim>\<open>path\<close> argument of a tool call is read with \<^verbatim>\<open>encoding/json\<close>; that one decoding step is
  the parameter \<open>json_path\<close> (\<open>None\<close> when the arguments do not decode).
\<close>

record file_ops =
  fo_read :: "string list"
  fo_written :: "string list"
  fo_edited :: "string list"

definition max_tracked_file_paths :: nat where
  "max_tracked_file_paths = 50"

definition append_unique :: "string list \<Rightarrow> string \<Rightarrow> string list" where
  "append_unique l path =
     (let p = trim_space path in
      if p = [] \<or> max_tracked_file_paths \<le> length l then l
      else if p \<in> set l then l
      else l @ [p])"

definition newline :: char where
  "newline = CHR 0x0A"

text \<open>\<^verbatim>\<open>strings.Split(s, "\n")\<close> and \<^verbatim>\<open>strings.Join(ss, "\n")\<close>.\<close>

fun split_lines :: "string \<Rightarrow> string list" where
  "split_lines [] = [[]]"
| "split_lines (c # s) =
     (if c = newline then [] # split_lines s
      else (case split_lines s of [] \<Rightarrow> [[c]] | l # ls \<Rightarrow> (c # l) # ls))"

fun join_lines :: "string list \<Rightarrow> string" where
  "join_lines [] = []"
| "join_lines [p] = p"
| "join_lines (p # ps) = p @ newline # join_lines ps"

definition open_tag :: "string \<Rightarrow> string" where
  "open_tag tag = ''<'' @ tag @ ''>''"

definition close_tag :: "string \<Rightarrow> string" where
  "close_tag tag = ''</'' @ tag @ ''>''"

definition read_files_tag :: string where "read_files_tag = ''read-files''"
definition modified_files_tag :: string where "modified_files_tag = ''modified-files''"

definition parse_tagged :: "string \<Rightarrow> string \<Rightarrow> string list" where
  "parse_tagged content tag =
     (case index_of content (open_tag tag) of
        None \<Rightarrow> []
      | Some i \<Rightarrow>
          let rest = drop (i + length (open_tag tag)) content in
          (case index_of rest (close_tag tag) of
             None \<Rightarrow> []
           | Some j \<Rightarrow> foldl append_unique [] (split_lines (take j rest))))"

definition parse_file_ops_block :: "string \<Rightarrow> string list \<times> string list" where
  "parse_file_ops_block content = (parse_tagged content read_files_tag, parse_tagged content modified_files_tag)"

definition inherit :: "file_ops \<Rightarrow> string \<Rightarrow> file_ops" where
  "inherit ops content =
     (if content = [] then ops
      else (case parse_file_ops_block content of (r, m) \<Rightarrow>
              ops\<lparr>fo_read := foldl append_unique (fo_read ops) r,
                  fo_written := foldl append_unique (fo_written ops) m\<rparr>))"

definition tool_call_path :: "(string \<Rightarrow> string option) \<Rightarrow> string \<Rightarrow> string" where
  "tool_call_path json_path args = (case json_path args of None \<Rightarrow> [] | Some p \<Rightarrow> trim_space p)"

definition record_call :: "(string \<Rightarrow> string option) \<Rightarrow> file_ops \<Rightarrow> tool_call \<Rightarrow> file_ops" where
  "record_call json_path ops tc =
     (let path = tool_call_path json_path (tc_args tc) in
      if path = [] then ops
      else if tc_name tc = ''write_sandbox_file'' then ops\<lparr>fo_written := append_unique (fo_written ops) path\<rparr>
      else if tc_name tc = ''edit_sandbox_file'' then ops\<lparr>fo_edited := append_unique (fo_edited ops) path\<rparr>
      else if tc_name tc = ''read_file'' \<or> tc_name tc = ''read_sandbox_file''
        then ops\<lparr>fo_read := append_unique (fo_read ops) path\<rparr>
      else ops)"

definition extract_file_ops :: "(string \<Rightarrow> string option) \<Rightarrow> string \<Rightarrow> message list list \<Rightarrow> file_ops" where
  "extract_file_ops json_path previous groups =
     foldl (\<lambda>ops m. foldl (record_call json_path) (inherit ops (m_content m)) (m_calls m))
       (inherit \<lparr>fo_read = [], fo_written = [], fo_edited = []\<rparr> previous) (concat groups)"

definition resolve_ops :: "file_ops \<Rightarrow> string list \<times> string list" where
  "resolve_ops ops =
     (let modified = foldl append_unique (foldl append_unique [] (fo_written ops)) (fo_edited ops);
          read = foldl append_unique [] (filter (\<lambda>p. p \<notin> set modified) (fo_read ops))
      in (read, modified))"

definition write_tagged :: "string \<Rightarrow> string list \<Rightarrow> string" where
  "write_tagged tag paths =
     (if paths = [] then []
      else [newline, newline] @ open_tag tag @ [newline] @ join_lines paths @ [newline] @ close_tag tag)"

definition format_ops :: "file_ops \<Rightarrow> string" where
  "format_ops ops =
     (case resolve_ops ops of (read, modified) \<Rightarrow>
        if read = [] \<and> modified = [] then []
        else write_tagged read_files_tag read @ write_tagged modified_files_tag modified)"

section \<open>Tracked lists\<close>

text \<open>What \<open>append_unique\<close> maintains: distinct trimmed paths, no more than the limit.\<close>

definition tracked :: "string list \<Rightarrow> bool" where
  "tracked l \<longleftrightarrow> distinct l \<and> length l \<le> max_tracked_file_paths \<and> (\<forall>p \<in> set l. p \<noteq> [] \<and> trim_space p = p)"

lemma tracked_Nil [simp]: "tracked []"
  by (simp add: tracked_def)

lemma append_unique_tracked [wf_intros]: "tracked l \<Longrightarrow> tracked (append_unique l p)"
  by (auto simp: tracked_def append_unique_def Let_def)

lemma foldl_unique_tracked [wf_intros]: "tracked l \<Longrightarrow> tracked (foldl append_unique l ps)"
  by (induction ps arbitrary: l) (auto intro: append_unique_tracked)

lemma append_unique_Nil [simp]: "append_unique l [] = l"
  by (simp add: append_unique_def)

text \<open>A full list takes no further path: it is the newest paths that are dropped.\<close>

lemma append_unique_full: "length l = max_tracked_file_paths \<Longrightarrow> append_unique l p = l"
  by (simp add: append_unique_def Let_def)

lemma foldl_unique_id: "tracked (l @ ps) \<Longrightarrow> foldl append_unique l ps = l @ ps"
proof (induction ps arbitrary: l)
  case (Cons p ps)
  then have "append_unique l p = l @ [p]"
    by (auto simp: tracked_def append_unique_def Let_def)
  with Cons show ?case by simp
qed simp

lemma foldl_unique_set: "set (foldl append_unique l ps) \<subseteq> set l \<union> trim_space ` set ps"
proof (induction ps arbitrary: l)
  case (Cons p ps)
  have "set (append_unique l p) \<subseteq> insert (trim_space p) (set l)"
    by (auto simp: append_unique_def Let_def)
  with Cons.IH [of "append_unique l p"] show ?case by auto
qed simp

section \<open>Lines and tags\<close>

lemma split_lines_plain: "newline \<notin> set p \<Longrightarrow> split_lines p = [p]"
  by (induction p) auto

lemma split_lines_append: "newline \<notin> set p \<Longrightarrow> split_lines (p @ newline # s) = p # split_lines s"
  by (induction p) auto

lemma split_join_lines:
  "ps \<noteq> [] \<Longrightarrow> \<forall>p \<in> set ps. newline \<notin> set p \<Longrightarrow> split_lines (join_lines ps @ newline # s) = ps @ split_lines s"
  by (induction ps rule: join_lines.induct) (auto simp: split_lines_append)

lemma join_lines_chars: "c \<in> set (join_lines ps) \<Longrightarrow> c = newline \<or> (\<exists>p \<in> set ps. c \<in> set p)"
  by (induction ps rule: join_lines.induct) auto

definition clean_path :: "string \<Rightarrow> bool" where
  "clean_path p \<longleftrightarrow> newline \<notin> set p \<and> CHR ''<'' \<notin> set p"

lemma trim_left_suffix: "\<exists>u. s = u @ trim_left s"
proof (induction s rule: trim_left.induct)
  case (1 s)
  show ?case
  proof (cases "find (has_prefix s) utf8_spaces")
    case None
    then show ?thesis by (subst trim_left.simps) simp
  next
    case (Some w)
    from "1.IH" [OF Some] obtain u where "drop (length w) s = u @ trim_left s"
      using Some by (auto simp: trim_left.simps [of s])
    then have "s = (take (length w) s @ u) @ trim_left s"
      by (metis append.assoc append_take_drop_id)
    then show ?thesis by blast
  qed
qed

lemma trim_space_chars: "set (trim_space s) \<subseteq> set s"
proof -
  obtain u where u: "s = u @ trim_left s" using trim_left_suffix by blast
  obtain t where t: "trim_left s = trim_right (trim_left s) @ t" using trim_right_prefix by blast
  have "set (trim_right (trim_left s)) \<subseteq> set (trim_left s)" by (subst (2) t) simp
  also have "\<dots> \<subseteq> set s" by (subst (2) u) simp
  finally show ?thesis by (simp add: trim_space_def)
qed

lemma clean_trim: "clean_path p \<Longrightarrow> clean_path (trim_space p)"
  using trim_space_chars [of p] by (auto simp: clean_path_def)

text \<open>Where the first occurrence of a word is: behind text that does not hold its first letter, or
  behind text without the word that ends in a letter the word does not have.\<close>

lemma index_of_after:
  assumes "t \<noteq> []" "hd t \<notin> set s"
  shows "index_of (s @ t @ u) t = Some (length s)"
proof (rule index_of_SomeI)
  show "has_prefix (drop (length s) (s @ t @ u)) t" "length s \<le> length (s @ t @ u)" by simp_all
  show "\<forall>j < length s. \<not> has_prefix (drop j (s @ t @ u)) t"
  proof (intro allI impI notI)
    fix j assume j: "j < length s" and p: "has_prefix (drop j (s @ t @ u)) t"
    then obtain v where "drop j s @ t @ u = t @ v" by (auto simp: has_prefix_iff)
    moreover from j obtain x w where "drop j s = x # w" by (cases "drop j s") auto
    ultimately have "x = hd t" using assms(1) by (cases t) auto
    moreover have "x \<in> set s" using \<open>drop j s = x # w\<close> by (metis in_set_dropD list.set_intros(1))
    ultimately show False using assms(2) by simp
  qed
qed

lemma index_of_skip:
  assumes "\<not> contains_sub s t" "x \<notin> set t" "t \<noteq> []"
  shows "index_of (s @ x # u) t = map_option (\<lambda>i. Suc (length s) + i) (index_of u t)"
proof -
  have before: "\<not> has_prefix (drop j (s @ x # u)) t" if "j \<le> length s" for j
  proof
    assume "has_prefix (drop j (s @ x # u)) t"
    with that have p: "take (length t) (drop j s @ x # u) = t" by (simp add: has_prefix_def)
    show False
    proof (cases "length t \<le> length (drop j s)")
      case True
      with p have "take (length t) (drop j s) = t" by simp
      then have "s = take j s @ t @ drop (length t) (drop j s)"
        by (metis append_take_drop_id)
      with assms(1) show False using contains_sub_iff by metis
    next
      case False
      then have "x \<in> set (take (length t) (drop j s @ x # u))"
        by (cases "length t - length (drop j s)") (auto simp: take_Cons')
      with p assms(2) show False by simp
    qed
  qed
  have shift: "drop (Suc (length s) + i) (s @ x # u) = drop i u" for i by simp
  show ?thesis
  proof (cases "index_of u t")
    case None
    have "\<not> has_prefix (drop j (s @ x # u)) t" for j
    proof (cases "j \<le> length s")
      case False
      then obtain i where "j = Suc (length s) + i" by (metis add_Suc le_Suc_ex not_less_eq_eq)
      with index_of_NoneD [OF None] show ?thesis by (simp only: shift) simp
    qed (rule before)
    then have "index_of (s @ x # u) t = None" by (rule index_of_NoneI)
    with None show ?thesis by simp
  next
    case (Some i)
    note i = index_of_SomeD [OF Some]
    have "index_of (s @ x # u) t = Some (Suc (length s) + i)"
    proof (rule index_of_SomeI)
      show "has_prefix (drop (Suc (length s) + i) (s @ x # u)) t" using i by (simp only: shift)
      show "Suc (length s) + i \<le> length (s @ x # u)" using i by simp
      show "\<forall>j < Suc (length s) + i. \<not> has_prefix (drop j (s @ x # u)) t"
      proof (intro allI impI)
        fix j assume j: "j < Suc (length s) + i"
        show "\<not> has_prefix (drop j (s @ x # u)) t"
        proof (cases "j \<le> length s")
          case False
          then obtain k where "j = Suc (length s) + k" by (metis add_Suc le_Suc_ex not_less_eq_eq)
          with i j show ?thesis by (simp only: shift) simp
        qed (rule before)
      qed
    qed
    with Some show ?thesis by simp
  qed
qed

lemma open_tag_facts:
  "open_tag tag \<noteq> []" "hd (open_tag tag) = CHR ''<''" "close_tag tag \<noteq> []" "hd (close_tag tag) = CHR ''<''"
  by (simp_all add: open_tag_def close_tag_def)

lemma contains_head: "contains_sub s t \<Longrightarrow> t \<noteq> [] \<Longrightarrow> hd t \<in> set s"
  by (cases t) (auto simp: contains_sub_iff)

lemma clean_join: "\<forall>p \<in> set ps. clean_path p \<Longrightarrow> CHR ''<'' \<notin> set (join_lines ps)"
proof
  assume c: "\<forall>p \<in> set ps. clean_path p" and "CHR ''<'' \<in> set (join_lines ps)"
  from join_lines_chars [OF this(2)] c show False by (auto simp: clean_path_def newline_def)
qed

text \<open>Reading back a block that was just written, behind any text without its opening tag.\<close>

lemma parse_written:
  assumes "ps \<noteq> []" "tracked ps" "\<forall>p \<in> set ps. clean_path p" "\<not> contains_sub s (open_tag tag)" "newline \<notin> set tag"
  shows "parse_tagged (s @ write_tagged tag ps @ rest) tag = ps"
proof -
  let ?body = "newline # join_lines ps @ [newline]"
  let ?u = "newline # open_tag tag @ ?body @ close_tag tag @ rest"
  have content: "s @ write_tagged tag ps @ rest = s @ newline # ?u"
    using assms(1) by (simp add: write_tagged_def)
  have nl: "newline \<notin> set (open_tag tag)" using assms(5) by (auto simp: open_tag_def newline_def)
  have "index_of ?u (open_tag tag) = Some 1"
    using index_of_after [of "open_tag tag" "[newline]"] by (simp add: open_tag_facts newline_def)
  with index_of_skip [OF assms(4) nl open_tag_facts(1), of ?u]
  have i: "index_of (s @ newline # ?u) (open_tag tag) = Some (Suc (length s) + 1)" by simp
  have rest: "drop (Suc (length s) + 1 + length (open_tag tag)) (s @ newline # ?u) = ?body @ close_tag tag @ rest"
    by simp
  have "CHR ''<'' \<notin> set ?body" using clean_join [OF assms(3)] by (simp add: newline_def)
  then have j: "index_of (?body @ close_tag tag @ rest) (close_tag tag) = Some (length ?body)"
    by (intro index_of_after) (simp_all add: open_tag_facts)
  have "split_lines (newline # join_lines ps @ newline # []) = [] # ps @ [[]]"
    using split_join_lines [OF assms(1), of "[]"] assms(3) by (simp add: clean_path_def)
  then have lines: "split_lines ?body = [] # ps @ [[]]" by simp
  have "parse_tagged (s @ newline # ?u) tag = foldl append_unique [] (split_lines ?body)"
    unfolding parse_tagged_def i option.case Let_def rest j by simp
  also have "\<dots> = ps"
    unfolding lines using foldl_unique_id [of "[]" ps] assms(2) by simp
  finally show ?thesis by (simp only: content)
qed

lemma index_of_other:
  assumes "\<forall>p \<in> set ps. clean_path p" "\<not> contains_sub s (open_tag tag)" "newline \<notin> set tag"
    and "\<not> contains_sub (open_tag tag') (open_tag tag)" "index_of (close_tag tag') (open_tag tag) = None"
  shows "index_of (s @ write_tagged tag' ps) (open_tag tag) = None"
proof (cases "ps = []")
  case True
  with assms(2) show ?thesis by (simp add: write_tagged_def contains_sub_def)
next
  case False
  have nl: "newline \<notin> set (open_tag tag)" using assms(3) by (auto simp: open_tag_def newline_def)
  note skip = index_of_skip [OF _ nl open_tag_facts(1)]
  have join: "\<not> contains_sub (join_lines ps) (open_tag tag)" "\<not> contains_sub [] (open_tag tag)"
    using clean_join [OF assms(1)] contains_head [of "join_lines ps" "open_tag tag"]
      contains_head [of "[]" "open_tag tag"] open_tag_facts(1,2) [of tag] by auto
  have "index_of ([] @ newline # open_tag tag' @ newline # join_lines ps @ newline # close_tag tag') (open_tag tag) = None"
    by (simp only: skip [OF join(2)] skip [OF assms(4)] skip [OF join(1)] assms(5) option.map)
  then have "index_of (s @ newline # [] @ newline # open_tag tag' @ newline # join_lines ps @ newline # close_tag tag') (open_tag tag) = None"
    by (simp only: skip [OF assms(2)] option.map)
  with False show ?thesis by (simp add: write_tagged_def)
qed

lemma tag_facts:
  "newline \<notin> set read_files_tag" "newline \<notin> set modified_files_tag"
  "\<not> contains_sub (open_tag read_files_tag) (open_tag modified_files_tag)"
  "\<not> contains_sub (open_tag modified_files_tag) (open_tag read_files_tag)"
  "index_of (close_tag read_files_tag) (open_tag modified_files_tag) = None"
  "index_of (close_tag modified_files_tag) (open_tag read_files_tag) = None"
  by code_simp+

lemma parse_block:
  assumes "tracked r" "tracked m" "\<forall>p \<in> set r \<union> set m. clean_path p"
    and "\<not> contains_sub s (open_tag read_files_tag)" "\<not> contains_sub s (open_tag modified_files_tag)"
  shows "parse_file_ops_block (s @ write_tagged read_files_tag r @ write_tagged modified_files_tag m) = (r, m)"
proof -
  let ?sr = "s @ write_tagged read_files_tag r"
  have c: "\<forall>p \<in> set r. clean_path p" "\<forall>p \<in> set m. clean_path p" using assms(3) by auto
  have no_mod: "\<not> contains_sub ?sr (open_tag modified_files_tag)"
    using index_of_other [OF c(1) assms(5) tag_facts(2,3,5)] by (simp add: contains_sub_def)
  have "parse_tagged (?sr @ write_tagged modified_files_tag m) modified_files_tag = m"
  proof (cases "m = []")
    case True
    with no_mod show ?thesis by (simp add: parse_tagged_def write_tagged_def contains_sub_def)
  next
    case False
    from parse_written [OF False assms(2) c(2) no_mod tag_facts(2), of "[]"] show ?thesis by simp
  qed
  moreover have "parse_tagged (?sr @ write_tagged modified_files_tag m) read_files_tag = r"
  proof (cases "r = []")
    case True
    then have "?sr = s" by (simp add: write_tagged_def)
    with index_of_other [OF c(2) assms(4) tag_facts(1,4,6)] True show ?thesis
      by (simp add: parse_tagged_def)
  next
    case False
    from parse_written [OF False assms(1) c(1) assms(4) tag_facts(1)] show ?thesis by simp
  qed
  ultimately show ?thesis by (simp add: parse_file_ops_block_def)
qed

definition ops_tracked :: "file_ops \<Rightarrow> bool" where
  "ops_tracked ops \<longleftrightarrow> tracked (fo_read ops) \<and> tracked (fo_written ops) \<and> tracked (fo_edited ops)"

lemma inherit_tracked [wf_intros]: "ops_tracked ops \<Longrightarrow> ops_tracked (inherit ops content)"
  by (auto simp: ops_tracked_def inherit_def intro: foldl_unique_tracked split: prod.split)

lemma record_call_tracked [wf_intros]: "ops_tracked ops \<Longrightarrow> ops_tracked (record_call jp ops tc)"
  by (auto simp: ops_tracked_def record_call_def Let_def intro: append_unique_tracked)

lemma record_calls_tracked [wf_intros]: "ops_tracked ops \<Longrightarrow> ops_tracked (foldl (record_call jp) ops tcs)"
  by (induction tcs arbitrary: ops) (auto intro: record_call_tracked)

lemma extract_tracked: "ops_tracked (extract_file_ops jp previous groups)"
proof -
  have "ops_tracked ops \<Longrightarrow>
      ops_tracked (foldl (\<lambda>ops m. foldl (record_call jp) (inherit ops (m_content m)) (m_calls m)) ops ms)" for ops ms
    by (induction ms arbitrary: ops) (auto intro: record_calls_tracked inherit_tracked)
  moreover have "ops_tracked (inherit \<lparr>fo_read = [], fo_written = [], fo_edited = []\<rparr> previous)"
    by (rule inherit_tracked) (simp add: ops_tracked_def)
  ultimately show ?thesis by (simp add: extract_file_ops_def)
qed

lemma tracked_filter: "tracked l \<Longrightarrow> tracked (filter P l)"
  unfolding tracked_def by (auto intro: le_trans [OF length_filter_le])

lemma resolve_tracked:
  assumes "ops_tracked ops"
  obtains r m where "resolve_ops ops = (r, m)" "tracked r" "tracked m" "set r \<inter> set m = {}"
    "set r \<union> set m \<subseteq> set (fo_read ops) \<union> set (fo_written ops) \<union> set (fo_edited ops)"
proof -
  let ?m = "foldl append_unique (fo_written ops) (fo_edited ops)"
  let ?r = "filter (\<lambda>p. p \<notin> set ?m) (fo_read ops)"
  have t: "tracked (fo_read ops)" "tracked (fo_written ops)" "tracked (fo_edited ops)"
    using assms by (simp_all add: ops_tracked_def)
  have "foldl append_unique [] (fo_written ops) = fo_written ops"
    using foldl_unique_id [of "[]" "fo_written ops"] t(2) by simp
  moreover have "foldl append_unique [] ?r = ?r"
    using foldl_unique_id [of "[]" ?r] tracked_filter [OF t(1)] by simp
  ultimately have "resolve_ops ops = (?r, ?m)" by (simp add: resolve_ops_def Let_def)
  moreover have "tracked ?r" by (rule tracked_filter [OF t(1)])
  moreover have "tracked ?m" by (rule foldl_unique_tracked [OF t(2)])
  moreover have "set ?r \<inter> set ?m = {}" unfolding set_filter by blast
  moreover have "trim_space ` set (fo_edited ops) = set (fo_edited ops)"
    using t(3) unfolding tracked_def by (intro image_cong [where g = "\<lambda>p. p", simplified]) simp_all
  then have "set ?m \<subseteq> set (fo_written ops) \<union> set (fo_edited ops)"
    using foldl_unique_set [of "fo_written ops" "fo_edited ops"] by simp
  then have "set ?r \<union> set ?m \<subseteq> set (fo_read ops) \<union> set (fo_written ops) \<union> set (fo_edited ops)"
    unfolding set_filter by blast
  ultimately show thesis by (rule that)
qed

lemma resolve_resolved:
  assumes "tracked r" "tracked m" "set r \<inter> set m = {}"
  shows "resolve_ops \<lparr>fo_read = r, fo_written = m, fo_edited = []\<rparr> = (r, m)"
proof -
  have "filter (\<lambda>p. p \<notin> set m) r = r" using assms(3) by (auto intro: filter_True)
  with foldl_unique_id [of "[]" m] foldl_unique_id [of "[]" r] assms(1,2) show ?thesis
    by (simp add: resolve_ops_def)
qed

section \<open>Properties\<close>

text \<open>
  No touched file is forgotten by a compaction. Take the paths collected from any history,
  render them behind any summary text that does not itself open one of the two tags, and let the
  next compaction start from that summary: the paths it reports as read and as modified are
  exactly the ones reported before, provided no path holds a line break or a \<^verbatim>\<open><\<close>.
\<close>

lemma file_ops_survive_compaction:
  fixes previous :: string and groups :: "message list list" and jp :: "string \<Rightarrow> string option"
  defines "ops \<equiv> extract_file_ops jp previous groups"
  assumes "\<forall>p \<in> set (fo_read ops) \<union> set (fo_written ops) \<union> set (fo_edited ops). clean_path p"
    and "\<not> contains_sub summary (open_tag read_files_tag)" "\<not> contains_sub summary (open_tag modified_files_tag)"
  shows "resolve_ops (extract_file_ops jp (summary @ format_ops ops) []) = resolve_ops ops"
proof -
  have "ops_tracked ops" unfolding ops_def by (rule extract_tracked)
  then obtain r m where rm: "resolve_ops ops = (r, m)" "tracked r" "tracked m" "set r \<inter> set m = {}"
    "set r \<union> set m \<subseteq> set (fo_read ops) \<union> set (fo_written ops) \<union> set (fo_edited ops)"
    by (rule resolve_tracked)
  have fmt: "format_ops ops = write_tagged read_files_tag r @ write_tagged modified_files_tag m"
    by (simp add: format_ops_def rm(1) write_tagged_def)
  have parse: "parse_file_ops_block (summary @ format_ops ops) = (r, m)"
    unfolding fmt using rm assms(2-4) by (intro parse_block) blast+
  define c where "c = summary @ format_ops ops"
  have "extract_file_ops jp c [] = \<lparr>fo_read = r, fo_written = m, fo_edited = []\<rparr>"
  proof (cases "c = []")
    case True
    with parse have "r = []" "m = []"
      by (auto simp: c_def [symmetric] parse_file_ops_block_def parse_tagged_def index_of.simps [of "[]"]
          has_prefix_def open_tag_def)
    with True show ?thesis by (simp add: extract_file_ops_def inherit_def)
  next
    case False
    with parse foldl_unique_id [of "[]" r] foldl_unique_id [of "[]" m] rm(2,3) show ?thesis
      by (simp add: c_def [symmetric] extract_file_ops_def inherit_def)
  qed
  with rm(1) resolve_resolved [OF rm(2-4)] show ?thesis by (simp add: c_def)
qed

definition sample_reader :: message where
  "sample_reader = (sample_message ''assistant'' [])\<lparr>m_calls := [\<lparr>tc_name = ''read_file'', tc_args = ''a.md''\<rparr>,
     \<lparr>tc_name = ''write_sandbox_file'', tc_args = ''b.md''\<rparr>]\<rparr>"

lemma sample_ops:
  "extract_file_ops Some [] [[sample_reader]] = \<lparr>fo_read = [''a.md''], fo_written = [''b.md''], fo_edited = []\<rparr>"
  by (simp add: extract_file_ops_def inherit_def sample_reader_def sample_message_def record_call_def
      tool_call_path_def append_unique_def max_tracked_file_paths_def plain_word_trim plain_word_def plain_char_def)

end
