(* ===== verification/Compaction.thy ===== *)
theory Compaction
  imports File_Ops Json_Field
begin

text \<open>
  Compacting a conversation (\<^verbatim>\<open>prepare.go\<close>, \<^verbatim>\<open>serialize.go\<close>, \<^verbatim>\<open>compactor.go\<close> and \<^verbatim>\<open>overflow.go\<close> in
  \<^verbatim>\<open>src/internal/agent/compaction/\<close>): what is summarised, what is kept, the retries of the
  summarizer and the raw archive it degrades to.

  The summarizer is a language model: what its stream delivers is an argument. The rendering of
  tool-call arguments (\<^verbatim>\<open>renderToolArgs\<close>, which decodes and re-encodes JSON) is the field
  \<open>ce_render\<close>, the decoding of the \<^verbatim>\<open>path\<close> argument \<open>ce_path\<close>.
\<close>

record comp_env =
  ce_est :: estimator
  ce_prompts :: prompts
  ce_render :: "string \<Rightarrow> string"
  ce_path :: "string \<Rightarrow> string option"

section \<open>Transcripts\<close>

text \<open>
  The runes of a string, each as the bytes it is written back with: a byte that starts no valid
  encoding becomes U+FFFD.
\<close>

function runes :: "string \<Rightarrow> string list" where
  "runes s =
     (if s = [] then []
      else (if rune_size s = 1 \<and> 0x80 \<le> code_of (hd s) then [CHR 0xEF, CHR 0xBF, CHR 0xBD]
            else take (rune_size s) s) # runes (drop (rune_size s) s))"
  by pat_completeness auto
termination
  by (relation "measure length") (use rune_size_bounds in force)+

declare runes.simps [simp del]

definition truncate :: "string \<Rightarrow> nat \<Rightarrow> string" where
  "truncate s0 max_chars =
     (let s = trim_space s0; rs = runes s in
      if length rs \<le> max_chars then s
      else concat (take max_chars rs) @ [newline, newline] @ ''[... '' @ dec (length rs - max_chars) @
           '' more characters truncated]'')"

fun join :: "string \<Rightarrow> string list \<Rightarrow> string" where
  "join sep [] = []"
| "join sep [p] = p"
| "join sep (p # ps) = p @ sep @ join sep ps"

definition serialize_tool_calls :: "comp_env \<Rightarrow> tool_call list \<Rightarrow> string" where
  "serialize_tool_calls env calls =
     join ''; '' (map (\<lambda>tc. tc_name tc @ ''('' @ ce_render env (tc_args tc) @ '')'') calls)"

definition tool_result_max_chars :: nat where "tool_result_max_chars = 2000"
definition text_max_chars :: nat where "text_max_chars = 4000"

definition serialize_message :: "comp_env \<Rightarrow> message \<Rightarrow> string list" where
  "serialize_message env m =
     (if m_role m = ''user'' then
        (let c = truncate (m_content m) text_max_chars in if c \<noteq> [] then [''[User]: '' @ c] else [])
      else if m_role m = ''assistant'' then
        (if m_reasoning m \<noteq> [] then [''[Assistant thinking]: '' @ truncate (m_reasoning m) text_max_chars] else []) @
        (if m_content m \<noteq> [] then [''[Assistant]: '' @ truncate (m_content m) text_max_chars] else []) @
        (let calls = serialize_tool_calls env (m_calls m) in
         if calls \<noteq> [] then [''[Assistant tool calls]: '' @ calls] else [])
      else if m_role m = ''tool'' then
        (let c = truncate (m_content m) tool_result_max_chars in
         if c \<noteq> [] then [''[Tool result '' @ m_name m @ '']: '' @ c] else [])
      else [])"

definition serialize_conversation :: "comp_env \<Rightarrow> message list \<Rightarrow> string" where
  "serialize_conversation env ms = join [newline, newline] (concat (map (serialize_message env) ms))"

definition archive_line :: "comp_env \<Rightarrow> message \<Rightarrow> string" where
  "archive_line env m =
     (let text = truncate (m_content m) 500 in
      if m_role m = ''user'' then ''- User: '' @ text @ [newline]
      else if m_role m = ''assistant'' then
        (let calls = serialize_tool_calls env (m_calls m) in
         if calls \<noteq> [] then ''- Assistant ['' @ calls @ '']: '' @ text @ [newline]
         else ''- Assistant: '' @ text @ [newline])
      else if m_role m = ''tool'' then ''- Tool['' @ m_name m @ '']: '' @ text @ [newline]
      else [])"

text \<open>
  The backward loop that keeps the newest items within a budget, the newest one regardless:
  \<open>Suc i\<close> is about to add item \<open>i\<close> of sizes \<open>sz\<close>; the result is the number of old items left
  out. \<^verbatim>\<open>fitSummarizerInput\<close> and \<^verbatim>\<open>rawArchive\<close> share it.
\<close>

fun fit_loop :: "(nat \<Rightarrow> nat) \<Rightarrow> int \<Rightarrow> nat \<Rightarrow> nat \<Rightarrow> nat \<Rightarrow> nat" where
  "fit_loop sz budget len 0 used = 0"
| "fit_loop sz budget len (Suc i) used =
     (let used' = used + sz i in
      if budget < int used' \<and> Suc i < len then Suc i else fit_loop sz budget len i used')"

definition raw_archive :: "comp_env \<Rightarrow> message list \<Rightarrow> int \<Rightarrow> string" where
  "raw_archive env ms budget =
     (let lines = filter (\<lambda>l. l \<noteq> []) (map (archive_line env) ms);
          omitted = (if 0 < budget
                     then fit_loop (\<lambda>i. estimate_string (ce_est env) (lines ! i)) budget (length lines) (length lines) 0
                     else 0)
      in ''Raw conversation archive (LLM summarization unavailable):'' @ [newline, newline] @
         (if 0 < omitted then ''['' @ dec omitted @ '' earlier messages omitted]'' @ [newline] else []) @
         concat (drop omitted lines))"

definition fit_summarizer_input :: "comp_env \<Rightarrow> message list \<Rightarrow> int \<Rightarrow> message list \<times> nat" where
  "fit_summarizer_input env ms budget =
     (if budget \<le> 0 then (ms, 0)
      else let k = fit_loop (\<lambda>i. estimate_string (ce_est env) (serialize_conversation env [ms ! i]))
                     budget (length ms) (length ms) 0
           in (drop k ms, k))"

section \<open>Summary messages\<close>

definition summary_kind :: string where
  "summary_kind = ''compaction_summary''"

definition summary_prefix :: string where
  "summary_prefix = ''The conversation history before this point was compacted into the following summary:'' @
     [newline, newline] @ ''<summary>'' @ [newline]"

definition summary_suffix :: string where
  "summary_suffix = newline # ''</summary>''"

definition summary_message :: "string \<Rightarrow> message" where
  "summary_message summary =
     \<lparr>m_role = ''user'', m_content = summary_prefix @ summary @ summary_suffix, m_parts = [], m_name = [],
      m_call_id = [], m_calls = [], m_images = [], m_reasoning = [], m_kind = summary_kind, m_turn = []\<rparr>"

definition is_summary_message :: "message \<Rightarrow> bool" where
  "is_summary_message m \<longleftrightarrow> m_kind m = summary_kind \<or> has_prefix (m_content m) summary_prefix"

text \<open>\<^verbatim>\<open>strings.LastIndex\<close>.\<close>

fun last_index_of :: "string \<Rightarrow> string \<Rightarrow> nat option" where
  "last_index_of [] sub = (if sub = [] then Some 0 else None)"
| "last_index_of (c # s) sub =
     (case last_index_of s sub of
        Some i \<Rightarrow> Some (Suc i)
      | None \<Rightarrow> if has_prefix (c # s) sub then Some 0 else None)"

definition unwrap_summary :: "string \<Rightarrow> string" where
  "unwrap_summary content =
     (case index_of content ''<summary>'' of
        None \<Rightarrow> trim_space content
      | Some i \<Rightarrow>
          let start = i + length ''<summary>'' in
          (case last_index_of content ''</summary>'' of
             Some e \<Rightarrow> if e < start then trim_space (drop start content)
                        else trim_space (take (e - start) (drop start content))
           | None \<Rightarrow> trim_space (drop start content)))"

section \<open>Preparation\<close>

text \<open>
  The search for the newest summary: the index just after it and its text; \<open>Suc i\<close> is about to
  look at message \<open>i\<close>.
\<close>

fun boundary_loop :: "message list \<Rightarrow> nat \<Rightarrow> nat \<Rightarrow> string \<times> nat" where
  "boundary_loop ms start 0 = ([], start)"
| "boundary_loop ms start (Suc i) =
     (if i < start then ([], start)
      else if m_kind (ms ! i) \<noteq> summary_kind then boundary_loop ms start i
      else (unwrap_summary (m_content (ms ! i)), Suc i))"

definition clone_range :: "message list \<Rightarrow> nat \<Rightarrow> nat \<Rightarrow> message list" where
  "clone_range ms i j = take (min j (length ms) - i) (drop i ms)"

definition stored_turn_ending_at :: "message list \<Rightarrow> nat \<Rightarrow> string" where
  "stored_turn_ending_at ms n =
     (if n = 0 \<or> length ms < n then []
      else let tid = m_turn (ms ! (n - 1)) in
           if tid = [] then []
           else if n < length ms \<and> m_turn (ms ! n) = tid then []
           else tid)"

record preparation =
  p_first_kept :: nat
  p_to_summarize :: "message list"
  p_turn_prefix :: "message list"
  p_split :: bool
  p_previous :: string
  p_tokens_before :: nat
  p_omitted_history :: nat
  p_omitted_prefix :: nat
  p_file_ops :: file_ops
  p_history_file_ops :: file_ops
  p_stored_turn :: string

definition prepare :: "comp_env \<Rightarrow> message list \<Rightarrow> settings \<Rightarrow> preparation option" where
  "prepare env ms s0 =
     (if ms = [] then None
      else let s = normalize s0; e = ce_est env;
               (previous, boundary) = boundary_loop ms (history_start ms) (length ms)
           in if length ms \<le> boundary then None
              else let cut = find_cut_point ms (int boundary) (s_keep_recent s) e;
                       history_end = (case turn_start cut of
                          Some t \<Rightarrow> if split_turn cut then t else first_kept cut | None \<Rightarrow> first_kept cut);
                       to_summarize = clone_range ms boundary history_end;
                       turn_prefix = (if split_turn cut then clone_range ms history_end (first_kept cut) else [])
                   in if to_summarize = [] \<and> turn_prefix = [] then None
                      else let (fit_h, om_h) = fit_summarizer_input env to_summarize
                                 (summarizer_input_budget (ce_prompts env) s e previous (summary_budget s));
                               (fit_p, om_p) = fit_summarizer_input env turn_prefix
                                 (summarizer_input_budget (ce_prompts env) s e [] (turn_prefix_budget s))
                           in Some \<lparr>p_first_kept = first_kept cut, p_to_summarize = fit_h, p_turn_prefix = fit_p,
                                p_split = split_turn cut, p_previous = previous,
                                p_tokens_before = estimate_messages e ms, p_omitted_history = om_h,
                                p_omitted_prefix = om_p,
                                p_file_ops = extract_file_ops (ce_path env) previous [to_summarize, turn_prefix],
                                p_history_file_ops = extract_file_ops (ce_path env) previous [to_summarize],
                                p_stored_turn = stored_turn_ending_at ms history_end\<rparr>)"

text \<open>\<^verbatim>\<open>Apply\<close>: the system prompt, the summary, and the verbatim tail.\<close>

definition apply_compaction :: "message list \<Rightarrow> preparation \<Rightarrow> string \<Rightarrow> message list" where
  "apply_compaction ms p summary =
     (if history_start ms = 1 then [ms ! 0] else []) @
     summary_message summary # drop (min (p_first_kept p) (length ms)) ms"

record checkpoint =
  cp_turn :: string
  cp_summary :: string
  cp_degraded :: bool

definition prep_checkpoint :: "preparation \<Rightarrow> string \<Rightarrow> bool \<Rightarrow> checkpoint option" where
  "prep_checkpoint p history degraded =
     (if p_stored_turn p = [] \<or> p_to_summarize p = [] then None
      else Some \<lparr>cp_turn = p_stored_turn p, cp_summary = history @ format_ops (p_history_file_ops p),
                 cp_degraded = degraded\<rparr>)"

section \<open>The summarizer\<close>

definition is_length_stop :: "string \<Rightarrow> bool" where
  "is_length_stop r \<longleftrightarrow> to_lower (trim_space r) \<in> {''length'', ''max_tokens'', ''max_output_tokens''}"

definition validate_summary :: "string \<Rightarrow> string \<Rightarrow> string option" where
  "validate_summary content finish =
     (if trim_space content = [] then Some ''empty response from LLM''
      else if is_length_stop finish
        then Some ''generation hit the token cap and the summary is incomplete''
      else None)"

text \<open>
  What one summarization stream delivers: a chunk (its type, content and finish reason), the
  stall timer, the cancellation of the turn, or the end of the stream with \<^verbatim>\<open>ctx.Err()\<close> at that
  moment. A list of events that ends without a final one never ends: the call is then still
  waiting, which the stall timer rules out.
\<close>

datatype chunk_type = ChunkError | ChunkThinking | ChunkAnswer

datatype stream_event =
    SChunk chunk_type string string
  | SStall
  | SCancelled string
  | SClosed "string option"

fun stream_loop :: "stream_event list \<Rightarrow> string \<Rightarrow> string \<Rightarrow> string \<Rightarrow> (string + string \<times> string) option" where
  "stream_loop [] text finish err = None"
| "stream_loop (SStall # evs) text finish err = Some (Inl ''summarization stalled: no output'')"
| "stream_loop (SCancelled e # evs) text finish err = Some (Inl e)"
| "stream_loop (SClosed ctx # evs) text finish err =
     (case ctx of
        Some e \<Rightarrow> Some (Inl e)
      | None \<Rightarrow> if err \<noteq> [] then Some (Inl (''summarization stream error: '' @ err))
                else Some (Inr (text, finish)))"
| "stream_loop (SChunk ty content fin # evs) text finish err =
     (let finish' = (if fin \<noteq> [] then fin else finish) in
      case ty of
        ChunkError \<Rightarrow> stream_loop evs text finish' content
      | ChunkThinking \<Rightarrow> stream_loop evs text finish' err
      | ChunkAnswer \<Rightarrow> stream_loop evs (text @ content) finish' err)"

text \<open>
  One attempt: opening the stream may fail; then it runs to its end and the text is validated.
  The second component is whether the turn's context is done after a failure.
\<close>

record attempt =
  at_open :: "string option"
  at_events :: "stream_event list"
  at_stopped :: bool

definition attempt_text :: "attempt \<Rightarrow> string + string" where
  "attempt_text a =
     (case at_open a of
        Some e \<Rightarrow> Inl e
      | None \<Rightarrow>
          (case stream_loop (at_events a) [] [] [] of
             None \<Rightarrow> Inl ''summarization stalled: no output''
           | Some (Inl e) \<Rightarrow> Inl e
           | Some (Inr (content, finish)) \<Rightarrow>
               (case validate_summary content finish of Some e \<Rightarrow> Inl e | None \<Rightarrow> Inr (trim_space content))))"

definition max_summarization_attempts :: nat where
  "max_summarization_attempts = 2"

text \<open>
  The retries: attempt \<open>k\<close> of those left. The summarizer has two, and a separate summarizer leaves
  one more to the answering model.
\<close>

fun attempts_loop :: "(nat \<Rightarrow> attempt) \<Rightarrow> nat \<Rightarrow> nat \<Rightarrow> string \<Rightarrow> string + string" where
  "attempts_loop out k 0 err = Inl (''summarization failed after '' @ dec k @ '' attempts: '' @ err)"
| "attempts_loop out k (Suc n) err =
     (case attempt_text (out k) of
        Inr text \<Rightarrow> Inr text
      | Inl e \<Rightarrow>
          if at_stopped (out k) then Inl (''summarization failed after '' @ dec (Suc k) @ '' attempts: '' @ e)
          else attempts_loop out (Suc k) n e)"

definition summarize :: "bool \<Rightarrow> (nat \<Rightarrow> attempt) \<Rightarrow> string + string" where
  "summarize fallback out =
     attempts_loop out 0 (max_summarization_attempts + (if fallback then 1 else 0)) []"

definition join_non_empty :: "string list \<Rightarrow> string" where
  "join_non_empty parts = join [newline, newline] (filter (\<lambda>p. trim_space p \<noteq> []) parts)"

definition summarize_history ::
    "comp_env \<Rightarrow> settings \<Rightarrow> bool \<Rightarrow> (nat \<Rightarrow> attempt) \<Rightarrow> preparation \<Rightarrow> string \<times> bool" where
  "summarize_history env s fallback out p =
     (if p_to_summarize p = [] then (p_previous p, False)
      else (case summarize fallback out of
              Inl _ \<Rightarrow> (join_non_empty [p_previous p, raw_archive env (p_to_summarize p) (summary_budget s)], True)
            | Inr text \<Rightarrow> (text, False)))"

definition split_turn_separator :: string where
  "split_turn_separator = [newline, newline] @ ''---'' @ [newline, newline] @
     ''**Turn Context (split turn):**'' @ [newline, newline]"

definition append_turn_prefix ::
    "comp_env \<Rightarrow> settings \<Rightarrow> bool \<Rightarrow> (nat \<Rightarrow> attempt) \<Rightarrow> preparation \<Rightarrow> string \<Rightarrow> string \<times> bool" where
  "append_turn_prefix env s fallback out p history =
     (if \<not> p_split p \<or> p_turn_prefix p = [] then (history, False)
      else let (prefix, degraded) =
                 (case summarize fallback out of
                    Inl _ \<Rightarrow> (raw_archive env (p_turn_prefix p) (turn_prefix_budget s), True)
                  | Inr text \<Rightarrow> (text, False));
               h = (if history = [] then ''No prior history.'' else history)
           in (h @ split_turn_separator @ prefix, degraded))"

section \<open>Compaction\<close>

record compaction_result =
  cr_messages :: "message list"
  cr_summary :: string
  cr_tokens_before :: nat
  cr_tokens_after :: nat
  cr_degraded :: bool
  cr_split :: bool
  cr_checkpoint :: "checkpoint option"
  cr_omitted :: nat

definition freed :: "compaction_result \<Rightarrow> int" where
  "freed r = int (cr_tokens_before r) - int (cr_tokens_after r)"

text \<open>
  \<^verbatim>\<open>Compact\<close>, for a compactor with the (normalized) settings \<open>s\<close>: \<open>None\<close> is
  \<^verbatim>\<open>ErrNothingToCompact\<close>. \<open>out_h\<close> and \<open>out_p\<close> are the attempts of the two summarizations.
\<close>

definition compact ::
    "comp_env \<Rightarrow> settings \<Rightarrow> bool \<Rightarrow> (nat \<Rightarrow> attempt) \<Rightarrow> (nat \<Rightarrow> attempt) \<Rightarrow> message list \<Rightarrow> compaction_result option" where
  "compact env s fallback out_h out_p ms =
     (case prepare env ms s of
        None \<Rightarrow> None
      | Some p \<Rightarrow>
          let (history, dh) = summarize_history env s fallback out_h p;
              (summary0, dp) = append_turn_prefix env s fallback out_p p history;
              summary = summary0 @ format_ops (p_file_ops p);
              compacted = apply_compaction ms p summary
          in Some \<lparr>cr_messages = compacted, cr_summary = summary, cr_tokens_before = p_tokens_before p,
                   cr_tokens_after = estimate_messages (ce_est env) compacted, cr_degraded = dh \<or> dp,
                   cr_split = p_split p, cr_checkpoint = prep_checkpoint p history dh,
                   cr_omitted = p_omitted_history p + p_omitted_prefix p\<rparr>)"

definition new_compactor :: "bool \<Rightarrow> settings \<Rightarrow> settings option" where
  "new_compactor has_model s = (if \<not> has_model \<or> s_max_context s \<le> 0 then None else Some (normalize s))"

definition with_keep_recent :: "settings \<Rightarrow> int \<Rightarrow> settings" where
  "with_keep_recent s n = (if n \<le> 0 then s else normalize (s\<lparr>s_keep_recent := n\<rparr>))"

text \<open>\<^verbatim>\<open>ResponseHitContextLimit\<close>, for the prompt and completion counts of a response.\<close>

definition response_hit_context_limit :: "int \<Rightarrow> int \<Rightarrow> string \<Rightarrow> int \<Rightarrow> int \<Rightarrow> bool" where
  "response_hit_context_limit prompt completion finish window budget \<longleftrightarrow>
     (0 < window \<and> window < prompt) \<or>
     (0 < window \<and> is_length_stop finish \<and> completion = 0 \<and> 0 < prompt \<and> (window * 99) sdiv 100 \<le> prompt) \<or>
     (is_length_stop finish \<and> 0 < budget \<and> 0 < completion \<and> completion < budget)"

section \<open>What a compaction keeps\<close>

definition boundary_of :: "message list \<Rightarrow> nat" where
  "boundary_of ms = snd (boundary_loop ms (history_start ms) (length ms))"

text \<open>The messages a compaction could still summarise.\<close>

definition live_size :: "message list \<Rightarrow> nat" where
  "live_size ms = length ms - boundary_of ms"

lemma boundary_loop_bounds:
  "n \<le> length ms \<Longrightarrow> start \<le> snd (boundary_loop ms start n) \<and> snd (boundary_loop ms start n) \<le> max start n \<and>
     (\<forall>i. snd (boundary_loop ms start n) \<le> i \<longrightarrow> i < n \<longrightarrow> m_kind (ms ! i) \<noteq> summary_kind)"
proof (induction ms start n rule: boundary_loop.induct)
  case (2 ms start i)
  show ?case
  proof (cases "i < start \<or> m_kind (ms ! i) = summary_kind")
    case True
    then show ?thesis by auto
  next
    case False
    with "2" show ?thesis by (auto simp: less_Suc_eq)
  qed
qed auto

lemma boundary_loop_unique:
  assumes "start \<le> k" "k < n" "m_kind (ms ! k) = summary_kind" "\<forall>i. k < i \<longrightarrow> i < n \<longrightarrow> m_kind (ms ! i) \<noteq> summary_kind"
  shows "snd (boundary_loop ms start n) = Suc k"
  using assms
proof (induction ms start n rule: boundary_loop.induct)
  case (2 ms start i)
  show ?case
  proof (cases "i = k")
    case True
    with "2.prems" show ?thesis by auto
  next
    case False
    with "2.prems" have "k < i" "m_kind (ms ! i) \<noteq> summary_kind" "\<not> i < start" by auto
    with "2" show ?thesis by auto
  qed
qed simp

lemma clone_range_Nil: "clone_range ms i j = [] \<longleftrightarrow> min j (length ms) \<le> i"
  by (auto simp: clone_range_def)

lemma boundary_le: "history_start ms \<le> boundary_of ms" "boundary_of ms \<le> length ms"
  "boundary_of ms \<le> i \<Longrightarrow> i < length ms \<Longrightarrow> m_kind (ms ! i) \<noteq> summary_kind"
proof -
  have "history_start ms \<le> length ms" by (simp add: history_start_def split: list.split)
  with boundary_loop_bounds [of "length ms" ms "history_start ms"]
  show "history_start ms \<le> boundary_of ms" "boundary_of ms \<le> length ms"
    "boundary_of ms \<le> i \<Longrightarrow> i < length ms \<Longrightarrow> m_kind (ms ! i) \<noteq> summary_kind"
    by (auto simp: boundary_of_def)
qed

text \<open>The range a preparation replaces is not empty and starts after the previous summary.\<close>

lemma prepare_range:
  assumes "prepare env ms s = Some p"
  shows "boundary_of ms < p_first_kept p" "p_first_kept p < length ms"
    "is_cut_point_message (ms ! p_first_kept p)"
proof -
  let ?b = "boundary_of ms" and ?e = "ce_est env" and ?k = "s_keep_recent (normalize s)"
  let ?c = "find_cut_point ms (int ?b) ?k ?e"
  obtain prev where bl: "boundary_loop ms (history_start ms) (length ms) = (prev, ?b)"
    by (metis boundary_of_def surj_pair snd_conv)
  let ?he = "case turn_start ?c of Some t \<Rightarrow> if split_turn ?c then t else first_kept ?c | None \<Rightarrow> first_kept ?c"
  have fk: "p_first_kept p = first_kept ?c"
    and ne: "clone_range ms ?b ?he \<noteq> [] \<or> split_turn ?c"
    using assms by (auto simp: prepare_def bl Let_def split: if_splits prod.splits)
  have "\<exists>i. legal_cut ms ?b i"
  proof (rule ccontr)
    assume "\<nexists>i. legal_cut ms ?b i"
    then have "?c = \<lparr>first_kept = ?b, turn_start = None, split_turn = False\<rparr>"
      using find_cut_point_none [of ms "int ?b" ?k ?e] by simp
    with ne show False by (simp add: clone_range_Nil)
  qed
  then obtain i where i: "legal_cut ms ?b i" by blast
  with find_cut_point_best [of ms "int ?b" i ?e ?k] have legal: "legal_cut ms ?b (first_kept ?c)"
    by (simp add: best_from_def)
  then show "p_first_kept p < length ms" "is_cut_point_message (ms ! p_first_kept p)"
    by (simp_all add: fk legal_cut_def)
  show "?b < p_first_kept p"
  proof (cases "split_turn ?c")
    case True
    from find_cut_point_split [OF True] i obtain t where "?b \<le> t" "t < first_kept ?c" by auto
    then show ?thesis by (simp add: fk)
  next
    case False
    with ne have "clone_range ms ?b (first_kept ?c) \<noteq> []" by (auto split: option.splits)
    then show ?thesis by (simp add: fk clone_range_Nil)
  qed
qed

lemma apply_shape:
  assumes "prepare env ms s = Some p"
  shows "apply_compaction ms p summary =
      take (history_start ms) ms @ summary_message summary # drop (p_first_kept p) ms"
proof -
  have "take (history_start ms) ms = (if history_start ms = 1 then [ms ! 0] else [])"
    by (cases ms) (auto simp: history_start_def)
  with prepare_range(2) [OF assms] show ?thesis by (simp add: apply_compaction_def)
qed

lemma apply_history_start:
  assumes "prepare env ms s = Some p"
  shows "history_start (apply_compaction ms p summary) = history_start ms"
  unfolding apply_shape [OF assms]
  by (cases ms) (auto simp: history_start_def summary_message_def)

lemma apply_live_size:
  assumes "prepare env ms s = Some p"
  shows "live_size (apply_compaction ms p summary) = length ms - p_first_kept p"
proof -
  let ?ms' = "apply_compaction ms p summary" and ?h = "history_start ms"
  note r = prepare_range [OF assms] and shape = apply_shape [OF assms, of summary]
  have h: "?h \<le> length ms" by (simp add: history_start_def split: list.split)
  have len: "length ?ms' = Suc ?h + (length ms - p_first_kept p)"
    using h by (simp add: shape)
  have "snd (boundary_loop ?ms' (history_start ?ms') (length ?ms')) = Suc ?h"
  proof (rule boundary_loop_unique)
    show "history_start ?ms' \<le> ?h" by (simp add: apply_history_start [OF assms])
    show "?h < length ?ms'" by (simp add: len)
    show "m_kind (?ms' ! ?h) = summary_kind" using h by (simp add: shape nth_append summary_message_def)
    show "\<forall>i. ?h < i \<longrightarrow> i < length ?ms' \<longrightarrow> m_kind (?ms' ! i) \<noteq> summary_kind"
    proof (intro allI impI)
      fix i assume i: "?h < i" "i < length ?ms'"
      then obtain k where k: "i = Suc ?h + k" by (metis add_Suc less_iff_Suc_add)
      with h have "?ms' ! i = ms ! (p_first_kept p + k)"
        using r(2) by (simp add: shape nth_append)
      moreover have "p_first_kept p + k < length ms" using i(2) k len by simp
      ultimately show "m_kind (?ms' ! i) \<noteq> summary_kind"
        using boundary_le(3) [of ms "p_first_kept p + k"] r(1) by simp
    qed
  qed
  then have "boundary_of ?ms' = Suc ?h" by (simp add: boundary_of_def)
  then show ?thesis by (simp add: live_size_def len)
qed

lemma compaction_shrinks:
  assumes "prepare env ms s = Some p"
  shows "live_size (apply_compaction ms p summary) < live_size ms"
  using prepare_range [OF assms] apply_live_size [OF assms, of summary] boundary_le(2) [of ms]
  by (simp add: live_size_def)

text \<open>Compacting again and again, with whatever the summarizer answers, until nothing is left to do.\<close>

fun compact_rounds ::
    "comp_env \<Rightarrow> settings \<Rightarrow> (nat \<Rightarrow> nat \<Rightarrow> attempt) \<Rightarrow> (nat \<Rightarrow> nat \<Rightarrow> attempt) \<Rightarrow> nat \<Rightarrow> message list \<Rightarrow> message list \<times> bool" where
  "compact_rounds env s oh op 0 ms = (ms, False)"
| "compact_rounds env s oh op (Suc n) ms =
     (case compact env s False (oh n) (op n) ms of
        None \<Rightarrow> (ms, True)
      | Some r \<Rightarrow> compact_rounds env s oh op n (cr_messages r))"

lemma compact_messages:
  assumes "compact env s fb oh op ms = Some r"
  obtains p where "prepare env ms s = Some p" "cr_messages r = apply_compaction ms p (cr_summary r)"
  using assms by (auto simp: compact_def Let_def split: option.splits prod.splits)

lemma compact_rounds_end:
  "live_size ms < n \<Longrightarrow> snd (compact_rounds env s oh op n ms)"
proof (induction n arbitrary: ms)
  case (Suc n)
  show ?case
  proof (cases "compact env s False (oh n) (op n) ms")
    case None
    then show ?thesis by simp
  next
    case (Some r)
    from Some obtain p where "prepare env ms s = Some p" "cr_messages r = apply_compaction ms p (cr_summary r)"
      by (rule compact_messages)
    with compaction_shrinks [of env ms s p "cr_summary r"] Suc have "live_size (cr_messages r) < n" by simp
    from Suc.IH [OF this] Some show ?thesis by simp
  qed
qed simp

section \<open>Properties\<close>

text \<open>
  C39: Compaction terminates and keeps the tail. A compaction replaces a non-empty range that
  starts after the previous summary: the result is the system prompt (if any), one summary, and a
  verbatim suffix of the history that does not start with a tool result; it leaves strictly fewer
  messages that could still be summarised, so compacting again and again, whatever summaries the
  model writes or fails to write, reaches \<^verbatim>\<open>ErrNothingToCompact\<close> within one round more than the
  history has messages after its last summary.
\<close>

theorem compaction_terminates:
  "compact env s fb oh op ms = Some r \<Longrightarrow>
     (\<exists>k < length ms. boundary_of ms < k \<and> m_role (ms ! k) \<noteq> ''tool'' \<and>
        cr_messages r = take (history_start ms) ms @ summary_message (cr_summary r) # drop k ms) \<and>
     live_size (cr_messages r) < live_size ms"
  and "snd (compact_rounds env s rh rp (Suc (live_size ms)) ms)"
proof -
  assume "compact env s fb oh op ms = Some r"
  then obtain p where p: "prepare env ms s = Some p" "cr_messages r = apply_compaction ms p (cr_summary r)"
    by (rule compact_messages)
  from prepare_range [OF p(1)] apply_shape [OF p(1)] compaction_shrinks [OF p(1)]
  show "(\<exists>k < length ms. boundary_of ms < k \<and> m_role (ms ! k) \<noteq> ''tool'' \<and>
        cr_messages r = take (history_start ms) ms @ summary_message (cr_summary r) # drop k ms) \<and>
     live_size (cr_messages r) < live_size ms"
    unfolding p(2) is_cut_point_message_def by blast
next
  show "snd (compact_rounds env s rh rp (Suc (live_size ms)) ms)"
    by (rule compact_rounds_end) simp
qed

definition sample_comp_env :: comp_env where
  "sample_comp_env = \<lparr>ce_est = sample_estimator,
     ce_prompts = \<lparr>pr_system = ''s'', pr_initial = ''i'', pr_update = ''u'', pr_turn_prefix = ''t''\<rparr>,
     ce_render = \<lambda>a. a, ce_path = \<lambda>a. None\<rparr>"

definition sample_settings :: settings where
  "sample_settings = \<lparr>s_enabled = True, s_max_context = 0, s_reserve = 10, s_keep_recent = 11, s_max_summary = 0,
     s_stall = 0, s_summarizer = [], s_summarizer_window = 0\<rparr>"

definition sample_attempt :: "nat \<Rightarrow> attempt" where
  "sample_attempt k = \<lparr>at_open = None, at_events = [SChunk ChunkAnswer ''ok'' ''stop'', SClosed None], at_stopped = False\<rparr>"

lemma sample_compacts:
  obtains r where "compact sample_comp_env sample_settings False sample_attempt sample_attempt sample_history = Some r"
proof -
  have bl: "boundary_loop sample_history (history_start sample_history) (length sample_history) = ([], 1)"
    by code_simp
  have cut: "find_cut_point sample_history (int 1) (s_keep_recent (normalize sample_settings)) (ce_est sample_comp_env) =
      \<lparr>first_kept = 2, turn_start = Some 1, split_turn = True\<rparr>"
    by code_simp
  have len: "length sample_history = 4" "sample_history \<noteq> []" by (simp_all add: sample_history_def)
  have "prepare sample_comp_env sample_history sample_settings \<noteq> None"
    unfolding prepare_def bl Let_def prod.case cut using len by (simp add: clone_range_Nil split: prod.split)
  then obtain p where p: "prepare sample_comp_env sample_history sample_settings = Some p" by blast
  have "\<exists>r. compact sample_comp_env sample_settings False sample_attempt sample_attempt sample_history = Some r"
    unfolding compact_def p option.case Let_def by (simp split: prod.split)
  with that show thesis by blast
qed

theorem compaction_terminates_witness:
  "\<exists>r. compact sample_comp_env sample_settings False sample_attempt sample_attempt sample_history = Some r \<and>
     live_size (cr_messages r) < live_size sample_history"
proof -
  obtain r where r: "compact sample_comp_env sample_settings False sample_attempt sample_attempt sample_history = Some r"
    by (rule sample_compacts)
  with compaction_terminates(1) [OF r] show ?thesis by blast
qed

end
