(* ===== verification/Handle_Table.thy ===== *)
theory Handle_Table
  imports Prelude
begin

text \<open>
  Model handles (\<^verbatim>\<open>src/internal/modelcontext/\<close>): the table behind every handle space
  (\<^verbatim>\<open>handle_table.go\<close>), the exported wrapper with its text codecs (\<^verbatim>\<open>handles.go\<close>) and the source
  registry of one response (\<^verbatim>\<open>sources.go\<close>).

  A table is shared under one lock, so its methods are functions from table to table; a nil table
  is \<open>None\<close>. The metadata of an entry is the type \<open>'m\<close>. Handle numbers count registrations and
  stay far below the machine range; they are natural numbers.
\<close>

section \<open>The table\<close>

record 'm handle_table =
  ht_prefix :: string
  ht_width :: nat
  ht_next :: nat
  ht_by_key :: "string \<rightharpoonup> string"
  ht_entries :: "string \<rightharpoonup> (string \<times> 'm)"

definition new_handle_table :: "string \<Rightarrow> nat \<Rightarrow> nat \<Rightarrow> 'm handle_table" where
  "new_handle_table prefix width start =
     \<lparr>ht_prefix = prefix, ht_width = width, ht_next = start, ht_by_key = Map.empty, ht_entries = Map.empty\<rparr>"

definition handle_number :: "nat \<Rightarrow> nat \<Rightarrow> string" where
  "handle_number width n = (if 0 < width then pad_zero width (dec n) else dec n)"

definition register ::
    "'m handle_table \<Rightarrow> string \<Rightarrow> string \<Rightarrow> 'm \<Rightarrow> ('m \<Rightarrow> 'm \<Rightarrow> 'm) option \<Rightarrow> string \<times> 'm handle_table" where
  "register t key val meta merge =
     (if key = [] then ([], t)
      else (case ht_by_key t key of
              Some h \<Rightarrow>
                (h, case merge of
                      None \<Rightarrow> t
                    | Some f \<Rightarrow> t\<lparr>ht_entries := (ht_entries t)(h :=
                        map_option (\<lambda>(v, m). (v, f m meta)) (ht_entries t h))\<rparr>)
            | None \<Rightarrow>
                let h = ht_prefix t @ handle_number (ht_width t) (ht_next t)
                in (h, t\<lparr>ht_next := Suc (ht_next t), ht_by_key := (ht_by_key t)(key \<mapsto> h),
                        ht_entries := (ht_entries t)(h \<mapsto> (val, meta))\<rparr>)))"

definition handle_for_key :: "'m handle_table option \<Rightarrow> string \<Rightarrow> string option" where
  "handle_for_key t key = (case t of None \<Rightarrow> None | Some t \<Rightarrow> ht_by_key t key)"

definition resolve :: "'m handle_table option \<Rightarrow> string \<Rightarrow> (string \<times> 'm) option" where
  "resolve t h = (case t of None \<Rightarrow> None | Some t \<Rightarrow> ht_entries t h)"

definition has_handle :: "'m handle_table option \<Rightarrow> string \<Rightarrow> bool" where
  "has_handle t h = (case t of None \<Rightarrow> False | Some t \<Rightarrow> ht_entries t h \<noteq> None)"

definition table_size :: "'m handle_table option \<Rightarrow> nat" where
  "table_size t = (case t of None \<Rightarrow> 0 | Some t \<Rightarrow> card (dom (ht_entries t)))"

text \<open>
  \<^verbatim>\<open>pairs\<close> ranges over a map in an unspecified order; \<open>is_pairs\<close> says a list is one of its
  results: each handle once, with its durable value.
\<close>

definition is_pairs :: "'m handle_table \<Rightarrow> (string \<times> string) list \<Rightarrow> bool" where
  "is_pairs t ps \<longleftrightarrow> distinct (map snd ps) \<and>
     (\<forall>v h. (v, h) \<in> set ps \<longleftrightarrow> (\<exists>m. ht_entries t h = Some (v, m)))"

section \<open>The wrapper\<close>

definition ht_register :: "unit handle_table \<Rightarrow> string \<Rightarrow> string \<times> unit handle_table" where
  "ht_register t v0 = (let v = trim_space v0 in if v = [] then ([], t) else register t v v () None)"

definition ht_resolve :: "'m handle_table option \<Rightarrow> string \<Rightarrow> string option" where
  "ht_resolve t h = map_option fst (resolve t (trim_space h))"

definition ht_handle :: "'m handle_table option \<Rightarrow> string \<Rightarrow> string option" where
  "ht_handle t v = handle_for_key t v"

definition ht_len :: "'m handle_table option \<Rightarrow> nat" where
  "ht_len t = (if t = None then 0 else table_size t)"

definition ht_empty :: "'m handle_table option \<Rightarrow> bool" where
  "ht_empty t \<longleftrightarrow> t = None \<or> table_size t = 0"

text \<open>\<^verbatim>\<open>strings.ReplaceAll\<close> for a non-empty word (the codecs never replace the empty one).\<close>

function replace_all :: "string \<Rightarrow> string \<Rightarrow> string \<Rightarrow> string" where
  "replace_all s old new =
     (if s = [] \<or> old = [] then s
      else if has_prefix s old then new @ replace_all (drop (length old) s) old new
      else hd s # replace_all (tl s) old new)"
  by pat_completeness auto
termination
  by (relation "measure (\<lambda>(s, _). length s)") (auto simp: has_prefix_iff)

declare replace_all.simps [simp del]

text \<open>A stable sort by length, longest first (\<^verbatim>\<open>sort.SliceStable\<close>).\<close>

definition longest_first :: "('a \<Rightarrow> string) \<Rightarrow> 'a list \<Rightarrow> 'a list" where
  "longest_first f = sort_key (\<lambda>x. - int (length (f x)))"

definition encode_known_text :: "(string \<times> string) list \<Rightarrow> string \<Rightarrow> string" where
  "encode_known_text ps text =
     (if text = [] then text
      else foldl (\<lambda>s (v, h). replace_all s v h) text (longest_first fst ps))"

text \<open>
  Replacement at word boundaries, as the compiled expression \<^verbatim>\<open>\b<handle>\b\<close> matches: \<open>prev\<close> is
  the character before \<open>s\<close>.
\<close>

definition word_char :: "char \<Rightarrow> bool" where
  "word_char c \<longleftrightarrow> is_digit c \<or> c = CHR ''_'' \<or>
     (65 \<le> (of_char c :: nat) \<and> (of_char c :: nat) \<le> 90) \<or> (97 \<le> (of_char c :: nat) \<and> (of_char c :: nat) \<le> 122)"

definition word_boundary :: "char option \<Rightarrow> char option \<Rightarrow> bool" where
  "word_boundary a b \<longleftrightarrow>
     (case a of None \<Rightarrow> False | Some c \<Rightarrow> word_char c) \<noteq> (case b of None \<Rightarrow> False | Some c \<Rightarrow> word_char c)"

definition head_char :: "string \<Rightarrow> char option" where
  "head_char s = (case s of [] \<Rightarrow> None | c # _ \<Rightarrow> Some c)"

function replace_word :: "char option \<Rightarrow> string \<Rightarrow> string \<Rightarrow> string \<Rightarrow> string" where
  "replace_word prev s h new =
     (if s = [] \<or> h = [] then s
      else if has_prefix s h \<and> word_boundary prev (head_char s) \<and>
              word_boundary (Some (last h)) (head_char (drop (length h) s))
        then new @ replace_word (Some (last h)) (drop (length h) s) h new
      else hd s # replace_word (Some (hd s)) (tl s) h new)"
  by pat_completeness auto
termination
  by (relation "measure (\<lambda>(_, s, _). length s)") (auto simp: has_prefix_iff)

declare replace_word.simps [simp del]

definition decode_known_text :: "(string \<times> string) list \<Rightarrow> string \<Rightarrow> string" where
  "decode_known_text ps text =
     (if text = [] then text
      else foldl (\<lambda>s (v, h). replace_word None s h v) text (longest_first snd ps))"

section \<open>Registrations\<close>

text \<open>A run of registrations, each with its key, value, metadata and merge function.\<close>

type_synonym 'm registration = "string \<times> string \<times> 'm \<times> ('m \<Rightarrow> 'm \<Rightarrow> 'm) option"

definition register_all :: "'m registration list \<Rightarrow> 'm handle_table \<Rightarrow> 'm handle_table" where
  "register_all rs t = foldl (\<lambda>t (k, v, m, f). snd (register t k v m f)) t rs"

definition handle_of :: "'m handle_table \<Rightarrow> nat \<Rightarrow> string" where
  "handle_of t n = ht_prefix t @ handle_number (ht_width t) n"

lemma handle_number_inj: "handle_number w m = handle_number w n \<longleftrightarrow> m = n"
  by (metis handle_number_def undec_dec undec_pad)

lemma handle_of_inj [simp]: "handle_of t m = handle_of t n \<longleftrightarrow> m = n"
  by (simp add: handle_of_def handle_number_inj)

text \<open>
  The invariant: keys and entries name the same handles, one key per handle, numbered without a
  gap from the first number to the next one.
\<close>

definition table_inv :: "nat \<Rightarrow> 'm handle_table \<Rightarrow> bool" where
  "table_inv start t \<longleftrightarrow>
     start \<le> ht_next t \<and> inj_on (ht_by_key t) (dom (ht_by_key t)) \<and>
     ran (ht_by_key t) = handle_of t ` {start..<ht_next t} \<and>
     dom (ht_entries t) = ran (ht_by_key t) \<and> [] \<notin> dom (ht_by_key t)"

lemma new_table_inv: "table_inv start (new_handle_table prefix width start)"
  by (simp add: table_inv_def new_handle_table_def)

lemma handle_of_cong: "ht_prefix t' = ht_prefix t \<Longrightarrow> ht_width t' = ht_width t \<Longrightarrow> handle_of t' = handle_of t"
  by (simp add: handle_of_def fun_eq_iff)

lemma register_frame:
  "ht_prefix (snd (register t k v m f)) = ht_prefix t" "ht_width (snd (register t k v m f)) = ht_width t"
  by (auto simp: register_def Let_def split: option.splits)

lemma register_known:
  "ht_by_key t k = Some h \<Longrightarrow> k \<noteq> [] \<Longrightarrow>
     fst (register t k v m f) = h \<and> ht_by_key (snd (register t k v m f)) = ht_by_key t \<and>
     ht_next (snd (register t k v m f)) = ht_next t \<and>
     dom (ht_entries (snd (register t k v m f))) = dom (ht_entries t) \<and>
     (\<forall>q. map_option fst (ht_entries (snd (register t k v m f)) q) = map_option fst (ht_entries t q))"
  by (cases f; cases "ht_entries t h") (auto simp: register_def)

lemma register_new:
  "ht_by_key t k = None \<Longrightarrow> k \<noteq> [] \<Longrightarrow>
     register t k v m f = (handle_of t (ht_next t),
       t\<lparr>ht_next := Suc (ht_next t), ht_by_key := (ht_by_key t)(k \<mapsto> handle_of t (ht_next t)),
         ht_entries := (ht_entries t)(handle_of t (ht_next t) \<mapsto> (v, m))\<rparr>)"
  by (simp add: register_def Let_def handle_of_def)

lemma fresh_handle:
  "table_inv start t \<Longrightarrow> handle_of t (ht_next t) \<notin> ran (ht_by_key t)"
  by (auto simp: table_inv_def)

lemma register_table_inv [wf_intros]: "table_inv start t \<Longrightarrow> table_inv start (snd (register t k v m f))"
proof -
  assume inv: "table_inv start t"
  note cong = handle_of_cong [OF register_frame, of t k v m f]
  show ?thesis
  proof (cases "k = []")
    case True
    with inv show ?thesis by (simp add: register_def)
  next
    case kn: False
    show ?thesis
    proof (cases "ht_by_key t k")
      case None
      let ?h = "handle_of t (ht_next t)"
      have ran': "ran ((ht_by_key t)(k \<mapsto> ?h)) = insert ?h (ran (ht_by_key t))"
        using None by (simp add: ran_map_upd)
      have inj: "inj_on ((ht_by_key t)(k \<mapsto> ?h)) (insert k (dom (ht_by_key t)))"
      proof (rule inj_onI)
        have other: "ht_by_key t q \<noteq> Some ?h" for q
          using fresh_handle [OF inv] by (auto simp: ran_def)
        have old: "inj_on (ht_by_key t) (dom (ht_by_key t))" using inv by (simp add: table_inv_def)
        fix x y assume xy: "x \<in> insert k (dom (ht_by_key t))" "y \<in> insert k (dom (ht_by_key t))"
          "((ht_by_key t)(k \<mapsto> ?h)) x = ((ht_by_key t)(k \<mapsto> ?h)) y"
        then show "x = y"
          using other [of x] other [of y] inj_onD [OF old, of x y] by (auto split: if_splits)
      qed
      have nums: "{start..<Suc (ht_next t)} = insert (ht_next t) {start..<ht_next t}"
        using inv by (auto simp: table_inv_def)
      have "handle_of (snd (register t k v m f)) = handle_of t" by (rule cong)
      with inv inj ran' kn nums show ?thesis
        by (simp add: table_inv_def register_new [OF None kn])
    next
      case (Some h)
      from register_known [OF Some kn, of v m f] inv cong show ?thesis
        by (simp add: table_inv_def)
    qed
  qed
qed

lemma register_all_inv: "table_inv start t \<Longrightarrow> table_inv start (register_all rs t)"
  by (induction rs arbitrary: t) (auto simp: register_all_def intro: register_table_inv)

lemma register_keeps:
  assumes "table_inv start t" "ht_by_key t k0 = Some h" "ht_entries t h = Some (v0, m0)"
  shows "ht_by_key (snd (register t k v m f)) k0 = Some h \<and>
    (\<exists>m'. ht_entries (snd (register t k v m f)) h = Some (v0, m'))"
proof (cases "k = []")
  case True
  with assms show ?thesis by (simp add: register_def)
next
  case kn: False
  show ?thesis
  proof (cases "ht_by_key t k")
    case None
    have "h \<noteq> handle_of t (ht_next t)"
      using fresh_handle [OF assms(1)] assms(2) by (auto simp: ran_def)
    moreover have "k0 \<noteq> k" using None assms(2) by auto
    ultimately show ?thesis using assms(2,3) by (simp add: register_new [OF None kn])
  next
    case (Some h')
    note known = register_known [OF Some kn, of v m f]
    then have "map_option fst (ht_entries (snd (register t k v m f)) h) = Some v0"
      using assms(3) by simp
    then have "\<exists>m'. ht_entries (snd (register t k v m f)) h = Some (v0, m')" by auto
    with known assms(2) show ?thesis by simp
  qed
qed

lemma register_all_keeps:
  "table_inv start t \<Longrightarrow> ht_by_key t k0 = Some h \<Longrightarrow> ht_entries t h = Some (v0, m0) \<Longrightarrow>
     ht_by_key (register_all rs t) k0 = Some h \<and> (\<exists>m'. ht_entries (register_all rs t) h = Some (v0, m'))"
proof (induction rs arbitrary: t m0)
  case Nil
  then show ?case by (simp add: register_all_def)
next
  case (Cons r rs)
  obtain k v m f where r: "r = (k, v, m, f)" by (cases r)
  from register_keeps [OF Cons.prems, of k v m f] obtain m1 where
    "ht_by_key (snd (register t k v m f)) k0 = Some h" "ht_entries (snd (register t k v m f)) h = Some (v0, m1)"
    by blast
  from Cons.IH [OF register_table_inv [OF Cons.prems(1)] this] show ?case
    by (simp add: register_all_def r)
qed

lemma register_resolves:
  assumes "table_inv start t" "k \<noteq> []" "register t k v m f = (h, t')"
  shows "ht_by_key t' k = Some h \<and> (\<exists>v' m'. ht_entries t' h = Some (v', m') \<and> (ht_by_key t k = None \<longrightarrow> v' = v))"
proof (cases "ht_by_key t k")
  case None
  with assms(2,3) show ?thesis by (auto simp: register_new)
next
  case (Some h0)
  note known = register_known [OF Some assms(2), of v m f, unfolded assms(3) fst_conv snd_conv]
  have "h0 \<in> dom (ht_entries t)" using assms(1) Some by (auto simp: table_inv_def ran_def)
  with known have "h \<in> dom (ht_entries t')" by simp
  then obtain v' m' where "ht_entries t' h = Some (v', m')" by fastforce
  with known Some show ?thesis by simp
qed

lemma table_inv_size:
  assumes "table_inv start t"
  shows "card (dom (ht_entries t)) = ht_next t - start" "card (dom (ht_by_key t)) = ht_next t - start"
proof -
  have "inj (handle_of t)" by (simp add: inj_on_def)
  then show "card (dom (ht_entries t)) = ht_next t - start"
    using assms by (simp add: table_inv_def card_image inj_on_subset)
  moreover have "the ` (ht_by_key t ` dom (ht_by_key t)) = ran (ht_by_key t)"
    by (force simp: ran_def dom_def image_iff)
  ultimately show "card (dom (ht_by_key t)) = ht_next t - start"
  proof -
    have "inj_on (\<lambda>k. the (ht_by_key t k)) (dom (ht_by_key t))"
      using assms unfolding table_inv_def inj_on_def dom_def by force
    moreover have "(\<lambda>k. the (ht_by_key t k)) ` dom (ht_by_key t) = ran (ht_by_key t)"
      by (force simp: ran_def dom_def)
    ultimately have "card (dom (ht_by_key t)) = card (ran (ht_by_key t))" by (metis card_image)
    with \<open>card (dom (ht_entries t)) = ht_next t - start\<close> assms show ?thesis by (simp add: table_inv_def)
  qed
qed

section \<open>Properties\<close>

lemma handles_parts:
  fixes prefix :: string and width start :: nat and m :: 'm and before after :: "'m registration list"
  defines "t \<equiv> register_all before (new_handle_table prefix width start)"
  assumes "k \<noteq> []" "register t k v m f = (h, t1)"
  defines "t2 \<equiv> register_all after t1"
  shows "handle_for_key (Some t2) k = Some h"
    and "\<exists>v' m'. resolve (Some t2) h = Some (v', m') \<and> (handle_for_key (Some t) k = None \<longrightarrow> v' = v)"
    and "handle_for_key (Some t2) k' = Some h \<Longrightarrow> k' = k"
    and "ht_next t2 = start + card (dom (ht_by_key t2))"
proof -
  have inv: "table_inv start t" unfolding t_def by (intro register_all_inv new_table_inv)
  then have inv1: "table_inv start t1" using register_table_inv [OF inv, of k v m f] assms(3) by simp
  then have inv2: "table_inv start t2" unfolding t2_def by (rule register_all_inv)
  from register_resolves [OF inv assms(2,3)] obtain v' m' where
    r: "ht_by_key t1 k = Some h" "ht_entries t1 h = Some (v', m')" "ht_by_key t k = None \<longrightarrow> v' = v"
    by (elim conjE exE)
  from register_all_keeps [OF inv1 r(1,2), of after] r(3)
  show key: "handle_for_key (Some t2) k = Some h"
    and "\<exists>v' m'. resolve (Some t2) h = Some (v', m') \<and> (handle_for_key (Some t) k = None \<longrightarrow> v' = v)"
    by (auto simp: handle_for_key_def resolve_def t2_def)
  show "k' = k" if "handle_for_key (Some t2) k' = Some h"
    using that key inv2 by (auto simp: handle_for_key_def table_inv_def inj_on_def dom_def)
  show "ht_next t2 = start + card (dom (ht_by_key t2))"
    using table_inv_size(2) [OF inv2] inv2 by (simp add: table_inv_def)
qed

text \<open>
  Handles are stable, unique and resolvable. In a table built by any registrations, the
  handle that a registration of a key returns stays the key's handle after any further
  registrations; it resolves to a durable value, the one registered when the key was new; no
  other key ever gets it; and the table hands out consecutive numbers, one per key, never reusing
  one.
\<close>

lemma handles_stable_and_unique:
  fixes prefix :: string and width start :: nat and m :: 'm and before after :: "'m registration list"
  defines "t \<equiv> register_all before (new_handle_table prefix width start)"
  assumes "k \<noteq> []" "register t k v m f = (h, t1)"
  defines "t2 \<equiv> register_all after t1"
  shows "handle_for_key (Some t2) k = Some h \<and>
    (\<exists>v' m'. resolve (Some t2) h = Some (v', m') \<and> (handle_for_key (Some t) k = None \<longrightarrow> v' = v)) \<and>
    (\<forall>k'. handle_for_key (Some t2) k' = Some h \<longrightarrow> k' = k) \<and>
    ht_next t2 = start + card (dom (ht_by_key t2))"
  using handles_parts [OF assms(2) assms(3) [unfolded t_def], of "after"] unfolding t_def t2_def by blast

end
