(* ===== verification/Handle_Stream.thy ===== *)
theory Handle_Stream
  imports Handle_Table
begin

text \<open>
  Streaming-safe handle decoding (\<^verbatim>\<open>src/internal/modelcontext/stream.go\<close>): the shared suffix-hold
  primitive, the decoders built on it, the filter that removes unresolved \<^verbatim>\<open>res://\<close> handles and
  the composition of the stages. The filter is an interpretation of \<open>chunk_transducer\<close>: what it
  shows does not depend on where the provider cut the text.
\<close>

section \<open>Holding back a suffix\<close>

text \<open>\<^verbatim>\<open>streamHold.Feed\<close> on the pending text: what is emitted, and what stays pending.\<close>

definition hold_feed :: "(string \<Rightarrow> nat) \<Rightarrow> (string \<Rightarrow> string) \<Rightarrow> string \<Rightarrow> string \<Rightarrow> string \<times> string" where
  "hold_feed hold_len emit pend chunk =
     (let combined = pend @ chunk in
      if combined = [] then ([], [])
      else let h = hold_len combined in
           if 0 < h \<and> h \<le> length combined
           then (emit (take (length combined - h) combined), drop (length combined - h) combined)
           else (emit combined, []))"

definition hold_flush :: "(string \<Rightarrow> string) \<Rightarrow> string \<Rightarrow> string \<times> string" where
  "hold_flush fl pend = (fl pend, [])"

section \<open>Decoders of known handles\<close>

definition is_handle_token_byte :: "char \<Rightarrow> bool" where
  "is_handle_token_byte c \<longleftrightarrow>
     (97 \<le> (of_char c :: nat) \<and> (of_char c :: nat) \<le> 122) \<or> (65 \<le> (of_char c :: nat) \<and> (of_char c :: nat) \<le> 90) \<or>
     is_digit c \<or> c = CHR ''-'' \<or> c = CHR ''_''"

definition all_digits :: "string \<Rightarrow> bool" where
  "all_digits s \<longleftrightarrow> s \<noteq> [] \<and> list_all is_digit s"

definition could_be_numeric_handle :: "string \<Rightarrow> string \<Rightarrow> bool" where
  "could_be_numeric_handle v prefix \<longleftrightarrow>
     v \<noteq> [] \<and> prefix \<noteq> [] \<and>
     (has_prefix prefix v \<or>
      (has_prefix v prefix \<and> length v \<noteq> length prefix \<and> list_all is_digit (drop (length prefix) v)))"

definition token_tail :: "string \<Rightarrow> string" where
  "token_tail s = rev (takeWhile is_handle_token_byte (rev s))"

definition handle_hold_len :: "string \<Rightarrow> string \<Rightarrow> nat" where
  "handle_hold_len prefix combined =
     (let tl = token_tail combined in if could_be_numeric_handle tl prefix then length tl else 0)"

text \<open>
  \<^verbatim>\<open>HandleStreamDecoder\<close> over a table (\<open>None\<close> when it is nil) whose pairs are \<open>ps\<close>.
\<close>

definition handle_decoder_feed ::
    "'m handle_table option \<Rightarrow> (string \<times> string) list \<Rightarrow> string \<Rightarrow> string \<Rightarrow> string \<times> string" where
  "handle_decoder_feed t ps pend chunk =
     (case t of
        None \<Rightarrow> (chunk, pend)
      | Some t \<Rightarrow> hold_feed (handle_hold_len (ht_prefix t)) (decode_known_text ps) pend chunk)"

definition handle_decoder_flush ::
    "'m handle_table option \<Rightarrow> (string \<times> string) list \<Rightarrow> string \<Rightarrow> string \<times> string" where
  "handle_decoder_flush t ps pend =
     (case t of None \<Rightarrow> ([], pend) | Some _ \<Rightarrow> hold_flush (decode_known_text ps) pend)"

text \<open>\<^verbatim>\<open>resourceRegistry.DecodeText\<close>: plain substring replacement, longest handle first.\<close>

definition decode_resource_text :: "(string \<times> string) list \<Rightarrow> string \<Rightarrow> string" where
  "decode_resource_text ps text =
     (if text = [] then text
      else foldl (\<lambda>s (v, h). replace_all s h v) text (longest_first snd ps))"

text \<open>The longest suffix that is a proper prefix of some handle.\<close>

definition resource_hold_len :: "(string \<times> string) list \<Rightarrow> string \<Rightarrow> nat" where
  "resource_hold_len ps combined =
     foldl (\<lambda>hold h. foldl (\<lambda>k n. if k < n \<and> has_suffix combined (take n h) then n else k) hold [1..<length h])
       0 (map snd ps)"

definition resource_decoder_feed :: "(string \<times> string) list \<Rightarrow> string \<Rightarrow> string \<Rightarrow> string \<times> string" where
  "resource_decoder_feed ps pend chunk = hold_feed (resource_hold_len ps) (decode_resource_text ps) pend chunk"

definition resource_decoder_flush :: "(string \<times> string) list \<Rightarrow> string \<Rightarrow> string \<times> string" where
  "resource_decoder_flush ps pend = hold_flush (decode_resource_text ps) pend"

text \<open>
  The held tail is the run of handle bytes, which includes the dash, while decoding matches at word
  boundaries, which a dash is. So a handle behind a dash is decoded when it arrives in one chunk and
  shown undecoded when it is split.
\<close>

definition issue_demo :: "unit handle_table" where
  "issue_demo = snd (register (new_handle_table ''i'' 0 1) ''uuid'' ''uuid'' () None)"

lemma dash_handle_whole:
  "fst (handle_decoder_feed (Some issue_demo) [(''uuid'', ''i1'')] [] ''a-i1 '') = ''a-uuid ''"
  by code_simp

lemma dash_handle_split:
  "feed_all (\<lambda>p c. handle_decoder_feed (Some issue_demo) [(''uuid'', ''i1'')] p c) (@) [] [] [''a-i'', ''1 ''] =
     (''a-i1 '', [])"
  by code_simp

section \<open>The filter of unresolved handles\<close>

definition res_scheme :: string where
  "res_scheme = ''res://''"

text \<open>Removal of every match of \<^verbatim>\<open>res://\d+\<close>, leftmost and longest.\<close>

definition digits_len :: "string \<Rightarrow> nat" where
  "digits_len s = length (takeWhile is_digit s)"

function strip_handles :: "string \<Rightarrow> string" where
  "strip_handles s =
     (if s = [] then []
      else if has_prefix s res_scheme \<and> 0 < digits_len (drop 6 s)
        then strip_handles (drop (6 + digits_len (drop 6 s)) s)
      else hd s # strip_handles (tl s))"
  by pat_completeness auto
termination
  by (relation "measure length") auto

declare strip_handles.simps [simp del]

text \<open>The matches themselves (\<^verbatim>\<open>FindAllString\<close>), and the ones the registry cannot resolve, each once.\<close>

function find_handles :: "string \<Rightarrow> string list" where
  "find_handles s =
     (if s = [] then []
      else if has_prefix s res_scheme \<and> 0 < digits_len (drop 6 s)
        then take (6 + digits_len (drop 6 s)) s # find_handles (drop (6 + digits_len (drop 6 s)) s)
      else find_handles (tl s))"
  by pat_completeness auto
termination
  by (relation "measure length") auto

declare find_handles.simps [simp del]

definition orphan_handles :: "'m handle_table option \<Rightarrow> string \<Rightarrow> string list" where
  "orphan_handles t decoded =
     fold (\<lambda>h acc. if has_handle t h \<or> h \<in> set acc then acc else acc @ [h]) (find_handles decoded) []"

definition new_resource_registry :: "unit handle_table" where
  "new_resource_registry = new_handle_table ''res://'' 4 1"

text \<open>\<^verbatim>\<open>strings.LastIndex\<close> of the scheme.\<close>

fun last_scheme :: "string \<Rightarrow> nat option" where
  "last_scheme [] = None"
| "last_scheme (c # s) =
     (case last_scheme s of
        Some i \<Rightarrow> Some (Suc i)
      | None \<Rightarrow> if has_prefix (c # s) res_scheme then Some 0 else None)"

definition orphan_hold_len :: "string \<Rightarrow> nat" where
  "orphan_hold_len combined =
     (let at0 = foldl (\<lambda>a n. if has_suffix combined (take n res_scheme) then Some (length combined - n) else a)
                  None [1..<6];
          at1 = (case last_scheme combined of
                   None \<Rightarrow> at0
                 | Some i \<Rightarrow>
                     let suffix = drop (i + 6) combined in
                     if suffix = [] \<or> all_digits suffix then Some i else at0)
      in case at1 of None \<Rightarrow> 0 | Some i \<Rightarrow> length combined - i)"

definition orphan_flush :: "string \<Rightarrow> string" where
  "orphan_flush pend =
     (if has_prefix res_scheme pend \<and> 4 \<le> length pend then []
      else if has_prefix pend res_scheme \<and>
              (drop 6 pend = [] \<or> all_digits (drop 6 pend)) then []
      else strip_handles pend)"

definition orphan_feed :: "string \<Rightarrow> string \<Rightarrow> string \<times> string" where
  "orphan_feed pend chunk = hold_feed orphan_hold_len strip_handles pend chunk"

section \<open>The composed decoder\<close>

text \<open>
  A stage is its feed and flush on its own pending text; \<^verbatim>\<open>StreamDecoder\<close> runs a chunk through the
  stages that are present (resources, sources, issues, MCP servers, MCP tools, orphans), and its
  flush feeds each stage's tail through the later ones before they flush.
\<close>

record stage =
  st_feed :: "string \<Rightarrow> string \<Rightarrow> string \<times> string"
  st_flush :: "string \<Rightarrow> string \<times> string"

fun stages_feed :: "(stage \<times> string) list \<Rightarrow> string \<Rightarrow> string \<times> (stage \<times> string) list" where
  "stages_feed [] chunk = (chunk, [])"
| "stages_feed ((st, pend) # rest) chunk =
     (case st_feed st pend chunk of (out, pend') \<Rightarrow>
        (case stages_feed rest out of (final, rest') \<Rightarrow> (final, (st, pend') # rest')))"

fun stages_flush :: "(stage \<times> string) list \<Rightarrow> string \<Rightarrow> string" where
  "stages_flush [] tail = tail"
| "stages_flush ((st, pend) # rest) tail =
     (case st_feed st pend tail of (out, pend') \<Rightarrow> stages_flush rest (out @ fst (st_flush st pend')))"

section \<open>The filter: live suffixes\<close>

text \<open>What may still grow into an unresolved handle: a prefix of the scheme, or the scheme and digits.\<close>

definition live :: "string \<Rightarrow> bool" where
  "live w \<longleftrightarrow> w \<noteq> [] \<and> (has_prefix res_scheme w \<or> (has_prefix w res_scheme \<and> list_all is_digit (drop 6 w)))"

lemma scheme_length [simp]: "length res_scheme = 6"
  by (simp add: res_scheme_def)

lemma live_cases:
  assumes "live w"
  obtains (short) n where "1 \<le> n" "n \<le> 5" "w = take n res_scheme"
  | (long) ds where "w = res_scheme @ ds" "list_all is_digit ds"
proof -
  from assms consider (p) "has_prefix res_scheme w" "w \<noteq> []"
    | (d) "has_prefix w res_scheme" "list_all is_digit (drop 6 w)" by (auto simp: live_def)
  then show thesis
  proof cases
    case p
    then have w: "w = take (length w) res_scheme" by (auto simp: has_prefix_def)
    then have le: "length w \<le> 6" by (metis length_take min.cobounded1 scheme_length)
    show thesis
    proof (cases "length w = 6")
      case True
      with w have "w = res_scheme @ []" by simp
      then show thesis using long [of "[]"] by simp
    next
      case False
      from p(2) have "1 \<le> length w" by (cases w) auto
      moreover from False le have "length w \<le> 5" by linarith
      ultimately show thesis using w by (rule short)
    qed
  next
    case d
    then obtain ds where "w = res_scheme @ ds" by (auto simp: has_prefix_iff)
    with d(2) show thesis using long [of ds] by simp
  qed
qed

lemma live_take: "1 \<le> n \<Longrightarrow> live (take n res_scheme)"
  unfolding live_def has_prefix_iff
  by (metis append_take_drop_id length_0_conv length_take min_0L scheme_length not_one_le_zero take_eq_Nil zero_neq_numeral)

lemma live_scheme: "list_all is_digit ds \<Longrightarrow> live (res_scheme @ ds)"
  by (auto simp: live_def res_scheme_def has_prefix_def)

lemma live_prefix: "live (a @ b) \<Longrightarrow> a \<noteq> [] \<Longrightarrow> live a"
proof -
  assume l: "live (a @ b)" and a: "a \<noteq> []"
  then have len: "1 \<le> length a" by (cases a) auto
  from l show "live a"
  proof (cases rule: live_cases)
    case (short n)
    then have "take (length a) (a @ b) = take (length a) (take n res_scheme)" by simp
    then have "a = take (min (length a) n) res_scheme" by (simp add: min.commute)
    with live_take [of "min (length a) n"] len short(1) show ?thesis by (simp add: min_def split: if_splits)
  next
    case (long ds)
    then have "take (length a) (a @ b) = take (length a) (res_scheme @ ds)" by simp
    then have ae: "a = take (length a) res_scheme @ take (length a - 6) ds" by simp
    show ?thesis
    proof (cases "length a \<le> 6")
      case True
      with ae have "a = take (length a) res_scheme" by simp
      with live_take [OF len] show ?thesis by simp
    next
      case False
      with ae have "a = res_scheme @ take (length a - 6) ds" by simp
      moreover from long(2) have "list_all is_digit (take (length a - 6) ds)"
        by (auto simp: list_all_iff dest: in_set_takeD)
      ultimately show ?thesis using live_scheme by metis
    qed
  qed
qed

lemma scheme_chars: "res_scheme = [CHR ''r'', CHR ''e'', CHR ''s'', CHR '':'', CHR ''/'', CHR ''/'']"
  by (simp add: res_scheme_def)

lemma r_not_digit: "list_all is_digit ds \<Longrightarrow> CHR ''r'' \<notin> set ds"
  by (auto simp: list_all_iff is_digit_def dest!: bspec)

lemma live_hd:
  assumes "live w"
  shows "hd w = CHR ''r''"
  using assms
proof (cases rule: live_cases)
  case (short n)
  then show ?thesis by (cases n) (simp_all add: res_scheme_def)
next
  case (long ds)
  then show ?thesis by (simp add: res_scheme_def)
qed

lemma live_tl_no_r:
  assumes "live w"
  shows "CHR ''r'' \<notin> set (tl w)"
  using assms
proof (cases rule: live_cases)
  case (short n)
  have "CHR ''r'' \<notin> set (tl res_scheme)" by (simp add: res_scheme_def)
  then have "CHR ''r'' \<notin> set (take (n - 1) (tl res_scheme))" by (meson in_set_takeD)
  moreover have "tl w = take (n - 1) (tl res_scheme)" using short by (simp add: tl_take)
  ultimately show ?thesis by simp
next
  case (long ds)
  with r_not_digit [of ds] show ?thesis by (simp add: res_scheme_def)
qed

text \<open>A string has at most one live suffix, as the letter r occurs only at its head.\<close>

lemma live_suffix_unique:
  assumes "live w" "live w'" "u @ w = u' @ w'"
  shows "w = w'"
proof -
  have "length u = length u'"
  proof (rule ccontr)
    assume ne: "length u \<noteq> length u'"
    have shorter: False if "live v" "live v'" "x @ v = x' @ v'" "length x < length x'" for x x' v v' :: string
    proof -
      from that(3,4) obtain d where d: "x' = x @ d" "d \<noteq> []" "v = d @ v'"
        by (auto simp: append_eq_append_conv2)
      from that(2) have "v' \<noteq> []" by (simp add: live_def)
      with live_hd [OF that(2)] have "CHR ''r'' \<in> set v'" by (metis hd_in_set)
      with d have "CHR ''r'' \<in> set (tl v)" by (cases d) auto
      with live_tl_no_r [OF that(1)] show False by simp
    qed
    from ne show False
      using shorter [OF assms(1,2,3)] shorter [OF assms(2,1) assms(3) [symmetric]] by linarith
  qed
  with assms(3) show ?thesis by simp
qed

text \<open>How a text splits into what may be shown and its live suffix.\<close>

definition splits_at :: "string \<Rightarrow> string \<Rightarrow> string \<Rightarrow> bool" where
  "splits_at s u w \<longleftrightarrow> s = u @ w \<and> (if w = [] then \<forall>a b. s = a @ b \<longrightarrow> \<not> live b else live w)"

lemma splits_ex: "\<exists>u w. splits_at s u w"
proof (cases "\<exists>u w. s = u @ w \<and> live w")
  case True
  then show ?thesis unfolding splits_at_def by (metis live_def)
next
  case False
  then have "splits_at s s []" by (simp add: splits_at_def)
  then show ?thesis by blast
qed

lemma last_scheme_NoneD: "last_scheme s = None \<Longrightarrow> \<not> has_prefix (drop j s) res_scheme"
proof (induction s arbitrary: j)
  case Nil
  then show ?case by (simp add: has_prefix_def res_scheme_def)
next
  case (Cons c s)
  then show ?case by (cases j) (auto split: option.splits if_splits)
qed

lemma last_scheme_SomeD:
  "last_scheme s = Some i \<Longrightarrow>
     has_prefix (drop i s) res_scheme \<and> (\<forall>j. has_prefix (drop j s) res_scheme \<longrightarrow> j \<le> i)"
proof (induction s arbitrary: i)
  case Nil
  then show ?case by simp
next
  case (Cons c s)
  show ?case
  proof (cases "last_scheme s")
    case (Some k)
    with Cons.prems have i: "i = Suc k" by simp
    have "j \<le> i" if "has_prefix (drop j (c # s)) res_scheme" for j
      using that Cons.IH [OF Some] i by (cases j) auto
    with Cons.IH [OF Some] i show ?thesis by simp
  next
    case None
    with Cons.prems have i: "i = 0" "has_prefix (c # s) res_scheme" by (auto split: if_splits)
    have "j \<le> i" if "has_prefix (drop j (c # s)) res_scheme" for j
      using that last_scheme_NoneD [OF None] i by (cases j) auto
    with i show ?thesis by simp
  qed
qed

lemma short_suffix_live:
  "has_suffix s (take n res_scheme) \<Longrightarrow> 1 \<le> n \<Longrightarrow> \<exists>u. s = u @ take n res_scheme \<and> live (take n res_scheme)"
  by (auto simp: has_suffix_iff intro: live_take)

lemma hold_loop:
  "foldl (\<lambda>a n. if has_suffix s (take n res_scheme) then Some (length s - n) else a) None [1..<6] =
     (if has_suffix s (take 5 res_scheme) then Some (length s - 5)
      else if has_suffix s (take 4 res_scheme) then Some (length s - 4)
      else if has_suffix s (take 3 res_scheme) then Some (length s - 3)
      else if has_suffix s (take 2 res_scheme) then Some (length s - 2)
      else if has_suffix s (take 1 res_scheme) then Some (length s - 1) else None)"
proof -
  have "[1..<6] = [1, 2, 3, 4, 5 :: nat]" by (simp add: upt_rec)
  then show ?thesis by simp
qed

lemma digits_suffix_live:
  assumes "last_scheme s = Some i" "drop (i + 6) s = [] \<or> all_digits (drop (i + 6) s)"
  shows "live (drop i s)"
proof -
  from last_scheme_SomeD [OF assms(1)] obtain ds where "drop i s = res_scheme @ ds"
    by (auto simp: has_prefix_iff)
  moreover from this have "drop (i + 6) s = ds"
    by (metis add.commute append_eq_conv_conj drop_drop scheme_length)
  ultimately show ?thesis using assms(2) live_scheme [of ds] by (auto simp: all_digits_def)
qed

lemma orphan_hold:
  assumes "splits_at s u w"
  shows "orphan_hold_len s = length w"
proof (cases "w = []")
  case True
  with assms have none: "\<not> live b" if "s = a @ b" for a b using that by (auto simp: splits_at_def)
  have "\<not> has_suffix s (take n res_scheme)" if "1 \<le> n" for n
    using short_suffix_live [of s n] none that by blast
  then have at0: "foldl (\<lambda>a n. if has_suffix s (take n res_scheme) then Some (length s - n) else a) None [1..<6] = None"
    by (simp only: hold_loop) simp
  have "\<not> (drop (i + 6) s = [] \<or> all_digits (drop (i + 6) s))" if "last_scheme s = Some i" for i
    using digits_suffix_live [OF that] none by (metis append_take_drop_id)
  with at0 True show ?thesis by (auto simp: orphan_hold_len_def Let_def split: option.splits)
next
  case False
  with assms have s: "s = u @ w" and lw: "live w" by (auto simp: splits_at_def)
  from lw show ?thesis
  proof (cases rule: live_cases)
    case (short n)
    have only: "has_suffix s (take m res_scheme) \<longleftrightarrow> m = n" if "1 \<le> m" "m \<le> 5" for m
    proof
      assume "has_suffix s (take m res_scheme)"
      with short_suffix_live [OF this that(1)] s have "take m res_scheme = w"
        using live_suffix_unique [OF _ lw] by metis
      with short(3) have "length (take m res_scheme) = length (take n res_scheme)" by simp
      with that(2) short(2) show "m = n" by simp
    qed (auto simp: s short(3))
    have at0: "foldl (\<lambda>a n. if has_suffix s (take n res_scheme) then Some (length s - n) else a) None [1..<6] =
        Some (length s - n)"
      unfolding hold_loop using short(1,2) by (auto simp: only)
    have "\<not> (drop (i + 6) s = [] \<or> all_digits (drop (i + 6) s))" if i: "last_scheme s = Some i" for i
    proof
      assume "drop (i + 6) s = [] \<or> all_digits (drop (i + 6) s)"
      from digits_suffix_live [OF i this] have "drop i s = w"
        using live_suffix_unique [OF _ lw, of _ "take i s" u] s by (metis append_take_drop_id)
      moreover from last_scheme_SomeD [OF i] obtain t where "drop i s = res_scheme @ t"
        by (auto simp: has_prefix_iff)
      then have "6 \<le> length (drop i s)" by (metis le_add1 length_append scheme_length)
      ultimately show False using short by simp
    qed
    with at0 have "orphan_hold_len s = length s - (length s - n)"
      by (auto simp: orphan_hold_len_def Let_def split: option.splits)
    then show ?thesis using short by (simp add: s)
  next
    case (long ds)
    have pfx: "has_prefix (drop (length u) s) res_scheme" by (simp add: s long)
    then obtain i where i: "last_scheme s = Some i" using last_scheme_NoneD by (cases "last_scheme s") auto
    note spec = last_scheme_SomeD [OF i]
    with pfx have ge: "length u \<le> i" by blast
    have "i = length u"
    proof (rule ccontr)
      assume "i \<noteq> length u"
      with ge obtain k where k: "i = length u + Suc k" by (metis add_Suc_right le_neq_implies_less less_imp_Suc_add)
      have "drop i s = drop k (tl w)" by (simp add: s k drop_Suc)
      with spec have "has_prefix (drop k (tl w)) res_scheme" by simp
      then have "CHR ''r'' \<in> set (drop k (tl w))" by (auto simp: has_prefix_iff scheme_chars)
      then have "CHR ''r'' \<in> set (tl w)" by (rule in_set_dropD)
      with live_tl_no_r [OF lw] show False by simp
    qed
    moreover from this have "drop (i + 6) s = ds" by (simp add: s long)
    ultimately have "orphan_hold_len s = length s - length u"
      using i long(2) by (auto simp: orphan_hold_len_def all_digits_def Let_def)
    then show ?thesis by (simp add: s)
  qed
qed

lemma orphan_feed_splits: "splits_at (p @ xs) u w \<Longrightarrow> orphan_feed p xs = (strip_handles u, w)"
proof -
  assume sp: "splits_at (p @ xs) u w"
  then have s: "p @ xs = u @ w" by (simp add: splits_at_def)
  show ?thesis
    using orphan_hold [OF sp]
    by (auto simp: orphan_feed_def hold_feed_def Let_def s strip_handles.simps [of "[]"])
qed

section \<open>The filter: removal distributes over a safe cut\<close>

lemma strip_Nil [simp]: "strip_handles [] = []"
  by (simp add: strip_handles.simps [of "[]"])

lemma strip_match:
  "has_prefix s res_scheme \<Longrightarrow> 0 < digits_len (drop 6 s) \<Longrightarrow>
     strip_handles s = strip_handles (drop (6 + digits_len (drop 6 s)) s)"
  by (subst strip_handles.simps) (auto simp: has_prefix_iff res_scheme_def)

lemma strip_skip:
  "s \<noteq> [] \<Longrightarrow> \<not> (has_prefix s res_scheme \<and> 0 < digits_len (drop 6 s)) \<Longrightarrow>
     strip_handles s = hd s # strip_handles (tl s)"
  by (subst strip_handles.simps) auto

text \<open>No handle lies across the cut between \<open>A\<close> and \<open>Z\<close>.\<close>

definition safe_cut :: "string \<Rightarrow> string \<Rightarrow> bool" where
  "safe_cut A Z \<longleftrightarrow> (\<forall>a w z z'. A = a @ w \<longrightarrow> Z = z @ z' \<longrightarrow> w \<noteq> [] \<longrightarrow> live (w @ z) \<longrightarrow> z = [])"

lemma safe_cutD: "safe_cut (a @ w) (z @ z') \<Longrightarrow> w \<noteq> [] \<Longrightarrow> live (w @ z) \<Longrightarrow> z = []"
  unfolding safe_cut_def by blast

lemma safe_cut_drop: "safe_cut A Z \<Longrightarrow> safe_cut (drop n A) Z"
  unfolding safe_cut_def by (metis append_assoc append_take_drop_id)

lemma safe_cut_digits:
  assumes "safe_cut A Z" "A = res_scheme @ ds"
  shows "digits_len (ds @ Z) = digits_len ds"
proof (cases "list_all is_digit ds")
  case False
  then obtain x where "x \<in> set ds" "\<not> is_digit x" by (auto simp: list_all_iff)
  then show ?thesis by (simp add: digits_len_def takeWhile_append1)
next
  case True
  show ?thesis
  proof (cases Z)
    case (Cons c Z')
    have "\<not> is_digit c"
    proof
      assume "is_digit c"
      with True have "live (A @ [c])" using live_scheme [of "ds @ [c]"] assms(2) by simp
      then show False using safe_cutD [of "[]" A "[c]" Z'] assms Cons by (simp add: res_scheme_def)
    qed
    then have "takeWhile is_digit Z = []" by (simp add: Cons)
    moreover have "takeWhile is_digit (ds @ Z) = ds @ takeWhile is_digit Z"
      using True by (simp add: list_all_iff takeWhile_append2)
    moreover have "takeWhile is_digit ds = ds" using True by (simp only: list_all_iff takeWhile_eq_all_conv)
    ultimately show ?thesis unfolding digits_len_def by (metis append_Nil2)
  qed simp
qed

lemma safe_cut_match:
  assumes "safe_cut A Z" "A \<noteq> []" "has_prefix (A @ Z) res_scheme" "0 < digits_len (drop 6 (A @ Z))"
  shows "has_prefix A res_scheme"
proof (rule ccontr)
  assume np: "\<not> has_prefix A res_scheme"
  from assms(3) obtain t where t: "A @ Z = res_scheme @ t" by (auto simp: has_prefix_iff)
  have "length A < 6"
  proof (rule ccontr)
    assume "\<not> length A < 6"
    then have "6 \<le> length A" by simp
    moreover have "take 6 (A @ Z) = res_scheme" by (simp add: t)
    ultimately have "take 6 A = res_scheme" by simp
    with np show False by (simp add: has_prefix_def)
  qed
  with t have "\<exists>z. A @ z = res_scheme \<and> Z = z @ t" by (auto simp: append_eq_append_conv2)
  then obtain z where z: "res_scheme = A @ z" "Z = z @ t" by metis
  moreover have "live (A @ z)" using live_scheme [of "[]"] z(1) by simp
  ultimately have "z = []" using safe_cutD [of "[]" A z t] assms(1,2) by simp
  with z np show False by (simp add: has_prefix_def)
qed

lemma strip_append: "safe_cut A Z \<Longrightarrow> strip_handles (A @ Z) = strip_handles A @ strip_handles Z"
proof (induction A rule: measure_induct_rule [where f = length])
  case (less A)
  show ?case
  proof (cases "A = []")
    case True
    then show ?thesis by simp
  next
    case ne: False
    show ?thesis
    proof (cases "has_prefix A res_scheme \<and> 0 < digits_len (drop 6 A)")
      case True
      then obtain ds where A: "A = res_scheme @ ds" by (auto simp: has_prefix_iff)
      have dl: "digits_len (ds @ Z) = digits_len ds" by (rule safe_cut_digits [OF less.prems A])
      have le: "digits_len ds \<le> length ds" by (simp add: digits_len_def length_takeWhile_le)
      let ?n = "6 + digits_len ds"
      have "strip_handles (A @ Z) = strip_handles (drop ?n A @ Z)"
        using True strip_match [of "A @ Z"] le by (simp add: A dl)
      also have "\<dots> = strip_handles (drop ?n A) @ strip_handles Z"
        using ne by (intro less.IH safe_cut_drop less.prems) (simp add: A)
      also have "strip_handles (drop ?n A) = strip_handles A"
        using True strip_match [of A] by (simp add: A)
      finally show ?thesis .
    next
      case False
      have "\<not> (has_prefix (A @ Z) res_scheme \<and> 0 < digits_len (drop 6 (A @ Z)))"
      proof
        assume m: "has_prefix (A @ Z) res_scheme \<and> 0 < digits_len (drop 6 (A @ Z))"
        then have "has_prefix A res_scheme" by (elim conjE) (rule safe_cut_match [OF less.prems ne])
        then obtain ds where A: "A = res_scheme @ ds" by (auto simp: has_prefix_iff)
        from m safe_cut_digits [OF less.prems A] False show False by (simp add: A)
      qed
      then have "strip_handles (A @ Z) = hd A # strip_handles (tl A @ Z)"
        using ne strip_skip [of "A @ Z"] by simp
      also have "strip_handles (tl A @ Z) = strip_handles (tl A) @ strip_handles Z"
        using safe_cut_drop [OF less.prems, of 1] ne by (intro less.IH) (simp_all add: drop_Suc)
      finally show ?thesis using ne False strip_skip [of A] by simp
    qed
  qed
qed

lemma splits_safe_cut:
  assumes "splits_at (u @ w) u w" "splits_at (w @ ys) u' w'"
  shows "safe_cut u u'"
  unfolding safe_cut_def
proof (intro allI impI, rule ccontr)
  fix a v z z'
  assume u: "u = a @ v" and u': "u' = z @ z'" and v: "v \<noteq> []" and l: "live (v @ z)" and z: "z \<noteq> []"
  from live_prefix [OF l v] have lv: "live v" .
  show False
  proof (cases "w = []")
    case True
    with assms(1) u lv show False unfolding splits_at_def by auto
  next
    case False
    with assms(1) have "live w" by (simp add: splits_at_def)
    moreover have "hd z = hd w"
      using assms(2) z u' False by (auto simp: splits_at_def append_eq_append_conv2 hd_append split: if_splits)
    ultimately have "hd z = CHR ''r''" using live_hd by simp
    with z v have "CHR ''r'' \<in> set (tl (v @ z))" by (cases z) auto
    with live_tl_no_r [OF l] show False by simp
  qed
qed

lemma splits_append:
  assumes "splits_at (u @ w) u w" "splits_at (w @ ys) u' w'"
  shows "splits_at (u @ w @ ys) (u @ u') w'"
proof -
  from assms(2) have wy: "w @ ys = u' @ w'" by (simp add: splits_at_def)
  show ?thesis
  proof (cases "w' = []")
    case False
    with assms(2) wy show ?thesis by (simp add: splits_at_def)
  next
    case True
    with assms(2) have "\<forall>a b. w @ ys = a @ b \<longrightarrow> \<not> live b" by (simp add: splits_at_def)
    then have none: "\<not> live b" if "w @ ys = a @ b" for a b using that by blast
    have "\<not> live b" if e: "(u @ w) @ ys = a @ b" for a b
    proof
      assume lb: "live b"
      show False
      proof (cases "length a < length u")
        case False
        have "drop (length u) ((u @ w) @ ys) = drop (length u) (a @ b)" using e by simp
        with False have "w @ ys = drop (length u) a @ b" by simp
        with none lb show False by blast
      next
        case less: True
        with e obtain d where d: "u = a @ d" "d \<noteq> []" "b = d @ w @ ys"
          by (auto simp: append_eq_append_conv2)
        from d lb have "live (d @ w)" using live_prefix [of "d @ w" ys] by simp
        with assms(1) d show False
          using live_suffix_unique [of w "d @ w" u a] unfolding splits_at_def
          by (cases "w = []") auto
      qed
    qed
    with True wy show ?thesis by (simp add: splits_at_def)
  qed
qed

definition orphan_inv :: "string \<Rightarrow> bool" where
  "orphan_inv p \<longleftrightarrow> p = [] \<or> live p"

lemma splits_inv: "splits_at s u w \<Longrightarrow> orphan_inv w"
  by (auto simp: splits_at_def orphan_inv_def split: if_splits)

lemma splits_pend: "orphan_inv p \<Longrightarrow> splits_at p [] p"
  by (auto simp: splits_at_def orphan_inv_def live_def)

interpretation orphans: chunk_transducer orphan_feed "(@)" "[]" orphan_inv
proof unfold_locales
  fix p xs :: string
  obtain u w where "splits_at (p @ xs) u w" using splits_ex by blast
  then show "orphan_inv (snd (orphan_feed p xs))" using splits_inv by (simp add: orphan_feed_splits)
next
  fix p :: string
  assume "orphan_inv p"
  from splits_pend [OF this] show "orphan_feed p [] = ([], p)"
    by (simp add: orphan_feed_splits)
next
  fix p xs ys :: string
  obtain u w where s1: "splits_at (p @ xs) u w" using splits_ex by blast
  obtain u' w' where s2: "splits_at (w @ ys) u' w'" using splits_ex by blast
  from s1 have s: "p @ xs = u @ w" by (simp add: splits_at_def)
  with s1 have s1': "splits_at (u @ w) u w" by simp
  have "p @ xs @ ys = u @ w @ ys" using s by (metis append_assoc)
  with splits_append [OF s1' s2] have "splits_at (p @ xs @ ys) (u @ u') w'" by (simp only:)
  then show "orphan_feed p (xs @ ys) =
      (case orphan_feed p xs of (o1, s1) \<Rightarrow> case orphan_feed s1 ys of (o2, s2) \<Rightarrow> (o1 @ o2, s2))"
    using strip_append [OF splits_safe_cut [OF s1' s2]]
    by (simp add: orphan_feed_splits [OF s1] orphan_feed_splits [OF s2] orphan_feed_splits)
qed simp_all

text \<open>The longest suffix of a text that may still be a handle.\<close>

fun live_suffix :: "string \<Rightarrow> string" where
  "live_suffix [] = []"
| "live_suffix (c # s) = (if live (c # s) then c # s else live_suffix s)"

definition orphan_reference :: "string \<Rightarrow> string" where
  "orphan_reference s =
     (let w = live_suffix s in
      strip_handles (take (length s - length w) s) @ (if length w < 4 then w else []))"

lemma live_suffix_splits: "splits_at s (take (length s - length (live_suffix s)) s) (live_suffix s)"
proof (induction s)
  case Nil
  then show ?case by (simp add: splits_at_def live_def)
next
  case (Cons c s)
  show ?case
  proof (cases "live (c # s)")
    case True
    then show ?thesis by (simp add: splits_at_def)
  next
    case False
    have le: "length (live_suffix s) \<le> length s"
      using Cons.IH by (metis le_add2 length_append splits_at_def)
    show ?thesis
    proof (cases "live_suffix s = []")
      case True
      with Cons.IH have "\<not> live b" if "s = a @ b" for a b
        using that by (simp add: splits_at_def)
      with False have "\<not> live b" if "c # s = a @ b" for a b
        using that by (auto simp: Cons_eq_append_conv)
      with True False show ?thesis by (simp add: splits_at_def)
    next
      case ne: False
      from Cons.IH have "s = take (length s - length (live_suffix s)) s @ live_suffix s"
        and "live (live_suffix s)" using ne by (simp_all add: splits_at_def)
      with False ne le show ?thesis by (simp add: splits_at_def Suc_diff_le)
    qed
  qed
qed

lemma flush_live: "orphan_inv w \<Longrightarrow> orphan_flush w = (if length w < 4 then w else [])"
proof -
  assume "orphan_inv w"
  then consider "w = []" | "live w" by (auto simp: orphan_inv_def)
  then show ?thesis
  proof cases
    case 1
    then show ?thesis by (simp add: orphan_flush_def has_prefix_def res_scheme_def)
  next
    case 2
    then show ?thesis
    proof (cases rule: live_cases)
      case (short n)
      have pw: "has_prefix res_scheme w" unfolding has_prefix_iff short(3) by (metis append_take_drop_id)
      have np: "\<not> has_prefix w res_scheme" using short by (auto simp: has_prefix_def)
      have lw: "length w = n" using short by simp
      have "strip_handles w = w" if "length w < 4"
      proof -
        have "n = 1 \<or> n = 2 \<or> n = 3" using that lw short(1) by auto
        then have "w \<in> {''r'', ''re'', ''res''}" by (auto simp: short(3) res_scheme_def)
        moreover have "strip_handles ''r'' = ''r''" "strip_handles ''re'' = ''re''" "strip_handles ''res'' = ''res''"
          by code_simp+
        ultimately show ?thesis by auto
      qed
      with pw np show ?thesis by (simp add: orphan_flush_def)
    next
      case (long ds)
      then have "drop 6 w = [] \<or> all_digits (drop 6 w)" by (auto simp: all_digits_def)
      moreover have "has_prefix w res_scheme" "\<not> length w < 4" using long by simp_all
      ultimately show ?thesis by (simp add: orphan_flush_def)
    qed
  qed
qed

section \<open>Properties\<close>

text \<open>
  Hiding unresolved handles does not depend on how the provider chunks the answer. However
  the text is cut, what the orphan filter emits chunk by chunk and at the end is what one pass
  over the whole text gives: every complete handle removed, a trailing handle (or a tail that has
  reached the reserved \<^verbatim>\<open>res:\<close>) dropped, and a trailing r, re or res of prose kept.
\<close>

lemma orphan_filter_chunk_free:
  "(case feed_all orphan_feed (@) [] [] chunks of (shown, pend) \<Rightarrow> shown @ orphan_flush pend) =
     orphan_reference (concat chunks)"
proof -
  let ?s = "concat chunks"
  have sp: "splits_at ([] @ ?s) (take (length ?s - length (live_suffix ?s)) ?s) (live_suffix ?s)"
    using live_suffix_splits by simp
  have "feed_all orphan_feed (@) [] [] chunks = orphan_feed [] ?s"
    by (rule orphans.feed_all_concat) (simp add: orphan_inv_def)
  also have "\<dots> = (strip_handles (take (length ?s - length (live_suffix ?s)) ?s), live_suffix ?s)"
    by (rule orphan_feed_splits [OF sp])
  finally show ?thesis
    using flush_live [OF splits_inv [OF sp]] by (simp add: orphan_reference_def Let_def)
qed

end
