(* ===== verification/Session_Lifecycle.thy ===== *)
theory Session_Lifecycle
  imports Session_Binding
begin

text \<open>
  The coordinator of one provider's sandboxes (\<^verbatim>\<open>src/internal/sandbox/session_lifecycle.go\<close>):
  \<^verbatim>\<open>Resolve\<close> connects, recovers, rebuilds or creates the sandbox of a chat session under the
  lifecycle lock, and \<^verbatim>\<open>Destroy\<close> releases it. The binding store is the memory store of
  \<open>Session_Binding\<close>.

  The provider, the session table, the bootstrapper, the clock, the contexts and the lock are
  outside the model: what each answers is an arbitrary function of the calls made so far, which the
  world records. A statement for every environment is therefore a statement for every behaviour of
  these parties, failures and reordered or lying answers included. The lock makes the calls of one
  session sequential.
\<close>

section \<open>Provider-neutral types\<close>

datatype remote_kind = RkNotFound | RkTerminal | RkAuthentication | RkInvalidRequest | RkUnsupported
  | RkConflict | RkCapacity | RkTimeout | RkUnavailable | RkInternal

text \<open>An error of the client: it wraps a \<^verbatim>\<open>RemoteError\<close> of a kind, or it does not.\<close>

datatype client_error = RemoteError remote_kind string | OtherError string

definition remote_kind_of :: "client_error \<Rightarrow> remote_kind option" where
  "remote_kind_of e = (case e of RemoteError k _ \<Rightarrow> Some k | OtherError _ \<Rightarrow> None)"

definition can_replace_binding :: "client_error \<Rightarrow> bool" where
  "can_replace_binding e = (case remote_kind_of e of Some RkNotFound \<Rightarrow> True | Some RkTerminal \<Rightarrow> True | _ \<Rightarrow> False)"

definition http_error_kind :: "string \<Rightarrow> int \<Rightarrow> remote_kind" where
  "http_error_kind op status =
     (if status \<in> {400, 422} then RkInvalidRequest
      else if status \<in> {401, 403} then RkAuthentication
      else if status = 404 then (if op = ''Create'' then RkInvalidRequest else RkNotFound)
      else if status \<in> {408, 504} then RkTimeout
      else if status = 409 then RkConflict
      else if status = 410 then RkTerminal
      else if status \<in> {429, 507} then RkCapacity
      else if 500 \<le> status then RkUnavailable
      else RkInternal)"

datatype remote_state = RsRunning | RsPaused | RsTransitioning | RsTerminal | RsUnknown

text \<open>\<open>h_token\<close> is \<open>None\<close> for a handle that carries no inbound token at all.\<close>

record handle =
  h_id :: string
  h_provider :: string
  h_token :: "string option"

record summary =
  sm_id :: string
  sm_template :: string
  sm_state :: remote_state
  sm_metadata :: "string \<rightharpoonup> string"
  sm_started :: int

record create_request =
  cr_template :: string
  cr_metadata :: "string \<rightharpoonup> string"
  cr_env_vars :: "string \<rightharpoonup> string"
  cr_allow_public :: "bool option"

definition inbound_token_of :: "handle \<Rightarrow> string" where
  "inbound_token_of h = (case h_token h of None \<Rightarrow> [] | Some t \<Rightarrow> t)"

section \<open>The environment and the world\<close>

datatype event =
    CtxAsked "string option"
  | LockAsked "binding_error option"
  | NowRead int
  | SessionAsked sandbox_key "string + bool"
  | SummaryRead string "client_error + summary option"
  | Connected string "client_error + handle option"
  | Listed "(string \<times> string) list" "client_error + summary list"
  | Created create_request "client_error + handle option"
  | Deleted string "client_error option"
  | Overridden "string + string"
  | Bootstrapped handle "string option"
  | FailureNoted client_error

record env =
  e_ctx :: "event list \<Rightarrow> string option"
  e_lock :: "event list \<Rightarrow> binding_error option"
  e_now :: "event list \<Rightarrow> int"
  e_session :: "event list \<Rightarrow> sandbox_key \<Rightarrow> string + bool"
  e_get :: "event list \<Rightarrow> string \<Rightarrow> client_error + summary option"
  e_connect_session :: "event list \<Rightarrow> string \<Rightarrow> string \<Rightarrow> client_error + handle option"
  e_connect :: "event list \<Rightarrow> string \<Rightarrow> string \<Rightarrow> client_error + handle option"
  e_list :: "event list \<Rightarrow> (string \<times> string) list \<Rightarrow> client_error + summary list"
  e_create :: "event list \<Rightarrow> create_request \<Rightarrow> client_error + handle option"
  e_delete :: "event list \<Rightarrow> string \<Rightarrow> client_error option"
  e_override :: "event list \<Rightarrow> sandbox_key \<Rightarrow> string + string"
  e_after_create :: "event list \<Rightarrow> sandbox_key \<Rightarrow> handle \<Rightarrow> string option"

record world =
  w_store :: memory_store
  w_hist :: "event list"

datatype lifecycle_error =
    ErrText string
  | ErrWrap string lifecycle_error
  | ErrClient client_error
  | ErrStore binding_error
  | ErrOuter string
  | ErrSessionDeleted
  | ErrJoin "lifecycle_error list"

type_synonym 'a action = "world \<Rightarrow> (lifecycle_error + 'a) \<times> world"

definition ret :: "'a \<Rightarrow> 'a action" where
  "ret a w = (Inr a, w)"

definition fail :: "lifecycle_error \<Rightarrow> 'a action" where
  "fail e w = (Inl e, w)"

definition seq :: "'a action \<Rightarrow> ('a \<Rightarrow> 'b action) \<Rightarrow> 'b action" where
  "seq m f w = (case m w of (Inl e, w1) \<Rightarrow> (Inl e, w1) | (Inr a, w1) \<Rightarrow> f a w1)"

text \<open>A call whose error the caller inspects.\<close>

definition caught :: "'a action \<Rightarrow> (lifecycle_error + 'a \<Rightarrow> 'b action) \<Rightarrow> 'b action" where
  "caught m f w = (case m w of (r, w1) \<Rightarrow> f r w1)"

text \<open>\<^verbatim>\<open>fmt.Errorf("...: %w", err)\<close> and \<^verbatim>\<open>errors.Join(err, cleanup())\<close>.\<close>

definition wrapped :: "string \<Rightarrow> 'a action \<Rightarrow> 'a action" where
  "wrapped t m = caught m (\<lambda>r. case r of Inl e \<Rightarrow> fail (ErrWrap t e) | Inr a \<Rightarrow> ret a)"

definition fail_after :: "lifecycle_error \<Rightarrow> unit action \<Rightarrow> 'a action" where
  "fail_after e m = caught m (\<lambda>r. fail (ErrJoin (e # (case r of Inl e' \<Rightarrow> [e'] | Inr _ \<Rightarrow> []))))"

definition ask :: "(event list \<Rightarrow> 'r) \<Rightarrow> ('r \<Rightarrow> event) \<Rightarrow> 'r action" where
  "ask q ev w = (let r = q (w_hist w) in (Inr r, w\<lparr>w_hist := w_hist w @ [ev r]\<rparr>))"

text \<open>An answer that is itself a result.\<close>

definition lifted :: "('e \<Rightarrow> lifecycle_error) \<Rightarrow> 'e + 'a \<Rightarrow> 'a action" where
  "lifted f r = (case r of Inl e \<Rightarrow> fail (f e) | Inr a \<Rightarrow> ret a)"

definition client_op :: "(event list \<Rightarrow> client_error + 'a) \<Rightarrow> (client_error + 'a \<Rightarrow> event) \<Rightarrow> 'a action" where
  "client_op q ev = seq (ask q ev) (lifted ErrClient)"

definition store_op :: "env \<Rightarrow> (memory_store \<Rightarrow> string option \<Rightarrow> (binding_error + 'a) \<times> memory_store) \<Rightarrow> 'a action" where
  "store_op env f =
     seq (ask (e_ctx env) CtxAsked)
       (\<lambda>c w. case f (w_store w) c of (r, s) \<Rightarrow> lifted ErrStore r (w\<lparr>w_store := s\<rparr>))"

section \<open>The coordinator\<close>

text \<open>
  The immutable fields of \<^verbatim>\<open>remoteSessionLifecycle\<close> and of its client. \<open>l_connector\<close> says whether
  the client is a \<^verbatim>\<open>RemoteSessionConnector\<close>, \<open>l_bootstrapper\<close> whether there is a bootstrapper and
  \<open>l_failure_handler\<close> whether it wants to hear of failed creations.
\<close>

record lifecycle =
  l_provider :: string
  l_supports_reconnect :: bool
  l_supports_metadata :: bool
  l_supports_list :: bool
  l_connector :: bool
  l_request :: create_request
  l_config :: string
  l_bootstrapper :: bool
  l_failure_handler :: bool

text \<open>\<^verbatim>\<open>newRemoteSessionLifecycle\<close> for a client, a store and a checker that are not nil.\<close>

definition new_lifecycle :: "lifecycle \<Rightarrow> int \<Rightarrow> lifecycle_error + lifecycle" where
  "new_lifecycle l cleanup_timeout =
     (if \<not> is_remote_provider (l_provider l) then Inl (ErrText ''unsupported remote sandbox provider'')
      else if \<not> l_supports_reconnect l then Inl (ErrText ''remote sandbox provider does not support reconnect'')
      else if trim_space (cr_template (l_request l)) = [] then Inl (ErrText ''remote sandbox template ID is required'')
      else if cleanup_timeout \<le> 0 then Inl (ErrText ''remote sandbox cleanup timeout must be positive'')
      else Inr (l\<lparr>l_config := (if trim_space (l_config l) = [] then ''-'' else l_config l)\<rparr>))"

definition lifecycle_metadata :: "lifecycle \<Rightarrow> sandbox_key \<Rightarrow> (string \<times> string) list" where
  "lifecycle_metadata l k =
     [(''weknora_tenant_id'', dec (unat (k_tenant k))),
      (''weknora_session_id'', k_session k),
      (''weknora_binding_version'', dec (nat binding_version)),
      (''weknora_provider'', l_provider l),
      (''weknora_sandbox_config_id'', l_config l)]"

text \<open>Reading a missing key of a Go map gives the empty string.\<close>

definition metadata_matches :: "(string \<rightharpoonup> string) \<Rightarrow> (string \<times> string) list \<Rightarrow> bool" where
  "metadata_matches candidate required =
     list_all (\<lambda>(k, v). (case candidate k of None \<Rightarrow> [] | Some x \<Rightarrow> x) = v) required"

definition inbound_token_required :: "lifecycle \<Rightarrow> bool" where
  "inbound_token_required l = (cr_allow_public (l_request l) = Some False)"

definition missing_required_token :: "lifecycle \<Rightarrow> handle \<Rightarrow> bool" where
  "missing_required_token l h \<longleftrightarrow>
     h_token h \<noteq> None \<and> inbound_token_required l \<and> inbound_token_of h = []"

text \<open>\<^verbatim>\<open>validateHandle\<close>; the empty expectation accepts every id. A valid handle is not nil.\<close>

definition validate_handle :: "lifecycle \<Rightarrow> handle option \<Rightarrow> string \<Rightarrow> lifecycle_error + handle" where
  "validate_handle l h0 expected =
     (case h0 of
        None \<Rightarrow> Inl (ErrText ''remote sandbox client returned nil handle'')
      | Some h \<Rightarrow>
          if trim_space (h_id h) = [] then Inl (ErrText ''remote sandbox client returned handle without ID'')
          else if expected \<noteq> [] \<and> h_id h \<noteq> expected
          then Inl (ErrText ''remote sandbox handle ID does not match expected'')
          else if h_provider h \<noteq> l_provider l
          then Inl (ErrText ''remote sandbox handle provider does not match client'')
          else Inr h)"

definition new_binding :: "lifecycle \<Rightarrow> sandbox_key \<Rightarrow> string \<Rightarrow> string \<Rightarrow> string \<Rightarrow> int \<Rightarrow> binding" where
  "new_binding l k sandbox template token created =
     \<lparr>b_version = binding_version, b_provider = l_provider l, b_tenant = k_tenant k, b_session = k_session k,
      b_sandbox = sandbox, b_template = template, b_created = created, b_config = l_config l,
      b_stale = None, b_token = token\<rparr>"

subsection \<open>Reading and releasing\<close>

definition read_binding :: "env \<Rightarrow> sandbox_key \<Rightarrow> binding option action" where
  "read_binding env k =
     seq (wrapped ''get sandbox binding'' (store_op env (\<lambda>s c. (ms_get s c k, s))))
       (\<lambda>b0. case b0 of
          None \<Rightarrow> ret None
        | Some b \<Rightarrow>
            (case binding_validate b k of
               Some e \<Rightarrow> fail (ErrWrap ''validate sandbox binding'' (ErrStore e))
             | None \<Rightarrow> ret (Some b)))"

text \<open>\<^verbatim>\<open>client.Delete\<close> where a sandbox that is gone already counts as deleted.\<close>

definition delete_sandbox :: "env \<Rightarrow> string \<Rightarrow> unit action" where
  "delete_sandbox env sid =
     seq (ask (\<lambda>h. e_delete env h sid) (Deleted sid))
       (\<lambda>r. case r of
          None \<Rightarrow> ret ()
        | Some e \<Rightarrow> if can_replace_binding e then ret () else fail (ErrClient e))"

definition cleanup_created :: "env \<Rightarrow> handle option \<Rightarrow> unit action" where
  "cleanup_created env h0 =
     (case h0 of
        None \<Rightarrow> fail (ErrText ''cannot clean up remote sandbox without an ID'')
      | Some h \<Rightarrow>
          if h_id h = [] then fail (ErrText ''cannot clean up remote sandbox without an ID'')
          else delete_sandbox env (h_id h))"

text \<open>The second half of \<^verbatim>\<open>destroyBindingLocked\<close>, and the whole.\<close>

definition release_binding :: "env \<Rightarrow> sandbox_key \<Rightarrow> binding \<Rightarrow> unit action" where
  "release_binding env k b =
     seq (wrapped ''delete sandbox binding''
            (store_op env (\<lambda>s c. ms_delete_if_match s c k (b_provider b) (b_sandbox b))))
       (\<lambda>deleted. if deleted then ret ()
          else seq (read_binding env k)
            (\<lambda>current. if current = None then ret ()
                       else fail (ErrText ''sandbox binding changed during destroy'')))"

definition destroy_binding_locked :: "lifecycle \<Rightarrow> env \<Rightarrow> sandbox_key \<Rightarrow> binding \<Rightarrow> unit action" where
  "destroy_binding_locked l env k b =
     seq (if b_provider b = l_provider l
          then wrapped ''delete remote sandbox'' (delete_sandbox env (b_sandbox b)) else ret ())
       (\<lambda>_. release_binding env k b)"

text \<open>Compare-delete that has to succeed, as the two replacements of \<^verbatim>\<open>resolveLocked\<close> do it.\<close>

definition drop_binding :: "env \<Rightarrow> sandbox_key \<Rightarrow> binding \<Rightarrow> string \<Rightarrow> unit action" where
  "drop_binding env k b what =
     seq (wrapped (''delete '' @ what @ '' binding'')
            (store_op env (\<lambda>s c. ms_delete_if_match s c k (b_provider b) (b_sandbox b))))
       (\<lambda>deleted. if deleted then ret () else fail (ErrText (what @ '' binding changed during replacement'')))"

subsection \<open>Connecting\<close>

definition validate_session_summary :: "string \<Rightarrow> summary option \<Rightarrow> client_error option" where
  "validate_session_summary sid s0 =
     (case s0 of
        None \<Rightarrow> Some (RemoteError RkInternal ''provider returned no sandbox summary'')
      | Some s \<Rightarrow>
          if sm_id s \<noteq> sid then Some (RemoteError RkInternal ''provider returned another sandbox for the binding'')
          else if sm_state s = RsTerminal then Some (RemoteError RkTerminal ''sandbox is terminal'')
          else None)"

definition connect_remote_session :: "lifecycle \<Rightarrow> env \<Rightarrow> string \<Rightarrow> string \<Rightarrow> handle option action" where
  "connect_remote_session l env sid token =
     (if l_connector l then client_op (\<lambda>h. e_connect_session env h sid token) (Connected sid)
      else seq (client_op (\<lambda>h. e_get env h sid) (SummaryRead sid))
        (\<lambda>s. case validate_session_summary sid s of
           Some e \<Rightarrow> fail (ErrClient e)
         | None \<Rightarrow> client_op (\<lambda>h. e_connect env h sid token) (Connected sid)))"

text \<open>The write-back of a reissued token; its failure is logged only.\<close>

definition persist_inbound_token :: "env \<Rightarrow> sandbox_key \<Rightarrow> binding \<Rightarrow> handle \<Rightarrow> unit action" where
  "persist_inbound_token env k b h =
     (let token = inbound_token_of h in
      if token = [] \<or> token = b_token b then ret ()
      else caught (store_op env (\<lambda>s c. ms_replace_token s c k b token)) (\<lambda>_. ret ()))"

text \<open>\<open>None\<close> is the answer that the binding may be replaced.\<close>

definition connect_binding :: "lifecycle \<Rightarrow> env \<Rightarrow> sandbox_key \<Rightarrow> binding \<Rightarrow> handle option action" where
  "connect_binding l env k b =
     caught (connect_remote_session l env (b_sandbox b) (b_token b))
       (\<lambda>r. case r of
          Inl (ErrClient e) \<Rightarrow>
            if can_replace_binding e then ret None
            else fail (ErrWrap ''connect bound remote sandbox'' (ErrClient e))
        | Inl e \<Rightarrow> fail (ErrWrap ''connect bound remote sandbox'' e)
        | Inr h0 \<Rightarrow>
            seq (lifted id (validate_handle l h0 (b_sandbox b)))
              (\<lambda>h. seq (persist_inbound_token env k b h) (\<lambda>_. ret (Some h))))"

definition connect_known_winner :: "lifecycle \<Rightarrow> env \<Rightarrow> binding \<Rightarrow> handle action" where
  "connect_known_winner l env winner =
     (if b_provider winner \<noteq> l_provider l
      then fail (ErrText ''sandbox binding winner uses another provider'')
      else seq (connect_binding l env \<lparr>k_tenant = b_tenant winner, k_session = b_session winner\<rparr> winner)
        (\<lambda>h. case h of
           None \<Rightarrow> fail (ErrText ''sandbox binding winner is already terminal'')
         | Some h \<Rightarrow> ret h))"

definition connect_winner :: "lifecycle \<Rightarrow> env \<Rightarrow> sandbox_key \<Rightarrow> handle action" where
  "connect_winner l env k =
     seq (read_binding env k)
       (\<lambda>winner. case winner of
          None \<Rightarrow> fail (ErrText ''sandbox binding create lost without a winner'')
        | Some b \<Rightarrow> connect_known_winner l env b)"

subsection \<open>Recovering\<close>

text \<open>The comparison of \<^verbatim>\<open>sort.Slice\<close>: oldest first, unknown start times last, ties by id.\<close>

fun string_less :: "string \<Rightarrow> string \<Rightarrow> bool" where
  "string_less [] t = (t \<noteq> [])"
| "string_less (c # s) [] = False"
| "string_less (c # s) (d # t) =
     ((of_char c :: nat) < of_char d \<or> (c = d \<and> string_less s t))"

definition summary_less :: "summary \<Rightarrow> summary \<Rightarrow> bool" where
  "summary_less a b =
     (if sm_started a = sm_started b then string_less (sm_id a) (sm_id b)
      else if sm_started a = 0 then False
      else if sm_started b = 0 then True
      else sm_started a < sm_started b)"

primrec insert_summary :: "summary \<Rightarrow> summary list \<Rightarrow> summary list" where
  "insert_summary a [] = [a]"
| "insert_summary a (b # bs) = (if summary_less b a then b # insert_summary a bs else a # b # bs)"

definition sort_summaries :: "summary list \<Rightarrow> summary list" where
  "sort_summaries ss = foldr insert_summary ss []"

primrec cleanup_owned_duplicates ::
    "env \<Rightarrow> (string \<times> string) list \<Rightarrow> string \<Rightarrow> summary list \<Rightarrow> unit action" where
  "cleanup_owned_duplicates env md selected [] = ret ()"
| "cleanup_owned_duplicates env md selected (c # cs) =
     (if sm_id c = [] \<or> sm_id c = selected \<or> sm_state c = RsTerminal
      then cleanup_owned_duplicates env md selected cs
      else if \<not> metadata_matches (sm_metadata c) md
      then fail (ErrText ''remote provider returned sandbox outside metadata filter'')
      else seq (wrapped ''delete duplicate owned remote sandbox'' (delete_sandbox env (sm_id c)))
        (\<lambda>_. cleanup_owned_duplicates env md selected cs))"

text \<open>Adoption of the sandbox of summary \<open>s\<close>, to which \<open>h\<close> is connected.\<close>

definition adopt :: "lifecycle \<Rightarrow> env \<Rightarrow> sandbox_key \<Rightarrow> summary list \<Rightarrow> summary \<Rightarrow> handle \<Rightarrow> handle action" where
  "adopt l env k all s h =
     seq (cleanup_owned_duplicates env (lifecycle_metadata l k) (sm_id s) all)
       (\<lambda>_. let template = (if sm_template s = [] then cr_template (l_request l) else sm_template s) in
          seq (if sm_started s = 0 then ask (e_now env) NowRead else ret (sm_started s))
            (\<lambda>created_at.
               seq (wrapped ''bind owned remote sandbox''
                      (store_op env (\<lambda>st c. ms_create st c k
                         (new_binding l k (sm_id s) template (inbound_token_of h) created_at))))
                 (\<lambda>created. if created then ret h else connect_winner l env k)))"

primrec recover_loop ::
    "lifecycle \<Rightarrow> env \<Rightarrow> sandbox_key \<Rightarrow> summary list \<Rightarrow> summary list \<Rightarrow> handle option action" where
  "recover_loop l env k all [] = ret None"
| "recover_loop l env k all (s # ss) =
     (if sm_id s = [] \<or> sm_state s = RsTerminal then recover_loop l env k all ss
      else if \<not> metadata_matches (sm_metadata s) (lifecycle_metadata l k)
      then fail (ErrText ''remote provider returned sandbox outside metadata filter'')
      else caught (client_op (\<lambda>h. e_connect env h (sm_id s) []) (Connected (sm_id s)))
        (\<lambda>r. case r of
           Inl (ErrClient e) \<Rightarrow>
             if can_replace_binding e then recover_loop l env k all ss
             else fail (ErrWrap ''connect owned remote sandbox'' (ErrClient e))
         | Inl e \<Rightarrow> fail (ErrWrap ''connect owned remote sandbox'' e)
         | Inr h0 \<Rightarrow>
             seq (lifted id (validate_handle l h0 (sm_id s)))
               (\<lambda>h. if missing_required_token l h
                  then seq (wrapped ''delete unusable owned remote sandbox'' (delete_sandbox env (sm_id s)))
                         (\<lambda>_. recover_loop l env k all ss)
                  else seq (adopt l env k all s h) (\<lambda>h. ret (Some h)))))"

definition recover_owned_sandbox :: "lifecycle \<Rightarrow> env \<Rightarrow> sandbox_key \<Rightarrow> handle option action" where
  "recover_owned_sandbox l env k =
     (if \<not> l_supports_metadata l \<or> \<not> l_supports_list l then ret None
      else seq (wrapped ''list owned remote sandboxes''
                  (client_op (\<lambda>h. e_list env h (lifecycle_metadata l k)) (Listed (lifecycle_metadata l k))))
        (\<lambda>ss. recover_loop l env k (sort_summaries ss) (sort_summaries ss)))"

subsection \<open>Creating\<close>

definition create_request_for :: "lifecycle \<Rightarrow> sandbox_key \<Rightarrow> create_request" where
  "create_request_for l k =
     (l_request l)\<lparr>cr_metadata :=
        (if l_supports_metadata l then cr_metadata (l_request l) ++ map_of (lifecycle_metadata l k) else Map.empty)\<rparr>"

definition run_bootstrap :: "lifecycle \<Rightarrow> env \<Rightarrow> sandbox_key \<Rightarrow> handle \<Rightarrow> unit action" where
  "run_bootstrap l env k h =
     (if \<not> l_bootstrapper l then ret ()
      else seq (ask (\<lambda>hist. e_after_create env hist k h) (Bootstrapped h))
        (\<lambda>r. case r of
           None \<Rightarrow> ret ()
         | Some e \<Rightarrow>
             caught (\<lambda>w. case ms_delete_if_match (w_store w) None k (l_provider l) (h_id h) of
                       (r, s) \<Rightarrow> lifted ErrStore r (w\<lparr>w_store := s\<rparr>))
               (\<lambda>r. case r of
                  Inl de \<Rightarrow> fail (ErrJoin [ErrOuter e, ErrWrap ''delete binding after failed bootstrap'' de])
                | Inr _ \<Rightarrow> fail_after (ErrOuter e) (cleanup_created env (Some h)))))"

text \<open>What follows a successful \<^verbatim>\<open>client.Create\<close>.\<close>

definition bind_created ::
    "lifecycle \<Rightarrow> env \<Rightarrow> sandbox_key \<Rightarrow> create_request \<Rightarrow> handle \<Rightarrow> handle action" where
  "bind_created l env k request h =
     seq (ask (e_now env) NowRead)
       (\<lambda>now. caught (store_op env (\<lambda>s c. ms_create s c k
                 (new_binding l k (h_id h) (cr_template request) (inbound_token_of h) now)))
          (\<lambda>r. case r of
             Inl e \<Rightarrow> fail_after (ErrWrap ''create sandbox binding'' e) (cleanup_created env (Some h))
           | Inr True \<Rightarrow> seq (run_bootstrap l env k h) (\<lambda>_. ret h)
           | Inr False \<Rightarrow>
               seq (wrapped ''read winning sandbox binding'' (read_binding env k))
                 (\<lambda>winner.
                    if (case winner of None \<Rightarrow> False
                        | Some b \<Rightarrow> b_provider b = l_provider l \<and> b_sandbox b = h_id h)
                    then ret h
                    else seq (wrapped ''cleanup losing remote sandbox'' (cleanup_created env (Some h)))
                      (\<lambda>_. case winner of
                         None \<Rightarrow> fail (ErrText ''sandbox binding create lost without a winner'')
                       | Some b \<Rightarrow> connect_known_winner l env b))))"

definition check_created ::
    "lifecycle \<Rightarrow> env \<Rightarrow> sandbox_key \<Rightarrow> create_request \<Rightarrow> handle option \<Rightarrow> handle action" where
  "check_created l env k request h0 =
     (case validate_handle l h0 [] of
        Inl e \<Rightarrow> fail_after e (cleanup_created env h0)
      | Inr h \<Rightarrow>
          if missing_required_token l h
          then fail_after (ErrText ''inbound traffic token missing under a closed-inbound policy'')
                 (cleanup_created env h0)
          else caught (seq (ask (\<lambda>hist. e_session env hist k) (SessionAsked k)) (lifted ErrOuter))
            (\<lambda>r. case r of
               Inl e \<Rightarrow> fail_after (ErrWrap ''recheck owning session'' e) (cleanup_created env h0)
             | Inr ex \<Rightarrow>
                 if \<not> ex then fail_after ErrSessionDeleted (cleanup_created env h0)
                 else bind_created l env k request h))"

definition note_create_failed :: "lifecycle \<Rightarrow> bool \<Rightarrow> client_error \<Rightarrow> unit action" where
  "note_create_failed l used_override e =
     (if used_override \<and> l_failure_handler l then ask (\<lambda>_. ()) (\<lambda>_. FailureNoted e) else ret ())"

definition create_and_bind :: "lifecycle \<Rightarrow> env \<Rightarrow> sandbox_key \<Rightarrow> handle action" where
  "create_and_bind l env k =
     seq (if l_bootstrapper l
          then wrapped ''resolve session template override''
                 (seq (ask (\<lambda>h. e_override env h k) Overridden) (lifted ErrOuter))
          else ret [])
       (\<lambda>override.
          let used = trim_space override \<noteq> [];
              request = (if used then (create_request_for l k)\<lparr>cr_template := override\<rparr> else create_request_for l k)
          in seq (ask (\<lambda>h. e_create env h request) (Created request))
               (\<lambda>r. case r of
                  Inl e \<Rightarrow> seq (note_create_failed l used e)
                            (\<lambda>_. fail (ErrWrap ''create remote sandbox'' (ErrClient e)))
                | Inr h0 \<Rightarrow> check_created l env k request h0))"

subsection \<open>Resolve and Destroy\<close>

text \<open>The lease read under the context; a lease that cannot be read counts as a running turn.\<close>

definition should_rebuild_stale :: "env \<Rightarrow> sandbox_key \<Rightarrow> bool action" where
  "should_rebuild_stale env k =
     caught (store_op env (\<lambda>s c. (turn_state s c k, s)))
       (\<lambda>r. case r of
          Inl _ \<Rightarrow> ret False
        | Inr (active, rebuild_once) \<Rightarrow> ret (if \<not> active then True else rebuild_once))"

definition spend_turn_rebuild :: "env \<Rightarrow> sandbox_key \<Rightarrow> unit action" where
  "spend_turn_rebuild env k = caught (store_op env (\<lambda>s c. consume_turn_rebuild s c k)) (\<lambda>_. ret ())"

text \<open>Dropping a binding of another provider, and rebuilding a stale one at a turn boundary.\<close>

definition usable_binding :: "lifecycle \<Rightarrow> env \<Rightarrow> sandbox_key \<Rightarrow> binding option \<Rightarrow> binding option action" where
  "usable_binding l env k b0 =
     (case b0 of
        None \<Rightarrow> ret None
      | Some b \<Rightarrow>
          if b_provider b \<noteq> l_provider l
          then seq (drop_binding env k b ''mismatched provider'') (\<lambda>_. ret None)
          else if b_stale b = None then ret (Some b)
          else seq (should_rebuild_stale env k)
            (\<lambda>rebuild. if rebuild
               then seq (wrapped ''release stale sandbox binding'' (destroy_binding_locked l env k b)) (\<lambda>_. ret None)
               else ret (Some b)))"

definition recover_or_create :: "lifecycle \<Rightarrow> env \<Rightarrow> sandbox_key \<Rightarrow> handle action" where
  "recover_or_create l env k =
     seq (recover_owned_sandbox l env k)
       (\<lambda>r. case r of Some h \<Rightarrow> ret h | None \<Rightarrow> create_and_bind l env k)"

definition connect_or_rebuild :: "lifecycle \<Rightarrow> env \<Rightarrow> sandbox_key \<Rightarrow> binding option \<Rightarrow> handle action" where
  "connect_or_rebuild l env k b0 =
     (case b0 of
        None \<Rightarrow> recover_or_create l env k
      | Some b \<Rightarrow>
          seq (connect_binding l env k b)
            (\<lambda>r. case r of
               Some h \<Rightarrow> ret h
             | None \<Rightarrow> seq (drop_binding env k b ''terminal sandbox'') (\<lambda>_. recover_or_create l env k)))"

definition resolve_locked :: "lifecycle \<Rightarrow> env \<Rightarrow> sandbox_key \<Rightarrow> handle action" where
  "resolve_locked l env k =
     seq (read_binding env k)
       (\<lambda>b0. seq (wrapped ''check owning session''
                (seq (ask (\<lambda>hist. e_session env hist k) (SessionAsked k)) (lifted ErrOuter)))
          (\<lambda>ex. if \<not> ex
             then (case b0 of
                     None \<Rightarrow> fail (ErrJoin [ErrSessionDeleted])
                   | Some b \<Rightarrow> fail_after ErrSessionDeleted (destroy_binding_locked l env k b))
             else seq (usable_binding l env k b0)
               (\<lambda>b1. seq (spend_turn_rebuild env k) (\<lambda>_. connect_or_rebuild l env k b1))))"

text \<open>
  \<^verbatim>\<open>WithLifecycleLock\<close> of the memory store: the body runs once the lock is held, and its result is
  the call's. The nil check of \<^verbatim>\<open>Resolve\<close> cannot fire, since a resolved handle has been validated.
\<close>

definition with_lifecycle_lock :: "env \<Rightarrow> 'a action \<Rightarrow> 'a action" where
  "with_lifecycle_lock env body =
     seq (ask (e_lock env) LockAsked)
       (\<lambda>r. case r of Some e \<Rightarrow> fail (ErrStore e) | None \<Rightarrow> body)"

definition resolve_session :: "lifecycle \<Rightarrow> env \<Rightarrow> sandbox_key \<Rightarrow> handle action" where
  "resolve_session l env k =
     (case key_validate k of
        Some e \<Rightarrow> fail (ErrStore e)
      | None \<Rightarrow> wrapped ''resolve remote sandbox for session'' (with_lifecycle_lock env (resolve_locked l env k)))"

definition destroy_locked :: "lifecycle \<Rightarrow> env \<Rightarrow> sandbox_key \<Rightarrow> unit action" where
  "destroy_locked l env k =
     seq (read_binding env k)
       (\<lambda>b0. case b0 of None \<Rightarrow> ret () | Some b \<Rightarrow> destroy_binding_locked l env k b)"

definition destroy_session :: "lifecycle \<Rightarrow> env \<Rightarrow> sandbox_key \<Rightarrow> unit action" where
  "destroy_session l env k =
     (case key_validate k of
        Some e \<Rightarrow> fail (ErrStore e)
      | None \<Rightarrow> wrapped ''destroy remote sandbox for session'' (with_lifecycle_lock env (destroy_locked l env k)))"

end
