(* ===== verification/Lifecycle_Safety.thy ===== *)
theory Lifecycle_Safety
  imports Session_Lifecycle
begin

text \<open>
  What \<open>Session_Lifecycle\<close> guarantees: a small program logic for its actions, an interface for
  relations that actions move along, the facts of each step, and the properties of resolving and
  destroying.
\<close>

section \<open>Reasoning about actions\<close>

text \<open>\<open>post m w Q\<close>: running \<open>m\<close> in \<open>w\<close> ends in a result and a world that satisfy \<open>Q\<close>.\<close>

definition post :: "'a action \<Rightarrow> world \<Rightarrow> (lifecycle_error + 'a \<Rightarrow> world \<Rightarrow> bool) \<Rightarrow> bool" where
  "post m w Q = (case m w of (r, w1) \<Rightarrow> Q r w1)"

lemma post_mono: "post m w P \<Longrightarrow> (\<And>r w1. P r w1 \<Longrightarrow> Q r w1) \<Longrightarrow> post m w Q"
  by (auto simp: post_def split: prod.splits)

lemma post_conj: "post m w P \<Longrightarrow> post m w Q \<Longrightarrow> post m w (\<lambda>r w1. P r w1 \<and> Q r w1)"
  by (auto simp: post_def split: prod.splits)

lemma postD: "post m w Q \<Longrightarrow> m w = (r, w1) \<Longrightarrow> Q r w1"
  by (simp add: post_def)

lemma post_ret [simp]: "post (ret a) w Q = Q (Inr a) w"
  by (simp add: post_def ret_def)

lemma post_fail [simp]: "post (fail e) w Q = Q (Inl e) w"
  by (simp add: post_def fail_def)

lemma post_seq [simp]:
  "post (seq m f) w Q = post m w (\<lambda>r w1. case r of Inl e \<Rightarrow> Q (Inl e) w1 | Inr a \<Rightarrow> post (f a) w1 Q)"
  by (simp add: post_def seq_def split: prod.splits sum.splits)

lemma post_caught [simp]: "post (caught m f) w Q = post m w (\<lambda>r w1. post (f r) w1 Q)"
  by (simp add: post_def caught_def split: prod.splits)

lemma post_wrapped [simp]:
  "post (wrapped t m) w Q = post m w (\<lambda>r w1. case r of Inl e \<Rightarrow> Q (Inl (ErrWrap t e)) w1 | Inr a \<Rightarrow> Q (Inr a) w1)"
  unfolding wrapped_def post_caught by (rule arg_cong [where f = "post m w"]) (auto simp: fun_eq_iff split: sum.split)

lemma wrapped_Inr [simp]: "wrapped t m w = (Inr a, w1) \<longleftrightarrow> m w = (Inr a, w1)"
  by (simp add: wrapped_def caught_def fail_def ret_def split: prod.split sum.split)

lemma post_fail_after [simp]:
  "post (fail_after e m) w Q =
     post m w (\<lambda>r w1. Q (Inl (ErrJoin (e # (case r of Inl e' \<Rightarrow> [e'] | Inr _ \<Rightarrow> [])))) w1)"
  by (simp add: fail_after_def)

lemma post_ask [simp]: "post (ask q ev) w Q = Q (Inr (q (w_hist w))) (w\<lparr>w_hist := w_hist w @ [ev (q (w_hist w))]\<rparr>)"
  by (simp add: post_def ask_def Let_def)

lemma post_lifted [simp]: "post (lifted f r) w Q = (case r of Inl e \<Rightarrow> Q (Inl (f e)) w | Inr a \<Rightarrow> Q (Inr a) w)"
  by (simp add: lifted_def split: sum.split)

lemma post_client_op [simp]:
  "post (client_op q ev) w Q =
     (let r = q (w_hist w); w1 = w\<lparr>w_hist := w_hist w @ [ev r]\<rparr> in
      case r of Inl e \<Rightarrow> Q (Inl (ErrClient e)) w1 | Inr a \<Rightarrow> Q (Inr a) w1)"
  by (simp add: client_op_def Let_def)

lemma post_store_op [simp]:
  "post (store_op env f) w Q =
     (let c = e_ctx env (w_hist w) in
      case f (w_store w) c of (r, s) \<Rightarrow>
        (let w1 = w\<lparr>w_hist := w_hist w @ [CtxAsked c], w_store := s\<rparr> in
         case r of Inl e \<Rightarrow> Q (Inl (ErrStore e)) w1 | Inr a \<Rightarrow> Q (Inr a) w1))"
  by (simp add: store_op_def post_def seq_def ask_def lifted_def fail_def ret_def Let_def
      split: prod.splits sum.splits)

text \<open>
  An interface of actions that only move the world along a relation: the relation is reflexive and
  transitive, and what is composed of such actions is one.
\<close>

locale action_frame =
  fixes R :: "world \<Rightarrow> world \<Rightarrow> bool"
  assumes frame_refl: "R w w" and frame_trans: "R w w1 \<Longrightarrow> R w1 w2 \<Longrightarrow> R w w2"
begin

definition keeps :: "'a action \<Rightarrow> bool" where
  "keeps m \<longleftrightarrow> (\<forall>w. R w (snd (m w)))"

lemma keepsD: "keeps m \<Longrightarrow> R w (snd (m w))"
  by (simp add: keeps_def)

lemma keeps_post: "keeps m \<Longrightarrow> post m w (\<lambda>_ w1. R w w1)"
  by (auto simp: keeps_def post_def split: prod.splits) (metis snd_conv)

lemma keeps_ret: "keeps (ret a)"
  by (simp add: keeps_def ret_def frame_refl)

lemma keeps_fail: "keeps (fail e)"
  by (simp add: keeps_def fail_def frame_refl)

lemma keeps_seq: "keeps m \<Longrightarrow> (\<And>a w w1. m w = (Inr a, w1) \<Longrightarrow> keeps (f a)) \<Longrightarrow> keeps (seq m f)"
  unfolding keeps_def seq_def
  by (auto split: prod.splits sum.splits) (metis snd_conv, metis frame_trans snd_conv)

lemma keeps_caught: "keeps m \<Longrightarrow> (\<And>r. keeps (f r)) \<Longrightarrow> keeps (caught m f)"
  unfolding keeps_def caught_def by (auto split: prod.splits) (metis frame_trans snd_conv)

lemma keeps_wrapped: "keeps m \<Longrightarrow> keeps (wrapped t m)"
  unfolding wrapped_def by (rule keeps_caught) (auto intro: keeps_ret keeps_fail split: sum.split)

lemma keeps_fail_after: "keeps m \<Longrightarrow> keeps (fail_after e m)"
  unfolding fail_after_def by (rule keeps_caught) (auto intro: keeps_fail)

lemma keeps_lifted: "keeps (lifted f r)"
  unfolding lifted_def by (auto intro: keeps_ret keeps_fail split: sum.split)

lemma keeps_ask: "(\<And>w r. R w (w\<lparr>w_hist := w_hist w @ [ev r]\<rparr>)) \<Longrightarrow> keeps (ask q ev)"
  by (simp add: keeps_def ask_def Let_def)

lemma keeps_client_op: "(\<And>w r. R w (w\<lparr>w_hist := w_hist w @ [ev r]\<rparr>)) \<Longrightarrow> keeps (client_op q ev)"
  unfolding client_op_def by (rule keeps_seq) (auto intro: keeps_ask keeps_lifted)

lemma keeps_store_op:
  assumes "\<And>w c. R w (w\<lparr>w_hist := w_hist w @ [CtxAsked c], w_store := snd (f (w_store w) c)\<rparr>)"
  shows "keeps (store_op env f)"
  unfolding keeps_def
proof
  fix w
  have "snd (store_op env f w) =
      w\<lparr>w_hist := w_hist w @ [CtxAsked (e_ctx env (w_hist w))], w_store := snd (f (w_store w) (e_ctx env (w_hist w)))\<rparr>"
    by (simp add: store_op_def seq_def ask_def lifted_def fail_def ret_def Let_def split: prod.splits sum.splits)
  with assms show "R w (snd (store_op env f w))" by simp
qed

lemmas keeps_rules = keeps_ret keeps_fail keeps_seq keeps_caught keeps_wrapped keeps_fail_after keeps_lifted

end

section \<open>What a call for one session touches\<close>

text \<open>The calls but the listing and the creation of sandboxes, of which a resolve makes at most one each.\<close>

definition plain_event :: "event \<Rightarrow> bool" where
  "plain_event e = (case e of Created _ _ \<Rightarrow> False | Listed _ _ \<Rightarrow> False | _ \<Rightarrow> True)"

definition quiet :: "(event \<Rightarrow> bool) \<Rightarrow> bool" where
  "quiet E \<longleftrightarrow> (\<forall>e. plain_event e \<longrightarrow> E e)"

definition listing :: "(event \<Rightarrow> bool) \<Rightarrow> bool" where
  "listing E \<longleftrightarrow> (\<forall>md r. E (Listed md r))"

definition creating :: "(event \<Rightarrow> bool) \<Rightarrow> bool" where
  "creating E \<longleftrightarrow> (\<forall>q r. E (Created q r))"

text \<open>
  The call only adds events of \<open>E\<close> to the history, leaves the bindings and leases of other sessions
  alone and keeps the store typed.
\<close>

definition session_frame :: "(event \<Rightarrow> bool) \<Rightarrow> sandbox_key \<Rightarrow> world \<Rightarrow> world \<Rightarrow> bool" where
  "session_frame E k w w1 \<longleftrightarrow>
     (\<exists>ext. w_hist w1 = w_hist w @ ext \<and> list_all E ext) \<and>
     (\<forall>k'. k' \<noteq> k \<longrightarrow> ms_bindings (w_store w1) k' = ms_bindings (w_store w) k' \<and>
                       ms_turns (w_store w1) k' = ms_turns (w_store w) k') \<and>
     (store_typed (w_store w) \<longrightarrow> store_typed (w_store w1))"

interpretation sf: action_frame "session_frame E k" for E k
proof
  show "session_frame E k w w" for w by (simp add: session_frame_def)
  show "session_frame E k w w2" if "session_frame E k w w1" "session_frame E k w1 w2" for w w1 w2
    using that by (auto simp: session_frame_def)
qed

lemma frame_event: "E e \<Longrightarrow> session_frame E k w (w\<lparr>w_hist := w_hist w @ [e]\<rparr>)"
  by (simp add: session_frame_def)

text \<open>A store operation on the session's own key.\<close>

definition own_op :: "sandbox_key \<Rightarrow> (memory_store \<Rightarrow> memory_store) \<Rightarrow> bool" where
  "own_op k f \<longleftrightarrow> (\<forall>s. (\<forall>k'. k' \<noteq> k \<longrightarrow> ms_bindings (f s) k' = ms_bindings s k' \<and> ms_turns (f s) k' = ms_turns s k') \<and>
     (store_typed s \<longrightarrow> store_typed (f s)))"

lemma frame_store:
  "own_op k f \<Longrightarrow> E (CtxAsked c) \<Longrightarrow>
     session_frame E k w (w\<lparr>w_hist := w_hist w @ [CtxAsked c], w_store := f (w_store w)\<rparr>)"
  by (simp add: session_frame_def own_op_def)

lemma own_ops:
  "own_op k (\<lambda>s. s)"
  "own_op k (\<lambda>s. snd (ms_create s c k b))"
  "own_op k (\<lambda>s. snd (ms_delete_if_match s c k p sb))"
  "own_op k (\<lambda>s. snd (ms_replace_token s c k b tok))"
  "own_op k (\<lambda>s. snd (consume_turn_rebuild s c k))"
  using exec_store_typed [of _ "OpCreate c k b"] exec_store_typed [of _ "OpDelete c k p sb"]
    exec_store_typed [of _ "OpReplaceToken c k b tok"] exec_store_typed [of _ "OpConsume c k"]
  unfolding own_op_def
  by (simp_all add: ms_create_def ms_delete_if_match_def ms_replace_token_def consume_turn_rebuild_def
      split: sum.split option.split)

lemma keeps_own_store_op:
  assumes "quiet E" "\<And>c. own_op k (\<lambda>s. snd (f s c))"
  shows "sf.keeps E k (store_op env f)"
  using assms by (intro sf.keeps_store_op frame_store [OF assms(2)]) (simp add: quiet_def plain_event_def)

lemma keeps_quiet_ask: "quiet E \<Longrightarrow> (\<And>r. plain_event (ev r)) \<Longrightarrow> sf.keeps E k (ask q ev)"
  by (intro sf.keeps_ask frame_event) (simp add: quiet_def)

lemma keeps_quiet_client: "quiet E \<Longrightarrow> (\<And>r. plain_event (ev r)) \<Longrightarrow> sf.keeps E k (client_op q ev)"
  by (intro sf.keeps_client_op frame_event) (simp add: quiet_def)

lemmas own_rules = keeps_own_store_op keeps_quiet_ask keeps_quiet_client

lemma own_ops_snd:
  "own_op k (\<lambda>s. snd (ms_get s c k, s))" "own_op k (\<lambda>s. snd (turn_state s c k, s))"
  using own_ops(1) by simp_all

text \<open>A binding that was read carries the session's own key.\<close>

lemma read_binding_valid: "read_binding env k w = (Inr (Some b), w1) \<Longrightarrow> binding_validate b k = None"
proof -
  assume "read_binding env k w = (Inr (Some b), w1)"
  moreover have "post (read_binding env k) w (\<lambda>r _. \<forall>b. r = Inr (Some b) \<longrightarrow> binding_validate b k = None)"
    by (auto simp: read_binding_def Let_def split: sum.split option.split prod.split)
  ultimately show ?thesis by (auto dest: postD)
qed

lemma binding_key: "binding_validate b k = None \<Longrightarrow> \<lparr>k_tenant = b_tenant b, k_session = b_session b\<rparr> = k"
  by (cases "key_validate k") (auto simp: binding_validate_def split: if_splits)

lemma keeps_read_binding: "quiet E \<Longrightarrow> sf.keeps E k (read_binding env k)"
  unfolding read_binding_def
  by (auto intro!: sf.keeps_rules own_rules own_ops_snd split: option.split)

lemma keeps_delete: "quiet E \<Longrightarrow> sf.keeps E k (delete_sandbox env sid)"
  unfolding delete_sandbox_def
  by (auto intro!: sf.keeps_rules own_rules simp: plain_event_def split: option.split)

lemma keeps_cleanup: "quiet E \<Longrightarrow> sf.keeps E k (cleanup_created env h)"
  unfolding cleanup_created_def
  by (auto intro!: sf.keeps_rules keeps_delete split: option.split)

lemma keeps_destroy: "quiet E \<Longrightarrow> sf.keeps E k (destroy_binding_locked l env k b)"
  unfolding destroy_binding_locked_def release_binding_def
  by (auto intro!: sf.keeps_rules own_rules own_ops keeps_delete keeps_read_binding)

lemma keeps_drop: "quiet E \<Longrightarrow> sf.keeps E k (drop_binding env k b what)"
  unfolding drop_binding_def by (auto intro!: sf.keeps_rules own_rules own_ops)

lemma keeps_connect_remote: "quiet E \<Longrightarrow> sf.keeps E k (connect_remote_session l env sid token)"
  unfolding connect_remote_session_def
  by (auto intro!: sf.keeps_rules own_rules simp: plain_event_def split: option.split)

lemma keeps_persist: "quiet E \<Longrightarrow> sf.keeps E k (persist_inbound_token env k b h)"
  unfolding persist_inbound_token_def Let_def by (auto intro!: sf.keeps_rules own_rules own_ops)

lemma keeps_connect_binding: "quiet E \<Longrightarrow> sf.keeps E k (connect_binding l env k b)"
  unfolding connect_binding_def
  by (auto intro!: sf.keeps_rules keeps_connect_remote keeps_persist split: sum.split lifecycle_error.split)

lemma keeps_known_winner:
  "quiet E \<Longrightarrow> binding_validate b k = None \<Longrightarrow> sf.keeps E k (connect_known_winner l env b)"
  unfolding connect_known_winner_def
  by (auto simp: binding_key intro!: sf.keeps_rules keeps_connect_binding split: option.split)

lemma keeps_winner: "quiet E \<Longrightarrow> sf.keeps E k (connect_winner l env k)"
  unfolding connect_winner_def
  by (auto intro!: sf.keeps_rules keeps_read_binding keeps_known_winner dest: read_binding_valid split: option.split)

lemma keeps_duplicates: "quiet E \<Longrightarrow> sf.keeps E k (cleanup_owned_duplicates env md sel cs)"
  by (induction cs) (auto intro!: sf.keeps_rules keeps_delete)

lemma keeps_adopt: "quiet E \<Longrightarrow> sf.keeps E k (adopt l env k all s h)"
  unfolding adopt_def Let_def
  by (auto intro!: sf.keeps_rules own_rules own_ops keeps_duplicates keeps_winner simp: plain_event_def)

lemma keeps_recover_loop: "quiet E \<Longrightarrow> sf.keeps E k (recover_loop l env k all ss)"
  by (induction ss)
    (auto intro!: sf.keeps_rules own_rules keeps_adopt keeps_delete simp: plain_event_def
      split: sum.split lifecycle_error.split)

lemma keeps_recover: "quiet E \<Longrightarrow> listing E \<Longrightarrow> sf.keeps E k (recover_owned_sandbox l env k)"
  unfolding recover_owned_sandbox_def
  by (auto intro!: sf.keeps_rules sf.keeps_client_op frame_event keeps_recover_loop simp: listing_def)

lemma keeps_spend: "quiet E \<Longrightarrow> sf.keeps E k (spend_turn_rebuild env k)"
  unfolding spend_turn_rebuild_def by (auto intro!: sf.keeps_rules own_rules own_ops)

lemma keeps_should: "quiet E \<Longrightarrow> sf.keeps E k (should_rebuild_stale env k)"
  unfolding should_rebuild_stale_def
  by (auto intro!: sf.keeps_rules own_rules own_ops_snd split: sum.split)

lemma keeps_usable: "quiet E \<Longrightarrow> sf.keeps E k (usable_binding l env k b0)"
  unfolding usable_binding_def
  by (auto intro!: sf.keeps_rules keeps_drop keeps_should keeps_destroy split: option.split)

text \<open>Creation is the one part that may create.\<close>

lemma quiet_all: "quiet (\<lambda>_. True)" "listing (\<lambda>_. True)" "creating (\<lambda>_. True)"
  by (simp_all add: quiet_def listing_def creating_def)

lemma keeps_bootstrap: "quiet E \<Longrightarrow> sf.keeps E k (run_bootstrap l env k h)"
proof -
  assume q: "quiet E"
  have "sf.keeps E k (\<lambda>w. case ms_delete_if_match (w_store w) None k (l_provider l) (h_id h) of
        (r, s) \<Rightarrow> lifted ErrStore r (w\<lparr>w_store := s\<rparr>))"
    unfolding sf.keeps_def
  proof
    fix w :: world
    obtain r s where rs: "ms_delete_if_match (w_store w) None k (l_provider l) (h_id h) = (r, s)" by force
    have "snd (lifted ErrStore r (w\<lparr>w_store := s\<rparr>)) = w\<lparr>w_store := s\<rparr>"
      by (simp add: lifted_def ret_def fail_def split: sum.split)
    moreover have "session_frame E k w (w\<lparr>w_store := s\<rparr>)"
      using own_ops(3) [of k None "l_provider l" "h_id h"] rs unfolding own_op_def session_frame_def
      by (auto simp: list_all_iff dest: spec [where x = "w_store w"])
    ultimately show "session_frame E k w (snd (case ms_delete_if_match (w_store w) None k (l_provider l) (h_id h) of
        (r, s) \<Rightarrow> lifted ErrStore r (w\<lparr>w_store := s\<rparr>)))"
      using rs by simp
  qed
  with q show ?thesis
    unfolding run_bootstrap_def
    by (auto intro!: sf.keeps_rules own_rules keeps_cleanup simp: plain_event_def split: option.split sum.split)
qed

lemma keeps_bind_created: "quiet E \<Longrightarrow> sf.keeps E k (bind_created l env k request h)"
  unfolding bind_created_def
  by (auto intro!: sf.keeps_rules own_rules own_ops keeps_cleanup keeps_bootstrap keeps_read_binding keeps_known_winner
      simp: plain_event_def dest!: read_binding_valid split: option.split sum.split bool.split)

lemma keeps_check_created: "quiet E \<Longrightarrow> sf.keeps E k (check_created l env k request h0)"
  unfolding check_created_def
  by (auto intro!: sf.keeps_rules own_rules keeps_cleanup keeps_bind_created simp: plain_event_def
      split: option.split sum.split)

lemma keeps_create: "quiet E \<Longrightarrow> creating E \<Longrightarrow> sf.keeps E k (create_and_bind l env k)"
proof -
  assume q: "quiet E" and c: "creating E"
  have "sf.keeps E k (ask (\<lambda>h. e_create env h request) (Created request))" for request
    by (rule sf.keeps_ask) (use c in \<open>auto simp: creating_def intro: frame_event\<close>)
  moreover have "sf.keeps E k (note_create_failed l used e)" for used e
    unfolding note_create_failed_def using q by (auto intro!: sf.keeps_rules own_rules simp: plain_event_def)
  ultimately have rest: "sf.keeps E k (seq (ask (\<lambda>h. e_create env h request) (Created request))
      (\<lambda>r. case r of
         Inl e \<Rightarrow> seq (note_create_failed l used e) (\<lambda>_. fail (ErrWrap ''create remote sandbox'' (ErrClient e)))
       | Inr h0 \<Rightarrow> check_created l env k request h0))" for request used
    using q by (auto intro!: sf.keeps_rules keeps_check_created split: sum.split)
  show ?thesis
    unfolding create_and_bind_def Let_def
  proof (rule sf.keeps_seq, goal_cases)
    case 1
    show ?case using q by (auto intro!: sf.keeps_rules own_rules simp: plain_event_def)
  qed (rule rest)
qed

lemma keeps_recover_or_create: "sf.keeps (\<lambda>_. True) k (recover_or_create l env k)"
  unfolding recover_or_create_def
  by (auto intro!: sf.keeps_rules keeps_recover keeps_create quiet_all split: option.split)

lemma keeps_connect_or_rebuild: "sf.keeps (\<lambda>_. True) k (connect_or_rebuild l env k b0)"
  unfolding connect_or_rebuild_def
  by (auto intro!: sf.keeps_rules keeps_connect_binding keeps_drop keeps_recover_or_create quiet_all split: option.split)

lemma keeps_resolve_locked: "sf.keeps (\<lambda>_. True) k (resolve_locked l env k)"
  unfolding resolve_locked_def
  by (auto intro!: sf.keeps_rules own_rules keeps_read_binding keeps_usable keeps_spend keeps_destroy
      keeps_connect_or_rebuild quiet_all simp: plain_event_def split: option.split)

lemma keeps_resolve: "sf.keeps (\<lambda>_. True) k (resolve_session l env k)"
  unfolding resolve_session_def with_lifecycle_lock_def
  by (auto intro!: sf.keeps_rules own_rules keeps_resolve_locked quiet_all simp: plain_event_def split: option.split)

lemma keeps_destroy_session: "quiet E \<Longrightarrow> sf.keeps E k (destroy_session l env k)"
  unfolding destroy_session_def destroy_locked_def with_lifecycle_lock_def
  by (auto intro!: sf.keeps_rules own_rules keeps_read_binding keeps_destroy simp: plain_event_def split: option.split)

section \<open>The binding after each step\<close>

text \<open>The binding of the session, up to its token, and the handle that goes with it.\<close>

definition same_box :: "binding \<Rightarrow> binding \<Rightarrow> bool" where
  "same_box b b' \<longleftrightarrow> b' = b\<lparr>b_token := b_token b'\<rparr>"

definition bound_to :: "lifecycle \<Rightarrow> sandbox_key \<Rightarrow> handle \<Rightarrow> world \<Rightarrow> bool" where
  "bound_to l k h w \<longleftrightarrow>
     h_provider h = l_provider l \<and>
     (\<exists>b. ms_bindings (w_store w) k = Some b \<and> b_provider b = l_provider l \<and> b_sandbox b = h_id h)"

definition unbound :: "sandbox_key \<Rightarrow> world \<Rightarrow> bool" where
  "unbound k w \<longleftrightarrow> ms_bindings (w_store w) k = None"

lemma same_box_refl [simp]: "same_box b b"
  by (simp add: same_box_def)

lemma same_box_fields:
  "same_box b b' \<Longrightarrow> b_provider b' = b_provider b \<and> b_sandbox b' = b_sandbox b \<and> b_stale b' = b_stale b"
  by (metis same_box_def binding.select_convs binding.surjective binding.update_convs(10))

lemma store_readers [simp]: "snd (ms_get s c k, s) = s"
  by simp

lemma post_read_binding:
  "post (read_binding env k) w (\<lambda>r w1. w_store w1 = w_store w \<and>
     (\<forall>b0. r = Inr b0 \<longrightarrow> b0 = ms_bindings (w_store w) k \<and> (\<forall>b. b0 = Some b \<longrightarrow> binding_validate b k = None)))"
  by (auto simp: read_binding_def Let_def ms_get_def guard_def split: sum.split option.split prod.split)

lemma post_connect_remote: "post (connect_remote_session l env sid token) w (\<lambda>_ w1. w_store w1 = w_store w)"
  by (auto simp: connect_remote_session_def Let_def split: sum.split option.split)

lemma post_delete_sandbox: "post (delete_sandbox env sid) w (\<lambda>_ w1. w_store w1 = w_store w)"
  by (auto simp: delete_sandbox_def split: option.split)

lemma post_cleanup_created: "post (cleanup_created env h) w (\<lambda>_ w1. w_store w1 = w_store w)"
  by (auto simp: cleanup_created_def post_delete_sandbox split: option.split)

lemma post_persist:
  assumes "ms_bindings (w_store w) k = Some b"
  shows "post (persist_inbound_token env k b h) w
    (\<lambda>_ w1. \<exists>b'. ms_bindings (w_store w1) k = Some b' \<and> same_box b b')"
  using assms
  by (auto simp: persist_inbound_token_def Let_def ms_replace_token_def same_box_def split: option.split sum.split prod.split)

lemma validate_handle_Inr:
  "validate_handle l h0 x = Inr h \<Longrightarrow> h0 = Some h \<and> h_id h \<noteq> [] \<and> h_provider h = l_provider l \<and> (x \<noteq> [] \<longrightarrow> h_id h = x)"
  by (auto simp: validate_handle_def split: option.splits if_splits)

lemma post_connect_binding:
  assumes "ms_bindings (w_store w) k = Some b" "b_sandbox b \<noteq> []"
  shows "post (connect_binding l env k b) w
    (\<lambda>r w1. (\<exists>b'. ms_bindings (w_store w1) k = Some b' \<and> same_box b b') \<and>
       (r = Inr None \<longrightarrow> w_store w1 = w_store w) \<and>
       (\<forall>h. r = Inr (Some h) \<longrightarrow> h_id h = b_sandbox b \<and> h_provider h = l_provider l))"
  unfolding connect_binding_def post_caught
proof (rule post_mono [OF post_connect_remote], goal_cases)
  case (1 r w1)
  with assms(1) have b: "ms_bindings (w_store w1) k = Some b" by simp
  note per = post_persist [OF b, of env]
  show ?case
    using 1 b assms(2)
    by (auto split: sum.split lifecycle_error.split dest!: validate_handle_Inr intro: post_mono [OF per])
qed

lemma post_drop:
  assumes "ms_bindings (w_store w) k = Some b"
  shows "post (drop_binding env k b what) w
    (\<lambda>r w1. (\<forall>e. r = Inl e \<longrightarrow> ms_bindings (w_store w1) k = Some b) \<and> (r = Inr () \<longrightarrow> unbound k w1))"
  using assms
  by (auto simp: drop_binding_def Let_def ms_delete_if_match_def names_def unbound_def split: sum.split prod.split)

lemma post_delete_if_match:
  "post (store_op env (\<lambda>s c. ms_delete_if_match s c k p sb)) w
     (\<lambda>r w1. (ms_bindings (w_store w1) k = ms_bindings (w_store w) k \<or> unbound k w1) \<and> (r = Inr True \<longrightarrow> unbound k w1))"
  by (auto simp: Let_def ms_delete_if_match_def unbound_def split: sum.split prod.split)

lemma post_release:
  "post (release_binding env k b) w
     (\<lambda>r w1. (ms_bindings (w_store w1) k = ms_bindings (w_store w) k \<or> unbound k w1) \<and> (r = Inr () \<longrightarrow> unbound k w1))"
  unfolding release_binding_def post_seq post_wrapped
proof (rule post_mono [OF post_delete_if_match], goal_cases)
  case (1 r w2)
  then show ?case
    by (auto simp: unbound_def split: sum.split intro!: post_mono [OF post_read_binding])
qed

lemma post_destroy:
  "post (destroy_binding_locked l env k b) w
     (\<lambda>r w1. (ms_bindings (w_store w1) k = ms_bindings (w_store w) k \<or> unbound k w1) \<and> (r = Inr () \<longrightarrow> unbound k w1))"
proof (cases "b_provider b = l_provider l")
  case True
  then show ?thesis
    unfolding destroy_binding_locked_def
    by (auto split: sum.split intro!: post_mono [OF post_delete_sandbox] post_mono [OF post_release])
next
  case False
  with post_release show ?thesis by (simp add: destroy_binding_locked_def)
qed

lemma post_should: "post (should_rebuild_stale env k) w (\<lambda>_ w1. w_store w1 = w_store w)"
  by (auto simp: should_rebuild_stale_def Let_def split: sum.split)

lemma post_spend: "post (spend_turn_rebuild env k) w (\<lambda>_ w1. ms_bindings (w_store w1) = ms_bindings (w_store w))"
  by (auto simp: spend_turn_rebuild_def Let_def consume_turn_rebuild_def split: sum.split option.split prod.split)

lemma post_usable:
  assumes "b0 = ms_bindings (w_store w) k"
  shows "post (usable_binding l env k b0) w
    (\<lambda>r w1. \<forall>b1. r = Inr b1 \<longrightarrow> ms_bindings (w_store w1) k = b1 \<and>
       (\<forall>b. b1 = Some b \<longrightarrow> b0 = Some b \<and> b_provider b = l_provider l))"
proof (cases b0)
  case None
  with assms show ?thesis by (simp add: usable_binding_def)
next
  case (Some b)
  with assms have b: "ms_bindings (w_store w) k = Some b" by simp
  show ?thesis
  proof (cases "b_provider b = l_provider l")
    case False
    with Some show ?thesis
      by (auto simp: usable_binding_def unbound_def split: sum.split intro!: post_mono [OF post_drop [OF b]])
  next
    case True
    with Some b show ?thesis
      by (auto simp: usable_binding_def unbound_def split: sum.split
          intro!: post_mono [OF post_should] post_mono [OF post_destroy])
  qed
qed

section \<open>Sandboxes known to be gone\<close>

text \<open>The history says that sandbox \<open>sid\<close> does not run: it was deleted, or the provider reports it gone.\<close>

definition gone_event :: "string \<Rightarrow> event \<Rightarrow> bool" where
  "gone_event sid e =
     (case e of
        Deleted i r \<Rightarrow> i = sid \<and> (case r of None \<Rightarrow> True | Some e \<Rightarrow> can_replace_binding e)
      | Connected i (Inl e) \<Rightarrow> i = sid \<and> can_replace_binding e
      | _ \<Rightarrow> False)"

definition gone :: "event list \<Rightarrow> string \<Rightarrow> bool" where
  "gone hs sid \<longleftrightarrow> list_ex (gone_event sid) hs"

lemma gone_append [simp]: "gone (hs @ ext) sid \<longleftrightarrow> gone hs sid \<or> gone ext sid"
  by (simp add: gone_def)

lemma gone_frame: "session_frame E k w w1 \<Longrightarrow> gone (w_hist w) sid \<Longrightarrow> gone (w_hist w1) sid"
  by (auto simp: session_frame_def)

definition running :: "summary \<Rightarrow> bool" where
  "running s \<longleftrightarrow> sm_id s \<noteq> [] \<and> sm_state s \<noteq> RsTerminal"

lemma post_delete_gone:
  "post (delete_sandbox env sid) w (\<lambda>r w1. w_store w1 = w_store w \<and> (r = Inr () \<longrightarrow> gone (w_hist w1) sid))"
  by (auto simp: delete_sandbox_def gone_def gone_event_def split: option.split)

lemma post_duplicates:
  "post (cleanup_owned_duplicates env md sel cs) w
     (\<lambda>r w1. w_store w1 = w_store w \<and>
        (r = Inr () \<longrightarrow> (\<forall>c \<in> set cs. running c \<longrightarrow> sm_id c \<noteq> sel \<longrightarrow> gone (w_hist w1) (sm_id c))))"
proof (induction cs arbitrary: w)
  case Nil
  then show ?case by simp
next
  case (Cons c cs)
  have step: "post (cleanup_owned_duplicates env md sel cs) w1
      (\<lambda>r w2. w_store w2 = w_store w \<and> (r = Inr () \<longrightarrow>
         gone (w_hist w2) (sm_id c) \<and> (\<forall>c \<in> set cs. running c \<longrightarrow> sm_id c \<noteq> sel \<longrightarrow> gone (w_hist w2) (sm_id c))))"
    if "w_store w1 = w_store w" "gone (w_hist w1) (sm_id c)" for w1
    using post_conj [OF Cons.IH [of w1] sf.keeps_post [OF keeps_duplicates [OF quiet_all(1)]]]
    by (rule post_mono) (use that gone_frame in auto)
  show ?case
  proof (cases "sm_id c = [] \<or> sm_id c = sel \<or> sm_state c = RsTerminal")
    case True
    then have "cleanup_owned_duplicates env md sel (c # cs) = cleanup_owned_duplicates env md sel cs" by simp
    moreover from True have "\<not> (running c \<and> sm_id c \<noteq> sel)" by (auto simp: running_def)
    ultimately show ?thesis using Cons.IH [of w] by (auto elim!: post_mono)
  next
    case False
    then have "post (seq (wrapped ''delete duplicate owned remote sandbox'' (delete_sandbox env (sm_id c)))
        (\<lambda>_. cleanup_owned_duplicates env md sel cs)) w
      (\<lambda>r w1. w_store w1 = w_store w \<and> (r = Inr () \<longrightarrow>
         (\<forall>c \<in> set (c # cs). running c \<longrightarrow> sm_id c \<noteq> sel \<longrightarrow> gone (w_hist w1) (sm_id c))))"
      unfolding post_seq post_wrapped
      by (intro post_mono [OF post_delete_gone]) (auto split: sum.split intro!: post_mono [OF step])
    with False show ?thesis by simp
  qed
qed

section \<open>What a successful resolve leaves\<close>

lemma post_ms_create:
  "unbound k w \<Longrightarrow> post (store_op env (\<lambda>st c. ms_create st c k b)) w
     (\<lambda>r w1. (\<forall>e. r = Inl e \<longrightarrow> w_store w1 = w_store w) \<and>
        (\<forall>x. r = Inr x \<longrightarrow> x \<and> ms_bindings (w_store w1) k = Some b) \<and> (\<exists>c. w_hist w1 = w_hist w @ [CtxAsked c]))"
  by (auto simp: Let_def ms_create_def unbound_def split: sum.split prod.split)

text \<open>Every other running sandbox of the list is gone.\<close>

definition only_one :: "summary list \<Rightarrow> handle \<Rightarrow> world \<Rightarrow> bool" where
  "only_one ss h w \<longleftrightarrow> (\<forall>c \<in> set ss. running c \<longrightarrow> sm_id c \<noteq> h_id h \<longrightarrow> gone (w_hist w) (sm_id c))"

lemma post_adopt:
  assumes "unbound k w" "h_id h = sm_id s" "h_provider h = l_provider l"
  shows "post (adopt l env k all s h) w (\<lambda>r w1. \<forall>h'. r = Inr h' \<longrightarrow> h' = h \<and> bound_to l k h w1 \<and> only_one all h w1)"
proof -
  have bind: "post (seq (wrapped ''bind owned remote sandbox'' (store_op env (\<lambda>st c. ms_create st c k b)))
      (\<lambda>created. if created then ret h else connect_winner l env k)) w1
      (\<lambda>r w2. \<forall>h'. r = Inr h' \<longrightarrow> h' = h \<and> bound_to l k h w2 \<and> only_one all h w2)"
    if "unbound k w1" "only_one all h w1" "b_provider b = l_provider l" "b_sandbox b = sm_id s" for w1 b
    unfolding post_seq post_wrapped
  proof (rule post_mono [OF post_ms_create [OF that(1)]], goal_cases)
    case (1 r w2)
    then obtain c where c: "w_hist w2 = w_hist w1 @ [CtxAsked c]" by blast
    show ?case
    proof (cases r)
      case (Inr x)
      with 1 have "x" "ms_bindings (w_store w2) k = Some b" by simp_all
      with that(2-4) assms(2,3) c Inr show ?thesis by (simp add: bound_to_def only_one_def)
    qed simp
  qed
  show ?thesis
    unfolding adopt_def Let_def post_seq
  proof (rule post_mono [OF post_duplicates], goal_cases)
    case (1 r w1)
    show ?case
    proof (cases r)
      case (Inr u)
      with 1 assms(1,2) have w1: "unbound k w1" "only_one all h w1" by (simp_all add: unbound_def only_one_def)
      have w2: "unbound k (w1\<lparr>w_hist := w_hist w1 @ [e]\<rparr>)" "only_one all h (w1\<lparr>w_hist := w_hist w1 @ [e]\<rparr>)" for e
        using w1 by (simp_all add: unbound_def only_one_def)
      have pf: "b_provider (new_binding l k (sm_id s) t tok c) = l_provider l"
        "b_sandbox (new_binding l k (sm_id s) t tok c) = sm_id s" for t tok c
        by (simp_all add: new_binding_def)
      note bound = bind [unfolded post_seq, OF w1 pf] and bound_now = bind [unfolded post_seq, OF w2 pf]
      show ?thesis
      proof (cases "sm_started s = 0")
        case True
        then show ?thesis by (simp only: Inr if_True simp_thms sum.case post_ask bound_now)
      next
        case False
        then show ?thesis by (simp only: Inr False if_False sum.case post_ret bound)
      qed
    qed simp
  qed
qed

lemma post_recover_loop:
  "unbound k w \<Longrightarrow> post (recover_loop l env k all ss) w
     (\<lambda>r w1. (r = Inr None \<longrightarrow> unbound k w1 \<and> (\<forall>c \<in> set ss. running c \<longrightarrow> gone (w_hist w1) (sm_id c))) \<and>
        (\<forall>h. r = Inr (Some h) \<longrightarrow> bound_to l k h w1 \<and> only_one all h w1))"
proof (induction ss arbitrary: w)
  case Nil
  then show ?case by simp
next
  case (Cons s ss)
  have step: "post (recover_loop l env k all ss) w1
     (\<lambda>r w2. (r = Inr None \<longrightarrow> unbound k w2 \<and> (\<forall>c \<in> set (s # ss). running c \<longrightarrow> gone (w_hist w2) (sm_id c))) \<and>
        (\<forall>h. r = Inr (Some h) \<longrightarrow> bound_to l k h w2 \<and> only_one all h w2))"
    if "unbound k w1" "running s \<Longrightarrow> gone (w_hist w1) (sm_id s)" for w1
    using post_conj [OF Cons.IH [OF that(1)] sf.keeps_post [OF keeps_recover_loop [OF quiet_all(1)]]]
    by (rule post_mono) (use that(2) gone_frame in auto)
  show ?case
  proof (cases "sm_id s = [] \<or> sm_state s = RsTerminal")
    case True
    then show ?thesis using step [OF Cons.prems] by (auto simp: running_def)
  next
    case run: False
    show ?thesis
    proof (cases "metadata_matches (sm_metadata s) (lifecycle_metadata l k)")
      case False
      with run show ?thesis by simp
    next
      case True
      let ?w1 = "\<lambda>r. w\<lparr>w_hist := w_hist w @ [Connected (sm_id s) r]\<rparr>"
      have u1: "unbound k (?w1 r)" for r using Cons.prems by (simp add: unbound_def)
      show ?thesis
      proof (cases "e_connect env (w_hist w) (sm_id s) []")
        case (Inl e)
        have "can_replace_binding e \<Longrightarrow> gone (w_hist (?w1 (Inl e))) (sm_id s)"
          by (simp add: gone_def gone_event_def)
        with run True Inl step [OF u1 [of "Inl e"]] show ?thesis by (simp add: Let_def)
      next
        case (Inr h0)
        show ?thesis
        proof (cases "validate_handle l h0 (sm_id s)")
          case Inl
          with run True Inr show ?thesis by (simp add: Let_def)
        next
          case h: (Inr h)
          from validate_handle_Inr [OF this] run have hh: "h_id h = sm_id s" "h_provider h = l_provider l" by auto
          have adopts: "post (adopt l env k all s h) (?w1 (Inr h0))
              (\<lambda>r w2. case r of Inl e \<Rightarrow> True | Inr h \<Rightarrow> bound_to l k h w2 \<and> only_one all h w2)"
            by (rule post_mono [OF post_adopt [OF u1 [of "Inr h0"] hh]]) (auto split: sum.split)
          have drops: "post (delete_sandbox env (sm_id s)) (?w1 (Inr h0))
              (\<lambda>r w2. r = Inr () \<longrightarrow> post (recover_loop l env k all ss) w2
                 (\<lambda>r w2. (r = Inr None \<longrightarrow> unbound k w2 \<and> (\<forall>c \<in> set (s # ss). running c \<longrightarrow> gone (w_hist w2) (sm_id c))) \<and>
                    (\<forall>h. r = Inr (Some h) \<longrightarrow> bound_to l k h w2 \<and> only_one all h w2)))"
            by (rule post_mono [OF post_delete_gone]) (use step u1 [of "Inr h0"] in \<open>auto simp: unbound_def\<close>)
          show ?thesis
          proof (cases "missing_required_token l h")
            case t: True
            from run True Inr h t show ?thesis
              by (auto simp: Let_def split: sum.split intro!: post_mono [OF drops])
          next
            case t: False
            from run True Inr h t show ?thesis
              by (auto simp: Let_def split: sum.split intro!: post_mono [OF adopts])
          qed
        qed
      qed
    qed
  qed
qed

lemma set_insert_summary [simp]: "set (insert_summary a bs) = insert a (set bs)"
  by (induction bs) auto

lemma set_sort_summaries [simp]: "set (sort_summaries ss) = set ss"
  by (induction ss) (simp_all add: sort_summaries_def)

text \<open>
  The lists the provider gave: \<open>settled hs\<close> holds when all running sandboxes of all lists in the
  history, but the one kept, are gone.
\<close>

definition settled :: "event list \<Rightarrow> string \<Rightarrow> bool" where
  "settled hs keep \<longleftrightarrow>
     (\<forall>md ss c. Listed md (Inr ss) \<in> set hs \<longrightarrow> c \<in> set ss \<longrightarrow> running c \<longrightarrow> sm_id c \<noteq> keep \<longrightarrow> gone hs (sm_id c))"

definition not_listing :: "event \<Rightarrow> bool" where
  "not_listing e = (case e of Listed _ _ \<Rightarrow> False | _ \<Rightarrow> True)"

lemma quiet_not_listing: "quiet not_listing" "creating not_listing"
  by (auto simp: quiet_def creating_def not_listing_def plain_event_def split: event.splits)

lemma not_listed: "list_all not_listing hs \<Longrightarrow> Listed md r \<notin> set hs"
  by (auto simp: not_listing_def list_all_iff dest!: bspec)

lemma no_list_settled: "list_all not_listing hs \<Longrightarrow> settled hs keep"
  by (simp add: settled_def not_listed)

lemma settled_frame: "session_frame not_listing k w w1 \<Longrightarrow> settled (w_hist w) keep \<Longrightarrow> settled (w_hist w1) keep"
  by (auto simp: session_frame_def settled_def not_listed)

lemma no_list_frame:
  "session_frame not_listing k w w1 \<Longrightarrow> list_all not_listing (w_hist w) \<Longrightarrow> list_all not_listing (w_hist w1)"
  by (auto simp: session_frame_def)

lemma settled_one_list:
  assumes "list_all not_listing hs" "list_all not_listing ext"
    and "\<forall>c \<in> set ss. running c \<longrightarrow> sm_id c \<noteq> keep \<longrightarrow> gone (hs @ Listed md (Inr ss) # ext) (sm_id c)"
  shows "settled (hs @ Listed md (Inr ss) # ext) keep"
  using assms by (auto simp: settled_def not_listed)

lemma post_recover:
  assumes u: "unbound k w" and no: "list_all not_listing (w_hist w)"
  shows "post (recover_owned_sandbox l env k) w
     (\<lambda>r w1. (r = Inr None \<longrightarrow> unbound k w1 \<and> (\<forall>keep. settled (w_hist w1) keep)) \<and>
        (\<forall>h. r = Inr (Some h) \<longrightarrow> bound_to l k h w1 \<and> settled (w_hist w1) (h_id h)))"
proof (cases "\<not> l_supports_metadata l \<or> \<not> l_supports_list l")
  case True
  with u no show ?thesis by (auto simp: recover_owned_sandbox_def no_list_settled)
next
  case sup: False
  define md where "md = lifecycle_metadata l k"
  show ?thesis
  proof (cases "e_list env (w_hist w) md")
    case (Inl e)
    with sup show ?thesis by (simp add: recover_owned_sandbox_def Let_def md_def [symmetric])
  next
    case (Inr ss)
    let ?w = "w\<lparr>w_hist := w_hist w @ [Listed md (Inr ss)]\<rparr>"
    have u1: "unbound k ?w" using u by (simp add: unbound_def)
    have "post (recover_loop l env k (sort_summaries ss) (sort_summaries ss)) ?w
     (\<lambda>r w1. (r = Inr None \<longrightarrow> unbound k w1 \<and> (\<forall>keep. settled (w_hist w1) keep)) \<and>
        (\<forall>h. r = Inr (Some h) \<longrightarrow> bound_to l k h w1 \<and> settled (w_hist w1) (h_id h)))"
    proof (rule post_mono [OF post_conj [OF post_recover_loop [OF u1]
            sf.keeps_post [OF keeps_recover_loop [OF quiet_not_listing(1), where k = k]]]], goal_cases)
      case (1 r w1)
      then obtain ext where ext: "w_hist w1 = w_hist w @ Listed md (Inr ss) # ext" "list_all not_listing ext"
        by (auto simp: session_frame_def)
      note settled = settled_one_list [OF no ext(2), of ss _ md]
      from 1 show ?case
        by (auto simp: ext(1) only_one_def intro: settled)
    qed
    with sup Inr show ?thesis by (simp add: recover_owned_sandbox_def Let_def md_def [symmetric])
  qed
qed

lemma post_create_bound:
  assumes "unbound k w"
  shows "post (create_and_bind l env k) w (\<lambda>r w1. \<forall>h. r = Inr h \<longrightarrow> bound_to l k h w1)"
proof -
  have boot: "post (run_bootstrap l env k h) w1 (\<lambda>r w2. r = Inr () \<longrightarrow> w_store w2 = w_store w1)" for h w1
    by (auto simp: run_bootstrap_def split: option.split sum.split)
      (auto simp: post_def caught_def fail_after_def fail_def split: prod.splits sum.splits)
  have bind: "post (bind_created l env k request h) w1 (\<lambda>r w2. \<forall>h. r = Inr h \<longrightarrow> bound_to l k h w2)"
    if "unbound k w1" "h_provider h = l_provider l" for request h w1
  proof -
    have u: "unbound k (w1\<lparr>w_hist := w_hist w1 @ [e]\<rparr>)" for e using that(1) by (simp add: unbound_def)
    show ?thesis
      unfolding bind_created_def post_seq post_ask sum.case post_caught
    proof (rule post_mono [OF post_ms_create [OF u]], goal_cases)
      case (1 r w2)
      show ?case
      proof (cases r)
        case (Inl e)
        then show ?thesis by (auto intro!: post_mono [OF post_cleanup_created])
      next
        case (Inr x)
        with 1 have "x" and b: "\<exists>b. ms_bindings (w_store w2) k = Some b \<and> b_provider b = l_provider l \<and> b_sandbox b = h_id h"
          by (auto simp: new_binding_def)
        with that(2) Inr show ?thesis
          by (auto simp: bound_to_def split: sum.split intro!: post_mono [OF boot])
      qed
    qed
  qed
  have check: "post (check_created l env k request h0) w1 (\<lambda>r w2. \<forall>h. r = Inr h \<longrightarrow> bound_to l k h w2)"
    if u: "unbound k w1" for request h0 w1
  proof -
    have u: "unbound k (w1\<lparr>w_hist := w_hist w1 @ [e]\<rparr>)" for e using u by (simp add: unbound_def)
    show ?thesis
      by (auto simp: check_created_def split: sum.split dest!: validate_handle_Inr
          intro!: post_mono [OF post_cleanup_created] bind u)
  qed
  have "unbound k (w\<lparr>w_hist := w_hist w @ es\<rparr>)" for es using assms by (simp add: unbound_def)
  with assms show ?thesis
    unfolding create_and_bind_def Let_def
    by (auto simp: note_create_failed_def split: sum.split intro!: check)
qed

text \<open>
  A created sandbox is accounted for: its deletion was requested afterwards, or the session is bound
  to it.
\<close>

definition kept :: "lifecycle \<Rightarrow> sandbox_key \<Rightarrow> string \<Rightarrow> world \<Rightarrow> bool" where
  "kept l k sid w \<longleftrightarrow>
     (\<exists>b. ms_bindings (w_store w) k = Some b \<and> b_provider b = l_provider l \<and> b_sandbox b = sid)"

definition accounted :: "lifecycle \<Rightarrow> sandbox_key \<Rightarrow> world \<Rightarrow> bool" where
  "accounted l k w \<longleftrightarrow>
     (\<forall>before q h after. w_hist w = before @ Created q (Inr (Some h)) # after \<longrightarrow> h_id h \<noteq> [] \<longrightarrow>
        (\<exists>r. Deleted (h_id h) r \<in> set after) \<or> kept l k (h_id h) w)"

definition not_creating :: "event \<Rightarrow> bool" where
  "not_creating e = (case e of Created _ _ \<Rightarrow> False | _ \<Rightarrow> True)"

lemma quiet_not_creating: "quiet not_creating" "listing not_creating"
  by (auto simp: quiet_def listing_def not_creating_def plain_event_def split: event.splits)

lemma not_created: "list_all not_creating hs \<Longrightarrow> Created q r \<notin> set hs"
  by (auto simp: not_creating_def list_all_iff dest!: bspec)

lemma none_created_accounted: "list_all not_creating (w_hist w) \<Longrightarrow> accounted l k w"
  unfolding accounted_def by (metis in_set_conv_decomp not_created)

definition deleted_since :: "world \<Rightarrow> string \<Rightarrow> world \<Rightarrow> bool" where
  "deleted_since w sid w1 \<longleftrightarrow> (\<exists>ext r. w_hist w1 = w_hist w @ ext \<and> Deleted sid r \<in> set ext)"

lemma deleted_since_event: "deleted_since (w\<lparr>w_hist := w_hist w @ es\<rparr>) sid w1 \<Longrightarrow> deleted_since w sid w1"
  unfolding deleted_since_def by auto

lemma deleted_since_later:
  "w_hist w1 = w_hist w @ es \<Longrightarrow> deleted_since w1 sid w2 \<Longrightarrow> deleted_since w sid w2"
  unfolding deleted_since_def by auto

lemma post_cleanup_deleted:
  "h_id h \<noteq> [] \<Longrightarrow> post (cleanup_created env (Some h)) w (\<lambda>r w1. deleted_since w (h_id h) w1)"
  by (auto simp: cleanup_created_def delete_sandbox_def deleted_since_def split: option.split)

lemma post_bootstrap:
  assumes "h_id h \<noteq> []"
  shows "post (run_bootstrap l env k h) w (\<lambda>r w1. deleted_since w (h_id h) w1 \<or> w_store w1 = w_store w)"
proof (cases "l_bootstrapper l")
  case True
  let ?w1 = "\<lambda>x. w\<lparr>w_hist := w_hist w @ [Bootstrapped h x]\<rparr>"
  have clean: "post (cleanup_created env (Some h)) w1 (\<lambda>r w1. deleted_since w (h_id h) w1)"
    if "w_hist w1 = w_hist w @ es" for w1 es
    by (rule post_mono [OF post_cleanup_deleted [OF assms]]) (rule deleted_since_later [OF that])
  show ?thesis
  proof (cases "e_after_create env (w_hist w) k h")
    case None
    with True show ?thesis by (simp add: run_bootstrap_def)
  next
    case (Some e)
    define del where "del = (\<lambda>w. case ms_delete_if_match (w_store w) None k (l_provider l) (h_id h) of
        (r, s) \<Rightarrow> lifted ErrStore r (w\<lparr>w_store := s\<rparr>))"
    have "post del (?w1 (Some e))
      (\<lambda>r w1. (\<forall>x. r = Inl x \<longrightarrow> w_store w1 = w_store w) \<and> w_hist w1 = w_hist w @ [Bootstrapped h (Some e)])"
      by (auto simp: post_def del_def lifted_def ret_def fail_def ms_delete_if_match_def split: sum.split prod.split)
    then show ?thesis
      unfolding run_bootstrap_def del_def [symmetric]
      by (auto simp: True Some split: sum.split elim!: post_mono intro!: post_mono [OF clean])
  qed
qed (simp add: run_bootstrap_def)

lemma post_bind_accounted:
  assumes "unbound k w" "h_id h \<noteq> []"
  shows "post (bind_created l env k request h) w (\<lambda>r w1. deleted_since w (h_id h) w1 \<or> kept l k (h_id h) w1)"
proof -
  have u: "unbound k (w\<lparr>w_hist := w_hist w @ [e]\<rparr>)" for e using assms(1) by (simp add: unbound_def)
  show ?thesis
    unfolding bind_created_def post_seq post_ask sum.case post_caught
  proof (rule post_mono [OF post_ms_create [OF u]], goal_cases)
    case (1 r w1)
    then obtain es where w1: "w_hist w1 = w_hist w @ es" by auto
    show ?case
    proof (cases r)
      case (Inl e)
      then show ?thesis
        by (auto intro!: post_mono [OF post_cleanup_deleted [OF assms(2)]] deleted_since_later [OF w1])
    next
      case (Inr x)
      with 1 have "x" and b: "kept l k (h_id h) w1" by (auto simp: new_binding_def kept_def)
      have "post (run_bootstrap l env k h) w1 (\<lambda>r w2. deleted_since w (h_id h) w2 \<or> kept l k (h_id h) w2)"
        by (rule post_mono [OF post_bootstrap [OF assms(2)]])
          (use b deleted_since_later [OF w1] in \<open>auto simp: kept_def\<close>)
      with Inr \<open>x\<close> show ?thesis by (auto split: sum.split elim!: post_mono)
    qed
  qed
qed

lemma post_check_accounted:
  assumes "unbound k w" "h0 = Some h" "h_id h \<noteq> []"
  shows "post (check_created l env k request h0) w (\<lambda>r w1. deleted_since w (h_id h) w1 \<or> kept l k (h_id h) w1)"
proof -
  have clean: "post (cleanup_created env (Some h)) (w\<lparr>w_hist := w_hist w @ es\<rparr>) (\<lambda>r w1. deleted_since w (h_id h) w1)" for es
    by (rule post_mono [OF post_cleanup_deleted [OF assms(3)]]) (rule deleted_since_event)
  have clean0: "post (cleanup_created env (Some h)) w (\<lambda>r w1. deleted_since w (h_id h) w1)"
    by (rule post_cleanup_deleted [OF assms(3)])
  have bind: "post (bind_created l env k request h) (w\<lparr>w_hist := w_hist w @ es\<rparr>)
      (\<lambda>r w1. deleted_since w (h_id h) w1 \<or> kept l k (h_id h) w1)" for es
  proof (rule post_mono [OF post_bind_accounted [OF _ assms(3)]])
    show "unbound k (w\<lparr>w_hist := w_hist w @ es\<rparr>)" using assms(1) by (simp add: unbound_def)
  qed (auto dest: deleted_since_event)
  show ?thesis
    unfolding check_created_def assms(2)
    by (auto split: sum.split dest!: validate_handle_Inr intro!: post_mono [OF clean] post_mono [OF clean0] bind)
qed

lemma accounted_split:
  assumes "w_hist w = hs @ Created q r # ext" "list_all not_creating hs" "list_all not_creating ext"
    and "\<And>h. r = Inr (Some h) \<Longrightarrow> h_id h \<noteq> [] \<Longrightarrow> (\<exists>x. Deleted (h_id h) x \<in> set ext) \<or> kept l k (h_id h) w"
  shows "accounted l k w"
  unfolding accounted_def
proof (intro allI impI)
  fix before q' h after
  assume h: "w_hist w = before @ Created q' (Inr (Some h)) # after" "h_id h \<noteq> []"
  with assms(1) have e: "hs @ Created q r # ext = before @ Created q' (Inr (Some h)) # after" by simp
  have no: "Created x y \<notin> set hs" "Created x y \<notin> set ext" for x y using assms(2,3) not_created by blast+
  have "Created q' (Inr (Some h)) \<in> set (hs @ Created q r # ext)" unfolding e by simp
  with no have same: "Created q r = Created q' (Inr (Some h))" by auto
  with e have "hs @ Created q r # ext = before @ Created q r # after" by simp
  with no have "before = hs \<and> Created q r = Created q' (Inr (Some h)) \<and> after = ext"
    using same by (simp add: append_Cons_eq_iff)
  with assms(4) [of h] h(2) show "(\<exists>r. Deleted (h_id h) r \<in> set after) \<or> kept l k (h_id h) w" by auto
qed

lemma post_create_accounted:
  assumes "unbound k w" "list_all not_creating (w_hist w)"
  shows "post (create_and_bind l env k) w (\<lambda>_ w1. accounted l k w1)"
proof -
  have made: "post (seq (ask (\<lambda>h. e_create env h request) (Created request))
       (\<lambda>r. case r of
          Inl e \<Rightarrow> seq (note_create_failed l used e) (\<lambda>_. fail (ErrWrap ''create remote sandbox'' (ErrClient e)))
        | Inr h0 \<Rightarrow> check_created l env k request h0)) w1 (\<lambda>_ w2. accounted l k w2)"
    if w1: "unbound k w1" "list_all not_creating (w_hist w1)" for w1 request used
  proof (cases "e_create env (w_hist w1) request")
    case (Inl e)
    have "accounted l k (w1\<lparr>w_hist := w_hist w1 @ Created request (Inl e) # ext\<rparr>)" if "list_all not_creating ext" for ext
      by (rule accounted_split [where q = request and r = "Inl e", OF _ w1(2) that]) simp_all
    from this [of "[]"] this [of "[FailureNoted e]"] Inl show ?thesis
      by (simp add: note_create_failed_def not_creating_def)
  next
    case (Inr h0)
    let ?w2 = "w1\<lparr>w_hist := w_hist w1 @ [Created request (Inr h0)]\<rparr>"
    have u2: "unbound k ?w2" using w1(1) by (simp add: unbound_def)
    have "post (check_created l env k request h0) ?w2
        (\<lambda>r w3. \<forall>h. h0 = Some h \<longrightarrow> h_id h \<noteq> [] \<longrightarrow> deleted_since ?w2 (h_id h) w3 \<or> kept l k (h_id h) w3)"
    proof (cases "\<exists>h. h0 = Some h \<and> h_id h \<noteq> []")
      case True
      then obtain h where h: "h0 = Some h" "h_id h \<noteq> []" by blast
      show ?thesis by (rule post_mono [OF post_check_accounted [OF u2 h]]) (simp add: h)
    qed (auto simp: post_def split: prod.split)
    then have "post (check_created l env k request h0) ?w2 (\<lambda>_ w3. accounted l k w3)"
    proof (rule post_mono [OF post_conj [OF _ sf.keeps_post [OF keeps_check_created [OF quiet_not_creating(1), where k = k]]]],
        goal_cases)
      case (1 r w3)
      then obtain ext where ext: "w_hist w3 = w_hist ?w2 @ ext" "list_all not_creating ext"
        by (auto simp: session_frame_def)
      show ?case
      proof (rule accounted_split [OF _ w1(2) ext(2), of _ request "Inr h0"])
        show "w_hist w3 = w_hist w1 @ Created request (Inr h0) # ext" using ext(1) by simp
      next
        fix h assume h: "Inr h0 = (Inr (Some h) :: client_error + handle option)" "h_id h \<noteq> []"
        with 1 have "deleted_since ?w2 (h_id h) w3 \<or> kept l k (h_id h) w3" by simp
        with ext(1) show "(\<exists>x. Deleted (h_id h) x \<in> set ext) \<or> kept l k (h_id h) w3"
          by (auto simp: deleted_since_def)
      qed
    qed
    with Inr show ?thesis by simp
  qed
  have fresh: "unbound k (w\<lparr>w_hist := w_hist w @ es\<rparr>)" for es using assms(1) by (simp add: unbound_def)
  show ?thesis
  proof (cases "l_bootstrapper l")
    case False
    then show ?thesis
      unfolding create_and_bind_def Let_def post_seq [of "if l_bootstrapper l then _ else _"]
      using made [OF assms] by (simp only: if_False post_ret sum.case)
  next
    case True
    let ?o = "e_override env (w_hist w) k"
    let ?w1 = "w\<lparr>w_hist := w_hist w @ [Overridden ?o]\<rparr>"
    have n: "list_all not_creating (w_hist ?w1)" using assms(2) by (simp add: not_creating_def)
    have "post (wrapped ''resolve session template override'' (seq (ask (\<lambda>h. e_override env h k) Overridden) (lifted ErrOuter))) w
        (\<lambda>_ w1. w1 = ?w1)"
      by (simp split: sum.split)
    then show ?thesis
      unfolding create_and_bind_def Let_def if_P [OF True] post_seq [of "wrapped _ _"]
    proof (rule post_mono, goal_cases)
      case (1 r w1)
      then show ?case
        using made [OF fresh n] none_created_accounted [OF n] by (cases r) (simp_all del: post_seq)
    qed
  qed
qed

subsection \<open>The chain of steps\<close>

text \<open>What every resolve establishes, and the additional facts of a successful one.\<close>

definition resolved :: "lifecycle \<Rightarrow> sandbox_key \<Rightarrow> lifecycle_error + handle \<Rightarrow> world \<Rightarrow> bool" where
  "resolved l k r w \<longleftrightarrow> accounted l k w \<and> (\<forall>h. r = Inr h \<longrightarrow> bound_to l k h w \<and> settled (w_hist w) (h_id h))"

lemma resolved_simps [simp]:
  "resolved l k (Inl e) w \<longleftrightarrow> accounted l k w"
  "resolved l k (Inr h) w \<longleftrightarrow> accounted l k w \<and> bound_to l k h w \<and> settled (w_hist w) (h_id h)"
  by (simp_all add: resolved_def)

text \<open>Nothing has been listed or created yet.\<close>

definition fresh :: "world \<Rightarrow> bool" where
  "fresh w \<longleftrightarrow> list_all plain_event (w_hist w)"

lemma quiet_plain: "quiet plain_event"
  by (simp add: quiet_def)

lemma fresh_plain:
  assumes "fresh w"
  shows "list_all not_listing (w_hist w)" "list_all not_creating (w_hist w)" "accounted l k w" "settled (w_hist w) keep"
proof -
  have "plain_event e \<Longrightarrow> not_listing e \<and> not_creating e" for e
    by (cases e) (simp_all add: plain_event_def not_listing_def not_creating_def)
  with assms show l: "list_all not_listing (w_hist w)" and c: "list_all not_creating (w_hist w)"
    by (auto simp: fresh_def list_all_iff)
  from l show "settled (w_hist w) keep" by (rule no_list_settled)
  from c show "accounted l k w" by (rule none_created_accounted)
qed

lemma fresh_event: "fresh w \<Longrightarrow> plain_event e \<Longrightarrow> fresh (w\<lparr>w_hist := w_hist w @ [e]\<rparr>)"
  by (simp add: fresh_def)

text \<open>A step that neither lists nor creates, with a fact about its result.\<close>

lemma post_fresh:
  assumes "post m w P" "sf.keeps plain_event k m" "fresh w" "\<And>r w1. P r w1 \<Longrightarrow> fresh w1 \<Longrightarrow> Q r w1"
  shows "post m w Q"
  using post_conj [OF assms(1) sf.keeps_post [OF assms(2)]]
  by (rule post_mono) (use assms(3,4) in \<open>auto simp: fresh_def session_frame_def\<close>)

lemma not_creating_frame:
  "session_frame not_creating k w w1 \<Longrightarrow> list_all not_creating (w_hist w) \<Longrightarrow> list_all not_creating (w_hist w1)"
  by (auto simp: session_frame_def)

lemma post_recover_or_create:
  assumes "unbound k w" "fresh w"
  shows "post (recover_or_create l env k) w (resolved l k)"
proof -
  have create: "post (create_and_bind l env k) w1 (resolved l k)"
    if "unbound k w1" "\<forall>keep. settled (w_hist w1) keep" "list_all not_creating (w_hist w1)" for w1
    using post_conj [OF post_conj [OF post_create_bound [OF that(1)] post_create_accounted [OF that(1,3)]]
        sf.keeps_post [OF keeps_create [OF quiet_not_listing, where k = k]]]
    by (rule post_mono) (use that(2) settled_frame in \<open>auto simp: resolved_def\<close>)
  note recover = post_conj [OF post_recover [OF assms(1) fresh_plain(1) [OF assms(2)]]
      sf.keeps_post [OF keeps_recover [OF quiet_not_creating, where k = k]]]
  show ?thesis
    unfolding recover_or_create_def post_seq
  proof (rule post_mono [OF recover], goal_cases)
    case (1 r w1)
    then have n: "list_all not_creating (w_hist w1)" using not_creating_frame fresh_plain(2) [OF assms(2)] by blast
    with 1 create [of w1] none_created_accounted [OF n] show ?case
      by (auto split: sum.split option.split)
  qed
qed

lemma post_connect_or_rebuild:
  assumes "b0 = ms_bindings (w_store w) k" "fresh w"
    and "\<forall>b. b0 = Some b \<longrightarrow> b_provider b = l_provider l \<and> b_sandbox b \<noteq> []"
  shows "post (connect_or_rebuild l env k b0) w (resolved l k)"
proof (cases b0)
  case None
  with assms post_recover_or_create [of k w] show ?thesis by (simp add: connect_or_rebuild_def unbound_def)
next
  case (Some b)
  with assms have b: "ms_bindings (w_store w) k = Some b" "b_sandbox b \<noteq> []" "b_provider b = l_provider l" by auto
  have dropped: "post (seq (drop_binding env k b what) (\<lambda>_. recover_or_create l env k)) w1 (resolved l k)"
    if "ms_bindings (w_store w1) k = Some b" "fresh w1" for w1 what
    unfolding post_seq
    by (rule post_fresh [OF post_drop [OF that(1)] keeps_drop [OF quiet_plain] that(2)])
      (auto intro: post_recover_or_create fresh_plain split: sum.split)
  show ?thesis
    unfolding connect_or_rebuild_def Some option.case post_seq [of "connect_binding l env k b"]
  proof (rule post_fresh [OF post_connect_binding [OF b(1,2)] keeps_connect_binding [OF quiet_plain] assms(2)], goal_cases)
    case (1 r w1)
    show ?case
    proof (cases r)
      case (Inl e)
      with 1 show ?thesis by (simp add: fresh_plain)
    next
      case (Inr ho)
      show ?thesis
      proof (cases ho)
        case None
        with 1 Inr b(1) dropped [of w1] show ?thesis by (simp del: post_seq)
      next
        case (Some h)
        with 1 Inr b(3) show ?thesis by (auto simp: bound_to_def fresh_plain dest!: same_box_fields)
      qed
    qed
  qed
qed

lemma binding_sandbox: "binding_validate b k = None \<Longrightarrow> b_sandbox b \<noteq> []"
  by (auto simp: binding_validate_def split: option.splits if_splits)

lemma post_from_usable:
  assumes "b0 = ms_bindings (w_store w) k" "\<forall>b. b0 = Some b \<longrightarrow> binding_validate b k = None" "fresh w"
  shows "post (seq (usable_binding l env k b0)
      (\<lambda>b1. seq (spend_turn_rebuild env k) (\<lambda>_. connect_or_rebuild l env k b1))) w (resolved l k)"
proof -
  have rest: "post (seq (spend_turn_rebuild env k) (\<lambda>_. connect_or_rebuild l env k b1)) w1 (resolved l k)"
    if "b1 = ms_bindings (w_store w1) k" "\<forall>b. b1 = Some b \<longrightarrow> b_provider b = l_provider l \<and> b_sandbox b \<noteq> []"
      "fresh w1" for b1 w1
    unfolding post_seq
    by (rule post_fresh [OF post_spend keeps_spend [OF quiet_plain, where k = k] that(3)])
      (use that in \<open>auto intro!: post_connect_or_rebuild fresh_plain split: sum.split\<close>)
  show ?thesis
    unfolding post_seq [of "usable_binding l env k b0"]
  proof (rule post_fresh [OF post_usable [OF assms(1)] keeps_usable [OF quiet_plain] assms(3)], goal_cases)
    case (1 r w1)
    show ?case
    proof (cases r)
      case (Inl e)
      with 1 show ?thesis by (simp add: fresh_plain)
    next
      case (Inr b1)
      with 1 assms(2) binding_sandbox have "b1 = ms_bindings (w_store w1) k" "fresh w1"
        "\<forall>b. b1 = Some b \<longrightarrow> b_provider b = l_provider l \<and> b_sandbox b \<noteq> []" by auto
      from rest [OF this(1,3,2)] show ?thesis unfolding Inr sum.case .
    qed
  qed
qed

lemma post_destroy_fresh: "fresh w \<Longrightarrow> post (destroy_binding_locked l env k b) w (\<lambda>_ w1. fresh w1)"
  by (rule post_fresh [OF post_destroy keeps_destroy [OF quiet_plain]]) simp_all

lemma post_resolve_locked:
  assumes "fresh w"
  shows "post (resolve_locked l env k) w (resolved l k)"
  unfolding resolve_locked_def post_seq [of "read_binding env k"]
proof (rule post_fresh [OF post_read_binding keeps_read_binding [OF quiet_plain] assms], goal_cases)
  case (1 r w1)
  show ?case
  proof (cases r)
    case (Inl e)
    with 1 show ?thesis by (simp add: fresh_plain)
  next
    case (Inr b0)
    let ?w2 = "\<lambda>a. w1\<lparr>w_hist := w_hist w1 @ [SessionAsked k a]\<rparr>"
    have f2: "fresh (?w2 a)" for a using 1 by (simp add: fresh_event plain_event_def)
    have u2: "post (seq (usable_binding l env k b0) (\<lambda>b1. seq (spend_turn_rebuild env k)
        (\<lambda>_. connect_or_rebuild l env k b1))) (?w2 a) (resolved l k)" for a
      using 1 Inr f2 by (intro post_from_usable) simp_all
    have d2: "post (destroy_binding_locked l env k b) (?w2 a) (\<lambda>_ w. accounted l k w)" for a b
      by (rule post_mono [OF post_destroy_fresh [OF f2]]) (rule fresh_plain)
    show ?thesis using u2 f2 d2
      by (auto simp: Inr fresh_plain simp del: post_seq [of "usable_binding l env k b0"] split: sum.split option.split)
  qed
qed

lemma post_resolve:
  assumes "fresh w"
  shows "post (resolve_session l env k) w (resolved l k)"
proof -
  let ?w1 = "\<lambda>x. w\<lparr>w_hist := w_hist w @ [LockAsked x]\<rparr>"
  have f1: "fresh (?w1 x)" for x using assms by (simp add: fresh_event plain_event_def)
  have "post (resolve_locked l env k) (?w1 x) 
      (\<lambda>r w1. case r of Inl e \<Rightarrow> resolved l k (Inl (ErrWrap ''resolve remote sandbox for session'' e)) w1
          | Inr h \<Rightarrow> resolved l k (Inr h) w1)" for x
    by (rule post_mono [OF post_resolve_locked [OF f1]]) (auto simp: resolved_def split: sum.split)
  moreover have "resolved l k (Inl e) (?w1 x)" "resolved l k (Inl e) w" for e x
    using f1 assms by (simp_all add: fresh_plain)
  ultimately show ?thesis
    by (simp add: resolve_session_def with_lifecycle_lock_def del: resolved_simps split: option.split)
qed

section \<open>A binding survives ambiguity\<close>

text \<open>The provider said that the bound sandbox is gone for good.\<close>

definition says_gone :: "string \<Rightarrow> event \<Rightarrow> bool" where
  "says_gone sid e =
     (case e of
        Connected i (Inl x) \<Rightarrow> i = sid \<and> can_replace_binding x
      | SummaryRead i (Inl x) \<Rightarrow> i = sid \<and> can_replace_binding x
      | SummaryRead i (Inr (Some s)) \<Rightarrow> i = sid \<and> sm_id s = sid \<and> sm_state s = RsTerminal
      | _ \<Rightarrow> False)"

text \<open>Calls that neither delete nor create a sandbox.\<close>

definition harmless :: "event \<Rightarrow> bool" where
  "harmless e = (case e of Deleted _ _ \<Rightarrow> False | Created _ _ \<Rightarrow> False | _ \<Rightarrow> True)"

definition unharmed :: "world \<Rightarrow> bool" where
  "unharmed w \<longleftrightarrow> list_all harmless (w_hist w)"

text \<open>The binding is the old one up to its token, unless the provider said the sandbox is gone.\<close>

definition preserved :: "sandbox_key \<Rightarrow> binding \<Rightarrow> world \<Rightarrow> bool" where
  "preserved k b w \<longleftrightarrow>
     list_ex (says_gone (b_sandbox b)) (w_hist w) \<or>
     unharmed w \<and> (\<exists>b'. ms_bindings (w_store w) k = Some b' \<and> same_box b b')"

lemma unharmed_event: "unharmed (w\<lparr>w_hist := w_hist w @ [e]\<rparr>) \<longleftrightarrow> unharmed w \<and> harmless e"
  by (simp add: unharmed_def)

lemma post_connect_says:
  "unharmed w \<Longrightarrow> post (connect_remote_session l env sid token) w
     (\<lambda>r w1. unharmed w1 \<and> w_store w1 = w_store w \<and>
        (\<forall>e. r = Inl (ErrClient e) \<longrightarrow> can_replace_binding e \<longrightarrow> list_ex (says_gone sid) (w_hist w1)))"
  by (auto simp: connect_remote_session_def Let_def validate_session_summary_def unharmed_def harmless_def says_gone_def
      can_replace_binding_def remote_kind_of_def split: sum.split option.splits if_splits)

lemma post_connect_binding_preserves:
  assumes "unharmed w" "ms_bindings (w_store w) k = Some b"
  shows "post (connect_binding l env k b) w
     (\<lambda>r w1. preserved k b w1 \<and> (r = Inr None \<longrightarrow> list_ex (says_gone (b_sandbox b)) (w_hist w1)))"
  unfolding connect_binding_def post_caught
proof (rule post_mono [OF post_connect_says [OF assms(1)]], goal_cases)
  case (1 r w1)
  then have b: "ms_bindings (w_store w1) k = Some b" and h: "unharmed w1" using assms(2) by simp_all
  then have p: "preserved k b w1" by (auto simp: preserved_def)
  have per: "post (persist_inbound_token env k b h) w1 (\<lambda>r w2. preserved k b w2)" for h
  proof -
    have "post (persist_inbound_token env k b h) w1 (\<lambda>r w2. unharmed w2)"
      using h by (auto simp: persist_inbound_token_def Let_def unharmed_def harmless_def split: sum.split prod.split)
    then show ?thesis
      by (rule post_mono [OF post_conj [OF _ post_persist [OF b]]]) (auto simp: preserved_def)
  qed
  from 1 p show ?case
    by (auto split: sum.split lifecycle_error.split intro!: post_mono [OF per])
qed

lemma post_connect_or_rebuild_preserves:
  assumes "unharmed w" "ms_bindings (w_store w) k = Some b"
  shows "post (connect_or_rebuild l env k (Some b)) w (\<lambda>r w1. preserved k b w1)"
  unfolding connect_or_rebuild_def option.case post_seq [of "connect_binding l env k b"]
proof (rule post_mono [OF post_connect_binding_preserves [OF assms]], goal_cases)
  case (1 r w1)
  have replaced: "post (seq (drop_binding env k b ''terminal sandbox'') (\<lambda>_. recover_or_create l env k)) w1
      (\<lambda>r w2. preserved k b w2)" if "list_ex (says_gone (b_sandbox b)) (w_hist w1)"
  proof -
    have "sf.keeps (\<lambda>_. True) k (seq (drop_binding env k b ''terminal sandbox'') (\<lambda>_. recover_or_create l env k))"
      by (intro sf.keeps_seq keeps_drop keeps_recover_or_create quiet_all(1))
    from sf.keeps_post [OF this] show ?thesis
      by (rule post_mono) (use that in \<open>auto simp: session_frame_def preserved_def\<close>)
  qed
  show ?case
  proof (cases r)
    case (Inl e)
    with 1 show ?thesis by simp
  next
    case (Inr ho)
    with 1 replaced show ?thesis by (cases ho) (simp_all del: post_seq)
  qed
qed

text \<open>The binding may not be rebuilt now: it is not stale, or its turn has spent its one rebuild.\<close>

definition settled_turn :: "sandbox_key \<Rightarrow> binding \<Rightarrow> memory_store \<Rightarrow> bool" where
  "settled_turn k b s \<longleftrightarrow> b_stale b = None \<or> (\<exists>t. ms_turns s k = Some t \<and> 0 < tl_refs t \<and> \<not> tl_rebuild t)"

lemma post_usable_keeps:
  assumes "unharmed w" "b_provider b = l_provider l" "settled_turn k b (w_store w)"
  shows "post (usable_binding l env k (Some b)) w (\<lambda>r w1. r = Inr (Some b) \<and> unharmed w1 \<and> w_store w1 = w_store w)"
proof (cases "b_stale b = None")
  case True
  with assms show ?thesis by (simp add: usable_binding_def)
next
  case False
  with assms(3) obtain t where t: "ms_turns (w_store w) k = Some t" "0 < tl_refs t" "\<not> tl_rebuild t"
    by (auto simp: settled_turn_def)
  have "post (should_rebuild_stale env k) w (\<lambda>r w1. r = Inr False \<and> unharmed w1 \<and> w_store w1 = w_store w)"
    using t assms(1)
    by (auto simp: should_rebuild_stale_def turn_state_def Let_def unharmed_def harmless_def guard_def
        split: sum.split option.split)
  then show ?thesis
    using False assms(2) by (auto simp: usable_binding_def elim!: post_mono)
qed

lemma post_resolve_locked_preserves:
  assumes w: "unharmed w" "ms_bindings (w_store w) k = Some b" and l: "b_provider b = l_provider l"
    and t: "settled_turn k b (w_store w)" and live: "\<And>hs. e_session env hs k \<noteq> Inr False"
  shows "post (resolve_locked l env k) w (\<lambda>r w1. preserved k b w1)"
proof -
  have rest: "post (seq (spend_turn_rebuild env k) (\<lambda>_. connect_or_rebuild l env k (Some b))) w1 (\<lambda>r w2. preserved k b w2)"
    if "unharmed w1" "ms_bindings (w_store w1) k = Some b" for w1
  proof -
    have "post (spend_turn_rebuild env k) w1 (\<lambda>r w2. unharmed w2 \<and> r = Inr ())"
      using that(1)
      by (auto simp: spend_turn_rebuild_def Let_def unharmed_def harmless_def split: sum.split prod.split)
    from post_conj [OF this post_spend] show ?thesis
      unfolding post_seq
      by (rule post_mono) (use that(2) in \<open>auto intro: post_connect_or_rebuild_preserves\<close>)
  qed
  have usable: "post (seq (usable_binding l env k (Some b)) (\<lambda>b1. seq (spend_turn_rebuild env k)
      (\<lambda>_. connect_or_rebuild l env k b1))) w1 (\<lambda>r w2. preserved k b w2)"
    if "unharmed w1" "w_store w1 = w_store w" for w1
    unfolding post_seq [of "usable_binding l env k (Some b)"]
  proof (rule post_mono [OF post_usable_keeps [OF that(1) l]], goal_cases)
    case 1
    show ?case using t that(2) by simp
  next
    case (2 r w2)
    with rest [of w2] w(2) that(2) show ?case by (simp del: post_seq)
  qed
  have read: "post (read_binding env k) w (\<lambda>r w1. unharmed w1)"
    using w(1) by (auto simp: read_binding_def Let_def unharmed_def harmless_def split: sum.split option.split prod.split)
  show ?thesis
    unfolding resolve_locked_def post_seq [of "read_binding env k"]
  proof (rule post_mono [OF post_conj [OF read post_read_binding]], goal_cases)
    case (1 r w1)
    then have u1: "unharmed w1" "w_store w1 = w_store w" by simp_all
    show ?case
    proof (cases r)
      case (Inl e)
      with u1 w(2) show ?thesis by (auto simp: preserved_def)
    next
      case (Inr b0)
      with 1 w(2) have b0: "b0 = Some b" by simp
      let ?w2 = "\<lambda>a. w1\<lparr>w_hist := w_hist w1 @ [SessionAsked k a]\<rparr>"
      have u2: "unharmed (?w2 a)" for a using u1(1) by (simp add: unharmed_event harmless_def)
      have "preserved k b (?w2 a)" for a using u1 u2 w(2) by (auto simp: preserved_def)
      then show ?thesis
        using live [of "w_hist w1"] usable [OF u2] u1(2)
        by (cases "e_session env (w_hist w1) k") (auto simp: Inr b0 simp del: post_seq [of "usable_binding l env k (Some b)"])
    qed
  qed
qed

section \<open>Properties\<close>

text \<open>
  The environment's answers are arbitrary functions of the history, so starting from an empty
  history loses no behaviour. The samples below are a provider that works and a session that exists.
\<close>

definition start :: "memory_store \<Rightarrow> world" where
  "start s = \<lparr>w_store = s, w_hist = []\<rparr>"

definition sample_lifecycle :: lifecycle where
  "sample_lifecycle = \<lparr>l_provider = ''e2b'', l_supports_reconnect = True, l_supports_metadata = False,
     l_supports_list = False, l_connector = True,
     l_request = \<lparr>cr_template = ''t'', cr_metadata = Map.empty, cr_env_vars = Map.empty, cr_allow_public = None\<rparr>,
     l_config = ''c'', l_bootstrapper = False, l_failure_handler = False\<rparr>"

definition sample_handle :: handle where
  "sample_handle = \<lparr>h_id = ''x'', h_provider = ''e2b'', h_token = None\<rparr>"

definition sample_world_env :: env where
  "sample_world_env = \<lparr>e_ctx = (\<lambda>_. None), e_lock = (\<lambda>_. None), e_now = (\<lambda>_. 5), e_session = (\<lambda>_ _. Inr True),
     e_get = (\<lambda>_ _. Inr None), e_connect_session = (\<lambda>_ _ _. Inr (Some sample_handle)),
     e_connect = (\<lambda>_ _ _. Inr (Some sample_handle)), e_list = (\<lambda>_ _. Inr []),
     e_create = (\<lambda>_ _. Inr (Some sample_handle)), e_delete = (\<lambda>_ _. None), e_override = (\<lambda>_ _. Inr []),
     e_after_create = (\<lambda>_ _ _. None)\<rparr>"

lemmas action_defs = seq_def caught_def ask_def lifted_def ret_def fail_def wrapped_def fail_after_def client_op_def store_op_def Let_def

lemmas resolve_defs = resolve_session_def with_lifecycle_lock_def resolve_locked_def read_binding_def usable_binding_def
  spend_turn_rebuild_def connect_or_rebuild_def connect_binding_def connect_remote_session_def persist_inbound_token_def
  recover_or_create_def recover_owned_sandbox_def create_and_bind_def check_created_def bind_created_def run_bootstrap_def
  validate_handle_def destroy_session_def destroy_locked_def destroy_binding_locked_def release_binding_def delete_sandbox_def

lemmas sample_defs = sample_lifecycle_def sample_world_env_def sample_handle_def sample_store_def sample_binding_def
  sample_key_def start_def new_memory_store_def

lemmas store_defs = ms_get_def ms_create_def ms_delete_if_match_def consume_turn_rebuild_def guard_def key_validate_def
  binding_validate_def validate_binding_match_def names_def binding_version_def is_remote_provider_def inbound_token_of_def
  new_binding_def missing_required_token_def create_request_for_def

lemma sample_key_words: "key_validate sample_key = None" "trim_space [] = []"
  by (simp_all add: key_validate_def sample_key_def sample_words)

lemma sample_resolves:
  "fst (resolve_session sample_lifecycle sample_world_env sample_key (start sample_store)) = Inr sample_handle"
  by (simp add: resolve_defs action_defs sample_defs store_defs sample_words sample_key_words)

lemma sample_creates:
  "w_hist (snd (resolve_session sample_lifecycle sample_world_env sample_key (start new_memory_store))) =
     [LockAsked None, CtxAsked None, SessionAsked sample_key (Inr True), CtxAsked None] @
     Created (l_request sample_lifecycle) (Inr (Some sample_handle)) #
     [SessionAsked sample_key (Inr True), NowRead 5, CtxAsked None]"
  by (simp add: resolve_defs action_defs sample_defs store_defs sample_words sample_key_words)

text \<open>
  C15: A successful resolve leaves the session with one sandbox. Whatever the provider, the session
  table, the bootstrapper and the contexts answer: when resolve returns a handle, the session is
  bound to exactly that sandbox of the current provider, and every other running sandbox the
  provider listed for the session was deleted or reported gone. No other session's binding or lease
  changed, and a typed store stays typed.
\<close>

theorem resolve_leaves_one_sandbox:
  assumes "resolve_session l env k (start s) = (Inr h, w)"
  shows "h_provider h = l_provider l \<and>
    (\<exists>b. ms_bindings (w_store w) k = Some b \<and> b_provider b = l_provider l \<and> b_sandbox b = h_id h) \<and>
    (\<forall>md ss c. Listed md (Inr ss) \<in> set (w_hist w) \<longrightarrow> c \<in> set ss \<longrightarrow> sm_id c \<noteq> [] \<longrightarrow>
       sm_state c \<noteq> RsTerminal \<longrightarrow> sm_id c \<noteq> h_id h \<longrightarrow> gone (w_hist w) (sm_id c)) \<and>
    (\<forall>k'. k' \<noteq> k \<longrightarrow> ms_bindings (w_store w) k' = ms_bindings s k' \<and> ms_turns (w_store w) k' = ms_turns s k') \<and>
    (store_typed s \<longrightarrow> store_typed (w_store w))"
proof -
  have "fresh (start s)" by (simp add: fresh_def start_def)
  from postD [OF post_resolve [OF this] assms] have "bound_to l k h w" "settled (w_hist w) (h_id h)" by simp_all
  moreover have "session_frame (\<lambda>_. True) k (start s) w"
    using sf.keepsD [OF keeps_resolve [of k l env], of "start s"] assms by simp
  ultimately show ?thesis
    by (simp add: bound_to_def settled_def running_def session_frame_def start_def)
qed

theorem resolve_leaves_one_sandbox_witness:
  "\<exists>b. ms_bindings (w_store (snd (resolve_session sample_lifecycle sample_world_env sample_key (start sample_store)))) sample_key
     = Some b \<and> b_provider b = ''e2b'' \<and> b_sandbox b = ''x''"
proof -
  let ?r = "resolve_session sample_lifecycle sample_world_env sample_key (start sample_store)"
  have "?r = (Inr sample_handle, snd ?r)" using sample_resolves by (metis prod.collapse)
  from resolve_leaves_one_sandbox [OF this, THEN conjunct2, THEN conjunct1] show ?thesis
    by (simp add: sample_lifecycle_def sample_handle_def)
qed

text \<open>
  C16: A resolve loses no sandbox it creates. On every path, failures of the provider, of the session
  check, of the store and of the bootstrap included, a sandbox that the provider created during the
  call is, when the call returns, either the one the session is bound to or one whose deletion was
  requested afterwards.
\<close>

theorem created_sandbox_accounted_for:
  assumes "resolve_session l env k (start s) = (r, w)"
    and "w_hist w = before @ Created q (Inr (Some h)) # after" "h_id h \<noteq> []"
  shows "(\<exists>x. Deleted (h_id h) x \<in> set after) \<or>
    (\<exists>b. ms_bindings (w_store w) k = Some b \<and> b_provider b = l_provider l \<and> b_sandbox b = h_id h)"
proof -
  have "fresh (start s)" by (simp add: fresh_def start_def)
  from postD [OF post_resolve [OF this] assms(1)] have "accounted l k w" by (simp add: resolved_def)
  with assms(2,3) show ?thesis unfolding accounted_def kept_def by blast
qed

theorem created_sandbox_accounted_for_witness:
  "\<exists>b. ms_bindings (w_store (snd (resolve_session sample_lifecycle sample_world_env sample_key (start new_memory_store)))) sample_key
     = Some b \<and> b_provider b = ''e2b'' \<and> b_sandbox b = ''x''"
proof -
  let ?r = "resolve_session sample_lifecycle sample_world_env sample_key (start new_memory_store)"
  have "?r = (fst ?r, snd ?r)" by simp
  from created_sandbox_accounted_for [OF this sample_creates] show ?thesis
    by (auto simp: sample_lifecycle_def sample_handle_def)
qed

text \<open>
  C17: An ambiguous failure never costs a session its sandbox. If the session is bound to a sandbox of
  the current provider, is not reported deleted, and its binding is not stale (or the running turn
  has spent its one rebuild), then unless the provider itself says that this sandbox is gone, resolve
  deletes and creates nothing and leaves the binding as it was, up to a reissued token, whatever else
  fails.
\<close>

theorem ambiguous_failure_keeps_sandbox:
  assumes "resolve_session l env k (start s) = (r, w)" "ms_bindings s k = Some b" "b_provider b = l_provider l"
    and "\<forall>hs. e_session env hs k \<noteq> Inr False"
    and "b_stale b = None \<or> (\<exists>t. ms_turns s k = Some t \<and> 0 < tl_refs t \<and> \<not> tl_rebuild t)"
    and "\<forall>e \<in> set (w_hist w). \<not> says_gone (b_sandbox b) e"
  shows "(\<exists>tok. ms_bindings (w_store w) k = Some (b\<lparr>b_token := tok\<rparr>)) \<and>
    (\<forall>sid x. Deleted sid x \<notin> set (w_hist w)) \<and> (\<forall>q x. Created q x \<notin> set (w_hist w))"
proof -
  let ?w1 = "\<lambda>x. (start s)\<lparr>w_hist := w_hist (start s) @ [LockAsked x]\<rparr>"
  have w1: "unharmed (?w1 x)" "ms_bindings (w_store (?w1 x)) k = Some b" for x
    using assms(2) by (simp_all add: start_def unharmed_def harmless_def)
  have locked: "post (resolve_locked l env k) (?w1 x) (\<lambda>r w. preserved k b w)" for x
    by (rule post_resolve_locked_preserves [OF w1 assms(3)]) (use assms(4,5) in \<open>simp_all add: settled_turn_def start_def\<close>)
  have "preserved k b (start s)" "preserved k b (?w1 x)" for x
    using assms(2) by (auto simp: preserved_def start_def unharmed_def harmless_def)
  then have "post (resolve_session l env k) (start s) (\<lambda>r w. preserved k b w)"
    using locked by (auto simp: resolve_session_def with_lifecycle_lock_def split: option.split sum.split elim!: post_mono)
  from postD [OF this assms(1)] assms(6) have kept: "unharmed w" "\<exists>b'. ms_bindings (w_store w) k = Some b' \<and> same_box b b'"
    by (simp_all add: preserved_def list_ex_iff)
  then have "\<exists>tok. ms_bindings (w_store w) k = Some (b\<lparr>b_token := tok\<rparr>)" unfolding same_box_def by metis
  moreover have "Deleted sid x \<notin> set (w_hist w)" "Created q y \<notin> set (w_hist w)" for sid x q y
    using kept(1) by (auto simp: unharmed_def list_all_iff harmless_def dest!: bspec)
  ultimately show ?thesis by blast
qed

definition timeout_env :: env where
  "timeout_env = sample_world_env\<lparr>e_connect_session := \<lambda>_ _ _. Inl (RemoteError RkTimeout ''slow'')\<rparr>"

lemma sample_times_out:
  "w_hist (snd (resolve_session sample_lifecycle timeout_env sample_key (start sample_store))) =
     [LockAsked None, CtxAsked None, SessionAsked sample_key (Inr True), CtxAsked None,
      Connected ''x'' (Inl (RemoteError RkTimeout ''slow''))]"
  by (simp add: resolve_defs action_defs sample_defs store_defs sample_words sample_key_words timeout_env_def
      can_replace_binding_def remote_kind_of_def)

theorem ambiguous_failure_keeps_sandbox_witness:
  "\<exists>tok. ms_bindings (w_store (snd (resolve_session sample_lifecycle timeout_env sample_key (start sample_store)))) sample_key
     = Some (sample_binding\<lparr>b_token := tok\<rparr>)"
proof -
  let ?r = "resolve_session sample_lifecycle timeout_env sample_key (start sample_store)"
  have "?r = (fst ?r, snd ?r)" by simp
  from ambiguous_failure_keeps_sandbox [OF this, where b = sample_binding, THEN conjunct1] show ?thesis
    by (simp add: sample_times_out)
      (simp add: sample_store_def sample_binding_def sample_lifecycle_def timeout_env_def sample_world_env_def says_gone_def
        can_replace_binding_def remote_kind_of_def)
qed

lemma post_destroy_binding_gone:
  "post (destroy_binding_locked l env k b) w1
     (\<lambda>r w2. r = Inr () \<longrightarrow> unbound k w2 \<and> (b_provider b = l_provider l \<longrightarrow> gone (w_hist w2) (b_sandbox b)))"
proof (cases "b_provider b = l_provider l")
  case True
  have "post (release_binding env k b) w2 (\<lambda>r w3. r = Inr () \<longrightarrow> unbound k w3 \<and> gone (w_hist w3) (b_sandbox b))"
    if "gone (w_hist w2) (b_sandbox b)" for w2
  proof -
    have "sf.keeps (\<lambda>_. True) k (release_binding env k b)"
      unfolding release_binding_def by (auto intro!: sf.keeps_rules own_rules own_ops keeps_read_binding quiet_all)
    from post_conj [OF post_release sf.keeps_post [OF this]] show ?thesis
      by (rule post_mono) (use that gone_frame in auto)
  qed
  with True show ?thesis
    unfolding destroy_binding_locked_def
    by (auto split: sum.split intro!: post_mono [OF post_delete_gone])
next
  case False
  then show ?thesis by (auto intro: post_mono [OF post_destroy])
qed

lemma post_destroy_locked_gone:
  assumes "w_store w1 = s"
  shows "post (destroy_locked l env k) w1
    (\<lambda>r w2. r = Inr () \<longrightarrow> unbound k w2 \<and>
      (\<forall>b. ms_bindings s k = Some b \<longrightarrow> b_provider b = l_provider l \<longrightarrow> gone (w_hist w2) (b_sandbox b)))"
  unfolding destroy_locked_def post_seq
proof (rule post_mono [OF post_read_binding], goal_cases)
  case (1 r w2)
  show ?case
  proof (cases r)
    case (Inr b0)
    with 1 assms have b0: "b0 = ms_bindings s k" by simp
    show ?thesis
    proof (cases b0)
      case None
      with b0 1 assms Inr show ?thesis by (simp add: unbound_def)
    next
      case (Some b)
      have "post (destroy_binding_locked l env k b) w2 (\<lambda>r w2. r = Inr () \<longrightarrow> unbound k w2 \<and>
          (\<forall>b. ms_bindings s k = Some b \<longrightarrow> b_provider b = l_provider l \<longrightarrow> gone (w_hist w2) (b_sandbox b)))"
        by (rule post_mono [OF post_destroy_binding_gone]) (use b0 Some in auto)
      then show ?thesis by (simp add: Inr Some)
    qed
  qed simp
qed

text \<open>
  C18: A successful destroy releases the session. Afterwards nothing is bound to it, and if it was
  bound to a sandbox of the current provider, the provider confirmed that sandbox deleted or already
  gone; of a binding that names another provider only the binding is removed, and nothing is said of
  its sandbox. No other session changed and nothing was created.
\<close>

theorem destroy_releases_session:
  assumes "destroy_session l env k (start s) = (Inr u, w)"
  shows "ms_bindings (w_store w) k = None \<and>
    (\<forall>b. ms_bindings s k = Some b \<longrightarrow> b_provider b = l_provider l \<longrightarrow> gone (w_hist w) (b_sandbox b)) \<and>
    (\<forall>k'. k' \<noteq> k \<longrightarrow> ms_bindings (w_store w) k' = ms_bindings s k' \<and> ms_turns (w_store w) k' = ms_turns s k') \<and>
    (\<forall>q x. Created q x \<notin> set (w_hist w))"
proof -
  have "post (destroy_session l env k) (start s) (\<lambda>r w2. r = Inr () \<longrightarrow> unbound k w2 \<and>
        (\<forall>b. ms_bindings s k = Some b \<longrightarrow> b_provider b = l_provider l \<longrightarrow> gone (w_hist w2) (b_sandbox b)))"
    by (auto simp: destroy_session_def with_lifecycle_lock_def start_def
        split: option.split sum.split intro!: post_mono [OF post_destroy_locked_gone])
  from postD [OF this assms] have fin: "unbound k w"
    "\<forall>b. ms_bindings s k = Some b \<longrightarrow> b_provider b = l_provider l \<longrightarrow> gone (w_hist w) (b_sandbox b)" by simp_all
  have "session_frame plain_event k (start s) w"
    using sf.keepsD [OF keeps_destroy_session [OF quiet_plain, where k = k and l = l and env = env], where w = "start s"] assms by simp
  moreover have "list_all plain_event hs \<Longrightarrow> Created q x \<notin> set hs" for hs q x
    by (auto simp: list_all_iff plain_event_def dest!: bspec)
  ultimately show ?thesis
    using fin by (simp add: session_frame_def start_def unbound_def)
qed

theorem destroy_releases_session_witness:
  "gone (w_hist (snd (destroy_session sample_lifecycle sample_world_env sample_key (start sample_store)))) ''x''"
proof -
  let ?r = "destroy_session sample_lifecycle sample_world_env sample_key (start sample_store)"
  have "fst ?r = Inr ()"
    by (simp add: resolve_defs action_defs sample_defs store_defs sample_words sample_key_words)
  then have "?r = (Inr (), snd ?r)" by (metis prod.collapse)
  from destroy_releases_session [OF this, THEN conjunct2, THEN conjunct1] show ?thesis
    by (simp add: sample_store_def sample_binding_def sample_lifecycle_def)
qed

end
