(* ===== verification/Go_Regexp.thy ===== *)
theory Go_Regexp
  imports Prelude
begin

text \<open>
  Text as the splitters see it, and the part of Go's \<^verbatim>\<open>regexp\<close> package they call. A valid
  UTF-8 string is the list of its code points (\<open>rune\<close>s); a byte offset is the number of bytes
  the runes before it take (\<open>byte_off\<close>), so \<^verbatim>\<open>text[a:b]\<close> is \<open>byte_slice\<close> and
  \<^verbatim>\<open>utf8.RuneCountInString\<close> is \<open>length\<close>.

  Go's regular expressions are leftmost-first: among the matches that begin at a position the one
  a backtracking search finds first wins. \<open>ends r t i\<close> lists the ends of all matches of \<open>r\<close> at
  \<open>i\<close> in that order of preference, so its head is the match Go reports. An iteration of a star
  that consumes nothing is not repeated; the patterns of the program have none.
\<close>

type_synonym rune = nat
type_synonym runes = "rune list"

abbreviation nl :: rune where "nl \<equiv> 10"
abbreviation cr :: rune where "cr \<equiv> 13"
abbreviation blank :: rune where "blank \<equiv> 32"
abbreviation tab :: rune where "tab \<equiv> 9"

text \<open>The runes of an ASCII literal of the source.\<close>

definition ascii :: "string \<Rightarrow> runes" where
  "ascii s = map of_char s"

section \<open>Byte offsets\<close>

definition rune_width :: "rune \<Rightarrow> nat" where
  "rune_width r = (if r < 0x80 then 1 else if r < 0x800 then 2 else if r < 0x10000 then 3 else 4)"

primrec byte_len :: "runes \<Rightarrow> nat" where
  "byte_len [] = 0"
| "byte_len (r # t) = rune_width r + byte_len t"

definition byte_off :: "runes \<Rightarrow> nat \<Rightarrow> nat" where
  "byte_off t i = byte_len (take i t)"

fun byte_drop :: "nat \<Rightarrow> runes \<Rightarrow> runes" where
  "byte_drop b [] = []"
| "byte_drop b (r # t) = (if b < rune_width r then r # t else byte_drop (b - rune_width r) t)"

fun byte_take :: "nat \<Rightarrow> runes \<Rightarrow> runes" where
  "byte_take b [] = []"
| "byte_take b (r # t) = (if b < rune_width r then [] else r # byte_take (b - rune_width r) t)"

definition byte_slice :: "nat \<Rightarrow> nat \<Rightarrow> runes \<Rightarrow> runes" where
  "byte_slice a b t = byte_take (b - a) (byte_drop a t)"

definition segment :: "nat \<Rightarrow> nat \<Rightarrow> 'a list \<Rightarrow> 'a list" where
  "segment a b t = take (b - a) (drop a t)"

lemma segment_length [simp]: "a \<le> b \<Longrightarrow> b \<le> length t \<Longrightarrow> length (segment a b t) = b - a"
  by (simp add: segment_def)

lemma segment_append: "a \<le> b \<Longrightarrow> b \<le> c \<Longrightarrow> segment a b t @ segment b c t = segment a c t"
proof -
  assume "a \<le> b" "b \<le> c"
  then have "c - a = (b - a) + (c - b)" "b = (b - a) + a" by auto
  then show ?thesis
    by (metis (no_types, lifting) drop_drop segment_def take_add)
qed

lemma segment_empty [simp]: "segment a a t = []"
  by (simp add: segment_def)

lemma segment_all: "segment 0 (length t) t = t"
  by (simp add: segment_def)

lemma segment_to_drop: "a \<le> b \<Longrightarrow> segment a b t @ drop b t = drop a t"
  by (metis append_take_drop_id drop_drop le_add_diff_inverse2 segment_def)

lemma segment_from_start: "segment 0 b t = take b t"
  by (simp add: segment_def)

lemma segment_segment: "a \<le> b \<Longrightarrow> j \<le> b - a \<Longrightarrow> segment i j (segment a b t) = segment (a + i) (a + j) t"
  by (simp add: segment_def drop_take add.commute min_def)

lemma rune_width_pos [simp]: "0 < rune_width r"
  by (simp add: rune_width_def)

lemma byte_len_append [simp]: "byte_len (s @ t) = byte_len s + byte_len t"
  by (induction s) simp_all

lemma byte_off_0 [simp]: "byte_off t 0 = 0"
  by (simp add: byte_off_def)

lemma byte_off_full [simp]: "byte_off t (length t) = byte_len t"
  by (simp add: byte_off_def)

lemma byte_off_mono: "i \<le> j \<Longrightarrow> byte_off t i \<le> byte_off t j"
  by (metis byte_len_append byte_off_def le_add1 le_add_diff_inverse take_add)

lemma byte_off_strict: "i < j \<Longrightarrow> j \<le> length t \<Longrightarrow> byte_off t i < byte_off t j"
proof -
  assume ij: "i < j" "j \<le> length t"
  then have "take j t = take i t @ t ! i # take (j - Suc i) (drop (Suc i) t)"
    by (metis Cons_nth_drop_Suc add.commute add_Suc_right le_add_diff_inverse less_le_trans
          Suc_leI take_Suc_Cons take_add)
  then show ?thesis by (simp add: byte_off_def)
qed

lemma byte_off_less_iff: "i \<le> length t \<Longrightarrow> j \<le> length t \<Longrightarrow> byte_off t i < byte_off t j \<longleftrightarrow> i < j"
  by (meson byte_off_mono byte_off_strict leD linorder_le_less_linear)

lemma byte_off_le_iff: "i \<le> length t \<Longrightarrow> j \<le> length t \<Longrightarrow> byte_off t i \<le> byte_off t j \<longleftrightarrow> i \<le> j"
  by (meson byte_off_less_iff not_le)

lemma byte_drop_off: "i \<le> length t \<Longrightarrow> byte_drop (byte_off t i) t = drop i t"
proof (induction t arbitrary: i)
  case (Cons r t)
  then show ?case by (cases i) (auto simp: byte_off_def)
qed simp

lemma byte_take_off: "i \<le> length t \<Longrightarrow> byte_take (byte_off t i) t = take i t"
proof (induction t arbitrary: i)
  case (Cons r t)
  then show ?case by (cases i) (auto simp: byte_off_def)
qed simp

lemma byte_off_drop: "i \<le> j \<Longrightarrow> byte_off t j - byte_off t i = byte_off (drop i t) (j - i)"
  by (metis byte_len_append byte_off_def diff_add_inverse le_add_diff_inverse take_add)

lemma byte_slice_off:
  "i \<le> j \<Longrightarrow> j \<le> length t \<Longrightarrow> byte_slice (byte_off t i) (byte_off t j) t = segment i j t"
  by (simp add: byte_slice_def segment_def byte_drop_off byte_off_drop byte_take_off)

section \<open>Spaces\<close>

text \<open>\<^verbatim>\<open>unicode.IsSpace\<close>, \<^verbatim>\<open>strings.TrimSpace\<close>, \<^verbatim>\<open>strings.TrimRight\<close> and a split at one rune.\<close>

definition is_space :: "rune \<Rightarrow> bool" where
  "is_space r \<longleftrightarrow> 9 \<le> r \<and> r \<le> 13 \<or> r = 32 \<or> r = 0x85 \<or> r = 0xA0 \<or> r = 0x1680 \<or>
     0x2000 \<le> r \<and> r \<le> 0x200A \<or> r = 0x2028 \<or> r = 0x2029 \<or> r = 0x202F \<or> r = 0x205F \<or> r = 0x3000"

definition trim_right_runes :: "(rune \<Rightarrow> bool) \<Rightarrow> runes \<Rightarrow> runes" where
  "trim_right_runes p t = rev (dropWhile p (rev t))"

definition trim_runes :: "runes \<Rightarrow> runes" where
  "trim_runes t = trim_right_runes is_space (dropWhile is_space t)"

fun split_at :: "rune \<Rightarrow> runes \<Rightarrow> runes list" where
  "split_at c [] = [[]]"
| "split_at c (r # t) =
     (if r = c then [] # split_at c t
      else case split_at c t of [] \<Rightarrow> [[r]] | w # ws \<Rightarrow> (r # w) # ws)"

lemma trim_runes_Nil_iff: "trim_runes t = [] \<longleftrightarrow> (\<forall>r \<in> set t. is_space r)"
proof -
  have "set (dropWhile is_space t) \<subseteq> {r. is_space r} \<longleftrightarrow> (\<forall>r \<in> set t. is_space r)"
    by (metis (mono_tags, lifting) dropWhile_eq_Nil_conv hd_dropWhile hd_in_set mem_Collect_eq
          empty_iff empty_set set_dropWhileD subsetD subsetI)
  then show ?thesis by (auto simp: trim_runes_def trim_right_runes_def dropWhile_eq_Nil_conv)
qed

section \<open>Regular expressions\<close>

definition word_rune :: "rune \<Rightarrow> bool" where  \<comment> \<open>\<^verbatim>\<open>\w\<close>\<close>
  "word_rune c \<longleftrightarrow> 48 \<le> c \<and> c \<le> 57 \<or> 65 \<le> c \<and> c \<le> 90 \<or> c = 95 \<or> 97 \<le> c \<and> c \<le> 122"

datatype regexp =
    Nothing                          \<comment> \<open>the empty expression\<close>
  | Rune_In "rune \<Rightarrow> bool"           \<comment> \<open>a rune or a class\<close>
  | Cat regexp regexp
  | Alt regexp regexp
  | Star bool regexp                 \<comment> \<open>\<open>True\<close>: \<^verbatim>\<open>x*\<close>; \<open>False\<close>: \<^verbatim>\<open>x*?\<close>\<close>
  | Upto nat regexp                  \<comment> \<open>\<^verbatim>\<open>x{0,n}\<close>\<close>
  | Text_Begin                       \<comment> \<open>\<^verbatim>\<open>^\<close>\<close>
  | Text_End                         \<comment> \<open>\<^verbatim>\<open>$\<close>\<close>
  | Line_Begin                       \<comment> \<open>\<^verbatim>\<open>^\<close> under \<^verbatim>\<open>(?m)\<close>\<close>
  | Line_End                         \<comment> \<open>\<^verbatim>\<open>$\<close> under \<^verbatim>\<open>(?m)\<close>\<close>
  | Word_Boundary                    \<comment> \<open>\<^verbatim>\<open>\b\<close>\<close>

function star_ends :: "(nat \<Rightarrow> nat list) \<Rightarrow> bool \<Rightarrow> nat \<Rightarrow> nat \<Rightarrow> nat list" where
  "star_ends step greedy n i =
     (let more = concat (map (\<lambda>j. if i < j \<and> j \<le> n then star_ends step greedy n j else []) (step i))
      in if greedy then more @ [i] else i # more)"
  by pat_completeness auto
termination
  by (relation "measure (\<lambda>(step, greedy, n, i). n - i)") auto

declare star_ends.simps [simp del]

primrec upto_ends :: "(nat \<Rightarrow> nat list) \<Rightarrow> nat \<Rightarrow> nat \<Rightarrow> nat list" where
  "upto_ends step 0 i = [i]"
| "upto_ends step (Suc k) i = concat (map (upto_ends step k) (step i)) @ [i]"

primrec ends :: "regexp \<Rightarrow> runes \<Rightarrow> nat \<Rightarrow> nat list" where
  "ends Nothing t i = [i]"
| "ends (Rune_In p) t i = (if i < length t \<and> p (t ! i) then [Suc i] else [])"
| "ends (Cat r s) t i = concat (map (ends s t) (ends r t i))"
| "ends (Alt r s) t i = ends r t i @ ends s t i"
| "ends (Star greedy r) t i = star_ends (ends r t) greedy (length t) i"
| "ends (Upto n r) t i = upto_ends (ends r t) n i"
| "ends Text_Begin t i = (if i = 0 then [i] else [])"
| "ends Text_End t i = (if i = length t then [i] else [])"
| "ends Line_Begin t i = (if i = 0 \<or> t ! (i - 1) = nl then [i] else [])"
| "ends Line_End t i = (if i = length t \<or> t ! i = nl then [i] else [])"
| "ends Word_Boundary t i =
     (if (0 < i \<and> word_rune (t ! (i - 1))) \<noteq> (i < length t \<and> word_rune (t ! i)) then [i] else [])"

lemma star_ends_bounds:
  "j \<in> set (star_ends step greedy n i) \<Longrightarrow> i \<le> n \<Longrightarrow> i \<le> j \<and> j \<le> n"
proof (induction step greedy n i rule: star_ends.induct)
  case (1 step greedy n i)
  show ?case
  proof (cases "j = i")
    case False
    with "1.prems"(1) obtain k where k: "k \<in> set (step i)" "i < k" "k \<le> n"
      "j \<in> set (star_ends step greedy n k)"
      by (auto simp: star_ends.simps [of step greedy n i] Let_def split: if_splits)
    from "1.IH" [OF k(1) _ k(4)] k(2,3) show ?thesis by simp
  qed (use "1.prems" in simp)
qed

lemma upto_ends_bounds:
  assumes step: "\<And>i j. j \<in> set (step i) \<Longrightarrow> i \<le> n \<Longrightarrow> i \<le> j \<and> j \<le> n"
  shows "j \<in> set (upto_ends step k i) \<Longrightarrow> i \<le> n \<Longrightarrow> i \<le> j \<and> j \<le> n"
proof (induction k arbitrary: i)
  case (Suc k)
  then consider "j = i" | m where "m \<in> set (step i)" "j \<in> set (upto_ends step k m)" by auto
  then show ?case
    by cases (use Suc step order_trans in \<open>force, meson\<close>)
qed simp

lemma ends_bounds: "j \<in> set (ends r t i) \<Longrightarrow> i \<le> length t \<Longrightarrow> i \<le> j \<and> j \<le> length t"
proof (induction r arbitrary: i j)
  case (Cat r s)
  then obtain k where "k \<in> set (ends r t i)" "j \<in> set (ends s t k)" by auto
  with Cat.IH Cat.prems(2) show ?case by (meson order_trans)
next
  case (Star greedy r)
  then show ?case by (auto dest: star_ends_bounds)
next
  case (Upto n r)
  have "j \<in> set (upto_ends (ends r t) n i)" using Upto.prems by simp
  from upto_ends_bounds [of "ends r t" "length t", OF _ this Upto.prems(2)] Upto.IH
  show ?case by blast
next
  case (Alt r s)
  then show ?case by auto
qed (auto split: if_splits)

subsection \<open>Searching\<close>

function find_match :: "regexp \<Rightarrow> runes \<Rightarrow> nat \<Rightarrow> (nat \<times> nat) option" where
  "find_match r t i =
     (case ends r t i of
        j # _ \<Rightarrow> Some (i, j)
      | [] \<Rightarrow> if i < length t then find_match r t (Suc i) else None)"
  by pat_completeness auto
termination
  by (relation "measure (\<lambda>(r, t, i). length t - i)") auto

declare find_match.simps [simp del]

lemma find_matchD:
  "find_match r t i = Some (a, b) \<Longrightarrow> i \<le> length t \<Longrightarrow> i \<le> a \<and> a \<le> b \<and> b \<le> length t"
proof (induction r t i rule: find_match.induct)
  case (1 r t i)
  show ?case
  proof (cases "ends r t i")
    case Nil
    with "1" show ?thesis
      by (auto simp: find_match.simps [of r t i] split: if_splits)
  next
    case (Cons j js)
    with "1.prems" ends_bounds [of j r t i] show ?thesis
      by (auto simp: find_match.simps [of r t i])
  qed
qed

text \<open>
  \<^verbatim>\<open>FindAllStringIndex(text, -1)\<close>: \<open>prev\<close> is the end of the previous match. An empty match
  just after it is dropped, and after an empty match the search goes on one rune later.
\<close>

function find_all :: "regexp \<Rightarrow> runes \<Rightarrow> nat \<Rightarrow> nat option \<Rightarrow> (nat \<times> nat) list" where
  "find_all r t pos prev =
     (if length t < pos then []
      else case find_match r t pos of
        None \<Rightarrow> []
      | Some (a, b) \<Rightarrow>
          if b \<le> pos then (if prev = Some a then [] else [(a, b)]) @ find_all r t (Suc pos) (Some b)
          else (a, b) # find_all r t b (Some b))"
  by pat_completeness auto
termination
  by (relation "measure (\<lambda>(r, t, pos, prev). Suc (length t) - pos)") auto

declare find_all.simps [simp del]

lemma find_all_stop: "length t < pos \<or> find_match r t pos = None \<Longrightarrow> find_all r t pos prev = []"
  by (elim disjE) (simp_all add: find_all.simps [of r t pos prev])

lemma find_all_step:
  assumes "pos \<le> length t" "find_match r t pos = Some (a, b)"
  shows "find_all r t pos prev =
    (if b \<le> pos then (if prev = Some a then [] else [(a, b)]) @ find_all r t (Suc pos) (Some b)
     else (a, b) # find_all r t b (Some b))"
  using assms by (simp add: find_all.simps [of r t pos prev])

primrec spans_from :: "nat \<Rightarrow> nat \<Rightarrow> (nat \<times> nat) list \<Rightarrow> bool" where
  "spans_from lo n [] \<longleftrightarrow> lo \<le> n"
| "spans_from lo n (s # ss) \<longleftrightarrow> lo \<le> fst s \<and> fst s \<le> snd s \<and> spans_from (snd s) n ss"

lemma spans_from_le: "spans_from lo n ss \<Longrightarrow> lo \<le> n"
  by (induction ss arbitrary: lo) force+

lemma spans_from_mono: "spans_from lo n ss \<Longrightarrow> lo' \<le> lo \<Longrightarrow> spans_from lo' n ss"
  by (cases ss) auto

lemma spans_fromD: "spans_from lo n ss \<Longrightarrow> (a, b) \<in> set ss \<Longrightarrow> lo \<le> a \<and> a \<le> b \<and> b \<le> n"
proof (induction ss arbitrary: lo)
  case (Cons s ss)
  then show ?case using spans_from_le [of "snd s" n ss] by (cases s) fastforce
qed simp

lemma find_all_spans:
  "pos \<le> length t \<Longrightarrow> spans_from pos (length t) (find_all r t pos prev)"
proof (induction r t pos prev rule: find_all.induct)
  case (1 r t pos prev)
  show ?case
  proof (cases "find_match r t pos")
    case None
    with "1.prems" show ?thesis by (simp add: find_all.simps [of r t pos prev])
  next
    case (Some ab)
    obtain a b where [simp]: "ab = (a, b)" by (cases ab)
    from find_matchD [of r t pos a b] Some "1.prems"
    have ab: "pos \<le> a" "a \<le> b" "b \<le> length t" by auto
    show ?thesis
    proof (cases "b \<le> pos")
      case False
      with "1" Some ab show ?thesis by (simp add: find_all.simps [of r t pos prev])
    next
      case True
      with ab have eq: "a = pos" "b = pos" by auto
      have rest: "spans_from pos (length t) (find_all r t (Suc pos) (Some b))"
      proof (cases "Suc pos \<le> length t")
        case True
        with "1.IH"(1) [OF _ Some] \<open>b \<le> pos\<close> "1.prems" show ?thesis
          by (auto intro: spans_from_mono)
      next
        case False
        with "1.prems" show ?thesis by (simp add: find_all.simps [of r t "Suc pos"])
      qed
      from True Some "1.prems" eq rest show ?thesis
        by (simp add: find_all.simps [of r t pos prev])
    qed
  qed
qed

lemma find_match_first: "find_match r t i = Some (a, b) \<Longrightarrow> \<exists>js. ends r t a = b # js"
proof (induction r t i rule: find_match.induct)
  case (1 r t i)
  then show ?case
    by (cases "ends r t i") (auto simp: find_match.simps [of r t i] split: if_splits)
qed

lemma find_match_ends: "find_match r t i = Some (a, b) \<Longrightarrow> b \<in> set (ends r t a)"
  by (auto dest: find_match_first)

lemma find_all_first: "(a, b) \<in> set (find_all r t pos prev) \<Longrightarrow> (\<exists>js. ends r t a = b # js) \<and> a \<le> length t"
proof (induction r t pos prev rule: find_all.induct)
  case (1 r t pos prev)
  show ?case
  proof (cases "length t < pos \<or> find_match r t pos = None")
    case True
    with "1.prems" show ?thesis by (metis empty_iff find_all_stop list.set(1))
  next
    case False
    then obtain a' b' where m: "find_match r t pos = Some (a', b')" by auto
    from find_matchD [OF m] False have n: "a' \<le> length t" by auto
    show ?thesis
    proof (cases "(a, b) = (a', b')")
      case True
      with m n show ?thesis by (auto dest: find_match_first)
    next
      case ne: False
      show ?thesis
      proof (cases "b' \<le> pos")
        case True
        with ne "1.prems" m False have "(a, b) \<in> set (find_all r t (Suc pos) (Some b'))"
          by (auto simp: find_all_step split: if_splits)
        with "1.IH"(1) [OF _ m _ True] False show ?thesis by auto
      next
        case F: False
        with ne "1.prems" m False have "(a, b) \<in> set (find_all r t b' (Some b'))"
          by (auto simp: find_all_step)
        with "1.IH"(2) [OF _ m _ F] False show ?thesis by auto
      qed
    qed
  qed
qed

lemma find_all_ends: "(a, b) \<in> set (find_all r t pos prev) \<Longrightarrow> b \<in> set (ends r t a) \<and> a \<le> length t"
  by (auto dest!: find_all_first)

lemma spans_from_apart:
  "spans_from lo n ss \<Longrightarrow> s \<in> set ss \<Longrightarrow> u \<in> set ss \<Longrightarrow> fst s < fst u \<Longrightarrow> snd s \<le> fst u"
proof (induction ss arbitrary: lo)
  case (Cons v ss)
  have later: "snd v \<le> fst w" if "w \<in> set ss" for w
    using spans_fromD [of "snd v" n ss "fst w" "snd w"] Cons.prems(1) that by (cases v) auto
  from Cons.prems Cons.IH [of "snd v"] later show ?case by (cases v) fastforce
qed simp

definition find_all_index :: "regexp \<Rightarrow> runes \<Rightarrow> (nat \<times> nat) list" where
  "find_all_index r t = map (\<lambda>(a, b). (byte_off t a, byte_off t b)) (find_all r t 0 None)"

definition match_string :: "regexp \<Rightarrow> runes \<Rightarrow> bool" where
  "match_string r t \<longleftrightarrow> find_match r t 0 \<noteq> None"

definition find_string :: "regexp \<Rightarrow> runes \<Rightarrow> runes" where
  "find_string r t = (case find_match r t 0 of None \<Rightarrow> [] | Some (a, b) \<Rightarrow> segment a b t)"

text \<open>\<^verbatim>\<open>re.Split(text, -1)\<close> and \<^verbatim>\<open>re.FindAllString(text, -1)\<close>, from the spans of the matches.\<close>

fun split_spans :: "runes \<Rightarrow> nat \<Rightarrow> nat \<Rightarrow> (nat \<times> nat) list \<Rightarrow> runes list" where
  "split_spans t from start [] = (if start \<noteq> length t then [drop from t] else [])"
| "split_spans t from start ((a, b) # ss) =
     (if b \<noteq> 0 then [segment from a t] else []) @ split_spans t b a ss"

definition re_split :: "regexp \<Rightarrow> runes \<Rightarrow> runes list" where
  "re_split r t = (if t = [] then [[]] else split_spans t 0 0 (find_all r t 0 None))"

text \<open>\<^verbatim>\<open>ReplaceAllString\<close> for a pattern that matches no empty text and a replacement without \<^verbatim>\<open>$\<close>.\<close>

fun replace_spans :: "runes \<Rightarrow> runes \<Rightarrow> nat \<Rightarrow> (nat \<times> nat) list \<Rightarrow> runes" where
  "replace_spans w t pos [] = drop pos t"
| "replace_spans w t pos ((a, b) # ss) = segment pos a t @ w @ replace_spans w t b ss"

definition replace_all_string :: "regexp \<Rightarrow> runes \<Rightarrow> runes \<Rightarrow> runes" where
  "replace_all_string r w t = replace_spans w t 0 (find_all r t 0 None)"

definition find_all_string :: "regexp \<Rightarrow> runes \<Rightarrow> runes list" where
  "find_all_string r t = map (\<lambda>(a, b). segment a b t) (find_all r t 0 None)"

subsection \<open>Building blocks of the patterns\<close>

definition lit :: "runes \<Rightarrow> regexp" where
  "lit w = foldr (\<lambda>c r. Cat (Rune_In (\<lambda>x. x = c)) r) w Nothing"

definition rep1 :: "regexp \<Rightarrow> regexp" where
  "rep1 r = Cat r (Star True r)"

definition optional :: "regexp \<Rightarrow> regexp" where
  "optional r = Upto 1 r"

abbreviation any_rune :: regexp where "any_rune \<equiv> Rune_In (\<lambda>_. True)"

definition one_of :: "runes \<Rightarrow> regexp" where
  "one_of w = Rune_In (\<lambda>c. c \<in> set w)"

definition none_of :: "runes \<Rightarrow> regexp" where
  "none_of w = Rune_In (\<lambda>c. c \<notin> set w)"

definition white :: "rune \<Rightarrow> bool" where  \<comment> \<open>\<^verbatim>\<open>\s\<close>\<close>
  "white c \<longleftrightarrow> c \<in> {9, 10, 12, 13, 32}"

abbreviation whites :: regexp where "whites \<equiv> Star True (Rune_In white)"

primrec cats :: "regexp list \<Rightarrow> regexp" where
  "cats [] = Nothing"
| "cats (r # rs) = Cat r (cats rs)"

lemma lit_ends: "i \<le> length t \<Longrightarrow> ends (lit w) t i = (if take (length w) (drop i t) = w then [i + length w] else [])"
proof (induction w arbitrary: i)
  case Nil
  then show ?case by (simp add: lit_def)
next
  case (Cons c w)
  have l: "lit (c # w) = Cat (Rune_In (\<lambda>x. x = c)) (lit w)" by (simp add: lit_def)
  show ?case
  proof (cases "i < length t \<and> t ! i = c")
    case True
    then have "drop i t = c # drop (Suc i) t" by (metis Cons_nth_drop_Suc)
    with True Cons.IH [of "Suc i"] show ?thesis by (simp add: l)
  next
    case False
    have "take (length (c # w)) (drop i t) \<noteq> c # w"
    proof
      assume h: "take (length (c # w)) (drop i t) = c # w"
      then have "drop i t \<noteq> []" by auto
      with h False show False
        by (metis Cons_nth_drop_Suc drop_eq_Nil2 list.inject not_le_imp_less take_Suc_Cons length_Cons)
    qed
    with False show ?thesis by (auto simp: l)
  qed
qed


subsection \<open>Submatches\<close>

text \<open>
  A pattern whose groups lie side by side is a list of parts; a path lists the position before each
  part and the one after the last. The first path is the one the search takes, so group \<open>k\<close> of a
  match is the text between its \<open>k\<close>-th position and the next.
\<close>

primrec seq_paths :: "regexp list \<Rightarrow> runes \<Rightarrow> nat \<Rightarrow> nat list list" where
  "seq_paths [] t i = [[i]]"
| "seq_paths (r # rs) t i = concat (map (\<lambda>j. map ((#) i) (seq_paths rs t j)) (ends r t i))"

definition group_text :: "nat \<Rightarrow> nat list \<Rightarrow> runes \<Rightarrow> runes" where
  "group_text k path t = segment (path ! k) (path ! Suc k) t"

definition find_submatch :: "regexp list \<Rightarrow> runes \<Rightarrow> nat list option" where
  "find_submatch rs t = map_option (\<lambda>(a, b). hd (seq_paths rs t a)) (find_match (cats rs) t 0)"

definition find_all_submatch :: "regexp list \<Rightarrow> runes \<Rightarrow> nat list list" where
  "find_all_submatch rs t = map (\<lambda>(a, b). hd (seq_paths rs t a)) (find_all (cats rs) t 0 None)"

lemma seq_paths_nonempty: "p \<in> set (seq_paths rs t i) \<Longrightarrow> p \<noteq> [] \<and> hd p = i \<and> length p = Suc (length rs)"
  by (induction rs arbitrary: i p) auto

lemma seq_paths_ends: "map last (seq_paths rs t i) = ends (cats rs) t i"
proof (induction rs arbitrary: i)
  case (Cons r rs)
  have "map last (map ((#) i) (seq_paths rs t j)) = ends (cats rs) t j" for j
    using Cons.IH [of j] seq_paths_nonempty by (auto simp: comp_def cong: map_cong)
  then show ?case by (simp add: map_concat comp_def)
qed simp

lemma seq_paths_sorted: "p \<in> set (seq_paths rs t i) \<Longrightarrow> i \<le> length t \<Longrightarrow> sorted p \<and> last p \<le> length t"
proof (induction rs arbitrary: i p)
  case (Cons r rs)
  then obtain j q where j: "j \<in> set (ends r t i)" and q: "q \<in> set (seq_paths rs t j)" "p = i # q" by auto
  from ends_bounds [OF j Cons.prems(2)] have ij: "i \<le> j" "j \<le> length t" by auto
  from Cons.IH [OF q(1) ij(2)] have s: "sorted q" "last q \<le> length t" by auto
  from seq_paths_nonempty [OF q(1)] have n: "q \<noteq> []" "hd q = j" by auto
  then obtain q' where q': "q = j # q'" by (cases q) auto
  with s q(2) ij(1) show ?case by (auto intro: order_trans)
qed simp

lemma find_match_path:
  assumes "find_match (cats rs) t i = Some (a, b)" "i \<le> length t"
  shows "hd (seq_paths rs t a) \<in> set (seq_paths rs t a) \<and> a \<le> length t"
proof -
  have "b \<in> set (ends (cats rs) t a)" using find_match_ends [OF assms(1)] .
  then have "seq_paths rs t a \<noteq> []" by (auto simp flip: seq_paths_ends)
  with find_matchD [OF assms] show ?thesis by simp
qed

lemma find_submatchD:
  assumes "find_submatch rs t = Some p"
  shows "length p = Suc (length rs)" "sorted p" "last p \<le> length t"
proof -
  from assms obtain a b where m: "find_match (cats rs) t 0 = Some (a, b)" "p = hd (seq_paths rs t a)"
    by (auto simp: find_submatch_def)
  from find_match_path [OF m(1)] m(2) have "p \<in> set (seq_paths rs t a)" "a \<le> length t" by auto
  from seq_paths_nonempty [OF this(1)] seq_paths_sorted [OF this]
  show "length p = Suc (length rs)" "sorted p" "last p \<le> length t" by auto
qed

lemma seq_paths_step: "p \<in> set (seq_paths rs t i) \<Longrightarrow> k < length rs \<Longrightarrow> p ! Suc k \<in> set (ends (rs ! k) t (p ! k))"
proof (induction rs arbitrary: i p k)
  case (Cons r rs)
  then obtain j q where j: "j \<in> set (ends r t i)" and q: "q \<in> set (seq_paths rs t j)" "p = i # q" by auto
  from seq_paths_nonempty [OF q(1)] have "q ! 0 = j" by (simp flip: hd_conv_nth)
  with j q Cons.IH [OF q(1)] Cons.prems(2) show ?case by (cases k) auto
qed simp

lemma seq_paths_of_end: "b \<in> set (ends (cats rs) t a) \<Longrightarrow> \<exists>p \<in> set (seq_paths rs t a). last p = b"
  by (auto simp flip: seq_paths_ends)

text \<open>The path of a match among all: a sorted list of positions of the text, one step per part.\<close>

lemma find_all_submatchD:
  assumes "m \<in> set (find_all_submatch rs t)"
  shows "m \<in> set (seq_paths rs t (m ! 0))" "length m = Suc (length rs)" "sorted m" "last m \<le> length t"
    "m ! 0 \<le> length t"
proof -
  from assms obtain a b where ab: "(a, b) \<in> set (find_all (cats rs) t 0 None)" "m = hd (seq_paths rs t a)"
    by (auto simp: find_all_submatch_def)
  from find_all_ends [OF ab(1)] have e: "b \<in> set (ends (cats rs) t a)" "a \<le> length t" by auto
  from seq_paths_of_end [OF e(1)] have "seq_paths rs t a \<noteq> []" by auto
  with ab(2) have m: "m \<in> set (seq_paths rs t a)" by simp
  from seq_paths_nonempty [OF m] have "m ! 0 = a" by (simp flip: hd_conv_nth)
  with m seq_paths_nonempty [OF m] seq_paths_sorted [OF m e(2)] e(2)
  show "m \<in> set (seq_paths rs t (m ! 0))" "length m = Suc (length rs)" "sorted m" "last m \<le> length t"
    "m ! 0 \<le> length t" by auto
qed

text \<open>A match ends before a later one begins.\<close>

lemma find_all_submatch_span:
  assumes "m \<in> set (find_all_submatch rs t)"
  shows "(m ! 0, last m) \<in> set (find_all (cats rs) t 0 None)"
proof -
  from assms obtain a b where ab: "(a, b) \<in> set (find_all (cats rs) t 0 None)" "m = hd (seq_paths rs t a)"
    by (auto simp: find_all_submatch_def)
  from find_all_first [OF ab(1)] obtain js where e: "ends (cats rs) t a = b # js" by blast
  with seq_paths_ends [of rs t a] have ne: "seq_paths rs t a \<noteq> []" and l: "last (hd (seq_paths rs t a)) = b"
    by (auto simp: map_eq_Cons_conv)
  from seq_paths_nonempty [of "hd (seq_paths rs t a)" rs t a] ne ab(2) have "m ! 0 = a" by (simp flip: hd_conv_nth)
  with ab l show ?thesis by simp
qed

lemma find_all_submatch_apart:
  assumes "m \<in> set (find_all_submatch rs t)" "m' \<in> set (find_all_submatch rs t)" "m ! 0 < m' ! 0"
  shows "last m \<le> m' ! 0"
  using spans_from_apart [OF find_all_spans find_all_submatch_span [OF assms(1)] find_all_submatch_span [OF assms(2)]] assms(3)
  by simp

lemma rep1_progress: "j \<in> set (ends (rep1 (Rune_In p)) t i) \<Longrightarrow> i < j \<and> i < length t"
  by (auto simp: rep1_def dest: star_ends_bounds split: if_splits)

text \<open>When every match has a rune, the starts of the matches rise strictly.\<close>

lemma spans_from_starts:
  "spans_from lo n ss \<Longrightarrow> (\<forall>s \<in> set ss. fst s < snd s) \<Longrightarrow>
     sorted_wrt (<) (map fst ss) \<and> (\<forall>s \<in> set ss. lo \<le> fst s)"
proof (induction ss arbitrary: lo)
  case (Cons s ss)
  then have "sorted_wrt (<) (map fst ss)" "\<forall>u \<in> set ss. snd s \<le> fst u" "fst s < snd s" "lo \<le> fst s"
    by (cases s; auto)+
  then show ?case by (auto intro: order_trans less_le_trans)
qed simp

lemma find_all_submatch_starts:
  assumes "\<And>p i. p \<in> set (seq_paths rs t i) \<Longrightarrow> i \<le> length t \<Longrightarrow> i < last p"
  shows "sorted_wrt (<) (map (\<lambda>m. m ! 0) (find_all_submatch rs t))"
proof -
  have ne: "a < b \<and> hd (seq_paths rs t a) ! 0 = a" if "(a, b) \<in> set (find_all (cats rs) t 0 None)" for a b
  proof -
    from find_all_ends [OF that] seq_paths_of_end obtain p where p: "p \<in> set (seq_paths rs t a)" "last p = b" by blast
    then have "hd (seq_paths rs t a) \<in> set (seq_paths rs t a)" by (cases "seq_paths rs t a") auto
    from seq_paths_nonempty [OF this] assms [OF p(1)] find_all_ends [OF that] p(2) show ?thesis by (simp flip: hd_conv_nth)
  qed
  from find_all_spans [of 0 t "cats rs" None] ne
  have "sorted_wrt (<) (map fst (find_all (cats rs) t 0 None))" by (auto dest!: spans_from_starts)
  moreover have "map (\<lambda>m. m ! 0) (find_all_submatch rs t) = map fst (find_all (cats rs) t 0 None)"
    using ne by (auto simp: find_all_submatch_def)
  ultimately show ?thesis by simp
qed

subsection \<open>Running a pattern\<close>

text \<open>
  Facts with which the simplifier runs a pattern on a concrete text: the recursive equations only at
  numbers, so that nothing is unfolded under a binder.
\<close>

lemma upto_ends_numeral: "upto_ends step (numeral k) i = concat (map (upto_ends step (pred_numeral k)) (step i)) @ [i]"
  by (simp add: numeral_eq_Suc)

lemma replicate_at_numeral: "replicate (numeral k) x = x # replicate (pred_numeral k) x"
  by (simp add: numeral_eq_Suc)

lemma Suc_Suc_0: "Suc (Suc 0) = 2"
  by simp

lemmas run_regexp =
  rep1_def one_of_def none_of_def optional_def lit_def word_rune_def white_def ascii_def
  upto_ends_numeral replicate_at_numeral Suc_Suc_0
  star_ends.simps [of _ _ _ "numeral k" for k] star_ends.simps [of _ _ _ 0] star_ends.simps [of _ _ _ "Suc 0"]

lemmas run_search =
  match_string_def replace_all_string_def segment_def trim_runes_def trim_right_runes_def is_space_def
  find_match.simps [of _ _ "numeral k" for k] find_match.simps [of _ _ 0] find_match.simps [of _ _ "Suc 0"]
  find_all.simps [of _ _ "numeral k" for k] find_all.simps [of _ _ 0] find_all.simps [of _ _ "Suc 0"]

end
