(* ===== verification/Chunk_Units.thy ===== *)
theory Chunk_Units
  imports Go_Regexp
begin

text \<open>
  The first half of \<^verbatim>\<open>chunker/splitter.go\<close>: the protected spans of a text (formulas, links,
  table rows, code), the recursive split at separators, and the units the text is cut into before
  they are merged into chunks. Spans are byte offsets, units carry rune offsets, as in the code.

  The lemmas show that the protected spans are disjoint, ordered and inside the text, that every
  raw match is kept or overlaps one that is, that the conversion of spans to runes undoes the byte
  offsets, and that the units partition the text: in order, without gap, overlap or empty unit.
\<close>

section \<open>Protected spans\<close>

definition protected_patterns :: "regexp list" where
  "protected_patterns =
     (let row = Cat (Star True (one_of [blank])) (Cat (rep1 (Cat (one_of (ascii ''|'')) (Star True (none_of (ascii ''|'' @ [nl])))))
                  (Cat (one_of (ascii ''|'')) (rep1 (one_of [cr, nl]))));
          in_brackets = none_of (ascii '']'' @ [nl]);
          in_parens = none_of (ascii '')'' @ [nl]);
          destination = Cat (lit (ascii ''](''))
                          (Cat (Cat in_parens (Upto 499 in_parens)) (lit (ascii '')'')))
      in
      [cats [lit (ascii ''$$''), Star False any_rune, lit (ascii ''$$'')],
       cats [lit (ascii ''!''), lit (ascii ''[''), Upto 200 in_brackets, destination],
       cats [lit (ascii ''[''), in_brackets, Upto 199 in_brackets, destination],
       cats [row, whites,
             rep1 (cats [lit (ascii ''|''), whites, optional (lit (ascii '':'')), lit (ascii ''---''),
                         Star True (lit (ascii ''-'')), optional (lit (ascii '':'')), whites]),
             lit (ascii ''|''), rep1 (one_of [cr, nl])],
       row,
       cats [lit (ascii ''```''), optional (rep1 (Rune_In word_rune)), one_of [cr, nl],
             Star False any_rune, lit (ascii ''```'')],
       cats [lit (ascii ''`''), rep1 (none_of (ascii ''`'' @ [cr, nl])), lit (ascii ''`'')]])"

type_synonym span = "nat \<times> nat"  \<comment> \<open>start, end\<close>

text \<open>
  The insertion sort moves an element left past its predecessors while it belongs before them;
  the sorted prefix is kept here with its last element first.
\<close>

definition span_before :: "span \<Rightarrow> span \<Rightarrow> bool" where
  "span_before a b \<longleftrightarrow> fst a < fst b \<or> fst a = fst b \<and> snd a - fst a > snd b - fst b"

fun sift_left :: "span \<Rightarrow> span list \<Rightarrow> span list" where
  "sift_left x [] = [x]"
| "sift_left x (y # done_rev) = (if span_before x y then y # sift_left x done_rev else x # y # done_rev)"

definition sort_spans :: "span list \<Rightarrow> span list" where
  "sort_spans ss = rev (foldl (\<lambda>acc x. sift_left x acc) [] ss)"

fun remove_overlaps :: "nat \<Rightarrow> span list \<Rightarrow> span list" where
  "remove_overlaps last_end [] = []"
| "remove_overlaps last_end (m # ms) =
     (if last_end \<le> fst m then m # remove_overlaps (snd m) ms else remove_overlaps last_end ms)"

definition raw_matches :: "runes \<Rightarrow> span list" where
  "raw_matches t =
     concat (map (\<lambda>r. filter (\<lambda>loc. 0 < snd loc - fst loc) (find_all_index r t)) protected_patterns)"

definition protected_spans :: "runes \<Rightarrow> span list" where
  "protected_spans t = remove_overlaps 0 (sort_spans (raw_matches t))"

text \<open>\<open>scan_runes b\<close> is the inner loop of \<^verbatim>\<open>protectedSpansRune\<close>: read runes while \<open>byteIdx < b\<close>.\<close>

fun scan_runes :: "nat \<Rightarrow> runes \<times> nat \<times> nat \<Rightarrow> runes \<times> nat \<times> nat" where
  "scan_runes b ([], byte_idx, rune_idx) = ([], byte_idx, rune_idx)"
| "scan_runes b (r # t, byte_idx, rune_idx) =
     (if byte_idx < b then scan_runes b (t, byte_idx + rune_width r, Suc rune_idx)
      else (r # t, byte_idx, rune_idx))"

primrec spans_to_runes :: "runes \<times> nat \<times> nat \<Rightarrow> span list \<Rightarrow> span list" where
  "spans_to_runes st [] = []"
| "spans_to_runes st (s # ss) =
     (let st1 = scan_runes (fst s) st; st2 = scan_runes (snd s) st1
      in (snd (snd st1), snd (snd st2)) # spans_to_runes st2 ss)"

definition protected_spans_rune :: "runes \<Rightarrow> span list \<Rightarrow> span list" where
  "protected_spans_rune t spans = spans_to_runes (t, 0, 0) spans"

subsection \<open>What the protected spans are\<close>

text \<open>Rune spans from \<open>lo\<close> to \<open>n\<close> that are in order, disjoint and not empty.\<close>

primrec chain :: "nat \<Rightarrow> nat \<Rightarrow> span list \<Rightarrow> bool" where
  "chain lo n [] \<longleftrightarrow> lo \<le> n"
| "chain lo n (s # ss) \<longleftrightarrow> lo \<le> fst s \<and> fst s < snd s \<and> chain (snd s) n ss"

definition byte_span :: "runes \<Rightarrow> span \<Rightarrow> span" where
  "byte_span t s = (byte_off t (fst s), byte_off t (snd s))"

definition rune_span :: "runes \<Rightarrow> span \<Rightarrow> bool" where
  "rune_span t s \<longleftrightarrow> fst s < snd s \<and> snd s \<le> length t"

lemma find_all_index_boundaries:
  assumes "loc \<in> set (find_all_index r t)" "0 < snd loc - fst loc"
  shows "\<exists>s. rune_span t s \<and> loc = byte_span t s"
proof -
  from assms(1) obtain a b where ab: "(a, b) \<in> set (find_all r t 0 None)"
    and loc: "loc = (byte_off t a, byte_off t b)"
    by (auto simp: find_all_index_def)
  have sp: "a \<le> b" "b \<le> length t"
    using spans_fromD [OF find_all_spans ab] by auto
  with assms(2) loc have "a < b" by (cases "a = b") auto
  with sp loc show ?thesis
    by (intro exI [of _ "(a, b)"]) (simp add: rune_span_def byte_span_def)
qed

lemma raw_matches_boundaries:
  "m \<in> set (raw_matches t) \<Longrightarrow> \<exists>s. rune_span t s \<and> m = byte_span t s"
  unfolding raw_matches_def by (auto dest!: find_all_index_boundaries simp del: split_paired_Ex)

lemma set_sift_left [simp]: "set (sift_left x ys) = insert x (set ys)"
  by (induction ys) auto

lemma set_sort_spans [simp]: "set (sort_spans ss) = set ss"
proof -
  have "set (foldl (\<lambda>acc x. sift_left x acc) acc ss) = set acc \<union> set ss" for acc
    by (induction ss arbitrary: acc) auto
  then show ?thesis by (simp add: sort_spans_def)
qed

abbreviation by_start :: "span list \<Rightarrow> bool" where
  "by_start ss \<equiv> sorted (map fst ss)"

lemma sorted_sift_left: "sorted (rev (map fst ys)) \<Longrightarrow> sorted (rev (map fst (sift_left x ys)))"
  by (induction ys) (auto simp: sorted_append span_before_def)

lemma sorted_sort_spans: "by_start (sort_spans ss)"
proof -
  have "sorted (rev (map fst acc)) \<Longrightarrow> sorted (rev (map fst (foldl (\<lambda>acc x. sift_left x acc) acc ss)))" for acc
    by (induction ss arbitrary: acc) (auto simp: sorted_sift_left)
  then show ?thesis by (simp add: sort_spans_def rev_map)
qed

lemma remove_overlaps_subset: "set (remove_overlaps e ss) \<subseteq> set ss"
proof (induction ss arbitrary: e)
  case (Cons s ss)
  then show ?case by (cases "e \<le> fst s") (simp_all add: subset_insertI2)
qed simp

lemma chain_le: "chain lo n rs \<Longrightarrow> lo \<le> n"
  by (induction rs arbitrary: lo) force+

lemma chain_member: "chain lo n rs \<Longrightarrow> r \<in> set rs \<Longrightarrow> fst r < snd r \<and> snd r \<le> n"
  by (induction rs arbitrary: lo) (auto dest: chain_le)

lemma byte_span_simps [simp]: "fst (byte_span t s) = byte_off t (fst s)" "snd (byte_span t s) = byte_off t (snd s)"
  by (simp_all add: byte_span_def)

lemma remove_overlaps_chain:
  assumes "\<forall>s \<in> set ss. rune_span t s" "lo \<le> length t"
  shows "\<exists>rs. chain lo (length t) rs \<and> remove_overlaps (byte_off t lo) (map (byte_span t) ss) = map (byte_span t) rs"
  using assms
proof (induction ss arbitrary: lo)
  case Nil
  then show ?case by (intro exI [of _ "[]"]) simp
next
  case (Cons s ss)
  from Cons.prems have s: "fst s < snd s" "snd s \<le> length t" by (auto simp: rune_span_def)
  show ?case
  proof (cases "byte_off t lo \<le> byte_off t (fst s)")
    case True
    with s Cons.prems(2) have lo: "lo \<le> fst s" by (simp add: byte_off_le_iff)
    from Cons.IH [of "snd s"] Cons.prems(1) s(2) obtain rs where
      "chain (snd s) (length t) rs"
      "remove_overlaps (byte_off t (snd s)) (map (byte_span t) ss) = map (byte_span t) rs"
      by auto
    with True lo s(1) show ?thesis
      by (intro exI [of _ "s # rs"]) simp
  next
    case False
    with Cons.IH [of lo] Cons.prems show ?thesis by simp
  qed
qed

lemma byte_spans_ex:
  assumes "\<forall>m \<in> set ms. \<exists>s. rune_span t s \<and> m = byte_span t s"
  shows "\<exists>ss. (\<forall>s \<in> set ss. rune_span t s) \<and> ms = map (byte_span t) ss"
  using assms
proof (induction ms)
  case (Cons m ms)
  then obtain s ss where "rune_span t s" "m = byte_span t s" "\<forall>s \<in> set ss. rune_span t s"
    "ms = map (byte_span t) ss" by auto
  then show ?case by (intro exI [of _ "s # ss"]) simp
qed simp

lemma protected_spans_chain:
  obtains rs where "chain 0 (length t) rs" "protected_spans t = map (byte_span t) rs"
proof -
  have "\<forall>m \<in> set (sort_spans (raw_matches t)). \<exists>s. rune_span t s \<and> m = byte_span t s"
    using raw_matches_boundaries by simp
  from byte_spans_ex [OF this] obtain ss where ss: "\<forall>s \<in> set ss. rune_span t s"
    "sort_spans (raw_matches t) = map (byte_span t) ss" by blast
  from remove_overlaps_chain [OF ss(1), of 0] ss(2) that show ?thesis
    by (auto simp: protected_spans_def)
qed

text \<open>A raw match that is dropped overlaps a kept span that starts no later.\<close>

lemma remove_overlaps_covers:
  assumes "by_start ss" "\<forall>s \<in> set ss. fst s < snd s" "m \<in> set ss"
  shows "fst m < e \<or> (\<exists>k \<in> set (remove_overlaps e ss). fst k \<le> fst m \<and> fst m < snd k)"
  using assms
proof (induction ss arbitrary: e)
  case (Cons s ss)
  show ?case
  proof (cases "m = s")
    case True
    with Cons.prems(2) show ?thesis by auto
  next
    case False
    with Cons.prems have m: "m \<in> set ss" "fst s \<le> fst m" by auto
    with Cons.IH [of "if e \<le> fst s then snd s else e"] Cons.prems show ?thesis
      by (auto split: if_splits)
  qed
qed simp

lemma protected_spans_maximal:
  assumes "m \<in> set (raw_matches t)"
  shows "\<exists>k \<in> set (protected_spans t). fst k \<le> fst m \<and> fst m < snd k"
proof -
  have "\<forall>s \<in> set (sort_spans (raw_matches t)). fst s < snd s"
    by (auto simp: raw_matches_def)
  from remove_overlaps_covers [OF sorted_sort_spans this, of m 0] assms
  show ?thesis by (simp add: protected_spans_def)
qed

lemma scan_runes_off:
  assumes "i \<le> j" "j \<le> length t"
  shows "scan_runes (byte_off t j) (drop i t, byte_off t i, i) = (drop j t, byte_off t j, j)"
  using assms
proof (induction "j - i" arbitrary: i)
  case 0
  then have "i = j" by simp
  then show ?case by (cases "drop j t") auto
next
  case (Suc k)
  then have ij: "i < j" "i < length t" by auto
  then have d: "drop i t = t ! i # drop (Suc i) t" by (metis Cons_nth_drop_Suc)
  have "byte_off t (Suc i) = byte_off t i + rune_width (t ! i)"
    using ij(2) by (simp add: byte_off_def take_Suc_conv_app_nth)
  moreover have "byte_off t i < byte_off t j" using ij Suc.prems by (simp add: byte_off_strict)
  moreover have "k = j - Suc i" using Suc.hyps(2) by simp
  ultimately show ?case using d Suc.hyps(1) [of "Suc i"] ij Suc.prems by simp
qed

lemma spans_to_runes_chain:
  "chain lo (length t) rs \<Longrightarrow> spans_to_runes (drop lo t, byte_off t lo, lo) (map (byte_span t) rs) = rs"
proof (induction rs arbitrary: lo)
  case (Cons s rs)
  then have "snd s \<le> length t" by (auto dest: chain_le)
  with Cons show ?case by (simp add: Let_def scan_runes_off)
qed simp


section \<open>Splitting at separators\<close>

text \<open>
  \<^verbatim>\<open>splitBySeparators\<close>: the first separator that occurs cuts the text, and pieces that are still
  longer than \<open>chunk_size\<close> are cut at the separators after it. \<open>interleave\<close> is the loop that puts
  the pieces and the separators between them back in order and drops empty ones;
  \<open>split_loop\<close> is the loop over the separators.
\<close>

fun interleave :: "runes list \<Rightarrow> runes list \<Rightarrow> runes list" where
  "interleave [] ms = []"
| "interleave (s # ss) ms =
     (if s \<noteq> [] then [s] else []) @
     (case ms of [] \<Rightarrow> interleave ss [] | m # ms' \<Rightarrow> (if m \<noteq> [] then [m] else []) @ interleave ss ms')"

definition separator_pieces :: "runes \<Rightarrow> runes \<Rightarrow> runes list" where
  "separator_pieces sep t = interleave (re_split (lit sep) t) (find_all_string (lit sep) t)"

function (sequential)
  split_by_separators :: "runes \<Rightarrow> runes list \<Rightarrow> int \<Rightarrow> runes list" and
  split_loop :: "runes \<Rightarrow> runes list \<Rightarrow> int \<Rightarrow> runes list" where
  "split_by_separators t seps budget =
     (if t = [] \<or> seps = [] then [t]
      else if 0 < budget \<and> int (length t) \<le> budget then [t]
      else split_loop t seps budget)"
| "split_loop t [] budget = [t]"
| "split_loop t (sep # remaining) budget =
     (if sep = [] then split_loop t remaining budget
      else if find_all_string (lit sep) t = [] then split_loop t remaining budget
      else let pieces = separator_pieces sep t in
        if length pieces \<le> 1 then split_loop t remaining budget
        else concat (map (\<lambda>p. if 0 < budget \<and> int (length p) > budget \<and> remaining \<noteq> []
                              then split_by_separators p remaining budget else [p]) pieces))"
  by pat_completeness auto
termination
  by (relation "measure (\<lambda>x. case x of Inl (t, seps, n) \<Rightarrow> 2 * length seps + 1 | Inr (t, seps, n) \<Rightarrow> 2 * length seps)")
    auto

declare split_by_separators.simps [simp del] split_loop.simps [simp del]

lemma find_all_string_spans:
  "find_all_string r t = map (\<lambda>(a, b). segment a b t) (find_all r t 0 None)"
  by (simp add: find_all_string_def)

lemma interleave_spans:
  assumes "spans_from from (length t) ss" "\<forall>s \<in> set ss. fst s < snd s" "start < length t \<or> ss = [] \<and> from = length t"
  shows "concat (interleave (split_spans t from start ss) (map (\<lambda>(a, b). segment a b t) ss)) = drop from t"
  using assms
proof (induction ss arbitrary: "from" start)
  case (Cons s ss)
  obtain a b where s: "s = (a, b)" by (cases s)
  with Cons.prems have ab: "from \<le> a" "a < b" "spans_from b (length t) ss" by auto
  then have b: "b \<le> length t" by (auto dest: spans_from_le)
  from Cons.IH [OF ab(3), of a] Cons.prems(2) ab(2) b
  have IH: "concat (interleave (split_spans t b a ss) (map (\<lambda>(a, b). segment a b t) ss)) = drop b t"
    by auto
  have "drop from t = segment from a t @ segment a b t @ drop b t"
    using ab(1,2) b by (simp add: segment_to_drop)
  with IH ab(2) s show ?case by auto
qed auto

lemma interleave_nonempty: "[] \<notin> set (interleave ss ms)"
  by (induction ss ms rule: interleave.induct) (auto split: list.splits)

text \<open>A separator is never empty, so its matches are not.\<close>

lemma lit_match_nonempty:
  assumes "sep \<noteq> []" "s \<in> set (find_all (lit sep) t 0 None)"
  shows "fst s < snd s"
proof -
  obtain a b where s: "s = (a, b)" by (cases s)
  from find_all_ends assms(2) s have "b \<in> set (ends (lit sep) t a)" "a \<le> length t" by auto
  with assms(1) s show ?thesis by (auto simp: lit_ends split: if_splits)
qed

lemma separator_pieces_concat:
  assumes "sep \<noteq> []" "t \<noteq> []"
  shows "concat (separator_pieces sep t) = t"
proof -
  have "concat (interleave (split_spans t 0 0 (find_all (lit sep) t 0 None))
      (map (\<lambda>(a, b). segment a b t) (find_all (lit sep) t 0 None))) = drop 0 t"
    by (rule interleave_spans) (use find_all_spans lit_match_nonempty assms in auto)
  with assms show ?thesis
    by (simp add: separator_pieces_def re_split_def find_all_string_spans)
qed

lemma separator_pieces_nonempty: "[] \<notin> set (separator_pieces sep t)"
  by (simp add: separator_pieces_def interleave_nonempty)

text \<open>What every splitter of a text promises: the pieces are not empty and make up the text.\<close>

definition partitions :: "runes list \<Rightarrow> runes \<Rightarrow> bool" where
  "partitions ps t \<longleftrightarrow> concat ps = t \<and> [] \<notin> set ps"

lemma partitions_single: "t \<noteq> [] \<Longrightarrow> partitions [t] t"
  by (simp add: partitions_def)

lemma partitions_concat:
  assumes "partitions ps t" "\<And>p. p \<in> set ps \<Longrightarrow> p \<noteq> [] \<Longrightarrow> partitions (f p) p"
  shows "partitions (concat (map f ps)) t"
proof -
  have "concat (concat (map f ps)) = concat ps"
    using assms by (induction ps arbitrary: t) (auto simp: partitions_def)
  with assms show ?thesis by (auto simp: partitions_def)
qed

lemma split_partitions:
  "t \<noteq> [] \<Longrightarrow> partitions (split_by_separators t seps budget) t"
  "t \<noteq> [] \<Longrightarrow> partitions (split_loop t seps budget) t"
proof (induction t seps budget and t seps budget rule: split_by_separators_split_loop.induct)
  case (1 t seps budget)
  then show ?case by (auto simp: split_by_separators.simps [of t] partitions_single)
next
  case (2 t budget)
  then show ?case by (simp add: split_loop.simps partitions_single)
next
  case (3 t sep remaining budget)
  let ?ps = "separator_pieces sep t"
  show ?case
  proof (cases "sep = [] \<or> find_all_string (lit sep) t = [] \<or> length ?ps \<le> 1")
    case True
    with 3 show ?thesis by (auto simp: split_loop.simps Let_def)
  next
    case False
    then have "partitions ?ps t"
      using 3 separator_pieces_concat separator_pieces_nonempty by (simp add: partitions_def)
    then have "partitions (concat (map (\<lambda>p. if 0 < budget \<and> int (length p) > budget \<and> remaining \<noteq> []
        then split_by_separators p remaining budget else [p]) ?ps)) t"
      by (rule partitions_concat) (use 3 False in \<open>auto simp: partitions_single\<close>)
    with False show ?thesis by (simp add: split_loop.simps Let_def)
  qed
qed


section \<open>Units\<close>

record split_unit =
  su_text :: runes
  su_start :: nat
  su_end :: nat

definition mk_unit :: "runes \<Rightarrow> nat \<Rightarrow> split_unit" where
  "mk_unit t off = \<lparr>su_text = t, su_start = off, su_end = off + length t\<rparr>"

primrec lay_out :: "nat \<Rightarrow> runes list \<Rightarrow> split_unit list" where
  "lay_out off [] = []"
| "lay_out off (p # ps) = mk_unit p off # lay_out (off + length p) ps"

text \<open>
  The forced split of a piece longer than 7500 runes (\<^verbatim>\<open>maxProtectedSize\<close> here,
  \<^verbatim>\<open>absoluteMaxSize\<close> in \<^verbatim>\<open>mergeUnits\<close>): cut after the last newline or space among the
  final 200 runes of the window, or at its end.
\<close>

definition max_piece :: nat where
  "max_piece = 7500"

fun back_search :: "runes \<Rightarrow> nat \<Rightarrow> nat \<Rightarrow> nat \<Rightarrow> nat" where
  "back_search rs off e i =
     (if off < i \<and> e - 200 < i then
        if rs ! i = nl \<or> rs ! i = blank then Suc i else back_search rs off e (i - 1)
      else e)"

declare back_search.simps [simp del]

definition forced_end :: "runes \<Rightarrow> nat \<Rightarrow> nat" where
  "forced_end rs off =
     (let e = off + max_piece in if length rs < e then length rs else back_search rs off e (e - 1))"

lemma back_search_bounds: "i < e \<Longrightarrow> off < e \<Longrightarrow> off < back_search rs off e i \<and> back_search rs off e i \<le> e"
proof (induction rs off e i rule: back_search.induct)
  case (1 rs off e i)
  then show ?case by (auto simp: back_search.simps [of rs off e i])
qed

lemma forced_end_bounds: "off < length rs \<Longrightarrow> off < forced_end rs off \<and> forced_end rs off \<le> length rs"
  using back_search_bounds [of "off + max_piece - 1" "off + max_piece" off rs]
  by (auto simp: forced_end_def Let_def max_piece_def)

lemma forced_end_max: "off < length rs \<Longrightarrow> forced_end rs off \<le> off + max_piece"
  using back_search_bounds [of "off + max_piece - 1" "off + max_piece" off rs]
  by (auto simp: forced_end_def Let_def max_piece_def)

function forced_spans :: "runes \<Rightarrow> nat \<Rightarrow> span list" where
  "forced_spans rs off =
     (if off < length rs then (off, forced_end rs off) # forced_spans rs (forced_end rs off) else [])"
  by pat_completeness auto
termination
  using forced_end_bounds by (relation "measure (\<lambda>(rs, off). length rs - off)") (auto simp: diff_less_mono2)

declare forced_spans.simps [simp del]

definition protected_units :: "nat \<Rightarrow> runes \<Rightarrow> split_unit list" where
  "protected_units rune_pos prot =
     (if max_piece < length prot
      then map (\<lambda>(a, b). \<lparr>su_text = segment a b prot, su_start = rune_pos + a, su_end = rune_pos + a + (b - a)\<rparr>)
             (forced_spans prot 0)
      else [mk_unit prot rune_pos])"

fun units_loop :: "runes \<Rightarrow> runes list \<Rightarrow> int \<Rightarrow> nat \<Rightarrow> nat \<Rightarrow> span list \<Rightarrow> split_unit list" where
  "units_loop t seps budget byte_pos rune_pos [] =
     (if byte_pos < byte_len t
      then lay_out rune_pos (split_by_separators (byte_drop byte_pos t) seps budget)
      else [])"
| "units_loop t seps budget byte_pos rune_pos (p # ps) =
     (let before = (if byte_pos < fst p then byte_slice byte_pos (fst p) t else []);
          pre_units = (if byte_pos < fst p then lay_out rune_pos (split_by_separators before seps budget) else []);
          rune_pos1 = rune_pos + length before;
          prot = byte_slice (fst p) (snd p) t
      in pre_units @ protected_units rune_pos1 prot @
         units_loop t seps budget (snd p) (rune_pos1 + length prot) ps)"

definition build_units_with_protection :: "runes \<Rightarrow> span list \<Rightarrow> runes list \<Rightarrow> int \<Rightarrow> split_unit list" where
  "build_units_with_protection t protected seps budget = units_loop t seps budget 0 0 protected"

subsection \<open>The units partition the text\<close>

text \<open>Units from rune \<open>lo\<close> to rune \<open>hi\<close> of the text: each holds the runes of its range.\<close>

definition source_unit :: "runes \<Rightarrow> split_unit \<Rightarrow> bool" where
  "source_unit t x \<longleftrightarrow> su_start x < su_end x \<and> su_end x \<le> length t \<and> su_text x = segment (su_start x) (su_end x) t"

primrec tiles :: "runes \<Rightarrow> nat \<Rightarrow> nat \<Rightarrow> split_unit list \<Rightarrow> bool" where
  "tiles t lo hi [] \<longleftrightarrow> lo = hi"
| "tiles t lo hi (x # xs) \<longleftrightarrow> su_start x = lo \<and> source_unit t x \<and> tiles t (su_end x) hi xs"

lemma tiles_append: "tiles t lo hi (xs @ ys) \<longleftrightarrow> (\<exists>m. tiles t lo m xs \<and> tiles t m hi ys)"
  by (induction xs arbitrary: lo) auto

lemma tiles_le: "tiles t lo hi xs \<Longrightarrow> lo \<le> hi"
  by (induction xs arbitrary: lo) (force simp: source_unit_def)+

lemma tiles_last: "tiles t lo hi xs \<Longrightarrow> xs \<noteq> [] \<Longrightarrow> su_end (last xs) = hi"
  by (induction xs arbitrary: lo) auto

lemma tiles_text: "tiles t lo hi xs \<Longrightarrow> concat (map su_text xs) = segment lo hi t"
proof (induction xs arbitrary: lo)
  case (Cons x xs)
  then show ?case
    using tiles_le [of t "su_end x" hi xs] by (auto simp: source_unit_def segment_append)
qed simp

lemma lay_out_tiles:
  assumes "partitions ps (segment lo hi t)" "lo \<le> hi" "hi \<le> length t"
  shows "tiles t lo hi (lay_out lo ps)"
  using assms
proof (induction ps arbitrary: lo)
  case Nil
  then have "length (segment lo hi t) = 0" by (simp add: partitions_def)
  with Nil show ?case by simp
next
  case (Cons p ps)
  let ?m = "lo + length p"
  from Cons.prems(1) have p: "p @ concat ps = segment lo hi t" "p \<noteq> []" "[] \<notin> set ps"
    by (auto simp: partitions_def)
  then have "length p + length (concat ps) = hi - lo"
    using Cons.prems(2,3) by (metis length_append segment_length)
  then have m: "?m \<le> hi" using Cons.prems(2) by linarith
  then have "segment lo hi t = segment lo ?m t @ segment ?m hi t" by (simp add: segment_append)
  with p(1) have eq: "p = segment lo ?m t" "concat ps = segment ?m hi t"
    using m Cons.prems(3) by (simp_all add: append_eq_append_conv)
  with p(3) Cons.IH [of ?m] m Cons.prems(3) have "tiles t ?m hi (lay_out ?m ps)"
    by (simp add: partitions_def)
  with eq(1) p(2) m Cons.prems(3) show ?case
    by (simp add: mk_unit_def source_unit_def)
qed

lemma forced_spans_tile:
  assumes "off \<le> length (segment lo hi t)" "lo \<le> hi" "hi \<le> length t"
  shows "tiles t (lo + off) hi
    (map (\<lambda>(a, b). \<lparr>su_text = segment a b (segment lo hi t), su_start = lo + a, su_end = lo + a + (b - a)\<rparr>)
       (forced_spans (segment lo hi t) off))"
  using assms(1)
proof (induction "segment lo hi t" off rule: forced_spans.induct)
  case (1 off)
  show ?case
  proof (cases "off < length (segment lo hi t)")
    case False
    then have "forced_spans (segment lo hi t) off = []" by (subst forced_spans.simps) simp
    with False 1(2) assms show ?thesis by simp
  next
    case True
    let ?e = "forced_end (segment lo hi t) off"
    from forced_end_bounds [OF True] have e: "off < ?e" "?e \<le> hi - lo" using assms by auto
    with 1(1) [OF True] assms have "tiles t (lo + ?e) hi
      (map (\<lambda>(a, b). \<lparr>su_text = segment a b (segment lo hi t), su_start = lo + a, su_end = lo + a + (b - a)\<rparr>)
       (forced_spans (segment lo hi t) ?e))" by simp
    with e assms show ?thesis
      by (simp add: forced_spans.simps [of _ off] True source_unit_def segment_segment)
  qed
qed

lemma protected_units_tile:
  assumes "lo < hi" "hi \<le> length t"
  shows "tiles t lo hi (protected_units lo (segment lo hi t))"
  using assms forced_spans_tile [of 0 lo hi t]
  by (simp add: protected_units_def mk_unit_def source_unit_def)

lemma split_segment_tiles:
  assumes "lo < hi" "hi \<le> length t"
  shows "tiles t lo hi (lay_out lo (split_by_separators (segment lo hi t) seps budget))"
proof -
  have "segment lo hi t \<noteq> []" using assms by (metis length_0_conv less_imp_le segment_length zero_less_diff less_irrefl)
  from split_partitions(1) [OF this] assms show ?thesis by (simp add: lay_out_tiles)
qed

lemma units_loop_tiles:
  assumes "chain lo (length t) rs"
  shows "tiles t lo (length t) (units_loop t seps budget (byte_off t lo) lo (map (byte_span t) rs))"
  using assms
proof (induction rs arbitrary: lo)
  case Nil
  then have lo: "lo \<le> length t" by simp
  have "byte_off t lo < byte_len t \<longleftrightarrow> lo < length t"
    using byte_off_less_iff [of lo t "length t"] lo by simp
  moreover have "drop lo t = segment lo (length t) t" by (simp add: segment_def)
  ultimately show ?case
    using split_segment_tiles [of lo "length t" t seps budget] lo by (auto simp: byte_drop_off)
next
  case (Cons s rs)
  obtain a b where s: "s = (a, b)" by (cases s)
  with Cons.prems have ab: "lo \<le> a" "a < b" "chain b (length t) rs" by auto
  then have b: "b \<le> length t" by (auto dest: chain_le)
  from Cons.IH [OF ab(3)] protected_units_tile [OF ab(2) b]
  have rest: "tiles t a (length t) (protected_units a (segment a b t) @
      units_loop t seps budget (byte_off t b) b (map (byte_span t) rs))"
    by (auto simp: tiles_append)
  have prot: "byte_slice (byte_off t a) (byte_off t b) t = segment a b t" "length (segment a b t) = b - a"
    using ab b by (simp_all add: byte_slice_off)
  show ?case
  proof (cases "lo < a")
    case True
    with ab b have "byte_off t lo < byte_off t a" by (simp add: byte_off_strict)
    moreover have "byte_slice (byte_off t lo) (byte_off t a) t = segment lo a t"
      using ab b by (simp add: byte_slice_off)
    moreover have "tiles t lo a (lay_out lo (split_by_separators (segment lo a t) seps budget))"
      using True ab b by (simp add: split_segment_tiles)
    ultimately show ?thesis
      using rest prot True ab b s by (auto simp: Let_def tiles_append)
  next
    case False
    with ab(1) have "lo = a" by simp
    with rest prot ab b s show ?thesis by (simp add: Let_def)
  qed
qed

lemma build_units_tile:
  "tiles t 0 (length t) (build_units_with_protection t (protected_spans t) seps budget)"
proof -
  obtain rs where rs: "chain 0 (length t) rs" "protected_spans t = map (byte_span t) rs"
    by (rule protected_spans_chain)
  from units_loop_tiles [OF rs(1), of seps budget] rs(2) show ?thesis
    by (simp add: build_units_with_protection_def)
qed

text \<open>A protected span of at most 7500 runes is a unit of its own.\<close>

lemma units_loop_protected:
  "chain lo (length t) rs \<Longrightarrow> s \<in> set rs \<Longrightarrow> snd s - fst s \<le> max_piece \<Longrightarrow>
     mk_unit (segment (fst s) (snd s) t) (fst s) \<in>
       set (units_loop t seps budget (byte_off t lo) lo (map (byte_span t) rs))"
proof (induction rs arbitrary: lo)
  case (Cons r rs)
  obtain a b where r: "r = (a, b)" by (cases r)
  with Cons.prems(1) have ab: "lo \<le> a" "a < b" "chain b (length t) rs" by auto
  then have b: "b \<le> length t" by (auto dest: chain_le)
  have prot: "byte_slice (byte_off t a) (byte_off t b) t = segment a b t" "length (segment a b t) = b - a"
    using ab b by (simp_all add: byte_slice_off)
  have before: "byte_off t lo < byte_off t a \<Longrightarrow> length (byte_slice (byte_off t lo) (byte_off t a) t) = a - lo"
    using ab b by (simp add: byte_slice_off)
  have "\<not> byte_off t lo < byte_off t a \<Longrightarrow> a = lo"
    using ab b byte_off_strict [of lo a t] by fastforce
  then have start: "lo + length (if byte_off t lo < byte_off t a then byte_slice (byte_off t lo) (byte_off t a) t else []) = a"
    using before ab(1) by auto
  have step: "units_loop t seps budget (byte_off t lo) lo (map (byte_span t) (r # rs)) =
    (if byte_off t lo < byte_off t a
     then lay_out lo (split_by_separators (if byte_off t lo < byte_off t a then byte_slice (byte_off t lo) (byte_off t a) t else []) seps budget)
     else []) @ protected_units a (segment a b t) @
    units_loop t seps budget (byte_off t b) (a + (b - a)) (map (byte_span t) rs)"
    using start prot
    by (simp only: units_loop.simps Let_def list.map byte_span_simps r fst_conv snd_conv)
  show ?case
  proof (cases "s = r")
    case True
    with r Cons.prems(3) prot have "mk_unit (segment a b t) a \<in> set (protected_units a (segment a b t))"
      by (simp add: protected_units_def)
    with True r show ?thesis unfolding step by simp
  next
    case False
    with Cons.prems Cons.IH [OF ab(3)] have
      "mk_unit (segment (fst s) (snd s) t) (fst s) \<in> set (units_loop t seps budget (byte_off t b) b (map (byte_span t) rs))"
      by simp
    moreover have "a + (b - a) = b" using ab(2) by simp
    ultimately show ?thesis unfolding step by simp
  qed
qed simp

section \<open>Properties\<close>

text \<open>
  \<^verbatim>\<open>protectedSpans\<close> returns disjoint, ordered, non-empty regions of the text (byte offsets of
  rune positions); \<^verbatim>\<open>protectedSpansRune\<close> turns exactly these offsets back into rune positions; and
  nothing a pattern matched is left unprotected by the removal of overlaps: where any raw match
  starts, a kept span covers it.
\<close>

lemma protected_spans_spec:
  "(\<exists>rs. chain 0 (length t) rs \<and> protected_spans t = map (byte_span t) rs \<and>
     protected_spans_rune t (protected_spans t) = rs) \<and>
   (\<forall>m \<in> set (raw_matches t). \<exists>k \<in> set (protected_spans t). fst k \<le> fst m \<and> fst m < snd k)"
proof -
  obtain rs where rs: "chain 0 (length t) rs" "protected_spans t = map (byte_span t) rs"
    by (rule protected_spans_chain)
  have "protected_spans_rune t (protected_spans t) = rs"
    using spans_to_runes_chain [OF rs(1)] rs(2) by (simp add: protected_spans_rune_def)
  with rs protected_spans_maximal show ?thesis by blast
qed

text \<open>
  \<^verbatim>\<open>buildUnitsWithProtection\<close> loses and adds nothing: the units cover the text from its first to
  its last rune, in order, without gap or overlap, each non-empty and holding exactly the runes of
  its range, for any separators and budget; and every protected region of at most 7500 runes is
  one unit, so no separator cuts a formula, link, table row or code span.
\<close>

lemma units_tile_and_protect:
  "tiles t 0 (length t) (build_units_with_protection t (protected_spans t) seps budget) \<and>
   (\<forall>s \<in> set (protected_spans t). length (byte_slice (fst s) (snd s) t) \<le> max_piece \<longrightarrow>
      byte_slice (fst s) (snd s) t \<in>
        su_text ` set (build_units_with_protection t (protected_spans t) seps budget))"
proof (intro conjI ballI impI)
  fix s assume s: "s \<in> set (protected_spans t)" "length (byte_slice (fst s) (snd s) t) \<le> max_piece"
  obtain rs where rs: "chain 0 (length t) rs" "protected_spans t = map (byte_span t) rs"
    by (rule protected_spans_chain)
  with s(1) obtain r where r: "r \<in> set rs" "s = byte_span t r" by auto
  from rs(1) r(1) have "fst r < snd r" "snd r \<le> length t" by (auto dest: chain_member)
  with r(2) s(2) have "byte_slice (fst s) (snd s) t = segment (fst r) (snd r) t" "snd r - fst r \<le> max_piece"
    by (simp_all add: byte_slice_off)
  with units_loop_protected [OF rs(1) r(1), of seps budget] rs(2)
  show "byte_slice (fst s) (snd s) t \<in> su_text ` set (build_units_with_protection t (protected_spans t) seps budget)"
    by (force simp: build_units_with_protection_def mk_unit_def)
qed (rule build_units_tile)

end
