(* ===== verification/Chunk_Headers.thy ===== *)
theory Chunk_Headers
  imports Chunk_Units "HOL-Library.AList"
begin

text \<open>
  \<^verbatim>\<open>chunker/header_tracker.go\<close>: the state that remembers the header of the Markdown table the
  splitter is in, one \<open>update\<close> per unit, and the text that is put in front of a chunk that
  continues the table. Go's maps are association lists with distinct keys; the code's result does
  not depend on their order (\<^verbatim>\<open>getHeaders\<close> sorts, and the loop over the pending headers touches
  one entry per key).
\<close>

section \<open>Hooks and patterns\<close>

record header_hook =
  hook_start :: regexp
  hook_end :: regexp
  hook_priority :: int

definition table_cells :: regexp where
  "table_cells = rep1 (Cat (lit (ascii ''|'')) (Star True (none_of (ascii ''|'' @ [nl]))))"

definition markdown_table_hook_priority :: int where
  "markdown_table_hook_priority = 15"

definition default_header_hooks :: "header_hook list" where
  "default_header_hooks =
     [\<lparr>hook_start =
         cats [Text_Begin, whites, table_cells, rep1 (one_of [cr, nl]), whites,
               rep1 (cats [lit (ascii ''|''), whites, optional (lit (ascii '':'')), lit (ascii ''---''),
                           Star True (lit (ascii ''-'')), optional (lit (ascii '':'')), whites]),
               optional (lit (ascii ''|'')), rep1 (one_of [cr, nl]), Text_End],
       hook_end =
         Alt (cats [Text_Begin, whites, Text_End])
             (cats [Text_Begin, whites, Rune_In (\<lambda>c. c \<noteq> 124 \<and> \<not> white c), Star True any_rune, Text_End]),
       hook_priority = 15\<rparr>]"

definition table_row_pattern :: regexp where
  "table_row_pattern = cats [Line_Begin, whites, table_cells, lit (ascii ''|''), whites, Line_End]"

section \<open>Rows and columns\<close>

text \<open>The loop \<^verbatim>\<open>for _, line := range lines { ...; return }\<close>: the first line that yields a result.\<close>

primrec first_some :: "('a \<Rightarrow> 'b option) \<Rightarrow> 'a list \<Rightarrow> 'b option" where
  "first_some f [] = None"
| "first_some f (x # xs) = (case f x of None \<Rightarrow> first_some f xs | Some y \<Rightarrow> Some y)"

definition only_pipes :: "runes \<Rightarrow> bool" where
  "only_pipes t \<longleftrightarrow> (\<forall>r \<in> set t. r = 124 \<or> r = blank \<or> r = tab)"

definition is_empty_table_header_row :: "runes \<Rightarrow> bool" where
  "is_empty_table_header_row header =
     (case index_of header [nl] of None \<Rightarrow> False | Some i \<Rightarrow> only_pipes (trim_runes (take i header)))"

definition extract_separator_line :: "runes \<Rightarrow> runes" where
  "extract_separator_line header =
     (case first_some (\<lambda>line. if contains_sub line (ascii ''---'') then Some (line @ [nl]) else None)
             (split_at nl header) of None \<Rightarrow> [] | Some l \<Rightarrow> l)"

definition split_ends_with_paragraph_break :: "runes \<Rightarrow> bool" where
  "split_ends_with_paragraph_break t =
     (let trimmed = trim_right_runes (\<lambda>r. r = blank \<or> r = tab \<or> r = cr) t
      in has_suffix trimmed [nl, nl] \<or> has_suffix trimmed [cr, nl, cr, nl])"

definition table_row_column_count :: "runes \<Rightarrow> nat" where
  "table_row_column_count line =
     (let line = trim_runes line in
      if \<not> has_prefix line [124] then 0
      else let parts = split_at 124 line;
               parts = (if parts \<noteq> [] \<and> trim_runes (hd parts) = [] then tl parts else parts);
               parts = (if parts \<noteq> [] \<and> trim_runes (last parts) = [] then butlast parts else parts)
           in length parts)"

definition first_table_row_column_count :: "runes \<Rightarrow> nat" where
  "first_table_row_column_count t =
     (case first_some (\<lambda>line. let line = trim_runes line in
             if line \<noteq> [] \<and> match_string table_row_pattern line then Some (table_row_column_count line) else None)
           (split_at nl t) of None \<Rightarrow> 0 | Some n \<Rightarrow> n)"

definition header_table_column_count :: "runes \<Rightarrow> nat" where
  "header_table_column_count header =
     (case first_some (\<lambda>line. let line = trim_runes line in
             if line = [] \<or> contains_sub line (ascii ''---'') then None
             else let n = table_row_column_count line in if 0 < n then Some n else None)
           (split_at nl header) of None \<Rightarrow> 0 | Some n \<Rightarrow> n)"

definition header_column_mismatch :: "runes \<Rightarrow> runes \<Rightarrow> bool" where
  "header_column_mismatch headers next_unit =
     (let header_cols = header_table_column_count headers;
          row_cols = first_table_row_column_count next_unit
      in 0 < header_cols \<and> 0 < row_cols \<and> header_cols \<noteq> row_cols)"

text \<open>From \<^verbatim>\<open>splitter.go\<close>: whether the column names are already in the new chunk.\<close>

definition header_column_row :: "runes \<Rightarrow> runes" where
  "header_column_row header =
     (case first_some (\<lambda>line. let line = trim_runes line in
             if line = [] \<or> contains_sub line (ascii ''---'') then None
             else if only_pipes line then None else Some line)
           (split_at nl header) of None \<Rightarrow> [] | Some l \<Rightarrow> l)"

definition header_already_present :: "runes \<Rightarrow> runes \<Rightarrow> runes \<Rightarrow> bool" where
  "header_already_present headers overlap_text unit_text =
     (if contains_sub overlap_text headers \<or> contains_sub unit_text headers then True
      else let col_row = header_column_row headers in
        if col_row = [] then False
        else contains_sub overlap_text col_row \<or> contains_sub unit_text col_row)"

section \<open>The tracker\<close>

record header_tracker =
  active_headers :: "(int \<times> runes) list"
  ended_headers :: "int set"
  pending_extend :: "int list"
  pending_table_break :: bool
  header_ended_this_unit :: bool

definition new_header_tracker :: header_tracker where
  "new_header_tracker =
     \<lparr>active_headers = [], ended_headers = {}, pending_extend = [], pending_table_break = False,
      header_ended_this_unit = False\<rparr>"

definition is_active :: "header_tracker \<Rightarrow> int \<Rightarrow> bool" where
  "is_active ht p \<longleftrightarrow> map_of (active_headers ht) p \<noteq> None"

text \<open>The three statements that end a header, for the priority \<open>p\<close>.\<close>

definition end_header :: "int \<Rightarrow> header_tracker \<Rightarrow> header_tracker" where
  "end_header p ht =
     ht\<lparr>ended_headers := insert p (ended_headers ht),
        active_headers := AList.delete p (active_headers ht),
        pending_extend := removeAll p (pending_extend ht)\<rparr>"

definition clear_table_header :: "header_tracker \<Rightarrow> header_tracker" where
  "clear_table_header = end_header markdown_table_hook_priority"

definition end_table_header_on_column_mismatch :: "runes \<Rightarrow> header_tracker \<Rightarrow> header_tracker" where
  "end_table_header_on_column_mismatch split_text ht =
     (case map_of (active_headers ht) markdown_table_hook_priority of
        None \<Rightarrow> ht
      | Some header \<Rightarrow>
          let row_cols = first_table_row_column_count split_text;
              header_cols = header_table_column_count header
          in if 0 < row_cols \<and> 0 < header_cols \<and> row_cols \<noteq> header_cols
             then clear_table_header ht\<lparr>header_ended_this_unit := True\<rparr> else ht)"

text \<open>The steps of \<^verbatim>\<open>update\<close>, in order: the pending break, the end markers, the break or the column
  mismatch, the rewrite of an empty header row, the start markers, the reset of the ended set.\<close>

definition resolve_break :: "runes \<Rightarrow> header_tracker \<Rightarrow> header_tracker" where
  "resolve_break t ht =
     (if pending_table_break ht then
        let ht = ht\<lparr>pending_table_break := False\<rparr> in
        if is_active ht markdown_table_hook_priority then
          if 0 < first_table_row_column_count t
          then clear_table_header ht\<lparr>header_ended_this_unit := True\<rparr> else clear_table_header ht
        else ht
      else ht)"

definition end_marked :: "runes \<Rightarrow> header_hook \<Rightarrow> header_tracker \<Rightarrow> header_tracker" where
  "end_marked t hook ht =
     (if is_active ht (hook_priority hook) \<and> match_string (hook_end hook) t
      then end_header (hook_priority hook) ht else ht)"

definition mark_break :: "runes \<Rightarrow> header_tracker \<Rightarrow> header_tracker" where
  "mark_break t ht =
     (if is_active ht markdown_table_hook_priority \<and>
         markdown_table_hook_priority \<notin> set (pending_extend ht)
      then if split_ends_with_paragraph_break t then ht\<lparr>pending_table_break := True\<rparr>
           else end_table_header_on_column_mismatch t ht
      else ht)"

definition extend_pending :: "runes \<Rightarrow> int \<Rightarrow> header_tracker \<Rightarrow> header_tracker" where
  "extend_pending t p ht =
     (let ht = (case map_of (active_headers ht) p of
                  None \<Rightarrow> ht
                | Some header \<Rightarrow>
                    if match_string table_row_pattern t
                    then ht\<lparr>active_headers := AList.update p (t @ extract_separator_line header) (active_headers ht)\<rparr>
                    else ht)
      in ht\<lparr>pending_extend := removeAll p (pending_extend ht)\<rparr>)"

definition start_marked :: "runes \<Rightarrow> header_hook \<Rightarrow> header_tracker \<Rightarrow> header_tracker" where
  "start_marked t hook ht =
     (let p = hook_priority hook in
      if is_active ht p then ht
      else if p \<in> ended_headers ht then ht
      else let loc = find_string (hook_start hook) t in
        if loc \<noteq> [] then
          let ht = ht\<lparr>active_headers := AList.update p loc (active_headers ht)\<rparr>
          in if is_empty_table_header_row loc then ht\<lparr>pending_extend := List.insert p (pending_extend ht)\<rparr> else ht
        else ht)"

definition reset_ended :: "header_tracker \<Rightarrow> header_tracker" where
  "reset_ended ht = (if active_headers ht = [] then ht\<lparr>ended_headers := {}\<rparr> else ht)"

definition ht_update :: "runes \<Rightarrow> header_tracker \<Rightarrow> header_tracker" where
  "ht_update t ht =
     (let ht = ht\<lparr>header_ended_this_unit := False\<rparr>;
          ht = resolve_break t ht;
          ht = fold (end_marked t) default_header_hooks ht;
          ht = mark_break t ht;
          ht = fold (extend_pending t) (pending_extend ht) ht;
          ht = fold (start_marked t) default_header_hooks ht
      in reset_ended ht)"

primrec join_runes :: "runes \<Rightarrow> runes list \<Rightarrow> runes" where
  "join_runes sep [] = []"
| "join_runes sep (x # xs) = (if xs = [] then x else x @ sep @ join_runes sep xs)"

definition get_headers :: "header_tracker \<Rightarrow> runes" where
  "get_headers ht = join_runes [nl] (map snd (rev (sort_key fst (active_headers ht))))"

section \<open>The tracker's invariant\<close>

text \<open>
  Only the table hook's header can be active; a header that waits for its column names is active;
  between two units no header is marked as ended, so a later table can be tracked; and a pending
  break belongs to an active header.
\<close>

definition ht_inv :: "header_tracker \<Rightarrow> bool" where
  "ht_inv ht \<longleftrightarrow>
     (active_headers ht = [] \<or> (\<exists>h. active_headers ht = [(markdown_table_hook_priority, h)] \<and> h \<noteq> [])) \<and>
     set (pending_extend ht) \<subseteq> fst ` set (active_headers ht) \<and>
     ended_headers ht = {} \<and>
     (pending_table_break ht \<longrightarrow> active_headers ht \<noteq> [])"

lemma ht_inv_new: "ht_inv new_header_tracker"
  by (simp add: ht_inv_def new_header_tracker_def)

text \<open>During an update: an ended header is not active.\<close>

definition ht_mid :: "header_tracker \<Rightarrow> bool" where
  "ht_mid ht \<longleftrightarrow>
     (active_headers ht = [] \<and> ended_headers ht \<subseteq> {markdown_table_hook_priority} \<or>
      (\<exists>h. active_headers ht = [(markdown_table_hook_priority, h)] \<and> h \<noteq> []) \<and> ended_headers ht = {}) \<and>
     set (pending_extend ht) \<subseteq> fst ` set (active_headers ht)"

definition break_ok :: "header_tracker \<Rightarrow> bool" where
  "break_ok ht \<longleftrightarrow> (pending_table_break ht \<longrightarrow> active_headers ht \<noteq> [])"

lemmas ht_defs = ht_mid_def break_ok_def is_active_def clear_table_header_def end_header_def

lemma resolve_break_mid: "ht_inv ht \<Longrightarrow> ht_mid (resolve_break t ht) \<and> \<not> pending_table_break (resolve_break t ht)"
  by (auto simp: ht_inv_def resolve_break_def ht_defs Let_def)

lemma end_marked_mid:
  "ht_mid ht \<Longrightarrow> hook_priority hook = markdown_table_hook_priority \<Longrightarrow> \<not> pending_table_break ht \<Longrightarrow>
     ht_mid (end_marked t hook ht) \<and> \<not> pending_table_break (end_marked t hook ht)"
  by (auto simp: end_marked_def ht_defs)

lemma mark_break_mid:
  "ht_mid ht \<Longrightarrow> \<not> pending_table_break ht \<Longrightarrow> ht_mid (mark_break t ht) \<and> break_ok (mark_break t ht)"
  by (auto simp: mark_break_def end_table_header_on_column_mismatch_def ht_defs Let_def split: option.splits)

lemma table_row_nonempty: "match_string table_row_pattern t \<Longrightarrow> t \<noteq> []"
  by (auto simp: match_string_def table_row_pattern_def table_cells_def rep1_def find_match.simps [of _ "[]"]
      lit_def ascii_def star_ends.simps [of "ends (Rune_In white) []"] split: list.splits)

lemma extend_pending_mid: "ht_mid ht \<Longrightarrow> break_ok ht \<Longrightarrow> ht_mid (extend_pending t p ht) \<and> break_ok (extend_pending t p ht)"
  using table_row_nonempty [of t]
  by (auto simp: extend_pending_def ht_defs Let_def split: option.splits if_splits)

lemma extend_all_mid:
  "ht_mid ht \<Longrightarrow> break_ok ht \<Longrightarrow> ht_mid (fold (extend_pending t) ps ht) \<and> break_ok (fold (extend_pending t) ps ht)"
  by (induction ps arbitrary: ht) (auto dest: extend_pending_mid)

lemma start_marked_mid:
  "ht_mid ht \<Longrightarrow> break_ok ht \<Longrightarrow> hook_priority hook = markdown_table_hook_priority \<Longrightarrow>
     ht_mid (start_marked t hook ht) \<and> break_ok (start_marked t hook ht)"
  by (auto simp: start_marked_def ht_defs Let_def)

lemma reset_ended_inv: "ht_mid ht \<Longrightarrow> break_ok ht \<Longrightarrow> ht_inv (reset_ended ht)"
  by (auto simp: reset_ended_def ht_inv_def ht_defs)

lemma default_priority: "hook \<in> set default_header_hooks \<Longrightarrow> hook_priority hook = markdown_table_hook_priority"
  by (simp add: default_header_hooks_def markdown_table_hook_priority_def)

lemma ht_update_inv: "ht_inv ht \<Longrightarrow> ht_inv (ht_update t ht)"
proof -
  assume "ht_inv ht"
  then have "ht_inv (ht\<lparr>header_ended_this_unit := False\<rparr>)" by (simp add: ht_inv_def)
  from resolve_break_mid [OF this]
  have ends: "ht_mid (fold (end_marked t) hooks x) \<and> \<not> pending_table_break (fold (end_marked t) hooks x)"
    if "set hooks \<subseteq> set default_header_hooks" "ht_mid x \<and> \<not> pending_table_break x" for hooks x
    using that by (induction hooks arbitrary: x) (auto simp: end_marked_mid default_priority)
  have starts: "ht_mid (fold (start_marked t) hooks x) \<and> break_ok (fold (start_marked t) hooks x)"
    if "set hooks \<subseteq> set default_header_hooks" "ht_mid x \<and> break_ok x" for hooks x
    using that by (induction hooks arbitrary: x) (auto simp: start_marked_mid default_priority)
  show ?thesis
    unfolding ht_update_def Let_def
    using resolve_break_mid [OF \<open>ht_inv (ht\<lparr>header_ended_this_unit := False\<rparr>)\<close>] ends [OF order_refl]
      mark_break_mid extend_all_mid starts [OF order_refl] reset_ended_inv
    by blast
qed


section \<open>Headers come from the text\<close>

text \<open>
  What a header is, in terms of the text: what the table pattern matches in a piece of the text; or, for a
  table whose header row is empty, a row of the text followed by the separator line of the header before.
\<close>

inductive table_header :: "runes \<Rightarrow> runes \<Rightarrow> bool" for t where
  matched_header: "hook \<in> set default_header_hooks \<Longrightarrow> find_string (hook_start hook) (segment a b t) = h \<Longrightarrow>
    h \<noteq> [] \<Longrightarrow> table_header t h"
| row_header: "table_header t g \<Longrightarrow> match_string table_row_pattern (segment a b t) \<Longrightarrow>
    table_header t (segment a b t @ extract_separator_line g)"

lemma segment_of_segment: "\<exists>c d. segment x y (segment a b t) = segment c d t"
proof -
  have "segment x y (segment a b t) = segment (a + x) (a + x + min (y - x) (b - a - x)) t"
    by (simp add: segment_def drop_take add.commute)
  then show ?thesis by blast
qed

lemma table_header_segment: "table_header (segment a b t) h \<Longrightarrow> table_header t h"
proof (induction rule: table_header.induct)
  case (matched_header hook x y h)
  then show ?case using segment_of_segment [of x y a b t] table_header.matched_header by metis
next
  case (row_header g x y)
  then show ?case using segment_of_segment [of x y a b t] table_header.row_header by metis
qed

definition headers_from :: "runes \<Rightarrow> header_tracker \<Rightarrow> bool" where
  "headers_from t ht \<longleftrightarrow> (\<forall>(p, h) \<in> set (active_headers ht). table_header t h)"

lemma headers_from_subset:
  "headers_from t ht \<Longrightarrow> set (active_headers ht') \<subseteq> set (active_headers ht) \<Longrightarrow> headers_from t ht'"
  by (auto simp: headers_from_def)

lemma set_update_subset: "set (AList.update k v al) \<subseteq> insert (k, v) (set al)"
  by (induction al) auto

lemma headers_from_update:
  "headers_from t ht \<Longrightarrow> table_header t h \<Longrightarrow>
     headers_from t (ht\<lparr>active_headers := AList.update p h (active_headers ht)\<rparr>)"
  using set_update_subset [of p h "active_headers ht"] by (auto simp: headers_from_def)

lemma headers_from_fields [simp]:
  "headers_from t (ht\<lparr>pending_extend := ps\<rparr>) = headers_from t ht"
  "headers_from t (ht\<lparr>header_ended_this_unit := e\<rparr>) = headers_from t ht"
  "headers_from t (ht\<lparr>pending_table_break := b\<rparr>) = headers_from t ht"
  "headers_from t (ht\<lparr>ended_headers := s\<rparr>) = headers_from t ht"
  by (simp_all add: headers_from_def)

lemma end_header_from: "headers_from t ht \<Longrightarrow> headers_from t (end_header p ht)"
  by (rule headers_from_subset) (auto simp: end_header_def AList.delete_eq)

lemma headers_from_steps:
  assumes "headers_from t ht"
  shows "headers_from t (resolve_break s ht)" "headers_from t (end_marked s hook ht)" "headers_from t (mark_break s ht)"
    "headers_from t (reset_ended ht)"
  using assms end_header_from [of t]
  by (auto simp: resolve_break_def end_marked_def mark_break_def end_table_header_on_column_mismatch_def
      clear_table_header_def reset_ended_def Let_def split: option.split)

lemma extend_pending_from:
  assumes "headers_from t ht" "s = segment a b t"
  shows "headers_from t (extend_pending s p ht)"
proof (cases "map_of (active_headers ht) p")
  case (Some g)
  then have "table_header t g" using assms(1) map_of_SomeD by (fastforce simp: headers_from_def)
  then have "match_string table_row_pattern s \<Longrightarrow>
      headers_from t (ht\<lparr>active_headers := AList.update p (s @ extract_separator_line g) (active_headers ht)\<rparr>)"
    unfolding assms(2) by (intro headers_from_update [OF assms(1)] row_header)
  with Some assms(1) show ?thesis by (simp add: extend_pending_def Let_def)
qed (simp add: extend_pending_def Let_def assms(1))

lemma start_marked_from:
  assumes "headers_from t ht" "s = segment a b t" "hook \<in> set default_header_hooks"
  shows "headers_from t (start_marked s hook ht)"
proof -
  have "headers_from t (ht\<lparr>active_headers := AList.update p (find_string (hook_start hook) s) (active_headers ht)\<rparr>)"
    if "find_string (hook_start hook) s \<noteq> []" for p
    by (rule headers_from_update [OF assms(1) matched_header [OF assms(3) _ that]]) (simp add: assms(2))
  with assms(1) show ?thesis by (simp add: start_marked_def Let_def)
qed

lemma ht_update_from:
  assumes "headers_from t ht" "s = segment a b t"
  shows "headers_from t (ht_update s ht)"
proof -
  have ends: "headers_from t x \<Longrightarrow> headers_from t (fold (end_marked s) hooks x)" for hooks x
    by (induction hooks arbitrary: x) (simp_all add: headers_from_steps(2))
  have extends: "headers_from t x \<Longrightarrow> headers_from t (fold (extend_pending s) ps x)" for ps x
    by (induction ps arbitrary: x) (simp_all add: extend_pending_from [OF _ assms(2)])
  have starts: "set hooks \<subseteq> set default_header_hooks \<Longrightarrow> headers_from t x \<Longrightarrow>
      headers_from t (fold (start_marked s) hooks x)" for hooks x
    by (induction hooks arbitrary: x) (simp_all add: start_marked_from [OF _ assms(2)])
  show ?thesis
    unfolding ht_update_def Let_def
    by (intro headers_from_steps(4) starts [OF order_refl] extends headers_from_steps(3) ends headers_from_steps(1))
      (simp add: assms(1))
qed

text \<open>The tracker between two units of the text, and the header it then gives.\<close>

definition tracks :: "runes \<Rightarrow> header_tracker \<Rightarrow> bool" where
  "tracks t ht \<longleftrightarrow> ht_inv ht \<and> headers_from t ht"

lemma tracks_new: "tracks t new_header_tracker"
  by (simp add: tracks_def ht_inv_new) (simp add: headers_from_def new_header_tracker_def)

lemma tracks_update: "tracks t ht \<Longrightarrow> s = segment a b t \<Longrightarrow> tracks t (ht_update s ht)"
  using ht_update_inv ht_update_from by (auto simp: tracks_def)

lemma tracks_header: "tracks t ht \<Longrightarrow> get_headers ht = [] \<or> table_header t (get_headers ht)"
  by (auto simp: tracks_def ht_inv_def headers_from_def get_headers_def)

section \<open>Text without tables\<close>

lemma ends_from_none: "(\<And>j. j \<le> length t \<Longrightarrow> ends s t j = []) \<Longrightarrow> i \<le> length t \<Longrightarrow> ends (Cat r s) t i = []"
  using ends_bounds by fastforce

lemma ends_first_none: "ends r t i = [] \<Longrightarrow> ends (Cat r s) t i = []"
  by simp

lemma no_pipe_cells: "124 \<notin> set t \<Longrightarrow> i \<le> length t \<Longrightarrow> ends table_cells t i = []"
proof -
  assume h: "124 \<notin> set t" "i \<le> length t"
  have "take 1 (drop i t) \<noteq> [124]"
  proof
    assume "take 1 (drop i t) = [124]"
    then have "124 \<in> set (take 1 (drop i t))" by simp
    with h(1) show False by (meson in_set_dropD in_set_takeD)
  qed
  then have "ends (lit (ascii ''|'')) t i = []"
    using h(2) by (simp add: lit_ends ascii_def)
  then show ?thesis by (simp add: table_cells_def rep1_def)
qed

lemma no_match: "(\<And>j. j \<le> length t \<Longrightarrow> ends r t j = []) \<Longrightarrow> i \<le> length t \<Longrightarrow> find_match r t i = None"
proof (induction "length t - i" arbitrary: i)
  case 0
  then show ?case by (simp add: find_match.simps [of r t i])
next
  case (Suc k)
  then have "find_match r t (Suc i) = None" by simp
  with Suc.prems show ?case by (simp add: find_match.simps [of r t i])
qed

lemma no_pipe_start:
  assumes "124 \<notin> set t" "hook \<in> set default_header_hooks"
  shows "find_string (hook_start hook) t = []"
proof -
  have "find_match (hook_start hook) t 0 = None"
  proof (rule no_match)
    fix j assume j: "j \<le> length t"
    have cells: "ends (Cat table_cells r) t i = []" if "i \<le> length t" for i r
      using no_pipe_cells [OF assms(1) that] by (rule ends_first_none)
    have "ends (Cat whites (Cat table_cells r)) t i = []" if "i \<le> length t" for i r
      by (rule ends_from_none [OF cells that])
    then have "ends (Cat Text_Begin (Cat whites (Cat table_cells r))) t j = []" for r
      using j by (rule ends_from_none)
    with assms(2) show "ends (hook_start hook) t j = []"
      by (auto simp: default_header_hooks_def simp del: ends.simps)
  qed simp
  then show ?thesis by (simp add: find_string_def)
qed

lemma ht_update_no_pipe:
  assumes "ht_inv ht" "active_headers ht = []" "124 \<notin> set t"
  shows "active_headers (ht_update t ht) = []"
proof -
  let ?ht = "ht\<lparr>header_ended_this_unit := False\<rparr>"
  have h: "active_headers ?ht = []" "pending_extend ?ht = []" "\<not> pending_table_break ?ht"
    using assms(1,2) by (auto simp: ht_inv_def)
  have r: "resolve_break t ?ht = ?ht" using h(3) by (simp add: resolve_break_def)
  have e: "fold (end_marked t) hooks ?ht = ?ht" for hooks
    using h by (induction hooks) (simp_all add: end_marked_def is_active_def)
  have m: "mark_break t ?ht = ?ht" using h by (simp add: mark_break_def is_active_def)
  have s: "fold (start_marked t) hooks ?ht = ?ht" if "set hooks \<subseteq> set default_header_hooks" for hooks
    using that h no_pipe_start [OF assms(3)]
    by (induction hooks) (simp_all add: start_marked_def is_active_def Let_def)
  show ?thesis
    unfolding ht_update_def Let_def r e m using h s [OF order_refl] by (simp add: reset_ended_def)
qed

section \<open>Properties\<close>

lemma cleared_stays_cleared:
  assumes "active_headers ht = []" "markdown_table_hook_priority \<in> ended_headers ht"
  shows "fold (start_marked t) default_header_hooks ht = ht"
  using assms by (simp add: default_header_hooks_def start_marked_def is_active_def markdown_table_hook_priority_def)

text \<open>
  The header of a table is never carried past the paragraph break that ends the table: after a
  row unit that ends with a blank line, the next unit, whatever it is, clears the header, and the
  splitter is told to close the chunk exactly when that unit begins with a table row. (It also
  holds when the unit is the header of the next table, which is therefore not remembered.)
\<close>

lemma header_ends_with_table:
  assumes "ht_inv ht" "pending_table_break ht"
  shows "get_headers (ht_update t ht) = [] \<and>
    (header_ended_this_unit (ht_update t ht) \<longleftrightarrow> 0 < first_table_row_column_count t)"
proof -
  let ?c = "0 < first_table_row_column_count t"
  let ?h = "resolve_break t (ht\<lparr>header_ended_this_unit := False\<rparr>)"
  obtain h where "active_headers ht = [(markdown_table_hook_priority, h)]" "ended_headers ht = {}"
    using assms by (auto simp: ht_inv_def)
  moreover have "set (pending_extend ht) \<subseteq> fst ` set (active_headers ht)" using assms(1) by (simp add: ht_inv_def)
  moreover from calculation have "removeAll markdown_table_hook_priority (pending_extend ht) = []"
    by (auto simp: removeAll_filter_not_eq filter_empty_conv)
  ultimately have r: "active_headers ?h = []" "pending_extend ?h = []" "markdown_table_hook_priority \<in> ended_headers ?h"
    "header_ended_this_unit ?h = ?c"
    using assms(2) by (auto simp: resolve_break_def is_active_def clear_table_header_def end_header_def Let_def)
  have e: "fold (end_marked t) hooks ?h = ?h" for hooks
    using r(1) by (induction hooks) (simp_all add: end_marked_def is_active_def)
  have m: "mark_break t ?h = ?h" using r(1) by (simp add: mark_break_def is_active_def)
  have "ht_update t ht = reset_ended ?h"
    unfolding ht_update_def Let_def e m r(2) using cleared_stays_cleared [OF r(1,3)] by simp
  with r show ?thesis by (simp add: reset_ended_def get_headers_def)
qed

definition sample_tracker :: header_tracker where
  "sample_tracker = new_header_tracker\<lparr>active_headers := [(15, ascii ''|A|'')], pending_table_break := True\<rparr>"

end
