(* ===== verification/Chunk_Merge.thy ===== *)
theory Chunk_Merge
  imports Chunk_Headers
begin

text \<open>
  The second half of \<^verbatim>\<open>chunker/splitter.go\<close>: units are packed into chunks, a chunk that
  overflows is closed, the next one begins with a semantic overlap and, inside a table, with the
  table's header. A chunk's \<open>ck_start\<close> and \<open>ck_end\<close> are rune offsets of the text; the pointer
  to legal metadata is an option over the metadata's type. Go's \<^verbatim>\<open>int\<close> is an integer: the
  lengths of a text are far below its range.

  The lemmas follow one unit through the loop (\<open>merge_step_inv\<close>): every chunk is an optional
  table header of the text followed by the source runes of its range, the ranges begin at 0, leave no gap and end at
  the last unit, a chunk is within the budget unless it is a single unit, and never longer than
  7500 runes.
\<close>

record 'l chunk =
  ck_content :: runes
  ck_context :: runes
  ck_seq :: nat
  ck_start :: nat
  ck_end :: nat
  ck_legal :: "'l option"

definition embedding_content :: "'l chunk \<Rightarrow> runes" where
  "embedding_content c =
     (let body = trim_runes (ck_content c) in
      if ck_context c = [] then body else ck_context c @ [nl, nl] @ body)"

record splitter_config =
  cfg_size :: int
  cfg_overlap :: int
  cfg_separators :: "runes list"
  cfg_strategy :: string
  cfg_token_limit :: int
  cfg_languages :: "string list"

definition default_chunk_size :: int where "default_chunk_size = 512"
definition default_chunk_overlap :: int where "default_chunk_overlap = 80"

definition default_separators :: "runes list" where
  "default_separators = [[nl, nl], [nl], [0x3002]]"

definition default_config :: splitter_config where
  "default_config =
     \<lparr>cfg_size = default_chunk_size, cfg_overlap = default_chunk_overlap,
      cfg_separators = default_separators, cfg_strategy = [], cfg_token_limit = 0, cfg_languages = []\<rparr>"

definition units_text :: "split_unit list \<Rightarrow> runes" where
  "units_text us = concat (map su_text us)"

definition build_chunk :: "split_unit list \<Rightarrow> nat \<Rightarrow> 'l chunk" where
  "build_chunk us seq =
     \<lparr>ck_content = units_text us, ck_context = [], ck_seq = seq, ck_start = su_start (hd us),
      ck_end = su_end (last us), ck_legal = None\<rparr>"

section \<open>Overlap\<close>

definition semantic_overlap_lookbehind :: int where
  "semantic_overlap_lookbehind = 4"

text \<open>The window is collected from the last unit backwards; \<open>acc\<close> is what has been kept.\<close>

fun window_back :: "split_unit list \<Rightarrow> int \<Rightarrow> split_unit list \<Rightarrow> split_unit list" where
  "window_back [] remaining acc = acc"
| "window_back (x # before) remaining acc =
     (if remaining \<le> 0 then acc
      else let n = length (su_text x) in
        if n = 0 then window_back before remaining acc
        else if su_start x = su_end x \<or> int (su_end x) - int (su_start x) \<noteq> int n then acc
        else if int n \<le> remaining then window_back before (remaining - int n) (x # acc)
        else let start = n - nat remaining in
          \<lparr>su_text = drop start (su_text x), su_start = su_start x + start, su_end = su_end x\<rparr> # acc)"

definition semantic_overlap_window :: "split_unit list \<Rightarrow> int \<Rightarrow> split_unit list" where
  "semantic_overlap_window current max_len =
     (if max_len \<le> 0 \<or> current = [] then [] else window_back (rev current) max_len [])"

text \<open>Paragraph breaks, then the line breaks that are not part of one, then sentence ends.\<close>

function paragraph_scan :: "runes \<Rightarrow> nat \<Rightarrow> span list" where
  "paragraph_scan rs i =
     (if length rs \<le> i then []
      else if i + 3 < length rs \<and> rs ! i = cr \<and> rs ! (i + 1) = nl \<and> rs ! (i + 2) = cr \<and> rs ! (i + 3) = nl
        then (i, i + 4) # paragraph_scan rs (i + 4)
      else if i + 1 < length rs \<and> rs ! i = nl \<and> rs ! (i + 1) = nl
        then (i, i + 2) # paragraph_scan rs (i + 2)
      else paragraph_scan rs (i + 1))"
  by pat_completeness auto
termination
  by (relation "measure (\<lambda>(rs, i). length rs - i)") auto

declare paragraph_scan.simps [simp del]

definition paragraph_runes :: "span list \<Rightarrow> nat list" where
  "paragraph_runes ps = concat (map (\<lambda>(a, b). [a..<b]) ps)"

function line_scan :: "runes \<Rightarrow> nat list \<Rightarrow> nat \<Rightarrow> span list" where
  "line_scan rs marked i =
     (if length rs \<le> i then []
      else if i \<in> set marked then line_scan rs marked (i + 1)
      else if rs ! i = cr \<and> i + 1 < length rs \<and> rs ! (i + 1) = nl \<and> i + 1 \<notin> set marked
        then (i, i + 2) # line_scan rs marked (i + 2)
      else if rs ! i = nl then (i, i + 1) # line_scan rs marked (i + 1)
      else line_scan rs marked (i + 1))"
  by pat_completeness auto
termination
  by (relation "measure (\<lambda>(rs, marked, i). length rs - i)") auto

declare line_scan.simps [simp del]

definition sentence_scan :: "runes \<Rightarrow> span list" where
  "sentence_scan rs =
     concat (map (\<lambda>i.
       if rs ! i \<in> {0x3002, 0xFF1F, 0xFF01} then [(i, i + 1)]
       else if rs ! i \<in> {46, 63, 33} \<and> i + 1 < length rs \<and> rs ! (i + 1) = blank then [(i, i + 2)]
       else []) [0..<length rs])"

fun inside_protected :: "span list \<Rightarrow> nat \<Rightarrow> bool" where
  "inside_protected [] pos = False"
| "inside_protected (p # ps) pos =
     (if pos < fst p then False
      else if fst p \<le> pos \<and> pos < snd p then True else inside_protected ps pos)"

definition has_meaningful_tail :: "runes \<Rightarrow> nat \<Rightarrow> bool" where
  "has_meaningful_tail rs e \<longleftrightarrow> e < length rs \<and> trim_runes (drop e rs) \<noteq> []"

type_synonym boundary = "nat \<times> nat \<times> nat"  \<comment> \<open>start, end, priority\<close>

definition eligible :: "runes \<Rightarrow> span list \<Rightarrow> int \<Rightarrow> span \<Rightarrow> bool" where
  "eligible rs protected min_end s \<longleftrightarrow>
     \<not> (snd s \<le> fst s \<or> int (snd s) < min_end \<or> length rs < snd s \<or>
        inside_protected protected (fst s) \<or> \<not> has_meaningful_tail rs (snd s))"

definition better :: "boundary \<Rightarrow> boundary \<Rightarrow> bool" where
  "better c best \<longleftrightarrow>
     snd (snd c) < snd (snd best) \<or> snd (snd c) = snd (snd best) \<and> fst c < fst best"

definition consider_break :: "runes \<Rightarrow> span list \<Rightarrow> int \<Rightarrow> nat \<Rightarrow> span \<Rightarrow> boundary option \<Rightarrow> boundary option" where
  "consider_break rs protected min_end prio s best =
     (if \<not> eligible rs protected min_end s then best
      else case best of
        None \<Rightarrow> Some (fst s, snd s, prio)
      | Some b \<Rightarrow> if better (fst s, snd s, prio) b then Some (fst s, snd s, prio) else Some b)"

definition find_overlap_boundary :: "runes \<Rightarrow> int \<Rightarrow> nat option" where
  "find_overlap_boundary t min_end =
     (if t = [] then None
      else let min_end = max min_end 0 in
        if int (length t) < min_end then None
        else let protected = protected_spans_rune t (protected_spans t);
                 paragraphs = paragraph_scan t 0;
                 ls = line_scan t (paragraph_runes paragraphs) 0;
                 best = fold (consider_break t protected min_end 1) paragraphs None;
                 best = fold (consider_break t protected min_end 2) ls best;
                 best = fold (consider_break t protected min_end 3) (sentence_scan t) best
             in map_option (\<lambda>b. fst (snd b)) best)"

fun trim_units_prefix :: "split_unit list \<Rightarrow> nat \<Rightarrow> split_unit list" where
  "trim_units_prefix [] remaining = []"
| "trim_units_prefix (x # xs) remaining =
     (let n = length (su_text x) in
      if 0 < remaining \<and> n \<le> remaining then trim_units_prefix xs (remaining - n)
      else if 0 < remaining
        then x\<lparr>su_text := drop remaining (su_text x), su_start := su_start x + remaining\<rparr> # xs
      else x # xs)"

definition compute_overlap :: "split_unit list \<Rightarrow> int \<Rightarrow> int \<Rightarrow> int \<Rightarrow> split_unit list \<times> int" where
  "compute_overlap current chunk_overlap chunk_size next_len =
     (if chunk_overlap \<le> 0 then ([], 0)
      else let max_overlap = (if chunk_size - next_len < chunk_overlap then chunk_size - next_len else chunk_overlap) in
        if max_overlap \<le> 0 then ([], 0)
        else let window = semantic_overlap_window current (max_overlap + semantic_overlap_lookbehind) in
          if window = [] then ([], 0)
          else let window_text = units_text window;
                   original_start = max (int (length window_text) - max_overlap) 0
               in case find_overlap_boundary window_text original_start of
                    None \<Rightarrow> ([], 0)
                  | Some e \<Rightarrow>
                      let overlap = trim_units_prefix window e;
                          overlap_len = int (length (units_text overlap))
                      in if overlap_len \<le> 0 \<or> max_overlap < overlap_len \<or> trim_runes (units_text overlap) = []
                         then ([], 0) else (overlap, overlap_len))"

section \<open>Merging\<close>

record 'l merge_state =
  ms_tracker :: header_tracker
  ms_chunks :: "'l chunk list"
  ms_current :: "split_unit list"
  ms_len :: int

text \<open>\<^verbatim>\<open>chunks = append(chunks, buildChunk(current, len(chunks)))\<close>, when there is a current chunk.\<close>

definition flush :: "'l merge_state \<Rightarrow> 'l merge_state" where
  "flush st =
     (if ms_current st \<noteq> []
      then st\<lparr>ms_chunks := ms_chunks st @ [build_chunk (ms_current st) (length (ms_chunks st))],
              ms_current := [], ms_len := 0\<rparr>
      else st)"

definition forced_chunks :: "split_unit \<Rightarrow> nat \<Rightarrow> 'l chunk list" where
  "forced_chunks x seq =
     map (\<lambda>(k, (a, b)). \<lparr>ck_content = segment a b (su_text x), ck_context = [], ck_seq = seq + k,
                         ck_start = su_start x + a, ck_end = su_start x + b, ck_legal = None\<rparr>)
       (List.enumerate 0 (forced_spans (su_text x) 0))"

fun shrink_overlap :: "split_unit list \<Rightarrow> int \<Rightarrow> int \<Rightarrow> split_unit list \<times> int" where
  "shrink_overlap [] len room = ([], len)"
| "shrink_overlap (x # xs) len room =
     (if room < len then shrink_overlap xs (len - int (length (su_text x))) room else (x # xs, len))"

text \<open>The start of the chunk after an overflow: the overlap and, inside a table, its header.\<close>

definition carry_over :: "int \<Rightarrow> int \<Rightarrow> runes \<Rightarrow> split_unit \<Rightarrow> split_unit list \<Rightarrow> split_unit list \<times> int" where
  "carry_over chunk_size chunk_overlap headers x current =
     (let u_len = int (length (su_text x));
          h_len = int (length headers);
          (current, cur_len) = compute_overlap current chunk_overlap chunk_size u_len
      in if headers \<noteq> [] \<and> h_len + u_len \<le> chunk_size then
           let (current, cur_len) = shrink_overlap current cur_len (chunk_size - u_len - h_len) in
           if \<not> header_already_present headers (units_text current) (su_text x) \<and>
              \<not> header_column_mismatch headers (su_text x)
           then let start_pos = (if current \<noteq> [] then su_start (hd current) else su_start x)
                in (\<lparr>su_text = headers, su_start = start_pos, su_end = start_pos\<rparr> # current, cur_len + h_len)
           else (current, cur_len)
         else (current, cur_len))"

text \<open>
  The body of the loop: the tracker sees the unit and a new table closes the current chunk
  (\<open>track_unit\<close>), an overflow closes it and starts the next one (\<open>make_room\<close>), the absolute
  maximum closes it in any case (\<open>hard_limit\<close>); a unit above the maximum is cut on its own.
\<close>

definition track_unit :: "split_unit \<Rightarrow> 'l merge_state \<Rightarrow> 'l merge_state" where
  "track_unit x st =
     (let st = st\<lparr>ms_tracker := ht_update (su_text x) (ms_tracker st)\<rparr>
      in if header_ended_this_unit (ms_tracker st) then flush st else st)"

definition make_room :: "int \<Rightarrow> int \<Rightarrow> split_unit \<Rightarrow> 'l merge_state \<Rightarrow> 'l merge_state" where
  "make_room chunk_size chunk_overlap x st =
     (let headers = get_headers (ms_tracker st);
          headers = (if chunk_size < int (length headers) then [] else headers)
      in if chunk_size < ms_len st + int (length (su_text x)) + int (length headers) \<and> ms_current st \<noteq> [] then
           let (current, cur_len) = carry_over chunk_size chunk_overlap headers x (ms_current st)
           in (flush st)\<lparr>ms_current := current, ms_len := cur_len\<rparr>
         else st)"

definition hard_limit :: "split_unit \<Rightarrow> 'l merge_state \<Rightarrow> 'l merge_state" where
  "hard_limit x st = (if int max_piece < ms_len st + int (length (su_text x)) then flush st else st)"

definition merge_step :: "int \<Rightarrow> int \<Rightarrow> split_unit \<Rightarrow> 'l merge_state \<Rightarrow> 'l merge_state" where
  "merge_step chunk_size chunk_overlap x st =
     (if max_piece < length (su_text x) then
        let st = flush st;
            st = st\<lparr>ms_tracker := ht_update (su_text x) (ms_tracker st)\<rparr>
        in st\<lparr>ms_chunks := ms_chunks st @ forced_chunks x (length (ms_chunks st))\<rparr>
      else
        let st = hard_limit x (make_room chunk_size chunk_overlap x (track_unit x st))
        in st\<lparr>ms_current := ms_current st @ [x], ms_len := ms_len st + int (length (su_text x))\<rparr>)"

definition merge_units :: "split_unit list \<Rightarrow> int \<Rightarrow> int \<Rightarrow> 'l chunk list" where
  "merge_units us chunk_size chunk_overlap =
     (if us = [] then []
      else ms_chunks (flush (fold (merge_step chunk_size chunk_overlap) us
             \<lparr>ms_tracker = new_header_tracker, ms_chunks = [], ms_current = [], ms_len = 0\<rparr>)))"

definition split_text :: "runes \<Rightarrow> splitter_config \<Rightarrow> 'l chunk list" where
  "split_text t cfg =
     (if t = [] then []
      else let chunk_size = (if cfg_size cfg \<le> 0 then 512 else cfg_size cfg);
               chunk_overlap = (if cfg_overlap cfg < 0 then 0 else cfg_overlap cfg);
               units = build_units_with_protection t (protected_spans t) (cfg_separators cfg) chunk_size
           in merge_units units chunk_size chunk_overlap)"

section \<open>Parents and children\<close>

text \<open>A \<^verbatim>\<open>ChildChunk\<close> is a chunk with the index of its parent, \<open>-1\<close> for a parent that is its only child.\<close>

type_synonym 'l child_chunk = "'l chunk \<times> int"

record 'l parent_child_result =
  pc_parents :: "'l chunk list"
  pc_children :: "'l child_chunk list"

definition shift_child :: "'l chunk \<Rightarrow> nat \<Rightarrow> 'l chunk \<Rightarrow> 'l chunk" where
  "shift_child parent seq sub =
     sub\<lparr>ck_seq := seq, ck_start := ck_start sub + ck_start parent, ck_end := ck_end sub + ck_start parent\<rparr>"

definition own_parent :: "'l chunk \<Rightarrow> 'l chunk list \<Rightarrow> bool" where
  "own_parent parent subs \<longleftrightarrow>
     1 < length subs \<or> length subs = 1 \<and> ck_content (hd subs) \<noteq> ck_content parent"

definition split_parent :: "splitter_config \<Rightarrow> 'l chunk \<Rightarrow> 'l parent_child_result \<Rightarrow> 'l parent_child_result" where
  "split_parent child_cfg parent r =
     (let subs = split_text (ck_content parent) child_cfg;
          index = (if own_parent parent subs then int (length (pc_parents r)) else -1);
          children = map (\<lambda>(k, sub). (shift_child parent (length (pc_children r) + k) sub, index))
                       (List.enumerate 0 subs)
      in \<lparr>pc_parents = (if own_parent parent subs then pc_parents r @ [parent] else pc_parents r),
          pc_children = pc_children r @ children\<rparr>)"

definition split_text_parent_child :: "runes \<Rightarrow> splitter_config \<Rightarrow> splitter_config \<Rightarrow> 'l parent_child_result" where
  "split_text_parent_child t parent_cfg child_cfg =
     fold (split_parent child_cfg) (split_text t parent_cfg) \<lparr>pc_parents = [], pc_children = []\<rparr>"

section \<open>The overlap is a suffix of the source\<close>

lemma units_text_append [simp]: "units_text (xs @ ys) = units_text xs @ units_text ys"
  by (simp add: units_text_def)

lemma units_text_simps [simp]: "units_text [] = []" "units_text (x # xs) = su_text x @ units_text xs"
  by (simp_all add: units_text_def)

lemma tiles_units_text: "tiles t lo hi us \<Longrightarrow> units_text us = segment lo hi t"
  by (simp add: units_text_def tiles_text)

lemma source_unit_length: "source_unit t x \<Longrightarrow> length (su_text x) = su_end x - su_start x"
  by (simp add: source_unit_def)

lemma source_unit_nonempty: "source_unit t x \<Longrightarrow> su_text x \<noteq> []"
proof
  assume h: "source_unit t x" "su_text x = []"
  then have "su_end x - su_start x = 0" using source_unit_length [of t x] by simp
  with h(1) show False by (simp add: source_unit_def)
qed

definition header_unit :: "runes \<Rightarrow> nat \<Rightarrow> split_unit" where
  "header_unit h p = \<lparr>su_text = h, su_start = p, su_end = p\<rparr>"

lemma header_unit_simps [simp]:
  "su_text (header_unit h p) = h" "su_start (header_unit h p) = p" "su_end (header_unit h p) = p"
  by (simp_all add: header_unit_def)

text \<open>\<open>current_ok t lo p us\<close>: perhaps a header of the text, then the source from \<open>lo\<close> to \<open>p\<close>.\<close>

definition current_ok :: "runes \<Rightarrow> nat \<Rightarrow> nat \<Rightarrow> split_unit list \<Rightarrow> bool" where
  "current_ok t lo p cur \<longleftrightarrow>
     tiles t lo p cur \<or> (\<exists>h us. cur = header_unit h lo # us \<and> h \<noteq> [] \<and> table_header t h \<and> tiles t lo p us)"

lemma window_back_stop:
  "h \<noteq> [] \<Longrightarrow> window_back (header_unit h lo # before) remaining acc = acc"
  by simp

lemma window_back_tiles:
  assumes "tiles t m p acc" "tiles t lo m us" "before = [] \<or> (\<exists>h q. before = [header_unit h q] \<and> h \<noteq> [])"
  shows "\<exists>m'. lo \<le> m' \<and> tiles t m' p (window_back (rev us @ before) remaining acc)"
  using assms
proof (induction us arbitrary: m acc remaining rule: rev_induct)
  case Nil
  then have "window_back before remaining acc = acc" by auto
  with Nil show ?case by auto
next
  case (snoc x us)
  from snoc.prems(2) obtain k where us: "tiles t lo k us" and x: "su_start x = k" "source_unit t x" "su_end x = m"
    by (auto simp: tiles_append)
  have lo: "lo \<le> k" using us by (rule tiles_le)
  have n: "su_text x \<noteq> []" "k < m" "length (su_text x) = m - k"
    using x source_unit_nonempty source_unit_length [of t x] by (auto simp: source_unit_def)
  consider (stop) "remaining \<le> 0" | (whole) "0 < remaining" "int (m - k) \<le> remaining"
    | (part) "0 < remaining" "remaining < int (m - k)" by linarith
  then show ?case
  proof cases
    case stop
    with snoc.prems(1) lo n show ?thesis by (intro exI [of _ m]) simp
  next
    case whole
    have "tiles t k p (x # acc)" using x snoc.prems(1) by simp
    from snoc.IH [OF this us snoc.prems(3), of "remaining - int (m - k)"] whole n x
    show ?thesis by auto
  next
    case part
    let ?s = "m - k - nat remaining"
    from part n have s: "?s < m - k" by linarith
    have "drop ?s (su_text x) = segment (k + ?s) m t"
      using x s n by (simp add: source_unit_def segment_def drop_take add.commute)
    then have "tiles t (k + ?s) p (\<lparr>su_text = drop ?s (su_text x), su_start = k + ?s, su_end = m\<rparr> # acc)"
      using x s snoc.prems(1) by (auto simp: source_unit_def)
    moreover have "window_back (rev (us @ [x]) @ before) remaining acc =
        \<lparr>su_text = drop ?s (su_text x), su_start = k + ?s, su_end = m\<rparr> # acc"
      using part n x by (simp add: Let_def)
    ultimately show ?thesis using lo by (intro exI [of _ "k + ?s"]) simp
  qed
qed

lemma overlap_window_tiles:
  assumes "current_ok t lo p cur"
  shows "\<exists>m. lo \<le> m \<and> tiles t m p (semantic_overlap_window cur max_len)"
proof (cases "max_len \<le> 0 \<or> cur = []")
  case True
  have "lo \<le> p" using assms tiles_le by (auto simp: current_ok_def)
  with True show ?thesis by (auto simp: semantic_overlap_window_def)
next
  case False
  from assms consider "tiles t lo p cur"
    | h us where "cur = header_unit h lo # us" "h \<noteq> []" "tiles t lo p us"
    by (auto simp: current_ok_def)
  then show ?thesis
  proof cases
    case 1
    from window_back_tiles [of t p p "[]" lo cur "[]" max_len] 1 False show ?thesis
      by (simp add: semantic_overlap_window_def)
  next
    case 2
    from window_back_tiles [of t p p "[]" lo us "[header_unit h lo]" max_len] 2 False show ?thesis
      by (auto simp: semantic_overlap_window_def)
  qed
qed

definition best_ok :: "runes \<Rightarrow> span list \<Rightarrow> int \<Rightarrow> boundary option \<Rightarrow> bool" where
  "best_ok rs protected min_end best \<longleftrightarrow>
     (case best of None \<Rightarrow> True | Some b \<Rightarrow> eligible rs protected min_end (fst b, fst (snd b)))"

lemma consider_fold_ok:
  "best_ok rs protected min_end best \<Longrightarrow>
     best_ok rs protected min_end (fold (consider_break rs protected min_end prio) ss best)"
proof (induction ss arbitrary: best)
  case (Cons s ss)
  have "best_ok rs protected min_end (consider_break rs protected min_end prio s best)"
    using Cons.prems by (auto simp: best_ok_def consider_break_def split: option.splits)
  with Cons.IH show ?case by simp
qed simp

lemma find_overlap_boundaryD:
  assumes "find_overlap_boundary t min_end = Some e"
  shows "0 < e \<and> e < length t \<and> min_end \<le> int e \<and> trim_runes (drop e t) \<noteq> []"
proof -
  define ps where "ps = protected_spans_rune t (protected_spans t)"
  define best where "best =
    fold (consider_break t ps (max min_end 0) 3) (sentence_scan t)
      (fold (consider_break t ps (max min_end 0) 2) (line_scan t (paragraph_runes (paragraph_scan t 0)) 0)
        (fold (consider_break t ps (max min_end 0) 1) (paragraph_scan t 0) None))"
  have ok: "best_ok t ps (max min_end 0) best"
    unfolding best_def by (intro consider_fold_ok) (simp add: best_ok_def)
  from assms obtain b where "best = Some b" "e = fst (snd b)"
    by (auto simp: find_overlap_boundary_def Let_def best_def ps_def split: if_splits)
  with ok show ?thesis by (auto simp: best_ok_def eligible_def has_meaningful_tail_def)
qed

lemma trim_units_tiles:
  "tiles t m p us \<Longrightarrow> r \<le> p - m \<Longrightarrow> tiles t (m + r) p (trim_units_prefix us r)"
proof (induction us arbitrary: m r)
  case (Cons x us)
  then have x: "su_start x = m" "source_unit t x" "tiles t (su_end x) p us" by auto
  have n: "length (su_text x) = su_end x - m" "m < su_end x" "su_end x \<le> p"
    using x source_unit_length [of t x] tiles_le [OF x(3)] by (auto simp: source_unit_def)
  show ?case
  proof (cases "0 < r \<and> su_end x - m \<le> r")
    case True
    then have r: "r - (su_end x - m) \<le> p - su_end x" "su_end x + (r - (su_end x - m)) = m + r"
      using Cons.prems(2) n by linarith+
    from Cons.IH [OF x(3) r(1)]
    have "tiles t (m + r) p (trim_units_prefix us (r - (su_end x - m)))" by (simp only: r(2))
    moreover have "trim_units_prefix (x # us) r = trim_units_prefix us (r - (su_end x - m))"
      using True n by (simp add: Let_def)
    ultimately show ?thesis by simp
  next
    case False
    show ?thesis
    proof (cases "0 < r")
      case False
      with Cons.prems show ?thesis by (simp add: Let_def)
    next
      case pos: True
      with False have r: "r < su_end x - m" by simp
      then have "drop r (su_text x) = segment (m + r) (su_end x) t"
        using x by (simp add: source_unit_def segment_def drop_take add.commute)
      with pos r x n show ?thesis by (auto simp: Let_def source_unit_def)
    qed
  qed
qed simp

text \<open>What the overlap is: empty, or a proper suffix of the current chunk's source within the limits.\<close>

lemma compute_overlap_ok:
  assumes cur: "current_ok t lo p cur" and p: "p \<le> length t"
    and r: "compute_overlap cur chunk_overlap chunk_size next_len = (us, n)"
  shows "\<exists>m. lo \<le> m \<and> tiles t m p us \<and> n = int (length (units_text us)) \<and> int p - int m \<le> max chunk_overlap 0 \<and>
     (us \<noteq> [] \<longrightarrow> n + next_len \<le> chunk_size)"
proof (cases "us = []")
  case True
  have "lo \<le> p" using cur tiles_le by (auto simp: current_ok_def)
  moreover have "n = 0" using r True
    by (auto simp: compute_overlap_def Let_def split: if_splits option.splits)
  ultimately show ?thesis using True by auto
next
  case False
  let ?mx = "if chunk_size - next_len < chunk_overlap then chunk_size - next_len else chunk_overlap"
  let ?w = "semantic_overlap_window cur (?mx + semantic_overlap_lookbehind)"
  obtain m where m: "lo \<le> m" "tiles t m p ?w" using overlap_window_tiles [OF cur] by blast
  from r False obtain e where e: "find_overlap_boundary (units_text ?w) (max (int (length (units_text ?w)) - ?mx) 0) = Some e"
    and us: "us = trim_units_prefix ?w e" "n = int (length (units_text us))" "n \<le> ?mx"
    by (auto simp: compute_overlap_def Let_def split: if_splits option.splits)
  have "e < length (units_text ?w)" using find_overlap_boundaryD [OF e] by simp
  also have "length (units_text ?w) = p - m" using tiles_units_text [OF m(2)] p tiles_le [OF m(2)] by simp
  finally have "tiles t (m + e) p us" using trim_units_tiles [OF m(2), of e] us(1) by simp
  moreover from this have "n = int (p - (m + e))" using us(2) tiles_units_text p tiles_le by fastforce
  moreover have "?mx \<le> chunk_overlap" "?mx \<le> chunk_size - next_len" by auto
  ultimately show ?thesis using m(1) us(2,3) by (intro exI [of _ "m + e"]) linarith
qed

lemma shrink_overlap_ok:
  assumes "tiles t m p us" "shrink_overlap us len room = (us', len')" "len = int (length (units_text us))"
  shows "\<exists>m'. m \<le> m' \<and> tiles t m' p us' \<and> len' = int (length (units_text us')) \<and> (us' = [] \<or> len' \<le> room)"
  using assms
proof (induction us len room arbitrary: m rule: shrink_overlap.induct)
  case (2 x xs len room)
  show ?case
  proof (cases "room < len")
    case True
    from "2.IH" [OF True, of "su_end x"] "2.prems" True obtain m' where
      "su_end x \<le> m'" "tiles t m' p us'" "len' = int (length (units_text us'))" "us' = [] \<or> len' \<le> room"
      by auto
    with "2.prems"(1) show ?thesis by (intro exI [of _ m']) (auto simp: source_unit_def)
  qed (use "2.prems" in auto)
qed auto

lemma carry_over_ok:
  assumes cur: "current_ok t lo p cur" and p: "p \<le> length t" "su_start x = p"
    and h: "headers = [] \<or> table_header t headers"
    and r: "carry_over chunk_size chunk_overlap headers x cur = (us, n)"
  shows "\<exists>m. lo \<le> m \<and> current_ok t m p us \<and> n = int (length (units_text us)) \<and> int p - int m \<le> max chunk_overlap 0 \<and>
     (us \<noteq> [] \<longrightarrow> n + int (length (su_text x)) \<le> chunk_size)"
proof -
  let ?u = "int (length (su_text x))"
  obtain us1 n1 where o: "compute_overlap cur chunk_overlap chunk_size ?u = (us1, n1)" by fastforce
  from compute_overlap_ok [OF cur p(1) o] obtain m where
    m: "lo \<le> m" "tiles t m p us1" "n1 = int (length (units_text us1))" "us1 \<noteq> [] \<longrightarrow> n1 + ?u \<le> chunk_size"
    "int p - int m \<le> max chunk_overlap 0" by auto
  show ?thesis
  proof (cases "headers \<noteq> [] \<and> int (length headers) + ?u \<le> chunk_size")
    case False
    with r o have "us = us1" "n = n1" by (auto simp: carry_over_def Let_def)
    with m show ?thesis by (auto simp: current_ok_def)
  next
    case True
    obtain us2 n2 where s: "shrink_overlap us1 n1 (chunk_size - ?u - int (length headers)) = (us2, n2)" by fastforce
    from shrink_overlap_ok [OF m(2) s m(3)] obtain k where
      k: "m \<le> k" "tiles t k p us2" "n2 = int (length (units_text us2))"
        "us2 = [] \<or> n2 \<le> chunk_size - ?u - int (length headers)" by auto
    have start: "(if us2 \<noteq> [] then su_start (hd us2) else su_start x) = k"
      using k(2) p(2) by (cases us2) auto
    have "us = us2 \<and> n = n2 \<or> us = header_unit headers k # us2 \<and> n = n2 + int (length headers)"
      using r o s True start by (auto simp: carry_over_def Let_def header_unit_def split: if_splits)
    moreover have "int p - int k \<le> max chunk_overlap 0" using k(1) m(5) by linarith
    ultimately show ?thesis using k True m(1) h
      by (intro exI [of _ k]) (auto simp: current_ok_def)
  qed
qed

section \<open>The boundary an overlap begins at\<close>

text \<open>The candidates in the order the code considers them, with their priority.\<close>

definition candidates :: "runes \<Rightarrow> (span \<times> nat) list" where
  "candidates t =
     (let paragraphs = paragraph_scan t 0 in
      map (\<lambda>s. (s, 1)) paragraphs @
      map (\<lambda>s. (s, 2)) (line_scan t (paragraph_runes paragraphs) 0) @
      map (\<lambda>s. (s, 3)) (sentence_scan t))"

definition none_better :: "runes \<Rightarrow> span list \<Rightarrow> int \<Rightarrow> (span \<times> nat) set \<Rightarrow> boundary option \<Rightarrow> bool" where
  "none_better rs protected min_end seen best \<longleftrightarrow>
     (case best of
        None \<Rightarrow> \<forall>(s, prio) \<in> seen. \<not> eligible rs protected min_end s
      | Some b \<Rightarrow> (\<exists>(s, prio) \<in> seen. eligible rs protected min_end s \<and> b = (fst s, snd s, prio)) \<and>
          (\<forall>(s, prio) \<in> seen. eligible rs protected min_end s \<longrightarrow> \<not> better (fst s, snd s, prio) b))"

lemma better_irrefl [simp]: "\<not> better b b"
  by (simp add: better_def)

lemma better_trans: "better b c \<Longrightarrow> \<not> better d c \<Longrightarrow> \<not> better d b"
  by (auto simp: better_def)

lemma consider_none_better:
  assumes "none_better rs protected min_end seen best"
  shows "none_better rs protected min_end (insert (s, prio) seen) (consider_break rs protected min_end prio s best)"
proof (cases "eligible rs protected min_end s")
  case False
  with assms show ?thesis
    by (cases best) (auto simp: none_better_def consider_break_def)
next
  case True
  show ?thesis
  proof (cases best)
    case None
    with assms True show ?thesis by (auto simp: none_better_def consider_break_def)
  next
    case (Some b)
    show ?thesis
    proof (cases "better (fst s, snd s, prio) b")
      case False
      with assms True Some show ?thesis by (auto simp: none_better_def consider_break_def)
    next
      case better: True
      have "\<not> better (fst s', snd s', prio') (fst s, snd s, prio)"
        if "(s', prio') \<in> seen" "eligible rs protected min_end s'" for s' prio'
        using assms that Some better_trans [OF better] by (auto simp: none_better_def)
      with better True Some show ?thesis by (auto simp: none_better_def consider_break_def)
    qed
  qed
qed

lemma fold_none_better:
  "none_better rs protected min_end seen best \<Longrightarrow>
     none_better rs protected min_end (seen \<union> (\<lambda>s. (s, prio)) ` set ss)
       (fold (consider_break rs protected min_end prio) ss best)"
proof (induction ss arbitrary: seen best)
  case (Cons s ss)
  from Cons.IH [OF consider_none_better [OF Cons.prems]] show ?case by simp
qed simp

section \<open>Properties\<close>

lemma sample_unprotected: "protected_spans [97, 10, 98] = []"
  by code_simp

lemma sample_breaks:
  "paragraph_scan [97, 10, 98] 0 = []" "line_scan [97, 10, 98] (paragraph_runes []) 0 = [(1, 2)]"
  "sentence_scan [97, 10, 98] = []"
  by (simp_all add: paragraph_scan.simps line_scan.simps sentence_scan_def paragraph_runes_def upt_rec)

text \<open>
  The boundary a chunk's overlap begins at is the one the comment of \<^verbatim>\<open>computeOverlap\<close>
  promises: among all paragraph breaks, line breaks and sentence ends of the window that end at or
  after the limit, lie outside protected regions and have text after them, none has a better
  priority, or the same priority and an earlier position; and there is none exactly when there is
  no such candidate.
\<close>

lemma overlap_boundary_best:
  fixes t :: runes and min_end :: int
  defines "ok \<equiv> eligible t (protected_spans_rune t (protected_spans t)) (max min_end 0)"
  shows "case find_overlap_boundary t min_end of
      None \<Rightarrow> t = [] \<or> int (length t) < min_end \<or> (\<forall>(s, prio) \<in> set (candidates t). \<not> ok s)
    | Some e \<Rightarrow> \<exists>s prio. (s, prio) \<in> set (candidates t) \<and> ok s \<and> e = snd s \<and>
        (\<forall>(s', prio') \<in> set (candidates t). ok s' \<longrightarrow> prio < prio' \<or> prio = prio' \<and> fst s \<le> fst s')"
proof (cases "t = [] \<or> int (length t) < max min_end 0")
  case True
  then show ?thesis by (auto simp: find_overlap_boundary_def)
next
  case False
  define ps where "ps = protected_spans_rune t (protected_spans t)"
  define best where "best =
    fold (consider_break t ps (max min_end 0) 3) (sentence_scan t)
      (fold (consider_break t ps (max min_end 0) 2) (line_scan t (paragraph_runes (paragraph_scan t 0)) 0)
        (fold (consider_break t ps (max min_end 0) 1) (paragraph_scan t 0) None))"
  have "none_better t ps (max min_end 0) {} None" by (simp add: none_better_def)
  from fold_none_better [OF fold_none_better [OF fold_none_better [OF this]]]
  have nb: "none_better t ps (max min_end 0) (set (candidates t)) best"
    by (simp add: best_def candidates_def Let_def image_Un Un_assoc)
  have r: "find_overlap_boundary t min_end = map_option (\<lambda>b. fst (snd b)) best"
    using False by (simp add: find_overlap_boundary_def Let_def best_def ps_def)
  show ?thesis
  proof (cases best)
    case None
    with nb r show ?thesis by (auto simp: none_better_def ok_def ps_def)
  next
    case (Some b)
    with nb r show ?thesis
      by (fastforce simp: none_better_def ok_def ps_def better_def)
  qed
qed

end
