(* ===== verification/Chunk_Split.thy ===== *)
theory Chunk_Split
  imports Chunk_Merge
begin

text \<open>
  What \<^verbatim>\<open>SplitText\<close> promises. The invariant of the merge loop (\<open>merge_inv\<close>) is kept by every
  unit, on each of its paths (oversized unit, table boundary, overflow with overlap and header,
  absolute maximum); at the end it says that the chunks cover the text in order, that each holds
  the source of its range after an optional header, that they are numbered, and how long they are.
\<close>

section \<open>Coverage\<close>

text \<open>A chunk and the next: no gap, and they share at most \<open>ov\<close> runes.\<close>

definition linked :: "int \<Rightarrow> 'l chunk \<Rightarrow> 'l chunk \<Rightarrow> bool" where
  "linked ov a b \<longleftrightarrow>
     ck_start a \<le> ck_start b \<and> ck_start b \<le> ck_end a \<and> ck_end a \<le> ck_end b \<and>
     int (ck_end a) - int (ck_start b) \<le> ov"

text \<open>The chunks so far: they begin at 0, the last one runs from \<open>s\<close> to \<open>q\<close>.\<close>

definition reach :: "int \<Rightarrow> 'l chunk list \<Rightarrow> nat \<Rightarrow> nat \<Rightarrow> bool" where
  "reach ov cs s q \<longleftrightarrow>
     (if cs = [] then s = 0 \<and> q = 0
      else ck_start (hd cs) = 0 \<and> successively (linked ov) cs \<and> ck_start (last cs) = s \<and> ck_end (last cs) = q)"

definition covers :: "int \<Rightarrow> nat \<Rightarrow> 'l chunk list \<Rightarrow> bool" where
  "covers ov n cs \<longleftrightarrow>
     cs \<noteq> [] \<and> ck_start (hd cs) = 0 \<and> ck_end (last cs) = n \<and> successively (linked ov) cs"

text \<open>
  A chunk is the text of its range, behind nothing or behind a table header of the text: the prefix is
  no other text, in particular no overlap, which belongs to the range.
\<close>

definition chunk_of :: "runes \<Rightarrow> 'l chunk \<Rightarrow> bool" where
  "chunk_of t c \<longleftrightarrow>
     ck_start c \<le> ck_end c \<and> ck_end c \<le> length t \<and>
     (\<exists>h. ck_content c = h @ segment (ck_start c) (ck_end c) t \<and> (h = [] \<or> table_header t h))"

text \<open>
  Within the budget; or a unit, whole, or a piece of one above the absolute maximum.
\<close>

definition fits :: "split_unit set \<Rightarrow> int \<Rightarrow> 'l chunk \<Rightarrow> bool" where
  "fits us chunk_size c \<longleftrightarrow>
     int (length (ck_content c)) \<le> chunk_size \<or>
     length (ck_content c) \<le> max_piece \<and>
     (\<exists>x \<in> us. su_start x \<le> ck_start c \<and> ck_end c \<le> su_end x \<and>
        ck_content c = segment (ck_start c - su_start x) (ck_end c - su_start x) (su_text x) \<and>
        (length (su_text x) \<le> max_piece \<longrightarrow> ck_content c = su_text x))"

definition numbered :: "'l chunk list \<Rightarrow> bool" where
  "numbered cs \<longleftrightarrow> map ck_seq cs = [0..<length cs]"

lemma reach_Nil: "reach ov [] 0 0"
  by (simp add: reach_def)

lemma reach_snoc:
  "reach ov cs s q \<Longrightarrow> s \<le> ck_start c \<Longrightarrow> ck_start c \<le> q \<Longrightarrow> int q - int (ck_start c) \<le> ov \<Longrightarrow> q \<le> ck_end c \<Longrightarrow>
     reach ov (cs @ [c]) (ck_start c) (ck_end c)"
  by (cases "cs = []") (simp_all add: reach_def successively_append_iff linked_def)

lemma reach_covers: "reach ov cs s n \<Longrightarrow> cs \<noteq> [] \<Longrightarrow> covers ov n cs"
  by (simp add: reach_def covers_def)

lemma numbered_snoc: "numbered cs \<Longrightarrow> ck_seq c = length cs \<Longrightarrow> numbered (cs @ [c])"
  by (simp add: numbered_def)

section \<open>The invariant of the merge loop\<close>

definition done_ok :: "runes \<Rightarrow> split_unit set \<Rightarrow> int \<Rightarrow> 'l chunk list \<Rightarrow> bool" where
  "done_ok t us chunk_size cs \<longleftrightarrow>
     (\<forall>c \<in> set cs. chunk_of t c \<and> fits us chunk_size c \<and> ck_context c = []) \<and> numbered cs"

definition cur_start :: "nat \<Rightarrow> split_unit list \<Rightarrow> nat" where
  "cur_start p cur = (if cur = [] then p else su_start (hd cur))"

text \<open>The chunks so far end at or after \<open>lo\<close>, where the current one begins, and before \<open>p\<close>.\<close>

definition meets :: "int \<Rightarrow> 'l chunk list \<Rightarrow> nat \<Rightarrow> nat \<Rightarrow> bool" where
  "meets ov cs lo p \<longleftrightarrow>
     (\<exists>s q. reach ov cs s q \<and> s \<le> lo \<and> lo \<le> q \<and> int q - int lo \<le> ov \<and> q \<le> p)"

lemma meetsI: "reach ov cs s q \<Longrightarrow> s \<le> lo \<Longrightarrow> lo \<le> q \<Longrightarrow> int q - int lo \<le> ov \<Longrightarrow> q \<le> p \<Longrightarrow> meets ov cs lo p"
  by (auto simp: meets_def)

lemma meets_mono: "meets ov cs lo p \<Longrightarrow> p \<le> p' \<Longrightarrow> meets ov cs lo p'"
  unfolding meets_def by (meson order_trans)

lemma meets_end: "reach ov cs s p \<Longrightarrow> s \<le> p \<Longrightarrow> 0 \<le> ov \<Longrightarrow> meets ov cs p p"
  by (rule meetsI [of ov cs s p]) auto

definition merge_inv :: "runes \<Rightarrow> split_unit set \<Rightarrow> int \<Rightarrow> int \<Rightarrow> nat \<Rightarrow> 'l merge_state \<Rightarrow> bool" where
  "merge_inv t us chunk_size ov p st \<longleftrightarrow>
     done_ok t us chunk_size (ms_chunks st) \<and>
     meets ov (ms_chunks st) (cur_start p (ms_current st)) p \<and>
     current_ok t (cur_start p (ms_current st)) p (ms_current st) \<and>
     ms_len st = int (length (units_text (ms_current st))) \<and>
     (ms_len st \<le> chunk_size \<or>
      length (units_text (ms_current st)) \<le> max_piece \<and> (\<exists>x \<in> us. source_unit t x \<and> ms_current st = [x])) \<and>
     tracks t (ms_tracker st) \<and> p \<le> length t \<and> 0 \<le> chunk_size \<and> 0 \<le> ov"

lemma has_suffix_refl [simp]: "has_suffix p p"
  by (simp add: has_suffix_def)

lemma has_suffix_length: "has_suffix s p \<Longrightarrow> length p \<le> length s"
  by (simp add: has_suffix_def)

lemma current_okD:
  assumes "current_ok t lo p cur" "cur \<noteq> []"
  shows "su_start (hd cur) = lo" "su_end (last cur) = p" "lo \<le> p"
    "\<exists>h. units_text cur = h @ segment lo p t \<and> (h = [] \<or> table_header t h)"
proof -
  from assms(1) consider "tiles t lo p cur"
    | h us where "cur = header_unit h lo # us" "tiles t lo p us" "table_header t h" by (auto simp: current_ok_def)
  then have "su_start (hd cur) = lo \<and> su_end (last cur) = p \<and> lo \<le> p \<and>
    (\<exists>h. units_text cur = h @ segment lo p t \<and> (h = [] \<or> table_header t h))"
  proof cases
    case 1
    with assms(2) show ?thesis
      using tiles_last [OF 1] tiles_le [OF 1] tiles_units_text [OF 1]
      by (cases cur) auto
  next
    case 2
    then show ?thesis
      using tiles_last [OF 2(2)] tiles_le [OF 2(2)] tiles_units_text [OF 2(2)]
      by (cases us) auto
  qed
  then show "su_start (hd cur) = lo" "su_end (last cur) = p" "lo \<le> p"
    "\<exists>h. units_text cur = h @ segment lo p t \<and> (h = [] \<or> table_header t h)" by auto
qed

lemma done_ok_snoc:
  "done_ok t us n cs \<Longrightarrow> chunk_of t c \<Longrightarrow> fits us n c \<Longrightarrow> ck_context c = [] \<Longrightarrow> ck_seq c = length cs \<Longrightarrow>
     done_ok t us n (cs @ [c])"
  by (auto simp: done_ok_def numbered_snoc)

lemma flush_inv:
  fixes st :: "'l merge_state"
  assumes inv: "merge_inv t us n ov p st"
  shows "merge_inv t us n ov p (flush st) \<and> ms_current (flush st) = [] \<and> ms_len (flush st) = 0 \<and>
    ms_tracker (flush st) = ms_tracker st"
proof (cases "ms_current st = []")
  case True
  with inv show ?thesis by (simp add: flush_def merge_inv_def)
next
  case False
  let ?lo = "cur_start p (ms_current st)"
  let ?c = "build_chunk (ms_current st) (length (ms_chunks st)) :: 'l chunk"
  from inv have cur: "current_ok t ?lo p (ms_current st)" and p: "p \<le> length t"
    and ok: "done_ok t us n (ms_chunks st)" by (auto simp: merge_inv_def)
  from inv obtain s q where sq: "reach ov (ms_chunks st) s q" "s \<le> ?lo" "?lo \<le> q" "q \<le> p" "int q - int ?lo \<le> ov"
    by (auto simp: merge_inv_def meets_def)
  note d = current_okD [OF cur False]
  have c: "ck_start ?c = ?lo" "ck_end ?c = p" "ck_content ?c = units_text (ms_current st)"
    using d False by (simp_all add: build_chunk_def cur_start_def)
  have "fits us n ?c"
  proof -
    from inv consider "int (length (units_text (ms_current st))) \<le> n"
      | x where "length (units_text (ms_current st)) \<le> max_piece" "x \<in> us" "source_unit t x" "ms_current st = [x]"
      by (auto simp: merge_inv_def)
    then show ?thesis
    proof cases
      case 2
      have "?lo = su_start x" "p = su_end x" using 2(4) d(1,2) by (simp_all add: cur_start_def)
      moreover have "su_text x = segment 0 (su_end x - su_start x) (su_text x)"
        using source_unit_length [OF 2(3)] segment_all [of "su_text x"] by simp
      ultimately show ?thesis using 2 c by (auto simp: fits_def intro!: bexI [of _ x])
    qed (simp add: fits_def c(3))
  qed
  then have "done_ok t us n (ms_chunks st @ [?c])"
    by (intro done_ok_snoc [OF ok]) (use c d p in \<open>auto simp: chunk_of_def build_chunk_def\<close>)
  moreover have "reach ov (ms_chunks st @ [?c]) ?lo p"
    using reach_snoc [OF sq(1), of ?c] sq c by simp
  moreover have n: "0 \<le> n" "0 \<le> ov" "tracks t (ms_tracker st)" using inv by (simp_all add: merge_inv_def)
  ultimately have "meets ov (ms_chunks st @ [?c]) p p" using d(3) by (intro meets_end)
  then show ?thesis using False p n \<open>done_ok t us n (ms_chunks st @ [?c])\<close>
    by (simp add: merge_inv_def flush_def cur_start_def current_ok_def)
qed

definition piece_chunk :: "split_unit \<Rightarrow> nat \<Rightarrow> span \<Rightarrow> 'l chunk" where
  "piece_chunk x seq s =
     \<lparr>ck_content = segment (fst s) (snd s) (su_text x), ck_context = [], ck_seq = seq,
      ck_start = su_start x + fst s, ck_end = su_start x + snd s, ck_legal = None\<rparr>"

lemma piece_chunk_simps [simp]:
  "ck_content (piece_chunk x seq s) = segment (fst s) (snd s) (su_text x)"
  "ck_context (piece_chunk x seq s) = []" "ck_seq (piece_chunk x seq s) = seq"
  "ck_start (piece_chunk x seq s) = su_start x + fst s" "ck_end (piece_chunk x seq s) = su_start x + snd s"
  by (simp_all add: piece_chunk_def)

lemma forced_chunks_pieces:
  "forced_chunks x seq = map (\<lambda>(k, s). piece_chunk x (seq + k) s) (List.enumerate 0 (forced_spans (su_text x) 0))"
  by (simp add: forced_chunks_def piece_chunk_def split_def)

lemma forced_pieces_ok:
  fixes cs :: "'l chunk list"
  assumes x: "source_unit t x" "x \<in> us" and ov: "0 \<le> ov" and big: "max_piece < length (su_text x)"
  shows "off < length (su_text x) \<Longrightarrow> done_ok t us n cs \<Longrightarrow> reach ov cs s (su_start x + off) \<Longrightarrow> s \<le> su_start x + off \<Longrightarrow>
     length cs = seq + k \<Longrightarrow>
     \<exists>s'. done_ok t us n (cs @ map (\<lambda>(k, s). piece_chunk x (seq + k) s) (List.enumerate k (forced_spans (su_text x) off))) \<and>
       reach ov (cs @ map (\<lambda>(k, s). piece_chunk x (seq + k) s) (List.enumerate k (forced_spans (su_text x) off))) s' (su_end x) \<and>
       s' \<le> su_end x"
proof (induction "su_text x" off arbitrary: cs s k rule: forced_spans.induct)
  case (1 off)
  let ?e = "forced_end (su_text x) off"
  let ?c = "piece_chunk x (seq + k) (off, ?e) :: 'l chunk"
  have len: "length (su_text x) = su_end x - su_start x" "su_start x < su_end x" "su_end x \<le> length t"
    using x source_unit_length [of t x] by (auto simp: source_unit_def)
  have e: "off < ?e" "?e \<le> su_end x - su_start x" "?e \<le> off + max_piece"
    using forced_end_bounds [OF 1(2)] forced_end_max [OF 1(2)] len by auto
  have "segment off ?e (su_text x) = segment (su_start x + off) (su_start x + ?e) t"
    using x e by (simp add: source_unit_def segment_segment)
  then have "chunk_of t ?c"
    using e len by (auto simp: chunk_of_def)
  moreover have "fits us n ?c"
    using x(2) e len big by (auto simp: fits_def intro!: bexI [of _ x])
  ultimately have ok: "done_ok t us n (cs @ [?c])"
    by (intro done_ok_snoc [OF 1(3)]) (use 1(6) in simp_all)
  have re: "reach ov (cs @ [?c]) (su_start x + off) (su_start x + ?e)"
    using reach_snoc [OF 1(4), of ?c] 1(5) e ov by simp
  have un: "forced_spans (su_text x) off = (off, ?e) # forced_spans (su_text x) ?e"
    using 1(2) by (simp add: forced_spans.simps [of _ off])
  show ?case
  proof (cases "?e < length (su_text x)")
    case True
    from 1(1) [OF 1(2) True ok re, of "Suc k"] e 1(6) un show ?thesis by simp
  next
    case False
    then have "forced_spans (su_text x) ?e = []" by (subst forced_spans.simps) simp
    moreover from False have "su_start x + ?e = su_end x" using e len by simp
    ultimately have un': "forced_spans (su_text x) off = [(off, ?e)]" "su_start x + ?e = su_end x"
      using un by simp_all
    from ok re len e show ?thesis
      unfolding un' by (intro exI [of _ "su_start x + off"]) (simp add: un')
  qed
qed

lemma add_unit_inv:
  assumes "merge_inv t us n ov p st" "source_unit t x" "su_start x = p" "x \<in> us"
    and "ms_len st + int (length (su_text x)) \<le> n \<or> ms_current st = [] \<and> length (su_text x) \<le> max_piece"
  shows "merge_inv t us n ov (su_end x)
    (st\<lparr>ms_current := ms_current st @ [x], ms_len := ms_len st + int (length (su_text x))\<rparr>)"
proof -
  let ?lo = "cur_start p (ms_current st)"
  have lo: "cur_start (su_end x) (ms_current st @ [x]) = ?lo"
    using assms(3) by (simp add: cur_start_def hd_append)
  have grow: "tiles t m (su_end x) (ys @ [x])" if "tiles t m p ys" for m ys
    using that assms(2,3) by (auto simp: tiles_append)
  have "current_ok t ?lo p (ms_current st)" using assms(1) by (simp add: merge_inv_def)
  then have "current_ok t ?lo (su_end x) (ms_current st @ [x])"
    unfolding current_ok_def using grow by (metis append_Cons)
  moreover have p: "p < su_end x" "su_end x \<le> length t" using assms(2,3) by (auto simp: source_unit_def)
  moreover have "meets ov (ms_chunks st) ?lo (su_end x)"
    using assms(1) p(1) by (auto simp: merge_inv_def intro: meets_mono)
  ultimately show ?thesis
    using assms(1,2,4,5) unfolding merge_inv_def by (auto simp: lo)
qed

lemma tracker_inv:
  assumes "merge_inv t us n ov p st" "source_unit t x"
  shows "merge_inv t us n ov p (st\<lparr>ms_tracker := ht_update (su_text x) (ms_tracker st)\<rparr>)"
proof -
  have "su_text x = segment (su_start x) (su_end x) t" using assms(2) by (simp add: source_unit_def)
  moreover have "tracks t (ms_tracker st)" using assms(1) by (simp add: merge_inv_def)
  ultimately have "tracks t (ht_update (su_text x) (ms_tracker st))" by (rule tracks_update [rotated])
  with assms(1) show ?thesis by (auto simp: merge_inv_def)
qed

lemma oversized_inv:
  assumes inv: "merge_inv t us n ov p st" and cur: "ms_current st = []" "ms_len st = 0"
    and x: "source_unit t x" "su_start x = p" "x \<in> us" "max_piece < length (su_text x)"
  shows "merge_inv t us n ov (su_end x) (st\<lparr>ms_chunks := ms_chunks st @ forced_chunks x (length (ms_chunks st))\<rparr>)"
proof -
  from inv cur obtain s q where sq: "reach ov (ms_chunks st) s q" "s \<le> p" "p \<le> q" "q \<le> p"
    by (auto simp: merge_inv_def meets_def cur_start_def)
  then have re: "reach ov (ms_chunks st) s (su_start x + 0)" "s \<le> su_start x + 0" using x(2) by auto
  have len: "0 < length (su_text x)" using source_unit_nonempty [OF x(1)] by simp
  have ok: "done_ok t us n (ms_chunks st)" and ov: "0 \<le> ov" using inv by (simp_all add: merge_inv_def)
  from forced_pieces_ok [OF x(1,3) ov x(4) len ok re, of "length (ms_chunks st)" 0]
  obtain s' where s': "done_ok t us n (ms_chunks st @ forced_chunks x (length (ms_chunks st)))"
    "reach ov (ms_chunks st @ forced_chunks x (length (ms_chunks st))) s' (su_end x)" "s' \<le> su_end x"
    by (auto simp: forced_chunks_pieces)
  have "su_end x \<le> length t" using x(1) by (simp add: source_unit_def)
  with s' inv cur show ?thesis
    by (auto simp: merge_inv_def cur_start_def current_ok_def intro: meets_end)
qed

lemma carried_inv:
  fixes st :: "'l merge_state"
  assumes inv: "merge_inv t us n ov p st" and cur: "ms_current st \<noteq> []"
    and x: "su_start x = p" and h: "headers = [] \<or> table_header t headers"
    and r: "carry_over n ov headers x (ms_current st) = (us', len')"
  shows "merge_inv t us n ov p ((flush st)\<lparr>ms_current := us', ms_len := len'\<rparr>) \<and>
    (us' = [] \<or> len' + int (length (su_text x)) \<le> n)"
proof -
  let ?lo = "cur_start p (ms_current st)"
  from inv have c: "current_ok t ?lo p (ms_current st)" and p: "p \<le> length t" by (auto simp: merge_inv_def)
  from carry_over_ok [OF c p x h r] obtain m where m: "?lo \<le> m" "current_ok t m p us'"
    "len' = int (length (units_text us'))" "us' \<noteq> [] \<longrightarrow> len' + int (length (su_text x)) \<le> n"
    "int p - int m \<le> max ov 0" by auto
  have m': "cur_start p us' = m" "m \<le> p"
    using m(2) current_okD [OF m(2)] tiles_le [of t m p] by (auto simp: cur_start_def current_ok_def)
  from inv obtain s q where sq: "reach ov (ms_chunks st) s q" "s \<le> ?lo" "?lo \<le> q" "q \<le> p" "int q - int ?lo \<le> ov"
    by (auto simp: merge_inv_def meets_def)
  let ?c = "build_chunk (ms_current st) (length (ms_chunks st)) :: 'l chunk"
  have ck: "ck_start ?c = ?lo" "ck_end ?c = p"
    using current_okD [OF c cur] cur by (simp_all add: build_chunk_def cur_start_def)
  have "reach ov (ms_chunks st @ [?c]) ?lo p" using reach_snoc [OF sq(1), of ?c] sq ck by simp
  then have re: "reach ov (ms_chunks (flush st)) ?lo p" using cur by (simp add: flush_def)
  have "done_ok t us n (ms_chunks (flush st))" using flush_inv [OF inv] by (simp add: merge_inv_def)
  moreover have "0 \<le> n" "0 \<le> ov" "tracks t (ms_tracker (flush st))"
    using inv flush_inv [OF inv] by (auto simp: merge_inv_def)
  moreover have "meets ov (ms_chunks (flush st)) m p"
    by (rule meetsI [OF re m(1) m'(2) _ order_refl]) (use m(5) calculation in linarith)
  ultimately show ?thesis using m m' p by (cases "us' = []") (auto simp: merge_inv_def)
qed


text \<open>One unit keeps the invariant, whichever path of the loop body it takes.\<close>

lemma track_unit_inv: "merge_inv t us n ov p st \<Longrightarrow> source_unit t x \<Longrightarrow> merge_inv t us n ov p (track_unit x st)"
  by (simp add: track_unit_def Let_def tracker_inv flush_inv)

lemma make_room_inv:
  assumes inv: "merge_inv t us n ov p st" and x: "su_start x = p"
  shows "merge_inv t us n ov p (make_room n ov x st) \<and>
    (ms_current (make_room n ov x st) = [] \<or> ms_len (make_room n ov x st) + int (length (su_text x)) \<le> n)"
proof -
  let ?h = "if n < int (length (get_headers (ms_tracker st))) then [] else get_headers (ms_tracker st)"
  show ?thesis
  proof (cases "n < ms_len st + int (length (su_text x)) + int (length ?h) \<and> ms_current st \<noteq> []")
    case True
    then have "make_room n ov x st =
      (flush st)\<lparr>ms_current := fst (carry_over n ov ?h x (ms_current st)), ms_len := snd (carry_over n ov ?h x (ms_current st))\<rparr>"
      by (simp add: make_room_def Let_def split_def)
    moreover have "?h = [] \<or> table_header t ?h" using inv tracks_header by (auto simp: merge_inv_def)
    ultimately show ?thesis
      using carried_inv [OF inv _ x _ surjective_pairing [of "carry_over n ov ?h x (ms_current st)"]] True by simp
  next
    case False
    then have "make_room n ov x st = st" unfolding make_room_def Let_def by (rule if_not_P)
    with inv False show ?thesis by auto
  qed
qed

lemma hard_limit_inv:
  assumes "merge_inv t us n ov p st" "ms_current st = [] \<or> ms_len st + int (length (su_text x)) \<le> n"
  shows "merge_inv t us n ov p (hard_limit x st) \<and>
    (ms_current (hard_limit x st) = [] \<or> ms_len (hard_limit x st) + int (length (su_text x)) \<le> n)"
  using assms flush_inv [OF assms(1)] by (simp add: hard_limit_def)

lemma merge_step_inv:
  assumes inv: "merge_inv t us n ov p st" and x: "source_unit t x" "su_start x = p" "x \<in> us"
  shows "merge_inv t us n ov (su_end x) (merge_step n ov x st)"
proof (cases "max_piece < length (su_text x)")
  case True
  let ?st = "(flush st)\<lparr>ms_tracker := ht_update (su_text x) (ms_tracker (flush st))\<rparr>"
  have "merge_inv t us n ov p ?st" "ms_current ?st = []" "ms_len ?st = 0"
    using flush_inv [OF inv] tracker_inv [OF _ x(1), of us n ov p "flush st"] by simp_all
  from oversized_inv [OF this x True] True show ?thesis by (simp add: merge_step_def Let_def)
next
  case False
  from make_room_inv [OF track_unit_inv [OF inv x(1)] x(2)]
  have "merge_inv t us n ov p (make_room n ov x (track_unit x st))"
    "ms_current (make_room n ov x (track_unit x st)) = [] \<or>
     ms_len (make_room n ov x (track_unit x st)) + int (length (su_text x)) \<le> n" by auto
  from hard_limit_inv [OF this] add_unit_inv [OF _ x] False
  show ?thesis by (auto simp: merge_step_def Let_def)
qed

lemma merge_fold_inv:
  assumes "merge_inv t us n ov p st" "tiles t p e xs" "set xs \<subseteq> us"
  shows "merge_inv t us n ov e (fold (merge_step n ov) xs st)"
  using assms
proof (induction xs arbitrary: p st)
  case (Cons x xs)
  then show ?case using merge_step_inv [of t us n ov p st x] by auto
qed simp

text \<open>What merging promises for any units that tile the text.\<close>

lemma merge_units_ok:
  assumes "tiles t 0 (length t) us" "us \<noteq> []" "0 \<le> n" "0 \<le> ov"
  shows "covers ov (length t) (merge_units us n ov :: 'l chunk list) \<and>
    done_ok t (set us) n (merge_units us n ov :: 'l chunk list)"
proof -
  let ?init = "\<lparr>ms_tracker = new_header_tracker, ms_chunks = [], ms_current = [], ms_len = 0\<rparr> :: 'l merge_state"
  let ?st = "fold (merge_step n ov) us ?init"
  have "merge_inv t (set us) n ov 0 ?init"
    using assms(3,4) by (auto simp: merge_inv_def done_ok_def numbered_def cur_start_def current_ok_def tracks_new
        intro: meets_end [OF reach_Nil])
  from merge_fold_inv [OF this assms(1)] have inv: "merge_inv t (set us) n ov (length t) ?st" by simp
  note fl = flush_inv [OF inv]
  have m: "merge_units us n ov = ms_chunks (flush ?st)" using assms(2) by (simp add: merge_units_def)
  from fl obtain s q where sq: "reach ov (ms_chunks (flush ?st)) s q" "length t \<le> q" "q \<le> length t"
    by (auto simp: merge_inv_def meets_def cur_start_def)
  have "0 < length t"
    using assms(1,2) by (cases us) (auto simp: source_unit_def)
  with sq have "ms_chunks (flush ?st) \<noteq> []" by (auto simp: reach_def)
  with reach_covers sq(1-3) have "covers ov (length t) (ms_chunks (flush ?st))" by (metis le_antisym)
  with fl m show ?thesis by (simp add: merge_inv_def)
qed

lemma split_text_ok:
  assumes "t \<noteq> []"
  shows "covers (max (cfg_overlap cfg) 0) (length t) (split_text t cfg :: 'l chunk list) \<and>
    done_ok t (set (build_units_with_protection t (protected_spans t) (cfg_separators cfg)
        (if cfg_size cfg \<le> 0 then 512 else cfg_size cfg)))
      (if cfg_size cfg \<le> 0 then 512 else cfg_size cfg) (split_text t cfg :: 'l chunk list)"
proof -
  let ?n = "if cfg_size cfg \<le> 0 then 512 else cfg_size cfg"
  let ?us = "build_units_with_protection t (protected_spans t) (cfg_separators cfg) ?n"
  have "tiles t 0 (length t) ?us" by (rule build_units_tile)
  moreover from this have "?us \<noteq> []" using assms by auto
  moreover have "0 \<le> ?n" by simp
  moreover have "split_text t cfg = merge_units ?us ?n (if cfg_overlap cfg < 0 then 0 else cfg_overlap cfg)"
    using assms by (simp only: split_text_def Let_def if_False)
  moreover have "(if cfg_overlap cfg < 0 then 0 else cfg_overlap cfg) = max (cfg_overlap cfg) 0" by simp
  ultimately have "split_text t cfg = merge_units ?us ?n (max (cfg_overlap cfg) 0)"
    "tiles t 0 (length t) ?us" "?us \<noteq> []" "0 \<le> ?n" by simp_all
  with merge_units_ok [of t ?us ?n "max (cfg_overlap cfg) 0"] show ?thesis by (metis max.cobounded2)
qed


text \<open>The run of the loop that \<^verbatim>\<open>SplitText\<close> makes, with the facts its properties start from.\<close>

definition merge_start :: "'l merge_state" where
  "merge_start = \<lparr>ms_tracker = new_header_tracker, ms_chunks = [], ms_current = [], ms_len = 0\<rparr>"

lemma split_text_run:
  fixes cfg :: splitter_config
  assumes "t \<noteq> []"
  defines "n \<equiv> if cfg_size cfg \<le> 0 then 512 else cfg_size cfg"
  defines "ov \<equiv> if cfg_overlap cfg < 0 then 0 else cfg_overlap cfg"
  defines "us \<equiv> build_units_with_protection t (protected_spans t) (cfg_separators cfg) n"
  shows "merge_inv t (set us) n ov 0 (merge_start :: 'l merge_state)"
    and "tiles t 0 (length t) us"
    and "(split_text t cfg :: 'l chunk list) = ms_chunks (flush (fold (merge_step n ov) us merge_start))"
proof -
  show tiles: "tiles t 0 (length t) us" unfolding us_def by (rule build_units_tile)
  then have us: "us \<noteq> []" using assms(1) by auto
  have "0 \<le> n" "0 \<le> ov" by (simp_all add: n_def ov_def)
  then show "merge_inv t (set us) n ov 0 (merge_start :: 'l merge_state)"
    by (auto simp: merge_inv_def merge_start_def done_ok_def numbered_def cur_start_def current_ok_def tracks_new
        intro: meets_end [OF reach_Nil])
  show "(split_text t cfg :: 'l chunk list) = ms_chunks (flush (fold (merge_step n ov) us merge_start))"
    using assms(1) us
    by (simp only: split_text_def merge_units_def merge_start_def us_def n_def ov_def Let_def if_False)
qed

section \<open>Every chunk ends after the one before it\<close>

text \<open>
  With a budget of at most 7500 runes the absolute maximum never closes a chunk that holds nothing
  new: a chunk is only closed with at least one unit that no earlier chunk holds.
\<close>

definition rising :: "nat \<Rightarrow> 'l merge_state \<Rightarrow> bool" where
  "rising p st \<longleftrightarrow> sorted_wrt (<) (0 # map ck_end (ms_chunks st)) \<and> (\<forall>c \<in> set (ms_chunks st). ck_end c \<le> p)"

definition fresh :: "nat \<Rightarrow> 'l merge_state \<Rightarrow> bool" where
  "fresh p st \<longleftrightarrow> ms_current st = [] \<or> 0 < p \<and> (\<forall>c \<in> set (ms_chunks st). ck_end c < p)"

lemma flush_rising:
  assumes "merge_inv t us n ov p st" "rising p st" "fresh p st"
  shows "rising p (flush st) \<and> fresh p (flush st)"
proof (cases "ms_current st = []")
  case True
  with assms show ?thesis by (simp add: flush_def)
next
  case False
  have "current_ok t (cur_start p (ms_current st)) p (ms_current st)" using assms(1) by (simp add: merge_inv_def)
  from current_okD(2) [OF this False] False assms(2,3) show ?thesis
    by (auto simp: flush_def rising_def fresh_def build_chunk_def sorted_wrt_append)
qed

lemma track_unit_rising:
  "merge_inv t us n ov p st \<Longrightarrow> source_unit t x \<Longrightarrow> rising p st \<Longrightarrow> fresh p st \<Longrightarrow>
     rising p (track_unit x st) \<and> fresh p (track_unit x st)"
  using flush_rising [of t us n ov p "st\<lparr>ms_tracker := ht_update (su_text x) (ms_tracker st)\<rparr>"]
  by (auto simp: track_unit_def Let_def tracker_inv rising_def fresh_def)

lemma make_room_rising:
  assumes "merge_inv t us n ov p st" "rising p st" "fresh p st"
  shows "rising p (make_room n ov x st)"
  using flush_rising [OF assms] assms(2)
  by (simp add: make_room_def Let_def split_def rising_def)

lemma forced_rising:
  fixes cs :: "'l chunk list"
  assumes "source_unit t x"
  shows "off < length (su_text x) \<Longrightarrow> sorted_wrt (<) (0 # map ck_end cs) \<Longrightarrow> \<forall>c \<in> set cs. ck_end c \<le> su_start x + off \<Longrightarrow>
    sorted_wrt (<) (0 # map ck_end (cs @ map (\<lambda>(k, s). piece_chunk x (seq + k) s) (List.enumerate k (forced_spans (su_text x) off)))) \<and>
    (\<forall>c \<in> set (cs @ map (\<lambda>(k, s). piece_chunk x (seq + k) s) (List.enumerate k (forced_spans (su_text x) off))). ck_end c \<le> su_end x)"
proof (induction "su_text x" off arbitrary: cs k rule: forced_spans.induct)
  case (1 off)
  let ?e = "forced_end (su_text x) off"
  let ?c = "piece_chunk x (seq + k) (off, ?e) :: 'l chunk"
  have len: "length (su_text x) = su_end x - su_start x" "su_start x < su_end x"
    using assms source_unit_length [of t x] by (auto simp: source_unit_def)
  have e: "off < ?e" "?e \<le> su_end x - su_start x" using forced_end_bounds [OF 1(2)] len by auto
  have un: "forced_spans (su_text x) off = (off, ?e) # forced_spans (su_text x) ?e"
    using 1(2) by (simp add: forced_spans.simps [of _ off])
  have le: "\<forall>c \<in> set cs. ck_end c < su_start x + ?e" using 1(4) e(1) by fastforce
  then have step: "sorted_wrt (<) (0 # map ck_end (cs @ [?c]))" "\<forall>c \<in> set (cs @ [?c]). ck_end c \<le> su_start x + ?e"
    using 1(3) e(1) by (auto simp: sorted_wrt_append intro: less_imp_le)
  show ?case
  proof (cases "?e < length (su_text x)")
    case True
    from 1(1) [OF 1(2) True step, of "Suc k"] show ?thesis by (simp add: un)
  next
    case False
    then have "forced_spans (su_text x) ?e = []" by (subst forced_spans.simps) simp
    then have "forced_spans (su_text x) off = [(off, ?e)]" by (simp add: un)
    with step e len show ?thesis by fastforce
  qed
qed

lemma merge_step_rising:
  assumes inv: "merge_inv t us n ov p st" and x: "source_unit t x" "su_start x = p"
    and r: "rising p st" "fresh p st" and n: "n \<le> int max_piece"
  shows "rising (su_end x) (merge_step n ov x st) \<and> fresh (su_end x) (merge_step n ov x st)"
proof (cases "max_piece < length (su_text x)")
  case True
  have "rising p (flush st)" using flush_rising [OF inv r] by simp
  moreover have "0 < length (su_text x)" using source_unit_nonempty [OF x(1)] by simp
  ultimately show ?thesis
    using forced_rising [OF x(1), of 0 "ms_chunks (flush st)" "length (ms_chunks (flush st))" 0] True x(2) flush_inv [OF inv]
    by (simp add: merge_step_def Let_def rising_def fresh_def forced_chunks_pieces)
next
  case False
  let ?st = "make_room n ov x (track_unit x st)"
  note tr = track_unit_inv [OF inv x(1)] track_unit_rising [OF inv x(1) r]
  have m: "rising p ?st" using make_room_rising [OF tr(1), of x] tr(2) by simp
  note room = make_room_inv [OF tr(1) x(2)]
  have len0: "ms_current ?st = [] \<Longrightarrow> ms_len ?st = 0" using room by (simp add: merge_inv_def)
  have "\<not> int max_piece < ms_len ?st + int (length (su_text x))"
    using room len0 n False by (cases "ms_current ?st = []") auto
  then have "hard_limit x ?st = ?st" by (simp add: hard_limit_def)
  moreover have "p < su_end x" using x by (simp add: source_unit_def)
  ultimately show ?thesis
    using False m by (auto simp: merge_step_def Let_def rising_def fresh_def)
qed

lemma merge_fold_rising:
  assumes "merge_inv t us n ov p st" "tiles t p e xs" "set xs \<subseteq> us" "rising p st" "fresh p st" "n \<le> int max_piece"
  shows "rising e (fold (merge_step n ov) xs st) \<and> fresh e (fold (merge_step n ov) xs st)"
  using assms
proof (induction xs arbitrary: p st)
  case (Cons x xs)
  then have "merge_inv t us n ov (su_end x) (merge_step n ov x st)"
    "rising (su_end x) (merge_step n ov x st) \<and> fresh (su_end x) (merge_step n ov x st)"
    using merge_step_inv [of t us n ov p st x] merge_step_rising [of t us n ov p st x] by auto
  with Cons.IH [of "su_end x" "merge_step n ov x st"] Cons.prems show ?case by simp
qed simp

lemma split_text_rising:
  fixes cfg :: splitter_config
  assumes "cfg_size cfg \<le> int max_piece"
  shows "sorted_wrt (<) (0 # map ck_end (split_text t cfg :: 'l chunk list))"
proof (cases "t = []")
  case False
  note run = split_text_run(1) [OF False, of cfg, where 'l = 'l] split_text_run(2) [OF False, of cfg]
    split_text_run(3) [OF False, of cfg, where 'l = 'l]
  have n: "(if cfg_size cfg \<le> 0 then 512 else cfg_size cfg) \<le> int max_piece" using assms by (simp add: max_piece_def)
  have "rising 0 (merge_start :: 'l merge_state)" "fresh 0 (merge_start :: 'l merge_state)"
    by (simp_all add: rising_def fresh_def merge_start_def)
  note r = merge_fold_rising [OF run(1,2) order_refl this n]
  from conjunct1 [OF flush_rising [OF merge_fold_inv [OF run(1,2) order_refl] conjunct1 [OF r] conjunct2 [OF r]]]
  show ?thesis unfolding run(3) rising_def by (rule conjunct1)
qed (simp add: split_text_def)


section \<open>Text without tables\<close>

text \<open>Without a pipe there is no table header, and every chunk is exactly the source of its range.\<close>

definition plain :: "runes \<Rightarrow> nat \<Rightarrow> 'l merge_state \<Rightarrow> bool" where
  "plain t p st \<longleftrightarrow>
     ht_inv (ms_tracker st) \<and> active_headers (ms_tracker st) = [] \<and>
     tiles t (cur_start p (ms_current st)) p (ms_current st) \<and>
     (\<forall>c \<in> set (ms_chunks st). ck_content c = segment (ck_start c) (ck_end c) t)"

lemma flush_plain: "plain t p st \<Longrightarrow> plain t p (flush st)"
  using tiles_units_text [of t "cur_start p (ms_current st)" p "ms_current st"]
    tiles_last [of t "cur_start p (ms_current st)" p "ms_current st"]
  by (auto simp: plain_def flush_def build_chunk_def cur_start_def)

lemma track_unit_plain:
  assumes "plain t p st" "124 \<notin> set (su_text x)"
  shows "plain t p (track_unit x st)"
proof -
  have "plain t p (st\<lparr>ms_tracker := ht_update (su_text x) (ms_tracker st)\<rparr>)"
    using assms ht_update_no_pipe ht_update_inv by (simp add: plain_def)
  then show ?thesis by (simp add: track_unit_def Let_def flush_plain)
qed

lemma make_room_plain:
  assumes "plain t p st" "merge_inv t us n ov p st" "su_start x = p"
  shows "plain t p (make_room n ov x st)"
proof -
  obtain us' len' where o: "compute_overlap (ms_current st) ov n (int (length (su_text x))) = (us', len')" by fastforce
  have h: "get_headers (ms_tracker st) = []" using assms(1) by (simp add: plain_def get_headers_def)
  have "current_ok t (cur_start p (ms_current st)) p (ms_current st)" "p \<le> length t"
    using assms(2) by (auto simp: merge_inv_def)
  from compute_overlap_ok [OF this o] obtain m where "tiles t m p us'" by blast
  then have "tiles t (cur_start p us') p us'" by (cases us') (simp_all add: cur_start_def)
  moreover have "carry_over n ov [] x (ms_current st) = (us', len')" by (simp add: carry_over_def o)
  ultimately show ?thesis
    using assms(1) flush_plain [OF assms(1)] by (auto simp: make_room_def h plain_def)
qed

lemma enumerate_Nil_iff [simp]: "List.enumerate n xs = [] \<longleftrightarrow> xs = []"
  by (cases xs) simp_all

lemma last_enumerate: "xs \<noteq> [] \<Longrightarrow> last (List.enumerate n xs) = (n + length xs - 1, last xs)"
  by (induction xs arbitrary: n) auto

lemma enumerate_value: "(k, s) \<in> set (List.enumerate n xs) \<Longrightarrow> s \<in> set xs"
  by (auto simp: in_set_enumerate_eq)

lemma forced_spans_bounds: "(a, b) \<in> set (forced_spans rs off) \<Longrightarrow> a \<le> b \<and> b \<le> length rs"
proof (induction rs off rule: forced_spans.induct)
  case (1 rs off)
  show ?case
  proof (cases "off < length rs")
    case True
    with 1 forced_end_bounds [OF True] show ?thesis by (auto simp: forced_spans.simps [of rs off])
  qed (use 1(2) in \<open>simp add: forced_spans.simps [of rs off]\<close>)
qed

lemma forced_chunks_plain:
  "source_unit t x \<Longrightarrow> c \<in> set (forced_chunks x seq) \<Longrightarrow> ck_content c = segment (ck_start c) (ck_end c) t"
proof -
  assume x: "source_unit t x" and c: "c \<in> set (forced_chunks x seq)"
  from c obtain k s where "c = piece_chunk x (seq + k) s" "s \<in> set (forced_spans (su_text x) 0)"
    by (auto simp: forced_chunks_pieces dest: enumerate_value)
  with x forced_spans_bounds [of "fst s" "snd s" "su_text x" 0] source_unit_length [OF x] show ?thesis
    by (simp add: source_unit_def segment_segment)
qed

lemma merge_step_plain:
  assumes pl: "plain t p st" and inv: "merge_inv t us n ov p st"
    and x: "source_unit t x" "su_start x = p" "124 \<notin> set (su_text x)"
  shows "plain t (su_end x) (merge_step n ov x st)"
proof (cases "max_piece < length (su_text x)")
  case True
  have "plain t p ((flush st)\<lparr>ms_tracker := ht_update (su_text x) (ms_tracker (flush st))\<rparr>)"
    using flush_plain [OF pl] ht_update_no_pipe [OF _ _ x(3)] ht_update_inv by (simp add: plain_def)
  with True flush_inv [OF inv] forced_chunks_plain [OF x(1)] show ?thesis
    by (auto simp: merge_step_def Let_def plain_def cur_start_def)
next
  case False
  let ?st = "hard_limit x (make_room n ov x (track_unit x st))"
  have "plain t p ?st"
    using make_room_plain [OF track_unit_plain [OF pl x(3)] track_unit_inv [OF inv x(1)] x(2)]
    by (simp add: hard_limit_def flush_plain)
  moreover have "cur_start (su_end x) (ms_current ?st @ [x]) = cur_start p (ms_current ?st)"
    using x(2) by (simp add: cur_start_def hd_append)
  ultimately show ?thesis
    using False x(1,2) by (simp add: merge_step_def Let_def plain_def tiles_append)
qed

lemma merge_fold_plain:
  assumes "plain t p st" "merge_inv t us n ov p st" "tiles t p e xs" "set xs \<subseteq> us" "124 \<notin> set t"
  shows "plain t e (fold (merge_step n ov) xs st)"
  using assms
proof (induction xs arbitrary: p st)
  case (Cons x xs)
  then have x: "source_unit t x" "su_start x = p" "tiles t (su_end x) e xs" by auto
  have "set (su_text x) \<subseteq> set t"
    using x(1) by (auto simp: source_unit_def segment_def dest: in_set_takeD in_set_dropD)
  with Cons.prems(5) have "124 \<notin> set (su_text x)" by blast
  from merge_step_plain [OF Cons.prems(1,2) x(1,2) this] merge_step_inv [OF Cons.prems(2) x(1,2)]
    Cons.IH [of "su_end x" "merge_step n ov x st"] x(3) Cons.prems(4,5)
  show ?case by simp
qed simp

lemma split_text_plain:
  fixes cfg :: splitter_config
  assumes "124 \<notin> set t" "c \<in> set (split_text t cfg :: 'l chunk list)"
  shows "ck_content c = segment (ck_start c) (ck_end c) t"
proof -
  have t: "t \<noteq> []" using assms(2) by (auto simp: split_text_def)
  note run = split_text_run(1) [OF t, of cfg, where 'l = 'l] split_text_run(2) [OF t, of cfg]
    split_text_run(3) [OF t, of cfg, where 'l = 'l]
  have "plain t 0 (merge_start :: 'l merge_state)"
    by (simp add: plain_def merge_start_def ht_inv_new cur_start_def) (simp add: new_header_tracker_def)
  from flush_plain [OF merge_fold_plain [OF this run(1,2) order_refl assms(1)]]
  show ?thesis using assms(2) unfolding run(3) plain_def by blast
qed

section \<open>Properties\<close>

lemma split_text_covers:
  fixes cfg :: splitter_config
  assumes "t \<noteq> []"
  shows "covers (max (cfg_overlap cfg) 0) (length t) (split_text t cfg :: 'l chunk list)"
    "\<forall>c \<in> set (split_text t cfg :: 'l chunk list). chunk_of t c"
    "numbered (split_text t cfg :: 'l chunk list)"
  using split_text_ok [OF assms, of cfg, where 'l = 'l] by (simp_all add: done_ok_def)


definition sample_text :: runes where
  "sample_text = [97, 46, 32, 98, 99, 10, 100, 101]"

definition sample_config :: splitter_config where
  "sample_config = default_config\<lparr>cfg_size := 5, cfg_overlap := 2\<rparr>"


text \<open>
  C29: the size budget: a chunk, its repeated header and its overlap included, has at most
  \<^verbatim>\<open>ChunkSize\<close> runes, unless it is a single unit of the text (a protected span such as a table or a code block, or
  what the separators leave of the text between them), whole when that has at most 7500 runes and otherwise a
  piece of it; and no chunk has more runes than the larger of \<^verbatim>\<open>ChunkSize\<close> and 7500.
\<close>

theorem split_text_within_budget:
  assumes "0 < cfg_size cfg" "c \<in> set (split_text t cfg :: 'l chunk list)"
  shows "int (length (ck_content c)) \<le> max (cfg_size cfg) (int max_piece) \<and>
    (int (length (ck_content c)) \<le> cfg_size cfg \<or>
     (\<exists>x \<in> set (build_units_with_protection t (protected_spans t) (cfg_separators cfg) (cfg_size cfg)).
        su_start x \<le> ck_start c \<and> ck_end c \<le> su_end x \<and>
        ck_content c = segment (ck_start c - su_start x) (ck_end c - su_start x) (su_text x) \<and>
        (length (su_text x) \<le> max_piece \<longrightarrow> ck_content c = su_text x)))"
proof -
  have "t \<noteq> []" using assms(2) by (auto simp: split_text_def)
  from split_text_ok [OF this, of cfg, where 'l = 'l] assms
  have "fits (set (build_units_with_protection t (protected_spans t) (cfg_separators cfg) (cfg_size cfg))) (cfg_size cfg) c"
    by (simp add: done_ok_def)
  then show ?thesis unfolding fits_def by (auto simp: max_def)
qed

theorem split_text_within_budget_witness:
  "int (length (ck_content (hd (split_text sample_text sample_config :: nat chunk list)))) \<le> 7500"
proof -
  have "sample_text \<noteq> []" "0 < cfg_size sample_config" "cfg_size sample_config = 5"
    by (simp_all add: sample_text_def sample_config_def)
  moreover have "hd (split_text sample_text sample_config) \<in> set (split_text sample_text sample_config :: nat chunk list)"
    using split_text_ok [OF \<open>sample_text \<noteq> []\<close>, of sample_config, where 'l = nat] by (simp add: covers_def)
  ultimately show ?thesis
    using conjunct1 [OF split_text_within_budget [of sample_config "hd (split_text sample_text sample_config)" sample_text]]
    by (simp add: max_piece_def)
qed

text \<open>
  Child positions follow the parent's content, not the document: a child's range, taken
  relative to its parent, holds the child's text in the parent's content (this is how
  \<^verbatim>\<open>rebuildParentContent\<close> uses it), so below a parent that repeats a table header of \<open>n\<close> runes
  the children's document offsets are \<open>n\<close> too high and the last child ends \<open>n\<close> runes past the end
  of its parent.
\<close>

lemma child_offsets_follow_parent_content:
  fixes parent :: "'l chunk" and child_cfg :: splitter_config and t :: runes
  assumes "chunk_of t parent" "ck_content parent \<noteq> []"
  defines "children \<equiv> map fst (pc_children (split_parent child_cfg parent \<lparr>pc_parents = [], pc_children = []\<rparr>))"
  defines "n \<equiv> length (ck_content parent) - (ck_end parent - ck_start parent)"
  shows "children \<noteq> [] \<and> ck_end (last children) = ck_end parent + n \<and>
    (\<forall>c \<in> set children. has_suffix (ck_content c)
       (segment (ck_start c - ck_start parent) (ck_end c - ck_start parent) (ck_content parent)))"
proof -
  let ?subs = "split_text (ck_content parent) child_cfg :: 'l chunk list"
  from split_text_ok [OF assms(2), of child_cfg, where 'l = 'l]
  have cov: "?subs \<noteq> []" "ck_end (last ?subs) = length (ck_content parent)" and
    ok: "\<forall>c \<in> set ?subs. chunk_of (ck_content parent) c" by (auto simp: covers_def done_ok_def)
  have ch: "children = map (\<lambda>(k, sub). shift_child parent k sub) (List.enumerate 0 ?subs)"
    by (simp add: children_def split_parent_def Let_def split_def)
  have last: "last children = shift_child parent (length ?subs - 1) (last ?subs)"
    using cov(1) by (simp add: ch last_map last_enumerate)
  have "ck_end parent - ck_start parent \<le> length (ck_content parent)" "ck_start parent \<le> ck_end parent"
    using assms(1) has_suffix_length by (fastforce simp: chunk_of_def)+
  with last cov(2) have "ck_end (last children) = ck_end parent + n"
    by (simp add: n_def shift_child_def)
  moreover have "has_suffix (ck_content c)
       (segment (ck_start c - ck_start parent) (ck_end c - ck_start parent) (ck_content parent))"
    if "c \<in> set children" for c
  proof -
    from that obtain k sub where "c = shift_child parent k sub" "sub \<in> set ?subs"
      by (auto simp: ch dest: enumerate_value)
    with ok show ?thesis by (auto simp: shift_child_def chunk_of_def)
  qed
  moreover have "children \<noteq> []" using cov(1) by (cases ?subs) (simp_all add: ch)
  ultimately show ?thesis by blast
qed

definition sample_parent :: "nat chunk" where
  "sample_parent =
     \<lparr>ck_content = [124, 10, 97, 98], ck_context = [], ck_seq = 1, ck_start = 6, ck_end = 8, ck_legal = None\<rparr>"

end
