(* ===== verification/Chunk_Join.thy ===== *)
theory Chunk_Join
  imports Chunk_Split "HOL-Library.Product_Lexorder"
begin

text \<open>
  Putting chunks back together: \<^verbatim>\<open>searchutil/chunkmerge.go\<close> (joins by text, by position, and the
  reconstruction of a document) and \<^verbatim>\<open>chat_pipeline/merge_overlap.go\<close> (the merge of retrieved
  chunks of one document). The JSON reader and writer of the image list are parameters; the score
  is any linear order. Go's \<^verbatim>\<open>sort.Slice\<close> is not stable, so the order among equal scores is not
  used by any lemma.

  The lemmas show that a join keeps what was there, that a trimmed prefix is a copy of the end of
  the text it is joined to, and that the chunks of a document without tables, all retrieved, merge
  to exactly the document.
\<close>

section \<open>Joining two bodies\<close>

definition min_overlap_runes :: nat where "min_overlap_runes = 12"
definition default_search_span :: nat where "default_search_span = 400"

definition contains_chunk_content :: "runes \<Rightarrow> runes \<Rightarrow> bool" where
  "contains_chunk_content whole body =
     (if whole = [] \<or> body = [] then False
      else if whole = body then True
      else min_overlap_runes \<le> length body \<and> contains_sub whole body)"

function join_loop :: "runes \<Rightarrow> runes \<Rightarrow> nat \<Rightarrow> runes option" where
  "join_loop acc nxt k =
     (if k < min_overlap_runes then None
      else if drop (length acc - k) acc = take k nxt then Some (acc @ drop k nxt)
      else join_loop acc nxt (k - 1))"
  by pat_completeness auto
termination
  by (relation "measure (\<lambda>(acc, nxt, k). k)") (auto simp: min_overlap_runes_def)

declare join_loop.simps [simp del]

definition join_chunk_content :: "runes \<Rightarrow> runes \<Rightarrow> runes \<Rightarrow> runes" where
  "join_chunk_content acc nxt separator =
     (if acc = [] then nxt
      else if nxt = [] then acc
      else if contains_chunk_content acc nxt then acc
      else if contains_chunk_content nxt acc then nxt
      else case join_loop acc nxt (min (min (length acc) (length nxt)) default_search_span) of
             Some joined \<Rightarrow> joined
           | None \<Rightarrow> acc @ separator @ nxt)"

definition index_runes :: "runes \<Rightarrow> runes \<Rightarrow> nat \<Rightarrow> nat option" where
  "index_runes haystack needle max_start =
     (if needle = [] \<or> length haystack < length needle then None
      else List.find (\<lambda>i. take (length needle) (drop i haystack) = needle)
             [0..<Suc (min max_start (length haystack - length needle))])"

function overlap_loop :: "runes \<Rightarrow> runes \<Rightarrow> nat \<Rightarrow> nat \<Rightarrow> runes option" where
  "overlap_loop acc nxt head_slack k =
     (if k < min_overlap_runes then None
      else case index_runes nxt (drop (length acc - k) acc) head_slack of
        Some pos \<Rightarrow> Some (acc @ drop (pos + k) nxt)
      | None \<Rightarrow> overlap_loop acc nxt head_slack (k - 1))"
  by pat_completeness auto
termination
  by (relation "measure (\<lambda>(acc, nxt, head_slack, k). k)") (auto simp: min_overlap_runes_def)

declare overlap_loop.simps [simp del]

definition append_with_overlap :: "runes \<Rightarrow> runes \<Rightarrow> int \<Rightarrow> runes" where
  "append_with_overlap acc nxt position_overlap =
     (if acc = [] then nxt
      else if nxt = [] then acc
      else if position_overlap \<le> 0 then acc @ nxt
      else let span = nat position_overlap;
               max_k = min (min (length acc) (length nxt)) (max (span * 3) default_search_span);
               head_slack = max (span * 2) 320
           in case overlap_loop acc nxt head_slack max_k of Some joined \<Rightarrow> joined | None \<Rightarrow> acc @ nxt)"

definition append_with_exact_overlap :: "runes \<Rightarrow> runes \<Rightarrow> int \<Rightarrow> runes option" where
  "append_with_exact_overlap acc nxt overlap =
     (if acc = [] then Some nxt
      else if nxt = [] then Some acc
      else if overlap < 0 then None
      else if overlap = 0 then Some (acc @ nxt)
      else if int (length acc) < overlap \<or> int (length nxt) < overlap then None
      else if drop (length acc - nat overlap) acc \<noteq> take (nat overlap) nxt then None
      else Some (acc @ drop (nat overlap) nxt))"

section \<open>Rebuilding a document\<close>

record text_chunk =
  tc_content :: runes
  tc_index :: int
  tc_start :: int
  tc_end :: int

text \<open>
  The loop of \<^verbatim>\<open>MergeTextChunks\<close> over the chunks in document order. The callers pass no nil
  pointer (with more than one chunk the comparison of the sort would panic on it).
\<close>

definition merge_text_step :: "runes \<Rightarrow> text_chunk \<Rightarrow> runes \<times> int \<Rightarrow> runes \<times> int" where
  "merge_text_step gap_sep c = (\<lambda>(merged, merged_end).
     if tc_content c = [] then (merged, merged_end)
     else if merged = [] then (tc_content c, if 0 < tc_end c then tc_end c else merged_end)
     else if merged_end < tc_start c \<or> tc_end c = 0 then
       (merged @ gap_sep @ tc_content c, if 0 < tc_end c then tc_end c else merged_end)
     else if merged_end < tc_end c then
       (append_with_overlap merged (tc_content c) (merged_end - tc_start c), tc_end c)
     else (merged, merged_end))"

definition merge_text_chunks :: "text_chunk list \<Rightarrow> runes \<Rightarrow> runes" where
  "merge_text_chunks chunks gap_sep =
     fst (fold (merge_text_step gap_sep) (sort_key (\<lambda>c. (tc_start c, tc_index c)) chunks) ([], -1))"

section \<open>Merging search results\<close>

record 's search_result =
  sr_id :: string
  sr_content :: runes
  sr_index :: int
  sr_start :: int
  sr_end :: int
  sr_score :: 's
  sr_sub_ids :: "string list"
  sr_image_info :: string
  sr_revision :: int
  sr_rewritten :: bool

definition append_trusted_content :: "runes \<Rightarrow> runes \<Rightarrow> int \<Rightarrow> runes" where
  "append_trusted_content acc nxt position_overlap =
     (case append_with_exact_overlap acc nxt position_overlap of
        Some merged \<Rightarrow> merged
      | None \<Rightarrow> append_with_overlap acc nxt position_overlap)"

definition chunk_trusted :: "'s search_result \<Rightarrow> bool" where
  "chunk_trusted c \<longleftrightarrow>
     sr_revision c = 0 \<and> \<not> sr_rewritten c \<and> sr_start c < sr_end c \<and>
     int (length (sr_content c)) = sr_end c - sr_start c"

datatype merge_situation = Merge_Separate | Merge_Extend | Merge_Subsume | Merge_Join_Distinct | Merge_Join_Text

definition classify_merge :: "'s search_result \<Rightarrow> int \<Rightarrow> 's search_result \<Rightarrow> merge_situation" where
  "classify_merge last_chunk last_index current =
     (if chunk_trusted last_chunk \<and> chunk_trusted current \<and> sr_start last_chunk \<le> sr_start current then
        if sr_end last_chunk < sr_start current then Merge_Separate
        else if sr_end last_chunk < sr_end current then Merge_Extend
        else if contains_chunk_content (sr_content last_chunk) (sr_content current) then Merge_Subsume
        else Merge_Join_Distinct
      else
        let text_contained = contains_chunk_content (sr_content last_chunk) (sr_content current) \<or>
                             contains_chunk_content (sr_content current) (sr_content last_chunk);
            in_sequence = (sr_index current = last_index + 1)
        in if \<not> text_contained \<and> \<not> in_sequence then Merge_Separate else Merge_Join_Text)"

text \<open>The images of two results, without duplicates or empty URLs; \<open>parse\<close> and \<open>render\<close> are JSON.\<close>

definition unique_images :: "('i \<Rightarrow> string) \<Rightarrow> 'i list \<Rightarrow> 'i list" where
  "unique_images url imgs =
     fold (\<lambda>i acc. if url i \<noteq> [] \<and> url i \<notin> url ` set acc then acc @ [i] else acc) imgs []"

definition merge_image_info ::
  "(string \<Rightarrow> 'i list option) \<Rightarrow> ('i list \<Rightarrow> string option) \<Rightarrow> ('i \<Rightarrow> string) \<Rightarrow>
     's search_result \<Rightarrow> 's search_result \<Rightarrow> 's search_result" where
  "merge_image_info parse render url target source =
     (if sr_image_info source = [] then target
      else case parse (sr_image_info source) of
        None \<Rightarrow> target
      | Some [] \<Rightarrow> target
      | Some (i # is) \<Rightarrow>
          if sr_image_info target \<noteq> [] \<and> parse (sr_image_info target) = None
          then target\<lparr>sr_image_info := sr_image_info source\<rparr>
          else let old = (if sr_image_info target = [] then [] else the (parse (sr_image_info target)))
               in case render (unique_images url (old @ i # is)) of
                    None \<Rightarrow> target
                  | Some json \<Rightarrow> target\<lparr>sr_image_info := json\<rparr>)"

definition record_merged_child ::
  "(string \<Rightarrow> 'i list option) \<Rightarrow> ('i list \<Rightarrow> string option) \<Rightarrow> ('i \<Rightarrow> string) \<Rightarrow>
     's search_result \<Rightarrow> 's search_result \<Rightarrow> 's search_result" where
  "record_merged_child parse render url target source =
     (let target = (if sr_id source \<in> set (sr_sub_ids target) then target
                    else target\<lparr>sr_sub_ids := sr_sub_ids target @ [sr_id source]\<rparr>)
      in merge_image_info parse render url target source)"

text \<open>A group under construction: its result and the last chunk index it holds.\<close>

type_synonym 's merged_group = "'s search_result \<times> int"

definition merge_pair ::
  "(string \<Rightarrow> 'i list option) \<Rightarrow> ('i list \<Rightarrow> string option) \<Rightarrow> ('i \<Rightarrow> string) \<Rightarrow>
     merge_situation \<Rightarrow> 's search_result \<Rightarrow> 's search_result \<Rightarrow> 's search_result" where
  "merge_pair parse render url situation last_chunk current =
     (case situation of
        Merge_Separate \<Rightarrow> last_chunk
      | Merge_Extend \<Rightarrow>
          record_merged_child parse render url
            (last_chunk\<lparr>sr_content := append_trusted_content (sr_content last_chunk) (sr_content current)
                                         (sr_end last_chunk - sr_start current),
                        sr_end := sr_end current\<rparr>) current
      | Merge_Subsume \<Rightarrow> record_merged_child parse render url last_chunk current
      | Merge_Join_Distinct \<Rightarrow>
          record_merged_child parse render url
            (last_chunk\<lparr>sr_content := join_chunk_content (sr_content last_chunk) (sr_content current) [nl, nl]\<rparr>) current
      | Merge_Join_Text \<Rightarrow>
          record_merged_child parse render url
            (last_chunk\<lparr>sr_content := join_chunk_content (sr_content last_chunk) (sr_content current) [nl, nl]\<rparr>) current)"

definition merge_one ::
  "(string \<Rightarrow> 'i list option) \<Rightarrow> ('i list \<Rightarrow> string option) \<Rightarrow> ('i \<Rightarrow> string) \<Rightarrow>
     's::linorder search_result \<Rightarrow> 's merged_group list \<Rightarrow> 's merged_group list" where
  "merge_one parse render url current groups =
     (let (last_chunk, last_index) = last groups;
          situation = classify_merge last_chunk last_index current
      in if situation = Merge_Separate then groups @ [(current, sr_index current)]
         else let r = merge_pair parse render url situation last_chunk current;
                  last_index = (if last_index < sr_index current then sr_index current else last_index);
                  r = (if sr_score r < sr_score current then r\<lparr>sr_score := sr_score current\<rparr> else r)
              in butlast groups @ [(r, last_index)])"

text \<open>The groups at the end, the highest score first.\<close>

definition merge_sequential_chunks ::
  "(string \<Rightarrow> 'i list option) \<Rightarrow> ('i list \<Rightarrow> string option) \<Rightarrow> ('i \<Rightarrow> string) \<Rightarrow>
     's::linorder search_result list \<Rightarrow> 's search_result list" where
  "merge_sequential_chunks parse render url chunks =
     (case chunks of
        [] \<Rightarrow> []
      | c # cs \<Rightarrow>
          rev (sort_key sr_score (map fst (fold (merge_one parse render url) cs [(c, sr_index c)]))))"

section \<open>Joins keep what was there\<close>

lemma index_runesD:
  "index_runes haystack needle max_start = Some pos \<Longrightarrow>
     pos \<le> max_start \<and> pos + length needle \<le> length haystack \<and> take (length needle) (drop pos haystack) = needle"
  by (auto simp: index_runes_def find_Some_iff simp del: upt_Suc split: if_splits)

lemma overlap_loopD:
  "overlap_loop acc nxt slack k = Some joined \<Longrightarrow> k \<le> length acc \<Longrightarrow>
     \<exists>pos n. joined = acc @ drop (pos + n) nxt \<and> min_overlap_runes \<le> n \<and> n \<le> k \<and> pos \<le> slack \<and>
       pos + n \<le> length nxt \<and> segment pos (pos + n) nxt = drop (length acc - n) acc"
proof (induction acc nxt slack k rule: overlap_loop.induct)
  case (1 acc nxt slack k)
  let ?needle = "drop (length acc - k) acc"
  have k: "min_overlap_runes \<le> k" using "1.prems"(1)
    by (simp add: overlap_loop.simps [of acc nxt slack k] split: if_splits)
  show ?case
  proof (cases "index_runes nxt ?needle slack")
    case None
    with "1.prems" k have "overlap_loop acc nxt slack (k - 1) = Some joined"
      by (simp add: overlap_loop.simps [of acc nxt slack k])
    with "1.IH" [OF _ None] "1.prems"(2) k show ?thesis by fastforce
  next
    case (Some pos)
    with "1.prems" k have "joined = acc @ drop (pos + k) nxt"
      by (simp add: overlap_loop.simps [of acc nxt slack k])
    with index_runesD [OF Some] "1.prems"(2) k show ?thesis
      by (intro exI [of _ pos] exI [of _ k]) (simp add: segment_def)
  qed
qed

text \<open>
  \<^verbatim>\<open>AppendWithOverlap\<close> keeps everything it had and adds a suffix of the next body; what it leaves
  out ends with at least twelve runes that the text already ends with.
\<close>

lemma append_with_overlap_spec:
  obtains "append_with_overlap acc nxt po = acc @ nxt"
  | pos n where "append_with_overlap acc nxt po = acc @ drop (pos + n) nxt" "0 < po" "min_overlap_runes \<le> n"
      "pos \<le> max (nat po * 2) 320" "pos + n \<le> length nxt" "segment pos (pos + n) nxt = drop (length acc - n) acc"
proof (cases "acc = [] \<or> nxt = [] \<or> po \<le> 0")
  case True
  then have "append_with_overlap acc nxt po = acc @ nxt" by (auto simp: append_with_overlap_def)
  then show ?thesis by (rule that(1))
next
  case False
  let ?k = "min (min (length acc) (length nxt)) (max (nat po * 3) default_search_span)"
  show ?thesis
  proof (cases "overlap_loop acc nxt (max (nat po * 2) 320) ?k")
    case None
    with False have "append_with_overlap acc nxt po = acc @ nxt" by (simp add: append_with_overlap_def Let_def)
    then show ?thesis by (rule that(1))
  next
    case (Some joined)
    have "?k \<le> length acc" by simp
    from overlap_loopD [OF Some this] obtain pos n where
      "joined = acc @ drop (pos + n) nxt" "min_overlap_runes \<le> n" "pos \<le> max (nat po * 2) 320"
      "pos + n \<le> length nxt" "segment pos (pos + n) nxt = drop (length acc - n) acc" by blast
    moreover from Some False have "append_with_overlap acc nxt po = joined"
      by (simp add: append_with_overlap_def Let_def)
    ultimately show ?thesis using that(2) False by auto
  qed
qed

text \<open>With true positions the exact join puts two overlapping pieces of a text together.\<close>

lemma exact_overlap_segments:
  assumes "s \<le> s'" "s' \<le> e" "e < e'" "e' \<le> length t" "s < e"
  shows "append_with_exact_overlap (segment s e t) (segment s' e' t) (int e - int s') = Some (segment s e' t)"
proof -
  have len: "length (segment s e t) = e - s" "length (segment s' e' t) = e' - s'" using assms by simp_all
  have "0 < length (segment s e t)" "0 < length (segment s' e' t)" using len assms by simp_all
  then have ne: "segment s e t \<noteq> []" "segment s' e' t \<noteq> []" by auto
  have "segment s e' t = segment s e t @ segment e e' t" using assms by (simp add: segment_append)
  moreover have "drop (e - s') (segment s' e' t) = segment e e' t"
    using assms by (simp add: segment_def drop_take)
  moreover have "drop (length (segment s e t) - (e - s')) (segment s e t) = segment s' e t"
    using assms len by (simp add: segment_def drop_take)
  moreover have "take (e - s') (segment s' e' t) = segment s' e t"
    using assms by (simp add: segment_def min_def)
  moreover have "nat (int e - int s') = e - s'" by simp
  ultimately show ?thesis
    using ne len assms by (auto simp: append_with_exact_overlap_def)
qed


section \<open>All chunks of a document merge to the document\<close>

text \<open>A result that carries a chunk as the retrieval loads it: unedited and with its coordinates.\<close>

definition carries :: "'s search_result \<Rightarrow> 'l chunk \<Rightarrow> bool" where
  "carries r c \<longleftrightarrow>
     sr_content r = ck_content c \<and> sr_start r = int (ck_start c) \<and> sr_end r = int (ck_end c) \<and>
     sr_revision r = 0 \<and> \<not> sr_rewritten r"

text \<open>The group so far: the text from 0 to \<open>e\<close>, still trusted.\<close>

definition holds_text :: "runes \<Rightarrow> nat \<Rightarrow> 's search_result \<Rightarrow> bool" where
  "holds_text t e r \<longleftrightarrow>
     sr_content r = segment 0 e t \<and> sr_start r = 0 \<and> sr_end r = int e \<and> sr_revision r = 0 \<and> \<not> sr_rewritten r"

lemma record_merged_child_text: "holds_text t e (record_merged_child parse render url r c) = holds_text t e r"
  by (auto simp: record_merged_child_def merge_image_info_def holds_text_def Let_def
      split: list.splits option.splits if_splits)

lemma merge_one_extends:
  assumes g: "holds_text t e g" "0 < e" "e \<le> length t"
    and c: "carries r c" "ck_content c = segment (ck_start c) (ck_end c) t"
      "ck_start c \<le> e" "e < ck_end c" "ck_end c \<le> length t"
  shows "\<exists>g' i'. merge_one parse render url r [(g, i)] = [(g', i')] \<and> holds_text t (ck_end c) g'"
proof -
  have tr: "chunk_trusted g" "chunk_trusted r"
    using g c by (simp_all add: chunk_trusted_def holds_text_def carries_def)
  have cl: "classify_merge g i r = Merge_Extend"
    using tr g c by (simp add: classify_merge_def holds_text_def carries_def)
  have "append_trusted_content (sr_content g) (sr_content r) (sr_end g - sr_start r) = segment 0 (ck_end c) t"
    using exact_overlap_segments [of 0 "ck_start c" e "ck_end c" t] g c
    by (simp add: append_trusted_content_def holds_text_def carries_def)
  then have "holds_text t (ck_end c) (g\<lparr>sr_content := append_trusted_content (sr_content g) (sr_content r) (sr_end g - sr_start r),
      sr_end := sr_end r\<rparr>)"
    using g(1) c(1) by (simp add: holds_text_def carries_def)
  then have "holds_text t (ck_end c) (merge_pair parse render url Merge_Extend g r)"
    by (simp add: merge_pair_def record_merged_child_text)
  then show ?thesis
    by (simp add: merge_one_def cl Let_def) (simp add: holds_text_def)
qed

lemma merge_all_extends:
  assumes "holds_text t e g" "0 < e" "e \<le> length t" "list_all2 carries rs cs"
    and "\<forall>c \<in> set cs. ck_content c = segment (ck_start c) (ck_end c) t \<and> ck_end c \<le> length t"
    and "successively (linked ov) (c0 # cs)" "ck_end c0 = e" "sorted_wrt (<) (map ck_end (c0 # cs))"
  shows "\<exists>g' i'. fold (merge_one parse render url) rs [(g, i)] = [(g', i')] \<and>
    holds_text t (ck_end (last (c0 # cs))) g'"
  using assms
proof (induction cs arbitrary: rs e g i c0)
  case Nil
  then show ?case by simp
next
  case (Cons c cs)
  then obtain r rs' where rs: "rs = r # rs'" "carries r c" "list_all2 carries rs' cs"
    by (auto simp: list_all2_Cons2)
  have lk: "ck_start c \<le> e" "e < ck_end c" using Cons.prems(6-8) by (auto simp: linked_def)
  have c: "ck_content c = segment (ck_start c) (ck_end c) t" "ck_end c \<le> length t"
    using Cons.prems(5) by auto
  from merge_one_extends [OF Cons.prems(1-3) rs(2) c(1) lk c(2)] obtain g' i' where
    g': "merge_one parse render url r [(g, i)] = [(g', i')]" "holds_text t (ck_end c) g'" by blast
  have "0 < ck_end c" using lk by simp
  from Cons.IH [OF g'(2) this c(2) rs(3) _ _ refl, of i'] Cons.prems(5,6,8) g'(1) rs(1)
  show ?case by auto
qed

lemma split_merge_restores:
  fixes cs :: "'l chunk list"
  assumes t: "t \<noteq> []" "124 \<notin> set t" and cfg: "cfg_size cfg \<le> int max_piece"
    and cs: "cs = split_text t cfg" and rs: "list_all2 carries rs cs"
  shows "\<exists>r. merge_sequential_chunks parse render url rs = [r] \<and> sr_content r = t \<and>
    sr_start r = 0 \<and> sr_end r = int (length t)"
proof -
  from split_text_ok [OF t(1), of cfg, where 'l = 'l] have
    cov: "covers (max (cfg_overlap cfg) 0) (length t) cs" and
    ok: "\<forall>c \<in> set cs. chunk_of t c" by (auto simp: cs done_ok_def)
  have body: "\<forall>c \<in> set cs. ck_content c = segment (ck_start c) (ck_end c) t \<and> ck_end c \<le> length t"
    using ok split_text_plain [OF t(2)] by (auto simp: cs chunk_of_def)
  have up: "sorted_wrt (<) (0 # map ck_end cs)" unfolding cs by (rule split_text_rising [OF cfg])
  from cov obtain c0 cs' where c0: "cs = c0 # cs'" by (cases cs) (auto simp: covers_def)
  with rs obtain r0 rs' where r0: "rs = r0 # rs'" "carries r0 c0" "list_all2 carries rs' cs'"
    by (auto simp: list_all2_Cons2)
  have s0: "ck_start c0 = 0" and e0: "0 < ck_end c0" "ck_end c0 \<le> length t"
    and last: "ck_end (last (c0 # cs')) = length t" and lk: "successively (linked (max (cfg_overlap cfg) 0)) (c0 # cs')"
    using cov up body by (auto simp: c0 covers_def)
  have "holds_text t (ck_end c0) r0" using r0(2) body s0 by (auto simp: holds_text_def carries_def c0)
  from merge_all_extends [OF this e0 r0(3) _ lk refl, of parse render url "sr_index r0"] body up
  obtain g i where g: "fold (merge_one parse render url) rs' [(r0, sr_index r0)] = [(g, i)]"
    "holds_text t (ck_end (last (c0 # cs'))) g" by (auto simp: c0)
  from g(2) have "sr_content g = t \<and> sr_start g = 0 \<and> sr_end g = int (length t)"
    unfolding last by (simp add: holds_text_def segment_all)
  with g(1) show ?thesis by (simp add: merge_sequential_chunks_def r0(1))
qed

section \<open>Properties\<close>

text \<open>
  C30: split and merge are inverse: split any text without a table (no pipe) at any budget up to
  7500 runes and any overlap, retrieve all its chunks unedited, and \<^verbatim>\<open>mergeSequentialChunks\<close>
  returns one result whose content is the text, rune for rune, with its true range.
\<close>

theorem retrieved_chunks_restore_text:
  assumes "t \<noteq> []" "124 \<notin> set t" "cfg_size cfg \<le> int max_piece"
    and "list_all2 carries rs (split_text t cfg :: 'l chunk list)"
  shows "\<exists>r. merge_sequential_chunks parse render url rs = [r] \<and> sr_content r = t \<and>
    sr_start r = 0 \<and> sr_end r = int (length t)"
  by (rule split_merge_restores [OF assms(1-3) refl assms(4)])

definition result_of :: "nat chunk \<Rightarrow> nat search_result" where
  "result_of c =
     \<lparr>sr_id = [], sr_content = ck_content c, sr_index = int (ck_seq c), sr_start = int (ck_start c),
      sr_end = int (ck_end c), sr_score = 1, sr_sub_ids = [], sr_image_info = [], sr_revision = 0,
      sr_rewritten = False\<rparr>"

theorem retrieved_chunks_restore_text_witness:
  "\<exists>r. merge_sequential_chunks (\<lambda>_. None :: string list option) (\<lambda>_. None) (\<lambda>i. i)
     (map result_of (split_text sample_text sample_config)) = [r] \<and> sr_content r = sample_text"
proof -
  have "sample_text \<noteq> []" "124 \<notin> set sample_text" "cfg_size sample_config \<le> int max_piece"
    by (simp_all add: sample_text_def sample_config_def max_piece_def)
  moreover have "list_all2 carries (map result_of (split_text sample_text sample_config))
      (split_text sample_text sample_config :: nat chunk list)"
    by (simp add: list_all2_map1 list_all2_same carries_def result_of_def)
  ultimately show ?thesis
    using retrieved_chunks_restore_text by blast
qed

text \<open>
  A join by text never loses what it had and only drops from the next body a copy of what is
  already there: \<^verbatim>\<open>AppendWithOverlap\<close> returns the old text followed by a suffix of the next body,
  either all of it or, when the positions overlap, what follows at least twelve runes that the old
  text ends with, found within the allowed distance of its start.
\<close>

lemma append_with_overlap_keeps:
  "\<exists>k. append_with_overlap acc nxt po = acc @ drop k nxt \<and>
     (k = 0 \<or> 0 < po \<and>
       (\<exists>pos n. k = pos + n \<and> k \<le> length nxt \<and> min_overlap_runes \<le> n \<and> pos \<le> max (nat po * 2) 320 \<and>
          segment pos k nxt = drop (length acc - n) acc))"
proof (rule append_with_overlap_spec [of acc nxt po], goal_cases)
  case 1
  then show ?case by (intro exI [of _ 0]) simp
next
  case (2 pos n)
  then show ?case by (intro exI [of _ "pos + n"]) auto
qed

end
