(* ===== verification/Chunk_Budget.thy ===== *)
theory Chunk_Budget
  imports Chunk_Split
begin

text \<open>
  Two consequences of the merge loop that the adaptive tiers rest on: a chunk that repeats a table
  header does not fit together with the chunk before it into the budget, so joining small
  neighbours never joins across a repeated header; and a covering chain of chunks reaches every
  position of the text.
\<close>

section \<open>A repeated header means the two chunks do not fit together\<close>

definition headless :: "'l chunk \<Rightarrow> bool" where
  "headless c \<longleftrightarrow> length (ck_content c) = ck_end c - ck_start c"

definition header_room :: "int \<Rightarrow> 'l chunk \<Rightarrow> 'l chunk \<Rightarrow> bool" where
  "header_room n a b \<longleftrightarrow> headless b \<or> n < int (length (ck_content a)) + int (length (ck_content b))"

text \<open>The current chunk has no header, or together with the last chunk and \<open>k\<close> more runes it exceeds the budget.\<close>

definition apart :: "runes \<Rightarrow> int \<Rightarrow> nat \<Rightarrow> int \<Rightarrow> 'l merge_state \<Rightarrow> bool" where
  "apart t n p k st \<longleftrightarrow>
     successively (header_room n) (ms_chunks st) \<and>
     (ms_chunks st \<noteq> [] \<longrightarrow> headless (hd (ms_chunks st))) \<and>
     (tiles t (cur_start p (ms_current st)) p (ms_current st) \<or> ms_chunks st \<noteq> [] \<and>
      n < int (length (ck_content (last (ms_chunks st)))) + int (length (units_text (ms_current st))) + k)"

lemma tiles_length: "tiles t lo p us \<Longrightarrow> p \<le> length t \<Longrightarrow> length (units_text us) = p - lo"
  using tiles_units_text [of t lo p us] tiles_le [of t lo p us] by simp

lemma flush_apart:
  assumes inv: "merge_inv t us n ov p st" and a: "apart t n p 0 st"
  shows "apart t n p k (flush st)"
proof (cases "ms_current st = []")
  case True
  then show ?thesis using a by (auto simp: flush_def apart_def cur_start_def)
next
  case False
  let ?lo = "cur_start p (ms_current st)"
  from inv have cur: "current_ok t ?lo p (ms_current st)" and p: "p \<le> length t" by (auto simp: merge_inv_def)
  let ?c = "build_chunk (ms_current st) (length (ms_chunks st)) :: 'a chunk"
  have c: "ck_start ?c = ?lo" "ck_end ?c = p" "ck_content ?c = units_text (ms_current st)"
    using current_okD [OF cur False] False by (simp_all add: build_chunk_def cur_start_def)
  have "ms_chunks st \<noteq> [] \<Longrightarrow> header_room n (last (ms_chunks st)) ?c" "ms_chunks st = [] \<Longrightarrow> headless ?c"
    using a tiles_length [of t ?lo p "ms_current st"] p c by (auto simp: apart_def header_room_def headless_def)
  then show ?thesis using a False
    by (cases "ms_chunks st = []") (auto simp: apart_def flush_def successively_append_iff cur_start_def)
qed

lemma track_unit_apart:
  assumes "merge_inv t us n ov p st" "source_unit t x" "apart t n p 0 st"
  shows "apart t n p 0 (track_unit x st)"
proof -
  let ?st = "st\<lparr>ms_tracker := ht_update (su_text x) (ms_tracker st)\<rparr>"
  have "apart t n p 0 ?st" using assms(3) by (simp add: apart_def)
  with flush_apart [of t us n ov p ?st 0] assms(1,2) show ?thesis
    by (simp add: track_unit_def Let_def tracker_inv)
qed

lemma carry_over_header:
  assumes cur: "current_ok t lo p cur" and p: "p \<le> length t" "su_start x = p"
    and r: "carry_over n ov headers x cur = (us, len)"
  shows "(\<exists>m. tiles t m p us) \<or> length headers \<le> length (units_text us)"
proof -
  let ?u = "int (length (su_text x))"
  obtain us1 n1 where o: "compute_overlap cur ov n ?u = (us1, n1)" by fastforce
  from compute_overlap_ok [OF cur p(1) o] obtain m where m: "tiles t m p us1" "n1 = int (length (units_text us1))"
    by blast
  obtain us2 n2 where s: "shrink_overlap us1 n1 (n - ?u - int (length headers)) = (us2, n2)" by fastforce
  from shrink_overlap_ok [OF m(1) s m(2)] obtain k where "tiles t k p us2" by blast
  with m(1) r o s show ?thesis
    by (auto simp: carry_over_def Let_def split: if_splits)
qed

lemma tiles_cur_start: "tiles t m p us \<Longrightarrow> tiles t (cur_start p us) p us"
  by (cases us) (simp_all add: cur_start_def)

lemma make_room_apart:
  assumes inv: "merge_inv t us n ov p st" and x: "su_start x = p" and a: "apart t n p 0 st"
  shows "apart t n p (int (length (su_text x))) (make_room n ov x st)"
proof -
  let ?h = "if n < int (length (get_headers (ms_tracker st))) then [] else get_headers (ms_tracker st)"
  obtain us' len where co: "carry_over n ov ?h x (ms_current st) = (us', len)" by fastforce
  show ?thesis
  proof (cases "n < ms_len st + int (length (su_text x)) + int (length ?h) \<and> ms_current st \<noteq> []")
    case True
    then have m: "make_room n ov x st = (flush st)\<lparr>ms_current := us', ms_len := len\<rparr>"
      using co by (simp add: make_room_def Let_def)
    have cur: "current_ok t (cur_start p (ms_current st)) p (ms_current st)" "p \<le> length t"
      using inv by (auto simp: merge_inv_def)
    have last: "ms_chunks (flush st) \<noteq> []" "ck_content (last (ms_chunks (flush st))) = units_text (ms_current st)"
      using True by (simp_all add: flush_def build_chunk_def)
    have len: "ms_len st = int (length (units_text (ms_current st)))" using inv by (simp add: merge_inv_def)
    from carry_over_header [OF cur x co]
    have "tiles t (cur_start p us') p us' \<or>
      n < int (length (units_text (ms_current st))) + int (length (units_text us')) + int (length (su_text x))"
      using tiles_cur_start True len by fastforce
    with flush_apart [OF inv a, of 0] last show ?thesis by (auto simp: m apart_def)
  next
    case False
    then have "make_room n ov x st = st" unfolding make_room_def Let_def by (rule if_not_P)
    with a show ?thesis by (auto simp: apart_def)
  qed
qed

lemma forced_apart:
  assumes "source_unit t x" "successively (header_room n) cs" "cs \<noteq> [] \<longrightarrow> headless (hd cs)"
  shows "successively (header_room n) (cs @ forced_chunks x seq) \<and>
    (cs @ forced_chunks x seq \<noteq> [] \<longrightarrow> headless (hd (cs @ forced_chunks x seq)))"
proof -
  have h: "headless c" if "c \<in> set (forced_chunks x seq)" for c :: "'a chunk"
  proof -
    from that obtain k s where c: "c = piece_chunk x (seq + k) s" "s \<in> set (forced_spans (su_text x) 0)"
      by (auto simp: forced_chunks_pieces dest: enumerate_value)
    with forced_spans_bounds [of "fst s" "snd s" "su_text x" 0] show ?thesis by (simp add: headless_def)
  qed
  have "successively (header_room n) ds \<Longrightarrow> \<forall>c \<in> set es. headless c \<Longrightarrow> successively (header_room n) (ds @ es)"
    for ds es :: "'a chunk list"
  proof (induction es arbitrary: ds)
    case (Cons e es)
    then have "successively (header_room n) (ds @ [e])"
      by (auto simp: successively_append_iff header_room_def)
    from Cons.IH [OF this] Cons.prems(2) show ?case by simp
  qed simp
  with assms(2) h have "successively (header_room n) (cs @ forced_chunks x seq)" by blast
  moreover have "cs @ forced_chunks x seq \<noteq> [] \<Longrightarrow> headless (hd (cs @ forced_chunks x seq))"
    using assms(3) h by (cases cs) (auto simp: hd_append)
  ultimately show ?thesis by blast
qed

lemma merge_step_apart:
  assumes inv: "merge_inv t us n ov p st" and x: "source_unit t x" "su_start x = p"
    and a: "apart t n p 0 st" and n: "n \<le> int max_piece"
  shows "apart t n (su_end x) 0 (merge_step n ov x st)"
proof (cases "max_piece < length (su_text x)")
  case True
  have "successively (header_room n) (ms_chunks (flush st))"
    "ms_chunks (flush st) \<noteq> [] \<longrightarrow> headless (hd (ms_chunks (flush st)))"
    using flush_apart [OF inv a, of 0] by (simp_all add: apart_def)
  from forced_apart [OF x(1) this] True flush_inv [OF inv] show ?thesis
    by (simp add: merge_step_def Let_def apart_def cur_start_def)
next
  case False
  let ?st = "make_room n ov x (track_unit x st)"
  note room = make_room_inv [OF track_unit_inv [OF inv x(1)] x(2)]
  have st: "apart t n p (int (length (su_text x))) ?st"
    by (rule make_room_apart [OF track_unit_inv [OF inv x(1)] x(2) track_unit_apart [OF inv x(1) a]])
  have "ms_current ?st = [] \<Longrightarrow> ms_len ?st = 0" using room by (simp add: merge_inv_def)
  then have "\<not> int max_piece < ms_len ?st + int (length (su_text x))"
    using room False n by (cases "ms_current ?st = []") auto
  then have step: "merge_step n ov x st = ?st\<lparr>ms_current := ms_current ?st @ [x], ms_len := ms_len ?st + int (length (su_text x))\<rparr>"
    using False by (simp add: merge_step_def Let_def hard_limit_def)
  have "cur_start (su_end x) (ms_current ?st @ [x]) = cur_start p (ms_current ?st)"
    using x(2) by (simp add: cur_start_def hd_append)
  moreover have "tiles t (cur_start p (ms_current ?st)) p (ms_current ?st) \<Longrightarrow>
      tiles t (cur_start p (ms_current ?st)) (su_end x) (ms_current ?st @ [x])"
    using x by (auto simp: tiles_append)
  ultimately show ?thesis using st unfolding step by (auto simp: apart_def)
qed

lemma merge_fold_apart:
  assumes "merge_inv t us n ov p st" "tiles t p e xs" "set xs \<subseteq> us" "apart t n p 0 st" "n \<le> int max_piece"
  shows "apart t n e 0 (fold (merge_step n ov) xs st)"
  using assms
proof (induction xs arbitrary: p st)
  case (Cons x xs)
  then have "merge_inv t us n ov (su_end x) (merge_step n ov x st)" "apart t n (su_end x) 0 (merge_step n ov x st)"
    using merge_step_inv [of t us n ov p st x] merge_step_apart [of t us n ov p st x] by auto
  with Cons.IH [of "su_end x" "merge_step n ov x st"] Cons.prems show ?case by simp
qed simp

lemma split_text_header_room:
  fixes cfg :: splitter_config
  assumes "0 < cfg_size cfg" "cfg_size cfg \<le> int max_piece"
  shows "successively (header_room (cfg_size cfg)) (split_text t cfg :: 'l chunk list) \<and>
    (split_text t cfg \<noteq> ([] :: 'l chunk list) \<longrightarrow> headless (hd (split_text t cfg :: 'l chunk list)))"
proof (cases "t = []")
  case False
  note run = split_text_run(1) [OF False, of cfg, where 'l = 'l] split_text_run(2) [OF False, of cfg]
    split_text_run(3) [OF False, of cfg, where 'l = 'l]
  from assms(1) have n: "(if cfg_size cfg \<le> 0 then 512 else cfg_size cfg) = cfg_size cfg" by simp
  have "apart t (cfg_size cfg) 0 0 (merge_start :: 'l merge_state)"
    by (simp add: apart_def merge_start_def cur_start_def)
  note fold = merge_fold_apart [OF run(1) [unfolded n] run(2) [unfolded n] order_refl this assms(2)]
  from flush_apart [OF merge_fold_inv [OF run(1) [unfolded n] run(2) [unfolded n] order_refl] fold, of 0]
  show ?thesis unfolding run(3) n apart_def by blast
qed (simp add: split_text_def)

section \<open>Every position is in a chunk\<close>

definition reaches :: "nat \<Rightarrow> nat \<Rightarrow> 'l chunk list \<Rightarrow> bool" where
  "reaches lo hi cs \<longleftrightarrow> (\<forall>i. lo \<le> i \<longrightarrow> i < hi \<longrightarrow> (\<exists>c \<in> set cs. ck_start c \<le> i \<and> i < ck_end c))"

lemma reaches_append: "reaches lo m cs \<Longrightarrow> reaches m hi ds \<Longrightarrow> reaches lo hi (cs @ ds)"
  unfolding reaches_def by (metis Un_iff linorder_not_le set_append)

lemma linked_reaches: "successively (linked ov) (c # cs) \<Longrightarrow> reaches (ck_start c) (ck_end (last (c # cs))) (c # cs)"
proof (induction cs arbitrary: c)
  case Nil
  then show ?case by (auto simp: reaches_def)
next
  case (Cons d cs)
  then have l: "ck_start d \<le> ck_end c" and r: "reaches (ck_start d) (ck_end (last (d # cs))) (d # cs)"
    by (auto simp: linked_def)
  show ?case
    unfolding reaches_def
  proof (intro allI impI)
    fix i assume i: "ck_start c \<le> i" "i < ck_end (last (c # d # cs))"
    show "\<exists>e \<in> set (c # d # cs). ck_start e \<le> i \<and> i < ck_end e"
    proof (cases "i < ck_end c")
      case False
      with l have "ck_start d \<le> i" by simp
      with r i(2) show ?thesis unfolding reaches_def by (metis last_ConsR list.distinct(1) list.set_intros(2))
    qed (use i(1) in auto)
  qed
qed

lemma covers_reaches: "covers ov n cs \<Longrightarrow> reaches 0 n cs"
  using linked_reaches [of ov "hd cs" "tl cs"] by (cases cs) (auto simp: covers_def)

section \<open>Chunks laid out over a range\<close>

text \<open>
  The chunks of a tier between positions \<open>lo\<close> and \<open>hi\<close>: ranges in order and linked, each chunk the
  text of its range behind an optional table header, and no small neighbour behind a header. Ranges that
  meet can be put together; a tier builds its result this way, section by section.
\<close>

definition laid :: "int \<Rightarrow> int \<Rightarrow> runes \<Rightarrow> nat \<Rightarrow> nat \<Rightarrow> 'l chunk list \<Rightarrow> bool" where
  "laid ov n t lo hi cs \<longleftrightarrow>
     (if cs = [] then lo = hi else ck_start (hd cs) = lo \<and> ck_end (last cs) = hi \<and> headless (hd cs)) \<and>
     successively (linked ov) cs \<and> successively (header_room n) cs \<and> (\<forall>c \<in> set cs. chunk_of t c)"

lemma laid_Nil [simp]: "laid ov n t lo hi [] \<longleftrightarrow> lo = hi"
  by (simp add: laid_def)

lemma linked_meet: "chunk_of t a \<Longrightarrow> chunk_of t b \<Longrightarrow> ck_end a = ck_start b \<Longrightarrow> 0 \<le> ov \<Longrightarrow> linked ov a b"
  by (simp add: linked_def chunk_of_def)

lemma laid_append:
  assumes "laid ov n t lo m cs" "laid ov n t m hi ds" "0 \<le> ov"
  shows "laid ov n t lo hi (cs @ ds)"
proof (cases "cs = [] \<or> ds = []")
  case False
  then have "chunk_of t (last cs)" "chunk_of t (hd ds)" using assms(1,2) by (simp_all add: laid_def)
  with False assms have "linked ov (last cs) (hd ds)" by (intro linked_meet [of t]) (simp_all add: laid_def)
  moreover have "header_room n (last cs) (hd ds)" using False assms(2) by (simp add: laid_def header_room_def)
  ultimately show ?thesis using False assms by (auto simp: laid_def successively_append_iff)
qed (use assms in auto)

lemma laid_one: "chunk_of t c \<Longrightarrow> headless c \<Longrightarrow> laid ov n t (ck_start c) (ck_end c) [c]"
  by (simp add: laid_def)

lemma laid_covers: "laid ov n t 0 (length t) cs \<Longrightarrow> t \<noteq> [] \<Longrightarrow> covers ov (length t) cs"
  by (auto simp: laid_def covers_def split: if_splits)

lemma split_text_laid:
  fixes cfg :: splitter_config
  assumes "0 < cfg_size cfg" "cfg_size cfg \<le> int max_piece"
  shows "laid (max (cfg_overlap cfg) 0) (cfg_size cfg) t 0 (length t) (split_text t cfg :: 'l chunk list)"
proof (cases "t = []")
  case False
  note ok = split_text_covers [OF False, of cfg, where 'l = 'l] and room = split_text_header_room [OF assms, of t, where 'l = 'l]
  from ok(1) have "split_text t cfg \<noteq> ([] :: 'l chunk list)" by (simp add: covers_def)
  with ok room show ?thesis by (simp add: laid_def covers_def)
qed (simp add: split_text_def)

text \<open>A chunk of a segment of the text, moved to the segment's position.\<close>

definition moved :: "nat \<Rightarrow> 'l chunk \<Rightarrow> 'l chunk \<Rightarrow> bool" where
  "moved a sub c \<longleftrightarrow>
     ck_content c = ck_content sub \<and> ck_start c = a + ck_start sub \<and> ck_end c = a + ck_end sub"

lemma moved_chunk_of:
  assumes "moved a sub c" "chunk_of (segment a b t) sub" "a \<le> b" "b \<le> length t"
  shows "chunk_of t c"
proof -
  have "ck_end sub \<le> b - a" using assms(2-4) by (simp add: chunk_of_def)
  with assms show ?thesis by (auto simp: moved_def chunk_of_def segment_segment dest: table_header_segment)
qed

lemma moved_laid:
  assumes "list_all2 (moved a) subs cs" "laid ov n (segment a b t) 0 (b - a) subs" "a \<le> b" "b \<le> length t"
  shows "laid ov n t a b cs"
proof -
  have succ: "successively Q cs" if "successively P subs"
    "\<And>x y u v. P x y \<Longrightarrow> moved a x u \<Longrightarrow> moved a y v \<Longrightarrow> Q u v" for P Q :: "'a chunk \<Rightarrow> 'a chunk \<Rightarrow> bool"
    using assms(1) that(1)
  proof (induction subs cs rule: list_all2_induct)
    case (Cons x xs y ys)
    then show ?case by (cases xs; cases ys) (auto intro: that(2))
  qed simp
  have all: "\<forall>c \<in> set cs. chunk_of t c"
  proof
    fix c assume "c \<in> set cs"
    with assms(1) obtain i where "i < length cs" "c = cs ! i" "length subs = length cs" "moved a (subs ! i) c"
      by (auto simp: list_all2_conv_all_nth in_set_conv_nth)
    then obtain sub where "sub \<in> set subs" "moved a sub c" by (metis nth_mem)
    with assms(2-4) show "chunk_of t c" by (auto simp: laid_def intro: moved_chunk_of)
  qed
  have l: "successively (linked ov) subs" "successively (header_room n) subs"
    using assms(2) by (simp_all add: laid_def)
  have "successively (linked ov) cs" by (rule succ [OF l(1)]) (auto simp: moved_def linked_def)
  moreover have "successively (header_room n) cs"
    by (rule succ [OF l(2)]) (auto simp: moved_def header_room_def headless_def)
  moreover have "cs = [] \<longleftrightarrow> subs = []" using assms(1) by auto
  moreover have "moved a (hd subs) (hd cs) \<and> moved a (last subs) (last cs)" if "cs \<noteq> []"
    using assms(1) that by (cases subs; cases cs) (auto simp: list_all2_conv_all_nth last_conv_nth nth_Cons')
  ultimately show ?thesis using assms(2-4) all
    by (auto simp: laid_def moved_def headless_def)
qed

lemma moved_reaches:
  assumes "list_all2 (moved a) subs cs" "reaches 0 n subs"
  shows "reaches a (a + n) cs"
  unfolding reaches_def
proof (intro allI impI)
  fix i assume "a \<le> i" "i < a + n"
  then have "i - a < n" by simp
  with assms(2) obtain k where k: "k < length subs" "ck_start (subs ! k) \<le> i - a" "i - a < ck_end (subs ! k)"
    by (metis (no_types, lifting) in_set_conv_nth reaches_def zero_le)
  with assms(1) \<open>a \<le> i\<close> have "cs ! k \<in> set cs" "ck_start (cs ! k) \<le> i" "i < ck_end (cs ! k)"
    by (auto simp: list_all2_conv_all_nth moved_def)
  then show "\<exists>c \<in> set cs. ck_start c \<le> i \<and> i < ck_end c" by blast
qed

lemma split_text_moved:
  fixes cfg :: splitter_config and cs :: "'l chunk list"
  assumes "list_all2 (moved a) (split_text (segment a b t) cfg) cs" "a < b" "b \<le> length t"
  shows "(\<forall>c \<in> set cs. chunk_of t c) \<and> reaches a b cs"
proof -
  from assms(2,3) have ne: "segment a b t \<noteq> []" by (auto simp: segment_def)
  note ok = split_text_covers [OF ne, of cfg, where 'l = 'l]
  have "chunk_of t c" if "c \<in> set cs" for c
  proof -
    from that assms(1) obtain k where "k < length cs" "c = cs ! k" "length (split_text (segment a b t) cfg :: 'l chunk list) = length cs"
      "moved a (split_text (segment a b t) cfg ! k) c"
      by (auto simp: list_all2_conv_all_nth in_set_conv_nth)
    with ok(2) moved_chunk_of assms(2,3) show ?thesis by (metis nth_mem order_less_imp_le)
  qed
  moreover from moved_reaches [OF assms(1) covers_reaches [OF ok(1)]] assms(2,3) have "reaches a b cs" by simp
  ultimately show ?thesis by blast
qed

section \<open>Every word is kept\<close>

text \<open>Every character that is not white space, up to position \<open>p\<close>, lies in the range of a chunk.\<close>

definition words_kept :: "runes \<Rightarrow> nat \<Rightarrow> 'l chunk list \<Rightarrow> bool" where
  "words_kept t p cs \<longleftrightarrow>
     (\<forall>i < p. \<not> is_space (t ! i) \<longrightarrow> (\<exists>c \<in> set cs. ck_start c \<le> i \<and> i < ck_end c))"

lemma words_kept_0 [simp]: "words_kept t 0 cs"
  by (simp add: words_kept_def)

lemma words_kept_mono: "words_kept t p cs \<Longrightarrow> q \<le> p \<Longrightarrow> set cs \<subseteq> set ds \<Longrightarrow> words_kept t q ds"
  unfolding words_kept_def by (meson less_le_trans subsetD)

lemma words_kept_reaches: "words_kept t a cs \<Longrightarrow> reaches a b ds \<Longrightarrow> words_kept t b (cs @ ds)"
  unfolding words_kept_def reaches_def by (metis Un_iff linorder_not_le set_append)

lemma words_kept_one: "words_kept t (ck_start c) cs \<Longrightarrow> words_kept t (ck_end c) (cs @ [c])"
  by (rule words_kept_reaches [of t "ck_start c"]) (auto simp: reaches_def)

lemma words_kept_blank:
  assumes "words_kept t a cs" "trim_runes (segment a b t) = []" "b \<le> length t"
  shows "words_kept t b cs"
  unfolding words_kept_def
proof (intro allI impI)
  fix i assume i: "i < b" "\<not> is_space (t ! i)"
  have "i < a"
  proof (rule ccontr)
    assume "\<not> i < a"
    with i(1) assms(3) have "segment a b t ! (i - a) = t ! i" "i - a < length (segment a b t)" by (auto simp: segment_def)
    then have "t ! i \<in> set (segment a b t)" by (metis nth_mem)
    with assms(2) i(2) show False by (simp add: trim_runes_Nil_iff)
  qed
  with assms(1) i(2) show "\<exists>c \<in> set cs. ck_start c \<le> i \<and> i < ck_end c" by (auto simp: words_kept_def)
qed

end
