(* ===== verification/Chunk_Profile.thy ===== *)
theory Chunk_Profile
  imports Chunk_Budget
begin

text \<open>
  \<^verbatim>\<open>chunker/patterns.go\<close>, the heading stack of \<^verbatim>\<open>heading_hierarchy.go\<close> and the document profile of
  \<^verbatim>\<open>profiler.go\<close> with the choice it drives. The profile's fields that only the preview endpoint
  shows (mean and deviation of the line lengths, the code ratio, the detected languages) are left
  out: nothing selects a tier by them.
\<close>

section \<open>Patterns\<close>

abbreviation hspace :: regexp where "hspace \<equiv> one_of [blank, tab]"
abbreviation dot :: regexp where "dot \<equiv> none_of [nl]"
abbreviation digit :: regexp where "digit \<equiv> Rune_In (\<lambda>c. 48 \<le> c \<and> c \<le> 57)"
abbreviation non_white :: regexp where "non_white \<equiv> Rune_In (\<lambda>c. \<not> white c)"

definition between_times :: "nat \<Rightarrow> nat \<Rightarrow> regexp \<Rightarrow> regexp" where  \<comment> \<open>\<^verbatim>\<open>x{m,n}\<close>\<close>
  "between_times m n r = Cat (cats (replicate m r)) (Upto (n - m) r)"

definition at_least :: "nat \<Rightarrow> regexp \<Rightarrow> regexp" where  \<comment> \<open>\<^verbatim>\<open>x{m,}\<close>\<close>
  "at_least m r = Cat (cats (replicate m r)) (Star True r)"

fun alts :: "regexp list \<Rightarrow> regexp" where
  "alts [] = Rune_In (\<lambda>_. False)"
| "alts [r] = r"
| "alts (r # rs) = Alt r (alts rs)"

text \<open>An ASCII word under \<^verbatim>\<open>(?i)\<close>: simple folding also equates the Kelvin sign and the long s.\<close>

definition fold_of :: "rune \<Rightarrow> rune list" where
  "fold_of c =
     (if 97 \<le> c \<and> c \<le> 122 then [c, c - 32] else if 65 \<le> c \<and> c \<le> 90 then [c, c + 32] else [c]) @
     (if c = 107 \<or> c = 75 then [0x212A] else []) @ (if c = 115 \<or> c = 83 then [0x17F] else [])"

definition lit_fold :: "runes \<Rightarrow> regexp" where
  "lit_fold w = cats (map (\<lambda>c. one_of (fold_of c)) w)"

definition markdown_heading_parts :: "regexp list" where
  "markdown_heading_parts =
     [Line_Begin, between_times 1 6 (lit (ascii ''#'')), rep1 (Rune_In white), Cat dot (Star False dot),
      whites, Star True (lit (ascii ''#'')), whites, Line_End]"

definition roman :: regexp where "roman = between_times 1 5 (one_of (ascii ''IVX''))"

definition numbered_section_pattern :: regexp where
  "numbered_section_pattern =
     cats [Line_Begin, Star True hspace,
           Alt (cats [rep1 digit, between_times 1 3 (Cat (lit (ascii ''.'')) (rep1 digit)), optional (lit (ascii ''.''))])
               (Cat (Alt (rep1 digit) roman) (lit (ascii ''.''))),
           rep1 hspace, non_white, Upto 200 dot, Line_End]"

definition capital :: "rune \<Rightarrow> bool" where
  "capital c \<longleftrightarrow> 65 \<le> c \<and> c \<le> 90 \<or> c \<in> {0xC4, 0xD6, 0xDC}"

definition all_caps_heading_pattern :: regexp where
  "all_caps_heading_pattern =
     cats [Line_Begin, Star True hspace, Rune_In capital,
           between_times 3 80 (Rune_In (\<lambda>c. capital c \<or> c = blank \<or> c = 45)),
           optional (lit (ascii '':'')), whites, Line_End]"

definition visual_separator_pattern :: regexp where
  "visual_separator_pattern =
     cats [Line_Begin, Star True hspace,
           alts (map (\<lambda>c. at_least 3 (lit [c])) (ascii ''-=*_'')), Star True hspace, Line_End]"

definition excessive_blanks_pattern :: regexp where
  "excessive_blanks_pattern = at_least 3 (lit [nl])"

definition page_footer_pattern :: regexp where
  "page_footer_pattern =
     cats [Line_Begin, Star True hspace,
           alts [lit_fold (ascii ''Seite''), lit_fold (ascii ''Page''), Cat (lit [0x9875]) (optional (lit [0x7801]))],
           rep1 (Rune_In white), rep1 digit,
           optional (cats [whites, alts [lit_fold (ascii ''von''), lit_fold (ascii ''of''), lit (ascii ''/'')],
                           whites, rep1 digit]),
           Star True hspace, Line_End]"

definition chapter_pattern :: "runes list \<Rightarrow> regexp" where
  "chapter_pattern words =
     cats [Line_Begin, Star True hspace, alts (map lit words), rep1 (Rune_In white),
           Alt (rep1 digit) roman, one_of (ascii ''.: ''), Upto 200 dot, Line_End]"

definition german_chapter_pattern :: regexp where
  "german_chapter_pattern = chapter_pattern [ascii ''Kapitel'', ascii ''Abschnitt'', ascii ''Teil'']"

definition english_chapter_pattern :: regexp where
  "english_chapter_pattern = chapter_pattern [ascii ''Chapter'', ascii ''Section'', ascii ''Part'']"

definition cjk_numerals :: runes where
  "cjk_numerals =
     [0x4E00, 0x4E8C, 0x4E09, 0x56DB, 0x4E94, 0x516D, 0x4E03, 0x516B, 0x4E5D, 0x5341, 0x767E, 0x5343,
      0x96F6, 0x3007]"

definition chinese_chapter_pattern :: regexp where
  "chinese_chapter_pattern =
     cats [Line_Begin, Star True hspace, lit [0x7B2C], Star True hspace,
           rep1 (Rune_In (\<lambda>c. c \<in> set cjk_numerals \<or> 48 \<le> c \<and> c \<le> 57)), Star True hspace,
           alts [lit [0x7AE0], lit [0x8282], lit [0x7BC0], lit [0x90E8, 0x5206], lit [0x7BC7]],
           optional hspace, Upto 200 dot, Line_End]"

definition chapter_patterns_for_langs :: "string list \<Rightarrow> regexp list" where
  "chapter_patterns_for_langs langs =
     (let every = [german_chapter_pattern, english_chapter_pattern, chinese_chapter_pattern] in
      if langs = [] then every
      else let out = concat (map (\<lambda>l. if l = ''de'' then [german_chapter_pattern]
                                      else if l = ''en'' then [english_chapter_pattern]
                                      else if l = ''zh'' then [chinese_chapter_pattern] else []) langs)
           in if out = [] then every else out)"

section \<open>Lines\<close>

text \<open>
  The walk that the splitters and the profiler share: the lines of a text outside fenced code,
  each with its rune offset. A line that begins with three backquotes opens or closes a fence and
  is not one of them.
\<close>

definition fence_line :: "runes \<Rightarrow> bool" where
  "fence_line line \<longleftrightarrow> has_prefix (trim_runes line) (ascii ''```'')"

fun open_lines :: "bool \<Rightarrow> nat \<Rightarrow> runes list \<Rightarrow> (nat \<times> runes) list" where
  "open_lines in_fence pos [] = []"
| "open_lines in_fence pos (line # rest) =
     (let pos' = pos + length line + (if rest \<noteq> [] then 1 else 0) in
      if fence_line line then open_lines (\<not> in_fence) pos' rest
      else (if in_fence then [] else [(pos, line)]) @ open_lines in_fence pos' rest)"

definition lines_of :: "runes \<Rightarrow> (nat \<times> runes) list" where
  "lines_of t = open_lines False 0 (split_at nl t)"

subsection \<open>Positions of lines\<close>

lemma split_at_nonempty: "split_at c t \<noteq> []"
  by (induction t) (auto split: list.splits)

lemma join_split_at: "join_runes [c] (split_at c t) = t"
proof (induction t)
  case (Cons r t)
  then show ?case using split_at_nonempty [of c t] by (auto split: list.splits)
qed simp

lemma open_lines_bounds:
  "(p, line) \<in> set (open_lines f pos ls) \<Longrightarrow> pos \<le> p \<and> p + length line \<le> pos + length (join_runes [nl] ls)"
proof (induction f pos ls rule: open_lines.induct)
  case (2 f pos line' rest)
  show ?case
  proof (cases "rest = []")
    case True
    with "2.prems" show ?thesis by (auto simp: Let_def split: if_splits)
  next
    case False
    from "2.prems" consider "(p, line) = (pos, line')" | g where "(p, line) \<in> set (open_lines g (pos + length line' + 1) rest)"
      "g = (\<not> f) \<and> fence_line line' \<or> g = f \<and> \<not> fence_line line'"
      using False by (auto simp: Let_def split: if_splits)
    then show ?thesis
    proof cases
      case 2
      with "2.IH" False have "pos + length line' + 1 \<le> p \<and>
          p + length line \<le> pos + length line' + 1 + length (join_runes [nl] rest)" by auto
      with False show ?thesis by simp
    qed (use False in simp)
  qed
qed simp

lemma open_lines_sorted: "sorted_wrt (<) (map fst (open_lines f pos ls))"
proof (induction f pos ls rule: open_lines.induct)
  case (2 f pos line' rest)
  have "\<forall>q \<in> set (map fst (open_lines g (pos + length line' + 1) rest)). pos < q" for g
    using open_lines_bounds [of _ _ g "pos + length line' + 1" rest] by fastforce
  with 2 show ?case by (cases "rest = []") (auto simp: Let_def)
qed simp

lemma lines_of_bounds: "(p, line) \<in> set (lines_of t) \<Longrightarrow> p + length line \<le> length t"
  using open_lines_bounds [of p line False 0 "split_at nl t"] by (simp add: lines_of_def join_split_at)

lemma lines_of_sorted: "sorted_wrt (<) (map fst (lines_of t))"
  by (simp add: lines_of_def open_lines_sorted)

definition heading_level :: "runes \<Rightarrow> nat option" where
  "heading_level line = map_option (\<lambda>p. length (group_text 1 p line)) (find_submatch markdown_heading_parts line)"

section \<open>The heading stack\<close>

record hierarchy =
  hh_stack :: "runes list"
  hh_depth :: nat

definition new_hierarchy :: hierarchy where
  "new_hierarchy = \<lparr>hh_stack = replicate 6 [], hh_depth = 0\<rparr>"

definition deepest :: "runes list \<Rightarrow> nat" where
  "deepest stack = fold (\<lambda>i d. if stack ! i \<noteq> [] then i + 1 else d) [0..<6] 0"

definition observe_heading :: "nat \<Rightarrow> runes \<Rightarrow> hierarchy \<Rightarrow> hierarchy" where
  "observe_heading level heading h =
     (let stack = map (\<lambda>i. if i = level - 1 then heading else if level \<le> i then [] else hh_stack h ! i) [0..<6]
      in \<lparr>hh_stack = stack, hh_depth = (if hh_depth h < level then level else deepest stack)\<rparr>)"

definition observe :: "runes \<Rightarrow> hierarchy \<Rightarrow> hierarchy" where
  "observe line h =
     (case find_submatch markdown_heading_parts line of
        None \<Rightarrow> h
      | Some p \<Rightarrow>
          let level = length (group_text 1 p line) in
          if level < 1 \<or> 6 < level then h
          else observe_heading level (trim_runes (group_text 3 p line)) h)"

definition active_levels :: "hierarchy \<Rightarrow> nat list" where
  "active_levels h = filter (\<lambda>i. hh_stack h ! i \<noteq> []) [0..<hh_depth h]"

definition breadcrumb :: "hierarchy \<Rightarrow> runes" where
  "breadcrumb h = (if hh_depth h = 0 then [] else join_runes (ascii '' > '') (map ((!) (hh_stack h)) (active_levels h)))"

definition breadcrumb_with_hashes :: "hierarchy \<Rightarrow> runes" where
  "breadcrumb_with_hashes h =
     (if hh_depth h = 0 then []
      else join_runes [nl] (map (\<lambda>i. replicate (i + 1) 35 @ [blank] @ hh_stack h ! i) (active_levels h)))"

subsection \<open>Its invariant and its meaning\<close>

definition hierarchy_inv :: "hierarchy \<Rightarrow> bool" where
  "hierarchy_inv h \<longleftrightarrow>
     length (hh_stack h) = 6 \<and> hh_depth h \<le> 6 \<and> (\<forall>i < 6. hh_stack h ! i \<noteq> [] \<longrightarrow> i < hh_depth h)"

lemma hierarchy_inv_new: "hierarchy_inv new_hierarchy"
  by (simp add: hierarchy_inv_def new_hierarchy_def nth_replicate)

lemma deepest_bound: "deepest stack \<le> 6 \<and> (\<forall>i < 6. stack ! i \<noteq> [] \<longrightarrow> i < deepest stack)"
proof -
  define f where "f = (\<lambda>i d. if stack ! i \<noteq> [] then i + 1 else d)"
  have "fold f [0..<n] 0 \<le> n \<and> (\<forall>i < n. stack ! i \<noteq> [] \<longrightarrow> i < fold f [0..<n] 0)" for n
  proof (induction n)
    case (Suc n)
    have "fold f [0..<Suc n] 0 = f n (fold f [0..<n] 0)" by simp
    with Suc show ?case by (auto simp: f_def less_Suc_eq le_Suc_eq)
  qed simp
  from this [of 6] show ?thesis unfolding deepest_def f_def .
qed

lemma observe_heading_inv:
  assumes "hierarchy_inv h" "1 \<le> level" "level \<le> 6"
  shows "hierarchy_inv (observe_heading level heading h)"
  using assms deepest_bound [of "map (\<lambda>i. if i = level - 1 then heading else if level \<le> i then [] else hh_stack h ! i) [0..<6]"]
  by (auto simp: hierarchy_inv_def observe_heading_def Let_def)

lemma observe_inv: "hierarchy_inv h \<Longrightarrow> hierarchy_inv (observe line h)"
  by (auto simp: observe_def Let_def not_less Suc_le_eq intro!: observe_heading_inv split: option.splits)

text \<open>The headings in scope: the levels below the new one that were active, then the new one.\<close>

definition scope :: "hierarchy \<Rightarrow> (nat \<times> runes) list" where
  "scope h = map (\<lambda>i. (i + 1, hh_stack h ! i)) (active_levels h)"

lemma active_levels_all:
  "hierarchy_inv h \<Longrightarrow> active_levels h = filter (\<lambda>i. hh_stack h ! i \<noteq> []) [0..<6]"
proof -
  assume h: "hierarchy_inv h"
  then have "[0..<6] = [0..<hh_depth h] @ [hh_depth h..<6]"
    by (metis hierarchy_inv_def le_add_diff_inverse upt_add_eq_append zero_le)
  then have "filter (\<lambda>i. hh_stack h ! i \<noteq> []) [0..<6] =
      active_levels h @ filter (\<lambda>i. hh_stack h ! i \<noteq> []) [hh_depth h..<6]"
    by (simp add: active_levels_def)
  moreover have "filter (\<lambda>i. hh_stack h ! i \<noteq> []) [hh_depth h..<6] = []"
    using h by (auto simp: hierarchy_inv_def filter_empty_conv)
  ultimately show ?thesis by simp
qed

lemma observe_heading_scope:
  assumes h: "hierarchy_inv h" and level: "1 \<le> level" "level \<le> 6"
  shows "scope (observe_heading level heading h) =
    filter (\<lambda>(l, _). l < level) (scope h) @ (if heading = [] then [] else [(level, heading)])"
proof -
  let ?s = "map (\<lambda>i. if i = level - 1 then heading else if level \<le> i then [] else hh_stack h ! i) [0..<6]"
  have split: "[0..<6] = [0..<level - 1] @ (level - 1) # [level..<6]"
  proof -
    have "[0..<6] = [0..<level - 1] @ [level - 1..<6]"
      using level(2) by (metis diff_le_self le_add_diff_inverse le_trans upt_add_eq_append zero_le)
    also have "[level - 1..<6] = (level - 1) # [Suc (level - 1)..<6]" using level by (intro upt_conv_Cons) simp
    finally show ?thesis using level(1) by simp
  qed
  have st: "hh_stack (observe_heading level heading h) = ?s" by (simp add: observe_heading_def Let_def)
  have new: "active_levels (observe_heading level heading h) = filter (\<lambda>i. ?s ! i \<noteq> []) [0..<6]"
    using active_levels_all [OF observe_heading_inv [OF h level]] st by simp
  have lo: "filter (\<lambda>i. ?s ! i \<noteq> []) [0..<level - 1] = filter (\<lambda>i. hh_stack h ! i \<noteq> []) [0..<level - 1]"
    using level by (intro filter_cong) auto
  have hi: "filter (\<lambda>i. ?s ! i \<noteq> []) [level..<6] = []"
    using level by (auto simp: filter_empty_conv)
  have "active_levels (observe_heading level heading h) =
    filter (\<lambda>i. hh_stack h ! i \<noteq> []) [0..<level - 1] @ (if heading = [] then [] else [level - 1])"
    unfolding new by (subst split) (use lo hi level in \<open>simp del: upt_Suc\<close>)
  moreover have "filter (\<lambda>i. hh_stack h ! i \<noteq> []) [0..<level - 1] = filter (\<lambda>i. i + 1 < level) (active_levels h)"
  proof -
    have "filter (\<lambda>i. i + 1 < level) [0..<6] = [0..<level - 1]"
    proof -
      have "filter (\<lambda>i. i + 1 < level) [0..<level - 1] = [0..<level - 1]" by (auto simp: filter_id_conv)
      moreover have "filter (\<lambda>i. i + 1 < level) [level..<6] = []" by (auto simp: filter_empty_conv)
      ultimately show ?thesis by (subst split) (use level in simp)
    qed
    then have "filter (\<lambda>i. hh_stack h ! i \<noteq> []) [0..<level - 1] =
        filter (\<lambda>i. hh_stack h ! i \<noteq> []) (filter (\<lambda>i. i + 1 < level) [0..<6])" by simp
    also have "\<dots> = filter (\<lambda>i. i + 1 < level) (active_levels h)"
      unfolding active_levels_all [OF h] by (simp add: conj_commute)
    finally show ?thesis .
  qed
  ultimately have act: "active_levels (observe_heading level heading h) =
    filter (\<lambda>i. i + 1 < level) (active_levels h) @ (if heading = [] then [] else [level - 1])" by simp
  have "map (\<lambda>i. (i + 1, ?s ! i)) (filter (\<lambda>i. i + 1 < level) (active_levels h)) =
      filter (\<lambda>(l, _). l < level) (scope h)"
    using level by (auto simp: scope_def filter_map comp_def intro!: map_cong)
  then show ?thesis using level by (simp add: scope_def act st)
qed

section \<open>The profile\<close>

record doc_profile =
  total_chars :: nat
  total_lines :: nat
  md_heading_counts :: "(nat \<times> nat) list"
  md_heading_total :: nat
  numbered_section_count :: nat
  all_caps_short_line_count :: nat
  blank_paragraph_breaks :: nat
  form_feed_count :: nat
  visual_sep_count :: nat
  german_chapter_count :: nat
  english_chapter_count :: nat
  chinese_chapter_count :: nat
  repeated_footer_count :: nat
  has_tables :: bool
  has_code :: bool

definition empty_profile :: doc_profile where
  "empty_profile =
     \<lparr>total_chars = 0, total_lines = 0, md_heading_counts = [], md_heading_total = 0, numbered_section_count = 0,
      all_caps_short_line_count = 0, blank_paragraph_breaks = 0, form_feed_count = 0, visual_sep_count = 0,
      german_chapter_count = 0, english_chapter_count = 0, chinese_chapter_count = 0, repeated_footer_count = 0,
      has_tables = False, has_code = False\<rparr>"

definition heading_count :: "doc_profile \<Rightarrow> nat \<Rightarrow> nat" where
  "heading_count p level = (case map_of (md_heading_counts p) level of None \<Rightarrow> 0 | Some n \<Rightarrow> n)"

definition dominant_heading_level :: "doc_profile \<Rightarrow> nat" where
  "dominant_heading_level p =
     (if md_heading_total p = 0 then 0
      else case first_some (\<lambda>l. if 3 \<le> heading_count p l then Some l else None) [1..<7] of
        Some l \<Rightarrow> l
      | None \<Rightarrow> (case first_some (\<lambda>l. if 0 < heading_count p l then Some l else None) (rev [1..<7]) of
          Some l \<Rightarrow> l
        | None \<Rightarrow> 0))"

definition heuristic_marker_total :: "doc_profile \<Rightarrow> nat" where
  "heuristic_marker_total p =
     numbered_section_count p + german_chapter_count p + english_chapter_count p + chinese_chapter_count p +
     all_caps_short_line_count p + visual_sep_count p + form_feed_count p"

text \<open>\<^verbatim>\<open>strings.Count\<close> for a non-empty needle: occurrences that do not overlap.\<close>

function count_sub :: "runes \<Rightarrow> runes \<Rightarrow> nat" where
  "count_sub t w =
     (if w = [] \<or> length t < length w then 0
      else if take (length w) t = w then 1 + count_sub (drop (length w) t) w
      else count_sub (tl t) w)"
  by pat_completeness auto
termination
  by (relation "measure (\<lambda>(t, w). length t)") (auto simp flip: length_greater_0_conv)

declare count_sub.simps [simp del]

definition profile_line :: "runes \<Rightarrow> doc_profile \<Rightarrow> doc_profile" where
  "profile_line line p =
     (case heading_level line of
        Some level \<Rightarrow>
          p\<lparr>md_heading_counts := AList.update level (heading_count p level + 1) (md_heading_counts p),
            md_heading_total := md_heading_total p + 1\<rparr>
      | None \<Rightarrow>
          let hit = (\<lambda>r. if match_string r line then 1 else 0); trimmed = trim_runes line in
          p\<lparr>numbered_section_count := numbered_section_count p + hit numbered_section_pattern,
            german_chapter_count := german_chapter_count p + hit german_chapter_pattern,
            english_chapter_count := english_chapter_count p + hit english_chapter_pattern,
            chinese_chapter_count := chinese_chapter_count p + hit chinese_chapter_pattern,
            all_caps_short_line_count := all_caps_short_line_count p + hit all_caps_heading_pattern,
            visual_sep_count := visual_sep_count p + hit visual_separator_pattern,
            repeated_footer_count := repeated_footer_count p + hit page_footer_pattern,
            has_tables := (has_tables p \<or> has_prefix trimmed [124] \<and> has_suffix trimmed [124])\<rparr>)"

definition profile_document :: "runes \<Rightarrow> doc_profile" where
  "profile_document t =
     (if t = [] then empty_profile
      else fold profile_line (map snd (lines_of t))
        (empty_profile\<lparr>total_chars := length t, total_lines := length (split_at nl t),
           form_feed_count := count_sub t [12], blank_paragraph_breaks := count_sub t [nl, nl, nl],
           has_code := (\<exists>line \<in> set (split_at nl t). fence_line line)\<rparr>))"

end
