(* ===== verification/Legal_Structure.thy ===== *)
theory Legal_Structure
  imports Chunk_Profile "HOL-Library.Product_Lexorder"
begin

text \<open>
  \<^verbatim>\<open>vietnamese_legal/structure.go\<close>: the headings Phan, Chuong, Muc and Dieu of a legal text, the
  paths of headings its chunks carry, and the conservative parser of the khoan and diem markers
  below an article. The byte offsets the code keeps inside are represented by the rune positions
  they denote. The Unicode classes of letters, digits and case are a parameter; the pairs of upper
  and lower case of the letters the patterns name are written out.
\<close>

section \<open>Letters\<close>

record unicode_tables =
  uc_word :: "rune \<Rightarrow> bool"    \<comment> \<open>\<^verbatim>\<open>[\p{L}\p{N}_]\<close> under \<^verbatim>\<open>(?i)\<close>\<close>
  uc_lower :: "rune \<Rightarrow> bool"   \<comment> \<open>\<^verbatim>\<open>unicode.IsLower\<close>\<close>
  uc_upper :: "rune \<Rightarrow> bool"   \<comment> \<open>\<^verbatim>\<open>unicode.IsUpper\<close>\<close>

definition viet_pairs :: "(rune \<times> rune) list" where
  "viet_pairs =
     [(0x1EA7, 0x1EA6), (0x1B0, 0x1AF), (0x1A1, 0x1A0), (0x1EE5, 0x1EE4), (0x111, 0x110), (0x1EC1, 0x1EC0),
      (0x1EA3, 0x1EA2), (0x1EC3, 0x1EC2), (0x1EE9, 0x1EE8)]"

definition viet_fold :: "rune \<Rightarrow> rune list" where
  "viet_fold c = fold_of c @ concat (map (\<lambda>p. if c = fst p then [snd p] else if c = snd p then [fst p] else []) viet_pairs)"

text \<open>\<^verbatim>\<open>strings.ToLower\<close> on the runes the patterns below match.\<close>

definition lower_rune :: "rune \<Rightarrow> rune" where
  "lower_rune c =
     (if 65 \<le> c \<and> c \<le> 90 then c + 32 else if c = 0x212A then 107
      else case find (\<lambda>p. snd p = c) viet_pairs of Some p \<Rightarrow> fst p | None \<Rightarrow> c)"

definition word_fold :: "runes \<Rightarrow> regexp" where
  "word_fold w = cats (map (\<lambda>c. one_of (viet_fold c)) w)"

definition phan_word :: runes where "phan_word = ascii ''ph'' @ [0x1EA7] @ ascii ''n''"
definition chuong_word :: runes where "chuong_word = ascii ''ch'' @ [0x1B0, 0x1A1] @ ascii ''ng''"
definition muc_word :: runes where "muc_word = ascii ''m'' @ [0x1EE5] @ ascii ''c''"
definition dieu_word :: runes where "dieu_word = [0x111] @ ascii ''i'' @ [0x1EC1] @ ascii ''u''"
definition khoan_word :: runes where "khoan_word = ascii ''kho'' @ [0x1EA3] @ ascii ''n''"
definition diem_word :: runes where "diem_word = [0x111] @ ascii ''i'' @ [0x1EC3] @ ascii ''m''"
definition thu_word :: runes where "thu_word = ascii ''th'' @ [0x1EE9]"

definition level_phan :: nat where "level_phan = 1"
definition level_chuong :: nat where "level_chuong = 2"
definition level_muc :: nat where "level_muc = 3"
definition level_dieu :: nat where "level_dieu = 4"

definition heading_levels :: "(runes \<times> nat) list" where
  "heading_levels =
     [(phan_word, level_phan), (chuong_word, level_chuong), (muc_word, level_muc), (dieu_word, level_dieu)]"

section \<open>Patterns\<close>

abbreviation letter_fold :: regexp where
  "letter_fold \<equiv> Rune_In (\<lambda>c. 65 \<le> c \<and> c \<le> 90 \<or> 97 \<le> c \<and> c \<le> 122 \<or> c = 0x17F \<or> c = 0x212A)"

abbreviation roman_upper :: regexp where "roman_upper \<equiv> rep1 (one_of (ascii ''IVXLCDM''))"

definition heading_parts :: "unicode_tables \<Rightarrow> regexp list" where
  "heading_parts u =
     [Line_Begin, Star True hspace,
      optional (Cat (between_times 1 6 (lit (ascii ''#''))) (Star True hspace)),
      optional (Cat (between_times 1 3 (one_of (ascii ''*_''))) (Star True hspace)),
      alts (map word_fold [phan_word, chuong_word, muc_word, dieu_word]),
      rep1 hspace,
      alts [cats [word_fold thu_word, rep1 hspace, rep1 (Rune_In (uc_word u))],
            Cat roman_upper Word_Boundary,
            Cat (rep1 digit) (optional letter_fold)],
      Star True (none_of [nl])]"

definition dieu_rest_pattern :: regexp where
  "dieu_rest_pattern =
     cats [Text_Begin, Star True hspace, Upto 3 (one_of (ascii ''*_'')), Star True hspace, one_of (ascii ''.:'')]"

definition ref_cont_pattern :: "unicode_tables \<Rightarrow> regexp" where
  "ref_cont_pattern u =
     cats [Text_Begin, alts (map word_fold [phan_word, chuong_word, muc_word, dieu_word, khoan_word, diem_word]),
           rep1 hspace,
           alts [cats [word_fold thu_word, rep1 hspace, rep1 (Rune_In (uc_word u))],
                 Cat roman_upper Word_Boundary, digit]]"

definition emph_pattern :: regexp where "emph_pattern = rep1 (one_of (ascii ''*_''))"
definition ws_pattern :: regexp where "ws_pattern = rep1 (Rune_In white)"

definition dieu_component_parts :: "regexp list" where
  "dieu_component_parts =
     [Text_Begin, whites, word_fold dieu_word, rep1 (Rune_In white),
      Cat (rep1 digit) (optional letter_fold), Word_Boundary]"

section \<open>Headings\<close>

record legal_heading =
  lh_start :: nat
  lh_level :: nat
  lh_title :: runes

definition max_dieu_per_chunk :: nat where "max_dieu_per_chunk = 8"
definition min_dieu_headings :: nat where "min_dieu_headings = 3"

definition without_emphasis :: "runes \<Rightarrow> runes" where
  "without_emphasis t = trim_runes (replace_all_string emph_pattern [] t)"

definition upper_rest_ok :: "unicode_tables \<Rightarrow> runes \<Rightarrow> bool" where
  "upper_rest_ok u rest =
     (case without_emphasis rest of
        [] \<Rightarrow> True
      | first # others \<Rightarrow>
          if first \<in> set (ascii ''.:-'') \<union> {0x2013, 0x2014} then True
          else if match_string (ref_cont_pattern u) (first # others) then False
          else \<not> uc_lower u first)"

fun next_line_title :: "unicode_tables \<Rightarrow> runes list \<Rightarrow> bool" where
  "next_line_title u [] = False"
| "next_line_title u (line # rest) =
     (case without_emphasis line of
        [] \<Rightarrow> next_line_title u rest
      | first # others \<Rightarrow> uc_upper u first \<and> \<not> match_string (ref_cont_pattern u) (first # others))"

definition dieu_rest_ok :: "unicode_tables \<Rightarrow> runes \<Rightarrow> runes \<Rightarrow> nat \<Rightarrow> bool" where
  "dieu_rest_ok u rest t match_end =
     (if match_string dieu_rest_pattern rest then True
      else if without_emphasis rest \<noteq> [] then False
      else next_line_title u (tl (split_at nl (drop match_end t))))"

definition heading_title :: "runes \<Rightarrow> runes \<Rightarrow> runes \<Rightarrow> runes" where
  "heading_title kw num rest =
     trim_right_runes (\<lambda>c. c \<in> set (ascii '' .:''))
       (trim_runes (replace_all_string ws_pattern [blank]
          (replace_all_string emph_pattern [blank] (kw @ [blank] @ num @ rest))))"

definition accept_heading :: "unicode_tables \<Rightarrow> runes \<Rightarrow> nat list \<Rightarrow> legal_heading list" where
  "accept_heading u t m =
     (let kw = group_text 4 m t; num = group_text 6 m t; rest = group_text 7 m t in
      case map_of heading_levels (map lower_rune kw) of
        None \<Rightarrow> []
      | Some level \<Rightarrow>
          if (if level = level_dieu then dieu_rest_ok u rest t (m ! 8) else upper_rest_ok u rest)
          then let title = heading_title kw num rest in
               if title \<noteq> [] then [\<lparr>lh_start = m ! 0, lh_level = level, lh_title = title\<rparr>] else []
          else [])"

definition iter_headings :: "unicode_tables \<Rightarrow> runes \<Rightarrow> legal_heading list" where
  "iter_headings u t = concat (map (accept_heading u t) (find_all_submatch (heading_parts u) t))"

definition find_headings :: "unicode_tables \<Rightarrow> runes \<Rightarrow> legal_heading list" where
  "find_headings u t = iter_headings u t"

definition dieu_count :: "legal_heading list \<Rightarrow> nat" where
  "dieu_count hs = length (filter (\<lambda>h. lh_level h = level_dieu) hs)"

definition has_legal_structure :: "unicode_tables \<Rightarrow> runes \<Rightarrow> bool" where
  "has_legal_structure u t \<longleftrightarrow> min_dieu_headings \<le> dieu_count (iter_headings u t)"

section \<open>Paths\<close>

text \<open>Appending what is not yet there, as the loops with \<^verbatim>\<open>contains\<close> and \<^verbatim>\<open>seen\<close> do.\<close>

definition add_new :: "'a \<Rightarrow> 'a list \<Rightarrow> 'a list" where
  "add_new x xs = (if x \<in> set xs then xs else xs @ [x])"

definition add_all :: "'a list \<Rightarrow> 'a list" where
  "add_all xs = fold add_new xs []"

definition article_no :: "runes \<Rightarrow> runes option" where
  "article_no component =
     map_option (\<lambda>m. map lower_rune (group_text 4 m component)) (find_submatch dieu_component_parts component)"

definition extract_article_nos :: "runes list \<Rightarrow> runes list" where
  "extract_article_nos components = add_all (List.map_filter article_no components)"

type_synonym open_headings = "nat \<Rightarrow> runes option"

definition observe_legal :: "legal_heading \<Rightarrow> open_headings \<Rightarrow> open_headings" where
  "observe_legal h state = (\<lambda>lv. if lh_level h \<le> lv then None else state lv)(lh_level h \<mapsto> lh_title h)"

definition chunk_path :: "unicode_tables \<Rightarrow> runes \<Rightarrow> open_headings \<Rightarrow> runes list \<times> open_headings" where
  "chunk_path u t state =
     (let headings = iter_headings u t;
          dieu_at_start = (case state level_dieu of None \<Rightarrow> [] | Some d \<Rightarrow> d);
          starts_mid_article = (headings \<noteq> [] \<and> dieu_at_start \<noteq> [] \<and> trim_runes (take (lh_start (hd headings)) t) \<noteq> []);
          dieu_in_chunk = map lh_title (filter (\<lambda>h. lh_level h = level_dieu) headings);
          state' = fold observe_legal headings state;
          upper = List.map_filter state' [level_phan, level_chuong, level_muc];
          dieu_comps = (if dieu_at_start \<noteq> [] \<and> (headings = [] \<or> starts_mid_article) then [dieu_at_start] else [])
                         @ dieu_in_chunk
      in (upper @ take max_dieu_per_chunk (add_all dieu_comps), state'))"

primrec heading_paths :: "unicode_tables \<Rightarrow> open_headings \<Rightarrow> runes list \<Rightarrow> runes list list" where
  "heading_paths u state [] = []"
| "heading_paths u state (t # ts) =
     (let (path, state') = chunk_path u t state in path # heading_paths u state' ts)"

definition derive_heading_paths :: "unicode_tables \<Rightarrow> runes list \<Rightarrow> runes list list" where
  "derive_heading_paths u texts = heading_paths u (\<lambda>_. None) texts"

section \<open>Candidates for khoan and diem\<close>

definition heading_prefix :: regexp where
  "heading_prefix = optional (Cat (between_times 1 6 (lit (ascii ''#''))) (Star True hspace))"

definition bullet_prefix :: regexp where
  "bullet_prefix = optional (Cat (one_of (ascii ''-*'' @ [0x2022])) (rep1 hspace))"

definition diem_letter :: "rune \<Rightarrow> bool" where
  "diem_letter c \<longleftrightarrow> 97 \<le> c \<and> c \<le> 122 \<or> c = 0x111"

definition glued_diem_parts :: "regexp list" where
  "glued_diem_parts =
     [Line_Begin, Upto 3 hspace, bullet_prefix, between_times 1 2 digit, lit (ascii ''.''), rep1 hspace,
      Rune_In diem_letter, Alt (Cat (Star True hspace) (lit (ascii '')''))) (Cat (Star True hspace) Line_End)]"

definition khoan_candidate_parts :: "regexp list" where
  "khoan_candidate_parts =
     [Line_Begin, Upto 3 hspace, heading_prefix, bullet_prefix, between_times 1 2 digit, lit (ascii ''.''),
      rep1 hspace, non_white]"

definition glued_tail_pattern :: regexp where
  "glued_tail_pattern = cats [Text_Begin, Star True hspace, Alt (lit (ascii '')'')) Text_End]"

definition diem_candidate_parts :: "regexp list" where
  "diem_candidate_parts =
     [Line_Begin, Upto 3 hspace, heading_prefix, bullet_prefix, Rune_In diem_letter, lit (ascii '')''),
      rep1 hspace, non_white]"

definition diem_order :: runes where
  "diem_order = ascii ''abcd'' @ [0x111] @ ascii ''eghiklmnopqrstuvxy''"

definition khoan_max :: int where "khoan_max = 30"

datatype subdivision_event =
    Ev_Heading legal_heading
  | Ev_Khoan nat runes
  | Ev_Diem nat runes

fun ev_start :: "subdivision_event \<Rightarrow> nat" where
  "ev_start (Ev_Heading h) = lh_start h"
| "ev_start (Ev_Khoan p l) = p"
| "ev_start (Ev_Diem p l) = p"

fun ev_kind :: "subdivision_event \<Rightarrow> nat" where
  "ev_kind (Ev_Heading h) = 0"
| "ev_kind (Ev_Khoan p l) = 1"
| "ev_kind (Ev_Diem p l) = 2"

definition glued_tail :: "runes \<Rightarrow> nat \<Rightarrow> bool" where
  "glued_tail t body_start \<longleftrightarrow>
     diem_letter (t ! body_start) \<and>
     match_string glued_tail_pattern (takeWhile (\<lambda>c. c \<noteq> nl) (drop (Suc body_start) t))"

definition subdivision_events :: "unicode_tables \<Rightarrow> runes \<Rightarrow> subdivision_event list" where
  "subdivision_events u t =
     sort_key (\<lambda>e. (ev_start e, ev_kind e))
       (map Ev_Heading (iter_headings u t) @
        concat (map (\<lambda>m. if glued_tail t (m ! 7) then [] else [Ev_Khoan (m ! 0) (group_text 4 m t)])
                  (find_all_submatch khoan_candidate_parts t)) @
        map (\<lambda>m. Ev_Diem (m ! 0) (group_text 4 m t)) (find_all_submatch diem_candidate_parts t) @
        map (\<lambda>m. Ev_Diem (m ! 0) (group_text 6 m t)) (find_all_submatch glued_diem_parts t))"

section \<open>The parser of khoan and diem\<close>

record subdivision =
  sd_kind :: string
  sd_label :: runes
  sd_start :: nat
  sd_article :: runes
  sd_parent_khoan :: runes

record parse_stats =
  khoan_candidates :: nat
  khoan_accepted :: nat
  diem_candidates :: nat
  diem_accepted :: nat
  ambiguous_rejected :: nat

record parse_state =
  ps_article :: "runes option"
  ps_last_k_val :: int
  ps_last_k_label :: runes
  ps_has_k :: bool
  ps_last_d :: int
  ps_has_d :: bool
  ps_subs :: "subdivision list"
  ps_rejected :: "subdivision list"
  ps_stats :: parse_stats

definition atoi_safe :: "runes \<Rightarrow> int" where
  "atoi_safe s =
     (if \<exists>c \<in> set s. c < 48 \<or> 57 < c then -1 else fold (\<lambda>c n. n * 10 + int (c - 48)) s 0)"

text \<open>\<^verbatim>\<open>strings.IndexRune(diemOrder, r)\<close>: a byte index.\<close>

definition diem_index :: "rune \<Rightarrow> int" where
  "diem_index r =
     (case find (\<lambda>i. diem_order ! i = r) [0..<length diem_order] of
        None \<Rightarrow> -1 | Some i \<Rightarrow> int (byte_off diem_order i))"

definition khoan_fits :: "runes option \<Rightarrow> bool \<Rightarrow> int \<Rightarrow> int \<Rightarrow> bool" where
  "khoan_fits article has_k last_val v \<longleftrightarrow>
     article \<noteq> None \<and> 1 \<le> v \<and> v \<le> khoan_max \<and> (has_k \<and> last_val < v \<or> \<not> has_k \<and> v = 1)"

definition diem_fits :: "runes option \<Rightarrow> bool \<Rightarrow> bool \<Rightarrow> int \<Rightarrow> int \<Rightarrow> bool" where
  "diem_fits article has_k has_d last_d i \<longleftrightarrow>
     article \<noteq> None \<and> has_k \<and> 0 \<le> i \<and> (has_d \<and> last_d < i \<or> \<not> has_d \<and> i = 0)"

definition rejected_subdivision :: "string \<Rightarrow> runes \<Rightarrow> nat \<Rightarrow> runes option \<Rightarrow> subdivision" where
  "rejected_subdivision kind label start article =
     \<lparr>sd_kind = kind, sd_label = label, sd_start = start,
      sd_article = (case article of None \<Rightarrow> [] | Some a \<Rightarrow> a), sd_parent_khoan = []\<rparr>"

definition heading_article :: "legal_heading \<Rightarrow> runes option" where
  "heading_article h = (if lh_level h = level_dieu then article_no (lh_title h) else None)"

fun parse_event :: "subdivision_event \<Rightarrow> parse_state \<Rightarrow> parse_state" where
  "parse_event (Ev_Heading h) st =
     st\<lparr>ps_article := heading_article h, ps_has_k := False, ps_has_d := False, ps_last_k_val := 0,
        ps_last_d := -1, ps_last_k_label := []\<rparr>"
| "parse_event (Ev_Khoan p label) st =
     (let st = st\<lparr>ps_stats := (ps_stats st)\<lparr>khoan_candidates := Suc (khoan_candidates (ps_stats st))\<rparr>\<rparr>;
          v = atoi_safe label
      in if khoan_fits (ps_article st) (ps_has_k st) (ps_last_k_val st) v then
        st\<lparr>ps_stats := (ps_stats st)\<lparr>khoan_accepted := Suc (khoan_accepted (ps_stats st))\<rparr>,
           ps_has_k := True, ps_has_d := False, ps_last_k_val := v, ps_last_k_label := label, ps_last_d := -1,
           ps_subs := ps_subs st @
             [\<lparr>sd_kind = ''khoan'', sd_label = label, sd_start = p, sd_article = the (ps_article st), sd_parent_khoan = []\<rparr>]\<rparr>
      else st\<lparr>ps_stats := (ps_stats st)\<lparr>ambiguous_rejected := Suc (ambiguous_rejected (ps_stats st))\<rparr>,
              ps_rejected := ps_rejected st @ [rejected_subdivision ''khoan'' label p (ps_article st)]\<rparr>)"
| "parse_event (Ev_Diem p label) st =
     (let st = st\<lparr>ps_stats := (ps_stats st)\<lparr>diem_candidates := Suc (diem_candidates (ps_stats st))\<rparr>\<rparr>;
          i = diem_index (hd label)
      in if diem_fits (ps_article st) (ps_has_k st) (ps_has_d st) (ps_last_d st) i then
        st\<lparr>ps_stats := (ps_stats st)\<lparr>diem_accepted := Suc (diem_accepted (ps_stats st))\<rparr>,
           ps_has_d := True, ps_last_d := i,
           ps_subs := ps_subs st @
             [\<lparr>sd_kind = ''diem'', sd_label = label, sd_start = p, sd_article = the (ps_article st),
               sd_parent_khoan = ps_last_k_label st\<rparr>]\<rparr>
      else st\<lparr>ps_stats := (ps_stats st)\<lparr>ambiguous_rejected := Suc (ambiguous_rejected (ps_stats st))\<rparr>,
              ps_rejected := ps_rejected st @ [rejected_subdivision ''diem'' label p (ps_article st)]\<rparr>)"

definition parse_start :: parse_state where
  "parse_start =
     \<lparr>ps_article = None, ps_last_k_val = 0, ps_last_k_label = [], ps_has_k = False, ps_last_d = -1, ps_has_d = False,
      ps_subs = [], ps_rejected = [],
      ps_stats = \<lparr>khoan_candidates = 0, khoan_accepted = 0, diem_candidates = 0, diem_accepted = 0,
                  ambiguous_rejected = 0\<rparr>\<rparr>"

definition parse_subdivisions :: "unicode_tables \<Rightarrow> runes \<Rightarrow> parse_state" where
  "parse_subdivisions u t = fold parse_event (subdivision_events u t) parse_start"

definition find_subdivisions :: "unicode_tables \<Rightarrow> runes \<Rightarrow> subdivision list" where
  "find_subdivisions u t = ps_subs (parse_subdivisions u t)"

section \<open>Khoan and diem of each chunk\<close>

record subdivision_metadata =
  sm_khoan_nos :: "runes list"
  sm_diem_labels :: "runes list"
  sm_refs :: "runes list"

record carry_state =
  cs_article :: "runes option"
  cs_k_val :: int
  cs_k_label :: runes
  cs_d_idx :: int
  cs_d_label :: runes
  cs_has_k :: bool
  cs_has_d :: bool
  cs_meta :: subdivision_metadata  \<comment> \<open>of the chunk being read\<close>

definition khoan_ref :: "runes \<Rightarrow> runes" where
  "khoan_ref k = ascii ''khoan:'' @ k"

definition diem_ref :: "runes \<Rightarrow> runes \<Rightarrow> runes" where
  "diem_ref k d = ascii ''khoan:'' @ k @ ascii ''/diem:'' @ d"

definition add_ref :: "runes \<Rightarrow> runes \<Rightarrow> subdivision_metadata \<Rightarrow> subdivision_metadata" where
  "add_ref k d m =
     (if k = [] then m
      else let m = m\<lparr>sm_khoan_nos := add_new k (sm_khoan_nos m), sm_refs := add_new (khoan_ref k) (sm_refs m)\<rparr>
           in if d = [] then m
              else m\<lparr>sm_diem_labels := add_new d (sm_diem_labels m), sm_refs := add_new (diem_ref k d) (sm_refs m)\<rparr>)"

definition inherit :: "runes \<Rightarrow> nat \<Rightarrow> carry_state \<Rightarrow> carry_state" where
  "inherit t stop st =
     (if cs_k_label st \<noteq> [] \<and> trim_runes (take stop t) \<noteq> []
      then st\<lparr>cs_meta := add_ref (cs_k_label st) (cs_d_label st) (cs_meta st)\<rparr> else st)"

definition reset_carry :: "runes option \<Rightarrow> carry_state \<Rightarrow> carry_state" where
  "reset_carry article st =
     st\<lparr>cs_article := article, cs_has_k := False, cs_has_d := False, cs_k_label := [], cs_d_label := [],
        cs_k_val := 0, cs_d_idx := -1\<rparr>"

fun carry_event :: "runes \<Rightarrow> subdivision_event \<Rightarrow> carry_state \<Rightarrow> carry_state" where
  "carry_event t (Ev_Heading h) st = reset_carry (heading_article h) (inherit t (lh_start h) st)"
| "carry_event t (Ev_Khoan p label) st =
     (let v = atoi_safe label in
      if khoan_fits (cs_article st) (cs_has_k st) (cs_k_val st) v then
        let st = (inherit t p st)\<lparr>cs_has_k := True, cs_has_d := False, cs_k_val := v, cs_k_label := label,
                                   cs_d_idx := -1, cs_d_label := []\<rparr>
        in st\<lparr>cs_meta := add_ref label [] (cs_meta st)\<rparr>
      else st)"
| "carry_event t (Ev_Diem p label) st =
     (let i = diem_index (hd label) in
      if diem_fits (cs_article st) (cs_has_k st) (cs_has_d st) (cs_d_idx st) i then
        let st = (inherit t p st)\<lparr>cs_has_d := True, cs_d_idx := i, cs_d_label := label\<rparr>
        in st\<lparr>cs_meta := add_ref (cs_k_label st) label (cs_meta st)\<rparr>
      else st)"

definition align_article :: "legal_heading list \<Rightarrow> runes list option \<Rightarrow> carry_state \<Rightarrow> carry_state" where
  "align_article headings path st =
     (if (\<exists>h \<in> set headings. lh_level h = level_dieu) then st
      else case path of None \<Rightarrow> st
      | Some components \<Rightarrow>
          let nos = extract_article_nos components in
          if 1 < length nos then reset_carry None st
          else if length nos = 1 \<and> cs_article st \<noteq> Some (hd nos) then reset_carry (Some (hd nos)) st
          else st)"

definition carry_chunk :: "unicode_tables \<Rightarrow> runes \<Rightarrow> runes list option \<Rightarrow> carry_state \<Rightarrow> carry_state" where
  "carry_chunk u t path st =
     (let st = align_article (iter_headings u t) path st;
          st = st\<lparr>cs_meta := \<lparr>sm_khoan_nos = [], sm_diem_labels = [], sm_refs = []\<rparr>\<rparr>;
          st = fold (carry_event t) (subdivision_events u t) st
      in if sm_refs (cs_meta st) = [] then inherit t (length t) st else st)"

fun carry_chunks :: "unicode_tables \<Rightarrow> runes list \<Rightarrow> runes list list \<Rightarrow> carry_state \<Rightarrow> subdivision_metadata list" where
  "carry_chunks u [] paths st = []"
| "carry_chunks u (t # ts) paths st =
     (let st' = carry_chunk u t (case paths of [] \<Rightarrow> None | p # _ \<Rightarrow> Some p) st
      in cs_meta st' # carry_chunks u ts (tl paths) st')"

definition carry_start :: carry_state where
  "carry_start =
     \<lparr>cs_article = None, cs_k_val = 0, cs_k_label = [], cs_d_idx = -1, cs_d_label = [], cs_has_k = False, cs_has_d = False,
      cs_meta = \<lparr>sm_khoan_nos = [], sm_diem_labels = [], sm_refs = []\<rparr>\<rparr>"

text \<open>An empty list of paths stands for \<^verbatim>\<open>nil\<close> as well: no chunk then has a path.\<close>

definition derive_subdivision_metadata :: "unicode_tables \<Rightarrow> runes list \<Rightarrow> runes list list \<Rightarrow> subdivision_metadata list" where
  "derive_subdivision_metadata u texts paths = carry_chunks u texts paths carry_start"

record legal_metadata =
  lm_heading_path :: "runes list"
  lm_article_nos :: "runes list"
  lm_khoan_nos :: "runes list"
  lm_diem_labels :: "runes list"
  lm_refs :: "runes list"
  lm_schema_version :: nat

end
