(* ===== verification/Legal_Rules.thy ===== *)
theory Legal_Rules
  imports Legal_Structure "HOL-Library.Multiset"
begin

text \<open>
  What the parsers of \<open>Legal_Structure\<close> promise: headings rise through the text; the accepted
  khoan and diem form the tree their numbering describes and every candidate is accounted for; the
  path of a chunk is the reading of all headings up to it; and the two state machines for khoan and
  diem, one for positions and one for chunk metadata, agree.
\<close>

section \<open>Headings\<close>

lemma heading_progress:
  assumes p: "p \<in> set (seq_paths (heading_parts u) t i)" and i: "i \<le> length t"
  shows "i < last p"
proof -
  have n: "length (heading_parts u) = 8" and r: "heading_parts u ! 5 = rep1 hspace"
    by (simp_all add: heading_parts_def)
  from seq_paths_step [OF p, of 5] n r have "p ! 6 \<in> set (ends (rep1 hspace) t (p ! 5))" by simp
  then have "p ! 5 < p ! 6" unfolding one_of_def by (blast dest: rep1_progress)
  moreover from seq_paths_sorted [OF p i] seq_paths_nonempty [OF p] n
  have s: "sorted p" "length p = 9" "p ! 0 = i" "last p = p ! 8" by (auto simp: hd_conv_nth last_conv_nth)
  then have "p ! 0 \<le> p ! 5" "p ! 6 \<le> p ! 8"
    using sorted_nth_mono [of p 0 5] sorted_nth_mono [of p 6 8] by auto
  ultimately show ?thesis using s by simp
qed

lemma iter_headings_from: "h \<in> set (iter_headings u t) \<Longrightarrow>
    \<exists>m \<in> set (find_all_submatch (heading_parts u) t). lh_start h = m ! 0"
  by (auto simp: iter_headings_def accept_heading_def Let_def split: option.splits if_splits)

lemma sorted_concat_map:
  assumes "sorted_wrt (<) (map f ms)" "\<And>m. length (g m) \<le> 1" "\<And>m x. x \<in> set (g m) \<Longrightarrow> k x = f m"
  shows "sorted_wrt (<) (map k (concat (map g ms)))"
  using assms(1)
proof (induction ms)
  case (Cons m ms)
  have "g m = [] \<or> (\<exists>x. g m = [x])" using assms(2) [of m] by (cases "g m"; cases "tl (g m)") auto
  moreover have "\<forall>y \<in> set (map k (concat (map g ms))). f m < y"
    using Cons.prems assms(3) by auto
  moreover from Cons have "sorted_wrt (<) (map k (concat (map g ms)))" by simp
  ultimately show ?case using assms(3) [of _ m] by (auto simp: sorted_wrt_append)
qed simp

lemma headings_rise:
  "sorted_wrt (<) (map lh_start (iter_headings u t)) \<and> (\<forall>h \<in> set (iter_headings u t). lh_start h < length t)"
proof
  have "sorted_wrt (<) (map (\<lambda>m. m ! 0) (find_all_submatch (heading_parts u) t))"
    by (intro find_all_submatch_starts heading_progress)
  then show "sorted_wrt (<) (map lh_start (iter_headings u t))"
    unfolding iter_headings_def
    by (rule sorted_concat_map) (auto simp: accept_heading_def Let_def split: option.splits if_splits)
  show "\<forall>h \<in> set (iter_headings u t). lh_start h < length t"
  proof
    fix h assume "h \<in> set (iter_headings u t)"
    then obtain m where m: "m \<in> set (find_all_submatch (heading_parts u) t)" "lh_start h = m ! 0"
      using iter_headings_from by blast
    note d = find_all_submatchD [OF m(1)]
    from heading_progress [OF d(1) d(5)] d(4) m(2) show "lh_start h < length t" by simp
  qed
qed

section \<open>Adding what is new\<close>

lemma set_add_new [simp]: "set (add_new x xs) = insert x (set xs)"
  by (auto simp: add_new_def)

lemma distinct_add_new [simp]: "distinct xs \<Longrightarrow> distinct (add_new x xs)"
  by (simp add: add_new_def)

lemma add_new_known [simp]: "x \<in> set xs \<Longrightarrow> add_new x xs = xs"
  by (simp add: add_new_def)

lemma fold_add_new: "set (fold add_new xs ys) = set ys \<union> set xs \<and> (distinct ys \<longrightarrow> distinct (fold add_new xs ys))"
  by (induction xs arbitrary: ys) auto

lemma add_all_props [simp]: "set (add_all xs) = set xs" "distinct (add_all xs)"
  using fold_add_new [of xs "[]"] by (simp_all add: add_all_def)

lemma add_all_snoc: "add_all (xs @ [x]) = add_new x (add_all xs)"
  by (simp add: add_all_def)

section \<open>The path of a chunk reads all headings up to it\<close>

text \<open>
  The heading of level \<open>lv\<close> open after the headings \<open>hs\<close>: the last of level \<open>lv\<close> or above, if it
  is of level \<open>lv\<close> itself.
\<close>

definition open_heading :: "legal_heading list \<Rightarrow> nat \<Rightarrow> runes option" where
  "open_heading hs lv =
     (case filter (\<lambda>h. lh_level h \<le> lv) (rev hs) of
        [] \<Rightarrow> None
      | h # _ \<Rightarrow> if lh_level h = lv then Some (lh_title h) else None)"

lemma open_heading_snoc: "open_heading (hs @ [h]) = observe_legal h (open_heading hs)"
  by (rule ext) (auto simp: open_heading_def observe_legal_def)

lemma fold_observe_legal: "fold observe_legal hs (open_heading gs) = open_heading (gs @ hs)"
proof (induction hs arbitrary: gs)
  case (Cons h hs)
  show ?case using Cons.IH [of "gs @ [h]"] by (simp flip: open_heading_snoc)
qed simp

lemma open_heading_Nil: "open_heading [] = (\<lambda>_. None)"
  by (rule ext) (simp add: open_heading_def)

definition path_of :: "unicode_tables \<Rightarrow> legal_heading list \<Rightarrow> runes \<Rightarrow> runes list" where
  "path_of u before t =
     (let hs = iter_headings u t;
          carried = (case open_heading before level_dieu of None \<Rightarrow> [] | Some d \<Rightarrow> if d = [] then [] else [d]);
          leading = (hs = [] \<or> trim_runes (take (lh_start (hd hs)) t) \<noteq> [])
      in List.map_filter (open_heading (before @ hs)) [level_phan, level_chuong, level_muc] @
         take max_dieu_per_chunk (add_all ((if leading then carried else []) @
           map lh_title (filter (\<lambda>h. lh_level h = level_dieu) hs))))"

lemma chunk_path_reads:
  "chunk_path u t (open_heading before) = (path_of u before t, open_heading (before @ iter_headings u t))"
  by (auto simp: chunk_path_def path_of_def Let_def fold_observe_legal split: option.splits)

lemma heading_paths_read:
  "i < length ts \<Longrightarrow>
     heading_paths u (open_heading before) ts ! i =
       path_of u (before @ concat (map (iter_headings u) (take i ts))) (ts ! i)"
proof (induction ts arbitrary: i before)
  case (Cons t ts)
  show ?case
  proof (cases i)
    case (Suc j)
    with Cons.IH [of j "before @ iter_headings u t"] Cons.prems show ?thesis by (simp add: chunk_path_reads)
  qed (simp add: chunk_path_reads)
qed simp

lemma heading_paths_length [simp]: "length (heading_paths u s ts) = length ts"
  by (induction ts arbitrary: s) (auto simp: split_def Let_def)

section \<open>The accepted khoan and diem\<close>

text \<open>
  The outline of a law below its headings \<open>hs\<close>. An accepted marker belongs to the article of the
  last heading before it. The first marker after a heading is khoan 1; any other continues the marker
  before it: a khoan with a greater number, or a diem of the khoan then open, \<open>a\<close> when it is the
  khoan's first and later in the order of letters than the diem before it otherwise.
\<close>

definition khoan_of :: "subdivision \<Rightarrow> runes" where
  "khoan_of s = (if sd_kind s = ''khoan'' then sd_label s else sd_parent_khoan s)"

definition headed :: "legal_heading list \<Rightarrow> nat \<Rightarrow> subdivision \<Rightarrow> bool" where
  "headed hs p s \<longleftrightarrow> (\<exists>h \<in> set hs. p < lh_start h \<and> lh_start h \<le> sd_start s)"

definition in_article :: "legal_heading list \<Rightarrow> subdivision \<Rightarrow> bool" where
  "in_article hs s \<longleftrightarrow>
     (\<exists>h \<in> set hs. lh_start h \<le> sd_start s \<and> heading_article h = Some (sd_article s) \<and>
        (\<forall>g \<in> set hs. lh_start g \<le> sd_start s \<longrightarrow> lh_start g \<le> lh_start h))"

definition opens_article :: "subdivision \<Rightarrow> bool" where
  "opens_article s \<longleftrightarrow> sd_kind s = ''khoan'' \<and> atoi_safe (sd_label s) = 1"

definition continues :: "subdivision \<Rightarrow> subdivision \<Rightarrow> bool" where
  "continues a s \<longleftrightarrow> sd_article s = sd_article a \<and>
     (if sd_kind s = ''khoan''
      then atoi_safe (khoan_of a) < atoi_safe (sd_label s) \<and> atoi_safe (sd_label s) \<le> khoan_max
      else sd_kind s = ''diem'' \<and> sd_parent_khoan s = khoan_of a \<and>
        (if sd_kind a = ''khoan'' then diem_index (hd (sd_label s)) = 0
         else diem_index (hd (sd_label a)) < diem_index (hd (sd_label s))))"

definition placed :: "legal_heading list \<Rightarrow> subdivision option \<Rightarrow> subdivision \<Rightarrow> bool" where
  "placed hs prev s \<longleftrightarrow>
     in_article hs s \<and>
     (case prev of None \<Rightarrow> opens_article s
      | Some a \<Rightarrow> if headed hs (sd_start a) s then opens_article s else continues a s)"

fun numbered_tree :: "legal_heading list \<Rightarrow> subdivision option \<Rightarrow> subdivision list \<Rightarrow> bool" where
  "numbered_tree hs prev [] = True"
| "numbered_tree hs prev (s # ss) = (placed hs prev s \<and> numbered_tree hs (Some s) ss)"

lemma numbered_tree_snoc:
  "numbered_tree hs prev (ss @ [s]) \<longleftrightarrow>
     numbered_tree hs prev ss \<and> placed hs (if ss = [] then prev else Some (last ss)) s"
  by (induction ss arbitrary: prev) auto

text \<open>A heading after the markers changes nothing.\<close>

lemma numbered_tree_later:
  "\<forall>s \<in> set ss. sd_start s < lh_start h \<Longrightarrow>
     numbered_tree (hs @ [h]) prev ss = numbered_tree hs prev ss"
  by (induction ss arbitrary: prev)
    (auto simp: placed_def in_article_def headed_def split: option.splits)

text \<open>Between two headings the numbers of the khoan rise.\<close>

lemma tree_rises:
  assumes "numbered_tree hs (Some a) ss" "sorted (map sd_start (a # ss))" "s \<in> set ss"
    "\<not> headed hs (sd_start a) s"
  shows "atoi_safe (khoan_of a) \<le> atoi_safe (khoan_of s) \<and>
    (sd_kind s = ''khoan'' \<longrightarrow> atoi_safe (khoan_of a) < atoi_safe (khoan_of s))"
  using assms
proof (induction ss arbitrary: a)
  case (Cons x xs)
  have x: "\<not> headed hs (sd_start a) x"
    using Cons.prems by (fastforce simp: headed_def)
  with Cons.prems(1) have step: "continues a x" by (simp add: placed_def)
  show ?case
  proof (cases "s = x")
    case True
    with step show ?thesis by (auto simp: continues_def khoan_of_def split: if_splits)
  next
    case False
    with Cons.prems(3) have "s \<in> set xs" by simp
    moreover have "\<not> headed hs (sd_start x) s"
      using Cons.prems(2,4) by (auto simp: headed_def)
    ultimately have "atoi_safe (khoan_of x) \<le> atoi_safe (khoan_of s) \<and>
        (sd_kind s = ''khoan'' \<longrightarrow> atoi_safe (khoan_of x) < atoi_safe (khoan_of s))"
      using Cons.IH [of x] Cons.prems(1,2) by simp
    with step show ?thesis by (auto simp: continues_def khoan_of_def split: if_splits)
  qed
qed simp

definition khoan_rise :: "legal_heading list \<Rightarrow> subdivision list \<Rightarrow> bool" where
  "khoan_rise hs ss \<longleftrightarrow>
     (\<forall>i j. i < j \<longrightarrow> j < length ss \<longrightarrow> sd_kind (ss ! i) = ''khoan'' \<longrightarrow> sd_kind (ss ! j) = ''khoan'' \<longrightarrow>
        \<not> headed hs (sd_start (ss ! i)) (ss ! j) \<longrightarrow>
        atoi_safe (sd_label (ss ! i)) < atoi_safe (sd_label (ss ! j)))"

lemma numbered_tree_rises:
  assumes "numbered_tree hs prev ss" "sorted (map sd_start ss)"
  shows "khoan_rise hs ss"
  using assms
proof (induction ss arbitrary: prev)
  case (Cons x xs)
  then have IH: "khoan_rise hs xs" by auto
  show ?case
    unfolding khoan_rise_def
  proof (intro allI impI)
    fix i j
    assume ij: "i < j" "j < length (x # xs)" "sd_kind ((x # xs) ! i) = ''khoan''"
      "sd_kind ((x # xs) ! j) = ''khoan''" "\<not> headed hs (sd_start ((x # xs) ! i)) ((x # xs) ! j)"
    then obtain j' where j: "j = Suc j'" by (cases j) auto
    show "atoi_safe (sd_label ((x # xs) ! i)) < atoi_safe (sd_label ((x # xs) ! j))"
    proof (cases i)
      case 0
      with ij j Cons.prems tree_rises [of hs x xs "xs ! j'"] show ?thesis
        by (auto simp: khoan_of_def)
    next
      case (Suc i')
      with ij j IH show ?thesis by (simp add: khoan_rise_def)
    qed
  qed
qed (simp add: khoan_rise_def)

lemma sorted_pair_key: "sorted (map (\<lambda>e. (f e :: nat, g e :: nat)) es) \<Longrightarrow> sorted (map f es)"
  by (induction es) (auto simp: less_eq_prod_def)

text \<open>What the variables of the loop say about the events read and the last accepted marker.\<close>

definition heads :: "subdivision_event list \<Rightarrow> legal_heading list" where
  "heads es = List.map_filter (\<lambda>e. case e of Ev_Heading h \<Rightarrow> Some h | _ \<Rightarrow> None) es"

lemma heads_simps [simp]:
  "heads [] = []" "heads (Ev_Heading h # es) = h # heads es" "heads (Ev_Khoan p l # es) = heads es"
  "heads (Ev_Diem p l # es) = heads es" "heads (es @ fs) = heads es @ heads fs"
  by (simp_all add: heads_def map_filter_def)

lemma heads_set: "h \<in> set (heads es) \<longleftrightarrow> Ev_Heading h \<in> set es"
proof (induction es)
  case (Cons e es)
  then show ?case by (cases e) auto
qed simp

definition follows_last :: "legal_heading list \<Rightarrow> parse_state \<Rightarrow> bool" where
  "follows_last hs st \<longleftrightarrow>
     ps_article st = (if hs = [] then None else heading_article (last hs)) \<and>
     (ps_has_d st \<longrightarrow> ps_has_k st) \<and>
     (\<not> ps_has_k st \<longrightarrow> ps_subs st \<noteq> [] \<longrightarrow> hs \<noteq> [] \<and> sd_start (last (ps_subs st)) < lh_start (last hs)) \<and>
     (ps_has_k st \<longrightarrow> ps_subs st \<noteq> [] \<and> ps_article st = Some (sd_article (last (ps_subs st))) \<and>
        (\<forall>h \<in> set hs. lh_start h \<le> sd_start (last (ps_subs st))) \<and>
        khoan_of (last (ps_subs st)) = ps_last_k_label st \<and> atoi_safe (ps_last_k_label st) = ps_last_k_val st \<and>
        (if ps_has_d st then sd_kind (last (ps_subs st)) = ''diem'' \<and> diem_index (hd (sd_label (last (ps_subs st)))) = ps_last_d st
         else sd_kind (last (ps_subs st)) = ''khoan''))"

definition parse_inv :: "subdivision_event list \<Rightarrow> parse_state \<Rightarrow> bool" where
  "parse_inv es st \<longleftrightarrow>
     numbered_tree (heads es) None (ps_subs st) \<and> follows_last (heads es) st \<and>
     sorted (map sd_start (ps_subs st)) \<and>
     (\<forall>s \<in> set (ps_subs st). \<exists>e \<in> set es. ev_start e = sd_start s \<and> 0 < ev_kind e)"

abbreviation ev_key :: "subdivision_event \<Rightarrow> nat \<times> nat" where
  "ev_key e \<equiv> (ev_start e, ev_kind e)"

lemma last_max: "sorted (map f xs) \<Longrightarrow> x \<in> set xs \<Longrightarrow> (f x :: nat) \<le> f (last xs)"
  by (induction xs rule: rev_induct) (auto simp: sorted_append)

text \<open>A marker accepted at \<open>q\<close>, once every event before it has been read.\<close>

lemma marker_placed:
  assumes "parse_inv es st" "\<forall>e \<in> set es. ev_start e \<le> q" "sd_start s = q"
    "sorted (map lh_start (heads es))" "ps_article st = Some (sd_article s)"
    "\<not> ps_has_k st \<Longrightarrow> opens_article s" "ps_has_k st \<Longrightarrow> continues (last (ps_subs st)) s"
  shows "placed (heads es) (if ps_subs st = [] then None else Some (last (ps_subs st))) s"
proof -
  let ?hs = "heads es"
  from assms(1) have f: "follows_last ?hs st" by (simp add: parse_inv_def)
  with assms(5) have hs: "?hs \<noteq> []" "heading_article (last ?hs) = Some (sd_article s)"
    by (auto simp: follows_last_def split: if_splits)
  have le: "\<forall>h \<in> set ?hs. lh_start h \<le> q" using assms(2) by (fastforce simp: heads_set)
  have max: "\<forall>g \<in> set ?hs. lh_start g \<le> lh_start (last ?hs)"
    using last_max [OF assms(4)] by blast
  have art: "in_article ?hs s"
    unfolding in_article_def using hs le max assms(3) by (intro bexI [of _ "last ?hs"]) auto
  show ?thesis
  proof (cases "ps_has_k st")
    case True
    with f have "ps_subs st \<noteq> []" "\<not> headed ?hs (sd_start (last (ps_subs st))) s"
      by (auto simp: follows_last_def headed_def)
    with art assms(7) True show ?thesis by (simp add: placed_def)
  next
    case False
    with f have "ps_subs st \<noteq> [] \<Longrightarrow> headed ?hs (sd_start (last (ps_subs st))) s"
      using hs(1) le assms(3) by (auto simp: follows_last_def headed_def intro!: bexI [of _ "last ?hs"])
    with art assms(6) False show ?thesis by (simp add: placed_def)
  qed
qed

lemma parse_event_inv:
  assumes "parse_inv es st" "sorted (map ev_key (es @ [e]))" "sorted (map lh_start (heads es))"
  shows "parse_inv (es @ [e]) (parse_event e st)"
proof -
  have key: "\<forall>d \<in> set es. ev_key d \<le> ev_key e" using assms(2) by (auto simp: sorted_append)
  then have le: "\<forall>d \<in> set es. ev_start d \<le> ev_start e" by (auto simp: less_eq_prod_def)
  have subs: "\<forall>s \<in> set (ps_subs st). \<exists>d \<in> set es. ev_start d = sd_start s \<and> 0 < ev_kind d"
    using assms(1) by (simp add: parse_inv_def)
  with le have below: "\<forall>s \<in> set (ps_subs st). sd_start s \<le> ev_start e" by fastforce
  have heads_le: "\<forall>h \<in> set (heads es). lh_start h \<le> ev_start e" using le by (fastforce simp: heads_set)
  show ?thesis
  proof (cases e)
    case (Ev_Heading h)
    have "\<forall>s \<in> set (ps_subs st). sd_start s < lh_start h"
    proof
      fix s assume "s \<in> set (ps_subs st)"
      with subs obtain d where "d \<in> set es" "ev_start d = sd_start s" "0 < ev_kind d" by blast
      with key Ev_Heading show "sd_start s < lh_start h" by (fastforce simp: less_eq_prod_def)
    qed
    with Ev_Heading assms(1) subs show ?thesis
      by (auto simp: parse_inv_def follows_last_def numbered_tree_later)
  next
    case (Ev_Khoan q label)
    let ?s = "\<lparr>sd_kind = ''khoan'', sd_label = label, sd_start = q, sd_article = the (ps_article st), sd_parent_khoan = []\<rparr>"
    have "placed (heads es) (if ps_subs st = [] then None else Some (last (ps_subs st))) ?s"
      if "khoan_fits (ps_article st) (ps_has_k st) (ps_last_k_val st) (atoi_safe label)"
      using that assms(1) le Ev_Khoan
      by (intro marker_placed [OF assms(1) _ _ assms(3), where q = q])
        (auto simp: khoan_fits_def parse_inv_def follows_last_def opens_article_def continues_def)
    with Ev_Khoan assms(1) below heads_le subs show ?thesis
      by (auto simp: Let_def parse_inv_def follows_last_def numbered_tree_snoc sorted_append khoan_of_def khoan_fits_def)
  next
    case (Ev_Diem q label)
    let ?s = "\<lparr>sd_kind = ''diem'', sd_label = label, sd_start = q, sd_article = the (ps_article st),
      sd_parent_khoan = ps_last_k_label st\<rparr>"
    have "placed (heads es) (if ps_subs st = [] then None else Some (last (ps_subs st))) ?s"
      if "diem_fits (ps_article st) (ps_has_k st) (ps_has_d st) (ps_last_d st) (diem_index (hd label))"
      using that assms(1) le Ev_Diem
      by (intro marker_placed [OF assms(1) _ _ assms(3), where q = q])
        (auto simp: diem_fits_def parse_inv_def follows_last_def continues_def split: if_splits)
    with Ev_Diem assms(1) below heads_le subs show ?thesis
      by (auto simp: Let_def parse_inv_def follows_last_def numbered_tree_snoc sorted_append khoan_of_def diem_fits_def)
  qed
qed

lemma heads_sorted: "sorted (map ev_start es) \<Longrightarrow> sorted (map lh_start (heads es))"
proof (induction es)
  case (Cons e es)
  then show ?case by (cases e) (fastforce simp: heads_set)+
qed simp

lemma parse_fold_inv:
  "sorted (map ev_key es) \<Longrightarrow> parse_inv es (fold parse_event es parse_start)"
proof (induction es rule: rev_induct)
  case Nil
  then show ?case by (simp add: parse_inv_def parse_start_def follows_last_def)
next
  case (snoc e es)
  then have "sorted (map ev_key es)" by (simp add: sorted_append)
  moreover from this have "sorted (map ev_start es)" by (rule sorted_pair_key)
  ultimately show ?case
    using snoc parse_event_inv [of es _ e] heads_sorted [of es] by simp
qed

lemma events_keyed: "sorted (map ev_key (subdivision_events u t))"
  unfolding subdivision_events_def by (rule sorted_sort_key)

lemma events_within: "e \<in> set (subdivision_events u t) \<Longrightarrow> ev_start e \<le> length t"
  using headings_rise [of u t]
  by (auto simp: subdivision_events_def dest: find_all_submatchD(5) split: if_splits intro: less_imp_le)

lemma heads_events: "set (heads (subdivision_events u t)) = set (iter_headings u t)"
  by (auto simp: heads_set subdivision_events_def split: if_splits)

lemma parse_subdivisions_inv: "parse_inv (subdivision_events u t) (parse_subdivisions u t)"
  unfolding parse_subdivisions_def by (rule parse_fold_inv [OF events_keyed])

lemma subdivisions_within:
  "sorted (map sd_start (find_subdivisions u t))" "s \<in> set (find_subdivisions u t) \<Longrightarrow> sd_start s \<le> length t"
proof -
  show "sorted (map sd_start (find_subdivisions u t))"
    using parse_subdivisions_inv [of u t] by (simp add: parse_inv_def find_subdivisions_def)
  assume "s \<in> set (find_subdivisions u t)"
  with parse_subdivisions_inv [of u t] obtain e where "e \<in> set (subdivision_events u t)" "ev_start e = sd_start s"
    by (auto simp: parse_inv_def find_subdivisions_def)
  with events_within show "sd_start s \<le> length t" by metis
qed

text \<open>The tree depends on the set of headings only.\<close>

lemma numbered_tree_cong: "set hs = set gs \<Longrightarrow> numbered_tree hs prev ss = numbered_tree gs prev ss"
  by (induction ss arbitrary: prev) (auto simp: placed_def in_article_def headed_def split: option.splits)

section \<open>Every candidate is accounted for\<close>

definition is_khoan :: "subdivision_event \<Rightarrow> bool" where
  "is_khoan e \<longleftrightarrow> (case e of Ev_Khoan _ _ \<Rightarrow> True | _ \<Rightarrow> False)"

definition is_diem :: "subdivision_event \<Rightarrow> bool" where
  "is_diem e \<longleftrightarrow> (case e of Ev_Diem _ _ \<Rightarrow> True | _ \<Rightarrow> False)"

definition counted :: "subdivision_event list \<Rightarrow> parse_state \<Rightarrow> bool" where
  "counted es st \<longleftrightarrow>
     khoan_candidates (ps_stats st) = length (filter is_khoan es) \<and>
     diem_candidates (ps_stats st) = length (filter is_diem es) \<and>
     khoan_accepted (ps_stats st) = length (filter (\<lambda>s. sd_kind s = ''khoan'') (ps_subs st)) \<and>
     diem_accepted (ps_stats st) = length (filter (\<lambda>s. sd_kind s = ''diem'') (ps_subs st)) \<and>
     ambiguous_rejected (ps_stats st) = length (ps_rejected st) \<and>
     length (ps_subs st) + length (ps_rejected st) = length (filter is_khoan es) + length (filter is_diem es) \<and>
     mset (map sd_start (ps_subs st @ ps_rejected st)) = mset (map ev_start (filter (\<lambda>e. is_khoan e \<or> is_diem e) es))"

lemma parse_event_counted: "counted es st \<Longrightarrow> counted (es @ [e]) (parse_event e st)"
  by (induction e st rule: parse_event.induct)
    (simp_all add: counted_def Let_def is_khoan_def is_diem_def rejected_subdivision_def)

lemma parse_fold_counted: "counted es st \<Longrightarrow> counted (es @ fs) (fold parse_event fs st)"
proof (induction fs arbitrary: es st)
  case (Cons e fs)
  from Cons.IH [OF parse_event_counted [OF Cons.prems]] show ?case by simp
qed simp

section \<open>The two state machines agree\<close>

text \<open>Labels are taken from the text, so none is empty.\<close>

definition labelled :: "subdivision_event \<Rightarrow> bool" where
  "labelled e \<longleftrightarrow> (case e of Ev_Heading _ \<Rightarrow> True | Ev_Khoan _ l \<Rightarrow> l \<noteq> [] | Ev_Diem _ l \<Rightarrow> l \<noteq> [])"

lemma rune_group:
  assumes m: "m \<in> set (find_all_submatch rs t)" and k: "k < length rs" "rs ! k = Rune_In P"
  shows "group_text k m t \<noteq> []"
proof -
  note d = find_all_submatchD [OF m]
  from seq_paths_step [OF d(1) k(1)] k(2) have "m ! Suc k = Suc (m ! k)" "m ! k < length t" by (auto split: if_splits)
  then show ?thesis by (simp add: group_text_def segment_def)
qed

lemma digits_group:
  assumes m: "m \<in> set (find_all_submatch rs t)" and k: "k < length rs" "rs ! k = between_times 1 n (Rune_In P)"
  shows "group_text k m t \<noteq> []"
proof -
  note d = find_all_submatchD [OF m]
  have r: "rs ! k = Cat (Cat (Rune_In P) Nothing) (Upto (n - 1) (Rune_In P))"
    using k(2) by (simp add: between_times_def)
  from seq_paths_step [OF d(1) k(1)] have e: "m ! Suc k \<in> set (ends (rs ! k) t (m ! k))" .
  then have i: "m ! k < length t" by (auto simp: r split: if_splits)
  with e have "m ! Suc k \<in> set (upto_ends (ends (Rune_In P) t) (n - 1) (Suc (m ! k)))" by (auto simp: r split: if_splits)
  then have "m ! Suc k \<in> set (ends (Upto (n - 1) (Rune_In P)) t (Suc (m ! k)))" by simp
  from ends_bounds [OF this] i have "m ! k < m ! Suc k" by simp
  with i show ?thesis by (simp add: group_text_def segment_def)
qed

lemma events_labelled: "\<forall>e \<in> set (subdivision_events u t). labelled e"
proof -
  have "group_text 4 m t \<noteq> []" if "m \<in> set (find_all_submatch khoan_candidate_parts t)" for m
    using that by (rule digits_group) (simp_all add: khoan_candidate_parts_def)
  moreover have "group_text 4 m t \<noteq> []" if "m \<in> set (find_all_submatch diem_candidate_parts t)" for m
    using that by (rule rune_group) (simp_all add: diem_candidate_parts_def)
  moreover have "group_text 6 m t \<noteq> []" if "m \<in> set (find_all_submatch glued_diem_parts t)" for m
    using that by (rule rune_group) (simp_all add: glued_diem_parts_def)
  ultimately show ?thesis by (auto simp: subdivision_events_def labelled_def)
qed

definition sub_refs :: "subdivision \<Rightarrow> runes list" where
  "sub_refs s = khoan_ref (khoan_of s) # (if sd_kind s = ''khoan'' then [] else [diem_ref (sd_parent_khoan s) (sd_label s)])"

definition meta_of :: "subdivision list \<Rightarrow> subdivision_metadata" where
  "meta_of subs =
     \<lparr>sm_khoan_nos = add_all (map sd_label (filter (\<lambda>s. sd_kind s = ''khoan'') subs)),
      sm_diem_labels = add_all (map sd_label (filter (\<lambda>s. sd_kind s = ''diem'') subs)),
      sm_refs = add_all (concat (map sub_refs subs))\<rparr>"

definition same_state :: "parse_state \<Rightarrow> carry_state \<Rightarrow> bool" where
  "same_state ps cs \<longleftrightarrow>
     cs_article cs = ps_article ps \<and> cs_has_k cs = ps_has_k ps \<and> cs_has_d cs = ps_has_d ps \<and>
     cs_k_val cs = ps_last_k_val ps \<and> cs_k_label cs = ps_last_k_label ps \<and> cs_d_idx cs = ps_last_d ps \<and>
     cs_meta cs = meta_of (ps_subs ps) \<and> (ps_has_k ps \<longrightarrow> cs_k_label cs \<noteq> []) \<and>
     (cs_k_label cs \<noteq> [] \<longrightarrow> cs_k_label cs \<in> set (sm_khoan_nos (cs_meta cs)) \<and> khoan_ref (cs_k_label cs) \<in> set (sm_refs (cs_meta cs))) \<and>
     (cs_k_label cs \<noteq> [] \<longrightarrow> cs_d_label cs \<noteq> [] \<longrightarrow> cs_d_label cs \<in> set (sm_diem_labels (cs_meta cs)) \<and>
        diem_ref (cs_k_label cs) (cs_d_label cs) \<in> set (sm_refs (cs_meta cs)))"

lemma add_ref_known:
  "k \<in> set (sm_khoan_nos m) \<Longrightarrow> khoan_ref k \<in> set (sm_refs m) \<Longrightarrow>
     (d \<noteq> [] \<longrightarrow> d \<in> set (sm_diem_labels m) \<and> diem_ref k d \<in> set (sm_refs m)) \<Longrightarrow> add_ref k d m = m"
  by (cases m) (auto simp: add_ref_def Let_def)

lemma inherit_known: "same_state ps cs \<Longrightarrow> inherit t n cs = cs"
  unfolding inherit_def by (cases cs) (auto simp: same_state_def add_ref_known)

lemma add_all_append: "add_all (xs @ ys) = fold add_new ys (add_all xs)"
  by (simp add: add_all_def)

lemma meta_of_khoan:
  "sd_kind s = ''khoan'' \<Longrightarrow> sd_label s \<noteq> [] \<Longrightarrow> meta_of (subs @ [s]) = add_ref (sd_label s) [] (meta_of subs)"
  by (simp add: meta_of_def add_ref_def sub_refs_def khoan_of_def add_all_append Let_def)

lemma meta_of_diem:
  "sd_kind s = ''diem'' \<Longrightarrow> sd_label s \<noteq> [] \<Longrightarrow> sd_parent_khoan s \<noteq> [] \<Longrightarrow>
     sd_parent_khoan s \<in> set (sm_khoan_nos (meta_of subs)) \<Longrightarrow>
     meta_of (subs @ [s]) = add_ref (sd_parent_khoan s) (sd_label s) (meta_of subs)"
  by (simp add: meta_of_def add_ref_def sub_refs_def khoan_of_def add_all_append Let_def)

lemma carry_event_same:
  assumes "same_state ps cs" "labelled e"
  shows "same_state (parse_event e ps) (carry_event t e cs)"
proof (cases e)
  case (Ev_Heading h)
  with assms show ?thesis by (simp add: inherit_known [OF assms(1)]) (simp add: same_state_def reset_carry_def)
next
  case (Ev_Khoan p label)
  with assms(2) have "label \<noteq> []" by (simp add: labelled_def)
  show ?thesis
  proof (cases "khoan_fits (ps_article ps) (ps_has_k ps) (ps_last_k_val ps) (atoi_safe label)")
    case True
    then show ?thesis using assms(1) Ev_Khoan \<open>label \<noteq> []\<close>
      by (simp add: inherit_known [OF assms(1)] Let_def)
        (simp add: same_state_def meta_of_khoan add_ref_def Let_def)
  qed (use assms(1) Ev_Khoan in \<open>auto simp: same_state_def Let_def\<close>)
next
  case (Ev_Diem p label)
  with assms(2) have "label \<noteq> []" by (simp add: labelled_def)
  show ?thesis
  proof (cases "diem_fits (ps_article ps) (ps_has_k ps) (ps_has_d ps) (ps_last_d ps) (diem_index (hd label))")
    case True
    then have "ps_has_k ps" by (simp add: diem_fits_def)
    with assms(1) have k: "ps_last_k_label ps \<noteq> []" "ps_last_k_label ps \<in> set (sm_khoan_nos (meta_of (ps_subs ps)))"
      "khoan_ref (ps_last_k_label ps) \<in> set (sm_refs (meta_of (ps_subs ps)))"
      by (auto simp: same_state_def)
    with assms(1) Ev_Diem \<open>label \<noteq> []\<close> True show ?thesis
      by (simp add: inherit_known [OF assms(1)] Let_def)
        (auto simp: same_state_def meta_of_diem add_ref_def Let_def)
  qed (use assms(1) Ev_Diem in \<open>auto simp: same_state_def Let_def\<close>)
qed

lemma carry_fold_same:
  "same_state ps cs \<Longrightarrow> \<forall>e \<in> set es. labelled e \<Longrightarrow>
     same_state (fold parse_event es ps) (fold (carry_event t) es cs)"
  by (induction es arbitrary: ps cs) (simp_all add: carry_event_same)

section \<open>A sample\<close>

text \<open>Three articles, one to a line, with the ASCII letters as the Unicode tables.\<close>

definition ascii_tables :: unicode_tables where
  "ascii_tables =
     \<lparr>uc_word = word_rune, uc_lower = (\<lambda>c. 97 \<le> c \<and> c \<le> 122), uc_upper = (\<lambda>c. 65 \<le> c \<and> c \<le> 90)\<rparr>"

definition sample_law :: runes where
  "sample_law =
     [0x110, 105, 0x1EC1, 117, 32, 49, 46, 10, 0x110, 105, 0x1EC1, 117, 32, 50, 46, 10,
      0x110, 105, 0x1EC1, 117, 32, 51, 46]"

lemmas legal_words =
  word_fold_def dieu_word_def phan_word_def chuong_word_def muc_word_def thu_word_def viet_fold_def fold_of_def viet_pairs_def

lemma sample_paths:
  "seq_paths (heading_parts ascii_tables) sample_law 0 = [[0, 0, 0, 0, 0, 4, 5, 6, 7], [0, 0, 0, 0, 0, 4, 5, 6, 6]]"
  "seq_paths (heading_parts ascii_tables) sample_law 7 = []"
  "seq_paths (heading_parts ascii_tables) sample_law 8 = [[8, 8, 8, 8, 8, 12, 13, 14, 15], [8, 8, 8, 8, 8, 12, 13, 14, 14]]"
  "seq_paths (heading_parts ascii_tables) sample_law 15 = []"
  "seq_paths (heading_parts ascii_tables) sample_law 16 = [[16, 16, 16, 16, 16, 20, 21, 22, 23], [16, 16, 16, 16, 16, 20, 21, 22, 22]]"
  "seq_paths (heading_parts ascii_tables) sample_law 23 = []"
  by (simp_all add: run_regexp between_times_def legal_words sample_law_def heading_parts_def ascii_tables_def del: numeral_2_eq_2)

lemma sample_length: "length sample_law = 23"
  by (simp add: sample_law_def)

lemma sample_matches:
  "find_match (cats (heading_parts ascii_tables)) sample_law 0 = Some (0, 7)"
  "find_match (cats (heading_parts ascii_tables)) sample_law 7 = Some (8, 15)"
  "find_match (cats (heading_parts ascii_tables)) sample_law 15 = Some (16, 23)"
  "find_match (cats (heading_parts ascii_tables)) sample_law 23 = None"
  by (simp_all add: find_match.simps [of _ _ "numeral k" for k] find_match.simps [of _ _ 0] seq_paths_ends [symmetric]
      sample_paths sample_length)

lemma sample_submatches:
  "find_all_submatch (heading_parts ascii_tables) sample_law =
     [[0, 0, 0, 0, 0, 4, 5, 6, 7], [8, 8, 8, 8, 8, 12, 13, 14, 15], [16, 16, 16, 16, 16, 20, 21, 22, 23]]"
  by (simp add: find_all_submatch_def find_all_step [OF _ sample_matches(1)] find_all_step [OF _ sample_matches(2)]
      find_all_step [OF _ sample_matches(3)] find_all_stop sample_matches(4) sample_length sample_paths)

lemma sample_titles:
  "heading_title [0x110, 105, 0x1EC1, 117] [49] [46] = [0x110, 105, 0x1EC1, 117, 32, 49]"
  "heading_title [0x110, 105, 0x1EC1, 117] [50] [46] = [0x110, 105, 0x1EC1, 117, 32, 50]"
  "heading_title [0x110, 105, 0x1EC1, 117] [51] [46] = [0x110, 105, 0x1EC1, 117, 32, 51]"
  by (simp_all add: heading_title_def emph_pattern_def ws_pattern_def run_search run_regexp del: numeral_2_eq_2)

lemma sample_groups:
  "group_text 4 [0, 0, 0, 0, 0, 4, 5, 6, 7] sample_law = [0x110, 105, 0x1EC1, 117]"
  "group_text 6 [0, 0, 0, 0, 0, 4, 5, 6, 7] sample_law = [49]" "group_text 7 [0, 0, 0, 0, 0, 4, 5, 6, 7] sample_law = [46]"
  "group_text 4 [8, 8, 8, 8, 8, 12, 13, 14, 15] sample_law = [0x110, 105, 0x1EC1, 117]"
  "group_text 6 [8, 8, 8, 8, 8, 12, 13, 14, 15] sample_law = [50]" "group_text 7 [8, 8, 8, 8, 8, 12, 13, 14, 15] sample_law = [46]"
  "group_text 4 [16, 16, 16, 16, 16, 20, 21, 22, 23] sample_law = [0x110, 105, 0x1EC1, 117]"
  "group_text 6 [16, 16, 16, 16, 16, 20, 21, 22, 23] sample_law = [51]" "group_text 7 [16, 16, 16, 16, 16, 20, 21, 22, 23] sample_law = [46]"
  by (simp_all add: group_text_def segment_def sample_law_def)

lemma sample_rest: "dieu_rest_ok ascii_tables [46] t k"
  by (simp add: dieu_rest_ok_def dieu_rest_pattern_def run_search run_regexp del: numeral_2_eq_2)

lemma sample_level: "map_of heading_levels (map lower_rune [0x110, 105, 0x1EC1, 117]) = Some level_dieu"
  by (simp add: lower_rune_def viet_pairs_def heading_levels_def dieu_word_def phan_word_def chuong_word_def muc_word_def ascii_def)

lemma sample_headings:
  "iter_headings ascii_tables sample_law =
     [\<lparr>lh_start = 0, lh_level = 4, lh_title = [0x110, 105, 0x1EC1, 117, 32, 49]\<rparr>,
      \<lparr>lh_start = 8, lh_level = 4, lh_title = [0x110, 105, 0x1EC1, 117, 32, 50]\<rparr>,
      \<lparr>lh_start = 16, lh_level = 4, lh_title = [0x110, 105, 0x1EC1, 117, 32, 51]\<rparr>]"
  by (simp add: iter_headings_def sample_submatches accept_heading_def sample_groups sample_level [simplified]
      sample_rest sample_titles Let_def) (simp add: level_dieu_def)

section \<open>Properties\<close>

text \<open>
  C26: whatever the text, the accepted khoan and diem of \<^verbatim>\<open>ParseSubdivisions\<close> come in text order
  and form the outline their numbering describes. Each belongs to the article of the last heading
  before it. The first one after a heading is khoan 1; any other continues the marker before it, as a
  khoan with a greater number up to 30 or as a diem of the open khoan, \<open>a\<close> first and then later
  letters. So of two khoan without a heading between them the later has the greater number. Every
  candidate is counted and is either accepted or listed as rejected, at its position.
\<close>

theorem subdivisions_form_a_tree:
  "numbered_tree (iter_headings u t) None (find_subdivisions u t) \<and>
   sorted (map sd_start (find_subdivisions u t)) \<and>
   khoan_rise (iter_headings u t) (find_subdivisions u t) \<and>
   counted (subdivision_events u t) (parse_subdivisions u t)"
proof -
  have tree: "numbered_tree (iter_headings u t) None (find_subdivisions u t)"
    using parse_subdivisions_inv [of u t] numbered_tree_cong [OF heads_events]
    by (simp add: parse_inv_def find_subdivisions_def)
  have "counted [] parse_start" by (simp add: counted_def parse_start_def)
  from parse_fold_counted [OF this, of "subdivision_events u t"]
  have "counted (subdivision_events u t) (parse_subdivisions u t)"
    by (simp add: parse_subdivisions_def)
  with tree subdivisions_within(1) [of u t] numbered_tree_rises [OF tree] show ?thesis by simp
qed

text \<open>
  The two state machines of the package agree: the chunk metadata of a text in one chunk lists
  exactly the khoan, the diem and the references of the markers that \<^verbatim>\<open>FindSubdivisions\<close> accepts,
  each once, in order.
\<close>

lemma metadata_lists_accepted_markers:
  "derive_subdivision_metadata u [t] [] = [meta_of (find_subdivisions u t)]"
proof -
  let ?s = "fold (carry_event t) (subdivision_events u t) carry_start"
  have "same_state parse_start carry_start"
    by (simp add: same_state_def parse_start_def carry_start_def meta_of_def add_all_def)
  from carry_fold_same [OF this events_labelled]
  have s: "same_state (parse_subdivisions u t) ?s" by (simp add: parse_subdivisions_def)
  have "align_article (iter_headings u t) None carry_start = carry_start" by (simp add: align_article_def)
  moreover have "carry_start\<lparr>cs_meta := \<lparr>sm_khoan_nos = [], sm_diem_labels = [], sm_refs = []\<rparr>\<rparr> = carry_start"
    by (simp add: carry_start_def)
  ultimately have "carry_chunk u t None carry_start = ?s"
    using inherit_known [OF s] by (simp add: carry_chunk_def Let_def)
  with s show ?thesis by (simp add: derive_subdivision_metadata_def same_state_def find_subdivisions_def)
qed

text \<open>
  The path given to a chunk is a function of the headings alone: \<^verbatim>\<open>DeriveHeadingPaths\<close>, which
  carries state from chunk to chunk, gives chunk \<open>i\<close> the Phan, Chuong and Muc open after all
  headings of the chunks up to it, and the articles it touches: the one open at its start when it
  begins inside it, and those whose heading it contains, each once and at most eight.
\<close>

lemma heading_paths_are_stateless:
  "derive_heading_paths u ts =
     map (\<lambda>i. path_of u (concat (map (iter_headings u) (take i ts))) (ts ! i)) [0..<length ts]"
proof (rule nth_equalityI)
  show "length (derive_heading_paths u ts) = length (map (\<lambda>i. path_of u (concat (map (iter_headings u) (take i ts))) (ts ! i)) [0..<length ts])"
    by (simp add: derive_heading_paths_def)
  fix i assume "i < length (derive_heading_paths u ts)"
  then have i: "i < length ts" by (simp add: derive_heading_paths_def)
  from heading_paths_read [OF i, of u "[]"] i
  show "derive_heading_paths u ts ! i =
      map (\<lambda>i. path_of u (concat (map (iter_headings u) (take i ts))) (ts ! i)) [0..<length ts] ! i"
    by (simp add: derive_heading_paths_def open_heading_Nil)
qed

end
