(* ===== verification/Chunk_Heuristic.thy ===== *)
theory Chunk_Heuristic
  imports Chunk_Profile "HOL-Library.Product_Lexorder"
begin

text \<open>
  \<^verbatim>\<open>chunker/heuristic_splitter.go\<close>: boundaries at form feeds, chapter and section marks, rules,
  page footers and blank blocks, none of them inside a protected region; the blocks between them
  are packed into chunks, and a block above the budget is split by \<^verbatim>\<open>SplitText\<close>.

  The lemmas show that the boundaries are ordered positions of the text outside every protected
  region, that each chunk is the text of its range behind an optional header, that every
  character other than white space is in a chunk; the last lemma of
  the file shows an overlap that repeats a whole chunk.
\<close>

section \<open>Boundaries\<close>

type_synonym mark = "nat \<times> nat"  \<comment> \<open>rune offset where the next chunk should start, priority\<close>

definition prio_form_feed :: nat where "prio_form_feed = 100"
definition prio_numbered_head :: nat where "prio_numbered_head = 90"
definition prio_chapter_marker :: nat where "prio_chapter_marker = 85"
definition prio_all_caps_heading :: nat where "prio_all_caps_heading = 70"
definition prio_visual_sep :: nat where "prio_visual_sep = 60"
definition prio_page_footer :: nat where "prio_page_footer = 50"
definition prio_blank_block :: nat where "prio_blank_block = 40"

definition all_rune_indices :: "runes \<Rightarrow> rune \<Rightarrow> nat list" where
  "all_rune_indices t needle = filter (\<lambda>i. t ! i = needle) [0..<length t]"

definition line_priority :: "regexp list \<Rightarrow> runes \<Rightarrow> nat option" where
  "line_priority chapters line =
     (if \<exists>pat \<in> set chapters. match_string pat line then Some prio_chapter_marker
      else if match_string numbered_section_pattern line then Some prio_numbered_head
      else if match_string all_caps_heading_pattern line then Some prio_all_caps_heading
      else if match_string visual_separator_pattern line then Some prio_visual_sep
      else if match_string page_footer_pattern line then Some prio_page_footer
      else None)"

definition line_marks :: "regexp list \<Rightarrow> nat \<times> runes \<Rightarrow> mark list" where
  "line_marks chapters pl =
     (case line_priority chapters (snd pl) of None \<Rightarrow> [] | Some prio \<Rightarrow> [(fst pl, prio)])"

definition blank_marks :: "runes \<Rightarrow> mark list" where
  "blank_marks t =
     map (\<lambda>idx. (length (byte_take (snd idx) t), prio_blank_block)) (find_all_index excessive_blanks_pattern t)"

fun drop_duplicates :: "nat option \<Rightarrow> mark list \<Rightarrow> mark list" where
  "drop_duplicates prev [] = []"
| "drop_duplicates prev (b # bs) =
     (if prev = Some (fst b) then drop_duplicates prev bs else b # drop_duplicates (Some (fst b)) bs)"

definition raw_marks :: "runes \<Rightarrow> string list \<Rightarrow> mark list" where
  "raw_marks t langs =
     map (\<lambda>i. (i, prio_form_feed)) (all_rune_indices t 12) @
     concat (map (line_marks (chapter_patterns_for_langs langs)) (lines_of t)) @
     blank_marks t"

definition find_heuristic_boundaries :: "runes \<Rightarrow> string list \<Rightarrow> mark list" where
  "find_heuristic_boundaries t langs =
     drop_duplicates None (sort_key (\<lambda>b. (fst b, - int (snd b))) (raw_marks t langs))"

fun inside_span :: "nat \<Rightarrow> span list \<Rightarrow> bool" where
  "inside_span b [] = False"
| "inside_span b (s # ss) = (if b \<le> fst s then False else b < snd s \<or> inside_span b ss)"

definition drop_bounds_inside_spans :: "mark list \<Rightarrow> span list \<Rightarrow> mark list" where
  "drop_bounds_inside_spans bounds spans = filter (\<lambda>b. \<not> inside_span (fst b) spans) bounds"

section \<open>Packing\<close>

record 'l pack_state =
  pk_out :: "'l chunk list"
  pk_seq :: nat
  pk_start :: nat   \<comment> \<open>\<^verbatim>\<open>chunkStart\<close>\<close>
  pk_end :: nat     \<comment> \<open>\<^verbatim>\<open>curEnd\<close>\<close>

definition append_chunk :: "runes \<Rightarrow> nat \<Rightarrow> nat \<Rightarrow> 'l pack_state \<Rightarrow> 'l pack_state" where
  "append_chunk t start stop st =
     (if stop \<le> start then st
      else if trim_runes (segment start stop t) = [] then st
      else st\<lparr>pk_out := pk_out st @ [\<lparr>ck_content = segment start stop t, ck_context = [], ck_seq = pk_seq st,
                                       ck_start = start, ck_end = stop, ck_legal = None\<rparr>],
              pk_seq := Suc (pk_seq st)\<rparr>)"

definition oversize_chunks :: "runes \<Rightarrow> nat \<Rightarrow> nat \<Rightarrow> splitter_config \<Rightarrow> nat \<Rightarrow> 'l chunk list" where
  "oversize_chunks t start stop cfg seq =
     map (\<lambda>(k, s). \<lparr>ck_content = ck_content s, ck_context = [], ck_seq = seq + k,
                     ck_start = start + ck_start s, ck_end = start + ck_end s, ck_legal = None\<rparr>)
       (List.enumerate 0 (split_text (segment start stop t) cfg :: 'l chunk list))"

definition append_oversize_block :: "runes \<Rightarrow> nat \<Rightarrow> nat \<Rightarrow> splitter_config \<Rightarrow> 'l pack_state \<Rightarrow> 'l pack_state" where
  "append_oversize_block t start stop cfg st =
     (if stop \<le> start then st
      else let subs = oversize_chunks t start stop cfg (pk_seq st)
           in st\<lparr>pk_out := pk_out st @ subs, pk_seq := pk_seq st + length subs\<rparr>)"

function back_to_newline :: "runes \<Rightarrow> nat \<Rightarrow> nat \<Rightarrow> nat \<Rightarrow> nat" where
  "back_to_newline t window_start target i =
     (if window_start < i \<and> i < length t
      then if t ! i = nl then i + 1 else back_to_newline t window_start target (i - 1)
      else target)"
  by pat_completeness auto
termination
  by (relation "measure (\<lambda>(t, w, g, i). i)") auto

declare back_to_newline.simps [simp del]

definition apply_overlap_aligned :: "runes \<Rightarrow> nat \<Rightarrow> int \<Rightarrow> mark list \<Rightarrow> nat" where
  "apply_overlap_aligned t cur_end overlap bounds =
     (if overlap \<le> 0 then cur_end
      else let target = nat (int cur_end - overlap);
               window_start = nat (int cur_end - 2 * overlap);
               inside = filter (\<lambda>p. window_start \<le> p \<and> p < cur_end) (map fst bounds)
           in if inside \<noteq> [] then Max (set inside)
              else back_to_newline t window_start target target)"

definition min_chunk_size :: "int \<Rightarrow> int" where
  "min_chunk_size chunk_size = max (chunk_size div 4) 50"  \<comment> \<open>a negative quotient, however rounded, gives 50\<close>

definition pack_block ::
  "runes \<Rightarrow> splitter_config \<Rightarrow> mark list \<Rightarrow> mark \<Rightarrow> 'l pack_state \<Rightarrow> 'l pack_state" where
  "pack_block t cfg bounds b st =
     (let next_end = fst b in
      if cfg_size cfg < int next_end - int (pk_end st) then
        let st = (if pk_start st < pk_end st
                  then (append_chunk t (pk_start st) (pk_end st) st)\<lparr>pk_start := pk_end st\<rparr> else st);
            st = append_oversize_block t (pk_end st) next_end cfg st
        in st\<lparr>pk_start := next_end, pk_end := next_end\<rparr>
      else
        let accumulated = int next_end - int (pk_start st);
            st = (if cfg_size cfg < accumulated \<and> min_chunk_size (cfg_size cfg) \<le> int (pk_end st) - int (pk_start st)
                  then (append_chunk t (pk_start st) (pk_end st) st)
                         \<lparr>pk_start := apply_overlap_aligned t (pk_end st) (cfg_overlap cfg) bounds\<rparr>
                  else st)
        in st\<lparr>pk_end := next_end\<rparr>)"

definition with_ends :: "nat \<Rightarrow> mark list \<Rightarrow> mark list" where
  "with_ends n bounds =
     (let bounds = bounds @ [(n, 0)] in if fst (hd bounds) \<noteq> 0 then (0, 0) # bounds else bounds)"

definition pack_blocks :: "runes \<Rightarrow> splitter_config \<Rightarrow> mark list \<Rightarrow> 'l chunk list" where
  "pack_blocks t cfg bounds =
     (let start = fst (hd bounds);
          st = fold (pack_block t cfg bounds) (tl bounds)
                 \<lparr>pk_out = [], pk_seq = 0, pk_start = start, pk_end = start\<rparr>
      in pk_out (if pk_start st < pk_end st then append_chunk t (pk_start st) (pk_end st) st else st))"

definition split_by_heuristics :: "runes \<Rightarrow> splitter_config \<Rightarrow> 'l chunk list" where
  "split_by_heuristics t cfg =
     (if t = [] then []
      else if int (length t) \<le> cfg_size cfg then split_text t cfg
      else let bounds = find_heuristic_boundaries t (cfg_languages cfg);
               prot = protected_spans_rune t (protected_spans t);
               bounds = (if prot \<noteq> [] then drop_bounds_inside_spans bounds prot else bounds)
           in if bounds = [] then split_text t cfg
              else pack_blocks t cfg (with_ends (length t) bounds))"

section \<open>Where boundaries lie\<close>

lemma drop_duplicates_sorted:
  "sorted (map fst bs) \<Longrightarrow> (\<forall>p. prev = Some p \<longrightarrow> (\<forall>b \<in> set bs. p \<le> fst b)) \<Longrightarrow>
     sorted_wrt (<) (map fst (drop_duplicates prev bs)) \<and> set (drop_duplicates prev bs) \<subseteq> set bs \<and>
     (\<forall>b \<in> set (drop_duplicates prev bs). prev \<noteq> Some (fst b))"
proof (induction prev bs rule: drop_duplicates.induct)
  case (2 prev b bs)
  show ?case
  proof (cases "prev = Some (fst b)")
    case False
    with "2.prems" "2.IH"(2) have ih: "sorted_wrt (<) (map fst (drop_duplicates (Some (fst b)) bs))"
      "set (drop_duplicates (Some (fst b)) bs) \<subseteq> set bs" "\<forall>c \<in> set (drop_duplicates (Some (fst b)) bs). fst b \<noteq> fst c"
      by auto
    from "2.prems"(1) have le: "\<forall>c \<in> set bs. fst b \<le> fst c" by simp
    have less: "fst b < fst c" if "c \<in> set (drop_duplicates (Some (fst b)) bs)" for c
    proof -
      from that ih(2) le have "fst b \<le> fst c" by blast
      with that ih(3) show ?thesis by (metis order_le_less)
    qed
    have "prev \<noteq> Some (fst c)" if "c \<in> set (drop_duplicates (Some (fst b)) bs)" for c
      using less [OF that] "2.prems"(2) by (metis linorder_not_le list.set_intros(1))
    with ih less False show ?thesis by auto
  qed (use 2 in auto)
qed auto

lemma drop_duplicates_nonempty: "bs \<noteq> [] \<Longrightarrow> drop_duplicates None bs \<noteq> []"
  by (cases bs) auto

lemma sorted_fst: "sorted (map (\<lambda>b :: mark. (fst b, - int (snd b))) bs) \<Longrightarrow> sorted (map fst bs)"
  by (induction bs) (auto simp: less_eq_prod_def)

lemma sort_key_fst: "sorted (map fst (sort_key (\<lambda>b :: mark. (fst b, - int (snd b))) bs))"
  by (intro sorted_fst sorted_sort_key)

lemma raw_marks_bounds:
  assumes "b \<in> set (raw_marks t langs)"
  shows "fst b \<le> length t"
proof -
  from assms consider "fst b \<in> set (all_rune_indices t 12)" | line where "(fst b, line) \<in> set (lines_of t)"
    | x where "x \<in> set (find_all_index excessive_blanks_pattern t)" "fst b = length (byte_take (snd x) t)"
    by (fastforce simp: raw_marks_def line_marks_def blank_marks_def split: option.splits)
  then show ?thesis
  proof cases
    case 2
    from lines_of_bounds [OF this] show ?thesis by simp
  next
    case 3
    have "length (byte_take k t) \<le> length t" for k
      by (induction k t rule: byte_take.induct) auto
    with 3 show ?thesis by simp
  qed (simp add: all_rune_indices_def)
qed

text \<open>Positions in strictly rising order, all within the text.\<close>

definition ordered_marks :: "nat \<Rightarrow> mark list \<Rightarrow> bool" where
  "ordered_marks n bounds \<longleftrightarrow> sorted_wrt (<) (map fst bounds) \<and> (\<forall>b \<in> set bounds. fst b \<le> n)"

lemma heuristic_boundaries_ordered: "ordered_marks (length t) (find_heuristic_boundaries t langs)"
  using drop_duplicates_sorted [OF sort_key_fst, of None "raw_marks t langs"] raw_marks_bounds [of _ t langs]
  by (fastforce simp: ordered_marks_def find_heuristic_boundaries_def)

lemma drop_bounds_ordered: "ordered_marks n bounds \<Longrightarrow> ordered_marks n (drop_bounds_inside_spans bounds spans)"
  by (induction bounds) (auto simp: ordered_marks_def drop_bounds_inside_spans_def)

lemma chain_later: "chain a n us \<Longrightarrow> v \<in> set us \<Longrightarrow> a \<le> fst v"
  by (induction us arbitrary: a) fastforce+

lemma inside_span_iff: "chain lo n spans \<Longrightarrow> inside_span b spans \<longleftrightarrow> (\<exists>s \<in> set spans. fst s < b \<and> b < snd s)"
proof (induction spans arbitrary: lo)
  case (Cons s ss)
  have later: "snd s \<le> fst u" if "u \<in> set ss" for u
    using chain_later [of "snd s" n ss u] Cons.prems that by simp
  from Cons.prems Cons.IH [of "snd s"] later show ?case by fastforce
qed simp

text \<open>What is packed: boundaries from 0 to the end of the text.\<close>

definition full_marks :: "nat \<Rightarrow> mark list \<Rightarrow> bool" where
  "full_marks n bounds \<longleftrightarrow>
     bounds \<noteq> [] \<and> fst (hd bounds) = 0 \<and> fst (last bounds) = n \<and> sorted (map fst bounds) \<and> (\<forall>b \<in> set bounds. fst b \<le> n)"

lemma with_ends_full: "ordered_marks n bounds \<Longrightarrow> full_marks n (with_ends n bounds)"
proof -
  assume o: "ordered_marks n bounds"
  then have s: "sorted (map fst bounds)" by (simp add: ordered_marks_def strict_sorted_imp_sorted)
  from o have "\<forall>b \<in> set bounds. fst b \<le> n" by (simp add: ordered_marks_def)
  with s have "sorted (map fst (bounds @ [(n, 0)]))" by (auto simp: sorted_append)
  with o s show ?thesis
    by (cases bounds) (auto simp: full_marks_def with_ends_def Let_def ordered_marks_def hd_append)
qed

section \<open>The packed chunks\<close>

text \<open>
  The state at boundary \<open>p\<close>: the chunks out are numbered and each is the text of its range behind
  an optional header; everything before \<^verbatim>\<open>chunkStart\<close> is in a chunk or blank.
\<close>

definition pack_inv :: "runes \<Rightarrow> nat \<Rightarrow> 'l pack_state \<Rightarrow> bool" where
  "pack_inv t p st \<longleftrightarrow>
     pk_start st \<le> p \<and> pk_end st = p \<and> p \<le> length t \<and> pk_seq st = length (pk_out st) \<and> numbered (pk_out st) \<and>
     (\<forall>c \<in> set (pk_out st). chunk_of t c) \<and> words_kept t (pk_start st) (pk_out st)"

lemma append_chunk_inv:
  assumes "pack_inv t p st" "q \<le> p"
  shows "pack_inv t p ((append_chunk t (pk_start st) p st)\<lparr>pk_start := q\<rparr>)"
proof (cases "p \<le> pk_start st \<or> trim_runes (segment (pk_start st) p t) = []")
  case True
  then have "words_kept t p (pk_out st)"
    using assms words_kept_blank [of t "pk_start st" "pk_out st" p] by (auto simp: pack_inv_def)
  with True assms show ?thesis
    by (auto simp: append_chunk_def pack_inv_def elim: words_kept_mono)
next
  case False
  define c where "c = (\<lparr>ck_content = segment (pk_start st) p t, ck_context = [], ck_seq = pk_seq st,
    ck_start = pk_start st, ck_end = p, ck_legal = None\<rparr> :: 'a chunk)"
  have e: "append_chunk t (pk_start st) p st = st\<lparr>pk_out := pk_out st @ [c], pk_seq := Suc (pk_seq st)\<rparr>"
    using False by (simp add: append_chunk_def c_def)
  have "words_kept t p (pk_out st @ [c])"
    using words_kept_one [of t c "pk_out st"] assms by (simp add: c_def pack_inv_def)
  then have "words_kept t q (pk_out st @ [c])" using assms(2) by (rule words_kept_mono) simp
  moreover have "chunk_of t c" using assms by (simp add: c_def chunk_of_def pack_inv_def)
  moreover have "numbered (pk_out st @ [c])"
    using assms numbered_snoc [of "pk_out st" c] by (simp add: pack_inv_def c_def)
  ultimately show ?thesis using assms by (simp add: pack_inv_def e)
qed

lemma oversize_moved:
  fixes cfg :: splitter_config
  shows "list_all2 (moved start) (split_text (segment start stop t) cfg :: 'l chunk list) (oversize_chunks t start stop cfg seq)"
  by (auto simp: oversize_chunks_def moved_def list_all2_conv_all_nth nth_enumerate_eq)

lemma oversize_seq:
  fixes cfg :: splitter_config
  assumes "numbered (cs :: 'l chunk list)"
  shows "numbered (cs @ oversize_chunks t start stop cfg (length cs))"
proof -
  have "map ck_seq (oversize_chunks t start stop cfg n :: 'l chunk list) =
      [n..<n + length (oversize_chunks t start stop cfg n :: 'l chunk list)]" for n
    by (rule nth_equalityI) (auto simp: oversize_chunks_def nth_enumerate_eq)
  with assms upt_add_eq_append [of 0 "length cs"] show ?thesis
    by (simp add: numbered_def)
qed

lemma append_oversize_inv:
  assumes "pack_inv t p st" "pk_start st = p" "p < q" "q \<le> length t"
  shows "pack_inv t q ((append_oversize_block t p q cfg st)\<lparr>pk_start := q, pk_end := q\<rparr>)"
proof -
  let ?os = "oversize_chunks t p q cfg (pk_seq st) :: 'a chunk list"
  from split_text_moved [OF oversize_moved assms(3,4)]
  have o: "\<forall>c \<in> set ?os. chunk_of t c" "reaches p q ?os" by blast+
  have "words_kept t q (pk_out st @ ?os)"
    using words_kept_reaches [OF _ o(2)] assms(1,2) by (simp add: pack_inv_def)
  moreover have "numbered (pk_out st @ ?os)"
    using oversize_seq [of "pk_out st" t p q cfg] assms(1) by (simp add: pack_inv_def)
  ultimately show ?thesis using assms o(1)
    by (auto simp: pack_inv_def append_oversize_block_def Let_def)
qed

lemma back_to_newline_0: "back_to_newline t w g 0 = g"
  by (subst back_to_newline.simps) simp

lemma overlap_aligned_le: "apply_overlap_aligned t p ov bounds \<le> p"
proof -
  have newline: "back_to_newline t w g i \<le> p" if "g \<le> p" "i < p" for w g i
    using that
  proof (induction t w g i rule: back_to_newline.induct)
    case (1 t w g i)
    then show ?case by (subst back_to_newline.simps) auto
  qed
  show ?thesis
  proof (cases "ov \<le> 0 \<or> p = 0")
    case True
    then show ?thesis by (auto simp: apply_overlap_aligned_def Let_def back_to_newline_0)
  next
    case False
    let ?near = "filter (\<lambda>q. nat (int p - 2 * ov) \<le> q \<and> q < p) (map fst bounds)"
    have "?near \<noteq> [] \<Longrightarrow> Max (set ?near) \<in> set ?near" by (intro Max_in) (simp_all only: finite_set set_empty not_False_eq_True)
    then have "?near \<noteq> [] \<Longrightarrow> Max (set ?near) \<le> p" by simp
    moreover have "back_to_newline t (nat (int p - 2 * ov)) (nat (int p - ov)) (nat (int p - ov)) \<le> p"
      using False by (intro newline) auto
    ultimately show ?thesis using False by (auto simp: apply_overlap_aligned_def Let_def)
  qed
qed

lemma append_chunk_end: "pk_end (append_chunk t a b st) = pk_end st"
  by (simp add: append_chunk_def)

lemma pack_block_inv:
  assumes inv: "pack_inv t p st" and b: "p \<le> fst b" "fst b \<le> length t" and n: "0 \<le> cfg_size cfg"
  shows "pack_inv t (fst b) (pack_block t cfg bounds b st)"
proof -
  have e: "pk_end st = p" using inv by (simp add: pack_inv_def)
  have widen: "pack_inv t (fst b) (st'\<lparr>pk_end := fst b\<rparr>)" if "pack_inv t p st'" for st' :: "'a pack_state"
    using that b by (simp add: pack_inv_def)
  show ?thesis
  proof (cases "cfg_size cfg < int (fst b) - int p")
    case True
    define st1 where "st1 = (if pk_start st < p then (append_chunk t (pk_start st) p st)\<lparr>pk_start := p\<rparr> else st)"
    have "pack_inv t p st1" "pk_start st1 = p"
      using append_chunk_inv [OF inv order_refl] inv by (auto simp: st1_def pack_inv_def)
    moreover from this have "pk_end st1 = p" by (simp add: pack_inv_def)
    moreover from True n have "p < fst b" by simp
    moreover have "pack_block t cfg bounds b st =
        (append_oversize_block t p (fst b) cfg st1)\<lparr>pk_start := fst b, pk_end := fst b\<rparr>"
      using True by (simp add: pack_block_def e Let_def st1_def append_chunk_end)
    ultimately show ?thesis using append_oversize_inv [of t p st1 "fst b" cfg] b(2) by simp
  next
    case False
    show ?thesis
    proof (cases "cfg_size cfg < int (fst b) - int (pk_start st) \<and> min_chunk_size (cfg_size cfg) \<le> int p - int (pk_start st)")
      case True
      with False widen [OF append_chunk_inv [OF inv overlap_aligned_le]] show ?thesis
        by (simp add: pack_block_def e Let_def)
    next
      case no: False
      then have "pack_block t cfg bounds b st = st\<lparr>pk_end := fst b\<rparr>"
        using False by (simp add: pack_block_def e Let_def if_not_P [OF no])
      with widen [OF inv] show ?thesis by simp
    qed
  qed
qed

lemma pack_fold_inv:
  assumes "pack_inv t p st" "sorted (p # map fst bs)" "\<forall>b \<in> set bs. fst b \<le> length t" "0 \<le> cfg_size cfg"
  shows "pack_inv t (last (p # map fst bs)) (fold (pack_block t cfg bounds) bs st)"
  using assms
proof (induction bs arbitrary: p st)
  case (Cons b bs)
  then have "pack_inv t (fst b) (pack_block t cfg bounds b st)" by (intro pack_block_inv) auto
  from Cons.IH [OF this] Cons.prems show ?case by simp
qed simp

text \<open>What a tier owes: numbered chunks, each the text of its range, that together hold every word.\<close>

definition sound_split :: "runes \<Rightarrow> 'l chunk list \<Rightarrow> bool" where
  "sound_split t cs \<longleftrightarrow> numbered cs \<and> (\<forall>c \<in> set cs. chunk_of t c) \<and> words_kept t (length t) cs"

lemma split_text_sound:
  fixes cfg :: splitter_config
  shows "sound_split t (split_text t cfg :: 'l chunk list)"
proof (cases "t = []")
  case False
  note ok = split_text_covers [OF False, of cfg, where 'l = 'l]
  from covers_reaches [OF ok(1)] have "words_kept t (length t) (split_text t cfg :: 'l chunk list)"
    by (simp add: reaches_def words_kept_def)
  with ok show ?thesis by (simp add: sound_split_def)
qed (simp add: sound_split_def split_text_def numbered_def)

lemma pack_blocks_sound:
  assumes f: "full_marks (length t) bounds" and n: "0 \<le> cfg_size cfg"
  shows "sound_split t (pack_blocks t cfg bounds)"
proof -
  define st where "st = (fold (pack_block t cfg bounds) (tl bounds) \<lparr>pk_out = [], pk_seq = 0, pk_start = 0, pk_end = 0\<rparr> :: 'a pack_state)"
  obtain b bs where bounds: "bounds = b # bs" "fst b = 0" using f by (cases bounds) (auto simp: full_marks_def)
  have "pack_inv t (last (0 # map fst bs)) st"
    unfolding st_def bounds(1) list.sel
    by (rule pack_fold_inv) (use f n bounds in \<open>auto simp: pack_inv_def numbered_def full_marks_def\<close>)
  moreover have "last (0 # map fst bs) = length t"
    using f bounds by (auto simp: full_marks_def last_map split: if_splits)
  ultimately have inv: "pack_inv t (length t) st" by simp
  have "pack_blocks t cfg bounds = pk_out (if pk_start st < pk_end st then append_chunk t (pk_start st) (pk_end st) st else st)"
    using f by (simp add: pack_blocks_def Let_def full_marks_def st_def)
  moreover have "pk_end st = length t" using inv by (simp add: pack_inv_def)
  ultimately show ?thesis
    using append_chunk_inv [OF inv order_refl] inv by (auto simp: sound_split_def pack_inv_def split: if_splits)
qed

lemma split_by_heuristics_sound:
  assumes "0 \<le> cfg_size cfg"
  shows "sound_split t (split_by_heuristics t cfg)"
proof -
  note ordered = heuristic_boundaries_ordered drop_bounds_ordered [OF heuristic_boundaries_ordered]
  show ?thesis using assms
    by (auto simp: split_by_heuristics_def Let_def split_text_sound intro!: pack_blocks_sound with_ends_full ordered)
      (auto simp: sound_split_def numbered_def)
qed

section \<open>An overlap that repeats a chunk\<close>

text \<open>
  \<^verbatim>\<open>applyOverlapAligned\<close> looks for a boundary up to twice the overlap back, further than the chunk
  it continues may reach: here the second chunk begins where the first began, repeats all of it,
  and has 250 runes at a budget of 200.
\<close>

lemma overlap_repeats_chunk:
  assumes "length t = 250" "trim_runes (segment 0 60 t) \<noteq> []" "trim_runes (segment 0 250 t) \<noteq> []"
    "cfg_size cfg = 200" "cfg_overlap cfg = 80"
  shows "map (\<lambda>c. (ck_start c, ck_end c)) (pack_blocks t cfg [(0, 0), (60, 85), (250, 0)]) = [(0, 60), (0, 250)]"
  using assms by (simp add: pack_blocks_def pack_block_def append_chunk_def min_chunk_size_def apply_overlap_aligned_def)

end
