(* ===== verification/Chunk_Headings.thy ===== *)
theory Chunk_Headings
  imports Chunk_Profile
begin

text \<open>
  \<^verbatim>\<open>chunker/heading_splitter.go\<close>: sections at Markdown headings up to a primary level, each chunk
  with the breadcrumb of the headings in scope, oversized sections split by \<^verbatim>\<open>SplitText\<close>, and
  small neighbours joined under their shared breadcrumb.

  The lemmas show that section boundaries are ordered positions of the text, that the sections'
  chunks cover it, and that joining neighbours keeps the coverage and every chunk's position.
\<close>

section \<open>Boundaries and sections\<close>

type_synonym heading_boundary = "nat \<times> runes"  \<comment> \<open>rune offset and the heading line, empty for the leading one\<close>

definition add_boundary :: "nat \<Rightarrow> nat \<times> runes \<Rightarrow> heading_boundary list \<Rightarrow> heading_boundary list" where
  "add_boundary primary_level pl bounds =
     (case heading_level (snd pl) of
        None \<Rightarrow> bounds
      | Some level \<Rightarrow>
          if 1 \<le> level \<and> level \<le> primary_level then
            if 0 < fst pl then bounds @ [pl] else bounds[0 := (fst (hd bounds), snd pl)]
          else bounds)"

definition find_heading_boundaries :: "runes \<Rightarrow> nat \<Rightarrow> heading_boundary list" where
  "find_heading_boundaries t primary_level =
     (if t = [] then [(0, [])] else fold (add_boundary primary_level) (lines_of t) [(0, [])])"

definition deeper :: "nat \<Rightarrow> runes \<Rightarrow> bool" where
  "deeper primary_level line \<longleftrightarrow>
     (case heading_level line of None \<Rightarrow> False | Some level \<Rightarrow> primary_level < level)"

definition observe_sub_headings :: "runes \<Rightarrow> nat \<Rightarrow> hierarchy \<Rightarrow> hierarchy" where
  "observe_sub_headings t primary_level h =
     fold observe (filter (deeper primary_level) (map snd (lines_of t))) h"

primrec breadcrumbs_from :: "hierarchy \<Rightarrow> (nat \<times> runes) list \<Rightarrow> (nat \<times> runes) list" where
  "breadcrumbs_from h [] = []"
| "breadcrumbs_from h (pl # pls) =
     (let h = observe (snd pl) h in (fst pl, breadcrumb_with_hashes h) # breadcrumbs_from h pls)"

definition section_breadcrumbs :: "runes \<Rightarrow> nat \<Rightarrow> hierarchy \<Rightarrow> (nat \<times> runes) list" where
  "section_breadcrumbs t primary_level seed =
     (0, breadcrumb_with_hashes seed) #
     breadcrumbs_from seed (filter (\<lambda>pl. deeper primary_level (snd pl)) (lines_of t))"

fun breadcrumb_at_offset :: "(nat \<times> runes) list \<Rightarrow> nat \<Rightarrow> runes \<Rightarrow> runes" where
  "breadcrumb_at_offset [] offset bc = bc"
| "breadcrumb_at_offset (e # es) offset bc =
     (if offset < fst e then bc else breadcrumb_at_offset es offset (snd e))"

definition section_chunks ::
  "runes \<Rightarrow> splitter_config \<Rightarrow> nat \<Rightarrow> hierarchy \<Rightarrow> nat \<Rightarrow> nat \<Rightarrow> nat \<Rightarrow> 'l chunk list" where
  "section_chunks t cfg primary_level h start stop seq =
     (let sec = segment start stop t; bc = breadcrumb_with_hashes h in
      if sec = [] then []
      else if int (length bc) + 2 + int (length sec) \<le> cfg_size cfg then
        [\<lparr>ck_content = sec, ck_context = bc, ck_seq = seq, ck_start = start, ck_end = stop, ck_legal = None\<rparr>]
      else map (\<lambda>(k, sub). \<lparr>ck_content = ck_content sub,
                 ck_context = breadcrumb_at_offset (section_breadcrumbs sec primary_level h) (ck_start sub) bc,
                 ck_seq = seq + k, ck_start = start + ck_start sub, ck_end = start + ck_end sub, ck_legal = None\<rparr>)
             (List.enumerate 0 (split_text sec cfg :: 'l chunk list)))"

fun heading_sections ::
  "runes \<Rightarrow> splitter_config \<Rightarrow> nat \<Rightarrow> hierarchy \<Rightarrow> nat \<Rightarrow> heading_boundary list \<Rightarrow> 'l chunk list" where
  "heading_sections t cfg primary_level h seq [] = []"
| "heading_sections t cfg primary_level h seq (b # bs) =
     (let stop = (if bs = [] then length t else fst (hd bs));
          h = (if snd b \<noteq> [] then observe (snd b) h else h);
          chunks = section_chunks t cfg primary_level h (fst b) stop seq;
          h' = observe_sub_headings (segment (fst b) stop t) primary_level h
      in chunks @ heading_sections t cfg primary_level h' (seq + length chunks) bs)"

section \<open>Joining small neighbours\<close>

fun common_lines :: "runes list \<Rightarrow> runes list \<Rightarrow> runes list" where
  "common_lines (a # as) (b # bs) = (if a = b then a # common_lines as bs else [])"
| "common_lines as bs = []"

definition common_heading_prefix :: "runes \<Rightarrow> runes \<Rightarrow> runes" where
  "common_heading_prefix a b =
     (if a = b then a else join_runes [nl] (common_lines (split_at nl a) (split_at nl b)))"

definition join_condition :: "int \<Rightarrow> int \<Rightarrow> 'l chunk \<Rightarrow> int \<Rightarrow> 'l chunk \<Rightarrow> bool" where
  "join_condition target chunk_size cur cur_len nxt \<longleftrightarrow>
     common_heading_prefix (ck_context cur) (ck_context nxt) \<noteq> [] \<and> ck_end cur = ck_start nxt \<and>
     cur_len < target \<and> cur_len + int (length (ck_content nxt)) \<le> chunk_size"

primrec coalesce_loop :: "int \<Rightarrow> int \<Rightarrow> 'l chunk \<Rightarrow> int \<Rightarrow> 'l chunk list \<Rightarrow> 'l chunk list" where
  "coalesce_loop target chunk_size cur cur_len [] = [cur]"
| "coalesce_loop target chunk_size cur cur_len (nxt # rest) =
     (if join_condition target chunk_size cur cur_len nxt
      then coalesce_loop target chunk_size
             (cur\<lparr>ck_content := ck_content cur @ ck_content nxt,
                  ck_context := common_heading_prefix (ck_context cur) (ck_context nxt), ck_end := ck_end nxt\<rparr>)
             (cur_len + int (length (ck_content nxt))) rest
      else cur # coalesce_loop target chunk_size nxt (int (length (ck_content nxt))) rest)"

definition renumber :: "'l chunk list \<Rightarrow> 'l chunk list" where
  "renumber cs = map (\<lambda>(k, c). c\<lparr>ck_seq := k\<rparr>) (List.enumerate 0 cs)"

definition coalesce_tiny_chunks :: "'l chunk list \<Rightarrow> int \<Rightarrow> 'l chunk list" where
  "coalesce_tiny_chunks cs chunk_size =
     (if length cs \<le> 1 \<or> chunk_size \<le> 0 then cs
      else let target = max (chunk_size div 2) 200
           in renumber (coalesce_loop target chunk_size (hd cs) (int (length (ck_content (hd cs)))) (tl cs)))"

definition split_by_headings :: "runes \<Rightarrow> splitter_config \<Rightarrow> doc_profile \<Rightarrow> 'l chunk list" where
  "split_by_headings t cfg profile =
     (if t = [] then []
      else let primary_level = dominant_heading_level profile in
        if primary_level = 0 then split_text t cfg
        else let bounds = find_heading_boundaries t primary_level in
          if length bounds \<le> 1 then split_text t cfg
          else coalesce_tiny_chunks (heading_sections t cfg primary_level new_hierarchy 0 bounds) (cfg_size cfg))"

section \<open>Positions of boundaries\<close>

lemma heading_nonempty: "heading_level line = Some level \<Longrightarrow> 1 \<le> level \<Longrightarrow> line \<noteq> []"
  by (auto simp: heading_level_def group_text_def segment_def)

lemma boundaries_ordered:
  "sorted_wrt (<) (map fst (find_heading_boundaries t primary_level)) \<and>
   find_heading_boundaries t primary_level \<noteq> [] \<and> fst (hd (find_heading_boundaries t primary_level)) = 0 \<and>
   (\<forall>b \<in> set (find_heading_boundaries t primary_level). t \<noteq> [] \<longrightarrow> fst b < length t)"
proof (cases "t = []")
  case False
  have step: "sorted_wrt (<) (map fst (fold (add_boundary primary_level) ls bs)) \<and>
      fold (add_boundary primary_level) ls bs \<noteq> [] \<and> fst (hd (fold (add_boundary primary_level) ls bs)) = 0 \<and>
      (\<forall>b \<in> set (fold (add_boundary primary_level) ls bs). fst b < length t)"
    if "sorted_wrt (<) (map fst ls)" "set ls \<subseteq> set (lines_of t)" "sorted_wrt (<) (map fst bs)" "bs \<noteq> []"
      "fst (hd bs) = 0" "\<forall>b \<in> set bs. fst b < length t" "\<forall>b \<in> set bs. \<forall>l \<in> set ls. 0 < fst l \<longrightarrow> fst b < fst l" for ls bs
    using that
  proof (induction ls arbitrary: bs)
    case (Cons l ls)
    have len: "fst l < length t" if "heading_level (snd l) = Some level" "1 \<le> level" for level
    proof -
      from Cons.prems(2) have "(fst l, snd l) \<in> set (lines_of t)" by simp
      from lines_of_bounds [OF this] heading_nonempty [OF that] show ?thesis by (cases "snd l") auto
    qed
    have "bs[0 := (fst (hd bs), snd l)] = (0, snd l) # tl bs" using Cons.prems(4,5) by (cases bs) auto
    then show ?case
      using Cons.prems len
      by (simp, intro Cons.IH) (cases bs; auto simp: add_boundary_def sorted_wrt_append split: option.splits)+
  qed simp
  have "\<forall>b \<in> set [(0, [])]. fst b < length t" using False by simp
  with step [of "lines_of t" "[(0, [])]"] lines_of_sorted [of t] False show ?thesis
    by (simp add: find_heading_boundaries_def)
qed (simp add: find_heading_boundaries_def)

section \<open>The sections' chunks\<close>

lemma section_chunks_split:
  fixes cfg :: splitter_config
  assumes "segment start stop t \<noteq> []" "\<not> int (length (breadcrumb_with_hashes h)) + 2 + int (length (segment start stop t)) \<le> cfg_size cfg"
  shows "list_all2 (moved start) (split_text (segment start stop t) cfg :: 'l chunk list)
    (section_chunks t cfg primary_level h start stop seq)"
  using assms by (auto simp: section_chunks_def Let_def moved_def list_all2_conv_all_nth nth_enumerate_eq)

lemma section_chunks_laid:
  fixes cfg :: splitter_config
  assumes "0 < cfg_size cfg" "cfg_size cfg \<le> int max_piece" "start \<le> stop" "stop \<le> length t"
  shows "laid (max (cfg_overlap cfg) 0) (cfg_size cfg) t start stop
    (section_chunks t cfg primary_level h start stop seq :: 'l chunk list)"
proof -
  let ?cs = "section_chunks t cfg primary_level h start stop seq :: 'l chunk list"
  consider "segment start stop t = []" | "segment start stop t \<noteq> []"
      "int (length (breadcrumb_with_hashes h)) + 2 + int (length (segment start stop t)) \<le> cfg_size cfg"
    | "segment start stop t \<noteq> []"
      "\<not> int (length (breadcrumb_with_hashes h)) + 2 + int (length (segment start stop t)) \<le> cfg_size cfg" by blast
  then show ?thesis
  proof cases
    case 1
    with assms(3,4) have "start = stop" by (auto simp: segment_def)
    with 1 show ?thesis by (simp add: section_chunks_def)
  next
    case 2
    with assms(3,4) have "chunk_of t (hd ?cs)" "headless (hd ?cs)" "?cs = [hd ?cs]" "ck_start (hd ?cs) = start" "ck_end (hd ?cs) = stop"
      by (simp_all add: section_chunks_def Let_def chunk_of_def headless_def)
    with laid_one [of t "hd ?cs"] show ?thesis by metis
  next
    case 3
    from split_text_laid [OF assms(1,2)] assms(3,4)
    have "laid (max (cfg_overlap cfg) 0) (cfg_size cfg) (segment start stop t) 0 (stop - start)
      (split_text (segment start stop t) cfg :: 'l chunk list)" by (metis segment_length)
    from moved_laid [OF section_chunks_split [OF 3] this assms(3,4)] show ?thesis .
  qed
qed

lemma section_chunks_seq:
  fixes cfg :: splitter_config
  shows "map ck_seq (section_chunks t cfg primary_level h start stop seq :: 'l chunk list) =
    [seq..<seq + length (section_chunks t cfg primary_level h start stop seq :: 'l chunk list)]"
  by (rule nth_equalityI) (auto simp: section_chunks_def Let_def nth_enumerate_eq)

lemma heading_sections_laid:
  fixes cfg :: splitter_config
  assumes size: "0 < cfg_size cfg" "cfg_size cfg \<le> int max_piece"
    and bs: "bs \<noteq> []" "sorted_wrt (<) (map fst bs)" "\<forall>b \<in> set bs. fst b < length t"
  shows "laid (max (cfg_overlap cfg) 0) (cfg_size cfg) t (fst (hd bs)) (length t)
      (heading_sections t cfg primary_level h seq bs :: 'l chunk list) \<and>
    map ck_seq (heading_sections t cfg primary_level h seq bs :: 'l chunk list) =
      [seq..<seq + length (heading_sections t cfg primary_level h seq bs :: 'l chunk list)]"
  using bs
proof (induction bs arbitrary: h seq)
  case (Cons b bs)
  let ?stop = "if bs = [] then length t else fst (hd bs)"
  define h1 where "h1 = (if snd b \<noteq> [] then observe (snd b) h else h)"
  define cs where "cs = (section_chunks t cfg primary_level h1 (fst b) ?stop seq :: 'l chunk list)"
  define ds where "ds = (heading_sections t cfg primary_level
      (observe_sub_headings (segment (fst b) ?stop t) primary_level h1) (seq + length cs) bs :: 'l chunk list)"
  have e: "heading_sections t cfg primary_level h seq (b # bs) = cs @ ds"
    by (simp add: Let_def cs_def ds_def h1_def)
  have "fst b \<le> ?stop" "?stop \<le> length t" using Cons.prems by (cases bs; auto)+
  with size have c: "laid (max (cfg_overlap cfg) 0) (cfg_size cfg) t (fst b) ?stop cs"
    unfolding cs_def by (intro section_chunks_laid)
  have ih: "if bs = [] then ds = [] else laid (max (cfg_overlap cfg) 0) (cfg_size cfg) t (fst (hd bs)) (length t) ds \<and>
      map ck_seq ds = [seq + length cs..<seq + length cs + length ds]"
  proof (cases "bs = []")
    case False
    with Cons.prems have "sorted_wrt (<) (map fst bs)" "\<forall>b \<in> set bs. fst b < length t" by simp_all
    from Cons.IH [OF False this] False show ?thesis unfolding ds_def by simp
  qed (simp add: ds_def)
  have d: "laid (max (cfg_overlap cfg) 0) (cfg_size cfg) t ?stop (length t) ds"
    "map ck_seq ds = [seq + length cs..<seq + length cs + length ds]"
    using ih by (cases "bs = []"; simp)+
  have seqs: "map ck_seq cs = [seq..<seq + length cs]" unfolding cs_def by (rule section_chunks_seq)
  from laid_append [OF c d(1)] have "laid (max (cfg_overlap cfg) 0) (cfg_size cfg) t (fst b) (length t) (cs @ ds)" by simp
  moreover have "map ck_seq (cs @ ds) = [seq..<seq + length (cs @ ds)]"
    using seqs d(2) upt_add_eq_append [of seq "seq + length cs" "length ds"] by (simp add: add.assoc)
  ultimately show ?case unfolding e by simp
qed simp

section \<open>Joining keeps positions\<close>

definition joined :: "'l chunk \<Rightarrow> 'l chunk \<Rightarrow> 'l chunk" where
  "joined cur nxt = cur\<lparr>ck_content := ck_content cur @ ck_content nxt,
     ck_context := common_heading_prefix (ck_context cur) (ck_context nxt), ck_end := ck_end nxt\<rparr>"

lemma joined_simps [simp]:
  "ck_content (joined a b) = ck_content a @ ck_content b" "ck_start (joined a b) = ck_start a"
  "ck_end (joined a b) = ck_end b"
  by (simp_all add: joined_def)

lemma coalesce_step:
  "coalesce_loop target n cur k (nxt # rest) =
     (if join_condition target n cur k nxt then coalesce_loop target n (joined cur nxt) (k + int (length (ck_content nxt))) rest
      else cur # coalesce_loop target n nxt (int (length (ck_content nxt))) rest)"
  by (simp add: joined_def)

declare coalesce_loop.simps(2) [simp del]

text \<open>A neighbour that is joined carries no header: its own text is appended, and only that.\<close>

lemma join_headless:
  assumes "header_room n cur nxt" "join_condition target n cur (int (length (ck_content cur))) nxt"
  shows "headless nxt"
  using assms by (auto simp: header_room_def join_condition_def)

lemma joined_chunk_of:
  assumes "chunk_of t a" "chunk_of t b" "headless b" "ck_end a = ck_start b"
  shows "chunk_of t (joined a b)"
proof -
  obtain g where g: "ck_content b = g @ segment (ck_start b) (ck_end b) t" using assms(2) by (auto simp: chunk_of_def)
  with assms(2,3) have "length g + (ck_end b - ck_start b) = ck_end b - ck_start b"
    by (simp add: chunk_of_def headless_def)
  with g have "ck_content b = segment (ck_start b) (ck_end b) t" by simp
  moreover obtain h where "ck_content a = h @ segment (ck_start a) (ck_end a) t" "h = [] \<or> table_header t h"
    using assms(1) by (auto simp: chunk_of_def)
  ultimately show ?thesis using assms segment_append [of "ck_start a" "ck_end a" "ck_end b" t]
    by (auto simp: chunk_of_def)
qed

lemma joined_headless: "headless a \<Longrightarrow> headless b \<Longrightarrow> chunk_of t a \<Longrightarrow> chunk_of t b \<Longrightarrow> ck_end a = ck_start b \<Longrightarrow>
    headless (joined a b)"
  by (auto simp: headless_def chunk_of_def)

text \<open>
  The chunks of \<open>cs\<close>, the head possibly behind a header; and a chunk that starts as \<open>b\<close> does and
  has grown to the right.
\<close>

definition row :: "int \<Rightarrow> int \<Rightarrow> runes \<Rightarrow> nat \<Rightarrow> 'l chunk list \<Rightarrow> bool" where
  "row ov n t hi cs \<longleftrightarrow>
     cs \<noteq> [] \<and> ck_end (last cs) = hi \<and> successively (linked ov) cs \<and> successively (header_room n) cs \<and>
     (\<forall>c \<in> set cs. chunk_of t c)"

definition grown :: "'l chunk \<Rightarrow> 'l chunk \<Rightarrow> bool" where
  "grown b c \<longleftrightarrow>
     ck_start c = ck_start b \<and> ck_end b \<le> ck_end c \<and> length (ck_content b) \<le> length (ck_content c) \<and>
     (headless b \<longrightarrow> headless c)"

lemma laid_row: "cs \<noteq> [] \<Longrightarrow> laid ov n t lo hi cs \<longleftrightarrow> row ov n t hi cs \<and> ck_start (hd cs) = lo \<and> headless (hd cs)"
  by (auto simp: laid_def row_def)

lemma row_join:
  assumes r: "row ov n t hi (a # b # cs)" and j: "join_condition target n a (int (length (ck_content a))) b"
  shows "row ov n t hi (joined a b # cs) \<and> grown a (joined a b)"
proof -
  from j have meet: "ck_end a = ck_start b" by (simp add: join_condition_def)
  have ok: "chunk_of t a" "chunk_of t b" "headless b"
    using r join_headless [OF _ j] by (auto simp: row_def)
  note new = joined_chunk_of [OF ok meet]
  have "linked ov (joined a b) c" "header_room n (joined a b) c" if "linked ov b c" "header_room n b c" for c
    using that ok meet by (auto simp: linked_def header_room_def chunk_of_def)
  then have "row ov n t hi (joined a b # cs)" using r new by (cases cs) (auto simp: row_def)
  moreover have "grown a (joined a b)" using ok meet by (auto simp: grown_def headless_def chunk_of_def)
  ultimately show ?thesis ..
qed

lemma row_Cons:
  assumes "row ov n t hi (a # b # cs)" "row ov n t hi ds" "grown b (hd ds)"
  shows "row ov n t hi (a # ds)"
proof -
  have "linked ov a (hd ds)" "header_room n a (hd ds)"
    using assms by (auto simp: row_def grown_def linked_def header_room_def)
  with assms(1,2) show ?thesis by (cases ds) (auto simp: row_def)
qed

lemma coalesce_loop_row:
  assumes "row ov n t hi (a # cs)"
  shows "row ov n t hi (coalesce_loop target n a (int (length (ck_content a))) cs) \<and>
    grown a (hd (coalesce_loop target n a (int (length (ck_content a))) cs))"
  using assms
proof (induction cs arbitrary: a)
  case (Cons b cs)
  show ?case
  proof (cases "join_condition target n a (int (length (ck_content a))) b")
    case True
    from row_join [OF Cons.prems True] Cons.IH [of "joined a b"] True show ?thesis
      by (auto simp: coalesce_step grown_def)
  next
    case False
    from Cons.prems have "row ov n t hi (b # cs)" by (simp add: row_def)
    from Cons.IH [OF this] row_Cons [OF Cons.prems] False show ?thesis
      by (simp add: coalesce_step grown_def)
  qed
qed (simp add: grown_def)

lemma renumber_simps [simp]: "length (renumber cs) = length cs" "renumber cs = [] \<longleftrightarrow> cs = []"
  by (simp_all add: renumber_def)

lemma renumber_moved: "list_all2 (moved 0) cs (renumber cs)"
  by (auto simp: renumber_def list_all2_conv_all_nth nth_enumerate_eq moved_def)

lemma renumber_numbered: "numbered (renumber cs)"
  by (auto simp: numbered_def renumber_def intro!: nth_equalityI simp: nth_enumerate_eq)

lemma renumber_laid: "laid ov n t 0 (length t) cs \<Longrightarrow> laid ov n t 0 (length t) (renumber cs)"
  using moved_laid [where a = 0 and b = "length t" and t = t, OF renumber_moved] by (simp add: segment_all)

lemma coalesce_laid:
  assumes "laid ov n t 0 (length t) cs" "numbered cs"
  shows "laid ov n t 0 (length t) (coalesce_tiny_chunks cs n) \<and> numbered (coalesce_tiny_chunks cs n)"
proof (cases "length cs \<le> 1 \<or> n \<le> 0")
  case False
  then obtain a b ds where cs: "cs = a # b # ds" by (cases cs; cases "tl cs") auto
  let ?r = "coalesce_loop (max (n div 2) 200) n a (int (length (ck_content a))) (b # ds)"
  have r: "row ov n t (length t) ?r \<and> grown a (hd ?r)"
    using assms(1) by (intro coalesce_loop_row) (simp add: cs laid_row)
  then have "?r \<noteq> []" by (auto simp: row_def)
  with r assms(1) have "laid ov n t 0 (length t) ?r" by (auto simp: cs laid_row grown_def)
  with False show ?thesis
    by (simp add: coalesce_tiny_chunks_def cs renumber_laid renumber_numbered Let_def)
qed (use assms in \<open>auto simp: coalesce_tiny_chunks_def\<close>)

lemma split_by_headings_laid:
  fixes cfg :: splitter_config
  assumes "0 < cfg_size cfg" "cfg_size cfg \<le> int max_piece" "t \<noteq> []"
  shows "laid (max (cfg_overlap cfg) 0) (cfg_size cfg) t 0 (length t) (split_by_headings t cfg p :: 'l chunk list) \<and>
    numbered (split_by_headings t cfg p :: 'l chunk list)"
proof -
  let ?bs = "find_heading_boundaries t (dominant_heading_level p)"
  from boundaries_ordered [of t "dominant_heading_level p"] assms(3)
  have bs: "?bs \<noteq> []" "sorted_wrt (<) (map fst ?bs)" "\<forall>b \<in> set ?bs. fst b < length t" "fst (hd ?bs) = 0" by auto
  from heading_sections_laid [OF assms(1,2) bs(1-3), of "dominant_heading_level p" new_hierarchy 0] bs(4)
  have "laid (max (cfg_overlap cfg) 0) (cfg_size cfg) t 0 (length t)
      (heading_sections t cfg (dominant_heading_level p) new_hierarchy 0 ?bs :: 'l chunk list) \<and>
    numbered (heading_sections t cfg (dominant_heading_level p) new_hierarchy 0 ?bs :: 'l chunk list)"
    by (simp add: numbered_def)
  from coalesce_laid [OF conjunct1 [OF this] conjunct2 [OF this]]
    split_text_laid [OF assms(1,2), of t, where 'l = 'l] split_text_covers(3) [OF assms(3), of cfg, where 'l = 'l]
  show ?thesis by (simp add: split_by_headings_def Let_def assms(3))
qed

end
