(* ===== verification/Legal_Chunks.thy ===== *)
theory Legal_Chunks
  imports Legal_Rules Chunk_Heuristic Chunk_Headings
begin

text \<open>
  \<^verbatim>\<open>chunker/vietnamese_legal.go\<close>: a legal text is cut at its headings, small sections are packed
  together, a section above the budget is cut at its khoan, and every chunk gets the path of
  headings and the khoan and diem it holds.

  The lemmas show that every word is in a chunk, that each chunk is the text of its range, and that
  an article which fits the budget is never cut.
\<close>

section \<open>Packing segments\<close>

record 'l legal_pack =
  lp_out :: "'l chunk list"
  lp_open :: "(nat \<times> nat) option"  \<comment> \<open>the pending range; \<open>None\<close> for the code's \<open>-1\<close>\<close>

definition pack_flush :: "runes \<Rightarrow> nat \<Rightarrow> nat \<Rightarrow> 'l legal_pack \<Rightarrow> 'l legal_pack" where
  "pack_flush t base seq st =
     (case lp_open st of
        None \<Rightarrow> st
      | Some (s, e) \<Rightarrow>
          st\<lparr>lp_out := lp_out st @ [\<lparr>ck_content = segment s e t, ck_context = [], ck_seq = seq + length (lp_out st),
                                       ck_start = base + s, ck_end = base + e, ck_legal = None\<rparr>],
             lp_open := None\<rparr>)"

definition pack_segment ::
  "runes \<Rightarrow> nat \<Rightarrow> nat \<Rightarrow> int \<Rightarrow> (nat \<Rightarrow> nat \<Rightarrow> nat \<Rightarrow> 'l chunk list) \<Rightarrow> nat \<times> nat \<Rightarrow> 'l legal_pack \<Rightarrow> 'l legal_pack" where
  "pack_segment t base seq chunk_size oversized sg st =
     (if chunk_size < int (snd sg) - int (fst sg) then
        let st = pack_flush t base seq st
        in st\<lparr>lp_out := lp_out st @ oversized (length (lp_out st)) (fst sg) (snd sg)\<rparr>
      else case lp_open st of
        None \<Rightarrow> st\<lparr>lp_open := Some sg\<rparr>
      | Some (s, e) \<Rightarrow>
          if int (snd sg) - int s \<le> chunk_size then st\<lparr>lp_open := Some (s, snd sg)\<rparr>
          else (pack_flush t base seq st)\<lparr>lp_open := Some sg\<rparr>)"

definition pack_segments ::
  "runes \<Rightarrow> nat \<Rightarrow> nat \<Rightarrow> int \<Rightarrow> (nat \<Rightarrow> nat \<Rightarrow> nat \<Rightarrow> 'l chunk list) \<Rightarrow> (nat \<times> nat) list \<Rightarrow> 'l chunk list" where
  "pack_segments t base seq chunk_size oversized sgs =
     lp_out (pack_flush t base seq
       (fold (pack_segment t base seq chunk_size oversized) sgs \<lparr>lp_out = [], lp_open = None\<rparr>))"

section \<open>An oversized section\<close>

definition emit_section :: "runes \<Rightarrow> splitter_config \<Rightarrow> nat \<Rightarrow> nat \<Rightarrow> nat \<Rightarrow> nat \<Rightarrow> 'l chunk list" where
  "emit_section sec cfg start seq rel_start rel_end =
     map (\<lambda>(k, c). \<lparr>ck_content = ck_content c, ck_context = [], ck_seq = seq + k,
                     ck_start = start + rel_start + ck_start c, ck_end = start + rel_start + ck_end c, ck_legal = None\<rparr>)
       (List.enumerate 0 (split_text (segment rel_start rel_end sec) cfg :: 'l chunk list))"

definition khoan_segments :: "runes \<Rightarrow> nat list \<Rightarrow> (nat \<times> nat) list" where
  "khoan_segments sec khoans =
     (if trim_runes (take (hd khoans) sec) \<noteq> [] then [(0, hd khoans)] else []) @
     zip khoans (tl khoans @ [length sec])"

definition khoan_starts :: "unicode_tables \<Rightarrow> runes \<Rightarrow> nat list" where
  "khoan_starts u sec = map sd_start (filter (\<lambda>s. sd_kind s = ''khoan'') (find_subdivisions u sec))"

definition split_oversized_legal_section ::
  "unicode_tables \<Rightarrow> runes \<Rightarrow> splitter_config \<Rightarrow> nat \<Rightarrow> nat \<Rightarrow> nat \<Rightarrow> 'l chunk list" where
  "split_oversized_legal_section u t cfg seq start stop =
     (let sec = segment start stop t; khoans = khoan_starts u sec in
      if khoans = [] then emit_section sec cfg start seq 0 (length sec)
      else pack_segments sec start seq (cfg_size cfg) (\<lambda>_ s e. emit_section sec cfg start seq s e)
             (khoan_segments sec khoans))"

section \<open>The tier\<close>

definition section_bounds :: "unicode_tables \<Rightarrow> runes \<Rightarrow> nat list" where
  "section_bounds u t = 0 # filter (\<lambda>s. 0 < s) (map lh_start (find_headings u t)) @ [length t]"

definition legal_sections :: "unicode_tables \<Rightarrow> runes \<Rightarrow> (nat \<times> nat) list" where
  "legal_sections u t =
     filter (\<lambda>(s, e). s < e \<and> trim_runes (segment s e t) \<noteq> []) (zip (section_bounds u t) (tl (section_bounds u t)))"

definition legal_of :: "runes list \<Rightarrow> subdivision_metadata \<Rightarrow> legal_metadata option" where
  "legal_of path m =
     (if path \<noteq> [] \<or> sm_khoan_nos m \<noteq> [] \<or> sm_diem_labels m \<noteq> []
      then Some \<lparr>lm_heading_path = path, lm_article_nos = extract_article_nos path, lm_khoan_nos = sm_khoan_nos m,
                 lm_diem_labels = sm_diem_labels m, lm_refs = sm_refs m, lm_schema_version = 1\<rparr>
      else None)"

definition attach_legal_metadata :: "unicode_tables \<Rightarrow> legal_metadata chunk list \<Rightarrow> legal_metadata chunk list" where
  "attach_legal_metadata u cs =
     (let contents = map ck_content cs;
          paths = derive_heading_paths u contents;
          metas = derive_subdivision_metadata u contents paths
      in map (\<lambda>(c, path, m).
               (c\<lparr>ck_legal := legal_of path m\<rparr>)
                 \<lparr>ck_context := (if path \<noteq> [] then join_runes (ascii '' > '') path else ck_context c)\<rparr>)
           (zip cs (zip paths metas)))"

definition split_by_vietnamese_legal :: "unicode_tables \<Rightarrow> runes \<Rightarrow> splitter_config \<Rightarrow> legal_metadata chunk list" where
  "split_by_vietnamese_legal u t cfg =
     (if t = [] then []
      else if dieu_count (find_headings u t) < min_dieu_headings then []
      else attach_legal_metadata u (renumber
             (pack_segments t 0 0 (cfg_size cfg)
                (\<lambda>seq s e. split_oversized_legal_section u t cfg seq s e) (legal_sections u t))))"

section \<open>Words between two positions\<close>

definition blank_between :: "runes \<Rightarrow> nat \<Rightarrow> nat \<Rightarrow> bool" where
  "blank_between t a b \<longleftrightarrow> (\<forall>i. a \<le> i \<longrightarrow> i < b \<longrightarrow> is_space (t ! i))"

definition words_between :: "runes \<Rightarrow> nat \<Rightarrow> nat \<Rightarrow> 'l chunk list \<Rightarrow> bool" where
  "words_between t a b cs \<longleftrightarrow>
     (\<forall>i. a \<le> i \<longrightarrow> i < b \<longrightarrow> \<not> is_space (t ! i) \<longrightarrow> (\<exists>c \<in> set cs. ck_start c \<le> i \<and> i < ck_end c))"

lemma words_between_same [simp]: "words_between t a a cs"
  by (simp add: words_between_def)

lemma words_between_append: "words_between t a b cs \<Longrightarrow> words_between t b c ds \<Longrightarrow> words_between t a c (cs @ ds)"
  unfolding words_between_def by (metis Un_iff linorder_not_le set_append)

lemma words_between_blank: "words_between t a b cs \<Longrightarrow> blank_between t b c \<Longrightarrow> words_between t a c cs"
  unfolding words_between_def blank_between_def by (meson linorder_not_le)

lemma words_between_reaches: "reaches a b cs \<Longrightarrow> words_between t a b cs"
  by (auto simp: reaches_def words_between_def)

lemma words_between_one: "ck_start c = a \<Longrightarrow> ck_end c = b \<Longrightarrow> words_between t a b [c]"
  by (auto simp: words_between_def)

lemma blank_between_append: "blank_between t a b \<Longrightarrow> blank_between t b c \<Longrightarrow> blank_between t a c"
  unfolding blank_between_def by (meson linorder_not_le)

lemma blank_segment: "trim_runes (segment a b t) = [] \<Longrightarrow> b \<le> length t \<Longrightarrow> blank_between t a b"
  using words_kept_blank [of t a "map (\<lambda>i. undefined\<lparr>ck_start := i, ck_end := Suc i\<rparr>) [0..<a]" b]
  by (fastforce simp: blank_between_def words_kept_def)

section \<open>What packing keeps\<close>

text \<open>\<open>t\<close> is the part of the text \<open>full\<close> that begins at \<open>base\<close>.\<close>

definition part_at :: "runes \<Rightarrow> nat \<Rightarrow> runes \<Rightarrow> bool" where
  "part_at full base t \<longleftrightarrow> t = segment base (base + length t) full \<and> base + length t \<le> length full"

lemma part_segment: "part_at full base t \<Longrightarrow> b \<le> length t \<Longrightarrow> segment a b t = segment (base + a) (base + b) full"
  using segment_segment [of base "base + length t" b a full] by (simp add: part_at_def)

definition packed :: "runes \<Rightarrow> nat \<Rightarrow> runes \<Rightarrow> nat \<Rightarrow> 'l legal_pack \<Rightarrow> bool" where
  "packed full base t p st \<longleftrightarrow>
     p \<le> length t \<and> (\<forall>c \<in> set (lp_out st). chunk_of full c) \<and>
     (case lp_open st of
        None \<Rightarrow> words_between full base (base + p) (lp_out st)
      | Some (s, e) \<Rightarrow> s \<le> e \<and> e \<le> p \<and> words_between full base (base + s) (lp_out st) \<and>
          blank_between full (base + e) (base + p))"

lemma packed_blank: "packed full base t p st \<Longrightarrow> blank_between full (base + p) (base + q) \<Longrightarrow> p \<le> q \<Longrightarrow> q \<le> length t \<Longrightarrow> packed full base t q st"
  by (auto simp: packed_def intro: words_between_blank blank_between_append split: option.splits)

lemma packed_flush: "part_at full base t \<Longrightarrow> packed full base t p st \<Longrightarrow> packed full base t p (pack_flush t base seq st) \<and> lp_open (pack_flush t base seq st) = None"
proof (cases "lp_open st")
  case (Some r)
  obtain s e where r: "r = (s, e)" by (cases r)
  assume part: "part_at full base t" and "packed full base t p st"
  with Some r have p: "p \<le> length t" "s \<le> e" "e \<le> p" "words_between full base (base + s) (lp_out st)"
    "blank_between full (base + e) (base + p)" "\<forall>c \<in> set (lp_out st). chunk_of full c" by (auto simp: packed_def)
  define c where "c = (\<lparr>ck_content = segment s e t, ck_context = [], ck_seq = seq + length (lp_out st),
    ck_start = base + s, ck_end = base + e, ck_legal = None\<rparr> :: 'a chunk)"
  have "chunk_of full c" using p part_segment [OF part, of e s] part by (simp add: c_def chunk_of_def part_at_def)
  moreover have "words_between full base (base + p) (lp_out st @ [c])"
    using words_between_blank [OF words_between_append [OF p(4) words_between_one] p(5)] by (simp add: c_def)
  ultimately show ?thesis using p Some r by (simp add: packed_def pack_flush_def c_def)
qed (simp add: pack_flush_def)

definition faithful_split :: "runes \<Rightarrow> nat \<Rightarrow> runes \<Rightarrow> (nat \<Rightarrow> nat \<Rightarrow> nat \<Rightarrow> 'l chunk list) \<Rightarrow> bool" where
  "faithful_split full base t oversized \<longleftrightarrow>
     (\<forall>k s e. s < e \<longrightarrow> e \<le> length t \<longrightarrow>
        (\<forall>c \<in> set (oversized k s e). chunk_of full c) \<and> words_between full (base + s) (base + e) (oversized k s e))"

lemma packed_segment:
  assumes part: "part_at full base t" and st: "packed full base t p st" and s: "p \<le> fst sg" "fst sg \<le> snd sg" "snd sg \<le> length t" "blank_between full (base + p) (base + fst sg)"
    and n: "0 \<le> n" and f: "faithful_split full base t oversized"
  shows "packed full base t (snd sg) (pack_segment t base seq n oversized sg st)"
proof (cases "n < int (snd sg) - int (fst sg)")
  case True
  let ?st = "pack_flush t base seq st"
  from packed_flush [OF part packed_blank [OF st s(4,1)]] s(2,3) have fl: "packed full base t (fst sg) ?st" "lp_open ?st = None" by (simp_all add: le_trans)
  from f True n s(3) have "\<forall>c \<in> set (oversized (length (lp_out ?st)) (fst sg) (snd sg)). chunk_of full c"
    "words_between full (base + fst sg) (base + snd sg) (oversized (length (lp_out ?st)) (fst sg) (snd sg))"
    unfolding faithful_split_def by (meson diff_gt_0_iff_gt le_less_trans of_nat_less_iff)+
  with fl s(3) True show ?thesis
    by (auto simp: pack_segment_def Let_def packed_def intro: words_between_append)
next
  case False
  have one: "packed full base t (snd sg) (st'\<lparr>lp_open := Some sg\<rparr>)" if "packed full base t (fst sg) st'" "lp_open st' = None" for st' :: "'a legal_pack"
    using that s by (cases sg) (auto simp: packed_def blank_between_def)
  from packed_blank [OF st s(4,1)] s(2,3) have at: "packed full base t (fst sg) st" by simp
  show ?thesis
  proof (cases "lp_open st")
    case None
    with one [OF at] False show ?thesis by (simp add: pack_segment_def)
  next
    case (Some r)
    obtain a b where r: "r = (a, b)" by (cases r)
    from packed_flush [OF part at, of seq] one [of "pack_flush t base seq st"]
    have new: "packed full base t (snd sg) ((pack_flush t base seq st)\<lparr>lp_open := Some sg\<rparr>)" by simp
    have more: "packed full base t (snd sg) (st\<lparr>lp_open := Some (a, snd sg)\<rparr>)"
      using at Some r s by (simp add: packed_def blank_between_def)
    show ?thesis using False Some r new more by (simp add: pack_segment_def)
  qed
qed

primrec strip :: "runes \<Rightarrow> nat \<Rightarrow> runes \<Rightarrow> nat \<Rightarrow> (nat \<times> nat) list \<Rightarrow> bool" where
  "strip full base t p [] \<longleftrightarrow> p \<le> length t \<and> blank_between full (base + p) (base + length t)"
| "strip full base t p (sg # sgs) \<longleftrightarrow>
     p \<le> fst sg \<and> fst sg \<le> snd sg \<and> snd sg \<le> length t \<and> blank_between full (base + p) (base + fst sg) \<and> strip full base t (snd sg) sgs"

lemma packed_fold:
  assumes "part_at full base t" "packed full base t p st" "strip full base t p sgs" "0 \<le> n" "faithful_split full base t oversized"
  shows "packed full base t (length t) (fold (pack_segment t base seq n oversized) sgs st)"
  using assms
proof (induction sgs arbitrary: p st)
  case Nil
  with packed_blank [of full base t p st "length t"] show ?case by simp
next
  case (Cons sg sgs)
  from Cons.IH [OF Cons.prems(1) packed_segment [OF Cons.prems(1,2)]] Cons.prems show ?case by simp
qed

lemma pack_segments_keeps:
  assumes "part_at full base t" "strip full base t 0 sgs" "0 \<le> n" "faithful_split full base t oversized"
  shows "(\<forall>c \<in> set (pack_segments t base seq n oversized sgs). chunk_of full c) \<and>
    words_between full base (base + length t) (pack_segments t base seq n oversized sgs)"
proof -
  define st where "st = fold (pack_segment t base seq n oversized) sgs \<lparr>lp_out = [], lp_open = None\<rparr>"
  have "packed full base t 0 \<lparr>lp_out = [], lp_open = None\<rparr>" by (simp add: packed_def)
  from packed_fold [OF assms(1) this assms(2-4)] have "packed full base t (length t) st" by (simp add: st_def)
  from packed_flush [OF assms(1) this, of seq] show ?thesis
    by (auto simp: pack_segments_def packed_def simp flip: st_def)
qed

section \<open>An oversized section is kept\<close>

lemma emit_moved:
  fixes cfg :: splitter_config
  shows "list_all2 (moved (start + rel_start)) (split_text (segment rel_start rel_end sec) cfg :: 'l chunk list)
    (emit_section sec cfg start seq rel_start rel_end)"
  by (auto simp: emit_section_def moved_def list_all2_conv_all_nth nth_enumerate_eq)

lemma emit_faithful:
  fixes cfg :: splitter_config
  assumes "part_at full start sec"
  shows "faithful_split full start sec (\<lambda>_ s e. emit_section sec cfg start seq s e :: 'l chunk list)"
  unfolding faithful_split_def
proof (intro allI impI)
  fix k s e :: nat assume se: "s < e" "e \<le> length sec"
  have p: "segment s e sec = segment (start + s) (start + e) full" using part_segment [OF assms se(2)] .
  have "start + e \<le> length full" using assms se(2) by (simp add: part_at_def)
  from split_text_moved [OF emit_moved [of start s e sec cfg seq, where 'l = 'l, unfolded p] _ this] se(1)
  show "(\<forall>c \<in> set (emit_section sec cfg start seq s e :: 'l chunk list). chunk_of full c) \<and>
      words_between full (start + s) (start + e) (emit_section sec cfg start seq s e :: 'l chunk list)"
    by (auto intro: words_between_reaches)
qed

lemma khoan_starts_within: "sorted (khoan_starts u sec) \<and> (\<forall>k \<in> set (khoan_starts u sec). k \<le> length sec)"
proof -
  have f: "sorted (map sd_start (filter P ss))" if "sorted (map sd_start ss)" for P and ss :: "subdivision list"
    using that by (induction ss) auto
  from this [OF subdivisions_within(1) [of u sec]] subdivisions_within(2) [of _ u sec] show ?thesis
    by (auto simp: khoan_starts_def)
qed

lemma strip_zip:
  assumes "sorted (k # ks)" "\<forall>x \<in> set (k # ks). x \<le> length t" "p \<le> k" "blank_between full (base + p) (base + k)"
  shows "strip full base t p (zip (k # ks) (ks @ [length t]))"
  using assms
proof (induction ks arbitrary: p k)
  case (Cons a ks)
  from Cons.IH [of a a] Cons.prems show ?case by (auto simp: blank_between_def)
qed (auto simp: blank_between_def)

lemma khoan_segments_strip:
  assumes "part_at full base sec" "ks \<noteq> []" "sorted ks" "\<forall>k \<in> set ks. k \<le> length sec"
  shows "strip full base sec 0 (khoan_segments sec ks)"
proof -
  obtain k ks' where ks: "ks = k # ks'" using assms(2) by (cases ks) auto
  have k: "sorted (k # ks')" "\<forall>x \<in> set (k # ks'). x \<le> length sec" using assms(3,4) ks by simp_all
  show ?thesis
  proof (cases "trim_runes (take k sec) = []")
    case True
    have "take k sec = segment base (base + k) full"
      using part_segment [OF assms(1), of k 0] k(2) by (simp add: segment_from_start)
    with True have "trim_runes (segment base (base + k) full) = []" by simp
    from blank_segment [OF this] k(2) assms(1) have "blank_between full (base + 0) (base + k)"
      by (simp add: part_at_def)
    with strip_zip [OF k, of 0] True show ?thesis by (simp add: khoan_segments_def ks)
  next
    case False
    have "blank_between full (base + k) (base + k)" by (simp add: blank_between_def)
    with strip_zip [OF k, of k] False k(2) show ?thesis
      by (simp add: khoan_segments_def ks blank_between_def)
  qed
qed

lemma oversized_section_keeps:
  fixes cfg :: splitter_config
  assumes "start < stop" "stop \<le> length t" "0 \<le> cfg_size cfg"
  shows "(\<forall>c \<in> set (split_oversized_legal_section u t cfg seq start stop :: 'l chunk list). chunk_of t c) \<and>
    words_between t start stop (split_oversized_legal_section u t cfg seq start stop :: 'l chunk list)"
proof -
  define sec where "sec = segment start stop t"
  have len: "length sec = stop - start" using assms by (simp add: sec_def)
  have part: "part_at t start sec" using assms by (simp add: part_at_def sec_def)
  have stop: "start + length sec = stop" "0 < length sec" using assms len by simp_all
  show ?thesis
  proof (cases "khoan_starts u sec = []")
    case True
    from emit_faithful [OF part, of cfg seq, where 'l = 'l] stop
    have "(\<forall>c \<in> set (emit_section sec cfg start seq 0 (length sec) :: 'l chunk list). chunk_of t c) \<and>
        words_between t (start + 0) (start + length sec) (emit_section sec cfg start seq 0 (length sec) :: 'l chunk list)"
      unfolding faithful_split_def by blast
    with True stop show ?thesis by (simp add: split_oversized_legal_section_def Let_def flip: sec_def)
  next
    case False
    have e: "split_oversized_legal_section u t cfg seq start stop =
        pack_segments sec start seq (cfg_size cfg) (\<lambda>_ s e. emit_section sec cfg start seq s e) (khoan_segments sec (khoan_starts u sec))"
      using False by (simp add: split_oversized_legal_section_def Let_def sec_def)
    from pack_segments_keeps [OF part khoan_segments_strip [OF part False] assms(3) emit_faithful [OF part]]
      khoan_starts_within [of u sec]
    show ?thesis unfolding e stop(1) by blast
  qed
qed

section \<open>Ranges that stay whole\<close>

definition whole_in :: "runes \<Rightarrow> nat \<times> nat \<Rightarrow> 'l chunk list \<Rightarrow> bool" where
  "whole_in t r cs \<longleftrightarrow>
     (\<exists>c \<in> set cs. ck_start c \<le> fst r \<and> snd r \<le> ck_end c \<and> ck_content c = segment (ck_start c) (ck_end c) t)"

definition held :: "runes \<Rightarrow> nat \<times> nat \<Rightarrow> 'l legal_pack \<Rightarrow> bool" where
  "held t r st \<longleftrightarrow> whole_in t r (lp_out st) \<or> (\<exists>a b. lp_open st = Some (a, b) \<and> a \<le> fst r \<and> snd r \<le> b)"

lemma held_flush: "held t r st \<Longrightarrow> whole_in t r (lp_out (pack_flush t 0 seq st))"
  by (auto simp: held_def whole_in_def pack_flush_def split: option.splits)

lemma whole_in_append: "whole_in t r cs \<Longrightarrow> whole_in t r (cs @ ds)"
  by (auto simp: whole_in_def)

lemma held_segment:
  assumes "packed t 0 t p st" "p \<le> fst sg" "fst sg \<le> snd sg" "held t r st"
  shows "held t r (pack_segment t 0 seq n oversized sg st)"
proof -
  note fl = held_flush [OF assms(4), of seq]
  show ?thesis
  proof (cases "n < int (snd sg) - int (fst sg)")
    case True
    with whole_in_append [OF fl] show ?thesis by (simp add: pack_segment_def Let_def held_def)
  next
    case False
    show ?thesis
    proof (cases "lp_open st")
      case None
      with assms(4) False show ?thesis by (simp add: pack_segment_def held_def)
    next
      case (Some ab)
      obtain a b where ab: "ab = (a, b)" by (cases ab)
      with assms Some have "b \<le> snd sg" by (auto simp: packed_def)
      with assms(4) Some ab False fl show ?thesis by (auto simp: pack_segment_def held_def)
    qed
  qed
qed

lemma segment_held:
  assumes "packed t 0 t p st" "p \<le> fst sg" "fst sg \<le> snd sg" "int (snd sg) - int (fst sg) \<le> n"
  shows "held t sg (pack_segment t 0 seq n oversized sg st)"
proof (cases "lp_open st")
  case None
  with assms(4) show ?thesis by (cases sg) (simp add: pack_segment_def held_def)
next
  case (Some ab)
  obtain a b where ab: "ab = (a, b)" by (cases ab)
  with assms Some have "a \<le> fst sg" by (auto simp: packed_def)
  with Some ab assms(4) show ?thesis by (cases sg) (auto simp: pack_segment_def held_def)
qed

lemma held_fold:
  assumes "part_at t 0 t" "packed t 0 t p st" "strip t 0 t p sgs" "0 \<le> n" "faithful_split t 0 t oversized"
    "held t r st \<or> r \<in> set sgs \<and> int (snd r) - int (fst r) \<le> n"
  shows "held t r (fold (pack_segment t 0 seq n oversized) sgs st)"
  using assms
proof (induction sgs arbitrary: p st)
  case (Cons sg sgs)
  from Cons.prems have sg: "p \<le> fst sg" "fst sg \<le> snd sg" "snd sg \<le> length t" "blank_between t (0 + p) (0 + fst sg)"
    "strip t 0 t (snd sg) sgs" by simp_all
  note next_state = packed_segment [OF Cons.prems(1,2) sg(1-4) Cons.prems(4,5), of seq]
  have "held t r (pack_segment t 0 seq n oversized sg st) \<or> r \<in> set sgs \<and> int (snd r) - int (fst r) \<le> n"
    using Cons.prems(6) held_segment [OF Cons.prems(2) sg(1,2), of r seq n oversized]
      segment_held [OF Cons.prems(2) sg(1,2), of n seq oversized] by auto
  from Cons.IH [OF Cons.prems(1) next_state sg(5) Cons.prems(4,5) this] show ?case by simp
qed simp

section \<open>The tier's result\<close>

lemma bounds_strip:
  assumes "sorted (k # ks)" "last (k # ks) = length t" "p \<le> k" "blank_between t p k"
  shows "strip t 0 t p (filter (\<lambda>(s, e). s < e \<and> trim_runes (segment s e t) \<noteq> []) (zip (k # ks) ks))"
  using assms
proof (induction ks arbitrary: p k)
  case (Cons a ks)
  have ka: "k \<le> a" and a: "a \<le> length t"
    using Cons.prems(1,2) by (auto split: if_splits) (metis last_in_set)
  show ?case
  proof (cases "k < a \<and> trim_runes (segment k a t) \<noteq> []")
    case True
    have "blank_between t a a" by (simp add: blank_between_def)
    with Cons.IH [of a a] Cons.prems True ka a show ?thesis by simp
  next
    case False
    have "blank_between t k a"
      using False ka a blank_segment [of k a t] by (cases "k < a") (auto simp: blank_between_def)
    from blank_between_append [OF Cons.prems(4) this] Cons.IH [of a p] Cons.prems ka
    have "strip t 0 t p (filter (\<lambda>(s, e). s < e \<and> trim_runes (segment s e t) \<noteq> []) (zip (a # ks) ks))" by simp
    moreover have "filter (\<lambda>(s, e). s < e \<and> trim_runes (segment s e t) \<noteq> []) (zip (k # a # ks) (a # ks)) =
        filter (\<lambda>(s, e). s < e \<and> trim_runes (segment s e t) \<noteq> []) (zip (a # ks) ks)"
      using False by auto
    ultimately show ?thesis by (simp only:)
  qed
qed simp

lemma section_bounds_sorted: "sorted (section_bounds u t) \<and> last (section_bounds u t) = length t"
proof -
  from headings_rise [of u t] have "sorted (map lh_start (find_headings u t))"
    and le: "\<forall>h \<in> set (find_headings u t). lh_start h \<le> length t"
    by (auto simp: find_headings_def strict_sorted_imp_sorted)
  then have "sorted (filter (\<lambda>s. 0 < s) (map lh_start (find_headings u t)))" by (simp add: sorted_wrt_filter)
  with le show ?thesis by (auto simp: section_bounds_def sorted_append)
qed

lemma legal_sections_strip: "strip t 0 t 0 (legal_sections u t)"
proof -
  obtain ks where ks: "section_bounds u t = 0 # ks" by (simp add: section_bounds_def)
  have "blank_between t 0 0" by (simp add: blank_between_def)
  with bounds_strip [of 0 ks t 0] section_bounds_sorted [of u t] show ?thesis
    by (simp add: legal_sections_def ks)
qed

lemma part_self: "part_at t 0 t"
  by (simp add: part_at_def segment_all)

lemma oversized_faithful:
  fixes cfg :: splitter_config
  assumes "0 \<le> cfg_size cfg"
  shows "faithful_split t 0 t (\<lambda>seq s e. split_oversized_legal_section u t cfg seq s e :: 'l chunk list)"
  unfolding faithful_split_def using oversized_section_keeps [OF _ _ assms, where 'l = 'l] by simp

lemma attach_moved:
  "list_all2 (moved 0) cs (attach_legal_metadata u cs) \<and> map ck_seq (attach_legal_metadata u cs) = map ck_seq cs"
proof -
  have n: "length (derive_subdivision_metadata u ts ps) = length ts" for ts ps
  proof -
    have "length (carry_chunks u ts ps st) = length ts" for st
      by (induction ts arbitrary: ps st) (simp_all add: Let_def)
    then show ?thesis by (simp add: derive_subdivision_metadata_def)
  qed
  show ?thesis
    by (auto simp: attach_legal_metadata_def Let_def list_all2_conv_all_nth moved_def n derive_heading_paths_def
        intro!: nth_equalityI)
qed

lemma moved_sound:
  assumes "list_all2 (moved 0) cs ds" "numbered ds" "\<forall>c \<in> set cs. chunk_of t c" "words_between t 0 (length t) cs"
  shows "sound_split t ds"
proof -
  have at: "ds ! i \<in> set ds \<and> moved 0 (cs ! i) (ds ! i)" if "i < length cs" for i
    using assms(1) that by (auto simp: list_all2_conv_all_nth)
  have "chunk_of t d" if "d \<in> set ds" for d
  proof -
    from that assms(1) obtain i where i: "i < length cs" "d = ds ! i" by (auto simp: in_set_conv_nth list_all2_conv_all_nth)
    with at [of i] assms(3) show ?thesis by (auto simp: moved_def chunk_of_def)
  qed
  moreover have "\<exists>d \<in> set ds. ck_start d \<le> i \<and> i < ck_end d" if i: "i < length t" "\<not> is_space (t ! i)" for i
  proof -
    from assms(4) i obtain c where "c \<in> set cs" "ck_start c \<le> i" "i < ck_end c" by (auto simp: words_between_def)
    then obtain j where "j < length cs" "ck_start (cs ! j) \<le> i" "i < ck_end (cs ! j)" by (auto simp: in_set_conv_nth)
    with at [of j] have "ds ! j \<in> set ds" "ck_start (ds ! j) \<le> i" "i < ck_end (ds ! j)" by (simp_all add: moved_def)
    then show ?thesis by blast
  qed
  ultimately show ?thesis using assms(2) by (simp add: sound_split_def words_kept_def)
qed

lemma moved_whole: "list_all2 (moved 0) cs ds \<Longrightarrow> whole_in t r cs \<Longrightarrow> whole_in t r ds"
proof -
  assume m: "list_all2 (moved 0) cs ds" and "whole_in t r cs"
  then obtain j where j: "j < length cs" "ck_start (cs ! j) \<le> fst r" "snd r \<le> ck_end (cs ! j)"
    "ck_content (cs ! j) = segment (ck_start (cs ! j)) (ck_end (cs ! j)) t"
    by (auto simp: whole_in_def in_set_conv_nth)
  from m j(1) have "ds ! j \<in> set ds" "moved 0 (cs ! j) (ds ! j)" by (auto simp: list_all2_conv_all_nth)
  with j show ?thesis unfolding whole_in_def moved_def by (intro bexI [of _ "ds ! j"]) simp_all
qed

definition legal_pieces :: "unicode_tables \<Rightarrow> runes \<Rightarrow> splitter_config \<Rightarrow> legal_metadata chunk list" where
  "legal_pieces u t cfg = pack_segments t 0 0 (cfg_size cfg) (\<lambda>seq s e. split_oversized_legal_section u t cfg seq s e) (legal_sections u t)"

lemma legal_result_moved:
  "list_all2 (moved 0) (legal_pieces u t cfg) (attach_legal_metadata u (renumber (legal_pieces u t cfg))) \<and>
   numbered (attach_legal_metadata u (renumber (legal_pieces u t cfg)))"
proof -
  have trans: "moved 0 a b \<Longrightarrow> moved 0 b c \<Longrightarrow> moved 0 a c" for a b c :: "legal_metadata chunk"
    by (simp add: moved_def)
  note a = attach_moved [of "renumber (legal_pieces u t cfg)" u]
  from list_all2_trans [OF trans renumber_moved conjunct1 [OF a]]
  have "list_all2 (moved 0) (legal_pieces u t cfg) (attach_legal_metadata u (renumber (legal_pieces u t cfg)))" .
  moreover have "length (attach_legal_metadata u (renumber (legal_pieces u t cfg))) = length (renumber (legal_pieces u t cfg))"
    using a by (metis list_all2_lengthD)
  with a renumber_numbered [of "legal_pieces u t cfg"] have "numbered (attach_legal_metadata u (renumber (legal_pieces u t cfg)))"
    by (simp add: numbered_def)
  ultimately show ?thesis ..
qed

lemma split_by_vietnamese_legal_sound:
  assumes "0 \<le> cfg_size cfg" "split_by_vietnamese_legal u t cfg \<noteq> []"
  shows "sound_split t (split_by_vietnamese_legal u t cfg)"
proof -
  have "split_by_vietnamese_legal u t cfg = attach_legal_metadata u (renumber (legal_pieces u t cfg))"
    using assms(2) by (simp add: split_by_vietnamese_legal_def legal_pieces_def split: if_splits)
  moreover from pack_segments_keeps [OF part_self legal_sections_strip assms(1) oversized_faithful [OF assms(1)], where seq = 0]
  have "(\<forall>c \<in> set (legal_pieces u t cfg). chunk_of t c) \<and> words_between t 0 (length t) (legal_pieces u t cfg)"
    by (simp add: legal_pieces_def)
  ultimately show ?thesis
    using moved_sound [OF conjunct1 [OF legal_result_moved] conjunct2 [OF legal_result_moved]] by simp
qed

lemma legal_section_whole:
  assumes "0 \<le> cfg_size cfg" "r \<in> set (legal_sections u t)" "int (snd r) - int (fst r) \<le> cfg_size cfg"
    "t \<noteq> []" "has_legal_structure u t"
  shows "whole_in t r (split_by_vietnamese_legal u t cfg)"
proof -
  have "packed t 0 t 0 (\<lparr>lp_out = [], lp_open = None\<rparr> :: legal_metadata legal_pack)" by (simp add: packed_def)
  then have "held t r (fold (pack_segment t 0 0 (cfg_size cfg) (\<lambda>seq s e. split_oversized_legal_section u t cfg seq s e))
      (legal_sections u t) (\<lparr>lp_out = [], lp_open = None\<rparr> :: legal_metadata legal_pack))"
    by (rule held_fold [OF part_self _ legal_sections_strip assms(1) oversized_faithful [OF assms(1)]]) (use assms(2,3) in simp)
  then have "whole_in t r (legal_pieces u t cfg)" by (simp add: legal_pieces_def pack_segments_def held_flush)
  moreover have "split_by_vietnamese_legal u t cfg = attach_legal_metadata u (renumber (legal_pieces u t cfg))"
    using assms(4,5)
    by (simp add: split_by_vietnamese_legal_def legal_pieces_def has_legal_structure_def find_headings_def)
  ultimately show ?thesis using moved_whole [OF conjunct1 [OF legal_result_moved]] by simp
qed

section \<open>A heading's section\<close>

lemma word_fold_rune:
  assumes "j \<in> set (ends (word_fold (c # w)) t i)"
  shows "t ! i \<in> set (viet_fold c) \<and> i < length t \<and> i < j"
proof -
  have "Suc i \<le> j" if "i < length t" "j \<in> set (ends (word_fold w) t (Suc i))"
    using ends_bounds [OF that(2)] that(1) by simp
  with assms show ?thesis by (auto simp: word_fold_def one_of_def split: if_splits)
qed

lemma keyword_spellings:
  "phan_word = 112 # ascii ''h'' @ [0x1EA7] @ ascii ''n''" "chuong_word = 99 # ascii ''h'' @ [0x1B0, 0x1A1] @ ascii ''ng''"
  "muc_word = 109 # [0x1EE5] @ ascii ''c''" "dieu_word = 0x111 # ascii ''i'' @ [0x1EC1] @ ascii ''u''"
  by (simp_all add: phan_word_def chuong_word_def muc_word_def dieu_word_def ascii_def)

lemma keyword_no_space:
  "c \<in> {112, 99, 109, 0x111} \<Longrightarrow> x \<in> set (viet_fold c) \<Longrightarrow> \<not> is_space x"
  by (auto simp: viet_fold_def fold_of_def viet_pairs_def is_space_def)

lemma keyword_rune:
  assumes "m \<in> set (find_all_submatch (heading_parts u) t)"
  shows "m ! 0 \<le> m ! 4 \<and> m ! 4 < last m \<and> \<not> is_space (t ! (m ! 4))"
proof -
  note d = find_all_submatchD [OF assms]
  have n: "length (heading_parts u) = 8" and r: "heading_parts u ! 4 = alts (map word_fold [phan_word, chuong_word, muc_word, dieu_word])"
    by (simp_all add: heading_parts_def)
  from seq_paths_step [OF d(1), of 4] n r
  have "m ! 5 \<in> set (ends (alts (map word_fold [phan_word, chuong_word, muc_word, dieu_word])) t (m ! 4))" by simp
  then obtain c w where c: "c \<in> {112, 99, 109, 0x111}" "m ! 5 \<in> set (ends (word_fold (c # w)) t (m ! 4))"
    by (auto simp: keyword_spellings)
  from word_fold_rune [OF c(2)] keyword_no_space [OF c(1)] have "\<not> is_space (t ! (m ! 4))" "m ! 4 < m ! 5" by auto
  moreover from d(2,3) n have s: "sorted m" "length m = 9" "last m = m ! 8"
    by (simp_all add: last_conv_nth flip: length_0_conv)
  then have "m ! 0 \<le> m ! 4" "m ! 5 \<le> m ! 8"
    using sorted_nth_mono [of m 0 4] sorted_nth_mono [of m 5 8] by auto
  ultimately show ?thesis using s by simp
qed

text \<open>Heading \<open>i\<close> of the text and where its section ends.\<close>

definition heading_range :: "unicode_tables \<Rightarrow> runes \<Rightarrow> nat \<Rightarrow> nat \<times> nat" where
  "heading_range u t i =
     (let hs = find_headings u t in
      (lh_start (hs ! i), if Suc i < length hs then lh_start (hs ! Suc i) else length t))"

lemma zip_tl_nth: "Suc i < length xs \<Longrightarrow> (xs ! i, xs ! Suc i) \<in> set (zip xs (tl xs))"
  by (auto simp: set_zip nth_tl intro!: exI [of _ i])

lemma heading_range_section:
  assumes "i < length (find_headings u t)"
  shows "heading_range u t i \<in> set (legal_sections u t)"
proof -
  let ?hs = "find_headings u t"
  let ?starts = "map lh_start ?hs"
  obtain s e where se: "heading_range u t i = (s, e)" by (cases "heading_range u t i")
  have rise: "sorted_wrt (<) ?starts" "\<forall>h \<in> set ?hs. lh_start h < length t"
    using headings_rise [of u t] by (simp_all add: find_headings_def)
  have s: "s = ?starts ! i" "e = (?starts @ [length t]) ! Suc i" "s = (?starts @ [length t]) ! i"
    using se assms by (auto simp: heading_range_def Let_def nth_append)
  have "s < e" using rise assms s sorted_wrt_nth_less [OF rise(1), of i "Suc i"] by (auto simp: nth_append)
  obtain m where m: "m \<in> set (find_all_submatch (heading_parts u) t)" "s = m ! 0"
    using iter_headings_from [of "?hs ! i" u t] assms s(1) by (auto simp: find_headings_def)
  have "last m \<le> e"
  proof (cases "Suc i < length ?hs")
    case True
    then obtain m' where m': "m' \<in> set (find_all_submatch (heading_parts u) t)" "e = m' ! 0"
      using iter_headings_from [of "?hs ! Suc i" u t] s(2) by (auto simp: find_headings_def nth_append)
    with find_all_submatch_apart [OF m(1) m'(1)] m(2) \<open>s < e\<close> show ?thesis by simp
  next
    case False
    with s(2) assms find_all_submatchD(4) [OF m(1)] show ?thesis by (auto simp: nth_append not_less less_Suc_eq_le)
  qed
  with keyword_rune [OF m(1)] m(2) have k: "s \<le> m ! 4" "m ! 4 < e" "\<not> is_space (t ! (m ! 4))" by auto
  have "e \<le> length t" using s(2) rise(2) assms by (auto simp: nth_append less_imp_le)
  with k blank_segment [of s e t] have "trim_runes (segment s e t) \<noteq> []" by (auto simp: blank_between_def)
  moreover have "(s, e) \<in> set (zip (section_bounds u t) (tl (section_bounds u t)))"
  proof (cases "0 \<in> set ?starts")
    case True
    with rise(1) obtain rest where r: "?starts = 0 # rest" "\<forall>x \<in> set rest. 0 < x"
      by (cases ?starts) auto
    then have "section_bounds u t = ?starts @ [length t]" by (simp add: section_bounds_def)
    with s assms zip_tl_nth [of i "?starts @ [length t]"] show ?thesis by simp
  next
    case False
    then have "filter (\<lambda>s. 0 < s) ?starts = ?starts" by (auto simp: filter_id_conv)
    then have "section_bounds u t = 0 # (?starts @ [length t])" by (simp add: section_bounds_def)
    with s assms zip_tl_nth [of "Suc i" "0 # (?starts @ [length t])"] show ?thesis by simp
  qed
  ultimately show ?thesis using \<open>s < e\<close> se by (simp add: legal_sections_def)
qed

section \<open>Properties\<close>

text \<open>
  C25: an article that fits is never cut: in a text with the structure of a law, the section of any
  heading, from its line to the next heading or the end, lies whole in one chunk whenever it has at
  most \<^verbatim>\<open>ChunkSize\<close> runes, and that chunk's content is exactly its range of the text.
\<close>

theorem articles_stay_whole:
  assumes "has_legal_structure u t" "0 \<le> cfg_size cfg" "i < length (find_headings u t)"
    "int (snd (heading_range u t i)) - int (fst (heading_range u t i)) \<le> cfg_size cfg"
  shows "\<exists>c \<in> set (split_by_vietnamese_legal u t cfg).
    ck_start c \<le> fst (heading_range u t i) \<and> snd (heading_range u t i) \<le> ck_end c \<and>
    ck_content c = segment (ck_start c) (ck_end c) t"
proof -
  have "t \<noteq> []" using headings_rise [of u t] assms(3) by (cases "find_headings u t") (auto simp: find_headings_def)
  from legal_section_whole [OF assms(2) heading_range_section [OF assms(3)] assms(4) this assms(1)]
  show ?thesis by (simp add: whole_in_def)
qed

theorem articles_stay_whole_witness:
  "\<exists>c \<in> set (split_by_vietnamese_legal ascii_tables sample_law (default_config\<lparr>cfg_size := 10\<rparr>)).
     ck_start c \<le> 8 \<and> 16 \<le> ck_end c \<and> ck_content c = segment (ck_start c) (ck_end c) sample_law"
proof -
  have "has_legal_structure ascii_tables sample_law"
    by (simp add: has_legal_structure_def sample_headings dieu_count_def level_dieu_def min_dieu_headings_def)
  moreover have "heading_range ascii_tables sample_law 1 = (8, 16)"
    by (simp add: heading_range_def find_headings_def sample_headings)
  ultimately show ?thesis
    using articles_stay_whole [of ascii_tables sample_law "default_config\<lparr>cfg_size := 10\<rparr>" 1]
    by (simp add: find_headings_def sample_headings)
qed

end
