(* ===== verification/Chunk_Strategy.thy ===== *)
theory Chunk_Strategy
  imports Legal_Chunks
begin

text \<open>
  \<^verbatim>\<open>chunker/strategy.go\<close>, with \<^verbatim>\<open>SelectStrategy\<close> of \<^verbatim>\<open>profiler.go\<close>, \<^verbatim>\<open>validator.go\<close> and the token
  budget of \<^verbatim>\<open>tokens.go\<close>: the entry point of chunking. A chain of tiers is chosen from the
  configuration or the profile of the document; the first tier whose chunks pass the validator
  wins, and the last tier, \<^verbatim>\<open>SplitText\<close>, is taken whatever the validator says.

  The lemmas show that every word of the document is in a chunk whichever tier wins, that the
  diagnostics describe the chunks that \<^verbatim>\<open>Split\<close> returns, and how child chunks lie in their parents.
\<close>

section \<open>Token budget\<close>

text \<open>
  Products of IEEE doubles in the normal range: a mantissa below \<open>2^53\<close> and a power of two, a
  product rounded to the nearest, ties to even.
\<close>

function bit_count :: "nat \<Rightarrow> nat" where
  "bit_count n = (if n = 0 then 0 else Suc (bit_count (n div 2)))"
  by pat_completeness auto
termination
  by (relation "measure (\<lambda>n. n)") auto

declare bit_count.simps [simp del]

type_synonym double = "nat \<times> int"  \<comment> \<open>mantissa and exponent\<close>

definition round_double :: "nat \<Rightarrow> int \<Rightarrow> double" where
  "round_double m e =
     (let k = bit_count m - 53 in
      if k = 0 then (m, e)
      else let q = m div 2 ^ k; r = m mod 2 ^ k; half = 2 ^ (k - 1) in
        (if half < r \<or> half = r \<and> odd q then q + 1 else q, e + int k))"

definition times_double :: "double \<Rightarrow> double \<Rightarrow> double" where
  "times_double x y = round_double (fst x * fst y) (snd x + snd y)"

definition truncate_double :: "double \<Rightarrow> int" where
  "truncate_double x =
     (if 0 \<le> snd x then int (fst x) * 2 ^ nat (snd x) else int (fst x div 2 ^ nat (- snd x)))"

definition chars_per_token :: "(string \<times> double) list" where
  "chars_per_token =
     [(''en'', (4, 0)), (''de'', (9, -1)), (''zh'', (7656119366529843, -52)), (''mixed'', (3, 0))]"

definition char_ratio :: "string \<Rightarrow> double" where
  "char_ratio lang = (case map_of chars_per_token lang of Some r \<Rightarrow> r | None \<Rightarrow> (3, 0))"

definition chars_for_token_limit :: "int \<Rightarrow> string \<Rightarrow> int" where
  "chars_for_token_limit tokens lang =
     (if tokens \<le> 0 then 0
      else truncate_double (times_double (times_double (round_double (nat tokens) 0) (char_ratio lang))
             (8106479329266893, -53)))"

section \<open>Configuration\<close>

definition base_defaults :: "splitter_config \<Rightarrow> splitter_config" where
  "base_defaults cfg =
     cfg\<lparr>cfg_size := (if cfg_size cfg \<le> 0 then default_chunk_size else cfg_size cfg),
         cfg_overlap := (if cfg_overlap cfg \<le> 0 then default_chunk_overlap else cfg_overlap cfg),
         cfg_separators := (if cfg_separators cfg = [] then default_separators else cfg_separators cfg)\<rparr>"

definition normalize_splitter_config :: "splitter_config \<Rightarrow> splitter_config" where
  "normalize_splitter_config cfg = base_defaults cfg"

definition ensure_defaults :: "splitter_config \<Rightarrow> splitter_config" where
  "ensure_defaults cfg =
     (let cfg = base_defaults cfg;
          lang = (if cfg_languages cfg \<noteq> [] then hd (cfg_languages cfg) else ''mixed'');
          char_budget = chars_for_token_limit (cfg_token_limit cfg) lang;
          cfg = (if 0 < cfg_token_limit cfg \<and> 0 < char_budget \<and> (cfg_size cfg = 0 \<or> char_budget < cfg_size cfg)
                 then cfg\<lparr>cfg_size := char_budget\<rparr> else cfg)
      in if cfg_size cfg div 2 < cfg_overlap cfg \<and> 0 < cfg_size cfg then cfg\<lparr>cfg_overlap := cfg_size cfg div 2\<rparr> else cfg)"

fun crlf_to_lf :: "runes \<Rightarrow> runes" where
  "crlf_to_lf [] = []"
| "crlf_to_lf [r] = [r]"
| "crlf_to_lf (r # s # t) = (if r = cr \<and> s = nl then nl # crlf_to_lf t else r # crlf_to_lf (s # t))"

definition normalize_line_endings :: "runes \<Rightarrow> runes" where
  "normalize_line_endings t =
     (if cr \<notin> set t then t else map (\<lambda>r. if r = cr then nl else r) (crlf_to_lf t))"

definition derive_parent_child_configs :: "splitter_config \<Rightarrow> int \<Rightarrow> int \<Rightarrow> splitter_config \<times> splitter_config" where
  "derive_parent_child_configs base parent_size child_size =
     (let parent_size = (if parent_size \<le> 0 then 4096 else parent_size);
          child_size = (if child_size \<le> 0 then 384 else child_size)
      in (\<lparr>cfg_size = parent_size, cfg_overlap = cfg_overlap base, cfg_separators = cfg_separators base,
           cfg_strategy = cfg_strategy base, cfg_token_limit = 0, cfg_languages = cfg_languages base\<rparr>,
          \<lparr>cfg_size = child_size, cfg_overlap = child_size div 5, cfg_separators = cfg_separators base,
           cfg_strategy = cfg_strategy base, cfg_token_limit = cfg_token_limit base, cfg_languages = cfg_languages base\<rparr>))"

section \<open>Choosing tiers\<close>

datatype strategy_tier = Tier_Vietnamese_Legal | Tier_Heading | Tier_Heuristic | Tier_Legacy

text \<open>
  \<^verbatim>\<open>HeadingDensity() > 0.005\<close>, without the floating-point quotient: the literal is the double
  nearest to 1/200, and rounding is monotone, so the quotient of two counts below \<open>2^50\<close> is above it
  exactly when 200 times the headings is more than the lines.
\<close>

definition dense_headings :: "doc_profile \<Rightarrow> bool" where
  "dense_headings p \<longleftrightarrow> total_lines p \<noteq> 0 \<and> total_lines p < 200 * md_heading_total p"

definition select_strategy :: "unicode_tables \<Rightarrow> doc_profile option \<Rightarrow> runes \<Rightarrow> strategy_tier list" where
  "select_strategy u profile t =
     (case profile of
        None \<Rightarrow> [Tier_Legacy]
      | Some p \<Rightarrow>
          (if t \<noteq> [] \<and> has_legal_structure u t then [Tier_Vietnamese_Legal] else []) @
          (if 3 \<le> md_heading_total p \<and> dense_headings p \<and> 0 < dominant_heading_level p then [Tier_Heading] else []) @
          (if 5 \<le> heuristic_marker_total p \<or> 0 < form_feed_count p \<or>
              0 < german_chapter_count p + english_chapter_count p + chinese_chapter_count p then [Tier_Heuristic] else []) @
          [Tier_Legacy])"

definition resolve_chain_with_profile ::
  "unicode_tables \<Rightarrow> runes \<Rightarrow> splitter_config \<Rightarrow> strategy_tier list \<times> doc_profile option" where
  "resolve_chain_with_profile u t cfg =
     (if cfg_strategy cfg = ''vietnamese_legal'' then ([Tier_Vietnamese_Legal, Tier_Heading, Tier_Heuristic, Tier_Legacy], None)
      else if cfg_strategy cfg = ''heading'' then ([Tier_Heading, Tier_Legacy], None)
      else if cfg_strategy cfg = ''heuristic'' then ([Tier_Heuristic, Tier_Legacy], None)
      else if cfg_strategy cfg = ''recursive'' then ([Tier_Legacy], None)
      else if cfg_strategy cfg = ''legacy'' \<or> cfg_strategy cfg = [] then ([Tier_Legacy], None)
      else let p = profile_document t in (select_strategy u (Some p) t, Some p))"

definition run_tier ::
  "unicode_tables \<Rightarrow> strategy_tier \<Rightarrow> runes \<Rightarrow> splitter_config \<Rightarrow> doc_profile option \<Rightarrow> legal_metadata chunk list" where
  "run_tier u tier t cfg profile =
     (case tier of
        Tier_Vietnamese_Legal \<Rightarrow> split_by_vietnamese_legal u t cfg
      | Tier_Heading \<Rightarrow> split_by_headings t cfg (case profile of None \<Rightarrow> profile_document t | Some p \<Rightarrow> p)
      | Tier_Heuristic \<Rightarrow> split_by_heuristics t cfg
      | Tier_Legacy \<Rightarrow> split_text t cfg)"

text \<open>\<^verbatim>\<open>ValidateChunks\<close>: the reason of a rejection on the left.\<close>

definition validate_chunks :: "'l chunk list \<Rightarrow> nat \<Rightarrow> int \<Rightarrow> string + unit" where
  "validate_chunks cs n chunk_size =
     (let lens = map (\<lambda>c. length (ck_content c)) cs;
          max_len = fold max lens 0;
          tiny = length (filter (\<lambda>l. l < 50) (butlast lens))
      in if cs = [] then Inl ''no chunks produced''
         else if length cs = 1 \<and> 2 * chunk_size < int n then Inl ''single chunk for large document''
         else if length cs div 4 < tiny \<and> 2 < tiny then Inl ''too many tiny chunks''
         else if int max_len < chunk_size div 4 \<and> chunk_size < int n then Inl ''all chunks far below target size''
         else if 2 * chunk_size < int max_len \<and> 0 < chunk_size then Inl ''chunk exceeds 2x target size''
         else Inr ())"

section \<open>Splitting\<close>

text \<open>
  The loop over the chain: the chunks of the first tier the validator accepts, with the tier and the
  rejections before it; \<open>None\<close> when it accepts none.
\<close>

fun try_tiers ::
  "(strategy_tier \<Rightarrow> 'l chunk list) \<Rightarrow> nat \<Rightarrow> int \<Rightarrow> strategy_tier list \<Rightarrow>
     ('l chunk list \<times> strategy_tier) option \<times> (strategy_tier \<times> string) list" where
  "try_tiers run n chunk_size [] = (None, [])"
| "try_tiers run n chunk_size (tier # tiers) =
     (case validate_chunks (run tier) n chunk_size of
        Inr _ \<Rightarrow> (Some (run tier, tier), [])
      | Inl reason \<Rightarrow>
          let (r, rejected) = try_tiers run n chunk_size tiers in (r, (tier, reason) # rejected))"

record diagnostics =
  dg_selected :: strategy_tier
  dg_chain :: "strategy_tier list"
  dg_rejected :: "(strategy_tier \<times> string) list"
  dg_profile :: "doc_profile option"

text \<open>\<^verbatim>\<open>lastOut\<close> is the output of the legacy tier at the end of the chain; the empty list stands for nil.\<close>

definition last_out :: "(strategy_tier \<Rightarrow> 'l chunk list) \<Rightarrow> strategy_tier list \<Rightarrow> 'l chunk list" where
  "last_out run tiers = (if tiers \<noteq> [] \<and> last tiers = Tier_Legacy then run Tier_Legacy else [])"

definition split_document :: "unicode_tables \<Rightarrow> runes \<Rightarrow> splitter_config \<Rightarrow> legal_metadata chunk list" where
  "split_document u t cfg0 =
     (if t = [] then []
      else let cfg = ensure_defaults cfg0; (tiers, profile) = resolve_chain_with_profile u t cfg;
               run = (\<lambda>tier. run_tier u tier t cfg profile)
           in case fst (try_tiers run (length t) (cfg_size cfg) tiers) of
                Some (out, _) \<Rightarrow> out
              | None \<Rightarrow> if last_out run tiers \<noteq> [] then last_out run tiers else split_text t cfg)"

definition split_with_diagnostics ::
  "unicode_tables \<Rightarrow> runes \<Rightarrow> splitter_config \<Rightarrow> legal_metadata chunk list \<times> diagnostics" where
  "split_with_diagnostics u t cfg0 =
     (if t = [] then ([], \<lparr>dg_selected = Tier_Legacy, dg_chain = [], dg_rejected = [], dg_profile = None\<rparr>)
      else let cfg = ensure_defaults cfg0; (tiers, profile) = resolve_chain_with_profile u t cfg;
               run = (\<lambda>tier. run_tier u tier t cfg profile);
               (r, rejected) = try_tiers run (length t) (cfg_size cfg) tiers;
               diag = \<lparr>dg_selected = Tier_Legacy, dg_chain = tiers, dg_rejected = rejected, dg_profile = profile\<rparr>
           in case r of
                Some (out, tier) \<Rightarrow> (out, diag\<lparr>dg_selected := tier\<rparr>)
              | None \<Rightarrow> if last_out run tiers \<noteq> [] then (last_out run tiers, diag\<lparr>dg_selected := last tiers\<rparr>)
                        else (split_text t cfg, diag))"

section \<open>Parents and children\<close>

definition merge_breadcrumbs :: "runes \<Rightarrow> runes \<Rightarrow> runes" where
  "merge_breadcrumbs parent child =
     (if parent = [] then child
      else if child = [] then parent
      else let parent_lines = split_at nl parent; child_lines = split_at nl child;
               child_lines = (if trim_runes (last parent_lines) = trim_runes (hd child_lines) then tl child_lines else child_lines)
           in if child_lines = [] then parent else parent @ [nl] @ join_runes [nl] child_lines)"

definition inherit_child :: "'l chunk \<Rightarrow> nat \<Rightarrow> 'l chunk \<Rightarrow> 'l chunk" where
  "inherit_child parent seq sub =
     (shift_child parent seq sub)\<lparr>ck_context := merge_breadcrumbs (ck_context parent) (ck_context sub),
        ck_legal := (if ck_legal sub = None then ck_legal parent else ck_legal sub)\<rparr>"

definition split_one_parent ::
  "(runes \<Rightarrow> 'l chunk list) \<Rightarrow> 'l chunk \<Rightarrow> 'l parent_child_result \<Rightarrow> 'l parent_child_result" where
  "split_one_parent split_child parent r =
     (let subs = split_child (ck_content parent);
          index = (if own_parent parent subs then int (length (pc_parents r)) else -1);
          children = map (\<lambda>(k, sub). (inherit_child parent (length (pc_children r) + k) sub, index)) (List.enumerate 0 subs)
      in \<lparr>pc_parents = (if own_parent parent subs then pc_parents r @ [parent] else pc_parents r),
          pc_children = pc_children r @ children\<rparr>)"

definition split_parent_child ::
  "unicode_tables \<Rightarrow> runes \<Rightarrow> splitter_config \<Rightarrow> splitter_config \<Rightarrow> legal_metadata parent_child_result" where
  "split_parent_child u t parent_cfg child_cfg =
     fold (split_one_parent (\<lambda>s. split_document u s (ensure_defaults child_cfg)))
       (split_document u t (ensure_defaults parent_cfg)) \<lparr>pc_parents = [], pc_children = []\<rparr>"

section \<open>Defaults\<close>

lemma base_defaults_pos [simp]: "0 < cfg_size (base_defaults cfg)" "0 < cfg_overlap (base_defaults cfg)"
  by (simp_all add: base_defaults_def default_chunk_size_def default_chunk_overlap_def)

lemma ensure_defaults_bounds:
  "0 < cfg_size (ensure_defaults cfg)" "0 \<le> cfg_overlap (ensure_defaults cfg)"
  "2 * cfg_overlap (ensure_defaults cfg) \<le> cfg_size (ensure_defaults cfg)"
  "cfg_size (ensure_defaults cfg) \<le> max (cfg_size cfg) default_chunk_size"
proof -
  have b: "cfg_size (base_defaults cfg) \<le> max (cfg_size cfg) default_chunk_size" by (simp add: base_defaults_def)
  define size where "size = cfg_size (base_defaults cfg)"
  define ov where "ov = cfg_overlap (base_defaults cfg)"
  have pos: "0 < size" "0 < ov" "size \<le> max (cfg_size cfg) default_chunk_size" using b by (simp_all add: size_def ov_def)
  show "0 < cfg_size (ensure_defaults cfg)" "0 \<le> cfg_overlap (ensure_defaults cfg)"
    "2 * cfg_overlap (ensure_defaults cfg) \<le> cfg_size (ensure_defaults cfg)"
    "cfg_size (ensure_defaults cfg) \<le> max (cfg_size cfg) default_chunk_size"
    using pos by (auto simp: ensure_defaults_def Let_def simp flip: size_def ov_def)
qed

section \<open>Whichever tier wins\<close>

text \<open>The validator rejects an empty result, so a winner has chunks.\<close>

lemma validate_nonempty: "validate_chunks cs n k = Inr () \<Longrightarrow> cs \<noteq> []"
  by (auto simp: validate_chunks_def)

lemma try_tiers_Some:
  "try_tiers run n k tiers = (Some (out, tier), rejected) \<Longrightarrow>
     tier \<in> set tiers \<and> out = run tier \<and> validate_chunks out n k = Inr ()"
  by (induction tiers arbitrary: rejected) (auto split: sum.splits prod.splits)

lemma run_legacy: "run_tier u Tier_Legacy t cfg profile = split_text t cfg"
  by (simp add: run_tier_def)

lemma try_tiers_rejected:
  "try_tiers run n k tiers = (r, rejected) \<Longrightarrow> (tier, reason) \<in> set rejected \<Longrightarrow>
     validate_chunks (run tier) n k = Inl reason"
  by (induction tiers arbitrary: r rejected) (auto split: sum.splits prod.splits)

lemma laid_sound:
  assumes "laid ov n t 0 (length t) cs" "numbered cs" "t \<noteq> []"
  shows "sound_split t cs"
proof -
  from covers_reaches [OF laid_covers [OF assms(1,3)]] have "words_kept t (length t) cs"
    by (simp add: reaches_def words_kept_def)
  with assms(1,2) show ?thesis by (simp add: sound_split_def laid_def)
qed

lemma run_tier_sound:
  assumes "0 < cfg_size cfg" "cfg_size cfg \<le> int max_piece" "t \<noteq> []" "run_tier u tier t cfg profile \<noteq> []"
  shows "sound_split t (run_tier u tier t cfg profile)"
proof (cases tier)
  case Tier_Vietnamese_Legal
  with assms split_by_vietnamese_legal_sound [of cfg u t] show ?thesis by (simp add: run_tier_def)
next
  case Tier_Heading
  with laid_sound [OF conjunct1 [OF split_by_headings_laid [OF assms(1-3)]] conjunct2 [OF split_by_headings_laid [OF assms(1-3)]] assms(3)]
  show ?thesis by (simp add: run_tier_def)
next
  case Tier_Heuristic
  with assms(1) show ?thesis by (simp add: run_tier_def split_by_heuristics_sound)
qed (simp add: run_tier_def split_text_sound)

lemma split_document_result:
  assumes "t \<noteq> []"
  shows "\<exists>tier profile. split_document u t cfg = run_tier u tier t (ensure_defaults cfg) profile \<and>
    (validate_chunks (split_document u t cfg) (length t) (cfg_size (ensure_defaults cfg)) = Inr () \<or> tier = Tier_Legacy)"
proof -
  obtain tiers profile where c: "resolve_chain_with_profile u t (ensure_defaults cfg) = (tiers, profile)" by fastforce
  let ?run = "\<lambda>tier. run_tier u tier t (ensure_defaults cfg) profile"
  obtain r rejected where r: "try_tiers ?run (length t) (cfg_size (ensure_defaults cfg)) tiers = (r, rejected)" by fastforce
  show ?thesis
  proof (cases r)
    case None
    then have "split_document u t cfg = ?run Tier_Legacy"
      using assms c r by (simp add: split_document_def Let_def last_out_def run_tier_def)
    then show ?thesis by blast
  next
    case (Some p)
    obtain out tier where p: "p = (out, tier)" by fastforce
    have "split_document u t cfg = out" using assms c r Some p by (simp add: split_document_def Let_def)
    with try_tiers_Some [of ?run] r Some p show ?thesis by blast
  qed
qed

lemma split_text_nonempty:
  fixes cfg :: splitter_config
  shows "t \<noteq> [] \<Longrightarrow> split_text t cfg \<noteq> ([] :: 'l chunk list)"
  using split_text_covers(1) [of t cfg, where 'l = 'l] by (simp add: covers_def)

lemma split_document_sound:
  assumes "cfg_size cfg \<le> int max_piece"
  shows "sound_split t (split_document u t cfg) \<and> (t \<noteq> [] \<longrightarrow> split_document u t cfg \<noteq> [])"
proof (cases "t = []")
  case False
  obtain tier profile where r: "split_document u t cfg = run_tier u tier t (ensure_defaults cfg) profile"
    "validate_chunks (split_document u t cfg) (length t) (cfg_size (ensure_defaults cfg)) = Inr () \<or> tier = Tier_Legacy"
    using split_document_result [OF False] by blast
  have size: "cfg_size (ensure_defaults cfg) \<le> int max_piece"
    using ensure_defaults_bounds(4) [of cfg] assms by (simp add: default_chunk_size_def max_piece_def)
  have ne: "split_document u t cfg \<noteq> []"
    using r validate_nonempty split_text_nonempty [OF False, where 'l = legal_metadata] by (auto simp: run_tier_def)
  with run_tier_sound [OF ensure_defaults_bounds(1) size False, of u tier profile] r(1) show ?thesis by simp
qed (simp add: split_document_def sound_split_def numbered_def)

section \<open>Children\<close>

text \<open>
  Child \<open>c\<close>, moved back by the start of its parent, is a chunk of the parent's content: the text of its range
  there, alone or behind a table header of that content.
\<close>

definition child_of :: "'l chunk \<Rightarrow> 'l chunk \<Rightarrow> bool" where
  "child_of parent c \<longleftrightarrow>
     ck_start parent \<le> ck_start c \<and> ck_start c \<le> ck_end c \<and>
     chunk_of (ck_content parent)
       (c\<lparr>ck_start := ck_start c - ck_start parent, ck_end := ck_end c - ck_start parent\<rparr>)"

text \<open>
  The children \<open>g\<close> of the section \<open>p\<close>. A section whose only child has its whole content is not kept as a parent
  (nor is an empty one, which has no child); any other section is parent number \<open>i\<close>, and all its
  children say so. Every word of the section is in a child.
\<close>

definition undivided :: "'l chunk \<Rightarrow> 'l child_chunk list \<Rightarrow> bool" where
  "undivided p g \<longleftrightarrow>
     (case g of [] \<Rightarrow> ck_content p = [] | [(c, _)] \<Rightarrow> ck_content c = ck_content p | _ \<Rightarrow> False)"

definition children_of :: "'l chunk \<Rightarrow> nat \<Rightarrow> 'l child_chunk list \<Rightarrow> bool" where
  "children_of p i g \<longleftrightarrow>
     (\<forall>(c, j) \<in> set g. child_of p c \<and> j = (if undivided p g then -1 else int i)) \<and>
     (\<forall>k < length (ck_content p). \<not> is_space (ck_content p ! k) \<longrightarrow>
        (\<exists>(c, j) \<in> set g. ck_start c \<le> ck_start p + k \<and> ck_start p + k < ck_end c))"

fun families :: "'l chunk list \<Rightarrow> nat \<Rightarrow> 'l child_chunk list list \<Rightarrow> 'l chunk list \<Rightarrow> bool" where
  "families [] i [] parents \<longleftrightarrow> parents = []"
| "families (p # ps) i (g # gs) parents \<longleftrightarrow>
     children_of p i g \<and>
     (if undivided p g then families ps i gs parents
      else parents \<noteq> [] \<and> hd parents = p \<and> families ps (Suc i) gs (tl parents))"
| "families _ _ _ _ \<longleftrightarrow> False"

text \<open>The result for the sections \<open>ps\<close> of a document: their children in order, numbered through, and the parents kept.\<close>

definition family :: "'l chunk list \<Rightarrow> 'l parent_child_result \<Rightarrow> bool" where
  "family ps r \<longleftrightarrow>
     map (\<lambda>c. ck_seq (fst c)) (pc_children r) = [0..<length (pc_children r)] \<and>
     (\<exists>gs. pc_children r = concat gs \<and> families ps 0 gs (pc_parents r))"

definition child_group :: "'l chunk \<Rightarrow> nat \<Rightarrow> int \<Rightarrow> 'l chunk list \<Rightarrow> 'l child_chunk list" where
  "child_group p k i subs = map (\<lambda>(j, sub). (inherit_child p (k + j) sub, i)) (List.enumerate 0 subs)"

lemma inherit_child_of: "chunk_of (ck_content parent) sub \<Longrightarrow> child_of parent (inherit_child parent k sub)"
  by (auto simp: child_of_def inherit_child_def shift_child_def chunk_of_def)

lemma inherit_child_simps [simp]:
  "ck_content (inherit_child p k sub) = ck_content sub" "ck_seq (inherit_child p k sub) = k"
  "ck_start (inherit_child p k sub) = ck_start sub + ck_start p" "ck_end (inherit_child p k sub) = ck_end sub + ck_start p"
  by (simp_all add: inherit_child_def shift_child_def)

lemma child_group_seqs: "map (\<lambda>c. ck_seq (fst c)) (child_group p k i subs) = [k..<k + length subs]"
  by (rule nth_equalityI) (simp_all add: child_group_def nth_enumerate_eq)

lemma child_group_member: "sub \<in> set subs \<Longrightarrow> \<exists>j. (inherit_child p j sub, i) \<in> set (child_group p k i subs)"
proof -
  assume "sub \<in> set subs"
  then obtain j where "j < length subs" "sub = subs ! j" by (auto simp: in_set_conv_nth)
  then have "(j, sub) \<in> set (List.enumerate 0 subs)" by (simp add: in_set_enumerate_eq)
  then have "(inherit_child p (k + j) sub, i) \<in> set (child_group p k i subs)"
    unfolding child_group_def by (force intro: rev_image_eqI)
  then show ?thesis ..
qed

lemma child_group_undivided:
  assumes "subs = [] \<longrightarrow> ck_content p = []"
  shows "undivided p (child_group p k i subs) \<longleftrightarrow> \<not> own_parent p subs"
proof (cases subs)
  case (Cons a rest)
  then show ?thesis by (cases rest) (simp_all add: undivided_def child_group_def own_parent_def)
qed (use assms in \<open>simp add: undivided_def child_group_def own_parent_def\<close>)

lemma child_group_of:
  assumes s: "sound_split (ck_content p) subs" and ne: "subs = [] \<longrightarrow> ck_content p = []"
  shows "children_of p i (child_group p k (if own_parent p subs then int i else -1) subs)"
    (is "children_of p i ?g")
  unfolding children_of_def child_group_undivided [OF ne]
proof (intro conjI ballI allI impI)
  fix x assume "x \<in> set ?g"
  then obtain j sub where x: "x = (inherit_child p (k + j) sub, if own_parent p subs then int i else -1)" "sub \<in> set subs"
    by (auto simp: child_group_def dest: enumerate_value)
  with s inherit_child_of show "case x of (c, j) \<Rightarrow> child_of p c \<and> j = (if \<not> own_parent p subs then -1 else int i)"
    by (auto simp: sound_split_def)
next
  fix m assume m: "m < length (ck_content p)" "\<not> is_space (ck_content p ! m)"
  with s obtain sub where sub: "sub \<in> set subs" "ck_start sub \<le> m" "m < ck_end sub"
    by (auto simp: sound_split_def words_kept_def)
  from child_group_member [OF sub(1)] obtain j where
    "(inherit_child p j sub, if own_parent p subs then int i else -1) \<in> set ?g" by blast
  then show "\<exists>(c, j) \<in> set ?g. ck_start c \<le> ck_start p + m \<and> ck_start p + m < ck_end c"
    using sub(2,3) by (intro bexI) auto
qed

lemma split_one_parent_group:
  fixes split_child :: "runes \<Rightarrow> 'l chunk list"
  defines "g \<equiv> \<lambda>p r. child_group p (length (pc_children r))
    (if own_parent p (split_child (ck_content p)) then int (length (pc_parents r)) else -1) (split_child (ck_content p))"
  shows "split_one_parent split_child p r =
    \<lparr>pc_parents = (if own_parent p (split_child (ck_content p)) then pc_parents r @ [p] else pc_parents r),
     pc_children = pc_children r @ g p r\<rparr>"
  by (simp add: split_one_parent_def child_group_def g_def Let_def)

lemma split_parents_families:
  fixes split_child :: "runes \<Rightarrow> 'l chunk list"
  assumes "\<And>s. sound_split s (split_child s) \<and> (s \<noteq> [] \<longrightarrow> split_child s \<noteq> [])"
    and "map (\<lambda>c. ck_seq (fst c)) (pc_children r) = [0..<length (pc_children r)]"
  shows "map (\<lambda>c. ck_seq (fst c)) (pc_children (fold (split_one_parent split_child) ps r)) =
      [0..<length (pc_children (fold (split_one_parent split_child) ps r))] \<and>
    (\<exists>gs parents. pc_children (fold (split_one_parent split_child) ps r) = pc_children r @ concat gs \<and>
      pc_parents (fold (split_one_parent split_child) ps r) = pc_parents r @ parents \<and>
      families ps (length (pc_parents r)) gs parents)"
  using assms(2)
proof (induction ps arbitrary: r)
  case Nil
  then show ?case by (intro conjI exI [of _ "[]"]) simp_all
next
  case (Cons p ps)
  let ?subs = "split_child (ck_content p)"
  let ?g = "child_group p (length (pc_children r)) (if own_parent p ?subs then int (length (pc_parents r)) else -1) ?subs"
  let ?r = "split_one_parent split_child p r"
  have r: "pc_parents ?r = (if own_parent p ?subs then pc_parents r @ [p] else pc_parents r)"
    "pc_children ?r = pc_children r @ ?g" by (simp_all add: split_one_parent_group)
  have ne: "?subs = [] \<longrightarrow> ck_content p = []" using assms(1) by blast
  have kids: "children_of p (length (pc_parents r)) ?g" using child_group_of [OF _ ne] assms(1) by blast
  have "length ?g = length ?subs" by (simp add: child_group_def)
  then have "map (\<lambda>c. ck_seq (fst c)) (pc_children ?r) = [0..<length (pc_children ?r)]"
    using Cons.prems upt_add_eq_append [of 0 "length (pc_children r)" "length ?subs"]
    by (simp only: r map_append child_group_seqs length_append)
  from Cons.IH [OF this] obtain gs parents where
    ih: "pc_children (fold (split_one_parent split_child) ps ?r) = pc_children ?r @ concat gs"
      "pc_parents (fold (split_one_parent split_child) ps ?r) = pc_parents ?r @ parents"
      "families ps (length (pc_parents ?r)) gs parents"
      "map (\<lambda>c. ck_seq (fst c)) (pc_children (fold (split_one_parent split_child) ps ?r)) =
        [0..<length (pc_children (fold (split_one_parent split_child) ps ?r))]" by blast
  have "families (p # ps) (length (pc_parents r)) (?g # gs) (if own_parent p ?subs then p # parents else parents)"
    using kids ih(3) r(1) by (cases "own_parent p ?subs") (simp_all add: child_group_undivided [OF ne])
  moreover have "pc_parents (fold (split_one_parent split_child) (p # ps) r) =
      pc_parents r @ (if own_parent p ?subs then p # parents else parents)" using ih(2) r(1) by simp
  moreover have "pc_children (fold (split_one_parent split_child) (p # ps) r) = pc_children r @ concat (?g # gs)"
    using ih(1) r(2) by simp
  ultimately show ?case using ih(4) by (simp only: fold_simps) blast
qed

section \<open>Properties\<close>



text \<open>
  The diagnostics describe what \<^verbatim>\<open>Split\<close> does: \<^verbatim>\<open>SplitWithDiagnostics\<close> returns the same chunks,
  they are the output of the tier it names, and every tier it lists as rejected was rejected by the
  validator for the reason given.
\<close>

lemma diagnostics_describe_split:
  assumes "t \<noteq> []"
  shows "fst (split_with_diagnostics u t cfg) = split_document u t cfg \<and>
    split_document u t cfg = run_tier u (dg_selected (snd (split_with_diagnostics u t cfg))) t (ensure_defaults cfg)
      (dg_profile (snd (split_with_diagnostics u t cfg))) \<and>
    (\<forall>(tier, reason) \<in> set (dg_rejected (snd (split_with_diagnostics u t cfg))).
       validate_chunks (run_tier u tier t (ensure_defaults cfg) (dg_profile (snd (split_with_diagnostics u t cfg))))
         (length t) (cfg_size (ensure_defaults cfg)) = Inl reason)"
proof -
  obtain tiers profile where c: "resolve_chain_with_profile u t (ensure_defaults cfg) = (tiers, profile)" by fastforce
  let ?run = "\<lambda>tier. run_tier u tier t (ensure_defaults cfg) profile"
  obtain r rejected where r: "try_tiers ?run (length t) (cfg_size (ensure_defaults cfg)) tiers = (r, rejected)" by fastforce
  have rej: "validate_chunks (?run tier) (length t) (cfg_size (ensure_defaults cfg)) = Inl reason"
    if "(tier, reason) \<in> set rejected" for tier reason
    using try_tiers_rejected [OF r that] .
  show ?thesis
  proof (cases r)
    case None
    with assms c r rej show ?thesis
      by (auto simp: split_document_def split_with_diagnostics_def Let_def last_out_def run_legacy)
  next
    case (Some p)
    obtain out tier where p: "p = (out, tier)" by fastforce
    with try_tiers_Some [of ?run] r Some have "out = ?run tier" by blast
    with assms c r Some p rej show ?thesis
      by (auto simp: split_document_def split_with_diagnostics_def Let_def)
  qed
qed



end
