(* ===== verification/Qa_Queue.thy ===== *)
theory Qa_Queue
  imports Prelude "HOL-Library.Multiset"
begin

text \<open>
  \<^verbatim>\<open>im/qaqueue.go\<close>: the bounded queue of questions of the chat gateways and its workers. The
  operations under the queue's mutex are functions; the goroutines that submit, remove and execute
  requests are processes of a step relation, one step per critical section, per call of redis and
  per wait. The redis client is a parameter: its calls may fail, and between two steps other
  instances may change what it stores.

  The lemmas are invariants of the reachable states: the queue and each user stay within their
  limits and the per-user counts are the counts of the queue; every request is in one place and is
  executed at most once, and the metrics add up; a worker never sleeps while a request waits for
  it, and after \<^verbatim>\<open>Stop\<close> no request is left behind.
\<close>

section \<open>The queue\<close>

record qa_request =
  qa_id :: nat
  qa_user :: string
  qa_enqueued_at :: int

definition queue_timeout :: int where "queue_timeout = 60 * 1000000000"

datatype queue_error = Queue_Closed | Queue_Full nat int | User_Limit int int | Global_User_Limit int int

text \<open>
  Redis, as the queue calls it: the counter commands on the server's state, and the round trip that
  runs a command or a script there and may fail, before or after it ran.
\<close>

record 'r redis_ops =
  rd_incr :: "string \<Rightarrow> 'r \<Rightarrow> int \<times> 'r"
  rd_decr :: "string \<Rightarrow> 'r \<Rightarrow> int \<times> 'r"
  rd_call :: "('r \<Rightarrow> int \<times> 'r) \<Rightarrow> 'r \<Rightarrow> (string + int) \<times> 'r"

definition queue_user_key :: "string \<Rightarrow> string" where "queue_user_key u = ''im:queue:user:'' @ u"
definition global_gate_key :: string where "global_gate_key = ''im:global:active''"

text \<open>
  Setting the expiry of a counter is left out, here and in the script: a counter that expires is a
  change by the environment.
\<close>

definition global_gate_script :: "'r redis_ops \<Rightarrow> int \<Rightarrow> 'r \<Rightarrow> int \<times> 'r" where
  "global_gate_script ops max_workers r =
     (let (count, r) = rd_incr ops global_gate_key r
      in if count \<le> max_workers then (1, r) else (0, snd (rd_decr ops global_gate_key r)))"

definition decr_user :: "'r redis_ops \<Rightarrow> string \<Rightarrow> 'r \<Rightarrow> 'r" where
  "decr_user ops u r = snd (rd_call ops (rd_decr ops (queue_user_key u)) r)"

record 'r qa_queue =
  q_max_size :: int
  q_max_per_user :: int
  q_global_max :: int
  q_list :: "qa_request list"
  q_per_user :: "string \<rightharpoonup> int"
  q_closed :: bool
  q_redis :: "'r option"
  q_active :: int
  q_enqueued :: int
  q_processed :: int
  q_rejected :: int
  q_timeouts :: int

definition new_qa_queue :: "int \<Rightarrow> int \<Rightarrow> int \<Rightarrow> 'r option \<Rightarrow> 'r qa_queue" where
  "new_qa_queue max_size max_per_user global_max redis =
     \<lparr>q_max_size = max_size, q_max_per_user = max_per_user, q_global_max = global_max, q_list = [],
      q_per_user = Map.empty, q_closed = False, q_redis = redis, q_active = 0, q_enqueued = 0, q_processed = 0,
      q_rejected = 0, q_timeouts = 0\<rparr>"

definition stop_queue :: "'r qa_queue \<Rightarrow> 'r qa_queue" where
  "stop_queue q = q\<lparr>q_closed := True\<rparr>"

definition redis_decr_user :: "'r redis_ops \<Rightarrow> string \<Rightarrow> 'r qa_queue \<Rightarrow> 'r qa_queue" where
  "redis_decr_user ops u q = q\<lparr>q_redis := map_option (decr_user ops u) (q_redis q)\<rparr>"

text \<open>\<^verbatim>\<open>redisCheckAndIncrUser\<close>; the decrement of a refused increment is a second call.\<close>

definition redis_check_and_incr_user :: "'r redis_ops \<Rightarrow> string \<Rightarrow> 'r qa_queue \<Rightarrow> queue_error option \<times> 'r qa_queue" where
  "redis_check_and_incr_user ops u q =
     (case q_redis q of
        None \<Rightarrow> (None, q)
      | Some r \<Rightarrow>
          (case rd_call ops (rd_incr ops (queue_user_key u)) r of
             (Inl _, r) \<Rightarrow> (None, q\<lparr>q_redis := Some r\<rparr>)
           | (Inr n, r) \<Rightarrow>
               if q_max_per_user q < n
               then (Some (Global_User_Limit n (q_max_per_user q)), q\<lparr>q_redis := Some (decr_user ops u r)\<rparr>)
               else (None, q\<lparr>q_redis := Some r\<rparr>)))"

text \<open>\<^verbatim>\<open>Enqueue\<close> before the lock, and under it.\<close>

definition enqueue_check :: "'r redis_ops \<Rightarrow> qa_request \<Rightarrow> 'r qa_queue \<Rightarrow> queue_error option \<times> 'r qa_queue" where
  "enqueue_check ops req q =
     (let (err, q) = redis_check_and_incr_user ops (qa_user req) q
      in case err of None \<Rightarrow> (None, q) | Some e \<Rightarrow> (Some e, q\<lparr>q_rejected := q_rejected q + 1\<rparr>))"

definition user_count :: "'r qa_queue \<Rightarrow> string \<Rightarrow> int" where
  "user_count q u = (case q_per_user q u of None \<Rightarrow> 0 | Some n \<Rightarrow> n)"

definition count_user :: "string \<Rightarrow> 'r qa_queue \<Rightarrow> 'r qa_queue" where
  "count_user u q = (if q_redis q = None then q\<lparr>q_per_user := (q_per_user q)(u \<mapsto> user_count q u + 1)\<rparr> else q)"

definition uncount_user :: "string \<Rightarrow> 'r qa_queue \<Rightarrow> 'r qa_queue" where
  "uncount_user u q =
     (if q_redis q = None
      then q\<lparr>q_per_user := (q_per_user q)(u := (if user_count q u - 1 \<le> 0 then None else Some (user_count q u - 1)))\<rparr>
      else q)"

definition enqueue_locked :: "'r redis_ops \<Rightarrow> int \<Rightarrow> qa_request \<Rightarrow> 'r qa_queue \<Rightarrow> (queue_error + nat) \<times> 'r qa_queue" where
  "enqueue_locked ops now req q =
     (if q_closed q then (Inl Queue_Closed, redis_decr_user ops (qa_user req) q)
      else if q_max_size q \<le> int (length (q_list q)) then
        (Inl (Queue_Full (length (q_list q)) (q_max_size q)),
         (redis_decr_user ops (qa_user req) q)\<lparr>q_rejected := q_rejected q + 1\<rparr>)
      else if q_redis q = None \<and> q_max_per_user q \<le> user_count q (qa_user req) then
        (Inl (User_Limit (user_count q (qa_user req)) (q_max_per_user q)), q\<lparr>q_rejected := q_rejected q + 1\<rparr>)
      else
        let q = count_user (qa_user req) (q\<lparr>q_list := q_list q @ [req\<lparr>qa_enqueued_at := now\<rparr>]\<rparr>)
        in (Inr (length (q_list q) - 1), q\<lparr>q_enqueued := q_enqueued q + 1\<rparr>))"

text \<open>\<^verbatim>\<open>Remove\<close>: the first request of the user, which the caller's context cancels.\<close>

fun split_first :: "('a \<Rightarrow> bool) \<Rightarrow> 'a list \<Rightarrow> ('a list \<times> 'a \<times> 'a list) option" where
  "split_first P [] = None"
| "split_first P (x # xs) =
     (if P x then Some ([], x, xs) else map_option (\<lambda>(ys, y, zs). (x # ys, y, zs)) (split_first P xs))"

definition remove_request :: "'r redis_ops \<Rightarrow> string \<Rightarrow> 'r qa_queue \<Rightarrow> qa_request option \<times> 'r qa_queue" where
  "remove_request ops u q =
     (case split_first (\<lambda>req. qa_user req = u) (q_list q) of
        None \<Rightarrow> (None, q)
      | Some (before, req, after) \<Rightarrow> (Some req, redis_decr_user ops u (uncount_user u (q\<lparr>q_list := before @ after\<rparr>))))"

text \<open>\<^verbatim>\<open>dequeue\<close> once its wait is over and the queue is not empty.\<close>

definition take_request :: "'r qa_queue \<Rightarrow> qa_request \<times> 'r qa_queue" where
  "take_request q = (hd (q_list q), uncount_user (qa_user (hd (q_list q))) (q\<lparr>q_list := tl (q_list q)\<rparr>))"

section \<open>The global gate\<close>

datatype gate_result = Gate_Passed | Gate_Full

definition try_global_gate :: "'r redis_ops \<Rightarrow> 'r qa_queue \<Rightarrow> gate_result \<times> 'r qa_queue" where
  "try_global_gate ops q =
     (case q_redis q of
        None \<Rightarrow> (Gate_Passed, q)
      | Some r \<Rightarrow>
          if q_global_max q \<le> 0 then (Gate_Passed, q)
          else (case rd_call ops (global_gate_script ops (q_global_max q)) r of
                  (Inl _, r) \<Rightarrow> (Gate_Passed, q\<lparr>q_redis := Some r\<rparr>)
                | (Inr n, r) \<Rightarrow> (if n = 1 then Gate_Passed else Gate_Full, q\<lparr>q_redis := Some r\<rparr>)))"

definition release_global_gate :: "'r redis_ops \<Rightarrow> 'r qa_queue \<Rightarrow> 'r qa_queue" where
  "release_global_gate ops q =
     (if q_global_max q \<le> 0 then q else q\<lparr>q_redis := map_option (\<lambda>r. snd (rd_call ops (rd_decr ops global_gate_key) r)) (q_redis q)\<rparr>)"

section \<open>Metrics\<close>

record queue_metrics =
  qm_depth :: nat
  qm_active_workers :: int
  qm_total_enqueued :: int
  qm_total_processed :: int
  qm_total_rejected :: int
  qm_total_timeout :: int

text \<open>
  \<^verbatim>\<open>Metrics\<close> reads the depth under the mutex and then the five counters, one after another; \<open>q\<close> gives the
  queue at the time of each read.
\<close>

datatype metric = M_Depth | M_Active | M_Enqueued | M_Processed | M_Rejected | M_Timeout

definition metrics :: "(metric \<Rightarrow> 'r qa_queue) \<Rightarrow> queue_metrics" where
  "metrics q = \<lparr>qm_depth = length (q_list (q M_Depth)), qm_active_workers = q_active (q M_Active),
     qm_total_enqueued = q_enqueued (q M_Enqueued), qm_total_processed = q_processed (q M_Processed),
     qm_total_rejected = q_rejected (q M_Rejected), qm_total_timeout = q_timeouts (q M_Timeout)\<rparr>"

section \<open>Workers\<close>

text \<open>
  The points of \<^verbatim>\<open>runWorker\<close>: at the condition of \<^verbatim>\<open>dequeue\<close>; asleep in \<^verbatim>\<open>cond.Wait\<close>; with a request
  just taken; before a try of the gate; waiting for the next try; through the gate and not yet counted as
  active; in the handler; no longer active and not yet counted as processed; before the release of the gate;
  before \<^verbatim>\<open>redisDecrUser\<close> (the flag says whether \<^verbatim>\<open>req.cancel()\<close> follows); before that cancel; returned.
  Two steps still join a call of redis with what follows it at once: the refusal of the redis check in
  \<^verbatim>\<open>Enqueue\<close> with its count in \<^verbatim>\<open>totalRejected\<close>, and an increment of redis with the decrement that takes a
  refused one back.
\<close>

datatype worker = Checking | Asleep | Taken qa_request | At_Gate qa_request | Gate_Waiting qa_request
  | Admitted qa_request | Running qa_request | Finishing qa_request | Releasing qa_request
  | Giving_Back qa_request bool | Cancelling qa_request | Exited

datatype outcome = Refused queue_error | Removed | Expired | Processed

record 'r qa_system =
  sy_queue :: "'r qa_queue"
  sy_workers :: "worker list"
  sy_entering :: "qa_request list"  \<comment> \<open>past the redis check, before the lock\<close>
  sy_cancelled :: "nat set"
  sy_clock :: int
  sy_wake_all :: bool  \<comment> \<open>\<^verbatim>\<open>Stop\<close> has closed the queue and not yet broadcast\<close>
  sy_seen :: "nat set"  \<comment> \<open>the requests ever submitted\<close>
  sy_log :: "(nat \<times> outcome) list"  \<comment> \<open>the requests done with\<close>

definition start_system :: "nat \<Rightarrow> 'r qa_queue \<Rightarrow> 'r qa_system" where
  "start_system n q =
     \<lparr>sy_queue = q, sy_workers = replicate n Checking, sy_entering = [], sy_cancelled = {}, sy_clock = 0,
      sy_wake_all = False, sy_seen = {}, sy_log = []\<rparr>"

definition set_worker :: "nat \<Rightarrow> worker \<Rightarrow> 'r qa_system \<Rightarrow> 'r qa_system" where
  "set_worker i w s = s\<lparr>sy_workers := (sy_workers s)[i := w]\<rparr>"

definition finish_request :: "qa_request \<Rightarrow> outcome \<Rightarrow> 'r qa_system \<Rightarrow> 'r qa_system" where
  "finish_request req res s = s\<lparr>sy_log := (qa_id req, res) # sy_log s\<rparr>"

text \<open>A request that waited too long, or was cancelled, is counted; then it is given back to its user's budget.\<close>

definition expire :: "nat \<Rightarrow> qa_request \<Rightarrow> bool \<Rightarrow> 'r qa_system \<Rightarrow> 'r qa_system" where
  "expire i req cancels s =
     (let q = sy_queue s in
      finish_request req Expired (set_worker i (Giving_Back req cancels)
        (s\<lparr>sy_queue := q\<lparr>q_timeouts := q_timeouts q + 1\<rparr>\<rparr>)))"

definition give_back :: "'r redis_ops \<Rightarrow> nat \<Rightarrow> qa_request \<Rightarrow> bool \<Rightarrow> 'r qa_system \<Rightarrow> 'r qa_system" where
  "give_back ops i req cancels s =
     set_worker i (if cancels then Cancelling req else Checking)
       (s\<lparr>sy_queue := redis_decr_user ops (qa_user req) (sy_queue s)\<rparr>)"

definition submit :: "'r redis_ops \<Rightarrow> qa_request \<Rightarrow> 'r qa_system \<Rightarrow> 'r qa_system" where
  "submit ops req s =
     (let s1 = s\<lparr>sy_seen := insert (qa_id req) (sy_seen s)\<rparr>;
          (err, q) = enqueue_check ops req (sy_queue s)
      in case err of
           None \<Rightarrow> s1\<lparr>sy_queue := q, sy_entering := req # sy_entering s\<rparr>
         | Some e \<Rightarrow> finish_request req (Refused e) (s1\<lparr>sy_queue := q\<rparr>))"

text \<open>\<open>woken\<close> is the list of workers after \<^verbatim>\<open>cond.Signal\<close>: one sleeper, if there is one, wakes.\<close>

definition signalled :: "worker list \<Rightarrow> worker list \<Rightarrow> bool" where
  "signalled ws woken \<longleftrightarrow>
     (if Asleep \<in> set ws then \<exists>i < length ws. ws ! i = Asleep \<and> woken = ws[i := Checking] else woken = ws)"

definition wake_all :: "worker list \<Rightarrow> worker list" where
  "wake_all ws = map (\<lambda>w. if w = Asleep then Checking else w) ws"

definition enter :: "'r redis_ops \<Rightarrow> qa_request \<Rightarrow> worker list \<Rightarrow> 'r qa_system \<Rightarrow> 'r qa_system" where
  "enter ops req woken s =
     (let s1 = s\<lparr>sy_entering := remove1 req (sy_entering s)\<rparr>;
          (res, q) = enqueue_locked ops (sy_clock s) req (sy_queue s)
      in case res of
           Inl e \<Rightarrow> finish_request req (Refused e) (s1\<lparr>sy_queue := q\<rparr>)
         | Inr _ \<Rightarrow> s1\<lparr>sy_queue := q, sy_workers := woken\<rparr>)"

definition remove_for :: "'r redis_ops \<Rightarrow> string \<Rightarrow> 'r qa_system \<Rightarrow> 'r qa_system" where
  "remove_for ops u s =
     (case remove_request ops u (sy_queue s) of
        (None, q) \<Rightarrow> s
      | (Some req, q) \<Rightarrow> finish_request req Removed
          (s\<lparr>sy_queue := q, sy_cancelled := insert (qa_id req) (sy_cancelled s)\<rparr>))"

definition check_queue :: "nat \<Rightarrow> 'r qa_system \<Rightarrow> 'r qa_system" where
  "check_queue i s =
     (let q = sy_queue s in
      if q_list q = [] then set_worker i (if q_closed q then Exited else Asleep) s
      else let (req, q) = take_request q in set_worker i (Taken req) (s\<lparr>sy_queue := q\<rparr>))"

definition check_request :: "nat \<Rightarrow> qa_request \<Rightarrow> 'r qa_system \<Rightarrow> 'r qa_system" where
  "check_request i req s =
     (if qa_id req \<in> sy_cancelled s then expire i req False s
      else if queue_timeout < sy_clock s - qa_enqueued_at req then expire i req True s
      else set_worker i (At_Gate req) s)"

definition try_gate :: "'r redis_ops \<Rightarrow> nat \<Rightarrow> qa_request \<Rightarrow> 'r qa_system \<Rightarrow> 'r qa_system" where
  "try_gate ops i req s =
     (let (res, q) = try_global_gate ops (sy_queue s)
      in set_worker i (case res of Gate_Passed \<Rightarrow> Admitted req | Gate_Full \<Rightarrow> Gate_Waiting req) (s\<lparr>sy_queue := q\<rparr>))"

definition add_active :: "int \<Rightarrow> 'r qa_queue \<Rightarrow> 'r qa_queue" where
  "add_active d q = q\<lparr>q_active := q_active q + d\<rparr>"

definition start_handler :: "nat \<Rightarrow> qa_request \<Rightarrow> 'r qa_system \<Rightarrow> 'r qa_system" where
  "start_handler i req s = set_worker i (Running req) (s\<lparr>sy_queue := add_active 1 (sy_queue s)\<rparr>)"

definition finish_handler :: "nat \<Rightarrow> qa_request \<Rightarrow> 'r qa_system \<Rightarrow> 'r qa_system" where
  "finish_handler i req s = set_worker i (Finishing req) (s\<lparr>sy_queue := add_active (-1) (sy_queue s)\<rparr>)"

definition count_processed :: "nat \<Rightarrow> qa_request \<Rightarrow> 'r qa_system \<Rightarrow> 'r qa_system" where
  "count_processed i req s =
     (let q = sy_queue s in
      finish_request req Processed (set_worker i (Releasing req) (s\<lparr>sy_queue := q\<lparr>q_processed := q_processed q + 1\<rparr>\<rparr>)))"

definition leave_gate :: "'r redis_ops \<Rightarrow> nat \<Rightarrow> qa_request \<Rightarrow> 'r qa_system \<Rightarrow> 'r qa_system" where
  "leave_gate ops i req s =
     set_worker i (Giving_Back req False) (s\<lparr>sy_queue := release_global_gate ops (sy_queue s)\<rparr>)"

inductive qa_step :: "'r redis_ops \<Rightarrow> 'r qa_system \<Rightarrow> 'r qa_system \<Rightarrow> bool" for ops :: "'r redis_ops" where
  qa_submit: "qa_id req \<notin> sy_seen s \<Longrightarrow> qa_step ops s (submit ops req s)"
| qa_enter: "req \<in> set (sy_entering s) \<Longrightarrow> signalled (sy_workers s) woken \<Longrightarrow> qa_step ops s (enter ops req woken s)"
| qa_remove: "qa_step ops s (remove_for ops u s)"
| qa_stop: "qa_step ops s (s\<lparr>sy_queue := stop_queue (sy_queue s), sy_wake_all := True\<rparr>)"
| qa_broadcast: "sy_wake_all s \<Longrightarrow> qa_step ops s (s\<lparr>sy_workers := wake_all (sy_workers s), sy_wake_all := False\<rparr>)"
| qa_check: "i < length (sy_workers s) \<Longrightarrow> sy_workers s ! i = Checking \<Longrightarrow> qa_step ops s (check_queue i s)"
| qa_request: "i < length (sy_workers s) \<Longrightarrow> sy_workers s ! i = Taken req \<Longrightarrow> qa_step ops s (check_request i req s)"
| qa_gate: "i < length (sy_workers s) \<Longrightarrow> sy_workers s ! i = At_Gate req \<Longrightarrow> qa_step ops s (try_gate ops i req s)"
| qa_retry: "i < length (sy_workers s) \<Longrightarrow> sy_workers s ! i = Gate_Waiting req \<Longrightarrow>
    qa_step ops s (set_worker i (At_Gate req) s)"
| qa_give_up: "i < length (sy_workers s) \<Longrightarrow> sy_workers s ! i = Gate_Waiting req \<Longrightarrow> qa_id req \<in> sy_cancelled s \<Longrightarrow>
    qa_step ops s (expire i req True s)"
| qa_start: "i < length (sy_workers s) \<Longrightarrow> sy_workers s ! i = Admitted req \<Longrightarrow> qa_step ops s (start_handler i req s)"
| qa_finish: "i < length (sy_workers s) \<Longrightarrow> sy_workers s ! i = Running req \<Longrightarrow> qa_step ops s (finish_handler i req s)"
| qa_count: "i < length (sy_workers s) \<Longrightarrow> sy_workers s ! i = Finishing req \<Longrightarrow> qa_step ops s (count_processed i req s)"
| qa_leave: "i < length (sy_workers s) \<Longrightarrow> sy_workers s ! i = Releasing req \<Longrightarrow> qa_step ops s (leave_gate ops i req s)"
| qa_give_back: "i < length (sy_workers s) \<Longrightarrow> sy_workers s ! i = Giving_Back req cancels \<Longrightarrow>
    qa_step ops s (give_back ops i req cancels s)"
| qa_done: "i < length (sy_workers s) \<Longrightarrow> sy_workers s ! i = Cancelling req \<Longrightarrow>
    qa_step ops s (set_worker i Checking (s\<lparr>sy_cancelled := insert (qa_id req) (sy_cancelled s)\<rparr>))"
| qa_cancel: "qa_step ops s (s\<lparr>sy_cancelled := insert x (sy_cancelled s)\<rparr>)"
| qa_tick: "sy_clock s \<le> now \<Longrightarrow> qa_step ops s (s\<lparr>sy_clock := now\<rparr>)"
| qa_redis: "q_redis (sy_queue s) \<noteq> None \<Longrightarrow>
    qa_step ops s (s\<lparr>sy_queue := (sy_queue s)\<lparr>q_redis := Some r\<rparr>\<rparr>)"

section \<open>The limits\<close>

definition of_user :: "string \<Rightarrow> qa_request list \<Rightarrow> nat" where
  "of_user u reqs = length (filter (\<lambda>req. qa_user req = u) reqs)"

text \<open>Without redis the map counts the queued requests of each user, and has no other entry.\<close>

definition counted_queue :: "'r qa_queue \<Rightarrow> bool" where
  "counted_queue q \<longleftrightarrow>
     (if q_redis q = None
      then (\<forall>u. q_per_user q u = (if of_user u (q_list q) = 0 then None else Some (int (of_user u (q_list q)))) \<and>
                int (of_user u (q_list q)) \<le> max 0 (q_max_per_user q))
      else q_per_user q = Map.empty) \<and>
     int (length (q_list q)) \<le> max 0 (q_max_size q)"

lemma of_user_simps [simp]:
  "of_user u [] = 0" "of_user u (req # reqs) = (if qa_user req = u then 1 else 0) + of_user u reqs"
  "of_user u (xs @ ys) = of_user u xs + of_user u ys"
  by (simp_all add: of_user_def)

lemma split_first_Some: "split_first P xs = Some (before, x, after) \<Longrightarrow>
    xs = before @ x # after \<and> P x \<and> (\<forall>y \<in> set before. \<not> P y)"
  by (induction xs arbitrary: before) (auto split: if_splits)

lemma split_first_None: "split_first P xs = None \<longleftrightarrow> (\<forall>x \<in> set xs. \<not> P x)"
  by (induction xs) auto

lemma redis_decr_fields [simp]:
  "q_list (redis_decr_user ops u q) = q_list q" "q_per_user (redis_decr_user ops u q) = q_per_user q"
  "q_max_size (redis_decr_user ops u q) = q_max_size q" "q_max_per_user (redis_decr_user ops u q) = q_max_per_user q"
  "q_closed (redis_decr_user ops u q) = q_closed q" "q_active (redis_decr_user ops u q) = q_active q"
  "q_enqueued (redis_decr_user ops u q) = q_enqueued q" "q_processed (redis_decr_user ops u q) = q_processed q"
  "q_rejected (redis_decr_user ops u q) = q_rejected q" "q_timeouts (redis_decr_user ops u q) = q_timeouts q"
  "q_redis (redis_decr_user ops u q) = None \<longleftrightarrow> q_redis q = None"
  by (simp_all add: redis_decr_user_def)

lemma count_fields [simp]:
  "q_list (count_user u q) = q_list q" "q_closed (count_user u q) = q_closed q" "q_active (count_user u q) = q_active q"
  "q_max_size (count_user u q) = q_max_size q" "q_max_per_user (count_user u q) = q_max_per_user q"
  "q_redis (count_user u q) = q_redis q" "q_enqueued (count_user u q) = q_enqueued q"
  "q_processed (count_user u q) = q_processed q" "q_rejected (count_user u q) = q_rejected q"
  "q_timeouts (count_user u q) = q_timeouts q"
  "q_list (uncount_user u q) = q_list q" "q_closed (uncount_user u q) = q_closed q" "q_active (uncount_user u q) = q_active q"
  "q_max_size (uncount_user u q) = q_max_size q" "q_max_per_user (uncount_user u q) = q_max_per_user q"
  "q_redis (uncount_user u q) = q_redis q" "q_enqueued (uncount_user u q) = q_enqueued q"
  "q_processed (uncount_user u q) = q_processed q" "q_rejected (uncount_user u q) = q_rejected q"
  "q_timeouts (uncount_user u q) = q_timeouts q"
  by (simp_all add: count_user_def uncount_user_def)

text \<open>The limits depend on these fields only.\<close>

lemma counted_queue_cong:
  "counted_queue q \<Longrightarrow> q_list q' = q_list q \<Longrightarrow> q_per_user q' = q_per_user q \<Longrightarrow> (q_redis q' = None) = (q_redis q = None) \<Longrightarrow>
     q_max_size q' = q_max_size q \<Longrightarrow> q_max_per_user q' = q_max_per_user q \<Longrightarrow> counted_queue q'"
  by (simp add: counted_queue_def)

lemma counted_user_count: "counted_queue q \<Longrightarrow> q_redis q = None \<Longrightarrow> user_count q u = int (of_user u (q_list q))"
  by (simp add: counted_queue_def user_count_def)

lemma counted_dec:
  assumes "counted_queue q" "q_list q = before @ req # after" "qa_user req = u"
  shows "counted_queue (uncount_user u (q\<lparr>q_list := before @ after\<rparr>))"
proof (cases "q_redis q = None")
  case True
  have c: "user_count (q\<lparr>q_list := before @ after\<rparr>) u = int (of_user u (before @ after)) + 1"
    using counted_user_count [OF assms(1) True, of u] assms(2,3) by (simp add: user_count_def)
  have len: "int (length (before @ after)) \<le> max 0 (q_max_size q)"
    using assms(1,2) by (simp add: counted_queue_def)
  have "q_per_user q v = (if of_user v (before @ after) = 0 then None else Some (int (of_user v (before @ after))))"
    if "v \<noteq> u" for v
    using assms True that by (auto simp: counted_queue_def)
  moreover have "int (of_user v (before @ after)) \<le> max 0 (q_max_per_user q)" for v
  proof -
    have "int (of_user v (q_list q)) \<le> max 0 (q_max_per_user q)" using assms(1) True by (simp add: counted_queue_def)
    then show ?thesis using assms(2) by (simp split: if_splits)
  qed
  ultimately show ?thesis using True len c unfolding counted_queue_def uncount_user_def by (auto simp: fun_upd_def)
next
  case False
  then obtain r where "q_redis q = Some r" by blast
  then have "uncount_user u (q\<lparr>q_list := before @ after\<rparr>) = q\<lparr>q_list := before @ after\<rparr>" by (simp add: uncount_user_def)
  with False assms show ?thesis by (auto simp: counted_queue_def)
qed

lemma counted_enqueue:
  assumes "counted_queue q"
  shows "counted_queue (snd (enqueue_locked ops now req q))"
proof -
  let ?q = "q\<lparr>q_list := q_list q @ [req\<lparr>qa_enqueued_at := now\<rparr>]\<rparr>"
  have "counted_queue (count_user (qa_user req) ?q)"
    if "\<not> q_max_size q \<le> int (length (q_list q))" "\<not> (q_redis q = None \<and> q_max_per_user q \<le> user_count q (qa_user req))"
  proof (cases "q_redis q = None")
    case True
    note n = counted_user_count [OF assms True]
    have c: "user_count ?q (qa_user req) = int (of_user (qa_user req) (q_list q))"
      using n by (simp add: user_count_def)
    from True assms that n show ?thesis
      unfolding counted_queue_def count_user_def by (auto simp: c simp del: max_def)
  next
    case False
    then obtain r where "q_redis q = Some r" by blast
    with assms that show ?thesis by (auto simp: counted_queue_def count_user_def)
  qed
  then show ?thesis
    using assms by (auto simp: enqueue_locked_def Let_def intro: counted_queue_cong)
qed

inductive qa_reach :: "'r redis_ops \<Rightarrow> nat \<Rightarrow> 'r qa_queue \<Rightarrow> 'r qa_system \<Rightarrow> bool"
  for ops :: "'r redis_ops" and n :: nat and q0 :: "'r qa_queue" where
  qa_init: "qa_reach ops n q0 (start_system n q0)"
| qa_next: "qa_reach ops n q0 s \<Longrightarrow> qa_step ops s s' \<Longrightarrow> qa_reach ops n q0 s'"

lemma take_request_counted:
  assumes "counted_queue q" "q_list q \<noteq> []"
  shows "counted_queue (snd (take_request q))"
  using counted_dec [OF assms(1), of "[]" "hd (q_list q)" "tl (q_list q)"] assms(2) by (simp add: take_request_def)

lemma remove_request_counted: "counted_queue q \<Longrightarrow> counted_queue (snd (remove_request ops u q))"
proof -
  assume q: "counted_queue q"
  show ?thesis
  proof (cases "split_first (\<lambda>req. qa_user req = u) (q_list q)")
    case (Some z)
    then obtain before req after where z: "z = (before, req, after)" by (cases z)
    have "q_list q = before @ req # after \<and> qa_user req = u" using split_first_Some [OF Some [unfolded z]] by simp
    then have c: "counted_queue (uncount_user u (q\<lparr>q_list := before @ after\<rparr>))" using counted_dec [OF q] by blast
    have "counted_queue (redis_decr_user ops u (uncount_user u (q\<lparr>q_list := before @ after\<rparr>)))"
      by (rule counted_queue_cong [OF c]) simp_all
    then show ?thesis by (simp add: remove_request_def Some z)
  qed (simp add: remove_request_def q)
qed

text \<open>The gate and the redis check leave the queue itself alone.\<close>

definition same_queue :: "'r qa_queue \<Rightarrow> 'r qa_queue \<Rightarrow> bool" where
  "same_queue q q' \<longleftrightarrow>
     q_list q' = q_list q \<and> q_per_user q' = q_per_user q \<and> (q_redis q' = None) = (q_redis q = None) \<and>
     q_max_size q' = q_max_size q \<and> q_max_per_user q' = q_max_per_user q \<and> q_closed q' = q_closed q \<and>
     q_active q' = q_active q \<and> q_enqueued q' = q_enqueued q \<and> q_processed q' = q_processed q \<and>
     q_timeouts q' = q_timeouts q"

lemma same_queue_check: "same_queue q (snd (enqueue_check ops req q))"
  by (auto simp: same_queue_def enqueue_check_def redis_check_and_incr_user_def split: option.split prod.split sum.split)

lemma same_queue_gate: "same_queue q (snd (try_global_gate ops q))" "same_queue q (release_global_gate ops q)"
  by (auto simp: same_queue_def try_global_gate_def release_global_gate_def split: option.split prod.split sum.split)

lemma same_queue_counted: "same_queue q q' \<Longrightarrow> counted_queue q \<Longrightarrow> counted_queue q'"
  by (auto simp: same_queue_def intro: counted_queue_cong)

lemma set_worker_fields [simp]:
  "sy_queue (set_worker i w s) = sy_queue s" "sy_workers (set_worker i w s) = (sy_workers s)[i := w]"
  "sy_entering (set_worker i w s) = sy_entering s" "sy_seen (set_worker i w s) = sy_seen s"
  "sy_log (set_worker i w s) = sy_log s" "sy_wake_all (set_worker i w s) = sy_wake_all s"
  "sy_queue (finish_request req res s) = sy_queue s" "sy_workers (finish_request req res s) = sy_workers s"
  "sy_entering (finish_request req res s) = sy_entering s" "sy_seen (finish_request req res s) = sy_seen s"
  "sy_log (finish_request req res s) = (qa_id req, res) # sy_log s" "sy_wake_all (finish_request req res s) = sy_wake_all s"
  by (simp_all add: set_worker_def finish_request_def)

lemma add_active_fields [simp]:
  "q_list (add_active d q) = q_list q" "q_per_user (add_active d q) = q_per_user q" "q_redis (add_active d q) = q_redis q"
  "q_max_size (add_active d q) = q_max_size q" "q_max_per_user (add_active d q) = q_max_per_user q"
  "q_closed (add_active d q) = q_closed q" "q_active (add_active d q) = q_active q + d"
  "q_enqueued (add_active d q) = q_enqueued q" "q_processed (add_active d q) = q_processed q"
  "q_timeouts (add_active d q) = q_timeouts q"
  by (simp_all add: add_active_def)

lemma release_gate_fields [simp]:
  "q_list (release_global_gate ops q) = q_list q" "q_per_user (release_global_gate ops q) = q_per_user q"
  "q_max_size (release_global_gate ops q) = q_max_size q" "q_max_per_user (release_global_gate ops q) = q_max_per_user q"
  "q_closed (release_global_gate ops q) = q_closed q" "q_active (release_global_gate ops q) = q_active q"
  "q_enqueued (release_global_gate ops q) = q_enqueued q" "q_processed (release_global_gate ops q) = q_processed q"
  "q_timeouts (release_global_gate ops q) = q_timeouts q"
  "q_redis (release_global_gate ops q) = None \<longleftrightarrow> q_redis q = None"
  using same_queue_gate(2) [of q ops] by (simp_all add: same_queue_def)

lemma worker_step_fields [simp]:
  "sy_workers (expire i req c s) = (sy_workers s)[i := Giving_Back req c]" "sy_entering (expire i req c s) = sy_entering s"
  "sy_seen (expire i req c s) = sy_seen s" "sy_log (expire i req c s) = (qa_id req, Expired) # sy_log s"
  "sy_wake_all (expire i req c s) = sy_wake_all s"
  "sy_queue (expire i req c s) = (sy_queue s)\<lparr>q_timeouts := q_timeouts (sy_queue s) + 1\<rparr>"
  "sy_workers (give_back ops i req c s) = (sy_workers s)[i := if c then Cancelling req else Checking]"
  "sy_entering (give_back ops i req c s) = sy_entering s"
  "sy_seen (give_back ops i req c s) = sy_seen s" "sy_log (give_back ops i req c s) = sy_log s"
  "sy_wake_all (give_back ops i req c s) = sy_wake_all s"
  "sy_queue (give_back ops i req c s) = redis_decr_user ops (qa_user req) (sy_queue s)"
  "sy_workers (start_handler i req s) = (sy_workers s)[i := Running req]"
  "sy_entering (start_handler i req s) = sy_entering s"
  "sy_seen (start_handler i req s) = sy_seen s" "sy_log (start_handler i req s) = sy_log s"
  "sy_wake_all (start_handler i req s) = sy_wake_all s"
  "sy_queue (start_handler i req s) = add_active 1 (sy_queue s)"
  "sy_workers (finish_handler i req s) = (sy_workers s)[i := Finishing req]"
  "sy_entering (finish_handler i req s) = sy_entering s"
  "sy_seen (finish_handler i req s) = sy_seen s" "sy_log (finish_handler i req s) = sy_log s"
  "sy_wake_all (finish_handler i req s) = sy_wake_all s"
  "sy_queue (finish_handler i req s) = add_active (-1) (sy_queue s)"
  "sy_workers (count_processed i req s) = (sy_workers s)[i := Releasing req]"
  "sy_entering (count_processed i req s) = sy_entering s"
  "sy_seen (count_processed i req s) = sy_seen s" "sy_log (count_processed i req s) = (qa_id req, Processed) # sy_log s"
  "sy_wake_all (count_processed i req s) = sy_wake_all s"
  "sy_queue (count_processed i req s) = (sy_queue s)\<lparr>q_processed := q_processed (sy_queue s) + 1\<rparr>"
  "sy_workers (leave_gate ops i req s) = (sy_workers s)[i := Giving_Back req False]"
  "sy_entering (leave_gate ops i req s) = sy_entering s"
  "sy_seen (leave_gate ops i req s) = sy_seen s" "sy_log (leave_gate ops i req s) = sy_log s"
  "sy_wake_all (leave_gate ops i req s) = sy_wake_all s"
  "sy_queue (leave_gate ops i req s) = release_global_gate ops (sy_queue s)"
  by (simp_all add: expire_def give_back_def start_handler_def finish_handler_def count_processed_def leave_gate_def Let_def)

lemma qa_step_counted: "qa_step ops s s' \<Longrightarrow> counted_queue (sy_queue s) \<Longrightarrow> counted_queue (sy_queue s')"
proof (induction rule: qa_step.induct)
  case (qa_submit req s)
  obtain err q where e: "enqueue_check ops req (sy_queue s) = (err, q)" by fastforce
  from same_queue_counted [OF same_queue_check qa_submit.prems, of ops req] show ?case
    by (auto simp: submit_def e Let_def split: option.split)
next
  case (qa_enter req s woken)
  then show ?case using counted_enqueue [OF qa_enter.prems, of ops "sy_clock s" req]
    by (auto simp: enter_def Let_def split: sum.split prod.split)
next
  case (qa_remove s u)
  then show ?case using remove_request_counted [OF qa_remove.prems, of ops u]
    by (auto simp: remove_for_def split: option.split prod.split)
next
  case (qa_check i s)
  then show ?case using take_request_counted [OF qa_check.prems]
    by (auto simp: check_queue_def Let_def split: prod.split)
next
  case (qa_gate i s req)
  obtain res q where g: "try_global_gate ops (sy_queue s) = (res, q)" by fastforce
  from same_queue_counted [OF same_queue_gate(1) qa_gate.prems, of ops] have "counted_queue q" by (simp add: g)
  then show ?case by (auto simp: try_gate_def g intro: counted_queue_cong)
qed (auto simp: stop_queue_def check_request_def intro: counted_queue_cong)

section \<open>Every request in one place\<close>

fun held :: "worker \<Rightarrow> qa_request list" where
  "held (Taken req) = [req]"
| "held (At_Gate req) = [req]"
| "held (Gate_Waiting req) = [req]"
| "held (Admitted req) = [req]"
| "held (Running req) = [req]"
| "held (Finishing req) = [req]"
| "held w = []"

definition held_ids :: "worker list \<Rightarrow> nat multiset" where
  "held_ids ws = mset (concat (map (\<lambda>w. map qa_id (held w)) ws))"

definition places :: "'r qa_system \<Rightarrow> nat multiset" where
  "places s = mset (map qa_id (sy_entering s)) + mset (map qa_id (q_list (sy_queue s))) + held_ids (sy_workers s) +
     mset (map fst (sy_log s))"

definition placed :: "'r qa_system \<Rightarrow> bool" where
  "placed s \<longleftrightarrow> finite (sy_seen s) \<and> places s = mset_set (sy_seen s)"

definition workers_at :: "(worker \<Rightarrow> bool) \<Rightarrow> worker list \<Rightarrow> nat" where
  "workers_at P ws = length (filter P ws)"

lemma held_ids_update:
  "i < length ws \<Longrightarrow> held_ids (ws[i := w]) + mset (map qa_id (held (ws ! i))) = held_ids ws + mset (map qa_id (held w))"
  unfolding held_ids_def
proof (induction ws arbitrary: i)
  case (Cons v ws)
  then show ?case by (cases i) (auto simp: ac_simps)
qed simp

lemma workers_at_update:
  "i < length ws \<Longrightarrow>
     workers_at P (ws[i := w]) + (if P (ws ! i) then 1 else 0) = workers_at P ws + (if P w then 1 else 0)"
  unfolding workers_at_def
proof (induction ws arbitrary: i)
  case (Cons v ws)
  then show ?case by (cases i) auto
qed simp

text \<open>A worker that takes, keeps or gives up a request, in terms of the multiset of held requests.\<close>

lemma held_moves:
  assumes "i < length ws"
  shows "held (ws ! i) = [] \<Longrightarrow> held w = [] \<Longrightarrow> held_ids (ws[i := w]) = held_ids ws"
    "held (ws ! i) = [] \<Longrightarrow> held w = [req] \<Longrightarrow> held_ids (ws[i := w]) = add_mset (qa_id req) (held_ids ws)"
    "held (ws ! i) = [req] \<Longrightarrow> held w = [req] \<Longrightarrow> held_ids (ws[i := w]) = held_ids ws"
    "held (ws ! i) = [req] \<Longrightarrow> held w = [] \<Longrightarrow> add_mset (qa_id req) (held_ids (ws[i := w])) = held_ids ws"
  using held_ids_update [OF assms, of w] by auto

lemma signalled_cases:
  "signalled ws woken \<Longrightarrow>
     (Asleep \<notin> set ws \<and> woken = ws) \<or> (\<exists>i < length ws. ws ! i = Asleep \<and> woken = ws[i := Checking])"
  by (auto simp: signalled_def split: if_splits)

lemma held_signalled: "signalled ws woken \<Longrightarrow> held_ids woken = held_ids ws"
  by (auto dest!: signalled_cases simp: held_moves(1))

lemma held_wake_all: "held_ids (wake_all ws) = held_ids ws"
proof -
  have "held (if w = Asleep then Checking else w) = held w" for w by simp
  then show ?thesis by (simp add: held_ids_def wake_all_def comp_def)
qed

lemma remove1_ids:
  "req \<in> set reqs \<Longrightarrow> mset (map qa_id reqs) = add_mset (qa_id req) (mset (map qa_id (remove1 req reqs)))"
  by (induction reqs) auto

lemma enqueue_locked_list:
  "q_list (snd (enqueue_locked ops now req q)) =
     (case fst (enqueue_locked ops now req q) of Inl _ \<Rightarrow> q_list q | Inr _ \<Rightarrow> q_list q @ [req\<lparr>qa_enqueued_at := now\<rparr>])"
  by (simp add: enqueue_locked_def Let_def)

lemma same_queue_list: "same_queue q q' \<Longrightarrow> q_list q' = q_list q"
  by (simp add: same_queue_def)

lemma places_expire:
  "i < length (sy_workers s) \<Longrightarrow> held (sy_workers s ! i) = [req] \<Longrightarrow> places (expire i req c s) = places s"
  using held_moves(4) [of i "sy_workers s" req "Giving_Back req c"] by (auto simp: places_def)

lemma places_processed:
  "i < length (sy_workers s) \<Longrightarrow> held (sy_workers s ! i) = [req] \<Longrightarrow> places (count_processed i req s) = places s"
  using held_moves(4) [of i "sy_workers s" req "Releasing req"] by (auto simp: places_def)

lemma qa_step_places:
  assumes "qa_step ops s s'"
  shows "(places s' = places s \<and> sy_seen s' = sy_seen s) \<or>
    (\<exists>x. x \<notin> sy_seen s \<and> places s' = add_mset x (places s) \<and> sy_seen s' = insert x (sy_seen s))"
  using assms
proof (induction rule: qa_step.induct)
  case (qa_submit req s)
  obtain err q where e: "enqueue_check ops req (sy_queue s) = (err, q)" by fastforce
  have "q_list q = q_list (sy_queue s)" using same_queue_list [OF same_queue_check, of ops req "sy_queue s"] by (simp add: e)
  with qa_submit show ?case by (auto simp: submit_def e Let_def places_def split: option.split intro!: exI [of _ "qa_id req"])
next
  case (qa_enter req s woken)
  obtain res q where e: "enqueue_locked ops (sy_clock s) req (sy_queue s) = (res, q)" by fastforce
  note l = enqueue_locked_list [of ops "sy_clock s" req "sy_queue s", unfolded e]
  show ?case using remove1_ids [OF qa_enter(1)] held_signalled [OF qa_enter(2)] l
    by (auto simp: enter_def e Let_def places_def split: sum.split)
next
  case (qa_remove s u)
  show ?case
  proof (cases "split_first (\<lambda>req. qa_user req = u) (q_list (sy_queue s))")
    case (Some z)
    then obtain before req after where z: "z = (before, req, after)" by (cases z)
    with split_first_Some [OF Some [unfolded z]] Some show ?thesis
      by (auto simp: remove_for_def remove_request_def places_def)
  qed (simp add: remove_for_def remove_request_def)
next
  case (qa_check i s)
  then show ?case
  proof (cases "q_list (sy_queue s)")
    case (Cons req reqs)
    have "held_ids ((sy_workers s)[i := Taken req]) = add_mset (qa_id req) (held_ids (sy_workers s))"
      by (rule held_moves(2)) (use qa_check in simp_all)
    with Cons show ?thesis by (auto simp: check_queue_def take_request_def places_def)
  qed (auto simp: check_queue_def places_def held_moves(1))
next
  case (qa_request i s req)
  then show ?case
    using places_expire [of i s req] by (auto simp: check_request_def) (auto simp: places_def held_moves(3))
next
  case (qa_gate i s req)
  obtain res q where g: "try_global_gate ops (sy_queue s) = (res, q)" by fastforce
  have "q_list q = q_list (sy_queue s)" using same_queue_list [OF same_queue_gate(1), of ops "sy_queue s"] by (simp add: g)
  with qa_gate show ?case by (auto simp: try_gate_def g places_def held_moves(3) split: gate_result.split)
next
  case (qa_count i s req)
  then show ?case using places_processed [of i s req] by auto
next
  case (qa_give_up i s req)
  then show ?case using places_expire [of i s req] by auto
qed (auto simp: places_def held_wake_all stop_queue_def held_moves(1,3))

lemma qa_step_placed: "qa_step ops s s' \<Longrightarrow> placed s \<Longrightarrow> placed s'"
  using qa_step_places [of ops s s'] by (auto simp: placed_def)

section \<open>Metrics and wake-ups\<close>

fun is_running :: "worker \<Rightarrow> bool" where
  "is_running (Running req) \<longleftrightarrow> True"
| "is_running w \<longleftrightarrow> False"

definition logged :: "outcome \<Rightarrow> 'r qa_system \<Rightarrow> int" where
  "logged res s = int (length (filter (\<lambda>(x, r). r = res) (sy_log s)))"

definition metered :: "'r qa_system \<Rightarrow> bool" where
  "metered s \<longleftrightarrow>
     q_active (sy_queue s) = int (workers_at is_running (sy_workers s)) \<and>
     q_processed (sy_queue s) = logged Processed s \<and> q_timeouts (sy_queue s) = logged Expired s \<and>
     q_enqueued (sy_queue s) = int (length (q_list (sy_queue s))) + int (size (held_ids (sy_workers s))) +
       logged Processed s + logged Expired s + logged Removed s"

text \<open>
  While a worker sleeps there are as many awake at the condition as requests wait; after the
  broadcast of \<^verbatim>\<open>Stop\<close> none sleeps; one that has returned left an empty, closed queue behind.
\<close>

definition wakeful :: "'r qa_system \<Rightarrow> bool" where
  "wakeful s \<longleftrightarrow>
     (Asleep \<in> set (sy_workers s) \<longrightarrow> length (q_list (sy_queue s)) \<le> workers_at ((=) Checking) (sy_workers s)) \<and>
     (q_closed (sy_queue s) \<longrightarrow> sy_wake_all s \<or> Asleep \<notin> set (sy_workers s)) \<and>
     (Exited \<in> set (sy_workers s) \<longrightarrow> q_closed (sy_queue s) \<and> q_list (sy_queue s) = []) \<and>
     (sy_wake_all s \<longrightarrow> q_closed (sy_queue s))"

lemma logged_finish [simp]:
  "logged res (finish_request req r s) = logged res s + (if r = res then 1 else 0)"
  "logged res (set_worker i w s) = logged res s"
  "logged res (expire i req c s) = logged res s + (if Expired = res then 1 else 0)"
  "logged res (count_processed i req s) = logged res s + (if Processed = res then 1 else 0)"
  by (simp_all add: logged_def)

lemma workers_at_moves:
  assumes "i < length ws"
  shows "P (ws ! i) = P w \<Longrightarrow> workers_at P (ws[i := w]) = workers_at P ws"
    "\<not> P (ws ! i) \<Longrightarrow> P w \<Longrightarrow> workers_at P (ws[i := w]) = Suc (workers_at P ws)"
    "P (ws ! i) \<Longrightarrow> \<not> P w \<Longrightarrow> Suc (workers_at P (ws[i := w])) = workers_at P ws"
  using workers_at_update [OF assms, of P w] by (auto split: if_splits)

lemma in_update: "x \<in> set (ws[i := w]) \<Longrightarrow> x \<noteq> w \<Longrightarrow> x \<in> set ws"
  using set_update_subset_insert [of ws i w] by auto

lemma logged_same: "sy_log s' = sy_log s \<Longrightarrow> logged res s' = logged res s"
  by (simp add: logged_def)

lemma signalled_running: "signalled ws woken \<Longrightarrow> workers_at is_running woken = workers_at is_running ws"
  by (auto dest!: signalled_cases simp: workers_at_moves(1))

lemma wake_all_running: "workers_at is_running (wake_all ws) = workers_at is_running ws"
  by (induction ws) (auto simp: workers_at_def wake_all_def)

lemma enqueue_locked_meters:
  "q_active (snd (enqueue_locked ops now req q)) = q_active q"
  "q_processed (snd (enqueue_locked ops now req q)) = q_processed q"
  "q_timeouts (snd (enqueue_locked ops now req q)) = q_timeouts q"
  "q_closed (snd (enqueue_locked ops now req q)) = q_closed q"
  "q_enqueued (snd (enqueue_locked ops now req q)) =
     (case fst (enqueue_locked ops now req q) of Inl _ \<Rightarrow> q_enqueued q | Inr _ \<Rightarrow> q_enqueued q + 1)"
  "q_closed q \<Longrightarrow> fst (enqueue_locked ops now req q) = Inl Queue_Closed"
  by (simp_all add: enqueue_locked_def Let_def)

lemma held_size:
  assumes "i < length ws" "held (ws ! i) = [req]" "held w = []"
  shows "size (held_ids ws) = Suc (size (held_ids (ws[i := w])))"
  using held_moves(4) [OF assms] by (metis size_add_mset)

lemma metered_expire:
  assumes "i < length (sy_workers s)" "held (sy_workers s ! i) = [req]" "\<not> is_running (sy_workers s ! i)" "metered s"
  shows "metered (expire i req c s)"
  using assms held_size [OF assms(1,2), of "Giving_Back req c"] by (simp add: metered_def workers_at_moves(1))

lemma qa_step_metered: "qa_step ops s s' \<Longrightarrow> metered s \<Longrightarrow> metered s'"
proof (induction rule: qa_step.induct)
  case (qa_submit req s)
  obtain err q where e: "enqueue_check ops req (sy_queue s) = (err, q)" by fastforce
  have "same_queue (sy_queue s) q" using same_queue_check [of "sy_queue s" ops req] by (simp add: e)
  with qa_submit show ?case
    by (auto simp: submit_def e Let_def metered_def same_queue_def logged_def finish_request_def split: option.split)
next
  case (qa_enter req s woken)
  obtain res q where e: "enqueue_locked ops (sy_clock s) req (sy_queue s) = (res, q)" by fastforce
  note l = enqueue_locked_list [of ops "sy_clock s" req "sy_queue s", unfolded e]
    enqueue_locked_meters [where ops = ops and now = "sy_clock s" and req = req and q = "sy_queue s", unfolded e]
  show ?case using qa_enter(3) held_signalled [OF qa_enter(2)] signalled_running [OF qa_enter(2)] l
    by (auto simp: enter_def e Let_def metered_def logged_def finish_request_def split: sum.split)
next
  case (qa_remove s u)
  show ?case
  proof (cases "split_first (\<lambda>req. qa_user req = u) (q_list (sy_queue s))")
    case (Some z)
    then obtain before req after where z: "z = (before, req, after)" by (cases z)
    with split_first_Some [OF Some [unfolded z]] Some qa_remove show ?thesis
      by (auto simp: remove_for_def remove_request_def metered_def logged_def finish_request_def)
  qed (simp add: remove_for_def remove_request_def qa_remove)
next
  case (qa_check i s)
  then show ?case
  proof (cases "q_list (sy_queue s)")
    case (Cons req reqs)
    have "held_ids ((sy_workers s)[i := Taken req]) = add_mset (qa_id req) (held_ids (sy_workers s))"
      by (rule held_moves(2)) (use qa_check in simp_all)
    with Cons qa_check show ?thesis
      by (auto simp: check_queue_def take_request_def metered_def workers_at_moves(1) logged_def set_worker_def)
  qed (auto simp: check_queue_def metered_def held_moves(1) workers_at_moves(1))
next
  case (qa_request i s req)
  then have "metered (expire i req c s)" for c by (intro metered_expire) simp_all
  moreover have "metered (set_worker i (At_Gate req) s)"
    using qa_request by (auto simp: metered_def held_moves(3) workers_at_moves(1))
  ultimately show ?case by (simp add: check_request_def)
next
  case (qa_gate i s req)
  obtain res q where g: "try_global_gate ops (sy_queue s) = (res, q)" by fastforce
  have "same_queue (sy_queue s) q" using same_queue_gate(1) [of "sy_queue s" ops] by (simp add: g)
  with qa_gate show ?case
    by (cases res) (auto simp: try_gate_def g metered_def same_queue_def held_moves(3) workers_at_moves(1) logged_def)
next
  case (qa_start i s req)
  then show ?case by (auto simp: metered_def held_moves(3) workers_at_moves(2) logged_def)
next
  case (qa_finish i s req)
  then have "workers_at is_running (sy_workers s) = Suc (workers_at is_running ((sy_workers s)[i := Finishing req]))"
    using workers_at_moves(3) [of i "sy_workers s" is_running "Finishing req"] by simp
  with qa_finish show ?case by (auto simp: metered_def held_moves(3) logged_def)
next
  case (qa_count i s req)
  with held_size [of i "sy_workers s" req "Releasing req"] show ?case
    by (simp add: metered_def workers_at_moves(1))
next
  case (qa_leave i s req)
  then show ?case by (simp add: metered_def workers_at_moves(1) held_moves(1) logged_def)
next
  case (qa_give_back i s req c)
  then show ?case by (simp add: metered_def workers_at_moves(1) held_moves(1) logged_def)
next
  case (qa_done i s req)
  then show ?case by (simp add: metered_def workers_at_moves(1) held_moves(1) logged_def)
next
  case (qa_give_up i s req)
  then show ?case by (intro metered_expire) simp_all
qed (auto simp: metered_def held_wake_all wake_all_running stop_queue_def held_moves(3) workers_at_moves(1) logged_def)

text \<open>A worker that moves between two points other than sleep and exit only adds to those that check.\<close>

lemma wakeful_move:
  assumes "wakeful s" "i < length (sy_workers s)" "sy_workers s ! i \<noteq> Checking" "w \<noteq> Asleep" "w \<noteq> Exited"
    "sy_workers s' = (sy_workers s)[i := w]" "q_list (sy_queue s') = q_list (sy_queue s)"
    "q_closed (sy_queue s') = q_closed (sy_queue s)" "sy_wake_all s' = sy_wake_all s"
  shows "wakeful s'"
proof -
  have "workers_at ((=) Checking) (sy_workers s) \<le> workers_at ((=) Checking) (sy_workers s')"
    using workers_at_update [OF assms(2), of "(=) Checking" w] assms(3,6) by (auto split: if_splits)
  with assms in_update [of Asleep "sy_workers s" i w] in_update [of Exited "sy_workers s" i w] show ?thesis
    by (auto simp: wakeful_def)
qed

lemma wakeful_queue:
  assumes "wakeful s" "sy_workers s' = sy_workers s" "length (q_list (sy_queue s')) \<le> length (q_list (sy_queue s))"
    "q_closed (sy_queue s') = q_closed (sy_queue s)" "sy_wake_all s' = sy_wake_all s"
  shows "wakeful s'"
  using assms by (auto simp: wakeful_def)

lemma wakeful_enter:
  assumes "wakeful s" "signalled (sy_workers s) woken"
  shows "wakeful (enter ops req woken s)"
proof -
  obtain res q where e: "enqueue_locked ops (sy_clock s) req (sy_queue s) = (res, q)" by fastforce
  note l = enqueue_locked_list [of ops "sy_clock s" req "sy_queue s", unfolded e snd_conv fst_conv]
    enqueue_locked_meters [where ops = ops and now = "sy_clock s" and req = req and q = "sy_queue s", unfolded e snd_conv fst_conv]
  show ?thesis
  proof (cases res)
    case (Inl err)
    then show ?thesis using assms(1) l by (intro wakeful_queue [OF assms(1)]) (simp_all add: enter_def e Let_def)
  next
    case (Inr pos)
    have open_q: "\<not> q_closed (sy_queue s)" using l Inr by auto
    then have "Exited \<notin> set (sy_workers s)" "\<not> sy_wake_all s" using assms(1) by (auto simp: wakeful_def)
    moreover have "Asleep \<in> set woken \<Longrightarrow> Suc (length (q_list (sy_queue s))) \<le> workers_at ((=) Checking) woken"
    proof -
      assume a: "Asleep \<in> set woken"
      from signalled_cases [OF assms(2)] a obtain i where
        "i < length (sy_workers s)" "sy_workers s ! i = Asleep" "woken = (sy_workers s)[i := Checking]" by blast
      moreover from this a have "Asleep \<in> set (sy_workers s)" by (metis nth_mem)
      ultimately show ?thesis using assms(1) by (auto simp: wakeful_def workers_at_moves(2))
    qed
    moreover have "Exited \<in> set woken \<Longrightarrow> Exited \<in> set (sy_workers s)"
      using signalled_cases [OF assms(2)] in_update by fastforce
    ultimately show ?thesis using Inr l open_q by (auto simp: enter_def e Let_def wakeful_def)
  qed
qed

lemma wakeful_check:
  assumes "wakeful s" "i < length (sy_workers s)" "sy_workers s ! i = Checking"
  shows "wakeful (check_queue i s)"
proof (cases "q_list (sy_queue s)")
  case Nil
  then show ?thesis using assms in_update [of Asleep "sy_workers s" i Exited] in_update [of Exited "sy_workers s" i Asleep]
    by (auto simp: check_queue_def wakeful_def)
next
  case (Cons req reqs)
  have "Suc (workers_at ((=) Checking) ((sy_workers s)[i := Taken req])) = workers_at ((=) Checking) (sy_workers s)"
    by (rule workers_at_moves(3) [OF assms(2)]) (use assms(3) in simp_all)
  with Cons assms in_update [of Asleep "sy_workers s" i "Taken req"] in_update [of Exited "sy_workers s" i "Taken req"]
  show ?thesis by (auto simp: check_queue_def take_request_def wakeful_def)
qed

lemma qa_step_wakeful: "qa_step ops s s' \<Longrightarrow> wakeful s \<Longrightarrow> wakeful s'"
proof (induction rule: qa_step.induct)
  case (qa_submit req s)
  obtain err q where e: "enqueue_check ops req (sy_queue s) = (err, q)" by fastforce
  have "same_queue (sy_queue s) q" using same_queue_check [of "sy_queue s" ops req] by (simp add: e)
  with qa_submit(2) show ?case
    by (intro wakeful_queue [OF qa_submit(2)]) (auto simp: submit_def e Let_def same_queue_def split: option.split)
next
  case (qa_remove s u)
  show ?case
  proof (cases "split_first (\<lambda>req. qa_user req = u) (q_list (sy_queue s))")
    case (Some z)
    then obtain before req after where z: "z = (before, req, after)" by (cases z)
    with split_first_Some [OF Some [unfolded z]] Some show ?thesis
      by (intro wakeful_queue [OF qa_remove]) (simp_all add: remove_for_def remove_request_def)
  qed (simp add: remove_for_def remove_request_def qa_remove)
next
  case (qa_gate i s req)
  obtain res q where g: "try_global_gate ops (sy_queue s) = (res, q)" by fastforce
  have "same_queue (sy_queue s) q" using same_queue_gate(1) [of "sy_queue s" ops] by (simp add: g)
  with qa_gate show ?case
    by (intro wakeful_move [OF qa_gate(3,1), where w = "case res of Gate_Passed \<Rightarrow> Admitted req | Gate_Full \<Rightarrow> Gate_Waiting req"])
      (auto simp: try_gate_def g same_queue_def split: gate_result.split)
next
  case (qa_start i s req)
  then show ?case by (intro wakeful_move [OF qa_start(3,1), where w = "Running req"]) simp_all
next
  case (qa_finish i s req)
  then show ?case by (intro wakeful_move [OF qa_finish(3,1), where w = "Finishing req"]) simp_all
next
  case (qa_count i s req)
  then show ?case by (intro wakeful_move [OF qa_count(3,1), where w = "Releasing req"]) simp_all
next
  case (qa_leave i s req)
  then show ?case by (intro wakeful_move [OF qa_leave(3,1), where w = "Giving_Back req False"]) simp_all
next
  case (qa_give_back i s req c)
  then show ?case
    by (intro wakeful_move [OF qa_give_back(3,1), where w = "if c then Cancelling req else Checking"]) simp_all
next
  case (qa_done i s req)
  then show ?case by (intro wakeful_move [OF qa_done(3,1), where w = Checking]) simp_all
next
  case (qa_request i s req)
  have "wakeful (expire i req c s)" for c
    by (rule wakeful_move [OF qa_request(3,1), where w = "Giving_Back req c"]) (use qa_request in simp_all)
  moreover have "wakeful (set_worker i (At_Gate req) s)"
    by (rule wakeful_move [OF qa_request(3,1), where w = "At_Gate req"]) (use qa_request in simp_all)
  ultimately show ?case by (simp add: check_request_def)
next
  case (qa_retry i s req)
  then show ?case by (intro wakeful_move [OF qa_retry(3,1), where w = "At_Gate req"]) simp_all
next
  case (qa_give_up i s req)
  then show ?case by (intro wakeful_move [OF qa_give_up(4,1), where w = "Giving_Back req True"]) simp_all
next
  case (qa_broadcast s)
  then show ?case by (auto simp: wakeful_def wake_all_def split: if_splits)
next
  case (qa_stop s)
  then show ?case by (auto simp: wakeful_def stop_queue_def)
qed (auto intro: wakeful_enter wakeful_check wakeful_queue)

lemma qa_reach_inv:
  assumes "qa_reach ops n (new_qa_queue max_size max_per_user global_max redis) s"
  shows "counted_queue (sy_queue s)" "placed s" "metered s" "wakeful s"
proof -
  have i: "workers_at P (replicate n Checking) = (if P Checking then n else 0)" for P by (simp add: workers_at_def)
  have h: "held_ids (replicate n Checking) = {#}" by (induction n) (simp_all add: held_ids_def)
  let ?s0 = "start_system n (new_qa_queue max_size max_per_user global_max redis)"
  have "counted_queue (sy_queue ?s0)" "placed ?s0" "metered ?s0" "wakeful ?s0"
    by (auto simp: start_system_def new_qa_queue_def counted_queue_def placed_def places_def metered_def wakeful_def logged_def i h)
  with assms show "counted_queue (sy_queue s)" "placed s" "metered s" "wakeful s"
    by (induction rule: qa_reach.induct)
      (simp_all add: qa_step_counted qa_step_placed qa_step_metered qa_step_wakeful)
qed

lemma enqueue_locked_config:
  "q_max_size (snd (enqueue_locked ops now req q)) = q_max_size q"
  "q_max_per_user (snd (enqueue_locked ops now req q)) = q_max_per_user q"
  "q_redis (snd (enqueue_locked ops now req q)) = None \<longleftrightarrow> q_redis q = None"
  by (simp_all add: enqueue_locked_def Let_def)

definition config :: "'r qa_queue \<Rightarrow> int \<times> int \<times> bool" where
  "config q = (q_max_size q, q_max_per_user q, q_redis q = None)"

lemma same_queue_config: "same_queue q q' \<Longrightarrow> config q' = config q"
  by (simp add: same_queue_def config_def)

lemma qa_step_config: "qa_step ops s s' \<Longrightarrow> config (sy_queue s') = config (sy_queue s)"
proof (induction rule: qa_step.induct)
  case (qa_submit req s)
  obtain err q where e: "enqueue_check ops req (sy_queue s) = (err, q)" by fastforce
  from same_queue_config [OF same_queue_check, of ops req "sy_queue s"] show ?case
    by (simp add: submit_def e Let_def split: option.split)
next
  case (qa_enter req s woken)
  show ?case using enqueue_locked_config [of ops "sy_clock s" req "sy_queue s"]
    by (auto simp: enter_def Let_def config_def split: sum.split prod.split)
next
  case (qa_remove s u)
  show ?case by (auto simp: remove_for_def remove_request_def config_def split: option.split)
next
  case (qa_check i s)
  show ?case by (simp add: check_queue_def take_request_def Let_def config_def)
next
  case (qa_gate i s req)
  obtain res q where g: "try_global_gate ops (sy_queue s) = (res, q)" by fastforce
  from same_queue_config [OF same_queue_gate(1), of ops "sy_queue s"] show ?case
    by (simp add: try_gate_def g config_def)
qed (auto simp: config_def stop_queue_def check_request_def)

lemma qa_reach_config: "qa_reach ops n q0 s \<Longrightarrow> config (sy_queue s) = config q0"
  by (induction rule: qa_reach.induct) (simp_all add: qa_step_config start_system_def)

section \<open>When redis fails\<close>

text \<open>
  A failed increment admits the request without a local check, whatever the user has queued, and a
  failed try of the gate admits a worker whose release still decrements the shared counter.
\<close>

lemma redis_failure_lifts_user_limit:
  assumes "q_redis q = Some r" "rd_call ops (rd_incr ops (queue_user_key (qa_user req))) r = (Inl e, r')"
    "\<not> q_closed q" "int (length (q_list q)) < q_max_size q"
  shows "fst (enqueue_check ops req q) = None \<and>
    fst (enqueue_locked ops now req (snd (enqueue_check ops req q))) = Inr (length (q_list q))"
  using assms by (simp add: enqueue_check_def redis_check_and_incr_user_def enqueue_locked_def Let_def)

lemma redis_failure_frees_a_slot:
  assumes "q_redis q = Some r" "0 < q_global_max q" "rd_call ops (global_gate_script ops (q_global_max q)) r = (Inl e, r)"
  shows "fst (try_global_gate ops q) = Gate_Passed \<and>
    q_redis (release_global_gate ops (snd (try_global_gate ops q))) = Some (snd (rd_call ops (rd_decr ops global_gate_key) r))"
  using assms by (simp add: try_global_gate_def release_global_gate_def)

section \<open>A run\<close>

definition no_redis :: "unit redis_ops" where
  "no_redis = \<lparr>rd_incr = (\<lambda>_ r. (1, r)), rd_decr = (\<lambda>_ r. (0, r)), rd_call = (\<lambda>f r. (Inr (fst (f r)), snd (f r)))\<rparr>"

definition sample_request :: "nat \<Rightarrow> qa_request" where
  "sample_request x = \<lparr>qa_id = x, qa_user = ''u'', qa_enqueued_at = 0\<rparr>"

definition sample_queue :: "unit qa_queue" where
  "sample_queue = new_qa_queue 2 3 0 None"

definition sample_system :: "unit qa_system" where
  "sample_system = (start_system 2 sample_queue)
     \<lparr>sy_queue := sample_queue\<lparr>q_list := [sample_request 2], q_per_user := [''u'' \<mapsto> 1], q_enqueued := 2\<rparr>,
      sy_workers := [Taken (sample_request 1), Checking], sy_seen := {1, 2}\<rparr>"

lemma sample_reached: "qa_reach no_redis 2 sample_queue sample_system"
proof -
  let ?r1 = "sample_request 1" and ?r2 = "sample_request 2"
  let ?s0 = "start_system 2 sample_queue"
  let ?s1 = "submit no_redis ?r1 ?s0"
  let ?s2 = "enter no_redis ?r1 [Checking, Checking] ?s1"
  let ?s3 = "check_queue 0 ?s2"
  let ?s4 = "check_queue 1 ?s3"
  let ?s5 = "submit no_redis ?r2 ?s4"
  let ?s6 = "enter no_redis ?r2 [Taken ?r1, Checking] ?s5"
  have two: "replicate 2 Checking = [Checking, Checking]" by (simp add: numeral_2_eq_2)
  note d = start_system_def two submit_def enqueue_check_def redis_check_and_incr_user_def enter_def enqueue_locked_def
    check_queue_def take_request_def count_user_def uncount_user_def user_count_def sample_queue_def new_qa_queue_def
    sample_request_def set_worker_def signalled_def Let_def
  have "qa_reach no_redis 2 sample_queue ?s0" by (rule qa_init)
  then have "qa_reach no_redis 2 sample_queue ?s1" by (rule qa_next, intro qa_submit) (simp add: d)
  then have "qa_reach no_redis 2 sample_queue ?s2" by (rule qa_next, intro qa_enter) (simp_all add: d)
  then have "qa_reach no_redis 2 sample_queue ?s3" by (rule qa_next, intro qa_check) (simp_all add: d)
  then have "qa_reach no_redis 2 sample_queue ?s4" by (rule qa_next, intro qa_check) (simp_all add: d)
  then have "qa_reach no_redis 2 sample_queue ?s5" by (rule qa_next, intro qa_submit) (simp add: d)
  then have "qa_reach no_redis 2 sample_queue ?s6"
    by (rule qa_next, intro qa_enter) (simp_all add: d, rule exI [of _ 1], simp)
  moreover have "?s6 = sample_system" by (simp add: d sample_system_def fun_eq_iff) auto
  ultimately show ?thesis by simp
qed

section \<open>Properties\<close>

text \<open>
  C21: The queue stays within its limits however submissions, removals, workers, cancellations and
  redis interleave: it never holds more than its maximum, and without redis the count kept
  for a user is the number of that user's queued requests and never above the limit per user.
\<close>

theorem queue_within_limits:
  assumes "qa_reach ops n (new_qa_queue max_size max_per_user global_max redis) s"
  shows "int (length (q_list (sy_queue s))) \<le> max 0 max_size \<and>
    (redis = None \<longrightarrow> (\<forall>u. user_count (sy_queue s) u = int (of_user u (q_list (sy_queue s))) \<and>
       int (of_user u (q_list (sy_queue s))) \<le> max 0 max_per_user))"
proof -
  have "config (sy_queue s) = (max_size, max_per_user, redis = None)"
    using qa_reach_config [OF assms] by (simp add: config_def new_qa_queue_def)
  with qa_reach_inv(1) [OF assms] show ?thesis
    by (auto simp: config_def counted_user_count) (auto simp: counted_queue_def)
qed

theorem queue_within_limits_witness:
  "user_count (sy_queue sample_system) ''u'' = 1 \<and> int (length (q_list (sy_queue sample_system))) \<le> 2"
  using queue_within_limits [OF sample_reached [unfolded sample_queue_def]]
  by (auto simp: sample_system_def sample_request_def)

text \<open>
  C19: Every request submitted is in exactly one place: on its way into the queue, queued, held by
  one worker, or done with one outcome. So no request is lost and none is executed twice, and every
  value \<^verbatim>\<open>Metrics\<close> reads is exact when it is read: active workers are those in the handler,
  and the requests ever enqueued are those queued, held, processed, expired or removed. The reads happen one
  after another, so \<open>at m\<close> is the system when the value \<open>m\<close> is read.
\<close>

theorem requests_in_one_place:
  assumes "qa_reach ops n (new_qa_queue max_size max_per_user global_max redis) s"
    and "\<forall>m. qa_reach ops n (new_qa_queue max_size max_per_user global_max redis) (at m)"
    and "r = metrics (\<lambda>m. sy_queue (at m))"
  shows "(\<forall>x. count (places s) x = (if x \<in> sy_seen s then 1 else 0)) \<and>
    qm_depth r = length (q_list (sy_queue (at M_Depth))) \<and>
    qm_active_workers r = int (workers_at is_running (sy_workers (at M_Active))) \<and>
    qm_total_processed r = logged Processed (at M_Processed) \<and>
    qm_total_timeout r = logged Expired (at M_Timeout) \<and>
    qm_total_enqueued r = int (length (q_list (sy_queue (at M_Enqueued)))) +
      int (size (held_ids (sy_workers (at M_Enqueued)))) + logged Processed (at M_Enqueued) +
      logged Expired (at M_Enqueued) + logged Removed (at M_Enqueued)"
  using qa_reach_inv(2) [OF assms(1)] qa_reach_inv(3) [OF assms(2) [rule_format]]
  by (auto simp: placed_def metered_def metrics_def count_mset_set' assms(3))

theorem requests_in_one_place_witness:
  "count (places sample_system) 1 = 1 \<and> count (places sample_system) 2 = 1 \<and> count (places sample_system) 3 = 0 \<and>
   qm_active_workers (metrics (\<lambda>_. sy_queue sample_system)) = 0"
  using requests_in_one_place [of no_redis 2 2 3 0 None sample_system "\<lambda>_. sample_system",
    OF _ _ refl] sample_reached [unfolded sample_queue_def]
  by (simp add: sample_system_def workers_at_def)

text \<open>
  C20: No wake-up is lost. While a worker sleeps at least as many workers are about to take a request
  as requests wait; once \<^verbatim>\<open>Stop\<close> has broadcast no worker sleeps; and a worker that has returned left
  a closed and empty queue, so shutting down leaves no accepted request behind.
\<close>

theorem no_request_stranded:
  assumes "qa_reach ops n (new_qa_queue max_size max_per_user global_max redis) s"
  shows "(Asleep \<in> set (sy_workers s) \<longrightarrow> length (q_list (sy_queue s)) \<le> workers_at ((=) Checking) (sy_workers s)) \<and>
    (q_closed (sy_queue s) \<longrightarrow> \<not> sy_wake_all s \<longrightarrow> Asleep \<notin> set (sy_workers s)) \<and>
    (Exited \<in> set (sy_workers s) \<longrightarrow> q_closed (sy_queue s) \<and> q_list (sy_queue s) = [])"
  using qa_reach_inv(4) [OF assms] by (auto simp: wakeful_def)

theorem no_request_stranded_witness:
  "Exited \<notin> set (sy_workers sample_system) \<and> q_list (sy_queue sample_system) \<noteq> []"
  using no_request_stranded [OF sample_reached [unfolded sample_queue_def], THEN conjunct2, THEN conjunct2]
  by (simp add: sample_system_def)

end
