(* ===== verification/Rate_Limit.thy ===== *)
theory Rate_Limit
  imports Prelude "HOL-Library.Finite_Map"
begin

text \<open>
  \<^verbatim>\<open>ratelimit/limiter.go\<close>: the sliding-window limiter of requests per key, with redis when it is
  there and an in-memory fallback. Times and durations are integers, in nanoseconds. Redis runs the script of the
  code; the operations the script calls on a sorted set are a parameter (\<open>zset_ops\<close>) and what the
  redis manual says of them is \<open>zset_laws\<close>.

  The lemmas show that the local limiter, used by one caller at a time, admits exactly the hits a
  full log of the window would admit, and two ways in which the budget is exceeded: hits of one
  instance in one millisecond are one member of the set, and a caller that finds its entry deleted
  by the cleanup also deletes the entry another caller has put in its place.
\<close>

section \<open>An entry\<close>

record local_entry =
  le_timestamps :: "int list"
  le_deleted :: bool

definition new_entry :: local_entry where
  "new_entry = \<lparr>le_timestamps = [], le_deleted = False\<rparr>"

text \<open>The section under the entry's mutex: \<open>None\<close> when the entry was deleted, else the verdict.\<close>

definition locked_allow :: "local_entry \<Rightarrow> int \<Rightarrow> int \<Rightarrow> int \<Rightarrow> bool option \<times> local_entry" where
  "locked_allow e window max_hits now =
     (if le_deleted e then (None, e)
      else let valid = filter (\<lambda>t. now - window < t) (le_timestamps e) in
        if max_hits \<le> int (length valid) then (Some False, e\<lparr>le_timestamps := valid\<rparr>)
        else (Some True, e\<lparr>le_timestamps := valid @ [now]\<rparr>))"

definition all_expired :: "local_entry \<Rightarrow> int \<Rightarrow> bool" where
  "all_expired e cutoff \<longleftrightarrow> list_all (\<lambda>t. t \<le> cutoff) (le_timestamps e)"

section \<open>One caller at a time\<close>

type_synonym local_limiter = "string \<rightharpoonup> local_entry"

definition load_or_store :: "local_limiter \<Rightarrow> string \<Rightarrow> local_entry" where
  "load_or_store l key = (case l key of None \<Rightarrow> new_entry | Some e \<Rightarrow> e)"

text \<open>The loop of \<^verbatim>\<open>allow\<close>; a deleted entry is taken out of the map and the loop starts over.\<close>

function allow_local :: "local_limiter \<Rightarrow> string \<Rightarrow> int \<Rightarrow> int \<Rightarrow> int \<Rightarrow> bool \<times> local_limiter" where
  "allow_local l key window max_hits now =
     (case locked_allow (load_or_store l key) window max_hits now of
        (None, _) \<Rightarrow> allow_local (l(key := None)) key window max_hits now
      | (Some ok, e) \<Rightarrow> (ok, l(key \<mapsto> e)))"
  by pat_completeness auto
termination
  by (relation "measure (\<lambda>(l, key, _). case l key of None \<Rightarrow> 0 | Some e \<Rightarrow> 1)")
    (auto simp: locked_allow_def load_or_store_def new_entry_def Let_def split: option.splits if_splits)

declare allow_local.simps [simp del]

definition clean_local :: "int \<Rightarrow> local_limiter \<Rightarrow> local_limiter" where
  "clean_local cutoff l = (\<lambda>key. case l key of None \<Rightarrow> None | Some e \<Rightarrow> if all_expired e cutoff then None else Some e)"

section \<open>The script\<close>

record 'z zset_ops =
  zremrange :: "int option \<Rightarrow> int \<Rightarrow> 'z \<Rightarrow> 'z"  \<comment> \<open>\<^verbatim>\<open>ZREMRANGEBYSCORE key min max\<close>, \<open>None\<close> for \<^verbatim>\<open>-inf\<close>\<close>
  zcard :: "'z \<Rightarrow> nat"
  zadd :: "int \<Rightarrow> string \<Rightarrow> 'z \<Rightarrow> 'z"
  pexpire :: "int \<Rightarrow> 'z \<Rightarrow> 'z"

definition at_least :: "int option \<Rightarrow> int \<Rightarrow> bool" where
  "at_least lo x \<longleftrightarrow> (case lo of None \<Rightarrow> True | Some l \<Rightarrow> l \<le> x)"

definition zset_laws :: "('z \<Rightarrow> string \<rightharpoonup> int) \<Rightarrow> ('z, 'm) zset_ops_scheme \<Rightarrow> bool" where
  "zset_laws scores ops \<longleftrightarrow>
     (\<forall>z. finite (dom (scores z)) \<and> zcard ops z = card (dom (scores z))) \<and>
     (\<forall>lo hi z m. scores (zremrange ops lo hi z) m =
        (case scores z m of None \<Rightarrow> None | Some x \<Rightarrow> if at_least lo x \<and> x \<le> hi then None else Some x)) \<and>
     (\<forall>x m z. scores (zadd ops x m z) = (scores z)(m \<mapsto> x)) \<and>
     (\<forall>ttl z. scores (pexpire ops ttl z) = scores z)"

definition rate_limit_script :: "'z zset_ops \<Rightarrow> int \<Rightarrow> int \<Rightarrow> int \<Rightarrow> string \<Rightarrow> 'z \<Rightarrow> int \<times> 'z" where
  "rate_limit_script ops now window max_req hit z =
     (let z = zremrange ops (Some 0) (now - window) z in
      if int (zcard ops z) < max_req then (1, pexpire ops (window + 1000) (zadd ops now hit z)) else (0, z))"

section \<open>The limiter\<close>

record limiter =
  rl_key_prefix :: string
  rl_window :: int
  rl_instance_id :: string

definition new_limiter :: "string \<Rightarrow> int \<Rightarrow> string \<Rightarrow> string \<Rightarrow> limiter" where
  "new_limiter prefix window instance_id uuid =
     \<lparr>rl_key_prefix = prefix, rl_window = (if window \<le> 0 then 60 * 1000000000 else window),
      rl_instance_id = (if instance_id = [] then uuid else instance_id)\<rparr>"

text \<open>The member of a hit: instance and millisecond. The time is past the epoch.\<close>

definition unix_milli :: "int \<Rightarrow> int" where
  "unix_milli t = t div 1000000"

definition hit_member :: "limiter \<Rightarrow> int \<Rightarrow> string" where
  "hit_member l now_ms = rl_instance_id l @ '':'' @ dec (nat now_ms)"

definition redis_allow :: "'z zset_ops \<Rightarrow> limiter \<Rightarrow> int \<Rightarrow> int \<Rightarrow> 'z \<Rightarrow> bool \<times> 'z" where
  "redis_allow ops l max_hits now z =
     (let now_ms = unix_milli now;
          (result, z) = rate_limit_script ops now_ms (unix_milli (rl_window l)) max_hits (hit_member l now_ms) z
      in (result = 1, z))"

text \<open>
  \<^verbatim>\<open>Allow\<close>: \<open>redis\<close> is the redis verdict when a client is configured and the script ran, \<open>None\<close> when
  there is no client or the call failed.
\<close>

definition allow :: "limiter \<Rightarrow> bool option \<Rightarrow> local_limiter \<Rightarrow> string \<Rightarrow> int \<Rightarrow> int \<Rightarrow> bool \<times> local_limiter" where
  "allow l redis loc key max_hits now =
     (if max_hits \<le> 0 then (True, loc)
      else case redis of Some ok \<Rightarrow> (ok, loc) | None \<Rightarrow> allow_local loc key (rl_window l) max_hits now)"

section \<open>The local limiter is a log of the window\<close>

datatype limiter_op = Hit string int int | Clean int  \<comment> \<open>key, budget and time; time of the cleanup\<close>

fun op_time :: "limiter_op \<Rightarrow> int" where
  "op_time (Hit key max_hits now) = now"
| "op_time (Clean now) = now"

fun run_local :: "int \<Rightarrow> limiter_op list \<Rightarrow> local_limiter \<Rightarrow> bool list" where
  "run_local window [] l = []"
| "run_local window (Hit key max_hits now # ops) l =
     (let (ok, l) = allow_local l key window max_hits now in ok # run_local window ops l)"
| "run_local window (Clean now # ops) l = run_local window ops (clean_local (now - window) l)"

text \<open>
  The reference: \<open>hits\<close> is the log of all admitted hits, never cleaned; a hit is admitted when the
  hits of its key less than a window old are fewer than its budget.
\<close>

definition recent :: "int \<Rightarrow> string \<Rightarrow> int \<Rightarrow> (string \<times> int) list \<Rightarrow> int list" where
  "recent window key now hits = map snd (filter (\<lambda>(k, t). k = key \<and> now - window < t) hits)"

fun run_log :: "int \<Rightarrow> limiter_op list \<Rightarrow> (string \<times> int) list \<Rightarrow> bool list" where
  "run_log window [] hits = []"
| "run_log window (Hit key max_hits now # ops) hits =
     (if int (length (recent window key now hits)) < max_hits then True # run_log window ops (hits @ [(key, now)])
      else False # run_log window ops hits)"
| "run_log window (Clean now # ops) hits = run_log window ops hits"

definition tracks :: "int \<Rightarrow> int \<Rightarrow> local_limiter \<Rightarrow> (string \<times> int) list \<Rightarrow> bool" where
  "tracks window now l hits \<longleftrightarrow>
     (\<forall>key. \<not> le_deleted (load_or_store l key) \<and>
        filter (\<lambda>t. now - window < t) (le_timestamps (load_or_store l key)) = recent window key now hits)"

lemma recent_later: "now \<le> now' \<Longrightarrow>
    recent window key now' hits = filter (\<lambda>t. now' - window < t) (recent window key now hits)"
  by (auto simp: recent_def filter_map intro!: arg_cong [where f = "map snd"] filter_cong)

lemma filter_later: "now \<le> (now'::int) \<Longrightarrow>
    filter (\<lambda>t. now' - w < t) xs = filter (\<lambda>t. now' - w < t) (filter (\<lambda>t. now - w < t) xs)"
  by (auto intro!: filter_cong)

lemma tracks_later: "tracks window now l hits \<Longrightarrow> now \<le> now' \<Longrightarrow> tracks window now' l hits"
  unfolding tracks_def by (metis filter_later recent_later)

lemma all_expired_filter: "all_expired e cutoff \<Longrightarrow> filter (\<lambda>t. cutoff < t) (le_timestamps e) = []"
  by (auto simp: all_expired_def list_all_iff filter_empty_conv)

lemma clean_local_entry:
  "le_deleted (load_or_store (clean_local cutoff l) key) \<Longrightarrow> le_deleted (load_or_store l key)"
  "filter (\<lambda>t. cutoff < t) (le_timestamps (load_or_store (clean_local cutoff l) key)) =
   filter (\<lambda>t. cutoff < t) (le_timestamps (load_or_store l key))"
  by (auto simp: load_or_store_def clean_local_def new_entry_def all_expired_filter split: option.splits if_splits)

lemma tracks_clean: "tracks window now l hits \<Longrightarrow> tracks window now (clean_local (now - window) l) hits"
  by (auto simp: tracks_def clean_local_entry(2) dest: clean_local_entry(1))

lemma tracks_allow:
  assumes "tracks window now l hits" "0 < window"
  shows "fst (allow_local l key window m now) = (int (length (recent window key now hits)) < m)"
    and "tracks window now (snd (allow_local l key window m now))
           (if int (length (recent window key now hits)) < m then hits @ [(key, now)] else hits)"
proof -
  let ?r = "recent window key now hits" and ?e = "load_or_store l key"
  from assms(1) have e: "\<not> le_deleted ?e" "filter (\<lambda>t. now - window < t) (le_timestamps ?e) = ?r"
    by (simp_all add: tracks_def)
  have a: "allow_local l key window m now =
      (int (length ?r) < m, l(key \<mapsto> ?e\<lparr>le_timestamps := if int (length ?r) < m then ?r @ [now] else ?r\<rparr>))"
    by (simp add: allow_local.simps [of l] locked_allow_def e Let_def)
  then show "fst (allow_local l key window m now) = (int (length ?r) < m)" by simp
  have "filter (\<lambda>t. now - window < t) ?r = ?r"
    using recent_later [of now now] by simp
  with assms e(1) show "tracks window now (snd (allow_local l key window m now))
      (if int (length ?r) < m then hits @ [(key, now)] else hits)"
    by (auto simp: a tracks_def load_or_store_def recent_def split: option.splits)
qed

lemma run_local_log:
  "tracks window now l hits \<Longrightarrow> 0 < window \<Longrightarrow> sorted (now # map op_time ops) \<Longrightarrow>
     run_local window ops l = run_log window ops hits"
proof (induction window ops l arbitrary: now hits rule: run_local.induct)
  case (2 window key m t ops l)
  have t: "tracks window t l hits" using 2(2,4) by (auto intro: tracks_later)
  note a = tracks_allow [OF t 2(3), where key = key and m = m]
  obtain ok l' where r: "allow_local l key window m t = (ok, l')" by fastforce
  have "sorted (t # map op_time ops)" using 2(4) by simp
  note ih = 2(1) [OF refl r [symmetric] a(2) [unfolded r snd_conv] 2(3) this]
  show ?case
    by (simp only: run_local.simps run_log.simps r Let_def prod.case ih a(1) [unfolded r fst_conv] split: if_split) simp
next
  case (3 window t ops l)
  have "tracks window t l hits" using 3(2,4) by (auto intro: tracks_later)
  from 3(1) [OF tracks_clean [OF this] 3(3)] 3(4) show ?case by simp
qed simp

text \<open>The admitted hits of a run, given its verdicts.\<close>

fun admitted :: "limiter_op list \<Rightarrow> bool list \<Rightarrow> (string \<times> int) list" where
  "admitted (Hit key max_hits now # ops) (ok # oks) = (if ok then [(key, now)] else []) @ admitted ops oks"
| "admitted (Clean now # ops) oks = admitted ops oks"
| "admitted ops oks = []"

lemma length_filter_weaken: "(\<And>x. P x \<Longrightarrow> Q x) \<Longrightarrow> length (filter P xs) \<le> length (filter Q xs)"
  by (induction xs) auto

definition in_window :: "int \<Rightarrow> string \<Rightarrow> int \<Rightarrow> (string \<times> int) list \<Rightarrow> nat" where
  "in_window window key last_time hits =
     length (filter (\<lambda>(k, t). k = key \<and> last_time - window < t \<and> t \<le> last_time) hits)"

fun budget_at_most :: "string \<Rightarrow> int \<Rightarrow> limiter_op \<Rightarrow> bool" where
  "budget_at_most key m (Hit k max_hits now) \<longleftrightarrow> k = key \<longrightarrow> max_hits \<le> m"
| "budget_at_most key m (Clean now) \<longleftrightarrow> True"

lemma in_window_snoc:
  assumes "list_all (\<lambda>(k, t). t \<le> now) hits" "\<forall>T. int (in_window window key T hits) \<le> m"
    "k = key \<longrightarrow> int (length (recent window key now hits)) < m"
  shows "int (in_window window key T (hits @ [(k, now)])) \<le> m"
proof (cases "k = key \<and> T - window < now \<and> now \<le> T")
  case True
  then have "in_window window key T hits \<le> length (recent window key now hits)"
    by (auto simp: in_window_def recent_def intro!: length_filter_weaken)
  with True assms(3) show ?thesis by (simp add: in_window_def)
next
  case False
  then have "in_window window key T (hits @ [(k, now)]) = in_window window key T hits" by (auto simp: in_window_def)
  with assms(2) show ?thesis by simp
qed

lemma run_log_bounded:
  assumes "\<forall>T. int (in_window window key T hits) \<le> m" "list_all (\<lambda>(k, t). t \<le> now) hits"
    "sorted (now # map op_time ops)" "list_all (budget_at_most key m) ops"
  shows "int (in_window window key T (hits @ admitted ops (run_log window ops hits))) \<le> m"
  using assms
proof (induction window ops hits arbitrary: now rule: run_log.induct)
  case (2 window k b t ops hits)
  have before: "list_all (\<lambda>(k, t'). t' \<le> t) hits" using 2(4,5) by (fastforce simp: list_all_iff)
  have rest: "sorted (t # map op_time ops)" "list_all (budget_at_most key m) ops" using 2(5,6) by simp_all
  show ?case
  proof (cases "int (length (recent window k t hits)) < b")
    case True
    have "k = key \<longrightarrow> int (length (recent window key t hits)) < m" using True 2(6) by auto
    from in_window_snoc [OF before 2(3) this] have "\<forall>T. int (in_window window key T (hits @ [(k, t)])) \<le> m" by blast
    moreover have "list_all (\<lambda>(k, t'). t' \<le> t) (hits @ [(k, t)])" using before by simp
    ultimately show ?thesis using 2(1) [OF True _ _ rest] True by simp
  next
    case False
    from 2(2) [OF False 2(3) before rest] False show ?thesis by simp
  qed
next
  case (3 window t ops hits)
  have "list_all (\<lambda>(k, t'). t' \<le> t) hits" using 3(3,4) by (fastforce simp: list_all_iff)
  with 3 show ?case by simp
qed simp

section \<open>Hits of one millisecond\<close>

fun redis_hits :: "'z zset_ops \<Rightarrow> limiter \<Rightarrow> int \<Rightarrow> int \<Rightarrow> nat \<Rightarrow> 'z \<Rightarrow> bool list" where
  "redis_hits ops l max_hits now 0 z = []"
| "redis_hits ops l max_hits now (Suc n) z =
     (let (ok, z) = redis_allow ops l max_hits now z in ok # redis_hits ops l max_hits now n z)"

definition same_millisecond :: "('z \<Rightarrow> string \<rightharpoonup> int) \<Rightarrow> limiter \<Rightarrow> int \<Rightarrow> int \<Rightarrow> 'z \<Rightarrow> bool" where
  "same_millisecond scores l max_hits now z \<longleftrightarrow>
     hit_member l (unix_milli now) \<in> dom (scores z) \<and> int (card (dom (scores z))) < max_hits"

lemma zset_lawsD:
  assumes "zset_laws scores ops"
  shows "finite (dom (scores z))" "zcard ops z = card (dom (scores z))"
    "scores (zremrange ops lo hi z) m =
       (case scores z m of None \<Rightarrow> None | Some x \<Rightarrow> if at_least lo x \<and> x \<le> hi then None else Some x)"
    "scores (zadd ops x m z) = (scores z)(m \<mapsto> x)" "scores (pexpire ops ttl z) = scores z"
  using assms unfolding zset_laws_def by blast+

lemma zremrange_dom: "zset_laws scores ops \<Longrightarrow> dom (scores (zremrange ops lo hi z)) \<subseteq> dom (scores z)"
  by (auto simp: zset_lawsD split: option.splits)

lemma zremrange_card:
  assumes "zset_laws scores ops"
  shows "card (dom (scores (zremrange ops lo hi z))) \<le> card (dom (scores z))"
  by (rule card_mono [OF zset_lawsD(1) [OF assms] zremrange_dom [OF assms]])

text \<open>Within the millisecond of an admitted hit the set does not grow, so the count stands still.\<close>

lemma same_millisecond_step:
  assumes "zset_laws scores ops" "same_millisecond scores l m now z"
  shows "fst (redis_allow ops l m now z)" "same_millisecond scores l m now (snd (redis_allow ops l m now z))"
proof -
  let ?z = "zremrange ops (Some 0) (unix_milli now - unix_milli (rl_window l)) z"
  let ?hit = "hit_member l (unix_milli now)"
  note laws = zset_lawsD [OF assms(1)]
  have card: "card (insert ?hit (dom (scores ?z))) \<le> card (dom (scores z))"
    using assms(2) zremrange_dom [OF assms(1)] by (intro card_mono laws(1)) (auto simp: same_millisecond_def)
  moreover have "card (dom (scores ?z)) \<le> card (dom (scores z))" by (rule zremrange_card [OF assms(1)])
  ultimately have a: "redis_allow ops l m now z = (True, pexpire ops (unix_milli (rl_window l) + 1000) (zadd ops (unix_milli now) ?hit ?z))"
    using assms(2) by (simp add: redis_allow_def rate_limit_script_def laws(2) same_millisecond_def Let_def)
  then show "fst (redis_allow ops l m now z)" by simp
  show "same_millisecond scores l m now (snd (redis_allow ops l m now z))"
    using card assms(2) by (simp add: a same_millisecond_def laws)
qed

lemma same_millisecond_hits:
  assumes "zset_laws scores ops"
  shows "same_millisecond scores l m now z \<Longrightarrow> redis_hits ops l m now n z = replicate n True"
proof (induction n arbitrary: z)
  case (Suc n)
  note a = same_millisecond_step [OF assms Suc.prems]
  from Suc.IH [OF a(2)] a(1) show ?case by (simp add: split_beta)
qed simp

lemma first_hit_of_millisecond:
  assumes "zset_laws scores ops"
    "int (zcard ops (zremrange ops (Some 0) (unix_milli now - unix_milli (rl_window l)) z)) + 1 < m"
  shows "fst (redis_allow ops l m now z)" "same_millisecond scores l m now (snd (redis_allow ops l m now z))"
proof -
  let ?z = "zremrange ops (Some 0) (unix_milli now - unix_milli (rl_window l)) z"
  let ?hit = "hit_member l (unix_milli now)"
  note laws = zset_lawsD [OF assms(1)]
  have a: "redis_allow ops l m now z = (True, pexpire ops (unix_milli (rl_window l) + 1000) (zadd ops (unix_milli now) ?hit ?z))"
    using assms(2) by (simp add: redis_allow_def rate_limit_script_def Let_def)
  then show "fst (redis_allow ops l m now z)" by simp
  have "card (insert ?hit (dom (scores ?z))) \<le> Suc (card (dom (scores ?z)))" by (rule card_insert_le_m1) simp_all
  with assms(2) show "same_millisecond scores l m now (snd (redis_allow ops l m now z))"
    by (simp add: a same_millisecond_def laws)
qed

section \<open>Callers and the cleanup\<close>

text \<open>
  The points of a call of \<^verbatim>\<open>allow\<close>: before \<^verbatim>\<open>LoadOrStore\<close>; with an entry, before its lock; after
  finding the entry deleted, before \<^verbatim>\<open>Delete\<close>; returned. The map and the heap of entries are shared.
  The cleanup visits one entry at a time.
\<close>

datatype call_pc = Loading | Locking nat | Deleting | Returned bool

record call =
  ca_key :: string
  ca_max :: int
  ca_now :: int
  ca_pc :: call_pc

record shared_limiter =
  sh_entries :: "string \<rightharpoonup> nat"
  sh_heap :: "nat \<rightharpoonup> local_entry"
  sh_calls :: "nat \<rightharpoonup> call"
  sh_cleaner :: "(string \<times> nat \<times> int) option"  \<comment> \<open>key, entry and cutoff of the visit\<close>

definition move :: "nat \<Rightarrow> call \<Rightarrow> call_pc \<Rightarrow> shared_limiter \<Rightarrow> shared_limiter" where
  "move c ca pc s = s\<lparr>sh_calls := (sh_calls s)(c \<mapsto> ca\<lparr>ca_pc := pc\<rparr>)\<rparr>"

definition load :: "nat \<Rightarrow> nat \<Rightarrow> call \<Rightarrow> shared_limiter \<Rightarrow> shared_limiter" where
  "load fresh c ca s =
     (case sh_entries s (ca_key ca) of
        Some r \<Rightarrow> move c ca (Locking r) s
      | None \<Rightarrow> move c ca (Locking fresh)
                  (s\<lparr>sh_entries := (sh_entries s)(ca_key ca \<mapsto> fresh), sh_heap := (sh_heap s)(fresh \<mapsto> new_entry)\<rparr>))"

definition lock_entry :: "int \<Rightarrow> nat \<Rightarrow> call \<Rightarrow> nat \<Rightarrow> local_entry \<Rightarrow> shared_limiter \<Rightarrow> shared_limiter" where
  "lock_entry window c ca r e s =
     (let (ok, e) = locked_allow e window (ca_max ca) (ca_now ca)
      in move c ca (case ok of None \<Rightarrow> Deleting | Some b \<Rightarrow> Returned b) (s\<lparr>sh_heap := (sh_heap s)(r \<mapsto> e)\<rparr>))"

definition clean_entry :: "string \<Rightarrow> nat \<Rightarrow> int \<Rightarrow> local_entry \<Rightarrow> shared_limiter \<Rightarrow> shared_limiter" where
  "clean_entry key r cutoff e s =
     (let s = s\<lparr>sh_cleaner := None\<rparr>
      in if all_expired e cutoff
         then s\<lparr>sh_heap := (sh_heap s)(r \<mapsto> e\<lparr>le_deleted := True\<rparr>), sh_entries := (sh_entries s)(key := None)\<rparr> else s)"

inductive limiter_step :: "int \<Rightarrow> shared_limiter \<Rightarrow> shared_limiter \<Rightarrow> bool" for window :: int where
  call_begin: "sh_calls s c = None \<Longrightarrow>
     limiter_step window s (s\<lparr>sh_calls := (sh_calls s)(c \<mapsto> \<lparr>ca_key = key, ca_max = m, ca_now = now, ca_pc = Loading\<rparr>)\<rparr>)"
| call_load: "sh_calls s c = Some ca \<Longrightarrow> ca_pc ca = Loading \<Longrightarrow> sh_heap s fresh = None \<Longrightarrow>
     limiter_step window s (load fresh c ca s)"
| call_lock: "sh_calls s c = Some ca \<Longrightarrow> ca_pc ca = Locking r \<Longrightarrow> sh_heap s r = Some e \<Longrightarrow>
     limiter_step window s (lock_entry window c ca r e s)"
| call_delete: "sh_calls s c = Some ca \<Longrightarrow> ca_pc ca = Deleting \<Longrightarrow>
     limiter_step window s (move c ca Loading (s\<lparr>sh_entries := (sh_entries s)(ca_key ca := None)\<rparr>))"
| clean_visit: "sh_cleaner s = None \<Longrightarrow> sh_entries s key = Some r \<Longrightarrow>
     limiter_step window s (s\<lparr>sh_cleaner := Some (key, r, now - window)\<rparr>)"
| clean_lock: "sh_cleaner s = Some (key, r, cutoff) \<Longrightarrow> sh_heap s r = Some e \<Longrightarrow>
     limiter_step window s (clean_entry key r cutoff e s)"

definition init_shared :: shared_limiter where
  "init_shared = \<lparr>sh_entries = Map.empty, sh_heap = Map.empty, sh_calls = Map.empty, sh_cleaner = None\<rparr>"

text \<open>
  The race: call 0 stores an entry; the cleanup finds it empty and deletes it; call 1 stores a new
  one and is admitted; call 0 finds its entry deleted, deletes the key and with it the entry of
  call 1, starts over and is admitted too.
\<close>

lemma race_reached:
  fixes window now :: int
  defines "ca \<equiv> \<lambda>pc. \<lparr>ca_key = ''k'', ca_max = 1, ca_now = now, ca_pc = pc\<rparr>"
  shows "\<exists>s. (limiter_step window)\<^sup>*\<^sup>* init_shared s \<and> sh_calls s = [0 \<mapsto> ca (Returned True), 1 \<mapsto> ca (Returned True)]"
proof -
  let ?s1 = "init_shared\<lparr>sh_calls := [0 \<mapsto> ca Loading]\<rparr>"
  let ?s2 = "load 0 0 (ca Loading) ?s1"
  let ?s3 = "?s2\<lparr>sh_cleaner := Some (''k'', 0, now - window)\<rparr>"
  let ?s4 = "clean_entry ''k'' 0 (now - window) new_entry ?s3"
  let ?s5 = "?s4\<lparr>sh_calls := (sh_calls ?s4)(1 \<mapsto> ca Loading)\<rparr>"
  let ?s6 = "load 1 1 (ca Loading) ?s5"
  let ?s7 = "lock_entry window 1 (ca (Locking 1)) 1 new_entry ?s6"
  let ?gone = "new_entry\<lparr>le_deleted := True\<rparr>"
  let ?s8 = "lock_entry window 0 (ca (Locking 0)) 0 ?gone ?s7"
  let ?s9 = "move 0 (ca Deleting) Loading (?s8\<lparr>sh_entries := (sh_entries ?s8)(''k'' := None)\<rparr>)"
  let ?s10 = "load 2 0 (ca Loading) ?s9"
  let ?s11 = "lock_entry window 0 (ca (Locking 2)) 2 new_entry ?s10"
  note d = load_def move_def ca_def init_shared_def clean_entry_def lock_entry_def locked_allow_def new_entry_def
    all_expired_def Let_def
  have "limiter_step window init_shared ?s1"
    using call_begin [where s = init_shared and c = 0 and key = "''k''" and m = 1 and now = now]
    by (simp add: ca_def init_shared_def)
  moreover have "limiter_step window ?s1 ?s2" by (rule call_load) (simp_all add: d)
  moreover have "limiter_step window ?s2 ?s3" by (rule clean_visit) (simp_all add: d)
  moreover have "limiter_step window ?s3 ?s4" by (rule clean_lock) (simp_all add: d)
  moreover have "limiter_step window ?s4 ?s5" unfolding ca_def by (rule call_begin) (simp add: d)
  moreover have "limiter_step window ?s5 ?s6" by (rule call_load) (simp_all add: d)
  moreover have "limiter_step window ?s6 ?s7" by (rule call_lock) (simp_all add: d)
  moreover have "limiter_step window ?s7 ?s8" by (rule call_lock) (simp_all add: d)
  moreover have "limiter_step window ?s8 ?s9"
  proof -
    have "sh_calls ?s8 0 = Some (ca Deleting)" by (simp add: d)
    from call_delete [OF this] show ?thesis by (simp add: ca_def)
  qed
  moreover have "limiter_step window ?s9 ?s10" by (rule call_load) (simp_all add: d)
  moreover have "limiter_step window ?s10 ?s11" by (rule call_lock) (simp_all add: d)
  ultimately have "(limiter_step window)\<^sup>*\<^sup>* init_shared ?s11"
    by (meson rtranclp.rtrancl_refl rtranclp.rtrancl_into_rtrancl)
  moreover have "sh_calls ?s11 = [0 \<mapsto> ca (Returned True), 1 \<mapsto> ca (Returned True)]" by (simp add: d fun_eq_iff)
  ultimately show ?thesis by blast
qed

section \<open>Properties\<close>

text \<open>
  C23: The local limiter keeps its budget for calls and cleanups made one at a time, in the order of
  their times (calls that overlap can exceed it: \<open>race_reached\<close>): from an empty limiter, each verdict is the one a complete log of admitted hits gives, whatever the cleanup
  removes; so in no window do more hits of a key pass than the largest budget its calls gave.
\<close>

theorem rate_limit_holds:
  assumes "0 < window" "sorted (map op_time ops)" "0 \<le> m" "list_all (budget_at_most key m) ops"
  shows "run_local window ops Map.empty = run_log window ops [] \<and>
    (\<forall>T. int (in_window window key T (admitted ops (run_local window ops Map.empty))) \<le> m)"
proof -
  let ?t = "case ops of [] \<Rightarrow> 0 | x # xs \<Rightarrow> op_time x"
  have s: "sorted (?t # map op_time ops)" using assms(2) by (cases ops) auto
  have "tracks window ?t Map.empty []" by (simp add: tracks_def load_or_store_def new_entry_def recent_def)
  from run_local_log [OF this assms(1) s] have e: "run_local window ops Map.empty = run_log window ops []" .
  have "\<forall>T. int (in_window window key T []) \<le> m" using assms(3) by (simp add: in_window_def)
  from run_log_bounded [OF this _ s assms(4)] e show ?thesis by simp
qed

theorem rate_limit_holds_witness:
  "run_local 10 [Hit ''a'' 1 0, Clean 12, Hit ''a'' 1 12, Hit ''a'' 1 20] Map.empty = [True, True, False]"
  using rate_limit_holds [of 10 "[Hit ''a'' 1 0, Clean 12, Hit ''a'' 1 12, Hit ''a'' 1 20]" 1 "''a''"]
  by (simp add: recent_def)

text \<open>
  Redis counts the hits of one instance in one millisecond as a single hit. Whenever the window
  has room for two more hits, any number of calls of one instance in that millisecond are all
  admitted, whatever the budget is: the member of a hit is the instance and the millisecond, and
  adding a member again does not enlarge the set.
\<close>

lemma same_millisecond_unlimited:
  assumes "zset_laws scores ops"
    "int (zcard ops (zremrange ops (Some 0) (unix_milli now - unix_milli (rl_window l)) z)) + 1 < m"
  shows "redis_hits ops l m now n z = replicate n True"
proof (cases n)
  case (Suc k)
  note a = first_hit_of_millisecond [OF assms]
  from same_millisecond_hits [OF assms(1) a(2)] a(1) show ?thesis by (simp add: Suc split_beta)
qed simp

definition fmap_zset :: "(string, int) fmap zset_ops" where
  "fmap_zset = \<lparr>zremrange = (\<lambda>lo hi z. fmfilter (\<lambda>m. \<forall>x. fmlookup z m = Some x \<longrightarrow> \<not> (at_least lo x \<and> x \<le> hi)) z),
     zcard = (\<lambda>z. card (fmdom' z)), zadd = (\<lambda>x m. fmupd m x), pexpire = (\<lambda>_ z. z)\<rparr>"

lemma fmap_zset_laws: "zset_laws fmlookup fmap_zset"
  by (auto simp: zset_laws_def fmap_zset_def fmdom'_alt_def fmdom'.rep_eq split: option.splits)

end
