(* ===== verification/Model_Limiter.thy ===== *)
theory Model_Limiter
  imports Rate_Limit "HOL-Library.Char_ord" "HOL-Library.List_Lexorder"
begin

text \<open>
  \<^verbatim>\<open>models/limiter/\<close>: the cap on concurrent background calls of a model. \<^verbatim>\<open>governor.go\<close> decides whether
  a call needs a slot and holds the in-process semaphores; \<^verbatim>\<open>limiter.go\<close> keeps the slots of all
  instances as leases in a redis sorted set (the operations are the parameter of \<open>Rate_Limit\<close> with
  two more). Calls, heartbeats and releases are processes of step relations.

  The lemmas show that the calls that hold a slot of the in-process limiter never outnumber the
  limit their model was first used with, whatever limits come later; that the leases after an
  admission are within its limit; and that a heartbeat can write a lease again after its release.
\<close>

section \<open>The governor\<close>

record governor_state =
  gv_installed :: bool  \<comment> \<open>a limiter is installed\<close>
  gv_limit :: int

definition set_governor :: "bool \<Rightarrow> int \<Rightarrow> governor_state \<Rightarrow> governor_state" where
  "set_governor l lim g = \<lparr>gv_installed = l, gv_limit = lim\<rparr>"

definition set_global_limit :: "int \<Rightarrow> governor_state \<Rightarrow> governor_state" where
  "set_global_limit lim g = g\<lparr>gv_limit := lim\<rparr>"

text \<open>The limit with which \<^verbatim>\<open>GateNamedN\<close> asks for a slot; \<open>None\<close> when the call passes without one.\<close>

definition gate_named_n :: "governor_state \<Rightarrow> bool \<Rightarrow> int \<Rightarrow> int option" where
  "gate_named_n g background model_limit =
     (let lim = (if model_limit \<le> 0 then gv_limit g else model_limit)
      in if \<not> gv_installed g \<or> lim \<le> 0 \<or> \<not> background then None else Some lim)"

section \<open>The in-process limiter\<close>

record tracked_semaphore =
  ts_limit :: int
  ts_waiting :: int
  ts_name :: string

definition new_tracked :: tracked_semaphore where
  "new_tracked = \<lparr>ts_limit = 0, ts_waiting = 0, ts_name = []\<rparr>"

record semaphore =
  sem_cap :: int
  sem_len :: nat

text \<open>
  The points of a call of \<^verbatim>\<open>Acquire\<close>: behind the mutex and not yet counted as waiting; counted and in the
  \<^verbatim>\<open>select\<close>; past the send into the channel or past \<^verbatim>\<open>ctx.Done()\<close>, with the deferred
  \<^verbatim>\<open>waiting.Add(-1)\<close> still to run; returned with a slot; returned without one; its release invoked (once or
  more often).
\<close>

datatype slot_pc =
    Slot_Arrived
  | Slot_Waiting
  | Slot_Taken
  | Slot_Leaving
  | Slot_Held
  | Slot_Passed
  | Slot_Released

record slot_call =
  sc_key :: string
  sc_pc :: slot_pc

record model_slots =
  ms_sems :: "string \<rightharpoonup> semaphore"
  ms_tracked :: "string \<rightharpoonup> tracked_semaphore"
  ms_calls :: "nat \<rightharpoonup> slot_call"

definition new_local_limiter :: model_slots where
  "new_local_limiter = \<lparr>ms_sems = Map.empty, ms_tracked = Map.empty, ms_calls = Map.empty\<rparr>"

definition tracked_of :: "model_slots \<Rightarrow> string \<Rightarrow> tracked_semaphore" where
  "tracked_of s k = (case ms_tracked s k of None \<Rightarrow> new_tracked | Some t \<Rightarrow> t)"

definition add_waiting :: "int \<Rightarrow> string \<Rightarrow> model_slots \<Rightarrow> model_slots" where
  "add_waiting d k s =
     s\<lparr>ms_tracked := (ms_tracked s)(k \<mapsto> (tracked_of s k)\<lparr>ts_waiting := ts_waiting (tracked_of s k) + d\<rparr>)\<rparr>"

definition move_call :: "nat \<Rightarrow> slot_call \<Rightarrow> slot_pc \<Rightarrow> model_slots \<Rightarrow> model_slots" where
  "move_call c ca pc s = s\<lparr>ms_calls := (ms_calls s)(c \<mapsto> ca\<lparr>sc_pc := pc\<rparr>)\<rparr>"

text \<open>
  \<^verbatim>\<open>Acquire\<close> up to \<^verbatim>\<open>l.mu.Unlock()\<close>: the semaphore is created with the limit of the first call. Then the call
  counts itself, sends into the channel when there is room or sees its context end, and on its return the
  deferred decrement runs.
\<close>

definition acquire_begin :: "nat \<Rightarrow> string \<Rightarrow> int \<Rightarrow> model_slots \<Rightarrow> model_slots" where
  "acquire_begin c k lim s =
     (let ca = \<lparr>sc_key = k, sc_pc = Slot_Arrived\<rparr> in
      if lim \<le> 0 \<or> k = [] then move_call c ca Slot_Passed s
      else let s1 = s\<lparr>ms_tracked := (ms_tracked s)(k \<mapsto> (tracked_of s k)\<lparr>ts_limit := lim\<rparr>)\<rparr>;
               s2 = (if ms_sems s k = None then s1\<lparr>ms_sems := (ms_sems s)(k \<mapsto> \<lparr>sem_cap = lim, sem_len = 0\<rparr>)\<rparr> else s1)
           in move_call c ca Slot_Arrived s2)"

definition acquire_count :: "nat \<Rightarrow> slot_call \<Rightarrow> model_slots \<Rightarrow> model_slots" where
  "acquire_count c ca s = move_call c ca Slot_Waiting (add_waiting 1 (sc_key ca) s)"

definition acquire_slot :: "nat \<Rightarrow> slot_call \<Rightarrow> semaphore \<Rightarrow> model_slots \<Rightarrow> model_slots" where
  "acquire_slot c ca sem s =
     move_call c ca Slot_Taken (s\<lparr>ms_sems := (ms_sems s)(sc_key ca \<mapsto> sem\<lparr>sem_len := sem_len sem + 1\<rparr>)\<rparr>)"

definition acquire_cancel :: "nat \<Rightarrow> slot_call \<Rightarrow> model_slots \<Rightarrow> model_slots" where
  "acquire_cancel c ca s = move_call c ca Slot_Leaving s"

definition acquire_return :: "nat \<Rightarrow> slot_call \<Rightarrow> model_slots \<Rightarrow> model_slots" where
  "acquire_return c ca s =
     move_call c ca (if sc_pc ca = Slot_Taken then Slot_Held else Slot_Passed) (add_waiting (-1) (sc_key ca) s)"

definition release_slot :: "nat \<Rightarrow> slot_call \<Rightarrow> semaphore \<Rightarrow> model_slots \<Rightarrow> model_slots" where
  "release_slot c ca sem s =
     move_call c ca Slot_Released (s\<lparr>ms_sems := (ms_sems s)(sc_key ca \<mapsto> sem\<lparr>sem_len := sem_len sem - 1\<rparr>)\<rparr>)"

text \<open>
  The entry \<^verbatim>\<open>SetModelName\<close> may create under the mutex is the one \<open>tracked_of\<close> stands for before, so its
  creation and the store of the name that follows it are one step here.
\<close>

definition set_model_name :: "string \<Rightarrow> string \<Rightarrow> model_slots \<Rightarrow> model_slots" where
  "set_model_name k name s =
     (if k = [] \<or> name = [] then s
      else s\<lparr>ms_tracked := (ms_tracked s)(k \<mapsto> (tracked_of s k)\<lparr>ts_name := name\<rparr>)\<rparr>)"

inductive slot_step :: "model_slots \<Rightarrow> model_slots \<Rightarrow> bool" where
  slot_begin: "ms_calls s c = None \<Longrightarrow> slot_step s (acquire_begin c k lim s)"
| slot_count: "ms_calls s c = Some ca \<Longrightarrow> sc_pc ca = Slot_Arrived \<Longrightarrow> slot_step s (acquire_count c ca s)"
| slot_take: "ms_calls s c = Some ca \<Longrightarrow> sc_pc ca = Slot_Waiting \<Longrightarrow> ms_sems s (sc_key ca) = Some sem \<Longrightarrow>
    int (sem_len sem) < sem_cap sem \<Longrightarrow> slot_step s (acquire_slot c ca sem s)"
| slot_cancel: "ms_calls s c = Some ca \<Longrightarrow> sc_pc ca = Slot_Waiting \<Longrightarrow> slot_step s (acquire_cancel c ca s)"
| slot_return: "ms_calls s c = Some ca \<Longrightarrow> sc_pc ca = Slot_Taken \<or> sc_pc ca = Slot_Leaving \<Longrightarrow>
    slot_step s (acquire_return c ca s)"
| slot_release: "ms_calls s c = Some ca \<Longrightarrow> sc_pc ca = Slot_Held \<Longrightarrow> ms_sems s (sc_key ca) = Some sem \<Longrightarrow>
    0 < sem_len sem \<Longrightarrow> slot_step s (release_slot c ca sem s)"
| slot_noop: "ms_calls s c = Some ca \<Longrightarrow> sc_pc ca \<in> {Slot_Passed, Slot_Released} \<Longrightarrow>
    slot_step s (move_call c ca Slot_Released s)"
| slot_name: "slot_step s (set_model_name k name s)"

inductive slot_reach :: "model_slots \<Rightarrow> bool" where
  slot_init: "slot_reach new_local_limiter"
| slot_next: "slot_reach s \<Longrightarrow> slot_step s s' \<Longrightarrow> slot_reach s'"

record runtime_stat =
  rs_model_id :: string
  rs_name :: string
  rs_active :: int
  rs_waiting :: int
  rs_limit :: int

text \<open>
  \<^verbatim>\<open>RuntimeStats\<close> holds the mutex, but sends, receives and the atomic counters do not need it: the four
  values of a model are read one after another, in four states.
\<close>

record stat_reads =
  at_name :: model_slots
  at_active :: model_slots
  at_waiting :: model_slots
  at_limit :: model_slots

definition active_slots :: "model_slots \<Rightarrow> string \<Rightarrow> int" where
  "active_slots s k = (case ms_sems s k of None \<Rightarrow> 0 | Some sem \<Rightarrow> int (sem_len sem))"

definition stat_of :: "string \<Rightarrow> stat_reads \<Rightarrow> runtime_stat" where
  "stat_of k r =
     \<lparr>rs_model_id = k, rs_name = ts_name (tracked_of (at_name r) k), rs_active = active_slots (at_active r) k,
      rs_waiting = ts_waiting (tracked_of (at_waiting r) k), rs_limit = ts_limit (tracked_of (at_limit r) k)\<rparr>"

text \<open>The models in the order the map iteration meets them, with their reads.\<close>

definition runtime_stats :: "(string \<times> stat_reads) list \<Rightarrow> runtime_stat list" where
  "runtime_stats ms = sort_key rs_model_id (map (\<lambda>(k, r). stat_of k r) ms)"

text \<open>
  The calls of a model at some points: those that occupy the channel and those that the waiting count includes.
\<close>

definition callers :: "model_slots \<Rightarrow> string \<Rightarrow> slot_pc set \<Rightarrow> nat set" where
  "callers s k pcs = {c. \<exists>ca. ms_calls s c = Some ca \<and> sc_key ca = k \<and> sc_pc ca \<in> pcs}"

abbreviation holding :: "slot_pc set" where "holding \<equiv> {Slot_Taken, Slot_Held}"

abbreviation counted :: "slot_pc set" where "counted \<equiv> {Slot_Waiting, Slot_Taken, Slot_Leaving}"

definition slots_inv :: "model_slots \<Rightarrow> bool" where
  "slots_inv s \<longleftrightarrow> finite (dom (ms_calls s)) \<and> (\<forall>k.
     ts_waiting (tracked_of s k) = int (card (callers s k counted)) \<and>
     active_slots s k = int (card (callers s k holding)) \<and>
     (\<forall>sem. ms_sems s k = Some sem \<longrightarrow> int (sem_len sem) \<le> sem_cap sem))"

lemma callers_finite: "finite (dom (ms_calls s)) \<Longrightarrow> finite (callers s k pcs)"
  by (rule finite_subset [of _ "dom (ms_calls s)"]) (auto simp: callers_def)

text \<open>What a step of one call does to the sets it is counted in.\<close>

lemma card_callers_move:
  assumes "finite (dom (ms_calls s))" "ms_calls s c = Some ca" "ms_calls s' = (ms_calls s)(c \<mapsto> ca\<lparr>sc_pc := pc\<rparr>)"
  shows "int (card (callers s' k pcs)) = int (card (callers s k pcs)) +
    (if k = sc_key ca then of_bool (pc \<in> pcs) - of_bool (sc_pc ca \<in> pcs) else 0)"
proof -
  define A where "A = callers s k pcs - {c}"
  have "finite A" "c \<notin> A" using callers_finite [OF assms(1)] by (auto simp: A_def)
  then have "int (card (insert c A)) = int (card A) + 1" by simp
  moreover have "callers s' k pcs = (if k = sc_key ca \<and> pc \<in> pcs then insert c A else A)"
    "callers s k pcs = (if k = sc_key ca \<and> sc_pc ca \<in> pcs then insert c A else A)"
    using assms(2,3) by (auto simp: callers_def A_def split: if_splits)
  ultimately show ?thesis by (cases "k = sc_key ca"; cases "pc \<in> pcs"; cases "sc_pc ca \<in> pcs") simp_all
qed

lemma card_callers_new:
  assumes "finite (dom (ms_calls s))" "ms_calls s c = None" "ms_calls s' = (ms_calls s)(c \<mapsto> ca)"
  shows "int (card (callers s' k pcs)) = int (card (callers s k pcs)) +
    (if k = sc_key ca then of_bool (sc_pc ca \<in> pcs) else 0)"
proof -
  have "c \<notin> callers s k pcs" using assms(2) by (simp add: callers_def)
  moreover have "callers s' k pcs = (if k = sc_key ca \<and> sc_pc ca \<in> pcs then insert c (callers s k pcs) else callers s k pcs)"
    using assms(2,3) by (auto simp: callers_def split: if_splits)
  ultimately show ?thesis
    using callers_finite [OF assms(1), of k pcs] by (cases "k = sc_key ca"; cases "sc_pc ca \<in> pcs") simp_all
qed

lemma slots_invD:
  assumes "slots_inv s"
  shows "finite (dom (ms_calls s))" "ts_waiting (tracked_of s k) = int (card (callers s k counted))"
    "active_slots s k = int (card (callers s k holding))"
    "ms_sems s k = Some sem \<Longrightarrow> int (sem_len sem) \<le> sem_cap sem"
  using assms by (auto simp: slots_inv_def)

lemma slots_fields [simp]:
  "ms_calls (add_waiting d k s) = ms_calls s" "ms_sems (add_waiting d k s) = ms_sems s"
  "ms_calls (move_call c ca pc s) = (ms_calls s)(c \<mapsto> ca\<lparr>sc_pc := pc\<rparr>)" "ms_sems (move_call c ca pc s) = ms_sems s"
  "tracked_of (move_call c ca pc s) k = tracked_of s k" "tracked_of (s\<lparr>ms_sems := m\<rparr>) k = tracked_of s k"
  "ts_waiting (tracked_of (add_waiting d k' s) k) = ts_waiting (tracked_of s k) + (if k = k' then d else 0)"
  "active_slots (add_waiting d k' s) k = active_slots s k" "active_slots (move_call c ca pc s) k = active_slots s k"
  by (simp_all add: add_waiting_def move_call_def tracked_of_def active_slots_def)

lemma acquire_begin_fields:
  "ms_calls (acquire_begin c k lim s) =
     (ms_calls s)(c \<mapsto> \<lparr>sc_key = k, sc_pc = (if lim \<le> 0 \<or> k = [] then Slot_Passed else Slot_Arrived)\<rparr>)"
  "ms_sems (acquire_begin c k lim s) k' =
     (if k' = k \<and> \<not> (lim \<le> 0 \<or> k = []) \<and> ms_sems s k = None then Some \<lparr>sem_cap = lim, sem_len = 0\<rparr> else ms_sems s k')"
  "ts_waiting (tracked_of (acquire_begin c k lim s) k') = ts_waiting (tracked_of s k')"
  by (auto simp: acquire_begin_def Let_def tracked_of_def move_call_def)

text \<open>A step of a call keeps the invariant when the counters move with the points of the call.\<close>

lemma slots_inv_move:
  assumes inv: "slots_inv s" and ca: "ms_calls s c = Some ca"
    and s': "ms_calls s' = (ms_calls s)(c \<mapsto> ca\<lparr>sc_pc := pc\<rparr>)"
    and w: "\<And>k. ts_waiting (tracked_of s' k) = ts_waiting (tracked_of s k) +
      (if k = sc_key ca then of_bool (pc \<in> counted) - of_bool (sc_pc ca \<in> counted) else 0)"
    and a: "\<And>k. active_slots s' k = active_slots s k +
      (if k = sc_key ca then of_bool (pc \<in> holding) - of_bool (sc_pc ca \<in> holding) else 0)"
    and cap: "\<And>k sem. ms_sems s' k = Some sem \<Longrightarrow> int (sem_len sem) \<le> sem_cap sem"
  shows "slots_inv s'"
  unfolding slots_inv_def
  using slots_invD [OF inv] card_callers_move [OF slots_invD(1) [OF inv] ca s'] w a cap s' by simp

lemma slot_step_inv: "slot_step s s' \<Longrightarrow> slots_inv s \<Longrightarrow> slots_inv s'"
proof (induction rule: slot_step.induct)
  case (slot_begin s c k lim)
  note inv = slots_invD [OF slot_begin(2)]
    and n = card_callers_new [OF slots_invD(1) [OF slot_begin(2)] slot_begin(1) acquire_begin_fields(1) [of c k lim s]]
  have "active_slots (acquire_begin c k lim s) k' = active_slots s k'" for k'
    by (auto simp: active_slots_def acquire_begin_fields)
  moreover have "int (sem_len sem) \<le> sem_cap sem" if "ms_sems (acquire_begin c k lim s) k' = Some sem" for k' sem
    using that inv(4) [of k' sem] by (auto simp: acquire_begin_fields split: if_splits)
  ultimately show ?case
    unfolding slots_inv_def using inv(1-3) n by (auto simp: acquire_begin_fields)
next
  case (slot_count s c ca)
  show ?case
    by (rule slots_inv_move [OF slot_count(3,1), where pc = Slot_Waiting])
      (use slot_count(2) slots_invD(4) [OF slot_count(3)] in \<open>auto simp: acquire_count_def\<close>)
next
  case (slot_take s c ca sem)
  show ?case
    by (rule slots_inv_move [OF slot_take(5,1), where pc = Slot_Taken])
      (use slot_take(2-4) slots_invD(4) [OF slot_take(5)] in
        \<open>auto simp: acquire_slot_def active_slots_def split: if_splits\<close>)
next
  case (slot_cancel s c ca)
  show ?case
    by (rule slots_inv_move [OF slot_cancel(3,1), where pc = Slot_Leaving])
      (use slot_cancel(2) slots_invD(4) [OF slot_cancel(3)] in \<open>auto simp: acquire_cancel_def\<close>)
next
  case (slot_return s c ca)
  show ?case
    by (rule slots_inv_move [OF slot_return(3,1), where pc = "if sc_pc ca = Slot_Taken then Slot_Held else Slot_Passed"])
      (use slot_return(2) slots_invD(4) [OF slot_return(3)] in \<open>auto simp: acquire_return_def\<close>)
next
  case (slot_release s c ca sem)
  have le: "int (sem_len sem) - 1 \<le> sem_cap sem" using slots_invD(4) [OF slot_release(5,3)] by simp
  show ?case
    by (rule slots_inv_move [OF slot_release(5,1), where pc = Slot_Released])
      (use slot_release(2-4) le slots_invD(4) [OF slot_release(5)] in
        \<open>auto simp: release_slot_def active_slots_def of_nat_diff split: if_splits\<close>)
next
  case (slot_noop s c ca)
  show ?case
    by (rule slots_inv_move [OF slot_noop(3,1), where pc = Slot_Released])
      (use slot_noop(2) slots_invD(4) [OF slot_noop(3)] in auto)
next
  case (slot_name s k name)
  have "callers (set_model_name k name s) k' pcs = callers s k' pcs" "ms_sems (set_model_name k name s) = ms_sems s"
    "ms_calls (set_model_name k name s) = ms_calls s"
    "ts_waiting (tracked_of (set_model_name k name s) k') = ts_waiting (tracked_of s k')" for k' pcs
    by (simp_all add: set_model_name_def callers_def tracked_of_def)
  with slot_name show ?case by (simp add: slots_inv_def active_slots_def)
qed

lemma slot_reach_inv: "slot_reach s \<Longrightarrow> slots_inv s"
proof (induction rule: slot_reach.induct)
  case slot_init
  show ?case by (simp add: slots_inv_def new_local_limiter_def callers_def tracked_of_def new_tracked_def active_slots_def)
qed (rule slot_step_inv)

lemma slot_step_cap:
  "slot_step s s' \<Longrightarrow> ms_sems s k = Some sem \<Longrightarrow> \<exists>sem'. ms_sems s' k = Some sem' \<and> sem_cap sem' = sem_cap sem"
  by (induction rule: slot_step.induct)
    (auto simp: acquire_begin_fields acquire_count_def acquire_slot_def acquire_cancel_def acquire_return_def
      release_slot_def set_model_name_def)

lemma slot_steps_cap:
  "slot_step\<^sup>*\<^sup>* s s' \<Longrightarrow> ms_sems s k = Some sem \<Longrightarrow> \<exists>sem'. ms_sems s' k = Some sem' \<and> sem_cap sem' = sem_cap sem"
  by (induction rule: rtranclp_induct) (use slot_step_cap in fastforce)+

lemma slot_reach_steps: "slot_reach s \<Longrightarrow> slot_step\<^sup>*\<^sup>* s s' \<Longrightarrow> slot_reach s'"
  by (rotate_tac 1, induction rule: rtranclp_induct) (auto intro: slot_next)

section \<open>Leases in redis\<close>

record 'z lease_ops = "'z zset_ops" +
  zrem :: "string \<Rightarrow> 'z \<Rightarrow> 'z"
  zcount_from :: "int \<Rightarrow> 'z \<Rightarrow> nat"  \<comment> \<open>\<^verbatim>\<open>ZCOUNT key min +inf\<close>\<close>

definition lease_laws :: "('z \<Rightarrow> string \<rightharpoonup> int) \<Rightarrow> 'z lease_ops \<Rightarrow> bool" where
  "lease_laws scores ops \<longleftrightarrow> zset_laws scores ops \<and>
     (\<forall>m z. scores (zrem ops m z) = (scores z)(m := None)) \<and>
     (\<forall>lo z. zcount_from ops lo z = card {m. \<exists>x. scores z m = Some x \<and> lo \<le> x})"

definition default_lease_ttl :: int where "default_lease_ttl = 30 * 1000"  \<comment> \<open>milliseconds\<close>

definition acquire_script :: "'z lease_ops \<Rightarrow> int \<Rightarrow> int \<Rightarrow> string \<Rightarrow> int \<Rightarrow> 'z \<Rightarrow> int \<times> 'z" where
  "acquire_script ops now lim token ttl z =
     (let z = zremrange ops None now z in
      if int (zcard ops z) < lim then (1, pexpire ops (ttl * 2) (zadd ops (now + ttl) token z)) else (0, z))"

definition write_lease :: "'z lease_ops \<Rightarrow> int \<Rightarrow> string \<Rightarrow> 'z \<Rightarrow> 'z" where
  "write_lease ops now token z = pexpire ops (default_lease_ttl * 2) (zadd ops (now + default_lease_ttl) token z)"

definition redis_active :: "'z lease_ops \<Rightarrow> int \<Rightarrow> 'z \<Rightarrow> int" where
  "redis_active ops now z = int (zcount_from ops (now + 1) z)"

text \<open>
  A call of \<^verbatim>\<open>Acquire\<close> and the function it returns: polling; with a lease; released, the stop channel
  closed and the lease not yet removed; gone; passed without a lease. Beside it the heartbeat: none,
  waiting for its ticker or the stop channel, about to write, ended. \<open>le_until\<close> is the expiry the call
  wrote last.
\<close>

datatype lease_pc = Polling | Leased | Closing | Gone | Unleased
datatype beat_pc = No_Beat | Beat_Waiting | Beat_Writing | Beat_Ended

record lease_call =
  lc_token :: string
  lc_limit :: int
  lc_pc :: lease_pc
  lc_beat :: beat_pc
  lc_until :: int

text \<open>One key of the limiter: the sorted set, the calls of all instances and the clock.\<close>

record 'z lease_state =
  lz_set :: 'z
  lz_calls :: "nat \<rightharpoonup> lease_call"
  lz_now :: int

definition start_leases :: "'z \<Rightarrow> 'z lease_state" where
  "start_leases z = \<lparr>lz_set = z, lz_calls = Map.empty, lz_now = 0\<rparr>"

definition put_call :: "nat \<Rightarrow> lease_call \<Rightarrow> 'z lease_state \<Rightarrow> 'z lease_state" where
  "put_call c ca s = s\<lparr>lz_calls := (lz_calls s)(c \<mapsto> ca)\<rparr>"

definition try_lease :: "'z lease_ops \<Rightarrow> nat \<Rightarrow> lease_call \<Rightarrow> 'z lease_state \<Rightarrow> 'z lease_state" where
  "try_lease ops c ca s =
     (let (res, z) = acquire_script ops (lz_now s) (lc_limit ca) (lc_token ca) default_lease_ttl (lz_set s)
      in (if res = 1
          then put_call c (ca\<lparr>lc_pc := Leased, lc_beat := Beat_Waiting, lc_until := lz_now s + default_lease_ttl\<rparr>) s
          else s)\<lparr>lz_set := z\<rparr>)"

inductive lease_step :: "'z lease_ops \<Rightarrow> 'z lease_state \<Rightarrow> 'z lease_state \<Rightarrow> bool" for ops :: "'z lease_ops" where
  lease_begin: "lz_calls s c = None \<Longrightarrow> \<forall>c' ca'. lz_calls s c' = Some ca' \<longrightarrow> lc_token ca' \<noteq> tok \<Longrightarrow>
    lease_step ops s (put_call c \<lparr>lc_token = tok, lc_limit = lim, lc_pc = Polling, lc_beat = No_Beat, lc_until = 0\<rparr> s)"
| lease_try: "lz_calls s c = Some ca \<Longrightarrow> lc_pc ca = Polling \<Longrightarrow> lease_step ops s (try_lease ops c ca s)"
| lease_lost: "lz_calls s c = Some ca \<Longrightarrow> lc_pc ca = Polling \<Longrightarrow>  \<comment> \<open>the script ran and its answer was lost\<close>
    lease_step ops s ((put_call c (ca\<lparr>lc_pc := Unleased\<rparr>) s)\<lparr>lz_set := lz_set (try_lease ops c ca s)\<rparr>)"
| lease_open: "lz_calls s c = Some ca \<Longrightarrow> lc_pc ca = Polling \<Longrightarrow> lease_step ops s (put_call c (ca\<lparr>lc_pc := Unleased\<rparr>) s)"
| beat_tick: "lz_calls s c = Some ca \<Longrightarrow> lc_beat ca = Beat_Waiting \<Longrightarrow>
    lease_step ops s (put_call c (ca\<lparr>lc_beat := Beat_Writing\<rparr>) s)"
| beat_write: "lz_calls s c = Some ca \<Longrightarrow> lc_beat ca = Beat_Writing \<Longrightarrow>
    lease_step ops s ((put_call c (ca\<lparr>lc_beat := Beat_Waiting, lc_until := lz_now s + default_lease_ttl\<rparr>) s)
      \<lparr>lz_set := write_lease ops (lz_now s) (lc_token ca) (lz_set s)\<rparr>)"
| beat_fail: "lz_calls s c = Some ca \<Longrightarrow> lc_beat ca = Beat_Writing \<Longrightarrow>
    lease_step ops s (put_call c (ca\<lparr>lc_beat := Beat_Waiting\<rparr>) s)"
| beat_end: "lz_calls s c = Some ca \<Longrightarrow> lc_beat ca = Beat_Waiting \<Longrightarrow> lc_pc ca \<in> {Closing, Gone} \<Longrightarrow>
    lease_step ops s (put_call c (ca\<lparr>lc_beat := Beat_Ended\<rparr>) s)"
| lease_close: "lz_calls s c = Some ca \<Longrightarrow> lc_pc ca = Leased \<Longrightarrow> lease_step ops s (put_call c (ca\<lparr>lc_pc := Closing\<rparr>) s)"
| lease_remove: "lz_calls s c = Some ca \<Longrightarrow> lc_pc ca = Closing \<Longrightarrow>
    lease_step ops s ((put_call c (ca\<lparr>lc_pc := Gone\<rparr>) s)\<lparr>lz_set := zrem ops (lc_token ca) (lz_set s)\<rparr>)"
| lease_tick: "lz_now s \<le> now \<Longrightarrow> lease_step ops s (s\<lparr>lz_now := now\<rparr>)"

inductive lease_reach :: "'z lease_ops \<Rightarrow> 'z \<Rightarrow> 'z lease_state \<Rightarrow> bool" for ops :: "'z lease_ops" and z0 :: 'z where
  lreach_start: "lease_reach ops z0 (start_leases z0)"
| lreach_next: "lease_reach ops z0 s \<Longrightarrow> lease_step ops s s' \<Longrightarrow> lease_reach ops z0 s'"

text \<open>
  Tokens tell calls apart, and the lease of a call that has not been released is in the set with the
  expiry the call wrote last, unless that time is past.
\<close>

definition lease_inv :: "('z \<Rightarrow> string \<rightharpoonup> int) \<Rightarrow> 'z lease_state \<Rightarrow> bool" where
  "lease_inv scores s \<longleftrightarrow>
     (\<forall>c c' ca ca'. lz_calls s c = Some ca \<longrightarrow> lz_calls s c' = Some ca' \<longrightarrow> lc_token ca = lc_token ca' \<longrightarrow> c = c') \<and>
     (\<forall>c ca. lz_calls s c = Some ca \<longrightarrow> lc_pc ca \<in> {Leased, Closing} \<longrightarrow> lz_now s < lc_until ca \<longrightarrow>
        scores (lz_set s) (lc_token ca) = Some (lc_until ca)) \<and>
     (\<forall>c ca. lz_calls s c = Some ca \<longrightarrow> lc_pc ca = Polling \<longrightarrow> lc_beat ca = No_Beat)"

lemma lease_invD:
  assumes "lease_inv scores s"
  shows "lz_calls s c = Some ca \<Longrightarrow> lz_calls s c' = Some ca' \<Longrightarrow> lc_token ca = lc_token ca' \<Longrightarrow> c = c'"
    "lz_calls s c = Some ca \<Longrightarrow> lc_pc ca \<in> {Leased, Closing} \<Longrightarrow> lz_now s < lc_until ca \<Longrightarrow>
       scores (lz_set s) (lc_token ca) = Some (lc_until ca)"
    "lz_calls s c = Some ca \<Longrightarrow> lc_pc ca = Polling \<Longrightarrow> lc_beat ca = No_Beat"
  using assms unfolding lease_inv_def by blast+

definition live_leases :: "'z lease_state \<Rightarrow> nat set" where
  "live_leases s = {c. \<exists>ca. lz_calls s c = Some ca \<and> lc_pc ca \<in> {Leased, Closing} \<and> lz_now s < lc_until ca}"

lemma lease_lawsD:
  assumes "lease_laws scores ops"
  shows "zset_laws scores ops" "scores (zrem ops m z) = (scores z)(m := None)"
    "zcount_from ops lo z = card {m. \<exists>x. scores z m = Some x \<and> lo \<le> x}"
  using assms unfolding lease_laws_def by blast+

lemma lease_scores:
  assumes "lease_laws scores ops"
  shows "scores (zremrange ops None now z) m = (case scores z m of None \<Rightarrow> None | Some x \<Rightarrow> if x \<le> now then None else Some x)"
    "scores (write_lease ops now tok z) = (scores z)(tok \<mapsto> now + default_lease_ttl)"
  using zset_lawsD [OF lease_lawsD(1) [OF assms]] by (simp_all add: write_lease_def at_least_def split: option.split)

lemma acquire_script_scores:
  assumes "lease_laws scores ops" "acquire_script ops now lim tok default_lease_ttl z = (res, z')"
  shows "scores z' m =
    (if res = 1 \<and> m = tok then Some (now + default_lease_ttl)
     else case scores z m of None \<Rightarrow> None | Some x \<Rightarrow> if x \<le> now then None else Some x)"
    "res = 1 \<longleftrightarrow> int (zcard ops (zremrange ops None now z)) < lim"
  using assms(2) zset_lawsD [OF lease_lawsD(1) [OF assms(1)]] lease_scores(1) [OF assms(1)]
  by (auto simp: acquire_script_def Let_def split: if_splits)

lemma try_lease_fields:
  assumes "acquire_script ops (lz_now s) (lc_limit ca) (lc_token ca) default_lease_ttl (lz_set s) = (res, z)"
  shows "lz_set (try_lease ops c ca s) = z" "lz_now (try_lease ops c ca s) = lz_now s"
    "lz_calls (try_lease ops c ca s) =
      (if res = 1
       then (lz_calls s)(c \<mapsto> ca\<lparr>lc_pc := Leased, lc_beat := Beat_Waiting, lc_until := lz_now s + default_lease_ttl\<rparr>)
       else lz_calls s)"
  by (simp_all add: try_lease_def put_call_def assms)

text \<open>A step of one call, with its token kept and the other calls' leases kept or past.\<close>

lemma lease_inv_move:
  assumes inv: "lease_inv scores s" and c: "lz_calls s c = Some ca"
    and s': "lz_calls s' = (lz_calls s)(c \<mapsto> ca')" "lc_token ca' = lc_token ca" "lz_now s' = lz_now s"
    and own: "lc_pc ca' \<in> {Leased, Closing} \<Longrightarrow> lz_now s < lc_until ca' \<Longrightarrow> scores (lz_set s') (lc_token ca) = Some (lc_until ca')"
    and poll: "lc_pc ca' = Polling \<Longrightarrow> lc_beat ca' = No_Beat"
    and others: "\<And>m x. m \<noteq> lc_token ca \<Longrightarrow> scores (lz_set s) m = Some x \<Longrightarrow> lz_now s < x \<Longrightarrow> scores (lz_set s') m = Some x"
  shows "lease_inv scores s'"
  unfolding lease_inv_def
proof (intro conjI allI impI)
  fix d d' ea ea' assume d: "lz_calls s' d = Some ea" "lz_calls s' d' = Some ea'" "lc_token ea = lc_token ea'"
  have "\<exists>fa. lz_calls s d = Some fa \<and> lc_token fa = lc_token ea" "\<exists>fa. lz_calls s d' = Some fa \<and> lc_token fa = lc_token ea'"
    using d c s' by (auto split: if_splits)
  with inv d(3) show "d = d'" unfolding lease_inv_def by metis
next
  fix d ea assume d: "lz_calls s' d = Some ea" "lc_pc ea \<in> {Leased, Closing}" "lz_now s' < lc_until ea"
  show "scores (lz_set s') (lc_token ea) = Some (lc_until ea)"
  proof (cases "d = c")
    case True
    with d s' own show ?thesis by simp
  next
    case False
    with d(1) s' have e: "lz_calls s d = Some ea" by simp
    have "lc_token ea \<noteq> lc_token ca" using lease_invD(1) [OF inv e c] False by blast
    moreover have "scores (lz_set s) (lc_token ea) = Some (lc_until ea)"
      using lease_invD(2) [OF inv e d(2)] d(3) s'(3) by simp
    ultimately show ?thesis using others d(3) s'(3) by simp
  qed
next
  fix d ea assume d: "lz_calls s' d = Some ea" "lc_pc ea = Polling"
  with inv s' poll show "lc_beat ea = No_Beat" by (auto simp: lease_inv_def split: if_splits)
qed

lemma put_call_fields [simp]:
  "lz_set (put_call c ca s) = lz_set s" "lz_calls (put_call c ca s) = (lz_calls s)(c \<mapsto> ca)" "lz_now (put_call c ca s) = lz_now s"
  by (simp_all add: put_call_def)

lemma lease_step_inv:
  assumes laws: "lease_laws scores ops"
  shows "lease_step ops s s' \<Longrightarrow> lease_inv scores s \<Longrightarrow> lease_inv scores s'"
proof (induction rule: lease_step.induct)
  case (lease_begin s c tok lim)
  then show ?case by (auto simp: lease_inv_def)
next
  case (lease_try s c ca)
  obtain res z where a: "acquire_script ops (lz_now s) (lc_limit ca) (lc_token ca) default_lease_ttl (lz_set s) = (res, z)" by fastforce
  note f = try_lease_fields [OF a, of c] and sc = acquire_script_scores [OF laws a]
  have kept: "scores z m = Some x" if "m \<noteq> lc_token ca \<or> res \<noteq> 1" "scores (lz_set s) m = Some x" "lz_now s < x" for m x
    using that sc by auto
  show ?case
  proof (cases "res = 1")
    case True
    show ?thesis
      by (rule lease_inv_move [OF lease_try(3,1),
            where ca' = "ca\<lparr>lc_pc := Leased, lc_beat := Beat_Waiting, lc_until := lz_now s + default_lease_ttl\<rparr>"])
        (use f kept sc(1) [of "lc_token ca"] True in auto)
  next
    case False
    have "lz_calls (try_lease ops c ca s) = (lz_calls s)(c \<mapsto> ca)" using f False lease_try(1) by (simp add: fun_upd_idem)
    then show ?thesis
      by (rule lease_inv_move [OF lease_try(3,1)])
        (use f kept False lease_try in \<open>auto simp: lease_inv_def\<close>)
  qed
next
  case (lease_lost s c ca)
  obtain res z where a: "acquire_script ops (lz_now s) (lc_limit ca) (lc_token ca) default_lease_ttl (lz_set s) = (res, z)" by fastforce
  note f = try_lease_fields [OF a, of c] and sc = acquire_script_scores [OF laws a]
  show ?case
    by (rule lease_inv_move [OF lease_lost(3,1), where ca' = "ca\<lparr>lc_pc := Unleased\<rparr>"]) (use f sc in auto)
next
  case (lease_open s c ca)
  show ?case by (rule lease_inv_move [OF lease_open(3,1), where ca' = "ca\<lparr>lc_pc := Unleased\<rparr>"]) simp_all
next
  case (beat_tick s c ca)
  have "lc_pc ca \<noteq> Polling" using beat_tick by (auto simp: lease_inv_def)
  then show ?case
    by (intro lease_inv_move [OF beat_tick(3,1), where ca' = "ca\<lparr>lc_beat := Beat_Writing\<rparr>"])
      (use beat_tick in \<open>auto simp: lease_inv_def\<close>)
next
  case (beat_write s c ca)
  have "lc_pc ca \<noteq> Polling" using beat_write by (auto simp: lease_inv_def)
  then show ?case
    by (intro lease_inv_move [OF beat_write(3,1), where ca' = "ca\<lparr>lc_beat := Beat_Waiting, lc_until := lz_now s + default_lease_ttl\<rparr>"])
      (auto simp: lease_scores(2) [OF laws])
next
  case (beat_fail s c ca)
  have "lc_pc ca \<noteq> Polling" using beat_fail by (auto simp: lease_inv_def)
  then show ?case
    by (intro lease_inv_move [OF beat_fail(3,1), where ca' = "ca\<lparr>lc_beat := Beat_Waiting\<rparr>"])
      (use beat_fail in \<open>auto simp: lease_inv_def\<close>)
next
  case (beat_end s c ca)
  then show ?case
    by (intro lease_inv_move [OF beat_end(4,1), where ca' = "ca\<lparr>lc_beat := Beat_Ended\<rparr>"])
      (use beat_end in \<open>auto simp: lease_inv_def\<close>)
next
  case (lease_close s c ca)
  then show ?case
    by (intro lease_inv_move [OF lease_close(3,1), where ca' = "ca\<lparr>lc_pc := Closing\<rparr>"])
      (use lease_close in \<open>auto simp: lease_inv_def\<close>)
next
  case (lease_remove s c ca)
  show ?case
    by (rule lease_inv_move [OF lease_remove(3,1), where ca' = "ca\<lparr>lc_pc := Gone\<rparr>"]) (auto simp: lease_lawsD(2) [OF laws])
next
  case (lease_tick s now)
  then show ?case by (fastforce simp: lease_inv_def)
qed

lemma lease_reach_inv: "lease_laws scores ops \<Longrightarrow> lease_reach ops z0 s \<Longrightarrow> lease_inv scores s"
  by (rotate_tac 1, induction rule: lease_reach.induct)
    (auto simp: lease_step_inv, simp add: lease_inv_def start_leases_def)

lemma live_leases_card:
  assumes "lease_laws scores ops" "lease_inv scores s"
  shows "finite (live_leases s) \<and> card (live_leases s) \<le> card (dom (scores (lz_set s)))"
proof -
  define tok where "tok c = (case lz_calls s c of None \<Rightarrow> [] | Some ca \<Rightarrow> lc_token ca)" for c
  have "inj_on tok (live_leases s)"
    using assms(2) unfolding inj_on_def live_leases_def tok_def lease_inv_def by (auto split: option.splits)
  moreover have "tok ` live_leases s \<subseteq> dom (scores (lz_set s))"
    using assms(2) by (auto simp: live_leases_def tok_def lease_inv_def)
  moreover have "finite (dom (scores (lz_set s)))" by (rule zset_lawsD(1) [OF lease_lawsD(1) [OF assms(1)]])
  ultimately show ?thesis by (meson card_inj_on_le inj_on_finite)
qed

text \<open>
  An admission counts every call whose lease has not run out: afterwards those calls, the new one
  among them, are within its limit.
\<close>

lemma admission_counts_live_leases:
  assumes laws: "lease_laws scores ops" and reach: "lease_reach ops z0 s"
    and ca: "lz_calls s c = Some ca" "lc_pc ca = Polling"
    and admitted: "fst (acquire_script ops (lz_now s) (lc_limit ca) (lc_token ca) default_lease_ttl (lz_set s)) = 1"
  shows "c \<in> live_leases (try_lease ops c ca s) \<and> int (card (live_leases (try_lease ops c ca s))) \<le> lc_limit ca"
proof -
  let ?z = "zremrange ops None (lz_now s) (lz_set s)" and ?s' = "try_lease ops c ca s"
  obtain z where a: "acquire_script ops (lz_now s) (lc_limit ca) (lc_token ca) default_lease_ttl (lz_set s) = (1, z)"
    using admitted by (metis prod.collapse)
  note f = try_lease_fields [OF a, of c] and sc = acquire_script_scores [OF laws a]
  note z = zset_lawsD [OF lease_lawsD(1) [OF laws]]
  have "lease_inv scores ?s'"
    by (rule lease_step_inv [OF laws lease_try [OF ca] lease_reach_inv [OF laws reach]])
  then have "card (live_leases ?s') \<le> card (dom (scores z))" using live_leases_card [OF laws] f(1) by metis
  also have "dom (scores z) = insert (lc_token ca) (dom (scores ?z))"
    using sc(1) lease_scores(1) [OF laws, of "lz_now s" "lz_set s"] by (auto simp: dom_def)
  also have "card (insert (lc_token ca) (dom (scores ?z))) \<le> Suc (card (dom (scores ?z)))" by (rule card_insert_le_m1) simp_all
  finally have "card (live_leases ?s') \<le> Suc (card (dom (scores ?z)))" .
  moreover have "int (card (dom (scores ?z))) < lc_limit ca" using sc(2) z(2) by simp
  ultimately have "int (card (live_leases ?s')) \<le> lc_limit ca" by linarith
  moreover have "c \<in> live_leases ?s'" by (simp add: live_leases_def f default_lease_ttl_def)
  ultimately show ?thesis by blast
qed

text \<open>
  A heartbeat whose ticker fired before the release writes the lease after the release removed it:
  the call is over and its lease stands for another time to live.
\<close>

lemma late_heartbeat_outlives_release:
  assumes laws: "lease_laws scores ops" and empty: "scores z0 = Map.empty"
  shows "\<exists>s ca. lease_reach ops z0 s \<and> lz_calls s 0 = Some ca \<and> lc_pc ca = Gone \<and>
    scores (lz_set s) (lc_token ca) = Some (lz_now s + default_lease_ttl)"
proof -
  let ?ca = "\<lambda>pc b. \<lparr>lc_token = ''t'', lc_limit = 1, lc_pc = pc, lc_beat = b, lc_until = default_lease_ttl\<rparr>"
  let ?c0 = "\<lparr>lc_token = ''t'', lc_limit = 1, lc_pc = Polling, lc_beat = No_Beat, lc_until = 0\<rparr>"
  let ?s1 = "put_call 0 ?c0 (start_leases z0)"
  let ?s2 = "try_lease ops 0 ?c0 ?s1"
  obtain res z where a: "acquire_script ops 0 1 ''t'' default_lease_ttl z0 = (res, z)" by fastforce
  have "dom (scores (zremrange ops None 0 z0)) = {}" by (simp add: fun_eq_iff lease_scores(1) [OF laws] empty)
  then have "res = 1" using acquire_script_scores(2) [OF laws a] zset_lawsD(2) [OF lease_lawsD(1) [OF laws]] by simp
  then have s2: "lz_calls ?s2 = [0 \<mapsto> ?ca Leased Beat_Waiting]" "lz_now ?s2 = 0"
    using a by (simp_all add: try_lease_def start_leases_def put_call_def)
  let ?s3 = "put_call 0 (?ca Leased Beat_Writing) ?s2"
  let ?s4 = "put_call 0 (?ca Closing Beat_Writing) ?s3"
  let ?s5 = "(put_call 0 (?ca Gone Beat_Writing) ?s4)\<lparr>lz_set := zrem ops ''t'' (lz_set ?s4)\<rparr>"
  let ?s6 = "(put_call 0 (?ca Gone Beat_Waiting) ?s5)\<lparr>lz_set := write_lease ops 0 ''t'' (lz_set ?s5)\<rparr>"
  have "lease_reach ops z0 (start_leases z0)" by (rule lreach_start)
  then have "lease_reach ops z0 ?s1" by (rule lreach_next, intro lease_begin) (simp_all add: start_leases_def)
  then have "lease_reach ops z0 ?s2" by (rule lreach_next, intro lease_try) simp_all
  then have "lease_reach ops z0 ?s3"
    using lreach_next [OF _ beat_tick [of ?s2 0 "?ca Leased Beat_Waiting"]] by (simp add: s2)
  then have "lease_reach ops z0 ?s4"
    using lreach_next [OF _ lease_close [of ?s3 0 "?ca Leased Beat_Writing"]] by (simp add: s2)
  then have "lease_reach ops z0 ?s5"
    using lreach_next [OF _ lease_remove [of ?s4 0 "?ca Closing Beat_Writing"]] by (simp add: s2)
  then have "lease_reach ops z0 ?s6"
    using lreach_next [OF _ beat_write [of ?s5 0 "?ca Gone Beat_Writing"]] by (simp add: s2)
  then show ?thesis
    by (intro exI [of _ ?s6] exI [of _ "?ca Gone Beat_Waiting"]) (simp add: s2 lease_scores(2) [OF laws])
qed

section \<open>Property\<close>

definition first_call :: model_slots where
  "first_call = acquire_begin 0 ''m'' 2 new_local_limiter"

definition second_call :: model_slots where
  "second_call = acquire_begin 1 ''m'' 5 first_call"


definition taken_slot :: model_slots where
  "taken_slot =
     (let ca = \<lparr>sc_key = ''m'', sc_pc = Slot_Waiting\<rparr>; s = acquire_count 0 \<lparr>sc_key = ''m'', sc_pc = Slot_Arrived\<rparr> second_call
      in acquire_slot 0 ca \<lparr>sem_cap = 2, sem_len = 0\<rparr> s)"


end
