(* ===== verification/Route_Paths.thy ===== *)
theory Route_Paths
  imports Prelude
begin

text \<open>
  The request paths the authentication layer knows by shape: \<^verbatim>\<open>isNoAuthAPI\<close>,
  \<^verbatim>\<open>isTenantOptionalAPI\<close>, \<^verbatim>\<open>isTenantlessPublicReadPath\<close>,
  \<^verbatim>\<open>matchTenantlessKBReadShape\<close>, \<^verbatim>\<open>isTenantlessKBLifecyclePath\<close> and
  \<^verbatim>\<open>isPlatformTenantOptionalAPI\<close> of \<^verbatim>\<open>internal/middleware/auth.go\<close>,
  \<^verbatim>\<open>IsGuestChatAPI\<close> of \<^verbatim>\<open>guest_chat.go\<close> and \<^verbatim>\<open>normalizeRoutePath\<close> of
  \<^verbatim>\<open>api_key_gate.go\<close>, with the Go string functions they use (\<^verbatim>\<open>strings.Split\<close> on a
  slash, \<^verbatim>\<open>CutPrefix\<close>, \<^verbatim>\<open>TrimSuffix\<close>, \<^verbatim>\<open>ReplaceAll\<close>, \<^verbatim>\<open>ToUpper\<close>,
  \<^verbatim>\<open>strconv.ParseUint\<close> and \<^verbatim>\<open>FormatUint\<close>). The lemmas say which paths a shape can
  match at all: a tenantless read is a \<^verbatim>\<open>GET\<close> or one of three searches, never another write.
\<close>

section \<open>Strings\<close>

definition slash :: char where "slash = CHR ''/''"

fun split_slash :: "string \<Rightarrow> string list" where
  "split_slash [] = [[]]"
| "split_slash (c # s) =
     (if c = slash then [] # split_slash s
      else (case split_slash s of [] \<Rightarrow> [[c]] | w # ws \<Rightarrow> (c # w) # ws))"

fun join_slash :: "string list \<Rightarrow> string" where
  "join_slash [] = []"
| "join_slash [w] = w"
| "join_slash (w # ws) = w @ slash # join_slash ws"

definition cut_prefix :: "string \<Rightarrow> string \<Rightarrow> string option" where
  "cut_prefix s p = (if has_prefix s p then Some (drop (length p) s) else None)"

definition trim_prefix :: "string \<Rightarrow> string \<Rightarrow> string" where
  "trim_prefix s p = (if has_prefix s p then drop (length p) s else s)"

definition trim_suffix :: "string \<Rightarrow> string \<Rightarrow> string" where
  "trim_suffix s p = (if has_suffix s p then take (length s - length p) s else s)"

text \<open>\<^verbatim>\<open>strings.ReplaceAll(p, "//", "/")\<close>: from the left, without overlaps.\<close>

fun halve_slashes :: "string \<Rightarrow> string" where
  "halve_slashes [] = []"
| "halve_slashes [c] = [c]"
| "halve_slashes (c # d # s) =
     (if c = slash \<and> d = slash then slash # halve_slashes s else c # halve_slashes (d # s))"

lemma halve_slashes_length: "length (halve_slashes s) \<le> length s"
  by (induction s rule: halve_slashes.induct) auto

lemma has_prefix_double:
  "has_prefix s [slash, slash] \<longleftrightarrow> (\<exists>t. s = slash # slash # t)"
  by (auto simp: has_prefix_iff)

lemma contains_double_Cons:
  "contains_sub (c # s) [slash, slash] \<longleftrightarrow>
     (c = slash \<and> (\<exists>t. s = slash # t)) \<or> contains_sub s [slash, slash]"
  unfolding contains_sub_def by (subst index_of.simps) (auto simp: has_prefix_double)

lemma halve_slashes_shorter:
  "contains_sub s [slash, slash] \<Longrightarrow> length (halve_slashes s) < length s"
proof (induction s rule: halve_slashes.induct)
  case 1
  then show ?case by (auto simp: contains_sub_iff)
next
  case (2 c)
  then show ?case by (auto simp: contains_sub_iff Cons_eq_append_conv)
next
  case (3 c d s)
  show ?case
  proof (cases "c = slash \<and> d = slash")
    case True
    with halve_slashes_length [of s] show ?thesis by simp
  next
    case False
    with "3.prems" have "contains_sub (d # s) [slash, slash]"
      by (auto simp: contains_double_Cons [of c])
    with "3.IH"(2) False show ?thesis by auto
  qed
qed

function collapse_slashes :: "string \<Rightarrow> string" where
  "collapse_slashes p =
     (if contains_sub p [slash, slash] then collapse_slashes (halve_slashes p) else p)"
  by pat_completeness auto
termination
  by (relation "measure length") (simp_all add: halve_slashes_shorter)

declare collapse_slashes.simps [simp del]

definition normalize_route_path :: "string \<Rightarrow> string" where
  "normalize_route_path p =
     (if p = [] then []
      else let p = collapse_slashes p in if 1 < length p then trim_suffix p [slash] else p)"

text \<open>
  \<^verbatim>\<open>strings.ToUpper\<close>, exact on ASCII and on the two runes outside ASCII whose upper case is
  an ASCII letter (U+0131 to \<^verbatim>\<open>I\<close>, U+017F to \<^verbatim>\<open>S\<close>); HTTP methods are ASCII tokens.
\<close>

definition ascii_upper :: "char \<Rightarrow> char" where
  "ascii_upper c =
     (if 97 \<le> (of_char c :: nat) \<and> (of_char c :: nat) \<le> 122
      then char_of ((of_char c :: nat) - 32) else c)"

function to_upper :: "string \<Rightarrow> string" where
  "to_upper s =
     (case s of
        [] \<Rightarrow> []
      | c # t \<Rightarrow>
          if take 2 s = [CHR 0xC4, CHR 0xB1] then CHR ''I'' # to_upper (drop 2 s)
          else if take 2 s = [CHR 0xC5, CHR 0xBF] then CHR ''S'' # to_upper (drop 2 s)
          else ascii_upper c # to_upper t)"
  by pat_completeness auto
termination
  by (relation "measure length") auto

declare to_upper.simps [simp del]

subsection \<open>Decimal numbers\<close>

definition digit_char :: "nat \<Rightarrow> char" where
  "digit_char d = char_of (48 + d)"

fun dec_nat :: "nat \<Rightarrow> string" where
  "dec_nat n = (if n < 10 then [digit_char n] else dec_nat (n div 10) @ [digit_char (n mod 10)])"

declare dec_nat.simps [simp del]

definition format_uint :: "uint64 \<Rightarrow> string" where
  "format_uint w = dec_nat (unat w)"

definition char_is_digit :: "char \<Rightarrow> bool" where
  "char_is_digit c \<longleftrightarrow> 48 \<le> (of_char c :: nat) \<and> (of_char c :: nat) \<le> 57"

definition digits_value :: "string \<Rightarrow> nat" where
  "digits_value s = fold (\<lambda>c n. n * 10 + (of_char c - 48)) s 0"

text \<open>\<^verbatim>\<open>strconv.ParseUint(s, 10, 64)\<close>; \<open>None\<close> for a syntax or range error.\<close>

definition parse_uint :: "string \<Rightarrow> uint64 option" where
  "parse_uint s =
     (if s = [] \<or> \<not> list_all char_is_digit s \<or> 2 ^ 64 \<le> digits_value s then None
      else Some (of_nat (digits_value s)))"

section \<open>Routes without authentication\<close>

definition m_get :: string where "m_get = ''GET''"
definition m_post :: string where "m_post = ''POST''"
definition m_put :: string where "m_put = ''PUT''"
definition m_delete :: string where "m_delete = ''DELETE''"
definition m_options :: string where "m_options = ''OPTIONS''"

lemmas method_names = m_get_def m_post_def m_put_def m_delete_def m_options_def

definition no_auth_api :: "(string \<times> string list) list" where
  "no_auth_api =
     [(''/health'', [''GET'']),
      (''/api/v1/auth/register'', [''POST'']),
      (''/api/v1/auth/login'', [''POST'']),
      (''/api/v1/auth/invitations/lookup'', [''POST'']),
      (''/api/v1/auth/register-by-invite'', [''POST'']),
      (''/api/v1/auth/config'', [''GET'']),
      (''/api/v1/auth/oidc/config'', [''GET'']),
      (''/api/v1/auth/oidc/url'', [''GET'']),
      (''/api/v1/auth/oidc/start'', [''GET'']),
      (''/api/v1/auth/oidc/callback'', [''GET'']),
      (''/api/v1/mcp-oauth/callback'', [''GET'']),
      (''/api/v1/auth/refresh'', [''POST'']),
      (''/api/v1/auth/device/start'', [''POST'']),
      (''/api/v1/auth/device/poll'', [''POST'']),
      (''/api/v1/files/presigned'', [''GET'', ''HEAD'']),
      (''/api/v1/system/ui-theme'', [''GET'']),
      (''/api/v1/billing/payments/webhook'', [''POST''])]"

definition is_no_auth_api :: "string \<Rightarrow> string \<Rightarrow> bool" where
  "is_no_auth_api path method =
     list_ex (\<lambda>(api, methods).
       if has_suffix api ''*''
       then has_prefix path (trim_suffix api ''*'') \<and> method \<in> set methods
       else path = api \<and> method \<in> set methods) no_auth_api"

section \<open>Routes that need no tenant\<close>

datatype route_scope = RouteScopeIdentity | RouteScopePlatform

record tenant_optional_route =
  ro_scope :: route_scope
  ro_path :: string
  ro_prefix :: bool
  ro_methods :: "string list"

definition exact_route :: "string \<Rightarrow> string list \<Rightarrow> tenant_optional_route" where
  "exact_route p ms = \<lparr>ro_scope = RouteScopeIdentity, ro_path = p, ro_prefix = False, ro_methods = ms\<rparr>"

definition tenant_optional_routes :: "tenant_optional_route list" where
  "tenant_optional_routes =
     [exact_route ''/api/v1/auth/me'' [m_get, m_put],
      exact_route ''/api/v1/auth/me/preferences'' [m_put],
      exact_route ''/api/v1/auth/provinces'' [m_get],
      exact_route ''/api/v1/auth/logout'' [m_post],
      exact_route ''/api/v1/auth/change-password'' [m_post],
      exact_route ''/api/v1/auth/validate'' [m_get],
      exact_route ''/api/v1/auth/switch-tenant'' [m_post],
      (exact_route ''/api/v1/auth/2fa/'' [])\<lparr>ro_prefix := True\<rparr>,
      (exact_route ''/api/v1/me/invitations'' [])\<lparr>ro_prefix := True\<rparr>,
      exact_route ''/api/v1/tenants'' [m_post],
      exact_route ''/api/v1/tenants/directory'' [m_get],
      \<lparr>ro_scope = RouteScopePlatform, ro_path = ''/api/v1/system/admin/'', ro_prefix = True,
        ro_methods = []\<rparr>]"

definition route_matches :: "tenant_optional_route \<Rightarrow> string \<Rightarrow> string \<Rightarrow> bool" where
  "route_matches r path method =
     (if (if ro_prefix r then \<not> has_prefix path (ro_path r) else path \<noteq> ro_path r) then False
      else if ro_methods r = [] then True
      else list_ex (\<lambda>m. m = method) (ro_methods r))"

definition match_tenantless_kb_read_shape :: "string \<Rightarrow> bool \<Rightarrow> bool \<Rightarrow> bool" where
  "match_tenantless_kb_read_shape rest is_get is_post =
     (let segs = split_slash rest in
      if segs = [] \<or> hd segs = [] \<or> hd segs = ''public'' \<or> hd segs = ''copy'' then False
      else case segs of
        [_] \<Rightarrow> is_get
      | [_, b] \<Rightarrow>
          if b = ''hybrid-search'' then is_get \<or> is_post
          else if \<not> is_get then False
          else b \<in> {''knowledge'', ''tags'', ''access'', ''files'', ''entity-graph'', ''legal-graph''}
      | [_, b, d] \<Rightarrow>
          if b = ''legal-graph'' then d = ''focus'' \<and> is_get
          else if b = ''knowledge''
          then (if d = ''folders'' then is_get else d = ''batch-download'' \<and> is_post)
          else if b = ''faq''
          then (if d = ''entries'' then is_get else if d = ''search'' then is_post else False)
          else False
      | [_, b, d, e] \<Rightarrow> is_get \<and> b = ''faq'' \<and> d = ''entries'' \<and> e \<noteq> []
      | _ \<Rightarrow> False)"

definition kb_prefix :: string where "kb_prefix = ''/api/v1/knowledge-bases/''"
definition knowledge_prefix :: string where "knowledge_prefix = ''/api/v1/knowledge/''"
definition chunks_prefix :: string where "chunks_prefix = ''/api/v1/chunks/''"
definition wiki_prefix :: string where "wiki_prefix = ''/api/v1/knowledgebase/''"

lemmas prefix_names = kb_prefix_def knowledge_prefix_def chunks_prefix_def wiki_prefix_def

definition match_knowledge_read :: "string \<Rightarrow> bool" where
  "match_knowledge_read rest =
     (if rest \<in> {''search'', ''batch'', ''move'', ''batch-delete'', ''batch-reparse'', ''folder'', ''tags''}
      then False
      else case split_slash rest of
        [a] \<Rightarrow> a \<noteq> [] \<and> a \<noteq> ''search'' \<and> a \<noteq> ''batch''
      | [a, b] \<Rightarrow> if a = [] then False else b \<in> {''stages'', ''spans'', ''download'', ''preview''}
      | _ \<Rightarrow> False)"

definition match_chunk_read :: "string \<Rightarrow> bool" where
  "match_chunk_read rest =
     (case split_slash rest of
        [a] \<Rightarrow> a \<noteq> []
      | [a, b] \<Rightarrow> a = ''by-id'' \<and> b \<noteq> []
      | [a, b, d] \<Rightarrow> a \<noteq> [] \<and> a \<noteq> ''by-id'' \<and> b \<noteq> [] \<and> d = ''revisions''
      | _ \<Rightarrow> False)"

definition match_wiki_read :: "string \<Rightarrow> bool" where
  "match_wiki_read rest =
     (let segs = split_slash rest in 3 \<le> length segs \<and> segs ! 0 \<noteq> [] \<and> segs ! 1 = ''wiki'')"

definition is_tenantless_public_read_path :: "string \<Rightarrow> string \<Rightarrow> bool" where
  "is_tenantless_public_read_path path method =
     (let is_get = (method = m_get); is_post = (method = m_post) in
      if \<not> is_get \<and> \<not> is_post then False
      else case cut_prefix path kb_prefix of
        Some rest \<Rightarrow> match_tenantless_kb_read_shape rest is_get is_post
      | None \<Rightarrow>
        case cut_prefix path knowledge_prefix of
          Some rest \<Rightarrow> if \<not> is_get then False else match_knowledge_read rest
        | None \<Rightarrow>
          case cut_prefix path chunks_prefix of
            Some rest \<Rightarrow> if \<not> is_get then False else match_chunk_read rest
          | None \<Rightarrow>
            case cut_prefix path wiki_prefix of
              Some rest \<Rightarrow> if \<not> is_get then False else match_wiki_read rest
            | None \<Rightarrow> False)"

definition is_tenantless_kb_lifecycle_path :: "string \<Rightarrow> string \<Rightarrow> bool" where
  "is_tenantless_kb_lifecycle_path path method =
     (let rest = trim_prefix path kb_prefix in
      if rest = [] \<or> has_suffix rest [slash] then False
      else case split_slash rest of
        [a] \<Rightarrow> if a = ''public'' then False else method = m_put \<or> method = m_delete
      | [a, b] \<Rightarrow>
          if b = ''grants'' \<or> b = ''invites'' then True
          else if b = ''transfer-owner'' then method = m_post
          else b = ''visibility'' \<and> method = m_put
      | [a, b, d] \<Rightarrow>
          if (b = ''grants'' \<or> b = ''invites'') \<and> method = m_delete then True
          else b = ''profile'' \<and> d = ''generate'' \<and> method = m_post
      | _ \<Rightarrow> False)"

definition is_tenant_optional_api :: "string \<Rightarrow> string \<Rightarrow> bool" where
  "is_tenant_optional_api path method =
     (if list_ex (\<lambda>r. route_matches r path method) tenant_optional_routes then True
      else if path = kb_prefix @ ''public'' \<and> method = m_post then True
      else if path = kb_prefix @ ''public'' \<and> method = m_get then True
      else if has_prefix path kb_prefix
      then is_tenantless_kb_lifecycle_path path method \<or> is_tenantless_public_read_path path method
      else if has_prefix path knowledge_prefix then is_tenantless_public_read_path path method
      else if has_prefix path chunks_prefix then is_tenantless_public_read_path path method
      else if has_prefix path wiki_prefix then is_tenantless_public_read_path path method
      else False)"

definition is_platform_tenant_optional_api :: "string \<Rightarrow> string \<Rightarrow> bool" where
  "is_platform_tenant_optional_api path0 method =
     (let path = trim_suffix (trim_space path0) [slash] in
      if path = ''/api/v1/system/admin'' \<or> has_prefix path ''/api/v1/system/admin/'' then True
      else if method = m_get \<and> (path = ''/api/v1/tenants/all'' \<or> path = ''/api/v1/tenants/search'')
      then True
      else method = m_post \<and> path = ''/api/v1/tenants'')"

section \<open>Guest chat routes\<close>

definition guest_chat_routes :: "(string \<times> string list) list" where
  "guest_chat_routes =
     [(m_post, [''sessions'']), (m_get, [''sessions'']), (m_get, [''sessions'', ''*'']),
      (m_put, [''sessions'', ''*'']), (m_delete, [''sessions'', ''*'']),
      (m_get, [''sessions'', ''*'', ''context-usage'']),
      (m_post, [''sessions'', ''*'', ''generate_title'']),
      (m_post, [''sessions'', ''*'', ''stop'']), (m_post, [''sessions'', ''*'', ''continue'']),
      (m_get, [''sessions'', ''continue-stream'', ''*'']), (m_post, [''agent-chat'', ''*'']),
      (m_get, [''messages'', ''*'', ''load'']), (m_delete, [''messages'', ''*'', ''*'']),
      (m_put, [''messages'', ''*'', ''*'', ''feedback'']), (m_get, [''agents'']),
      (m_get, [''me'', ''usage'']), (m_get, [''billing'', ''info'']), (m_get, [''billing'', ''plans'']),
      (m_get, [''billing'', ''subscription'']), (m_post, [''billing'', ''quote'']),
      (m_get, [''billing'', ''orders'']), (m_post, [''billing'', ''orders'']),
      (m_get, [''billing'', ''orders'', ''*'']), (m_post, [''billing'', ''orders'', ''*'', ''cancel''])]"

definition guest_chat_reserved :: "string list" where
  "guest_chat_reserved = [''batch'', ''continue-stream'']"

definition match_guest_chat_segs :: "string list \<Rightarrow> string list \<Rightarrow> bool" where
  "match_guest_chat_segs pattern segs =
     list_all (\<lambda>i.
       let p = pattern ! i in
       if p = ''*''
       then \<not> (i = 1 \<and> segs ! 0 = ''sessions'' \<and> segs ! 1 \<in> set guest_chat_reserved)
       else p = segs ! i) [0..<length pattern]"

definition is_guest_chat_api :: "string \<Rightarrow> string \<Rightarrow> bool" where
  "is_guest_chat_api path method =
     (case cut_prefix path ''/api/v1/'' of
        None \<Rightarrow> False
      | Some rest \<Rightarrow>
          if rest = [] then False
          else let segs = split_slash rest in
            if list_ex (\<lambda>s. s = []) segs then False
            else list_ex (\<lambda>(m, pattern).
                   m = method \<and> length pattern = length segs \<and> match_guest_chat_segs pattern segs)
                 guest_chat_routes)"

section \<open>What the shapes can match\<close>

lemma split_slash_not_Nil [simp]: "split_slash s \<noteq> []"
  by (induction s) (auto split: list.splits)

lemma split_join: "join_slash (split_slash s) = s"
proof (induction s)
  case (Cons c s)
  then show ?case by (cases "split_slash s" rule: join_slash.cases) (auto simp: slash_def)
qed simp

lemma split_no_slash: "w \<in> set (split_slash s) \<Longrightarrow> slash \<notin> set w"
  by (induction s arbitrary: w) (auto split: list.splits if_splits)

text \<open>
  A request without a tenant never writes: the shapes that admit one are reads (\<^verbatim>\<open>GET\<close>) or
  one of the three \<^verbatim>\<open>POST\<close> routes that search or download inside one knowledge base, with a
  non-empty identifier of one path segment.
\<close>

lemma tenantless_read_shape:
  assumes "is_tenantless_public_read_path path method"
  shows "method = m_get \<or> method = m_post \<and>
    (\<exists>kb. kb \<noteq> [] \<and> slash \<notin> set kb \<and>
      path \<in> {kb_prefix @ kb @ ''/hybrid-search'', kb_prefix @ kb @ ''/knowledge/batch-download'',
               kb_prefix @ kb @ ''/faq/search''})"
proof (cases "method = m_get")
  case False
  with assms have post: "method = m_post" by (auto simp: is_tenantless_public_read_path_def Let_def split: if_splits)
  with False assms obtain rest where path: "path = kb_prefix @ rest"
    and shape: "match_tenantless_kb_read_shape rest False True"
    by (auto simp: is_tenantless_public_read_path_def Let_def cut_prefix_def has_prefix_iff method_names
        split: if_splits)
  have joined: "rest = join_slash (split_slash rest)" by (simp add: split_join)
  let ?kb = "hd (split_slash rest)"
  have "?kb \<noteq> []" "slash \<notin> set ?kb"
    using shape split_no_slash [of ?kb rest]
    by (auto simp: match_tenantless_kb_read_shape_def Let_def split: if_splits)
  moreover have "rest = ?kb @ ''/hybrid-search'' \<or> rest = ?kb @ ''/knowledge/batch-download'' \<or>
      rest = ?kb @ ''/faq/search''"
    using shape
    by (subst (1 3 5) joined)
      (auto simp: match_tenantless_kb_read_shape_def Let_def slash_def split: if_splits list.splits)
  ultimately show ?thesis using post path by auto
qed simp

end
