(* ===== verification/Auth_Request.thy ===== *)
theory Auth_Request
  imports Kb_Rules Route_Paths
begin

text \<open>
  Authentication of a request: \<^verbatim>\<open>internal/middleware/auth.go\<close>, \<^verbatim>\<open>auth_context.go\<close>,
  \<^verbatim>\<open>guest_chat.go\<close> and \<^verbatim>\<open>IsTenantAccessible\<close> of \<^verbatim>\<open>access.go\<close>. A gin context is the
  record \<open>gin\<close>: the request (method, path, route template, headers, path parameters), the
  request context and the identity keys of \<^verbatim>\<open>c.Keys\<close>. A handler either calls
  \<^verbatim>\<open>c.Next()\<close> on a context (\<open>Proceed\<close>) or writes a response and aborts (\<open>Rejected\<close>: status,
  error text, error code). The services (tenants, memberships, users, API keys) are records of
  functions that return an error or a value, the database as one request sees it; they are the
  wired ones, so the code's checks for a nil service or user have no branch here, except the
  one with a response of its own. \<^verbatim>\<open>verifyExternalUserJWT\<close> is the argument \<open>verify\<close>.
\<close>

section \<open>Users and services\<close>

record user =
  u_id :: string
  u_tenant_id :: tenant_id
  u_active :: bool
  u_system_admin :: bool

record tenant_service =
  get_tenant_by_id :: "tenant_id \<Rightarrow> string + tenant option"
  get_tenants_by_ids :: "tenant_id list \<Rightarrow> string + (tenant_id \<Rightarrow> tenant option)"
  get_public_portal :: "(string + tenant option) option"

record member_service =
  get_membership :: "string \<Rightarrow> tenant_id \<Rightarrow> string + tenant_member option"
  list_by_user :: "string \<Rightarrow> string + tenant_member option list"

datatype token_error = TokenUserDisabled | TokenError string

record user_service =
  validate_token :: "string \<Rightarrow> token_error + (user option \<times> tenant_id)"
  get_user_by_tenant_id :: "tenant_id \<Rightarrow> string + user option"

type_synonym api_key_service = "string \<Rightarrow> string + tenant_api_key option"
type_synonym external_verifier = "string \<Rightarrow> tenant_id \<Rightarrow> string \<Rightarrow> string + string"

definition member_active :: "tenant_member option \<Rightarrow> bool" where
  "member_active m = (case m of None \<Rightarrow> False | Some m \<Rightarrow> m_status m = ''active'')"

section \<open>The request\<close>

record gin =
  gc_method :: string
  gc_path :: string
  gc_full_path :: string
  gc_header :: "string \<Rightarrow> string"
  gc_param :: "string \<Rightarrow> string"
  gc_ctx :: ctx
  gc_tenant_key :: "tenant_id option"
  gc_user_key :: "string option"
  gc_role_key :: "string option"
  gc_kb_access :: "kb_access option"

datatype verdict = Rejected nat string string | Proceed gin

type_synonym middleware = "gin \<Rightarrow> verdict"

definition bearer_prefix :: string where "bearer_prefix = ''Bearer ''"

definition bearer_token :: "gin \<Rightarrow> string option" where
  "bearer_token c =
     (let h = gc_header c ''Authorization'' in
      if h = [] \<or> \<not> has_prefix h bearer_prefix then None else Some (trim_prefix h bearer_prefix))"

section \<open>The session\<close>

record auth_session =
  ss_user :: "user option"
  ss_principal :: principal
  ss_tenant_id :: tenant_id
  ss_tenant :: "tenant option"
  ss_role :: string
  ss_system_admin :: bool
  ss_scope :: "api_key_scope option"

definition session_context :: "ctx \<Rightarrow> auth_session \<Rightarrow> ctx" where
  "session_context ctx s =
     (let x1 = (if ss_tenant_id s \<noteq> 0 then ctx\<lparr>v_tenant_id := Some (ss_tenant_id s)\<rparr> else ctx);
          x2 = (case ss_tenant s of Some t \<Rightarrow> x1\<lparr>v_tenant_info := Some t\<rparr> | None \<Rightarrow> x1);
          x3 = (case ss_user s of Some u \<Rightarrow> x2\<lparr>v_user_id := Some (u_id u)\<rparr> | None \<Rightarrow> x2);
          x4 = with_principal x3 (ss_principal s);
          x5 = (if ss_role s \<noteq> [] then x4\<lparr>v_role := Some (ss_role s)\<rparr> else x4);
          x6 = x5\<lparr>v_system_admin := Some (ss_system_admin s)\<rparr>;
          x7 = (case ss_scope s of Some k \<Rightarrow> with_tenant_api_key_scope x6 k | None \<Rightarrow> x6)
      in with_caller x7 \<lparr>c_tenant_id = ss_tenant_id s,
           c_user_id = (case ss_user s of Some u \<Rightarrow> u_id u | None \<Rightarrow> []), c_role = ss_role s\<rparr>)"

definition apply_auth_session :: "gin \<Rightarrow> auth_session \<Rightarrow> gin" where
  "apply_auth_session c s =
     c\<lparr>gc_ctx := session_context (gc_ctx c) s,
       gc_tenant_key := (if ss_tenant_id s \<noteq> 0 then Some (ss_tenant_id s) else gc_tenant_key c),
       gc_user_key := (case ss_user s of Some u \<Rightarrow> Some (u_id u) | None \<Rightarrow> gc_user_key c),
       gc_role_key := (if ss_role s \<noteq> [] then Some (ss_role s) else gc_role_key c)\<rparr>"

definition web_principal :: "user \<Rightarrow> principal" where
  "web_principal u = \<lparr>p_type = principal_web_user, p_id = u_id u\<rparr>"

definition user_session :: "user \<Rightarrow> tenant_id \<Rightarrow> tenant option \<Rightarrow> string \<Rightarrow> bool \<Rightarrow> auth_session" where
  "user_session u tid t role admin =
     \<lparr>ss_user = Some u, ss_principal = web_principal u, ss_tenant_id = tid, ss_tenant = t,
      ss_role = role, ss_system_admin = admin, ss_scope = None\<rparr>"

definition attach_tenantless_user_context :: "gin \<Rightarrow> user \<Rightarrow> gin" where
  "attach_tenantless_user_context c u =
     apply_auth_session c (user_session u 0 None [] (u_system_admin u))"

section \<open>Guests\<close>

definition active_tenant_ids :: "tenant_member option list \<Rightarrow> tenant_id list" where
  "active_tenant_ids members =
     List.map_filter (\<lambda>m. case m of
        Some m \<Rightarrow> if m_tenant_id m \<noteq> 0 \<and> m_status m = ''active'' then Some (m_tenant_id m) else None
      | None \<Rightarrow> None) members"

definition is_guest_user :: "tenant_service \<Rightarrow> member_service \<Rightarrow> user \<Rightarrow> bool" where
  "is_guest_user ts ms u =
     (if \<not> u_active u \<or> u_system_admin u \<or> is_synthetic_user_id (u_id u) then False
      else case list_by_user ms (u_id u) of
        Inl _ \<Rightarrow> False
      | Inr members \<Rightarrow>
          let ids = active_tenant_ids members in
          if ids = [] then True
          else case get_tenants_by_ids ts ids of
            Inl _ \<Rightarrow> False
          | Inr tenants \<Rightarrow>
              \<not> list_ex (\<lambda>m. case m of
                   Some r \<Rightarrow> counts_as_membership m (tenants (m_tenant_id r))
                 | None \<Rightarrow> False) members)"

definition attach_public_portal_guest :: "tenant_service \<Rightarrow> gin \<Rightarrow> user \<Rightarrow> gin option" where
  "attach_public_portal_guest ts c u =
     (case get_public_portal ts of
        Some (Inr (Some portal)) \<Rightarrow>
          Some (apply_auth_session c (user_session u (t_id portal) (Some portal) [] False))
      | _ \<Rightarrow> None)"

definition try_guest_chat :: "tenant_service \<Rightarrow> member_service \<Rightarrow> gin \<Rightarrow> user \<Rightarrow> gin option" where
  "try_guest_chat ts ms c u =
     (if \<not> is_guest_chat_api (gc_path c) (gc_method c) then None
      else if \<not> is_guest_user ts ms u then None
      else attach_public_portal_guest ts c u)"

section \<open>The target tenant\<close>

definition is_tenant_accessible :: "member_service \<Rightarrow> user \<Rightarrow> tenant_id \<Rightarrow> bool" where
  "is_tenant_accessible ms u target =
     (if target = 0 then False
      else if u_tenant_id u = target then True
      else if u_system_admin u then True
      else case get_membership ms (u_id u) target of
        Inl _ \<Rightarrow> False
      | Inr m \<Rightarrow> member_active m)"

primrec first_live_membership :: "tenant_service \<Rightarrow> tenant_member option list \<Rightarrow> tenant_id" where
  "first_live_membership ts [] = 0"
| "first_live_membership ts (m # ms) =
     (case m of
        None \<Rightarrow> first_live_membership ts ms
      | Some r \<Rightarrow>
          if m_tenant_id r = 0 \<or> m_status r \<noteq> ''active'' then first_live_membership ts ms
          else case get_tenant_by_id ts (m_tenant_id r) of
            Inr (Some _) \<Rightarrow> m_tenant_id r
          | _ \<Rightarrow> first_live_membership ts ms)"

definition resolve_first_membership_target :: "tenant_service \<Rightarrow> member_service \<Rightarrow> user \<Rightarrow> tenant_id" where
  "resolve_first_membership_target ts ms u =
     (case list_by_user ms (u_id u) of Inl _ \<Rightarrow> 0 | Inr members \<Rightarrow> first_live_membership ts members)"

text \<open>The tenant, the tenant when it was loaded already, and whether it is not the home one.\<close>

definition resolve_target_tenant ::
  "tenant_service \<Rightarrow> member_service \<Rightarrow> user \<Rightarrow> tenant_id \<Rightarrow> gin \<Rightarrow>
     verdict + (tenant_id \<times> tenant option \<times> bool)" where
  "resolve_target_tenant ts ms u jwt_tenant c =
     (let claim = (if jwt_tenant = 0 then u_tenant_id u else jwt_tenant);
          header = gc_header c ''X-Tenant-ID'';
          target = (if claim = 0 then resolve_first_membership_target ts ms u else claim);
          by_claim = Inr (target, None, target \<noteq> u_tenant_id u)
      in if header = [] then by_claim
         else case parse_uint header of
           None \<Rightarrow> Inl (Rejected 400 ''Invalid X-Tenant-ID header'' [])
         | Some parsed \<Rightarrow>
             if parsed = 0 then Inl (Rejected 400 ''Invalid X-Tenant-ID header'' [])
             else
               let accessible = is_tenant_accessible ms u parsed;
                   loaded = (if accessible then get_tenant_by_id ts parsed else Inr None)
               in (case loaded of
                     Inr (Some t) \<Rightarrow> Inr (parsed, Some t, parsed \<noteq> u_tenant_id u)
                   | _ \<Rightarrow>
                       if is_guest_chat_api (gc_path c) (gc_method c) \<and> is_guest_user ts ms u
                       then by_claim
                       else if \<not> accessible
                       then Inl (Rejected 403
                              ''Forbidden: insufficient permissions to access target organization'' [])
                       else Inl (Rejected 400 ''Invalid target organization ID'' [])))"

definition resolve_tenant_role :: "member_service \<Rightarrow> user \<Rightarrow> tenant_id \<Rightarrow> string option" where
  "resolve_tenant_role ms u target =
     (case get_membership ms (u_id u) target of
        Inr (Some m) \<Rightarrow> if m_status m = ''active'' then Some (m_role m) else None
      | _ \<Rightarrow> None)"

section \<open>Signed-in users\<close>

definition or_guest_chat ::
  "tenant_service \<Rightarrow> member_service \<Rightarrow> gin \<Rightarrow> user \<Rightarrow> verdict \<Rightarrow> verdict" where
  "or_guest_chat ts ms c u otherwise =
     (case try_guest_chat ts ms c u of Some c' \<Rightarrow> Proceed c' | None \<Rightarrow> otherwise)"

text \<open>The part of \<^verbatim>\<open>authenticateJWTUser\<close> after the tenant has been loaded.\<close>

definition enter_tenant ::
  "tenant_service \<Rightarrow> member_service \<Rightarrow> user \<Rightarrow> tenant_id \<Rightarrow> tenant \<Rightarrow> middleware" where
  "enter_tenant ts ms u target t c =
     (if is_hidden_tenant (Some t) then Rejected 403 ''Forbidden: not an organization'' []
      else case resolve_tenant_role ms u target of
        Some role \<Rightarrow>
          Proceed (apply_auth_session c (user_session u target (Some t) role (u_system_admin u)))
      | None \<Rightarrow>
          let tenantless = is_tenant_optional_api (gc_path c) (gc_method c) in
          if u_system_admin u \<and> \<not> is_synthetic_user_id (u_id u)
          then (if tenantless then Proceed (attach_tenantless_user_context c u)
                else Proceed (apply_auth_session c (user_session u target (Some t) [] True)))
          else if tenantless then Proceed (attach_tenantless_user_context c u)
          else or_guest_chat ts ms c u
                 (Rejected 403 ''Forbidden: not a member of the target organization''
                    ''TENANT_MEMBERSHIP_REQUIRED''))"

definition authenticate_jwt_user ::
  "tenant_service \<Rightarrow> member_service \<Rightarrow> user \<Rightarrow> tenant_id \<Rightarrow> middleware" where
  "authenticate_jwt_user ts ms u jwt_tenant c =
     (case resolve_target_tenant ts ms u jwt_tenant c of
        Inl v \<Rightarrow> v
      | Inr (target, tenant, _) \<Rightarrow>
          if target = 0
          then (if is_tenant_optional_api (gc_path c) (gc_method c)
                then Proceed (attach_tenantless_user_context c u)
                else or_guest_chat ts ms c u
                       (Rejected 409 ''Organization required'' ''TENANT_REQUIRED''))
          else (case (case tenant of Some t \<Rightarrow> Inr (Some t) | None \<Rightarrow> get_tenant_by_id ts target) of
                  Inr (Some t) \<Rightarrow> enter_tenant ts ms u target t c
                | _ \<Rightarrow> or_guest_chat ts ms c u
                        (Rejected 401 ''Unauthorized: invalid organization'' [])))"

text \<open>
  \<^verbatim>\<open>AttachAuthenticatedUser\<close> of \<^verbatim>\<open>ws_auth.go\<close>: the session of a WebSocket ticket.
\<close>

definition attach_authenticated_user ::
  "tenant_service \<Rightarrow> member_service \<Rightarrow> user option \<Rightarrow> tenant_id \<Rightarrow> middleware" where
  "attach_authenticated_user ts ms u0 jwt_tenant c =
     (case u0 of
        None \<Rightarrow> Rejected 401 ''Unauthorized: invalid or expired token'' []
      | Some u \<Rightarrow>
          let c' = (if jwt_tenant \<noteq> 0 \<and> trim_space (gc_header c ''X-Tenant-ID'') = []
                    then c\<lparr>gc_header := (gc_header c)(''X-Tenant-ID'' := format_uint jwt_tenant)\<rparr>
                    else c)
          in authenticate_jwt_user ts ms u jwt_tenant c')"

section \<open>API keys\<close>

definition principal_api_tenant :: string where "principal_api_tenant = ''api_tenant''"
definition principal_api_platform :: string where "principal_api_platform = ''api_platform''"
definition principal_api_external_user :: string where
  "principal_api_external_user = ''api_external_user''"

definition max_external_user_id_len :: nat where "max_external_user_id_len = 128"

text \<open>A rune below 0x20 or equal to 0x7f is one byte, so the loop over the runes sees the bytes.\<close>

definition validate_external_user_id :: "string \<Rightarrow> string + unit" where
  "validate_external_user_id id0 =
     (let i = trim_space id0 in
      if i = [] then Inl ''empty external user id''
      else if max_external_user_id_len < length i then Inl ''external user id too long (max 128)''
      else if list_ex (\<lambda>c. (of_char c :: nat) < 32 \<or> (of_char c :: nat) = 127) i
      then Inl ''external user id contains invalid characters''
      else Inr ())"

datatype principal_error = MissingDirectHeader | InvalidExternalUserID | InvalidExternalUserToken

definition api_principal_auth_error_message :: "principal_error \<Rightarrow> string" where
  "api_principal_auth_error_message e =
     (case e of
        MissingDirectHeader \<Rightarrow> ''Unauthorized: missing external user id header''
      | InvalidExternalUserID \<Rightarrow> ''Unauthorized: invalid external user id''
      | InvalidExternalUserToken \<Rightarrow> ''Unauthorized: invalid external user token'')"

definition external_principal :: "tenant_id \<Rightarrow> string \<Rightarrow> principal" where
  "external_principal tid ext =
     \<lparr>p_type = principal_api_external_user, p_id = format_uint tid @ '':'' @ ext\<rparr>"

definition resolve_api_principal ::
  "external_verifier \<Rightarrow> tenant option \<Rightarrow> (string \<Rightarrow> string) \<Rightarrow> principal_error + principal" where
  "resolve_api_principal verify t0 header =
     (let tid = (case t0 of Some t \<Rightarrow> t_id t | None \<Rightarrow> 0);
          fallback = \<lparr>p_type = principal_api_tenant, p_id = format_uint tid\<rparr>
      in case (if tid = 0 then None else t_principal_cfg (the t0)) of
           None \<Rightarrow> Inr fallback
         | Some cfg \<Rightarrow>
             if pc_mode cfg = [] \<or> pc_mode cfg = ''tenant'' then Inr fallback
             else if pc_mode cfg = ''direct_header''
             then (let ext = trim_space (header ''X-External-User-ID'') in
                   if ext = []
                   then (if pc_require_direct cfg then Inl MissingDirectHeader else Inr fallback)
                   else case validate_external_user_id ext of
                     Inl _ \<Rightarrow> Inl InvalidExternalUserID
                   | Inr _ \<Rightarrow> Inr (external_principal tid ext))
             else if pc_mode cfg = ''signed_token''
             then (case verify (header ''X-External-User-Token'') tid (pc_secret cfg) of
                     Inl _ \<Rightarrow> Inl InvalidExternalUserToken
                   | Inr ext \<Rightarrow>
                       if ext = [] then Inl InvalidExternalUserToken
                       else case validate_external_user_id ext of
                         Inl _ \<Rightarrow> Inl InvalidExternalUserID
                       | Inr _ \<Rightarrow> Inr (external_principal tid ext))
             else Inr fallback)"

definition platform_api_key_identity :: "tenant_api_key \<Rightarrow> principal \<times> user" where
  "platform_api_key_identity key =
     (let p = \<lparr>p_type = principal_api_platform, p_id = format_uint (tk_id key)\<rparr>
      in (p, \<lparr>u_id = principal_storage_id p, u_tenant_id = 0, u_active = True, u_system_admin = False\<rparr>))"

definition attach_platform_api_key_auth_context :: "gin \<Rightarrow> tenant_api_key \<Rightarrow> gin" where
  "attach_platform_api_key_auth_context c key =
     (case platform_api_key_identity key of (p, u) \<Rightarrow>
        apply_auth_session c
          \<lparr>ss_user = Some u, ss_principal = p, ss_tenant_id = 0, ss_tenant = None,
           ss_role = role_member, ss_system_admin = False,
           ss_scope = Some \<lparr>key_id = tk_id key, key_name = tk_name key,
             scope_type = api_key_scope_platform, full_access = False,
             knowledge_base_ids = [], capabilities = tk_capabilities key\<rparr>\<rparr>)"

text \<open>The user an organization key acts as.\<close>

definition acting_user :: "user_service \<Rightarrow> tenant_id \<Rightarrow> verdict + user" where
  "acting_user us tid =
     (case get_user_by_tenant_id us tid of
        Inr (Some u) \<Rightarrow>
          if u_active u then Inr u
          else Inl (Rejected 401 ''API key owner account is disabled'' ''ACCOUNT_DISABLED'')
      | _ \<Rightarrow> Inr \<lparr>u_id = synthetic_prefix @ format_uint tid, u_tenant_id = tid, u_active = True,
                u_system_admin = False\<rparr>)"

definition key_identity ::
  "user_service \<Rightarrow> external_verifier \<Rightarrow> tenant option \<Rightarrow> tenant_id \<Rightarrow> tenant_api_key \<Rightarrow>
     (string \<Rightarrow> string) \<Rightarrow> verdict + (principal \<times> user)" where
  "key_identity us verify t tid key header =
     (if tenant_api_key_is_platform (Some key)
      then (case platform_api_key_identity key of (p, u) \<Rightarrow> Inr (p, u\<lparr>u_tenant_id := tid\<rparr>))
      else bind_sum (acting_user us tid) (\<lambda>u.
             case resolve_api_principal verify t header of
               Inl e \<Rightarrow> Inl (Rejected 401 (api_principal_auth_error_message e) [])
             | Inr p \<Rightarrow> Inr (p, u)))"

definition attach_api_key_auth_context ::
  "tenant_service \<Rightarrow> user_service \<Rightarrow> external_verifier \<Rightarrow> tenant_id \<Rightarrow> tenant_api_key \<Rightarrow> middleware" where
  "attach_api_key_auth_context ts us verify tid key c =
     (case get_tenant_by_id ts tid of
        Inl _ \<Rightarrow> Rejected 401 ''Unauthorized: invalid API key'' []
      | Inr t \<Rightarrow>
          if is_public_portal t then Rejected 403 ''Forbidden: not an organization'' []
          else case key_identity us verify t tid key (gc_header c) of
            Inl v \<Rightarrow> v
          | Inr (p, u) \<Rightarrow>
              let full = (tk_full_access key \<and> \<not> tenant_api_key_is_platform (Some key)) in
              Proceed (apply_auth_session c
                \<lparr>ss_user = Some u, ss_principal = p, ss_tenant_id = tid, ss_tenant = t,
                 ss_role = (if full then role_admin else role_member), ss_system_admin = False,
                 ss_scope = Some \<lparr>key_id = tk_id key, key_name = tk_name key,
                   scope_type = tk_scope_type key, full_access = full,
                   knowledge_base_ids = tk_kb_ids key, capabilities = tk_capabilities key\<rparr>\<rparr>))"

definition key_request ::
  "tenant_service \<Rightarrow> user_service \<Rightarrow> external_verifier \<Rightarrow> tenant_api_key \<Rightarrow> middleware" where
  "key_request ts us verify key c =
     (let header = trim_space (gc_header c ''X-Tenant-ID'');
          bad_header = Rejected 400 ''Invalid X-Tenant-ID header'' []
      in if tenant_api_key_is_platform (Some key)
         then (if header = []
               then (if \<not> is_platform_tenant_optional_api (gc_path c) (gc_method c)
                     then Rejected 409
                            ''Organization required: platform API keys must send X-Tenant-ID''
                            ''TENANT_REQUIRED''
                     else Proceed (attach_platform_api_key_auth_context c key))
               else case parse_uint header of
                 None \<Rightarrow> bad_header
               | Some target \<Rightarrow>
                   if target = 0 then bad_header
                   else attach_api_key_auth_context ts us verify target key c)
         else
           let tid = tenant_id_value (Some key) in
           if tid = 0 then Rejected 401 ''Unauthorized: invalid API key scope'' []
           else if header = [] then attach_api_key_auth_context ts us verify tid key c
           else case parse_uint header of
             None \<Rightarrow> bad_header
           | Some requested \<Rightarrow>
               if requested = 0 then bad_header
               else if requested \<noteq> tid
               then Rejected 403 ''Forbidden: organization API key cannot switch organizations'' []
               else attach_api_key_auth_context ts us verify tid key c)"

text \<open>With the ids of the keys whose last use is recorded.\<close>

definition authenticate_api_key_request ::
  "tenant_service \<Rightarrow> user_service \<Rightarrow> api_key_service \<Rightarrow> external_verifier \<Rightarrow> string \<Rightarrow> gin \<Rightarrow>
     verdict \<times> uint64 list" where
  "authenticate_api_key_request ts us ks verify api_key c =
     (case ks api_key of
        Inr (Some key) \<Rightarrow>
          (case key_request ts us verify key c of
             Rejected s e k \<Rightarrow> (Rejected s e k, [])
           | Proceed c' \<Rightarrow> (Proceed c', [tk_id key]))
      | _ \<Rightarrow> (Rejected 401 ''Unauthorized: invalid API key'' [], []))"

section \<open>The middleware\<close>

definition auth ::
  "tenant_service \<Rightarrow> user_service \<Rightarrow> member_service \<Rightarrow> api_key_service option \<Rightarrow> external_verifier \<Rightarrow>
     gin \<Rightarrow> verdict \<times> uint64 list" where
  "auth ts us ms ks verify c =
     (if gc_method c = m_options then (Proceed c, [])
      else if is_no_auth_api (gc_path c) (gc_method c) then (Proceed c, [])
      else
        let bearer = map_option (validate_token us) (bearer_token c);
            api_key = gc_header c ''X-API-Key'';
            other_channels =
              (if api_key \<noteq> []
               then (case ks of
                       None \<Rightarrow> (Rejected 401 ''Unauthorized: API key service is not configured'' [], [])
                     | Some ks \<Rightarrow> authenticate_api_key_request ts us ks verify api_key c)
               else if bearer = Some (Inl TokenUserDisabled)
               then (Rejected 401 ''Account is disabled'' ''ACCOUNT_DISABLED'', [])
               else if bearer \<noteq> None
               then (Rejected 401 ''Unauthorized: invalid or expired token'' [], [])
               else (Rejected 401 ''Unauthorized: missing authentication'' [], []))
        in (case bearer of
              Some (Inr (Some u, jwt_tenant)) \<Rightarrow> (authenticate_jwt_user ts ms u jwt_tenant c, [])
            | _ \<Rightarrow> other_channels))"

end
