(* ===== verification/Route_Guards.thy ===== *)
theory Route_Guards
  imports Auth_Request
begin

text \<open>
  The guards between authentication and a handler: the API-key gate of
  \<^verbatim>\<open>internal/middleware/api_key_gate.go\<close>, the role guards of \<^verbatim>\<open>rbac.go\<close>, the tenant
  guards of \<^verbatim>\<open>access.go\<close>, the portal guard of \<^verbatim>\<open>guest_chat.go\<close>, the profile scope of
  \<^verbatim>\<open>config_profile_scope.go\<close> and the guard and policy constructors of
  \<^verbatim>\<open>internal/router/rbac.go\<close>. \<open>enforced\<close> is \<^verbatim>\<open>rbacEnforcementEnabled(cfg)\<close>. An
  error given to \<^verbatim>\<open>c.Error\<close> is rendered with its HTTP code by \<^verbatim>\<open>ErrorHandler\<close>. The
  audit row of a denial is a log entry and not modelled.
\<close>

section \<open>Handler chains\<close>

text \<open>gin runs the handlers in order; one that does not call \<^verbatim>\<open>c.Next()\<close> ends the request.\<close>

primrec run_chain :: "middleware list \<Rightarrow> middleware" where
  "run_chain [] c = Proceed c"
| "run_chain (h # hs) c = (case h c of Rejected s e k \<Rightarrow> Rejected s e k | Proceed c' \<Rightarrow> run_chain hs c')"

lemma run_chain_append:
  "run_chain (hs @ gs) c =
     (case run_chain hs c of Rejected s e k \<Rightarrow> Rejected s e k | Proceed c' \<Rightarrow> run_chain gs c')"
  by (induction hs arbitrary: c) (auto split: verdict.split)

lemma run_chain_Proceed:
  "run_chain (h # hs) c = Proceed c' \<longleftrightarrow> (\<exists>d. h c = Proceed d \<and> run_chain hs d = Proceed c')"
  by (auto split: verdict.splits)

section \<open>The API-key gate\<close>

record route_policy =
  rp_platform_only :: bool
  rp_require_full :: bool
  rp_capabilities :: "string list"

definition with_capability :: "route_policy \<Rightarrow> string \<Rightarrow> route_policy" where
  "with_capability p c =
     (if list_ex (\<lambda>e. e = c) (rp_capabilities p) then p
      else p\<lparr>rp_capabilities := rp_capabilities p @ [c]\<rparr>)"

type_synonym route_table = "string \<Rightarrow> (string \<Rightarrow> route_policy option) option"

definition new_route_table :: route_table where
  "new_route_table = (\<lambda>_. None)"

definition register_route :: "string \<Rightarrow> string \<Rightarrow> route_policy \<Rightarrow> route_table \<Rightarrow> route_table" where
  "register_route method0 full_path0 policy table =
     (let method = to_upper (trim_space method0);
          full_path = normalize_route_path full_path0;
          by_path = (case table method of None \<Rightarrow> (\<lambda>_. None) | Some m \<Rightarrow> m)
      in table(method := Some (by_path(full_path := Some policy))))"

definition lookup_route :: "route_table \<Rightarrow> string \<Rightarrow> string \<Rightarrow> route_policy option" where
  "lookup_route table method full_path =
     (case table (to_upper method) of None \<Rightarrow> None | Some m \<Rightarrow> m (normalize_route_path full_path))"

definition authorize_route :: "route_table \<Rightarrow> api_key_scope \<Rightarrow> string \<Rightarrow> string \<Rightarrow> bool" where
  "authorize_route table scope method full_path =
     (case lookup_route table method full_path of
        None \<Rightarrow> False
      | Some p \<Rightarrow>
          if rp_platform_only p \<and> \<not> scope_is_platform scope then False
          else if rp_platform_only p \<and> rp_capabilities p = [] then False
          else if full_access scope then True
          else if list_ex (\<lambda>c. c \<noteq> [] \<and> has_capability scope c) (rp_capabilities p) then True
          else \<not> rp_require_full p \<and> rp_capabilities p = [])"

definition scope_forbidden :: verdict where
  "scope_forbidden = Rejected 403 ''Forbidden: API key scope does not allow this operation'' []"

definition api_key_gate :: "route_table \<Rightarrow> middleware" where
  "api_key_gate table c =
     (case api_key_scope_from_context (gc_ctx c) of
        None \<Rightarrow> Proceed c
      | Some scope \<Rightarrow>
          if authorize_route table scope (gc_method c) (gc_full_path c) then Proceed c
          else scope_forbidden)"

definition deny_api_key_principal :: middleware where
  "deny_api_key_principal c =
     (if api_key_scope_from_context (gc_ctx c) \<noteq> None
      then Rejected 403 ''Forbidden: API keys cannot access this endpoint'' [] else Proceed c)"

definition allow_file_serve_api_key :: middleware where
  "allow_file_serve_api_key c =
     (case api_key_scope_from_context (gc_ctx c) of
        None \<Rightarrow> Proceed c
      | Some scope \<Rightarrow>
          if full_access scope \<or>
             (\<not> is_knowledge_base_restricted scope \<and> has_capability scope ''retrieve'')
          then Proceed c else scope_forbidden)"

section \<open>Role guards\<close>

definition is_api_key_request :: "gin \<Rightarrow> bool" where
  "is_api_key_request c \<longleftrightarrow> api_key_scope_from_context (gc_ctx c) \<noteq> None"

definition tenantless_public_read_passes_role_floor ::
  "ctx \<Rightarrow> caller \<Rightarrow> string \<Rightarrow> string \<Rightarrow> string \<Rightarrow> bool" where
  "tenantless_public_read_passes_role_floor ctx c min_role method path =
     (if min_role \<noteq> role_member \<or> c_tenant_id c \<noteq> 0 \<or> c_user_id c = [] then False
      else if \<not> is_authenticated_human ctx c then False
      else is_tenantless_public_read_path path method)"

definition require_role :: "bool \<Rightarrow> string \<Rightarrow> middleware" where
  "require_role enforced min_role c =
     (let ctx = gc_ctx c; caller = caller_from_context ctx in
      if is_api_key_request c then Proceed c
      else if is_explicit_human_super_admin ctx caller then Proceed c
      else if role_has_permission (c_role caller) min_role then Proceed c
      else if tenantless_public_read_passes_role_floor ctx caller min_role (gc_method c) (gc_path c)
      then Proceed c
      else if \<not> enforced then Proceed c
      else Rejected 403 ''Forbidden: insufficient organization role'' [])"

definition require_tenant_admin :: middleware where
  "require_tenant_admin c =
     (if is_api_key_request c then Proceed c
      else if is_system_admin_from_context (gc_ctx c) then Proceed c
      else if is_tenant_admin (c_role (caller_from_context (gc_ctx c))) then Proceed c
      else Rejected 403 ''Forbidden: organization admin required'' [])"

datatype creator_error = CreatorNotFound | CreatorLookupFailed string

type_synonym creator_lookup = "gin \<Rightarrow> creator_error + string"

definition require_tenant_admin_or_uploader :: "creator_lookup option \<Rightarrow> middleware" where
  "require_tenant_admin_or_uploader lookup c =
     (let ctx = gc_ctx c; caller = caller_from_context ctx;
          denied = Rejected 403
            ''Forbidden: only an organization admin or the uploader may change this document'' []
      in if is_api_key_request c then Proceed c
         else if is_system_admin_from_context ctx then Proceed c
         else if is_tenant_admin (c_role caller) then Proceed c
         else if role_has_permission (c_role caller) role_member \<and> is_authenticated_human ctx caller
         then (case lookup of
                 None \<Rightarrow> denied
               | Some f \<Rightarrow>
                   (case f c of
                      Inl CreatorNotFound \<Rightarrow> Proceed c
                    | Inl (CreatorLookupFailed _) \<Rightarrow> Rejected 503 ''permission lookup failed'' []
                    | Inr uploader \<Rightarrow>
                        if uploader \<noteq> [] \<and> uploader = c_user_id caller then Proceed c else denied))
         else denied)"

definition require_role_or_system_admin :: "bool \<Rightarrow> string \<Rightarrow> middleware" where
  "require_role_or_system_admin enforced min_role c =
     (if is_system_admin_from_context (gc_ctx c) then Proceed c else require_role enforced min_role c)"

definition require_explicit_human_super_admin :: middleware where
  "require_explicit_human_super_admin c =
     (let ctx = gc_ctx c; caller = caller_from_context ctx in
      if is_explicit_human_super_admin ctx caller then Proceed c
      else if c_tenant_id caller = 0 then Rejected 401 ''Unauthorized'' []
      else Rejected 403 ''Forbidden: system administrator required'' [])"

definition require_system_admin :: middleware where
  "require_system_admin c =
     (case api_key_scope_from_context (gc_ctx c) of
        Some scope \<Rightarrow>
          if scope_is_platform scope then Proceed c
          else Rejected 403 ''Forbidden: API keys cannot access this endpoint'' []
      | None \<Rightarrow>
          if is_system_admin_from_context (gc_ctx c) then Proceed c
          else Rejected 403 ''Forbidden: system administrator required'' [])"

definition ownership_request_from_context :: "bool \<Rightarrow> ctx \<Rightarrow> ownership_request" where
  "ownership_request_from_context enforced ctx =
     (let caller = caller_from_context ctx in
      \<lparr>o_user_id = c_user_id caller, o_role = c_role caller,
       o_api_key = (api_key_scope_from_context ctx \<noteq> None),
       o_super_admin = is_explicit_human_super_admin ctx caller, o_enforce = enforced\<rparr>)"

text \<open>A lookup result as \<^verbatim>\<open>CheckOwnershipOrRole\<close> takes it: the creator id and the error.\<close>

definition creator_result :: "creator_error + string \<Rightarrow> string \<times> ownership_error option" where
  "creator_result r =
     (case r of
        Inl CreatorNotFound \<Rightarrow> ([], Some ResourceNotFound)
      | Inl (CreatorLookupFailed e) \<Rightarrow> ([], Some (LookupError e))
      | Inr creator \<Rightarrow> (creator, None))"

definition evaluate_ownership_or_role ::
  "bool \<Rightarrow> ctx \<Rightarrow> string \<Rightarrow> (creator_error + string) option \<Rightarrow> ownership_error option" where
  "evaluate_ownership_or_role enforced ctx min_role lookup =
     snd (check_ownership_or_role (ownership_request_from_context enforced ctx) min_role
            (map_option creator_result lookup))"

definition require_ownership_or_role :: "bool \<Rightarrow> string \<Rightarrow> creator_lookup option \<Rightarrow> middleware" where
  "require_ownership_or_role enforced min_role lookup c =
     (case check_ownership_or_role (ownership_request_from_context enforced (gc_ctx c)) min_role
             (map_option (\<lambda>f. creator_result (f c)) lookup) of
        (d, err) \<Rightarrow>
          if err = None \<or> err = Some ResourceNotFound then Proceed c
          else if err = Some OwnershipForbidden \<and> \<not> o_lookup_failed d
          then Rejected 403 ''Forbidden: must own the resource or have the required role'' []
          else Rejected 503 ''Service Unavailable: cannot verify resource ownership'' [])"

definition require_member_or_portal_guest :: "bool \<Rightarrow> middleware" where
  "require_member_or_portal_guest enforced c =
     (if is_public_portal_guest (gc_ctx c) (caller_from_context (gc_ctx c)) then Proceed c
      else require_role enforced role_member c)"

section \<open>Tenant guards\<close>

definition is_platform_super_admin :: "ctx \<Rightarrow> bool" where
  "is_platform_super_admin ctx = is_explicit_human_super_admin ctx (caller_from_context ctx)"

definition require_cross_tenant_access :: middleware where
  "require_cross_tenant_access c =
     (if (case api_key_scope_from_context (gc_ctx c) of
            Some scope \<Rightarrow> scope_is_platform scope | None \<Rightarrow> False)
      then Proceed c
      else if \<not> is_platform_super_admin (gc_ctx c)
      then Rejected 403 ''Insufficient permissions for cross-organization operation'' []
      else Proceed c)"

definition require_path_tenant_match :: middleware where
  "require_path_tenant_match c =
     (let raw = trim_space (gc_param c ''id'') in
      if raw = [] then Rejected 400 ''organization id is required'' []
      else case parse_uint raw of
        None \<Rightarrow> Rejected 400 ''organization id must be a positive integer'' []
      | Some path_tenant \<Rightarrow>
          if path_tenant = 0 then Rejected 400 ''organization id must be a positive integer'' []
          else case tenant_id_from_context (gc_ctx c) of (ctx_tenant, ok) \<Rightarrow>
            if \<not> ok \<or> ctx_tenant = 0 then Rejected 401 ''organization context missing'' []
            else if path_tenant = ctx_tenant then Proceed c
            else if is_platform_super_admin (gc_ctx c) then Proceed c
            else Rejected 403
                   ''Access denied: URL organization does not match the active organization'' [])"

definition config_profile_scope :: "(tenant_id \<Rightarrow> string + tenant option) option \<Rightarrow> middleware" where
  "config_profile_scope get_tenant c =
     (let ctx = gc_ctx c in
      if is_api_key_request c \<or> \<not> is_system_admin_from_context ctx then Proceed c
      else case (tenant_info_from_context ctx, get_tenant) of
        (Some t, Some get) \<Rightarrow>
          if is_config_profile (Some t) then Proceed c
          else (case t_profile t of
                  None \<Rightarrow> Proceed c
                | Some pid \<Rightarrow>
                    (case get pid of
                       Inr (Some profile) \<Rightarrow>
                         if \<not> is_config_profile (Some profile)
                         then Rejected 500 ''configuration profile unavailable'' []
                         else
                           let x1 = ctx\<lparr>v_tenant_id := Some (t_id profile),
                                        v_tenant_info := Some profile, v_role := Some role_admin\<rparr>;
                               caller = (caller_from_context x1)
                                          \<lparr>c_tenant_id := t_id profile, c_role := role_admin\<rparr>
                           in Proceed (c\<lparr>gc_ctx := with_caller x1 caller,
                                gc_tenant_key := Some (t_id profile), gc_role_key := Some role_admin\<rparr>)
                     | _ \<Rightarrow> Rejected 500 ''configuration profile unavailable'' []))
      | _ \<Rightarrow> Proceed c)"

definition profile_kv_keys :: "string list" where
  "profile_kv_keys =
     [''web-search-config'', ''parser-engine-config'', ''retrieval-config'', ''chat-history-config'']"

definition config_profile_for_kv :: "(tenant_id \<Rightarrow> string + tenant option) option \<Rightarrow> middleware" where
  "config_profile_for_kv get_tenant c =
     (if gc_param c ''key'' \<in> set profile_kv_keys then config_profile_scope get_tenant c else Proceed c)"

section \<open>Policies of the router\<close>

definition api_key_any :: route_policy where
  "api_key_any = \<lparr>rp_platform_only = False, rp_require_full = False, rp_capabilities = []\<rparr>"

definition api_key_full_access :: route_policy where
  "api_key_full_access = \<lparr>rp_platform_only = False, rp_require_full = True, rp_capabilities = []\<rparr>"

definition api_key_platform :: "string list \<Rightarrow> route_policy" where
  "api_key_platform caps =
     fold (\<lambda>c p. with_capability p c) caps
       \<lparr>rp_platform_only = True, rp_require_full = False, rp_capabilities = []\<rparr>"

section \<open>The gate as a decision over the declarations\<close>

definition register_all :: "(string \<times> string \<times> route_policy) list \<Rightarrow> route_table" where
  "register_all rs = fold (\<lambda>(m, p, pol). register_route m p pol) rs new_route_table"

definition declared_policy ::
  "(string \<times> string \<times> route_policy) list \<Rightarrow> string \<Rightarrow> string \<Rightarrow> route_policy option" where
  "declared_policy rs method path =
     map_option (\<lambda>(m, p, pol). pol)
       (find (\<lambda>(m, p, pol). to_upper (trim_space m) = to_upper method \<and>
                normalize_route_path p = normalize_route_path path) (rev rs))"

definition policy_admits :: "route_policy \<Rightarrow> api_key_scope \<Rightarrow> bool" where
  "policy_admits p scope \<longleftrightarrow>
     (rp_platform_only p \<longrightarrow> scope_is_platform scope \<and> rp_capabilities p \<noteq> []) \<and>
     (full_access scope \<or> (\<exists>c \<in> set (rp_capabilities p). has_capability scope c) \<or>
      \<not> rp_require_full p \<and> rp_capabilities p = [])"

lemma lookup_register:
  "lookup_route (register_route m p pol table) method path =
     (if to_upper (trim_space m) = to_upper method \<and> normalize_route_path p = normalize_route_path path
      then Some pol else lookup_route table method path)"
  by (auto simp: lookup_route_def register_route_def Let_def split: option.split)

lemma lookup_register_all: "lookup_route (register_all rs) method path = declared_policy rs method path"
proof (induction rs rule: rev_induct)
  case Nil
  then show ?case by (simp add: register_all_def declared_policy_def new_route_table_def lookup_route_def)
next
  case (snoc r rs)
  then show ?case
    by (cases r) (simp add: register_all_def declared_policy_def lookup_register)
qed

lemma no_empty_capability: "has_capability scope c \<Longrightarrow> c \<noteq> []"
  by (auto simp: has_capability_def normalize_api_key_capability_def known_capabilities_def)

text \<open>
  C11: an API key passes the gate exactly when the last policy declared for the method and route
  template admits it: by full access, by one of the listed capabilities, or because the policy asks
  for nothing; a platform-only policy asks for a platform key and at least one capability. A route
  without a declaration admits no key.
\<close>

theorem gate_is_default_deny:
  "authorize_route (register_all rs) scope method path \<longleftrightarrow>
     (\<exists>p. declared_policy rs method path = Some p \<and> policy_admits p scope)"
  using no_empty_capability [of scope]
  by (auto simp: authorize_route_def lookup_register_all policy_admits_def list_ex_iff split: option.split)

lemma with_capability_set:
  "set (rp_capabilities (with_capability p c)) = insert c (set (rp_capabilities p))"
  by (auto simp: with_capability_def list_ex_iff)

section \<open>Guards that only admit or reject\<close>

locale pass_through =
  fixes g :: "gin \<Rightarrow> verdict"
  assumes unchanged: "g c = Proceed c' \<Longrightarrow> c' = c"
begin

lemma chain_step:
  "run_chain (g # hs) c = Proceed c' \<longleftrightarrow> g c = Proceed c \<and> run_chain hs c = Proceed c'"
  unfolding run_chain_Proceed using unchanged by auto

end

interpretation gate: pass_through "api_key_gate table" for table
  by unfold_locales (auto simp: api_key_gate_def scope_forbidden_def split: option.splits if_splits)

interpretation role: pass_through "require_role enforced min_role" for enforced min_role
  by unfold_locales (auto simp: require_role_def Let_def split: if_splits)

interpretation tenant_admin: pass_through require_tenant_admin
  by unfold_locales (auto simp: require_tenant_admin_def split: if_splits)

interpretation uploader: pass_through "require_tenant_admin_or_uploader lookup" for lookup
  by unfold_locales
    (auto simp: require_tenant_admin_or_uploader_def Let_def
      split: if_splits option.splits sum.splits creator_error.splits)

interpretation path_tenant: pass_through require_path_tenant_match
  by unfold_locales
    (auto simp: require_path_tenant_match_def Let_def split: if_splits option.splits prod.splits)

interpretation ownership: pass_through "require_ownership_or_role enforced min_role lookup"
  for enforced min_role lookup
  by unfold_locales (auto simp: require_ownership_or_role_def split: if_splits prod.splits)

lemma valid_role_is_member: "role_is_valid r \<Longrightarrow> role_has_permission r role_member"
  by (auto simp: role_is_valid_def role_has_permission_def role_level_def role_names)

end
