(* ===== verification/Kb_Guard.thy ===== *)
theory Kb_Guard
  imports Route_Guards
begin

text \<open>
  The knowledge-base guards of \<^verbatim>\<open>internal/middleware/kb_access.go\<close> and their constructors in
  \<^verbatim>\<open>internal/router/rbac.go\<close>: which knowledge base a request addresses, the access decision
  on the loaded row, and the request context with the grant. The lookups of rows are functions
  that return an error or a row. The lemmas give, for a guard that passes, the decision it made
  (\<open>resolved\<close>).
\<close>

section \<open>Which knowledge base\<close>

text \<open>An error given to \<^verbatim>\<open>c.Error\<close>: \<^verbatim>\<open>ErrorHandler\<close> renders any other error as 500.\<close>

datatype request_error = AppError nat string | PlainError string

definition render_error :: "request_error \<Rightarrow> verdict" where
  "render_error e =
     (case e of AppError s m \<Rightarrow> Rejected s m [] | PlainError _ \<Rightarrow> Rejected 500 ''Internal server error'' [])"

datatype row_error = RowNotFound | RowError request_error

text \<open>A lookup of a document or chunk gives the id of its knowledge base.\<close>

type_synonym row_lookup = "string \<Rightarrow> row_error + string option"
type_synonym kb_id_resolver = "gin \<Rightarrow> request_error + string"

definition missing_param :: "string \<Rightarrow> request_error" where
  "missing_param p = AppError 400 (''missing '' @ p @ '' in path'')"

definition kb_id_from_param :: "string \<Rightarrow> kb_id_resolver" where
  "kb_id_from_param p c =
     (let v = gc_param c p in if v = [] then Inl (missing_param p) else Inr v)"

definition kb_id_from_knowledge_id_param :: "string \<Rightarrow> row_lookup \<Rightarrow> kb_id_resolver" where
  "kb_id_from_knowledge_id_param p get_knowledge c =
     (let v = gc_param c p in
      if v = [] then Inl (missing_param p)
      else case get_knowledge v of
        Inl RowNotFound \<Rightarrow> Inl (AppError 404 ''Knowledge not found'')
      | Inl (RowError e) \<Rightarrow> Inl e
      | Inr None \<Rightarrow> Inl (AppError 404 ''Knowledge not found'')
      | Inr (Some kb) \<Rightarrow> Inr kb)"

definition kb_id_from_chunk_id_param :: "string \<Rightarrow> row_lookup \<Rightarrow> kb_id_resolver" where
  "kb_id_from_chunk_id_param p get_chunk c =
     (let v = gc_param c p in
      if v = [] then Inl (missing_param p)
      else case get_chunk v of
        Inl RowNotFound \<Rightarrow> Inl (AppError 404 ''Chunk not found'')
      | Inl (RowError e) \<Rightarrow> Inl e
      | Inr None \<Rightarrow> Inl (AppError 404 ''Chunk not found'')
      | Inr (Some kb) \<Rightarrow> if kb = [] then Inl (AppError 404 ''Chunk not found'') else Inr kb)"

section \<open>The guard\<close>

datatype kb_row_error = KbNotFound | KbLookupFailed string

type_synonym kb_row_lookup = "string \<Rightarrow> kb_row_error + knowledge_base option"

datatype guard_error = AccessDenied access_error | LookupBroken string

type_synonym kb_resolution = "gin \<Rightarrow> string \<Rightarrow> guard_error + kb_access"

definition load_kb_for_guard :: "kb_row_lookup \<Rightarrow> string \<Rightarrow> guard_error + knowledge_base option" where
  "load_kb_for_guard get_kb kb =
     (case get_kb kb of
        Inl KbNotFound \<Rightarrow> Inl (AccessDenied ErrNotFound)
      | Inl (KbLookupFailed e) \<Rightarrow> Inl (LookupBroken e)
      | Inr row \<Rightarrow> Inr row)"

definition kb_access_request :: "gin \<Rightarrow> caller" where
  "kb_access_request c =
     (let caller = caller_from_context (gc_ctx c) in
      if v_caller (gc_ctx c) \<noteq> None then caller
      else
        let k1 = (case gc_tenant_key c of
                    Some t \<Rightarrow> caller\<lparr>c_tenant_id := t\<rparr>
                  | None \<Rightarrow> (case gc_kb_access c of Some a \<Rightarrow> a_caller a | None \<Rightarrow> caller));
            k2 = (case gc_user_key c of Some u \<Rightarrow> k1\<lparr>c_user_id := u\<rparr> | None \<Rightarrow> k1)
        in (case gc_role_key c of Some r \<Rightarrow> k2\<lparr>c_role := r\<rparr> | None \<Rightarrow> k2))"

definition as_guard_error :: "access_error + kb_access \<Rightarrow> guard_error + kb_access" where
  "as_guard_error r = (case r of Inl e \<Rightarrow> Inl (AccessDenied e) | Inr a \<Rightarrow> Inr a)"

text \<open>Whether a caller without a tenant may reach a read guard, and a mutation guard.\<close>

definition may_read_tenantless :: "ctx \<Rightarrow> caller \<Rightarrow> bool" where
  "may_read_tenantless ctx c \<longleftrightarrow>
     \<not> (c_tenant_id c = 0 \<and> \<not> is_explicit_human_super_admin ctx c \<and> \<not> is_authenticated_human ctx c)"

definition may_manage_tenantless :: "ctx \<Rightarrow> caller \<Rightarrow> bool" where
  "may_manage_tenantless ctx c \<longleftrightarrow>
     \<not> (c_tenant_id c = 0 \<and> \<not> is_explicit_human_super_admin ctx c)"

definition resolve_kb_access ::
  "string \<Rightarrow> kb_row_lookup \<Rightarrow> grant_lookup option \<Rightarrow> invite_lookup option \<Rightarrow> kb_resolution" where
  "resolve_kb_access required get_kb grants invites c kb =
     (let caller = caller_normalize (kb_access_request c) in
      if \<not> may_read_tenantless (gc_ctx c) caller then Inl (AccessDenied ErrUnauthorized)
      else bind_sum (load_kb_for_guard get_kb kb) (\<lambda>row.
        as_guard_error
          (case invites of
             None \<Rightarrow> resolve_kb (gc_ctx c) caller row required grants
           | Some _ \<Rightarrow> resolve_kb_with_invite (gc_ctx c) caller row required grants invites)))"

definition resolve_kb_download_access :: "kb_row_lookup \<Rightarrow> kb_resolution" where
  "resolve_kb_download_access get_kb c kb =
     (let caller = caller_normalize (kb_access_request c) in
      if \<not> may_read_tenantless (gc_ctx c) caller then Inl (AccessDenied ErrUnauthorized)
      else bind_sum (load_kb_for_guard get_kb kb) (\<lambda>row.
        as_guard_error (resolve_kb_for_download (gc_ctx c) caller row)))"

definition resolve_kb_manage_access :: "kb_row_lookup \<Rightarrow> kb_resolution" where
  "resolve_kb_manage_access get_kb c kb =
     (let caller = caller_normalize (kb_access_request c) in
      if \<not> may_manage_tenantless (gc_ctx c) caller then Inl (AccessDenied ErrUnauthorized)
      else bind_sum (load_kb_for_guard get_kb kb) (\<lambda>row.
        as_guard_error (resolve_kb_for_manage (gc_ctx c) caller row)))"

definition guard_verdict :: "guard_error \<Rightarrow> verdict" where
  "guard_verdict e =
     (case e of
        AccessDenied ErrUnauthorized \<Rightarrow> Rejected 401 ''Unauthorized'' []
      | AccessDenied ErrNotFound \<Rightarrow> Rejected 404 ''knowledge base not found'' []
      | AccessDenied ErrForbidden \<Rightarrow>
          Rejected 403 ''Permission denied to access this knowledge base'' []
      | _ \<Rightarrow> Rejected 503 ''cannot verify KB access right now'' [])"

definition run_kb_access_guard :: "kb_id_resolver \<Rightarrow> kb_resolution \<Rightarrow> middleware" where
  "run_kb_access_guard resolve_id resolve c =
     (case resolve_id c of
        Inl e \<Rightarrow> render_error e
      | Inr kb \<Rightarrow>
          (case authorize_api_key_kbs (gc_ctx c) [kb] of
             Inl (AppForbidden m) \<Rightarrow> Rejected 403 m []
           | Inl _ \<Rightarrow> Rejected 500 ''Internal server error'' []
           | Inr _ \<Rightarrow>
               (case resolve c kb of
                  Inl e \<Rightarrow> guard_verdict e
                | Inr a \<Rightarrow>
                    Proceed (c\<lparr>gc_kb_access := Some a, gc_ctx := access_context (Some a) (gc_ctx c)\<rparr>))))"

definition require_kb_access_with_invite ::
  "kb_id_resolver \<Rightarrow> string \<Rightarrow> kb_row_lookup \<Rightarrow> grant_lookup option \<Rightarrow> invite_lookup option \<Rightarrow> middleware" where
  "require_kb_access_with_invite resolve_id required get_kb grants invites =
     run_kb_access_guard resolve_id (resolve_kb_access required get_kb grants invites)"

definition require_kb_access ::
  "kb_id_resolver \<Rightarrow> string \<Rightarrow> kb_row_lookup \<Rightarrow> grant_lookup option \<Rightarrow> middleware" where
  "require_kb_access resolve_id required get_kb grants =
     require_kb_access_with_invite resolve_id required get_kb grants None"

definition require_kb_download :: "kb_id_resolver \<Rightarrow> kb_row_lookup \<Rightarrow> middleware" where
  "require_kb_download resolve_id get_kb =
     run_kb_access_guard resolve_id (resolve_kb_download_access get_kb)"

definition require_kb_manage_guard :: "kb_id_resolver \<Rightarrow> kb_row_lookup \<Rightarrow> middleware" where
  "require_kb_manage_guard resolve_id get_kb =
     run_kb_access_guard resolve_id (resolve_kb_manage_access get_kb)"

section \<open>The guards of the routes\<close>

record kb_services =
  ks_kb :: kb_row_lookup
  ks_knowledge :: row_lookup
  ks_chunk :: row_lookup
  ks_grants :: "grant_lookup option"
  ks_invites :: "invite_lookup option"

datatype kb_address = ByKb string | ByKnowledge string | ByChunk string

definition resolver_of :: "kb_services \<Rightarrow> kb_address \<Rightarrow> kb_id_resolver" where
  "resolver_of s a =
     (case a of
        ByKb p \<Rightarrow> kb_id_from_param p
      | ByKnowledge p \<Rightarrow> kb_id_from_knowledge_id_param p (ks_knowledge s)
      | ByChunk p \<Rightarrow> kb_id_from_chunk_id_param p (ks_chunk s))"

definition kb_access_read :: "kb_services \<Rightarrow> kb_address \<Rightarrow> middleware" where
  "kb_access_read s a =
     require_kb_access_with_invite (resolver_of s a) perm_viewer (ks_kb s) (ks_grants s) (ks_invites s)"

definition kb_access_write :: "kb_services \<Rightarrow> kb_address \<Rightarrow> middleware" where
  "kb_access_write s a = require_kb_access (resolver_of s a) perm_editor (ks_kb s) (ks_grants s)"

definition kb_access_download :: "kb_services \<Rightarrow> kb_address \<Rightarrow> middleware" where
  "kb_access_download s a = require_kb_download (resolver_of s a) (ks_kb s)"

definition kb_access_manage :: "kb_services \<Rightarrow> kb_address \<Rightarrow> middleware" where
  "kb_access_manage s a = require_kb_manage_guard (resolver_of s a) (ks_kb s)"

section \<open>What a guard that passes has decided\<close>

lemma run_guard_Proceed:
  "run_kb_access_guard r f c = Proceed c' \<longleftrightarrow>
     (\<exists>kb a. r c = Inr kb \<and> authorize_api_key_kbs (gc_ctx c) [kb] = Inr () \<and> f c kb = Inr a \<and>
       c' = c\<lparr>gc_kb_access := Some a, gc_ctx := access_context (Some a) (gc_ctx c)\<rparr>)"
  by (auto simp: run_kb_access_guard_def render_error_def guard_verdict_def
      split: sum.splits request_error.splits guard_error.splits access_error.splits)

definition resolved ::
  "kb_services \<Rightarrow> gin \<Rightarrow> string \<Rightarrow> kb_action \<Rightarrow> string \<Rightarrow> kb_lookups \<Rightarrow> kb_access \<Rightarrow> bool" where
  "resolved s c kb action operation l a \<longleftrightarrow>
     (\<exists>row d. ks_kb s kb = Inr (Some row) \<and>
        decide_kb (gc_ctx c) (caller_normalize (kb_access_request c)) (Some row) action l = Inr d \<and>
        a = access_from_decision (Some row) (caller_normalize (kb_access_request c)) d operation \<and>
        may_read_tenantless (gc_ctx c) (caller_normalize (kb_access_request c)))"

lemma load_kb_Inr: "load_kb_for_guard g kb = Inr row \<longleftrightarrow> g kb = Inr row"
  by (auto simp: load_kb_for_guard_def split: sum.splits kb_row_error.splits)

lemma as_guard_error_Inr [simp]: "as_guard_error r = Inr a \<longleftrightarrow> r = Inr a"
  by (auto simp: as_guard_error_def split: sum.splits)

lemma resolve_action_Inr:
  "resolve_kb_action ctx c row action operation l = Inr a \<longleftrightarrow>
     (\<exists>kb d. row = Some kb \<and> decide_kb ctx c (Some kb) action l = Inr d \<and>
       a = access_from_decision (Some kb) c d operation)"
  using decide_kb_Some [of ctx c row action l]
  by (auto simp: resolve_kb_action_def bind_sum_Inr)

lemma manage_is_read: "may_manage_tenantless ctx c \<Longrightarrow> may_read_tenantless ctx c"
  by (auto simp: may_manage_tenantless_def may_read_tenantless_def)

lemma resolve_kb_access_resolved:
  "resolve_kb_access required (ks_kb s) grants invites c kb = Inr a \<Longrightarrow>
     resolved s c kb (action_for_permission required) required
       \<lparr>l_grants = grants, l_invites = invites, l_members = None\<rparr> a"
  by (auto simp: resolve_kb_access_def Let_def bind_sum_Inr load_kb_Inr resolve_kb_def
      resolve_kb_with_invite_def resolve_action_Inr resolved_def split: option.splits if_splits)

lemma resolve_kb_download_resolved:
  "resolve_kb_download_access (ks_kb s) c kb = Inr a \<Longrightarrow>
     resolved s c kb ActionDownloadOriginal perm_viewer no_lookups a"
  by (auto simp: resolve_kb_download_access_def Let_def bind_sum_Inr load_kb_Inr
      resolve_kb_for_download_def resolve_action_Inr resolved_def split: if_splits)

lemma resolve_kb_manage_resolved:
  "resolve_kb_manage_access (ks_kb s) c kb = Inr a \<Longrightarrow>
     resolved s c kb ActionContribute perm_editor no_lookups a"
  by (auto simp: resolve_kb_manage_access_def Let_def bind_sum_Inr load_kb_Inr
      resolve_kb_for_manage_def resolve_action_Inr resolved_def intro: manage_is_read
      split: if_splits)

text \<open>The guards a route can have, with the action each decides.\<close>

definition kb_guards :: "kb_services \<Rightarrow> kb_address \<Rightarrow> (middleware \<times> kb_action \<times> string \<times> kb_lookups) list" where
  "kb_guards s a =
     [(kb_access_read s a, ActionView, perm_viewer,
        \<lparr>l_grants = ks_grants s, l_invites = ks_invites s, l_members = None\<rparr>),
      (kb_access_write s a, ActionContribute, perm_editor,
        \<lparr>l_grants = ks_grants s, l_invites = None, l_members = None\<rparr>),
      (kb_access_download s a, ActionDownloadOriginal, perm_viewer, no_lookups),
      (kb_access_manage s a, ActionContribute, perm_editor, no_lookups)]"

lemma kb_guard_resolved:
  assumes "(g, action, operation, l) \<in> set (kb_guards s addr)" "g c = Proceed c'"
  shows "\<exists>kb a. resolver_of s addr c = Inr kb \<and> authorize_api_key_kbs (gc_ctx c) [kb] = Inr () \<and>
    resolved s c kb action operation l a \<and>
    c' = c\<lparr>gc_kb_access := Some a, gc_ctx := access_context (Some a) (gc_ctx c)\<rparr>"
  using assms
  by (auto simp: kb_guards_def kb_access_read_def kb_access_write_def kb_access_download_def
      kb_access_manage_def require_kb_access_def require_kb_access_with_invite_def
      require_kb_download_def require_kb_manage_guard_def run_guard_Proceed action_for_permission_def
      dest!: resolve_kb_access_resolved resolve_kb_download_resolved resolve_kb_manage_resolved) blast+

text \<open>
  A lookup that fails for another reason than a missing row is answered by \<^verbatim>\<open>ErrorHandler\<close>:
  500 for a plain error.
\<close>

lemma failed_resolver_is_500:
  "resolve_id c = Inl (PlainError e) \<Longrightarrow>
     run_kb_access_guard resolve_id resolve c = Rejected 500 ''Internal server error'' []"
  by (simp add: run_kb_access_guard_def render_error_def)

end
