(* ===== verification/Auth_Rules.thy ===== *)
theory Auth_Rules
  imports Auth_Request
begin

text \<open>
  What authentication establishes: the session a request leaves it with is one of four for a
  signed-in user (\<open>jwt_session\<close>) and one of two for an API key (\<open>key_session\<close>). The lemmas
  read the identity off the resulting context; the theorem says that a tenant role comes from an
  active membership and from nowhere else.
\<close>

section \<open>The context of a session\<close>

definition fresh_request :: "gin \<Rightarrow> bool" where
  "fresh_request c \<longleftrightarrow>
     gc_ctx c = empty_ctx \<and> gc_tenant_key c = None \<and> gc_user_key c = None \<and>
     gc_role_key c = None \<and> gc_kb_access c = None"

definition session_caller :: "auth_session \<Rightarrow> caller" where
  "session_caller s = caller_normalize \<lparr>c_tenant_id = ss_tenant_id s,
     c_user_id = (case ss_user s of Some u \<Rightarrow> u_id u | None \<Rightarrow> []), c_role = ss_role s\<rparr>"

lemma principal_valid_normalize [simp]: "principal_valid (principal_normalize p) = principal_valid p"
  by (simp add: principal_valid_def principal_normalize_def)

lemma session_context_fields [simp]:
  "v_caller (session_context ctx s) = Some (session_caller s)"
  "caller_from_context (session_context ctx s) = session_caller s"
  "v_system_admin (session_context ctx s) = Some (ss_system_admin s)"
  "v_api_key (session_context ctx s) =
     (case ss_scope s of Some k \<Rightarrow> Some (scope_normalize k) | None \<Rightarrow> v_api_key ctx)"
  "v_principal (session_context ctx s) =
     (if principal_valid (ss_principal s) then Some (principal_normalize (ss_principal s))
      else v_principal ctx)"
  "v_tenant_info (session_context ctx s) =
     (case ss_tenant s of Some t \<Rightarrow> Some t | None \<Rightarrow> v_tenant_info ctx)"
  "v_user_id (session_context ctx s) =
     (case ss_user s of Some u \<Rightarrow> Some (u_id u) | None \<Rightarrow> v_user_id ctx)"
  "v_tenant_id (session_context ctx s) =
     (if ss_tenant_id s \<noteq> 0 then Some (ss_tenant_id s) else v_tenant_id ctx)"
  "v_grants (session_context ctx s) = v_grants ctx"
  by (auto simp: session_context_def session_caller_def Let_def with_caller_def with_principal_def
      with_tenant_api_key_scope_def caller_from_context_def split: option.split)

lemma session_caller_user_session [simp]:
  "c_tenant_id (session_caller (user_session u tid t role admin)) = tid"
  "c_user_id (session_caller (user_session u tid t role admin)) = u_id u"
  by (simp_all add: session_caller_def user_session_def)

lemma apply_session_fields [simp]:
  "gc_ctx (apply_auth_session c s) = session_context (gc_ctx c) s"
  "gc_method (apply_auth_session c s) = gc_method c" "gc_path (apply_auth_session c s) = gc_path c"
  "gc_full_path (apply_auth_session c s) = gc_full_path c"
  "gc_header (apply_auth_session c s) = gc_header c" "gc_param (apply_auth_session c s) = gc_param c"
  "gc_kb_access (apply_auth_session c s) = gc_kb_access c"
  by (simp_all add: apply_auth_session_def)

inductive jwt_session :: "tenant_service \<Rightarrow> member_service \<Rightarrow> user \<Rightarrow> gin \<Rightarrow> auth_session \<Rightarrow> bool"
  for ts ms u c where
  tenantless: "is_tenant_optional_api (gc_path c) (gc_method c) \<Longrightarrow>
    jwt_session ts ms u c (user_session u 0 None [] (u_system_admin u))"
| member: "tid \<noteq> 0 \<Longrightarrow> \<not> is_hidden_tenant (Some t) \<Longrightarrow> resolve_tenant_role ms u tid = Some role \<Longrightarrow>
    jwt_session ts ms u c (user_session u tid (Some t) role (u_system_admin u))"
| visitor: "tid \<noteq> 0 \<Longrightarrow> \<not> is_hidden_tenant (Some t) \<Longrightarrow> resolve_tenant_role ms u tid = None \<Longrightarrow>
    u_system_admin u \<Longrightarrow> \<not> is_synthetic_user_id (u_id u) \<Longrightarrow>
    jwt_session ts ms u c (user_session u tid (Some t) [] True)"
| guest: "is_guest_chat_api (gc_path c) (gc_method c) \<Longrightarrow> is_guest_user ts ms u \<Longrightarrow>
    get_public_portal ts = Some (Inr (Some portal)) \<Longrightarrow>
    jwt_session ts ms u c (user_session u (t_id portal) (Some portal) [] False)"

lemma try_guest_chat_session:
  "try_guest_chat ts ms c u = Some c' \<Longrightarrow> \<exists>s. jwt_session ts ms u c s \<and> c' = apply_auth_session c s"
  by (auto simp: try_guest_chat_def attach_public_portal_guest_def intro: jwt_session.guest
      split: if_splits option.splits sum.splits)

lemma or_guest_chat_session:
  "or_guest_chat ts ms c u v = Proceed c' \<Longrightarrow> (\<And>d. v \<noteq> Proceed d) \<Longrightarrow>
     \<exists>s. jwt_session ts ms u c s \<and> c' = apply_auth_session c s"
  by (auto simp: or_guest_chat_def dest: try_guest_chat_session split: option.splits)

lemma enter_tenant_session:
  "enter_tenant ts ms u tid t c = Proceed c' \<Longrightarrow> tid \<noteq> 0 \<Longrightarrow>
     \<exists>s. jwt_session ts ms u c s \<and> c' = apply_auth_session c s"
  by (auto simp: enter_tenant_def attach_tenantless_user_context_def Let_def
      intro: jwt_session.intros dest!: or_guest_chat_session split: if_splits option.splits)

lemma authenticate_jwt_user_session:
  "authenticate_jwt_user ts ms u jwt c = Proceed c' \<Longrightarrow>
     \<exists>s. jwt_session ts ms u c s \<and> c' = apply_auth_session c s"
proof -
  assume a: "authenticate_jwt_user ts ms u jwt c = Proceed c'"
  have no: "resolve_target_tenant ts ms u jwt c \<noteq> Inl (Proceed d)" for d
    by (auto simp: resolve_target_tenant_def Let_def split: option.splits sum.splits if_splits)
  show ?thesis
  proof (cases "resolve_target_tenant ts ms u jwt c")
    case (Inl v)
    with a no show ?thesis by (auto simp: authenticate_jwt_user_def)
  next
    case (Inr r)
    obtain tid t b where r: "r = (tid, t, b)" by (cases r)
    show ?thesis
    proof (cases "tid = 0")
      case True
      with a Inr r show ?thesis
        by (auto simp: authenticate_jwt_user_def attach_tenantless_user_context_def
            intro: jwt_session.tenantless dest!: or_guest_chat_session split: if_splits)
    next
      case False
      with a Inr r show ?thesis
        by (auto simp: authenticate_jwt_user_def dest!: or_guest_chat_session enter_tenant_session
            split: sum.splits option.splits)
    qed
  qed
qed

inductive_cases jwt_sessionE: "jwt_session ts ms u c s"

lemma session_human:
  assumes "fresh_request c" "jwt_session ts ms u c s"
  shows "v_api_key (session_context (gc_ctx c) s) = None"
    "is_authenticated_human (session_context (gc_ctx c) s) x \<longleftrightarrow> is_human_caller x"
    "is_explicit_human_super_admin (session_context (gc_ctx c) s) x \<longleftrightarrow>
       ss_system_admin s \<and> is_human_caller x"
    "c_user_id (session_caller s) = u_id u"
proof -
  from assms(2) obtain tid t role admin where s: "s = user_session u tid t role admin"
    by (auto elim!: jwt_sessionE)
  then show key: "v_api_key (session_context (gc_ctx c) s) = None"
    using assms(1) by (simp add: user_session_def fresh_request_def empty_ctx_def)
  have "trim_space principal_web_user = principal_web_user"
    by (simp add: principal_web_user_def plain_word_trim plain_word_def plain_char_def)
  then have "case principal_from_context (session_context (gc_ctx c) s) of
      None \<Rightarrow> True | Some p \<Rightarrow> p_type p = principal_web_user"
    using s assms(1)
    by (auto simp: principal_from_context_def user_session_def web_principal_def Let_def
        principal_normalize_def fresh_request_def empty_ctx_def user_id_from_context_def
        split: option.split)
  with key show "is_authenticated_human (session_context (gc_ctx c) s) x \<longleftrightarrow> is_human_caller x"
    by (auto simp: is_authenticated_human_def api_key_scope_from_context_def split: option.splits)
  from key show "is_explicit_human_super_admin (session_context (gc_ctx c) s) x \<longleftrightarrow>
       ss_system_admin s \<and> is_human_caller x"
    by (simp add: is_explicit_human_super_admin_def api_key_scope_from_context_def
        is_system_admin_from_context_def)
  from s show "c_user_id (session_caller s) = u_id u" by simp
qed

lemma session_role:
  assumes "jwt_session ts ms u c s" "has_tenant_role (session_caller s)"
  shows "\<exists>m. get_membership ms (u_id u) (ss_tenant_id s) = Inr (Some m) \<and> m_status m = ''active'' \<and>
    m_role m = c_role (session_caller s) \<and> ss_tenant_id s \<noteq> 0"
  using assms
  by (cases rule: jwt_session.cases)
    (auto simp: session_caller_def user_session_def caller_normalize_def has_tenant_role_def
      resolve_tenant_role_def split: sum.splits option.splits if_splits)

lemma session_admin: "jwt_session ts ms u c s \<Longrightarrow> ss_system_admin s \<Longrightarrow> u_system_admin u"
  by (cases rule: jwt_session.cases) (auto simp: user_session_def)

text \<open>An active member of the owner tenant, on a knowledge base its members may read.\<close>

definition member_session :: "user \<Rightarrow> tenant \<Rightarrow> tenant_id \<Rightarrow> tenant_member \<Rightarrow> auth_session" where
  "member_session u t tid m = user_session u tid (Some t) (m_role m) (u_system_admin u)"

lemma member_session_auth:
  assumes "get_tenant_by_id ts tid = Inr (Some t)" "\<not> is_hidden_tenant (Some t)" "tid \<noteq> 0"
    "get_membership ms (u_id u) tid = Inr (Some m)" "m_status m = ''active''"
    "gc_header c ''X-Tenant-ID'' = []"
  shows "authenticate_jwt_user ts ms u tid c = Proceed (apply_auth_session c (member_session u t tid m))"
    "jwt_session ts ms u c (member_session u t tid m)"
proof -
  have role: "resolve_tenant_role ms u tid = Some (m_role m)"
    using assms by (simp add: resolve_tenant_role_def)
  then show "authenticate_jwt_user ts ms u tid c =
      Proceed (apply_auth_session c (member_session u t tid m))"
    using assms
    by (simp add: authenticate_jwt_user_def resolve_target_tenant_def enter_tenant_def member_session_def)
  from role show "jwt_session ts ms u c (member_session u t tid m)"
    using assms by (auto simp: member_session_def intro: jwt_session.member)
qed

section \<open>API keys\<close>

definition key_scope :: "tenant_api_key \<Rightarrow> api_key_scope" where
  "key_scope key = \<lparr>key_id = tk_id key, key_name = tk_name key, scope_type = tk_scope_type key,
     full_access = (tk_full_access key \<and> \<not> tenant_api_key_is_platform (Some key)),
     knowledge_base_ids = tk_kb_ids key, capabilities = tk_capabilities key\<rparr>"

definition key_tenant :: "tenant_api_key \<Rightarrow> gin \<Rightarrow> tenant_id \<Rightarrow> bool" where
  "key_tenant key c tid \<longleftrightarrow>
     (if tenant_api_key_is_platform (Some key)
      then parse_uint (trim_space (gc_header c ''X-Tenant-ID'')) = Some tid
      else tid = tenant_id_value (Some key))"

inductive key_session :: "tenant_service \<Rightarrow> tenant_api_key \<Rightarrow> gin \<Rightarrow> auth_session \<Rightarrow> bool"
  for ts key c where
  control_plane: "tenant_api_key_is_platform (Some key) \<Longrightarrow>
    is_platform_tenant_optional_api (gc_path c) (gc_method c) \<Longrightarrow> ss_tenant_id s = 0 \<Longrightarrow>
    ss_scope s = Some ((key_scope key)\<lparr>scope_type := api_key_scope_platform, knowledge_base_ids := []\<rparr>) \<Longrightarrow>
    \<not> ss_system_admin s \<Longrightarrow> key_session ts key c s"
| in_tenant: "tid \<noteq> 0 \<Longrightarrow> key_tenant key c tid \<Longrightarrow> get_tenant_by_id ts tid = Inr t \<Longrightarrow>
    \<not> is_public_portal t \<Longrightarrow> ss_tenant_id s = tid \<Longrightarrow> ss_tenant s = t \<Longrightarrow>
    ss_scope s = Some (key_scope key) \<Longrightarrow> \<not> ss_system_admin s \<Longrightarrow> key_session ts key c s"

lemma attach_key_session:
  assumes "attach_api_key_auth_context ts us verify tid key c = Proceed c'" "tid \<noteq> 0" "key_tenant key c tid"
  shows "\<exists>s. key_session ts key c s \<and> c' = apply_auth_session c s"
proof -
  have no: "key_identity us verify t tid key h \<noteq> Inl (Proceed d)" for t h d
    by (auto simp: key_identity_def acting_user_def bind_sum_Inl split: sum.splits option.splits prod.splits
        if_splits)
  from assms(1) obtain t p u where t: "get_tenant_by_id ts tid = Inr t" "\<not> is_public_portal t"
    and c': "c' = apply_auth_session c \<lparr>ss_user = Some u, ss_principal = p, ss_tenant_id = tid,
        ss_tenant = t, ss_role = (if full_access (key_scope key) then role_admin else role_member),
        ss_system_admin = False, ss_scope = Some (key_scope key)\<rparr>"
    by (auto simp: attach_api_key_auth_context_def Let_def key_scope_def no
        split: sum.splits if_splits)
  have "key_session ts key c \<lparr>ss_user = Some u, ss_principal = p, ss_tenant_id = tid,
        ss_tenant = t, ss_role = (if full_access (key_scope key) then role_admin else role_member),
        ss_system_admin = False, ss_scope = Some (key_scope key)\<rparr>"
    by (rule key_session.in_tenant [OF assms(2,3) t]) simp_all
  with c' show ?thesis by blast
qed

lemma key_request_session:
  assumes "key_request ts us verify key c = Proceed c'"
  shows "\<exists>s. key_session ts key c s \<and> c' = apply_auth_session c s"
proof (cases "tenant_api_key_is_platform (Some key)")
  case True
  show ?thesis
  proof (cases "trim_space (gc_header c ''X-Tenant-ID'') = []")
    case empty: True
    obtain p u where id: "platform_api_key_identity key = (p, u)" by (cases "platform_api_key_identity key")
    let ?s = "\<lparr>ss_user = Some u, ss_principal = p, ss_tenant_id = 0, ss_tenant = None,
           ss_role = role_member, ss_system_admin = False,
           ss_scope = Some \<lparr>key_id = tk_id key, key_name = tk_name key,
             scope_type = api_key_scope_platform, full_access = False,
             knowledge_base_ids = [], capabilities = tk_capabilities key\<rparr>\<rparr>"
    from assms True empty id have "is_platform_tenant_optional_api (gc_path c) (gc_method c)"
      "c' = apply_auth_session c ?s"
      by (auto simp: key_request_def Let_def attach_platform_api_key_auth_context_def split: if_splits)
    moreover have "key_session ts key c ?s" if "is_platform_tenant_optional_api (gc_path c) (gc_method c)"
      using True that by (intro key_session.control_plane) (simp_all add: key_scope_def)
    ultimately show ?thesis by blast
  next
    case False
    with assms True show ?thesis
      by (auto simp: key_request_def Let_def key_tenant_def split: option.splits if_splits
          intro!: attach_key_session)
  qed
next
  case False
  with assms show ?thesis
    by (auto simp: key_request_def Let_def key_tenant_def split: option.splits if_splits
        intro!: attach_key_session)
qed

lemma api_key_session:
  assumes "fst (authenticate_api_key_request ts us f verify k c) = Proceed d" "f k = Inr (Some key)"
  shows "\<exists>s. key_session ts key c s \<and> d = apply_auth_session c s"
  using assms key_request_session [of ts us verify key c]
  by (auto simp: authenticate_api_key_request_def split: verdict.splits)

section \<open>A small world\<close>

definition world_tenants :: tenant_service where
  "world_tenants =
     \<lparr>get_tenant_by_id = (\<lambda>t. if t = 7 then Inr (Some \<lparr>t_id = 7, t_name = ''t7'', t_kind = [],
          t_profile = None, t_principal_cfg = None\<rparr>) else Inl ''not found''),
      get_tenants_by_ids = (\<lambda>_. Inr (\<lambda>_. None)), get_public_portal = None\<rparr>"

definition world_members :: member_service where
  "world_members =
     \<lparr>get_membership = (\<lambda>u t. if u = ''u1'' \<and> t = 7
          then Inr (Some \<lparr>m_tenant_id = 7, m_status = ''active'', m_role = role_member\<rparr>) else Inr None),
      list_by_user = (\<lambda>_. Inr [])\<rparr>"

definition world_user :: "string \<Rightarrow> user" where
  "world_user i = \<lparr>u_id = i, u_tenant_id = 0, u_active = True, u_system_admin = False\<rparr>"

text \<open>The token of \<open>u1\<close> names tenant 7, any other token is one of the Guest \<open>u2\<close>.\<close>

definition world_users :: user_service where
  "world_users =
     \<lparr>validate_token = (\<lambda>t. if t = ''t1'' then Inr (Some (world_user ''u1''), 7)
          else Inr (Some (world_user ''u2''), 0)),
      get_user_by_tenant_id = (\<lambda>_. Inr None)\<rparr>"

definition world_request :: "(string \<Rightarrow> string) \<Rightarrow> gin" where
  "world_request header =
     \<lparr>gc_method = ''GET'', gc_path = ''/api/v1/knowledge-bases/kb1'',
      gc_full_path = ''/api/v1/knowledge-bases/:id'', gc_header = header,
      gc_param = (\<lambda>p. if p = ''id'' then ''kb1'' else []), gc_ctx = empty_ctx, gc_tenant_key = None,
      gc_user_key = None, gc_role_key = None, gc_kb_access = None\<rparr>"

definition only_header :: "string \<Rightarrow> string \<Rightarrow> string \<Rightarrow> string" where
  "only_header h v = (\<lambda>x. if x = h then v else [])"

lemma fresh_world: "fresh_request (world_request h)"
  by (simp add: fresh_request_def world_request_def)

section \<open>The identity of a signed-in user\<close>

text \<open>
  C10: the identity of a signed-in request comes from the user and the membership rows. The caller is
  the user of the token and never an API key; a tenant role is the one of an active membership in
  exactly that tenant; the administrator flag is the user's; the tenant is a real organization,
  except that a Guest on a guest chat route is in the public portal, without a role.
\<close>

theorem jwt_identity_comes_from_membership:
  assumes "fresh_request c" "authenticate_jwt_user ts ms u jwt c = Proceed c'"
  shows "let x = caller_from_context (gc_ctx c') in
    c_user_id x = u_id u \<and> v_api_key (gc_ctx c') = None \<and>
    (is_system_admin_from_context (gc_ctx c') \<longrightarrow> u_system_admin u) \<and>
    (has_tenant_role x \<longrightarrow> (\<exists>m. get_membership ms (u_id u) (c_tenant_id x) = Inr (Some m) \<and>
       m_status m = ''active'' \<and> m_role m = c_role x)) \<and>
    (c_tenant_id x \<noteq> 0 \<longrightarrow> (\<exists>t. v_tenant_info (gc_ctx c') = Some t \<and>
       (\<not> is_hidden_tenant (Some t) \<or>
        get_public_portal ts = Some (Inr (Some t)) \<and> is_guest_user ts ms u \<and> \<not> has_tenant_role x \<and>
        is_guest_chat_api (gc_path c) (gc_method c))))"
proof -
  from authenticate_jwt_user_session [OF assms(2)] obtain s where s: "jwt_session ts ms u c s"
    and c': "c' = apply_auth_session c s" by blast
  have t: "c_tenant_id (session_caller s) = ss_tenant_id s" by (simp add: session_caller_def)
  have tenant: "\<exists>t. ss_tenant s = Some t \<and> (\<not> is_hidden_tenant (Some t) \<or>
      get_public_portal ts = Some (Inr (Some t)) \<and> is_guest_user ts ms u \<and>
      \<not> has_tenant_role (session_caller s) \<and> is_guest_chat_api (gc_path c) (gc_method c))"
    if "ss_tenant_id s \<noteq> 0"
    using s that
    by (cases rule: jwt_session.cases)
      (auto simp: user_session_def session_caller_def has_tenant_role_def caller_normalize_def)
  then show ?thesis
    using session_human [OF assms(1) s] session_role [OF s] session_admin [OF s] c' t
    by (auto simp: Let_def is_system_admin_from_context_def)
qed

theorem jwt_identity_comes_from_membership_witness:
  "\<exists>c'. authenticate_jwt_user world_tenants world_members (world_user ''u1'') 7
       (world_request (only_header ''Authorization'' ''Bearer t1'')) = Proceed c' \<and>
     c_user_id (caller_from_context (gc_ctx c')) = ''u1''"
proof -
  let ?c = "world_request (only_header ''Authorization'' ''Bearer t1'')"
  obtain c' where c': "authenticate_jwt_user world_tenants world_members (world_user ''u1'') 7 ?c = Proceed c'"
    using member_session_auth(1) [of world_tenants 7 _ world_members "world_user ''u1''" _ ?c]
    by (simp add: world_tenants_def world_members_def world_user_def world_request_def only_header_def
        is_hidden_tenant_def is_config_profile_def is_public_portal_def)
  from jwt_identity_comes_from_membership [OF fresh_world this] c' show ?thesis
    by (auto simp: Let_def world_user_def)
qed

end
