(* ===== verification/Route_Access.thy ===== *)
theory Route_Access
  imports Kb_Guard Auth_Rules
begin

text \<open>
  The guards composed as the routes of \<^verbatim>\<open>internal/router/routes_knowledge.go\<close> compose them:
  authentication, the API-key gate, a role guard and a knowledge-base guard. The theorems say what
  a Guest and what an API key reach through the whole chain, whatever the role guard and with the
  role rollout on or off, and that a member of the owner tenant is let through.
\<close>

section \<open>The chain\<close>

datatype role_guard = MemberGuard | TenantAdminGuard | UploaderGuard "creator_lookup option"

definition role_guard_of :: "bool \<Rightarrow> role_guard \<Rightarrow> middleware" where
  "role_guard_of enforced r =
     (case r of
        MemberGuard \<Rightarrow> require_role enforced role_member
      | TenantAdminGuard \<Rightarrow> require_tenant_admin
      | UploaderGuard lookup \<Rightarrow> require_tenant_admin_or_uploader lookup)"

definition kb_route ::
  "tenant_service \<Rightarrow> user_service \<Rightarrow> member_service \<Rightarrow> api_key_service option \<Rightarrow> external_verifier \<Rightarrow>
     route_table \<Rightarrow> bool \<Rightarrow> role_guard \<Rightarrow> middleware \<Rightarrow> middleware list" where
  "kb_route ts us ms ks verify table enforced r guard =
     [\<lambda>c. fst (auth ts us ms ks verify c), api_key_gate table, role_guard_of enforced r, guard]"

interpretation role_guard: pass_through "role_guard_of enforced r" for enforced r
  by unfold_locales
    (auto simp: role_guard_of_def split: role_guard.splits
      dest: role.unchanged tenant_admin.unchanged uploader.unchanged)

lemma gate_Proceed:
  "api_key_gate table c = Proceed c' \<longleftrightarrow>
     c' = c \<and> (\<forall>k. api_key_scope_from_context (gc_ctx c) = Some k \<longrightarrow>
       authorize_route table k (gc_method c) (gc_full_path c))"
  by (auto simp: api_key_gate_def scope_forbidden_def split: option.splits if_splits)

lemma kb_route_Proceed:
  assumes "run_chain (kb_route ts us ms ks verify table enforced r guard) c = Proceed c'"
  shows "\<exists>d. fst (auth ts us ms ks verify c) = Proceed d \<and> api_key_gate table d = Proceed d \<and>
    guard d = Proceed c'"
proof -
  from assms obtain d where "fst (auth ts us ms ks verify c) = Proceed d"
    "run_chain [api_key_gate table, role_guard_of enforced r, guard] d = Proceed c'"
    unfolding kb_route_def run_chain_Proceed [of "\<lambda>c. fst (auth ts us ms ks verify c)"] by blast
  then have "api_key_gate table d = Proceed d \<and> run_chain [guard] d = Proceed c'"
    unfolding gate.chain_step role_guard.chain_step by blast
  with \<open>fst (auth ts us ms ks verify c) = Proceed d\<close> show ?thesis by (auto split: verdict.splits)
qed

text \<open>A request that carries no identity at all passes no knowledge-base guard.\<close>

lemma anonymous_resolves_nothing:
  "fresh_request c \<Longrightarrow> \<not> resolved s c kb action operation l a"
  by (simp add: resolved_def may_read_tenantless_def fresh_request_def kb_access_request_def Let_def
      caller_from_context_def empty_ctx_def tenant_id_from_context_def user_id_from_context_def
      tenant_role_from_context_def is_explicit_human_super_admin_def is_system_admin_from_context_def
      is_authenticated_human_def is_human_caller_def caller_normalize_def principal_from_context_def
      split: option.split)

lemma auth_Proceed:
  assumes "fst (auth ts us ms ks verify c) = Proceed d"
  shows "d = c \<or>
    (\<exists>tok u jwt. bearer_token c = Some tok \<and> validate_token us tok = Inr (Some u, jwt) \<and>
       authenticate_jwt_user ts ms u jwt c = Proceed d) \<or>
    (\<nexists>tok u jwt. bearer_token c = Some tok \<and> validate_token us tok = Inr (Some u, jwt)) \<and>
      (\<exists>f. ks = Some f \<and>
        fst (authenticate_api_key_request ts us f verify (gc_header c ''X-API-Key'') c) = Proceed d)"
  using assms
  by (auto simp: auth_def Let_def split: if_splits option.splits sum.splits prod.splits)

lemma session_caller_normalized [simp]: "caller_normalize (session_caller s) = session_caller s"
  by (simp add: session_caller_def)

lemma session_request_caller [simp]:
  "kb_access_request (apply_auth_session c s) = session_caller s"
  by (simp add: kb_access_request_def)

lemma resolved_right:
  assumes "resolved s c kb action operation l a"
  shows "\<exists>row. ks_kb s kb = Inr (Some row) \<and> a_kb a = Some row \<and> kb_id row \<noteq> [] \<and>
    authorize_api_key_kbs (gc_ctx c) [kb_id row] = Inr () \<and> a_operation a = operation \<and>
    kb_right (gc_ctx c) (caller_normalize (kb_access_request c)) row l (a_permission a) (a_can_download a) \<and>
    right_allows action (a_permission a) (a_can_download a)"
proof -
  from assms obtain row d where row: "ks_kb s kb = Inr (Some row)"
    and d: "decide_kb (gc_ctx c) (caller_normalize (kb_access_request c)) (Some row) action l = Inr d"
    and a: "a = access_from_decision (Some row) (caller_normalize (kb_access_request c)) d operation"
    by (auto simp: resolved_def)
  from decide_kb_right [OF d] d a row show ?thesis
    by (auto simp: access_from_decision_def decide_kb_Inr_iff check_api_key_scope_def)
qed

section \<open>A request through the chain\<close>

definition world_key :: tenant_api_key where
  "world_key = \<lparr>tk_id = 1, tk_tenant_id = Some 7, tk_scope_type = ''tenant'', tk_name = [],
     tk_full_access = False, tk_kb_ids = [''kb1''], tk_capabilities = [''retrieve'']\<rparr>"

definition world_keys :: api_key_service where
  "world_keys = (\<lambda>k. if k = ''k1'' then Inr (Some world_key) else Inr None)"

definition world_verify :: external_verifier where
  "world_verify = (\<lambda>_ _ _. Inl ''no token'')"

definition world_routes :: route_table where
  "world_routes = register_route ''GET'' ''/api/v1/knowledge-bases/:id''
     (with_capability api_key_full_access ''retrieve'') new_route_table"

definition world_kbs :: "knowledge_base \<Rightarrow> kb_services" where
  "world_kbs kb =
     \<lparr>ks_kb = (\<lambda>i. if i = kb_id kb then Inr (Some kb) else Inl KbNotFound),
      ks_knowledge = (\<lambda>_. Inl RowNotFound), ks_chunk = (\<lambda>_. Inl RowNotFound),
      ks_grants = None, ks_invites = None\<rparr>"

definition world_read :: "knowledge_base \<Rightarrow> middleware list" where
  "world_read kb = kb_route world_tenants world_users world_members (Some world_keys) world_verify
     world_routes True MemberGuard (kb_access_read (world_kbs kb) (ByKb ''id''))"

definition proceeds :: "verdict \<Rightarrow> bool" where
  "proceeds v = (case v of Proceed _ \<Rightarrow> True | Rejected _ _ _ \<Rightarrow> False)"

definition open_kb :: knowledge_base where
  "open_kb = (sample_kb 0 vis_public)\<lparr>kb_tenant_id := platform_tenant_id\<rparr>"

lemma world_token:
  "bearer_token (world_request (only_header ''Authorization'' ''Bearer t1'')) = Some ''t1''"
  "bearer_token (world_request (only_header ''Authorization'' ''Bearer t2'')) = Some ''t2''"
  "bearer_token (world_request (only_header ''X-API-Key'' ''k1'')) = None"
  by (simp_all add: bearer_token_def world_request_def only_header_def bearer_prefix_def has_prefix_def
      trim_prefix_def Let_def)

lemma read_guard_listed:
  "(kb_access_read s a, ActionView, perm_viewer,
     \<lparr>l_grants = ks_grants s, l_invites = ks_invites s, l_members = None\<rparr>) \<in> set (kb_guards s a)"
  by (simp add: kb_guards_def)

lemma proceedsD: "proceeds v \<Longrightarrow> \<exists>c. v = Proceed c"
  by (cases v) (simp_all add: proceeds_def)

section \<open>Guests\<close>

text \<open>
  C4: a Guest reads open content and nothing else. When a signed-in user who is no SuperAdmin and
  has no active membership passes the chain of a route, whatever its role guard, its declared
  policy and the state of the role rollout, the guard was a read or a download, the access is that
  of a viewer, and the knowledge base is platform-public, published by its tenant, or (for a read)
  one the user holds a live invite to.
\<close>

theorem guest_reads_open_kbs_only:
  assumes "fresh_request c" "bearer_token c = Some tok" "validate_token us tok = Inr (Some u, jwt)"
    "u_id u \<noteq> []" "\<not> u_system_admin u" "\<forall>t. resolve_tenant_role ms u t = None"
    "(guard, action, operation, l) \<in> set (kb_guards s addr)"
    "run_chain (kb_route ts us ms ks verify table enforced r guard) c = Proceed c'"
  shows "\<exists>a kb. gc_kb_access c' = Some a \<and> a_kb a = Some kb \<and> a_permission a = perm_viewer \<and>
    (action = ActionView \<or> action = ActionDownloadOriginal) \<and>
    (is_platform_public_kb kb \<or> is_tenant_published kb \<or>
     action = ActionView \<and> (\<exists>inv. ks_invites s = Some inv \<and>
       has_live_invite_lookup inv (kb_id kb) (u_id u) = Inr True))"
proof -
  from kb_route_Proceed [OF assms(8)] obtain d where auth: "fst (auth ts us ms ks verify c) = Proceed d"
    and guard: "guard d = Proceed c'" by blast
  from kb_guard_resolved [OF assms(7) guard] obtain kb a where res: "resolved s d kb action operation l a"
    and c': "gc_kb_access c' = Some a" by auto
  from res assms(1) anonymous_resolves_nothing have "d \<noteq> c" by blast
  with auth_Proceed [OF auth] assms(2,3) obtain ss where ss: "jwt_session ts ms u c ss"
    and d: "d = apply_auth_session c ss"
    using authenticate_jwt_user_session by force
  from resolved_right [OF res] obtain row where row: "a_kb a = Some row"
    and right: "kb_right (gc_ctx d) (session_caller ss) row l (a_permission a) (a_can_download a)"
    and allows: "right_allows action (a_permission a) (a_can_download a)"
    using d by auto
  note human = session_human [OF assms(1) ss]
  have no_role: "\<not> has_tenant_role (session_caller ss)"
  proof
    assume "has_tenant_role (session_caller ss)"
    from session_role [OF ss this] assms(6) [rule_format, of "ss_tenant_id ss"] show False
      by (auto simp: resolve_tenant_role_def)
  qed
  have no_admin: "\<not> is_explicit_human_super_admin (gc_ctx d) (session_caller ss)"
    using session_admin [OF ss] assms(5) d human(3) by auto
  have machine: "c_tenant_id (session_caller ss) = 0" if "\<not> is_human_caller (session_caller ss)"
    using ss that assms(4-6)
    by (cases rule: jwt_session.cases) (auto simp: is_human_caller_def is_guest_user_def split: if_splits)
  show ?thesis
    using c' row right allows no_role no_admin machine d human assms(7)
    by (auto elim!: kb_rightE simp: is_active_owner_member_def has_live_invite_def platform_tenant_id_def
        kb_guards_def no_lookups_def split: option.splits sum.splits if_splits)
qed

theorem guest_reads_open_kbs_only_witness:
  "\<exists>c' a. run_chain (world_read open_kb) (world_request (only_header ''Authorization'' ''Bearer t2'')) =
     Proceed c' \<and> gc_kb_access c' = Some a \<and> a_permission a = perm_viewer"
proof -
  let ?c = "world_request (only_header ''Authorization'' ''Bearer t2'')"
  have "proceeds (run_chain (world_read open_kb) ?c)" by code_simp
  then obtain c' where run: "run_chain (world_read open_kb) ?c = Proceed c'" by (blast dest: proceedsD)
  have user: "validate_token world_users ''t2'' = Inr (Some (world_user ''u2''), 0)"
    "u_id (world_user ''u2'') \<noteq> []" "\<not> u_system_admin (world_user ''u2'')"
    "\<forall>t. resolve_tenant_role world_members (world_user ''u2'') t = None"
    by (simp_all add: world_users_def world_user_def world_members_def resolve_tenant_role_def)
  from guest_reads_open_kbs_only [OF fresh_world world_token(2) user read_guard_listed
      run [unfolded world_read_def]] run
  show ?thesis by blast
qed

section \<open>API keys\<close>

text \<open>
  C5: an API key reaches its tenant only. When a request with a key (and no valid session token)
  passes the chain of a route, the knowledge base belongs to the tenant of the key, or to the one
  a platform key selected, or is platform-public content for the platform tenant itself; it is on
  the key's allow list when there is one; and the policy declared for the route admits the key.
\<close>

theorem api_key_reaches_its_tenant_only:
  assumes "fresh_request c"
    "\<nexists>tok u jwt. bearer_token c = Some tok \<and> validate_token us tok = Inr (Some u, jwt)"
    "ks = Some f" "f (gc_header c ''X-API-Key'') = Inr (Some key)"
    "(guard, action, operation, l) \<in> set (kb_guards s addr)"
    "run_chain (kb_route ts us ms ks verify table enforced r guard) c = Proceed c'"
  shows "\<exists>a kb tid. gc_kb_access c' = Some a \<and> a_kb a = Some kb \<and> tid \<noteq> 0 \<and> key_tenant key c tid \<and>
    (kb_owner kb = tid \<or>
     is_platform_public_kb kb \<and> tid = platform_tenant_id \<and> kb_tenant_id kb = platform_tenant_id) \<and>
    (normalize_id_array (tk_kb_ids key) = [] \<or>
     trim_space (kb_id kb) \<in> set (normalize_id_array (tk_kb_ids key))) \<and>
    authorize_route table (scope_normalize (key_scope key)) (gc_method c) (gc_full_path c)"
proof -
  from kb_route_Proceed [OF assms(6)] obtain d where auth: "fst (auth ts us ms ks verify c) = Proceed d"
    and gate: "api_key_gate table d = Proceed d" and guard: "guard d = Proceed c'" by blast
  from kb_guard_resolved [OF assms(5) guard] obtain kb a where res: "resolved s d kb action operation l a"
    and c': "gc_kb_access c' = Some a" by auto
  from res assms(1) anonymous_resolves_nothing have "d \<noteq> c" by blast
  with auth_Proceed [OF auth] assms(2,3) have "fst (authenticate_api_key_request ts us f verify
      (gc_header c ''X-API-Key'') c) = Proceed d" by auto
  from api_key_session [OF this assms(4)] obtain ss where ss: "key_session ts key c ss"
    and d: "d = apply_auth_session c ss" by blast
  from ss obtain k where scope: "ss_scope ss = Some k" by cases auto
  with d have key: "v_api_key (gc_ctx d) = Some (scope_normalize k)" by simp
  from resolved_right [OF res] obtain row where row: "a_kb a = Some row"
    and right: "kb_right (gc_ctx d) (session_caller ss) row l (a_permission a) (a_can_download a)"
    and auth_kb: "authorize_api_key_kbs (gc_ctx d) [kb_id row] = Inr ()"
    using d by fastforce
  have tid: "c_tenant_id (session_caller ss) = ss_tenant_id ss" by (simp add: session_caller_def)
  from key_has_no_human_acl [OF key right] have own: "kb_owner row \<noteq> 0 \<and> kb_owner row = ss_tenant_id ss \<or>
     is_platform_public_kb row \<and> ss_tenant_id ss = platform_tenant_id \<and> kb_tenant_id row = platform_tenant_id"
    by (simp add: tid)
  then have "ss_tenant_id ss \<noteq> 0" by (auto simp: platform_tenant_id_def)
  with ss have k: "k = key_scope key" and t: "key_tenant key c (ss_tenant_id ss)"
    using scope by (auto elim: key_session.cases)
  from auth_kb key k have allow: "allow_list (key_scope key) = {} \<or>
      trim_space (kb_id row) \<in> allow_list (key_scope key)"
    by (auto simp: authorize_single)
  have al: "set (normalize_id_array (tk_kb_ids key)) = allow_list (key_scope key)"
    using knowledge_base_ids_normalize [of "key_scope key"] by (simp add: scope_normalize_def key_scope_def)
  from gate key have "authorize_route table (scope_normalize (scope_normalize k))
      (gc_method d) (gc_full_path d)"
    by (auto simp: gate_Proceed api_key_scope_from_context_def)
  with d k have "authorize_route table (scope_normalize (key_scope key)) (gc_method c) (gc_full_path c)"
    by simp
  with c' row own t allow al \<open>ss_tenant_id ss \<noteq> 0\<close> show ?thesis
    by (metis set_empty)
qed

theorem api_key_reaches_its_tenant_only_witness:
  "\<exists>c' a kb. run_chain (world_read (sample_kb 7 vis_tenant))
       (world_request (only_header ''X-API-Key'' ''k1'')) = Proceed c' \<and>
     gc_kb_access c' = Some a \<and> a_kb a = Some kb \<and> (kb_owner kb = 7 \<or> is_platform_public_kb kb)"
proof -
  let ?c = "world_request (only_header ''X-API-Key'' ''k1'')"
  have "proceeds (run_chain (world_read (sample_kb 7 vis_tenant)) ?c)" by code_simp
  then obtain c' where run: "run_chain (world_read (sample_kb 7 vis_tenant)) ?c = Proceed c'"
    by (blast dest: proceedsD)
  have no_token: "\<nexists>tok u jwt. bearer_token ?c = Some tok \<and> validate_token world_users tok = Inr (Some u, jwt)"
    by (simp add: world_token)
  have key: "world_keys (gc_header ?c ''X-API-Key'') = Inr (Some world_key)"
    by (simp add: world_keys_def world_request_def only_header_def)
  have "\<not> tenant_api_key_is_platform (Some world_key)" by code_simp
  then have "key_tenant world_key ?c t \<longleftrightarrow> t = 7" for t
    by (simp add: key_tenant_def tenant_id_value_def world_key_def)
  with api_key_reaches_its_tenant_only [OF fresh_world no_token refl key read_guard_listed
      run [unfolded world_read_def]] run
  show ?thesis by blast
qed

section \<open>Members\<close>

lemma member_default_views: "right_allows ActionView (member_default_permission x) dl"
  by (simp add: right_allows_def required_permission_def)

lemma resolver_of_session [simp]: "resolver_of s addr (apply_auth_session c ss) = resolver_of s addr c"
  by (simp add: resolver_of_def kb_id_from_param_def kb_id_from_knowledge_id_param_def
      kb_id_from_chunk_id_param_def split: kb_address.split)

lemma access_context_session:
  assumes "a = access_from_decision (Some row) (session_caller ss) d operation"
  shows "v_tenant_id (access_context (Some a) (session_context ctx ss)) = Some (d_effective_tenant d)"
    "caller_from_context (access_context (Some a) (session_context ctx ss)) = session_caller ss"
  using assms
  by (simp_all add: access_context_def with_grant_def access_from_decision_def Let_def
      caller_mismatch_def with_execution_tenant_def caller_from_context_def with_caller_def)

lemma read_guard_admits:
  assumes "decide_kb (session_context (gc_ctx c) ss) (session_caller ss) (Some row) ActionView
      \<lparr>l_grants = ks_grants s, l_invites = ks_invites s, l_members = None\<rparr> = Inr d"
    "resolver_of s addr c = Inr kb" "ks_kb s kb = Inr (Some row)" "c_tenant_id (session_caller ss) \<noteq> 0"
    "authorize_api_key_kbs (session_context (gc_ctx c) ss) [kb] = Inr ()"
  shows "kb_access_read s addr (apply_auth_session c ss) =
    (let a = access_from_decision (Some row) (session_caller ss) d perm_viewer
     in Proceed ((apply_auth_session c ss)\<lparr>gc_kb_access := Some a,
          gc_ctx := access_context (Some a) (session_context (gc_ctx c) ss)\<rparr>))"
proof -
  have "resolve_kb_access perm_viewer (ks_kb s) (ks_grants s) (ks_invites s) (apply_auth_session c ss) kb =
      Inr (access_from_decision (Some row) (session_caller ss) d perm_viewer)"
    using assms
    by (auto simp: resolve_kb_access_def Let_def may_read_tenantless_def load_kb_for_guard_def
        resolve_kb_def resolve_kb_with_invite_def resolve_kb_action_def action_for_permission_def
        split: option.split)
  with assms show ?thesis
    by (simp add: kb_access_read_def require_kb_access_with_invite_def run_guard_Proceed Let_def)
qed

text \<open>
  C9: a member reads the knowledge bases of the own organization. A signed-in human with an active
  membership passes the whole chain of a read route for a knowledge base its tenant owns and does
  not restrict, with the role rollout on or off; the handler then runs on the data tenant of the
  knowledge base while the caller keeps the own one.
\<close>

theorem member_reads_own_kb:
  assumes "fresh_request c" "gc_method c \<noteq> m_options" "\<not> is_no_auth_api (gc_path c) (gc_method c)"
    and user: "bearer_token c = Some tok" "validate_token us tok = Inr (Some u, tid)" "tid \<noteq> 0"
      "u_id u \<noteq> []" "\<not> is_synthetic_user_id (u_id u)" "gc_header c ''X-Tenant-ID'' = []"
    and tenant: "get_tenant_by_id ts tid = Inr (Some t)" "\<not> is_hidden_tenant (Some t)"
      "get_membership ms (u_id u) tid = Inr (Some m)" "m_status m = ''active''" "role_is_valid (m_role m)"
    and kb: "resolver_of s addr c = Inr kb" "ks_kb s kb = Inr (Some row)" "kb_id row \<noteq> []"
      "kb_owner row = tid" "kb_visibility row \<in> {vis_tenant, vis_published}"
  shows "\<exists>c' a. run_chain (kb_route ts us ms ks verify table enforced MemberGuard (kb_access_read s addr)) c =
      Proceed c' \<and> gc_kb_access c' = Some a \<and> a_kb a = Some row \<and>
    v_tenant_id (gc_ctx c') = Some (kb_tenant_id row) \<and> c_tenant_id (caller_from_context (gc_ctx c')) = tid"
proof -
  let ?ss = "member_session u t tid m"
  let ?d = "apply_auth_session c ?ss" and ?x = "session_caller ?ss"
  let ?l = "\<lparr>l_grants = ks_grants s, l_invites = ks_invites s, l_members = None\<rparr>"
  note session = member_session_auth [OF tenant(1,2) user(3) tenant(3,4) user(6)]
  note human = session_human [OF assms(1) session(2)]
  have auth: "fst (auth ts us ms ks verify c) = Proceed ?d"
    using assms(2,3) user session(1) by (simp add: auth_def Let_def)
  have x: "c_role ?x = m_role m" "has_tenant_role ?x" "c_tenant_id ?x = tid" "is_human_caller ?x"
    using user tenant
    by (simp_all add: member_session_def session_caller_def user_session_def caller_normalize_def
        has_tenant_role_def is_human_caller_def)
  have gate: "api_key_gate table ?d = Proceed ?d"
    and key: "authorize_api_key_kbs (session_context (gc_ctx c) ?ss) [i] = Inr ()" for i
    using human by (simp_all add: gate_Proceed api_key_scope_from_context_def authorize_single)
  have member: "role_guard_of enforced MemberGuard ?d = Proceed ?d"
    using x tenant(5) by (simp add: role_guard_of_def require_role_def Let_def valid_role_is_member)
  have "is_active_owner_member ?x row None"
    using x user kb by (simp add: is_active_owner_member_def)
  then have right: "kb_right (gc_ctx ?d) ?x row ?l (member_default_permission (kb_member_default row)) True"
    using human x kb by (auto intro: kb_right.owner_member)
  have "\<exists>dc. decide_kb (gc_ctx ?d) ?x (Some row) ActionView ?l = Inr dc"
    unfolding decide_kb_iff session_caller_normalized
  proof (intro conjI exI)
    show "kb_right (gc_ctx ?d) ?x row ?l (member_default_permission (kb_member_default row)) True"
      by (rule right)
  qed (use kb key in \<open>simp_all add: check_api_key_scope_def caller_mismatch_def member_default_views\<close>)
  then obtain dc where dc: "decide_kb (gc_ctx ?d) ?x (Some row) ActionView ?l = Inr dc" by blast
  with kb x key user have "kb_access_read s addr ?d =
      (let a = access_from_decision (Some row) ?x dc perm_viewer
       in Proceed (?d\<lparr>gc_kb_access := Some a, gc_ctx := access_context (Some a) (gc_ctx ?d)\<rparr>))"
    by (simp add: read_guard_admits)
  then show ?thesis
    using auth gate member x(3) decide_kb_right [OF dc]
    by (simp add: kb_route_def Let_def access_context_session) (simp add: access_from_decision_def)
qed

theorem member_reads_own_kb_witness:
  "\<exists>c' a. run_chain (world_read (sample_kb 7 vis_tenant))
       (world_request (only_header ''Authorization'' ''Bearer t1'')) = Proceed c' \<and>
     gc_kb_access c' = Some a \<and> a_kb a = Some (sample_kb 7 vis_tenant)"
proof -
  let ?c = "world_request (only_header ''Authorization'' ''Bearer t1'')"
  let ?t = "\<lparr>t_id = 7, t_name = ''t7'', t_kind = [], t_profile = None, t_principal_cfg = None\<rparr>"
  let ?m = "\<lparr>m_tenant_id = 7, m_status = ''active'', m_role = role_member\<rparr>"
  have req: "gc_method ?c \<noteq> m_options" "\<not> is_no_auth_api (gc_path ?c) (gc_method ?c)"
    "gc_header ?c ''X-Tenant-ID'' = []"
    by (simp_all add: world_request_def only_header_def method_names is_no_auth_api_def no_auth_api_def
        has_suffix_def)
  have user: "validate_token world_users ''t1'' = Inr (Some (world_user ''u1''), 7)"
    "(7 :: tenant_id) \<noteq> 0" "u_id (world_user ''u1'') \<noteq> []" "\<not> is_synthetic_user_id (u_id (world_user ''u1''))"
    by (simp_all add: world_users_def world_user_def is_synthetic_user_id_def synthetic_prefix_def)
  have tenant: "get_tenant_by_id world_tenants 7 = Inr (Some ?t)" "\<not> is_hidden_tenant (Some ?t)"
    "get_membership world_members (u_id (world_user ''u1'')) 7 = Inr (Some ?m)"
    "m_status ?m = ''active''" "role_is_valid (m_role ?m)"
    by (simp_all add: world_tenants_def world_members_def world_user_def is_hidden_tenant_def
        is_config_profile_def is_public_portal_def)
  have kb: "resolver_of (world_kbs (sample_kb 7 vis_tenant)) (ByKb ''id'') ?c = Inr ''kb1''"
    "ks_kb (world_kbs (sample_kb 7 vis_tenant)) ''kb1'' = Inr (Some (sample_kb 7 vis_tenant))"
    "kb_id (sample_kb 7 vis_tenant) \<noteq> []" "kb_owner (sample_kb 7 vis_tenant) = 7"
    "kb_visibility (sample_kb 7 vis_tenant) \<in> {vis_tenant, vis_published}"
    by (simp_all add: resolver_of_def kb_id_from_param_def world_kbs_def world_request_def)
  from member_reads_own_kb [OF fresh_world req(1,2) world_token(1) user(1-4) req(3) tenant kb]
  show ?thesis unfolding world_read_def by blast
qed

end
