(* ===== verification/Route_Table.thy ===== *)
theory Route_Table
  imports Route_Access
begin

text \<open>
  How routes are declared: \<^verbatim>\<open>rbacGuards\<close>, \<^verbatim>\<open>apiKeyRouteGroup\<close> and the policy
  constructors of \<^verbatim>\<open>internal/router/rbac.go\<close>. A declaration is data (method, path template,
  policy for API keys, guards in order), so that the tables of the routes are lists and a statement
  about all routes is one about a list. \<open>route_chain\<close> gives the handlers gin runs before the
  route's own handler. Templates are gin's: \<^verbatim>\<open>:x\<close> stands for one segment,
  \<^verbatim>\<open>*x\<close> for the rest of the path. The handlers behind the guards are not modelled; every
  optional handler is taken as wired, as in production.
\<close>

section \<open>Policies\<close>

definition api_key_retrieve :: "route_policy \<Rightarrow> route_policy" where
  "api_key_retrieve p = with_capability p ''retrieve''"

definition api_key_chat :: "route_policy \<Rightarrow> route_policy" where
  "api_key_chat p = with_capability p ''chat''"

definition api_key_read_agents :: "route_policy \<Rightarrow> route_policy" where
  "api_key_read_agents p = with_capability p ''read_agents''"

definition api_key_ingest :: "route_policy \<Rightarrow> route_policy" where
  "api_key_ingest p = with_capability p ''ingest''"

definition api_key_manage_kbs :: "route_policy \<Rightarrow> route_policy" where
  "api_key_manage_kbs p = with_capability p ''manage_kbs''"

definition api_key_manage_agents :: "route_policy \<Rightarrow> route_policy" where
  "api_key_manage_agents p = with_capability p ''manage_agents''"

definition api_key_message_history :: "route_policy \<Rightarrow> route_policy" where
  "api_key_message_history p = with_capability p ''message_history''"

lemmas policy_defs = api_key_retrieve_def api_key_chat_def api_key_read_agents_def api_key_ingest_def
  api_key_manage_kbs_def api_key_manage_agents_def api_key_message_history_def api_key_any_def
  api_key_full_access_def with_capability_def

section \<open>Guards\<close>

datatype route_guard =
    Member
  | GuestChat
  | TenantAdmin
  | DocumentEditor
  | ChunkDocumentEditor
  | SystemAdmin
  | PlatformSuperAdmin
  | ConfigProfile
  | FileServeKey
  | KBAccessRead kb_address
  | KBAccessDownload kb_address
  | KBAccessManage kb_address

text \<open>The fields of \<^verbatim>\<open>rbacGuards\<close> that the guards use.\<close>

record rbac_guards =
  rg_enforced :: bool
  rg_profiles :: "(tenant_id \<Rightarrow> string + tenant option) option"
  rg_knowledge_uploader :: "creator_lookup option"
  rg_chunk_knowledge_uploader :: "creator_lookup option"
  rg_services :: kb_services
  rg_authorizer :: route_table

definition guard_handler :: "rbac_guards \<Rightarrow> route_guard \<Rightarrow> middleware" where
  "guard_handler g r =
     (case r of
        Member \<Rightarrow> require_role (rg_enforced g) role_member
      | GuestChat \<Rightarrow> require_member_or_portal_guest (rg_enforced g)
      | TenantAdmin \<Rightarrow> require_tenant_admin
      | DocumentEditor \<Rightarrow> require_tenant_admin_or_uploader (rg_knowledge_uploader g)
      | ChunkDocumentEditor \<Rightarrow> require_tenant_admin_or_uploader (rg_chunk_knowledge_uploader g)
      | SystemAdmin \<Rightarrow> require_system_admin
      | PlatformSuperAdmin \<Rightarrow> require_explicit_human_super_admin
      | ConfigProfile \<Rightarrow> config_profile_scope (rg_profiles g)
      | FileServeKey \<Rightarrow> allow_file_serve_api_key
      | KBAccessRead a \<Rightarrow> kb_access_read (rg_services g) a
      | KBAccessDownload a \<Rightarrow> kb_access_download (rg_services g) a
      | KBAccessManage a \<Rightarrow> kb_access_manage (rg_services g) a)"

section \<open>Declarations\<close>

record api_route =
  ar_method :: string
  ar_path :: string
  ar_policy :: "route_policy option"
  ar_guards :: "route_guard list"

text \<open>
  \<^verbatim>\<open>path.Join\<close> of a base and a relative template; the templates have no dot segments, so
  cleaning is \<open>normalize_route_path\<close>.
\<close>

definition path_join :: "string \<Rightarrow> string \<Rightarrow> string" where
  "path_join base rel = (if rel = [] then base else normalize_route_path (base @ slash # rel))"

text \<open>A \<^verbatim>\<open>gin.RouterGroup\<close>: its base path and the handlers its routes inherit.\<close>

record router_group =
  rt_base :: string
  rt_handlers :: "route_guard list"

definition group_of :: "router_group \<Rightarrow> string \<Rightarrow> route_guard list \<Rightarrow> router_group" where
  "group_of r rel hs = \<lparr>rt_base = path_join (rt_base r) rel, rt_handlers = rt_handlers r @ hs\<rparr>"

definition raw_route :: "router_group \<Rightarrow> string \<Rightarrow> string \<Rightarrow> route_guard list \<Rightarrow> api_route" where
  "raw_route r method rel hs =
     \<lparr>ar_method = method, ar_path = path_join (rt_base r) rel, ar_policy = None,
      ar_guards = rt_handlers r @ hs\<rparr>"

definition api_key_route ::
  "router_group \<Rightarrow> string \<Rightarrow> string \<Rightarrow> route_policy \<Rightarrow> route_guard list \<Rightarrow> api_route" where
  "api_key_route r method rel policy hs = (raw_route r method rel hs)\<lparr>ar_policy := Some policy\<rparr>"

record key_group =
  kg_grp :: router_group
  kg_policy :: route_policy

definition api_key_group :: "router_group \<Rightarrow> route_policy \<Rightarrow> key_group" where
  "api_key_group r policy = \<lparr>kg_grp = r, kg_policy = policy\<rparr>"

definition with_policy :: "key_group \<Rightarrow> route_policy \<Rightarrow> key_group" where
  "with_policy a policy = a\<lparr>kg_policy := policy\<rparr>"

definition handle_route :: "key_group \<Rightarrow> string \<Rightarrow> string \<Rightarrow> route_guard list \<Rightarrow> api_route" where
  "handle_route a method rel hs = api_key_route (kg_grp a) method rel (kg_policy a) hs"

definition r_GET :: "key_group \<Rightarrow> string \<Rightarrow> route_guard list \<Rightarrow> api_route" where
  "r_GET a rel hs = handle_route a m_get rel hs"

definition r_POST :: "key_group \<Rightarrow> string \<Rightarrow> route_guard list \<Rightarrow> api_route" where
  "r_POST a rel hs = handle_route a m_post rel hs"

definition r_PUT :: "key_group \<Rightarrow> string \<Rightarrow> route_guard list \<Rightarrow> api_route" where
  "r_PUT a rel hs = handle_route a m_put rel hs"

definition r_DELETE :: "key_group \<Rightarrow> string \<Rightarrow> route_guard list \<Rightarrow> api_route" where
  "r_DELETE a rel hs = handle_route a m_delete rel hs"

definition v1_group :: router_group where
  "v1_group = \<lparr>rt_base = ''/api/v1'', rt_handlers = []\<rparr>"

lemmas route_defs = group_of_def raw_route_def api_key_route_def api_key_group_def with_policy_def
  handle_route_def r_GET_def r_POST_def r_PUT_def r_DELETE_def v1_group_def

section \<open>What a table declares and serves\<close>

text \<open>The policies a table leaves in the authorizer.\<close>

definition declarations :: "api_route list \<Rightarrow> (string \<times> string \<times> route_policy) list" where
  "declarations rs =
     List.map_filter (\<lambda>r. map_option (\<lambda>p. (ar_method r, ar_path r, p)) (ar_policy r)) rs"

definition authorizer_of :: "api_route list \<Rightarrow> route_table" where
  "authorizer_of rs = register_all (declarations rs)"

text \<open>The handlers gin runs before the handler of a route of the \<^verbatim>\<open>/api/v1\<close> group.\<close>

definition route_chain :: "rbac_guards \<Rightarrow> api_route \<Rightarrow> middleware list" where
  "route_chain g r = api_key_gate (rg_authorizer g) # map (guard_handler g) (ar_guards r)"

text \<open>Whether a request path fits a template.\<close>

fun template_fits :: "string list \<Rightarrow> string list \<Rightarrow> bool" where
  "template_fits [] segs \<longleftrightarrow> segs = []"
| "template_fits (t # ts) segs \<longleftrightarrow>
     (if t \<noteq> [] \<and> hd t = CHR ''*'' then True
      else (case segs of
              [] \<Rightarrow> False
            | s # ss \<Rightarrow>
                (if t \<noteq> [] \<and> hd t = CHR '':'' then s \<noteq> [] else s = t) \<and> template_fits ts ss))"

definition route_fits :: "api_route \<Rightarrow> string \<Rightarrow> string \<Rightarrow> bool" where
  "route_fits r method path \<longleftrightarrow>
     ar_method r = method \<and> template_fits (split_slash (ar_path r)) (split_slash path)"

section \<open>Lemmas\<close>

lemma template_fits_Cons:
  "template_fits (t # ts) segs \<longleftrightarrow>
     t \<noteq> [] \<and> hd t = CHR ''*'' \<or>
     (\<exists>s ss. segs = s # ss \<and> (if t \<noteq> [] \<and> hd t = CHR '':'' then s \<noteq> [] else s = t) \<and>
        template_fits ts ss)"
  by (cases segs) auto

lemma split_slash_append: "split_slash (xs @ slash # ys) = split_slash xs @ split_slash ys"
  by (induction xs) (auto split: list.split)

lemma split_cut_prefix:
  "cut_prefix path (p @ [slash]) = Some rest \<Longrightarrow> split_slash path = split_slash p @ split_slash rest"
  by (auto simp: cut_prefix_def has_prefix_iff split_slash_append split: if_splits)

text \<open>The guards before a knowledge-base guard hand the request on unchanged.\<close>

definition plain_guard :: "route_guard \<Rightarrow> bool" where
  "plain_guard r \<longleftrightarrow>
     (case r of ConfigProfile \<Rightarrow> False | KBAccessRead _ \<Rightarrow> False | KBAccessDownload _ \<Rightarrow> False
      | KBAccessManage _ \<Rightarrow> False | _ \<Rightarrow> True)"

lemma plain_guard_unchanged:
  assumes "plain_guard r" "guard_handler g r c = Proceed c'"
  shows "c' = c"
  using assms role.unchanged tenant_admin.unchanged uploader.unchanged
  by (cases r)
    (auto simp: plain_guard_def guard_handler_def require_member_or_portal_guest_def
      require_system_admin_def require_explicit_human_super_admin_def allow_file_serve_api_key_def
      scope_forbidden_def Let_def split: if_splits option.splits)

lemma plain_guards_chain:
  "list_all plain_guard hs \<Longrightarrow>
     run_chain (map (guard_handler g) hs) c = Proceed c' \<longleftrightarrow>
       c' = c \<and> (\<forall>h \<in> set hs. guard_handler g h c = Proceed c)"
proof (induction hs)
  case (Cons h hs)
  then show ?case
    using plain_guard_unchanged [of h g c]
    by (cases "guard_handler g h c") auto
qed auto

text \<open>A chain of plain guards and one more guard at its end.\<close>

lemma guarded_chain:
  assumes "list_all plain_guard hs"
  shows "run_chain (map (guard_handler g) (hs @ [k])) c = Proceed c' \<longleftrightarrow>
    (\<forall>h \<in> set hs. guard_handler g h c = Proceed c) \<and> guard_handler g k c = Proceed c'"
proof -
  have "run_chain (map (guard_handler g) (hs @ [k])) c = Proceed c' \<longleftrightarrow>
      (\<exists>d. run_chain (map (guard_handler g) hs) c = Proceed d \<and> guard_handler g k d = Proceed c')"
    by (auto simp: run_chain_append split: verdict.splits)
  then show ?thesis unfolding plain_guards_chain [OF assms] by blast
qed

end
