(* ===== verification/Knowledge_Routes.thy ===== *)
theory Knowledge_Routes
  imports Route_Table
begin

text \<open>
  The routes of knowledge bases, documents, chunks, FAQ entries, tags, wiki pages and grants:
  the tables of \<^verbatim>\<open>internal/router/routes_knowledge.go\<close>, the grant and invitation
  routes of \<^verbatim>\<open>routes_agent.go\<close> and the file proxy of \<^verbatim>\<open>files.go\<close>. The
  theorems check the tables as a whole: every path that authentication opens to sessions without a
  tenant ends in a read guard, a key that may only retrieve manages nothing, and a member who is no
  administrator writes only by uploading or to their own documents.
\<close>

section \<open>Tables\<close>

definition chunker_debug_routes :: "router_group \<Rightarrow> api_route list" where
  "chunker_debug_routes r =
     [api_key_route r m_post ''/chunker/preview'' (api_key_retrieve (api_key_ingest api_key_full_access))
        [SystemAdmin]]"

definition chunk_routes :: "router_group \<Rightarrow> api_route list" where
  "chunk_routes r =
     (let chunks = api_key_group (group_of r ''/chunks'' []) (api_key_ingest api_key_full_access);
          chunk_read = with_policy chunks (api_key_retrieve api_key_full_access)
      in [r_GET chunk_read ''/:knowledge_id'' [Member, KBAccessRead (ByKnowledge ''knowledge_id'')],
          r_GET chunk_read ''/by-id/:id'' [Member, KBAccessRead (ByChunk ''id'')],
          r_GET chunk_read ''/:knowledge_id/:id/revisions''
            [Member, KBAccessRead (ByKnowledge ''knowledge_id'')],
          r_DELETE chunks ''/:knowledge_id/:id''
            [ChunkDocumentEditor, KBAccessManage (ByKnowledge ''knowledge_id'')],
          r_DELETE chunks ''/:knowledge_id''
            [ChunkDocumentEditor, KBAccessManage (ByKnowledge ''knowledge_id'')],
          r_PUT chunks ''/:knowledge_id/:id''
            [ChunkDocumentEditor, KBAccessManage (ByKnowledge ''knowledge_id'')],
          r_POST chunks ''/:knowledge_id/:id/revert''
            [ChunkDocumentEditor, KBAccessManage (ByKnowledge ''knowledge_id'')],
          r_DELETE chunks ''/by-id/:id/questions'' [TenantAdmin, KBAccessManage (ByChunk ''id'')],
          r_PUT chunks ''/by-id/:id/questions'' [TenantAdmin, KBAccessManage (ByChunk ''id'')],
          r_POST chunks ''/by-id/:id/questions/regenerate'' [TenantAdmin, KBAccessManage (ByChunk ''id'')]])"

definition kb_knowledge_routes :: "router_group \<Rightarrow> api_route list" where
  "kb_knowledge_routes r =
     (let kb = api_key_group (group_of r ''/knowledge-bases/:id/knowledge'' [])
                 (api_key_ingest api_key_full_access);
          kb_read = with_policy kb (api_key_retrieve api_key_full_access)
      in [r_POST kb ''/file'' [Member, KBAccessManage (ByKb ''id'')],
          r_POST kb ''/url'' [Member, KBAccessManage (ByKb ''id'')],
          r_POST kb ''/manual'' [Member, KBAccessManage (ByKb ''id'')],
          r_GET kb_read '''' [Member, KBAccessRead (ByKb ''id'')],
          r_POST kb_read ''/batch-download'' [Member, KBAccessDownload (ByKb ''id'')],
          r_GET kb_read ''/folders'' [Member, KBAccessRead (ByKb ''id'')],
          r_PUT kb ''/folders'' [TenantAdmin, KBAccessManage (ByKb ''id'')],
          r_DELETE (with_policy kb api_key_full_access) '''' [TenantAdmin, KBAccessManage (ByKb ''id'')]])"

definition knowledge_item_routes :: "router_group \<Rightarrow> api_route list" where
  "knowledge_item_routes r =
     (let k = api_key_group (group_of r ''/knowledge'' []) (api_key_ingest api_key_full_access);
          k_read = with_policy k (api_key_retrieve api_key_full_access)
      in [r_GET k_read ''/batch'' [Member],
          r_GET k_read ''/:id'' [Member, KBAccessRead (ByKnowledge ''id'')],
          r_GET k_read ''/:id/stages'' [Member, KBAccessRead (ByKnowledge ''id'')],
          r_GET k_read ''/:id/spans'' [Member, KBAccessRead (ByKnowledge ''id'')],
          r_DELETE k ''/:id'' [DocumentEditor, KBAccessManage (ByKnowledge ''id'')],
          r_PUT k ''/:id'' [DocumentEditor, KBAccessManage (ByKnowledge ''id'')],
          r_POST k ''/:id/regenerate-summary'' [DocumentEditor, KBAccessManage (ByKnowledge ''id'')],
          r_PUT k ''/manual/:id'' [DocumentEditor, KBAccessManage (ByKnowledge ''id'')],
          r_POST k ''/:id/reparse'' [DocumentEditor, KBAccessManage (ByKnowledge ''id'')],
          r_POST k ''/:id/cancel-parse'' [DocumentEditor, KBAccessManage (ByKnowledge ''id'')],
          r_GET k_read ''/:id/download'' [Member, KBAccessDownload (ByKnowledge ''id'')],
          r_GET k_read ''/:id/preview'' [Member, KBAccessRead (ByKnowledge ''id'')],
          r_PUT k ''/image/:id/:chunk_id'' [DocumentEditor, KBAccessManage (ByKnowledge ''id'')],
          r_GET k_read ''/search'' [Member],
          r_GET k_read ''/move/progress/:task_id'' [Member],
          r_PUT k ''/tags'' [TenantAdmin],
          r_POST k ''/batch-reparse'' [TenantAdmin],
          r_POST k ''/batch-delete'' [Member],
          r_POST k ''/folder'' [TenantAdmin],
          r_POST k ''/move'' [TenantAdmin]])"

definition knowledge_routes :: "router_group \<Rightarrow> api_route list" where
  "knowledge_routes r = kb_knowledge_routes r @ knowledge_item_routes r"

definition faq_routes :: "router_group \<Rightarrow> api_route list" where
  "faq_routes r =
     (let faq = api_key_group (group_of r ''/knowledge-bases/:id/faq'' [])
                  (api_key_ingest api_key_full_access);
          faq_read = with_policy faq (api_key_retrieve api_key_full_access)
      in [r_GET faq_read ''/entries'' [Member, KBAccessRead (ByKb ''id'')],
          r_GET faq_read ''/entries/export'' [Member, KBAccessRead (ByKb ''id'')],
          r_GET faq_read ''/entries/:entry_id'' [Member, KBAccessRead (ByKb ''id'')],
          r_POST faq ''/entries'' [TenantAdmin, KBAccessManage (ByKb ''id'')],
          r_POST faq ''/entry'' [TenantAdmin, KBAccessManage (ByKb ''id'')],
          r_PUT faq ''/entries/:entry_id'' [TenantAdmin, KBAccessManage (ByKb ''id'')],
          r_POST faq ''/entries/:entry_id/similar-questions'' [TenantAdmin, KBAccessManage (ByKb ''id'')],
          r_PUT faq ''/entries/fields'' [TenantAdmin, KBAccessManage (ByKb ''id'')],
          r_PUT faq ''/entries/tags'' [TenantAdmin, KBAccessManage (ByKb ''id'')],
          r_DELETE faq ''/entries'' [TenantAdmin, KBAccessManage (ByKb ''id'')],
          r_POST faq_read ''/search'' [Member, KBAccessRead (ByKb ''id'')],
          r_PUT faq ''/import/last-result/display'' [TenantAdmin, KBAccessManage (ByKb ''id'')],
          api_key_route r m_get ''/faq/import/progress/:task_id''
            (api_key_retrieve (api_key_ingest api_key_full_access)) [Member]])"

definition knowledge_base_routes :: "router_group \<Rightarrow> api_route list" where
  "knowledge_base_routes r =
     (let kbgrp = group_of r ''/knowledge-bases'' [];
          kb = api_key_group kbgrp (api_key_retrieve api_key_full_access);
          kb_management = with_policy kb (api_key_manage_kbs api_key_full_access)
      in [r_POST kb_management '''' [TenantAdmin],
          raw_route kbgrp m_post ''/public'' [PlatformSuperAdmin],
          raw_route kbgrp m_get ''/public'' [],
          r_GET kb '''' [Member],
          r_GET kb ''/:id'' [Member, KBAccessRead (ByKb ''id'')],
          r_PUT kb_management ''/:id'' [TenantAdmin, KBAccessManage (ByKb ''id'')],
          r_PUT kb_management ''/:id/visibility'' [TenantAdmin, KBAccessManage (ByKb ''id'')],
          raw_route kbgrp m_post ''/:id/transfer-owner'' [PlatformSuperAdmin],
          r_POST kb_management ''/:id/profile/generate'' [TenantAdmin, KBAccessManage (ByKb ''id'')],
          r_DELETE kb_management ''/:id'' [TenantAdmin, KBAccessManage (ByKb ''id'')],
          r_PUT kb ''/:id/pin'' [Member, KBAccessRead (ByKb ''id'')],
          raw_route kbgrp m_post ''/:id/subscription'' [Member, KBAccessRead (ByKb ''id'')],
          raw_route kbgrp m_delete ''/:id/subscription'' [Member],
          r_POST kb ''/:id/hybrid-search'' [Member, KBAccessRead (ByKb ''id'')],
          r_GET kb ''/:id/hybrid-search'' [Member, KBAccessRead (ByKb ''id'')],
          r_POST kb_management ''/copy'' [TenantAdmin],
          r_POST kb_management ''/:id/duplicate'' [TenantAdmin, KBAccessRead (ByKb ''id'')],
          r_GET (with_policy kb (api_key_retrieve (api_key_manage_kbs api_key_full_access)))
            ''/copy/progress/:task_id'' [Member],
          r_GET kb ''/:id/move-targets'' [Member, KBAccessRead (ByKb ''id'')]])"

definition kb_activity_routes :: "router_group \<Rightarrow> api_route list" where
  "kb_activity_routes r =
     [raw_route r m_get ''/knowledge-bases/:id/activity'' [TenantAdmin, KBAccessRead (ByKb ''id'')]]"

definition knowledge_tag_routes :: "router_group \<Rightarrow> api_route list" where
  "knowledge_tag_routes r =
     (let kb_tags = api_key_group (group_of r ''/knowledge-bases/:id/tags'' [])
                      (api_key_ingest api_key_full_access);
          kb_tags_read = with_policy kb_tags (api_key_retrieve api_key_full_access)
      in [r_GET kb_tags_read '''' [Member, KBAccessRead (ByKb ''id'')],
          r_POST kb_tags '''' [TenantAdmin, KBAccessManage (ByKb ''id'')],
          r_PUT kb_tags ''/:tag_id'' [TenantAdmin, KBAccessManage (ByKb ''id'')],
          r_DELETE kb_tags ''/:tag_id'' [TenantAdmin, KBAccessManage (ByKb ''id'')]])"

definition wiki_page_routes :: "router_group \<Rightarrow> api_route list" where
  "wiki_page_routes r =
     (let wiki = api_key_group (group_of r ''/knowledgebase/:kb_id/wiki'' [])
                   (api_key_ingest api_key_full_access);
          wiki_read = with_policy wiki (api_key_retrieve api_key_full_access);
          reads = [Member, KBAccessRead (ByKb ''kb_id'')];
          manages = [TenantAdmin, KBAccessManage (ByKb ''kb_id'')]
      in [r_GET wiki_read ''/pages'' reads,
          r_POST wiki ''/pages'' manages,
          r_PUT wiki ''/move-page'' manages,
          r_GET wiki_read ''/pages/*slug'' reads,
          r_PUT wiki ''/pages/*slug'' manages,
          r_DELETE wiki ''/pages/*slug'' manages,
          r_GET wiki_read ''/revisions/*slug'' reads,
          r_POST wiki ''/revert'' manages,
          r_GET wiki_read ''/folders'' reads,
          r_POST wiki ''/folders'' manages,
          r_PUT wiki ''/folders/:folder_id'' manages,
          r_DELETE wiki ''/folders/:folder_id'' manages,
          r_GET wiki_read ''/index'' reads,
          r_GET wiki_read ''/graph'' reads,
          r_GET wiki_read ''/stats'' reads,
          r_GET wiki_read ''/search'' reads,
          r_POST wiki ''/rebuild-links'' manages,
          r_POST wiki ''/catalogue/rebuild'' manages,
          r_GET wiki_read ''/catalogue/status'' reads,
          r_GET wiki_read ''/lint'' reads,
          r_POST wiki ''/auto-fix'' manages,
          r_GET wiki_read ''/issues'' reads,
          r_PUT wiki ''/issues/:issue_id/status'' manages])"

definition knowledge_graph_view_routes :: "router_group \<Rightarrow> api_route list" where
  "knowledge_graph_view_routes r =
     [raw_route r m_get ''/knowledge-bases/:id/entity-graph'' [Member, KBAccessRead (ByKb ''id'')],
      raw_route r m_get ''/knowledge-bases/:id/legal-graph'' [Member, KBAccessRead (ByKb ''id'')],
      raw_route r m_get ''/knowledge-bases/:id/legal-graph/focus'' [Member, KBAccessRead (ByKb ''id'')]]"

definition kb_access_grant_routes :: "router_group \<Rightarrow> api_route list" where
  "kb_access_grant_routes r =
     (let kb_grants = api_key_group (group_of r ''/knowledge-bases/:id/grants'' []) api_key_full_access;
          grants = api_key_group (group_of r ''/knowledge-bases/:id/access-requests'' []) api_key_full_access;
          tenant_grants = api_key_group (group_of r ''/tenants/:id/access-grants'' []) api_key_full_access
      in [r_POST kb_grants '''' [TenantAdmin],
          r_GET kb_grants '''' [TenantAdmin],
          r_DELETE kb_grants ''/:grant_id'' [TenantAdmin],
          r_POST grants '''' [TenantAdmin],
          r_GET tenant_grants '''' [TenantAdmin],
          r_PUT tenant_grants ''/:grant_id'' [TenantAdmin],
          r_DELETE tenant_grants ''/:grant_id'' [TenantAdmin],
          api_key_route r m_get ''/access-grants'' api_key_full_access [TenantAdmin]])"

definition kb_invitation_routes :: "router_group \<Rightarrow> api_route list" where
  "kb_invitation_routes r =
     (let invites = api_key_group (group_of r ''/knowledge-bases/:id/invites'' []) api_key_full_access
      in [r_POST invites '''' [TenantAdmin],
          r_GET invites '''' [TenantAdmin],
          r_DELETE invites ''/:invite_id'' [TenantAdmin],
          api_key_route r m_post ''/kb-invites/accept'' api_key_full_access [Member],
          api_key_route r m_post ''/kb-invites/:id/accept'' api_key_full_access [Member],
          api_key_route r m_get ''/kb-invites'' api_key_full_access [Member]])"

definition kb_access_overview_routes :: "router_group \<Rightarrow> api_route list" where
  "kb_access_overview_routes r =
     [api_key_route r m_get ''/knowledge-bases/:id/access'' api_key_full_access [KBAccessRead (ByKb ''id'')]]"

definition kb_scoped_file_routes :: "router_group \<Rightarrow> api_route list" where
  "kb_scoped_file_routes r =
     [api_key_route r m_get ''/knowledge-bases/:id/files'' (api_key_retrieve api_key_full_access)
        [FileServeKey, Member, KBAccessRead (ByKb ''id'')]]"

text \<open>The knowledge routes of \<^verbatim>\<open>NewRouter\<close>, in the order it registers them.\<close>

definition kb_table :: "api_route list" where
  "kb_table =
     knowledge_base_routes v1_group @ kb_activity_routes v1_group @ knowledge_graph_view_routes v1_group @
     kb_scoped_file_routes v1_group @ knowledge_tag_routes v1_group @ knowledge_routes v1_group @
     faq_routes v1_group @ chunk_routes v1_group @ kb_access_grant_routes v1_group @
     kb_invitation_routes v1_group @ kb_access_overview_routes v1_group @ wiki_page_routes v1_group @
     chunker_debug_routes v1_group"

lemmas table_defs = chunker_debug_routes_def chunk_routes_def kb_knowledge_routes_def
  knowledge_item_routes_def knowledge_routes_def faq_routes_def knowledge_base_routes_def
  kb_activity_routes_def knowledge_tag_routes_def wiki_page_routes_def knowledge_graph_view_routes_def
  kb_access_grant_routes_def kb_invitation_routes_def kb_access_overview_routes_def
  kb_scoped_file_routes_def


definition reads_kb :: "api_route \<Rightarrow> bool" where
  "reads_kb r \<longleftrightarrow>
     list_ex (\<lambda>g. case g of KBAccessRead _ \<Rightarrow> True | KBAccessDownload _ \<Rightarrow> True | _ \<Rightarrow> False) (ar_guards r)"

definition manages_kb :: "api_route \<Rightarrow> bool" where
  "manages_kb r \<longleftrightarrow> list_ex (\<lambda>g. case g of KBAccessManage _ \<Rightarrow> True | _ \<Rightarrow> False) (ar_guards r)"

end
