(* ===== verification/Knowledge_Rules.thy ===== *)
theory Knowledge_Rules
  imports Knowledge_Routes
begin

text \<open>
  What the tables of the knowledge routes guarantee as a whole: every path that authentication opens
  to sessions without a tenant ends in a guard of its own, a key that may only retrieve is admitted to
  none of these routes that manages content, and a member who is no administrator changes content only
  by uploading, in their own documents, or where the lookup of the uploader finds no document of the
  caller's tenant. The facts about the tables are computed; the paths are compared with the templates
  segment by segment, whatever route gin prefers when several templates fit.
\<close>

section \<open>Paths without a tenant\<close>

definition admin_only :: "api_route \<Rightarrow> bool" where
  "admin_only r \<longleftrightarrow> TenantAdmin \<in> set (ar_guards r) \<or> PlatformSuperAdmin \<in> set (ar_guards r)"

text \<open>The routes that neither a read guard nor an administrator guard protects, as templates.\<close>

definition weak_routes :: "(string \<times> string list) list" where
  "weak_routes =
     map (\<lambda>r. (ar_method r, split_slash (ar_path r)))
       (filter (\<lambda>r. \<not> admin_only r \<and> \<not> reads_kb r) kb_table)"

lemma weak_list:
  "weak_routes =
    map (\<lambda>(m, s). (m, ['''', ''api'', ''v1''] @ s))
    [(m_get, [''knowledge-bases'', ''public'']), (m_get, [''knowledge-bases'']),
     (m_delete, [''knowledge-bases'', '':id'', ''subscription'']),
     (m_get, [''knowledge-bases'', ''copy'', ''progress'', '':task_id'']),
     (m_post, [''knowledge-bases'', '':id'', ''knowledge'', ''file'']),
     (m_post, [''knowledge-bases'', '':id'', ''knowledge'', ''url'']),
     (m_post, [''knowledge-bases'', '':id'', ''knowledge'', ''manual'']),
     (m_get, [''knowledge'', ''batch'']), (m_delete, [''knowledge'', '':id'']),
     (m_put, [''knowledge'', '':id'']), (m_post, [''knowledge'', '':id'', ''regenerate-summary'']),
     (m_put, [''knowledge'', ''manual'', '':id'']), (m_post, [''knowledge'', '':id'', ''reparse'']),
     (m_post, [''knowledge'', '':id'', ''cancel-parse'']),
     (m_put, [''knowledge'', ''image'', '':id'', '':chunk_id'']),
     (m_get, [''knowledge'', ''search'']), (m_get, [''knowledge'', ''move'', ''progress'', '':task_id'']),
     (m_post, [''knowledge'', ''batch-delete'']), (m_get, [''faq'', ''import'', ''progress'', '':task_id'']),
     (m_delete, [''chunks'', '':knowledge_id'', '':id'']), (m_delete, [''chunks'', '':knowledge_id'']),
     (m_put, [''chunks'', '':knowledge_id'', '':id'']),
     (m_post, [''chunks'', '':knowledge_id'', '':id'', ''revert'']),
     (m_post, [''kb-invites'', ''accept'']), (m_post, [''kb-invites'', '':id'', ''accept'']),
     (m_get, [''kb-invites'']), (m_post, [''chunker'', ''preview''])]"
  by code_simp

text \<open>The segments of the paths that authentication opens to sessions without a tenant.\<close>

definition v1_segs :: "string \<Rightarrow> string list \<Rightarrow> string list" where
  "v1_segs w us = ['''', ''api'', ''v1'', w] @ us"

lemma prefix_segs:
  "cut_prefix path kb_prefix = Some rest \<Longrightarrow> split_slash path = v1_segs ''knowledge-bases'' (split_slash rest)"
  "cut_prefix path knowledge_prefix = Some rest \<Longrightarrow> split_slash path = v1_segs ''knowledge'' (split_slash rest)"
  "cut_prefix path chunks_prefix = Some rest \<Longrightarrow> split_slash path = v1_segs ''chunks'' (split_slash rest)"
  "cut_prefix path wiki_prefix = Some rest \<Longrightarrow> split_slash path = v1_segs ''knowledgebase'' (split_slash rest)"
  using split_cut_prefix [of path "''/api/v1/knowledge-bases''" rest]
    split_cut_prefix [of path "''/api/v1/knowledge''" rest]
    split_cut_prefix [of path "''/api/v1/chunks''" rest]
    split_cut_prefix [of path "''/api/v1/knowledgebase''" rest]
  by (simp_all add: prefix_names slash_def v1_segs_def)

inductive open_segs :: "string \<Rightarrow> string list \<Rightarrow> bool" where
  kb_read: "match_tenantless_kb_read_shape rest (m = m_get) (m = m_post) \<Longrightarrow>
    open_segs m (v1_segs ''knowledge-bases'' (split_slash rest))"
| knowledge_read: "match_knowledge_read rest \<Longrightarrow> open_segs m_get (v1_segs ''knowledge'' (split_slash rest))"
| chunk_read: "open_segs m_get (v1_segs ''chunks'' (split_slash rest))"
| wiki_read: "open_segs m_get (v1_segs ''knowledgebase'' (split_slash rest))"
| lifecycle: "is_tenantless_kb_lifecycle_path path m \<Longrightarrow> cut_prefix path kb_prefix = Some rest \<Longrightarrow>
    open_segs m (v1_segs ''knowledge-bases'' (split_slash rest))"
| catalog: "m \<in> {m_get, m_post} \<Longrightarrow> open_segs m (v1_segs ''knowledge-bases'' [''public''])"
| elsewhere: "w \<in> {''auth'', ''me'', ''tenants'', ''system''} \<Longrightarrow> open_segs m (v1_segs w us)"

lemma read_path_segs:
  "is_tenantless_public_read_path path method \<Longrightarrow> open_segs method (split_slash path)"
  using open_segs.kb_read [of _ m_get] open_segs.kb_read [of _ m_post]
  unfolding is_tenantless_public_read_path_def Let_def
  by (auto intro: open_segs.intros dest!: prefix_segs split: option.splits if_splits)

lemma has_prefix_cut: "has_prefix path p \<longleftrightarrow> (\<exists>rest. cut_prefix path p = Some rest)"
  by (simp add: cut_prefix_def)

lemma route_segs:
  assumes "r \<in> set tenant_optional_routes" "route_matches r path method"
  shows "open_segs method (split_slash path)"
proof -
  have "open_segs method (['''', ''api'', ''v1'', w] @ us)"
    if "w \<in> {''auth'', ''me'', ''tenants'', ''system''}" for w us
    using open_segs.elsewhere [OF that] by (simp add: v1_segs_def)
  from this [of "''auth''"] this [of "''me''"] this [of "''tenants''"] this [of "''system''"] assms
  show ?thesis
    by (auto simp: tenant_optional_routes_def exact_route_def route_matches_def slash_def has_prefix_iff
        split: if_splits)
qed

lemma tenant_optional_segs:
  assumes "is_tenant_optional_api path method"
  shows "open_segs method (split_slash path)"
proof (cases "list_ex (\<lambda>r. route_matches r path method) tenant_optional_routes")
  case True
  then show ?thesis using route_segs by (auto simp: list_ex_iff)
next
  case False
  have "split_slash (kb_prefix @ ''public'') = v1_segs ''knowledge-bases'' [''public'']"
    by (simp add: kb_prefix_def v1_segs_def slash_def)
  moreover have "open_segs method (split_slash path)"
    if "is_tenantless_kb_lifecycle_path path method" "has_prefix path kb_prefix"
    using that open_segs.lifecycle [OF that(1)] prefix_segs(1) by (auto simp: has_prefix_cut)
  ultimately show ?thesis
    using assms False read_path_segs
    by (auto simp: is_tenant_optional_api_def intro: open_segs.catalog split: if_splits)
qed

lemma kb_read_shapes:
  assumes "match_tenantless_kb_read_shape rest is_get is_post"
  shows "\<exists>a. a \<notin> {[], ''public'', ''copy''} \<and>
    (is_get \<and> split_slash rest \<in> {[a], [a, ''hybrid-search''], [a, ''knowledge''], [a, ''tags''], [a, ''access''],
       [a, ''files''], [a, ''entity-graph''], [a, ''legal-graph''], [a, ''legal-graph'', ''focus''],
       [a, ''knowledge'', ''folders''], [a, ''faq'', ''entries'']} \<or>
     is_get \<and> (\<exists>e. split_slash rest = [a, ''faq'', ''entries'', e]) \<or>
     is_post \<and> split_slash rest \<in> {[a, ''hybrid-search''], [a, ''knowledge'', ''batch-download''],
       [a, ''faq'', ''search'']})"
proof -
  obtain a us where us: "split_slash rest = a # us" by (cases "split_slash rest") auto
  with assms have a: "a \<notin> {[], ''public'', ''copy''}"
    by (auto simp: match_tenantless_kb_read_shape_def Let_def)
  note m = assms [unfolded match_tenantless_kb_read_shape_def Let_def us]
  consider "us = []" | b where "us = [b]" | b d where "us = [b, d]" | b d e where "us = [b, d, e]"
    | b d e f vs where "us = b # d # e # f # vs"
    by (metis list.exhaust)
  then have "is_get \<and> us \<in> {[], [''hybrid-search''], [''knowledge''], [''tags''], [''access''],
       [''files''], [''entity-graph''], [''legal-graph''], [''legal-graph'', ''focus''],
       [''knowledge'', ''folders''], [''faq'', ''entries'']} \<or>
     is_get \<and> (\<exists>e. us = [''faq'', ''entries'', e]) \<or>
     is_post \<and> us \<in> {[''hybrid-search''], [''knowledge'', ''batch-download''], [''faq'', ''search'']}"
    by cases (use m a in \<open>simp_all split: if_splits\<close>)
  with a show ?thesis unfolding us by (intro exI [of _ a]) simp
qed

lemma knowledge_read_shapes:
  assumes "match_knowledge_read rest"
  shows "\<exists>a. split_slash rest = [a] \<and> a \<notin> {''search'', ''batch''} \<or> (\<exists>b. split_slash rest = [a, b])"
  using assms
  by (auto simp: match_knowledge_read_def split: list.splits if_splits)

lemma lifecycle_shapes:
  assumes "is_tenantless_kb_lifecycle_path path m" "cut_prefix path kb_prefix = Some rest"
  shows "\<exists>a. split_slash rest = [a] \<and> (m = m_put \<or> m = m_delete) \<or>
    (\<exists>b. split_slash rest = [a, b] \<and> b \<in> {''grants'', ''invites'', ''transfer-owner'', ''visibility''}) \<or>
    (\<exists>b d. split_slash rest = [a, b, d] \<and> b \<in> {''grants'', ''invites'', ''profile''})"
proof -
  have "trim_prefix path kb_prefix = rest"
    using assms(2) by (simp add: cut_prefix_def trim_prefix_def split: if_splits)
  note m = assms(1) [unfolded is_tenantless_kb_lifecycle_path_def Let_def this]
  obtain a us where us: "split_slash rest = a # us" by (cases "split_slash rest") auto
  consider "us = []" | b where "us = [b]" | b d where "us = [b, d]" | b d e vs where "us = b # d # e # vs"
    by (metis list.exhaust)
  then show ?thesis unfolding us by cases (use m us in \<open>auto split: if_splits\<close>)
qed

text \<open>Each weak template against each shape: only the public catalog is left.\<close>

definition misses :: "string \<Rightarrow> string list \<Rightarrow> bool" where
  "misses method segs \<longleftrightarrow>
     list_all (\<lambda>(m, t). m = method \<longrightarrow> template_fits t segs \<longrightarrow>
       m = m_get \<and> t = v1_segs ''knowledge-bases'' [''public'']) weak_routes"

lemmas misses_simps = misses_def weak_list v1_segs_def method_names

lemma misses_kb_reads:
  assumes "match_tenantless_kb_read_shape rest (m = m_get) (m = m_post)"
  shows "misses m (v1_segs ''knowledge-bases'' (split_slash rest))"
proof -
  from kb_read_shapes [OF assms] obtain a where a: "a \<notin> {[], ''public'', ''copy''}"
    and us: "m = m_get \<and> split_slash rest \<in> {[a], [a, ''hybrid-search''], [a, ''knowledge''],
        [a, ''tags''], [a, ''access''], [a, ''files''], [a, ''entity-graph''], [a, ''legal-graph''],
        [a, ''legal-graph'', ''focus''], [a, ''knowledge'', ''folders''], [a, ''faq'', ''entries'']} \<or>
      m = m_get \<and> (\<exists>e. split_slash rest = [a, ''faq'', ''entries'', e]) \<or>
      m = m_post \<and> split_slash rest \<in> {[a, ''hybrid-search''], [a, ''knowledge'', ''batch-download''],
        [a, ''faq'', ''search'']}" by blast
  from us show ?thesis
    by (elim disjE exE conjE insertE emptyE) (use a in \<open>simp_all add: misses_simps\<close>)
qed

lemma misses_lifecycle:
  assumes "is_tenantless_kb_lifecycle_path path m" "cut_prefix path kb_prefix = Some rest"
  shows "misses m (v1_segs ''knowledge-bases'' (split_slash rest))"
  using lifecycle_shapes [OF assms]
  by (elim exE disjE conjE insertE emptyE) (simp_all add: misses_simps)

lemma open_segs_miss: "open_segs m segs \<Longrightarrow> misses m segs"
proof (induction rule: open_segs.induct)
  case (knowledge_read rest)
  from knowledge_read_shapes [OF knowledge_read] show ?case
    by (elim exE disjE conjE) (simp_all add: misses_simps)
next
  case (elsewhere w m us)
  then show ?case by (elim insertE emptyE) (simp_all add: misses_simps)
qed (simp_all add: misses_kb_reads misses_lifecycle, auto simp: misses_simps)

text \<open>
  C6: no path is opened to sessions without a tenant by mistake. Every route of the knowledge tables
  whose template fits a path on the tenant-optional list of authentication has a guard of its own
  that asks for read access to the knowledge base or for an administrator; the one exception is the
  public catalog, which answers any signed-in person.
\<close>

theorem tenant_optional_paths_are_guarded:
  assumes "r \<in> set kb_table" "is_tenant_optional_api path method" "route_fits r method path"
  shows "reads_kb r \<or> admin_only r \<or>
    ar_method r = m_get \<and> split_slash (ar_path r) = ['''', ''api'', ''v1'', ''knowledge-bases'', ''public'']"
proof (cases "reads_kb r \<or> admin_only r")
  case False
  with assms(1) have "(ar_method r, split_slash (ar_path r)) \<in> set weak_routes"
    by (auto simp: weak_routes_def)
  with open_segs_miss [OF tenant_optional_segs [OF assms(2)]] assms(3) show ?thesis
    by (auto simp: misses_def list_all_iff route_fits_def v1_segs_def)
qed blast

definition batch_download_route :: api_route where
  "batch_download_route =
     \<lparr>ar_method = m_post, ar_path = ''/api/v1/knowledge-bases/:id/knowledge/batch-download'',
      ar_policy = Some (api_key_retrieve api_key_full_access),
      ar_guards = [Member, KBAccessDownload (ByKb ''id'')]\<rparr>"

lemma batch_download_listed: "batch_download_route \<in> set kb_table"
  by (simp add: batch_download_route_def kb_table_def table_defs route_defs path_join_def) code_simp

theorem tenant_optional_paths_are_guarded_witness:
  "reads_kb batch_download_route \<or> admin_only batch_download_route"
proof -
  have "is_tenant_optional_api ''/api/v1/knowledge-bases/kb1/knowledge/batch-download'' m_post"
    "route_fits batch_download_route m_post ''/api/v1/knowledge-bases/kb1/knowledge/batch-download''"
    by code_simp+
  from tenant_optional_paths_are_guarded [OF batch_download_listed this] show ?thesis
    by (auto simp: batch_download_route_def method_names)
qed

section \<open>Keys that only retrieve\<close>

text \<open>The routes open to the retrieve capability that no guard binds to one knowledge base.\<close>

definition unscoped_reads :: "(string \<times> string) list" where
  "unscoped_reads =
     [(m_get, ''/api/v1/knowledge-bases''), (m_get, ''/api/v1/knowledge-bases/copy/progress/:task_id''),
      (m_get, ''/api/v1/knowledge/batch''), (m_get, ''/api/v1/knowledge/search''),
      (m_get, ''/api/v1/knowledge/move/progress/:task_id''),
      (m_get, ''/api/v1/faq/import/progress/:task_id''), (m_post, ''/api/v1/chunker/preview'')]"

text \<open>What a declaration of the table asks of a key.\<close>

definition policy_shape :: "route_policy \<Rightarrow> bool" where
  "policy_shape p \<longleftrightarrow>
     rp_require_full p \<and> \<not> rp_platform_only p \<and>
     list_all (\<lambda>c. c = ''retrieve'' \<or> c = ''ingest'' \<or> c = ''manage_kbs'') (rp_capabilities p)"

text \<open>The routes open to the retrieve capability.\<close>

definition retrieve_gets :: "string list" where
  "retrieve_gets =
     [''/api/v1/knowledge-bases'', ''/api/v1/knowledge-bases/:id'',
      ''/api/v1/knowledge-bases/:id/hybrid-search'',
      ''/api/v1/knowledge-bases/copy/progress/:task_id'',
      ''/api/v1/knowledge-bases/:id/move-targets'', ''/api/v1/knowledge-bases/:id/files'',
      ''/api/v1/knowledge-bases/:id/tags'', ''/api/v1/knowledge-bases/:id/knowledge'',
      ''/api/v1/knowledge-bases/:id/knowledge/folders'', ''/api/v1/knowledge/batch'',
      ''/api/v1/knowledge/:id'', ''/api/v1/knowledge/:id/stages'',
      ''/api/v1/knowledge/:id/spans'', ''/api/v1/knowledge/:id/download'',
      ''/api/v1/knowledge/:id/preview'', ''/api/v1/knowledge/search'',
      ''/api/v1/knowledge/move/progress/:task_id'', ''/api/v1/knowledge-bases/:id/faq/entries'',
      ''/api/v1/knowledge-bases/:id/faq/entries/export'',
      ''/api/v1/knowledge-bases/:id/faq/entries/:entry_id'',
      ''/api/v1/faq/import/progress/:task_id'', ''/api/v1/chunks/:knowledge_id'',
      ''/api/v1/chunks/by-id/:id'', ''/api/v1/chunks/:knowledge_id/:id/revisions'',
      ''/api/v1/knowledgebase/:kb_id/wiki/pages'',
      ''/api/v1/knowledgebase/:kb_id/wiki/pages/*slug'',
      ''/api/v1/knowledgebase/:kb_id/wiki/revisions/*slug'',
      ''/api/v1/knowledgebase/:kb_id/wiki/folders'', ''/api/v1/knowledgebase/:kb_id/wiki/index'',
      ''/api/v1/knowledgebase/:kb_id/wiki/graph'', ''/api/v1/knowledgebase/:kb_id/wiki/stats'',
      ''/api/v1/knowledgebase/:kb_id/wiki/search'',
      ''/api/v1/knowledgebase/:kb_id/wiki/catalogue/status'',
      ''/api/v1/knowledgebase/:kb_id/wiki/lint'', ''/api/v1/knowledgebase/:kb_id/wiki/issues'']"

definition retrieve_others :: "(string \<times> string) list" where
  "retrieve_others =
     [(m_put, ''/api/v1/knowledge-bases/:id/pin''),
      (m_post, ''/api/v1/knowledge-bases/:id/hybrid-search''),
      (m_post, ''/api/v1/knowledge-bases/:id/knowledge/batch-download''),
      (m_post, ''/api/v1/knowledge-bases/:id/faq/search''), (m_post, ''/api/v1/chunker/preview'')]"

definition retrieves :: "route_policy option \<Rightarrow> bool" where
  "retrieves p \<longleftrightarrow> (case p of None \<Rightarrow> False | Some p \<Rightarrow> list_ex (\<lambda>c. c = ''retrieve'') (rp_capabilities p))"

definition only_reads :: "api_route \<Rightarrow> bool" where
  "only_reads r \<longleftrightarrow>
     \<not> manages_kb r \<and> (reads_kb r \<or> (ar_method r, ar_path r) \<in> set unscoped_reads)"

definition open_to_retrieve :: "string \<Rightarrow> string \<Rightarrow> bool" where
  "open_to_retrieve method path =
     (if method = m_get then path \<in> set retrieve_gets else (method, path) \<in> set retrieve_others)"

text \<open>The computed facts about the table.\<close>

lemma retrieving_gets:
  "map ar_path (filter (\<lambda>r. if retrieves (ar_policy r) then ar_method r = m_get else False) kb_table) =
     retrieve_gets"
  by code_simp

lemma retrieving_others:
  "map (\<lambda>r. (ar_method r, ar_path r))
     (filter (\<lambda>r. if retrieves (ar_policy r) then ar_method r \<noteq> m_get else False) kb_table) =
     retrieve_others"
  by code_simp

lemma listed_paths_normal:
  "list_all (\<lambda>p. normalize_route_path p = p) (retrieve_gets @ map snd retrieve_others)"
  by code_simp

lemma listed_gets_only_read:
  "list_all (\<lambda>r. if ar_method r = m_get
     then (if only_reads r then True else normalize_route_path (ar_path r) \<notin> set retrieve_gets)
     else True) kb_table"
  by code_simp

lemma listed_others_only_read:
  "list_all (\<lambda>r. if ar_method r = m_get \<or> only_reads r then True
     else (ar_method r, normalize_route_path (ar_path r)) \<notin> set retrieve_others) kb_table"
  by code_simp

lemma table_policies:
  "list_all (\<lambda>r. case ar_policy r of None \<Rightarrow> True | Some p \<Rightarrow> policy_shape p) kb_table"
  by code_simp

lemma table_methods:
  "list_all (\<lambda>r. ar_method r = m_get \<or> ar_method r = m_post \<or> ar_method r = m_put \<or>
     ar_method r = m_delete) kb_table"
  by code_simp

lemma methods_upper:
  "list_all (\<lambda>m. to_upper (trim_space m) = m \<and> to_upper m = m) [m_get, m_post, m_put, m_delete]"
  by code_simp

lemma table_method_key:
  "r \<in> set kb_table \<Longrightarrow> to_upper (trim_space (ar_method r)) = ar_method r \<and> to_upper (ar_method r) = ar_method r"
  using table_methods methods_upper by (fastforce simp: list_all_iff)

lemma retrieving_route_listed:
  assumes "q \<in> set kb_table" "retrieves (ar_policy q)"
  shows "open_to_retrieve (ar_method q) (normalize_route_path (ar_path q))"
proof -
  from assms have listed: "open_to_retrieve (ar_method q) (ar_path q)"
    unfolding open_to_retrieve_def retrieving_gets [symmetric] retrieving_others [symmetric] by auto
  then have "ar_path q \<in> set (retrieve_gets @ map snd retrieve_others)"
    by (force simp: open_to_retrieve_def split: if_splits)
  with listed_paths_normal have "normalize_route_path (ar_path q) = ar_path q" by (simp add: list_all_iff)
  with listed show ?thesis by simp
qed

lemma listed_only_reads:
  assumes "r \<in> set kb_table" "open_to_retrieve (ar_method r) (normalize_route_path (ar_path r))"
  shows "only_reads r"
proof (cases "ar_method r = m_get")
  case True
  with listed_gets_only_read [unfolded list_all_iff, rule_format, OF assms(1)] assms(2) show ?thesis
    by (simp add: open_to_retrieve_def split: if_splits)
next
  case False
  with listed_others_only_read [unfolded list_all_iff, rule_format, OF assms(1)] assms(2) show ?thesis
    by (simp add: open_to_retrieve_def split: if_splits)
qed

lemma declared_route:
  assumes "declared_policy (declarations rs) m path = Some p"
  shows "\<exists>q \<in> set rs. ar_policy q = Some p \<and> to_upper (trim_space (ar_method q)) = to_upper m \<and>
    normalize_route_path (ar_path q) = normalize_route_path path"
proof -
  let ?P = "\<lambda>(m', p, pol). to_upper (trim_space m') = to_upper m \<and>
    normalize_route_path p = normalize_route_path path"
  from assms obtain d where d: "find ?P (rev (declarations rs)) = Some d" "p = snd (snd d)"
    unfolding declared_policy_def by (cases "find ?P (rev (declarations rs))") (auto simp: split_beta)
  then have "d \<in> set (declarations rs)" "?P d"
    by (metis find_Some_iff nth_mem set_rev, metis (lifting) find_Some_iff)
  moreover from this(1) obtain q where "q \<in> set rs" "ar_policy q = Some (snd (snd d))"
    "fst d = ar_method q" "fst (snd d) = ar_path q"
    by (auto simp: declarations_def map_filter_def)
  ultimately show ?thesis using d(2) by (auto simp: split_beta)
qed

text \<open>
  C7: on the routes of the knowledge tables, a key that may only retrieve changes nothing. When the
  gate, with the policies these tables declare, admits a key without full access and without the
  capabilities to ingest and to manage knowledge bases to one of their routes, the key has the retrieve
  capability and the route manages no content: it is behind a read or download guard, or is one of
  seven routes without such a guard, namely three listings, three progress reports, and the preview of
  the chunker, a POST that stores nothing and whose SystemAdmin guard stops every tenant key. Routes of
  other tables (chats, agents), to which such a key may have other capabilities, are not covered.
\<close>

theorem retrieving_key_changes_nothing:
  assumes "r \<in> set kb_table" "\<not> full_access k" "\<not> has_capability k ''ingest''"
    "\<not> has_capability k ''manage_kbs''"
    "authorize_route (authorizer_of kb_table) k (ar_method r) (ar_path r)"
  shows "has_capability k ''retrieve'' \<and> \<not> manages_kb r \<and>
    (reads_kb r \<or> (ar_method r, ar_path r) \<in> set unscoped_reads)"
proof -
  from assms(5) obtain p where p: "declared_policy (declarations kb_table) (ar_method r) (ar_path r) = Some p"
    and admits: "policy_admits p k"
    unfolding authorizer_of_def authorize_route_def lookup_register_all
    using no_empty_capability [of k]
    by (auto simp: policy_admits_def list_ex_iff split: option.splits if_splits)
  from declared_route [OF p] obtain q where q: "q \<in> set kb_table" "ar_policy q = Some p"
    and key: "to_upper (trim_space (ar_method q)) = to_upper (ar_method r)"
      "normalize_route_path (ar_path q) = normalize_route_path (ar_path r)" by blast
  from key(1) table_method_key [OF q(1)] table_method_key [OF assms(1)]
  have same: "ar_method q = ar_method r" by simp
  from table_policies q have "policy_shape p" by (fastforce simp: list_all_iff)
  then have shape: "rp_require_full p"
    "\<forall>c \<in> set (rp_capabilities p). c \<in> {''retrieve'', ''ingest'', ''manage_kbs''}"
    by (simp_all add: policy_shape_def list_all_iff)
  from admits shape(1) assms(2) obtain c where c: "c \<in> set (rp_capabilities p)" "has_capability k c"
    unfolding policy_admits_def by blast
  with shape(2) assms(3,4) have "c = ''retrieve''" by blast
  with c have cap: "''retrieve'' \<in> set (rp_capabilities p)" "has_capability k ''retrieve''" by simp_all
  have "retrieves (ar_policy q)" using q(2) cap(1) by (simp add: retrieves_def list_ex_iff)
  from retrieving_route_listed [OF q(1) this]
  have "open_to_retrieve (ar_method r) (normalize_route_path (ar_path r))"
    by (simp add: same key(2))
  from listed_only_reads [OF assms(1) this] cap(2) show ?thesis by (simp add: only_reads_def)
qed

definition retrieve_key :: api_key_scope where
  "retrieve_key = scope_normalize (key_scope world_key)"

definition wiki_issues_route :: api_route where
  "wiki_issues_route =
     \<lparr>ar_method = m_get, ar_path = ''/api/v1/knowledgebase/:kb_id/wiki/issues'',
      ar_policy = Some (api_key_retrieve api_key_full_access),
      ar_guards = [Member, KBAccessRead (ByKb ''kb_id'')]\<rparr>"

lemma wiki_issues_listed: "wiki_issues_route \<in> set kb_table"
  by (simp add: wiki_issues_route_def kb_table_def table_defs route_defs path_join_def) code_simp

theorem retrieving_key_changes_nothing_witness:
  "has_capability retrieve_key ''retrieve'' \<and> \<not> manages_kb wiki_issues_route"
proof -
  have key: "\<not> full_access retrieve_key" "\<not> has_capability retrieve_key ''ingest''"
    "\<not> has_capability retrieve_key ''manage_kbs''"
    by code_simp+
  have "declared_policy (declarations kb_table) (ar_method wiki_issues_route)
      (ar_path wiki_issues_route) = Some (api_key_retrieve api_key_full_access)"
    by code_simp
  moreover have "policy_admits (api_key_retrieve api_key_full_access) retrieve_key" by code_simp
  ultimately have "authorize_route (authorizer_of kb_table) retrieve_key
      (ar_method wiki_issues_route) (ar_path wiki_issues_route)"
    using no_empty_capability [of retrieve_key]
    unfolding authorizer_of_def authorize_route_def lookup_register_all
    by (auto simp: policy_admits_def list_ex_iff)
  from retrieving_key_changes_nothing [OF wiki_issues_listed key this] show ?thesis by blast
qed

section \<open>Members\<close>

definition upload_routes :: "(string \<times> string) list" where
  "upload_routes =
     [(m_post, ''/api/v1/knowledge-bases/:id/knowledge/file''),
      (m_post, ''/api/v1/knowledge-bases/:id/knowledge/url''),
      (m_post, ''/api/v1/knowledge-bases/:id/knowledge/manual'')]"

definition manage_shape :: "api_route \<Rightarrow> bool" where
  "manage_shape r \<longleftrightarrow>
     (case ar_guards r of
        [g, KBAccessManage _] \<Rightarrow>
          g = TenantAdmin \<or> g = DocumentEditor \<or> g = ChunkDocumentEditor \<or>
          g = Member \<and> (ar_method r, ar_path r) \<in> set upload_routes
      | _ \<Rightarrow> False)"

lemma manage_shapes: "list_all (\<lambda>r. if manages_kb r then manage_shape r else True) kb_table"
  by code_simp

text \<open>The lookups behind the guards that let a member change their own documents.\<close>

definition uploader_lookups :: "rbac_guards \<Rightarrow> creator_lookup set" where
  "uploader_lookups g = {f. rg_knowledge_uploader g = Some f \<or> rg_chunk_knowledge_uploader g = Some f}"

lemma uploader_guard_Proceed:
  assumes "require_tenant_admin_or_uploader lookup c = Proceed c'"
    "api_key_scope_from_context (gc_ctx c) = None" "\<not> is_system_admin_from_context (gc_ctx c)"
    "\<not> is_tenant_admin (c_role (caller_from_context (gc_ctx c)))"
  shows "\<exists>f. lookup = Some f \<and>
    (f c = Inl CreatorNotFound \<or> f c = Inr (c_user_id (caller_from_context (gc_ctx c))))"
  using assms
  by (auto simp: require_tenant_admin_or_uploader_def Let_def is_api_key_request_def
      split: if_splits option.splits sum.splits creator_error.splits)

text \<open>What a person who is no administrator has passed when a managing route lets them through.\<close>

lemma member_passes_managing_route:
  assumes "r \<in> set kb_table" "manages_kb r" "run_chain (route_chain g r) d = Proceed c'"
    "api_key_scope_from_context (gc_ctx d) = None" "\<not> is_system_admin_from_context (gc_ctx d)"
    "\<not> is_tenant_admin (c_role (caller_from_context (gc_ctx d)))"
  shows "\<exists>addr. kb_access_manage (rg_services g) addr d = Proceed c' \<and>
    ((ar_method r, ar_path r) \<in> set upload_routes \<or>
     (\<exists>f \<in> uploader_lookups g. f d = Inl CreatorNotFound \<or>
        f d = Inr (c_user_id (caller_from_context (gc_ctx d)))))"
proof -
  from assms(1,2) manage_shapes have "manage_shape r" by (fastforce simp: list_all_iff split: if_splits)
  then obtain h addr where guards: "ar_guards r = [h, KBAccessManage addr]"
    and h: "h = TenantAdmin \<or> h = DocumentEditor \<or> h = ChunkDocumentEditor \<or>
      h = Member \<and> (ar_method r, ar_path r) \<in> set upload_routes"
    by (auto simp: manage_shape_def split: list.splits route_guard.splits)
  then have "list_all plain_guard [h]" by (auto simp: plain_guard_def)
  from assms(3) guards have "run_chain (map (guard_handler g) ([h] @ [KBAccessManage addr])) d = Proceed c'"
    unfolding route_chain_def gate.chain_step by simp
  then have pass: "guard_handler g h d = Proceed d" "guard_handler g (KBAccessManage addr) d = Proceed c'"
    unfolding guarded_chain [OF \<open>list_all plain_guard [h]\<close>] by simp_all
  have "h \<noteq> TenantAdmin"
    using pass(1) assms(4-6)
    by (auto simp: guard_handler_def require_tenant_admin_def is_api_key_request_def)
  with h pass assms(4-6) show ?thesis
    by (intro exI [of _ addr])
      (auto simp: guard_handler_def uploader_lookups_def dest!: uploader_guard_Proceed)
qed

lemma manage_guard_listed:
  "(kb_access_manage s a, ActionContribute, perm_editor, no_lookups) \<in> set (kb_guards s a)"
  by (simp add: kb_guards_def)

lemma session_not_admin:
  assumes "jwt_session ts ms u c ss"
    "\<forall>t role. resolve_tenant_role ms u t = Some role \<longrightarrow> \<not> is_tenant_admin role"
  shows "\<not> is_tenant_admin (c_role (session_caller ss))"
proof
  assume admin: "is_tenant_admin (c_role (session_caller ss))"
  then have "has_tenant_role (session_caller ss)"
    by (auto simp: is_tenant_admin_def has_tenant_role_def role_has_permission_def role_is_valid_def
        role_level_def role_names split: if_splits)
  from session_role [OF assms(1) this]
  have "resolve_tenant_role ms u (ss_tenant_id ss) = Some (c_role (session_caller ss))"
    by (auto simp: resolve_tenant_role_def)
  with admin assms(2) show False by blast
qed

lemma contribute_right_member:
  assumes "kb_right x caller kb l p dl" "right_allows ActionContribute p dl"
    "is_authenticated_human x caller" "\<not> is_explicit_human_super_admin x caller"
  shows "is_active_owner_member caller kb (l_members l)"
  using assms by (auto elim!: kb_rightE)

text \<open>
  C8: a member who is no administrator changes content only by uploading, in their own documents, or
  where the uploader lookup finds no document of the caller's tenant. When a real person who is no SuperAdmin and administrates no tenant passes authentication and the
  guards of a managing route, the knowledge base belongs to a tenant they are an active member of, and
  the route is one of the three uploads, or the lookup of its guard names the person as the uploader, or
  that lookup reports no such document. The last case is not only that of a missing document: the lookup
  reports it for every document whose data tenant is not the caller's, and after a knowledge base
  changed its owner its documents keep the data tenant, so that every member of the new owner with
  contribute access passes the guard for all of them.
\<close>

theorem member_changes_own_documents:
  assumes "fresh_request c" "bearer_token c = Some tok" "validate_token us tok = Inr (Some u, jwt)"
    "u_id u \<noteq> []" "\<not> is_synthetic_user_id (u_id u)" "\<not> u_system_admin u"
    "\<forall>t role. resolve_tenant_role ms u t = Some role \<longrightarrow> \<not> is_tenant_admin role"
    "r \<in> set kb_table" "manages_kb r"
    "run_chain ((\<lambda>c. fst (auth ts us ms ks verify c)) # route_chain g r) c = Proceed c'"
  shows "\<exists>d a kb role. fst (auth ts us ms ks verify c) = Proceed d \<and>
    gc_kb_access c' = Some a \<and> a_kb a = Some kb \<and> kb_owner kb \<noteq> 0 \<and>
    resolve_tenant_role ms u (kb_owner kb) = Some role \<and>
    ((ar_method r, ar_path r) \<in> set upload_routes \<or>
     (\<exists>f \<in> uploader_lookups g. f d = Inl CreatorNotFound \<or> f d = Inr (u_id u)))"
proof -
  from assms(10) obtain d where auth: "fst (auth ts us ms ks verify c) = Proceed d"
    and run: "run_chain (route_chain g r) d = Proceed c'"
    unfolding run_chain_Proceed [of "\<lambda>c. fst (auth ts us ms ks verify c)"] by blast
  have fresh: "api_key_scope_from_context (gc_ctx c) = None" "\<not> is_system_admin_from_context (gc_ctx c)"
    "\<not> is_tenant_admin (c_role (caller_from_context (gc_ctx c)))"
    using assms(1)
    by (simp_all add: fresh_request_def empty_ctx_def api_key_scope_from_context_def
        is_system_admin_from_context_def caller_from_context_def caller_normalize_def
        tenant_role_from_context_def is_tenant_admin_def role_has_permission_def role_level_def role_names)
  have "d \<noteq> c"
  proof
    assume "d = c"
    with run fresh obtain addr where "kb_access_manage (rg_services g) addr c = Proceed c'"
      using member_passes_managing_route [OF assms(8,9), of g c c'] by blast
    from kb_guard_resolved [OF manage_guard_listed this] anonymous_resolves_nothing [OF assms(1)]
    show False by blast
  qed
  with auth_Proceed [OF auth] assms(2,3) obtain ss where ss: "jwt_session ts ms u c ss"
    and d: "d = apply_auth_session c ss"
    using authenticate_jwt_user_session by force
  note human = session_human [OF assms(1) ss]
  have no_admin: "\<not> ss_system_admin ss" using session_admin [OF ss] assms(6) by blast
  have person: "is_human_caller (session_caller ss)"
    using human(4) assms(4,5) by (simp add: is_human_caller_def)
  have "api_key_scope_from_context (gc_ctx d) = None" "\<not> is_system_admin_from_context (gc_ctx d)"
    "\<not> is_tenant_admin (c_role (caller_from_context (gc_ctx d)))"
    using d human(1) no_admin session_not_admin [OF ss assms(7)]
    by (simp_all add: api_key_scope_from_context_def is_system_admin_from_context_def)
  from member_passes_managing_route [OF assms(8,9) run this] d human(4) obtain addr
    where guard: "kb_access_manage (rg_services g) addr d = Proceed c'"
    and own: "(ar_method r, ar_path r) \<in> set upload_routes \<or>
      (\<exists>f \<in> uploader_lookups g. f d = Inl CreatorNotFound \<or> f d = Inr (u_id u))" by auto
  from kb_guard_resolved [OF manage_guard_listed guard] obtain i a
    where res: "resolved (rg_services g) d i ActionContribute perm_editor no_lookups a"
    and c': "gc_kb_access c' = Some a" by auto
  from resolved_right [OF res] obtain kb where kb: "a_kb a = Some kb"
    and right: "kb_right (gc_ctx d) (session_caller ss) kb no_lookups (a_permission a) (a_can_download a)"
    and allows: "right_allows ActionContribute (a_permission a) (a_can_download a)"
    using d by auto
  have "is_active_owner_member (session_caller ss) kb (l_members no_lookups)"
    using contribute_right_member [OF right allows] d human(2,3) person no_admin by simp
  then have "kb_owner kb \<noteq> 0" "ss_tenant_id ss = kb_owner kb" "has_tenant_role (session_caller ss)"
    by (auto simp: is_active_owner_member_def session_caller_def split: if_splits)
  with session_role [OF ss] have "\<exists>role. resolve_tenant_role ms u (kb_owner kb) = Some role"
    by (auto simp: resolve_tenant_role_def)
  with auth c' kb own \<open>kb_owner kb \<noteq> 0\<close> show ?thesis by blast
qed

definition upload_route :: api_route where
  "upload_route =
     \<lparr>ar_method = m_post, ar_path = ''/api/v1/knowledge-bases/:id/knowledge/file'',
      ar_policy = Some (api_key_ingest api_key_full_access),
      ar_guards = [Member, KBAccessManage (ByKb ''id'')]\<rparr>"

lemma upload_listed: "upload_route \<in> set kb_table"
  by (simp add: upload_route_def kb_table_def table_defs route_defs path_join_def) code_simp

definition world_guards :: rbac_guards where
  "world_guards =
     \<lparr>rg_enforced = True, rg_profiles = None, rg_knowledge_uploader = None,
      rg_chunk_knowledge_uploader = None, rg_services = world_kbs (sample_kb 7 vis_tenant),
      rg_authorizer = world_routes\<rparr>"

theorem member_changes_own_documents_witness:
  "\<exists>c' a kb. run_chain ((\<lambda>c. fst (auth world_tenants world_users world_members (Some world_keys)
        world_verify c)) # route_chain world_guards upload_route)
      ((world_request (only_header ''Authorization'' ''Bearer t1''))\<lparr>gc_method := m_post,
        gc_path := ''/api/v1/knowledge-bases/kb1/knowledge/file'',
        gc_full_path := ''/api/v1/knowledge-bases/:id/knowledge/file''\<rparr>) = Proceed c' \<and>
     gc_kb_access c' = Some a \<and> a_kb a = Some kb \<and> kb_owner kb \<noteq> 0"
proof -
  let ?c = "(world_request (only_header ''Authorization'' ''Bearer t1''))\<lparr>gc_method := m_post,
    gc_path := ''/api/v1/knowledge-bases/kb1/knowledge/file'',
    gc_full_path := ''/api/v1/knowledge-bases/:id/knowledge/file''\<rparr>"
  let ?hs = "(\<lambda>c. fst (auth world_tenants world_users world_members (Some world_keys) world_verify c))
    # route_chain world_guards upload_route"
  have "proceeds (run_chain ?hs ?c)" by code_simp
  then obtain c' where run: "run_chain ?hs ?c = Proceed c'" by (blast dest: proceedsD)
  have req: "fresh_request ?c" "bearer_token ?c = Some ''t1''"
    using fresh_world world_token(1) by (simp_all add: fresh_request_def bearer_token_def)
  have user: "validate_token world_users ''t1'' = Inr (Some (world_user ''u1''), 7)"
    "u_id (world_user ''u1'') \<noteq> []" "\<not> is_synthetic_user_id (u_id (world_user ''u1''))"
    "\<not> u_system_admin (world_user ''u1'')"
    "\<forall>t role. resolve_tenant_role world_members (world_user ''u1'') t = Some role \<longrightarrow>
       \<not> is_tenant_admin role"
    by (auto simp: world_users_def world_user_def world_members_def resolve_tenant_role_def
        is_synthetic_user_id_def synthetic_prefix_def is_tenant_admin_def role_has_permission_def
        role_level_def role_names split: if_splits)
  have "manages_kb upload_route" by (simp add: manages_kb_def upload_route_def)
  from member_changes_own_documents [OF req user upload_listed this run] run
  show ?thesis by blast
qed

end
