(* ===== verification/Spec2Isabelle.thy ===== *)
theory Spec2Isabelle
  imports Ip_Class Rfb_Stream Think_Stream Kb_Transfer Json_Field Approval_Gate Stream_Manager Lifecycle_Lock Compaction
    Handle_Stream Lifecycle_Safety Chunk_Edit Chunk_Join Chunk_Budget Chunk_Strategy Qa_Queue Model_Limiter
    Knowledge_Rules
begin

text \<open>
  \<^bold>\<open>WeRAG: a verification library for the core logic of the server.\<close>

  WeRAG answers questions over knowledge bases of documents. A request carries a caller through
  the HTTP layer; an access decision admits it to a knowledge base; an agent loop calls a language
  model and tools, streams the answer back in chunks, asks a human before dangerous tool calls,
  runs code in remote sandboxes bound to the chat session, and compacts the conversation when it
  outgrows the model's window. The library models the parts of this that decide something:
  who may do what, what a chunked stream means, which concurrent party wins, and what a rewriting
  of the conversation keeps. Paths below are under \<^verbatim>\<open>src/internal/\<close>.

  \<^bold>\<open>Theories.\<close>

  \<^item> \<open>Prelude\<close>: the hint collections, the Go string operations (\<^verbatim>\<open>strings.Index\<close>, \<^verbatim>\<open>HasPrefix\<close>,
    \<^verbatim>\<open>TrimSpace\<close> on UTF-8 bytes, \<^verbatim>\<open>ToLower\<close>), decimal numbers, errors as sums, and three interfaces:
    \<open>chunk_machine\<close> and \<open>chunk_transducer\<close> (a parser fed in chunks ends and outputs as if fed at
    once) and \<open>ranked\<close> (roles and permissions ordered by level).
  \<^item> \<open>Api_Key_Scope\<close> (\<^verbatim>\<open>types/tenant_api_key.go\<close>), \<open>Caller_Ctx\<close> (\<^verbatim>\<open>types/caller.go\<close>,
    \<^verbatim>\<open>types/context_helpers.go\<close>, \<^verbatim>\<open>types/principal.go\<close>, \<^verbatim>\<open>types/tenant_member.go\<close>): what a request
    context says about its caller. \<open>Kb_Access\<close> and \<open>Kb_Rules\<close> (\<^verbatim>\<open>application/access/\<close>): the access
    decision on a knowledge base, the grants it leaves in the context, its per-request cache and the
    gate of file downloads; \<open>Kb_Transfer\<close> (\<^verbatim>\<open>application/access/kb_transfer.go\<close>): the two-resource
    grant of a clone or a move. \<open>Kb_Rules\<close> states the permission model as a list of rules and shows
    that the code's decision is exactly the best rule that applies, that an API key never leaves its
    scope, that writes stay with the owning tenant, that the cache is invisible and the file gate
    fails closed.
  \<^item> \<open>Route_Paths\<close> (the path tests of \<^verbatim>\<open>middleware/auth.go\<close>, \<^verbatim>\<open>guest_chat.go\<close>), \<open>Auth_Request\<close> and
    \<open>Auth_Rules\<close> (\<^verbatim>\<open>middleware/auth.go\<close>, \<^verbatim>\<open>auth_context.go\<close>, \<^verbatim>\<open>guest_chat.go\<close>, \<^verbatim>\<open>ws_auth.go\<close>),
    \<open>Route_Guards\<close> (\<^verbatim>\<open>middleware/api_key_gate.go\<close>, \<^verbatim>\<open>rbac.go\<close> and the guards of \<^verbatim>\<open>router/\<close>),
    \<open>Kb_Guard\<close> (\<^verbatim>\<open>middleware/kb_access.go\<close>) and \<open>Route_Access\<close>: the way of a request through the HTTP
    layer. The authentication middleware turns credentials into the context's caller, the gate of API
    keys and the role guards of the route admit or stop it, the knowledge-base guard asks \<open>Kb_Access\<close>.
    The guards that only stop a request or hand it on unchanged share the interface \<open>pass_through\<close>;
    \<open>Route_Access\<close> composes the whole chain of a knowledge-base route and shows what each kind of
    caller can reach: a session without a tenant reads open bases only, an API key stays in its
    tenant, a member's identity comes from an active membership.
  \<^item> \<open>Route_Table\<close> (\<^verbatim>\<open>router/rbac.go\<close>) and \<open>Knowledge_Routes\<close> (\<^verbatim>\<open>router/routes_knowledge.go\<close>,
    the grant and invitation routes of \<^verbatim>\<open>routes_agent.go\<close>): routes as data, with the guards and the
    API-key policy each declares. \<open>Knowledge_Rules\<close> checks the tables as a whole: a path that is open
    without a tenant ends in a guard of its own, a key that only retrieves passes the gate to none of
    these routes that changes content, and a member changes only what is theirs or what the lookup of
    the uploader does not find in the tenant.
  \<^item> \<open>Ip_Class\<close> (\<^verbatim>\<open>ipclass/ipclass.go\<close>): the address classes of the guards against server-side
    request forgery; addresses are byte lists, as \<^verbatim>\<open>net.IP\<close> is. The lemmas give an octet-level
    reference table and show that no IPv6 spelling of a restricted address is public.
  \<^item> \<open>Rfb_Stream\<close> (\<^verbatim>\<open>handler/session/sandbox_desktop_rfb.go\<close>): the parser of the remote desktop
    stream: framing independent of chunking, activity, the buffer bound, the two handshake readers.
  \<^item> \<open>Think_Stream\<close> (\<^verbatim>\<open>agent/tools/think_stream.go\<close>, \<^verbatim>\<open>strip_think.go\<close>) and \<open>Json_Field\<close>
    (\<^verbatim>\<open>models/chat/json_field_extractor.go\<close>): the splitter of inline reasoning and the extractor of
    one string field from a JSON text under construction, both equal to a batch function of the
    concatenated chunks. For the extractor a relation \<open>spells\<close>, independent of the code, says which
    texts of a JSON string denote a value: raw bytes, short escapes, and hexadecimal escapes of
    characters of the basic plane.
  \<^item> \<open>Handle_Table\<close> and \<open>Handle_Stream\<close> (\<^verbatim>\<open>modelcontext/\<close>): the tables of request-local handles
    given to the model, the text codecs and the streaming decoders with the filter of unresolved
    handles, again independent of chunking.
  \<^item> \<open>Approval_Gate\<close> (\<^verbatim>\<open>agent/approval/gate.go\<close>): the human approval of tool calls. The goroutines
    that wait, resolve, cancel or listen are processes of a step relation over the gate's state, one
    step per critical section; the lemmas are invariants of the reachable states: an approval needs
    an authorised user, one decision wins and both sides learn it, a waiting call always returns.
    The cross-instance protocol over redis is modelled by the messages it sends.
  \<^item> \<open>Stream_Manager\<close> (\<^verbatim>\<open>stream/memory_manager.go\<close>): the event log a client polls by offset.
    Its interface \<open>offset_log\<close> says what polling reads; the model is its interpretation.
  \<^item> \<open>Session_Binding\<close> and \<open>Lifecycle_Lock\<close> (\<^verbatim>\<open>sandbox/session_binding.go\<close>): the store of sandbox
    bindings with its validation, leases and the invalidation scan (interface \<open>binding_scanner\<close>),
    and the reference-counted lock per session as a step relation. \<open>Session_Lifecycle\<close> and
    \<open>Lifecycle_Safety\<close> (\<^verbatim>\<open>sandbox/session_lifecycle.go\<close>, \<^verbatim>\<open>session_connect.go\<close>, \<^verbatim>\<open>remote_client.go\<close>,
    \<^verbatim>\<open>remote_errors.go\<close>): how a chat session gets, reconnects, replaces, pauses and gives up its
    remote sandbox. The provider and the store are parameters that may fail at any call; the lemmas
    show that a resolved session is left with one sandbox, that every sandbox created is returned,
    bound or destroyed, that an ambiguous failure destroys nothing, and what a destroy releases.
  \<^item> \<open>Compaction_Plan\<close>, \<open>File_Ops\<close>, \<open>Compaction\<close> (\<^verbatim>\<open>agent/compaction/\<close>, \<^verbatim>\<open>agent/token/estimator.go\<close>):
    budgets and cut point, the tracked file paths, and the whole compaction: what it keeps, that the
    cut is the best legal one, that file paths survive, and that repeated compaction comes to an end.
  \<^item> \<open>Go_Regexp\<close>: text as code points with byte offsets, and the part of Go's \<^verbatim>\<open>regexp\<close> package
    (leftmost-first matching, submatches, replacement) that the patterns below need.
  \<^item> \<open>Chunk_Units\<close>, \<open>Chunk_Headers\<close>, \<open>Chunk_Merge\<close>, \<open>Chunk_Split\<close>, \<open>Chunk_Budget\<close>
    (\<^verbatim>\<open>infrastructure/chunker/splitter.go\<close>, \<^verbatim>\<open>header_tracker.go\<close>): the recursive splitter. A text is
    cut into units around protected regions, units are packed into chunks with an overlap and, inside
    a table, its repeated header (\<open>table_header\<close> says which texts these are). The invariant of the packing loop gives coverage, the budget, the
    numbering and the meaning of the offsets, also of children below a parent.
  \<^item> \<open>Chunk_Join\<close> (\<^verbatim>\<open>searchutil/chunkmerge.go\<close>, \<^verbatim>\<open>application/service/chat_pipeline/merge_overlap.go\<close>)
    and \<open>Chunk_Edit\<close> (\<^verbatim>\<open>application/service/chunk.go\<close>): chunks put together again after retrieval,
    and the parent rebuilt from edited children.
  \<^item> \<open>Chunk_Profile\<close> (\<^verbatim>\<open>patterns.go\<close>, \<^verbatim>\<open>heading_hierarchy.go\<close>, \<^verbatim>\<open>profiler.go\<close>), \<open>Chunk_Headings\<close>
    (\<^verbatim>\<open>heading_splitter.go\<close>), \<open>Chunk_Heuristic\<close> (\<^verbatim>\<open>heuristic_splitter.go\<close>), \<open>Legal_Structure\<close> and
    \<open>Legal_Rules\<close> (\<^verbatim>\<open>vietnamese_legal/structure.go\<close>), \<open>Legal_Chunks\<close> (\<^verbatim>\<open>chunker/vietnamese_legal.go\<close>),
    \<open>Chunk_Strategy\<close> (\<^verbatim>\<open>strategy.go\<close>, \<^verbatim>\<open>validator.go\<close>, \<^verbatim>\<open>tokens.go\<close>): the adaptive tiers over the
    recursive splitter and the choice between them. Each chunk of a tier
    is the text of its range, alone or behind a table header of the document, chunks are numbered
    and no visible rune is lost, so the result is whatever tier wins; an article of a law that
    fits a chunk is never cut; the parsers of articles, khoan and diem follow the outline of a law:
    khoan numbers rise from 1 between two headings, diem letters within a khoan. Children carry the index
    of the parent they were cut from, and -1 only if the parent was not divided.
  \<^item> \<open>Qa_Queue\<close> (\<^verbatim>\<open>im/qaqueue.go\<close>): the bounded queue of the chat gateways with its workers, its
    limits per user and the gate shared through redis, as a step relation: the queue keeps its limit, and
    without redis the limit per user, no request is lost or executed twice, no wake-up is lost.
    \<open>Rate_Limit\<close> (\<^verbatim>\<open>ratelimit/limiter.go\<close>) and \<open>Model_Limiter\<close> (\<^verbatim>\<open>models/limiter/\<close>): the sliding
    window of requests, equal to a complete log for calls one at a time, and the cap on concurrent model
    calls, in process and as leases in redis. Both also show runs in which the limit fails. The
    statements of a worker and of \<^verbatim>\<open>Acquire\<close> that change a counter are steps of their own, and
    \<^verbatim>\<open>Metrics\<close> and \<^verbatim>\<open>RuntimeStats\<close> take the states in which they read each value.

  \<^bold>\<open>Reading the model.\<close> A Go struct is a record with the struct's fields, a string is the list of
  its bytes (in the chunking theories, where texts are valid UTF-8, of its code points, with byte
  offsets computed from them), \<^verbatim>\<open>(T, error)\<close> is a sum with the error on the left, a nil pointer is \<open>None\<close>, a map is a
  partial map. A method with a pointer receiver returns the new state. Word-size arithmetic appears
  where the code depends on it (the signed clipboard length of \<open>Rfb_Stream\<close>, the \<^verbatim>\<open>int\<close> divisions of
  \<open>Compaction_Plan\<close>, which truncate); token counts, ids and event numbers are unbounded. Code that
  is not in the repository is a parameter: the tokenizer, the JSON decoder of tool arguments, the
  model's summary stream, the policy checker, the database lookups of an access decision, the sandbox
  provider, the redis commands behind the queue and the limiters, the tables of users, tenants and members,
  the verification of a signed token of an outside identity provider, and the Unicode categories of letters and digits (\<open>unicode_tables\<close>). The two uses of
  floating point that decide something are modelled exactly: the character budget of a token limit
  by rounding double products, the heading density by its integer equivalent.

  \<^bold>\<open>Bounds.\<close> The handshake readers of \<open>Rfb_Stream\<close> stop after 64 frames, as the code does. The loops
  over text recurse on a shorter text and need no fuel. \<open>compact_rounds\<close> repeats compaction with a
  round count; one more than the number of live messages is enough, which is the statement of the
  termination property. A unit of the recursive splitter has at most 7500 runes, the code's
  absolute maximum, hence the size hypothesis of the chunking properties; above it the code repeats
  text (a finding of the manifest).

  \<^bold>\<open>Not modelled.\<close> The services that only sequence calls of databases, queues, model providers and
  sandbox clients (ingestion, retrieval, wiki pages, chat gateways, the handlers behind the guards), document formats,
  the extraction of citations, validity and entities from legal texts beyond their structure, and the
  Redis implementations, whose logic is in scripts run by the server. Within the modelled packages:
  the regular expressions that find stored references and overflow messages, JSON re-encoding of
  tool arguments, source citations, image references of chunks, the statistics of the document
  profile that only a preview shows, the tables of the other routes, the authentication of embedded pages, of the MCP endpoint and
  of webhooks, audit rows, prompt texts, logging and metrics.
\<close>

end
